(* ===== verification/BB_Prelude.thy ===== *)
theory BB_Prelude
  imports Main "HOL-Library.Multiset" "HOL-Library.Word" "HOL-Library.Char_ord"
begin

text \<open>
  Shared vocabulary of the development: the fixed-width integer types, task identities, the
  array operations the C code uses on heap-allocated buffers, and the generic lemmas on lists,
  multisets and words that several components rest on.
\<close>

unbundle bit_operations_syntax

named_theorems arr_simps \<open>how the array operations act on lengths, elements and contents\<close>
named_theorems inv_intros \<open>preservation lemmas of the component invariants\<close>

section \<open>Types\<close>

type_synonym u8 = "8 word"
type_synonym u32 = "32 word"
type_synonym u64 = "64 word"

text \<open>A pointer to a task is the identity of the task in the store of live tasks.\<close>

type_synonym tid = nat

text \<open>File descriptors (\<open>bb_socket_t\<close>) are plain integers on the platforms modelled.\<close>

type_synonym fd = int

section \<open>Arrays\<close>

text \<open>
  A C array of which the first \<open>n\<close> slots are live is a list at least \<open>n\<close> long. The live
  content is \<open>take n\<close>.
\<close>

definition arr_swap :: "'a list \<Rightarrow> nat \<Rightarrow> nat \<Rightarrow> 'a list" where
  "arr_swap xs a b = xs[a := xs ! b, b := xs ! a]"

lemma length_arr_swap [simp, arr_simps]: "length (arr_swap xs a b) = length xs"
  by (simp add: arr_swap_def)

lemma nth_arr_swap [arr_simps]:
  "a < length xs \<Longrightarrow> b < length xs \<Longrightarrow>
   arr_swap xs a b ! i = (if i = a then xs ! b else if i = b then xs ! a else xs ! i)"
  by (auto simp: arr_swap_def nth_list_update)

lemma take_arr_swap [arr_simps]:
  "a < n \<Longrightarrow> b < n \<Longrightarrow> n \<le> length xs \<Longrightarrow> take n (arr_swap xs a b) = arr_swap (take n xs) a b"
  by (simp add: arr_swap_def take_update_swap)

lemma mset_arr_swap [simp, arr_simps]:
  "a < length xs \<Longrightarrow> b < length xs \<Longrightarrow> mset (arr_swap xs a b) = mset xs"
  by (simp add: arr_swap_def mset_swap)

lemma drop_arr_swap [arr_simps]:
  "a < n \<Longrightarrow> b < n \<Longrightarrow> n \<le> length xs \<Longrightarrow> drop n (arr_swap xs a b) = drop n xs"
  by (simp add: arr_swap_def)

lemma mset_take_Suc:
  "n < length xs \<Longrightarrow> mset (take (Suc n) xs) = add_mset (xs ! n) (mset (take n xs))"
  by (simp add: take_Suc_conv_app_nth)

lemma sub_add_mset: "M \<subseteq># add_mset x M"
  by (subst add_mset_add_single) (rule mset_subset_eq_add_left)

lemma add_mset_eq_diff:
  "add_mset x A = add_mset y B \<Longrightarrow> x \<in># B \<Longrightarrow> A = add_mset y (B - {#x#})"
  by (metis add_mset_remove_trivial diff_union_swap2 insert_DiffM)

lemma mset_take_update:
  assumes "i < n" and "n \<le> length xs"
  shows "add_mset (xs ! i) (mset (take n (xs[i := x]))) = add_mset x (mset (take n xs))"
proof -
  have "mset ((take n xs)[i := x]) = add_mset x (mset (take n xs) - {#xs ! i#})"
    using assms by (simp add: mset_update)
  moreover have "xs ! i \<in># mset (take n xs)"
    using assms by (auto simp: in_set_conv_nth intro!: exI [of _ i])
  ultimately show ?thesis
    using assms by (simp add: take_update_swap)
qed

text \<open>Unordered removal from an array: the last live slot moves into the hole.\<close>

definition arr_remove_swap :: "'a list \<Rightarrow> nat \<Rightarrow> 'a list" where
  "arr_remove_swap xs i = butlast (xs[i := last xs])"

lemma length_arr_remove_swap [simp, arr_simps]: "length (arr_remove_swap xs i) = length xs - 1"
  by (simp add: arr_remove_swap_def)

lemma mset_arr_remove_swap [arr_simps]:
  assumes "i < length xs"
  shows "mset (arr_remove_swap xs i) = mset xs - {#xs ! i#}"
proof (cases xs rule: rev_cases)
  case Nil
  with assms show ?thesis by simp
next
  case (snoc ys y)
  show ?thesis
  proof (cases "i = length ys")
    case True
    with snoc show ?thesis by (simp add: arr_remove_swap_def)
  next
    case False
    then have i: "i < length ys" using assms snoc by simp
    then have "arr_remove_swap xs i = ys[i := y]"
      using snoc by (simp add: arr_remove_swap_def list_update_append butlast_append)
    moreover have "ys ! i \<in># mset ys" using i by simp
    ultimately show ?thesis
      using i snoc by (simp add: mset_update nth_append)
  qed
qed

lemma set_arr_remove_swap_sub: "i < length xs \<Longrightarrow> set (arr_remove_swap xs i) \<subseteq> set xs"
  using mset_arr_remove_swap [of i xs] by (metis in_diffD set_mset_mset subsetI)

lemma arr_remove_swap_map:
  "i < length xs \<Longrightarrow> map f (arr_remove_swap xs i) = arr_remove_swap (map f xs) i"
  by (cases xs rule: rev_cases) (auto simp: arr_remove_swap_def map_butlast map_update last_map)

lemma distinct_arr_remove_swap:
  "distinct xs \<Longrightarrow> i < length xs \<Longrightarrow>
   distinct (arr_remove_swap xs i) \<and> set (arr_remove_swap xs i) = set xs - {xs ! i}"
proof -
  assume d: "distinct xs" and i: "i < length xs"
  then have "mset (arr_remove_swap xs i) = mset (remove1 (xs ! i) xs)"
    by (simp add: mset_arr_remove_swap)
  with d show ?thesis
    by (metis distinct_remove1 mset_eq_imp_distinct_iff mset_eq_setD set_remove1_eq)
qed

section \<open>The contract of a minimum queue\<close>

text \<open>
  What the event loop relies on when it fires timers: the head is the least element, and
  popping or re-keying the head changes nothing else.
\<close>

locale min_queue =
  fixes inv :: "'q \<Rightarrow> bool"
    and contents :: "'q \<Rightarrow> 'a multiset"
    and key :: "'a \<Rightarrow> 'k::linorder"
    and rekey :: "'k \<Rightarrow> 'a \<Rightarrow> 'a"
    and peek :: "'q \<Rightarrow> 'a option"
    and pop :: "'q \<Rightarrow> 'q"
    and resched :: "'q \<Rightarrow> 'k \<Rightarrow> 'q"
  assumes peek_none: "inv q \<Longrightarrow> peek q = None \<longleftrightarrow> contents q = {#}"
    and peek_min: "inv q \<Longrightarrow> peek q = Some x \<Longrightarrow>
                   x \<in># contents q \<and> (\<forall>y\<in>#contents q. key x \<le> key y)"
    and pop_inv: "inv q \<Longrightarrow> inv (pop q)"
    and pop_contents: "inv q \<Longrightarrow> peek q = Some x \<Longrightarrow> contents (pop q) = contents q - {#x#}"
    and resched_inv: "inv q \<Longrightarrow> inv (resched q k)"
    and resched_contents: "inv q \<Longrightarrow> peek q = Some x \<Longrightarrow>
                           contents (resched q k) = add_mset (rekey k x) (contents q - {#x#})"
    and key_rekey: "key (rekey k x) = k"
begin

definition due :: "'k \<Rightarrow> 'q \<Rightarrow> 'a multiset" where
  "due now q = filter_mset (\<lambda>x. key x \<le> now) (contents q)"

lemma not_due_head:
  assumes "inv q" and "peek q = Some x" and "\<not> key x \<le> now"
  shows "due now q = {#}"
  using peek_min [OF assms(1,2)] assms(3)
  by (auto simp: due_def filter_mset_eq_mempty_iff dest: order_trans)

lemma no_head_no_due: "inv q \<Longrightarrow> peek q = None \<Longrightarrow> due now q = {#}"
  by (simp add: due_def peek_none)

lemma pop_due:
  assumes "inv q" and "peek q = Some x" and "key x \<le> now"
  shows "add_mset x (due now (pop q)) = due now q"
  using peek_min [OF assms(1,2)] assms
  by (auto simp: due_def pop_contents multiset_filter_mono filter_diff_mset)

lemma resched_due:
  assumes "inv q" and "peek q = Some x" and "key x \<le> now" and "now < k"
  shows "add_mset x (due now (resched q k)) = due now q"
  using peek_min [OF assms(1,2)] assms
  by (auto simp: due_def resched_contents key_rekey filter_diff_mset)

lemma pop_later:
  assumes "inv q" and "peek q = Some x" and "peek (pop q) = Some y"
  shows "key x \<le> key y"
proof -
  have "y \<in># contents (pop q)"
    using peek_min [OF pop_inv [OF assms(1)] assms(3)] by blast
  then have "y \<in># contents q"
    by (simp add: pop_contents [OF assms(1,2)] in_diffD)
  with peek_min [OF assms(1,2)] show ?thesis by blast
qed

end

end
