(* ===== verification/Timer_Heap.thy ===== *)
theory Timer_Heap
  imports BB_Prelude
begin

text \<open>
  The timer heap of \<open>modules/runtime/src/timer_heap.c\<close>: a growable array of timers kept as a
  binary min-heap on the next firing time.
\<close>

section \<open>Data\<close>

record bb_timer =
  interval_ms :: u64
  next_fire_ms :: u64
  repeating :: int
  timer_task :: tid

record bb_timer_heap =
  th_items :: "bb_timer list"
  th_count :: nat
  th_capacity :: nat

definition BB_TIMER_HEAP_INITIAL_CAPACITY :: nat where
  "BB_TIMER_HEAP_INITIAL_CAPACITY = 16"

text \<open>
  The content \<open>malloc\<close> and \<open>realloc\<close> leave in fresh slots is indeterminate. The model fills
  them with this record; no operation reads a slot at or beyond \<open>th_count\<close>.
\<close>

definition fresh_slot :: bb_timer where
  "fresh_slot = \<lparr>interval_ms = 0, next_fire_ms = 0, repeating = 0, timer_task = 0\<rparr>"

section \<open>Operations\<close>

definition bb_timer_heap_create :: "bool \<Rightarrow> bool \<Rightarrow> bb_timer_heap option" where
  "bb_timer_heap_create heap_ok items_ok =
     (if \<not> heap_ok then None
      else if \<not> items_ok then None
      else Some \<lparr>th_items = replicate BB_TIMER_HEAP_INITIAL_CAPACITY fresh_slot,
                 th_count = 0,
                 th_capacity = BB_TIMER_HEAP_INITIAL_CAPACITY\<rparr>)"

definition parent_ix :: "nat \<Rightarrow> nat" where
  "parent_ix i = (i - 1) div 2"

lemma parent_ix_less [simp]: "0 < i \<Longrightarrow> parent_ix i < i"
  unfolding parent_ix_def by linarith

fun sift_up :: "bb_timer list \<Rightarrow> nat \<Rightarrow> bb_timer list" where
  "sift_up xs idx =
     (if idx > 0
      then let parent = parent_ix idx
           in if next_fire_ms (xs ! parent) \<le> next_fire_ms (xs ! idx) then xs
              else sift_up (arr_swap xs idx parent) parent
      else xs)"

declare sift_up.simps [simp del]

definition smallest_child :: "bb_timer list \<Rightarrow> nat \<Rightarrow> nat \<Rightarrow> nat" where
  "smallest_child xs n idx =
     (let left = 2 * idx + 1;
          right = 2 * idx + 2;
          smallest = idx;
          smallest = (if left < n \<and> next_fire_ms (xs ! left) < next_fire_ms (xs ! smallest)
                      then left else smallest);
          smallest = (if right < n \<and> next_fire_ms (xs ! right) < next_fire_ms (xs ! smallest)
                      then right else smallest)
      in smallest)"

lemma smallest_child_cases:
  "smallest_child xs n idx = idx \<or>
   (idx < smallest_child xs n idx \<and> smallest_child xs n idx < n \<and>
    parent_ix (smallest_child xs n idx) = idx)"
  by (auto simp: smallest_child_def Let_def parent_ix_def)

function sift_down :: "bb_timer list \<Rightarrow> nat \<Rightarrow> nat \<Rightarrow> bb_timer list" where
  "sift_down xs n idx =
     (let smallest = smallest_child xs n idx
      in if smallest = idx then xs
         else sift_down (arr_swap xs idx smallest) n smallest)"
  by pat_completeness auto
termination
proof (relation "measure (\<lambda>(xs, n, idx). n - idx)")
  fix xs :: "bb_timer list" and n idx x
  assume "x = smallest_child xs n idx" and "x \<noteq> idx"
  then show "((arr_swap xs idx x, n, x), xs, n, idx) \<in> measure (\<lambda>(xs, n, idx). n - idx)"
    using smallest_child_cases [of xs n idx] by auto
qed simp

declare sift_down.simps [simp del]

definition heap_grow :: "bool \<Rightarrow> bb_timer_heap \<Rightarrow> bb_timer_heap option" where
  "heap_grow realloc_ok h =
     (let new_capacity = th_capacity h * 2
      in if \<not> realloc_ok then None
         else Some (h\<lparr>th_items := th_items h @ replicate (new_capacity - th_capacity h) fresh_slot,
                      th_capacity := new_capacity\<rparr>))"

text \<open>
  The part of \<open>bb_timer_heap_push\<close> behind the guard on its pointers; \<open>None\<close> is the failed
  \<open>realloc\<close>.
\<close>

definition timer_push :: "bool \<Rightarrow> bb_timer_heap \<Rightarrow> bb_timer \<Rightarrow> bb_timer_heap option" where
  "timer_push realloc_ok h t =
     (case (if th_count h \<ge> th_capacity h then heap_grow realloc_ok h else Some h) of
        None \<Rightarrow> None
      | Some h' \<Rightarrow>
          (let idx = th_count h';
               items = (th_items h')[idx := t]
           in Some (h'\<lparr>th_items := sift_up items idx, th_count := th_count h' + 1\<rparr>)))"

definition bb_timer_heap_push ::
  "bool \<Rightarrow> bb_timer_heap option \<Rightarrow> u64 \<Rightarrow> u64 \<Rightarrow> int \<Rightarrow> tid option \<Rightarrow> int \<times> bb_timer_heap option"
where
  "bb_timer_heap_push realloc_ok heap nxt ivl rep tsk =
     (case (heap, tsk) of
        (Some h, Some t) \<Rightarrow>
          (case timer_push realloc_ok h
                  \<lparr>interval_ms = ivl, next_fire_ms = nxt, repeating = rep, timer_task = t\<rparr> of
             None \<Rightarrow> (-1, Some h)
           | Some h' \<Rightarrow> (0, Some h'))
      | _ \<Rightarrow> (-1, heap))"

definition timer_peek :: "bb_timer_heap \<Rightarrow> bb_timer option" where
  "timer_peek h = (if th_count h = 0 then None else Some (th_items h ! 0))"

definition bb_timer_heap_peek :: "bb_timer_heap option \<Rightarrow> bb_timer option" where
  "bb_timer_heap_peek heap = (case heap of None \<Rightarrow> None | Some h \<Rightarrow> timer_peek h)"

definition remove_at :: "bb_timer_heap \<Rightarrow> nat \<Rightarrow> bb_timer_heap" where
  "remove_at h idx =
     (let n = th_count h - 1
      in if idx = n then h\<lparr>th_count := n\<rparr>
         else h\<lparr>th_count := n,
                th_items := sift_up (sift_down ((th_items h)[idx := th_items h ! n]) n idx) idx\<rparr>)"

definition timer_pop :: "bb_timer_heap \<Rightarrow> bb_timer_heap" where
  "timer_pop h = (if th_count h = 0 then h else remove_at h 0)"

definition bb_timer_heap_pop :: "bb_timer_heap option \<Rightarrow> bb_timer_heap option" where
  "bb_timer_heap_pop heap = map_option timer_pop heap"

definition timer_reschedule_top :: "bb_timer_heap \<Rightarrow> u64 \<Rightarrow> bb_timer_heap" where
  "timer_reschedule_top h nxt =
     (if th_count h = 0 then h
      else h\<lparr>th_items :=
               sift_down ((th_items h)[0 := (th_items h ! 0)\<lparr>next_fire_ms := nxt\<rparr>]) (th_count h) 0\<rparr>)"

definition bb_timer_heap_reschedule_top :: "bb_timer_heap option \<Rightarrow> u64 \<Rightarrow> bb_timer_heap option" where
  "bb_timer_heap_reschedule_top heap nxt = map_option (\<lambda>h. timer_reschedule_top h nxt) heap"

lemma th_count_remove_at [simp]: "th_count (remove_at h idx) = th_count h - 1"
  by (simp add: remove_at_def Let_def)

text \<open>The scan of \<open>bb_timer_heap_remove_task\<close> from index \<open>i\<close>, with its count so far.\<close>

function remove_task_from :: "bb_timer_heap \<Rightarrow> tid \<Rightarrow> nat \<Rightarrow> int \<Rightarrow> int \<times> bb_timer_heap" where
  "remove_task_from h t i removed =
     (if i < th_count h
      then if timer_task (th_items h ! i) = t
           then remove_task_from (remove_at h i) t i (removed + 1)
           else remove_task_from h t (i + 1) removed
      else (removed, h))"
  by pat_completeness auto
termination
  by (relation "measure (\<lambda>(h, t, i, removed). th_count h - i)") auto

declare remove_task_from.simps [simp del]

definition timer_remove_task :: "bb_timer_heap \<Rightarrow> tid \<Rightarrow> int \<times> bb_timer_heap" where
  "timer_remove_task h t = remove_task_from h t 0 0"

definition bb_timer_heap_remove_task ::
  "bb_timer_heap option \<Rightarrow> tid option \<Rightarrow> int \<times> bb_timer_heap option" where
  "bb_timer_heap_remove_task heap tsk =
     (case (heap, tsk) of
        (Some h, Some t) \<Rightarrow> (let (n, h') = timer_remove_task h t in (n, Some h'))
      | _ \<Rightarrow> (0, heap))"

definition bb_timer_heap_is_empty :: "bb_timer_heap option \<Rightarrow> bool" where
  "bb_timer_heap_is_empty heap = (case heap of None \<Rightarrow> True | Some h \<Rightarrow> th_count h = 0)"

definition bb_timer_heap_count :: "bb_timer_heap option \<Rightarrow> nat" where
  "bb_timer_heap_count heap = (case heap of None \<Rightarrow> 0 | Some h \<Rightarrow> th_count h)"

definition bb_timer_heap_at :: "bb_timer_heap option \<Rightarrow> int \<Rightarrow> bb_timer option" where
  "bb_timer_heap_at heap idx =
     (case heap of
        None \<Rightarrow> None
      | Some h \<Rightarrow> if idx < 0 \<or> idx \<ge> int (th_count h) then None else Some (th_items h ! nat idx))"

section \<open>The heap order and the moves that restore it\<close>

abbreviation fire :: "bb_timer list \<Rightarrow> nat \<Rightarrow> u64" where
  "fire xs i \<equiv> next_fire_ms (xs ! i)"

text \<open>The first \<open>n\<close> slots are a min-heap.\<close>

definition min_heap :: "bb_timer list \<Rightarrow> nat \<Rightarrow> bool" where
  "min_heap xs n \<longleftrightarrow> (\<forall>i. 0 < i \<and> i < n \<longrightarrow> fire xs (parent_ix i) \<le> fire xs i)"

text \<open>
  Slot \<open>k\<close> may violate the order with its parent and its children, and nothing else does; the
  subtrees below \<open>k\<close> still fit under its parent.
\<close>

definition heap_except :: "bb_timer list \<Rightarrow> nat \<Rightarrow> nat \<Rightarrow> bool" where
  "heap_except xs n k \<longleftrightarrow>
     (\<forall>i. 0 < i \<and> i < n \<and> i \<noteq> k \<and> parent_ix i \<noteq> k \<longrightarrow> fire xs (parent_ix i) \<le> fire xs i) \<and>
     (\<forall>i. 0 < i \<and> i < n \<and> parent_ix i = k \<and> 0 < k \<longrightarrow> fire xs (parent_ix k) \<le> fire xs i)"

definition below_ok :: "bb_timer list \<Rightarrow> nat \<Rightarrow> nat \<Rightarrow> bool" where
  "below_ok xs n k \<longleftrightarrow> (\<forall>i. 0 < i \<and> i < n \<and> parent_ix i = k \<longrightarrow> fire xs k \<le> fire xs i)"

definition above_ok :: "bb_timer list \<Rightarrow> nat \<Rightarrow> bool" where
  "above_ok xs k \<longleftrightarrow> (0 < k \<longrightarrow> fire xs (parent_ix k) \<le> fire xs k)"

lemma min_heap_iff:
  "k < n \<Longrightarrow> min_heap xs n \<longleftrightarrow> heap_except xs n k \<and> below_ok xs n k \<and> above_ok xs k"
proof
  assume "k < n" and h: "min_heap xs n"
  moreover have "fire xs (parent_ix k) \<le> fire xs i"
    if "0 < i" "i < n" "parent_ix i = k" "0 < k" for i
    using h that \<open>k < n\<close> unfolding min_heap_def by (metis order_trans)
  ultimately show "heap_except xs n k \<and> below_ok xs n k \<and> above_ok xs k"
    unfolding min_heap_def heap_except_def below_ok_def above_ok_def by blast
next
  assume ok: "heap_except xs n k \<and> below_ok xs n k \<and> above_ok xs k"
  show "min_heap xs n"
    unfolding min_heap_def
  proof (intro allI impI)
    fix i assume i: "0 < i \<and> i < n"
    consider "i = k" | "parent_ix i = k" | "i \<noteq> k" "parent_ix i \<noteq> k" by blast
    then show "fire xs (parent_ix i) \<le> fire xs i"
      using ok i unfolding heap_except_def below_ok_def above_ok_def by cases simp_all
  qed
qed

lemma parent_ix_eq_iff: "0 < i \<Longrightarrow> parent_ix i = k \<longleftrightarrow> i = 2 * k + 1 \<or> i = 2 * k + 2"
  unfolding parent_ix_def by presburger

lemma length_sift_up [simp]: "length (sift_up xs k) = length xs"
proof (induction xs k rule: sift_up.induct)
  case (1 xs k)
  then show ?case by (subst sift_up.simps) (simp add: Let_def)
qed

lemma length_sift_down [simp]: "length (sift_down xs n k) = length xs"
proof (induction xs n k rule: sift_down.induct)
  case (1 xs n k)
  then show ?case by (subst sift_down.simps) (simp add: Let_def)
qed

lemma sift_up_above_ok: "above_ok xs k \<Longrightarrow> sift_up xs k = xs"
  by (subst sift_up.simps) (simp add: above_ok_def Let_def)

lemma below_ok_smallest: "below_ok xs n k \<Longrightarrow> smallest_child xs n k = k"
proof -
  assume b: "below_ok xs n k"
  have l: "2 * k + 1 < n \<Longrightarrow> \<not> fire xs (2 * k + 1) < fire xs k"
    and r: "2 * k + 2 < n \<Longrightarrow> \<not> fire xs (2 * k + 2) < fire xs k"
    using b by (simp_all add: below_ok_def parent_ix_def not_less)
  show ?thesis
    unfolding smallest_child_def Let_def using l r by presburger
qed

lemma smallest_below_ok: "smallest_child xs n k = k \<Longrightarrow> below_ok xs n k"
  unfolding below_ok_def
proof (intro allI impI)
  fix i assume s: "smallest_child xs n k = k" and i: "0 < i \<and> i < n \<and> parent_ix i = k"
  then consider "i = 2 * k + 1" | "i = 2 * k + 2"
    using parent_ix_eq_iff [of i k] by blast
  then show "fire xs k \<le> fire xs i"
    using s i by cases (auto simp: smallest_child_def Let_def not_less split: if_splits)
qed

lemma smallest_child_min:
  "0 < i \<Longrightarrow> i < n \<Longrightarrow> parent_ix i = k \<Longrightarrow> fire xs (smallest_child xs n k) \<le> fire xs i"
  by (auto simp: smallest_child_def Let_def parent_ix_eq_iff not_less)

lemma smallest_child_less:
  "smallest_child xs n k \<noteq> k \<Longrightarrow> fire xs (smallest_child xs n k) < fire xs k"
  by (auto simp: smallest_child_def Let_def split: if_splits)

lemma sift_down_below_ok: "below_ok xs n k \<Longrightarrow> sift_down xs n k = xs"
  by (subst sift_down.simps) (simp add: Let_def below_ok_smallest)

text \<open>One step of \<open>sift_up\<close>: the violation moves to the parent.\<close>

lemma sift_up_step:
  assumes h: "heap_except xs n k" and b: "below_ok xs n k" and k: "0 < k" "k < n" "n \<le> length xs"
    and v: "\<not> fire xs (parent_ix k) \<le> fire xs k"
  shows "heap_except (arr_swap xs k (parent_ix k)) n (parent_ix k)"
    and "below_ok (arr_swap xs k (parent_ix k)) n (parent_ix k)"
proof -
  let ?p = "parent_ix k" and ?ys = "arr_swap xs k (parent_ix k)"
  have p: "?p < k" using k by simp
  have ys: "fire ?ys i = (if i = k then fire xs ?p else if i = ?p then fire xs k else fire xs i)"
    for i
    using k p by (simp add: nth_arr_swap)
  have v': "fire xs k \<le> fire xs ?p" using v by simp
  have edge: "fire xs (parent_ix i) \<le> fire xs i"
    if "0 < i" "i < n" "i \<noteq> k" "parent_ix i \<noteq> k" for i
    using h that unfolding heap_except_def by blast
  have kid: "fire xs ?p \<le> fire xs i" if "0 < i" "i < n" "parent_ix i = k" for i
    using h that k unfolding heap_except_def by blast
  have up: "fire xs (parent_ix ?p) \<le> fire xs ?p" if "0 < ?p"
    using edge [of ?p] that p k parent_ix_less [of ?p]
    by (metis less_imp_neq less_trans)
  show "heap_except ?ys n ?p"
    unfolding heap_except_def
  proof (intro conjI allI impI)
    fix i assume i: "0 < i \<and> i < n \<and> i \<noteq> ?p \<and> parent_ix i \<noteq> ?p"
    then show "fire ?ys (parent_ix i) \<le> fire ?ys i"
      using edge [of i] kid [of i] parent_ix_less [of i] by (auto simp: ys)
  next
    fix i assume i: "0 < i \<and> i < n \<and> parent_ix i = ?p \<and> 0 < ?p"
    then have "parent_ix ?p < ?p" by simp
    with i p up edge [of i] show "fire ?ys (parent_ix ?p) \<le> fire ?ys i"
      using parent_ix_less [of i] by (auto simp: ys intro: order_trans)
  qed
  show "below_ok ?ys n ?p"
    unfolding below_ok_def
  proof (intro allI impI)
    fix i assume i: "0 < i \<and> i < n \<and> parent_ix i = ?p"
    then show "fire ?ys ?p \<le> fire ?ys i"
      using edge [of i] v' p parent_ix_less [of i] by (auto simp: ys intro: order_trans)
  qed
qed

lemma sift_up_heap:
  "heap_except xs n k \<Longrightarrow> below_ok xs n k \<Longrightarrow> k < n \<Longrightarrow> n \<le> length xs \<Longrightarrow> min_heap (sift_up xs k) n"
proof (induction xs k rule: sift_up.induct)
  case (1 xs k)
  show ?case
  proof (cases "above_ok xs k")
    case True
    with "1.prems" show ?thesis
      by (simp add: sift_up_above_ok min_heap_iff [of k])
  next
    case False
    then have k: "0 < k" and v: "\<not> fire xs (parent_ix k) \<le> fire xs k"
      by (auto simp: above_ok_def)
    have p: "parent_ix k < k" using k by simp
    from sift_up_step [OF "1.prems"(1,2) k "1.prems"(3,4) v] "1.IH" [OF k refl v] "1.prems"(3,4) p
    have "min_heap (sift_up (arr_swap xs k (parent_ix k)) (parent_ix k)) n" by simp
    then show ?thesis using k v by (subst sift_up.simps) (simp add: Let_def)
  qed
qed

text \<open>One step of \<open>sift_down\<close>: the violation moves to the smaller child.\<close>

lemma sift_down_step:
  assumes h: "heap_except xs n k" and a: "above_ok xs k" and n: "k < n" "n \<le> length xs"
    and s: "smallest_child xs n k = s" "s \<noteq> k"
  shows "heap_except (arr_swap xs k s) n s" and "above_ok (arr_swap xs k s) s"
proof -
  let ?ys = "arr_swap xs k s"
  have sk: "k < s" "s < n" "parent_ix s = k"
    using smallest_child_cases [of xs n k] s by auto
  have less: "fire xs s \<le> fire xs k"
    using smallest_child_less [of xs n k] s by simp
  have ys: "fire ?ys i = (if i = k then fire xs s else if i = s then fire xs k else fire xs i)"
    for i
    using n sk by (simp add: nth_arr_swap)
  have edge: "fire xs (parent_ix i) \<le> fire xs i"
    if "0 < i" "i < n" "i \<noteq> k" "parent_ix i \<noteq> k" for i
    using h that unfolding heap_except_def by blast
  have kid: "0 < k \<Longrightarrow> fire xs (parent_ix k) \<le> fire xs s"
    using h sk unfolding heap_except_def by (metis less_trans gr_implies_not0 not_gr0)
  have sib: "fire xs s \<le> fire xs i" if "0 < i" "i < n" "parent_ix i = k" for i
    using smallest_child_min [OF that, of xs] s by simp
  show "heap_except ?ys n s"
    unfolding heap_except_def
  proof (intro conjI allI impI)
    fix i assume i: "0 < i \<and> i < n \<and> i \<noteq> s \<and> parent_ix i \<noteq> s"
    show "fire ?ys (parent_ix i) \<le> fire ?ys i"
    proof (cases "i = k")
      case True
      with i kid sk parent_ix_less [of k] show ?thesis by (auto simp: ys)
    next
      case False
      with i edge [of i] sib [of i] show ?thesis by (auto simp: ys)
    qed
  next
    fix i assume i: "0 < i \<and> i < n \<and> parent_ix i = s \<and> 0 < s"
    then have "s < i" using parent_ix_less [of i] by auto
    with i edge [of i] sk show "fire ?ys (parent_ix s) \<le> fire ?ys i" by (auto simp: ys)
  qed
  show "above_ok ?ys s"
    using less sk by (auto simp: above_ok_def ys)
qed

lemma sift_down_heap:
  "heap_except xs n k \<Longrightarrow> above_ok xs k \<Longrightarrow> k < n \<Longrightarrow> n \<le> length xs \<Longrightarrow> min_heap (sift_down xs n k) n"
proof (induction xs n k rule: sift_down.induct)
  case (1 xs n k)
  let ?s = "smallest_child xs n k"
  show ?case
  proof (cases "?s = k")
    case True
    with "1.prems" show ?thesis
      by (simp add: smallest_below_ok sift_down_below_ok min_heap_iff [of k])
  next
    case False
    then have "?s < n" using smallest_child_cases [of xs n k] by auto
    with sift_down_step [OF "1.prems" refl False] "1.IH" [OF refl False] "1.prems"(4)
    have "min_heap (sift_down (arr_swap xs k ?s) n ?s) n" by simp
    then show ?thesis using False by (subst sift_down.simps) (simp add: Let_def)
  qed
qed

text \<open>Neither move touches the slots at or beyond \<open>n\<close>, and both permute the live ones.\<close>

lemma sift_up_frame:
  "k < n \<Longrightarrow> n \<le> length xs \<Longrightarrow>
   mset (take n (sift_up xs k)) = mset (take n xs) \<and> drop n (sift_up xs k) = drop n xs"
proof (induction xs k rule: sift_up.induct)
  case (1 xs k)
  show ?case
  proof (cases "above_ok xs k")
    case True
    then show ?thesis by (simp add: sift_up_above_ok)
  next
    case False
    then have k: "0 < k" and v: "\<not> fire xs (parent_ix k) \<le> fire xs k"
      by (auto simp: above_ok_def)
    have p: "parent_ix k < n" using k "1.prems" less_trans parent_ix_less by blast
    with "1.IH" [OF k refl v] "1.prems" k v show ?thesis
      by (subst (1 2) sift_up.simps) (simp add: Let_def take_arr_swap drop_arr_swap)
  qed
qed

lemma sift_down_frame:
  "k < n \<Longrightarrow> n \<le> length xs \<Longrightarrow>
   mset (take n (sift_down xs n k)) = mset (take n xs) \<and> drop n (sift_down xs n k) = drop n xs"
proof (induction xs n k rule: sift_down.induct)
  case (1 xs n k)
  let ?s = "smallest_child xs n k"
  show ?case
  proof (cases "?s = k")
    case True
    then show ?thesis by (simp add: smallest_below_ok sift_down_below_ok)
  next
    case False
    then have s: "?s < n" using smallest_child_cases [of xs n k] by auto
    with "1.IH" [OF refl False] "1.prems" False show ?thesis
      by (subst (1 2) sift_down.simps) (simp add: Let_def take_arr_swap drop_arr_swap)
  qed
qed

lemmas sift_frames = sift_up_frame [THEN conjunct1] sift_up_frame [THEN conjunct2]
  sift_down_frame [THEN conjunct1] sift_down_frame [THEN conjunct2]

section \<open>The invariant and the multiset abstraction\<close>

definition heap_inv :: "bb_timer_heap \<Rightarrow> bool" where
  "heap_inv h \<longleftrightarrow> 0 < th_capacity h \<and> th_count h \<le> th_capacity h \<and>
     length (th_items h) = th_capacity h \<and> min_heap (th_items h) (th_count h)"

definition timers_of :: "bb_timer_heap \<Rightarrow> bb_timer multiset" where
  "timers_of h = mset (take (th_count h) (th_items h))"

lemma heap_inv_create: "bb_timer_heap_create a b = Some h \<Longrightarrow> heap_inv h \<and> timers_of h = {#}"
  by (auto simp: bb_timer_heap_create_def heap_inv_def min_heap_def timers_of_def
                 BB_TIMER_HEAP_INITIAL_CAPACITY_def split: if_splits)

lemma size_timers_of: "heap_inv h \<Longrightarrow> size (timers_of h) = th_count h"
  by (simp add: timers_of_def heap_inv_def)

lemma timers_of_iff:
  "heap_inv h \<Longrightarrow> x \<in># timers_of h \<longleftrightarrow> (\<exists>i<th_count h. x = th_items h ! i)"
  by (auto simp: timers_of_def heap_inv_def in_set_conv_nth)

lemma root_least: "min_heap xs n \<Longrightarrow> i < n \<Longrightarrow> fire xs 0 \<le> fire xs i"
proof (induction i rule: less_induct)
  case (less i)
  show ?case
  proof (cases "i = 0")
    case False
    then have "parent_ix i < i" by simp
    moreover have "fire xs (parent_ix i) \<le> fire xs i"
      using less.prems False by (simp add: min_heap_def)
    ultimately show ?thesis
      using less.IH [of "parent_ix i"] less.prems by (meson less_trans order_trans)
  qed simp
qed

lemma min_heap_cong: "take n xs = take n ys \<Longrightarrow> min_heap xs n \<longleftrightarrow> min_heap ys n"
proof -
  assume t: "take n xs = take n ys"
  have "xs ! i = ys ! i" if "i < n" for i
    using nth_take [OF that, of xs] nth_take [OF that, of ys] t by simp
  then show ?thesis
    unfolding min_heap_def using less_trans [OF parent_ix_less] by metis
qed

lemma min_heap_append: "n \<le> length xs \<Longrightarrow> min_heap xs n \<Longrightarrow> min_heap (xs @ ys) n"
  by (subst min_heap_cong [of n "xs @ ys" xs]) simp_all

lemma heap_grow_inv:
  "heap_inv h \<Longrightarrow> heap_grow ok h = Some h' \<Longrightarrow>
   heap_inv h' \<and> timers_of h' = timers_of h \<and> th_count h' < th_capacity h' \<and>
   th_count h' = th_count h"
  using min_heap_append [of "th_count h" "th_items h"]
  by (auto simp: heap_grow_def heap_inv_def timers_of_def Let_def split: if_splits)

lemma append_slot_heap:
  assumes "min_heap xs n" and "n < length xs"
  shows "heap_except (xs[n := t]) (Suc n) n" and "below_ok (xs[n := t]) (Suc n) n"
proof -
  have "parent_ix i \<noteq> n" if "0 < i" "i < Suc n" for i
    using parent_ix_less [of i] that by linarith
  with assms show "heap_except (xs[n := t]) (Suc n) n" "below_ok (xs[n := t]) (Suc n) n"
    by (auto simp: heap_except_def below_ok_def min_heap_def nth_list_update)
qed

lemma timer_push_inv:
  assumes "heap_inv h" and "timer_push ok h t = Some h'"
  shows "heap_inv h' \<and> timers_of h' = add_mset t (timers_of h)"
proof -
  obtain g where g: "heap_inv g" "timers_of g = timers_of h" "th_count g < th_capacity g"
    and h': "h' = g\<lparr>th_items := sift_up ((th_items g)[th_count g := t]) (th_count g),
                    th_count := th_count g + 1\<rparr>"
    using assms heap_grow_inv [OF assms(1)]
    by (fastforce simp: timer_push_def Let_def split: if_splits option.splits)
  let ?n = "th_count g" and ?xs = "(th_items g)[th_count g := t]"
  have n: "?n < length (th_items g)" "min_heap (th_items g) ?n"
    using g by (simp_all add: heap_inv_def)
  have "min_heap (sift_up ?xs ?n) (Suc ?n)"
    using sift_up_heap [OF append_slot_heap [OF n(2,1)]] n by simp
  moreover have "mset (take (Suc ?n) (sift_up ?xs ?n)) = add_mset t (mset (take ?n (th_items g)))"
    using n by (simp add: sift_frames mset_take_Suc)
  ultimately show ?thesis
    using g h' by (simp add: heap_inv_def timers_of_def)
qed

lemma timer_push_None:
  "timer_push ok h t = None \<longleftrightarrow> th_count h \<ge> th_capacity h \<and> \<not> ok"
  by (auto simp: timer_push_def heap_grow_def Let_def)

lemma timer_peek_none: "heap_inv h \<Longrightarrow> timer_peek h = None \<longleftrightarrow> timers_of h = {#}"
  using size_timers_of [of h] by (auto simp: timer_peek_def)

lemma timer_peek_min:
  "heap_inv h \<Longrightarrow> timer_peek h = Some t \<Longrightarrow>
   t \<in># timers_of h \<and> (\<forall>u\<in>#timers_of h. next_fire_ms t \<le> next_fire_ms u)"
  by (auto simp: timers_of_iff timer_peek_def heap_inv_def root_least split: if_splits)

text \<open>Filling slot \<open>k\<close> with any element leaves the order intact everywhere else.\<close>

lemma heap_except_update:
  assumes "min_heap xs m" and "n \<le> m" and "k < n" and "m \<le> length xs"
  shows "heap_except (xs[k := t]) n k"
  unfolding heap_except_def
proof (intro conjI allI impI)
  fix i assume "0 < i \<and> i < n \<and> i \<noteq> k \<and> parent_ix i \<noteq> k"
  with assms show "fire (xs[k := t]) (parent_ix i) \<le> fire (xs[k := t]) i"
    by (auto simp: min_heap_def nth_list_update)
next
  fix i assume i: "0 < i \<and> i < n \<and> parent_ix i = k \<and> 0 < k"
  then have "fire xs (parent_ix k) \<le> fire xs k" "fire xs k \<le> fire xs i"
    using assms by (auto simp: min_heap_def)
  moreover have "parent_ix k < k" using i by simp
  moreover have "k < i" using i parent_ix_less [of i] by simp
  ultimately show "fire (xs[k := t]) (parent_ix k) \<le> fire (xs[k := t]) i"
    using assms by (auto simp: nth_list_update)
qed

text \<open>\<open>sift_down\<close> then \<open>sift_up\<close> at the same slot: only one of the two moves anything.\<close>

lemma resettle_heap:
  assumes x: "heap_except xs n k" and n: "k < n" "n \<le> length xs"
  shows "min_heap (sift_up (sift_down xs n k) k) n"
proof (cases "above_ok xs k")
  case True
  from sift_down_heap [OF x True n] have d: "min_heap (sift_down xs n k) n" .
  then have "above_ok (sift_down xs n k) k" using n by (simp add: min_heap_iff [of k])
  with d show ?thesis by (simp add: sift_up_above_ok)
next
  case False
  then have k: "0 < k" "fire xs k \<le> fire xs (parent_ix k)" by (auto simp: above_ok_def)
  then have b: "below_ok xs n k"
    using x order_trans unfolding below_ok_def heap_except_def by blast
  with x n show ?thesis by (simp add: sift_down_below_ok sift_up_heap)
qed

lemma remove_at_inv:
  assumes h: "heap_inv h" and i: "idx < th_count h"
  shows "heap_inv (remove_at h idx)"
    and "timers_of (remove_at h idx) = timers_of h - {#th_items h ! idx#}"
proof -
  define n where "n = th_count h - 1"
  have n: "th_count h = Suc n" "n < length (th_items h)" "min_heap (th_items h) (Suc n)"
    using h i by (auto simp: n_def heap_inv_def)
  have last: "timers_of h = add_mset (th_items h ! n) (mset (take n (th_items h)))"
    using n by (simp add: timers_of_def mset_take_Suc)
  show "heap_inv (remove_at h idx)"
  proof (cases "idx = n")
    case True
    then show ?thesis
      using h n by (auto simp: remove_at_def Let_def heap_inv_def min_heap_def)
  next
    case False
    then have "idx < n" using i n by simp
    then have "heap_except ((th_items h)[idx := th_items h ! n]) n idx"
      using n by (intro heap_except_update [of _ "Suc n"]) auto
    then show ?thesis
      using resettle_heap [of "(th_items h)[idx := th_items h ! n]" n idx] \<open>idx < n\<close> False h n
      by (simp add: remove_at_def Let_def heap_inv_def)
  qed
  show "timers_of (remove_at h idx) = timers_of h - {#th_items h ! idx#}"
  proof (cases "idx = n")
    case True
    then show ?thesis using n last by (simp add: remove_at_def Let_def timers_of_def)
  next
    case False
    then have "idx < n" using i n by simp
    then have "timers_of (remove_at h idx) = mset (take n ((th_items h)[idx := th_items h ! n]))"
      using n False by (simp add: remove_at_def Let_def timers_of_def sift_frames)
    then show ?thesis
      using mset_take_update [of idx n "th_items h" "th_items h ! n"] \<open>idx < n\<close> n last
      by (metis add_mset_remove_trivial less_imp_le)
  qed
qed

lemma timer_pop_inv: "heap_inv h \<Longrightarrow> heap_inv (timer_pop h)"
  by (simp add: timer_pop_def remove_at_inv)

lemma timer_pop_contents:
  "heap_inv h \<Longrightarrow> timer_peek h = Some t \<Longrightarrow> timers_of (timer_pop h) = timers_of h - {#t#}"
  by (auto simp: timer_pop_def timer_peek_def remove_at_inv split: if_splits)

lemma timer_reschedule_top_inv: "heap_inv h \<Longrightarrow> heap_inv (timer_reschedule_top h k)"
proof (cases "th_count h = 0")
  case False
  assume h: "heap_inv h"
  let ?xs = "(th_items h)[0 := (th_items h ! 0)\<lparr>next_fire_ms := k\<rparr>]"
  have "heap_except ?xs (th_count h) 0"
    using h False by (intro heap_except_update) (auto simp: heap_inv_def)
  then have "min_heap (sift_down ?xs (th_count h) 0) (th_count h)"
    using h False by (intro sift_down_heap) (auto simp: heap_inv_def above_ok_def)
  with h False show ?thesis by (simp add: timer_reschedule_top_def heap_inv_def)
qed (simp add: timer_reschedule_top_def)

lemma timer_reschedule_top_contents:
  assumes h: "heap_inv h" and t: "timer_peek h = Some t"
  shows "timers_of (timer_reschedule_top h k) =
         add_mset (t\<lparr>next_fire_ms := k\<rparr>) (timers_of h - {#t#})"
proof -
  let ?xs = "(th_items h)[0 := t\<lparr>next_fire_ms := k\<rparr>]"
  have n: "0 < th_count h" "th_count h \<le> length (th_items h)" and t0: "th_items h ! 0 = t"
    using h t by (auto simp: timer_peek_def heap_inv_def split: if_splits)
  then have "timers_of (timer_reschedule_top h k) = mset (take (th_count h) ?xs)"
    by (simp add: timer_reschedule_top_def timers_of_def sift_frames)
  moreover have "add_mset t (mset (take (th_count h) ?xs)) =
                 add_mset (t\<lparr>next_fire_ms := k\<rparr>) (timers_of h)"
    using mset_take_update [OF n] by (simp add: t0 timers_of_def)
  moreover have "t \<in># timers_of h" using timer_peek_min [OF h t] by blast
  ultimately show ?thesis
    by (simp add: add_mset_eq_diff)
qed

interpretation timer_q: min_queue heap_inv timers_of next_fire_ms
    "\<lambda>k t. t\<lparr>next_fire_ms := k\<rparr>" timer_peek timer_pop timer_reschedule_top
  by unfold_locales
     (simp_all add: timer_peek_none timer_peek_min timer_pop_inv timer_pop_contents
        timer_reschedule_top_inv timer_reschedule_top_contents)

section \<open>Removing the timers of a task\<close>

definition task_timers :: "tid \<Rightarrow> bb_timer multiset \<Rightarrow> bb_timer multiset" where
  "task_timers t M = filter_mset (\<lambda>x. timer_task x = t) M"

lemma remove_task_from_sub:
  assumes "heap_inv h" and "remove_task_from h t i r = (r', h')"
  shows "heap_inv h' \<and>
         (\<exists>D. timers_of h = timers_of h' + D \<and> task_timers t D = D \<and> r' = r + int (size D))"
  using assms
proof (induction h t i r rule: remove_task_from.induct)
  case (1 h t i r)
  show ?case
  proof (cases "i < th_count h")
    case False
    then show ?thesis
      using "1.prems" by (auto simp: remove_task_from.simps [of h] task_timers_def)
  next
    case i: True
    let ?x = "th_items h ! i"
    show ?thesis
    proof (cases "timer_task ?x = t")
      case False
      then show ?thesis
        using "1.IH"(2) [OF i False "1.prems"(1)] "1.prems"(2) i
        by (simp add: remove_task_from.simps [of h])
    next
      case True
      have x: "?x \<in># timers_of h" using i "1.prems"(1) by (auto simp: timers_of_iff)
      have rec: "remove_task_from (remove_at h i) t i (r + 1) = (r', h')"
        using "1.prems"(2) i True by (simp add: remove_task_from.simps [of h])
      obtain D where D: "heap_inv h'" "timers_of (remove_at h i) = timers_of h' + D"
          "task_timers t D = D" "r' = r + 1 + int (size D)"
        using "1.IH"(1) [OF i True remove_at_inv(1) [OF "1.prems"(1) i] rec] by blast
      have "timers_of h = timers_of h' + add_mset ?x D"
        using D(2) x remove_at_inv(2) [OF "1.prems"(1) i] by (metis insert_DiffM union_mset_add_mset_right)
      with D True show ?thesis
        by (intro conjI exI [of _ "add_mset ?x D"]) (auto simp: task_timers_def)
    qed
  qed
qed

lemma remove_task_from_absent:
  "heap_inv h \<Longrightarrow> task_timers t (timers_of h) = {#} \<Longrightarrow> remove_task_from h t i r = (r, h)"
proof (induction h t i r rule: remove_task_from.induct)
  case (1 h t i r)
  have "timer_task (th_items h ! i) \<noteq> t" if "i < th_count h"
    using "1.prems" that timers_of_iff [of h "th_items h ! i"]
    by (auto simp: task_timers_def filter_mset_eq_mempty_iff)
  with "1.IH"(2) "1.prems" show ?case
    by (simp add: remove_task_from.simps [of h])
qed

lemma remove_task_from_one:
  assumes "heap_inv h" and "task_timers t (timers_of h) = {#x#}"
    and "\<forall>j<i. timer_task (th_items h ! j) \<noteq> t"
  shows "\<exists>h'. remove_task_from h t i r = (r + 1, h') \<and> heap_inv h' \<and>
              timers_of h' = timers_of h - {#x#}"
  using assms
proof (induction h t i r rule: remove_task_from.induct)
  case (1 h t i r)
  have x: "x \<in># timers_of h" "timer_task x = t"
    using arg_cong [OF "1.prems"(2), of set_mset] by (auto simp: task_timers_def)
  then obtain k where k: "k < th_count h" "th_items h ! k = x"
    using "1.prems"(1) by (auto simp: timers_of_iff)
  then have i: "i < th_count h"
    using "1.prems"(3) x(2) by (metis linorder_not_less less_le_trans)
  show ?case
  proof (cases "timer_task (th_items h ! i) = t")
    case False
    then have "\<forall>j<i + 1. timer_task (th_items h ! j) \<noteq> t"
      using "1.prems"(3) by (auto simp: less_Suc_eq)
    with "1.IH"(2) [OF i False "1.prems"(1,2)] i False show ?thesis
      by (simp add: remove_task_from.simps [of h])
  next
    case True
    have "th_items h ! i \<in># task_timers t (timers_of h)"
      using i True "1.prems"(1) by (auto simp: timers_of_iff task_timers_def)
    then have xi: "th_items h ! i = x" by (simp add: "1.prems"(2))
    note ri = remove_at_inv [OF "1.prems"(1) i]
    have "task_timers t (timers_of (remove_at h i)) = {#}"
      using "1.prems"(2) x by (simp add: ri(2) xi task_timers_def filter_diff_mset)
    then have "remove_task_from (remove_at h i) t i (r + 1) = (r + 1, remove_at h i)"
      by (rule remove_task_from_absent [OF ri(1)])
    with i True ri xi show ?thesis
      by (simp add: remove_task_from.simps [of h])
  qed
qed

end
