(* ===== verification/Task.thy ===== *)
theory Task
  imports BB_Prelude
begin

text \<open>
  Tasks of \<open>modules/runtime/src/task.c\<close>: the state word with its five flag bits, creation, the
  once-only finalisation that runs the cleanup callback, cancellation, and the two halves of
  execution around the run callback.
\<close>

section \<open>Flag words\<close>

definition has_flag :: "u32 \<Rightarrow> u32 \<Rightarrow> bool" where
  "has_flag s f \<longleftrightarrow> s AND f \<noteq> 0"

definition set_flag :: "u32 \<Rightarrow> u32 \<Rightarrow> u32" where
  "set_flag s f = s OR f"

definition clear_flag :: "u32 \<Rightarrow> u32 \<Rightarrow> u32" where
  "clear_flag s f = s AND NOT f"

definition BB_TASK_IDLE :: u32 where "BB_TASK_IDLE = 0"
definition BB_TASK_SCHEDULED :: u32 where "BB_TASK_SCHEDULED = push_bit 0 1"
definition BB_TASK_RUNNING :: u32 where "BB_TASK_RUNNING = push_bit 1 1"
definition BB_TASK_CANCELLED :: u32 where "BB_TASK_CANCELLED = push_bit 2 1"
definition BB_TASK_PERSISTENT :: u32 where "BB_TASK_PERSISTENT = push_bit 3 1"
definition BB_TASK_FINALIZED :: u32 where "BB_TASK_FINALIZED = push_bit 4 1"

lemmas task_flag_defs = BB_TASK_SCHEDULED_def BB_TASK_RUNNING_def BB_TASK_CANCELLED_def
  BB_TASK_PERSISTENT_def BB_TASK_FINALIZED_def

lemma has_flag_push_bit: "has_flag s (push_bit k 1) \<longleftrightarrow> bit s k"
  by (simp add: has_flag_def bit_iff_and_push_bit_not_eq_0)

lemma has_set_flag:
  "k < 32 \<Longrightarrow> j < 32 \<Longrightarrow>
   has_flag (set_flag s (push_bit j 1)) (push_bit k 1) \<longleftrightarrow> k = j \<or> has_flag s (push_bit k 1)"
  unfolding has_flag_push_bit set_flag_def by (auto simp: bit_simps)

lemma has_clear_flag:
  "k < 32 \<Longrightarrow> j < 32 \<Longrightarrow>
   has_flag (clear_flag s (push_bit j 1)) (push_bit k 1) \<longleftrightarrow> k \<noteq> j \<and> has_flag s (push_bit k 1)"
  unfolding has_flag_push_bit clear_flag_def by (auto simp: bit_simps)

lemma idle_has_no_flag [simp]: "\<not> has_flag BB_TASK_IDLE f"
  by (simp add: has_flag_def BB_TASK_IDLE_def)

text \<open>The five flags are independent: setting or clearing one leaves the others as they were.\<close>

definition task_flags :: "u32 list" where
  "task_flags = [BB_TASK_SCHEDULED, BB_TASK_RUNNING, BB_TASK_CANCELLED,
                 BB_TASK_PERSISTENT, BB_TASK_FINALIZED]"

lemma task_flags_distinct: "distinct task_flags"
  by (simp add: task_flags_def task_flag_defs)

lemma task_flags_mem [simp]:
  "BB_TASK_SCHEDULED \<in> set task_flags" "BB_TASK_RUNNING \<in> set task_flags"
  "BB_TASK_CANCELLED \<in> set task_flags" "BB_TASK_PERSISTENT \<in> set task_flags"
  "BB_TASK_FINALIZED \<in> set task_flags"
  by (simp_all add: task_flags_def)

lemma task_flags_distinct_rev:
  "distinct [BB_TASK_FINALIZED, BB_TASK_PERSISTENT, BB_TASK_CANCELLED, BB_TASK_RUNNING,
             BB_TASK_SCHEDULED]"
  by (simp add: task_flag_defs)

lemmas task_flags_neq [simp] = task_flags_distinct [unfolded task_flags_def, simplified]
  task_flags_distinct_rev [simplified]

lemma task_flags_bits: "task_flags = map (\<lambda>k. push_bit k 1) [0..<5]"
  by (simp only: task_flags_def task_flag_defs) (simp add: upt_rec)

lemma task_flag_ex: "f \<in> set task_flags \<Longrightarrow> \<exists>k<32. f = push_bit k 1"
proof -
  assume "f \<in> set task_flags"
  then obtain k where "k < 5" "f = push_bit k 1"
    by (auto simp: task_flags_bits simp del: push_bit_of_1)
  then show ?thesis by (intro exI [of _ k]) simp
qed

lemma has_set_task_flag [simp]:
  "f \<in> set task_flags \<Longrightarrow> g \<in> set task_flags \<Longrightarrow>
   has_flag (set_flag s f) g \<longleftrightarrow> g = f \<or> has_flag s g"
  by (auto dest!: task_flag_ex simp: has_set_flag simp del: push_bit_of_1)

lemma has_clear_task_flag [simp]:
  "f \<in> set task_flags \<Longrightarrow> g \<in> set task_flags \<Longrightarrow>
   has_flag (clear_flag s f) g \<longleftrightarrow> g \<noteq> f \<and> has_flag s g"
  by (auto dest!: task_flag_ex simp: has_clear_flag simp del: push_bit_of_1)

section \<open>Tasks\<close>

datatype bb_task_result = RES_COMPLETED | RES_ERROR | RES_CANCELLED | RES_SHUTDOWN

text \<open>
  Callbacks are code of the program that uses the runtime; they are known by a number, \<open>None\<close>
  being a null function pointer.
\<close>

record bb_task_config =
  cfg_run :: "nat option"
  cfg_userdata :: nat
  cfg_cleanup :: "nat option"

record bb_task =
  tk_config :: bb_task_config
  tk_state :: u32

text \<open>
  A call of a cleanup callback: the callback, its userdata and the result it is given. The code
  makes the call where the model records it; that nothing else happens in between is the
  assumption that a cleanup callback does not call the runtime, as none of those in the
  repository does (\<open>examples/async_sample\<close> and the tests of the runtime).
\<close>

type_synonym cleanup_call = "nat \<times> nat \<times> bb_task_result"

definition bb_task_create :: "bool \<Rightarrow> bb_task_config option \<Rightarrow> bb_task option" where
  "bb_task_create alloc_ok config =
     (case config of
        None \<Rightarrow> None
      | Some c \<Rightarrow>
          if cfg_run c = None then None
          else if \<not> alloc_ok then None
          else Some \<lparr>tk_config = c, tk_state = BB_TASK_IDLE\<rparr>)"

definition task_finalize :: "bb_task \<Rightarrow> bb_task_result \<Rightarrow> bb_task \<times> cleanup_call list" where
  "task_finalize k res =
     (if has_flag (tk_state k) BB_TASK_FINALIZED then (k, [])
      else (k\<lparr>tk_state := set_flag (tk_state k) BB_TASK_FINALIZED\<rparr>,
            case cfg_cleanup (tk_config k) of
              None \<Rightarrow> []
            | Some cb \<Rightarrow> [(cb, cfg_userdata (tk_config k), res)]))"

definition task_cancel :: "bb_task \<Rightarrow> bb_task \<times> cleanup_call list" where
  "task_cancel k =
     task_finalize
       (k\<lparr>tk_state :=
            clear_flag (set_flag (tk_state k) BB_TASK_CANCELLED) BB_TASK_PERSISTENT\<rparr>)
       RES_CANCELLED"

definition bb_task_cancel :: "bb_task option \<Rightarrow> int \<times> bb_task option \<times> cleanup_call list" where
  "bb_task_cancel tsk =
     (case tsk of
        None \<Rightarrow> (-1, None, [])
      | Some k \<Rightarrow> (let (k', calls) = task_cancel k in (0, Some k', calls)))"

text \<open>
  \<open>bb_task_execute\<close> up to the call of the run callback, and after it. \<open>None\<close>: the task is
  not run.
\<close>

definition task_execute_enter :: "bb_task \<Rightarrow> bb_task option" where
  "task_execute_enter k =
     (if cfg_run (tk_config k) = None \<or> has_flag (tk_state k) BB_TASK_CANCELLED then None
      else Some (k\<lparr>tk_state :=
             set_flag (clear_flag (tk_state k) BB_TASK_SCHEDULED) BB_TASK_RUNNING\<rparr>))"

definition task_execute_leave :: "bb_task \<Rightarrow> bb_task" where
  "task_execute_leave k = k\<lparr>tk_state := clear_flag (tk_state k) BB_TASK_RUNNING\<rparr>"

definition bb_task_is_cancelled :: "bb_task option \<Rightarrow> bool" where
  "bb_task_is_cancelled tsk =
     (case tsk of None \<Rightarrow> False | Some k \<Rightarrow> has_flag (tk_state k) BB_TASK_CANCELLED)"

definition bb_task_is_scheduled :: "bb_task option \<Rightarrow> bool" where
  "bb_task_is_scheduled tsk =
     (case tsk of None \<Rightarrow> False | Some k \<Rightarrow> has_flag (tk_state k) BB_TASK_SCHEDULED)"

section \<open>Finalisation\<close>

lemma task_finalize_flags:
  "task_finalize k res = (k', calls) \<Longrightarrow>
   tk_config k' = tk_config k \<and>
   has_flag (tk_state k') BB_TASK_FINALIZED \<and>
   has_flag (tk_state k') BB_TASK_SCHEDULED = has_flag (tk_state k) BB_TASK_SCHEDULED \<and>
   has_flag (tk_state k') BB_TASK_RUNNING = has_flag (tk_state k) BB_TASK_RUNNING \<and>
   has_flag (tk_state k') BB_TASK_CANCELLED = has_flag (tk_state k) BB_TASK_CANCELLED \<and>
   has_flag (tk_state k') BB_TASK_PERSISTENT = has_flag (tk_state k) BB_TASK_PERSISTENT"
  by (auto simp: task_finalize_def split: if_splits)

lemma task_finalize_twice:
  "task_finalize k r = (k', calls) \<Longrightarrow> task_finalize k' r' = (k', [])"
  by (auto simp: task_finalize_def split: if_splits)

lemma task_cancel_flags:
  "task_cancel k = (k', calls) \<Longrightarrow>
   tk_config k' = tk_config k \<and>
   has_flag (tk_state k') BB_TASK_FINALIZED \<and>
   has_flag (tk_state k') BB_TASK_CANCELLED \<and>
   \<not> has_flag (tk_state k') BB_TASK_PERSISTENT \<and>
   has_flag (tk_state k') BB_TASK_SCHEDULED = has_flag (tk_state k) BB_TASK_SCHEDULED \<and>
   has_flag (tk_state k') BB_TASK_RUNNING = has_flag (tk_state k) BB_TASK_RUNNING"
  unfolding task_cancel_def by (drule task_finalize_flags) simp

lemma task_create_flags:
  "bb_task_create ok c = Some k \<Longrightarrow> tk_state k = BB_TASK_IDLE \<and> c = Some (tk_config k)"
  by (auto simp: bb_task_create_def split: option.splits if_splits)

end
