(* ===== verification/Scheduler.thy ===== *)
theory Scheduler
  imports Task
begin

text \<open>
  The run queue of \<open>modules/runtime/src/scheduler.c\<close>: a singly linked list of nodes with a head
  and a tail pointer. The nodes live in a store from addresses to nodes, so the pointer
  surgery of the code is visible; the queue it implements is the list of tasks along the chain.
\<close>

section \<open>The contract of a queue\<close>

locale fifo_queue =
  fixes inv :: "'q \<Rightarrow> bool"
    and elems :: "'q \<Rightarrow> 'a list"
    and enq :: "'q \<Rightarrow> 'a \<Rightarrow> 'q"
    and deq :: "'q \<Rightarrow> ('a \<times> 'q) option"
  assumes enq_inv: "inv q \<Longrightarrow> inv (enq q x)"
    and enq_elems: "inv q \<Longrightarrow> elems (enq q x) = elems q @ [x]"
    and deq_none: "inv q \<Longrightarrow> deq q = None \<longleftrightarrow> elems q = []"
    and deq_inv: "inv q \<Longrightarrow> deq q = Some (x, q') \<Longrightarrow> inv q'"
    and deq_elems: "inv q \<Longrightarrow> deq q = Some (x, q') \<Longrightarrow> elems q = x # elems q'"
begin

text \<open>Taking everything out yields the elements in the order they went in.\<close>

fun deq_all :: "nat \<Rightarrow> 'q \<Rightarrow> 'a list" where
  "deq_all 0 q = []"
| "deq_all (Suc n) q = (case deq q of None \<Rightarrow> [] | Some (x, q') \<Rightarrow> x # deq_all n q')"

lemma deq_all_elems: "inv q \<Longrightarrow> length (elems q) \<le> n \<Longrightarrow> deq_all n q = elems q"
proof (induction n arbitrary: q)
  case 0
  then show ?case by simp
next
  case (Suc n)
  show ?case
  proof (cases "deq q")
    case None
    with Suc.prems deq_none [of q] show ?thesis by simp
  next
    case (Some p)
    then obtain x q' where p: "deq q = Some (x, q')" by (cases p) simp
    from deq_elems [OF Suc.prems(1) p] deq_inv [OF Suc.prems(1) p] Suc p show ?thesis
      by simp
  qed
qed

lemma fold_enq: "inv q \<Longrightarrow> inv (foldl enq q xs) \<and> elems (foldl enq q xs) = elems q @ xs"
  by (induction xs arbitrary: q) (simp_all add: enq_inv enq_elems)

lemma fifo_order:
  "inv q \<Longrightarrow> elems q = [] \<Longrightarrow> length xs \<le> n \<Longrightarrow> deq_all n (foldl enq q xs) = xs"
  using fold_enq [of q xs] deq_all_elems [of "foldl enq q xs" n] by simp

end

section \<open>Nodes and operations\<close>

record task_node =
  nd_task :: tid
  nd_next :: "nat option"

record bb_scheduler =
  sc_nodes :: "nat \<rightharpoonup> task_node"
  sc_fresh :: nat
  sc_head :: "nat option"
  sc_tail :: "nat option"

text \<open>\<open>sc_fresh\<close> is the address the next successful \<open>malloc\<close> of a node returns.\<close>

definition bb_scheduler_create :: "bool \<Rightarrow> bb_scheduler option" where
  "bb_scheduler_create alloc_ok =
     (if alloc_ok
      then Some \<lparr>sc_nodes = Map.empty, sc_fresh = 0, sc_head = None, sc_tail = None\<rparr>
      else None)"

definition link_after :: "(nat \<rightharpoonup> task_node) \<Rightarrow> nat \<Rightarrow> nat \<Rightarrow> (nat \<rightharpoonup> task_node)" where
  "link_after N a b =
     (case N a of None \<Rightarrow> N | Some nd \<Rightarrow> N(a \<mapsto> nd\<lparr>nd_next := Some b\<rparr>))"

text \<open>The node is appended: at the head of an empty list, else behind the tail.\<close>

definition sched_enqueue :: "bb_scheduler \<Rightarrow> tid \<Rightarrow> bb_scheduler" where
  "sched_enqueue s t =
     (let node = sc_fresh s;
          nodes = (sc_nodes s)(node \<mapsto> \<lparr>nd_task = t, nd_next = None\<rparr>);
          s' = s\<lparr>sc_nodes := nodes, sc_fresh := Suc node\<rparr>
      in case sc_head s of
           None \<Rightarrow> s'\<lparr>sc_head := Some node, sc_tail := Some node\<rparr>
         | Some _ \<Rightarrow>
             (case sc_tail s of
                None \<Rightarrow> s'
              | Some tail \<Rightarrow> s'\<lparr>sc_nodes := link_after nodes tail node, sc_tail := Some node\<rparr>))"

text \<open>
  \<open>bb_scheduler_schedule\<close> on a live task: a task whose flag is set is not queued again, and
  the flag is set only once the node is allocated.
\<close>

definition sched_schedule ::
  "bool \<Rightarrow> bb_scheduler \<Rightarrow> tid \<Rightarrow> bb_task \<Rightarrow> int \<times> bb_scheduler \<times> bb_task" where
  "sched_schedule node_ok s t k =
     (if has_flag (tk_state k) BB_TASK_SCHEDULED then (0, s, k)
      else if \<not> node_ok then (-1, s, k)
      else (0, sched_enqueue s t,
            k\<lparr>tk_state := set_flag (tk_state k) BB_TASK_SCHEDULED\<rparr>))"

definition bb_scheduler_schedule ::
  "bool \<Rightarrow> bb_scheduler option \<Rightarrow> (tid \<times> bb_task) option \<Rightarrow>
   int \<times> bb_scheduler option \<times> (tid \<times> bb_task) option" where
  "bb_scheduler_schedule node_ok sched tsk =
     (case (sched, tsk) of
        (Some s, Some (t, k)) \<Rightarrow>
          (let (rc, s', k') = sched_schedule node_ok s t k in (rc, Some s', Some (t, k')))
      | _ \<Rightarrow> (-1, sched, tsk))"

definition sched_next :: "bb_scheduler \<Rightarrow> (tid \<times> bb_scheduler) option" where
  "sched_next s =
     (case sc_head s of
        None \<Rightarrow> None
      | Some a \<Rightarrow>
          (case sc_nodes s a of
             None \<Rightarrow> None
           | Some nd \<Rightarrow>
               Some (nd_task nd,
                     s\<lparr>sc_head := nd_next nd,
                       sc_tail := (if nd_next nd = None then None else sc_tail s),
                       sc_nodes := (sc_nodes s)(a := None)\<rparr>)))"

definition bb_scheduler_next :: "bb_scheduler option \<Rightarrow> tid option \<times> bb_scheduler option" where
  "bb_scheduler_next sched =
     (case sched of
        None \<Rightarrow> (None, None)
      | Some s \<Rightarrow> (case sched_next s of None \<Rightarrow> (None, Some s) | Some (t, s') \<Rightarrow> (Some t, Some s')))"

definition sched_is_empty :: "bb_scheduler \<Rightarrow> bool" where
  "sched_is_empty s \<longleftrightarrow> sc_head s = None"

section \<open>The chain of nodes is a list\<close>

fun chain :: "(nat \<rightharpoonup> task_node) \<Rightarrow> nat option \<Rightarrow> nat list \<Rightarrow> bool" where
  "chain N p [] \<longleftrightarrow> p = None"
| "chain N p (a # as) \<longleftrightarrow> p = Some a \<and> (\<exists>nd. N a = Some nd \<and> chain N (nd_next nd) as)"

definition sched_repr :: "bb_scheduler \<Rightarrow> nat list \<Rightarrow> bool" where
  "sched_repr s as \<longleftrightarrow>
     chain (sc_nodes s) (sc_head s) as \<and> distinct as \<and> dom (sc_nodes s) = set as \<and>
     (\<forall>a\<in>set as. a < sc_fresh s) \<and> sc_tail s = (if as = [] then None else Some (last as))"

definition sched_inv :: "bb_scheduler \<Rightarrow> bool" where
  "sched_inv s \<longleftrightarrow> (\<exists>as. sched_repr s as)"

text \<open>Reading the queue off the store, at most \<open>n\<close> nodes far.\<close>

fun walk :: "nat \<Rightarrow> (nat \<rightharpoonup> task_node) \<Rightarrow> nat option \<Rightarrow> tid list" where
  "walk 0 N p = []"
| "walk (Suc n) N p =
     (case p of None \<Rightarrow> []
      | Some a \<Rightarrow> (case N a of None \<Rightarrow> [] | Some nd \<Rightarrow> nd_task nd # walk n N (nd_next nd)))"

definition queue_of :: "bb_scheduler \<Rightarrow> tid list" where
  "queue_of s = walk (sc_fresh s) (sc_nodes s) (sc_head s)"

lemma walk_chain:
  "chain N p as \<Longrightarrow> length as \<le> n \<Longrightarrow> walk n N p = map (\<lambda>a. nd_task (the (N a))) as"
proof (induction as arbitrary: n p)
  case Nil
  then show ?case by (cases n) simp_all
next
  case (Cons a as)
  then show ?case by (cases n) auto
qed

lemma repr_length: "sched_repr s as \<Longrightarrow> length as \<le> sc_fresh s"
proof -
  assume "sched_repr s as"
  then have "distinct as" "set as \<subseteq> {..<sc_fresh s}" by (auto simp: sched_repr_def)
  then show ?thesis
    by (metis card_lessThan card_mono distinct_card finite_lessThan)
qed

lemma queue_of_repr:
  "sched_repr s as \<Longrightarrow> queue_of s = map (\<lambda>a. nd_task (the (sc_nodes s a))) as"
  unfolding queue_of_def
  by (rule walk_chain) (simp_all add: repr_length, simp add: sched_repr_def)

lemma chain_cong: "(\<And>a. a \<in> set as \<Longrightarrow> N a = M a) \<Longrightarrow> chain N p as = chain M p as"
  by (induction as arbitrary: p) auto

lemma chain_snoc:
  "chain N p (as @ [a]) \<Longrightarrow> distinct (as @ [a]) \<Longrightarrow> b \<notin> set (as @ [a]) \<Longrightarrow> N b = Some nb \<Longrightarrow>
   nd_next nb = None \<Longrightarrow> chain (link_after N a b) p (as @ [a, b])"
proof (induction as arbitrary: p)
  case Nil
  then show ?case by (auto simp: link_after_def)
next
  case (Cons c as)
  then have "link_after N a b c = N c"
    by (auto simp: link_after_def split: option.splits)
  with Cons show ?case by auto
qed

lemma enqueue_repr:
  assumes "sched_repr s as"
  shows "sched_repr (sched_enqueue s t) (as @ [sc_fresh s])"
    and "queue_of (sched_enqueue s t) = queue_of s @ [t]"
proof -
  let ?b = "sc_fresh s" and ?M = "(sc_nodes s)(sc_fresh s \<mapsto> \<lparr>nd_task = t, nd_next = None\<rparr>)"
  have ch: "chain (sc_nodes s) (sc_head s) as" and b: "?b \<notin> set as" and d: "distinct as"
    and dm: "dom (sc_nodes s) = set as" and lt: "\<forall>a\<in>set as. a < sc_fresh s"
    and tl: "sc_tail s = (if as = [] then None else Some (last as))"
    using assms by (auto simp: sched_repr_def)
  show r: "sched_repr (sched_enqueue s t) (as @ [?b])"
  proof (cases as rule: rev_cases)
    case Nil
    with ch dm show ?thesis
      by (simp add: sched_repr_def sched_enqueue_def Let_def)
  next
    case (snoc cs a)
    have "chain ?M (sc_head s) as"
      using ch b by (subst chain_cong [of as ?M "sc_nodes s"]) auto
    then have "chain (link_after ?M a ?b) (sc_head s) (cs @ [a, ?b])"
      using d b snoc by (intro chain_snoc) auto
    moreover have "sc_head s \<noteq> None" using ch snoc by (cases cs) auto
    moreover have "dom (link_after ?M a ?b) = insert ?b (set as)"
      using dm snoc by (auto simp: link_after_def split: option.splits)
    moreover have "sched_enqueue s t = s\<lparr>sc_nodes := link_after ?M a ?b, sc_fresh := Suc ?b,
        sc_tail := Some ?b\<rparr>"
      using \<open>sc_head s \<noteq> None\<close> tl snoc by (auto simp: sched_enqueue_def Let_def)
    ultimately show ?thesis
      using d b lt snoc by (simp add: sched_repr_def less_SucI insert_commute)
  qed
  have "nd_task (the (sc_nodes (sched_enqueue s t) a)) = nd_task (the (sc_nodes s a))"
    if "a \<in> set as" for a
    using that b by (auto simp: sched_enqueue_def Let_def link_after_def split: option.splits)
  moreover have "nd_task (the (sc_nodes (sched_enqueue s t) ?b)) = t"
    using tl b by (auto simp: sched_enqueue_def Let_def link_after_def split: option.splits if_splits)
  ultimately show "queue_of (sched_enqueue s t) = queue_of s @ [t]"
    by (simp add: queue_of_repr [OF r] queue_of_repr [OF assms])
qed

lemma next_repr:
  assumes "sched_repr s (a # as)"
  shows "\<exists>t s'. sched_next s = Some (t, s') \<and> sched_repr s' as \<and> queue_of s = t # queue_of s'"
proof -
  obtain nd where nd: "sc_head s = Some a" "sc_nodes s a = Some nd"
    and ch: "chain (sc_nodes s) (nd_next nd) as" and a: "a \<notin> set as"
    using assms by (auto simp: sched_repr_def)
  define s' where "s' = s\<lparr>sc_head := nd_next nd,
    sc_tail := (if nd_next nd = None then None else sc_tail s), sc_nodes := (sc_nodes s)(a := None)\<rparr>"
  have nx: "nd_next nd = None \<longleftrightarrow> as = []" using ch by (cases as) auto
  have "chain ((sc_nodes s)(a := None)) (nd_next nd) as"
    using ch a by (subst chain_cong [of as _ "sc_nodes s"]) auto
  then have r: "sched_repr s' as"
    using assms a nx by (auto simp: sched_repr_def s'_def)
  moreover have "queue_of s = nd_task nd # queue_of s'"
    unfolding queue_of_repr [OF r] queue_of_repr [OF assms] using a nd by (auto simp: s'_def)
  moreover have "sched_next s = Some (nd_task nd, s')"
    using nd by (simp add: sched_next_def s'_def)
  ultimately show ?thesis by blast
qed

lemma sched_enqueue_inv: "sched_inv s \<Longrightarrow> sched_inv (sched_enqueue s t)"
  using enqueue_repr(1) by (auto simp: sched_inv_def)

lemma sched_enqueue_queue: "sched_inv s \<Longrightarrow> queue_of (sched_enqueue s t) = queue_of s @ [t]"
  using enqueue_repr(2) by (auto simp: sched_inv_def)

lemma sched_next_none: "sched_inv s \<Longrightarrow> sched_next s = None \<longleftrightarrow> queue_of s = []"
proof -
  assume "sched_inv s"
  then obtain as where r: "sched_repr s as" by (auto simp: sched_inv_def)
  show ?thesis
  proof (cases as)
    case Nil
    with r show ?thesis by (simp add: queue_of_repr [OF r]) (simp add: sched_repr_def sched_next_def)
  next
    case (Cons a bs)
    with next_repr [of s a bs] r show ?thesis by auto
  qed
qed

lemma sched_next_some:
  assumes "sched_inv s" and "sched_next s = Some (t, s')"
  shows "sched_inv s' \<and> queue_of s = t # queue_of s'"
proof -
  obtain as where r: "sched_repr s as" using assms(1) by (auto simp: sched_inv_def)
  show ?thesis
  proof (cases as)
    case Nil
    with r assms(2) show ?thesis by (simp add: sched_repr_def sched_next_def)
  next
    case (Cons a bs)
    with next_repr [of s a bs] r assms(2) show ?thesis by (auto simp: sched_inv_def)
  qed
qed

lemma sched_empty_iff: "sched_inv s \<Longrightarrow> sched_is_empty s \<longleftrightarrow> queue_of s = []"
proof -
  assume i: "sched_inv s"
  then obtain as where r: "sched_repr s as" by (auto simp: sched_inv_def)
  then have "sc_head s = None \<longleftrightarrow> as = []" by (cases as) (auto simp: sched_repr_def)
  then show ?thesis by (simp add: sched_is_empty_def queue_of_repr [OF r])
qed

lemma sched_create_inv: "bb_scheduler_create ok = Some s \<Longrightarrow> sched_inv s \<and> queue_of s = []"
proof -
  assume "bb_scheduler_create ok = Some s"
  then have s: "s = \<lparr>sc_nodes = Map.empty, sc_fresh = 0, sc_head = None, sc_tail = None\<rparr>"
    by (simp add: bb_scheduler_create_def split: if_splits)
  then have "sched_repr s []" by (simp add: sched_repr_def)
  then show ?thesis by (auto simp: sched_inv_def queue_of_def s)
qed

interpretation run_q: fifo_queue sched_inv queue_of sched_enqueue sched_next
proof
  fix q q' x
  assume q: "sched_inv q"
  show "sched_inv (sched_enqueue q x)" "queue_of (sched_enqueue q x) = queue_of q @ [x]"
    and "sched_next q = None \<longleftrightarrow> queue_of q = []"
    using q by (rule sched_enqueue_inv sched_enqueue_queue sched_next_none)+
  assume "sched_next q = Some (x, q')"
  from sched_next_some [OF q this] show "sched_inv q'" "queue_of q = x # queue_of q'"
    by simp_all
qed

end
