(* ===== verification/Poller.thy ===== *)
theory Poller
  imports BB_Prelude
begin

text \<open>
  The poller's interest table of \<open>modules/runtime/src/poller.c\<close>: which events every registered
  descriptor waits for. The operating-system call behind each operation (epoll, kqueue or poll)
  is an input of the operation, its success or failure.
\<close>

section \<open>Data and operations\<close>

definition BB_EVENT_READ :: u32 where "BB_EVENT_READ = push_bit 0 1"
definition BB_EVENT_WRITE :: u32 where "BB_EVENT_WRITE = push_bit 1 1"

definition BB_INVALID_SOCKET :: fd where "BB_INVALID_SOCKET = -1"

definition bb_poller_fd_supported :: "fd \<Rightarrow> bool" where
  "bb_poller_fd_supported d \<longleftrightarrow> d \<noteq> BB_INVALID_SOCKET"

record poll_fd =
  pf_fd :: fd
  pf_events :: u32

text \<open>The live prefix of the table is a list; \<open>count\<close> is its length.\<close>

record bb_poller =
  pl_fds :: "poll_fd list"
  pl_capacity :: nat

definition BB_POLLER_INITIAL_CAPACITY :: nat where
  "BB_POLLER_INITIAL_CAPACITY = 16"

definition bb_poller_create :: "bool \<Rightarrow> bool \<Rightarrow> bool \<Rightarrow> bb_poller option" where
  "bb_poller_create poller_ok fds_ok backend_ok =
     (if \<not> poller_ok then None
      else if \<not> fds_ok then None
      else if \<not> backend_ok then None
      else Some \<lparr>pl_fds = [], pl_capacity = BB_POLLER_INITIAL_CAPACITY\<rparr>)"

text \<open>Linear search; \<open>None\<close> is the result \<open>-1\<close>.\<close>

fun bb_find_fd :: "poll_fd list \<Rightarrow> fd \<Rightarrow> nat option" where
  "bb_find_fd [] d = None"
| "bb_find_fd (x # xs) d = (if pf_fd x = d then Some 0 else map_option Suc (bb_find_fd xs d))"

definition poller_grow :: "bool \<Rightarrow> bb_poller \<Rightarrow> bb_poller option" where
  "poller_grow realloc_ok p =
     (if realloc_ok then Some (p\<lparr>pl_capacity := pl_capacity p * 2\<rparr>) else None)"

definition poller_register :: "bool \<Rightarrow> bool \<Rightarrow> bb_poller \<Rightarrow> fd \<Rightarrow> u32 \<Rightarrow> int \<times> bb_poller" where
  "poller_register realloc_ok backend_ok p d events =
     (if \<not> bb_poller_fd_supported d then (-1, p)
      else
        let idx = bb_find_fd (pl_fds p) d in
        case (if idx = None \<and> length (pl_fds p) \<ge> pl_capacity p then poller_grow realloc_ok p
              else Some p) of
          None \<Rightarrow> (-1, p)
        | Some p' \<Rightarrow>
            if \<not> backend_ok then (-1, p')
            else (case idx of
                    Some i \<Rightarrow>
                      (0, p'\<lparr>pl_fds := (pl_fds p')[i := (pl_fds p' ! i)
                               \<lparr>pf_events := pf_events (pl_fds p' ! i) OR events\<rparr>]\<rparr>)
                  | None \<Rightarrow>
                      (0, p'\<lparr>pl_fds := pl_fds p' @ [\<lparr>pf_fd = d, pf_events = events\<rparr>]\<rparr>)))"

definition bb_poller_register ::
  "bool \<Rightarrow> bool \<Rightarrow> bb_poller option \<Rightarrow> fd \<Rightarrow> u32 \<Rightarrow> int \<times> bb_poller option" where
  "bb_poller_register realloc_ok backend_ok poller d events =
     (case poller of
        None \<Rightarrow> (-1, None)
      | Some p \<Rightarrow> (let (rc, p') = poller_register realloc_ok backend_ok p d events in (rc, Some p')))"

definition poller_unregister :: "bb_poller \<Rightarrow> fd \<Rightarrow> u32 \<Rightarrow> int \<times> bb_poller" where
  "poller_unregister p d events =
     (case bb_find_fd (pl_fds p) d of
        None \<Rightarrow> (-1, p)
      | Some i \<Rightarrow>
          (let e = pf_events (pl_fds p ! i) AND NOT events;
               fds = (pl_fds p)[i := (pl_fds p ! i)\<lparr>pf_events := e\<rparr>]
           in (0, p\<lparr>pl_fds := (if e = 0 then arr_remove_swap fds i else fds)\<rparr>)))"

definition bb_poller_unregister :: "bb_poller option \<Rightarrow> fd \<Rightarrow> u32 \<Rightarrow> int \<times> bb_poller option" where
  "bb_poller_unregister poller d events =
     (case poller of
        None \<Rightarrow> (-1, None)
      | Some p \<Rightarrow> (let (rc, p') = poller_unregister p d events in (rc, Some p')))"

section \<open>The table as a map from descriptors to interest masks\<close>

definition poller_inv :: "bb_poller \<Rightarrow> bool" where
  "poller_inv p \<longleftrightarrow> distinct (map pf_fd (pl_fds p)) \<and>
     0 < pl_capacity p \<and> length (pl_fds p) \<le> pl_capacity p"

definition interest :: "bb_poller \<Rightarrow> fd \<rightharpoonup> u32" where
  "interest p = map_of (map (\<lambda>x. (pf_fd x, pf_events x)) (pl_fds p))"

lemma find_fd_None: "bb_find_fd xs d = None \<longleftrightarrow> d \<notin> pf_fd ` set xs"
  by (induction xs) auto

lemma find_fd_Some: "bb_find_fd xs d = Some i \<Longrightarrow> i < length xs \<and> pf_fd (xs ! i) = d"
  by (induction xs arbitrary: i) (auto split: if_splits)

lemma interest_iff:
  "distinct (map pf_fd xs) \<Longrightarrow>
   map_of (map (\<lambda>x. (pf_fd x, pf_events x)) xs) d = Some e \<longleftrightarrow>
   (\<exists>x\<in>set xs. pf_fd x = d \<and> pf_events x = e)"
  by (subst map_of_eq_Some_iff) (auto simp: comp_def)

lemma map_of_eqI:
  "distinct (map pf_fd xs) \<Longrightarrow>
   (\<And>d e. (\<exists>x\<in>set xs. pf_fd x = d \<and> pf_events x = e) \<longleftrightarrow> m d = Some e) \<Longrightarrow>
   map_of (map (\<lambda>x. (pf_fd x, pf_events x)) xs) = m"
proof
  fix d
  let ?f = "map_of (map (\<lambda>x. (pf_fd x, pf_events x)) xs)"
  assume d: "distinct (map pf_fd xs)"
    and m: "\<And>d e. (\<exists>x\<in>set xs. pf_fd x = d \<and> pf_events x = e) \<longleftrightarrow> m d = Some e"
  have "?f d = Some e \<longleftrightarrow> m d = Some e" for e
    by (simp only: interest_iff [OF d] m)
  then show "?f d = m d"
    by (metis option.exhaust)
qed

lemma interest_found:
  "distinct (map pf_fd xs) \<Longrightarrow> bb_find_fd xs d = Some i \<Longrightarrow>
   map_of (map (\<lambda>x. (pf_fd x, pf_events x)) xs) d = Some (pf_events (xs ! i))"
  using find_fd_Some [of xs d i] by (auto simp: interest_iff)

lemma interest_update:
  assumes "distinct (map pf_fd xs)" and "bb_find_fd xs d = Some i"
  shows "map pf_fd (xs[i := (xs ! i)\<lparr>pf_events := e\<rparr>]) = map pf_fd xs"
    and "map_of (map (\<lambda>x. (pf_fd x, pf_events x)) (xs[i := (xs ! i)\<lparr>pf_events := e\<rparr>])) =
         (map_of (map (\<lambda>x. (pf_fd x, pf_events x)) xs))(d \<mapsto> e)"
  using assms
proof (induction xs arbitrary: i)
  case (Cons x xs)
  { case 1 then show ?case using Cons.IH(1) by (auto split: if_splits) }
  { case 2 then show ?case using Cons.IH(2) by (auto split: if_splits) }
qed simp_all

lemma interest_remove:
  assumes d: "distinct (map pf_fd xs)" and i: "i < length xs"
  shows "distinct (map pf_fd (arr_remove_swap xs i)) \<and>
         map_of (map (\<lambda>x. (pf_fd x, pf_events x)) (arr_remove_swap xs i)) =
         (map_of (map (\<lambda>x. (pf_fd x, pf_events x)) xs))(pf_fd (xs ! i) := None)"
proof
  have dx: "distinct xs" using d by (simp add: distinct_map)
  have s: "set (arr_remove_swap xs i) = set xs - {xs ! i}"
    using distinct_arr_remove_swap [OF dx i] by blast
  show di: "distinct (map pf_fd (arr_remove_swap xs i))"
    using distinct_arr_remove_swap [of "map pf_fd xs" i] d i by (simp add: arr_remove_swap_map)
  have inj: "inj_on pf_fd (set xs)" using d by (simp add: distinct_map)
  show "map_of (map (\<lambda>x. (pf_fd x, pf_events x)) (arr_remove_swap xs i)) =
        (map_of (map (\<lambda>x. (pf_fd x, pf_events x)) xs))(pf_fd (xs ! i) := None)"
    using inj i by (intro map_of_eqI [OF di]) (auto simp: s interest_iff [OF d] inj_on_def)
qed

lemma poller_register_inv:
  assumes "poller_inv p" and "poller_register ro bo p d e = (rc, p')"
  shows "poller_inv p' \<and>
         (rc = 0 \<and> interest p' = (interest p)(d \<mapsto> (case interest p d of None \<Rightarrow> e | Some m \<Rightarrow> m OR e)) \<or>
          rc = -1 \<and> interest p' = interest p)"
proof (cases "bb_find_fd (pl_fds p) d")
  case None
  then have "interest p d = None" "d \<notin> pf_fd ` set (pl_fds p)"
    by (auto simp: find_fd_None interest_def map_of_eq_None_iff image_image)
  with None assms show ?thesis
    by (auto simp: poller_register_def poller_grow_def poller_inv_def interest_def Let_def
        map_add_def Suc_le_eq split: if_splits option.splits)
next
  case (Some i)
  have "distinct (map pf_fd (pl_fds p))" using assms(1) by (simp add: poller_inv_def)
  note upd = interest_update [OF this Some] interest_found [OF this Some]
  with Some assms show ?thesis
    by (auto simp: poller_register_def poller_inv_def interest_def Let_def split: if_splits)
qed

lemma poller_unregister_inv:
  assumes "poller_inv p" and "poller_unregister p d e = (rc, p')"
  shows "poller_inv p' \<and>
         interest p' = (case interest p d of
            None \<Rightarrow> interest p
          | Some m \<Rightarrow> (interest p)(d := (if m AND NOT e = 0 then None else Some (m AND NOT e))))"
proof (cases "bb_find_fd (pl_fds p) d")
  case None
  then have "interest p d = None"
    by (auto simp: find_fd_None interest_def map_of_eq_None_iff image_image)
  with None assms show ?thesis by (simp add: poller_unregister_def)
next
  case (Some i)
  have d: "distinct (map pf_fd (pl_fds p))" using assms(1) by (simp add: poller_inv_def)
  note i = find_fd_Some [OF Some]
  note upd = interest_update [OF d Some] interest_found [OF d Some]
  let ?fds = "(pl_fds p)[i := (pl_fds p ! i)\<lparr>pf_events := pf_events (pl_fds p ! i) AND NOT e\<rparr>]"
  have "distinct (map pf_fd ?fds)" using upd(1) d by simp
  note rem = interest_remove [OF this, of i]
  from Some assms upd rem i show ?thesis
    by (auto simp: poller_unregister_def poller_inv_def interest_def Let_def split: if_splits)
qed

end
