(* ===== verification/Runtime.thy ===== *)
theory Runtime
  imports Timer_Heap Scheduler Poller "HOL-Library.Monad_Syntax"
begin

text \<open>
  The event loop of \<open>modules/runtime/src/runtime.c\<close>: it owns the tasks and moves them between
  the run queue, the descriptor watchers and the timers. The heap of tasks is explicit, so a
  read or write of a task that has been freed is visible: every function that touches a task
  returns an option, and \<open>None\<close> is that undefined behaviour. Failures of the allocator, of the
  operating-system poller and the clock are inputs, gathered in the record \<open>env\<close>. A run callback
  may call the runtime; a cleanup callback is recorded, not run: the model is of a program
  whose cleanup callbacks do not call the runtime back (the code calls them in the middle of
  \<open>bb_runtime_unwatch_fd\<close>, \<open>bb_runtime_cancel_task\<close> and \<open>bb_runtime_destroy\<close>, where the arrays
  they walk must not change).
\<close>

section \<open>State\<close>

datatype bb_watch_mode = BB_WATCH_ONESHOT | BB_WATCH_PERSISTENT

record bb_watcher =
  wt_fd :: fd
  wt_events :: u32
  wt_mode :: bb_watch_mode
  wt_task :: tid

record bb_runtime =
  rt_running :: bool
  rt_scheduler :: bb_scheduler
  rt_poller :: bb_poller
  rt_watchers :: "bb_watcher list"
  rt_watcher_capacity :: nat
  rt_timers :: bb_timer_heap
  rt_tasks :: "tid \<rightharpoonup> bb_task"
  rt_next_tid :: tid
  rt_calls :: "(tid \<times> cleanup_call) list"

text \<open>
  \<open>rt_tasks\<close> holds the allocated tasks, \<open>rt_next_tid\<close> the identity of the next one, and
  \<open>rt_calls\<close> the cleanup callbacks made so far, oldest first.
\<close>

record env =
  ev_alloc :: bool             \<comment> \<open>\<open>calloc\<close> of a task\<close>
  ev_no_node :: "tid list"     \<comment> \<open>tasks for whose queue node \<open>malloc\<close> fails\<close>
  ev_grow :: bool              \<comment> \<open>\<open>realloc\<close> of the watcher array or of the timer heap\<close>
  ev_poll_grow :: bool         \<comment> \<open>\<open>realloc\<close> of the poller's table\<close>
  ev_backend :: "u32 \<Rightarrow> bool"  \<comment> \<open>the poller back end accepts this mask\<close>
  ev_before :: u64             \<comment> \<open>\<open>bb_time_monotonic_ms\<close>, read before the wait of a tick\<close>
  ev_now :: u64                \<comment> \<open>\<open>bb_time_monotonic_ms\<close>, read behind it, and in the other calls\<close>

definition ev_node :: "env \<Rightarrow> tid \<Rightarrow> bool" where
  "ev_node ev t \<longleftrightarrow> t \<notin> set (ev_no_node ev)"

lemma ev_node_all: "(\<forall>u. ev_node ev u) \<longleftrightarrow> ev_no_node ev = []"
  by (cases "ev_no_node ev") (auto simp: ev_node_def)

definition BB_RUNTIME_WATCHERS_INITIAL_CAPACITY :: nat where
  "BB_RUNTIME_WATCHERS_INITIAL_CAPACITY = 16"

definition BB_RUNTIME_IDLE_TIMEOUT_MS :: u64 where
  "BB_RUNTIME_IDLE_TIMEOUT_MS = 1000"

text \<open>The five allocations of \<open>bb_runtime_create\<close>, in order.\<close>

definition bb_runtime_create ::
  "bool \<Rightarrow> bb_scheduler option \<Rightarrow> bb_poller option \<Rightarrow> bool \<Rightarrow> bb_timer_heap option \<Rightarrow> bb_runtime option"
where
  "bb_runtime_create rt_ok sched poller watchers_ok timers =
     (if \<not> rt_ok then None
      else case sched of None \<Rightarrow> None | Some s \<Rightarrow>
        (case poller of None \<Rightarrow> None | Some p \<Rightarrow>
          (if \<not> watchers_ok then None
           else case timers of None \<Rightarrow> None | Some h \<Rightarrow>
             Some \<lparr>rt_running = False, rt_scheduler = s, rt_poller = p, rt_watchers = [],
                   rt_watcher_capacity = BB_RUNTIME_WATCHERS_INITIAL_CAPACITY, rt_timers = h,
                   rt_tasks = Map.empty, rt_next_tid = 0, rt_calls = []\<rparr>)))"

section \<open>Operations on tasks in the store\<close>

definition rt_put_task :: "tid \<Rightarrow> bb_task \<Rightarrow> bb_runtime \<Rightarrow> bb_runtime" where
  "rt_put_task t k rt = rt\<lparr>rt_tasks := (rt_tasks rt)(t \<mapsto> k)\<rparr>"

text \<open>\<open>bb_task_create\<close>; \<open>None\<close> is the null pointer.\<close>

definition rt_task_create ::
  "bool \<Rightarrow> bb_task_config option \<Rightarrow> bb_runtime \<Rightarrow> (tid \<times> bb_runtime) option" where
  "rt_task_create ok config rt =
     (case bb_task_create ok config of
        None \<Rightarrow> None
      | Some k \<Rightarrow>
          Some (rt_next_tid rt, (rt_put_task (rt_next_tid rt) k rt)\<lparr>rt_next_tid := Suc (rt_next_tid rt)\<rparr>))"

definition rt_log :: "tid \<Rightarrow> cleanup_call list \<Rightarrow> bb_runtime \<Rightarrow> bb_runtime" where
  "rt_log t calls rt = rt\<lparr>rt_calls := rt_calls rt @ map (Pair t) calls\<rparr>"

definition rt_task_destroy :: "tid \<Rightarrow> bb_runtime \<Rightarrow> bb_runtime option" where
  "rt_task_destroy t rt = do {
     k \<leftarrow> rt_tasks rt t;
     let (k', calls) = task_finalize k RES_COMPLETED;
     Some ((rt_log t calls rt)\<lparr>rt_tasks := (rt_tasks rt)(t := None)\<rparr>)
   }"

definition rt_task_cancel :: "tid \<Rightarrow> bb_runtime \<Rightarrow> bb_runtime option" where
  "rt_task_cancel t rt = do {
     k \<leftarrow> rt_tasks rt t;
     let (k', calls) = task_cancel k;
     Some (rt_log t calls (rt_put_task t k' rt))
   }"

text \<open>\<open>task->state = f (task->state)\<close>.\<close>

definition rt_task_state :: "(u32 \<Rightarrow> u32) \<Rightarrow> tid \<Rightarrow> bb_runtime \<Rightarrow> bb_runtime option" where
  "rt_task_state f t rt = do {
     k \<leftarrow> rt_tasks rt t;
     Some (rt_put_task t (k\<lparr>tk_state := f (tk_state k)\<rparr>) rt)
   }"

text \<open>\<open>bb_scheduler_schedule(runtime->scheduler, task)\<close>.\<close>

definition rt_schedule :: "env \<Rightarrow> tid \<Rightarrow> bb_runtime \<Rightarrow> (int \<times> bb_runtime) option" where
  "rt_schedule ev t rt = do {
     k \<leftarrow> rt_tasks rt t;
     let (rc, s, k') = sched_schedule (ev_node ev t) (rt_scheduler rt) t k;
     Some (rc, (rt_put_task t k' rt)\<lparr>rt_scheduler := s\<rparr>)
   }"

section \<open>Scheduling and cancelling\<close>

definition rt_schedule_ex ::
  "env \<Rightarrow> bb_task_config option \<Rightarrow> bb_runtime \<Rightarrow> (tid option \<times> bb_runtime) option" where
  "rt_schedule_ex ev config rt =
     (case rt_task_create (ev_alloc ev) config rt of
        None \<Rightarrow> Some (None, rt)
      | Some (t, rt) \<Rightarrow> do {
          (rc, rt) \<leftarrow> rt_schedule ev t rt;
          if rc \<noteq> 0 then do { rt \<leftarrow> rt_task_destroy t rt; Some (None, rt) }
          else Some (Some t, rt)
        })"

definition rt_remove_timers :: "tid \<Rightarrow> bb_runtime \<Rightarrow> bb_runtime" where
  "rt_remove_timers t rt = rt\<lparr>rt_timers := snd (timer_remove_task (rt_timers rt) t)\<rparr>"

definition drop_watcher :: "nat \<Rightarrow> bb_runtime \<Rightarrow> bb_runtime" where
  "drop_watcher i rt = rt\<lparr>rt_watchers := arr_remove_swap (rt_watchers rt) i\<rparr>"

definition unregister :: "fd \<Rightarrow> u32 \<Rightarrow> bb_runtime \<Rightarrow> bb_runtime" where
  "unregister d e rt = rt\<lparr>rt_poller := snd (poller_unregister (rt_poller rt) d e)\<rparr>"

lemma rt_drop_simps [simp]:
  "rt_watchers (drop_watcher i rt) = arr_remove_swap (rt_watchers rt) i"
  "rt_watchers (unregister d e rt) = rt_watchers rt"
  by (simp_all add: drop_watcher_def unregister_def)

function remove_watchers_from :: "tid \<Rightarrow> nat \<Rightarrow> bb_runtime \<Rightarrow> bb_runtime" where
  "remove_watchers_from t i rt =
     (if i < length (rt_watchers rt)
      then let w = rt_watchers rt ! i
           in if wt_task w = t
              then remove_watchers_from t i (drop_watcher i (unregister (wt_fd w) (wt_events w) rt))
              else remove_watchers_from t (i + 1) rt
      else rt)"
  by pat_completeness auto
termination
  by (relation "measure (\<lambda>(t, i, rt). length (rt_watchers rt) - i)") auto

declare remove_watchers_from.simps [simp del]

definition rt_remove_watchers :: "tid \<Rightarrow> bb_runtime \<Rightarrow> bb_runtime" where
  "rt_remove_watchers t rt = remove_watchers_from t 0 rt"

definition rt_cancel_task :: "env \<Rightarrow> tid \<Rightarrow> bb_runtime \<Rightarrow> (int \<times> bb_runtime) option" where
  "rt_cancel_task ev t rt = do {
     rt \<leftarrow> rt_task_cancel t rt;
     let rt = rt_remove_watchers t rt;
     let rt = rt_remove_timers t rt;
     (rc, rt) \<leftarrow> rt_schedule ev t rt;
     Some (0, rt)
   }"

section \<open>Watching descriptors\<close>

fun find_watcher_exact :: "bb_watcher list \<Rightarrow> fd \<Rightarrow> u32 \<Rightarrow> nat option" where
  "find_watcher_exact [] d e = None"
| "find_watcher_exact (w # ws) d e =
     (if wt_fd w = d \<and> wt_events w = e then Some 0 else map_option Suc (find_watcher_exact ws d e))"

definition fd_registered_mask :: "bb_watcher list \<Rightarrow> fd \<Rightarrow> u32" where
  "fd_registered_mask ws d = foldl (\<lambda>m w. if wt_fd w = d then m OR wt_events w else m) 0 ws"

definition grow_watchers :: "bool \<Rightarrow> bb_runtime \<Rightarrow> bb_runtime option" where
  "grow_watchers ok rt =
     (if ok then Some (rt\<lparr>rt_watcher_capacity := rt_watcher_capacity rt * 2\<rparr>) else None)"

definition register :: "env \<Rightarrow> fd \<Rightarrow> u32 \<Rightarrow> bb_runtime \<Rightarrow> int \<times> bb_runtime" where
  "register ev d e rt =
     (let (rc, p) = poller_register (ev_poll_grow ev) (ev_backend ev e) (rt_poller rt) d e
      in (rc, rt\<lparr>rt_poller := p\<rparr>))"

text \<open>Bringing the poller's mask for \<open>d\<close> from \<open>old\<close> to \<open>new\<close>; false is the early \<open>return -1\<close>.\<close>

definition update_interest :: "env \<Rightarrow> fd \<Rightarrow> u32 \<Rightarrow> u32 \<Rightarrow> bb_runtime \<Rightarrow> bool \<times> bb_runtime" where
  "update_interest ev d old new rt =
     (if new = old then (True, rt)
      else
        let rt1 = (if old \<noteq> 0 then unregister d old rt else rt);
            (rc, rt2) = register ev d new rt1
        in if rc \<noteq> 0
           then (False, if old \<noteq> 0 then snd (register ev d old rt2) else rt2)
           else (True, rt2))"

definition mark_persistent :: "bb_watch_mode \<Rightarrow> tid \<Rightarrow> bb_runtime \<Rightarrow> bb_runtime option" where
  "mark_persistent mode t rt =
     (if mode = BB_WATCH_PERSISTENT then rt_task_state (\<lambda>s. set_flag s BB_TASK_PERSISTENT) t rt
      else Some rt)"

definition watch_fd ::
  "env \<Rightarrow> fd \<Rightarrow> u32 \<Rightarrow> bb_watch_mode \<Rightarrow> tid \<Rightarrow> bb_runtime \<Rightarrow> (int \<times> bb_runtime) option" where
  "watch_fd ev d events mode t rt =
     (case find_watcher_exact (rt_watchers rt) d events of
        Some idx \<Rightarrow>
          let w = rt_watchers rt ! idx;
              old_task = wt_task w;
              rt = rt\<lparr>rt_watchers := (rt_watchers rt)[idx := w\<lparr>wt_mode := mode, wt_task := t\<rparr>]\<rparr>
          in do {
            rt \<leftarrow> mark_persistent mode t rt;
            if old_task \<noteq> t
            then do { (rc, rt) \<leftarrow> rt_cancel_task ev old_task rt; Some (0, rt) }
            else Some (0, rt)
          }
      | None \<Rightarrow>
          (case (if length (rt_watchers rt) \<ge> rt_watcher_capacity rt
                 then grow_watchers (ev_grow ev) rt else Some rt) of
             None \<Rightarrow> Some (-1, rt)
           | Some rt \<Rightarrow>
               let existing_mask = fd_registered_mask (rt_watchers rt) d;
                   new_mask = existing_mask OR events;
                   (ok, rt) = update_interest ev d existing_mask new_mask rt
               in if \<not> ok then Some (-1, rt)
                  else do {
                    rt \<leftarrow> mark_persistent mode t rt;
                    Some (0, rt\<lparr>rt_watchers := rt_watchers rt @
                      [\<lparr>wt_fd = d, wt_events = events, wt_mode = mode, wt_task = t\<rparr>]\<rparr>)
                  }))"

definition rt_watch_fd_ex ::
  "env \<Rightarrow> fd \<Rightarrow> u32 \<Rightarrow> bb_watch_mode \<Rightarrow> bb_task_config option \<Rightarrow> bb_runtime \<Rightarrow>
   (tid option \<times> bb_runtime) option" where
  "rt_watch_fd_ex ev d events mode config rt =
     (case rt_task_create (ev_alloc ev) config rt of
        None \<Rightarrow> Some (None, rt)
      | Some (t, rt) \<Rightarrow> do {
          (rc, rt) \<leftarrow> watch_fd ev d events mode t rt;
          if rc \<noteq> 0 then do { rt \<leftarrow> rt_task_destroy t rt; Some (None, rt) }
          else Some (Some t, rt)
        })"

lemma rt_schedule_watchers [simp]:
  "rt_schedule ev t rt = Some (rc, rt') \<Longrightarrow> rt_watchers rt' = rt_watchers rt"
  by (auto simp: rt_schedule_def rt_put_task_def Let_def split: prod.splits bind_splits)

lemma rt_task_cancel_watchers [simp]:
  "rt_task_cancel t rt = Some rt' \<Longrightarrow> rt_watchers rt' = rt_watchers rt"
  by (auto simp: rt_task_cancel_def rt_put_task_def rt_log_def Let_def split: prod.splits bind_splits)

text \<open>The scan of \<open>bb_runtime_unwatch_fd\<close>, with its result so far.\<close>

function unwatch_from :: "env \<Rightarrow> fd \<Rightarrow> nat \<Rightarrow> int \<Rightarrow> bb_runtime \<Rightarrow> (int \<times> bb_runtime) option" where
  "unwatch_from ev d i res rt =
     (if i < length (rt_watchers rt)
      then if wt_fd (rt_watchers rt ! i) = d
           then let t = wt_task (rt_watchers rt ! i)
                in case rt_task_cancel t rt of
                     None \<Rightarrow> None
                   | Some rt1 \<Rightarrow>
                       (case rt_schedule ev t (drop_watcher i rt1) of
                          None \<Rightarrow> None
                        | Some (rc, rt2) \<Rightarrow> unwatch_from ev d i 0 rt2)
           else unwatch_from ev d (i + 1) res rt
      else Some (res, rt))"
  by pat_completeness auto
termination
  by (relation "measure (\<lambda>(ev, d, i, res, rt). length (rt_watchers rt) - i)") auto

declare unwatch_from.simps [simp del]

definition rt_unwatch_fd :: "env \<Rightarrow> fd \<Rightarrow> bb_runtime \<Rightarrow> (int \<times> bb_runtime) option" where
  "rt_unwatch_fd ev d rt =
     unwatch_from ev d 0 (-1) (unregister d (BB_EVENT_READ OR BB_EVENT_WRITE) rt)"

section \<open>Timers\<close>

definition push_timer :: "env \<Rightarrow> u64 \<Rightarrow> int \<Rightarrow> tid \<Rightarrow> bb_runtime \<Rightarrow> (int \<times> bb_runtime)" where
  "push_timer ev ms rep t rt =
     (case timer_push (ev_grow ev) (rt_timers rt)
             \<lparr>interval_ms = ms, next_fire_ms = ev_now ev + ms, repeating = rep, timer_task = t\<rparr> of
        None \<Rightarrow> (-1, rt)
      | Some h \<Rightarrow> (0, rt\<lparr>rt_timers := h\<rparr>))"

definition rt_set_interval_ex ::
  "env \<Rightarrow> u64 \<Rightarrow> bb_task_config option \<Rightarrow> bb_runtime \<Rightarrow> (tid option \<times> bb_runtime) option" where
  "rt_set_interval_ex ev interval config rt =
     (case rt_task_create (ev_alloc ev) config rt of
        None \<Rightarrow> Some (None, rt)
      | Some (t, rt) \<Rightarrow> do {
          rt \<leftarrow> rt_task_state (\<lambda>s. set_flag s BB_TASK_PERSISTENT) t rt;
          let (rc, rt) = push_timer ev interval 1 t rt;
          if rc \<noteq> 0 then do { rt \<leftarrow> rt_task_destroy t rt; Some (None, rt) }
          else Some (Some t, rt)
        })"

definition rt_set_timeout_ex ::
  "env \<Rightarrow> u64 \<Rightarrow> bb_task_config option \<Rightarrow> bb_runtime \<Rightarrow> (tid option \<times> bb_runtime) option" where
  "rt_set_timeout_ex ev timeout config rt =
     (case rt_task_create (ev_alloc ev) config rt of
        None \<Rightarrow> Some (None, rt)
      | Some (t, rt) \<Rightarrow>
          let (rc, rt) = push_timer ev timeout 0 t rt
          in if rc \<noteq> 0 then do { rt \<leftarrow> rt_task_destroy t rt; Some (None, rt) }
             else Some (Some t, rt))"

text \<open>
  The loop over the due timers. Each turn reads the clock value taken before the loop; a turn
  queues the task of the root and re-arms or pops the root. \<open>None\<close> also stands for a loop that
  does not end.
\<close>

definition fire_root :: "env \<Rightarrow> bb_timer \<Rightarrow> bb_runtime \<Rightarrow> bb_runtime" where
  "fire_root ev root rt =
     (if repeating root \<noteq> 0
      then let nxt = ev_now ev + interval_ms root;
               nxt = (if nxt \<le> ev_now ev then ev_now ev + 1 else nxt)
           in rt\<lparr>rt_timers := timer_reschedule_top (rt_timers rt) nxt\<rparr>
      else rt\<lparr>rt_timers := timer_pop (rt_timers rt)\<rparr>)"

partial_function (option) update_timers :: "env \<Rightarrow> bb_runtime \<Rightarrow> bb_runtime option" where
  "update_timers ev rt =
     (case timer_peek (rt_timers rt) of
        None \<Rightarrow> Some rt
      | Some root \<Rightarrow>
          if next_fire_ms root \<le> ev_now ev
          then Option.bind (rt_schedule ev (timer_task root) rt)
                 (\<lambda>(rc, rt1). update_timers ev (fire_root ev root rt1))
          else Some rt)"

definition next_timeout_ms :: "u64 \<Rightarrow> bb_runtime \<Rightarrow> int" where
  "next_timeout_ms now rt =
     (case timer_peek (rt_timers rt) of
        None \<Rightarrow> uint BB_RUNTIME_IDLE_TIMEOUT_MS
      | Some root \<Rightarrow>
          if next_fire_ms root \<le> now then 0
          else let delta = next_fire_ms root - now;
                   delta = (if delta > BB_RUNTIME_IDLE_TIMEOUT_MS
                            then BB_RUNTIME_IDLE_TIMEOUT_MS else delta)
               in uint delta)"

section \<open>Waiting for descriptors\<close>

text \<open>
  The two nested loops of \<open>_bb_runtime_wait\<close>: for every ready descriptor, a scan of the
  watchers, in which a one-shot watcher that fires is unregistered and removed in place.
\<close>

function dispatch_from :: "env \<Rightarrow> fd \<Rightarrow> u32 \<Rightarrow> nat \<Rightarrow> bb_runtime \<Rightarrow> bb_runtime option" where
  "dispatch_from ev d e j rt =
     (if j < length (rt_watchers rt)
      then let w = rt_watchers rt ! j
           in if wt_fd w = d \<and> wt_events w AND e \<noteq> 0
              then (case rt_schedule ev (wt_task w) rt of
                      None \<Rightarrow> None
                    | Some (rc, rt1) \<Rightarrow>
                        if wt_mode w = BB_WATCH_ONESHOT
                        then dispatch_from ev d e j
                               (drop_watcher j (unregister (wt_fd w) (wt_events w) rt1))
                        else dispatch_from ev d e (j + 1) rt1)
              else dispatch_from ev d e (j + 1) rt
      else Some rt)"
  by pat_completeness auto
termination
  by (relation "measure (\<lambda>(ev, d, e, j, rt). length (rt_watchers rt) - j)") auto

declare dispatch_from.simps [simp del]

fun dispatch_all :: "env \<Rightarrow> (fd \<times> u32) list \<Rightarrow> bb_runtime \<Rightarrow> bb_runtime option" where
  "dispatch_all ev [] rt = Some rt"
| "dispatch_all ev ((d, e) # evs) rt =
     Option.bind (dispatch_from ev d e 0 rt) (dispatch_all ev evs)"

text \<open>
  \<open>poll\<close> is the poller's answer to a wait with a timeout: \<open>None\<close> for a failed wait, else the
  ready descriptors with their events.
\<close>

definition rt_wait ::
  "env \<Rightarrow> (int \<Rightarrow> (fd \<times> u32) list option) \<Rightarrow> int \<Rightarrow> bb_runtime \<Rightarrow> bb_runtime option" where
  "rt_wait ev poll timeout_ms rt =
     (case poll timeout_ms of
        None \<Rightarrow> Some rt
      | Some ready \<Rightarrow> dispatch_all ev ready rt)"

section \<open>Running tasks\<close>

text \<open>
  \<open>bb_task_execute\<close>. The run callback is code of the program: a function \<open>run\<close> on the
  runtime, given the task it is called for.
\<close>

definition rt_task_execute ::
  "(tid \<Rightarrow> bb_runtime \<Rightarrow> bb_runtime option) \<Rightarrow> tid \<Rightarrow> bb_runtime \<Rightarrow> bb_runtime option" where
  "rt_task_execute run t rt = do {
     k \<leftarrow> rt_tasks rt t;
     case task_execute_enter k of
       None \<Rightarrow> Some rt
     | Some k' \<Rightarrow> do {
         rt \<leftarrow> run t (rt_put_task t k' rt);
         k \<leftarrow> rt_tasks rt t;
         Some (rt_put_task t (task_execute_leave k) rt)
       }
   }"

text \<open>The body of the loop in \<open>bb_runtime_tick\<close> that runs one dequeued task.\<close>

definition run_task ::
  "(tid \<Rightarrow> bb_runtime \<Rightarrow> bb_runtime option) \<Rightarrow> tid \<Rightarrow> bb_runtime \<Rightarrow> bb_runtime option" where
  "run_task run t rt = do {
     rt \<leftarrow> rt_task_state (\<lambda>s. clear_flag s BB_TASK_SCHEDULED) t rt;
     k \<leftarrow> rt_tasks rt t;
     rt \<leftarrow> (if \<not> has_flag (tk_state k) BB_TASK_CANCELLED then rt_task_execute run t rt else Some rt);
     k \<leftarrow> rt_tasks rt t;
     if \<not> (has_flag (tk_state k) BB_TASK_SCHEDULED \<or> has_flag (tk_state k) BB_TASK_PERSISTENT)
     then rt_task_destroy t rt
     else Some rt
   }"

text \<open>
  The loop itself for at most \<open>n\<close> tasks; the flag says whether it ended by itself (the queue is
  empty or the runtime was stopped).
\<close>

fun run_queue ::
  "nat \<Rightarrow> (tid \<Rightarrow> bb_runtime \<Rightarrow> bb_runtime option) \<Rightarrow> bb_runtime \<Rightarrow> (bool \<times> bb_runtime) option" where
  "run_queue 0 run rt = Some (False, rt)"
| "run_queue (Suc n) run rt =
     (if rt_running rt
      then case sched_next (rt_scheduler rt) of
             None \<Rightarrow> Some (True, rt)
           | Some (t, s) \<Rightarrow>
               Option.bind (run_task run t (rt\<lparr>rt_scheduler := s\<rparr>)) (run_queue n run)
      else Some (True, rt))"

definition rt_tick ::
  "nat \<Rightarrow> env \<Rightarrow> (int \<Rightarrow> (fd \<times> u32) list option) \<Rightarrow>
   (tid \<Rightarrow> bb_runtime \<Rightarrow> bb_runtime option) \<Rightarrow> bb_runtime \<Rightarrow> (bool \<times> bb_runtime) option" where
  "rt_tick n ev poll run rt = do {
     let wait_timeout =
       (if sched_is_empty (rt_scheduler rt) then next_timeout_ms (ev_before ev) rt else 0);
     rt \<leftarrow> rt_wait ev poll wait_timeout rt;
     rt \<leftarrow> update_timers ev rt;
     run_queue n run rt
   }"

definition rt_set_running :: "bb_runtime \<Rightarrow> bb_runtime" where
  "rt_set_running rt = rt\<lparr>rt_running := True\<rparr>"

definition rt_stop :: "bb_runtime \<Rightarrow> bb_runtime" where
  "rt_stop rt = rt\<lparr>rt_running := False\<rparr>"

text \<open>
  \<open>bb_runtime_run\<close> over a list of environments, one per tick; it ends when the runtime is
  stopped or the list is exhausted.
\<close>

fun run_loop ::
  "nat \<Rightarrow> (env \<times> (int \<Rightarrow> (fd \<times> u32) list option)) list \<Rightarrow>
   (tid \<Rightarrow> bb_runtime \<Rightarrow> bb_runtime option) \<Rightarrow> bb_runtime \<Rightarrow> bb_runtime option" where
  "run_loop n [] run rt = Some rt"
| "run_loop n ((ev, poll) # evs) run rt =
     (if rt_running rt
      then Option.bind (rt_tick n ev poll run rt) (\<lambda>(_, rt'). run_loop n evs run rt')
      else Some rt)"

definition rt_run ::
  "nat \<Rightarrow> (env \<times> (int \<Rightarrow> (fd \<times> u32) list option)) list \<Rightarrow>
   (tid \<Rightarrow> bb_runtime \<Rightarrow> bb_runtime option) \<Rightarrow> bb_runtime \<Rightarrow> bb_runtime option" where
  "rt_run n evs run rt = run_loop n evs run (rt\<lparr>rt_running := True\<rparr>)"

definition rt_is_empty :: "bb_runtime \<Rightarrow> bool" where
  "rt_is_empty rt \<longleftrightarrow> rt_watchers rt = [] \<and> th_count (rt_timers rt) = 0 \<and>
     sched_is_empty (rt_scheduler rt)"

section \<open>Destroying a runtime\<close>

partial_function (option) destroy_queue :: "bb_runtime \<Rightarrow> bb_runtime option" where
  "destroy_queue rt =
     (case sched_next (rt_scheduler rt) of
        None \<Rightarrow> Some rt
      | Some (t, s) \<Rightarrow>
          Option.bind (rt_task_state (\<lambda>f. clear_flag f BB_TASK_SCHEDULED) t (rt\<lparr>rt_scheduler := s\<rparr>))
            (\<lambda>rt1. Option.bind (rt_tasks rt1 t)
              (\<lambda>k. if has_flag (tk_state k) BB_TASK_PERSISTENT then destroy_queue rt1
                   else Option.bind (rt_task_destroy t rt1) destroy_queue)))"

fun destroy_watchers :: "bb_watcher list \<Rightarrow> bb_runtime \<Rightarrow> bb_runtime option" where
  "destroy_watchers [] rt = Some rt"
| "destroy_watchers (w # ws) rt =
     Option.bind (rt_task_destroy (wt_task w) (unregister (wt_fd w) (wt_events w) rt))
       (destroy_watchers ws)"

fun destroy_tasks :: "tid list \<Rightarrow> bb_runtime \<Rightarrow> bb_runtime option" where
  "destroy_tasks [] rt = Some rt"
| "destroy_tasks (t # ts) rt = Option.bind (rt_task_destroy t rt) (destroy_tasks ts)"

text \<open>
  \<open>bb_runtime_destroy\<close> up to the release of the runtime's own arrays; the result is what is left
  of the task store and the callbacks made.
\<close>

definition rt_destroy :: "bb_runtime \<Rightarrow> bb_runtime option" where
  "rt_destroy rt = do {
     rt \<leftarrow> destroy_queue rt;
     rt \<leftarrow> destroy_watchers (rt_watchers rt) rt;
     let rt = rt\<lparr>rt_watchers := []\<rparr>;
     destroy_tasks (map timer_task (take (th_count (rt_timers rt)) (th_items (rt_timers rt)))) rt
   }"

section \<open>The public functions with their null guards\<close>

text \<open>
  Every public function first tests its runtime pointer. \<open>on_runtime\<close> is that guard: the
  result \<open>r\<close> of the early return, else the operation.
\<close>

definition on_runtime ::
  "'r \<Rightarrow> (bb_runtime \<Rightarrow> ('r \<times> bb_runtime) option) \<Rightarrow> bb_runtime option \<Rightarrow> ('r \<times> bb_runtime option) option"
where
  "on_runtime r f runtime =
     (case runtime of
        None \<Rightarrow> Some (r, None)
      | Some rt \<Rightarrow> map_option (\<lambda>(x, rt'). (x, Some rt')) (f rt))"

definition bb_runtime_schedule_ex where
  "bb_runtime_schedule_ex ev runtime config = on_runtime None (rt_schedule_ex ev config) runtime"

definition bb_runtime_cancel_task where
  "bb_runtime_cancel_task ev runtime tsk =
     (case tsk of None \<Rightarrow> Some (-1, runtime) | Some t \<Rightarrow> on_runtime (-1) (rt_cancel_task ev t) runtime)"

definition bb_runtime_watch_fd_ex where
  "bb_runtime_watch_fd_ex ev runtime d events mode config =
     on_runtime None (rt_watch_fd_ex ev d events mode config) runtime"

definition bb_runtime_unwatch_fd where
  "bb_runtime_unwatch_fd ev runtime d = on_runtime (-1) (rt_unwatch_fd ev d) runtime"

definition bb_runtime_set_interval_ex where
  "bb_runtime_set_interval_ex ev runtime interval config =
     on_runtime None (rt_set_interval_ex ev interval config) runtime"

definition bb_runtime_set_timeout_ex where
  "bb_runtime_set_timeout_ex ev runtime timeout config =
     on_runtime None (rt_set_timeout_ex ev timeout config) runtime"

definition bb_runtime_set_running where
  "bb_runtime_set_running runtime = map_option rt_set_running runtime"

definition bb_runtime_stop where
  "bb_runtime_stop runtime = map_option rt_stop runtime"

definition bb_runtime_is_running where
  "bb_runtime_is_running runtime = (case runtime of None \<Rightarrow> False | Some rt \<Rightarrow> rt_running rt)"

definition bb_runtime_is_empty where
  "bb_runtime_is_empty runtime = (case runtime of None \<Rightarrow> True | Some rt \<Rightarrow> rt_is_empty rt)"

text \<open>
  The calls a callback or the program around the loop can make, as data, and their execution
  in sequence. A call on a task that no longer exists is undefined behaviour like any other.
\<close>

datatype api_call =
    Schedule env "bb_task_config option"
  | Cancel env tid
  | Watch env fd u32 bb_watch_mode "bb_task_config option"
  | Unwatch env fd
  | SetInterval env u64 "bb_task_config option"
  | SetTimeout env u64 "bb_task_config option"
  | Stop

fun exec_call :: "api_call \<Rightarrow> bb_runtime \<Rightarrow> bb_runtime option" where
  "exec_call (Schedule ev c) rt = map_option snd (rt_schedule_ex ev c rt)"
| "exec_call (Cancel ev t) rt = map_option snd (rt_cancel_task ev t rt)"
| "exec_call (Watch ev d e m c) rt = map_option snd (rt_watch_fd_ex ev d e m c rt)"
| "exec_call (Unwatch ev d) rt = map_option snd (rt_unwatch_fd ev d rt)"
| "exec_call (SetInterval ev ms c) rt = map_option snd (rt_set_interval_ex ev ms c rt)"
| "exec_call (SetTimeout ev ms c) rt = map_option snd (rt_set_timeout_ex ev ms c rt)"
| "exec_call Stop rt = Some (rt_stop rt)"

fun exec_calls :: "api_call list \<Rightarrow> bb_runtime \<Rightarrow> bb_runtime option" where
  "exec_calls [] rt = Some rt"
| "exec_calls (c # cs) rt = Option.bind (exec_call c rt) (exec_calls cs)"

text \<open>
  The life of a runtime as a sequence of steps in any order: calls from outside the loop, single
  ticks, and runs of the loop. A run callback is a program of calls, chosen from the task it is
  called for and all it can see.
\<close>

type_synonym callback = "tid \<Rightarrow> bb_runtime \<Rightarrow> api_call list"

definition callback_of :: "callback \<Rightarrow> tid \<Rightarrow> bb_runtime \<Rightarrow> bb_runtime option" where
  "callback_of prog t rt = exec_calls (prog t rt) rt"

datatype rt_step =
    Call api_call
  | Set_running
  | Tick nat env "int \<Rightarrow> (fd \<times> u32) list option" callback
  | Run nat "(env \<times> (int \<Rightarrow> (fd \<times> u32) list option)) list" callback

fun exec_step :: "rt_step \<Rightarrow> bb_runtime \<Rightarrow> bb_runtime option" where
  "exec_step (Call c) rt = exec_call c rt"
| "exec_step Set_running rt = Some (rt_set_running rt)"
| "exec_step (Tick n ev poll prog) rt = map_option snd (rt_tick n ev poll (callback_of prog) rt)"
| "exec_step (Run n evs prog) rt = rt_run n evs (callback_of prog) rt"

fun exec_steps :: "rt_step list \<Rightarrow> bb_runtime \<Rightarrow> bb_runtime option" where
  "exec_steps [] rt = Some rt"
| "exec_steps (s # ss) rt = Option.bind (exec_step s rt) (exec_steps ss)"

end
