(* ===== verification/Task_Ownership.thy ===== *)
theory Task_Ownership
  imports Runtime
begin

text \<open>
  Who owns a task. The invariant of the event loop is a statement about five abstract things: the
  list \<open>Q\<close> of queued tasks, the multiset \<open>H\<close> of tasks held by a watcher or a timer (with a flag:
  does the holder persist after firing), the store \<open>T\<close> of live tasks, the next task identity and
  the trace of cleanup calls. Each lemma here is one elementary move of the code on them.

  Two sets relax the invariant while an operation is under way: \<open>X\<close> are tasks whose holder is
  being installed or removed, \<open>C\<close> are tasks held by running code (the task being executed, a
  task just created). With \<open>lk\<close> set, the invariant also says that no live task is unreachable.
\<close>

section \<open>The invariant\<close>

definition fl :: "(tid \<rightharpoonup> bb_task) \<Rightarrow> tid \<Rightarrow> u32 \<Rightarrow> bool" where
  "fl T t f \<longleftrightarrow> (\<exists>k. T t = Some k \<and> has_flag (tk_state k) f)"

lemma fl_upd [simp]: "fl (T(t \<mapsto> k)) u f = (if u = t then has_flag (tk_state k) f else fl T u f)"
  by (simp add: fl_def)

lemma fl_del [simp]: "fl (T(t := None)) u f \<longleftrightarrow> u \<noteq> t \<and> fl T u f"
  by (simp add: fl_def)

lemma fl_live: "fl T t f \<Longrightarrow> t \<in> dom T"
  by (auto simp: fl_def)

lemma fl_at: "T t = Some k \<Longrightarrow> fl T t f \<longleftrightarrow> has_flag (tk_state k) f"
  by (simp add: fl_def)

definition queue_ok :: "tid list \<Rightarrow> (tid \<rightharpoonup> bb_task) \<Rightarrow> bool" where
  "queue_ok Q T \<longleftrightarrow> distinct Q \<and> (\<forall>t. t \<in> set Q \<longleftrightarrow> fl T t BB_TASK_SCHEDULED)"

definition holder_ok :: "tid set \<Rightarrow> (tid \<rightharpoonup> bb_task) \<Rightarrow> tid \<times> bool \<Rightarrow> bool" where
  "holder_ok C T = (\<lambda>(t, p).
     \<not> fl T t BB_TASK_CANCELLED \<and> (fl T t BB_TASK_PERSISTENT \<longleftrightarrow> p) \<and>
     (\<not> p \<longrightarrow> \<not> fl T t BB_TASK_SCHEDULED \<and> t \<notin> C))"

definition owned_ok ::
  "tid set \<Rightarrow> tid set \<Rightarrow> (tid \<times> bool) multiset \<Rightarrow> (tid \<rightharpoonup> bb_task) \<Rightarrow> bool" where
  "owned_ok X C H T \<longleftrightarrow>
     (\<forall>t. count (image_mset fst H) t \<le> 1) \<and>
     (\<forall>x\<in>#H. fst x \<in> dom T \<and> (fst x \<in> X \<or> holder_ok C T x)) \<and>
     (\<forall>t. fl T t BB_TASK_PERSISTENT \<longrightarrow> t \<in> fst ` set_mset H \<or> t \<in> X)"

definition store_ok ::
  "tid set \<Rightarrow> (tid \<rightharpoonup> bb_task) \<Rightarrow> tid \<Rightarrow> (tid \<times> cleanup_call) list \<Rightarrow> bool" where
  "store_ok C T n L \<longleftrightarrow>
     (\<forall>t\<in>dom T. t < n \<and> (fl T t BB_TASK_FINALIZED \<longleftrightarrow> fl T t BB_TASK_CANCELLED)) \<and>
     C \<subseteq> dom T \<and>
     distinct (map fst L) \<and>
     (\<forall>t\<in>fst ` set L. t < n \<and> (t \<in> dom T \<longrightarrow> fl T t BB_TASK_CANCELLED))"

definition leak_ok ::
  "bool \<Rightarrow> tid set \<Rightarrow> tid list \<Rightarrow> (tid \<times> bool) multiset \<Rightarrow> (tid \<rightharpoonup> bb_task) \<Rightarrow> bool" where
  "leak_ok lk C Q H T \<longleftrightarrow> (lk \<longrightarrow> dom T \<subseteq> set Q \<union> fst ` set_mset H \<union> C)"

definition task_inv where
  "task_inv lk X C Q H T n L \<longleftrightarrow>
     queue_ok Q T \<and> owned_ok X C H T \<and> store_ok C T n L \<and> leak_ok lk C Q H T"

lemma task_invI:
  "queue_ok Q T \<Longrightarrow> owned_ok X C H T \<Longrightarrow> store_ok C T n L \<Longrightarrow> leak_ok lk C Q H T \<Longrightarrow>
   task_inv lk X C Q H T n L"
  by (simp add: task_inv_def)

lemmas task_inv_parts = queue_ok_def owned_ok_def store_ok_def leak_ok_def holder_ok_def

lemma owned_fst: "t \<in> fst ` set_mset H \<longleftrightarrow> (\<exists>p. (t, p) \<in># H)"
  by force

lemma store_ok_flags:
  "store_ok C T n L \<Longrightarrow> T t = Some k \<Longrightarrow>
   has_flag (tk_state k) BB_TASK_FINALIZED = has_flag (tk_state k) BB_TASK_CANCELLED"
  unfolding store_ok_def by (metis domI fl_at)

lemma store_ok_called:
  "store_ok C T n L \<Longrightarrow> T t = Some k \<Longrightarrow> t \<in> fst ` set L \<Longrightarrow>
   has_flag (tk_state k) BB_TASK_CANCELLED"
  by (auto simp: store_ok_def fl_def)

lemma store_ok_upd:
  assumes "store_ok C T n L" and "T t = Some k"
    and "has_flag (tk_state k') BB_TASK_FINALIZED = has_flag (tk_state k') BB_TASK_CANCELLED"
    and "has_flag (tk_state k) BB_TASK_CANCELLED \<Longrightarrow> has_flag (tk_state k') BB_TASK_CANCELLED"
  shows "store_ok C (T(t \<mapsto> k')) n L"
proof -
  have "insert t (dom T) = dom T" using assms(2) by auto
  moreover have "t \<in> fst ` set L \<Longrightarrow> has_flag (tk_state k') BB_TASK_CANCELLED"
    using assms store_ok_called by blast
  ultimately show ?thesis
    using assms unfolding store_ok_def by (auto simp: image_iff)
qed

lemma store_ok_log:
  assumes "store_ok C T n L" and "length cs \<le> 1" and "t < n"
    and "cs \<noteq> [] \<Longrightarrow> t \<notin> fst ` set L"
    and "cs \<noteq> [] \<Longrightarrow> t \<in> dom T \<Longrightarrow> fl T t BB_TASK_CANCELLED"
  shows "store_ok C T n (L @ map (Pair t) cs)"
proof (cases cs)
  case Nil
  with assms(1) show ?thesis by simp
next
  case (Cons c cs')
  then have "cs = [c]" using assms(2) by simp
  with assms show ?thesis by (simp add: store_ok_def)
qed

section \<open>Moves\<close>

lemma queued_live: "task_inv lk X C Q H T n L \<Longrightarrow> t \<in> set Q \<Longrightarrow> t \<in> dom T"
  by (auto simp: task_inv_def queue_ok_def fl_live)

lemma owned_live: "task_inv lk X C Q H T n L \<Longrightarrow> (t, p) \<in># H \<Longrightarrow> t \<in> dom T"
  by (force simp: task_inv_def owned_ok_def)

lemma owned_once:
  "task_inv lk X C Q (add_mset (t, p) H) T n L \<Longrightarrow> (t, q) \<notin># H"
proof
  assume i: "task_inv lk X C Q (add_mset (t, p) H) T n L" and m: "(t, q) \<in># H"
  then obtain H' where "H = add_mset (t, q) H'" by (meson mset_add)
  with i have "count (image_mset fst (add_mset (t, p) (add_mset (t, q) H'))) t \<le> 1"
    unfolding task_inv_def owned_ok_def by blast
  then show False by simp
qed

text \<open>A fresh task, held by the code that creates it.\<close>

lemma inv_create [inv_intros]:
  assumes "task_inv lk X C Q H T n L" and "tk_state k = BB_TASK_IDLE"
  shows "task_inv lk X (insert n C) Q H (T(n \<mapsto> k)) (Suc n) L"
proof -
  have n: "n \<notin> dom T" using assms(1) by (auto simp: task_inv_def store_ok_def)
  then have "\<not> fl T n f" for f using fl_live by blast
  then have f: "fl (T(n \<mapsto> k)) u f = fl T u f" for u f
    using assms(2) by simp
  have nh: "fst x \<noteq> n" if "x \<in># H" for x
    using assms(1) n that by (auto simp: task_inv_def owned_ok_def)
  have h: "holder_ok (insert n C) (T(n \<mapsto> k)) x" if "x \<in># H" "holder_ok C T x" for x
    using that nh [of x] by (cases x) (simp add: holder_ok_def f del: fl_upd)
  show ?thesis
  proof (rule task_invI)
    show "queue_ok Q (T(n \<mapsto> k))"
      using assms by (simp add: task_inv_def queue_ok_def f del: fl_upd)
    show "owned_ok X (insert n C) H (T(n \<mapsto> k))"
      using assms h by (auto simp: task_inv_def owned_ok_def f simp del: fl_upd)
    show "store_ok (insert n C) (T(n \<mapsto> k)) (Suc n) L"
      using assms n \<open>\<And>f. \<not> fl T n f\<close>
      by (auto simp: task_inv_def store_ok_def f less_SucI simp del: fl_upd)
    show "leak_ok lk (insert n C) Q H (T(n \<mapsto> k))"
      using assms by (auto simp: task_inv_def leak_ok_def)
  qed
qed

text \<open>A state change that leaves the four flags the invariant reads as they were.\<close>

lemma inv_same_flags [inv_intros]:
  assumes "task_inv lk X C Q H T n L" and "T t = Some k"
    and "has_flag (tk_state k') BB_TASK_SCHEDULED = has_flag (tk_state k) BB_TASK_SCHEDULED"
    and "has_flag (tk_state k') BB_TASK_CANCELLED = has_flag (tk_state k) BB_TASK_CANCELLED"
    and "has_flag (tk_state k') BB_TASK_PERSISTENT = has_flag (tk_state k) BB_TASK_PERSISTENT"
    and "has_flag (tk_state k') BB_TASK_FINALIZED = has_flag (tk_state k) BB_TASK_FINALIZED"
  shows "task_inv lk X C Q H (T(t \<mapsto> k')) n L"
proof -
  have "dom (T(t \<mapsto> k')) = dom T" using assms(2) by auto
  moreover have "fl (T(t \<mapsto> k')) u f = fl T u f"
    if "f \<in> {BB_TASK_SCHEDULED, BB_TASK_CANCELLED, BB_TASK_PERSISTENT, BB_TASK_FINALIZED}" for u f
    using that assms by (auto simp: fl_at)
  ultimately show ?thesis
    using assms(1) unfolding task_inv_def task_inv_parts by (simp del: fl_upd)
qed

text \<open>Setting the persistent flag while the holder is being installed.\<close>

lemma inv_set_persistent [inv_intros]:
  assumes "task_inv lk X C Q H T n L" and "T t = Some k"
  shows "task_inv lk (insert t X) C Q H
           (T(t \<mapsto> k\<lparr>tk_state := set_flag (tk_state k) BB_TASK_PERSISTENT\<rparr>)) n L"
proof (rule task_invI)
  let ?T = "T(t \<mapsto> k\<lparr>tk_state := set_flag (tk_state k) BB_TASK_PERSISTENT\<rparr>)"
  have d: "dom ?T = dom T" using assms(2) by auto
  show "queue_ok Q ?T"
    using assms by (auto simp: task_inv_def queue_ok_def fl_at)
  show "owned_ok (insert t X) C H ?T"
    using assms by (fastforce simp: task_inv_def owned_ok_def holder_ok_def)
  show "store_ok C ?T n L"
    using assms store_ok_flags [of C T n L t k]
    by (auto simp: task_inv_def intro!: store_ok_upd)
  show "leak_ok lk C Q H ?T"
    using assms unfolding task_inv_def leak_ok_def d by blast
qed

text \<open>A watcher or timer takes hold of a task that nothing holds yet.\<close>

lemma inv_hold [inv_intros]:
  assumes i: "task_inv lk X C Q H T n L" and k: "T t = Some k"
    and fresh: "t \<notin> fst ` set_mset H"
    and f: "\<not> has_flag (tk_state k) BB_TASK_CANCELLED"
           "has_flag (tk_state k) BB_TASK_PERSISTENT = p"
           "\<not> p \<Longrightarrow> \<not> has_flag (tk_state k) BB_TASK_SCHEDULED"
  shows "task_inv lk (X - {t}) (C - {t}) Q (add_mset (t, p) H) T n L"
proof (rule task_invI)
  have tf: "fl T t f = has_flag (tk_state k) f" for f by (simp add: fl_def k)
  have c0: "count (image_mset fst H) t = 0"
    using fresh by (simp add: not_in_iff [symmetric])
  show "queue_ok Q T" using i by (simp add: task_inv_def)
  have old: "fst x \<in> dom T \<and> (fst x \<in> X - {t} \<or> holder_ok (C - {t}) T x)" if "x \<in># H" for x
  proof -
    have "fst x \<noteq> t" using that fresh by auto
    then show ?thesis
      using i that by (auto simp: task_inv_def owned_ok_def holder_ok_def split: prod.splits)
  qed
  moreover have "holder_ok (C - {t}) T (t, p)"
    using f by (simp add: holder_ok_def tf)
  moreover have "count (image_mset fst (add_mset (t, p) H)) u \<le> 1" for u
    using i c0 by (cases "u = t") (auto simp: task_inv_def owned_ok_def)
  ultimately show "owned_ok (X - {t}) (C - {t}) (add_mset (t, p) H) T"
    using i k by (auto simp: task_inv_def owned_ok_def)
  show "store_ok (C - {t}) T n L"
    using i by (auto simp: task_inv_def store_ok_def)
  show "leak_ok lk (C - {t}) Q (add_mset (t, p) H) T"
    using i by (auto simp: task_inv_def leak_ok_def)
qed

text \<open>Holders of a task are removed: the running code holds it from then on.\<close>

lemma inv_unhold [inv_intros]:
  assumes i: "task_inv lk X C Q H T n L" and sub: "H' \<subseteq># H"
    and only: "\<And>x. x \<in># H \<Longrightarrow> fst x \<noteq> t \<Longrightarrow> x \<in># H'" and t: "t \<in> dom T"
  shows "task_inv lk (insert t X) (insert t C) Q H' T n L"
proof (rule task_invI)
  have mem: "x \<in># H" if "x \<in># H'" for x using that sub by (rule mset_subset_eqD [rotated])
  show "queue_ok Q T" using i by (simp add: task_inv_def)
  have "count (image_mset fst H') u \<le> 1" for u
    using i image_mset_subseteq_mono [OF sub, of fst] unfolding task_inv_def owned_ok_def
    by (meson mset_subset_eq_count order_trans)
  moreover have "fst x \<in> dom T \<and> (fst x \<in> insert t X \<or> holder_ok (insert t C) T x)" if "x \<in># H'" for x
    using i mem [OF that] by (auto simp: task_inv_def owned_ok_def holder_ok_def split: prod.splits)
  moreover have "u \<in> fst ` set_mset H' \<or> u \<in> insert t X" if "fl T u BB_TASK_PERSISTENT" for u
    using i that only by (fastforce simp: task_inv_def owned_ok_def)
  ultimately show "owned_ok (insert t X) (insert t C) H' T"
    unfolding owned_ok_def by blast
  show "store_ok (insert t C) T n L"
    using i t by (auto simp: task_inv_def store_ok_def)
  show "leak_ok lk (insert t C) Q H' T"
    using i only by (fastforce simp: task_inv_def leak_ok_def)
qed

lemma inv_settled [inv_intros]:
  assumes "task_inv lk X C Q H T n L" and "t \<notin> fst ` set_mset H" and "\<not> fl T t BB_TASK_PERSISTENT"
  shows "task_inv lk (X - {t}) C Q H T n L"
  using assms by (fastforce simp: task_inv_def owned_ok_def)

lemma inv_release [inv_intros]:
  assumes "task_inv lk X C Q H T n L" and "lk \<Longrightarrow> t \<in> set Q \<or> t \<in> fst ` set_mset H"
    and "C - {t} \<subseteq> C'" and "C' \<subseteq> C"
  shows "task_inv lk X C' Q H T n L"
proof (rule task_invI)
  show "queue_ok Q T" "owned_ok X C' H T" "store_ok C' T n L"
    using assms by (auto simp: task_inv_def owned_ok_def store_ok_def holder_ok_def)
  show "leak_ok lk C' Q H T"
    using assms by (auto simp: task_inv_def leak_ok_def)
qed

lemma inv_relax [inv_intros]:
  "task_inv lk X C Q H T n L \<Longrightarrow> X \<subseteq> X' \<Longrightarrow> task_inv lk X' C Q H T n L"
  by (fastforce simp: task_inv_def owned_ok_def)

lemma inv_enqueue [inv_intros]:
  assumes i: "task_inv lk X C Q H T n L" and k: "T t = Some k"
    and s: "\<not> has_flag (tk_state k) BB_TASK_SCHEDULED"
    and o: "\<And>p. (t, p) \<in># H \<Longrightarrow> p \<or> t \<in> X"
  shows "task_inv lk X C (Q @ [t]) H
           (T(t \<mapsto> k\<lparr>tk_state := set_flag (tk_state k) BB_TASK_SCHEDULED\<rparr>)) n L"
proof (rule task_invI)
  let ?T = "T(t \<mapsto> k\<lparr>tk_state := set_flag (tk_state k) BB_TASK_SCHEDULED\<rparr>)"
  have d: "dom ?T = dom T" using k by auto
  have tf: "fl T t f = has_flag (tk_state k) f" for f by (simp add: fl_def k)
  show "queue_ok (Q @ [t]) ?T"
    using i s by (auto simp: task_inv_def queue_ok_def tf)
  have "holder_ok C ?T x" if "x \<in># H" "fst x \<notin> X" "holder_ok C T x" for x
    using that o [of "snd x"] by (cases x) (auto simp: holder_ok_def tf)
  then show "owned_ok X C H ?T"
    using i unfolding task_inv_def owned_ok_def d by (auto simp: tf)
  show "store_ok C ?T n L"
    using i k store_ok_flags [of C T n L t k]
    by (auto simp: task_inv_def intro!: store_ok_upd)
  show "leak_ok lk C (Q @ [t]) H ?T"
    using i unfolding task_inv_def leak_ok_def d by auto
qed

lemma inv_dequeue [inv_intros]:
  assumes i: "task_inv lk X C (t # Q) H T n L" and k: "T t = Some k" and x: "t \<notin> X"
  shows "task_inv lk X (insert t C) Q H
           (T(t \<mapsto> k\<lparr>tk_state := clear_flag (tk_state k) BB_TASK_SCHEDULED\<rparr>)) n L"
proof (rule task_invI)
  let ?T = "T(t \<mapsto> k\<lparr>tk_state := clear_flag (tk_state k) BB_TASK_SCHEDULED\<rparr>)"
  have d: "dom ?T = dom T" using k by auto
  have tf: "fl T t f = has_flag (tk_state k) f" for f by (simp add: fl_def k)
  have s: "has_flag (tk_state k) BB_TASK_SCHEDULED"
    using i by (auto simp: task_inv_def queue_ok_def tf [symmetric])
  have st: "store_ok C ?T n L"
    using i k store_ok_flags [of C T n L t k]
    by (auto simp: task_inv_def intro!: store_ok_upd)
  show "queue_ok Q ?T"
    using i by (auto simp: task_inv_def queue_ok_def)
  have "holder_ok (insert t C) ?T x" if "holder_ok C T x" for x
    using that s by (cases x) (auto simp: holder_ok_def tf split: if_splits)
  then show "owned_ok X (insert t C) H ?T"
    using i unfolding task_inv_def owned_ok_def d by (auto simp: tf)
  show "store_ok (insert t C) ?T n L"
    using st by (simp add: store_ok_def)
  show "leak_ok lk (insert t C) Q H ?T"
    using i unfolding task_inv_def leak_ok_def d by auto
qed

lemma finalize_calls:
  "task_finalize k r = (k', calls) \<Longrightarrow>
   length calls \<le> 1 \<and> (has_flag (tk_state k) BB_TASK_FINALIZED \<longrightarrow> calls = [])"
  by (auto simp: task_finalize_def split: if_splits option.splits)

lemma inv_cancel [inv_intros]:
  assumes i: "task_inv lk X C Q H T n L" and k: "T t = Some k" and c: "task_cancel k = (k', calls)"
  shows "task_inv lk (insert t X) C Q H (T(t \<mapsto> k')) n (L @ map (Pair t) calls)"
proof (rule task_invI)
  let ?T = "T(t \<mapsto> k')"
  have d: "dom ?T = dom T" using k by auto
  have tf: "fl T t f = has_flag (tk_state k) f" for f by (simp add: fl_def k)
  note f = task_cancel_flags [OF c]
  have cf: "has_flag (tk_state k) BB_TASK_FINALIZED = has_flag (tk_state k) BB_TASK_CANCELLED"
    using i k store_ok_flags unfolding task_inv_def by blast
  have cs: "length calls \<le> 1" "has_flag (tk_state k) BB_TASK_CANCELLED \<Longrightarrow> calls = []"
    using finalize_calls [OF c [unfolded task_cancel_def]] cf by auto
  show "queue_ok Q ?T"
    using i f by (auto simp: task_inv_def queue_ok_def tf)
  show "owned_ok (insert t X) C H ?T"
    using i f unfolding task_inv_def owned_ok_def d by (auto simp: holder_ok_def split: prod.splits)
  have new: "t \<notin> fst ` set L" if "calls \<noteq> []"
    using i k that cs(2) store_ok_called unfolding task_inv_def by blast
  have "store_ok C ?T n L"
    using i k f by (intro store_ok_upd) (auto simp: task_inv_def)
  moreover have "t < n" using i k by (auto simp: task_inv_def store_ok_def)
  ultimately show "store_ok C ?T n (L @ map (Pair t) calls)"
    using cs(1) new f by (intro store_ok_log) auto
  show "leak_ok lk C Q H ?T"
    using i unfolding task_inv_def leak_ok_def d by blast
qed

lemma inv_destroy [inv_intros]:
  assumes i: "task_inv lk X C Q H T n L" and k: "T t = Some k" and c: "task_finalize k r = (k', calls)"
    and q: "t \<notin> set Q" and o: "t \<notin> fst ` set_mset H"
  shows "task_inv lk X (C - {t}) Q H (T(t := None)) n (L @ map (Pair t) calls)"
proof (rule task_invI)
  let ?T = "T(t := None)"
  have tf: "fl T t f = has_flag (tk_state k) f" for f by (simp add: fl_def k)
  have cf: "has_flag (tk_state k) BB_TASK_FINALIZED = has_flag (tk_state k) BB_TASK_CANCELLED"
    using i k store_ok_flags unfolding task_inv_def by blast
  have cs: "length calls \<le> 1" "has_flag (tk_state k) BB_TASK_CANCELLED \<Longrightarrow> calls = []"
    using finalize_calls [OF c] cf by auto
  show "queue_ok Q ?T"
    using i q by (auto simp: task_inv_def queue_ok_def)
  show "owned_ok X (C - {t}) H ?T"
    using i o by (fastforce simp: task_inv_def owned_ok_def holder_ok_def)
  have new: "t \<notin> fst ` set L" if "calls \<noteq> []"
    using i k that cs(2) store_ok_called unfolding task_inv_def by blast
  have "store_ok (C - {t}) ?T n L"
    using i by (auto simp: task_inv_def store_ok_def)
  moreover have "t < n" using i k by (auto simp: task_inv_def store_ok_def)
  ultimately show "store_ok (C - {t}) ?T n (L @ map (Pair t) calls)"
    using cs(1) new by (intro store_ok_log) auto
  show "leak_ok lk (C - {t}) Q H ?T"
    using i by (auto simp: task_inv_def leak_ok_def)
qed

end
