(* ===== verification/Runtime_Safety.thy ===== *)
theory Runtime_Safety
  imports Task_Ownership
begin

text \<open>
  Every operation of the event loop keeps its invariant and never touches a task that has been
  freed. The first part lifts the moves of \<open>Task_Ownership\<close> to the runtime record, the second
  treats the operations one by one, the third the tick and the destruction.
\<close>

section \<open>The invariant of the runtime\<close>

definition watcher_holds :: "bb_watcher \<Rightarrow> tid \<times> bool" where
  "watcher_holds w = (wt_task w, wt_mode w = BB_WATCH_PERSISTENT)"

definition timer_holds :: "bb_timer \<Rightarrow> tid \<times> bool" where
  "timer_holds x = (timer_task x, repeating x \<noteq> 0)"

definition owned :: "bb_runtime \<Rightarrow> (tid \<times> bool) multiset" where
  "owned rt = mset (map watcher_holds (rt_watchers rt)) +
              image_mset timer_holds (timers_of (rt_timers rt))"

definition struct_ok :: "bb_runtime \<Rightarrow> bool" where
  "struct_ok rt \<longleftrightarrow> sched_inv (rt_scheduler rt) \<and> poller_inv (rt_poller rt) \<and>
     heap_inv (rt_timers rt) \<and> 0 < rt_watcher_capacity rt \<and>
     length (rt_watchers rt) \<le> rt_watcher_capacity rt"

abbreviation queued :: "bb_runtime \<Rightarrow> tid list" where
  "queued rt \<equiv> queue_of (rt_scheduler rt)"

definition rt_inv :: "bool \<Rightarrow> tid set \<Rightarrow> tid set \<Rightarrow> bb_runtime \<Rightarrow> bool" where
  "rt_inv lk X C rt \<longleftrightarrow> struct_ok rt \<and>
     task_inv lk X C (queued rt) (owned rt) (rt_tasks rt) (rt_next_tid rt) (rt_calls rt)"

lemmas rt_inv_task = rt_inv_def [THEN iffD1, THEN conjunct2]
lemmas rt_inv_struct = rt_inv_def [THEN iffD1, THEN conjunct1]

lemma holds_simps [simp]: "fst (watcher_holds w) = wt_task w" "fst (timer_holds x) = timer_task x"
  by (simp_all add: watcher_holds_def timer_holds_def)

lemma fst_owned:
  "fst ` set_mset (owned rt) =
   wt_task ` set (rt_watchers rt) \<union> timer_task ` set_mset (timers_of (rt_timers rt))"
  by (simp add: owned_def image_Un image_image)

lemma owned_cong: "rt_watchers rt' = rt_watchers rt \<Longrightarrow> rt_timers rt' = rt_timers rt \<Longrightarrow> owned rt' = owned rt"
  by (simp add: owned_def)

lemma struct_ok_cong:
  "struct_ok rt \<Longrightarrow> rt_scheduler rt' = rt_scheduler rt \<Longrightarrow> rt_poller rt' = rt_poller rt \<Longrightarrow>
   rt_timers rt' = rt_timers rt \<Longrightarrow> rt_watcher_capacity rt' = rt_watcher_capacity rt \<Longrightarrow>
   length (rt_watchers rt') = length (rt_watchers rt) \<Longrightarrow> struct_ok rt'"
  by (simp add: struct_ok_def)

lemma put_task_simps [simp]:
  "rt_tasks (rt_put_task t k rt) = (rt_tasks rt)(t \<mapsto> k)"
  "rt_scheduler (rt_put_task t k rt) = rt_scheduler rt"
  "rt_poller (rt_put_task t k rt) = rt_poller rt"
  "rt_watchers (rt_put_task t k rt) = rt_watchers rt"
  "rt_watcher_capacity (rt_put_task t k rt) = rt_watcher_capacity rt"
  "rt_timers (rt_put_task t k rt) = rt_timers rt"
  "rt_next_tid (rt_put_task t k rt) = rt_next_tid rt"
  "rt_calls (rt_put_task t k rt) = rt_calls rt"
  "rt_running (rt_put_task t k rt) = rt_running rt"
  by (simp_all add: rt_put_task_def)

lemma rt_inv_put:
  "rt_inv lk X C rt \<Longrightarrow>
   task_inv lk X' C' (queued rt) (owned rt) ((rt_tasks rt)(t \<mapsto> k)) (rt_next_tid rt) (rt_calls rt) \<Longrightarrow>
   rt_inv lk X' C' (rt_put_task t k rt)"
  by (simp add: rt_inv_def struct_ok_def owned_def)

section \<open>The moves on the runtime\<close>

lemma rt_create_step:
  assumes "rt_inv lk X C rt" and "rt_task_create ok cfg rt = Some (t, rt')"
  shows "rt_inv lk X (insert t C) rt' \<and> t = rt_next_tid rt \<and>
         (\<exists>k. rt_tasks rt' t = Some k \<and> tk_state k = BB_TASK_IDLE \<and> cfg = Some (tk_config k) \<and>
              rt' = rt\<lparr>rt_tasks := (rt_tasks rt)(t \<mapsto> k), rt_next_tid := Suc t\<rparr>)"
proof -
  obtain k where k: "bb_task_create ok cfg = Some k" "t = rt_next_tid rt"
      "rt' = rt\<lparr>rt_tasks := (rt_tasks rt)(t \<mapsto> k), rt_next_tid := Suc t\<rparr>"
    using assms(2) by (auto simp: rt_task_create_def rt_put_task_def split: option.splits)
  note st = task_create_flags [OF k(1)]
  have "task_inv lk X (insert t C) (queued rt) (owned rt) ((rt_tasks rt)(t \<mapsto> k)) (Suc t) (rt_calls rt)"
    using inv_create [OF rt_inv_task [OF assms(1)]] st k(2) by simp
  then have "rt_inv lk X (insert t C) rt'"
    using assms(1) by (simp add: rt_inv_def struct_ok_def owned_def k(3))
  with k st show ?thesis by auto
qed

lemma fresh_not_owned:
  "rt_inv lk X C rt \<Longrightarrow> rt_next_tid rt \<notin> fst ` set_mset (owned rt)"
proof
  assume i: "rt_inv lk X C rt" and "rt_next_tid rt \<in> fst ` set_mset (owned rt)"
  then obtain p where "(rt_next_tid rt, p) \<in># owned rt" by force
  then have "rt_next_tid rt \<in> dom (rt_tasks rt)" by (rule owned_live [OF rt_inv_task [OF i]])
  with rt_inv_task [OF i] show False by (auto simp: task_inv_def store_ok_def)
qed

lemma rt_schedule_step:
  assumes i: "rt_inv lk X C rt" and k: "rt_tasks rt t = Some k"
    and o: "\<And>p. (t, p) \<in># owned rt \<Longrightarrow> p \<or> t \<in> X"
  obtains rc k' s where
    "rt_schedule ev t rt = Some (rc, (rt_put_task t k' rt)\<lparr>rt_scheduler := s\<rparr>)"
    "rt_inv lk X C ((rt_put_task t k' rt)\<lparr>rt_scheduler := s\<rparr>)"
    "rc = 0 \<and> t \<in> set (queue_of s) \<or> rc = -1 \<and> \<not> ev_node ev t \<and> s = rt_scheduler rt \<and> k' = k"
    "has_flag (tk_state k') BB_TASK_PERSISTENT = has_flag (tk_state k) BB_TASK_PERSISTENT"
    "has_flag (tk_state k') BB_TASK_CANCELLED = has_flag (tk_state k) BB_TASK_CANCELLED"
proof (cases "has_flag (tk_state k) BB_TASK_SCHEDULED")
  case True
  have "t \<in> set (queued rt)"
    using rt_inv_task [OF i] True k by (simp add: task_inv_def queue_ok_def fl_at)
  moreover have "(rt_put_task t k rt)\<lparr>rt_scheduler := rt_scheduler rt\<rparr> = rt"
    using k by (simp add: rt_put_task_def fun_upd_idem)
  ultimately show thesis
    using that [of 0 "rt_scheduler rt" k] k True i by (simp add: rt_schedule_def sched_schedule_def)
next
  case False
  show thesis
  proof (cases "ev_node ev t")
    case True
    define k' where "k' = k\<lparr>tk_state := set_flag (tk_state k) BB_TASK_SCHEDULED\<rparr>"
    define s where "s = sched_enqueue (rt_scheduler rt) t"
    have s: "sched_inv s" "queue_of s = queued rt @ [t]"
      using rt_inv_struct [OF i] by (simp_all add: struct_ok_def s_def run_q.enq_inv run_q.enq_elems)
    have "task_inv lk X C (queue_of s) (owned rt) ((rt_tasks rt)(t \<mapsto> k')) (rt_next_tid rt) (rt_calls rt)"
      unfolding s k'_def by (rule inv_enqueue [OF rt_inv_task [OF i] k False o])
    then have "rt_inv lk X C ((rt_put_task t k' rt)\<lparr>rt_scheduler := s\<rparr>)"
      using i s(1) by (simp add: rt_inv_def struct_ok_def owned_def)
    then show thesis
      using that [of 0 s k'] k False True s(2)
      by (simp add: rt_schedule_def sched_schedule_def k'_def s_def)
  next
    case nok: False
    have "(rt_put_task t k rt)\<lparr>rt_scheduler := rt_scheduler rt\<rparr> = rt"
      using k by (simp add: rt_put_task_def fun_upd_idem)
    then show thesis
      using that [of "-1" "rt_scheduler rt" k] k False nok i
      by (auto simp: rt_schedule_def sched_schedule_def)
  qed
qed

lemma rt_destroy_step:
  assumes i: "rt_inv lk X C rt" and k: "rt_tasks rt t = Some k"
    and q: "t \<notin> set (queued rt)" and o: "t \<notin> fst ` set_mset (owned rt)"
  obtains calls where
    "rt_task_destroy t rt = Some ((rt_log t calls rt)\<lparr>rt_tasks := (rt_tasks rt)(t := None)\<rparr>)"
    "rt_inv lk X (C - {t}) ((rt_log t calls rt)\<lparr>rt_tasks := (rt_tasks rt)(t := None)\<rparr>)"
    "\<not> has_flag (tk_state k) BB_TASK_FINALIZED \<Longrightarrow>
     calls = (case cfg_cleanup (tk_config k) of None \<Rightarrow> []
              | Some cb \<Rightarrow> [(cb, cfg_userdata (tk_config k), RES_COMPLETED)])"
proof -
  obtain k' calls where f: "task_finalize k RES_COMPLETED = (k', calls)" by fastforce
  from inv_destroy [OF rt_inv_task [OF i] k f q o]
  have "rt_inv lk X (C - {t}) ((rt_log t calls rt)\<lparr>rt_tasks := (rt_tasks rt)(t := None)\<rparr>)"
    using i by (simp add: rt_inv_def struct_ok_def owned_def rt_log_def)
  then show thesis
    using that [of calls] f k by (auto simp: rt_task_destroy_def task_finalize_def split: if_splits)
qed

lemma rt_cancel_step:
  assumes i: "rt_inv lk X C rt" and k: "rt_tasks rt t = Some k"
  obtains k' calls where
    "rt_task_cancel t rt = Some (rt_log t calls (rt_put_task t k' rt))"
    "rt_inv lk (insert t X) C (rt_log t calls (rt_put_task t k' rt))"
    "\<not> has_flag (tk_state k') BB_TASK_PERSISTENT" "has_flag (tk_state k') BB_TASK_CANCELLED"
proof -
  obtain k' calls where f: "task_cancel k = (k', calls)" by fastforce
  from inv_cancel [OF rt_inv_task [OF i] k f]
  have "rt_inv lk (insert t X) C (rt_log t calls (rt_put_task t k' rt))"
    using i by (simp add: rt_inv_def struct_ok_def owned_def rt_log_def)
  then show thesis
    using that [of calls k'] f k task_cancel_flags [OF f] by (simp add: rt_task_cancel_def)
qed

lemma unregister_fields [simp]:
  "rt_tasks (unregister d e rt) = rt_tasks rt" "rt_scheduler (unregister d e rt) = rt_scheduler rt"
  "rt_timers (unregister d e rt) = rt_timers rt" "rt_calls (unregister d e rt) = rt_calls rt"
  "rt_next_tid (unregister d e rt) = rt_next_tid rt"
  "rt_watcher_capacity (unregister d e rt) = rt_watcher_capacity rt"
  "rt_running (unregister d e rt) = rt_running rt"
  by (simp_all add: unregister_def)

lemma unregister_poller: "poller_inv (rt_poller rt) \<Longrightarrow> poller_inv (rt_poller (unregister d e rt))"
  using poller_unregister_inv [of "rt_poller rt" d e]
  by (cases "poller_unregister (rt_poller rt) d e") (simp add: unregister_def)

lemma drop_watcher_fields [simp]:
  "rt_tasks (drop_watcher j rt) = rt_tasks rt" "rt_scheduler (drop_watcher j rt) = rt_scheduler rt"
  "rt_timers (drop_watcher j rt) = rt_timers rt" "rt_calls (drop_watcher j rt) = rt_calls rt"
  "rt_next_tid (drop_watcher j rt) = rt_next_tid rt"
  "rt_watcher_capacity (drop_watcher j rt) = rt_watcher_capacity rt"
  "rt_running (drop_watcher j rt) = rt_running rt" "rt_poller (drop_watcher j rt) = rt_poller rt"
  by (simp_all add: drop_watcher_def)

lemma rt_inv_unregister: "rt_inv lk X C rt \<Longrightarrow> rt_inv lk X C (unregister d e rt)"
  by (simp add: rt_inv_def struct_ok_def owned_def unregister_poller)

text \<open>Removing the watcher at \<open>j\<close>: its task is held by the running code afterwards.\<close>

lemma owned_drop_watcher:
  assumes "j < length (rt_watchers rt)"
  shows "owned rt = add_mset (watcher_holds (rt_watchers rt ! j)) (owned (drop_watcher j rt))"
proof -
  let ?ws = "rt_watchers rt"
  have "mset ?ws = add_mset (?ws ! j) (mset (arr_remove_swap ?ws j))"
    using assms by (simp add: mset_arr_remove_swap)
  then have "mset (map watcher_holds ?ws) =
             add_mset (watcher_holds (?ws ! j)) (mset (map watcher_holds (arr_remove_swap ?ws j)))"
    by (metis image_mset_add_mset mset_map)
  then show ?thesis by (simp add: owned_def)
qed

lemma rt_drop_step:
  assumes i: "rt_inv lk X C rt" and j: "j < length (rt_watchers rt)"
    and t: "t = wt_task (rt_watchers rt ! j)"
    and c: "\<not> fl (rt_tasks rt) t BB_TASK_PERSISTENT"
  shows "rt_inv lk (X - {t}) (insert t C) (drop_watcher j rt)"
    and "t \<notin> fst ` set_mset (owned (drop_watcher j rt))"
proof -
  let ?rt = "drop_watcher j rt"
  note o = owned_drop_watcher [OF j]
  have h: "watcher_holds (rt_watchers rt ! j) = (t, wt_mode (rt_watchers rt ! j) = BB_WATCH_PERSISTENT)"
    by (simp add: watcher_holds_def t)
  have ti: "task_inv lk X C (queued rt) (add_mset (watcher_holds (rt_watchers rt ! j)) (owned ?rt))
              (rt_tasks rt) (rt_next_tid rt) (rt_calls rt)"
    unfolding o [symmetric] by (rule rt_inv_task [OF i])
  show no: "t \<notin> fst ` set_mset (owned ?rt)"
    using owned_once [OF ti [unfolded h]] by force
  have "task_inv lk (insert t X) (insert t C) (queued rt) (owned ?rt)
          (rt_tasks rt) (rt_next_tid rt) (rt_calls rt)"
  proof (rule inv_unhold [OF ti])
    show "owned ?rt \<subseteq># add_mset (watcher_holds (rt_watchers rt ! j)) (owned ?rt)"
      by (rule sub_add_mset)
    show "x \<in># owned ?rt"
      if "x \<in># add_mset (watcher_holds (rt_watchers rt ! j)) (owned ?rt)" "fst x \<noteq> t" for x
      using that by (auto simp: h)
    show "t \<in> dom (rt_tasks rt)"
      by (rule owned_live [OF ti, of t "wt_mode (rt_watchers rt ! j) = BB_WATCH_PERSISTENT"]) (simp add: h)
  qed
  from inv_settled [OF this no c]
  show "rt_inv lk (X - {t}) (insert t C) ?rt"
    using rt_inv_struct [OF i] by (auto simp: rt_inv_def struct_ok_def)
qed

lemma rt_inv_grab:
  "rt_inv lk X C rt \<Longrightarrow> t \<in> X \<Longrightarrow> t \<in> dom (rt_tasks rt) \<Longrightarrow> rt_inv lk X (insert t C) rt"
  using inv_unhold [OF rt_inv_task subset_mset.order_refl, of lk X C rt t]
  by (auto simp: rt_inv_def insert_absorb)

section \<open>Cancelling a task\<close>

definition same_but_holders :: "bb_runtime \<Rightarrow> bb_runtime \<Rightarrow> bool" where
  "same_but_holders rt rt' \<longleftrightarrow> rt_tasks rt' = rt_tasks rt \<and> rt_scheduler rt' = rt_scheduler rt \<and>
     rt_calls rt' = rt_calls rt \<and> rt_next_tid rt' = rt_next_tid rt \<and> rt_running rt' = rt_running rt"

lemma remove_watchers_step:
  assumes "rt_inv lk X C rt" and "t \<in> X" and "t \<in> dom (rt_tasks rt)"
    and "\<not> fl (rt_tasks rt) t BB_TASK_PERSISTENT"
    and "\<forall>j<i. wt_task (rt_watchers rt ! j) \<noteq> t"
  shows "rt_inv lk X (insert t C) (remove_watchers_from t i rt) \<and>
         same_but_holders rt (remove_watchers_from t i rt) \<and>
         rt_timers (remove_watchers_from t i rt) = rt_timers rt \<and>
         t \<notin> wt_task ` set (rt_watchers (remove_watchers_from t i rt))"
  using assms
proof (induction t i rt arbitrary: C rule: remove_watchers_from.induct)
  case (1 t i rt)
  show ?case
  proof (cases "i < length (rt_watchers rt)")
    case False
    have "t \<notin> wt_task ` set (rt_watchers rt)"
    proof
      assume "t \<in> wt_task ` set (rt_watchers rt)"
      then obtain j where "j < length (rt_watchers rt)" "wt_task (rt_watchers rt ! j) = t"
        by (auto simp: in_set_conv_nth)
      with False "1.prems"(5) show False by auto
    qed
    with False "1.prems" show ?thesis
      by (simp add: remove_watchers_from.simps [of t i rt] rt_inv_grab same_but_holders_def)
  next
    case i: True
    let ?w = "rt_watchers rt ! i"
    show ?thesis
    proof (cases "wt_task ?w = t")
      case False
      then have "\<forall>j<i + 1. wt_task (rt_watchers rt ! j) \<noteq> t"
        using "1.prems"(5) by (auto simp: less_Suc_eq)
      with "1.IH"(2) [OF i refl False "1.prems"(1-4)] i False show ?thesis
        by (simp add: remove_watchers_from.simps [of t i rt])
    next
      case True
      let ?u = "unregister (wt_fd ?w) (wt_events ?w) rt"
      let ?d = "drop_watcher i ?u"
      note d = rt_drop_step [OF rt_inv_unregister [OF "1.prems"(1)], of i _ _ t]
      have inv: "rt_inv lk (X - {t}) (insert t C) ?d"
        and gone: "t \<notin> fst ` set_mset (owned ?d)"
        using d i True "1.prems"(4) by simp_all
      have "rt_inv lk X (insert t C) ?d"
        using inv inv_relax [OF rt_inv_task [OF inv], of X] by (auto simp: rt_inv_def)
      moreover have "t \<notin> wt_task ` set (rt_watchers ?d)"
        using gone by (simp add: fst_owned)
      moreover from this have "\<forall>j<i. wt_task (rt_watchers ?d ! j) \<noteq> t"
      proof (intro allI impI)
        fix j assume "j < i"
        with i have "j < length (rt_watchers ?d)" by simp
        then have "wt_task (rt_watchers ?d ! j) \<in> wt_task ` set (rt_watchers ?d)" by simp
        then show "wt_task (rt_watchers ?d ! j) \<noteq> t"
          using \<open>t \<notin> wt_task ` set (rt_watchers ?d)\<close> by blast
      qed
      ultimately show ?thesis
        using "1.IH"(1) [OF i refl True, of "insert t C"] "1.prems" i True
        by (simp add: remove_watchers_from.simps [of t i rt] same_but_holders_def Let_def)
    qed
  qed
qed

lemma remove_timers_step:
  assumes i: "rt_inv lk X C rt" and t: "t \<in> X" "t \<in> dom (rt_tasks rt)"
  shows "rt_inv lk X (insert t C) (rt_remove_timers t rt) \<and>
         same_but_holders rt (rt_remove_timers t rt) \<and>
         rt_watchers (rt_remove_timers t rt) = rt_watchers rt \<and>
         t \<notin> timer_task ` set_mset (timers_of (rt_timers (rt_remove_timers t rt)))"
proof (cases "task_timers t (timers_of (rt_timers rt)) = {#}")
  case True
  have h: "heap_inv (rt_timers rt)" using rt_inv_struct [OF i] by (simp add: struct_ok_def)
  then have "rt_remove_timers t rt = rt"
    using remove_task_from_absent [OF h True]
    by (simp add: rt_remove_timers_def timer_remove_task_def)
  with True rt_inv_grab [OF i t] show ?thesis
    by (auto simp: same_but_holders_def task_timers_def filter_mset_eq_mempty_iff)
next
  case False
  let ?M = "timers_of (rt_timers rt)"
  have h: "heap_inv (rt_timers rt)" using rt_inv_struct [OF i] by (simp add: struct_ok_def)
  obtain x where x: "x \<in># ?M" "timer_task x = t"
    using False by (auto simp: task_timers_def filter_mset_eq_mempty_iff)
  then have M: "?M = add_mset x (?M - {#x#})" by simp
  define H where "H = mset (map watcher_holds (rt_watchers rt)) + image_mset timer_holds (?M - {#x#})"
  have o: "owned rt = add_mset (t, repeating x \<noteq> 0) H"
    unfolding owned_def H_def by (subst M) (simp add: timer_holds_def x(2))
  note ti = rt_inv_task [OF i, unfolded o]
  have no: "t \<notin> fst ` set_mset H"
    using owned_once [OF ti] by force
  then have nt: "t \<notin> timer_task ` set_mset (?M - {#x#})"
    by (auto simp: H_def image_Un image_image)
  have "task_timers t (?M - {#x#}) = {#}"
    unfolding task_timers_def filter_mset_eq_mempty_iff using nt by blast
  then have "task_timers t ?M = {#x#}"
    by (subst M) (simp add: task_timers_def x(2))
  then obtain h' where h': "remove_task_from (rt_timers rt) t 0 0 = (1, h')" "heap_inv h'"
      "timers_of h' = ?M - {#x#}"
    using remove_task_from_one [OF h, of t x 0 0] by auto
  then have rt': "rt_remove_timers t rt = rt\<lparr>rt_timers := h'\<rparr>"
    by (simp add: rt_remove_timers_def timer_remove_task_def)
  have "task_inv lk (insert t X) (insert t C) (queued rt) H (rt_tasks rt) (rt_next_tid rt) (rt_calls rt)"
    by (rule inv_unhold [OF ti]) (auto simp: t sub_add_mset)
  then have "rt_inv lk X (insert t C) (rt_remove_timers t rt)"
    using rt_inv_struct [OF i] h' t
    by (simp add: rt' rt_inv_def struct_ok_def owned_def H_def insert_absorb)
  with nt h' show ?thesis by (simp add: rt' same_but_holders_def)
qed

lemma rt_cancel_task_step:
  assumes i: "rt_inv lk X C rt" and t: "t \<in> dom (rt_tasks rt)" and a: "lk \<Longrightarrow> ev_node ev t"
    and C': "C - {t} \<subseteq> C'" "C' \<subseteq> insert t C"
  shows "\<exists>rt'. rt_cancel_task ev t rt = Some (0, rt') \<and> rt_inv lk (X - {t}) C' rt' \<and>
               dom (rt_tasks rt') = dom (rt_tasks rt) \<and> rt_next_tid rt' = rt_next_tid rt \<and>
               rt_running rt' = rt_running rt \<and> t \<notin> fst ` set_mset (owned rt') \<and>
               fl (rt_tasks rt') t BB_TASK_CANCELLED \<and> (ev_node ev t \<longrightarrow> t \<in> set (queued rt'))"
proof -
  obtain k where k: "rt_tasks rt t = Some k" using t by auto
  obtain k' calls where c: "rt_task_cancel t rt = Some (rt_log t calls (rt_put_task t k' rt))"
      "rt_inv lk (insert t X) C (rt_log t calls (rt_put_task t k' rt))"
      "\<not> has_flag (tk_state k') BB_TASK_PERSISTENT" "has_flag (tk_state k') BB_TASK_CANCELLED"
    by (rule rt_cancel_step [OF i k])
  define r1 where "r1 = rt_log t calls (rt_put_task t k' rt)"
  have T1: "rt_tasks r1 = (rt_tasks rt)(t \<mapsto> k')" "rt_next_tid r1 = rt_next_tid rt"
      "rt_running r1 = rt_running rt"
    by (simp_all add: r1_def rt_log_def)
  define r2 where "r2 = rt_remove_watchers t r1"
  have r2: "rt_inv lk (insert t X) (insert t C) r2" "same_but_holders r1 r2"
      "t \<notin> wt_task ` set (rt_watchers r2)"
    using remove_watchers_step [OF c(2) [folded r1_def], of t 0] c(3)
    by (simp_all add: r2_def rt_remove_watchers_def T1)
  define r3 where "r3 = rt_remove_timers t r2"
  have T2: "rt_tasks r2 = (rt_tasks rt)(t \<mapsto> k')"
    using r2(2) T1 by (simp add: same_but_holders_def)
  have r3: "rt_inv lk (insert t X) (insert t C) r3" "same_but_holders r2 r3"
      "rt_watchers r3 = rt_watchers r2" "t \<notin> timer_task ` set_mset (timers_of (rt_timers r3))"
    using remove_timers_step [OF r2(1), of t] by (simp_all add: r3_def T2)
  have no: "t \<notin> fst ` set_mset (owned r3)"
    using r2(3) r3(3,4) by (simp add: fst_owned)
  have T3: "rt_tasks r3 = (rt_tasks rt)(t \<mapsto> k')"
    using r3(2) T2 by (simp add: same_but_holders_def)
  have "rt_inv lk (X - {t}) (insert t C) r3"
    using inv_settled [OF rt_inv_task [OF r3(1)] no] r3(1) c(3)
    by (simp add: rt_inv_def T3)
  moreover have "rt_tasks r3 t = Some k'" by (simp add: T3)
  ultimately obtain rc k'' s where s: "rt_schedule ev t r3 = Some (rc, (rt_put_task t k'' r3)\<lparr>rt_scheduler := s\<rparr>)"
      "rt_inv lk (X - {t}) (insert t C) ((rt_put_task t k'' r3)\<lparr>rt_scheduler := s\<rparr>)"
      "rc = 0 \<and> t \<in> set (queue_of s) \<or> rc = -1 \<and> \<not> ev_node ev t \<and> s = rt_scheduler r3 \<and> k'' = k'"
      "has_flag (tk_state k'') BB_TASK_CANCELLED = has_flag (tk_state k') BB_TASK_CANCELLED"
    by (rule rt_schedule_step [of lk "X - {t}" "insert t C" r3 t k' ev]) (use no in force)+
  have "rt_inv lk (X - {t}) C' ((rt_put_task t k'' r3)\<lparr>rt_scheduler := s\<rparr>)"
    using inv_release [OF rt_inv_task [OF s(2)], of t C'] s(2,3) C' a by (auto simp: rt_inv_def)
  moreover have "rt_cancel_task ev t rt = Some (0, (rt_put_task t k'' r3)\<lparr>rt_scheduler := s\<rparr>)"
    using c(1) s(1) by (simp add: rt_cancel_task_def r1_def r2_def r3_def Let_def)
  moreover have "dom ((rt_tasks r3)(t \<mapsto> k'')) = dom (rt_tasks rt)" using t by (auto simp: T3)
  moreover have "t \<notin> fst ` set_mset (owned ((rt_put_task t k'' r3)\<lparr>rt_scheduler := s\<rparr>))"
    using no by (simp add: fst_owned)
  moreover have "has_flag (tk_state k'') BB_TASK_CANCELLED" using s(4) c(4) by simp
  ultimately show ?thesis
    using r2(2) r3(2) T1 s(3)
    by (intro exI [of _ "(rt_put_task t k'' r3)\<lparr>rt_scheduler := s\<rparr>"]) (auto simp: same_but_holders_def)
qed

section \<open>Installing and removing holders\<close>

text \<open>Every public function that installs a holder begins by creating its task.\<close>

lemma rt_create_fresh:
  assumes i: "rt_inv lk X C rt" and c: "rt_task_create ok cfg rt = Some (t, r1)"
  obtains k where "rt_inv lk X (insert t C) r1" "rt_tasks r1 t = Some k" "tk_state k = BB_TASK_IDLE"
    "r1 = rt\<lparr>rt_tasks := (rt_tasks rt)(t \<mapsto> k), rt_next_tid := Suc t\<rparr>"
    "t \<notin> fst ` set_mset (owned rt)" "t \<notin> C" "t \<notin> dom (rt_tasks rt)" "t \<notin> set (queued rt)"
proof -
  from rt_create_step [OF i c] obtain k where k: "rt_inv lk X (insert t C) r1" "t = rt_next_tid rt"
      "rt_tasks r1 t = Some k" "tk_state k = BB_TASK_IDLE"
      "r1 = rt\<lparr>rt_tasks := (rt_tasks rt)(t \<mapsto> k), rt_next_tid := Suc t\<rparr>"
    by auto
  have live: "t \<notin> dom (rt_tasks rt)" "t \<notin> C"
    using rt_inv_task [OF i] k(2) by (auto simp: task_inv_def store_ok_def)
  moreover have "t \<notin> set (queued rt)"
    using queued_live [OF rt_inv_task [OF i]] live by blast
  ultimately show thesis
    using that k fresh_not_owned [OF i] by simp
qed

lemma rt_destroy_loose:
  assumes i: "rt_inv lk X (insert t C) rt" and c: "t \<notin> C" and k: "rt_tasks rt t = Some k"
    and s: "\<not> has_flag (tk_state k) BB_TASK_SCHEDULED" and o: "t \<notin> fst ` set_mset (owned rt)"
  shows "\<exists>rt'. rt_task_destroy t rt = Some rt' \<and> rt_inv lk (X - {t}) C rt' \<and>
               dom (rt_tasks rt') = dom (rt_tasks rt) - {t} \<and>
               rt_next_tid rt' = rt_next_tid rt \<and> rt_running rt' = rt_running rt"
proof -
  have q: "t \<notin> set (queued rt)"
    using rt_inv_task [OF i] s k by (simp add: task_inv_def queue_ok_def fl_def)
  obtain calls where d:
    "rt_task_destroy t rt = Some ((rt_log t calls rt)\<lparr>rt_tasks := (rt_tasks rt)(t := None)\<rparr>)"
    "rt_inv lk X (insert t C - {t}) ((rt_log t calls rt)\<lparr>rt_tasks := (rt_tasks rt)(t := None)\<rparr>)"
    by (rule rt_destroy_step [OF i k q o])
  let ?r = "(rt_log t calls rt)\<lparr>rt_tasks := (rt_tasks rt)(t := None)\<rparr>"
  have "insert t C - {t} = C" using c by simp
  then have i': "rt_inv lk X C ?r" using d(2) by simp
  have "t \<notin> fst ` set_mset (owned ?r)" using o by (simp add: fst_owned rt_log_def)
  then have "rt_inv lk (X - {t}) C ?r"
    using i' inv_settled [OF rt_inv_task [OF i'], of t] by (simp add: rt_inv_def)
  with d(1) show ?thesis by (auto simp: rt_log_def)
qed

definition api_ok :: "bool \<Rightarrow> tid set \<Rightarrow> bb_runtime \<Rightarrow> bb_runtime \<Rightarrow> bool" where
  "api_ok lk C rt rt' \<longleftrightarrow> rt_inv lk {} C rt' \<and> dom (rt_tasks rt) \<subseteq> dom (rt_tasks rt')"

lemma rt_schedule_ex_step:
  assumes i: "rt_inv lk {} C rt"
  shows "\<exists>r rt'. rt_schedule_ex ev cfg rt = Some (r, rt') \<and> api_ok lk C rt rt'"
proof (cases "rt_task_create (ev_alloc ev) cfg rt")
  case None
  with i show ?thesis by (simp add: rt_schedule_ex_def api_ok_def)
next
  case (Some p)
  then obtain t r1 where c: "rt_task_create (ev_alloc ev) cfg rt = Some (t, r1)" by (cases p) auto
  obtain k where k: "rt_inv lk {} (insert t C) r1" "rt_tasks r1 t = Some k" "tk_state k = BB_TASK_IDLE"
    "r1 = rt\<lparr>rt_tasks := (rt_tasks rt)(t \<mapsto> k), rt_next_tid := Suc t\<rparr>"
    "t \<notin> fst ` set_mset (owned rt)" "t \<notin> C" "t \<notin> dom (rt_tasks rt)" "t \<notin> set (queued rt)"
    by (rule rt_create_fresh [OF i c])
  have no: "t \<notin> fst ` set_mset (owned r1)" using k(4,5) by (simp add: fst_owned)
  obtain rc k' s where s: "rt_schedule ev t r1 = Some (rc, (rt_put_task t k' r1)\<lparr>rt_scheduler := s\<rparr>)"
      "rt_inv lk {} (insert t C) ((rt_put_task t k' r1)\<lparr>rt_scheduler := s\<rparr>)"
      "rc = 0 \<and> t \<in> set (queue_of s) \<or> rc = -1 \<and> \<not> ev_node ev t \<and> s = rt_scheduler r1 \<and> k' = k"
    by (rule rt_schedule_step [OF k(1,2)]) (use no in force)+
  let ?r2 = "(rt_put_task t k' r1)\<lparr>rt_scheduler := s\<rparr>"
  show ?thesis
  proof (cases "rc = 0")
    case True
    have "rt_inv lk {} C ?r2"
      using inv_release [OF rt_inv_task [OF s(2)], of t C] s(2,3) True by (auto simp: rt_inv_def)
    with c s(1) True show ?thesis by (auto simp: rt_schedule_ex_def api_ok_def k(4))
  next
    case False
    then have "\<not> has_flag (tk_state k') BB_TASK_SCHEDULED" using s(3) k(3) by auto
    moreover have "t \<notin> fst ` set_mset (owned ?r2)" using no by (simp add: fst_owned)
    ultimately obtain r3 where "rt_task_destroy t ?r2 = Some r3" "rt_inv lk {} C r3"
        "dom (rt_tasks r3) = dom (rt_tasks ?r2) - {t}"
      using rt_destroy_loose [OF s(2) k(6)] by auto
    with c s(1) False k(7) show ?thesis by (auto simp: rt_schedule_ex_def api_ok_def k(4))
  qed
qed

text \<open>Arming a timer for a fresh task, persistent or not.\<close>

lemma push_timer_step:
  assumes i: "rt_inv lk X (insert t C) rt" and k: "rt_tasks rt t = Some k" and X: "X \<subseteq> {t}"
    and s: "\<not> has_flag (tk_state k) BB_TASK_SCHEDULED" "\<not> has_flag (tk_state k) BB_TASK_CANCELLED"
    and p: "has_flag (tk_state k) BB_TASK_PERSISTENT \<longleftrightarrow> rep \<noteq> 0"
    and no: "t \<notin> fst ` set_mset (owned rt)" and c: "t \<notin> C"
    and r: "push_timer ev ms rep t rt = (rc, rt')"
  shows "rc = 0 \<and> rt_inv lk {} C rt' \<and> rt_tasks rt' = rt_tasks rt \<or> rc = -1 \<and> rt' = rt"
proof -
  let ?x = "\<lparr>interval_ms = ms, next_fire_ms = ev_now ev + ms, repeating = rep, timer_task = t\<rparr>"
  show ?thesis
  proof (cases "timer_push (ev_grow ev) (rt_timers rt) ?x")
    case None
    with r show ?thesis by (simp add: push_timer_def)
  next
    case (Some h)
    have h: "heap_inv h" "timers_of h = add_mset ?x (timers_of (rt_timers rt))"
      using timer_push_inv [OF _ Some] rt_inv_struct [OF i] by (simp_all add: struct_ok_def)
    have "task_inv lk (X - {t}) (insert t C - {t}) (queued rt) (add_mset (t, rep \<noteq> 0) (owned rt))
            (rt_tasks rt) (rt_next_tid rt) (rt_calls rt)"
      by (rule inv_hold [OF rt_inv_task [OF i] k no s(2) p]) (rule s(1))
    moreover have "X - {t} = {}" "insert t C - {t} = C" using X c by auto
    ultimately have "rt_inv lk {} C (rt\<lparr>rt_timers := h\<rparr>)"
      using h rt_inv_struct [OF i] by (simp add: rt_inv_def struct_ok_def owned_def timer_holds_def)
    with r Some show ?thesis by (auto simp: push_timer_def)
  qed
qed

lemma rt_set_timeout_ex_step:
  assumes i: "rt_inv lk {} C rt"
  shows "\<exists>r rt'. rt_set_timeout_ex ev ms cfg rt = Some (r, rt') \<and> api_ok lk C rt rt'"
proof (cases "rt_task_create (ev_alloc ev) cfg rt")
  case None
  with i show ?thesis by (simp add: rt_set_timeout_ex_def api_ok_def)
next
  case (Some p)
  then obtain t r1 where c: "rt_task_create (ev_alloc ev) cfg rt = Some (t, r1)" by (cases p) auto
  obtain k where k: "rt_inv lk {} (insert t C) r1" "rt_tasks r1 t = Some k" "tk_state k = BB_TASK_IDLE"
    "r1 = rt\<lparr>rt_tasks := (rt_tasks rt)(t \<mapsto> k), rt_next_tid := Suc t\<rparr>"
    "t \<notin> fst ` set_mset (owned rt)" "t \<notin> C" "t \<notin> dom (rt_tasks rt)" "t \<notin> set (queued rt)"
    by (rule rt_create_fresh [OF i c])
  have no: "t \<notin> fst ` set_mset (owned r1)" using k(4,5) by (simp add: fst_owned)
  obtain rc r2 where p: "push_timer ev ms 0 t r1 = (rc, r2)" by fastforce
  have step: "rc = 0 \<and> rt_inv lk {} C r2 \<and> rt_tasks r2 = rt_tasks r1 \<or> rc = -1 \<and> r2 = r1"
    by (rule push_timer_step [OF k(1,2) _ _ _ _ no k(6) p]) (simp_all add: k(3))
  show ?thesis
  proof (cases "rc = 0")
    case True
    with step p c show ?thesis by (auto simp: rt_set_timeout_ex_def api_ok_def k(4))
  next
    case False
    then have "r2 = r1" using step by simp
    moreover obtain r3 where "rt_task_destroy t r1 = Some r3" "rt_inv lk {} C r3"
        "dom (rt_tasks r3) = dom (rt_tasks r1) - {t}"
      using rt_destroy_loose [OF k(1,6,2) _ no] k(3) by auto
    ultimately show ?thesis using c p False k(7) by (auto simp: rt_set_timeout_ex_def api_ok_def k(4))
  qed
qed

definition mark :: "bb_watch_mode \<Rightarrow> bb_task \<Rightarrow> bb_task" where
  "mark mode k = (if mode = BB_WATCH_PERSISTENT
                  then k\<lparr>tk_state := set_flag (tk_state k) BB_TASK_PERSISTENT\<rparr> else k)"

lemma mark_flags [simp]:
  "has_flag (tk_state (mark mode k)) BB_TASK_SCHEDULED = has_flag (tk_state k) BB_TASK_SCHEDULED"
  "has_flag (tk_state (mark mode k)) BB_TASK_CANCELLED = has_flag (tk_state k) BB_TASK_CANCELLED"
  "has_flag (tk_state (mark mode k)) BB_TASK_PERSISTENT \<longleftrightarrow>
   mode = BB_WATCH_PERSISTENT \<or> has_flag (tk_state k) BB_TASK_PERSISTENT"
  by (simp_all add: mark_def)

lemma mark_persistent_eq:
  "rt_tasks rt t = Some k \<Longrightarrow> mark_persistent mode t rt = Some (rt_put_task t (mark mode k) rt)"
  by (simp add: mark_persistent_def rt_task_state_def mark_def rt_put_task_def fun_upd_idem)

lemma inv_mark:
  "task_inv lk X C Q H T n L \<Longrightarrow> T t = Some k \<Longrightarrow>
   task_inv lk (insert t X) C Q H (T(t \<mapsto> mark mode k)) n L"
  using inv_set_persistent [of lk X C Q H T n L t k] inv_relax [of lk X C Q H T n L "insert t X"]
  by (auto simp: mark_def fun_upd_idem)

lemma rt_set_interval_ex_step:
  assumes i: "rt_inv lk {} C rt"
  shows "\<exists>r rt'. rt_set_interval_ex ev ms cfg rt = Some (r, rt') \<and> api_ok lk C rt rt'"
proof (cases "rt_task_create (ev_alloc ev) cfg rt")
  case None
  with i show ?thesis by (simp add: rt_set_interval_ex_def api_ok_def)
next
  case (Some p)
  then obtain t r1 where c: "rt_task_create (ev_alloc ev) cfg rt = Some (t, r1)" by (cases p) auto
  obtain k where k: "rt_inv lk {} (insert t C) r1" "rt_tasks r1 t = Some k" "tk_state k = BB_TASK_IDLE"
    "r1 = rt\<lparr>rt_tasks := (rt_tasks rt)(t \<mapsto> k), rt_next_tid := Suc t\<rparr>"
    "t \<notin> fst ` set_mset (owned rt)" "t \<notin> C" "t \<notin> dom (rt_tasks rt)" "t \<notin> set (queued rt)"
    by (rule rt_create_fresh [OF i c])
  define k' where "k' = mark BB_WATCH_PERSISTENT k"
  have m: "mark_persistent BB_WATCH_PERSISTENT t r1 = Some (rt_put_task t k' r1)"
    "rt_inv lk {t} (insert t C) (rt_put_task t k' r1)"
    "\<not> has_flag (tk_state k') BB_TASK_SCHEDULED" "\<not> has_flag (tk_state k') BB_TASK_CANCELLED"
    "has_flag (tk_state k') BB_TASK_PERSISTENT"
    using mark_persistent_eq [OF k(2)] rt_inv_put [OF k(1) inv_mark [OF rt_inv_task [OF k(1)] k(2)]]
    by (simp_all add: k'_def k(3))
  let ?r1 = "rt_put_task t k' r1"
  have no: "t \<notin> fst ` set_mset (owned ?r1)" using k(4,5) by (simp add: fst_owned)
  have k1: "rt_tasks ?r1 t = Some k'" by simp
  obtain rc r2 where p: "push_timer ev ms 1 t ?r1 = (rc, r2)" by fastforce
  have step: "rc = 0 \<and> rt_inv lk {} C r2 \<and> rt_tasks r2 = rt_tasks ?r1 \<or> rc = -1 \<and> r2 = ?r1"
    by (rule push_timer_step [OF m(2) k1 _ m(3,4) _ no k(6) p]) (simp_all add: m(5))
  show ?thesis
  proof (cases "rc = 0")
    case True
    with step p c m(1) show ?thesis
      by (auto simp: rt_set_interval_ex_def mark_persistent_def api_ok_def k(4))
  next
    case False
    then have r2: "r2 = ?r1" using step by simp
    obtain r3 where "rt_task_destroy t ?r1 = Some r3" "rt_inv lk {} C r3"
        "dom (rt_tasks r3) = dom (rt_tasks ?r1) - {t}"
      using rt_destroy_loose [OF m(2) k(6) k1 m(3) no] by auto
    then show ?thesis using c p False k(7) m(1) r2
      by (auto simp: rt_set_interval_ex_def mark_persistent_def api_ok_def k(4))
  qed
qed

lemma find_watcher_Some: "find_watcher_exact ws d e = Some j \<Longrightarrow> j < length ws"
  by (induction ws arbitrary: j) (auto split: if_splits)

lemma register_inv: "rt_inv lk X C rt \<Longrightarrow> register ev d e rt = (rc, rt') \<Longrightarrow>
  rt_inv lk X C rt' \<and> (\<exists>p. rt' = rt\<lparr>rt_poller := p\<rparr>)"
proof -
  assume i: "rt_inv lk X C rt" and r: "register ev d e rt = (rc, rt')"
  obtain rc' p where p: "poller_register (ev_poll_grow ev) (ev_backend ev e) (rt_poller rt) d e = (rc', p)"
    by fastforce
  then have "poller_inv p"
    using poller_register_inv [OF _ p] rt_inv_struct [OF i] by (simp add: struct_ok_def)
  with i r p show ?thesis
    by (auto simp: register_def rt_inv_def struct_ok_def owned_def)
qed

lemma update_interest_inv:
  assumes i: "rt_inv lk X C rt" and u: "update_interest ev d old new rt = (ok, rt')"
  shows "rt_inv lk X C rt' \<and> (\<exists>p. rt' = rt\<lparr>rt_poller := p\<rparr>)"
proof (cases "new = old")
  case True
  with i u show ?thesis by (auto simp: update_interest_def intro: exI [of _ "rt_poller rt"])
next
  case False
  define r1 where "r1 = (if old \<noteq> 0 then unregister d old rt else rt)"
  have r1: "rt_inv lk X C r1" "\<exists>p. r1 = rt\<lparr>rt_poller := p\<rparr>"
    using i rt_inv_unregister [OF i]
    by (auto simp: r1_def unregister_def intro: exI [of _ "rt_poller rt"])
  obtain rc r2 where r2: "register ev d new r1 = (rc, r2)" by fastforce
  obtain rc' r3 where r3: "register ev d old r2 = (rc', r3)" by fastforce
  from register_inv [OF r1(1) r2] have i2: "rt_inv lk X C r2" "\<exists>p. r2 = r1\<lparr>rt_poller := p\<rparr>" by auto
  from register_inv [OF i2(1) r3] have i3: "rt_inv lk X C r3" "\<exists>p. r3 = r2\<lparr>rt_poller := p\<rparr>" by auto
  have "rt' = r2 \<or> rt' = r3"
    using u False r2 r3 by (auto simp: update_interest_def r1_def Let_def split: if_splits)
  with r1 i2 i3 show ?thesis by auto
qed

lemma owned_replace_watcher:
  assumes j: "j < length (rt_watchers rt)"
  shows "\<exists>H. owned rt = add_mset (watcher_holds (rt_watchers rt ! j)) H \<and>
             owned (rt\<lparr>rt_watchers := (rt_watchers rt)[j := w]\<rparr>) = add_mset (watcher_holds w) H"
proof -
  let ?ws = "rt_watchers rt"
  define M where "M = mset ?ws - {#?ws ! j#}"
  have "?ws ! j \<in># mset ?ws" using j by simp
  then have 1: "mset ?ws = add_mset (?ws ! j) M" by (simp add: M_def)
  have 2: "mset (?ws[j := w]) = add_mset w M" using j by (simp add: M_def mset_update)
  show ?thesis
    by (rule exI [of _ "image_mset watcher_holds M + image_mset timer_holds (timers_of (rt_timers rt))"])
       (simp add: owned_def 1 2)
qed

lemma watch_fd_step:
  assumes i: "rt_inv lk {} (insert t C) rt" and k: "rt_tasks rt t = Some k" "tk_state k = BB_TASK_IDLE"
    and no: "t \<notin> fst ` set_mset (owned rt)" and c: "t \<notin> C"
    and a: "lk \<Longrightarrow> \<forall>u. ev_node ev u"
  shows "\<exists>rc rt'. watch_fd ev d e mode t rt = Some (rc, rt') \<and>
           (rc = 0 \<and> rt_inv lk {} C rt' \<and> dom (rt_tasks rt') = dom (rt_tasks rt) \<or>
            rc = -1 \<and> rt_inv lk {} (insert t C) rt' \<and> rt_tasks rt' = rt_tasks rt \<and> owned rt' = owned rt)"
proof (cases "find_watcher_exact (rt_watchers rt) d e")
  case (Some j)
  note j = find_watcher_Some [OF Some]
  define w where "w = rt_watchers rt ! j"
  define w' where "w' = w\<lparr>wt_mode := mode, wt_task := t\<rparr>"
  define r1 where "r1 = rt\<lparr>rt_watchers := (rt_watchers rt)[j := w']\<rparr>"
  define k' where "k' = mark mode k"
  obtain H where H: "owned rt = add_mset (watcher_holds w) H" "owned r1 = add_mset (t, mode = BB_WATCH_PERSISTENT) H"
    using owned_replace_watcher [OF j, of w'] by (auto simp: w_def r1_def w'_def watcher_holds_def)
  let ?o = "wt_task w"
  have ot: "?o \<noteq> t" and nH: "t \<notin> fst ` set_mset H" using no by (auto simp: H(1))
  note ti = rt_inv_task [OF i, unfolded H(1)]
  have od: "?o \<in> dom (rt_tasks rt)"
    by (rule owned_live [OF ti, of ?o "wt_mode w = BB_WATCH_PERSISTENT"]) (simp add: watcher_holds_def)
  have "task_inv lk (insert ?o {}) (insert ?o (insert t C)) (queued rt) H (rt_tasks rt) (rt_next_tid rt) (rt_calls rt)"
    by (rule inv_unhold [OF ti sub_add_mset _ od]) auto
  from inv_mark [OF this k(1)]
  have m: "task_inv lk {t, ?o} (insert ?o (insert t C)) (queued rt) H
              ((rt_tasks rt)(t \<mapsto> k')) (rt_next_tid rt) (rt_calls rt)"
    by (simp add: k'_def)
  have "task_inv lk ({t, ?o} - {t}) (insert ?o (insert t C) - {t}) (queued rt)
          (add_mset (t, mode = BB_WATCH_PERSISTENT) H)
          ((rt_tasks rt)(t \<mapsto> k')) (rt_next_tid rt) (rt_calls rt)"
    by (rule inv_hold [where k = k', OF m _ nH]) (simp_all add: k'_def k(2))
  moreover have "{t, ?o} - {t} = {?o}" "insert ?o (insert t C) - {t} = insert ?o C" using ot c by auto
  ultimately have r2: "rt_inv lk {?o} (insert ?o C) (rt_put_task t k' r1)"
    using rt_inv_struct [OF i] H(2) by (simp add: rt_inv_def struct_ok_def r1_def owned_def)
  have od2: "?o \<in> dom (rt_tasks (rt_put_task t k' r1))" using od by (simp add: r1_def)
  obtain r3 where r3: "rt_cancel_task ev ?o (rt_put_task t k' r1) = Some (0, r3)" "rt_inv lk {} C r3"
      "dom (rt_tasks r3) = dom (rt_tasks (rt_put_task t k' r1))"
    using rt_cancel_task_step [OF r2 od2, of ev C] a by auto
  have mk: "mark_persistent mode t r1 = Some (rt_put_task t k' r1)"
    unfolding k'_def by (rule mark_persistent_eq) (simp add: r1_def k(1))
  have "watch_fd ev d e mode t rt = Some (0, r3)"
    using Some mk r3(1) ot by (simp add: watch_fd_def Let_def r1_def w_def w'_def)
  moreover have "dom (rt_tasks r3) = dom (rt_tasks rt)" using r3(3) k(1) by (auto simp: r1_def)
  ultimately show ?thesis using r3(2) by blast
next
  case None
  define g where "g = (if length (rt_watchers rt) \<ge> rt_watcher_capacity rt
                       then grow_watchers (ev_grow ev) rt else Some rt)"
  show ?thesis
  proof (cases g)
    case None': None
    with None i show ?thesis by (simp add: watch_fd_def g_def)
  next
    case (Some r1)
    then have r1: "rt_inv lk {} (insert t C) r1" "rt_tasks r1 = rt_tasks rt" "owned r1 = owned rt"
        "length (rt_watchers r1) < rt_watcher_capacity r1"
      using i by (auto simp: g_def grow_watchers_def rt_inv_def struct_ok_def owned_def split: if_splits)
    let ?m = "fd_registered_mask (rt_watchers r1) d"
    obtain ok r2 where u: "update_interest ev d ?m (?m OR e) r1 = (ok, r2)" by fastforce
    from update_interest_inv [OF r1(1) u] obtain p where
      r2: "rt_inv lk {} (insert t C) r2" "r2 = r1\<lparr>rt_poller := p\<rparr>" by auto
    have own: "owned r2 = owned rt" using r2(2) r1(3) by (simp add: owned_def)
    show ?thesis
    proof (cases ok)
      case False
      with None Some u r2 r1 own show ?thesis by (simp add: watch_fd_def g_def Let_def)
    next
      case True
      define k' where "k' = mark mode k"
      have k2: "rt_tasks r2 t = Some k" using r1(2) r2(2) k(1) by simp
      let ?r3 = "rt_put_task t k' r2"
      let ?w = "\<lparr>wt_fd = d, wt_events = e, wt_mode = mode, wt_task = t\<rparr>"
      let ?r4 = "?r3\<lparr>rt_watchers := rt_watchers ?r3 @ [?w]\<rparr>"
      from inv_mark [OF rt_inv_task [OF r2(1)] k2]
      have m: "task_inv lk {t} (insert t C) (queued r2) (owned r2)
                 ((rt_tasks r2)(t \<mapsto> k')) (rt_next_tid r2) (rt_calls r2)"
        by (simp add: k'_def)
      have "task_inv lk ({t} - {t}) (insert t C - {t}) (queued r2)
              (add_mset (t, mode = BB_WATCH_PERSISTENT) (owned r2))
              ((rt_tasks r2)(t \<mapsto> k')) (rt_next_tid r2) (rt_calls r2)"
        by (rule inv_hold [where k = k', OF m]) (use no own in \<open>simp_all add: k'_def k(2)\<close>)
      moreover have "insert t C - {t} = C" using c by simp
      moreover have "owned ?r4 = add_mset (t, mode = BB_WATCH_PERSISTENT) (owned r2)"
        by (simp add: owned_def watcher_holds_def)
      ultimately have "rt_inv lk {} C ?r4"
        using rt_inv_struct [OF r2(1)] r1(4) r2(2) by (simp add: rt_inv_def struct_ok_def)
      moreover have "watch_fd ev d e mode t rt = Some (0, ?r4)"
        using None Some u True mark_persistent_eq [OF k2, of mode]
        by (simp add: watch_fd_def g_def Let_def k'_def)
      moreover have "dom (rt_tasks ?r4) = dom (rt_tasks rt)" using k(1) r1(2) r2(2) by auto
      ultimately show ?thesis by blast
    qed
  qed
qed

lemma rt_watch_fd_ex_step:
  assumes i: "rt_inv lk {} C rt" and a: "lk \<Longrightarrow> \<forall>u. ev_node ev u"
  shows "\<exists>r rt'. rt_watch_fd_ex ev d e mode cfg rt = Some (r, rt') \<and> api_ok lk C rt rt'"
proof (cases "rt_task_create (ev_alloc ev) cfg rt")
  case None
  with i show ?thesis by (simp add: rt_watch_fd_ex_def api_ok_def)
next
  case (Some p)
  then obtain t r1 where c: "rt_task_create (ev_alloc ev) cfg rt = Some (t, r1)" by (cases p) auto
  obtain k where k: "rt_inv lk {} (insert t C) r1" "rt_tasks r1 t = Some k" "tk_state k = BB_TASK_IDLE"
    "r1 = rt\<lparr>rt_tasks := (rt_tasks rt)(t \<mapsto> k), rt_next_tid := Suc t\<rparr>"
    "t \<notin> fst ` set_mset (owned rt)" "t \<notin> C" "t \<notin> dom (rt_tasks rt)" "t \<notin> set (queued rt)"
    by (rule rt_create_fresh [OF i c])
  have no: "t \<notin> fst ` set_mset (owned r1)" using k(4,5) by (simp add: fst_owned)
  obtain rc r2 where w: "watch_fd ev d e mode t r1 = Some (rc, r2)"
      "rc = 0 \<and> rt_inv lk {} C r2 \<and> dom (rt_tasks r2) = dom (rt_tasks r1) \<or>
       rc = -1 \<and> rt_inv lk {} (insert t C) r2 \<and> rt_tasks r2 = rt_tasks r1 \<and> owned r2 = owned r1"
    using watch_fd_step [OF k(1,2,3) no k(6) a] by blast
  show ?thesis
  proof (cases "rc = 0")
    case True
    with w c show ?thesis by (auto simp: rt_watch_fd_ex_def api_ok_def k(4))
  next
    case False
    then have r2: "rt_inv lk {} (insert t C) r2" "rt_tasks r2 = rt_tasks r1" "owned r2 = owned r1"
      using w(2) by auto
    obtain r3 where "rt_task_destroy t r2 = Some r3" "rt_inv lk {} C r3"
        "dom (rt_tasks r3) = dom (rt_tasks r2) - {t}"
      using rt_destroy_loose [OF r2(1) k(6), of k] no k(2,3) r2(2,3) by auto
    then show ?thesis using c w(1) False k(7) r2(2) by (auto simp: rt_watch_fd_ex_def api_ok_def k(4))
  qed
qed

lemma fl_cong: "rt_tasks rt t = Some k \<Longrightarrow> fl (rt_tasks rt) t f = has_flag (tk_state k) f"
  by (simp add: fl_def)

lemma unwatch_step:
  assumes "rt_inv lk {} C rt" and "lk \<Longrightarrow> \<forall>u. ev_node ev u"
  shows "\<exists>r rt'. unwatch_from ev d i res rt = Some (r, rt') \<and> api_ok lk C rt rt' \<and>
                 rt_timers rt' = rt_timers rt"
  using assms
proof (induction ev d i res rt rule: unwatch_from.induct)
  case (1 ev d i res rt)
  let ?w = "rt_watchers rt ! i"
  let ?t = "wt_task ?w"
  show ?case
  proof (cases "i < length (rt_watchers rt)")
    case False
    with 1 show ?thesis by (simp add: unwatch_from.simps [of _ _ i] api_ok_def)
  next
    case i: True
    show ?thesis
    proof (cases "wt_fd ?w = d")
      case False
      with 1(2) [OF i False "1.prems"] i show ?thesis by (simp add: unwatch_from.simps [of _ _ i])
    next
      case True
      have "watcher_holds ?w \<in># owned rt" using i by (simp add: owned_def)
      then have "?t \<in> dom (rt_tasks rt)"
        using owned_live [OF rt_inv_task [OF "1.prems"(1)], of ?t "wt_mode ?w = BB_WATCH_PERSISTENT"]
        by (simp add: watcher_holds_def)
      then obtain k where k: "rt_tasks rt ?t = Some k" by auto
      obtain k' calls where c: "rt_task_cancel ?t rt = Some (rt_log ?t calls (rt_put_task ?t k' rt))"
          "rt_inv lk (insert ?t {}) C (rt_log ?t calls (rt_put_task ?t k' rt))"
          "\<not> has_flag (tk_state k') BB_TASK_PERSISTENT" "has_flag (tk_state k') BB_TASK_CANCELLED"
        by (rule rt_cancel_step [OF "1.prems"(1) k])
      define r1 where "r1 = rt_log ?t calls (rt_put_task ?t k' rt)"
      have r1: "rt_watchers r1 = rt_watchers rt" "rt_tasks r1 = (rt_tasks rt)(?t \<mapsto> k')"
          "rt_timers r1 = rt_timers rt"
        by (simp_all add: r1_def rt_log_def)
      have drop: "rt_inv lk {} (insert ?t C) (drop_watcher i r1)"
          "?t \<notin> fst ` set_mset (owned (drop_watcher i r1))"
        using rt_drop_step [OF c(2) [folded r1_def], of i ?t] i c(3) by (simp_all add: r1)
      have k1: "rt_tasks (drop_watcher i r1) ?t = Some k'" by (simp add: r1)
      obtain rc k'' s where s: "rt_schedule ev ?t (drop_watcher i r1) =
            Some (rc, (rt_put_task ?t k'' (drop_watcher i r1))\<lparr>rt_scheduler := s\<rparr>)"
          "rt_inv lk {} (insert ?t C) ((rt_put_task ?t k'' (drop_watcher i r1))\<lparr>rt_scheduler := s\<rparr>)"
          "rc = 0 \<and> ?t \<in> set (queue_of s) \<or>
           rc = -1 \<and> \<not> ev_node ev ?t \<and> s = rt_scheduler (drop_watcher i r1) \<and> k'' = k'"
        by (rule rt_schedule_step [OF drop(1) k1, of ev]) (use drop(2) in force)+
      let ?r2 = "(rt_put_task ?t k'' (drop_watcher i r1))\<lparr>rt_scheduler := s\<rparr>"
      have r2: "rt_inv lk {} C ?r2"
        using inv_release [OF rt_inv_task [OF s(2)], of ?t C] s(2,3) "1.prems"(2)
        by (auto simp: rt_inv_def)
      have "dom (rt_tasks rt) \<subseteq> dom (rt_tasks ?r2)" by (auto simp: r1)
      moreover have "rt_timers ?r2 = rt_timers rt" by (simp add: r1)
      moreover have "unwatch_from ev d i res rt = unwatch_from ev d i 0 ?r2"
        using i True c(1) s(1) by (subst unwatch_from.simps) (simp add: Let_def r1_def)
      moreover obtain r r3 where "unwatch_from ev d i 0 ?r2 = Some (r, r3)" "rt_inv lk {} C r3"
          "dom (rt_tasks ?r2) \<subseteq> dom (rt_tasks r3)" "rt_timers r3 = rt_timers ?r2"
        using "1.IH"(1) [OF i True refl c(1) s(1) [unfolded r1_def] refl r2 [unfolded r1_def] "1.prems"(2)]
        unfolding r1_def [symmetric] api_ok_def by blast
      ultimately show ?thesis
        unfolding api_ok_def by (intro exI [of _ r] exI [of _ r3]) (simp only: subset_trans simp_thms)
    qed
  qed
qed

lemma rt_unwatch_fd_step:
  assumes "rt_inv lk {} C rt" and "lk \<Longrightarrow> \<forall>u. ev_node ev u"
  shows "\<exists>r rt'. rt_unwatch_fd ev d rt = Some (r, rt') \<and> api_ok lk C rt rt'"
  using unwatch_step [OF rt_inv_unregister [OF assms(1)] assms(2)]
  by (fastforce simp: rt_unwatch_fd_def api_ok_def)

section \<open>Dispatching ready descriptors\<close>

text \<open>Queueing the task of a holder; a task that does not persist may lose that holder next.\<close>

lemma rt_fire_step:
  assumes i: "rt_inv lk {} C rt" and h: "(t, p) \<in># owned rt"
  obtains rc k' s where
    "rt_schedule ev t rt = Some (rc, (rt_put_task t k' rt)\<lparr>rt_scheduler := s\<rparr>)"
    "rt_inv lk (if p then {} else {t}) C ((rt_put_task t k' rt)\<lparr>rt_scheduler := s\<rparr>)"
    "\<not> p \<Longrightarrow> \<not> has_flag (tk_state k') BB_TASK_PERSISTENT"
    "ev_node ev t \<Longrightarrow> t \<in> set (queue_of s)"
    "t \<in> dom (rt_tasks rt)"
proof -
  have td: "t \<in> dom (rt_tasks rt)" by (rule owned_live [OF rt_inv_task [OF i] h])
  then obtain k where k: "rt_tasks rt t = Some k" by auto
  have q: "q = p" if "(t, q) \<in># owned rt" for q
    using owned_once [of lk "{}" C "queued rt" t p "owned rt - {#(t, p)#}" _ _ _ q] rt_inv_task [OF i] h that
    by (metis in_diff_count insert_DiffM insert_noteq_member prod.inject)
  have p: "holder_ok C (rt_tasks rt) (t, p)"
    using rt_inv_task [OF i] h by (auto simp: task_inv_def owned_ok_def)
  have i': "rt_inv lk (if p then {} else {t}) C rt"
    using i inv_relax [OF rt_inv_task [OF i], of "if p then {} else {t}"] by (simp add: rt_inv_def)
  obtain rc k' s where s: "rt_schedule ev t rt = Some (rc, (rt_put_task t k' rt)\<lparr>rt_scheduler := s\<rparr>)"
    "rt_inv lk (if p then {} else {t}) C ((rt_put_task t k' rt)\<lparr>rt_scheduler := s\<rparr>)"
    "rc = 0 \<and> t \<in> set (queue_of s) \<or> rc = -1 \<and> \<not> ev_node ev t \<and> s = rt_scheduler rt \<and> k' = k"
    "has_flag (tk_state k') BB_TASK_PERSISTENT = has_flag (tk_state k) BB_TASK_PERSISTENT"
    by (rule rt_schedule_step [OF i' k]) (use q in auto)
  then show thesis
    using that p td fl_cong [of rt t k] k by (auto simp: holder_ok_def)
qed

lemma dispatch_from_step:
  assumes "rt_inv lk {} C rt" and "lk \<Longrightarrow> \<forall>u. ev_node ev u"
  shows "\<exists>rt'. dispatch_from ev d e j rt = Some rt' \<and> rt_inv lk {} C rt' \<and>
               rt_timers rt' = rt_timers rt \<and> rt_running rt' = rt_running rt"
  using assms
proof (induction ev d e j rt rule: dispatch_from.induct)
  case (1 ev d e j rt)
  let ?w = "rt_watchers rt ! j"
  let ?t = "wt_task ?w"
  consider "\<not> j < length (rt_watchers rt)"
    | "j < length (rt_watchers rt)" "\<not> (wt_fd ?w = d \<and> wt_events ?w AND e \<noteq> 0)"
    | "j < length (rt_watchers rt)" "wt_fd ?w = d \<and> wt_events ?w AND e \<noteq> 0" by blast
  then show ?case
  proof cases
    case 1
    with "1.prems" show ?thesis by (simp add: dispatch_from.simps [of _ _ _ j])
  next
    case 2
    moreover have "dispatch_from ev d e j rt = dispatch_from ev d e (j + 1) rt"
      using 2 by (subst dispatch_from.simps) (auto simp: Let_def)
    ultimately show ?thesis using "1.IH"(3) [OF 2(1) refl 2(2) "1.prems"] by simp
  next
    case 3
    have h: "(?t, wt_mode ?w = BB_WATCH_PERSISTENT) \<in># owned rt"
      using 3(1) by (force simp: owned_def watcher_holds_def)
    obtain rc k' s where s: "rt_schedule ev ?t rt = Some (rc, (rt_put_task ?t k' rt)\<lparr>rt_scheduler := s\<rparr>)"
      "rt_inv lk (if wt_mode ?w = BB_WATCH_PERSISTENT then {} else {?t}) C
         ((rt_put_task ?t k' rt)\<lparr>rt_scheduler := s\<rparr>)"
      "wt_mode ?w \<noteq> BB_WATCH_PERSISTENT \<Longrightarrow> \<not> has_flag (tk_state k') BB_TASK_PERSISTENT"
      "ev_node ev ?t \<Longrightarrow> ?t \<in> set (queue_of s)"
      by (rule rt_fire_step [OF "1.prems"(1) h, of ev]) blast
    let ?r1 = "(rt_put_task ?t k' rt)\<lparr>rt_scheduler := s\<rparr>"
    show ?thesis
    proof (cases "wt_mode ?w = BB_WATCH_ONESHOT")
      case False
      then have "wt_mode ?w = BB_WATCH_PERSISTENT" by (cases "wt_mode ?w") auto
      then have "rt_inv lk {} C ?r1" using s(2) by simp
      moreover have "dispatch_from ev d e j rt = dispatch_from ev d e (j + 1) ?r1"
        using 3 s(1) False by (subst dispatch_from.simps) (simp add: Let_def)
      ultimately show ?thesis
        using "1.IH"(2) [OF 3(1) refl 3(2) s(1) refl False _ "1.prems"(2)] by simp
    next
      case True
      let ?u = "unregister (wt_fd ?w) (wt_events ?w) ?r1"
      let ?r2 = "drop_watcher j ?u"
      have r1: "rt_inv lk {?t} C ?r1" using s(2) True by simp
      have "\<not> fl (rt_tasks ?u) ?t BB_TASK_PERSISTENT" using s(3) True by simp
      then have d: "rt_inv lk {} (insert ?t C) ?r2"
        using rt_drop_step [OF rt_inv_unregister [OF r1, of "wt_fd ?w" "wt_events ?w"], of j ?t] 3(1)
        by simp
      have "rt_inv lk {} C ?r2"
        using inv_release [OF rt_inv_task [OF d], of ?t C] d s(4) "1.prems"(2) by (auto simp: rt_inv_def)
      moreover have "dispatch_from ev d e j rt = dispatch_from ev d e j ?r2"
        using 3 s(1) True by (subst dispatch_from.simps) (simp add: Let_def)
      ultimately show ?thesis
        using "1.IH"(1) [OF 3(1) refl 3(2) s(1) refl True _ "1.prems"(2)] by simp
    qed
  qed
qed

lemma dispatch_all_step:
  assumes "rt_inv lk {} C rt" and "lk \<Longrightarrow> \<forall>u. ev_node ev u"
  shows "\<exists>rt'. dispatch_all ev evs rt = Some rt' \<and> rt_inv lk {} C rt' \<and>
               rt_timers rt' = rt_timers rt \<and> rt_running rt' = rt_running rt"
  using assms(1)
proof (induction evs arbitrary: rt)
  case (Cons x evs)
  obtain d e where x: "x = (d, e)" by fastforce
  obtain r1 where r1: "dispatch_from ev d e 0 rt = Some r1" "rt_inv lk {} C r1"
      "rt_timers r1 = rt_timers rt" "rt_running r1 = rt_running rt"
    using dispatch_from_step [OF Cons.prems assms(2)] by blast
  with Cons.IH [OF r1(2)] show ?case by (simp add: x)
qed simp

lemma rt_wait_step:
  assumes "rt_inv lk {} C rt" and "lk \<Longrightarrow> \<forall>u. ev_node ev u"
  shows "\<exists>rt'. rt_wait ev poll ms rt = Some rt' \<and> rt_inv lk {} C rt' \<and>
               rt_timers rt' = rt_timers rt \<and> rt_running rt' = rt_running rt"
  using assms dispatch_all_step [OF assms] by (auto simp: rt_wait_def split: option.split)

section \<open>Firing timers\<close>

text \<open>
  One turn of the loop over the due timers: the task of the root is queued and the root is
  re-armed in the future or removed. The loop ends because a turn takes one timer off the due
  ones; that needs a clock below its maximum, else a re-armed timer is due at once.
\<close>

lemma next_fire_later:
  fixes now ivl :: u64
  assumes "now < - 1"
  shows "now < (if now + ivl \<le> now then now + 1 else now + ivl)"
proof -
  have "1 + now \<noteq> 0" using assms by (metis add.commute add_eq_0_iff2 less_irrefl)
  then have "now < now + 1" by (simp add: word_less_nat_alt unatSuc add.commute)
  then show ?thesis by (simp add: not_le)
qed

lemma owned_timers:
  "timers_of (rt_timers rt) = add_mset x M \<Longrightarrow>
   owned rt = add_mset (timer_holds x) (mset (map watcher_holds (rt_watchers rt)) + image_mset timer_holds M)"
  by (simp add: owned_def)

lemma fire_root_step:
  assumes i: "rt_inv lk {} C rt" and p: "timer_peek (rt_timers rt) = Some x"
    and due: "next_fire_ms x \<le> ev_now ev" and now: "ev_now ev < - 1"
    and a: "lk \<Longrightarrow> \<forall>u. ev_node ev u"
  obtains rc r1 where "rt_schedule ev (timer_task x) rt = Some (rc, r1)"
    "rt_inv lk {} C (fire_root ev x r1)" "rt_running (fire_root ev x r1) = rt_running rt"
    "add_mset x (timer_q.due (ev_now ev) (rt_timers (fire_root ev x r1))) =
     timer_q.due (ev_now ev) (rt_timers rt)"
proof -
  let ?t = "timer_task x" and ?p = "repeating x \<noteq> 0"
  have h: "heap_inv (rt_timers rt)" using rt_inv_struct [OF i] by (simp add: struct_ok_def)
  define M where "M = timers_of (rt_timers rt) - {#x#}"
  have M: "timers_of (rt_timers rt) = add_mset x M"
    using timer_peek_min [OF h p] by (simp add: M_def)
  have o: "(?t, ?p) \<in># owned rt" using owned_timers [OF M] by (simp add: timer_holds_def)
  obtain rc k' s where s: "rt_schedule ev ?t rt = Some (rc, (rt_put_task ?t k' rt)\<lparr>rt_scheduler := s\<rparr>)"
      "rt_inv lk (if ?p then {} else {?t}) C ((rt_put_task ?t k' rt)\<lparr>rt_scheduler := s\<rparr>)"
      "\<not> ?p \<Longrightarrow> \<not> has_flag (tk_state k') BB_TASK_PERSISTENT"
      "ev_node ev ?t \<Longrightarrow> ?t \<in> set (queue_of s)" "?t \<in> dom (rt_tasks rt)"
    by (rule rt_fire_step [OF i o, of ev]) blast
  define r1 where "r1 = (rt_put_task ?t k' rt)\<lparr>rt_scheduler := s\<rparr>"
  have h1: "rt_timers r1 = rt_timers rt" by (simp add: r1_def)
  show thesis
  proof (cases ?p)
    case True
    define nxt where "nxt = (if ev_now ev + interval_ms x \<le> ev_now ev then ev_now ev + 1
                             else ev_now ev + interval_ms x)"
    define hp where "hp = timer_reschedule_top (rt_timers rt) nxt"
    have f: "fire_root ev x r1 = r1\<lparr>rt_timers := hp\<rparr>"
      using True h1 by (simp add: fire_root_def hp_def nxt_def Let_def)
    have hp: "heap_inv hp" "timers_of hp = add_mset (x\<lparr>next_fire_ms := nxt\<rparr>) M"
      using timer_reschedule_top_inv [OF h] timer_reschedule_top_contents [OF h p]
      by (simp_all add: hp_def M_def)
    have "owned (r1\<lparr>rt_timers := hp\<rparr>) = owned r1"
      using hp(2) M h1 by (simp add: owned_def timer_holds_def)
    then have "rt_inv lk {} C (fire_root ev x r1)"
      using s(2) True hp(1) unfolding f r1_def [symmetric] by (simp add: rt_inv_def struct_ok_def)
    moreover have "add_mset x (timer_q.due (ev_now ev) hp) = timer_q.due (ev_now ev) (rt_timers rt)"
      unfolding hp_def nxt_def
      by (rule timer_q.resched_due [OF h p due]) (rule next_fire_later [OF now])
    ultimately show thesis using that [of rc r1] s(1) by (simp add: r1_def f [unfolded r1_def])
  next
    case False
    define hp where "hp = timer_pop (rt_timers rt)"
    have f: "fire_root ev x r1 = r1\<lparr>rt_timers := hp\<rparr>"
      using False h1 by (simp add: fire_root_def hp_def)
    have hp: "heap_inv hp" "timers_of hp = M"
      using timer_pop_inv [OF h] timer_pop_contents [OF h p] by (simp_all add: hp_def M_def)
    define H where "H = mset (map watcher_holds (rt_watchers rt)) + image_mset timer_holds M"
    have o1: "owned r1 = add_mset (?t, False) H" "owned (r1\<lparr>rt_timers := hp\<rparr>) = H"
      using owned_timers [of r1 x M] M hp(2) h1 False
      by (simp_all add: r1_def H_def timer_holds_def owned_def)
    have ti: "task_inv lk {?t} C (queued r1) (add_mset (?t, False) H) (rt_tasks r1) (rt_next_tid r1) (rt_calls r1)"
      using rt_inv_task [OF s(2)] False o1(1) by (simp add: r1_def)
    have nH: "?t \<notin> fst ` set_mset H" using owned_once [OF ti] by force
    have td: "?t \<in> dom (rt_tasks r1)" by (simp add: r1_def)
    have np: "\<not> fl (rt_tasks r1) ?t BB_TASK_PERSISTENT" using s(3) False by (simp add: r1_def)
    have "task_inv lk (insert ?t {?t}) (insert ?t C) (queued r1) H (rt_tasks r1) (rt_next_tid r1) (rt_calls r1)"
      by (rule inv_unhold [OF ti sub_add_mset _ td]) auto
    from inv_settled [OF this nH np]
    have "task_inv lk {} (insert ?t C) (queued r1) H (rt_tasks r1) (rt_next_tid r1) (rt_calls r1)" by simp
    from inv_release [OF this, of ?t C]
    have "task_inv lk {} C (queued r1) H (rt_tasks r1) (rt_next_tid r1) (rt_calls r1)"
      using s(4) a by (auto simp: r1_def)
    then have "rt_inv lk {} C (fire_root ev x r1)"
      using rt_inv_struct [OF s(2)] hp(1) o1(2) unfolding f by (simp add: rt_inv_def struct_ok_def r1_def)
    moreover have "add_mset x (timer_q.due (ev_now ev) hp) = timer_q.due (ev_now ev) (rt_timers rt)"
      unfolding hp_def by (rule timer_q.pop_due [OF h p due])
    ultimately show thesis using that [of rc r1] s(1) by (simp add: r1_def f [unfolded r1_def])
  qed
qed

lemma update_timers_step:
  assumes "rt_inv lk {} C rt" and now: "ev_now ev < - 1" and a: "lk \<Longrightarrow> \<forall>u. ev_node ev u"
  shows "\<exists>rt'. update_timers ev rt = Some rt' \<and> rt_inv lk {} C rt' \<and>
               rt_running rt' = rt_running rt \<and> timer_q.due (ev_now ev) (rt_timers rt') = {#}"
  using assms(1)
proof (induction "size (timer_q.due (ev_now ev) (rt_timers rt))" arbitrary: rt rule: less_induct)
  case less
  have h: "heap_inv (rt_timers rt)" using rt_inv_struct [OF less.prems] by (simp add: struct_ok_def)
  show ?case
  proof (cases "timer_peek (rt_timers rt)")
    case None
    with less.prems timer_q.no_head_no_due [OF h None] show ?thesis
      by (subst update_timers.simps) simp
  next
    case (Some x)
    show ?thesis
    proof (cases "next_fire_ms x \<le> ev_now ev")
      case False
      with Some less.prems timer_q.not_due_head [OF h Some False] show ?thesis
        by (subst update_timers.simps) simp
    next
      case True
      obtain rc r1 where r: "rt_schedule ev (timer_task x) rt = Some (rc, r1)"
          "rt_inv lk {} C (fire_root ev x r1)" "rt_running (fire_root ev x r1) = rt_running rt"
          "add_mset x (timer_q.due (ev_now ev) (rt_timers (fire_root ev x r1))) =
           timer_q.due (ev_now ev) (rt_timers rt)"
        by (rule fire_root_step [OF less.prems Some True now a])
      have "size (timer_q.due (ev_now ev) (rt_timers (fire_root ev x r1))) <
            size (timer_q.due (ev_now ev) (rt_timers rt))"
        using arg_cong [OF r(4), of size] by simp
      from less.hyps [OF this r(2)] Some True r(1,3) show ?thesis
        by (subst update_timers.simps) simp
    qed
  qed
qed

section \<open>Running the queue\<close>

text \<open>
  What the loop needs of a run callback: started with the task it is called for held by the
  loop, it returns with the invariant and that task still held.
\<close>

definition callback_ok ::
  "bool \<Rightarrow> (tid \<Rightarrow> bb_runtime \<Rightarrow> bb_runtime option) \<Rightarrow> bool" where
  "callback_ok lk run \<longleftrightarrow>
     (\<forall>c rt. rt_inv lk {} {c} rt \<longrightarrow> (\<exists>rt'. run c rt = Some rt' \<and> rt_inv lk {} {c} rt'))"

lemma rt_inv_live: "rt_inv lk X C rt \<Longrightarrow> t \<in> C \<Longrightarrow> t \<in> dom (rt_tasks rt)"
  by (auto simp: rt_inv_def task_inv_def store_ok_def)

lemma rt_execute_step:
  assumes i: "rt_inv lk {} {t} rt" and cb: "callback_ok lk run"
    and k: "rt_tasks rt t = Some k" "\<not> has_flag (tk_state k) BB_TASK_SCHEDULED"
  shows "\<exists>rt'. rt_task_execute run t rt = Some rt' \<and> rt_inv lk {} {t} rt'"
proof -
  show ?thesis
  proof (cases "task_execute_enter k")
    case None
    with k i show ?thesis by (simp add: rt_task_execute_def)
  next
    case (Some k')
    then have k': "k' = k\<lparr>tk_state := set_flag (clear_flag (tk_state k) BB_TASK_SCHEDULED) BB_TASK_RUNNING\<rparr>"
      by (auto simp: task_execute_enter_def split: if_splits)
    have "rt_inv lk {} {t} (rt_put_task t k' rt)"
      by (rule rt_inv_put [OF i inv_same_flags [OF rt_inv_task [OF i] k(1)]])
         (simp_all add: k' k(2))
    then obtain r1 where r1: "run t (rt_put_task t k' rt) = Some r1" "rt_inv lk {} {t} r1"
      using cb unfolding callback_ok_def by blast
    obtain k1 where k1: "rt_tasks r1 t = Some k1" using rt_inv_live [OF r1(2)] by auto
    have "rt_inv lk {} {t} (rt_put_task t (task_execute_leave k1) r1)"
      by (rule rt_inv_put [OF r1(2) inv_same_flags [OF rt_inv_task [OF r1(2)] k1]])
         (simp_all add: task_execute_leave_def)
    with k(1) Some r1(1) k1 show ?thesis by (simp add: rt_task_execute_def)
  qed
qed

lemma run_task_step:
  assumes i: "rt_inv lk {} {} rt" and n: "sched_next (rt_scheduler rt) = Some (t, s)"
    and cb: "callback_ok lk run"
  shows "\<exists>rt'. run_task run t (rt\<lparr>rt_scheduler := s\<rparr>) = Some rt' \<and> rt_inv lk {} {} rt'"
proof -
  have s: "sched_inv s" "queued rt = t # queue_of s"
    using sched_next_some [OF _ n] rt_inv_struct [OF i] by (auto simp: struct_ok_def)
  note ti = rt_inv_task [OF i, unfolded s(2)]
  obtain k where k: "rt_tasks rt t = Some k" using queued_live [OF ti, of t] by auto
  define k1 where "k1 = k\<lparr>tk_state := clear_flag (tk_state k) BB_TASK_SCHEDULED\<rparr>"
  define r1 where "r1 = rt_put_task t k1 (rt\<lparr>rt_scheduler := s\<rparr>)"
  have t1: "rt_task_state (\<lambda>s. clear_flag s BB_TASK_SCHEDULED) t (rt\<lparr>rt_scheduler := s\<rparr>) = Some r1"
    using k by (simp add: rt_task_state_def r1_def k1_def)
  have i1: "rt_inv lk {} {t} r1"
    using inv_dequeue [OF ti k] s(1) rt_inv_struct [OF i]
    by (simp add: rt_inv_def struct_ok_def r1_def k1_def owned_def)
  define body where "body = (if \<not> has_flag (tk_state k1) BB_TASK_CANCELLED then rt_task_execute run t r1 else Some r1)"
  obtain r2 where r2: "body = Some r2" "rt_inv lk {} {t} r2"
  proof (cases "has_flag (tk_state k1) BB_TASK_CANCELLED")
    case True
    with that i1 show thesis by (simp add: body_def)
  next
    case False
    moreover have "\<exists>r2. rt_task_execute run t r1 = Some r2 \<and> rt_inv lk {} {t} r2"
      by (rule rt_execute_step [OF i1 cb, of k1]) (simp_all add: r1_def k1_def)
    ultimately show thesis using that by (auto simp: body_def)
  qed
  obtain k2 where k2: "rt_tasks r2 t = Some k2" using rt_inv_live [OF r2(2)] by auto
  have ti2: "task_inv lk {} {t} (queued r2) (owned r2) (rt_tasks r2) (rt_next_tid r2) (rt_calls r2)"
    by (rule rt_inv_task [OF r2(2)])
  have run: "run_task run t (rt\<lparr>rt_scheduler := s\<rparr>) =
      (if \<not> (has_flag (tk_state k2) BB_TASK_SCHEDULED \<or> has_flag (tk_state k2) BB_TASK_PERSISTENT)
       then rt_task_destroy t r2 else Some r2)"
  proof -
    have "rt_tasks r1 t = Some k1" by (simp add: r1_def)
    with r2(1) k2 show ?thesis
      unfolding run_task_def t1 body_def by (simp split del: if_split)
  qed
  show ?thesis
  proof (cases "has_flag (tk_state k2) BB_TASK_SCHEDULED \<or> has_flag (tk_state k2) BB_TASK_PERSISTENT")
    case True
    then have "t \<in> set (queued r2) \<or> t \<in> fst ` set_mset (owned r2)"
      using ti2 k2 by (auto simp: task_inv_def queue_ok_def owned_ok_def fl_def)
    then have "rt_inv lk {} {} r2"
      using inv_release [OF ti2, of t "{}"] r2(2) by (auto simp: rt_inv_def)
    with run True show ?thesis by simp
  next
    case False
    have "t \<notin> fst ` set_mset (owned r2)"
      using ti2 False k2 by (fastforce simp: task_inv_def owned_ok_def holder_ok_def fl_def)
    with rt_destroy_loose [OF r2(2) _ k2] False run show ?thesis by auto
  qed
qed

lemma run_queue_step:
  assumes "rt_inv lk {} {} rt" and "callback_ok lk run"
  shows "\<exists>e rt'. run_queue n run rt = Some (e, rt') \<and> rt_inv lk {} {} rt'"
  using assms(1)
proof (induction n arbitrary: rt)
  case (Suc n)
  show ?case
  proof (cases "rt_running rt")
    case True
    show ?thesis
    proof (cases "sched_next (rt_scheduler rt)")
      case None
      with True Suc.prems show ?thesis by auto
    next
      case (Some p)
      then obtain t s where p: "sched_next (rt_scheduler rt) = Some (t, s)" by (cases p) auto
      obtain r1 where "run_task run t (rt\<lparr>rt_scheduler := s\<rparr>) = Some r1" "rt_inv lk {} {} r1"
        using run_task_step [OF Suc.prems p assms(2)] by blast
      with Suc.IH [of r1] True p show ?thesis by simp
    qed
  qed (use Suc.prems in auto)
qed auto

definition env_ok :: "bool \<Rightarrow> env \<Rightarrow> bool" where
  "env_ok lk ev \<longleftrightarrow> ev_now ev < - 1 \<and> (lk \<longrightarrow> ev_no_node ev = [])"

lemma env_ok_dest: "env_ok lk ev \<Longrightarrow> ev_now ev < - 1" "env_ok lk ev \<Longrightarrow> lk \<Longrightarrow> \<forall>u. ev_node ev u"
  by (simp_all add: env_ok_def ev_node_all)

lemma rt_tick_step:
  assumes i: "rt_inv lk {} {} rt" and cb: "callback_ok lk run" and e: "env_ok lk ev"
  shows "\<exists>b rt'. rt_tick n ev poll run rt = Some (b, rt') \<and> rt_inv lk {} {} rt'"
proof -
  define ms where "ms = (if sched_is_empty (rt_scheduler rt) then next_timeout_ms (ev_before ev) rt else 0)"
  obtain r1 where r1: "rt_wait ev poll ms rt = Some r1" "rt_inv lk {} {} r1"
    using rt_wait_step [OF i env_ok_dest(2) [OF e], of poll ms] by blast
  obtain r2 where r2: "update_timers ev r1 = Some r2" "rt_inv lk {} {} r2"
    using update_timers_step [OF r1(2) env_ok_dest(1) [OF e] env_ok_dest(2) [OF e]] by blast
  obtain b r3 where r3: "run_queue n run r2 = Some (b, r3)" "rt_inv lk {} {} r3"
    using run_queue_step [OF r2(2) cb] by blast
  with r1 r2 show ?thesis by (simp add: rt_tick_def Let_def ms_def)
qed

lemma run_loop_step:
  assumes "rt_inv lk {} {} rt" and "callback_ok lk run" and "\<forall>(ev, poll)\<in>set evs. env_ok lk ev"
  shows "\<exists>rt'. run_loop n evs run rt = Some rt' \<and> rt_inv lk {} {} rt'"
  using assms(1,3)
proof (induction evs arbitrary: rt)
  case (Cons x evs)
  obtain ev poll where x: "x = (ev, poll)" by fastforce
  show ?case
  proof (cases "rt_running rt")
    case True
    obtain b r1 where "rt_tick n ev poll run rt = Some (b, r1)" "rt_inv lk {} {} r1"
      using rt_tick_step [OF Cons.prems(1) assms(2), of ev n poll] Cons.prems(2) x by auto
    with Cons.IH [of r1] Cons.prems(2) True x show ?thesis by auto
  qed (use Cons.prems x in simp)
qed simp

lemma rt_inv_running: "rt_inv lk X C rt \<Longrightarrow> rt_inv lk X C (rt\<lparr>rt_running := b\<rparr>)"
  by (simp add: rt_inv_def struct_ok_def owned_def)

section \<open>Sequences of calls\<close>

text \<open>
  A call is admissible when the task it cancels exists; with \<open>lk\<close> set, also when the queue nodes
  it needs can be allocated.
\<close>

fun call_ok :: "bool \<Rightarrow> api_call \<Rightarrow> bb_runtime \<Rightarrow> bool" where
  "call_ok lk (Cancel ev t) rt \<longleftrightarrow> rt_tasks rt t \<noteq> None \<and> (lk \<longrightarrow> ev_node ev t)"
| "call_ok lk (Watch ev d e m c) rt \<longleftrightarrow> (lk \<longrightarrow> ev_no_node ev = [])"
| "call_ok lk (Unwatch ev d) rt \<longleftrightarrow> (lk \<longrightarrow> ev_no_node ev = [])"
| "call_ok lk c rt \<longleftrightarrow> True"

fun calls_ok :: "bool \<Rightarrow> api_call list \<Rightarrow> bb_runtime \<Rightarrow> bool" where
  "calls_ok lk [] rt \<longleftrightarrow> True"
| "calls_ok lk (c # cs) rt \<longleftrightarrow>
     call_ok lk c rt \<and> (case exec_call c rt of None \<Rightarrow> True | Some rt' \<Rightarrow> calls_ok lk cs rt')"

lemma exec_call_step:
  assumes i: "rt_inv lk {} C rt" and c: "call_ok lk c rt"
  shows "\<exists>rt'. exec_call c rt = Some rt' \<and> api_ok lk C rt rt'"
proof (cases c)
  case (Schedule ev cfg)
  with rt_schedule_ex_step [OF i, of ev cfg] show ?thesis by auto
next
  case (Cancel ev t)
  with c have t: "t \<in> dom (rt_tasks rt)" "lk \<Longrightarrow> ev_node ev t" by auto
  obtain rt' where "rt_cancel_task ev t rt = Some (0, rt')" "rt_inv lk {} C rt'"
      "dom (rt_tasks rt') = dom (rt_tasks rt)"
    using rt_cancel_task_step [OF i t(1), of ev C] t(2) subset_insertI [of C t] by auto
  with Cancel show ?thesis by (simp add: api_ok_def)
next
  case (Watch ev d e m cfg)
  with c have "lk \<Longrightarrow> \<forall>u. ev_node ev u" by (simp add: ev_node_all)
  from rt_watch_fd_ex_step [OF i this, of d e m cfg] Watch show ?thesis by auto
next
  case (Unwatch ev d)
  with c have "lk \<Longrightarrow> \<forall>u. ev_node ev u" by (simp add: ev_node_all)
  from rt_unwatch_fd_step [OF i this, of d] Unwatch show ?thesis by auto
next
  case (SetInterval ev ms cfg)
  with rt_set_interval_ex_step [OF i, of ev ms cfg] show ?thesis by auto
next
  case (SetTimeout ev ms cfg)
  with rt_set_timeout_ex_step [OF i, of ev ms cfg] show ?thesis by auto
next
  case Stop
  with i show ?thesis by (simp add: rt_stop_def api_ok_def rt_inv_running)
qed

lemma exec_calls_step:
  "rt_inv lk {} C rt \<Longrightarrow> calls_ok lk cs rt \<Longrightarrow>
   \<exists>rt'. exec_calls cs rt = Some rt' \<and> rt_inv lk {} C rt'"
proof (induction cs arbitrary: rt)
  case (Cons c cs)
  obtain r1 where r1: "exec_call c rt = Some r1" "rt_inv lk {} C r1"
    using exec_call_step [OF Cons.prems(1), of c] Cons.prems(2) by (auto simp: api_ok_def)
  with Cons.IH [OF r1(2)] Cons.prems(2) show ?case by simp
qed simp

text \<open>A callback that makes any admissible sequence of calls, chosen from what it sees.\<close>

definition prog_ok :: "bool \<Rightarrow> callback \<Rightarrow> bool" where
  "prog_ok lk prog \<longleftrightarrow> (\<forall>c rt. rt_inv lk {} {c} rt \<longrightarrow> calls_ok lk (prog c rt) rt)"

lemma calls_callback_ok: "prog_ok lk prog \<Longrightarrow> callback_ok lk (callback_of prog)"
  unfolding callback_ok_def prog_ok_def callback_of_def using exec_calls_step by blast

text \<open>Steps in any order, each admissible where it is made.\<close>

fun step_ok :: "bool \<Rightarrow> rt_step \<Rightarrow> bb_runtime \<Rightarrow> bool" where
  "step_ok lk (Call c) rt \<longleftrightarrow> call_ok lk c rt"
| "step_ok lk Set_running rt \<longleftrightarrow> True"
| "step_ok lk (Tick n ev poll prog) rt \<longleftrightarrow> env_ok lk ev \<and> prog_ok lk prog"
| "step_ok lk (Run n evs prog) rt \<longleftrightarrow> list_all (env_ok lk) (map fst evs) \<and> prog_ok lk prog"

fun steps_ok :: "bool \<Rightarrow> rt_step list \<Rightarrow> bb_runtime \<Rightarrow> bool" where
  "steps_ok lk [] rt \<longleftrightarrow> True"
| "steps_ok lk (s # ss) rt \<longleftrightarrow>
     step_ok lk s rt \<and> (case exec_step s rt of None \<Rightarrow> True | Some rt' \<Rightarrow> steps_ok lk ss rt')"

lemma exec_step_inv:
  assumes i: "rt_inv lk {} {} rt" and s: "step_ok lk s rt"
  shows "\<exists>rt'. exec_step s rt = Some rt' \<and> rt_inv lk {} {} rt'"
proof (cases s)
  case (Call c)
  with exec_call_step [OF i, of c] s show ?thesis by (auto simp: api_ok_def)
next
  case Set_running
  with rt_inv_running [OF i] show ?thesis by (simp add: rt_set_running_def)
next
  case (Tick n ev poll prog)
  with rt_tick_step [OF i calls_callback_ok, of prog ev n poll] s show ?thesis by auto
next
  case (Run n evs prog)
  with s have e: "\<forall>(ev, poll)\<in>set evs. env_ok lk ev" and p: "prog_ok lk prog" by (auto simp: list_all_iff)
  from run_loop_step [OF rt_inv_running [OF i, of True] calls_callback_ok [OF p] e, of n] Run show ?thesis
    by (simp add: rt_run_def)
qed

lemma exec_steps_inv:
  "rt_inv lk {} {} rt \<Longrightarrow> steps_ok lk ss rt \<Longrightarrow> \<exists>rt'. exec_steps ss rt = Some rt' \<and> rt_inv lk {} {} rt'"
proof (induction ss arbitrary: rt)
  case (Cons s ss)
  obtain r1 where r1: "exec_step s rt = Some r1" "rt_inv lk {} {} r1"
    using exec_step_inv [OF Cons.prems(1), of s] Cons.prems(2) by auto
  with Cons.IH [OF r1(2)] Cons.prems(2) show ?case by simp
qed simp

lemma calls_then_steps_ok:
  "calls_ok lk cs rt \<Longrightarrow> (\<And>r. steps_ok lk ss r) \<Longrightarrow> steps_ok lk (map Call cs @ ss) rt"
  by (induction cs arbitrary: rt) (auto split: option.splits)

lemma rt_create_inv:
  assumes "bb_runtime_create a (bb_scheduler_create b) (bb_poller_create c d e) f
             (bb_timer_heap_create g h) = Some rt"
  shows "rt_inv lk {} {} rt \<and> rt_tasks rt = Map.empty \<and> rt_calls rt = []"
proof -
  obtain s p th where c: "bb_scheduler_create b = Some s" "bb_poller_create c d e = Some p"
      "bb_timer_heap_create g h = Some th"
      "rt = \<lparr>rt_running = False, rt_scheduler = s, rt_poller = p, rt_watchers = [],
             rt_watcher_capacity = BB_RUNTIME_WATCHERS_INITIAL_CAPACITY, rt_timers = th,
             rt_tasks = Map.empty, rt_next_tid = 0, rt_calls = []\<rparr>"
    using assms by (auto simp: bb_runtime_create_def split: if_splits option.splits)
  have "poller_inv p"
    using c(2) by (auto simp: bb_poller_create_def poller_inv_def BB_POLLER_INITIAL_CAPACITY_def split: if_splits)
  then show ?thesis
    using sched_create_inv [OF c(1)] heap_inv_create [OF c(3)] c(4)
    by (simp add: rt_inv_def struct_ok_def owned_def task_inv_def task_inv_parts fl_def
                  BB_RUNTIME_WATCHERS_INITIAL_CAPACITY_def)
qed

section \<open>Destruction\<close>

definition final_calls :: "tid \<Rightarrow> bb_task \<Rightarrow> (tid \<times> cleanup_call) set" where
  "final_calls t k = (case cfg_cleanup (tk_config k) of None \<Rightarrow> {}
                      | Some cb \<Rightarrow> {(t, cb, cfg_userdata (tk_config k), RES_COMPLETED)})"

text \<open>
  From \<open>rt\<close> to \<open>rt'\<close> tasks were only destroyed, and every one destroyed before its finalisation
  had its cleanup called.
\<close>

definition handled :: "bb_runtime \<Rightarrow> bb_runtime \<Rightarrow> bool" where
  "handled rt rt' \<longleftrightarrow> set (rt_calls rt) \<subseteq> set (rt_calls rt') \<and> dom (rt_tasks rt') \<subseteq> dom (rt_tasks rt) \<and>
     (\<forall>t k. rt_tasks rt t = Some k \<longrightarrow>
        (case rt_tasks rt' t of
           Some k' \<Rightarrow> tk_config k' = tk_config k \<and>
             (has_flag (tk_state k') BB_TASK_FINALIZED \<longleftrightarrow> has_flag (tk_state k) BB_TASK_FINALIZED)
         | None \<Rightarrow> has_flag (tk_state k) BB_TASK_FINALIZED \<or> final_calls t k \<subseteq> set (rt_calls rt')))"

lemma handled_refl [simp]: "handled rt rt"
  by (auto simp: handled_def split: option.split)

lemma handled_at:
  "handled rt rt' \<Longrightarrow> rt_tasks rt t = Some k \<Longrightarrow>
   (case rt_tasks rt' t of
      Some k' \<Rightarrow> tk_config k' = tk_config k \<and>
        (has_flag (tk_state k') BB_TASK_FINALIZED \<longleftrightarrow> has_flag (tk_state k) BB_TASK_FINALIZED)
    | None \<Rightarrow> has_flag (tk_state k) BB_TASK_FINALIZED \<or> final_calls t k \<subseteq> set (rt_calls rt'))"
  by (simp add: handled_def)

lemma handled_trans:
  assumes ab: "handled a b" and bc: "handled b c"
  shows "handled a c"
  unfolding handled_def
proof (intro conjI allI impI)
  show "set (rt_calls a) \<subseteq> set (rt_calls c)" "dom (rt_tasks c) \<subseteq> dom (rt_tasks a)"
    using ab bc unfolding handled_def by (meson subset_trans)+
next
  fix t k
  assume t: "rt_tasks a t = Some k"
  have sub: "set (rt_calls b) \<subseteq> set (rt_calls c)" using bc by (simp add: handled_def)
  show "case rt_tasks c t of
           Some k' \<Rightarrow> tk_config k' = tk_config k \<and>
             (has_flag (tk_state k') BB_TASK_FINALIZED \<longleftrightarrow> has_flag (tk_state k) BB_TASK_FINALIZED)
         | None \<Rightarrow> has_flag (tk_state k) BB_TASK_FINALIZED \<or> final_calls t k \<subseteq> set (rt_calls c)"
  proof (cases "rt_tasks b t")
    case None
    moreover from this have "rt_tasks c t = None" using bc by (auto simp: handled_def)
    ultimately show ?thesis using handled_at [OF ab t] sub None by auto
  next
    case (Some kb)
    have "tk_config kb = tk_config k \<and>
          (has_flag (tk_state kb) BB_TASK_FINALIZED \<longleftrightarrow> has_flag (tk_state k) BB_TASK_FINALIZED)"
      using handled_at [OF ab t] Some by simp
    moreover from this have "final_calls t kb = final_calls t k"
      by (simp add: final_calls_def split: option.split)
    ultimately show ?thesis using handled_at [OF bc Some] by (cases "rt_tasks c t") simp_all
  qed
qed

definition held_inv :: "bool \<Rightarrow> (tid \<times> bool) multiset \<Rightarrow> bb_runtime \<Rightarrow> bool" where
  "held_inv lk H rt \<longleftrightarrow> task_inv lk {} {} [] H (rt_tasks rt) (rt_next_tid rt) (rt_calls rt)"

lemma destroy_held_step:
  assumes i: "held_inv lk (add_mset (t, p) H) rt"
  shows "\<exists>rt'. rt_task_destroy t rt = Some rt' \<and> held_inv lk H rt' \<and> handled rt rt' \<and>
               rt_watchers rt' = rt_watchers rt \<and> rt_timers rt' = rt_timers rt"
proof -
  note ti = i [unfolded held_inv_def]
  have td: "t \<in> dom (rt_tasks rt)" by (rule owned_live [OF ti, of t p]) simp
  then obtain k where k: "rt_tasks rt t = Some k" by auto
  have nH: "t \<notin> fst ` set_mset H" using owned_once [OF ti] by force
  obtain k' calls where f: "task_finalize k RES_COMPLETED = (k', calls)" by fastforce
  have u: "task_inv lk (insert t {}) (insert t {}) [] H (rt_tasks rt) (rt_next_tid rt) (rt_calls rt)"
    by (rule inv_unhold [OF ti sub_add_mset _ td]) auto
  have "task_inv lk {t} ({t} - {t}) [] H ((rt_tasks rt)(t := None)) (rt_next_tid rt)
               (rt_calls rt @ map (Pair t) calls)"
    by (rule inv_destroy [OF u k f _ nH]) simp
  then have "task_inv lk ({t} - {t}) {} [] H ((rt_tasks rt)(t := None)) (rt_next_tid rt)
               (rt_calls rt @ map (Pair t) calls)"
    by (intro inv_settled [OF _ nH]) simp_all
  moreover have "has_flag (tk_state k) BB_TASK_FINALIZED \<or> final_calls t k \<subseteq> Pair t ` set calls"
    using f by (auto simp: task_finalize_def final_calls_def split: if_splits option.splits)
  ultimately show ?thesis
    using k f by (auto simp: rt_task_destroy_def held_inv_def handled_def rt_log_def split: option.splits)
qed

lemma destroy_tasks_step:
  "held_inv lk (mset hs) rt \<Longrightarrow>
   \<exists>rt'. destroy_tasks (map fst hs) rt = Some rt' \<and> held_inv lk {#} rt' \<and> handled rt rt'"
proof (induction hs arbitrary: rt)
  case (Cons h hs)
  obtain t p where h: "h = (t, p)" by fastforce
  obtain r1 where "rt_task_destroy t rt = Some r1" "held_inv lk (mset hs) r1" "handled rt r1"
    using destroy_held_step [of lk t p "mset hs" rt] Cons.prems h by auto
  with Cons.IH [of r1] h show ?case by (auto intro: handled_trans)
qed simp

lemma destroy_watchers_step:
  "held_inv lk (mset (map watcher_holds ws) + H) rt \<Longrightarrow>
   \<exists>rt'. destroy_watchers ws rt = Some rt' \<and> held_inv lk H rt' \<and> handled rt rt' \<and>
         rt_timers rt' = rt_timers rt"
proof (induction ws arbitrary: rt)
  case (Cons w ws)
  let ?u = "unregister (wt_fd w) (wt_events w) rt"
  have wh: "watcher_holds w = (wt_task w, wt_mode w = BB_WATCH_PERSISTENT)"
    by (simp add: watcher_holds_def)
  have "held_inv lk (add_mset (wt_task w, wt_mode w = BB_WATCH_PERSISTENT)
                       (mset (map watcher_holds ws) + H)) ?u"
    using Cons.prems by (simp add: held_inv_def wh)
  from destroy_held_step [OF this] obtain r1 where
    r1: "rt_task_destroy (wt_task w) ?u = Some r1" "held_inv lk (mset (map watcher_holds ws) + H) r1"
      "handled ?u r1" "rt_timers r1 = rt_timers rt"
    by auto
  have "handled rt r1" using r1(3) by (simp add: handled_def)
  with Cons.IH [OF r1(2)] r1 show ?case by (auto intro: handled_trans)
qed simp

text \<open>Which tasks are left: those that nothing held.\<close>

lemma destroy_dom: "rt_task_destroy t rt = Some rt' \<Longrightarrow> dom (rt_tasks rt') = dom (rt_tasks rt) - {t}"
  by (auto simp: rt_task_destroy_def Let_def rt_log_def split: bind_splits prod.splits if_splits)

lemma destroy_tasks_dom:
  "destroy_tasks ts rt = Some rt' \<Longrightarrow> dom (rt_tasks rt') = dom (rt_tasks rt) - set ts"
  by (induction ts arbitrary: rt) (auto simp: destroy_dom split: bind_splits)

lemma unregister_tasks [simp]: "rt_tasks (unregister d e rt) = rt_tasks rt"
  by (simp add: unregister_def)

lemma destroy_watchers_dom:
  "destroy_watchers ws rt = Some rt' \<Longrightarrow> dom (rt_tasks rt') = dom (rt_tasks rt) - wt_task ` set ws"
  by (induction ws arbitrary: rt) (auto simp: destroy_dom split: bind_splits)

lemma destroy_queue_step:
  assumes "rt_inv lk {} {} rt"
  shows "\<exists>rt'. destroy_queue rt = Some rt' \<and> rt_inv lk {} {} rt' \<and> queued rt' = [] \<and> handled rt rt' \<and>
           rt_watchers rt' = rt_watchers rt \<and> rt_timers rt' = rt_timers rt \<and>
           dom (rt_tasks rt') - fst ` set_mset (owned rt) =
             dom (rt_tasks rt) - set (queued rt) - fst ` set_mset (owned rt)"
  using assms
proof (induction "queued rt" arbitrary: rt)
  case Nil
  then have "sched_next (rt_scheduler rt) = None"
    using sched_next_none [of "rt_scheduler rt"] rt_inv_struct [OF Nil.prems] by (simp add: struct_ok_def)
  with Nil show ?case by (subst destroy_queue.simps) simp
next
  case (Cons t Q)
  obtain s where n: "sched_next (rt_scheduler rt) = Some (t, s)" "sched_inv s" "queue_of s = Q"
  proof -
    have si: "sched_inv (rt_scheduler rt)" using rt_inv_struct [OF Cons.prems] by (simp add: struct_ok_def)
    obtain u s where n: "sched_next (rt_scheduler rt) = Some (u, s)"
      using sched_next_none [OF si] Cons.hyps(2) by (cases "sched_next (rt_scheduler rt)") auto
    from that [of s] n sched_next_some [OF si n] Cons.hyps(2) show thesis by auto
  qed
  note ti = rt_inv_task [OF Cons.prems, unfolded Cons.hyps(2) [symmetric]]
  obtain k where k: "rt_tasks rt t = Some k" using queued_live [OF ti, of t] by auto
  define k1 where "k1 = k\<lparr>tk_state := clear_flag (tk_state k) BB_TASK_SCHEDULED\<rparr>"
  define r1 where "r1 = rt_put_task t k1 (rt\<lparr>rt_scheduler := s\<rparr>)"
  have t1: "rt_task_state (\<lambda>s. clear_flag s BB_TASK_SCHEDULED) t (rt\<lparr>rt_scheduler := s\<rparr>) = Some r1"
    using k by (simp add: rt_task_state_def r1_def k1_def)
  have k1: "rt_tasks r1 t = Some k1" "queued r1 = Q" by (simp_all add: r1_def n)
  have o1: "rt_watchers r1 = rt_watchers rt" "rt_timers r1 = rt_timers rt" "dom (rt_tasks r1) = dom (rt_tasks rt)"
    "owned r1 = owned rt"
    using k by (auto simp: r1_def owned_def)
  have h1: "handled rt r1"
    using k by (auto simp: handled_def r1_def k1_def split: option.split)
  have i1: "rt_inv lk {} {t} r1"
    using inv_dequeue [OF ti k] n rt_inv_struct [OF Cons.prems]
    by (simp add: rt_inv_def struct_ok_def r1_def k1_def owned_def)
  have d: "destroy_queue rt = (if has_flag (tk_state k1) BB_TASK_PERSISTENT then destroy_queue r1
                               else Option.bind (rt_task_destroy t r1) destroy_queue)"
    by (subst destroy_queue.simps) (simp add: n(1) t1 k1)
  show ?case
  proof (cases "has_flag (tk_state k1) BB_TASK_PERSISTENT")
    case True
    then have "t \<in> fst ` set_mset (owned r1)"
      using rt_inv_task [OF i1] k1 by (auto simp: task_inv_def owned_ok_def fl_def)
    then have "rt_inv lk {} {} r1"
      using inv_release [OF rt_inv_task [OF i1], of t "{}"] i1 by (auto simp: rt_inv_def)
    from Cons.hyps(1) [OF k1(2) [symmetric] this] obtain r2 where r2: "destroy_queue r1 = Some r2"
        "rt_inv lk {} {} r2" "queued r2 = []" "handled r1 r2" "rt_watchers r2 = rt_watchers rt"
        "rt_timers r2 = rt_timers rt" "dom (rt_tasks r2) - fst ` set_mset (owned rt) =
          dom (rt_tasks rt) - set Q - fst ` set_mset (owned rt)"
      unfolding o1 k1(2) by blast
    have "dom (rt_tasks r2) - fst ` set_mset (owned rt) =
        dom (rt_tasks rt) - set (t # Q) - fst ` set_mset (owned rt)"
      unfolding r2(7) using \<open>t \<in> fst ` set_mset (owned r1)\<close> o1(4) by auto
    with r2 d True handled_trans [OF h1] Cons.hyps(2) show ?thesis by auto
  next
    case False
    have no: "t \<notin> fst ` set_mset (owned r1)"
      using rt_inv_task [OF i1] False k1 by (fastforce simp: task_inv_def owned_ok_def holder_ok_def fl_def)
    have q: "t \<notin> set (queued r1)"
      using rt_inv_task [OF i1] k1(1) by (simp add: task_inv_def queue_ok_def fl_def k1_def)
    obtain calls where c:
      "rt_task_destroy t r1 = Some ((rt_log t calls r1)\<lparr>rt_tasks := (rt_tasks r1)(t := None)\<rparr>)"
      "rt_inv lk {} ({t} - {t}) ((rt_log t calls r1)\<lparr>rt_tasks := (rt_tasks r1)(t := None)\<rparr>)"
      "\<not> has_flag (tk_state k1) BB_TASK_FINALIZED \<Longrightarrow>
       calls = (case cfg_cleanup (tk_config k1) of None \<Rightarrow> []
                | Some cb \<Rightarrow> [(cb, cfg_userdata (tk_config k1), RES_COMPLETED)])"
      by (rule rt_destroy_step [OF i1 k1(1) q no]) blast
    let ?r2 = "(rt_log t calls r1)\<lparr>rt_tasks := (rt_tasks r1)(t := None)\<rparr>"
    have "handled r1 ?r2"
      using c(3) k1(1) by (auto simp: handled_def rt_log_def final_calls_def split: option.splits)
    then have "handled rt ?r2" by (rule handled_trans [OF h1])
    moreover have q2: "Q = queued ?r2" using k1(2) by (simp add: rt_log_def)
    have o2: "owned ?r2 = owned rt" "rt_watchers ?r2 = rt_watchers rt" "rt_timers ?r2 = rt_timers rt"
      "dom (rt_tasks ?r2) = dom (rt_tasks rt) - {t}"
      using o1 by (simp_all add: rt_log_def owned_def)
    from Cons.hyps(1) [OF q2] c(2) obtain r3 where r3: "destroy_queue ?r2 = Some r3"
        "rt_inv lk {} {} r3" "queued r3 = []" "handled ?r2 r3" "rt_watchers r3 = rt_watchers rt"
        "rt_timers r3 = rt_timers rt" "dom (rt_tasks r3) - fst ` set_mset (owned rt) =
          dom (rt_tasks rt) - {t} - set Q - fst ` set_mset (owned rt)"
      unfolding o2 q2 [symmetric] by (metis Diff_cancel)
    have "dom (rt_tasks r3) - fst ` set_mset (owned rt) =
        dom (rt_tasks rt) - set (t # Q) - fst ` set_mset (owned rt)"
      unfolding r3(7) by auto
    with r3 c(1) d False Cons.hyps(2) \<open>handled rt ?r2\<close> show ?thesis by (auto intro: handled_trans)
  qed
qed

lemma rt_destroy_all:
  assumes "rt_inv lk {} {} rt"
  shows "\<exists>rt'. rt_destroy rt = Some rt' \<and> held_inv lk {#} rt' \<and> handled rt rt' \<and>
           dom (rt_tasks rt') = dom (rt_tasks rt) - set (queued rt) - fst ` set_mset (owned rt)"
proof -
  obtain r1 where r1: "destroy_queue rt = Some r1" "rt_inv lk {} {} r1" "queued r1 = []" "handled rt r1"
    and o1: "rt_watchers r1 = rt_watchers rt" "rt_timers r1 = rt_timers rt"
      "dom (rt_tasks r1) - fst ` set_mset (owned rt) =
       dom (rt_tasks rt) - set (queued rt) - fst ` set_mset (owned rt)"
    using destroy_queue_step [OF assms] by blast
  let ?ts = "take (th_count (rt_timers r1)) (th_items (rt_timers r1))"
  have "held_inv lk (mset (map watcher_holds (rt_watchers r1)) + mset (map timer_holds ?ts)) r1"
    using rt_inv_task [OF r1(2)] r1(3) by (simp add: held_inv_def owned_def timers_of_def)
  from destroy_watchers_step [OF this] obtain r2 where
    r2: "destroy_watchers (rt_watchers r1) r1 = Some r2" "held_inv lk (mset (map timer_holds ?ts)) r2"
      "handled r1 r2" "rt_timers r2 = rt_timers r1" by blast
  let ?r2 = "r2\<lparr>rt_watchers := []\<rparr>"
  have "held_inv lk (mset (map timer_holds ?ts)) ?r2" using r2(2) by (simp add: held_inv_def)
  from destroy_tasks_step [OF this] obtain r3 where
    r3: "destroy_tasks (map timer_task ?ts) ?r2 = Some r3" "held_inv lk {#} r3" "handled ?r2 r3"
    by (auto simp: comp_def)
  have h3: "handled r2 r3" using r3(3) by (simp add: handled_def)
  have "dom (rt_tasks r3) = dom (rt_tasks r1) - wt_task ` set (rt_watchers rt) - timer_task ` set ?ts"
    using destroy_tasks_dom [OF r3(1)] destroy_watchers_dom [OF r2(1)] by (simp add: o1)
  also have "\<dots> = dom (rt_tasks r1) - fst ` set_mset (owned rt)"
    by (auto simp: fst_owned timers_of_def o1)
  finally have "dom (rt_tasks r3) = dom (rt_tasks rt) - set (queued rt) - fst ` set_mset (owned rt)"
    unfolding o1(3) .
  with h3 r1 r2 r3 show ?thesis
    by (auto simp: rt_destroy_def Let_def intro: handled_trans)
qed

end
