(* ===== verification/Runtime_Theorems.thy ===== *)
theory Runtime_Theorems
  imports Runtime_Safety
begin

text \<open>
  The properties of the event loop: what the timer heap, the run queue, the descriptor table and
  the loop over them guarantee, and two inputs on which they do not behave as their callers
  expect.
\<close>

section \<open>What one pass over the timers does\<close>

text \<open>The time at which a repeating timer that fired at \<open>now\<close> fires next.\<close>

definition next_due :: "u64 \<Rightarrow> bb_timer \<Rightarrow> u64" where
  "next_due now x = (if now + interval_ms x \<le> now then now + 1 else now + interval_ms x)"

text \<open>
  The specification: timers that are not due stay, due repeating timers are re-armed, due
  one-shot timers are gone.
\<close>

definition after_pass :: "u64 \<Rightarrow> bb_timer multiset \<Rightarrow> bb_timer multiset" where
  "after_pass now M =
     filter_mset (\<lambda>x. \<not> next_fire_ms x \<le> now) M +
     image_mset (\<lambda>x. x\<lparr>next_fire_ms := next_due now x\<rparr>)
       (filter_mset (\<lambda>x. next_fire_ms x \<le> now \<and> repeating x \<noteq> 0) M)"

lemma rt_schedule_fields:
  "rt_schedule ev t rt = Some (rc, rt') \<Longrightarrow> sched_inv (rt_scheduler rt) \<Longrightarrow>
   rt_timers rt' = rt_timers rt \<and> rt_watchers rt' = rt_watchers rt \<and> rt_poller rt' = rt_poller rt \<and>
   sched_inv (rt_scheduler rt') \<and> set (queued rt) \<subseteq> set (queued rt')"
  by (cases "rt_tasks rt t")
     (auto simp: rt_schedule_def sched_schedule_def run_q.enq_elems run_q.enq_inv split: if_splits)

lemma fire_root_fields [simp]:
  "rt_scheduler (fire_root ev x rt) = rt_scheduler rt"
  by (simp add: fire_root_def Let_def)

lemma fire_root_pass:
  assumes h: "heap_inv (rt_timers rt)" and p: "timer_peek (rt_timers rt) = Some x"
    and due: "next_fire_ms x \<le> ev_now ev" and now: "ev_now ev < - 1"
  shows "after_pass (ev_now ev) (timers_of (rt_timers (fire_root ev x rt))) =
         after_pass (ev_now ev) (timers_of (rt_timers rt))"
proof -
  define M where "M = timers_of (rt_timers rt) - {#x#}"
  have M: "timers_of (rt_timers rt) = add_mset x M"
    using timer_peek_min [OF h p] by (simp add: M_def)
  have later: "\<not> next_due (ev_now ev) x \<le> ev_now ev"
    using next_fire_later [OF now, of "interval_ms x"] by (simp add: next_due_def not_le)
  show ?thesis
  proof (cases "repeating x \<noteq> 0")
    case True
    then have "timers_of (rt_timers (fire_root ev x rt)) =
               add_mset (x\<lparr>next_fire_ms := next_due (ev_now ev) x\<rparr>) M"
      using timer_reschedule_top_contents [OF h p]
      by (simp add: fire_root_def Let_def next_due_def M_def)
    then show ?thesis
      using M True due later by (simp add: after_pass_def)
  next
    case False
    then have "timers_of (rt_timers (fire_root ev x rt)) = M"
      using timer_pop_contents [OF h p] by (simp add: fire_root_def M_def)
    then show ?thesis
      using M False due by (simp add: after_pass_def)
  qed
qed

lemma after_pass_none_due:
  "filter_mset (\<lambda>x. next_fire_ms x \<le> now) M = {#} \<Longrightarrow> after_pass now M = M"
proof -
  assume n: "filter_mset (\<lambda>x. next_fire_ms x \<le> now) M = {#}"
  then have "\<forall>x\<in>#M. \<not> next_fire_ms x \<le> now" by (simp add: filter_mset_eq_mempty_iff)
  then have "filter_mset (\<lambda>x. \<not> next_fire_ms x \<le> now) M = M"
    "filter_mset (\<lambda>x. next_fire_ms x \<le> now \<and> repeating x \<noteq> 0) M = {#}"
    by (auto simp: filter_mset_eq_mempty_iff filter_mset_eq_conv)
  then show ?thesis unfolding after_pass_def by simp
qed

lemma update_timers_pass:
  assumes "rt_inv lk {} C rt" and now: "ev_now ev < - 1" and a: "\<forall>u. ev_node ev u"
  shows "\<exists>rt'. update_timers ev rt = Some rt' \<and> rt_inv lk {} C rt' \<and>
               timers_of (rt_timers rt') = after_pass (ev_now ev) (timers_of (rt_timers rt)) \<and>
               set (queued rt) \<union> timer_task ` set_mset (timer_q.due (ev_now ev) (rt_timers rt))
                 \<subseteq> set (queued rt')"
  using assms(1)
proof (induction "size (timer_q.due (ev_now ev) (rt_timers rt))" arbitrary: rt rule: less_induct)
  case less
  have h: "heap_inv (rt_timers rt)" and si: "sched_inv (rt_scheduler rt)"
    using rt_inv_struct [OF less.prems] by (simp_all add: struct_ok_def)
  show ?case
  proof (cases "timer_q.due (ev_now ev) (rt_timers rt) = {#}")
    case True
    have "update_timers ev rt = Some rt"
    proof (cases "timer_peek (rt_timers rt)")
      case None
      then show ?thesis by (subst update_timers.simps) simp
    next
      case (Some x)
      then have "\<not> next_fire_ms x \<le> ev_now ev"
        using timer_peek_min [OF h Some] True
        by (auto simp: timer_q.due_def filter_mset_eq_mempty_iff)
      with Some show ?thesis by (subst update_timers.simps) simp
    qed
    then show ?thesis
      using less.prems True after_pass_none_due [of "ev_now ev" "timers_of (rt_timers rt)"]
      by (auto simp: timer_q.due_def filter_mset_eq_mempty_iff)
  next
    case False
    then obtain x where p: "timer_peek (rt_timers rt) = Some x"
      using timer_q.no_head_no_due [OF h] by (cases "timer_peek (rt_timers rt)") auto
    have due: "next_fire_ms x \<le> ev_now ev"
      using timer_q.not_due_head [OF h p, of "ev_now ev"] False by blast
    have a': "lk \<Longrightarrow> \<forall>u. ev_node ev u" using a by simp
    obtain rc r1 where r: "rt_schedule ev (timer_task x) rt = Some (rc, r1)"
        "rt_inv lk {} C (fire_root ev x r1)" "rt_running (fire_root ev x r1) = rt_running rt"
        "add_mset x (timer_q.due (ev_now ev) (rt_timers (fire_root ev x r1))) =
         timer_q.due (ev_now ev) (rt_timers rt)"
      by (rule fire_root_step [OF less.prems p due now a'])
    note f = rt_schedule_fields [OF r(1) si]
    have tq: "timer_task x \<in> set (queued r1)"
      using r(1) a si rt_inv_task [OF less.prems]
      by (cases "rt_tasks rt (timer_task x)")
         (auto simp: rt_schedule_def sched_schedule_def run_q.enq_elems task_inv_def
          queue_ok_def fl_def split: if_splits)
    have "size (timer_q.due (ev_now ev) (rt_timers (fire_root ev x r1))) <
          size (timer_q.due (ev_now ev) (rt_timers rt))"
      using arg_cong [OF r(4), of size] by simp
    from less.hyps [OF this r(2)] obtain r2 where
      r2: "update_timers ev (fire_root ev x r1) = Some r2" "rt_inv lk {} C r2"
        "timers_of (rt_timers r2) = after_pass (ev_now ev) (timers_of (rt_timers (fire_root ev x r1)))"
        "set (queued r1) \<union> timer_task ` set_mset (timer_q.due (ev_now ev) (rt_timers (fire_root ev x r1)))
           \<subseteq> set (queued r2)"
      by auto
    have "update_timers ev rt = Some r2"
      using p due r(1) r2(1) by (subst update_timers.simps) simp
    moreover have "timers_of (rt_timers r2) = after_pass (ev_now ev) (timers_of (rt_timers rt))"
      using fire_root_pass [of r1 x ev] f h p due now r2(3) by simp
    moreover have "set (queued rt) \<union> timer_task ` set_mset (timer_q.due (ev_now ev) (rt_timers rt))
                     \<subseteq> set (queued r2)"
      using f tq r2(4) unfolding r(4) [symmetric] by auto
    ultimately show ?thesis using r2(2) by blast
  qed
qed

section \<open>How long the loop may sleep\<close>

lemma next_timeout_bounds:
  assumes h: "heap_inv (rt_timers rt)"
  shows "0 \<le> next_timeout_ms now rt \<and> next_timeout_ms now rt \<le> 1000 \<and>
         (\<forall>x\<in>#timers_of (rt_timers rt).
            next_timeout_ms now rt = 0 \<or> uint now + next_timeout_ms now rt \<le> uint (next_fire_ms x))"
proof (cases "timer_peek (rt_timers rt)")
  case None
  with h timer_peek_none [OF h] show ?thesis
    by (simp add: next_timeout_ms_def BB_RUNTIME_IDLE_TIMEOUT_MS_def)
next
  case (Some r)
  note min = timer_peek_min [OF h Some]
  show ?thesis
  proof (cases "next_fire_ms r \<le> now")
    case True
    with Some show ?thesis by (simp add: next_timeout_ms_def)
  next
    case False
    define d where "d = next_fire_ms r - now"
    have d: "uint d = uint (next_fire_ms r) - uint now"
      using False by (simp add: d_def uint_sub_if' word_le_def)
    have ms: "next_timeout_ms now rt = min (uint d) 1000"
      using Some False
      by (auto simp: next_timeout_ms_def BB_RUNTIME_IDLE_TIMEOUT_MS_def Let_def d_def [symmetric]
          word_less_def not_less min_def)
    have "uint now + min (uint d) 1000 \<le> uint (next_fire_ms x)" if "x \<in># timers_of (rt_timers rt)" for x
      using that min d by (auto simp: word_le_def)
    moreover have "0 \<le> uint d" by simp
    ultimately show ?thesis by (simp add: ms)
  qed
qed

section \<open>The descriptor table covers the watchers\<close>

text \<open>Every watcher's events are among those its descriptor is registered for.\<close>

definition mask_of :: "bb_poller \<Rightarrow> fd \<Rightarrow> u32" where
  "mask_of p d = (case interest p d of None \<Rightarrow> 0 | Some m \<Rightarrow> m)"

definition covered :: "bb_runtime \<Rightarrow> bool" where
  "covered rt \<longleftrightarrow>
     (\<forall>w\<in>set (rt_watchers rt). wt_events w AND NOT (mask_of (rt_poller rt) (wt_fd w)) = 0)"

lemma mask_register:
  "poller_inv p \<Longrightarrow> poller_register ro bo p d e = (rc, p') \<Longrightarrow>
   mask_of p' d' = (if d' = d \<and> rc = 0 then mask_of p d OR e else mask_of p d')"
  using poller_register_inv [of p ro bo d e rc p'] by (auto simp: mask_of_def split: option.splits)

lemma mask_unregister:
  "poller_inv p \<Longrightarrow> poller_unregister p d e = (rc, p') \<Longrightarrow>
   mask_of p' d' = (if d' = d then mask_of p d AND NOT e else mask_of p d')"
  using poller_unregister_inv [of p d e rc p'] by (auto simp: mask_of_def split: option.splits)

lemma mask_sub_iff: "(e::u32) AND NOT m = 0 \<longleftrightarrow> (\<forall>n. bit e n \<longrightarrow> bit m n)"
proof
  assume z: "e AND NOT m = 0"
  show "\<forall>n. bit e n \<longrightarrow> bit m n"
  proof (intro allI impI)
    fix n assume e: "bit e n"
    have "\<not> bit (e AND NOT m) n" by (simp add: z)
    with e bit_imp_le_length [OF e] show "bit m n" by (simp add: bit_simps)
  qed
next
  assume "\<forall>n. bit e n \<longrightarrow> bit m n"
  then show "e AND NOT m = 0" by (auto intro!: bit_eqI simp: bit_simps)
qed

lemma disjoint_bit: "(a::u32) AND b = 0 \<Longrightarrow> bit a n \<Longrightarrow> \<not> bit b n"
proof
  assume z: "a AND b = 0" and ab: "bit a n" "bit b n"
  have "bit (a AND b) n" unfolding bit_and_iff using ab by simp
  then show False by (simp add: z)
qed

lemma mask_foldl: "bit (foldl (\<lambda>m w. if wt_fd w = d then m OR wt_events w else m) a ws) n \<longleftrightarrow>
   bit (a::u32) n \<or> (\<exists>w\<in>set ws. wt_fd w = d \<and> bit (wt_events w) n)"
  by (induction ws arbitrary: a) (auto simp: bit_simps)

lemma registered_mask_bit:
  "bit (fd_registered_mask ws d) n \<longleftrightarrow> (\<exists>w\<in>set ws. wt_fd w = d \<and> bit (wt_events w) n)"
  by (simp add: fd_registered_mask_def mask_foldl)

lemma covered_cong:
  "rt_watchers rt' = rt_watchers rt \<Longrightarrow> rt_poller rt' = rt_poller rt \<Longrightarrow> covered rt' = covered rt"
  by (simp add: covered_def)

lemma covered_iff:
  "covered rt \<longleftrightarrow> (\<forall>w\<in>set (rt_watchers rt). \<forall>n. bit (wt_events w) n \<longrightarrow>
                     bit (mask_of (rt_poller rt) (wt_fd w)) n)"
  by (simp add: covered_def mask_sub_iff)

text \<open>Watchers of one descriptor that wait for different events.\<close>

definition apart :: "bb_watcher \<Rightarrow> bb_watcher \<Rightarrow> bool" where
  "apart v w \<longleftrightarrow> wt_fd v = wt_fd w \<longrightarrow> wt_events v AND wt_events w = 0"

lemma nth_arr_remove_swap:
  "i < length xs - 1 \<Longrightarrow> arr_remove_swap xs j ! i = (if i = j then last xs else xs ! i)"
  by (simp add: arr_remove_swap_def nth_butlast nth_list_update)

lemma apart_remove:
  assumes d: "sorted_wrt apart ws" and j: "j < length ws"
  shows "sorted_wrt apart (arr_remove_swap ws j)"
    and "w \<in> set (arr_remove_swap ws j) \<Longrightarrow> apart w (ws ! j)"
proof -
  have sym: "apart v w \<Longrightarrow> apart w v" for v w by (auto simp: apart_def and.commute)
  have pair: "apart (ws ! a) (ws ! b)" if "a < length ws" "b < length ws" "a \<noteq> b" for a b
    using d that sym [of "ws ! b" "ws ! a"] by (cases "a < b") (auto simp: sorted_wrt_iff_nth_less)
  have ne: "ws \<noteq> []" using j by auto
  define src where "src i = (if i = j then length ws - 1 else i)" for i
  have at: "arr_remove_swap ws j ! i = ws ! src i" if "i < length ws - 1" for i
    using that by (simp add: nth_arr_remove_swap last_conv_nth [OF ne] src_def)
  have src: "src i < length ws" "src i \<noteq> j" if "i < length ws - 1" for i
    using that by (auto simp: src_def)
  show "sorted_wrt apart (arr_remove_swap ws j)"
    unfolding sorted_wrt_iff_nth_less
  proof (intro allI impI)
    fix a b
    assume "a < b" "b < length (arr_remove_swap ws j)"
    then show "apart (arr_remove_swap ws j ! a) (arr_remove_swap ws j ! b)"
      by (simp add: at) (rule pair, auto simp: src_def)
  qed
  show "apart w (ws ! j)" if "w \<in> set (arr_remove_swap ws j)"
    using that src pair [OF _ j] by (auto simp: in_set_conv_nth at)
qed

lemma covered_drop:
  assumes c: "covered rt" and p: "poller_inv (rt_poller rt)"
    and d: "sorted_wrt apart (rt_watchers rt)" and j: "j < length (rt_watchers rt)"
    and w: "w = rt_watchers rt ! j"
  shows "covered (drop_watcher j (unregister (wt_fd w) (wt_events w) rt))"
  unfolding covered_iff
proof (intro ballI allI impI)
  let ?rt = "drop_watcher j (unregister (wt_fd w) (wt_events w) rt)"
  fix v n
  assume v: "v \<in> set (rt_watchers ?rt)" and b: "bit (wt_events v) n"
  then have v0: "v \<in> set (rt_watchers rt)" and a: "apart v w"
    using set_arr_remove_swap_sub [OF j] apart_remove(2) [OF d j] by (auto simp: w)
  obtain rc q where u: "poller_unregister (rt_poller rt) (wt_fd w) (wt_events w) = (rc, q)" by fastforce
  have "rt_poller ?rt = q" by (simp add: unregister_def u)
  moreover have "bit (mask_of (rt_poller rt) (wt_fd v)) n"
    using c v0 b by (auto simp: covered_iff)
  moreover have "wt_fd v = wt_fd w \<Longrightarrow> \<not> bit (wt_events w) n"
    using a disjoint_bit [OF _ b] by (simp add: apart_def)
  ultimately show "bit (mask_of (rt_poller ?rt) (wt_fd v)) n"
    using mask_unregister [OF p u] bit_imp_le_length [OF b]
    by (cases "wt_fd v = wt_fd w") (simp_all add: bit_simps)
qed

lemma dispatch_covered:
  "dispatch_from ev d e j rt = Some rt' \<Longrightarrow> covered rt \<Longrightarrow> poller_inv (rt_poller rt) \<Longrightarrow>
   sched_inv (rt_scheduler rt) \<Longrightarrow> sorted_wrt apart (rt_watchers rt) \<Longrightarrow>
   covered rt' \<and> sorted_wrt apart (rt_watchers rt')"
proof (induction ev d e j rt rule: dispatch_from.induct)
  case (1 ev d e j rt)
  let ?w = "rt_watchers rt ! j"
  consider "\<not> j < length (rt_watchers rt)"
    | "j < length (rt_watchers rt)" "\<not> (wt_fd ?w = d \<and> wt_events ?w AND e \<noteq> 0)"
    | "j < length (rt_watchers rt)" "wt_fd ?w = d \<and> wt_events ?w AND e \<noteq> 0" by blast
  then show ?case
  proof cases
    case 1
    with "1.prems" show ?thesis by (simp add: dispatch_from.simps [of _ _ _ j])
  next
    case 2
    have "dispatch_from ev d e j rt = dispatch_from ev d e (j + 1) rt"
      using 2 by (subst dispatch_from.simps) (auto simp: Let_def)
    then show ?thesis using "1.IH"(3) [OF 2(1) refl 2(2)] "1.prems" by simp
  next
    case 3
    obtain rc r1 where s: "rt_schedule ev (wt_task ?w) rt = Some (rc, r1)"
      using "1.prems"(1) 3 by (subst (asm) dispatch_from.simps) (auto simp: Let_def split: option.splits)
    note f = rt_schedule_fields [OF s "1.prems"(4)]
    have r1: "covered r1" "poller_inv (rt_poller r1)" "sched_inv (rt_scheduler r1)"
        "sorted_wrt apart (rt_watchers r1)"
      using f "1.prems" covered_cong [of r1 rt] by auto
    show ?thesis
    proof (cases "wt_mode ?w = BB_WATCH_ONESHOT")
      case False
      have "dispatch_from ev d e j rt = dispatch_from ev d e (j + 1) r1"
        using 3 s False by (subst dispatch_from.simps) (simp add: Let_def)
      then show ?thesis using "1.IH"(2) [OF 3(1) refl 3(2) s refl False] "1.prems"(1) r1 by simp
    next
      case True
      let ?r2 = "drop_watcher j (unregister (wt_fd ?w) (wt_events ?w) r1)"
      have j: "j < length (rt_watchers r1)" "?w = rt_watchers r1 ! j" using f 3(1) by auto
      have "covered ?r2" by (rule covered_drop [OF r1(1,2,4) j])
      moreover have "sorted_wrt apart (rt_watchers ?r2)" using apart_remove(1) [OF r1(4) j(1)] by simp
      moreover have "dispatch_from ev d e j rt = dispatch_from ev d e j ?r2"
        using 3 s True by (subst dispatch_from.simps) (simp add: Let_def)
      ultimately show ?thesis
        using "1.IH"(1) [OF 3(1) refl 3(2) s refl True] "1.prems"(1) r1 by (simp add: unregister_poller)
    qed
  qed
qed

definition w_env :: "u64 \<Rightarrow> env" where
  "w_env now = \<lparr>ev_alloc = True, ev_no_node = [], ev_grow = True, ev_poll_grow = True,
                ev_backend = (\<lambda>_. True), ev_before = now, ev_now = now\<rparr>"

definition w_cfg :: "nat \<Rightarrow> bb_task_config option" where
  "w_cfg n = Some \<lparr>cfg_run = Some n, cfg_userdata = 0, cfg_cleanup = Some 0\<rparr>"

definition w_new :: "bb_runtime option" where
  "w_new = bb_runtime_create True (bb_scheduler_create True) (bb_poller_create True True True) True
             (bb_timer_heap_create True True)"

definition two_watchers :: "api_call list" where
  "two_watchers =
     [Watch (w_env 0) 3 BB_EVENT_READ BB_WATCH_ONESHOT (w_cfg 1),
      Watch (w_env 0) 3 (BB_EVENT_READ OR BB_EVENT_WRITE) BB_WATCH_PERSISTENT (w_cfg 2)]"

definition after_read :: "bb_runtime option" where
  "after_read = Option.bind w_new (\<lambda>rt. Option.bind (exec_calls two_watchers rt)
                  (dispatch_all (w_env 0) [(3, BB_EVENT_READ)]))"

lemma dispatch_all_covered:
  assumes "dispatch_all ev evs rt = Some rt'" and "rt_inv lk {} C rt" and "lk \<Longrightarrow> \<forall>u. ev_node ev u"
    and "covered rt" and "sorted_wrt apart (rt_watchers rt)"
  shows "covered rt' \<and> sorted_wrt apart (rt_watchers rt')"
  using assms
proof (induction evs arbitrary: rt)
  case (Cons x evs)
  obtain d e where x: "x = (d, e)" by fastforce
  obtain r1 where r1: "dispatch_from ev d e 0 rt = Some r1" "rt_inv lk {} C r1"
    using dispatch_from_step [OF Cons.prems(2,3)] by blast
  have "covered r1 \<and> sorted_wrt apart (rt_watchers r1)"
    using dispatch_covered [OF r1(1)] Cons.prems(4,5) rt_inv_struct [OF Cons.prems(2)]
    by (simp add: struct_ok_def)
  with Cons.IH [OF _ r1(2) Cons.prems(3)] Cons.prems(1) r1(1) show ?case by (simp add: x)
qed simp

section \<open>Properties\<close>

text \<open>C1: Memory safety of the event loop over its whole life, for programs whose cleanup callbacks do not
  call the runtime back. A runtime is created, and there follow, in any order and number, calls
  from outside the loop, ticks and runs of the loop, with any ready descriptors, any clock values
  below the maximum, any allocation failures, and run callbacks that make any calls in turn;
  every call is admissible, which is to say that a task that is cancelled exists. Then the runtime
  is destroyed: no step reads or writes a freed task, every cleanup callback is called at most
  once and, if the queue nodes could be allocated, no task is left.\<close>

theorem loop_never_uses_a_freed_task:
  assumes "bb_runtime_create a (bb_scheduler_create b) (bb_poller_create c d e) f
             (bb_timer_heap_create g h) = Some rt0"
    and "steps_ok lk steps rt0"
  shows "\<exists>rt1 rt2. exec_steps steps rt0 = Some rt1 \<and> rt_destroy rt1 = Some rt2 \<and>
           distinct (map fst (rt_calls rt2)) \<and> (lk \<longrightarrow> rt_tasks rt2 = Map.empty)"
proof -
  obtain rt1 where rt1: "exec_steps steps rt0 = Some rt1" "rt_inv lk {} {} rt1"
    using exec_steps_inv [OF rt_create_inv [OF assms(1), THEN conjunct1] assms(2)] by blast
  obtain rt2 where "rt_destroy rt1 = Some rt2" "held_inv lk {#} rt2"
    using rt_destroy_all [OF rt1(2)] by blast
  with rt1 show ?thesis
    by (auto simp: held_inv_def task_inv_def store_ok_def leak_ok_def)
qed

definition w_setup :: "api_call list" where
  "w_setup = [SetInterval (w_env 0) 5 (w_cfg 1), Schedule (w_env 0) (w_cfg 2),
              Watch (w_env 0) 3 BB_EVENT_READ BB_WATCH_PERSISTENT (w_cfg 3), Cancel (w_env 0) 1]"

definition w_ticks :: "(env \<times> (int \<Rightarrow> (fd \<times> u32) list option)) list" where
  "w_ticks = [(w_env 3, \<lambda>_. Some [(3, BB_EVENT_READ)]), (w_env 9, \<lambda>_. None)]"

definition w_prog :: callback where
  "w_prog c rt = [SetTimeout (w_env 3) 4 (w_cfg 7), Cancel (w_env 3) c]"

definition w_steps :: "rt_step list" where
  "w_steps = map Call w_setup @
     [Set_running, Tick 2 (w_env 3) (\<lambda>_. Some [(3, BB_EVENT_READ)]) w_prog,
      Call (Schedule (w_env 4) (w_cfg 5)), Run 8 w_ticks w_prog, Call (Unwatch (w_env 9) 3), Call Stop]"

lemma w_new_some: "w_new = Some (the w_new)"
  by (simp add: w_new_def bb_runtime_create_def bb_scheduler_create_def bb_poller_create_def
      bb_timer_heap_create_def)

lemma w_setup_ok: "calls_ok True w_setup (the w_new)"
  by code_simp

lemma w_prog_ok: "prog_ok True w_prog"
  unfolding prog_ok_def
proof (intro allI impI)
  fix c rt assume i: "rt_inv True {} {c} rt"
  obtain r1 where r1: "exec_call (SetTimeout (w_env 3) 4 (w_cfg 7)) rt = Some r1" "rt_inv True {} {c} r1"
    using exec_call_step [OF i, of "SetTimeout (w_env 3) 4 (w_cfg 7)"] by (auto simp: api_ok_def)
  then have "rt_tasks r1 c \<noteq> None" using rt_inv_live [OF r1(2)] by auto
  then have "calls_ok True [Cancel (w_env 3) c] r1"
    by (simp add: ev_node_def w_env_def split: option.split del: exec_call.simps)
  then show "calls_ok True (w_prog c rt) rt"
    by (simp add: w_prog_def r1(1) del: exec_call.simps)
qed

lemma w_steps_ok: "steps_ok True w_steps (the w_new)"
  unfolding w_steps_def
  by (rule calls_then_steps_ok [OF w_setup_ok])
     (simp add: w_prog_ok w_ticks_def env_ok_def w_env_def split: option.split)

theorem loop_never_uses_a_freed_task_witness:
  "\<exists>rt1 rt2. exec_steps w_steps (the w_new) = Some rt1 \<and> rt_destroy rt1 = Some rt2 \<and>
     distinct (map fst (rt_calls rt2)) \<and> rt_tasks rt2 = Map.empty"
  using loop_never_uses_a_freed_task
    [OF w_new_some [unfolded w_new_def [of]] w_steps_ok [unfolded w_new_def]]
  by (simp add: w_new_def)

text \<open>The tasks a runtime holds.\<close>

definition held_tasks :: "bb_runtime \<Rightarrow> tid set" where
  "held_tasks rt = set (queued rt) \<union> wt_task ` set (rt_watchers rt) \<union>
     timer_task ` set_mset (timers_of (rt_timers rt))"

text \<open>C26: Destroying a runtime frees exactly the tasks that are queued or held by a watcher or a timer,
  and calls the cleanup callback, with the result \<open>COMPLETED\<close>, of each of them that was not
  finalised before; no cleanup callback is called twice. When no task was lost before, none is
  left. A task is lost when its one-shot timer or watcher fired but its queue node could not be
  allocated: nothing holds it then, and it is neither freed nor cleaned up.\<close>

theorem destroy_cleans_up_held_tasks:
  assumes "rt_inv lk {} {} rt"
  shows "\<exists>rt'. rt_destroy rt = Some rt' \<and> dom (rt_tasks rt') = dom (rt_tasks rt) - held_tasks rt \<and>
           distinct (map fst (rt_calls rt')) \<and> set (rt_calls rt) \<subseteq> set (rt_calls rt') \<and>
           (\<forall>t k cb. t \<in> held_tasks rt \<and> rt_tasks rt t = Some k \<and> \<not> has_flag (tk_state k) BB_TASK_FINALIZED \<and>
              cfg_cleanup (tk_config k) = Some cb \<longrightarrow>
              (t, cb, cfg_userdata (tk_config k), RES_COMPLETED) \<in> set (rt_calls rt')) \<and>
           (lk \<longrightarrow> rt_tasks rt' = Map.empty)"
proof -
  obtain rt' where r: "rt_destroy rt = Some rt'" "held_inv lk {#} rt'" "handled rt rt'"
    and d: "dom (rt_tasks rt') = dom (rt_tasks rt) - held_tasks rt"
    using rt_destroy_all [OF assms] unfolding held_tasks_def fst_owned Un_assoc Diff_eq Compl_Un Int_assoc by blast
  have "(t, cb, cfg_userdata (tk_config k), RES_COMPLETED) \<in> set (rt_calls rt')"
    if "t \<in> held_tasks rt" "rt_tasks rt t = Some k" "\<not> has_flag (tk_state k) BB_TASK_FINALIZED"
      "cfg_cleanup (tk_config k) = Some cb" for t k cb
  proof -
    have "rt_tasks rt' t = None" using d that(1) by auto
    then show ?thesis using handled_at [OF r(3) that(2)] that(3,4) by (simp add: final_calls_def)
  qed
  moreover have "lk \<longrightarrow> rt_tasks rt' = Map.empty"
    using r(2) by (auto simp: held_inv_def task_inv_def leak_ok_def)
  moreover have "distinct (map fst (rt_calls rt'))" "set (rt_calls rt) \<subseteq> set (rt_calls rt')"
    using r(2,3) by (simp_all add: held_inv_def task_inv_def store_ok_def handled_def)
  ultimately show ?thesis using r(1) d by blast
qed

text \<open>
  How a task is lost: the timer of a one-shot task fires while its queue node cannot be
  allocated. \<open>_bb_runtime_update_timers\<close> pops the timer all the same, and after the destruction
  the task is still allocated and its cleanup callback was never called.
\<close>

definition w_lost :: "rt_step list" where
  "w_lost = [Call (SetTimeout (w_env 0) 5 (w_cfg 1)), Set_running,
             Tick 1 ((w_env 9)\<lparr>ev_no_node := [0]\<rparr>) (\<lambda>_. None) (\<lambda>_ _. [])]"

declare update_timers.simps [code] destroy_queue.simps [code]

theorem fired_timer_without_a_node_loses_its_task:
  "map_option (\<lambda>rt. (rt_tasks rt 0 \<noteq> None, rt_calls rt))
     (Option.bind (exec_steps w_lost (the w_new)) rt_destroy) = Some (True, [])"
  by code_simp

lemma w_setup_inv: "\<exists>rt. exec_calls w_setup (the w_new) = Some rt \<and> rt_inv True {} {} rt"
  using exec_calls_step [OF rt_create_inv [OF w_new_some [unfolded w_new_def [of]], THEN conjunct1]]
    w_setup_ok by (simp add: w_new_def)

theorem destroy_cleans_up_held_tasks_witness:
  "\<exists>rt rt'. exec_calls w_setup (the w_new) = Some rt \<and> rt_destroy rt = Some rt' \<and> rt_tasks rt' = Map.empty"
  using w_setup_inv destroy_cleans_up_held_tasks by blast

text \<open>C20: One pass over the timers ends, whatever the intervals; afterwards the heap holds exactly
  the timers that were not due and the due repeating ones, each re-armed strictly after the
  clock reading, and the task of every timer that was due is in the run queue.\<close>

theorem update_timers_fires_exactly_the_due:
  assumes "rt_inv lk {} C rt" and "ev_now ev < - 1" and "ev_no_node ev = []"
  shows "\<exists>rt'. update_timers ev rt = Some rt' \<and> rt_inv lk {} C rt' \<and>
           timers_of (rt_timers rt') =
             filter_mset (\<lambda>x. \<not> next_fire_ms x \<le> ev_now ev) (timers_of (rt_timers rt)) +
             image_mset (\<lambda>x. x\<lparr>next_fire_ms := next_due (ev_now ev) x\<rparr>)
               (filter_mset (\<lambda>x. next_fire_ms x \<le> ev_now ev \<and> repeating x \<noteq> 0) (timers_of (rt_timers rt))) \<and>
           (\<forall>x\<in>#timers_of (rt_timers rt).
              (next_fire_ms x \<le> ev_now ev \<longrightarrow> timer_task x \<in> set (queued rt')) \<and>
              ev_now ev < next_due (ev_now ev) x)"
proof -
  obtain rt' where r: "update_timers ev rt = Some rt'" "rt_inv lk {} C rt'"
      "timers_of (rt_timers rt') = after_pass (ev_now ev) (timers_of (rt_timers rt))"
      "set (queued rt) \<union> timer_task ` set_mset (timer_q.due (ev_now ev) (rt_timers rt)) \<subseteq> set (queued rt')"
    using update_timers_pass [OF assms(1,2) assms(3) [folded ev_node_all]] by blast
  then show ?thesis
    using next_fire_later [OF assms(2)]
    by (intro exI [of _ rt']) (auto simp: after_pass_def timer_q.due_def next_due_def)
qed

theorem update_timers_fires_exactly_the_due_witness:
  "\<exists>rt rt'. exec_calls w_setup (the w_new) = Some rt \<and> update_timers (w_env 9) rt = Some rt' \<and>
     (\<forall>x\<in>#timers_of (rt_timers rt). next_fire_ms x \<le> 9 \<longrightarrow> timer_task x \<in> set (queued rt'))"
  using w_setup_inv update_timers_fires_exactly_the_due [of True "{}" _ "w_env 9"]
  by (fastforce simp: w_env_def ev_node_def)

text \<open>The loop sleeps between 0 and 1000 ms and never past the firing time of a timer.\<close>

theorem sleep_never_passes_a_timer:
  assumes "rt_inv lk X C rt"
  shows "0 \<le> next_timeout_ms now rt \<and> next_timeout_ms now rt \<le> 1000 \<and>
         (\<forall>x\<in>#timers_of (rt_timers rt).
            next_timeout_ms now rt = 0 \<or> uint now + next_timeout_ms now rt \<le> uint (next_fire_ms x))"
  using next_timeout_bounds rt_inv_struct [OF assms] by (simp add: struct_ok_def)

theorem sleep_never_passes_a_timer_witness:
  "\<exists>rt. exec_calls w_setup (the w_new) = Some rt \<and> next_timeout_ms 2 rt \<le> 1000"
  using w_setup_inv sleep_never_passes_a_timer by blast

text \<open>Cancelling a live task detaches it from every watcher and timer, marks it cancelled and
  queues it for destruction; no other task appears or disappears.\<close>

theorem cancel_detaches_and_queues:
  assumes "rt_inv lk {} C rt" and "t \<in> dom (rt_tasks rt)" and "ev_node ev t"
  shows "\<exists>rt'. rt_cancel_task ev t rt = Some (0, rt') \<and> rt_inv lk {} C rt' \<and>
           dom (rt_tasks rt') = dom (rt_tasks rt) \<and>
           t \<notin> wt_task ` set (rt_watchers rt') \<and>
           t \<notin> timer_task ` set_mset (timers_of (rt_timers rt')) \<and>
           fl (rt_tasks rt') t BB_TASK_CANCELLED \<and> t \<in> set (queued rt')"
  using rt_cancel_task_step [OF assms(1,2), of ev C] assms(3) subset_insertI [of C t]
  by (auto simp: fst_owned)

lemma w_setup_tasks:
  "map_option (\<lambda>rt. map (\<lambda>t. rt_tasks rt t \<noteq> None) [0, 1, 2]) (exec_calls w_setup (the w_new)) =
   Some [True, True, True]"
  by code_simp

theorem cancel_detaches_and_queues_witness:
  "\<exists>rt rt'. exec_calls w_setup (the w_new) = Some rt \<and>
     rt_cancel_task (w_env 1) 2 rt = Some (0, rt') \<and> 2 \<in> set (queued rt')"
proof -
  obtain rt where rt: "exec_calls w_setup (the w_new) = Some rt" "rt_inv True {} {} rt"
    using w_setup_inv by blast
  have "2 \<in> dom (rt_tasks rt)" "ev_node (w_env 1) 2"
    using w_setup_tasks rt(1) by (simp_all add: ev_node_def w_env_def domIff)
  from cancel_detaches_and_queues [OF rt(2) this] rt(1) show ?thesis by blast
qed

text \<open>The timer heap is a priority queue. On a well-formed heap, a push adds the timer (and
  fails only when the array is full and cannot grow), the root is the earliest timer, a pop
  removes exactly the root, a rescheduling re-keys exactly the root, and all of them keep the
  heap well-formed.\<close>

theorem timer_heap_is_a_priority_queue:
  assumes "heap_inv h"
  shows "(case timer_push ok h t of
            None \<Rightarrow> \<not> ok \<and> th_count h = th_capacity h
          | Some h' \<Rightarrow> heap_inv h' \<and> timers_of h' = add_mset t (timers_of h)) \<and>
         (case timer_peek h of
            None \<Rightarrow> timers_of h = {#}
          | Some x \<Rightarrow> x \<in># timers_of h \<and> (\<forall>y\<in>#timers_of h. next_fire_ms x \<le> next_fire_ms y) \<and>
              heap_inv (timer_pop h) \<and> timers_of (timer_pop h) = timers_of h - {#x#} \<and>
              heap_inv (timer_reschedule_top h k) \<and>
              timers_of (timer_reschedule_top h k) =
                add_mset (x\<lparr>next_fire_ms := k\<rparr>) (timers_of h - {#x#}))"
proof
  show "case timer_push ok h t of None \<Rightarrow> \<not> ok \<and> th_count h = th_capacity h
        | Some h' \<Rightarrow> heap_inv h' \<and> timers_of h' = add_mset t (timers_of h)"
    using timer_push_inv [OF assms, of ok t] timer_push_None [of ok h t] assms
    by (auto simp: heap_inv_def split: option.split)
  show "case timer_peek h of None \<Rightarrow> timers_of h = {#}
        | Some x \<Rightarrow> x \<in># timers_of h \<and> (\<forall>y\<in>#timers_of h. next_fire_ms x \<le> next_fire_ms y) \<and>
            heap_inv (timer_pop h) \<and> timers_of (timer_pop h) = timers_of h - {#x#} \<and>
            heap_inv (timer_reschedule_top h k) \<and>
            timers_of (timer_reschedule_top h k) = add_mset (x\<lparr>next_fire_ms := k\<rparr>) (timers_of h - {#x#})"
    using timer_q.peek_none [OF assms] timer_q.peek_min [OF assms] timer_q.pop_inv [OF assms]
      timer_q.pop_contents [OF assms] timer_q.resched_inv [OF assms] timer_q.resched_contents [OF assms]
    by (simp split: option.split)
qed

definition push_all :: "bb_timer list \<Rightarrow> bb_timer_heap" where
  "push_all xs = foldl (\<lambda>h x. the (timer_push True h x)) (the (bb_timer_heap_create True True)) xs"

definition w_timer :: "u64 \<Rightarrow> tid \<Rightarrow> bb_timer" where
  "w_timer ms t = \<lparr>interval_ms = 0, next_fire_ms = ms, repeating = 0, timer_task = t\<rparr>"

lemma push_all_inv: "heap_inv (push_all xs) \<and> timers_of (push_all xs) = mset xs"
proof (induction xs rule: rev_induct)
  case Nil
  show ?case
    using heap_inv_create [of True True]
    by (simp add: push_all_def bb_timer_heap_create_def)
next
  case (snoc x xs)
  then obtain h where "timer_push True (push_all xs) x = Some h"
    using timer_push_None [of True "push_all xs" x] by auto
  with timer_push_inv [of "push_all xs" True x h] snoc show ?case by (simp add: push_all_def)
qed

theorem timer_heap_is_a_priority_queue_witness:
  "heap_inv (timer_pop (push_all [w_timer 5 0, w_timer 2 1]))"
  using timer_heap_is_a_priority_queue
    [of "push_all [w_timer 5 0, w_timer 2 1]" True "w_timer 9 2" 4]
    push_all_inv [of "[w_timer 5 0, w_timer 2 1]"] timer_peek_none [of "push_all [w_timer 5 0, w_timer 2 1]"]
  by (auto split: option.splits)

text \<open>\<open>bb_timer_heap_remove_task\<close> removes the timer of a task that has one timer, nothing else,
  and reports it; for a task without timers it leaves the heap as it is.\<close>

theorem remove_task_removes_the_only_timer:
  assumes "heap_inv h" and "size (task_timers t (timers_of h)) \<le> 1"
  shows "\<exists>h'. bb_timer_heap_remove_task (Some h) (Some t) =
              (int (size (task_timers t (timers_of h))), Some h') \<and> heap_inv h' \<and>
              timers_of h' = filter_mset (\<lambda>x. timer_task x \<noteq> t) (timers_of h)"
proof (cases "task_timers t (timers_of h) = {#}")
  case True
  then have "filter_mset (\<lambda>x. timer_task x \<noteq> t) (timers_of h) = timers_of h"
    by (auto simp: task_timers_def filter_mset_eq_mempty_iff filter_mset_eq_conv)
  with True assms(1) remove_task_from_absent [OF assms(1) True] show ?thesis
    by (simp add: bb_timer_heap_remove_task_def timer_remove_task_def)
next
  case False
  then obtain x where x: "task_timers t (timers_of h) = {#x#}"
    using assms(2) by (metis One_nat_def le_SucE le_zero_eq size_1_singleton_mset size_eq_0_iff_empty)
  obtain h' where h': "remove_task_from h t 0 0 = (1, h')" "heap_inv h'" "timers_of h' = timers_of h - {#x#}"
    using remove_task_from_one [OF assms(1) x, of 0 0] by auto
  have "timers_of h = task_timers t (timers_of h) + filter_mset (\<lambda>x. timer_task x \<noteq> t) (timers_of h)"
    unfolding task_timers_def by (rule multiset_partition)
  then have "timers_of h = add_mset x (filter_mset (\<lambda>x. timer_task x \<noteq> t) (timers_of h))"
    unfolding x by simp
  then have "timers_of h - {#x#} = filter_mset (\<lambda>x. timer_task x \<noteq> t) (timers_of h)"
    by (metis add_mset_remove_trivial)
  with h' x show ?thesis
    by (simp add: bb_timer_heap_remove_task_def timer_remove_task_def)
qed

theorem remove_task_removes_the_only_timer_witness:
  "\<exists>h'. bb_timer_heap_remove_task (Some (push_all [w_timer 5 0, w_timer 2 1, w_timer 1 2])) (Some 1) = (1, Some h')"
  using remove_task_removes_the_only_timer [of "push_all [w_timer 5 0, w_timer 2 1, w_timer 1 2]" 1]
    push_all_inv [of "[w_timer 5 0, w_timer 2 1, w_timer 1 2]"]
  by (auto simp: task_timers_def w_timer_def)

text \<open>With two timers of one task \<open>bb_timer_heap_remove_task\<close> can leave one behind: removing the
  first moves the last timer of the array, the task's other one, above the scan position.\<close>

theorem remove_task_can_miss_a_timer:
  "(let (n, h) = bb_timer_heap_remove_task
       (Some (push_all [w_timer 1 9, w_timer 10 9, w_timer 2 9, w_timer 11 4, w_timer 12 9, w_timer 3 4])) (Some 4)
    in n = 1 \<and> w_timer 3 4 \<in> set (take (bb_timer_heap_count h) (th_items (the h))))"
  by code_simp

text \<open>The run queue is first-in first-out: tasks enqueued one after the other, with their nodes
  linked through the heap, come out in the same order, and none twice.\<close>

theorem scheduler_is_first_in_first_out:
  assumes "sched_inv s" and "length (queue_of s) + length ts \<le> n"
  shows "run_q.deq_all n (foldl sched_enqueue s ts) = queue_of s @ ts"
  using run_q.fold_enq [OF assms(1), of ts] run_q.deq_all_elems [of "foldl sched_enqueue s ts" n] assms(2)
  by simp

theorem scheduler_is_first_in_first_out_witness:
  "run_q.deq_all 3 (foldl sched_enqueue (the (bb_scheduler_create True)) [7, 3, 5]) = [7, 3, 5]"
  using scheduler_is_first_in_first_out [of "the (bb_scheduler_create True)" "[7, 3, 5]" 3]
    sched_create_inv [of True] by (simp add: bb_scheduler_create_def)

text \<open>The poller's table is a map from descriptors to masks without duplicates: registering
  adds the events to the mask of the descriptor or fails and changes nothing, unregistering
  clears them and drops an empty entry; other descriptors are not touched.\<close>

theorem poller_table_is_a_map:
  assumes "poller_inv p"
  shows "(let (rc, p') = poller_register ro bo p d e
          in poller_inv p' \<and>
             (rc = 0 \<and> interest p' = (interest p)(d \<mapsto> mask_of p d OR e) \<or> rc = -1 \<and> interest p' = interest p)) \<and>
         (let (rc, p') = poller_unregister p d e
          in poller_inv p' \<and>
             interest p' = (if interest p d = None then interest p
                            else (interest p)(d := (if mask_of p d AND NOT e = 0 then None
                                                    else Some (mask_of p d AND NOT e)))))"
  using poller_register_inv [OF assms, of ro bo d e] poller_unregister_inv [OF assms, of d e]
  by (cases "interest p d")
     (auto simp: mask_of_def Let_def split: prod.splits)

theorem poller_table_is_a_map_witness:
  "poller_inv (snd (poller_register True True \<lparr>pl_fds = [], pl_capacity = 1\<rparr> 3 1))"
  using poller_table_is_a_map [of "\<lparr>pl_fds = [], pl_capacity = 1\<rparr>" True True 3 1]
  by (auto simp: poller_inv_def Let_def split: prod.splits)

text \<open>While the watchers of each descriptor wait for different events, dispatching ready
  descriptors, with the removal of the one-shot watchers that fire, keeps every remaining
  watcher's events registered with the poller.\<close>

theorem dispatch_keeps_watchers_registered:
  assumes "dispatch_all ev evs rt = Some rt'" and "rt_inv lk {} C rt" and "ev_no_node ev = []"
    and "covered rt" and "sorted_wrt apart (rt_watchers rt)"
  shows "covered rt'"
  using dispatch_all_covered [OF assms(1,2) _ assms(4,5)] assms(3) by (simp add: ev_node_all)

definition w_apart :: "api_call list" where
  "w_apart = [Watch (w_env 0) 3 BB_EVENT_READ BB_WATCH_ONESHOT (w_cfg 1),
              Watch (w_env 0) 3 BB_EVENT_WRITE BB_WATCH_PERSISTENT (w_cfg 2)]"

lemma w_apart_facts:
  "calls_ok True w_apart (the w_new)"
  "map_option (\<lambda>rt. covered rt \<and> sorted_wrt apart (rt_watchers rt) \<and>
     dispatch_all (w_env 0) [(3, BB_EVENT_READ)] rt \<noteq> None) (exec_calls w_apart (the w_new)) = Some True"
  by code_simp+

theorem dispatch_keeps_watchers_registered_witness:
  "\<exists>rt rt'. exec_calls w_apart (the w_new) = Some rt \<and>
     dispatch_all (w_env 0) [(3, BB_EVENT_READ)] rt = Some rt' \<and> covered rt'"
proof -
  obtain rt where rt: "exec_calls w_apart (the w_new) = Some rt" "rt_inv True {} {} rt"
    using exec_calls_step [OF rt_create_inv [OF w_new_some [unfolded w_new_def [of]], THEN conjunct1]]
      w_apart_facts(1) by (auto simp: w_new_def)
  with w_apart_facts(2) obtain rt' where d: "dispatch_all (w_env 0) [(3, BB_EVENT_READ)] rt = Some rt'"
    "covered rt" "sorted_wrt apart (rt_watchers rt)" by auto
  from dispatch_keeps_watchers_registered [OF d(1) rt(2) _ d(2,3)] rt(1) d(1)
  show ?thesis by (simp add: w_env_def)
qed

text \<open>Two watchers of one descriptor that share an event lose it: after the one-shot \<open>READ\<close>
  watcher of descriptor 3 has fired, the persistent \<open>READ|WRITE\<close> watcher is still installed but
  the poller is only asked for \<open>WRITE\<close>.\<close>

theorem overlapping_watchers_lose_events:
  "map_option (\<lambda>rt. (rt_watchers rt, interest (rt_poller rt) 3)) after_read =
   Some ([\<lparr>wt_fd = 3, wt_events = BB_EVENT_READ OR BB_EVENT_WRITE, wt_mode = BB_WATCH_PERSISTENT,
           wt_task = 1\<rparr>], Some BB_EVENT_WRITE)"
  by code_simp

end
