(* ===== verification/C_Strings.thy ===== *)
theory C_Strings
  imports BB_Prelude
begin

text \<open>
  Characters, C strings and decimal numbers, shared by the components that handle text: the
  character classes the code tests by ranges, strings cut at their first zero, what \<open>snprintf\<close>
  writes for a number, and reading a number back.
\<close>

section \<open>Characters\<close>

abbreviation ord :: "char \<Rightarrow> nat" where
  "ord c \<equiv> of_char c"

definition CR :: char where "CR = CHR 0x0D"
definition LF :: char where "LF = CHR 0x0A"
definition HTAB :: char where "HTAB = CHR 0x09"
definition SP :: char where "SP = CHR 0x20"
definition NUL :: char where "NUL = CHR 0x00"

definition is_alpha :: "char \<Rightarrow> bool" where
  "is_alpha c \<longleftrightarrow> (ord CHR ''a'' \<le> ord c \<and> ord c \<le> ord CHR ''z'') \<or>
                 (ord CHR ''A'' \<le> ord c \<and> ord c \<le> ord CHR ''Z'')"

definition is_digit :: "char \<Rightarrow> bool" where
  "is_digit c \<longleftrightarrow> ord CHR ''0'' \<le> ord c \<and> ord c \<le> ord CHR ''9''"

definition digit_val :: "char \<Rightarrow> nat" where
  "digit_val c = ord c - ord CHR ''0''"

text \<open>\<open>tolower\<close> in the C locale, and \<open>bb_strcasecmp\<close> as an equality.\<close>

definition to_lower :: "char \<Rightarrow> char" where
  "to_lower c = (if ord CHR ''A'' \<le> ord c \<and> ord c \<le> ord CHR ''Z'' then char_of (ord c + 32) else c)"

definition same_nocase :: "string \<Rightarrow> string \<Rightarrow> bool" where
  "same_nocase a b \<longleftrightarrow> map to_lower a = map to_lower b"

text \<open>A character and the byte it is.\<close>

definition byte_of :: "char \<Rightarrow> u8" where
  "byte_of c = word_of_nat (of_char c)"

definition char_of_byte :: "u8 \<Rightarrow> char" where
  "char_of_byte b = char_of (unat b)"

section \<open>C strings and numbers\<close>

definition cstr :: "string \<Rightarrow> string" where
  "cstr s = takeWhile (\<lambda>c. c \<noteq> NUL) s"

text \<open>\<open>%zu\<close> and \<open>%d\<close>; a buffer of \<open>n\<close> bytes keeps \<open>n - 1\<close> characters.\<close>

fun show_nat :: "nat \<Rightarrow> string" where
  "show_nat n = (if n < 10 then [char_of (48 + n)] else show_nat (n div 10) @ [char_of (48 + n mod 10)])"

declare show_nat.simps [simp del]

definition show_int :: "int \<Rightarrow> string" where
  "show_int i = (if i < 0 then CHR ''-'' # show_nat (nat (- i)) else show_nat (nat i))"

definition snprintf :: "nat \<Rightarrow> string \<Rightarrow> string" where
  "snprintf n s = take (n - 1) s"

definition dec_from :: "nat \<Rightarrow> string \<Rightarrow> nat" where
  "dec_from n s = foldl (\<lambda>m c. 10 * m + digit_val c) n s"

section \<open>Facts\<close>

lemma digit_val_bound: "is_digit c \<Longrightarrow> digit_val c < 10"
  by (auto simp: is_digit_def digit_val_def)

lemma dec_from_ge: "n \<le> dec_from n s"
proof (induction s arbitrary: n)
  case (Cons c s)
  have "n \<le> 10 * n + digit_val c" by simp
  also have "\<dots> \<le> dec_from (10 * n + digit_val c) s" by (rule Cons)
  finally show ?case by (simp add: dec_from_def)
qed (simp add: dec_from_def)

lemma show_nat_digits: "list_all is_digit (show_nat n)"
proof (induction n rule: show_nat.induct)
  case (1 n)
  have d: "is_digit (char_of (48 + k))" if "k < 10" for k :: nat
    using that by (simp add: is_digit_def)
  show ?case
  proof (cases "n < 10")
    case True
    with d show ?thesis by (simp add: show_nat.simps [of n])
  next
    case False
    with 1 d [of "n mod 10"] show ?thesis by (simp add: show_nat.simps [of n])
  qed
qed

lemma cstr_id: "NUL \<notin> set s \<Longrightarrow> cstr s = s"
  by (auto simp: cstr_def takeWhile_eq_all_conv)

lemma show_nat_no_nul: "NUL \<notin> set (show_nat n)"
  using show_nat_digits [of n] by (auto simp: list_all_iff is_digit_def NUL_def)

lemma cstr_no_nul: "NUL \<notin> set (cstr s)"
  by (auto simp: cstr_def dest: set_takeWhileD)

lemma dec_from_append: "dec_from n (s @ t) = dec_from (dec_from n s) t"
  by (simp add: dec_from_def)

lemma dec_from_show: "dec_from 0 (show_nat n) = n"
proof (induction n rule: show_nat.induct)
  case (1 n)
  have d: "digit_val (char_of (48 + k)) = k" if "k < 10" for k :: nat
    using that by (simp add: digit_val_def)
  show ?case
  proof (cases "n < 10")
    case True
    with d show ?thesis by (simp add: show_nat.simps [of n] dec_from_def)
  next
    case False
    with 1 have "dec_from 0 (show_nat n) = 10 * (n div 10) + n mod 10"
      using d [of "n mod 10"] by (simp add: show_nat.simps [of n] dec_from_append) (simp add: dec_from_def)
    then show ?thesis by simp
  qed
qed

lemma show_nat_not_empty: "show_nat n \<noteq> []"
  by (simp add: show_nat.simps [of n])

lemma unat_byte_of: "unat (byte_of c) = ord c"
  using of_char_mod_256 [of c, where ?'a = nat] by (simp add: byte_of_def unat_of_nat)

lemma char_of_byte_of [simp]: "char_of_byte (byte_of c) = c"
  by (simp add: char_of_byte_def unat_byte_of)

lemma byte_of_char_of [simp]: "byte_of (char_of_byte b) = b"
proof -
  have "unat b < 256" using unsigned_less [of b, where ?'a = nat] by simp
  then show ?thesis by (simp add: char_of_byte_def byte_of_def)
qed

lemma byte_of_inject [simp]: "byte_of c = byte_of d \<longleftrightarrow> c = d"
  by (metis char_of_byte_of)

end
