(* ===== verification/Http_Parser.thy ===== *)
theory Http_Parser
  imports C_Strings
begin

text \<open>
  The incremental HTTP/1.1 parser of \<open>modules/web/src/http/parser.c\<close>: a state machine that is fed
  fragments of the byte stream. Bytes are \<open>char\<close>. The line and the body buffers are lists of the
  bytes written so far, beside the capacity the code keeps for them; sizes are \<open>nat\<close>, since the
  limits keep them far below \<open>2^64\<close>, and the two numbers read from the input are accumulated as
  64-bit words. Every call of the allocator has an outcome of its own: \<open>mem n\<close> is the outcome of
  the \<open>n\<close>-th one.
\<close>

section \<open>Limits\<close>

definition MAX_REQUEST_LINE :: nat where "MAX_REQUEST_LINE = 8192"
definition MAX_HEADER_SIZE :: nat where "MAX_HEADER_SIZE = 32768"
definition MAX_HEADER_COUNT :: nat where "MAX_HEADER_COUNT = 100"
definition MAX_BODY_SIZE :: nat where "MAX_BODY_SIZE = 16 * 1024 * 1024"
definition MAX_CHUNK_SIZE :: nat where "MAX_CHUNK_SIZE = 16 * 1024 * 1024"
definition MAX_CHUNK_LINE :: nat where "MAX_CHUNK_LINE = 1024"
definition MAX_TRAILER_SIZE :: nat where "MAX_TRAILER_SIZE = 8192"
definition MAX_TRAILER_COUNT :: nat where "MAX_TRAILER_COUNT = 50"
definition METHOD_SIZE :: nat where "METHOD_SIZE = 32"
definition TARGET_SIZE :: nat where "TARGET_SIZE = MAX_REQUEST_LINE"
definition ERROR_SIZE :: nat where "ERROR_SIZE = 160"

section \<open>State\<close>

datatype http_status = PARSE_INCOMPLETE | PARSE_COMPLETE | PARSE_ERROR

datatype http_state =
    ST_REQUEST_LINE | ST_HEADERS | ST_BODY_FIXED | ST_CHUNK_SIZE | ST_CHUNK_DATA
  | ST_CHUNK_DATA_CRLF | ST_TRAILERS | ST_COMPLETE | ST_ERROR

record http_header =
  hh_name :: string
  hh_value :: string

record http_request =
  rq_method :: string
  rq_target :: string
  rq_major :: nat
  rq_minor :: nat
  rq_headers :: "http_header list"
  rq_trailers :: "http_header list"
  rq_body :: string

record http_response =
  rs_major :: nat
  rs_minor :: nat
  rs_status :: nat
  rs_reason :: string
  rs_headers :: "http_header list"
  rs_trailers :: "http_header list"
  rs_body :: string

record http_parser =
  hp_state :: http_state
  hp_response_mode :: bool
  hp_line :: string
  hp_line_cap :: nat
  hp_line_limit :: nat
  hp_saw_cr :: bool
  hp_request :: http_request
  hp_response :: http_response
  hp_has_content_length :: bool
  hp_content_length :: nat
  hp_has_transfer_encoding :: bool
  hp_transfer_chunked :: bool
  hp_header_bytes :: nat
  hp_trailer_bytes :: nat
  hp_body_cap :: nat
  hp_body_written :: nat
  hp_chunk_remaining :: nat
  hp_last_consumed :: nat
  hp_error_msg :: string
  hp_allocs :: nat

definition empty_request :: http_request where
  "empty_request = \<lparr>rq_method = [], rq_target = [], rq_major = 0, rq_minor = 0, rq_headers = [],
                    rq_trailers = [], rq_body = []\<rparr>"

definition empty_response :: http_response where
  "empty_response = \<lparr>rs_major = 0, rs_minor = 0, rs_status = 0, rs_reason = [], rs_headers = [],
                     rs_trailers = [], rs_body = []\<rparr>"

section \<open>Helpers\<close>

definition set_error :: "http_parser \<Rightarrow> string \<Rightarrow> http_parser" where
  "set_error p msg = p\<lparr>hp_state := ST_ERROR, hp_error_msg := take (ERROR_SIZE - 1) msg\<rparr>"

definition is_tchar :: "char \<Rightarrow> bool" where
  "is_tchar c \<longleftrightarrow> is_alpha c \<or> is_digit c \<or>
     c \<in> set [CHR ''!'', CHR ''#'', CHR ''$'', CHR ''%'', CHR ''&'', CHR 0x27, CHR ''*'',
              CHR ''+'', CHR ''-'', CHR ''.'', CHR ''^'', CHR ''_'', CHR 0x60, CHR ''|'', CHR ''~'']"

definition is_blank :: "char \<Rightarrow> bool" where
  "is_blank c \<longleftrightarrow> c = SP \<or> c = HTAB"

definition reset_line :: "http_parser \<Rightarrow> nat \<Rightarrow> http_parser" where
  "reset_line p limit = p\<lparr>hp_line := [], hp_saw_cr := False, hp_line_limit := limit\<rparr>"

definition alloc :: "(nat \<Rightarrow> bool) \<Rightarrow> http_parser \<Rightarrow> bool \<times> http_parser" where
  "alloc mem p = (mem (hp_allocs p), p\<lparr>hp_allocs := Suc (hp_allocs p)\<rparr>)"

definition active_headers :: "http_parser \<Rightarrow> http_header list" where
  "active_headers p = (if hp_response_mode p then rs_headers (hp_response p) else rq_headers (hp_request p))"

definition set_active_headers :: "http_header list \<Rightarrow> http_parser \<Rightarrow> http_parser" where
  "set_active_headers hs p =
     (if hp_response_mode p then p\<lparr>hp_response := (hp_response p)\<lparr>rs_headers := hs\<rparr>\<rparr>
      else p\<lparr>hp_request := (hp_request p)\<lparr>rq_headers := hs\<rparr>\<rparr>)"

definition active_trailers :: "http_parser \<Rightarrow> http_header list" where
  "active_trailers p = (if hp_response_mode p then rs_trailers (hp_response p) else rq_trailers (hp_request p))"

definition set_active_trailers :: "http_header list \<Rightarrow> http_parser \<Rightarrow> http_parser" where
  "set_active_trailers hs p =
     (if hp_response_mode p then p\<lparr>hp_response := (hp_response p)\<lparr>rs_trailers := hs\<rparr>\<rparr>
      else p\<lparr>hp_request := (hp_request p)\<lparr>rq_trailers := hs\<rparr>\<rparr>)"

definition active_body :: "http_parser \<Rightarrow> string" where
  "active_body p = (if hp_response_mode p then rs_body (hp_response p) else rq_body (hp_request p))"

definition set_active_body :: "string \<Rightarrow> http_parser \<Rightarrow> http_parser" where
  "set_active_body b p =
     (if hp_response_mode p then p\<lparr>hp_response := (hp_response p)\<lparr>rs_body := b\<rparr>\<rparr>
      else p\<lparr>hp_request := (hp_request p)\<lparr>rq_body := b\<rparr>\<rparr>)"

section \<open>Lifecycle\<close>

definition new_parser :: http_parser where
  "new_parser =
     \<lparr>hp_state = ST_REQUEST_LINE, hp_response_mode = False, hp_line = [], hp_line_cap = 0,
      hp_line_limit = MAX_REQUEST_LINE, hp_saw_cr = False, hp_request = empty_request,
      hp_response = empty_response, hp_has_content_length = False, hp_content_length = 0,
      hp_has_transfer_encoding = False, hp_transfer_chunked = False, hp_header_bytes = 0,
      hp_trailer_bytes = 0, hp_body_cap = 0, hp_body_written = 0, hp_chunk_remaining = 0,
      hp_last_consumed = 0, hp_error_msg = [], hp_allocs = 0\<rparr>"

definition bb_http_parser_create :: "bool \<Rightarrow> http_parser option" where
  "bb_http_parser_create ok = (if ok then Some new_parser else None)"

definition bb_http_parser_create_response :: "bool \<Rightarrow> http_parser option" where
  "bb_http_parser_create_response ok =
     map_option (\<lambda>p. p\<lparr>hp_response_mode := True\<rparr>) (bb_http_parser_create ok)"

definition parser_reset :: "http_parser \<Rightarrow> http_parser" where
  "parser_reset p =
     (reset_line (p\<lparr>hp_request := empty_request, hp_response := empty_response,
                    hp_state := ST_REQUEST_LINE\<rparr>) MAX_REQUEST_LINE)
     \<lparr>hp_has_content_length := False, hp_content_length := 0, hp_has_transfer_encoding := False,
      hp_transfer_chunked := False, hp_header_bytes := 0, hp_trailer_bytes := 0, hp_body_cap := 0,
      hp_body_written := 0, hp_chunk_remaining := 0, hp_last_consumed := 0, hp_error_msg := []\<rparr>"

definition bb_http_parser_reset :: "http_parser option \<Rightarrow> http_parser option" where
  "bb_http_parser_reset parser = map_option parser_reset parser"

definition bb_http_parser_last_consumed :: "http_parser option \<Rightarrow> nat" where
  "bb_http_parser_last_consumed parser = (case parser of None \<Rightarrow> 0 | Some p \<Rightarrow> hp_last_consumed p)"

definition bb_http_parser_get_request :: "http_parser option \<Rightarrow> http_request option" where
  "bb_http_parser_get_request parser =
     (case parser of None \<Rightarrow> None
      | Some p \<Rightarrow> if hp_state p \<noteq> ST_COMPLETE then None else Some (hp_request p))"

definition bb_http_parser_get_response :: "http_parser option \<Rightarrow> http_response option" where
  "bb_http_parser_get_response parser =
     (case parser of None \<Rightarrow> None
      | Some p \<Rightarrow> if \<not> hp_response_mode p \<or> hp_state p \<noteq> ST_COMPLETE then None
                 else Some (hp_response p))"

definition bb_http_parser_error :: "http_parser option \<Rightarrow> string" where
  "bb_http_parser_error parser = (case parser of None \<Rightarrow> [] | Some p \<Rightarrow> hp_error_msg p)"

section \<open>Reading a line\<close>

datatype line_result = LINE_DONE | LINE_MORE | LINE_ERROR

definition line_reserve :: "(nat \<Rightarrow> bool) \<Rightarrow> http_parser \<Rightarrow> bool \<times> http_parser" where
  "line_reserve mem p =
     (if length (hp_line p) + 1 > hp_line_cap p
      then let new_cap = (if hp_line_cap p \<noteq> 0 then hp_line_cap p * 2 else 256);
               new_cap = (if new_cap > hp_line_limit p + 1 then hp_line_limit p + 1 else new_cap);
               (ok, p) = alloc mem p
           in if ok then (True, p\<lparr>hp_line_cap := new_cap\<rparr>)
              else (False, set_error p ''out of memory'')
      else (True, p))"

fun consume_line ::
  "(nat \<Rightarrow> bool) \<Rightarrow> http_parser \<Rightarrow> string \<Rightarrow> line_result \<times> http_parser \<times> string" where
  "consume_line mem p [] = (LINE_MORE, p, [])"
| "consume_line mem p (c # cs) =
     (if hp_saw_cr p then
        let p = p\<lparr>hp_saw_cr := False\<rparr>
        in if c = LF then (LINE_DONE, p, cs)
           else (LINE_ERROR, set_error p ''bare CR in line'', cs)
      else if c = CR then consume_line mem (p\<lparr>hp_saw_cr := True\<rparr>) cs
      else if c = LF then (LINE_ERROR, set_error p ''bare LF in line'', c # cs)
      else if c = NUL then (LINE_ERROR, set_error p ''embedded NUL'', c # cs)
      else if length (hp_line p) \<ge> hp_line_limit p
      then (LINE_ERROR, set_error p ''line exceeds configured limit'', c # cs)
      else case line_reserve mem p of
             (False, p) \<Rightarrow> (LINE_ERROR, p, c # cs)
           | (True, p) \<Rightarrow> consume_line mem (p\<lparr>hp_line := hp_line p @ [c]\<rparr>) cs)"

section \<open>The request target\<close>

text \<open>\<open>hex_value\<close>; \<open>None\<close> is the result \<open>-1\<close>.\<close>

definition hex_value :: "char \<Rightarrow> nat option" where
  "hex_value c =
     (if is_digit c then Some (ord c - ord CHR ''0'')
      else if ord CHR ''a'' \<le> ord c \<and> ord c \<le> ord CHR ''f'' then Some (10 + (ord c - ord CHR ''a''))
      else if ord CHR ''A'' \<le> ord c \<and> ord c \<le> ord CHR ''F'' then Some (10 + (ord c - ord CHR ''A''))
      else None)"

definition decode_octet :: "char \<Rightarrow> char \<Rightarrow> nat option" where
  "decode_octet a b =
     (case (hex_value a, hex_value b) of (Some h, Some l) \<Rightarrow> Some (16 * h + l) | _ \<Rightarrow> None)"

text \<open>
  The three loops of \<open>sanitize_request_target\<close>. The first checks every byte of the target and
  finds the first question mark: \<open>i\<close> is the position of the rest it is given, \<open>q\<close> the position
  found so far, \<open>n\<close> (the length) standing for none.
\<close>

fun scan_target :: "nat \<Rightarrow> string \<Rightarrow> nat \<Rightarrow> nat \<Rightarrow> string + nat" where
  "scan_target n [] i q = Inr q"
| "scan_target n (c # cs) i q =
     (if c = CHR ''#'' then Inl ''fragment is not allowed in request-target''
      else if c = CHR 0x5C then Inl ''backslash is not allowed in request-target''
      else if c = CHR ''%'' then
        (case cs of
           a # b # rest \<Rightarrow>
             (case decode_octet a b of
                None \<Rightarrow> Inl ''malformed percent-encoding in request-target''
              | Some d \<Rightarrow>
                  if d < 0x20 \<or> d = 0x7F \<or> d = ord CHR ''/'' \<or> d = 0x5C
                  then Inl ''unsafe percent-encoded byte in request-target''
                  else scan_target n rest (i + 3) q)
         | _ \<Rightarrow> Inl ''malformed percent-encoding in request-target'')
      else scan_target n cs (i + 1) (if c = CHR ''?'' \<and> q = n then i else q))"

definition is_e :: "char \<Rightarrow> bool" where
  "is_e c \<longleftrightarrow> c = CHR ''e'' \<or> c = CHR ''E''"

text \<open>The tests of one path segment.\<close>

definition segment_error :: "string \<Rightarrow> string option" where
  "segment_error s =
     (if length s = 1 \<and> s ! 0 = CHR ''.'' then Some ''dot path segment is not allowed''
      else if length s = 2 \<and> s ! 0 = CHR ''.'' \<and> s ! 1 = CHR ''.''
      then Some ''dot path segment is not allowed''
      else if length s = 3 \<and> s ! 0 = CHR ''%'' \<and> s ! 1 = CHR ''2'' \<and> is_e (s ! 2)
      then Some ''encoded dot path segment is not allowed''
      else if length s = 4 \<and>
              ((s ! 0 = CHR ''.'' \<and> s ! 1 = CHR ''%'' \<and> s ! 2 = CHR ''2'' \<and> is_e (s ! 3)) \<or>
               (s ! 0 = CHR ''%'' \<and> s ! 1 = CHR ''2'' \<and> is_e (s ! 2) \<and> s ! 3 = CHR ''.''))
      then Some ''encoded dot path segment is not allowed''
      else if length s = 6 \<and> s ! 0 = CHR ''%'' \<and> s ! 1 = CHR ''2'' \<and> is_e (s ! 2) \<and>
              s ! 3 = CHR ''%'' \<and> s ! 4 = CHR ''2'' \<and> is_e (s ! 5)
      then Some ''encoded dot path segment is not allowed''
      else None)"

text \<open>The second loop; \<open>seg\<close> is the part of the current segment already passed.\<close>

fun check_segments :: "string \<Rightarrow> string \<Rightarrow> string option" where
  "check_segments seg [] = segment_error seg"
| "check_segments seg (c # cs) =
     (if c = CHR ''/''
      then (case segment_error seg of Some m \<Rightarrow> Some m | None \<Rightarrow> check_segments [] cs)
      else check_segments (seg @ [c]) cs)"

text \<open>The third loop, over the query.\<close>

fun check_query :: "string \<Rightarrow> string option" where
  "check_query [] = None"
| "check_query (c # cs) =
     (if c = CHR ''%'' then
        (case cs of
           a # b # rest \<Rightarrow>
             (case decode_octet a b of
                None \<Rightarrow> Some ''malformed percent-encoding in query''
              | Some d \<Rightarrow>
                  if d < 0x20 \<or> d = 0x7F then Some ''unsafe percent-encoded byte in query''
                  else check_query rest)
         | _ \<Rightarrow> Some ''malformed percent-encoding in query'')
      else if ord c < 0x20 \<or> ord c = 0x7F \<or> c = CHR 0x5C then Some ''invalid character in query''
      else check_query cs)"

text \<open>\<open>None\<close> is acceptance, \<open>Some\<close> the message given to \<open>set_error\<close>.\<close>

definition sanitize_request_target :: "string \<Rightarrow> string option" where
  "sanitize_request_target t =
     (if t = [] then Some ''empty request-target''
      else if length t = 1 \<and> t ! 0 = CHR ''*'' then None
      else if t ! 0 \<noteq> CHR ''/'' then Some ''request-target must use origin-form''
      else case scan_target (length t) t 0 (length t) of
             Inl m \<Rightarrow> Some m
           | Inr query_start \<Rightarrow>
               (case check_segments [] (drop 1 (take query_start t)) of
                  Some m \<Rightarrow> Some m
                | None \<Rightarrow>
                    if query_start < length t then check_query (drop (query_start + 1) t) else None))"

section \<open>Start lines\<close>

text \<open>The functions below return true for the result 0 and false for \<open>-1\<close>.\<close>

definition check_version :: "string \<Rightarrow> bool" where
  "check_version v \<longleftrightarrow>
     length v = 8 \<and> take 5 v = ''HTTP/'' \<and> is_digit (v ! 5) \<and> v ! 6 = CHR ''.'' \<and> is_digit (v ! 7)"

definition parse_request_line :: "http_parser \<Rightarrow> bool \<times> http_parser" where
  "parse_request_line p =
     (let buf = hp_line p; len = length buf in
      if len = 0 then (False, set_error p ''empty request line'')
      else let i = length (takeWhile (\<lambda>c. c \<noteq> SP) buf) in
      if i = 0 \<or> i = len then (False, set_error p ''malformed request line: missing method or target'')
      else let mtd = take i buf in
      if \<not> list_all is_tchar mtd then (False, set_error p ''invalid character in method'')
      else if length mtd \<ge> METHOD_SIZE then (False, set_error p ''method too long'')
      else let p = p\<lparr>hp_request := (hp_request p)\<lparr>rq_method := mtd\<rparr>\<rparr>;
               rest_start = i + 1;
               j = len - length (takeWhile (\<lambda>c. c \<noteq> SP) (rev (drop rest_start buf))) in
      if j = rest_start then (False, set_error p ''malformed request line: missing version'')
      else let target_end = j - 1; version_start = j in
      if target_end \<le> rest_start then (False, set_error p ''malformed request line: empty target'')
      else let target = drop rest_start (take target_end buf) in
      if \<not> list_all (\<lambda>c. \<not> (c = SP \<or> ord c < 0x20 \<or> ord c = 0x7F)) target
      then (False, set_error p ''invalid character in request-target'')
      else if length target \<ge> TARGET_SIZE then (False, set_error p ''request-target too long'')
      else let p = p\<lparr>hp_request := (hp_request p)\<lparr>rq_target := target\<rparr>\<rparr> in
      case sanitize_request_target target of
        Some m \<Rightarrow> (False, set_error p m)
      | None \<Rightarrow>
          let v = drop version_start buf in
          if \<not> check_version v then (False, set_error p ''invalid HTTP version'')
          else (True, p\<lparr>hp_request := (hp_request p)
                        \<lparr>rq_major := digit_val (v ! 5), rq_minor := digit_val (v ! 7)\<rparr>\<rparr>))"

definition parse_response_line :: "http_parser \<Rightarrow> bool \<times> http_parser" where
  "parse_response_line p =
     (let buf = hp_line p; len = length buf in
      if len < 12 \<or> take 5 buf \<noteq> ''HTTP/'' then (False, set_error p ''malformed response line'')
      else if \<not> is_digit (buf ! 5) \<or> buf ! 6 \<noteq> CHR ''.'' \<or> \<not> is_digit (buf ! 7) \<or> buf ! 8 \<noteq> SP
      then (False, set_error p ''invalid HTTP version'')
      else let i = 9 in
      if i + 3 > len \<or> \<not> is_digit (buf ! i) \<or> \<not> is_digit (buf ! (i + 1)) \<or> \<not> is_digit (buf ! (i + 2))
      then (False, set_error p ''invalid response status code'')
      else let p = p\<lparr>hp_response := (hp_response p)
                 \<lparr>rs_major := digit_val (buf ! 5), rs_minor := digit_val (buf ! 7),
                  rs_status := digit_val (buf ! i) * 100 + digit_val (buf ! (i + 1)) * 10 +
                               digit_val (buf ! (i + 2))\<rparr>\<rparr> in
      if i + 3 < len \<and> buf ! (i + 3) \<noteq> SP
      then (False, set_error p ''malformed response reason phrase'')
      else let i = i + 3; i = (if i < len then i + 1 else i); reason = drop i buf in
      if length reason \<ge> MAX_REQUEST_LINE then (False, set_error p ''reason phrase too long'')
      else if \<not> list_all (\<lambda>c. \<not> ((ord c < 0x20 \<and> c \<noteq> HTAB) \<or> ord c = 0x7F)) reason
      then (False, set_error p ''invalid character in reason phrase'')
      else (True, p\<lparr>hp_response := (hp_response p)\<lparr>rs_reason := reason\<rparr>\<rparr>))"

section \<open>Field lines\<close>

definition trim_blanks :: "string \<Rightarrow> string" where
  "trim_blanks s = rev (dropWhile is_blank (rev (dropWhile is_blank s)))"

text \<open>
  \<open>parse_field_line\<close> on the field array \<open>hs\<close> and the byte total of its section; on success the
  field appended and the new total.
\<close>

definition parse_field_line ::
  "(nat \<Rightarrow> bool) \<Rightarrow> http_parser \<Rightarrow> http_header list \<Rightarrow> nat \<Rightarrow> nat \<Rightarrow> nat \<Rightarrow>
   http_parser \<times> (http_header \<times> nat) option" where
  "parse_field_line mem p hs max_count bytes max_bytes =
     (let buf = hp_line p; len = length buf in
      if len > 0 \<and> is_blank (buf ! 0)
      then (set_error p ''obsolete line folding is not supported'', None)
      else let i = length (takeWhile (\<lambda>c. c \<noteq> CHR '':'') buf) in
      if i = 0 \<or> i = len then (set_error p (''malformed field line: missing '' @ [CHR 0x27, CHR '':'', CHR 0x27]), None)
      else let nm = take i buf in
      if \<not> list_all is_tchar nm then (set_error p ''invalid character in field name'', None)
      else let val = trim_blanks (drop (i + 1) buf) in
      if \<not> list_all (\<lambda>c. \<not> ((ord c < 0x20 \<and> c \<noteq> HTAB) \<or> ord c = 0x7F)) val
      then (set_error p ''invalid character in field value'', None)
      else if length hs \<ge> max_count then (set_error p ''too many header/trailer fields'', None)
      else let line_bytes = len + 2 in
      if bytes + line_bytes > max_bytes then (set_error p ''header/trailer section too large'', None)
      else let (name_ok, p) = alloc mem p; (value_ok, p) = alloc mem p in
      if \<not> name_ok \<or> \<not> value_ok then (set_error p ''out of memory'', None)
      else let (array_ok, p) = alloc mem p in
      if \<not> array_ok then (set_error p ''out of memory'', None)
      else (p, Some (\<lparr>hh_name = nm, hh_value = val\<rparr>, bytes + line_bytes)))"

section \<open>Framing headers\<close>

definition UINT64_MAX :: u64 where "UINT64_MAX = - 1"

fun decimal_u64 :: "u64 \<Rightarrow> string \<Rightarrow> string + u64" where
  "decimal_u64 val [] = Inr val"
| "decimal_u64 val (c # cs) =
     (if \<not> is_digit c then Inl ''non-decimal character in Content-Length''
      else let digit = (of_nat (digit_val c) :: u64)
           in if val > (UINT64_MAX - digit) div 10 then Inl ''Content-Length overflow''
              else decimal_u64 (val * 10 + digit) cs)"

definition apply_content_length :: "http_parser \<Rightarrow> string \<Rightarrow> bool \<times> http_parser" where
  "apply_content_length p value =
     (if hp_has_content_length p then (False, set_error p ''duplicate Content-Length header'')
      else if length value = 0 then (False, set_error p ''empty Content-Length value'')
      else case decimal_u64 0 value of
             Inl m \<Rightarrow> (False, set_error p m)
           | Inr val \<Rightarrow>
               if val > of_nat MAX_BODY_SIZE
               then (False, set_error p ''Content-Length exceeds configured body limit'')
               else (True, p\<lparr>hp_has_content_length := True, hp_content_length := unat val\<rparr>))"

function codings :: "http_parser \<Rightarrow> string \<Rightarrow> bool \<times> http_parser" where
  "codings p value =
     (if value = [] then (True, p)
      else let start = dropWhile is_blank value;
               token = takeWhile (\<lambda>c. c \<noteq> CHR '','') start;
               trimmed = rev (dropWhile is_blank (rev token))
           in if length trimmed = 0 \<or> length trimmed \<noteq> 7 \<or> \<not> same_nocase trimmed ''chunked''
              then (False, set_error p ''unsupported Transfer-Encoding coding'')
              else (case dropWhile (\<lambda>c. c \<noteq> CHR '','') start of
                      [] \<Rightarrow> (True, p\<lparr>hp_transfer_chunked := True\<rparr>)
                    | c # rest \<Rightarrow> codings (p\<lparr>hp_transfer_chunked := True\<rparr>) rest))"
  by pat_completeness auto
termination
proof (relation "measure (\<lambda>(p, s). length s)", goal_cases)
  case 1
  then show ?case by simp
next
  case (2 p v start token trimmed c rest)
  then have "c # rest = dropWhile (\<lambda>c. c \<noteq> CHR '','') (dropWhile is_blank v)" by simp
  then have "length (c # rest) \<le> length v"
    by (metis length_dropWhile_le le_trans)
  then show ?case by simp
qed

declare codings.simps [simp del]

definition apply_transfer_encoding :: "http_parser \<Rightarrow> string \<Rightarrow> bool \<times> http_parser" where
  "apply_transfer_encoding p value =
     (case codings p value of
        (False, p) \<Rightarrow> (False, p)
      | (True, p) \<Rightarrow>
          if \<not> hp_transfer_chunked p
          then (False, set_error p ''Transfer-Encoding did not resolve to chunked'')
          else (True, p\<lparr>hp_has_transfer_encoding := True\<rparr>))"

section \<open>The body\<close>

definition body_reserve :: "(nat \<Rightarrow> bool) \<Rightarrow> http_parser \<Rightarrow> nat \<Rightarrow> bool \<times> http_parser" where
  "body_reserve mem p needed_total =
     (if needed_total \<le> hp_body_cap p then (True, p)
      else let new_cap = (if hp_body_cap p \<noteq> 0 then hp_body_cap p * 2 else 4096);
               new_cap = (if new_cap < needed_total then needed_total else new_cap);
               new_cap = (if new_cap > MAX_BODY_SIZE then MAX_BODY_SIZE else new_cap);
               (ok, p) = alloc mem p
           in if ok then (True, p\<lparr>hp_body_cap := new_cap\<rparr>) else (False, set_error p ''out of memory''))"

definition body_append :: "(nat \<Rightarrow> bool) \<Rightarrow> http_parser \<Rightarrow> string \<Rightarrow> bool \<times> http_parser" where
  "body_append mem p data =
     (if length data = 0 then (True, p)
      else case body_reserve mem p (hp_body_written p + length data) of
             (False, p) \<Rightarrow> (False, p)
           | (True, p) \<Rightarrow>
               (True, (set_active_body (active_body p @ data) p)
                        \<lparr>hp_body_written := hp_body_written p + length data\<rparr>))"

definition finish_headers :: "(nat \<Rightarrow> bool) \<Rightarrow> http_parser \<Rightarrow> bool \<times> http_parser" where
  "finish_headers mem p =
     (if hp_response_mode p \<and> ((rs_status (hp_response p) \<ge> 100 \<and> rs_status (hp_response p) < 200) \<or>
           rs_status (hp_response p) = 204 \<or> rs_status (hp_response p) = 304)
      then (True, p\<lparr>hp_state := ST_COMPLETE\<rparr>)
      else if hp_has_content_length p \<and> hp_has_transfer_encoding p
      then (False, set_error p ''ambiguous framing: both Content-Length and Transfer-Encoding present'')
      else if hp_has_transfer_encoding p
      then (True, reset_line (p\<lparr>hp_state := ST_CHUNK_SIZE\<rparr>) MAX_CHUNK_LINE)
      else if hp_has_content_length p \<and> hp_content_length p > 0
      then (case body_reserve mem p (hp_content_length p) of
              (False, p) \<Rightarrow> (False, p)
            | (True, p) \<Rightarrow> (True, p\<lparr>hp_state := ST_BODY_FIXED\<rparr>))
      else (True, p\<lparr>hp_state := ST_COMPLETE\<rparr>))"

text \<open>The digits of a chunk size: the value, the number of digits and the rest of the line.\<close>

fun hex_u64 :: "u64 \<Rightarrow> nat \<Rightarrow> string \<Rightarrow> (u64 \<times> nat \<times> string) option" where
  "hex_u64 val digits [] = Some (val, digits, [])"
| "hex_u64 val digits (c # cs) =
     (case hex_value c of
        None \<Rightarrow> Some (val, digits, c # cs)
      | Some d \<Rightarrow>
          if val > drop_bit 4 UINT64_MAX then None
          else hex_u64 (push_bit 4 val OR of_nat d) (digits + 1) cs)"

definition parse_chunk_size_line :: "http_parser \<Rightarrow> http_parser \<times> nat option" where
  "parse_chunk_size_line p =
     (let buf = hp_line p in
      if buf = [] then (set_error p ''empty chunk-size line'', None)
      else case hex_u64 0 0 buf of
             None \<Rightarrow> (set_error p ''chunk size overflow'', None)
           | Some (val, digits, rest) \<Rightarrow>
               if digits = 0 then (set_error p ''malformed chunk-size line'', None)
               else if rest \<noteq> [] \<and> rest ! 0 \<noteq> CHR '';''
               then (set_error p ''malformed chunk-size line'', None)
               else if val > of_nat MAX_CHUNK_SIZE
               then (set_error p ''chunk size exceeds configured limit'', None)
               else (p, Some (unat val)))"

section \<open>The feed loop\<close>

text \<open>
  One turn of the loop: it goes on with the rest of the input, or leaves by one of the three
  labels \<open>out_incomplete\<close>, \<open>out_complete\<close>, \<open>out_error\<close>.
\<close>

datatype turn =
    Next http_parser string
  | Out http_status http_parser string

text \<open>
  The five states that read a line begin alike: with \<open>r = consume_line(...)\<close>, the jump to
  \<open>out_incomplete\<close> for 0 and to \<open>out_error\<close> for \<open>-1\<close>. \<open>f\<close> is what follows.
\<close>

definition line_turn ::
  "(nat \<Rightarrow> bool) \<Rightarrow> (http_parser \<Rightarrow> string \<Rightarrow> turn) \<Rightarrow> http_parser \<Rightarrow> string \<Rightarrow> turn" where
  "line_turn mem f p data =
     (case consume_line mem p data of
        (LINE_MORE, p, rest) \<Rightarrow> Out PARSE_INCOMPLETE p rest
      | (LINE_ERROR, p, rest) \<Rightarrow> Out PARSE_ERROR p rest
      | (LINE_DONE, p, rest) \<Rightarrow> f p rest)"

definition read_start_line :: "http_parser \<Rightarrow> string \<Rightarrow> turn" where
  "read_start_line p rest =
     (case (if hp_response_mode p then parse_response_line p else parse_request_line p) of
        (False, p) \<Rightarrow> Out PARSE_ERROR p rest
      | (True, p) \<Rightarrow> Next ((reset_line p MAX_HEADER_SIZE)\<lparr>hp_state := ST_HEADERS\<rparr>) rest)"

definition apply_header :: "http_parser \<Rightarrow> http_header \<Rightarrow> bool \<times> http_parser" where
  "apply_header p h =
     (if same_nocase (hh_name h) ''content-length'' then apply_content_length p (hh_value h)
      else if same_nocase (hh_name h) ''transfer-encoding'' then apply_transfer_encoding p (hh_value h)
      else (True, p))"

definition store_header :: "http_header \<times> nat \<Rightarrow> http_parser \<Rightarrow> http_parser" where
  "store_header x p =
     (set_active_headers (active_headers p @ [fst x]) p)\<lparr>hp_header_bytes := snd x\<rparr>"

definition read_header_line :: "(nat \<Rightarrow> bool) \<Rightarrow> http_parser \<Rightarrow> string \<Rightarrow> turn" where
  "read_header_line mem p rest =
     (if length (hp_line p) = 0
      then (case finish_headers mem p of
              (False, p) \<Rightarrow> Out PARSE_ERROR p rest
            | (True, p) \<Rightarrow> if hp_state p = ST_COMPLETE then Out PARSE_COMPLETE p rest else Next p rest)
      else (case parse_field_line mem p (active_headers p) MAX_HEADER_COUNT (hp_header_bytes p)
                   MAX_HEADER_SIZE of
              (p, None) \<Rightarrow> Out PARSE_ERROR p rest
            | (p, Some x) \<Rightarrow>
                (case apply_header (store_header x p) (fst x) of
                   (False, p) \<Rightarrow> Out PARSE_ERROR p rest
                 | (True, p) \<Rightarrow> Next (reset_line p MAX_HEADER_SIZE) rest)))"

definition turn_body_fixed :: "(nat \<Rightarrow> bool) \<Rightarrow> http_parser \<Rightarrow> string \<Rightarrow> turn" where
  "turn_body_fixed mem p data =
     (let need = hp_content_length p - hp_body_written p;
          n = min need (length data)
      in case (if n > 0 then body_append mem p (take n data) else (True, p)) of
           (False, p) \<Rightarrow> Out PARSE_ERROR p data
         | (True, p) \<Rightarrow>
             if hp_body_written p \<ge> hp_content_length p
             then Out PARSE_COMPLETE (p\<lparr>hp_state := ST_COMPLETE\<rparr>) (drop n data)
             else Out PARSE_INCOMPLETE p (drop n data))"

definition read_chunk_size :: "http_parser \<Rightarrow> string \<Rightarrow> turn" where
  "read_chunk_size p rest =
     (case parse_chunk_size_line p of
        (p, None) \<Rightarrow> Out PARSE_ERROR p rest
      | (p, Some chunk_size) \<Rightarrow>
          if chunk_size > 0 \<and> chunk_size > MAX_BODY_SIZE - hp_body_written p
          then Out PARSE_ERROR (set_error p ''chunked body exceeds configured body limit'') rest
          else if chunk_size = 0
          then Next (reset_line (p\<lparr>hp_state := ST_TRAILERS\<rparr>) MAX_TRAILER_SIZE) rest
          else Next (p\<lparr>hp_chunk_remaining := chunk_size, hp_state := ST_CHUNK_DATA\<rparr>) rest)"

definition turn_chunk_data :: "(nat \<Rightarrow> bool) \<Rightarrow> http_parser \<Rightarrow> string \<Rightarrow> turn" where
  "turn_chunk_data mem p data =
     (let n = min (hp_chunk_remaining p) (length data)
      in case (if n > 0
               then (case body_append mem p (take n data) of
                       (False, p) \<Rightarrow> (False, p)
                     | (True, p) \<Rightarrow> (True, p\<lparr>hp_chunk_remaining := hp_chunk_remaining p - n\<rparr>))
               else (True, p)) of
           (False, p) \<Rightarrow> Out PARSE_ERROR p data
         | (True, p) \<Rightarrow>
             if hp_chunk_remaining p > 0 then Out PARSE_INCOMPLETE p (drop n data)
             else Next (reset_line (p\<lparr>hp_state := ST_CHUNK_DATA_CRLF\<rparr>) 0) (drop n data))"

definition read_chunk_crlf :: "http_parser \<Rightarrow> string \<Rightarrow> turn" where
  "read_chunk_crlf p rest =
     (if length (hp_line p) \<noteq> 0
      then Out PARSE_ERROR (set_error p ''malformed chunk terminator'') rest
      else Next (reset_line (p\<lparr>hp_state := ST_CHUNK_SIZE\<rparr>) MAX_CHUNK_LINE) rest)"

definition store_trailer :: "http_header \<times> nat \<Rightarrow> http_parser \<Rightarrow> http_parser" where
  "store_trailer x p =
     (set_active_trailers (active_trailers p @ [fst x]) p)\<lparr>hp_trailer_bytes := snd x\<rparr>"

definition read_trailer_line :: "(nat \<Rightarrow> bool) \<Rightarrow> http_parser \<Rightarrow> string \<Rightarrow> turn" where
  "read_trailer_line mem p rest =
     (if length (hp_line p) = 0
      then Out PARSE_COMPLETE (p\<lparr>hp_state := ST_COMPLETE\<rparr>) rest
      else (case parse_field_line mem p (active_trailers p) MAX_TRAILER_COUNT (hp_trailer_bytes p)
                   MAX_TRAILER_SIZE of
              (p, None) \<Rightarrow> Out PARSE_ERROR p rest
            | (p, Some x) \<Rightarrow>
                if same_nocase (hh_name (fst x)) ''content-length'' \<or>
                   same_nocase (hh_name (fst x)) ''transfer-encoding''
                then Out PARSE_ERROR
                       (set_error (store_trailer x p) ''framing header not allowed in trailers'') rest
                else Next (reset_line (store_trailer x p) MAX_TRAILER_SIZE) rest))"

definition feed_turn :: "(nat \<Rightarrow> bool) \<Rightarrow> http_parser \<Rightarrow> string \<Rightarrow> turn" where
  "feed_turn mem p data =
     (case hp_state p of
        ST_REQUEST_LINE \<Rightarrow> line_turn mem read_start_line p data
      | ST_HEADERS \<Rightarrow> line_turn mem (read_header_line mem) p data
      | ST_BODY_FIXED \<Rightarrow> turn_body_fixed mem p data
      | ST_CHUNK_SIZE \<Rightarrow> line_turn mem read_chunk_size p data
      | ST_CHUNK_DATA \<Rightarrow> turn_chunk_data mem p data
      | ST_CHUNK_DATA_CRLF \<Rightarrow> line_turn mem read_chunk_crlf p data
      | ST_TRAILERS \<Rightarrow> line_turn mem (read_trailer_line mem) p data
      | ST_COMPLETE \<Rightarrow> Out PARSE_COMPLETE p data
      | ST_ERROR \<Rightarrow> Out PARSE_ERROR p data)"

lemma set_error_fields [simp]: "hp_state (set_error p m) = ST_ERROR"
  by (simp add: set_error_def)

text \<open>
  One byte of \<open>consume_line\<close>: it goes on with a parser that differs in the line buffer only, ends
  the line, or fails, with or without taking the byte.
\<close>

definition line_state :: "string \<Rightarrow> nat \<Rightarrow> bool \<Rightarrow> nat \<Rightarrow> http_parser \<Rightarrow> http_parser" where
  "line_state l k b n p = p\<lparr>hp_line := l, hp_line_cap := k, hp_saw_cr := b, hp_allocs := n\<rparr>"

lemma line_state_self: "p = line_state (hp_line p) (hp_line_cap p) (hp_saw_cr p) (hp_allocs p) p"
  by (simp add: line_state_def)

lemma line_state_twice: "line_state l k b n (line_state l' k' b' n' p) = line_state l k b n p"
  by (simp add: line_state_def)

lemma line_reserve_ok:
  "line_reserve mem p = (True, q) \<Longrightarrow> q = line_state (hp_line p) (hp_line_cap q) (hp_saw_cr p) (hp_allocs q) p"
  by (cases p) (auto simp: line_reserve_def alloc_def Let_def line_state_def split: if_splits)

lemma line_reserve_room:
  "line_reserve mem p = (True, q) \<Longrightarrow> length (hp_line p) \<le> hp_line_cap p \<Longrightarrow>
   length (hp_line p) < hp_line_limit p \<Longrightarrow> Suc (length (hp_line p)) \<le> hp_line_cap q"
  by (auto simp: line_reserve_def alloc_def Let_def split: if_splits)

lemma line_reserve_fail:
  "line_reserve mem p = (False, q) \<Longrightarrow>
   q = set_error (line_state (hp_line p) (hp_line_cap p) (hp_saw_cr p) (hp_allocs q) p) ''out of memory''"
  by (cases p) (auto simp: line_reserve_def alloc_def Let_def line_state_def set_error_def split: if_splits)

lemma consume_byte:
  assumes "consume_line mem p (c # cs) = (r, p', rest)"
  obtains (go) l k b n where "\<And>d. consume_line mem p (c # d) = consume_line mem (line_state l k b n p) d"
      "consume_line mem (line_state l k b n p) cs = (r, p', rest)"
      "length (hp_line p) \<le> hp_line_cap p \<longrightarrow> length l \<le> k"
  | (ended) "r = LINE_DONE" "p' = p\<lparr>hp_saw_cr := False\<rparr>" "rest = cs"
      "\<And>d. consume_line mem p (c # d) = (LINE_DONE, p', d)"
  | (fail) l k b n m pre where "r = LINE_ERROR" "p' = set_error (line_state l k b n p) m"
      "rest = pre @ cs" "pre = [] \<or> pre = [c]"
      "\<And>d. consume_line mem p (c # d) = (LINE_ERROR, p', pre @ d)"
      "length (hp_line p) \<le> hp_line_cap p \<longrightarrow> length l \<le> k"
proof -
  have self: "p = line_state (hp_line p) (hp_line_cap p) (hp_saw_cr p) (hp_allocs p) p"
    by (rule line_state_self)
  consider "hp_saw_cr p" "c = LF" | "hp_saw_cr p" "c \<noteq> LF" | "\<not> hp_saw_cr p" "c = CR"
    | "\<not> hp_saw_cr p" "c \<noteq> CR" "c = LF \<or> c = NUL \<or> length (hp_line p) \<ge> hp_line_limit p"
    | "\<not> hp_saw_cr p" "c \<noteq> CR" "c \<noteq> LF" "c \<noteq> NUL" "\<not> length (hp_line p) \<ge> hp_line_limit p"
    by blast
  then show thesis
  proof cases
    case 1
    with assms show thesis by (intro ended) auto
  next
    case 2
    with assms show thesis
      by (intro fail [of "hp_line p" "hp_line_cap p" False "hp_allocs p" "''bare CR in line''" "[]"])
         (auto simp: line_state_def)
  next
    case 3
    then have "consume_line mem p (c # d) =
        consume_line mem (line_state (hp_line p) (hp_line_cap p) True (hp_allocs p) p) d" for d
      by (simp add: line_state_def)
    with assms show thesis by (intro go) auto
  next
    case 4
    then obtain m where m: "consume_line mem p (c # d) = (LINE_ERROR, set_error p m, c # d)" for d
      by (cases "c = LF"; cases "c = NUL") auto
    with assms self show thesis
      by (intro fail [of "hp_line p" "hp_line_cap p" "hp_saw_cr p" "hp_allocs p" m "[c]"]) auto
  next
    case 5
    obtain ok q where lr: "line_reserve mem p = (ok, q)" by fastforce
    show thesis
    proof (cases ok)
      case True
      then obtain k n where q: "q = line_state (hp_line p) k (hp_saw_cr p) n p"
        using lr line_reserve_ok [of mem p q] by simp
      have "q\<lparr>hp_line := hp_line q @ [c]\<rparr> = line_state (hp_line p @ [c]) k (hp_saw_cr p) n p"
        unfolding q by (cases p) (simp add: line_state_def)
      then have "consume_line mem p (c # d) = consume_line mem (line_state (hp_line p @ [c]) k (hp_saw_cr p) n p) d" for d
        using 5 lr True by simp
      moreover have "length (hp_line p) \<le> hp_line_cap p \<longrightarrow> length (hp_line p @ [c]) \<le> k"
        using lr True 5(5) line_reserve_room [of mem p q] by (simp add: q line_state_def)
      ultimately show thesis using assms by (intro go) auto
    next
      case False
      then obtain n m where "q = set_error (line_state (hp_line p) (hp_line_cap p) (hp_saw_cr p) n p) m"
        using lr line_reserve_fail [of mem p q] by simp
      with 5 lr False assms show thesis
        by (intro fail [of "hp_line p" "hp_line_cap p" "hp_saw_cr p" n m "[c]"]) auto
    qed
  qed
qed

lemma consume_line_rest:
  "consume_line mem p data = (r, p', rest) \<Longrightarrow>
   (\<exists>pre. data = pre @ rest \<and> (r = LINE_DONE \<longrightarrow> pre \<noteq> [])) \<and> (r = LINE_MORE \<longrightarrow> rest = [])"
proof (induction data arbitrary: p)
  case (Cons c cs)
  from Cons.prems show ?case
  proof (cases rule: consume_byte)
    case (go l k b n)
    from Cons.IH [OF go(2)] obtain pre where "cs = pre @ rest" "r = LINE_MORE \<longrightarrow> rest = []" by blast
    then show ?thesis by (intro conjI exI [of _ "c # pre"]) auto
  qed auto
qed auto

text \<open>A line that is not refused changes nothing but the line buffer.\<close>

lemma consume_line_frame:
  "consume_line mem p data = (r, p', rest) \<Longrightarrow>
   \<exists>l k b n. if r = LINE_ERROR then \<exists>m. p' = set_error (line_state l k b n p) m
             else p' = line_state l k b n p"
proof (induction data arbitrary: p)
  case Nil
  then show ?case using line_state_self [of p] by auto
next
  case (Cons c cs)
  from Cons.prems show ?case
  proof (cases rule: consume_byte)
    case (go l k b n)
    from Cons.IH [OF go(2)] show ?thesis unfolding line_state_twice .
  next
    case ended
    then show ?thesis
      by (intro exI [of _ "hp_line p"] exI [of _ "hp_line_cap p"] exI [of _ False] exI [of _ "hp_allocs p"])
         (simp add: line_state_def)
  next
    case (fail l k b n m pre)
    then show ?thesis
      by (intro exI [of _ l] exI [of _ k] exI [of _ b] exI [of _ n]) (simp, rule exI, rule refl)
  qed
qed

lemma consume_line_fits:
  "consume_line mem p data = (r, p', rest) \<Longrightarrow> length (hp_line p) \<le> hp_line_cap p \<Longrightarrow>
   length (hp_line p') \<le> hp_line_cap p'"
proof (induction data arbitrary: p)
  case (Cons c cs)
  from Cons.prems(1) show ?case
  proof (cases rule: consume_byte)
    case (go l k b n)
    from Cons.IH [OF go(2)] go(3) Cons.prems(2) show ?thesis by (simp add: line_state_def)
  next
    case ended
    with Cons.prems(2) show ?thesis by simp
  next
    case (fail l k b n m pre)
    with Cons.prems(2) show ?thesis by (simp add: line_state_def set_error_def)
  qed
qed auto

lemma consume_line_shorter:
  "consume_line mem p data = (r, p', rest) \<Longrightarrow>
   length rest \<le> length data \<and> (r = LINE_DONE \<longrightarrow> length rest < length data)"
  using consume_line_rest [of mem p data r p' rest] by auto

definition turn_rank :: "http_parser \<Rightarrow> string \<Rightarrow> nat" where
  "turn_rank p data = 2 * length data + (if hp_state p = ST_CHUNK_DATA then 1 else 0)"

lemmas read_defs = read_start_line_def read_header_line_def read_chunk_size_def read_chunk_crlf_def
  read_trailer_line_def

lemma read_rest:
  "read_start_line p r = Next p' rest \<Longrightarrow> rest = r"
  "read_header_line mem p r = Next p' rest \<Longrightarrow> rest = r"
  "read_chunk_size p r = Next p' rest \<Longrightarrow> rest = r"
  "read_chunk_crlf p r = Next p' rest \<Longrightarrow> rest = r"
  "read_trailer_line mem p r = Next p' rest \<Longrightarrow> rest = r"
  by (auto simp: read_defs split: prod.splits if_splits option.splits bool.splits)

lemma line_turn_shorter:
  assumes "line_turn mem f p data = Next p' rest"
    and "\<And>q r. f q r = Next p' rest \<Longrightarrow> rest = r"
  shows "length rest < length data"
proof -
  obtain r q rest' where c: "consume_line mem p data = (r, q, rest')" by (metis prod_cases3)
  with consume_line_shorter [OF c] assms show ?thesis
    by (cases r) (auto simp: line_turn_def)
qed

lemma feed_turn_rank:
  assumes "feed_turn mem p data = Next p' rest"
  shows "turn_rank p' rest < turn_rank p data"
proof (cases "hp_state p \<in> {ST_BODY_FIXED, ST_CHUNK_DATA}")
  case False
  have "length rest < length data"
    using assms False
    by (cases "hp_state p") (auto simp: feed_turn_def dest: line_turn_shorter intro: read_rest)
  with False show ?thesis by (simp add: turn_rank_def)
next
  case True
  with assms show ?thesis
    by (auto simp: feed_turn_def turn_body_fixed_def turn_chunk_data_def turn_rank_def reset_line_def Let_def
        split: prod.splits if_splits bool.splits)
qed

function feed_loop ::
  "(nat \<Rightarrow> bool) \<Rightarrow> http_parser \<Rightarrow> string \<Rightarrow> http_status \<times> http_parser \<times> string" where
  "feed_loop mem p data =
     (case feed_turn mem p data of
        Out s p rest \<Rightarrow> (s, p, rest)
      | Next p rest \<Rightarrow> feed_loop mem p rest)"
  by pat_completeness auto
termination
  by (relation "measure (\<lambda>(mem, p, data). turn_rank p data)") (auto simp: feed_turn_rank)

declare feed_loop.simps [simp del]

text \<open>\<open>bb_http_parser_feed\<close>; \<open>None\<close> for the data is a null pointer with a length above 0.\<close>

definition parser_feed ::
  "(nat \<Rightarrow> bool) \<Rightarrow> http_parser \<Rightarrow> string option \<Rightarrow> http_status \<times> http_parser" where
  "parser_feed mem p data =
     (let p = p\<lparr>hp_last_consumed := 0\<rparr> in
      if hp_state p = ST_ERROR then (PARSE_ERROR, p)
      else if hp_state p = ST_COMPLETE then (PARSE_COMPLETE, p)
      else case data of
             None \<Rightarrow> (PARSE_ERROR, set_error p ''null buffer with non-zero length'')
           | Some d \<Rightarrow>
               (case feed_loop mem p d of
                  (s, p, rest) \<Rightarrow>
                    let p = p\<lparr>hp_last_consumed := length d - length rest\<rparr>
                    in (s, if s = PARSE_ERROR \<and> hp_state p \<noteq> ST_ERROR then set_error p ''parse error''
                           else p)))"

definition bb_http_parser_feed ::
  "(nat \<Rightarrow> bool) \<Rightarrow> http_parser option \<Rightarrow> string option \<Rightarrow> http_status \<times> http_parser option" where
  "bb_http_parser_feed mem parser data =
     (case parser of
        None \<Rightarrow> (PARSE_ERROR, None)
      | Some p \<Rightarrow> (let (s, p') = parser_feed mem p data in (s, Some p')))"

end
