(* ===== verification/Http_Segments.thy ===== *)
theory Http_Segments
  imports Http_Parser
begin

text \<open>
  The parser does not see how the network cuts the stream: feeding fragments one after the other
  leads to the same state as feeding their concatenation. The capacities of the body buffer, the
  count of allocations and the size of the last read depend on the cuts, nothing else does.
\<close>

section \<open>Parsers that differ in bookkeeping only\<close>

abbreviation always :: "nat \<Rightarrow> bool" where
  "always \<equiv> \<lambda>_. True"

definition strip :: "http_parser \<Rightarrow> http_parser" where
  "strip p = p\<lparr>hp_body_cap := 0, hp_last_consumed := 0, hp_allocs := 0\<rparr>"

definition sim :: "http_parser \<Rightarrow> http_parser \<Rightarrow> bool" where
  "sim p q \<longleftrightarrow> strip p = strip q"

lemma sim_iff:
  "sim p q \<longleftrightarrow>
     hp_state p = hp_state q \<and> hp_response_mode p = hp_response_mode q \<and> hp_line p = hp_line q \<and>
     hp_line_cap p = hp_line_cap q \<and> hp_line_limit p = hp_line_limit q \<and> hp_saw_cr p = hp_saw_cr q \<and>
     hp_request p = hp_request q \<and> hp_response p = hp_response q \<and>
     hp_has_content_length p = hp_has_content_length q \<and> hp_content_length p = hp_content_length q \<and>
     hp_has_transfer_encoding p = hp_has_transfer_encoding q \<and>
     hp_transfer_chunked p = hp_transfer_chunked q \<and> hp_header_bytes p = hp_header_bytes q \<and>
     hp_trailer_bytes p = hp_trailer_bytes q \<and> hp_body_written p = hp_body_written q \<and>
     hp_chunk_remaining p = hp_chunk_remaining q \<and> hp_error_msg p = hp_error_msg q"
  by (cases p; cases q) (simp add: sim_def strip_def)

lemma sim_refl [simp]: "sim p p" by (simp add: sim_def)
lemma sim_sym: "sim p q \<Longrightarrow> sim q p" by (simp add: sim_def)
lemma sim_trans: "sim p q \<Longrightarrow> sim q r \<Longrightarrow> sim p r" by (simp add: sim_def)

lemma sim_update:
  "sim p q \<Longrightarrow> sim (set_error p m) (set_error q m)"
  "sim p q \<Longrightarrow> sim (p\<lparr>hp_state := st\<rparr>) (q\<lparr>hp_state := st\<rparr>)"
  "sim p q \<Longrightarrow> sim (reset_line p k) (reset_line q k)"
  "sim p q \<Longrightarrow> sim (p\<lparr>hp_saw_cr := b\<rparr>) (q\<lparr>hp_saw_cr := b\<rparr>)"
  "sim p q \<Longrightarrow> sim (p\<lparr>hp_line := l\<rparr>) (q\<lparr>hp_line := l\<rparr>)"
  "sim p q \<Longrightarrow> sim (p\<lparr>hp_line_cap := k\<rparr>) (q\<lparr>hp_line_cap := k\<rparr>)"
  "sim p q \<Longrightarrow> sim (p\<lparr>hp_allocs := k\<rparr>) (q\<lparr>hp_allocs := j\<rparr>)"
  "sim p q \<Longrightarrow> sim (p\<lparr>hp_body_cap := k\<rparr>) (q\<lparr>hp_body_cap := j\<rparr>)"
  "sim p q \<Longrightarrow> sim (p\<lparr>hp_last_consumed := k\<rparr>) (q\<lparr>hp_last_consumed := j\<rparr>)"
  "sim p q \<Longrightarrow> sim (p\<lparr>hp_body_written := k\<rparr>) (q\<lparr>hp_body_written := k\<rparr>)"
  "sim p q \<Longrightarrow> sim (p\<lparr>hp_chunk_remaining := k\<rparr>) (q\<lparr>hp_chunk_remaining := k\<rparr>)"
  "sim p q \<Longrightarrow> sim (p\<lparr>hp_header_bytes := k\<rparr>) (q\<lparr>hp_header_bytes := k\<rparr>)"
  "sim p q \<Longrightarrow> sim (p\<lparr>hp_trailer_bytes := k\<rparr>) (q\<lparr>hp_trailer_bytes := k\<rparr>)"
  "sim p q \<Longrightarrow> sim (p\<lparr>hp_has_transfer_encoding := b\<rparr>) (q\<lparr>hp_has_transfer_encoding := b\<rparr>)"
  "sim p q \<Longrightarrow> sim (p\<lparr>hp_transfer_chunked := b\<rparr>) (q\<lparr>hp_transfer_chunked := b\<rparr>)"
  "sim p q \<Longrightarrow> sim (p\<lparr>hp_has_content_length := b, hp_content_length := k\<rparr>)
                    (q\<lparr>hp_has_content_length := b, hp_content_length := k\<rparr>)"
  "sim p q \<Longrightarrow> sim (set_active_headers hs p) (set_active_headers hs q)"
  "sim p q \<Longrightarrow> sim (set_active_trailers hs p) (set_active_trailers hs q)"
  "sim p q \<Longrightarrow> sim (set_active_body bd p) (set_active_body bd q)"
  "sim p q \<Longrightarrow> sim (p\<lparr>hp_request := rq\<rparr>) (q\<lparr>hp_request := rq\<rparr>)"
  "sim p q \<Longrightarrow> sim (p\<lparr>hp_response := rs\<rparr>) (q\<lparr>hp_response := rs\<rparr>)"
  by (simp_all add: sim_iff set_error_def reset_line_def set_active_headers_def
      set_active_trailers_def set_active_body_def)

lemma sim_fields:
  assumes "sim p q"
  shows "hp_state q = hp_state p" "hp_response_mode q = hp_response_mode p" "hp_line q = hp_line p"
    "hp_line_cap q = hp_line_cap p" "hp_line_limit q = hp_line_limit p" "hp_saw_cr q = hp_saw_cr p"
    "hp_request q = hp_request p" "hp_response q = hp_response p"
    "hp_has_content_length q = hp_has_content_length p" "hp_content_length q = hp_content_length p"
    "hp_has_transfer_encoding q = hp_has_transfer_encoding p"
    "hp_transfer_chunked q = hp_transfer_chunked p" "hp_header_bytes q = hp_header_bytes p"
    "hp_trailer_bytes q = hp_trailer_bytes p" "hp_body_written q = hp_body_written p"
    "hp_chunk_remaining q = hp_chunk_remaining p" "hp_error_msg q = hp_error_msg p"
    "active_headers q = active_headers p" "active_trailers q = active_trailers p"
    "active_body q = active_body p"
  using assms by (simp_all add: sim_iff active_headers_def active_trailers_def active_body_def)

text \<open>The same result, up to bookkeeping, of the functions that return a flag and a parser.\<close>

definition sim_res :: "bool \<times> http_parser \<Rightarrow> bool \<times> http_parser \<Rightarrow> bool" where
  "sim_res x y \<longleftrightarrow> fst x = fst y \<and> sim (snd x) (snd y)"

lemma sim_resI: "b = b' \<Longrightarrow> sim p q \<Longrightarrow> sim_res (b, p) (b', q)"
  by (simp add: sim_res_def)

lemma sim_res_if:
  "(b \<Longrightarrow> sim_res x y) \<Longrightarrow> (\<not> b \<Longrightarrow> sim_res u v) \<Longrightarrow>
   sim_res (if b then x else u) (if b then y else v)"
  by simp

lemma sim_res_option:
  "(\<And>m. a = Some m \<Longrightarrow> sim_res (f m) (g m)) \<Longrightarrow> (a = None \<Longrightarrow> sim_res x y) \<Longrightarrow>
   sim_res (case a of Some m \<Rightarrow> f m | None \<Rightarrow> x) (case a of Some m \<Rightarrow> g m | None \<Rightarrow> y)"
  by (simp split: option.split)

lemmas sim_intros = sim_res_if sim_res_option sim_resI sim_update refl

lemma parse_request_line_sim:
  assumes s: "sim p q"
  shows "sim_res (parse_request_line p) (parse_request_line q)"
  unfolding parse_request_line_def Let_def
  by (simp add: sim_fields [OF s] cong: if_cong option.case_cong split del: if_split)
     (intro sim_intros s)

lemma parse_response_line_sim:
  assumes s: "sim p q"
  shows "sim_res (parse_response_line p) (parse_response_line q)"
  unfolding parse_response_line_def Let_def
  by (simp add: sim_fields [OF s] cong: if_cong split del: if_split) (intro sim_intros s)

definition sim_fst :: "http_parser \<times> 'a \<Rightarrow> http_parser \<times> 'a \<Rightarrow> bool" where
  "sim_fst x y \<longleftrightarrow> sim (fst x) (fst y) \<and> snd x = snd y"

lemma sim_fst_intros:
  "(b \<Longrightarrow> sim_fst x y) \<Longrightarrow> (\<not> b \<Longrightarrow> sim_fst u v) \<Longrightarrow>
   sim_fst (if b then x else u) (if b then y else v)"
  "sim p q \<Longrightarrow> sim_fst (p, z) (q, z)"
  by (simp_all add: sim_fst_def)

lemma parse_chunk_size_line_sim:
  "sim p q \<Longrightarrow> sim_fst (parse_chunk_size_line p) (parse_chunk_size_line q)"
  by (simp add: parse_chunk_size_line_def Let_def sim_fields sim_fst_def sim_update
      split: option.split)

lemma parse_field_line_sim:
  assumes s: "sim p q"
  shows "sim_fst (parse_field_line always p hs mc b mb) (parse_field_line always q hs mc b mb)"
  unfolding parse_field_line_def Let_def alloc_def
  by (simp add: sim_fields [OF s] cong: if_cong split del: if_split) (intro sim_fst_intros sim_update s)

lemma codings_sim: "sim p q \<Longrightarrow> sim_res (codings p v) (codings q v)"
proof (induction p v arbitrary: q rule: codings.induct)
  case (1 p v)
  show ?case
  proof (cases "v = []")
    case True
    with 1(2) show ?thesis by (simp add: codings.simps sim_res_def)
  next
    case False
    let ?s = "dropWhile is_blank v"
    let ?t = "rev (dropWhile is_blank (rev (takeWhile (\<lambda>c. c \<noteq> CHR '','') ?s)))"
    show ?thesis
    proof (cases "length ?t = 0 \<or> length ?t \<noteq> 7 \<or> \<not> same_nocase ?t ''chunked''")
      case True
      with False sim_update(1) [OF 1(2)] show ?thesis
        by (simp only: codings.simps [of _ v] Let_def if_False if_True sim_res_def fst_conv snd_conv simp_thms)
    next
      case ok: False
      have s: "sim (p\<lparr>hp_transfer_chunked := True\<rparr>) (q\<lparr>hp_transfer_chunked := True\<rparr>)"
        by (rule sim_update [OF 1(2)])
      show ?thesis
      proof (cases "dropWhile (\<lambda>c. c \<noteq> CHR '','') ?s")
        case Nil
        from s show ?thesis
          by (simp only: codings.simps [of _ v] Let_def False ok Nil if_False list.case sim_res_def
              fst_conv snd_conv simp_thms)
      next
        case (Cons c rest)
        with 1(1) [OF False refl refl refl ok Cons s] show ?thesis
          by (simp only: codings.simps [of _ v] Let_def False ok Cons if_False list.case)
      qed
    qed
  qed
qed

lemma apply_header_sim: "sim p q \<Longrightarrow> sim_res (apply_header p h) (apply_header q h)"
proof -
  assume s: "sim p q"
  have cl: "sim_res (apply_content_length p v) (apply_content_length q v)" for v
    using s by (auto simp: apply_content_length_def sim_fields [OF s] sim_res_def
        intro!: sim_update split: sum.split)
  have te: "sim_res (apply_transfer_encoding p v) (apply_transfer_encoding q v)" for v
    using codings_sim [OF s, of v]
    by (auto simp: apply_transfer_encoding_def sim_res_def sim_fields intro!: sim_update
        split: prod.split bool.split)
  show ?thesis using s cl te by (simp add: apply_header_def sim_res_def)
qed

lemma body_reserve_sim: "sim_res (True, p) (body_reserve always p k)"
  by (simp add: body_reserve_def alloc_def Let_def sim_res_def sim_iff)

definition appended :: "string \<Rightarrow> http_parser \<Rightarrow> http_parser" where
  "appended d p = (set_active_body (active_body p @ d) p)\<lparr>hp_body_written := hp_body_written p + length d\<rparr>"

lemma appended_sim: "sim p q \<Longrightarrow> sim (appended d p) (appended d q)"
  by (simp add: appended_def sim_fields sim_update)

lemma body_append_sim: "sim_res (True, appended d p) (body_append always p d)"
proof (cases "d = []")
  case True
  then show ?thesis
    by (simp add: body_append_def sim_res_def appended_def set_active_body_def active_body_def)
next
  case False
  obtain b q where r: "body_reserve always p (hp_body_written p + length d) = (b, q)" by fastforce
  then have "b" "sim p q"
    using body_reserve_sim [of p "hp_body_written p + length d"] by (simp_all add: sim_res_def)
  with False r appended_sim [of p q d] show ?thesis
    by (simp add: body_append_def sim_res_def appended_def)
qed

lemma finish_headers_sim:
  assumes s: "sim p q"
  shows "sim_res (finish_headers always p) (finish_headers always q)"
proof -
  let ?k = "hp_content_length p"
  obtain b p' where p': "body_reserve always p ?k = (b, p')" by fastforce
  obtain c q' where q': "body_reserve always q ?k = (c, q')" by fastforce
  have "b" "c" "sim p p'" "sim q q'"
    using body_reserve_sim [of p ?k] body_reserve_sim [of q ?k] p' q' by (simp_all add: sim_res_def)
  then have "sim p' q'" using s by (meson sim_sym sim_trans)
  then show ?thesis
    unfolding finish_headers_def sim_fields [OF s] p' q' using \<open>b\<close> \<open>c\<close>
    by (simp cong: if_cong split del: if_split) (intro sim_intros s \<open>sim p' q'\<close>)
qed

section \<open>One turn on similar parsers\<close>

definition sim_line ::
  "line_result \<times> http_parser \<times> string \<Rightarrow> line_result \<times> http_parser \<times> string \<Rightarrow> bool" where
  "sim_line x y \<longleftrightarrow> fst x = fst y \<and> sim (fst (snd x)) (fst (snd y)) \<and> snd (snd x) = snd (snd y)"

lemma line_reserve_sim:
  "sim p q \<Longrightarrow> sim_res (line_reserve always p) (line_reserve always q)"
  by (simp add: line_reserve_def alloc_def Let_def sim_res_def sim_iff)

lemma consume_line_sim:
  "sim p q \<Longrightarrow> sim_line (consume_line always p d) (consume_line always q d)"
proof (induction d arbitrary: p q)
  case Nil
  then show ?case by (simp add: sim_line_def)
next
  case (Cons c cs)
  note s = Cons.prems
  obtain b p' where p': "line_reserve always p = (b, p')" by fastforce
  obtain e q' where q': "line_reserve always q = (e, q')" by fastforce
  have r: "b = e" "sim p' q'"
    using line_reserve_sim [OF s] p' q' by (simp_all add: sim_res_def)
  have a: "sim_line (consume_line always (p'\<lparr>hp_line := hp_line p' @ [c]\<rparr>) cs)
                    (consume_line always (q'\<lparr>hp_line := hp_line p' @ [c]\<rparr>) cs)"
    by (rule Cons.IH) (rule sim_update [OF r(2)])
  have cr: "sim_line (consume_line always (p\<lparr>hp_saw_cr := True\<rparr>) cs)
                     (consume_line always (q\<lparr>hp_saw_cr := True\<rparr>) cs)"
    by (rule Cons.IH) (rule sim_update [OF s])
  show ?case
    using a cr r(2) s
    by (simp add: p' q' r(1) [symmetric] sim_fields [OF s] sim_fields [OF r(2)] Let_def)
       (auto simp: sim_line_def sim_fields(3) [OF r(2)] intro!: sim_update split: bool.split)
qed

definition sim_turn :: "turn \<Rightarrow> turn \<Rightarrow> bool" where
  "sim_turn x y \<longleftrightarrow>
     (case (x, y) of
        (Next p r, Next q r') \<Rightarrow> sim p q \<and> r = r'
      | (Out s p r, Out s' q r') \<Rightarrow> s = s' \<and> sim p q \<and> r = r'
      | _ \<Rightarrow> False)"

lemma sim_turn_simps [simp]:
  "sim_turn (Next p r) (Next q r') \<longleftrightarrow> sim p q \<and> r = r'"
  "sim_turn (Out s p r) (Out s' q r') \<longleftrightarrow> s = s' \<and> sim p q \<and> r = r'"
  by (simp_all add: sim_turn_def)

text \<open>Case analyses that both sides make in the same way.\<close>

lemma line_turn_sim:
  assumes "sim p q" and "\<And>p q r. sim p q \<Longrightarrow> sim_turn (f p r) (f q r)"
  shows "sim_turn (line_turn always f p d) (line_turn always f q d)"
proof -
  obtain x a r where p: "consume_line always p d = (x, a, r)" by (metis prod_cases3)
  obtain y b r' where q: "consume_line always q d = (y, b, r')" by (metis prod_cases3)
  show ?thesis
    using consume_line_sim [OF assms(1), of d] assms(2)
    by (cases x) (simp_all add: line_turn_def p q sim_line_def)
qed

lemma sim_res_case:
  assumes "sim_res x y"
    and "\<And>p q. sim p q \<Longrightarrow> sim_turn (f p) (g q)" and "\<And>p q. sim p q \<Longrightarrow> sim_turn (f' p) (g' q)"
  shows "sim_turn (case x of (False, p) \<Rightarrow> f p | (True, p) \<Rightarrow> f' p)
                  (case y of (False, p) \<Rightarrow> g p | (True, p) \<Rightarrow> g' p)"
  using assms by (cases x; cases y) (auto simp: sim_res_def split: bool.split)

lemma sim_fst_case:
  assumes "sim_fst x y"
    and "\<And>p q. sim p q \<Longrightarrow> sim_turn (f p) (g q)" and "\<And>p q z. sim p q \<Longrightarrow> sim_turn (f' p z) (g' q z)"
  shows "sim_turn (case x of (p, None) \<Rightarrow> f p | (p, Some z) \<Rightarrow> f' p z)
                  (case y of (p, None) \<Rightarrow> g p | (p, Some z) \<Rightarrow> g' p z)"
  using assms by (cases x; cases y) (auto simp: sim_fst_def split: option.split)

lemma sim_turn_if:
  "(b \<Longrightarrow> sim_turn x y) \<Longrightarrow> (\<not> b \<Longrightarrow> sim_turn u v) \<Longrightarrow>
   sim_turn (if b then x else u) (if b then y else v)"
  by simp

lemma body_append_sim2: "sim p q \<Longrightarrow> sim_res (body_append always p d) (body_append always q d)"
proof -
  assume "sim p q"
  from appended_sim [OF this, of d] have "sim (appended d p) (appended d q)" .
  moreover have "fst (body_append always p d)" "sim (appended d p) (snd (body_append always p d))"
    using body_append_sim [of d p] by (simp_all add: sim_res_def)
  moreover have "fst (body_append always q d)" "sim (appended d q) (snd (body_append always q d))"
    using body_append_sim [of d q] by (simp_all add: sim_res_def)
  ultimately show ?thesis by (simp add: sim_res_def sim_def)
qed

lemma read_start_line_sim:
  assumes s: "sim a b"
  shows "sim_turn (read_start_line a r) (read_start_line b r)"
proof -
  have "sim_res (if hp_response_mode a then parse_response_line a else parse_request_line a)
                (if hp_response_mode b then parse_response_line b else parse_request_line b)"
    using parse_response_line_sim [OF s] parse_request_line_sim [OF s] sim_fields [OF s] by simp
  then show ?thesis
    unfolding read_start_line_def by (rule sim_res_case) (simp_all add: sim_update)
qed

lemma store_sim:
  assumes s: "sim p q"
  shows "sim (store_header x p) (store_header x q)" "sim (store_trailer x p) (store_trailer x q)"
  unfolding store_header_def store_trailer_def sim_fields [OF s] by (intro sim_update s)+

lemma read_header_line_sim:
  assumes s: "sim a b"
  shows "sim_turn (read_header_line always a r) (read_header_line always b r)"
  unfolding read_header_line_def sim_fields [OF s]
proof (rule sim_turn_if)
  show "sim_turn
      (case finish_headers always a of (False, p) \<Rightarrow> Out PARSE_ERROR p r
       | (True, p) \<Rightarrow> if hp_state p = ST_COMPLETE then Out PARSE_COMPLETE p r else Next p r)
      (case finish_headers always b of (False, p) \<Rightarrow> Out PARSE_ERROR p r
       | (True, p) \<Rightarrow> if hp_state p = ST_COMPLETE then Out PARSE_COMPLETE p r else Next p r)"
    by (rule sim_res_case [OF finish_headers_sim [OF s]]) (simp_all add: sim_fields)
next
  show "sim_turn
      (case parse_field_line always a (active_headers a) MAX_HEADER_COUNT (hp_header_bytes a)
              MAX_HEADER_SIZE of
         (p, None) \<Rightarrow> Out PARSE_ERROR p r
       | (p, Some x) \<Rightarrow>
           (case apply_header (store_header x p) (fst x) of
              (False, p) \<Rightarrow> Out PARSE_ERROR p r
            | (True, p) \<Rightarrow> Next (reset_line p MAX_HEADER_SIZE) r))
      (case parse_field_line always b (active_headers a) MAX_HEADER_COUNT (hp_header_bytes a)
              MAX_HEADER_SIZE of
         (p, None) \<Rightarrow> Out PARSE_ERROR p r
       | (p, Some x) \<Rightarrow>
           (case apply_header (store_header x p) (fst x) of
              (False, p) \<Rightarrow> Out PARSE_ERROR p r
            | (True, p) \<Rightarrow> Next (reset_line p MAX_HEADER_SIZE) r))"
  proof (rule sim_fst_case [OF parse_field_line_sim [OF s]])
    fix p q z assume "sim p q"
    from apply_header_sim [OF store_sim(1) [OF this], of z "fst z"]
    show "sim_turn
        (case apply_header (store_header z p) (fst z) of
              (False, p) \<Rightarrow> Out PARSE_ERROR p r
            | (True, p) \<Rightarrow> Next (reset_line p MAX_HEADER_SIZE) r)
        (case apply_header (store_header z q) (fst z) of
              (False, p) \<Rightarrow> Out PARSE_ERROR p r
            | (True, p) \<Rightarrow> Next (reset_line p MAX_HEADER_SIZE) r)"
      by (rule sim_res_case) (simp_all add: sim_update)
  qed simp
qed

lemma read_chunk_size_sim:
  assumes s: "sim a b"
  shows "sim_turn (read_chunk_size a r) (read_chunk_size b r)"
  unfolding read_chunk_size_def
  by (rule sim_fst_case [OF parse_chunk_size_line_sim [OF s]])
     (simp_all add: sim_iff reset_line_def set_error_def)

lemma read_chunk_crlf_sim:
  assumes s: "sim a b"
  shows "sim_turn (read_chunk_crlf a r) (read_chunk_crlf b r)"
  using s by (simp add: read_chunk_crlf_def sim_fields sim_update)

lemma read_trailer_line_sim:
  assumes s: "sim a b"
  shows "sim_turn (read_trailer_line always a r) (read_trailer_line always b r)"
  unfolding read_trailer_line_def sim_fields [OF s]
proof (rule sim_turn_if)
  show "sim_turn (Out PARSE_COMPLETE (a\<lparr>hp_state := ST_COMPLETE\<rparr>) r) (Out PARSE_COMPLETE (b\<lparr>hp_state := ST_COMPLETE\<rparr>) r)"
    using s by (simp add: sim_update)
next
  show "sim_turn
      (case parse_field_line always a (active_trailers a) MAX_TRAILER_COUNT (hp_trailer_bytes a)
              MAX_TRAILER_SIZE of
         (p, None) \<Rightarrow> Out PARSE_ERROR p r
       | (p, Some x) \<Rightarrow>
           if same_nocase (hh_name (fst x)) ''content-length'' \<or>
              same_nocase (hh_name (fst x)) ''transfer-encoding''
           then Out PARSE_ERROR (set_error (store_trailer x p) ''framing header not allowed in trailers'') r
           else Next (reset_line (store_trailer x p) MAX_TRAILER_SIZE) r)
      (case parse_field_line always b (active_trailers a) MAX_TRAILER_COUNT (hp_trailer_bytes a)
              MAX_TRAILER_SIZE of
         (p, None) \<Rightarrow> Out PARSE_ERROR p r
       | (p, Some x) \<Rightarrow>
           if same_nocase (hh_name (fst x)) ''content-length'' \<or>
              same_nocase (hh_name (fst x)) ''transfer-encoding''
           then Out PARSE_ERROR (set_error (store_trailer x p) ''framing header not allowed in trailers'') r
           else Next (reset_line (store_trailer x p) MAX_TRAILER_SIZE) r)"
    by (rule sim_fst_case [OF parse_field_line_sim [OF s]]) (simp_all add: sim_update store_sim)
qed

lemma sim_res_guarded:
  "sim p q \<Longrightarrow> (\<And>p q. sim p q \<Longrightarrow> sim_res (f p) (f q)) \<Longrightarrow>
   sim_res (if b then f p else (True, p)) (if b then f q else (True, q))"
  by (simp add: sim_res_def)

lemma turn_body_fixed_sim:
  assumes s: "sim p q"
  shows "sim_turn (turn_body_fixed always p d) (turn_body_fixed always q d)"
  unfolding turn_body_fixed_def Let_def sim_fields [OF s]
proof (rule sim_res_case [OF sim_res_guarded [OF s body_append_sim2]])
  fix a b assume s: "sim a b"
  let ?n = "min (hp_content_length p - hp_body_written p) (length d)"
  show "sim_turn
      (if hp_content_length a \<le> hp_body_written a
       then Out PARSE_COMPLETE (a\<lparr>hp_state := ST_COMPLETE\<rparr>) (drop ?n d) else Out PARSE_INCOMPLETE a (drop ?n d))
      (if hp_content_length b \<le> hp_body_written b
       then Out PARSE_COMPLETE (b\<lparr>hp_state := ST_COMPLETE\<rparr>) (drop ?n d) else Out PARSE_INCOMPLETE b (drop ?n d))"
    by (simp add: sim_fields [OF s] sim_update s)
qed simp_all

definition take_chunk :: "nat \<Rightarrow> string \<Rightarrow> http_parser \<Rightarrow> bool \<times> http_parser" where
  "take_chunk n d p = (case body_append always p d of
                         (False, p) \<Rightarrow> (False, p)
                       | (True, p) \<Rightarrow> (True, p\<lparr>hp_chunk_remaining := hp_chunk_remaining p - n\<rparr>))"

lemma take_chunk_sim: "sim p q \<Longrightarrow> sim_res (take_chunk n d p) (take_chunk n d q)"
  using body_append_sim2 [of p q d]
  by (auto simp: take_chunk_def sim_res_def sim_fields intro!: sim_update split: prod.split bool.split)

lemma turn_chunk_data_sim:
  assumes s: "sim p q"
  shows "sim_turn (turn_chunk_data always p d) (turn_chunk_data always q d)"
  unfolding turn_chunk_data_def Let_def sim_fields [OF s] take_chunk_def [symmetric]
proof (rule sim_res_case [OF sim_res_guarded [OF s take_chunk_sim]])
  fix a b assume s: "sim a b"
  let ?n = "min (hp_chunk_remaining p) (length d)"
  show "sim_turn
      (if 0 < hp_chunk_remaining a then Out PARSE_INCOMPLETE a (drop ?n d)
       else Next (reset_line (a\<lparr>hp_state := ST_CHUNK_DATA_CRLF\<rparr>) 0) (drop ?n d))
      (if 0 < hp_chunk_remaining b then Out PARSE_INCOMPLETE b (drop ?n d)
       else Next (reset_line (b\<lparr>hp_state := ST_CHUNK_DATA_CRLF\<rparr>) 0) (drop ?n d))"
    by (simp add: sim_fields [OF s] sim_update s)
qed simp_all

lemma feed_turn_sim:
  assumes s: "sim p q"
  shows "sim_turn (feed_turn always p d) (feed_turn always q d)"
  unfolding feed_turn_def sim_fields [OF s] using s
  by (cases "hp_state p")
     (simp_all add: line_turn_sim read_start_line_sim read_header_line_sim read_chunk_size_sim
        read_chunk_crlf_sim read_trailer_line_sim turn_body_fixed_sim turn_chunk_data_sim)

definition sim_out ::
  "http_status \<times> http_parser \<times> string \<Rightarrow> http_status \<times> http_parser \<times> string \<Rightarrow> bool" where
  "sim_out x y \<longleftrightarrow> fst x = fst y \<and> sim (fst (snd x)) (fst (snd y)) \<and> snd (snd x) = snd (snd y)"

lemma feed_loop_sim:
  "mem = always \<Longrightarrow> sim p q \<Longrightarrow> sim_out (feed_loop mem p d) (feed_loop mem q d)"
proof (induction mem p d arbitrary: q rule: feed_loop.induct)
  case (1 mem p d)
  note t = feed_turn_sim [OF "1.prems"(2), of d, folded "1.prems"(1)]
  show ?case
  proof (cases "feed_turn mem p d")
    case (Next p' r)
    then obtain q' where q': "feed_turn mem q d = Next q' r" "sim p' q'"
      using t by (cases "feed_turn mem q d") (auto simp: sim_turn_def)
    with "1.IH" [OF Next "1.prems"(1) q'(2)] Next show ?thesis
      by (simp add: feed_loop.simps [of mem p] feed_loop.simps [of mem q])
  next
    case (Out s p' r)
    then show ?thesis
      using t by (cases "feed_turn mem q d")
        (auto simp: sim_turn_def sim_out_def feed_loop.simps [of mem p] feed_loop.simps [of mem q])
  qed
qed

section \<open>More input\<close>

lemma consume_line_append:
  "consume_line mem p a = (r, p', rest) \<Longrightarrow>
   consume_line mem p (a @ b) =
     (if r = LINE_MORE then consume_line mem p' b else (r, p', rest @ b))"
proof (induction a arbitrary: p)
  case (Cons c cs)
  from Cons.prems show ?case
  proof (cases rule: consume_byte)
    case (go l k s n)
    from Cons.IH [OF go(2)] go(1) show ?thesis by simp
  next
    case ended
    then show ?thesis by simp
  next
    case (fail l k s n m pre)
    then show ?thesis by simp
  qed
qed simp

lemma consume_line_state:
  "consume_line mem p a = (r, p', rest) \<Longrightarrow> r \<noteq> LINE_ERROR \<Longrightarrow> hp_state p' = hp_state p"
  using consume_line_frame [of mem p a r p' rest] by (auto simp: line_state_def)

text \<open>How a turn on \<open>a\<close> extends to a turn on \<open>a @ b\<close>.\<close>

definition extends :: "turn \<Rightarrow> turn \<Rightarrow> string \<Rightarrow> (http_parser \<Rightarrow> turn) \<Rightarrow> bool" where
  "extends t u b next_turn \<longleftrightarrow>
     (case t of
        Next p r \<Rightarrow> sim_turn (Next p (r @ b)) u
      | Out s p r \<Rightarrow> if s = PARSE_INCOMPLETE then r = [] \<and> sim_turn (next_turn p) u
                   else sim_turn (Out s p (r @ b)) u)"

lemma sim_turn_refl [simp]: "sim_turn t t"
  by (cases t) simp_all

lemma line_turn_extends:
  assumes "\<And>q r. f q (r @ b) = (case f q r of Next p r \<Rightarrow> Next p (r @ b) | Out s p r \<Rightarrow> Out s p (r @ b))"
    and "\<And>q r s p r'. f q r \<noteq> Out PARSE_INCOMPLETE p r'"
  shows "extends (line_turn mem f p a) (line_turn mem f p (a @ b)) b (\<lambda>p'. line_turn mem f p' b)"
proof -
  obtain r q rest where c: "consume_line mem p a = (r, q, rest)" by (metis prod_cases3)
  show ?thesis
  proof (cases r)
    case LINE_DONE
    with consume_line_append [OF c, of b] c show ?thesis
      using assms(2) by (cases "f q rest") (auto simp: line_turn_def extends_def assms(1))
  next
    case LINE_MORE
    with consume_line_append [OF c, of b] consume_line_rest [OF c] c show ?thesis
      by (simp add: line_turn_def extends_def)
  next
    case LINE_ERROR
    with consume_line_append [OF c, of b] c show ?thesis by (simp add: line_turn_def extends_def)
  qed
qed

lemma line_turn_more_state:
  "line_turn mem f p a = Out PARSE_INCOMPLETE p' r \<Longrightarrow> (\<And>q r p r'. f q r \<noteq> Out PARSE_INCOMPLETE p r') \<Longrightarrow>
   hp_state p' = hp_state p"
  using consume_line_state [of mem p a]
  by (auto simp: line_turn_def split: prod.splits line_result.splits)

lemma read_append:
  "read_start_line q (r @ b) = (case read_start_line q r of Next p r \<Rightarrow> Next p (r @ b) | Out s p r \<Rightarrow> Out s p (r @ b))"
  "read_header_line mem q (r @ b) = (case read_header_line mem q r of Next p r \<Rightarrow> Next p (r @ b) | Out s p r \<Rightarrow> Out s p (r @ b))"
  "read_chunk_size q (r @ b) = (case read_chunk_size q r of Next p r \<Rightarrow> Next p (r @ b) | Out s p r \<Rightarrow> Out s p (r @ b))"
  "read_chunk_crlf q (r @ b) = (case read_chunk_crlf q r of Next p r \<Rightarrow> Next p (r @ b) | Out s p r \<Rightarrow> Out s p (r @ b))"
  "read_trailer_line mem q (r @ b) = (case read_trailer_line mem q r of Next p r \<Rightarrow> Next p (r @ b) | Out s p r \<Rightarrow> Out s p (r @ b))"
  by (simp_all add: read_defs split: prod.split option.split bool.split)

lemma read_not_incomplete:
  "read_start_line q r \<noteq> Out PARSE_INCOMPLETE p r'"
  "read_header_line mem q r \<noteq> Out PARSE_INCOMPLETE p r'"
  "read_chunk_size q r \<noteq> Out PARSE_INCOMPLETE p r'"
  "read_chunk_crlf q r \<noteq> Out PARSE_INCOMPLETE p r'"
  "read_trailer_line mem q r \<noteq> Out PARSE_INCOMPLETE p r'"
  by (simp_all add: read_defs split: prod.split option.split bool.split)

lemma body_append_core:
  obtains q where "body_append always p d = (True, q)" "sim (appended d p) q"
  using body_append_sim [of d p] that by (cases "body_append always p d") (auto simp: sim_res_def)

lemma appended_fields [simp]:
  "hp_content_length (appended d p) = hp_content_length p"
  "hp_body_written (appended d p) = hp_body_written p + length d"
  "hp_chunk_remaining (appended d p) = hp_chunk_remaining p"
  "hp_state (appended d p) = hp_state p"
  by (simp_all add: appended_def set_active_body_def)

lemma appended_appended: "appended e (appended d p) = appended (d @ e) p"
  by (simp add: appended_def set_active_body_def active_body_def)

lemma appended_Nil [simp]: "appended [] p = p"
  by (simp add: appended_def set_active_body_def active_body_def)

text \<open>The two states that copy bytes, on what they do up to bookkeeping.\<close>

lemma turn_body_fixed_core:
  "sim_turn (turn_body_fixed always p d)
     (let n = min (hp_content_length p - hp_body_written p) (length d); q = appended (take n d) p
      in if hp_body_written q \<ge> hp_content_length p then Out PARSE_COMPLETE (q\<lparr>hp_state := ST_COMPLETE\<rparr>) (drop n d)
         else Out PARSE_INCOMPLETE q (drop n d))"
proof -
  define n where "n = min (hp_content_length p - hp_body_written p) (length d)"
  obtain q where q: "body_append always p (take n d) = (True, q)" "sim (appended (take n d) p) q"
    by (rule body_append_core)
  note s = sim_sym [OF q(2)]
  show ?thesis
    using q(1) s sim_update(2) [OF s, of ST_COMPLETE] sim_fields(10,15) [OF s, symmetric]
    unfolding turn_body_fixed_def n_def [symmetric] Let_def by (cases "n > 0") simp_all
qed

lemma turn_chunk_data_core:
  "sim_turn (turn_chunk_data always p d)
     (let n = min (hp_chunk_remaining p) (length d);
          q = (appended (take n d) p)\<lparr>hp_chunk_remaining := hp_chunk_remaining p - n\<rparr>
      in if hp_chunk_remaining q > 0 then Out PARSE_INCOMPLETE q (drop n d)
         else Next (reset_line (q\<lparr>hp_state := ST_CHUNK_DATA_CRLF\<rparr>) 0) (drop n d))"
proof -
  define n where "n = min (hp_chunk_remaining p) (length d)"
  obtain q where q: "body_append always p (take n d) = (True, q)" "sim (appended (take n d) p) q"
    by (rule body_append_core)
  note s = sim_update(11) [OF sim_sym [OF q(2)], of "hp_chunk_remaining p - n"]
  note t = sim_update(3) [OF sim_update(2) [OF s, of ST_CHUNK_DATA_CRLF], of 0]
  show ?thesis
    using q(1) s t sim_fields(16) [OF q(2)]
    unfolding turn_chunk_data_def n_def [symmetric] Let_def
    by (cases "n > 0"; cases "n < hp_chunk_remaining p") (simp_all, simp_all add: sim_iff reset_line_def)
qed

lemma sim_turn_sym: "sim_turn t u \<Longrightarrow> sim_turn u t"
  by (cases t; cases u) (auto simp: sim_turn_def sim_sym)

lemma sim_turn_trans: "sim_turn t u \<Longrightarrow> sim_turn u v \<Longrightarrow> sim_turn t v"
  by (cases t; cases u; cases v) (auto simp: sim_turn_def intro: sim_trans)

lemma extends_sim:
  assumes e: "extends t' u' b f" and t: "sim_turn t' t" and u: "sim_turn u' u"
    and f: "\<And>p q. sim p q \<Longrightarrow> sim_turn (f p) (f q)"
  shows "extends t u b f"
proof (cases t')
  case (Next p r)
  then obtain q where q: "t = Next q r" "sim p q"
    using t by (cases t) (auto simp: sim_turn_def)
  have "sim_turn (Next q (r @ b)) (Next p (r @ b))" using sim_sym [OF q(2)] by simp
  moreover have "sim_turn (Next p (r @ b)) u'" using e Next by (simp add: extends_def)
  ultimately have "sim_turn (Next q (r @ b)) u" by (rule sim_turn_trans [OF sim_turn_trans u])
  then show ?thesis by (simp add: extends_def q(1))
next
  case (Out s p r)
  then obtain q where q: "t = Out s q r" "sim p q"
    using t by (cases t) (auto simp: sim_turn_def)
  show ?thesis
  proof (cases "s = PARSE_INCOMPLETE")
    case True
    then have "r = []" "sim_turn (f p) u'" using e Out by (simp_all add: extends_def)
    moreover have "sim_turn (f q) u"
      by (rule sim_turn_trans [OF sim_turn_trans [OF f [OF sim_sym [OF q(2)]] \<open>sim_turn (f p) u'\<close>] u])
    ultimately show ?thesis by (simp add: extends_def q(1) True)
  next
    case False
    have "sim_turn (Out s q (r @ b)) (Out s p (r @ b))" using sim_sym [OF q(2)] by simp
    moreover have "sim_turn (Out s p (r @ b)) u'" using e Out False by (simp add: extends_def)
    ultimately have "sim_turn (Out s q (r @ b)) u" by (rule sim_turn_trans [OF sim_turn_trans u])
    then show ?thesis using False by (simp add: extends_def q(1))
  qed
qed

lemma turn_body_fixed_extends:
  "extends (turn_body_fixed always p a) (turn_body_fixed always p (a @ b)) b (\<lambda>q. turn_body_fixed always q b)"
proof -
  define core where "core p d = (let n = min (hp_content_length p - hp_body_written p) (length d);
      q = appended (take n d) p
      in if hp_body_written q \<ge> hp_content_length p then Out PARSE_COMPLETE (q\<lparr>hp_state := ST_COMPLETE\<rparr>) (drop n d)
         else Out PARSE_INCOMPLETE q (drop n d))" for p d
  have core: "sim_turn (core p d) (turn_body_fixed always p d)" for p d
    unfolding core_def by (rule sim_turn_sym [OF turn_body_fixed_core])
  have "extends (core p a) (core p (a @ b)) b (\<lambda>q. turn_body_fixed always q b)"
  proof (cases "hp_content_length p - hp_body_written p \<le> length a")
    case True
    then show ?thesis by (auto simp: core_def extends_def Let_def min_def)
  next
    case False
    then have c: "core p a = Out PARSE_INCOMPLETE (appended a p) []"
      by (simp add: core_def Let_def min_def)
    have n: "min (hp_content_length p - hp_body_written p) (length (a @ b)) =
             length a + min (hp_content_length p - (hp_body_written p + length a)) (length b)"
      using False by (simp add: min_def) linarith
    have "core (appended a p) b = core p (a @ b)"
      unfolding core_def n Let_def by (simp add: appended_appended add.assoc) linarith
    with sim_turn_sym [OF core [of "appended a p" b]] c show ?thesis
      by (simp add: extends_def)
  qed
  then show ?thesis by (rule extends_sim [OF _ core core turn_body_fixed_sim])
qed

lemma turn_chunk_data_extends:
  "extends (turn_chunk_data always p a) (turn_chunk_data always p (a @ b)) b (\<lambda>q. turn_chunk_data always q b)"
proof -
  define core where "core p d = (let n = min (hp_chunk_remaining p) (length d);
          q = (appended (take n d) p)\<lparr>hp_chunk_remaining := hp_chunk_remaining p - n\<rparr>
      in if hp_chunk_remaining q > 0 then Out PARSE_INCOMPLETE q (drop n d)
         else Next (reset_line (q\<lparr>hp_state := ST_CHUNK_DATA_CRLF\<rparr>) 0) (drop n d))" for p d
  have core: "sim_turn (core p d) (turn_chunk_data always p d)" for p d
    unfolding core_def by (rule sim_turn_sym [OF turn_chunk_data_core])
  have "extends (core p a) (core p (a @ b)) b (\<lambda>q. turn_chunk_data always q b)"
  proof (cases "hp_chunk_remaining p \<le> length a")
    case True
    then show ?thesis by (auto simp: core_def extends_def Let_def min_def)
  next
    case False
    let ?q = "(appended a p)\<lparr>hp_chunk_remaining := hp_chunk_remaining p - length a\<rparr>"
    from False have c: "core p a = Out PARSE_INCOMPLETE ?q []"
      by (simp add: core_def Let_def min_def)
    have app: "(appended d ?q)\<lparr>hp_chunk_remaining := m\<rparr> = (appended (a @ d) p)\<lparr>hp_chunk_remaining := m\<rparr>" for d m
      by (cases p) (simp add: appended_def set_active_body_def active_body_def)
    have n: "min (hp_chunk_remaining p) (length (a @ b)) =
             length a + min (hp_chunk_remaining p - length a) (length b)"
      using False by (simp add: min_def) linarith
    have "core ?q b = core p (a @ b)"
      unfolding core_def n Let_def using False by (simp add: app)
    with sim_turn_sym [OF core [of ?q b]] c show ?thesis
      by (simp add: extends_def)
  qed
  then show ?thesis by (rule extends_sim [OF _ core core turn_chunk_data_sim])
qed

lemma turn_more_state:
  "turn_body_fixed always p a = Out PARSE_INCOMPLETE p' r \<Longrightarrow> hp_state p' = hp_state p"
  "turn_chunk_data always p a = Out PARSE_INCOMPLETE p' r \<Longrightarrow> hp_state p' = hp_state p"
proof -
  show "hp_state p' = hp_state p" if "turn_body_fixed always p a = Out PARSE_INCOMPLETE p' r"
    using turn_body_fixed_core [of p a] that
    by (auto simp: Let_def sim_iff split: if_splits)
  show "hp_state p' = hp_state p" if "turn_chunk_data always p a = Out PARSE_INCOMPLETE p' r"
    using turn_chunk_data_core [of p a] that
    by (auto simp: Let_def sim_iff sim_turn_def split: if_splits)
qed

lemma feed_turn_extends:
  "extends (feed_turn always p a) (feed_turn always p (a @ b)) b (\<lambda>q. feed_turn always q b)"
proof -
  have same: "extends t u b (\<lambda>q. feed_turn always q b)"
    if "extends t u b f" "\<And>q r. t = Out PARSE_INCOMPLETE q r \<Longrightarrow> f q = feed_turn always q b" for t u f
    using that by (cases t) (auto simp: extends_def)
  show ?thesis
  proof (cases "hp_state p")
    case ST_REQUEST_LINE
    then show ?thesis
      unfolding feed_turn_def [of always p] by simp
        (rule same [OF line_turn_extends [where f = read_start_line, OF read_append(1) read_not_incomplete(1)]],
         drule line_turn_more_state [OF _ read_not_incomplete(1)], simp add: feed_turn_def)
  next
    case ST_HEADERS
    then show ?thesis
      unfolding feed_turn_def [of always p] by simp
        (rule same [OF line_turn_extends [where f = "read_header_line always", OF read_append(2) read_not_incomplete(2)]],
         drule line_turn_more_state [OF _ read_not_incomplete(2)], simp add: feed_turn_def)
  next
    case ST_CHUNK_SIZE
    then show ?thesis
      unfolding feed_turn_def [of always p] by simp
        (rule same [OF line_turn_extends [where f = read_chunk_size, OF read_append(3) read_not_incomplete(3)]],
         drule line_turn_more_state [OF _ read_not_incomplete(3)], simp add: feed_turn_def)
  next
    case ST_CHUNK_DATA_CRLF
    then show ?thesis
      unfolding feed_turn_def [of always p] by simp
        (rule same [OF line_turn_extends [where f = read_chunk_crlf, OF read_append(4) read_not_incomplete(4)]],
         drule line_turn_more_state [OF _ read_not_incomplete(4)], simp add: feed_turn_def)
  next
    case ST_TRAILERS
    then show ?thesis
      unfolding feed_turn_def [of always p] by simp
        (rule same [OF line_turn_extends [where f = "read_trailer_line always", OF read_append(5) read_not_incomplete(5)]],
         drule line_turn_more_state [OF _ read_not_incomplete(5)], simp add: feed_turn_def)
  next
    case ST_BODY_FIXED
    then show ?thesis
      unfolding feed_turn_def [of always p] by simp
        (rule same [OF turn_body_fixed_extends], drule turn_more_state(1), simp add: feed_turn_def)
  next
    case ST_CHUNK_DATA
    then show ?thesis
      unfolding feed_turn_def [of always p] by simp
        (rule same [OF turn_chunk_data_extends], drule turn_more_state(2), simp add: feed_turn_def)
  qed (simp_all add: feed_turn_def extends_def)
qed

lemma feed_loop_unfold:
  "feed_turn mem p d = Next p' r \<Longrightarrow> feed_loop mem p d = feed_loop mem p' r"
  "feed_turn mem p d = Out s p' r \<Longrightarrow> feed_loop mem p d = (s, p', r)"
  by (subst feed_loop.simps, simp)+

lemma sim_turn_loop:
  assumes "sim_turn (feed_turn always p d) (feed_turn always q e)"
  shows "sim_out (feed_loop always p d) (feed_loop always q e)"
proof (cases "feed_turn always p d")
  case (Next p' r)
  then obtain q' where "feed_turn always q e = Next q' r" "sim p' q'"
    using assms by (cases "feed_turn always q e") (auto simp: sim_turn_def)
  with Next feed_loop_sim [of always p' q' r] show ?thesis by (simp add: feed_loop_unfold)
next
  case (Out s p' r)
  then obtain q' where "feed_turn always q e = Out s q' r" "sim p' q'"
    using assms by (cases "feed_turn always q e") (auto simp: sim_turn_def)
  with Out show ?thesis by (simp add: feed_loop_unfold sim_out_def)
qed

lemma sim_out_trans: "sim_out x y \<Longrightarrow> sim_out y z \<Longrightarrow> sim_out x z"
  by (simp add: sim_out_def sim_def)

lemma sim_out_sym: "sim_out x y \<Longrightarrow> sim_out y x"
  by (simp add: sim_out_def sim_def)

text \<open>The loop on \<open>a @ b\<close> is the loop on \<open>a\<close>, continued on \<open>b\<close> if it ran out of input.\<close>

lemma feed_loop_append:
  "mem = always \<Longrightarrow> feed_loop mem p a = (s, p', r) \<Longrightarrow>
   sim_out (if s = PARSE_INCOMPLETE then feed_loop always p' b else (s, p', r @ b))
           (feed_loop always p (a @ b)) \<and> (s = PARSE_INCOMPLETE \<longrightarrow> r = [])"
proof (induction mem p a rule: feed_loop.induct)
  case (1 mem p a)
  note e = feed_turn_extends [of p a b]
  show ?case
  proof (cases "feed_turn mem p a")
    case (Next q r')
    with "1.prems" have "feed_loop mem q r' = (s, p', r)" by (simp add: feed_loop_unfold)
    note ih = "1.IH" [OF Next "1.prems"(1) this]
    have "sim_turn (Next q (r' @ b)) (feed_turn always p (a @ b))"
      using e Next "1.prems"(1) by (simp add: extends_def)
    then obtain q' where q': "feed_turn always p (a @ b) = Next q' (r' @ b)" "sim q q'"
      by (cases "feed_turn always p (a @ b)") (auto simp: sim_turn_def)
    have "sim_out (feed_loop always q (r' @ b)) (feed_loop always p (a @ b))"
      using feed_loop_sim [OF refl q'(2)] by (simp add: feed_loop_unfold(1) [OF q'(1)])
    with ih sim_out_trans show ?thesis by blast
  next
    case (Out s' q r')
    then have [simp]: "s' = s" "q = p'" "r' = r" using "1.prems" by (simp_all add: feed_loop_unfold)
    show ?thesis
    proof (cases "s = PARSE_INCOMPLETE")
      case True
      with e Out "1.prems"(1) show ?thesis by (simp add: extends_def sim_turn_loop)
    next
      case False
      then have "sim_turn (Out s p' (r @ b)) (feed_turn always p (a @ b))"
        using e Out "1.prems"(1) by (simp add: extends_def)
      then obtain q' where "feed_turn always p (a @ b) = Out s q' (r @ b)" "sim p' q'"
        by (cases "feed_turn always p (a @ b)") (auto simp: sim_turn_def)
      with False show ?thesis by (simp add: feed_loop_unfold sim_out_def)
    qed
  qed
qed

section \<open>Whole reads\<close>

fun feed_fragments :: "(nat \<Rightarrow> bool) \<Rightarrow> http_parser \<Rightarrow> string list \<Rightarrow> http_parser" where
  "feed_fragments mem p [] = p"
| "feed_fragments mem p (x # xs) = feed_fragments mem (snd (parser_feed mem p (Some x))) xs"

text \<open>A refusal leaves the error state.\<close>

definition refuses :: "bool \<times> http_parser \<Rightarrow> bool" where
  "refuses x \<longleftrightarrow> (fst x \<or> hp_state (snd x) = ST_ERROR)"

lemma refuses_intros:
  "(b \<Longrightarrow> refuses x) \<Longrightarrow> (\<not> b \<Longrightarrow> refuses y) \<Longrightarrow> refuses (if b then x else y)"
  "(\<And>m. a = Some m \<Longrightarrow> refuses (f m)) \<Longrightarrow> (a = None \<Longrightarrow> refuses x) \<Longrightarrow>
   refuses (case a of Some m \<Rightarrow> f m | None \<Rightarrow> x)"
  "refuses (False, set_error p m)" "refuses (True, p)"
  by (auto simp: refuses_def split: option.split)

lemma parse_line_refuses: "refuses (parse_request_line p)" "refuses (parse_response_line p)"
  unfolding parse_request_line_def parse_response_line_def Let_def
  by (intro refuses_intros)+

lemma refusals:
  "parse_request_line p = (False, p') \<Longrightarrow> hp_state p' = ST_ERROR"
  "parse_response_line p = (False, p') \<Longrightarrow> hp_state p' = ST_ERROR"
  "apply_content_length p v = (False, p') \<Longrightarrow> hp_state p' = ST_ERROR"
  "body_reserve mem p n = (False, p') \<Longrightarrow> hp_state p' = ST_ERROR"
  "parse_field_line mem p hs mc k mb = (p', None) \<Longrightarrow> hp_state p' = ST_ERROR"
  "parse_chunk_size_line p = (p', None) \<Longrightarrow> hp_state p' = ST_ERROR"
proof -
  show "hp_state p' = ST_ERROR" if "parse_request_line p = (False, p')"
    using parse_line_refuses(1) [of p] that by (simp add: refuses_def)
  show "hp_state p' = ST_ERROR" if "parse_response_line p = (False, p')"
    using parse_line_refuses(2) [of p] that by (simp add: refuses_def)
  show "hp_state p' = ST_ERROR" if "apply_content_length p v = (False, p')"
    using that by (auto simp: apply_content_length_def split: if_splits sum.splits)
  show "hp_state p' = ST_ERROR" if "body_reserve mem p n = (False, p')"
    using that by (auto simp: body_reserve_def Let_def split: if_splits prod.splits)
  show "hp_state p' = ST_ERROR" if "parse_field_line mem p hs mc k mb = (p', None)"
    using that by (auto simp: parse_field_line_def alloc_def Let_def split: if_splits)
  show "hp_state p' = ST_ERROR" if "parse_chunk_size_line p = (p', None)"
    using that by (auto simp: parse_chunk_size_line_def Let_def split: if_splits option.splits prod.splits)
qed

lemma codings_refuses: "refuses (codings p v)"
proof (induction p v rule: codings.induct)
  case (1 p v)
  show ?case
    unfolding codings.simps [of p v] Let_def
  proof (intro refuses_intros(1,3,4))
    let ?s = "dropWhile is_blank v"
    let ?t = "rev (dropWhile is_blank (rev (takeWhile (\<lambda>c. c \<noteq> CHR '','') ?s)))"
    assume ne: "v \<noteq> []" and ok: "\<not> (length ?t = 0 \<or> length ?t \<noteq> 7 \<or> \<not> same_nocase ?t ''chunked'')"
    show "refuses (case dropWhile (\<lambda>c. c \<noteq> CHR '','') ?s of
            [] \<Rightarrow> (True, p\<lparr>hp_transfer_chunked := True\<rparr>)
          | c # rest \<Rightarrow> codings (p\<lparr>hp_transfer_chunked := True\<rparr>) rest)"
      using "1.IH" [OF ne refl refl refl ok]
      by (cases "dropWhile (\<lambda>c. c \<noteq> CHR '','') ?s") (simp_all only: list.case refuses_intros)
  qed
qed

lemma codings_refusal: "codings p v = (False, p') \<Longrightarrow> hp_state p' = ST_ERROR"
  using codings_refuses [of p v] by (simp add: refuses_def)

lemma more_refusals:
  "apply_header p h = (False, p') \<Longrightarrow> hp_state p' = ST_ERROR"
  "body_append mem p d = (False, p') \<Longrightarrow> hp_state p' = ST_ERROR"
  "finish_headers mem p = (False, p') \<Longrightarrow> hp_state p' = ST_ERROR"
proof -
  have te: "hp_state p' = ST_ERROR" if "apply_transfer_encoding p v = (False, p')" for v
    using that codings_refusal [of p v p']
    by (auto simp: apply_transfer_encoding_def split: prod.splits bool.splits if_splits)
  show "hp_state p' = ST_ERROR" if "apply_header p h = (False, p')"
    using that te refusals(3) by (simp add: apply_header_def split: if_splits)
  show "hp_state p' = ST_ERROR" if "body_append mem p d = (False, p')"
    using that by (simp add: body_append_def split: if_splits prod.splits bool.splits) (metis refusals(4))
  obtain b q where r: "body_reserve mem p (hp_content_length p) = (b, q)" by fastforce
  show "hp_state p' = ST_ERROR" if "finish_headers mem p = (False, p')"
    using that refusals(4) [of mem p "hp_content_length p" q] r
    by (cases b) (simp_all add: finish_headers_def split: if_splits, auto)
qed

definition settled :: "http_status \<Rightarrow> http_parser \<Rightarrow> bool" where
  "settled s p \<longleftrightarrow> (case s of PARSE_COMPLETE \<Rightarrow> hp_state p = ST_COMPLETE | PARSE_ERROR \<Rightarrow> hp_state p = ST_ERROR
                    | PARSE_INCOMPLETE \<Rightarrow> hp_state p \<notin> {ST_COMPLETE, ST_ERROR})"

lemma line_turn_settled:
  assumes "line_turn mem f p d = Out s p' r" and "hp_state p \<notin> {ST_COMPLETE, ST_ERROR}"
    and "\<And>q r. f q r = Out s p' r \<Longrightarrow> settled s p'" and "\<And>q r r'. f q r = Out s p' r' \<Longrightarrow> r' = r"
  shows "settled s p'"
proof -
  obtain x q t where c: "consume_line mem p d = (x, q, t)" by (metis prod_cases3)
  show ?thesis
  proof (cases x)
    case LINE_DONE
    then have f: "f q t = Out s p' r" using assms(1) c by (simp add: line_turn_def)
    then show ?thesis using assms(3,4) by blast
  next
    case LINE_MORE
    with assms(1,2) c consume_line_state [OF c] show ?thesis by (auto simp: line_turn_def settled_def)
  next
    case LINE_ERROR
    with assms(1) c consume_line_frame [OF c] show ?thesis by (auto simp: line_turn_def settled_def)
  qed
qed

lemma read_settled:
  "read_start_line q r = Out s p' r' \<Longrightarrow> settled s p' \<and> r' = r"
  "read_header_line mem q r = Out s p' r' \<Longrightarrow> settled s p' \<and> r' = r"
  "read_chunk_size q r = Out s p' r' \<Longrightarrow> settled s p' \<and> r' = r"
  "read_chunk_crlf q r = Out s p' r' \<Longrightarrow> settled s p' \<and> r' = r"
  "read_trailer_line mem q r = Out s p' r' \<Longrightarrow> settled s p' \<and> r' = r"
  by (auto simp: read_defs settled_def split: prod.splits bool.splits option.splits if_splits
      dest: refusals more_refusals)

lemma feed_turn_settled:
  assumes "feed_turn always p d = Out s p' r"
  shows "settled s p'"
proof -
  note line = line_turn_settled [of always _ p d s p' r]
  show ?thesis
  proof (cases "hp_state p")
    case ST_BODY_FIXED
    then show ?thesis
      using assms turn_more_state(1) [of p d p' r]
      by (auto simp: feed_turn_def turn_body_fixed_def settled_def Let_def
          split: prod.splits bool.splits if_splits dest: more_refusals)
  next
    case ST_CHUNK_DATA
    then show ?thesis
      using assms turn_more_state(2) [of p d p' r]
      by (auto simp: feed_turn_def turn_chunk_data_def settled_def Let_def
          split: prod.splits bool.splits if_splits dest: more_refusals)
  next
    case ST_COMPLETE
    with assms show ?thesis by (auto simp: feed_turn_def settled_def)
  next
    case ST_ERROR
    with assms show ?thesis by (auto simp: feed_turn_def settled_def)
  qed (use assms in \<open>auto simp: feed_turn_def intro: line dest: read_settled\<close>)
qed

lemma feed_loop_settled: "mem = always \<Longrightarrow> feed_loop mem p d = (s, p', r) \<Longrightarrow> settled s p'"
proof (induction mem p d rule: feed_loop.induct)
  case (1 mem p d)
  then show ?case
    by (cases "feed_turn mem p d") (auto simp: feed_loop_unfold dest: feed_turn_settled)
qed

lemma parser_feed_loop:
  assumes p: "hp_state p \<notin> {ST_COMPLETE, ST_ERROR}" and l: "feed_loop always p d = (s, q, r)"
  obtains q' where "parser_feed always p (Some d) = (s, q')" "sim q q'"
proof -
  let ?p = "p\<lparr>hp_last_consumed := 0\<rparr>"
  have "sim p ?p" by (simp add: sim_iff)
  from feed_loop_sim [OF refl this, of d] obtain t where
    t: "feed_loop always ?p d = (s, t, r)" "sim q t"
    using l by (cases "feed_loop always ?p d") (auto simp: sim_out_def)
  have "s = PARSE_ERROR \<Longrightarrow> hp_state t = ST_ERROR"
    using feed_loop_settled [OF refl t(1)] by (simp add: settled_def)
  then have "parser_feed always p (Some d) = (s, t\<lparr>hp_last_consumed := length d - length r\<rparr>)"
    using p t(1) by (auto simp: parser_feed_def Let_def)
  moreover have "sim q (t\<lparr>hp_last_consumed := length d - length r\<rparr>)"
    using t(2) by (simp add: sim_iff)
  ultimately show thesis by (rule that)
qed

lemma parser_feed_stuck:
  "hp_state p \<in> {ST_COMPLETE, ST_ERROR} \<Longrightarrow> sim p (snd (parser_feed mem p (Some d)))"
  by (auto simp: parser_feed_def sim_iff)

lemma parser_feed_append:
  "sim (snd (parser_feed always (snd (parser_feed always p (Some a))) (Some b)))
       (snd (parser_feed always p (Some (a @ b))))"
proof (cases "hp_state p \<in> {ST_COMPLETE, ST_ERROR}")
  case True
  let ?p1 = "snd (parser_feed always p (Some a))"
  have 1: "sim p ?p1" "sim p (snd (parser_feed always p (Some (a @ b))))"
    using parser_feed_stuck [OF True] by blast+
  then have "hp_state ?p1 \<in> {ST_COMPLETE, ST_ERROR}" using True sim_fields(1) [OF 1(1)] by auto
  from parser_feed_stuck [OF this, of always b] 1 show ?thesis by (simp add: sim_def)
next
  case False
  obtain s q r where l: "feed_loop always p a = (s, q, r)" by (metis prod_cases3)
  obtain q' where q': "parser_feed always p (Some a) = (s, q')" "sim q q'"
    by (rule parser_feed_loop [OF False l])
  obtain t u v where ab: "feed_loop always p (a @ b) = (t, u, v)" by (metis prod_cases3)
  obtain u' where u': "parser_feed always p (Some (a @ b)) = (t, u')" "sim u u'"
    by (rule parser_feed_loop [OF False ab])
  note app = feed_loop_append [OF refl l, of b, THEN conjunct1, unfolded ab]
  note set = feed_loop_settled [OF refl l]
  show ?thesis
  proof (cases "s = PARSE_INCOMPLETE")
    case True
    have q'0: "hp_state q' \<notin> {ST_COMPLETE, ST_ERROR}"
      using set True sim_fields(1) [OF q'(2)] by (simp add: settled_def)
    obtain x y z where b: "feed_loop always q' b = (x, y, z)" by (metis prod_cases3)
    obtain y' where y': "parser_feed always q' (Some b) = (x, y')" "sim y y'"
      by (rule parser_feed_loop [OF q'0 b])
    have "sim_out (feed_loop always q b) (t, u, v)" using app True by simp
    moreover have "sim_out (feed_loop always q b) (x, y, z)"
      using feed_loop_sim [OF refl q'(2), of b] b by simp
    ultimately have "sim y u" by (simp add: sim_out_def sim_def)
    with q'(1) y' u' show ?thesis by (simp add: sim_def)
  next
    case F: False
    then have "sim q u" using app by (simp add: sim_out_def)
    have "hp_state q' \<in> {ST_COMPLETE, ST_ERROR}"
      using set F sim_fields(1) [OF q'(2)] by (cases s) (simp_all add: settled_def)
    from parser_feed_stuck [OF this, of always b] \<open>sim q u\<close> q' u' show ?thesis by (simp add: sim_def)
  qed
qed

lemma feed_fragments_concat:
  "xs \<noteq> [] \<Longrightarrow> sim (feed_fragments always p xs) (snd (parser_feed always p (Some (concat xs))))"
proof (induction xs arbitrary: p)
  case (Cons x xs)
  let ?p1 = "snd (parser_feed always p (Some x))"
  show ?case
  proof (cases "xs = []")
    case False
    from Cons.IH [OF this, of ?p1] parser_feed_append [of p x "concat xs"]
    show ?thesis by (simp add: sim_def)
  qed simp
qed simp

section \<open>Properties\<close>

text \<open>C2: The parser's verdict and result do not depend on how the network cuts the stream: feeding any
  fragments one after the other leaves the same parser, with the same state, request, response
  and error, as feeding their concatenation, but for buffer capacity and read bookkeeping.\<close>

theorem fragments_do_not_matter:
  assumes "xs \<noteq> []"
  shows "strip (feed_fragments (\<lambda>_. True) p xs) = strip (snd (parser_feed (\<lambda>_. True) p (Some (concat xs))))"
  using feed_fragments_concat [OF assms, of p] by (simp add: sim_def)

definition crlf :: string where "crlf = [CR, LF]"

definition w_stream :: string where
  "w_stream = ''POST /a?b HTTP/1.1'' @ crlf @ ''Transfer-Encoding: chunked'' @ crlf @ crlf @
              ''3'' @ crlf @ ''abc'' @ crlf @ ''0'' @ crlf @ crlf"

theorem fragments_do_not_matter_witness:
  "strip (feed_fragments (\<lambda>_. True) new_parser [take 7 w_stream, drop 7 (take 54 w_stream), drop 54 w_stream]) =
   strip (snd (parser_feed (\<lambda>_. True) new_parser (Some (concat [take 7 w_stream, drop 7 (take 54 w_stream), drop 54 w_stream]))))"
  by (rule fragments_do_not_matter) simp

end
