(* ===== verification/Http_Safety.thy ===== *)
theory Http_Safety
  imports Http_Segments
begin

text \<open>
  What the parser guarantees whatever bytes it is fed and whichever allocations fail: its buffers
  are never overrun and its limits hold, a complete request has a start line that was checked, a
  body that was framed by exactly one of the two framing headers, and a path without dot
  segments even after percent-decoding. The last section adds the limits on lines and chunks.
\<close>

section \<open>The invariant\<close>

text \<open>Buffers: what was written fits what was allocated, and every limit holds.\<close>

definition buffers_ok :: "http_parser \<Rightarrow> bool" where
  "buffers_ok p \<longleftrightarrow>
     length (hp_line p) \<le> hp_line_cap p \<and>
     length (active_body p) = hp_body_written p \<and> hp_body_written p \<le> hp_body_cap p \<and>
     hp_body_cap p \<le> MAX_BODY_SIZE \<and>
     length (rq_method (hp_request p)) < METHOD_SIZE \<and> length (rq_target (hp_request p)) < TARGET_SIZE \<and>
     length (rs_reason (hp_response p)) < MAX_REQUEST_LINE \<and> length (hp_error_msg p) < ERROR_SIZE \<and>
     length (active_headers p) \<le> MAX_HEADER_COUNT \<and> hp_header_bytes p \<le> MAX_HEADER_SIZE \<and>
     length (active_trailers p) \<le> MAX_TRAILER_COUNT \<and> hp_trailer_bytes p \<le> MAX_TRAILER_SIZE \<and>
     hp_content_length p \<le> MAX_BODY_SIZE"

text \<open>Responses with these status codes have no body, whatever their headers say.\<close>

definition no_body :: "http_parser \<Rightarrow> bool" where
  "no_body p \<longleftrightarrow> hp_response_mode p \<and>
     ((100 \<le> rs_status (hp_response p) \<and> rs_status (hp_response p) < 200) \<or>
      rs_status (hp_response p) = 204 \<or> rs_status (hp_response p) = 304)"

definition framing_ok :: "http_parser \<Rightarrow> bool" where
  "framing_ok p \<longleftrightarrow>
     (case hp_state p of
        ST_REQUEST_LINE \<Rightarrow> hp_body_written p = 0
      | ST_HEADERS \<Rightarrow> hp_body_written p = 0
      | ST_BODY_FIXED \<Rightarrow> hp_body_written p \<le> hp_content_length p \<and> hp_has_content_length p \<and>
          \<not> hp_has_transfer_encoding p
      | ST_CHUNK_DATA \<Rightarrow> hp_body_written p + hp_chunk_remaining p \<le> MAX_BODY_SIZE \<and>
          0 < hp_chunk_remaining p \<and> hp_has_transfer_encoding p \<and> \<not> hp_has_content_length p
      | ST_CHUNK_SIZE \<Rightarrow> hp_has_transfer_encoding p \<and> \<not> hp_has_content_length p
      | ST_CHUNK_DATA_CRLF \<Rightarrow> hp_has_transfer_encoding p \<and> \<not> hp_has_content_length p
      | ST_TRAILERS \<Rightarrow> hp_has_transfer_encoding p \<and> \<not> hp_has_content_length p
      | ST_COMPLETE \<Rightarrow> no_body p \<and> hp_body_written p = 0 \<or>
          \<not> (hp_has_content_length p \<and> hp_has_transfer_encoding p) \<and>
          (hp_has_content_length p \<longrightarrow> hp_body_written p = hp_content_length p) \<and>
          (\<not> hp_has_content_length p \<and> \<not> hp_has_transfer_encoding p \<longrightarrow> hp_body_written p = 0)
      | ST_ERROR \<Rightarrow> True)"

definition good_start :: "http_request \<Rightarrow> bool" where
  "good_start rq \<longleftrightarrow> rq_method rq \<noteq> [] \<and> list_all is_tchar (rq_method rq) \<and>
     sanitize_request_target (rq_target rq) = None \<and>
     list_all (\<lambda>c. \<not> (c = SP \<or> ord c < 0x20 \<or> ord c = 0x7F)) (rq_target rq)"

definition start_ok :: "http_parser \<Rightarrow> bool" where
  "start_ok p \<longleftrightarrow> hp_response_mode p \<or> hp_state p \<in> {ST_REQUEST_LINE, ST_ERROR} \<or>
     good_start (hp_request p)"

definition parser_inv :: "http_parser \<Rightarrow> bool" where
  "parser_inv p \<longleftrightarrow> buffers_ok p \<and> framing_ok p \<and> start_ok p"

lemmas parser_inv_defs = parser_inv_def framing_ok_def start_ok_def

lemma active_update [simp]:
  "active_headers (p\<lparr>hp_state := x0\<rparr>) = active_headers p"
  "active_headers (p\<lparr>hp_line := x1\<rparr>) = active_headers p"
  "active_headers (p\<lparr>hp_line_cap := x2\<rparr>) = active_headers p"
  "active_headers (p\<lparr>hp_line_limit := x3\<rparr>) = active_headers p"
  "active_headers (p\<lparr>hp_saw_cr := x4\<rparr>) = active_headers p"
  "active_headers (p\<lparr>hp_has_content_length := x5\<rparr>) = active_headers p"
  "active_headers (p\<lparr>hp_content_length := x6\<rparr>) = active_headers p"
  "active_headers (p\<lparr>hp_has_transfer_encoding := x7\<rparr>) = active_headers p"
  "active_headers (p\<lparr>hp_transfer_chunked := x8\<rparr>) = active_headers p"
  "active_headers (p\<lparr>hp_header_bytes := x9\<rparr>) = active_headers p"
  "active_headers (p\<lparr>hp_trailer_bytes := x10\<rparr>) = active_headers p"
  "active_headers (p\<lparr>hp_body_cap := x11\<rparr>) = active_headers p"
  "active_headers (p\<lparr>hp_body_written := x12\<rparr>) = active_headers p"
  "active_headers (p\<lparr>hp_chunk_remaining := x13\<rparr>) = active_headers p"
  "active_headers (p\<lparr>hp_last_consumed := x14\<rparr>) = active_headers p"
  "active_headers (p\<lparr>hp_error_msg := x15\<rparr>) = active_headers p"
  "active_headers (p\<lparr>hp_allocs := x16\<rparr>) = active_headers p"
  "active_headers (set_error p m) = active_headers p"
  "active_headers (reset_line p k) = active_headers p"
  "active_trailers (p\<lparr>hp_state := x0\<rparr>) = active_trailers p"
  "active_trailers (p\<lparr>hp_line := x1\<rparr>) = active_trailers p"
  "active_trailers (p\<lparr>hp_line_cap := x2\<rparr>) = active_trailers p"
  "active_trailers (p\<lparr>hp_line_limit := x3\<rparr>) = active_trailers p"
  "active_trailers (p\<lparr>hp_saw_cr := x4\<rparr>) = active_trailers p"
  "active_trailers (p\<lparr>hp_has_content_length := x5\<rparr>) = active_trailers p"
  "active_trailers (p\<lparr>hp_content_length := x6\<rparr>) = active_trailers p"
  "active_trailers (p\<lparr>hp_has_transfer_encoding := x7\<rparr>) = active_trailers p"
  "active_trailers (p\<lparr>hp_transfer_chunked := x8\<rparr>) = active_trailers p"
  "active_trailers (p\<lparr>hp_header_bytes := x9\<rparr>) = active_trailers p"
  "active_trailers (p\<lparr>hp_trailer_bytes := x10\<rparr>) = active_trailers p"
  "active_trailers (p\<lparr>hp_body_cap := x11\<rparr>) = active_trailers p"
  "active_trailers (p\<lparr>hp_body_written := x12\<rparr>) = active_trailers p"
  "active_trailers (p\<lparr>hp_chunk_remaining := x13\<rparr>) = active_trailers p"
  "active_trailers (p\<lparr>hp_last_consumed := x14\<rparr>) = active_trailers p"
  "active_trailers (p\<lparr>hp_error_msg := x15\<rparr>) = active_trailers p"
  "active_trailers (p\<lparr>hp_allocs := x16\<rparr>) = active_trailers p"
  "active_trailers (set_error p m) = active_trailers p"
  "active_trailers (reset_line p k) = active_trailers p"
  "active_body (p\<lparr>hp_state := x0\<rparr>) = active_body p"
  "active_body (p\<lparr>hp_line := x1\<rparr>) = active_body p"
  "active_body (p\<lparr>hp_line_cap := x2\<rparr>) = active_body p"
  "active_body (p\<lparr>hp_line_limit := x3\<rparr>) = active_body p"
  "active_body (p\<lparr>hp_saw_cr := x4\<rparr>) = active_body p"
  "active_body (p\<lparr>hp_has_content_length := x5\<rparr>) = active_body p"
  "active_body (p\<lparr>hp_content_length := x6\<rparr>) = active_body p"
  "active_body (p\<lparr>hp_has_transfer_encoding := x7\<rparr>) = active_body p"
  "active_body (p\<lparr>hp_transfer_chunked := x8\<rparr>) = active_body p"
  "active_body (p\<lparr>hp_header_bytes := x9\<rparr>) = active_body p"
  "active_body (p\<lparr>hp_trailer_bytes := x10\<rparr>) = active_body p"
  "active_body (p\<lparr>hp_body_cap := x11\<rparr>) = active_body p"
  "active_body (p\<lparr>hp_body_written := x12\<rparr>) = active_body p"
  "active_body (p\<lparr>hp_chunk_remaining := x13\<rparr>) = active_body p"
  "active_body (p\<lparr>hp_last_consumed := x14\<rparr>) = active_body p"
  "active_body (p\<lparr>hp_error_msg := x15\<rparr>) = active_body p"
  "active_body (p\<lparr>hp_allocs := x16\<rparr>) = active_body p"
  "active_body (set_error p m) = active_body p"
  "active_body (reset_line p k) = active_body p"
  by (simp_all add: active_headers_def active_trailers_def active_body_def set_error_def reset_line_def)

lemma active_store [simp]:
  "active_headers (set_active_headers hs p) = hs" "active_trailers (set_active_headers hs p) = active_trailers p"
  "active_body (set_active_headers hs p) = active_body p"
  "active_trailers (set_active_trailers hs p) = hs" "active_headers (set_active_trailers hs p) = active_headers p"
  "active_body (set_active_trailers hs p) = active_body p"
  "active_body (set_active_body b p) = b" "active_headers (set_active_body b p) = active_headers p"
  "active_trailers (set_active_body b p) = active_trailers p"
  by (simp_all add: active_headers_def active_trailers_def active_body_def set_active_headers_def
      set_active_trailers_def set_active_body_def)

lemma set_error_buffers: "buffers_ok p \<Longrightarrow> buffers_ok (set_error p m)"
  unfolding buffers_ok_def by (auto simp: set_error_def ERROR_SIZE_def min_def)

lemma set_error_inv: "buffers_ok p \<Longrightarrow> parser_inv (set_error p m)"
  using set_error_buffers [of p m] by (simp add: parser_inv_defs)

lemma active_line_state [simp]:
  "active_headers (line_state l k b n p) = active_headers p"
  "active_trailers (line_state l k b n p) = active_trailers p"
  "active_body (line_state l k b n p) = active_body p"
  by (simp_all add: line_state_def)

lemma line_state_inv:
  "buffers_ok p \<Longrightarrow> length l \<le> k \<Longrightarrow> buffers_ok (line_state l k b n p)"
  "framing_ok p \<Longrightarrow> framing_ok (line_state l k b n p)"
  "start_ok p \<Longrightarrow> start_ok (line_state l k b n p)"
  by (simp_all add: buffers_ok_def framing_ok_def start_ok_def no_body_def line_state_def
      split: http_state.splits)

text \<open>Reading a line keeps the invariant, on success and on refusal.\<close>

lemma consume_line_inv:
  assumes c: "consume_line mem p d = (r, q, rest)" and i: "parser_inv p"
  shows "parser_inv q \<and> (r \<noteq> LINE_ERROR \<longrightarrow> hp_state q = hp_state p \<and> hp_response_mode q = hp_response_mode p)"
proof -
  obtain l k b n where f: "if r = LINE_ERROR then \<exists>m. q = set_error (line_state l k b n p) m
      else q = line_state l k b n p"
    using consume_line_frame [OF c] by blast
  have "length (hp_line q) \<le> hp_line_cap q"
    using consume_line_fits [OF c] i by (simp add: parser_inv_def buffers_ok_def)
  then have "length l \<le> k"
    using f by (auto simp: line_state_def set_error_def split: if_splits)
  with f i line_state_inv [of p] set_error_inv [of "line_state l k b n p"] show ?thesis
    by (auto simp: parser_inv_def line_state_def split: if_splits)
qed

section \<open>The operations keep it\<close>

lemma reset_buffers [simp]:
  "buffers_ok p \<Longrightarrow> buffers_ok (reset_line p k)"
  "buffers_ok (p\<lparr>hp_state := st\<rparr>) = buffers_ok p"
  "buffers_ok (p\<lparr>hp_chunk_remaining := x\<rparr>) = buffers_ok p"
  by (simp_all add: buffers_ok_def) (simp add: reset_line_def)

lemma reset_fields [simp]:
  "hp_state (reset_line p k) = hp_state p" "hp_response_mode (reset_line p k) = hp_response_mode p"
  "hp_request (reset_line p k) = hp_request p" "hp_response (reset_line p k) = hp_response p"
  "hp_body_written (reset_line p k) = hp_body_written p"
  "hp_has_content_length (reset_line p k) = hp_has_content_length p"
  "hp_content_length (reset_line p k) = hp_content_length p"
  "hp_has_transfer_encoding (reset_line p k) = hp_has_transfer_encoding p"
  "hp_chunk_remaining (reset_line p k) = hp_chunk_remaining p"
  by (simp_all add: reset_line_def)

text \<open>A start line either is refused or sets the request or the response, within its buffers.\<close>

definition started :: "http_parser \<Rightarrow> bool \<times> http_parser \<Rightarrow> bool" where
  "started p x \<longleftrightarrow>
     buffers_ok (snd x) \<and> hp_response_mode (snd x) = hp_response_mode p \<and>
     (if fst x then hp_state (snd x) = hp_state p \<and> hp_body_written (snd x) = hp_body_written p \<and>
        (hp_response_mode p \<or> good_start (hp_request (snd x)))
      else hp_state (snd x) = ST_ERROR)"

lemma started_fail: "buffers_ok q \<Longrightarrow> hp_response_mode q = hp_response_mode p \<Longrightarrow> started p (False, set_error q m)"
  using set_error_buffers [of q m] by (simp add: started_def) (simp add: set_error_def)

lemma request_buffers:
  "buffers_ok p \<Longrightarrow> length (rq_method rq) < METHOD_SIZE \<Longrightarrow> length (rq_target rq) < TARGET_SIZE \<Longrightarrow>
   rq_headers rq = rq_headers (hp_request p) \<Longrightarrow> rq_trailers rq = rq_trailers (hp_request p) \<Longrightarrow>
   rq_body rq = rq_body (hp_request p) \<Longrightarrow> buffers_ok (p\<lparr>hp_request := rq\<rparr>)"
  by (cases "hp_response_mode p") (simp_all add: buffers_ok_def active_headers_def active_trailers_def active_body_def)

lemma response_buffers:
  "buffers_ok p \<Longrightarrow> length (rs_reason rs) < MAX_REQUEST_LINE \<Longrightarrow>
   rs_headers rs = rs_headers (hp_response p) \<Longrightarrow> rs_trailers rs = rs_trailers (hp_response p) \<Longrightarrow>
   rs_body rs = rs_body (hp_response p) \<Longrightarrow> buffers_ok (p\<lparr>hp_response := rs\<rparr>)"
  by (cases "hp_response_mode p") (simp_all add: buffers_ok_def active_headers_def active_trailers_def active_body_def)

lemma buffers_sizes:
  "buffers_ok p \<Longrightarrow> length (rq_method (hp_request p)) < METHOD_SIZE \<and>
     length (rq_target (hp_request p)) < TARGET_SIZE \<and> length (rs_reason (hp_response p)) < MAX_REQUEST_LINE"
  by (simp add: buffers_ok_def)

lemma started_if:
  "(b \<Longrightarrow> started p x) \<Longrightarrow> (\<not> b \<Longrightarrow> started p y) \<Longrightarrow> started p (if b then x else y)"
  by simp

lemma started_option:
  "(\<And>m. a = Some m \<Longrightarrow> started p (f m)) \<Longrightarrow> (a = None \<Longrightarrow> started p x) \<Longrightarrow>
   started p (case a of Some m \<Rightarrow> f m | None \<Rightarrow> x)"
  by (simp split: option.split)

lemma started_request:
  "\<not> hp_response_mode p \<Longrightarrow> buffers_ok (p\<lparr>hp_request := rq\<rparr>) \<Longrightarrow> good_start rq \<Longrightarrow>
   started p (True, p\<lparr>hp_request := rq\<rparr>)"
  by (simp add: started_def)

lemma started_response:
  "hp_response_mode p \<Longrightarrow> buffers_ok (p\<lparr>hp_response := rs\<rparr>) \<Longrightarrow> started p (True, p\<lparr>hp_response := rs\<rparr>)"
  by (simp add: started_def)

lemma parse_request_line_started:
  assumes b: "buffers_ok p" and m: "\<not> hp_response_mode p"
  shows "started p (parse_request_line p)"
  unfolding parse_request_line_def Let_def
  apply (intro started_if started_option started_fail b request_buffers)
                      apply (simp_all add: buffers_sizes [OF b] m)
   apply (auto simp: min_def) [1]
  apply (rule started_request [OF m request_buffers])
        apply (auto simp: b min_def good_start_def list_all_length)
  done

lemma parse_response_line_started:
  assumes b: "buffers_ok p" and m: "hp_response_mode p"
  shows "started p (parse_response_line p)"
  unfolding parse_response_line_def Let_def
  apply (intro started_if started_option started_fail b response_buffers)
                      apply (simp_all add: buffers_sizes [OF b] m)
  apply (auto intro!: started_response m response_buffers b split: if_splits)
  done

lemma field_line_result:
  assumes "parse_field_line mem p hs mx n mb = (q, r)" and "buffers_ok p"
  shows "case r of None \<Rightarrow> \<exists>k m. q = set_error (p\<lparr>hp_allocs := k\<rparr>) m
         | Some x \<Rightarrow> (\<exists>k. q = p\<lparr>hp_allocs := k\<rparr>) \<and> length hs < mx \<and> snd x \<le> mb"
proof -
  have "p = p\<lparr>hp_allocs := hp_allocs p\<rparr>" by simp
  then have err: "\<exists>k m. set_error p msg = set_error (p\<lparr>hp_allocs := k\<rparr>) m" for msg by metis
  show ?thesis
    using assms(1)
    by (cases r) (auto simp: parse_field_line_def Let_def alloc_def err split: if_splits)
qed

lemma allocs_buffers [simp]: "buffers_ok (p\<lparr>hp_allocs := k\<rparr>) = buffers_ok p"
  by (simp add: buffers_ok_def)

lemma store_buffers:
  "buffers_ok p \<Longrightarrow> length (active_headers p) < MAX_HEADER_COUNT \<Longrightarrow> snd x \<le> MAX_HEADER_SIZE \<Longrightarrow>
   buffers_ok (store_header x p)"
  "buffers_ok p \<Longrightarrow> length (active_trailers p) < MAX_TRAILER_COUNT \<Longrightarrow> snd x \<le> MAX_TRAILER_SIZE \<Longrightarrow>
   buffers_ok (store_trailer x p)"
  by (auto simp: buffers_ok_def store_header_def store_trailer_def)
     (auto simp: set_active_headers_def set_active_trailers_def)

definition same_message :: "http_parser \<Rightarrow> http_parser \<Rightarrow> bool" where
  "same_message p q \<longleftrightarrow> hp_state q = hp_state p \<and> hp_response_mode q = hp_response_mode p \<and>
     hp_body_written q = hp_body_written p \<and> rq_method (hp_request q) = rq_method (hp_request p) \<and>
     rq_target (hp_request q) = rq_target (hp_request p) \<and> rs_status (hp_response q) = rs_status (hp_response p)"

lemma store_same [simp]: "same_message p (store_header x p)" "same_message p (store_trailer x p)"
  by (auto simp: same_message_def store_header_def store_trailer_def set_active_headers_def set_active_trailers_def)

definition coded :: "http_parser \<Rightarrow> bool \<times> http_parser \<Rightarrow> bool" where
  "coded p x \<longleftrightarrow> (\<exists>b m. snd x = (if fst x then p\<lparr>hp_transfer_chunked := b\<rparr>
                               else set_error (p\<lparr>hp_transfer_chunked := b\<rparr>) m))"

lemma coded_intros:
  "coded p (True, p)" "coded p (False, set_error p m)" "coded p (True, p\<lparr>hp_transfer_chunked := b\<rparr>)"
  "coded (p\<lparr>hp_transfer_chunked := b\<rparr>) x \<Longrightarrow> coded p x"
proof -
  have "p = p\<lparr>hp_transfer_chunked := hp_transfer_chunked p\<rparr>" by simp
  then show "coded p (True, p)" "coded p (False, set_error p m)"
    unfolding coded_def fst_conv snd_conv if_True if_False simp_thms by metis+
  show "coded p (True, p\<lparr>hp_transfer_chunked := b\<rparr>)" by (auto simp: coded_def)
  show "coded (p\<lparr>hp_transfer_chunked := b\<rparr>) x \<Longrightarrow> coded p x"
    by (auto simp: coded_def) blast
qed

lemma codings_coded: "coded p (codings p v)"
proof (induction p v rule: codings.induct)
  case (1 p v)
  note IH = 1 [OF _ refl refl refl]
  show ?case
    unfolding codings.simps [of p v] Let_def
    using IH by (auto intro: coded_intros split: list.split)
qed

lemma framing_buffers [simp]:
  "buffers_ok (p\<lparr>hp_transfer_chunked := b\<rparr>) = buffers_ok p"
  "buffers_ok (p\<lparr>hp_has_transfer_encoding := b\<rparr>) = buffers_ok p"
  "buffers_ok p \<Longrightarrow> n \<le> MAX_BODY_SIZE \<Longrightarrow> buffers_ok (p\<lparr>hp_has_content_length := b, hp_content_length := n\<rparr>)"
  by (simp_all add: buffers_ok_def)

lemma max_body_word: "v \<le> (of_nat MAX_BODY_SIZE :: u64) \<Longrightarrow> unat v \<le> MAX_BODY_SIZE"
  by (simp add: MAX_BODY_SIZE_def word_le_nat_alt)

lemma apply_header_result:
  assumes "apply_header p h = (ok, q)" and b: "buffers_ok p"
  shows "buffers_ok q \<and> (if ok then same_message p q else hp_state q = ST_ERROR)"
proof -
  have te: ?thesis if "apply_transfer_encoding p v = (ok, q)" for v
  proof -
    obtain r p' where c: "codings p v = (r, p')" by fastforce
    have "coded p (r, p')" using codings_coded [of p v] by (simp add: c)
    then have "buffers_ok p' \<and> (r \<longrightarrow> same_message p p')" and "\<not> r \<longrightarrow> hp_state p' = ST_ERROR"
      using b by (auto simp: coded_def same_message_def set_error_buffers)
    with that c show ?thesis
      by (auto simp: apply_transfer_encoding_def same_message_def set_error_buffers
          split: if_splits bool.splits)
  qed
  have cl: ?thesis if "apply_content_length p v = (ok, q)" for v
    using that b
    by (auto simp: apply_content_length_def same_message_def set_error_buffers max_body_word not_less
        split: if_splits sum.splits)
  show ?thesis
    using assms te cl by (auto simp: apply_header_def same_message_def split: if_splits)
qed

lemma body_reserve_result:
  assumes "body_reserve mem p n = (ok, q)" and "n \<le> MAX_BODY_SIZE" and "hp_body_cap p \<le> MAX_BODY_SIZE"
  shows "\<exists>c k m. q = (if ok then p\<lparr>hp_body_cap := c, hp_allocs := k\<rparr> else set_error (p\<lparr>hp_allocs := k\<rparr>) m) \<and>
           (ok \<longrightarrow> n \<le> c \<and> hp_body_cap p \<le> c \<and> c \<le> MAX_BODY_SIZE)"
proof (cases "n \<le> hp_body_cap p")
  case True
  then have ok: ok "q = p" using assms(1) by (simp_all add: body_reserve_def)
  show ?thesis
    unfolding ok(2)
  proof (intro exI conjI impI)
    show "p = (if ok then p\<lparr>hp_body_cap := hp_body_cap p, hp_allocs := hp_allocs p\<rparr> else set_error (p\<lparr>hp_allocs := hp_allocs p\<rparr>) [])"
      using ok(1) by simp
  qed (use True assms(3) in auto)
next
  case False
  define c where "c = (let new_cap = (if hp_body_cap p \<noteq> 0 then hp_body_cap p * 2 else 4096);
    new_cap = (if new_cap < n then n else new_cap)
    in if new_cap > MAX_BODY_SIZE then MAX_BODY_SIZE else new_cap)"
  have c: "n \<le> c" "hp_body_cap p \<le> c" "c \<le> MAX_BODY_SIZE"
    using assms(2,3) False by (auto simp: c_def Let_def)
  have "(ok, q) = (if mem (hp_allocs p)
      then (True, (p\<lparr>hp_allocs := Suc (hp_allocs p)\<rparr>)\<lparr>hp_body_cap := c\<rparr>)
      else (False, set_error (p\<lparr>hp_allocs := Suc (hp_allocs p)\<rparr>) ''out of memory''))"
    unfolding assms(1) [symmetric] body_reserve_def alloc_def c_def Let_def by (simp add: False)
  then have "q = (if ok then p\<lparr>hp_body_cap := c, hp_allocs := Suc (hp_allocs p)\<rparr>
      else set_error (p\<lparr>hp_allocs := Suc (hp_allocs p)\<rparr>) ''out of memory'')"
    by (simp split: if_splits)
  with c show ?thesis by blast
qed

lemma cap_buffers:
  "buffers_ok p \<Longrightarrow> hp_body_cap p \<le> c \<Longrightarrow> c \<le> MAX_BODY_SIZE \<Longrightarrow>
   buffers_ok (p\<lparr>hp_body_cap := c\<rparr>)"
  by (simp add: buffers_ok_def)

definition same_framing :: "http_parser \<Rightarrow> http_parser \<Rightarrow> bool" where
  "same_framing p q \<longleftrightarrow> hp_state q = hp_state p \<and> hp_response_mode q = hp_response_mode p \<and>
     rq_method (hp_request q) = rq_method (hp_request p) \<and>
     rq_target (hp_request q) = rq_target (hp_request p) \<and>
     rs_status (hp_response q) = rs_status (hp_response p) \<and>
     hp_has_content_length q = hp_has_content_length p \<and> hp_content_length q = hp_content_length p \<and>
     hp_has_transfer_encoding q = hp_has_transfer_encoding p \<and> hp_chunk_remaining q = hp_chunk_remaining p"

lemma body_append_result:
  assumes a: "body_append mem p d = (ok, q)" and b: "buffers_ok p"
    and n: "hp_body_written p + length d \<le> MAX_BODY_SIZE"
  shows "buffers_ok q \<and> (if ok then same_framing p q \<and> active_body q = active_body p @ d \<and>
           hp_body_written q = hp_body_written p + length d else hp_state q = ST_ERROR)"
proof (cases "d = []")
  case True
  with a b show ?thesis by (auto simp: body_append_def same_framing_def)
next
  case False
  obtain r p' where r: "body_reserve mem p (hp_body_written p + length d) = (r, p')" by fastforce
  have "hp_body_cap p \<le> MAX_BODY_SIZE" using b by (simp add: buffers_ok_def)
  from body_reserve_result [OF r n this] obtain c k m where
    q: "p' = (if r then p\<lparr>hp_body_cap := c, hp_allocs := k\<rparr> else set_error (p\<lparr>hp_allocs := k\<rparr>) m)"
    and c: "r \<longrightarrow> hp_body_written p + length d \<le> c \<and> hp_body_cap p \<le> c \<and> c \<le> MAX_BODY_SIZE"
    by blast
  show ?thesis
  proof (cases r)
    case True
    with q c b have p': "buffers_ok p'" "same_framing p p'" "active_body p' = active_body p"
      "hp_body_written p' = hp_body_written p" "hp_body_cap p' = c"
      by (auto simp: cap_buffers same_framing_def)
    have q2: "q = (set_active_body (active_body p' @ d) p')\<lparr>hp_body_written := hp_body_written p' + length d\<rparr>"
      and ok using a False r True by (auto simp: body_append_def)
    have "same_framing p' q"
      by (auto simp: q2 same_framing_def set_active_body_def)
    moreover have "buffers_ok q"
      using p'(1,4,5) c True
      by (auto simp: q2 buffers_ok_def) (auto simp: set_active_body_def)
    moreover have "hp_body_written q = hp_body_written p + length d"
      by (simp add: q2 p')
    moreover have "active_body q = active_body p @ d"
      by (simp add: q2 p')
    ultimately show ?thesis using p'(2) \<open>ok\<close> by (simp add: same_framing_def)
  next
    case f: False
    with a False r q show ?thesis by (auto simp: body_append_def set_error_buffers b)
  qed
qed

lemma finish_headers_result:
  assumes f: "finish_headers mem p = (ok, q)" and i: "parser_inv p" and s: "hp_state p = ST_HEADERS"
  shows "parser_inv q \<and> (ok \<longrightarrow> hp_state q \<noteq> ST_ERROR)"
proof -
  have b: "buffers_ok p" and w: "hp_body_written p = 0" and st: "hp_response_mode p \<or> good_start (hp_request p)"
    using i s by (auto simp: parser_inv_defs)
  have inv: "parser_inv (p\<lparr>hp_state := ST_COMPLETE\<rparr>)"
    if "no_body p \<or> \<not> (hp_has_content_length p \<and> hp_has_transfer_encoding p) \<and> \<not> hp_has_transfer_encoding p \<and>
          (hp_has_content_length p \<longrightarrow> hp_content_length p = 0)"
    using that b w st by (auto simp: parser_inv_defs no_body_def)
  have chunk: "parser_inv (reset_line (p\<lparr>hp_state := ST_CHUNK_SIZE\<rparr>) MAX_CHUNK_LINE)"
    if "hp_has_transfer_encoding p" "\<not> hp_has_content_length p"
    using that b w st by (auto simp: parser_inv_defs)
  have fixed: ?thesis if c: "hp_has_content_length p" "\<not> hp_has_transfer_encoding p"
    "(case body_reserve mem p (hp_content_length p) of
              (False, p) \<Rightarrow> (False, p)
            | (True, p) \<Rightarrow> (True, p\<lparr>hp_state := ST_BODY_FIXED\<rparr>)) = (ok, q)"
  proof -
    obtain r p' where r: "body_reserve mem p (hp_content_length p) = (r, p')" by fastforce
    have "hp_body_cap p \<le> MAX_BODY_SIZE" "hp_content_length p \<le> MAX_BODY_SIZE"
      using b by (auto simp: buffers_ok_def)
    from body_reserve_result [OF r this(2,1)] obtain c k m where
      "p' = (if r then p\<lparr>hp_body_cap := c, hp_allocs := k\<rparr> else set_error (p\<lparr>hp_allocs := k\<rparr>) m)"
      "r \<longrightarrow> hp_content_length p \<le> c \<and> hp_body_cap p \<le> c \<and> c \<le> MAX_BODY_SIZE"
      by blast
    with c r b w st show ?thesis
      by (cases r) (auto simp: parser_inv_defs cap_buffers set_error_buffers)
  qed
  show ?thesis
    using f inv chunk fixed set_error_inv [OF b]
    by (simp add: finish_headers_def no_body_def split: if_splits; fastforce)
qed

lemma parse_chunk_size_result:
  "parse_chunk_size_line p = (q, r) \<Longrightarrow> case r of None \<Rightarrow> \<exists>m. q = set_error p m | Some n \<Rightarrow> q = p"
  by (auto simp: parse_chunk_size_line_def Let_def split: if_splits option.splits prod.splits)

section \<open>Every turn keeps it\<close>

definition turn_inv :: "turn \<Rightarrow> bool" where
  "turn_inv t = (case t of Next p r \<Rightarrow> parser_inv p | Out s p r \<Rightarrow> parser_inv p)"

lemma turn_inv_simps [simp]: "turn_inv (Next p r) = parser_inv p" "turn_inv (Out s p r) = parser_inv p"
  by (simp_all add: turn_inv_def)

lemma line_turn_inv:
  assumes "parser_inv p"
    and "\<And>q r. parser_inv q \<Longrightarrow> hp_state q = hp_state p \<Longrightarrow> hp_response_mode q = hp_response_mode p \<Longrightarrow>
           turn_inv (f q r)"
  shows "turn_inv (line_turn mem f p data)"
proof -
  obtain r q rest where c: "consume_line mem p data = (r, q, rest)" by (metis prod_cases3)
  with consume_line_inv [OF c assms(1)] assms(2) show ?thesis
    by (cases r) (auto simp: line_turn_def)
qed

lemma read_start_line_inv:
  assumes "parser_inv p" and "hp_state p = ST_REQUEST_LINE"
  shows "turn_inv (read_start_line p rest)"
proof -
  define x where "x = (if hp_response_mode p then parse_response_line p else parse_request_line p)"
  have b: "buffers_ok p" and w: "hp_body_written p = 0" using assms by (auto simp: parser_inv_defs)
  have "started p x"
    using parse_request_line_started [OF b] parse_response_line_started [OF b] by (simp add: x_def)
  then show ?thesis
    unfolding read_start_line_def x_def [symmetric] using w assms(2)
    by (cases x) (auto simp: started_def parser_inv_defs split: bool.splits if_splits)
qed

lemma same_message_inv:
  "same_message p q \<Longrightarrow> buffers_ok q \<Longrightarrow> hp_state p = ST_HEADERS \<Longrightarrow> parser_inv p \<Longrightarrow> parser_inv q"
  by (auto simp: same_message_def parser_inv_defs good_start_def)

lemma reset_inv: "parser_inv p \<Longrightarrow> parser_inv (reset_line p k)"
  by (cases "hp_state p") (auto simp: parser_inv_defs no_body_def)

lemma allocs_inv: "parser_inv p \<Longrightarrow> parser_inv (p\<lparr>hp_allocs := k\<rparr>)"
  by (cases "hp_state p") (auto simp: parser_inv_defs no_body_def)

lemma read_header_line_inv:
  assumes i: "parser_inv p" and s: "hp_state p = ST_HEADERS"
  shows "turn_inv (read_header_line mem p rest)"
proof (cases "length (hp_line p) = 0")
  case True
  obtain ok q where f: "finish_headers mem p = (ok, q)" by fastforce
  with finish_headers_result [OF f i s] True show ?thesis
    by (auto simp: read_header_line_def split: bool.split)
next
  case False
  have b: "buffers_ok p" using i by (simp add: parser_inv_def)
  obtain q r where r: "parse_field_line mem p (active_headers p) MAX_HEADER_COUNT (hp_header_bytes p)
      MAX_HEADER_SIZE = (q, r)" by fastforce
  note fr = field_line_result [OF r b]
  show ?thesis
  proof (cases r)
    case None
    with fr b False r show ?thesis by (auto simp: read_header_line_def intro!: set_error_inv)
  next
    case (Some x)
    with fr obtain k where q: "q = p\<lparr>hp_allocs := k\<rparr>" "length (active_headers p) < MAX_HEADER_COUNT"
      "snd x \<le> MAX_HEADER_SIZE" by auto
    have st: "buffers_ok (store_header x q)" using b q by (intro store_buffers) auto
    obtain ok u where u: "apply_header (store_header x q) (fst x) = (ok, u)" by fastforce
    note hr = apply_header_result [OF u st]
    have "parser_inv q" "hp_state q = ST_HEADERS" using i s by (auto simp: q allocs_inv)
    then have "parser_inv (store_header x q)"
      using st by (intro same_message_inv [of q "store_header x q"]) auto
    moreover have "hp_state (store_header x q) = ST_HEADERS"
      using store_same(1) [of q x] \<open>hp_state q = ST_HEADERS\<close> by (simp add: same_message_def)
    ultimately have "ok \<longrightarrow> parser_inv u" using hr by (auto intro: same_message_inv)
    moreover have "\<not> ok \<longrightarrow> parser_inv u" using hr by (auto simp: parser_inv_defs)
    ultimately show ?thesis
      using False r Some u by (auto simp: read_header_line_def intro: reset_inv split: bool.split)
  qed
qed

lemma trailer_same_framing [simp]: "same_framing p (store_trailer x p)"
  by (simp add: same_framing_def store_trailer_def set_active_trailers_def)

lemma same_framing_inv:
  "same_framing p q \<Longrightarrow> buffers_ok q \<Longrightarrow> hp_state p \<in> {ST_CHUNK_SIZE, ST_CHUNK_DATA_CRLF, ST_TRAILERS} \<Longrightarrow>
   parser_inv p \<Longrightarrow> parser_inv q"
  by (cases "hp_state p") (auto simp: same_framing_def parser_inv_defs good_start_def)

lemma read_trailer_line_inv:
  assumes i: "parser_inv p" and s: "hp_state p = ST_TRAILERS"
  shows "turn_inv (read_trailer_line mem p rest)"
proof (cases "length (hp_line p) = 0")
  case True
  have "parser_inv (p\<lparr>hp_state := ST_COMPLETE\<rparr>)"
    using i s by (auto simp: parser_inv_defs)
  with True show ?thesis by (simp add: read_trailer_line_def)
next
  case False
  have b: "buffers_ok p" using i by (simp add: parser_inv_def)
  obtain q r where r: "parse_field_line mem p (active_trailers p) MAX_TRAILER_COUNT (hp_trailer_bytes p)
      MAX_TRAILER_SIZE = (q, r)" by fastforce
  note fr = field_line_result [OF r b]
  show ?thesis
  proof (cases r)
    case None
    with fr b False r show ?thesis by (auto simp: read_trailer_line_def intro!: set_error_inv)
  next
    case (Some x)
    with fr obtain k where q: "q = p\<lparr>hp_allocs := k\<rparr>" "length (active_trailers p) < MAX_TRAILER_COUNT"
      "snd x \<le> MAX_TRAILER_SIZE" by auto
    have st: "buffers_ok (store_trailer x q)" using b q by (intro store_buffers) auto
    have "parser_inv q" "hp_state q = ST_TRAILERS" using i s by (auto simp: q allocs_inv)
    then have "parser_inv (store_trailer x q)"
      using st by (intro same_framing_inv [of q "store_trailer x q"]) auto
    with st False r Some show ?thesis
      by (auto simp: read_trailer_line_def intro: reset_inv set_error_inv)
  qed
qed

lemma read_chunk_size_inv:
  assumes i: "parser_inv p" and s: "hp_state p = ST_CHUNK_SIZE"
  shows "turn_inv (read_chunk_size p rest)"
proof -
  obtain q r where r: "parse_chunk_size_line p = (q, r)" by fastforce
  note res = parse_chunk_size_result [OF r]
  have b: "buffers_ok p" "hp_body_written p \<le> MAX_BODY_SIZE" using i by (auto simp: parser_inv_def buffers_ok_def)
  show ?thesis
  proof (cases r)
    case None
    with res r b show ?thesis by (auto simp: read_chunk_size_def intro!: set_error_inv)
  next
    case (Some n)
    with res have q: "q = p" by simp
    have "parser_inv (p\<lparr>hp_state := ST_TRAILERS\<rparr>)"
      using i s by (auto simp: parser_inv_defs)
    moreover have "parser_inv (p\<lparr>hp_chunk_remaining := n, hp_state := ST_CHUNK_DATA\<rparr>)"
      if "0 < n" "\<not> n > MAX_BODY_SIZE - hp_body_written p"
      using i s that b by (auto simp: parser_inv_defs)
    ultimately show ?thesis
      using r Some b by (auto simp: read_chunk_size_def q intro: reset_inv set_error_inv)
  qed
qed

lemma read_chunk_crlf_inv:
  assumes "parser_inv p" and "hp_state p = ST_CHUNK_DATA_CRLF"
  shows "turn_inv (read_chunk_crlf p rest)"
  using assms set_error_inv [of p]
  by (auto simp: read_chunk_crlf_def parser_inv_defs)

lemma turn_body_fixed_inv:
  assumes i: "parser_inv p" and s: "hp_state p = ST_BODY_FIXED"
  shows "turn_inv (turn_body_fixed mem p data)"
proof -
  define n where "n = min (hp_content_length p - hp_body_written p) (length data)"
  have b: "buffers_ok p" and c: "hp_body_written p \<le> hp_content_length p" "hp_content_length p \<le> MAX_BODY_SIZE"
    using i s by (auto simp: parser_inv_defs buffers_ok_def)
  obtain ok q where q: "(if n > 0 then body_append mem p (take n data) else (True, p)) = (ok, q)" by fastforce
  have len: "length (take n data) = n" "hp_body_written p + n \<le> hp_content_length p"
    using c by (auto simp: n_def)
  have "buffers_ok q \<and> (if ok then same_framing p q \<and> hp_body_written q = hp_body_written p + n
          else hp_state q = ST_ERROR)"
  proof (cases "n > 0")
    case True
    with q have "body_append mem p (take n data) = (ok, q)" by simp
    from body_append_result [OF this b] len c show ?thesis by auto
  next
    case False
    with q b show ?thesis by (auto simp: same_framing_def)
  qed
  then have "ok \<Longrightarrow> parser_inv q" "ok \<Longrightarrow> hp_content_length q \<le> hp_body_written q \<Longrightarrow> parser_inv (q\<lparr>hp_state := ST_COMPLETE\<rparr>)"
    and "\<not> ok \<Longrightarrow> parser_inv q"
    using i s len by (auto simp: parser_inv_defs same_framing_def good_start_def)
  then show ?thesis
    unfolding turn_body_fixed_def Let_def n_def [symmetric] q by (simp split: bool.split)
qed

lemma turn_chunk_data_inv:
  assumes i: "parser_inv p" and s: "hp_state p = ST_CHUNK_DATA"
  shows "turn_inv (turn_chunk_data mem p data)"
proof -
  define n where "n = min (hp_chunk_remaining p) (length data)"
  have b: "buffers_ok p" and c: "hp_body_written p + hp_chunk_remaining p \<le> MAX_BODY_SIZE" "n \<le> hp_chunk_remaining p"
    using i s by (auto simp: parser_inv_defs n_def)
  obtain ok q where q: "(if n > 0
               then (case body_append mem p (take n data) of
                       (False, p) \<Rightarrow> (False, p)
                     | (True, p) \<Rightarrow> (True, p\<lparr>hp_chunk_remaining := hp_chunk_remaining p - n\<rparr>))
               else (True, p)) = (ok, q)" by fastforce
  have len: "length (take n data) = n" by (simp add: n_def)
  have "buffers_ok q \<and> (if ok then same_framing (p\<lparr>hp_chunk_remaining := hp_chunk_remaining p - n\<rparr>) q \<and>
          hp_body_written q = hp_body_written p + n else hp_state q = ST_ERROR)"
  proof (cases "n > 0")
    case True
    obtain r u where a: "body_append mem p (take n data) = (r, u)" by fastforce
    from body_append_result [OF this b] len c q a True show ?thesis
      by (auto simp: same_framing_def split: bool.splits)
  next
    case False
    with q b show ?thesis by (auto simp: same_framing_def)
  qed
  then have "ok \<Longrightarrow> 0 < hp_chunk_remaining q \<Longrightarrow> parser_inv q"
    and "ok \<Longrightarrow> hp_chunk_remaining q = 0 \<Longrightarrow> parser_inv (q\<lparr>hp_state := ST_CHUNK_DATA_CRLF\<rparr>)"
    and "\<not> ok \<Longrightarrow> parser_inv q"
    using i s c by (auto simp: parser_inv_defs same_framing_def good_start_def)
  then show ?thesis
    unfolding turn_chunk_data_def Let_def n_def [symmetric] q by (auto intro: reset_inv split: bool.split)
qed

lemma feed_turn_inv: "parser_inv p \<Longrightarrow> turn_inv (feed_turn mem p data)"
  by (cases "hp_state p")
     (auto simp: feed_turn_def intro!: line_turn_inv read_start_line_inv read_header_line_inv turn_body_fixed_inv
        read_chunk_size_inv turn_chunk_data_inv read_chunk_crlf_inv read_trailer_line_inv)

lemma feed_loop_inv: "parser_inv p \<Longrightarrow> parser_inv (fst (snd (feed_loop mem p data)))"
proof (induction mem p data rule: feed_loop.induct)
  case (1 mem p data)
  from feed_turn_inv [OF "1.prems", of mem data] show ?case
    by (cases "feed_turn mem p data") (auto simp: feed_loop.simps [of mem p data] intro: "1.IH")
qed

lemma consumed_inv: "parser_inv p \<Longrightarrow> parser_inv (p\<lparr>hp_last_consumed := n\<rparr>)"
  by (cases "hp_state p") (auto simp: parser_inv_defs no_body_def buffers_ok_def)

lemma set_error_keeps_inv: "parser_inv p \<Longrightarrow> parser_inv (set_error p m)"
  by (simp add: parser_inv_def [of p] set_error_inv)

lemma parser_feed_inv: "parser_inv p \<Longrightarrow> parser_inv (snd (parser_feed mem p data))"
proof -
  assume i: "parser_inv p"
  define p0 where "p0 = p\<lparr>hp_last_consumed := 0\<rparr>"
  have c: "parser_inv p0" unfolding p0_def using i by (rule consumed_inv)
  show ?thesis
  proof (cases "hp_state p0 = ST_ERROR \<or> hp_state p0 = ST_COMPLETE \<or> data = None")
    case True
    with c show ?thesis
      by (auto simp: parser_feed_def Let_def p0_def [symmetric] set_error_keeps_inv)
  next
    case False
    then obtain d where d: "data = Some d" by auto
    obtain s q rest where l: "feed_loop mem p0 d = (s, q, rest)" by (metis prod_cases3)
    have "parser_inv q" using feed_loop_inv [OF c, of mem d] l by simp
    then have "parser_inv (q\<lparr>hp_last_consumed := n\<rparr>)" for n by (rule consumed_inv)
    with False show ?thesis
      by (simp add: parser_feed_def Let_def p0_def [symmetric] d l set_error_keeps_inv)
  qed
qed

lemma new_parser_inv: "parser_inv new_parser" "parser_inv (new_parser\<lparr>hp_response_mode := b\<rparr>)"
  by (simp_all add: parser_inv_defs buffers_ok_def new_parser_def active_headers_def active_trailers_def
      active_body_def empty_request_def empty_response_def METHOD_SIZE_def TARGET_SIZE_def MAX_REQUEST_LINE_def
      ERROR_SIZE_def)

lemma parser_reset_inv: "parser_inv p \<Longrightarrow> parser_inv (parser_reset p)"
  by (simp add: parser_inv_defs buffers_ok_def parser_reset_def reset_line_def active_headers_def active_trailers_def
      active_body_def empty_request_def empty_response_def METHOD_SIZE_def TARGET_SIZE_def MAX_REQUEST_LINE_def
      ERROR_SIZE_def)

section \<open>The limits on lines and chunks\<close>

text \<open>
  The longest line of each state: the limit given to \<open>reset_line\<close> on the way into it. The states
  without lines of their own keep the line they were entered with.
\<close>

fun line_limit_of :: "http_state \<Rightarrow> nat" where
  "line_limit_of ST_REQUEST_LINE = MAX_REQUEST_LINE"
| "line_limit_of ST_CHUNK_SIZE = MAX_CHUNK_LINE"
| "line_limit_of ST_CHUNK_DATA = MAX_CHUNK_LINE"
| "line_limit_of ST_CHUNK_DATA_CRLF = 0"
| "line_limit_of ST_TRAILERS = MAX_TRAILER_SIZE"
| "line_limit_of _ = MAX_HEADER_SIZE"

definition lines_ok :: "http_parser \<Rightarrow> bool" where
  "lines_ok p \<longleftrightarrow> length (hp_line p) \<le> hp_line_limit p \<and> hp_line_limit p \<le> line_limit_of (hp_state p) \<and>
     hp_chunk_remaining p \<le> MAX_CHUNK_SIZE"

lemma line_limit_le: "line_limit_of s \<le> MAX_HEADER_SIZE"
  by (cases s) (simp_all add: MAX_REQUEST_LINE_def MAX_HEADER_SIZE_def MAX_CHUNK_LINE_def MAX_TRAILER_SIZE_def)

lemma lines_error: "lines_ok p \<Longrightarrow> lines_ok (set_error p m)"
  using line_limit_le [of "hp_state p"] by (simp add: lines_ok_def) (simp add: set_error_def)

lemma lines_reset: "k \<le> line_limit_of (hp_state p) \<Longrightarrow> hp_chunk_remaining p \<le> MAX_CHUNK_SIZE \<Longrightarrow> lines_ok (reset_line p k)"
  by (simp add: lines_ok_def) (simp add: reset_line_def)

lemma lines_chunk: "lines_ok p \<Longrightarrow> hp_chunk_remaining p \<le> MAX_CHUNK_SIZE"
  by (simp add: lines_ok_def)

lemma lines_complete: "lines_ok p \<Longrightarrow> lines_ok (p\<lparr>hp_state := ST_COMPLETE\<rparr>)"
  using line_limit_le [of "hp_state p"] by (simp add: lines_ok_def)

text \<open>What the operations that do not read lines leave alone.\<close>

definition same_line :: "http_parser \<Rightarrow> http_parser \<Rightarrow> bool" where
  "same_line p q \<longleftrightarrow> hp_line q = hp_line p \<and> hp_line_limit q = hp_line_limit p \<and>
     (hp_state q = hp_state p \<or> hp_state q = ST_ERROR) \<and> hp_chunk_remaining q = hp_chunk_remaining p"

lemma same_line_ok: "same_line p q \<Longrightarrow> lines_ok p \<Longrightarrow> lines_ok q"
  using line_limit_le [of "hp_state p"] by (auto simp: same_line_def lines_ok_def)

lemma same_line_simps [simp]:
  "same_line p p" "same_line p q \<Longrightarrow> same_line p (set_error q m)"
  "same_line p (q\<lparr>hp_allocs := n\<rparr>) = same_line p q" "same_line p (q\<lparr>hp_request := rq\<rparr>) = same_line p q"
  "same_line p (q\<lparr>hp_response := rs\<rparr>) = same_line p q" "same_line p (q\<lparr>hp_body_cap := n\<rparr>) = same_line p q"
  "same_line p (q\<lparr>hp_header_bytes := n\<rparr>) = same_line p q" "same_line p (q\<lparr>hp_trailer_bytes := n\<rparr>) = same_line p q"
  "same_line p (q\<lparr>hp_transfer_chunked := b\<rparr>) = same_line p q"
  "same_line p (q\<lparr>hp_has_transfer_encoding := b\<rparr>) = same_line p q"
  "same_line p (q\<lparr>hp_content_length := n\<rparr>) = same_line p q"
  "same_line p (q\<lparr>hp_has_content_length := b\<rparr>) = same_line p q"
  "same_line p (q\<lparr>hp_body_written := n\<rparr>) = same_line p q"
  "same_line p (set_active_headers hs q) = same_line p q"
  "same_line p (set_active_trailers hs q) = same_line p q"
  "same_line p (set_active_body d q) = same_line p q"
  "same_line p (store_header x q) = same_line p q" "same_line p (store_trailer x q) = same_line p q"
  by (auto simp: same_line_def set_error_def set_active_headers_def set_active_trailers_def set_active_body_def
      store_header_def store_trailer_def)

lemma same_line_trans: "same_line p q \<Longrightarrow> same_line q r \<Longrightarrow> same_line p r"
  by (auto simp: same_line_def)

lemma line_functions:
  "same_line p (snd (parse_request_line p))" "same_line p (snd (parse_response_line p))"
  "same_line p (fst (parse_field_line mem p hs mx n mb))" "same_line p (fst (parse_chunk_size_line p))"
  by (simp_all add: parse_request_line_def parse_response_line_def parse_field_line_def alloc_def Let_def
      parse_chunk_size_line_def split: option.splits prod.splits)

lemma header_function: "same_line p (snd (apply_header p h))"
proof -
  have c: "same_line q (snd (codings q v))" for q v
  proof -
    obtain b m where "snd (codings q v) = (if fst (codings q v) then q\<lparr>hp_transfer_chunked := b\<rparr>
        else set_error (q\<lparr>hp_transfer_chunked := b\<rparr>) m)"
      using codings_coded [of q v] unfolding coded_def by blast
    then show ?thesis by simp
  qed
  have "same_line q (snd (apply_transfer_encoding q v))" for q v
    using c [of q v] by (cases "codings q v"; cases "fst (codings q v)") (auto simp: apply_transfer_encoding_def)
  moreover have "same_line q (snd (apply_content_length q v))" for q v
    by (simp add: apply_content_length_def split: sum.splits)
  ultimately show ?thesis by (simp add: apply_header_def)
qed

lemma body_functions:
  "same_line p (snd (body_reserve mem p n))" "same_line p (snd (body_append mem p d))"
proof -
  show r: "same_line p (snd (body_reserve mem p n))" for n
    by (simp add: body_reserve_def alloc_def Let_def)
  show "same_line p (snd (body_append mem p d))"
    using r [of "hp_body_written p + length d"]
    by (cases "body_reserve mem p (hp_body_written p + length d)") (auto simp: body_append_def split: bool.splits)
qed

lemma line_reserve_line: "line_reserve mem p = (ok, q) \<Longrightarrow> hp_line q = hp_line p \<and> hp_line_limit q = hp_line_limit p"
  by (auto simp: line_reserve_def alloc_def Let_def set_error_def split: if_splits)

lemma error_line [simp]: "hp_line (set_error p m) = hp_line p"
  by (simp add: set_error_def)

lemma consume_line_limit:
  "consume_line mem p d = (r, q, rest) \<Longrightarrow> length (hp_line p) \<le> hp_line_limit p \<Longrightarrow>
   length (hp_line q) \<le> hp_line_limit p"
proof (induction mem p d rule: consume_line.induct)
  case (2 mem p c cs)
  note IH = 2(1,2) and prems = 2(3,4)
  consider "hp_saw_cr p" | "\<not> hp_saw_cr p" "c = CR"
    | "\<not> hp_saw_cr p" "c \<noteq> CR" "c = LF \<or> c = NUL \<or> length (hp_line p) \<ge> hp_line_limit p"
    | "\<not> hp_saw_cr p" "c \<noteq> CR" "c \<noteq> LF" "c \<noteq> NUL" "length (hp_line p) < hp_line_limit p"
    using not_le by blast
  then show ?case
  proof cases
    case 1
    with prems show ?thesis by (auto simp: Let_def split: if_splits)
  next
    case 2
    with IH(1) prems show ?thesis by simp
  next
    case 3
    with prems show ?thesis by (auto split: if_splits)
  next
    case 4
    obtain ok u where u: "line_reserve mem p = (ok, u)" by fastforce
    note lu = line_reserve_line [OF u]
    show ?thesis
    proof (cases ok)
      case True
      with 4 u IH prems lu show ?thesis by simp
    next
      case False
      with 4 u IH prems lu show ?thesis by simp
    qed
  qed
qed simp

definition turn_lines :: "turn \<Rightarrow> bool" where
  "turn_lines t = (case t of Next p r \<Rightarrow> lines_ok p | Out s p r \<Rightarrow> lines_ok p)"

lemma turn_lines_simps [simp]: "turn_lines (Next p r) = lines_ok p" "turn_lines (Out s p r) = lines_ok p"
  by (simp_all add: turn_lines_def)

lemma line_turn_lines:
  assumes "lines_ok p" and "\<And>q r. lines_ok q \<Longrightarrow> hp_state q = hp_state p \<Longrightarrow> turn_lines (f q r)"
  shows "turn_lines (line_turn mem f p data)"
proof -
  obtain r q rest where c: "consume_line mem p data = (r, q, rest)" by (metis prod_cases3)
  obtain l k b n where f: "if r = LINE_ERROR then \<exists>m. q = set_error (line_state l k b n p) m
      else q = line_state l k b n p"
    using consume_line_frame [OF c] by blast
  have "length (hp_line q) \<le> hp_line_limit p" using consume_line_limit [OF c] assms(1) by (simp add: lines_ok_def)
  then have "lines_ok (line_state l k b n p)"
    using f assms(1) by (auto simp: lines_ok_def line_state_def split: if_splits)
  with f assms(2) [of q rest] show ?thesis
    by (cases r) (auto simp: line_turn_def c lines_error line_state_def)
qed

lemma start_line_lines: "lines_ok p \<Longrightarrow> turn_lines (read_start_line p r)"
proof -
  assume i: "lines_ok p"
  define x where "x = (if hp_response_mode p then parse_response_line p else parse_request_line p)"
  have "same_line p (snd x)" using line_functions(1,2) [of p] by (simp add: x_def)
  with i have "lines_ok (snd x)" by (rule same_line_ok [rotated])
  moreover have "lines_ok q \<Longrightarrow> lines_ok ((reset_line q MAX_HEADER_SIZE)\<lparr>hp_state := ST_HEADERS\<rparr>)" for q
    by (simp add: lines_ok_def reset_line_def)
  ultimately show ?thesis
    unfolding read_start_line_def x_def [symmetric] by (cases x) (auto split: bool.split)
qed

lemma field_line_lines:
  assumes "lines_ok p" and "parse_field_line mem p hs mx n mb = (q, r)"
  shows "lines_ok q" "same_line p q"
  using line_functions(3) [of p mem hs mx n mb] assms by (auto intro: same_line_ok)

lemma finish_headers_lines:
  assumes i: "lines_ok p" and s: "hp_state p = ST_HEADERS"
  shows "lines_ok (snd (finish_headers mem p))"
proof -
  obtain ok q where r: "body_reserve mem p (hp_content_length p) = (ok, q)" by fastforce
  then have sl: "same_line p q" using body_functions(1) [of p mem "hp_content_length p"] by simp
  have "lines_ok (q\<lparr>hp_state := ST_BODY_FIXED\<rparr>)" using i s sl by (simp add: same_line_def lines_ok_def)
  with i sl r show ?thesis
    by (simp add: finish_headers_def lines_complete lines_error lines_reset lines_chunk same_line_ok split: bool.split)
qed

lemma header_line_lines:
  assumes i: "lines_ok p" and s: "hp_state p = ST_HEADERS"
  shows "turn_lines (read_header_line mem p r)"
proof (cases "length (hp_line p) = 0")
  case True
  obtain ok q where f: "finish_headers mem p = (ok, q)" by fastforce
  with finish_headers_lines [OF i s, of mem] True show ?thesis
    by (simp add: read_header_line_def split: bool.split)
next
  case False
  obtain q x where f: "parse_field_line mem p (active_headers p) MAX_HEADER_COUNT (hp_header_bytes p)
      MAX_HEADER_SIZE = (q, x)" by fastforce
  note fl = field_line_lines [OF i f]
  have "turn_lines (case apply_header (store_header y q) (fst y) of
      (False, p) \<Rightarrow> Out PARSE_ERROR p r | (True, p) \<Rightarrow> Next (reset_line p MAX_HEADER_SIZE) r)" if "x = Some y" for y
  proof -
    obtain ok u where u: "apply_header (store_header y q) (fst y) = (ok, u)" by fastforce
    have "same_line p (store_header y q)" using fl(2) by simp
    moreover have "same_line (store_header y q) u" using header_function [of "store_header y q" "fst y"] u by simp
    ultimately have "same_line p u" by (rule same_line_trans)
    with i s u show ?thesis
      by (auto simp: same_line_ok lines_chunk intro!: lines_reset split: bool.split) (auto simp: same_line_def lines_chunk)
  qed
  with False f fl show ?thesis by (auto simp: read_header_line_def split: option.split)
qed

lemma chunk_size_lines:
  assumes i: "lines_ok p" and s: "hp_state p = ST_CHUNK_SIZE"
  shows "turn_lines (read_chunk_size p r)"
proof -
  obtain q x where q: "parse_chunk_size_line p = (q, x)" by fastforce
  then have sl: "same_line p q" using line_functions(4) [of p] by simp
  have n: "q = p" "n \<le> MAX_CHUNK_SIZE" if "x = Some n" for n
    using q that by (auto simp: parse_chunk_size_line_def Let_def MAX_CHUNK_SIZE_def word_less_nat_alt not_less
        split: if_splits option.splits)
  have "lines_ok (p\<lparr>hp_chunk_remaining := n, hp_state := ST_CHUNK_DATA\<rparr>)" if "n \<le> MAX_CHUNK_SIZE" for n
    using i s that by (simp add: lines_ok_def)
  with i s q n same_line_ok [OF sl i] show ?thesis
    by (auto simp: read_chunk_size_def lines_error lines_chunk intro!: lines_reset split: option.split)
qed

lemma trailer_line_lines:
  assumes i: "lines_ok p" and s: "hp_state p = ST_TRAILERS"
  shows "turn_lines (read_trailer_line mem p r)"
proof (cases "length (hp_line p) = 0")
  case False
  obtain q x where f: "parse_field_line mem p (active_trailers p) MAX_TRAILER_COUNT (hp_trailer_bytes p)
      MAX_TRAILER_SIZE = (q, x)" by fastforce
  note fl = field_line_lines [OF i f]
  have sl: "same_line p (store_trailer y q)" for y using fl(2) by simp
  with i have ok: "lines_ok (store_trailer y q)" for y by (blast intro: same_line_ok)
  have st: "hp_state (store_trailer y q) = ST_TRAILERS \<or> hp_state (store_trailer y q) = ST_ERROR" for y
    using sl [of y] s unfolding same_line_def by metis
  have "lines_ok (reset_line (store_trailer y q) MAX_TRAILER_SIZE)" for y
    using st [of y] line_limit_le [of ST_TRAILERS] lines_chunk [OF ok] by (intro lines_reset) auto
  with False f fl ok show ?thesis by (simp add: read_trailer_line_def lines_error split: option.split)
qed (simp add: read_trailer_line_def i lines_complete)

lemma body_fixed_lines:
  assumes i: "lines_ok p"
  shows "turn_lines (turn_body_fixed mem p d)"
proof -
  define n where "n = min (hp_content_length p - hp_body_written p) (length d)"
  obtain ok q where q: "(if n > 0 then body_append mem p (take n d) else (True, p)) = (ok, q)" by fastforce
  then have "same_line p q" using body_functions(2) [of p mem "take n d"] by (auto split: if_splits)
  with i have "lines_ok q" by (rule same_line_ok [rotated])
  then show ?thesis
    unfolding turn_body_fixed_def Let_def n_def [symmetric] q by (simp add: lines_complete split: bool.split)
qed

lemma chunk_data_lines:
  assumes i: "lines_ok p" and s: "hp_state p = ST_CHUNK_DATA"
  shows "turn_lines (turn_chunk_data mem p d)"
proof -
  define n where "n = min (hp_chunk_remaining p) (length d)"
  obtain ok q where q: "(if n > 0
               then (case body_append mem p (take n d) of
                       (False, p) \<Rightarrow> (False, p)
                     | (True, p) \<Rightarrow> (True, p\<lparr>hp_chunk_remaining := hp_chunk_remaining p - n\<rparr>))
               else (True, p)) = (ok, q)" by fastforce
  obtain b u where u: "body_append mem p (take n d) = (b, u)" by fastforce
  then have sl: "same_line p u" using body_functions(2) [of p mem "take n d"] by simp
  with i have "lines_ok u" by (rule same_line_ok [rotated])
  then have "lines_ok (u\<lparr>hp_chunk_remaining := hp_chunk_remaining u - n\<rparr>)" by (auto simp: lines_ok_def)
  with \<open>lines_ok u\<close> i have lq: "lines_ok q" using q u by (auto split: if_splits bool.splits)
  then have "lines_ok (reset_line (q\<lparr>hp_state := ST_CHUNK_DATA_CRLF\<rparr>) 0)"
    using lines_chunk by (intro lines_reset) simp_all
  with lq show ?thesis
    unfolding turn_chunk_data_def Let_def n_def [symmetric] q by (simp split: bool.split)
qed

lemma chunk_crlf_lines: "lines_ok p \<Longrightarrow> turn_lines (read_chunk_crlf p r)"
  by (auto simp: read_chunk_crlf_def lines_error lines_chunk intro!: lines_reset)

lemma feed_turn_lines: "lines_ok p \<Longrightarrow> turn_lines (feed_turn mem p data)"
  by (cases "hp_state p")
     (auto simp: feed_turn_def intro!: line_turn_lines start_line_lines header_line_lines body_fixed_lines
        chunk_size_lines chunk_data_lines chunk_crlf_lines trailer_line_lines)

lemma feed_loop_lines: "lines_ok p \<Longrightarrow> lines_ok (fst (snd (feed_loop mem p data)))"
proof (induction mem p data rule: feed_loop.induct)
  case (1 mem p data)
  from feed_turn_lines [OF "1.prems", of mem data] show ?case
    by (cases "feed_turn mem p data") (auto simp: feed_loop.simps [of mem p data] intro: "1.IH")
qed

lemma parser_feed_lines: "lines_ok p \<Longrightarrow> lines_ok (snd (parser_feed mem p data))"
proof -
  assume i: "lines_ok p"
  define p0 where "p0 = p\<lparr>hp_last_consumed := 0\<rparr>"
  have c: "lines_ok p0" using i by (simp add: p0_def lines_ok_def)
  show ?thesis
  proof (cases "hp_state p0 = ST_ERROR \<or> hp_state p0 = ST_COMPLETE \<or> data = None")
    case True
    with c show ?thesis by (auto simp: parser_feed_def Let_def p0_def [symmetric] lines_error)
  next
    case False
    then obtain d where d: "data = Some d" by auto
    obtain s q rest where l: "feed_loop mem p0 d = (s, q, rest)" by (metis prod_cases3)
    have "lines_ok q" using feed_loop_lines [OF c, of mem d] l by simp
    then have "lines_ok (q\<lparr>hp_last_consumed := n\<rparr>)" for n by (simp add: lines_ok_def)
    with False show ?thesis
      by (simp add: parser_feed_def Let_def p0_def [symmetric] d l lines_error)
  qed
qed

lemma new_parser_lines: "lines_ok (new_parser\<lparr>hp_response_mode := b\<rparr>)"
  by (simp add: lines_ok_def new_parser_def)

end
