(* ===== verification/Http_Theorems.thy ===== *)
theory Http_Theorems
  imports Http_Safety "HOL-Library.Code_Target_Nat"
begin

text \<open>
  The properties of the HTTP parser: its limits, the framing of a complete message, the safety of
  an accepted request target, and the exactness of the two numbers it reads.
\<close>

section \<open>Percent-decoding\<close>

text \<open>The reference: what a server that decodes the path would see.\<close>

fun pct_decode :: "string \<Rightarrow> string option" where
  "pct_decode [] = Some []"
| "pct_decode (c # cs) =
     (if c = CHR ''%'' then
        (case cs of
           a # b # rest \<Rightarrow>
             (case decode_octet a b of
                None \<Rightarrow> None
              | Some d \<Rightarrow> map_option ((#) (char_of d)) (pct_decode rest))
         | _ \<Rightarrow> None)
      else map_option ((#) c) (pct_decode cs))"

fun split_slash :: "string \<Rightarrow> string list" where
  "split_slash [] = [[]]"
| "split_slash (c # cs) =
     (if c = CHR ''/'' then [] # split_slash cs
      else (case split_slash cs of [] \<Rightarrow> [[c]] | s # ss \<Rightarrow> (c # s) # ss))"

definition path_of :: "string \<Rightarrow> string" where
  "path_of t = takeWhile (\<lambda>c. c \<noteq> CHR ''?'') t"

text \<open>What the first loop of \<open>sanitize_request_target\<close> has checked.\<close>

definition unsafe_octet :: "nat \<Rightarrow> bool" where
  "unsafe_octet d \<longleftrightarrow> d < 0x20 \<or> d = 0x7F \<or> d = ord CHR ''/'' \<or> d = 0x5C"

fun pct_ok :: "string \<Rightarrow> bool" where
  "pct_ok [] = True"
| "pct_ok (c # cs) =
     (if c = CHR ''#'' \<or> c = CHR 0x5C then False
      else if c = CHR ''%'' then
        (case cs of
           a # b # rest \<Rightarrow>
             (case decode_octet a b of None \<Rightarrow> False | Some d \<Rightarrow> \<not> unsafe_octet d \<and> pct_ok rest)
         | _ \<Rightarrow> False)
      else pct_ok cs)"

lemma char_of_is: "(v::nat) < 256 \<Longrightarrow> char_of v = c \<longleftrightarrow> v = ord c"
  by (auto simp: char_of_eq_iff take_bit_nat_eq_self)

lemma char_is: "c = d \<longleftrightarrow> ord c = ord d"
  by simp

lemma split_slash_ne [simp]: "split_slash s \<noteq> []"
  by (cases s) (auto split: list.splits)

lemma hex_value_bound: "hex_value c = Some v \<Longrightarrow> v < 16"
  by (auto simp: hex_value_def is_digit_def split: if_splits)

lemma hex_value_char: "hex_value c = Some v \<Longrightarrow> c \<noteq> CHR ''?'' \<and> c \<noteq> CHR ''/'' \<and> c \<noteq> CHR ''%''"
  by (auto simp: hex_value_def is_digit_def split: if_splits)

lemma decode_octet_hex:
  "decode_octet a b = Some d \<Longrightarrow> \<exists>h l. hex_value a = Some h \<and> hex_value b = Some l \<and> d = 16 * h + l"
  by (auto simp: decode_octet_def split: option.splits)

lemma decode_octet_bound: "decode_octet a b = Some d \<Longrightarrow> d < 256"
  using hex_value_bound [of a] hex_value_bound [of b] by (fastforce dest: decode_octet_hex)

lemma decode_octet_chars:
  "decode_octet a b = Some d \<Longrightarrow> {a, b} \<inter> {CHR ''?'', CHR ''/'', CHR ''%''} = {}"
  using hex_value_char [of a] hex_value_char [of b] by (fastforce dest: decode_octet_hex)

lemma scan_target_ok:
  "scan_target n t i q = Inr r \<Longrightarrow> n = i + length t \<Longrightarrow>
   pct_ok t \<and> r = (if q = n then i + length (path_of t) else q)"
proof (induction n t i q rule: scan_target.induct)
  case (2 n c cs i q)
  show ?case
  proof (cases "c = CHR ''%''")
    case True
    with 2(3) obtain a b rest d where cs: "cs = a # b # rest" "decode_octet a b = Some d" "\<not> unsafe_octet d"
      "scan_target n rest (i + 3) q = Inr r"
      by (auto simp: unsafe_octet_def split: list.splits option.splits if_splits)
    have "pct_ok rest \<and> r = (if q = n then i + 3 + length (path_of rest) else q)"
      using 2(1) [of a "b # rest" b rest d] cs True 2(4) by (auto simp: unsafe_octet_def)
    with cs True decode_octet_chars [OF cs(2)] show ?thesis by (auto simp: path_of_def)
  next
    case False
    with 2 show ?thesis
      by (auto simp: path_of_def split: if_splits)
  qed
qed (auto simp: path_of_def)

lemma pct_ok_path: "pct_ok t \<Longrightarrow> pct_ok (path_of t)"
proof (induction t rule: pct_ok.induct)
  case (2 c cs)
  show ?case
  proof (cases "c = CHR ''%''")
    case True
    with 2(3) obtain a b rest d where cs: "cs = a # b # rest" "decode_octet a b = Some d" "\<not> unsafe_octet d" "pct_ok rest"
      by (auto split: list.splits option.splits if_splits)
    with 2(1) True decode_octet_chars [OF cs(2)] show ?thesis by (auto simp: path_of_def)
  next
    case False
    with 2 show ?thesis by (auto simp: path_of_def split: if_splits)
  qed
qed (simp add: path_of_def)

lemma split_slash_Cons: "c \<noteq> CHR ''/'' \<Longrightarrow> split_slash (c # cs) = (c # hd (split_slash cs)) # tl (split_slash cs)"
  by (cases "split_slash cs") auto

text \<open>On a checked path, decoding and splitting commute.\<close>

lemma decode_split:
  "pct_ok t \<Longrightarrow> \<exists>d. pct_decode t = Some d \<and> map pct_decode (split_slash t) = map Some (split_slash d)"
proof (induction t rule: pct_ok.induct)
  case (2 c cs)
  show ?case
  proof (cases "c = CHR ''%''")
    case True
    with 2(3) obtain a b rest v where cs: "cs = a # b # rest" "decode_octet a b = Some v" "\<not> unsafe_octet v" "pct_ok rest"
      by (auto split: list.splits option.splits if_splits)
    have "\<exists>d. pct_decode rest = Some d \<and> map pct_decode (split_slash rest) = map Some (split_slash d)"
      using 2(1) [of a "b # rest" b rest v] True cs by simp
    then obtain d where d: "pct_decode rest = Some d"
      "map pct_decode (split_slash rest) = map Some (split_slash d)" by blast
    have "char_of v \<noteq> CHR ''/''"
      using cs(3) decode_octet_bound [OF cs(2)] by (auto simp: unsafe_octet_def char_of_is)
    with True cs d decode_octet_chars [OF cs(2)] show ?thesis
      by (cases "split_slash rest"; cases "split_slash d") (auto simp: split_slash_Cons)
  next
    case False
    with 2 obtain d where d: "pct_decode cs = Some d" "map pct_decode (split_slash cs) = map Some (split_slash d)"
      by (auto split: if_splits)
    show ?thesis
    proof (cases "c = CHR ''/''")
      case True
      with d show ?thesis by (auto)
    next
      case F: False
      with False d show ?thesis
        by (cases "split_slash cs"; cases "split_slash d") (auto simp: split_slash_Cons)
    qed
  qed
qed auto

lemma check_segments_split:
  "check_segments seg t = None \<longleftrightarrow>
   segment_error (seg @ hd (split_slash t)) = None \<and> (\<forall>s\<in>set (tl (split_slash t)). segment_error s = None)"
proof (induction seg t rule: check_segments.induct)
  case (2 seg c cs)
  then show ?case
    by (cases "c = CHR ''/''"; cases "split_slash cs") (auto simp: split_slash_Cons split: option.splits)
qed auto

lemma check_segments_all: "check_segments [] t = None \<longleftrightarrow> (\<forall>s\<in>set (split_slash t). segment_error s = None)"
  using check_segments_split [of "[]" t] by (cases "split_slash t") auto

lemma decode_octet_dot:
  "decode_octet a b = Some 46 \<Longrightarrow> a = CHR ''2'' \<and> is_e b"
proof -
  assume "decode_octet a b = Some 46"
  then obtain h l where hl: "hex_value a = Some h" "hex_value b = Some l" "46 = 16 * h + l"
    using decode_octet_hex by blast
  then have "h = 2" "l = 14" using hex_value_bound [OF hl(2)] by presburger+
  have a: "ord a = 50"
    using hl(1) \<open>h = 2\<close> by (auto simp: hex_value_def is_digit_def split: if_splits)
  have b: "ord b = 101 \<or> ord b = 69"
    using hl(2) \<open>l = 14\<close> by (auto simp: hex_value_def is_digit_def split: if_splits)
  have "a = CHR ''2''" using a unfolding char_is [of a] by simp
  moreover have "b = CHR ''e'' \<or> b = CHR ''E''" using b unfolding char_is [of b] by simp
  ultimately show ?thesis by (simp add: is_e_def)
qed

text \<open>A segment whose decoding is a dot segment is refused.\<close>

lemma dot_decoded:
  assumes "pct_decode s = Some (CHR ''.'' # d)"
  obtains (plain) s' where "s = CHR ''.'' # s'" "pct_decode s' = Some d"
  | (encoded) b s' where "s = CHR ''%'' # CHR ''2'' # b # s'" "is_e b" "pct_decode s' = Some d"
proof (cases s)
  case Nil
  with assms show thesis by simp
next
  case (Cons c cs)
  show thesis
  proof (cases "c = CHR ''%''")
    case True
    with assms Cons obtain a b rest v where cs: "cs = a # b # rest" "decode_octet a b = Some v"
      "char_of v = CHR ''.''" "pct_decode rest = Some d"
      by (auto split: list.splits option.splits)
    have "v = 46"
      using cs(3) decode_octet_bound [OF cs(2)] by (simp add: char_of_is)
    with cs Cons True decode_octet_dot show thesis by (auto intro!: encoded)
  next
    case False
    with assms Cons show thesis by (auto intro!: plain)
  qed
qed

lemma dot_segment_refused:
  assumes "segment_error s = None"
  shows "pct_decode s \<noteq> Some ''.''" and "pct_decode s \<noteq> Some ''..''"
proof -
  have nil: "s' = []" if "pct_decode s' = Some []" for s'
    using that by (cases s') (auto split: if_splits list.splits option.splits)
  show "pct_decode s \<noteq> Some ''.''"
  proof
    assume "pct_decode s = Some ''.''"
    then show False
      using assms by (cases rule: dot_decoded) (auto dest!: nil simp: segment_error_def)
  qed
  have one: "x = ''.'' \<or> (\<exists>b. x = [CHR ''%'', CHR ''2'', b] \<and> is_e b)" if "pct_decode x = Some ''.''" for x
    using that by (cases rule: dot_decoded) (auto dest!: nil)
  show "pct_decode s \<noteq> Some ''..''"
  proof
    assume "pct_decode s = Some ''..''"
    then show False
      using assms by (cases rule: dot_decoded) (auto dest!: one simp: segment_error_def)
  qed
qed

text \<open>Decoded bytes are plain bytes of the path or decoded octets, both of them checked.\<close>

lemma decoded_safe:
  "pct_ok t \<Longrightarrow> list_all (\<lambda>c. \<not> (c = SP \<or> ord c < 0x20 \<or> ord c = 0x7F)) t \<Longrightarrow> pct_decode t = Some d \<Longrightarrow>
   list_all (\<lambda>c. \<not> (ord c < 0x20 \<or> ord c = 0x7F \<or> c = CHR 0x5C)) d"
proof (induction t arbitrary: d rule: pct_ok.induct)
  case (2 c cs)
  show ?case
  proof (cases "c = CHR ''%''")
    case True
    with 2(3,5) obtain a b rest v e where cs: "cs = a # b # rest" "decode_octet a b = Some v" "\<not> unsafe_octet v"
      "pct_ok rest" "pct_decode rest = Some e" "d = char_of v # e"
      by (auto split: list.splits option.splits if_splits)
    have "list_all (\<lambda>c. \<not> (ord c < 0x20 \<or> ord c = 0x7F \<or> c = CHR 0x5C)) e"
      using 2(1) [of a "b # rest" b rest v e] True cs 2(4) by simp
    moreover have "v < 256" using decode_octet_bound [OF cs(2)] .
    ultimately show ?thesis
      using cs(3,6) by (auto simp: unsafe_octet_def char_of_is)
  next
    case False
    with 2 show ?thesis by (auto split: if_splits)
  qed
qed auto

lemma sanitize_parts:
  assumes "sanitize_request_target t = None" and "t \<noteq> ''*''"
  shows "\<exists>r. t = CHR ''/'' # r \<and> pct_ok r \<and> (\<forall>s\<in>set (split_slash (path_of r)). segment_error s = None)"
proof -
  obtain c r where t: "t = c # r" using assms(1) by (cases t) (auto simp: sanitize_request_target_def)
  have c: "c = CHR ''/''"
    using assms t by (auto simp: sanitize_request_target_def split: if_splits)
  obtain q where q: "scan_target (length t) t 0 (length t) = Inr q"
    using assms t c by (auto simp: sanitize_request_target_def split: if_splits sum.splits)
  from scan_target_ok [OF q] have ok: "pct_ok r" "q = length (path_of t)" by (auto simp: t c)
  have "take q t = path_of t"
    unfolding ok(2) path_of_def by (metis takeWhile_eq_take length_takeWhile_le take_all takeWhile_idem)
  then have "drop 1 (take q t) = path_of r" by (simp add: t c path_of_def)
  moreover have "check_segments [] (drop 1 (take q t)) = None"
    using assms t c q by (auto simp: sanitize_request_target_def split: if_splits option.splits)
  ultimately show ?thesis
    using t c ok(1) by (auto simp: check_segments_all)
qed

lemma pct_ok_bytes: "pct_ok t \<Longrightarrow> CHR ''#'' \<notin> set t \<and> CHR 0x5C \<notin> set t"
proof (induction t rule: pct_ok.induct)
  case (2 c cs)
  show ?case
  proof (cases "c = CHR ''%''")
    case True
    with 2(3) obtain a b rest d where cs: "cs = a # b # rest" "decode_octet a b = Some d" "\<not> unsafe_octet d" "pct_ok rest"
      by (auto split: list.splits option.splits if_splits)
    have hex: "v \<noteq> CHR ''#'' \<and> v \<noteq> CHR 0x5C" if "hex_value v \<noteq> None" for v
      using that by (auto simp: hex_value_def is_digit_def split: if_splits)
    with decode_octet_hex [OF cs(2)] have "{CHR ''#'', CHR 0x5C} \<inter> {a, b} = {}" by auto
    with 2(1) [of a "b # rest" b rest d] True cs show ?thesis by auto
  next
    case False
    with 2 show ?thesis by (auto split: if_splits)
  qed
qed simp

text \<open>Every percent sign begins an escape that was checked: a hexadecimal digit is no percent sign.\<close>

lemma pct_ok_escapes:
  "pct_ok t \<Longrightarrow> t = pre @ CHR ''%'' # post \<Longrightarrow>
   \<exists>a b rest d. post = a # b # rest \<and> decode_octet a b = Some d \<and> \<not> unsafe_octet d"
proof (induction t arbitrary: pre rule: pct_ok.induct)
  case (2 c cs)
  show ?case
  proof (cases "c = CHR ''%''")
    case True
    with 2(3) obtain a b rest d where cs: "cs = a # b # rest" "decode_octet a b = Some d" "\<not> unsafe_octet d" "pct_ok rest"
      by (auto split: list.splits option.splits if_splits)
    show ?thesis
    proof (cases pre)
      case Nil
      with 2(4) cs show ?thesis by auto
    next
      case (Cons x pre')
      with 2(4) have "a # b # rest = pre' @ CHR ''%'' # post" by (simp add: cs)
      with decode_octet_chars [OF cs(2)] obtain pre'' where "rest = pre'' @ CHR ''%'' # post"
        by (cases pre'; cases "tl pre'") auto
      with 2(1) [of a "b # rest" b rest d pre''] True cs show ?thesis by simp
    qed
  next
    case False
    with 2(3,4) obtain pre' where "cs = pre' @ CHR ''%'' # post" "pct_ok cs" by (cases pre) (auto split: if_splits)
    with 2(2) False 2(3) show ?thesis by (auto split: if_splits)
  qed
qed simp

lemma accepted_target:
  assumes "sanitize_request_target t = None" and "list_all (\<lambda>c. \<not> (c = SP \<or> ord c < 0x20 \<or> ord c = 0x7F)) t"
  shows "t \<noteq> [] \<and> list_all (\<lambda>c. ord c > 0x20 \<and> ord c \<noteq> 0x7F \<and> c \<noteq> CHR ''#'' \<and> c \<noteq> CHR 0x5C) t \<and>
     (\<forall>pre post. t = pre @ CHR ''%'' # post \<longrightarrow>
        (\<exists>a b rest d. post = a # b # rest \<and> decode_octet a b = Some d \<and> \<not> unsafe_octet d)) \<and>
     (\<exists>e. pct_decode t = Some e \<and> list_all (\<lambda>c. \<not> (ord c < 0x20 \<or> ord c = 0x7F \<or> c = CHR 0x5C)) e) \<and>
     (t = ''*'' \<or>
      (\<exists>r d. t = CHR ''/'' # r \<and> pct_decode (path_of r) = Some d \<and>
         ''.'' \<notin> set (split_slash d) \<and> ''..'' \<notin> set (split_slash d) \<and>
         list_all (\<lambda>c. \<not> (ord c < 0x20 \<or> ord c = 0x7F \<or> c = CHR 0x5C)) d))"
proof -
  have ne: "t \<noteq> []" using assms(1) by (auto simp: sanitize_request_target_def)
  have ok: "pct_ok t"
  proof (cases "t = ''*''")
    case False
    from sanitize_parts [OF assms(1) this] show ?thesis by auto
  qed simp
  have sp: "ord c > 0x20" if "c \<noteq> SP" "\<not> ord c < 0x20" for c
  proof -
    have "ord c \<noteq> ord SP" using that(1) by (metis char_is)
    then show ?thesis using that(2) by (simp add: SP_def)
  qed
  have raw: "list_all (\<lambda>c. ord c > 0x20 \<and> ord c \<noteq> 0x7F \<and> c \<noteq> CHR ''#'' \<and> c \<noteq> CHR 0x5C) t"
    using assms(2) pct_ok_bytes [OF ok] by (auto simp: list_all_iff sp)
  obtain e where e: "pct_decode t = Some e" using decode_split [OF ok] by blast
  have path: "\<exists>r d. t = CHR ''/'' # r \<and> pct_decode (path_of r) = Some d \<and>
         ''.'' \<notin> set (split_slash d) \<and> ''..'' \<notin> set (split_slash d) \<and>
         list_all (\<lambda>c. \<not> (ord c < 0x20 \<or> ord c = 0x7F \<or> c = CHR 0x5C)) d" if star: "t \<noteq> ''*''"
  proof -
    from sanitize_parts [OF assms(1) star] obtain r where r: "t = CHR ''/'' # r" "pct_ok r"
      "\<forall>s\<in>set (split_slash (path_of r)). segment_error s = None" by blast
    note ok = pct_ok_path [OF r(2)]
    from decode_split [OF ok] obtain d where d: "pct_decode (path_of r) = Some d"
      "map pct_decode (split_slash (path_of r)) = map Some (split_slash d)" by blast
    have seg: "\<exists>s'\<in>set (split_slash (path_of r)). pct_decode s' = Some s" if "s \<in> set (split_slash d)" for s
    proof -
      have "Some s \<in> set (map pct_decode (split_slash (path_of r)))" using d(2) that by simp
      then show ?thesis by auto
    qed
    have "list_all (\<lambda>c. \<not> (c = SP \<or> ord c < 0x20 \<or> ord c = 0x7F)) (path_of r)"
      using assms(2) r(1) by (auto simp: list_all_iff path_of_def dest: set_takeWhileD)
    from decoded_safe [OF ok this d(1)] show ?thesis
      using r(1,3) d(1) seg dot_segment_refused by fastforce
  qed
  show ?thesis
    using ne raw e path pct_ok_escapes [OF ok] decoded_safe [OF ok assms(2) e] by blast
qed

section \<open>Numbers\<close>

definition hex_from :: "nat \<Rightarrow> string \<Rightarrow> nat" where
  "hex_from n s = foldl (\<lambda>m c. 16 * m + the (hex_value c)) n s"

lemma unat_UINT64_MAX: "unat UINT64_MAX = 2 ^ 64 - 1"
  by (simp add: UINT64_MAX_def unsigned_minus_1_eq_mask mask_eq_exp_minus_1)

lemma hex_from_ge: "n \<le> hex_from n s"
proof (induction s arbitrary: n)
  case (Cons c s)
  have "n \<le> 16 * n + the (hex_value c)" by simp
  also have "\<dots> \<le> hex_from (16 * n + the (hex_value c)) s" by (rule Cons)
  finally show ?case by (simp add: hex_from_def)
qed (simp add: hex_from_def)

text \<open>The overflow test is exact: it fires just when the next value does not fit.\<close>

lemma decimal_fits:
  assumes "d < 10"
  shows "v > (UINT64_MAX - of_nat d) div 10 \<longleftrightarrow> \<not> 10 * unat v + d < 2 ^ 64"
proof -
  have "unat (UINT64_MAX - of_nat d :: u64) = 2 ^ 64 - 1 - d"
    using assms by (subst unat_sub) (simp_all add: unat_of_nat word_le_nat_alt unat_UINT64_MAX)
  then have "v > (UINT64_MAX - of_nat d) div 10 \<longleftrightarrow> unat v > (2 ^ 64 - 1 - d) div 10"
    by (simp add: word_less_nat_alt unat_div)
  also have "\<dots> \<longleftrightarrow> 2 ^ 64 - 1 - d < unat v * 10"
    by (simp add: div_less_iff_less_mult)
  also have "\<dots> \<longleftrightarrow> \<not> 10 * unat v + d < 2 ^ 64"
    using assms by auto
  finally show ?thesis .
qed

lemma decimal_step:
  assumes "10 * unat v + d < 2 ^ 64" and "d < 10"
  shows "unat (v * 10 + of_nat d :: u64) = 10 * unat v + d"
proof -
  have "v * 10 + of_nat d = (of_nat (10 * unat v + d) :: u64)" by simp
  then show ?thesis using assms by (simp only: unat_of_nat) simp
qed

lemma decimal_u64_exact:
  "decimal_u64 v s = Inr w \<longleftrightarrow>
   list_all is_digit s \<and> dec_from (unat v) s < 2 ^ 64 \<and> w = of_nat (dec_from (unat v) s)"
proof (induction v s rule: decimal_u64.induct)
  case (1 v)
  show ?case using unsigned_less [of v, where ?'a = nat] by (auto simp: dec_from_def)
next
  case (2 v c cs)
  show ?case
  proof (cases "is_digit c")
    case True
    note d = digit_val_bound [OF True]
    show ?thesis
    proof (cases "10 * unat v + digit_val c < 2 ^ 64")
      case fits: True
      have "\<not> v > (UINT64_MAX - of_nat (digit_val c)) div 10"
        unfolding decimal_fits [OF d] using fits by simp
      then show ?thesis
        using 2 True decimal_step [OF fits d] by (simp add: Let_def dec_from_def)
    next
      case False
      then have "v > (UINT64_MAX - of_nat (digit_val c)) div 10"
        unfolding decimal_fits [OF d] .
      moreover have "\<not> dec_from (unat v) (c # cs) < 2 ^ 64"
        using False dec_from_ge [of "10 * unat v + digit_val c" cs] by (simp add: dec_from_def)
      ultimately show ?thesis using True by (simp add: Let_def)
    qed
  qed simp
qed

lemma content_length_exact:
  "fst (apply_content_length p s) \<longleftrightarrow>
     \<not> hp_has_content_length p \<and> s \<noteq> [] \<and> list_all is_digit s \<and> dec_from 0 s \<le> MAX_BODY_SIZE"
  "fst (apply_content_length p s) \<Longrightarrow>
     snd (apply_content_length p s) = p\<lparr>hp_has_content_length := True, hp_content_length := dec_from 0 s\<rparr>"
proof -
  let ?n = "dec_from 0 s"
  have small: "of_nat ?n \<le> (of_nat MAX_BODY_SIZE :: u64) \<longleftrightarrow> ?n \<le> MAX_BODY_SIZE" if "?n < 2 ^ 64"
    using that by (simp add: word_le_nat_alt unat_of_nat MAX_BODY_SIZE_def)
  show "fst (apply_content_length p s) \<longleftrightarrow>
     \<not> hp_has_content_length p \<and> s \<noteq> [] \<and> list_all is_digit s \<and> ?n \<le> MAX_BODY_SIZE"
  proof (cases "decimal_u64 0 s")
    case (Inl m)
    then have "\<not> (list_all is_digit s \<and> ?n < 2 ^ 64)"
      using decimal_u64_exact [of 0 s "of_nat ?n"] by simp
    with Inl show ?thesis by (auto simp: apply_content_length_def MAX_BODY_SIZE_def)
  next
    case (Inr w)
    with decimal_u64_exact [of 0 s w] small show ?thesis
      by (auto simp: apply_content_length_def not_less)
  qed
  show "snd (apply_content_length p s) = p\<lparr>hp_has_content_length := True, hp_content_length := ?n\<rparr>"
    if ok: "fst (apply_content_length p s)"
  proof -
    obtain w where w: "decimal_u64 0 s = Inr w" "snd (apply_content_length p s) =
        p\<lparr>hp_has_content_length := True, hp_content_length := unat w\<rparr>"
      using ok by (auto simp: apply_content_length_def split: if_splits sum.splits)
    then have "?n < 2 ^ 64 \<and> w = of_nat ?n" using decimal_u64_exact [of 0 s w] by simp
    with w(2) show ?thesis by (simp add: unat_of_nat)
  qed
qed

lemma hex_step:
  assumes "\<not> v > drop_bit 4 UINT64_MAX" and "d < 16"
  shows "unat (push_bit 4 v OR of_nat d :: u64) = 16 * unat v + d" and "16 * unat v + d < 2 ^ 64"
proof -
  have "unat (drop_bit 4 UINT64_MAX :: u64) = 2 ^ 60 - 1"
    by (simp add: drop_bit_eq_div unat_div unat_UINT64_MAX)
  then have v: "unat v < 2 ^ 60" using assms(1) by (simp add: word_less_nat_alt)
  then show *: "16 * unat v + d < 2 ^ 64" using assms(2) by simp
  have "take_bit 4 d = d" using assms(2) by (simp add: take_bit_nat_eq_self)
  then have low: "bit d n \<Longrightarrow> n < 4" for n by (metis bit_take_bit_iff)
  have "push_bit 4 v AND of_nat d = (0 :: u64)"
    by (intro bit_word_eqI) (auto simp: bit_and_iff bit_push_bit_iff bit_of_nat_iff dest!: low)
  then have "push_bit 4 v OR of_nat d = push_bit 4 v + (of_nat d :: u64)"
    by (simp add: disjunctive_add_eq_or)
  also have "\<dots> = of_nat (16 * unat v + d)" by (simp add: push_bit_eq_mult)
  finally show "unat (push_bit 4 v OR of_nat d :: u64) = 16 * unat v + d"
    using * by (simp only: unat_of_nat) simp
qed

abbreviation is_hex :: "char \<Rightarrow> bool" where
  "is_hex c \<equiv> hex_value c \<noteq> None"

lemma hex_u64_exact:
  "case hex_u64 v n s of
     None \<Rightarrow> \<not> hex_from (unat v) (takeWhile is_hex s) < 2 ^ 64
   | Some (w, k, rest) \<Rightarrow> unat w = hex_from (unat v) (takeWhile is_hex s) \<and>
       k = n + length (takeWhile is_hex s) \<and> rest = dropWhile is_hex s"
proof (induction v n s rule: hex_u64.induct)
  case (2 v n c cs)
  show ?case
  proof (cases "hex_value c")
    case None
    then show ?thesis by (simp add: hex_from_def)
  next
    case (Some d)
    note d = hex_value_bound [OF Some]
    show ?thesis
    proof (cases "v > drop_bit 4 UINT64_MAX")
      case True
      have "unat (drop_bit 4 UINT64_MAX :: u64) = 2 ^ 60 - 1"
        by (simp add: drop_bit_eq_div unat_div unat_UINT64_MAX)
      then have "2 ^ 60 \<le> unat v" using True by (simp add: word_less_nat_alt)
      then have "\<not> 16 * unat v + d < 2 ^ 64" by simp
      then have "\<not> hex_from (16 * unat v + d) (takeWhile is_hex cs) < 2 ^ 64"
        using hex_from_ge [of "16 * unat v + d" "takeWhile is_hex cs"] by linarith
      with True Some show ?thesis by (simp add: hex_from_def)
    next
      case False
      note step = hex_step [OF False d]
      have "hex_from (unat v) (takeWhile is_hex (c # cs)) = hex_from (16 * unat v + d) (takeWhile is_hex cs)"
        using Some by (simp add: hex_from_def)
      with 2 Some False step(1) show ?thesis by (auto split: option.splits)
    qed
  qed
qed (simp add: hex_from_def)

lemma chunk_size_exact:
  "snd (parse_chunk_size_line p) = Some n \<longleftrightarrow>
     (let digits = takeWhile is_hex (hp_line p); rest = dropWhile is_hex (hp_line p)
      in digits \<noteq> [] \<and> (rest = [] \<or> rest ! 0 = CHR '';'') \<and> n = hex_from 0 digits \<and> n \<le> MAX_CHUNK_SIZE)"
proof -
  let ?h = "hex_from 0 (takeWhile is_hex (hp_line p))"
  show ?thesis
  proof (cases "hex_u64 0 0 (hp_line p)")
    case None
    then have "\<not> ?h < 2 ^ 64" using hex_u64_exact [where v = 0 and n = 0 and s = "hp_line p"] by simp
    with None show ?thesis by (auto simp: parse_chunk_size_line_def MAX_CHUNK_SIZE_def Let_def)
  next
    case (Some x)
    obtain w k rest where x: "x = (w, k, rest)" by (metis prod_cases3)
    with Some hex_u64_exact [where v = 0 and n = 0 and s = "hp_line p"]
    have h: "unat w = ?h" "k = length (takeWhile is_hex (hp_line p))" "rest = dropWhile is_hex (hp_line p)"
      by auto
    have "w > of_nat MAX_CHUNK_SIZE \<longleftrightarrow> \<not> ?h \<le> MAX_CHUNK_SIZE"
      unfolding h(1) [symmetric] by (simp add: word_less_nat_alt MAX_CHUNK_SIZE_def not_le)
    with h Some x show ?thesis
      by (cases "hp_line p = []"; cases rest) (auto simp: parse_chunk_size_line_def Let_def)
  qed
qed

lemma query_check_redundant:
  "pct_ok q \<Longrightarrow> list_all (\<lambda>c. \<not> (c = SP \<or> ord c < 0x20 \<or> ord c = 0x7F)) q \<Longrightarrow> check_query q = None"
proof (induction q rule: pct_ok.induct)
  case (2 c cs)
  show ?case
  proof (cases "c = CHR ''%''")
    case True
    with 2(3) obtain a b rest v where cs: "cs = a # b # rest" "decode_octet a b = Some v" "\<not> unsafe_octet v"
      "pct_ok rest"
      by (auto split: list.splits option.splits if_splits)
    with 2(1) [of a "b # rest" b rest v] True 2(4) show ?thesis by (auto simp: unsafe_octet_def)
  next
    case False
    with 2 show ?thesis by (auto split: if_splits)
  qed
qed auto

section \<open>Properties\<close>

text \<open>A parser after any calls of \<open>feed\<close>, each with its own outcomes of the allocator.\<close>

definition fed :: "http_parser \<Rightarrow> ((nat \<Rightarrow> bool) \<times> string option) list \<Rightarrow> http_parser" where
  "fed p calls = foldl (\<lambda>q (mem, data). snd (parser_feed mem q data)) p calls"

definition start_parser :: "bool \<Rightarrow> http_parser" where
  "start_parser response = new_parser\<lparr>hp_response_mode := response\<rparr>"

lemma fed_inv: "parser_inv p \<Longrightarrow> parser_inv (fed p calls)"
  by (induction calls rule: rev_induct) (auto simp: fed_def parser_feed_inv)

lemma start_fed_inv: "parser_inv (fed (start_parser b) calls)"
  unfolding start_parser_def by (intro fed_inv new_parser_inv)

lemma start_fed_lines: "lines_ok (fed (start_parser b) calls)"
proof -
  have "lines_ok p \<Longrightarrow> lines_ok (fed p calls)" for p
    by (induction calls rule: rev_induct) (auto simp: fed_def parser_feed_lines)
  then show ?thesis unfolding start_parser_def using new_parser_lines by blast
qed

text \<open>C21: Whatever bytes the parser is fed, in whatever pieces, and whichever allocations fail, its line and
  body never outgrow their buffers, the fixed-size fields keep room for their terminator, and
  every configured limit holds: a line is no longer than the limit of the state that reads it
  (\<open>MAX_REQUEST_LINE\<close> for the start line, \<open>MAX_HEADER_SIZE\<close> for a header, \<open>MAX_CHUNK_LINE\<close> for a
  chunk size, \<open>MAX_TRAILER_SIZE\<close> for a trailer, nothing at all behind the data of a chunk), the
  chunk being read is within \<open>MAX_CHUNK_SIZE\<close>, the announced length and the body are within
  \<open>MAX_BODY_SIZE\<close>, and the number and the size of headers and trailers are within theirs.\<close>

theorem parser_keeps_its_limits:
  "let p = fed (start_parser b) calls in
     length (hp_line p) \<le> hp_line_cap p \<and> length (hp_line p) \<le> line_limit_of (hp_state p) \<and>
     length (active_body p) = hp_body_written p \<and> hp_body_written p \<le> hp_body_cap p \<and>
     hp_body_cap p \<le> MAX_BODY_SIZE \<and> hp_content_length p \<le> MAX_BODY_SIZE \<and>
     hp_chunk_remaining p \<le> MAX_CHUNK_SIZE \<and>
     length (rq_method (hp_request p)) < METHOD_SIZE \<and> length (rq_target (hp_request p)) < TARGET_SIZE \<and>
     length (rs_reason (hp_response p)) < MAX_REQUEST_LINE \<and> length (hp_error_msg p) < ERROR_SIZE \<and>
     length (active_headers p) \<le> MAX_HEADER_COUNT \<and> hp_header_bytes p \<le> MAX_HEADER_SIZE \<and>
     length (active_trailers p) \<le> MAX_TRAILER_COUNT \<and> hp_trailer_bytes p \<le> MAX_TRAILER_SIZE"
  using start_fed_inv [of b calls] start_fed_lines [of b calls]
  by (simp add: parser_inv_def buffers_ok_def lines_ok_def Let_def)

text \<open>C22: A complete message was framed by at most one of the two framing headers: its body is as long
  as its \<open>Content-Length\<close> says, and empty when neither header is there or when it is a response
  of a status that has no body.\<close>

theorem complete_messages_are_framed:
  assumes "hp_state (fed (start_parser b) calls) = ST_COMPLETE"
  shows "let p = fed (start_parser b) calls in
     no_body p \<and> active_body p = [] \<or>
     \<not> (hp_has_content_length p \<and> hp_has_transfer_encoding p) \<and>
     (hp_has_content_length p \<longrightarrow> length (active_body p) = hp_content_length p) \<and>
     (\<not> hp_has_content_length p \<and> \<not> hp_has_transfer_encoding p \<longrightarrow> active_body p = [])"
  using start_fed_inv [of b calls] assms
  by (auto simp: parser_inv_def buffers_ok_def framing_ok_def Let_def)

definition w_get :: string where
  "w_get = ''GET /a%20b?q HTTP/1.1'' @ crlf @ crlf"

definition w_post :: string where
  "w_post = ''POST / HTTP/1.1'' @ crlf @ ''Content-Length: 2'' @ crlf @ crlf @ ''hi''"

definition w_fed :: "string \<Rightarrow> http_parser" where
  "w_fed s = fed (start_parser False) [(\<lambda>_. True, Some s)]"

theorem complete_messages_are_framed_witness:
  "length (active_body (w_fed w_post)) = 2 \<and> \<not> hp_has_transfer_encoding (w_fed w_post)"
proof -
  have "hp_state (w_fed w_post) = ST_COMPLETE" "hp_has_content_length (w_fed w_post)"
    "hp_content_length (w_fed w_post) = 2" "\<not> no_body (w_fed w_post)"
    by code_simp+
  with complete_messages_are_framed [of False "[(\<lambda>_. True, Some w_post)]"]
  show ?thesis by (simp add: w_fed_def Let_def)
qed

text \<open>C3: The target of a request the parser accepts is safe to decode, the query included: no byte of
  it is a control character, a blank, \<open>#\<close> or a backslash; every percent sign begins an escape of
  two hexadecimal digits whose octet is no control character, slash or backslash; and it decodes
  to bytes without control characters and backslashes. It is \<open>*\<close>, or it begins with a slash and
  none of the segments of its decoded path is \<open>.\<close> or \<open>..\<close>.\<close>

theorem accepted_targets_are_safe:
  assumes "hp_state (fed (start_parser b) calls) = ST_COMPLETE"
    and "\<not> hp_response_mode (fed (start_parser b) calls)"
  shows "let t = rq_target (hp_request (fed (start_parser b) calls)) in
     t \<noteq> [] \<and> list_all (\<lambda>c. ord c > 0x20 \<and> ord c \<noteq> 0x7F \<and> c \<noteq> CHR ''#'' \<and> c \<noteq> CHR 0x5C) t \<and>
     (\<forall>pre post. t = pre @ CHR ''%'' # post \<longrightarrow>
        (\<exists>a b rest d. post = a # b # rest \<and> decode_octet a b = Some d \<and> \<not> unsafe_octet d)) \<and>
     (\<exists>e. pct_decode t = Some e \<and> list_all (\<lambda>c. \<not> (ord c < 0x20 \<or> ord c = 0x7F \<or> c = CHR 0x5C)) e) \<and>
     (t = ''*'' \<or>
      (\<exists>r d. t = CHR ''/'' # r \<and> pct_decode (path_of r) = Some d \<and>
         ''.'' \<notin> set (split_slash d) \<and> ''..'' \<notin> set (split_slash d) \<and>
         list_all (\<lambda>c. \<not> (ord c < 0x20 \<or> ord c = 0x7F \<or> c = CHR 0x5C)) d))"
proof -
  let ?t = "rq_target (hp_request (fed (start_parser b) calls))"
  have "good_start (hp_request (fed (start_parser b) calls))"
    using start_fed_inv [of b calls] assms by (auto simp: parser_inv_def start_ok_def)
  then have t: "sanitize_request_target ?t = None" "list_all (\<lambda>c. \<not> (c = SP \<or> ord c < 0x20 \<or> ord c = 0x7F)) ?t"
    by (auto simp: good_start_def)
  from accepted_target [OF t] show ?thesis by (simp add: Let_def)
qed

theorem accepted_targets_are_safe_witness:
  "(\<exists>d. pct_decode ''a%20b'' = Some d \<and> ''..'' \<notin> set (split_slash d)) \<and>
   pct_decode ''/a%20b?q'' \<noteq> None"
proof -
  have "hp_state (w_fed w_get) = ST_COMPLETE" "\<not> hp_response_mode (w_fed w_get)"
    and t: "rq_target (hp_request (w_fed w_get)) = ''/a%20b?q''" and p: "path_of ''a%20b?q'' = ''a%20b''"
    by code_simp+
  then show ?thesis
    using accepted_targets_are_safe [of False "[(\<lambda>_. True, Some w_get)]"]
    unfolding w_fed_def [symmetric] t Let_def by (auto simp: p simp del: pct_decode.simps)
qed

text \<open>C37: \<open>Content-Length\<close> is read exactly: the header is accepted just when it is the first one, a
  non-empty string of decimal digits, and its value, as a number without bounds, is within the
  body limit; the stored length is that value. No overflow of the 64-bit accumulator slips through.\<close>

theorem content_length_is_exact:
  "apply_content_length p s = (True, q) \<longleftrightarrow>
     \<not> hp_has_content_length p \<and> s \<noteq> [] \<and> list_all is_digit s \<and> dec_from 0 s \<le> MAX_BODY_SIZE \<and>
     q = p\<lparr>hp_has_content_length := True, hp_content_length := dec_from 0 s\<rparr>"
  using content_length_exact [of p s] by (cases "apply_content_length p s") auto

text \<open>A chunk-size line is accepted just when it is a non-empty run of hexadecimal digits, ended by
  the line or a semicolon, whose unbounded value is within the chunk limit, and that value is
  the size read.\<close>

theorem chunk_size_is_exact:
  "snd (parse_chunk_size_line p) = Some n \<longleftrightarrow>
     (let digits = takeWhile (\<lambda>c. hex_value c \<noteq> None) (hp_line p);
          rest = dropWhile (\<lambda>c. hex_value c \<noteq> None) (hp_line p)
      in digits \<noteq> [] \<and> (rest = [] \<or> rest ! 0 = CHR '';'') \<and> n = hex_from 0 digits \<and> n \<le> MAX_CHUNK_SIZE)"
  by (rule chunk_size_exact)

end
