(* ===== verification/Connection.thy ===== *)
theory Connection
  imports BB_Prelude
begin

text \<open>
  The buffered connection of \<open>modules/web/src/connection/connection.c\<close>: the growing read buffer
  with its hard cap, the chain of write buffers, and the two non-blocking loops over the
  transport. What the transport (TCP or TLS) answers is an input: a script of read events and a
  script of write events, one per call. The descriptor, \<open>userdata\<close> and the operating system's
  socket calls are left out.
\<close>

section \<open>Errors and state\<close>

datatype bb_error_code =
    BB_OK | BB_ERR_ALLOC | BB_ERR_NULL | BB_ERR_NOT_FOUND | BB_ERR_INTERNAL | BB_ERR_IO | BB_ERR_UNKNOWN
  | BB_ERR_BAD_REQUEST | BB_ERR_CONNECTION_CLOSED | BB_ERR_NETWORK | BB_ERR_EOF
  | BB_ERR_PAYLOAD_TOO_LARGE | BB_ERR_TLS_CONFIG | BB_ERR_TLS_HANDSHAKE | BB_ERR_TLS_UNSUPPORTED

text \<open>\<open>bb_error_t\<close>: the code and its message.\<close>

type_synonym bb_error = "bb_error_code \<times> string"

definition BB_SUCCESS :: bb_error where "BB_SUCCESS = (BB_OK, ''OK'')"

definition BB_FAILED :: "bb_error \<Rightarrow> bool" where "BB_FAILED e \<longleftrightarrow> fst e \<noteq> BB_OK"

datatype transport_status =
    BB_TRANSPORT_OK | BB_TRANSPORT_WANT_READ | BB_TRANSPORT_WANT_WRITE | BB_TRANSPORT_CLOSED
  | BB_TRANSPORT_ERROR

datatype connection_state =
    BB_CONNECTION_HANDSHAKE | BB_CONNECTION_READING | BB_CONNECTION_WRITING | BB_CONNECTION_CLOSED

datatype io_hint = BB_CONN_IO_DEFAULT | BB_CONN_IO_NEED_READ | BB_CONN_IO_NEED_WRITE

type_synonym bytes = "u8 list"

text \<open>\<open>write_length\<close> is the length of \<open>wb_bytes\<close>.\<close>

record write_buf =
  wb_bytes :: bytes
  wb_offset :: nat

text \<open>\<open>cn_buffer\<close> is the content of the read buffer, \<open>buffer_length\<close> its length.\<close>

record bb_connection =
  cn_state :: connection_state
  cn_buffer :: bytes
  cn_capacity :: nat
  cn_write :: "write_buf list"
  cn_write_pending :: bool
  cn_read_hint :: io_hint
  cn_write_hint :: io_hint

definition BB_CONNECTION_MAX_BUFFER_SIZE :: nat where
  "BB_CONNECTION_MAX_BUFFER_SIZE = 4 * 1024 * 1024"

definition BB_CONNECTION_INITIAL_BUFFER_SIZE :: nat where
  "BB_CONNECTION_INITIAL_BUFFER_SIZE = 4096"

text \<open>The three allocations of \<open>bb_connection_create\<close>: the connection, its buffer, its transport.\<close>

definition new_connection :: bb_connection where
  "new_connection =
     \<lparr>cn_state = BB_CONNECTION_READING, cn_buffer = [],
      cn_capacity = BB_CONNECTION_INITIAL_BUFFER_SIZE, cn_write = [], cn_write_pending = False,
      cn_read_hint = BB_CONN_IO_DEFAULT, cn_write_hint = BB_CONN_IO_DEFAULT\<rparr>"

definition bb_connection_create :: "bool \<Rightarrow> bool \<Rightarrow> bool \<Rightarrow> bb_connection option" where
  "bb_connection_create conn_ok buffer_ok transport_ok =
     (if \<not> conn_ok then None else if \<not> buffer_ok then None else if \<not> transport_ok then None
      else Some new_connection)"

text \<open>
  \<open>bb_connection_buffer_add\<close>. The result has the return code and whether the function freed the
  caller's buffer, which it does when it cannot allocate the node.
\<close>

definition buffer_add :: "bool \<Rightarrow> bytes \<Rightarrow> bb_connection \<Rightarrow> (int \<times> bool) \<times> bb_connection" where
  "buffer_add node_ok buf c =
     (if length buf = 0 then ((0, False), c)
      else if \<not> node_ok then ((1, True), c)
      else ((0, False), c\<lparr>cn_write := cn_write c @ [\<lparr>wb_bytes = buf, wb_offset = 0\<rparr>]\<rparr>))"

definition bb_connection_buffer_add ::
  "bool \<Rightarrow> bb_connection option \<Rightarrow> bytes \<Rightarrow> (int \<times> bool) \<times> bb_connection option" where
  "bb_connection_buffer_add node_ok conn buf =
     (case conn of
        None \<Rightarrow> ((-1, False), None)
      | Some c \<Rightarrow> (let (r, c') = buffer_add node_ok buf c in (r, Some c')))"

text \<open>\<open>bb_connection_upgrade_to_tls\<close>; \<open>tls_ok\<close> says whether the TLS transport could be created.\<close>

definition bb_connection_upgrade_to_tls ::
  "bool \<Rightarrow> bool \<Rightarrow> bb_connection option \<Rightarrow> int \<times> bb_connection option" where
  "bb_connection_upgrade_to_tls ctx tls_ok conn =
     (case conn of
        None \<Rightarrow> (-1, None)
      | Some c \<Rightarrow>
          if \<not> ctx then (-1, Some c)
          else if \<not> tls_ok then (-1, Some c)
          else (0, Some (c\<lparr>cn_state := BB_CONNECTION_HANDSHAKE, cn_read_hint := BB_CONN_IO_DEFAULT,
                           cn_write_hint := BB_CONN_IO_DEFAULT\<rparr>)))"

section \<open>Reading\<close>

text \<open>
  A read event is a piece of data the peer sent (delivered as far as there is room, the rest stays
  for the next call) or another status. When the script is exhausted nothing is available.
\<close>

datatype read_event = RdData bytes | RdStatus transport_status

fun sent_bytes :: "read_event list \<Rightarrow> bytes" where
  "sent_bytes [] = []"
| "sent_bytes (RdData d # es) = d @ sent_bytes es"
| "sent_bytes (RdStatus s # es) = sent_bytes es"

text \<open>
  The space check at the head of the loop. \<open>grow n\<close> is the outcome of \<open>realloc\<close> to \<open>n\<close> bytes. The
  overflow guard of the code never fires: the capacity is below the cap when it is doubled.
\<close>

definition ensure_space :: "(nat \<Rightarrow> bool) \<Rightarrow> bb_connection \<Rightarrow> bb_error + bb_connection" where
  "ensure_space grow c =
     (if length (cn_buffer c) + 1 \<ge> cn_capacity c then
        if cn_capacity c \<ge> BB_CONNECTION_MAX_BUFFER_SIZE
        then Inl (BB_ERR_PAYLOAD_TOO_LARGE, ''Request payload exceeded the maximum buffer size.'')
        else let new_capacity = cn_capacity c * 2;
                 new_capacity = (if new_capacity < cn_capacity c \<or> new_capacity > BB_CONNECTION_MAX_BUFFER_SIZE
                                 then BB_CONNECTION_MAX_BUFFER_SIZE else new_capacity)
             in if \<not> grow new_capacity then Inl (BB_ERR_ALLOC, ''Failed to grow connection buffer.'')
                else Inr (c\<lparr>cn_capacity := new_capacity\<rparr>)
      else Inr c)"

fun read_size :: "read_event list \<Rightarrow> nat" where
  "read_size [] = 0"
| "read_size (RdData d # es) = Suc (length d) + read_size es"
| "read_size (RdStatus s # es) = Suc (read_size es)"

text \<open>
  One delivery: at most \<open>room\<close> bytes of the piece are taken. A transport that answers \<open>OK\<close> gave at
  least one byte, so an empty piece is skipped. \<open>None\<close> is a call with no room at all, in which the
  length given to the transport would be \<open>0 - 1\<close> or the byte written out of bounds.
\<close>

function read_loop ::
  "(nat \<Rightarrow> bool) \<Rightarrow> read_event list \<Rightarrow> bb_connection \<Rightarrow> (bb_error \<times> bb_connection \<times> read_event list) option"
where
  "read_loop grow evs c =
     (case ensure_space grow c of
        Inl e \<Rightarrow> Some (e, if fst e = BB_ERR_PAYLOAD_TOO_LARGE then c\<lparr>cn_state := BB_CONNECTION_CLOSED\<rparr> else c, evs)
      | Inr c \<Rightarrow>
          (case evs of
             [] \<Rightarrow> Some (BB_SUCCESS, c, [])
           | RdData d # es \<Rightarrow>
               let room = cn_capacity c - length (cn_buffer c) - 1
               in if room = 0 then None
                  else let n = min (length d) room;
                           c = c\<lparr>cn_buffer := cn_buffer c @ take n d\<rparr>
                       in if n = length d then read_loop grow es c
                          else read_loop grow (RdData (drop n d) # es) c
           | RdStatus st # es \<Rightarrow>
               (case st of
                  BB_TRANSPORT_CLOSED \<Rightarrow> Some (BB_SUCCESS, c\<lparr>cn_state := BB_CONNECTION_CLOSED\<rparr>, es)
                | BB_TRANSPORT_WANT_READ \<Rightarrow> Some (BB_SUCCESS, c, es)
                | BB_TRANSPORT_WANT_WRITE \<Rightarrow> Some (BB_SUCCESS, c\<lparr>cn_read_hint := BB_CONN_IO_NEED_WRITE\<rparr>, es)
                | BB_TRANSPORT_OK \<Rightarrow> read_loop grow es c
                | BB_TRANSPORT_ERROR \<Rightarrow> Some ((BB_ERR_IO, ''Socket read failed.''), c, es))))"
  by pat_completeness auto
termination
  by (relation "measure (\<lambda>(g, evs, c). read_size evs)") auto

declare read_loop.simps [simp del]

text \<open>The TLS handshake step; the result is an early return, or the connection to read from.\<close>

definition handshake_step ::
  "transport_status \<Rightarrow> bb_connection \<Rightarrow> (bb_error \<times> bb_connection) + bb_connection" where
  "handshake_step hs c =
     (case hs of
        BB_TRANSPORT_OK \<Rightarrow> Inr (c\<lparr>cn_state := BB_CONNECTION_READING\<rparr>)
      | BB_TRANSPORT_WANT_READ \<Rightarrow> Inl (BB_SUCCESS, c\<lparr>cn_read_hint := BB_CONN_IO_DEFAULT\<rparr>)
      | BB_TRANSPORT_WANT_WRITE \<Rightarrow> Inl (BB_SUCCESS, c\<lparr>cn_read_hint := BB_CONN_IO_NEED_WRITE\<rparr>)
      | BB_TRANSPORT_CLOSED \<Rightarrow>
          Inl ((BB_ERR_CONNECTION_CLOSED, ''Peer closed connection during TLS handshake.''),
               c\<lparr>cn_state := BB_CONNECTION_CLOSED\<rparr>)
      | BB_TRANSPORT_ERROR \<Rightarrow>
          Inl ((BB_ERR_TLS_HANDSHAKE, ''TLS handshake failed.''), c\<lparr>cn_state := BB_CONNECTION_CLOSED\<rparr>))"

definition connection_read ::
  "(nat \<Rightarrow> bool) \<Rightarrow> transport_status \<Rightarrow> read_event list \<Rightarrow> bb_connection \<Rightarrow>
   (bb_error \<times> bb_connection \<times> read_event list) option" where
  "connection_read grow hs evs c =
     (if cn_state c = BB_CONNECTION_CLOSED
      then Some ((BB_ERR_CONNECTION_CLOSED, ''Connection closed.''), c, evs)
      else case (if cn_state c = BB_CONNECTION_HANDSHAKE then handshake_step hs c else Inr c) of
             Inl (e, c) \<Rightarrow> Some (e, c, evs)
           | Inr c \<Rightarrow> read_loop grow evs (c\<lparr>cn_read_hint := BB_CONN_IO_DEFAULT\<rparr>))"

definition bb_connection_read ::
  "(nat \<Rightarrow> bool) \<Rightarrow> transport_status \<Rightarrow> read_event list \<Rightarrow> bb_connection option \<Rightarrow>
   (bb_error \<times> bb_connection option \<times> read_event list) option" where
  "bb_connection_read grow hs evs conn =
     (case conn of
        None \<Rightarrow> Some ((BB_ERR_NULL, ''Null connection.''), None, evs)
      | Some c \<Rightarrow> map_option (\<lambda>(e, c', es). (e, Some c', es)) (connection_read grow hs evs c))"

section \<open>Writing\<close>

text \<open>
  A write event is the number of bytes the transport took, or another status; a count above what
  was offered is cut to it. Exhausted, the transport wants to wait. The bytes taken are returned.
\<close>

datatype write_event = WrTaken nat | WrStatus transport_status

function write_loop ::
  "write_event list \<Rightarrow> bb_connection \<Rightarrow> bytes \<Rightarrow> bb_error \<times> bb_connection \<times> bytes" where
  "write_loop evs c out =
     (case cn_write c of
        [] \<Rightarrow> (BB_SUCCESS, c, out)
      | w # ws \<Rightarrow>
          if wb_offset w < length (wb_bytes w) then
            (case evs of
               [] \<Rightarrow> (BB_SUCCESS, c, out)
             | WrTaken k # es \<Rightarrow>
                 let n = min k (length (wb_bytes w) - wb_offset w)
                 in write_loop es (c\<lparr>cn_write := w\<lparr>wb_offset := wb_offset w + n\<rparr> # ws\<rparr>)
                      (out @ take n (drop (wb_offset w) (wb_bytes w)))
             | WrStatus st # es \<Rightarrow>
                 (case st of
                    BB_TRANSPORT_OK \<Rightarrow> write_loop es c out
                  | BB_TRANSPORT_WANT_WRITE \<Rightarrow> (BB_SUCCESS, c, out)
                  | BB_TRANSPORT_WANT_READ \<Rightarrow> (BB_SUCCESS, c\<lparr>cn_write_hint := BB_CONN_IO_NEED_READ\<rparr>, out)
                  | BB_TRANSPORT_CLOSED \<Rightarrow>
                      ((BB_ERR_CONNECTION_CLOSED, ''Connection closed.''), c\<lparr>cn_state := BB_CONNECTION_CLOSED\<rparr>, out)
                  | BB_TRANSPORT_ERROR \<Rightarrow> ((BB_ERR_IO, ''Socket write failed.''), c, out)))
          else write_loop evs (c\<lparr>cn_write := ws\<rparr>) out)"
  by pat_completeness auto
termination
  by (relation "measure (\<lambda>(evs, c, out). length evs + length (cn_write c))") auto

declare write_loop.simps [simp del]

definition connection_write ::
  "write_event list \<Rightarrow> bb_connection \<Rightarrow> bb_error \<times> bb_connection \<times> bytes" where
  "connection_write evs c =
     (if cn_state c = BB_CONNECTION_CLOSED
      then ((BB_ERR_CONNECTION_CLOSED, ''Connection closed.''), c, [])
      else write_loop evs (c\<lparr>cn_write_hint := BB_CONN_IO_DEFAULT\<rparr>) [])"

definition bb_connection_write ::
  "write_event list \<Rightarrow> bb_connection option \<Rightarrow> bb_error \<times> bb_connection option \<times> bytes" where
  "bb_connection_write evs conn =
     (case conn of
        None \<Rightarrow> ((BB_ERR_NULL, ''Null connection.''), None, [])
      | Some c \<Rightarrow> (let (e, c', out) = connection_write evs c in (e, Some c', out)))"

section \<open>The read buffer\<close>

definition conn_inv :: "bb_connection \<Rightarrow> bool" where
  "conn_inv c \<longleftrightarrow> 2 \<le> cn_capacity c \<and> length (cn_buffer c) + 1 \<le> cn_capacity c \<and>
     cn_capacity c \<le> BB_CONNECTION_MAX_BUFFER_SIZE"

lemma new_connection_inv: "conn_inv new_connection"
  by (simp add: conn_inv_def new_connection_def BB_CONNECTION_INITIAL_BUFFER_SIZE_def BB_CONNECTION_MAX_BUFFER_SIZE_def)

lemma ensure_space_ok:
  assumes "ensure_space grow c = Inr c'" and "conn_inv c"
  shows "conn_inv c' \<and> length (cn_buffer c') + 1 < cn_capacity c' \<and> cn_buffer c' = cn_buffer c \<and>
         (\<exists>k. c' = c\<lparr>cn_capacity := k\<rparr>)"
proof -
  have "\<exists>k. c' = c\<lparr>cn_capacity := k\<rparr>"
  proof (cases "c' = c")
    case True
    then have "c' = c\<lparr>cn_capacity := cn_capacity c\<rparr>" by simp
    then show ?thesis by blast
  next
    case False
    with assms(1) show ?thesis by (auto simp: ensure_space_def Let_def split: if_splits)
  qed
  moreover have "conn_inv c' \<and> length (cn_buffer c') + 1 < cn_capacity c' \<and> cn_buffer c' = cn_buffer c"
    using assms by (auto simp: ensure_space_def conn_inv_def Let_def split: if_splits)
  ultimately show ?thesis by blast
qed

text \<open>
  A read never overruns the buffer, never exceeds the cap, and loses no byte: what was in the
  buffer and what the transport still holds is, in order, what it was before.
\<close>

lemma read_loop_ok:
  "conn_inv c \<Longrightarrow>
   \<exists>e c' es. read_loop grow evs c = Some (e, c', es) \<and> conn_inv c' \<and>
     cn_buffer c' @ sent_bytes es = cn_buffer c @ sent_bytes evs \<and>
     cn_write c' = cn_write c"
proof (induction grow evs c rule: read_loop.induct)
  case (1 grow evs c)
  show ?case
  proof (cases "ensure_space grow c")
    case (Inl e)
    with "1.prems" show ?thesis
      by (auto simp: read_loop.simps [of grow evs c] conn_inv_def)
  next
    case (Inr c1)
    note ok = ensure_space_ok [OF Inr "1.prems"]
    then obtain k where k: "c1 = c\<lparr>cn_capacity := k\<rparr>" by blast
    note ok = ok [THEN conjunct1] ok [THEN conjunct2, THEN conjunct1]
      ok [THEN conjunct2, THEN conjunct2, THEN conjunct1]
    show ?thesis
    proof (cases evs)
      case Nil
      with Inr ok k show ?thesis by (simp add: read_loop.simps [of grow "[]" c] BB_SUCCESS_def)
    next
      case (Cons ev es)
      show ?thesis
      proof (cases ev)
        case (RdStatus st)
        show ?thesis
        proof (cases st)
          case BB_TRANSPORT_OK
          with "1.IH"(3) [OF Inr Cons RdStatus] ok k Inr Cons RdStatus show ?thesis
            by (simp add: read_loop.simps [of grow "RdStatus BB_TRANSPORT_OK # es" c])
        qed (use Inr Cons RdStatus ok k in \<open>auto simp: read_loop.simps [of grow "RdStatus x # es" c for x] conn_inv_def BB_SUCCESS_def\<close>)
      next
        case (RdData d)
        define room where "room = cn_capacity c1 - length (cn_buffer c1) - 1"
        define n where "n = min (length d) room"
        define c2 where "c2 = c1\<lparr>cn_buffer := cn_buffer c1 @ take n d\<rparr>"
        have room: "room \<noteq> 0" using ok by (simp add: room_def)
        have step: "read_loop grow evs c =
            (if n = length d then read_loop grow es c2 else read_loop grow (RdData (drop n d) # es) c2)"
          unfolding Cons RdData read_loop.simps [of grow "RdData d # es" c] Inr sum.case list.case
            read_event.case Let_def room_def [symmetric] n_def [symmetric] c2_def [symmetric]
          by (simp only: room if_False)
        have c2: "conn_inv c2" using ok by (auto simp: c2_def n_def room_def conn_inv_def)
        have buf: "cn_buffer c2 = cn_buffer c @ take n d" "cn_write c2 = cn_write c"
          using ok k by (simp_all add: c2_def)
        show ?thesis
        proof (cases "n = length d")
          case True
          then have "read_loop grow evs c = read_loop grow es c2"
            unfolding step by simp
          moreover have "\<exists>e c' es'. read_loop grow es c2 = Some (e, c', es') \<and> conn_inv c' \<and>
              cn_buffer c' @ sent_bytes es' = cn_buffer c2 @ sent_bytes es \<and> cn_write c' = cn_write c2"
            by (rule "1.IH"(1) [OF Inr Cons RdData room_def room n_def c2_def True c2])
          ultimately show ?thesis using buf True Cons RdData by simp
        next
          case False
          then have "read_loop grow evs c = read_loop grow (RdData (drop n d) # es) c2"
            unfolding step by simp
          moreover have "\<exists>e c' es'. read_loop grow (RdData (drop n d) # es) c2 = Some (e, c', es') \<and> conn_inv c' \<and>
              cn_buffer c' @ sent_bytes es' = cn_buffer c2 @ sent_bytes (RdData (drop n d) # es) \<and>
              cn_write c' = cn_write c2"
            by (rule "1.IH"(2) [OF Inr Cons RdData room_def room n_def c2_def False c2])
          moreover have "take n d @ drop n d @ sent_bytes es = d @ sent_bytes es"
            by (simp flip: append_assoc)
          ultimately show ?thesis using buf Cons RdData by simp
        qed
      qed
    qed
  qed
qed

section \<open>The write chain\<close>

text \<open>The bytes the chain still has to send.\<close>

definition pending :: "bb_connection \<Rightarrow> bytes" where
  "pending c = concat (map (\<lambda>w. drop (wb_offset w) (wb_bytes w)) (cn_write c))"

lemma write_loop_pending:
  "write_loop evs c out = (e, c', out') \<Longrightarrow>
   out' @ pending c' = out @ pending c \<and> cn_buffer c' = cn_buffer c \<and> cn_capacity c' = cn_capacity c"
proof (induction evs c out arbitrary: e c' out' rule: write_loop.induct)
  case (1 evs c out)
  show ?case
  proof (cases "cn_write c")
    case Nil
    with 1 show ?thesis by (simp add: write_loop.simps [of evs c out])
  next
    case (Cons w ws)
    show ?thesis
    proof (cases "wb_offset w < length (wb_bytes w)")
      case False
      with "1.IH"(3) [OF Cons False] "1.prems" Cons show ?thesis
        by (simp add: write_loop.simps [of evs c out] pending_def)
    next
      case True
      show ?thesis
      proof (cases evs)
        case Nil
        with "1.prems" Cons True show ?thesis by (simp add: write_loop.simps [of "[]" c out])
      next
        case (Cons ev es)
        note evs = Cons
        show ?thesis
        proof (cases ev)
          case (WrStatus st)
          show ?thesis
          proof (cases st)
            case BB_TRANSPORT_OK
            with "1.IH"(2) [OF \<open>cn_write c = w # ws\<close> True evs WrStatus] "1.prems" \<open>cn_write c = w # ws\<close> True evs WrStatus
            show ?thesis by (simp add: write_loop.simps [of "WrStatus BB_TRANSPORT_OK # es" c out])
          qed (use "1.prems" \<open>cn_write c = w # ws\<close> True evs WrStatus in
              \<open>auto simp: write_loop.simps [of "WrStatus x # es" c out for x] pending_def\<close>)
        next
          case (WrTaken k)
          define n where "n = min k (length (wb_bytes w) - wb_offset w)"
          have step: "write_loop es (c\<lparr>cn_write := w\<lparr>wb_offset := wb_offset w + n\<rparr> # ws\<rparr>)
                      (out @ take n (drop (wb_offset w) (wb_bytes w))) = (e, c', out')"
            using "1.prems" unfolding evs WrTaken write_loop.simps [of "WrTaken k # es" c out] \<open>cn_write c = w # ws\<close>
              list.case write_event.case Let_def n_def [symmetric] by (simp only: True if_True)
          have split: "take n (drop (wb_offset w) (wb_bytes w)) @ drop (wb_offset w + n) (wb_bytes w) =
              drop (wb_offset w) (wb_bytes w)"
            by (metis add.commute append_take_drop_id drop_drop)
          show ?thesis
            using "1.IH"(1) [OF \<open>cn_write c = w # ws\<close> True evs WrTaken n_def step] split \<open>cn_write c = w # ws\<close>
            by (simp add: pending_def)
        qed
      qed
    qed
  qed
qed

lemma buffer_add_pending:
  "pending (snd (buffer_add True buf c)) = pending c @ buf"
  "buffer_add False buf c = ((if buf = [] then 0 else 1, buf \<noteq> []), c)"
  by (auto simp: buffer_add_def pending_def)

end
