(* ===== verification/Ws_Frame.thy ===== *)
theory Ws_Frame
  imports Connection
begin

text \<open>
  WebSocket frames: reading them from the connection's buffer and queueing them for sending
  (\<open>bb_websocket_read_frames\<close>, \<open>bb_websocket_queue_frame\<close> in
  \<open>modules/web/src/websocket/websocket.c\<close>), and messages (\<open>frame.c\<close>, \<open>message.c\<close>). Sizes are
  \<open>nat\<close> but for the frame length, which is the code's 64-bit word, with the wrap-around of its
  sums. \<open>None\<close> is undefined behaviour: a read outside a buffer or a second \<open>free\<close>.
\<close>

section \<open>Frames\<close>

definition BB_WS_CONTINUATION :: u8 where "BB_WS_CONTINUATION = 0x0"
definition BB_WS_TEXT :: u8 where "BB_WS_TEXT = 0x1"
definition BB_WS_BINARY :: u8 where "BB_WS_BINARY = 0x2"
definition BB_WS_CLOSE :: u8 where "BB_WS_CLOSE = 0x8"
definition BB_WS_PING :: u8 where "BB_WS_PING = 0x9"
definition BB_WS_PONG :: u8 where "BB_WS_PONG = 0xA"

text \<open>\<open>fr_payload\<close> is the memory the payload pointer points to, a null pointer being \<open>None\<close>.\<close>

record ws_frame =
  fr_fin :: u8
  fr_opcode :: u8
  fr_masked :: u8
  fr_length :: u64
  fr_key :: bytes
  fr_payload :: "bytes option"

definition zero_frame :: ws_frame where
  "zero_frame = \<lparr>fr_fin = 0, fr_opcode = 0, fr_masked = 0, fr_length = 0, fr_key = [0, 0, 0, 0],
                 fr_payload = None\<rparr>"

text \<open>\<open>payload[i] ^= key[i & 3]\<close>.\<close>

definition xor_key :: "bytes \<Rightarrow> bytes \<Rightarrow> bytes" where
  "xor_key key d = map (\<lambda>(i, b). b XOR key ! (i mod 4)) (zip [0..<length d] d)"

definition be16 :: "bytes \<Rightarrow> u64" where
  "be16 b = push_bit 8 (ucast (b ! 0)) OR ucast (b ! 1)"

definition be64 :: "bytes \<Rightarrow> u64" where
  "be64 b = push_bit 56 (ucast (b ! 0)) OR push_bit 48 (ucast (b ! 1)) OR push_bit 40 (ucast (b ! 2)) OR
            push_bit 32 (ucast (b ! 3)) OR push_bit 24 (ucast (b ! 4)) OR push_bit 16 (ucast (b ! 5)) OR
            push_bit 8 (ucast (b ! 6)) OR ucast (b ! 7)"

section \<open>Reading\<close>

datatype read_one_result =
    Incomplete
  | Parsed ws_frame nat
  | NoMemory
  | Overrun

text \<open>
  The length fields: the payload length and the offset behind them, \<open>None\<close> when the buffer ends
  before.
\<close>

definition length_fields :: "bytes \<Rightarrow> (u64 \<times> nat) option" where
  "length_fields buf =
     (let payload_len = (ucast (buf ! 1 AND 0x7F) :: u64) in
      if payload_len = 126 then
        if length buf < 4 then None else Some (be16 (take 2 (drop 2 buf)), 4)
      else if payload_len = 127 then
        if length buf < 10 then None else Some (be64 (take 8 (drop 2 buf)), 10)
      else Some (payload_len, 2))"

text \<open>
  One turn of the loop on the unread part of the buffer, which has at least two bytes. The test
  for a complete payload is made on 64-bit values, so \<open>offset + payload_len\<close> can wrap around.
\<close>

definition read_one :: "bool \<Rightarrow> bytes \<Rightarrow> read_one_result" where
  "read_one malloc_ok buf =
     (let fin = drop_bit 7 (buf ! 0) AND 1;
          opcode = buf ! 0 AND 0x0F;
          masked = drop_bit 7 (buf ! 1) AND 1
      in case length_fields buf of
           None \<Rightarrow> Incomplete
         | Some (payload_len, offset) \<Rightarrow>
             if masked \<noteq> 0 \<and> length buf < offset + 4 then Incomplete
             else let key = (if masked \<noteq> 0 then take 4 (drop offset buf) else [0, 0, 0, 0]);
                      offset = (if masked \<noteq> 0 then offset + 4 else offset)
                  in if (of_nat (length buf) :: u64) < of_nat offset + payload_len then Incomplete
                     else if \<not> malloc_ok then NoMemory
                     else if length buf < offset + unat payload_len then Overrun
                     else let data = take (unat payload_len) (drop offset buf);
                              data = (if masked \<noteq> 0 then xor_key key data else data)
                          in Parsed \<lparr>fr_fin = fin, fr_opcode = opcode, fr_masked = masked,
                                     fr_length = payload_len, fr_key = key,
                                     fr_payload = Some (data @ [0])\<rparr>
                                    (offset + unat payload_len))"

lemma length_fields_offset: "length_fields buf = Some (l, k) \<Longrightarrow> 2 \<le> k \<and> k \<le> 10"
  by (auto simp: length_fields_def Let_def split: if_splits)

lemma read_one_bounds: "read_one ok buf = Parsed f n \<Longrightarrow> 2 \<le> n \<and> n \<le> length buf"
  by (auto simp: read_one_def Let_def dest!: length_fields_offset split: if_splits option.splits)

text \<open>
  The loop over the frames in the buffer: \<open>mem n\<close> is the outcome of the \<open>n\<close>-th allocation, \<open>k\<close> the
  number of allocations made, \<open>first\<close> whether the caller's own frame is still to be filled.
  The result is the list of frames and the rest of the buffer, or an allocation failure.
\<close>

function read_frames_loop ::
  "(nat \<Rightarrow> bool) \<Rightarrow> nat \<Rightarrow> bool \<Rightarrow> bytes \<Rightarrow> (unit + ws_frame list \<times> bytes) option" where
  "read_frames_loop mem k first buf =
     (if length buf < 2 then Some (Inr ([], buf))
      else if \<not> first \<and> \<not> mem k then Some (Inl ())
      else let k = (if first then k else k + 1)
           in case read_one (mem k) buf of
                Incomplete \<Rightarrow> Some (Inr ([], buf))
              | NoMemory \<Rightarrow> Some (Inl ())
              | Overrun \<Rightarrow> None
              | Parsed f n \<Rightarrow>
                  (case read_frames_loop mem (k + 1) False (drop n buf) of
                     Some (Inr (fs, rest)) \<Rightarrow> Some (Inr (f # fs, rest))
                   | r \<Rightarrow> r))"
  by pat_completeness auto
termination
  by (relation "measure (\<lambda>(mem, k, first, buf). length buf)")
     (auto dest!: read_one_bounds)

declare read_frames_loop.simps [simp del]

text \<open>\<open>bb_websocket_read_frames\<close> on the connection of a session.\<close>

definition read_frames ::
  "(nat \<Rightarrow> bool) \<Rightarrow> bb_connection \<Rightarrow> (bb_error \<times> ws_frame list \<times> bb_connection) option" where
  "read_frames mem c =
     (case read_frames_loop mem 0 True (cn_buffer c) of
        None \<Rightarrow> None
      | Some (Inl _) \<Rightarrow> Some ((BB_ERR_ALLOC, ''Allocation failed''), [], c)
      | Some (Inr (fs, rest)) \<Rightarrow>
          if fs = [] then Some ((BB_ERR_INTERNAL, ''Incomplete frame''), [], c)
          else Some (BB_SUCCESS, fs, c\<lparr>cn_buffer := rest\<rparr>))"

section \<open>Sending\<close>

definition length_bytes :: "bool \<Rightarrow> u64 \<Rightarrow> bytes" where
  "length_bytes masked n =
     (let m = (if masked then 0x80 else 0x00) in
      if n < 126 then [m OR ucast n]
      else if n \<le> 0xFFFF then [m OR 126, ucast (drop_bit 8 n AND 0xff), ucast (n AND 0xff)]
      else (m OR 127) # map (\<lambda>shift. ucast (drop_bit shift n AND 0xff)) [56, 48, 40, 32, 24, 16, 8, 0])"

text \<open>The bytes written to the buffer for a payload of exactly \<open>fr_length\<close> bytes.\<close>

definition frame_bytes :: "bytes option \<Rightarrow> u8 \<Rightarrow> bytes \<Rightarrow> bytes" where
  "frame_bytes mk opcode payload =
     [0x80 OR (opcode AND 0x0F)] @ length_bytes (mk \<noteq> None) (of_nat (length payload)) @
     (case mk of None \<Rightarrow> payload | Some key \<Rightarrow> key @ xor_key key payload)"

datatype ws_mode = BB_WEBSOCKET_SERVER | BB_WEBSOCKET_CLIENT

text \<open>
  What one call of \<open>bb_websocket_queue_frame\<close> depends on: the outcome of \<open>malloc\<close>, the random
  masking key (\<open>None\<close>: no randomness), the outcome of the allocation of the chain node, and what
  the transport answers when the chain is written out afterwards.
\<close>

record send_env =
  se_alloc :: bool
  se_random :: "bytes option"
  se_node :: bool
  se_writes :: "write_event list"

text \<open>
  \<open>bb_websocket_queue_frame\<close>. When the chain node cannot be allocated,
  \<open>bb_connection_buffer_add\<close> has freed the buffer already and the error path frees it again:
  that is \<open>None\<close>, like a payload shorter than the announced length.
\<close>

definition queue_frame ::
  "send_env \<Rightarrow> ws_mode \<Rightarrow> ws_frame \<Rightarrow> bb_connection \<Rightarrow> (bb_error \<times> bb_connection) option" where
  "queue_frame se mode f c =
     (let masked = (mode = BB_WEBSOCKET_CLIENT);
          mem = (case fr_payload f of None \<Rightarrow> [] | Some m \<Rightarrow> m);
          payload = take (unat (fr_length f)) mem
      in if \<not> se_alloc se then Some ((BB_ERR_ALLOC, ''Allocation failed''), c)
         else if masked \<and> se_random se = None
         then Some ((BB_ERR_NETWORK, ''Random generation failed''), c)
         else if length mem < unat (fr_length f) then None
         else case buffer_add (se_node se)
                     (frame_bytes (if masked then se_random se else None) (fr_opcode f) payload) c of
                ((rc, freed), c) \<Rightarrow>
                  if rc \<noteq> 0 then if freed then None else Some ((BB_ERR_ALLOC, ''Allocation failed.''), c)
                  else Some (BB_SUCCESS, c))"

definition make_frame :: "u8 \<Rightarrow> bytes option \<Rightarrow> nat \<Rightarrow> ws_frame" where
  "make_frame opcode payload len =
     zero_frame\<lparr>fr_fin := 1, fr_opcode := opcode, fr_payload := payload, fr_length := of_nat len\<rparr>"

text \<open>A C string is a \<open>char\<close> list without a zero; its bytes with the terminator are its memory.\<close>

definition c_string :: "bytes \<Rightarrow> bytes" where
  "c_string text = text @ [0]"

definition queue_text ::
  "send_env \<Rightarrow> ws_mode \<Rightarrow> bytes \<Rightarrow> bb_connection \<Rightarrow> (bb_error \<times> bb_connection) option" where
  "queue_text se mode text c =
     queue_frame se mode (make_frame BB_WS_TEXT (Some (c_string text)) (length text)) c"

definition queue_binary ::
  "send_env \<Rightarrow> ws_mode \<Rightarrow> bytes option \<Rightarrow> nat \<Rightarrow> bb_connection \<Rightarrow> (bb_error \<times> bb_connection) option" where
  "queue_binary se mode data len c =
     (if data = None \<and> len > 0 then Some ((BB_ERR_INTERNAL, ''Invalid payload''), c)
      else queue_frame se mode (make_frame BB_WS_BINARY data len) c)"

definition queue_control ::
  "send_env \<Rightarrow> ws_mode \<Rightarrow> u8 \<Rightarrow> bytes option \<Rightarrow> nat \<Rightarrow> bb_connection \<Rightarrow> (bb_error \<times> bb_connection) option" where
  "queue_control se mode opcode payload len c = queue_frame se mode (make_frame opcode payload len) c"

definition queue_ping ::
  "send_env \<Rightarrow> ws_mode \<Rightarrow> bytes option \<Rightarrow> nat \<Rightarrow> bb_connection \<Rightarrow> (bb_error \<times> bb_connection) option" where
  "queue_ping se mode payload len c = queue_control se mode BB_WS_PING payload len c"

definition queue_pong ::
  "send_env \<Rightarrow> ws_mode \<Rightarrow> bytes option \<Rightarrow> nat \<Rightarrow> bb_connection \<Rightarrow> (bb_error \<times> bb_connection) option" where
  "queue_pong se mode payload len c = queue_control se mode BB_WS_PONG payload len c"

text \<open>The payload of a close frame: the code in network order and at most 123 bytes of reason.\<close>

definition close_payload :: "16 word \<Rightarrow> bytes option \<Rightarrow> bytes" where
  "close_payload code reason =
     [ucast (drop_bit 8 code), ucast code] @ (case reason of None \<Rightarrow> [] | Some r \<Rightarrow> take 123 r)"

definition queue_close ::
  "send_env \<Rightarrow> ws_mode \<Rightarrow> 16 word \<Rightarrow> bytes option \<Rightarrow> bb_connection \<Rightarrow> (bb_error \<times> bb_connection) option" where
  "queue_close se mode code reason c =
     (let payload = close_payload code reason
      in queue_control se mode BB_WS_CLOSE (Some payload) (length payload) c)"

section \<open>Messages\<close>

datatype ws_message_type =
    BB_WS_MESSAGE_TEXT | BB_WS_MESSAGE_BINARY | BB_WS_MESSAGE_CLOSE | BB_WS_MESSAGE_PING
  | BB_WS_MESSAGE_PONG

text \<open>\<open>wm_data\<close> is the memory the data pointer points to.\<close>

record ws_message =
  wm_type :: ws_message_type
  wm_data :: "bytes option"
  wm_length :: nat

text \<open>
  \<open>bb_ws_message_create\<close>: a text is duplicated as a C string, anything else copied by length.
  The outer \<open>None\<close> is a read outside \<open>data\<close>, the inner one the null pointer.
\<close>

definition ws_message_create ::
  "bool \<Rightarrow> bool \<Rightarrow> ws_message_type \<Rightarrow> bytes \<Rightarrow> nat \<Rightarrow> ws_message option option" where
  "ws_message_create msg_ok data_ok type data len =
     (if \<not> msg_ok then Some None
      else if type = BB_WS_MESSAGE_TEXT then
        if 0 \<notin> set data then None
        else Some (Some \<lparr>wm_type = type,
               wm_data = (if data_ok then Some (takeWhile (\<lambda>b. b \<noteq> 0) data @ [0]) else None),
               wm_length = len\<rparr>)
      else if len > 0 then
        if \<not> data_ok then Some None
        else if length data < len then None
        else Some (Some \<lparr>wm_type = type, wm_data = Some (take len data), wm_length = len\<rparr>)
      else Some (Some \<lparr>wm_type = type, wm_data = None, wm_length = len\<rparr>))"

definition frame_message_type :: "u8 \<Rightarrow> ws_message_type option" where
  "frame_message_type opcode =
     (if opcode = BB_WS_TEXT then Some BB_WS_MESSAGE_TEXT
      else if opcode = BB_WS_BINARY then Some BB_WS_MESSAGE_BINARY
      else if opcode = BB_WS_CLOSE then Some BB_WS_MESSAGE_CLOSE
      else if opcode = BB_WS_PING then Some BB_WS_MESSAGE_PING
      else if opcode = BB_WS_PONG then Some BB_WS_MESSAGE_PONG
      else None)"

definition frame_to_message :: "bool \<Rightarrow> bool \<Rightarrow> ws_frame \<Rightarrow> ws_message option option" where
  "frame_to_message msg_ok data_ok f =
     (case frame_message_type (fr_opcode f) of
        None \<Rightarrow> Some None
      | Some type \<Rightarrow>
          ws_message_create msg_ok data_ok type
            (case fr_payload f of None \<Rightarrow> [] | Some m \<Rightarrow> m) (unat (fr_length f)))"

end
