(* ===== verification/Ws_Theorems.thy ===== *)
theory Ws_Theorems
  imports Ws_Frame "HOL-Library.Code_Target_Nat"
begin

text \<open>
  The wire format of WebSocket frames: what is queued by one side is read by the other, whatever
  the fragmentation, and the one length for which the reader leaves its buffer.
\<close>

section \<open>Length fields\<close>

lemma take_bit_small: "unat w < 2 ^ n \<Longrightarrow> take_bit n w = (w :: 'a::len word)"
  by (simp add: word_unat_eq_iff unsigned_take_bit_eq take_bit_nat_eq_self)

lemma u8_low7: "(x :: u8) < 128 \<Longrightarrow> x AND 0x7F = x"
proof -
  assume "x < 128"
  then have "take_bit 7 x = x" by (simp add: take_bit_small word_less_nat_alt)
  then show ?thesis by (simp add: take_bit_eq_mask mask_eq_exp_minus_1)
qed

lemma u8_high0: "(x :: u8) < 128 \<Longrightarrow> drop_bit 7 x = 0"
  by (simp add: drop_bit_eq_div word_arith_nat_div word_less_nat_alt unat_eq_zero)

lemma mask_bit:
  fixes x :: u8
  assumes "x < 128"
  shows "(0x80 OR x) AND 0x7F = x" "drop_bit 7 (0x80 OR x) AND 1 = 1"
    "(0x00 OR x) AND 0x7F = x" "drop_bit 7 (0x00 OR x) AND 1 = 0"
  using assms by (simp_all add: bit.conj_disj_distrib2 u8_low7 drop_bit_or u8_high0)

lemma and_ff: "(n :: u64) AND 0xff = take_bit 8 n"
  by (simp add: take_bit_eq_mask mask_eq_exp_minus_1)

lemma be16_inverse: "n \<le> 0xFFFF \<Longrightarrow> be16 [ucast (drop_bit 8 n AND 0xff), ucast (n AND 0xff)] = n"
proof (rule bit_word_eqI)
  fix i assume i: "i < LENGTH(64)" and n: "n \<le> 0xFFFF"
  have "take_bit 16 n = n" using n by (simp add: take_bit_small word_le_nat_alt)
  then have high: "bit n i \<Longrightarrow> i < 16" by (metis bit_take_bit_iff)
  show "bit (be16 [ucast (drop_bit 8 n AND 0xff), ucast (n AND 0xff)]) i = bit n i"
    using i high unfolding and_ff by (auto simp: be16_def bit_simps)
qed

lemma be64_inverse:
  "be64 (map (\<lambda>shift. ucast (drop_bit shift n AND 0xff)) [56, 48, 40, 32, 24, 16, 8, 0]) = n"
proof (rule bit_word_eqI)
  fix i assume i: "i < LENGTH(64)"
  have split: "bit n i \<longleftrightarrow> (\<exists>s\<in>set [56, 48, 40, 32, 24, 16, 8, 0]. s \<le> i \<and> i < s + 8 \<and> bit n i)"
    using i by auto
  have byte: "bit (push_bit s (ucast (ucast (take_bit 8 (drop_bit s n)) :: u8) :: u64)) i \<longleftrightarrow>
      s \<le> i \<and> i < s + 8 \<and> bit n i" if "s + 8 \<le> 64" for s
    using i that by (auto simp: bit_simps)
  show "bit (be64 (map (\<lambda>shift. ucast (drop_bit shift n AND 0xff)) [56, 48, 40, 32, 24, 16, 8, 0])) i = bit n i"
    unfolding and_ff be64_def
    using byte [of 56] byte [of 48] byte [of 40] byte [of 32] byte [of 24] byte [of 16] byte [of 8] byte [of 0] split
    by (simp add: bit_or_iff)
qed

definition header_size :: "u64 \<Rightarrow> nat" where
  "header_size n = (if n < 126 then 2 else if n \<le> 0xFFFF then 4 else 10)"

definition mask_flag :: "bool \<Rightarrow> u8" where
  "mask_flag masked = (if masked then 1 else 0)"

lemma length_bytes_size: "length (length_bytes masked n) + 1 = header_size n"
  by (simp add: length_bytes_def header_size_def Let_def)

lemma length_bytes_first:
  "length_bytes masked n ! 0 AND 0x7F = (if n < 126 then ucast n else if n \<le> 0xFFFF then 126 else 127)"
  "drop_bit 7 (length_bytes masked n ! 0) AND 1 = mask_flag masked"
proof -
  have "(ucast n :: u8) < 128" if "n < 126"
    using that by (simp add: word_less_nat_alt unsigned_ucast_eq take_bit_nat_eq_self)
  then show "length_bytes masked n ! 0 AND 0x7F = (if n < 126 then ucast n else if n \<le> 0xFFFF then 126 else 127)"
    "drop_bit 7 (length_bytes masked n ! 0) AND 1 = mask_flag masked"
    using mask_bit [of "ucast n"] mask_bit [of 126] mask_bit [of 127]
    by (auto simp: length_bytes_def Let_def mask_flag_def)
qed

lemma length_fields_header:
  "length_fields (b # length_bytes masked n @ rest) = Some (n, header_size n)"
proof -
  let ?buf = "b # length_bytes masked n @ rest"
  have ne: "length_bytes masked n \<noteq> []" by (simp add: length_bytes_def Let_def)
  then have one: "?buf ! 1 = length_bytes masked n ! 0" by (cases "length_bytes masked n") auto
  consider "n < 126" | "\<not> n < 126" "n \<le> 0xFFFF" | "\<not> n < 126" "\<not> n \<le> 0xFFFF" by blast
  then show ?thesis
  proof cases
    case 1
    have u: "(ucast (ucast n :: u8) :: u64) = n"
      using 1 by (simp add: unsigned_ucast_eq take_bit_small word_less_nat_alt)
    have "n \<noteq> 126" "n \<noteq> 127" using 1 by auto
    with 1 show ?thesis
      unfolding length_fields_def one length_bytes_first by (simp add: u header_size_def)
  next
    case 2
    then show ?thesis
      unfolding length_fields_def one length_bytes_first
      using be16_inverse [of n] by (simp add: header_size_def length_bytes_def Let_def)
  next
    case 3
    then show ?thesis
      unfolding length_fields_def one length_bytes_first
      using be64_inverse [of n] by (simp add: header_size_def length_bytes_def Let_def)
  qed
qed

lemma length_fields_cut:
  assumes "2 \<le> k" and "k < header_size n"
  shows "length_fields (take k (b # length_bytes masked n @ rest)) = None"
proof -
  let ?buf = "take k (b # length_bytes masked n @ rest)"
  have ne: "length_bytes masked n \<noteq> []" by (simp add: length_bytes_def Let_def)
  then have one: "?buf ! 1 = length_bytes masked n ! 0"
    using assms(1) by (cases "length_bytes masked n") auto
  have "length ?buf = k"
    using assms length_bytes_size [of masked n] by simp
  with assms show ?thesis
    unfolding length_fields_def one length_bytes_first
    by (auto simp: header_size_def split: if_splits)
qed

lemma length_xor_key [simp]: "length (xor_key key d) = length d"
  by (simp add: xor_key_def)

lemma xor_key_twice [simp]: "xor_key key (xor_key key d) = d"
  by (rule nth_equalityI) (simp_all add: xor_key_def xor.assoc)

text \<open>The frame a reader sees.\<close>

definition received :: "bytes option \<Rightarrow> u8 \<Rightarrow> bytes \<Rightarrow> ws_frame" where
  "received mk opcode payload =
     \<lparr>fr_fin = 1, fr_opcode = opcode AND 0x0F, fr_masked = mask_flag (mk \<noteq> None),
      fr_length = of_nat (length payload), fr_key = (case mk of None \<Rightarrow> [0, 0, 0, 0] | Some key \<Rightarrow> key),
      fr_payload = Some (payload @ [0])\<rparr>"

definition key_ok :: "bytes option \<Rightarrow> bool" where
  "key_ok mk \<longleftrightarrow> (case mk of None \<Rightarrow> True | Some key \<Rightarrow> length key = 4)"

lemma frame_bytes_size:
  "key_ok mk \<Longrightarrow> length (frame_bytes mk opcode payload) =
     header_size (of_nat (length payload)) + (if mk = None then 0 else 4) + length payload"
  using length_bytes_size [of "mk \<noteq> None" "of_nat (length payload)"]
  by (auto simp: frame_bytes_def key_ok_def split: option.splits)

lemma header_size_le: "2 \<le> header_size n" "header_size n \<le> 10"
  by (simp_all add: header_size_def)

lemma first_byte:
  "drop_bit 7 (0x80 OR (opcode AND 0x0F) :: u8) AND 1 = 1"
  "(0x80 OR (opcode AND 0x0F) :: u8) AND 0x0F = opcode AND 0x0F"
proof -
  have "opcode AND 0x0F \<le> (0x0F :: u8)" by (rule word_and_le1)
  then have small: "opcode AND 0x0F < (128 :: u8)" by (rule le_less_trans) simp
  show "drop_bit 7 (0x80 OR (opcode AND 0x0F) :: u8) AND 1 = 1" by (rule mask_bit(2) [OF small])
  show "(0x80 OR (opcode AND 0x0F) :: u8) AND 0x0F = opcode AND 0x0F"
    by (simp add: bit.conj_disj_distrib2 and.assoc)
qed

lemma of_nat_less: "a < 2 ^ 64 \<Longrightarrow> b < 2 ^ 64 \<Longrightarrow> (of_nat a :: u64) < of_nat b \<longleftrightarrow> a < b"
  by (simp add: word_less_nat_alt unat_of_nat)

text \<open>The parts of a frame, as \<open>read_one\<close> takes them apart.\<close>

lemma frame_parts:
  fixes payload :: bytes
  defines "n \<equiv> of_nat (length payload) :: u64"
  defines "body \<equiv> (\<lambda>mk. case mk of None \<Rightarrow> payload | Some key \<Rightarrow> key @ xor_key key payload)"
  shows "frame_bytes mk opcode payload = (0x80 OR (opcode AND 0x0F)) # length_bytes (mk \<noteq> None) n @ body mk"
    and "length ((0x80 OR (opcode AND 0x0F)) # length_bytes (mk \<noteq> None) n) = header_size n"
    and "2 \<le> k \<Longrightarrow> take k (frame_bytes mk opcode payload @ rest) ! 1 = length_bytes (mk \<noteq> None) n ! 0"
    and "2 \<le> k \<Longrightarrow> take k (frame_bytes mk opcode payload @ rest) ! 0 = 0x80 OR (opcode AND 0x0F)"
proof -
  show parts: "frame_bytes mk opcode payload = (0x80 OR (opcode AND 0x0F)) # length_bytes (mk \<noteq> None) n @ body mk"
    by (simp add: frame_bytes_def n_def body_def)
  show "length ((0x80 OR (opcode AND 0x0F)) # length_bytes (mk \<noteq> None) n) = header_size n"
    using length_bytes_size [of "mk \<noteq> None" n] by simp
  have "length_bytes (mk \<noteq> None) n \<noteq> []" by (simp add: length_bytes_def Let_def)
  then show "2 \<le> k \<Longrightarrow> take k (frame_bytes mk opcode payload @ rest) ! 1 = length_bytes (mk \<noteq> None) n ! 0"
    unfolding parts by (cases "length_bytes (mk \<noteq> None) n") (auto simp: nth_append)
  show "2 \<le> k \<Longrightarrow> take k (frame_bytes mk opcode payload @ rest) ! 0 = 0x80 OR (opcode AND 0x0F)"
    unfolding parts by simp
qed

lemma mask_flag_nz [simp]: "mask_flag b \<noteq> 0 \<longleftrightarrow> b" "mask_flag b = 0 \<longleftrightarrow> \<not> b"
  by (simp_all add: mask_flag_def)

lemma read_one_frame:
  assumes k: "key_ok mk" and small: "length (frame_bytes mk opcode payload @ rest) < 2 ^ 64"
  shows "read_one True (frame_bytes mk opcode payload @ rest) =
         Parsed (received mk opcode payload) (length (frame_bytes mk opcode payload))"
proof -
  define buf where "buf = frame_bytes mk opcode payload @ rest"
  define n where "n = (of_nat (length payload) :: u64)"
  define h where "h = header_size n"
  define body where "body = (case mk of None \<Rightarrow> payload | Some key \<Rightarrow> key @ xor_key key payload)"
  have size: "length (frame_bytes mk opcode payload) = h + (if mk = None then 0 else 4) + length payload"
    using frame_bytes_size [OF k] by (simp add: h_def n_def)
  have n: "unat n = length payload" using size small by (simp add: n_def unat_of_nat)
  note parts = frame_parts [where mk = mk and opcode = opcode and payload = payload, folded n_def body_def]
  have buf_eq: "buf = ((0x80 OR (opcode AND 0x0F)) # length_bytes (mk \<noteq> None) n) @ body @ rest"
    unfolding buf_def parts(1) by simp
  have lf: "length_fields buf = Some (n, h)"
    unfolding buf_eq h_def append_Cons by (rule length_fields_header)
  have one: "buf ! 1 = length_bytes (mk \<noteq> None) n ! 0" "buf ! 0 = 0x80 OR (opcode AND 0x0F)"
    using parts(3,4) [of "length buf" rest] size header_size_le(1) [of n] by (simp_all add: buf_def h_def)
  have skip: "drop (length xs) (xs @ ys) = ys" for xs ys :: bytes by simp
  have drop: "drop h buf = body @ rest"
    unfolding buf_eq h_def parts(2) [symmetric] by (rule skip)
  have len: "length buf = h + length body + length rest"
    unfolding buf_eq h_def parts(2) [symmetric] by simp
  have enough: "\<not> (of_nat (length buf) :: u64) < of_nat (h + (if mk = None then 0 else 4)) + n"
  proof -
    have "of_nat (h + (if mk = None then 0 else 4)) + n = (of_nat (length (frame_bytes mk opcode payload)) :: u64)"
      unfolding size n_def by simp
    moreover have "\<not> (of_nat (length buf) :: u64) < of_nat (length (frame_bytes mk opcode payload))"
      using small of_nat_less [of "length buf" "length (frame_bytes mk opcode payload)"] by (simp add: buf_def)
    ultimately show ?thesis by simp
  qed
  show ?thesis
  proof (cases mk)
    case None
    then show ?thesis
      unfolding buf_def [symmetric] read_one_def Let_def lf one length_bytes_first first_byte
      using enough len drop n size
      by (simp add: received_def first_byte length_bytes_first body_def n_def mask_flag_def)
  next
    case (Some key)
    have "drop (h + 4) buf = xor_key key payload @ rest"
      unfolding add.commute [of h] drop_drop [symmetric] drop using Some k by (simp add: body_def key_ok_def)
    with Some show ?thesis
      unfolding buf_def [symmetric] read_one_def Let_def lf one length_bytes_first first_byte
      using enough len drop n size k
      by (simp add: received_def first_byte length_bytes_first body_def n_def mask_flag_def key_ok_def)
  qed
qed

lemma read_one_cut:
  assumes key: "key_ok mk" and small: "length (frame_bytes mk opcode payload) < 2 ^ 64"
    and k: "2 \<le> k" "k < length (frame_bytes mk opcode payload)"
  shows "read_one ok (take k (frame_bytes mk opcode payload)) = Incomplete"
proof -
  define buf where "buf = take k (frame_bytes mk opcode payload)"
  define n where "n = (of_nat (length payload) :: u64)"
  define h where "h = header_size n"
  have size: "length (frame_bytes mk opcode payload) = h + (if mk = None then 0 else 4) + length payload"
    using frame_bytes_size [OF key] by (simp add: h_def n_def)
  have n: "unat n = length payload" using size small by (simp add: n_def unat_of_nat)
  note parts = frame_parts [where mk = mk and opcode = opcode and payload = payload, folded n_def]
  have one: "buf ! 1 = length_bytes (mk \<noteq> None) n ! 0"
    using parts(3) [OF k(1), of "[]"] by (simp add: buf_def)
  have len: "length buf = k" using k by (simp add: buf_def)
  show ?thesis
  proof (cases "k < h")
    case True
    then have "length_fields buf = None"
      unfolding buf_def parts(1) h_def by (rule length_fields_cut [OF k(1)])
    then show ?thesis unfolding buf_def [symmetric] read_one_def by (simp add: Let_def)
  next
    case False
    define front where "front = (0x80 OR (opcode AND 0x0F)) # length_bytes (mk \<noteq> None) n"
    have "length front \<le> k" using False parts(2) by (simp only: front_def h_def not_less)
    then obtain r where "buf = front @ r"
      unfolding buf_def parts(1) append_Cons [symmetric] front_def [symmetric] by simp
    then have "buf = (0x80 OR (opcode AND 0x0F)) # length_bytes (mk \<noteq> None) n @ r"
      by (simp only: front_def append_Cons)
    then have lf: "length_fields buf = Some (n, h)"
      unfolding h_def by (simp only: length_fields_header)
    have "(of_nat (length buf) :: u64) < of_nat (h + (if mk = None then 0 else 4)) + n"
    proof -
      have "of_nat (h + (if mk = None then 0 else 4)) + n = (of_nat (length (frame_bytes mk opcode payload)) :: u64)"
        unfolding size n_def by simp
      with small k show ?thesis by (simp add: of_nat_less len)
    qed
    then show ?thesis
      unfolding buf_def [symmetric] read_one_def Let_def lf one length_bytes_first
      by (cases mk) (auto simp: mask_flag_def)
  qed
qed

section \<open>Streams of frames\<close>

type_synonym sent_frame = "bytes option \<times> u8 \<times> bytes"

definition wire :: "sent_frame list \<Rightarrow> bytes" where
  "wire fs = concat (map (\<lambda>(mk, opcode, payload). frame_bytes mk opcode payload) fs)"

definition all_received :: "sent_frame list \<Rightarrow> ws_frame list" where
  "all_received fs = map (\<lambda>(mk, opcode, payload). received mk opcode payload) fs"

definition keys_ok :: "sent_frame list \<Rightarrow> bool" where
  "keys_ok fs \<longleftrightarrow> list_all (\<lambda>(mk, opcode, payload). key_ok mk) fs"

lemma frame_bytes_ge2: "key_ok mk \<Longrightarrow> 2 \<le> length (frame_bytes mk opcode payload)"
  using header_size_le(1) [of "of_nat (length payload)"] by (simp add: frame_bytes_size)

lemma read_loop_frames:
  assumes "keys_ok fs" and "key_ok mk" and "j < length (frame_bytes mk opcode payload)"
    and "length (wire fs @ frame_bytes mk opcode payload) < 2 ^ 64"
  shows "read_frames_loop (\<lambda>_. True) k first (wire fs @ take j (frame_bytes mk opcode payload)) =
         Some (Inr (all_received fs, take j (frame_bytes mk opcode payload)))"
  using assms
proof (induction fs arbitrary: k first)
  case Nil
  define tail where "tail = take j (frame_bytes mk opcode payload)"
  have len: "length tail = j" using Nil.prems(3) by (simp add: tail_def)
  have "2 \<le> j \<Longrightarrow> read_one True tail = Incomplete"
    using Nil.prems read_one_cut [of mk opcode payload j True] by (simp add: wire_def tail_def)
  then have "read_frames_loop (\<lambda>_. True) k first tail = Some (Inr ([], tail))"
    by (auto simp: read_frames_loop.simps [of _ _ _ tail] len)
  then show ?case by (simp add: wire_def all_received_def tail_def)
next
  case (Cons f fs)
  obtain mk' opc' pl' where f: "f = (mk', opc', pl')" by (metis prod_cases3)
  define tail where "tail = wire fs @ take j (frame_bytes mk opcode payload)"
  have buf: "wire (f # fs) @ take j (frame_bytes mk opcode payload) = frame_bytes mk' opc' pl' @ tail"
    by (simp add: wire_def f tail_def)
  have key: "key_ok mk'" "keys_ok fs" using Cons.prems(1) by (simp_all add: keys_ok_def f)
  have "length (frame_bytes mk' opc' pl' @ tail) < 2 ^ 64"
    using Cons.prems(3,4) by (simp add: wire_def f tail_def)
  note one = read_one_frame [OF key(1) this]
  have "\<not> length (frame_bytes mk' opc' pl' @ tail) < 2"
    using frame_bytes_ge2 [OF key(1), of opc' pl'] by simp
  moreover have "read_frames_loop (\<lambda>_. True) k' False tail =
      Some (Inr (all_received fs, take j (frame_bytes mk opcode payload)))" for k'
    unfolding tail_def using Cons.prems key by (intro Cons.IH) (auto simp: wire_def f)
  ultimately show ?case
    unfolding buf by (simp add: read_frames_loop.simps [of _ _ _ "frame_bytes mk' opc' pl' @ tail"] one
        all_received_def f Let_def)
qed

text \<open>The length a frame header announces.\<close>

definition announced :: "bytes \<Rightarrow> nat" where
  "announced buf =
     (if length buf < 2 then 0 else case length_fields buf of None \<Rightarrow> 0 | Some (n, offset) \<Rightarrow> unat n)"

lemma overrun_announced:
  assumes "read_one ok buf = Overrun" and "length buf < 2 ^ 64" and "\<not> length buf < 2"
  shows "2 ^ 64 \<le> announced buf + 14"
proof -
  obtain n h where lf: "length_fields buf = Some (n, h)"
    using assms(1) by (auto simp: read_one_def Let_def split: option.splits)
  define m where "m \<longleftrightarrow> drop_bit 7 (buf ! 1) AND 1 \<noteq> 0"
  define k where "k = (if m then h + 4 else h)"
  have h: "h \<le> 10" using length_fields_offset [OF lf] by simp
  have over: "length buf < k + unat n" "\<not> (of_nat (length buf) :: u64) < of_nat k + n"
    using assms(1) unfolding read_one_def Let_def lf option.case prod.case m_def [symmetric] k_def [symmetric]
    by (simp_all only: read_one_result.distinct not_False_eq_True split: if_splits)
  show ?thesis
  proof (rule ccontr)
    assume "\<not> 2 ^ 64 \<le> announced buf + 14"
    then have small: "k + unat n < 2 ^ 64" using h assms(3) by (auto simp: announced_def lf k_def)
    have eq: "of_nat k + n = (of_nat (k + unat n) :: u64)" by simp
    have "\<not> length buf < k + unat n"
      using over(2) unfolding eq of_nat_less [OF assms(2) small] .
    with over(1) show False by blast
  qed
qed

lemma read_loop_overrun:
  "read_frames_loop mem k first buf = None \<Longrightarrow> length buf < 2 ^ 64 \<Longrightarrow> \<exists>i. 2 ^ 64 \<le> announced (drop i buf) + 14"
proof (induction mem k first buf rule: read_frames_loop.induct)
  case (1 mem k first buf)
  define k' where "k' = (if first then k else k + 1)"
  have ge: "\<not> length buf < 2" and ok: "\<not> (\<not> first \<and> \<not> mem k)"
    using 1(2) by (auto simp: read_frames_loop.simps [of mem k first buf] split: if_splits)
  show ?case
  proof (cases "read_one (mem k') buf")
    case Overrun
    from overrun_announced [OF this 1(3) ge] show ?thesis by (intro exI [of _ 0]) simp
  next
    case (Parsed f n)
    have "read_frames_loop mem (k' + 1) False (drop n buf) = None"
      using 1(2) ge ok Parsed
      by (auto simp: read_frames_loop.simps [of mem k first buf] k'_def [symmetric] Let_def split: option.splits sum.splits)
    moreover have "length (drop n buf) < 2 ^ 64" using 1(3) by (simp add: less_imp_diff_less)
    ultimately obtain i where "2 ^ 64 \<le> announced (drop i (drop n buf)) + 14"
      using 1(1) [OF ge ok k'_def Parsed] by blast
    then show ?thesis by (intro exI [of _ "i + n"]) simp
  qed (use 1(2) ge ok in \<open>auto simp: read_frames_loop.simps [of mem k first buf] k'_def [symmetric] Let_def\<close>)
qed

end
