(* ===== verification/Websocket.thy ===== *)
theory Websocket
  imports Ws_Theorems
begin

text \<open>
  A WebSocket session (\<open>modules/web/src/websocket/websocket.c\<close>): sending, the step that handles
  the frames read, the heartbeat and closing. The connection below may be absent
  (\<open>ws_async = None\<close>: no asynchronous connection yet) or gone (\<open>Some None\<close>). The callbacks of the
  program are functions on the session that do not destroy it, and what they were given is
  logged; the tasks of the runtime are left out but for the outcome of creating one.
\<close>

section \<open>State\<close>

datatype ws_event =
    GotMessage ws_message
  | GotPong "bytes option" nat
  | GotClose

record bb_websocket =
  ws_mode :: ws_mode
  ws_async :: "bb_connection option option"
  ws_disconnected :: bool
  ws_handler :: bool
  ws_pong_cb :: bool
  ws_close_cb :: bool
  ws_heartbeat :: bool
  ws_interval_ms :: u32
  ws_max_missed :: u32
  ws_missed :: u32
  ws_waiting :: bool
  ws_log :: "ws_event list"
  ws_sent :: bytes

text \<open>\<open>ws_handler\<close>, \<open>ws_pong_cb\<close> and \<open>ws_close_cb\<close> say whether a callback is set; \<open>ws_heartbeat\<close>
  whether a heartbeat task exists; \<open>ws_sent\<close> is what the transport has taken.\<close>

definition new_websocket :: "ws_mode \<Rightarrow> bb_connection option option \<Rightarrow> bb_websocket" where
  "new_websocket mode async =
     \<lparr>ws_mode = mode, ws_async = async, ws_disconnected = False, ws_handler = False,
      ws_pong_cb = False, ws_close_cb = False, ws_heartbeat = False, ws_interval_ms = 0,
      ws_max_missed = 0, ws_missed = 0, ws_waiting = False, ws_log = [], ws_sent = []\<rparr>"

definition bb_websocket_create_with_type ::
  "bool \<Rightarrow> bb_connection option option \<Rightarrow> ws_mode \<Rightarrow> bb_websocket option" where
  "bb_websocket_create_with_type ok async mode =
     (case async of None \<Rightarrow> None | Some conn \<Rightarrow> if \<not> ok then None else Some (new_websocket mode (Some conn)))"

definition bb_websocket_create_on_runtime :: "bool \<Rightarrow> bool \<Rightarrow> bb_websocket option" where
  "bb_websocket_create_on_runtime runtime ok =
     (if \<not> runtime then None else if \<not> ok then None else Some (new_websocket BB_WEBSOCKET_CLIENT None))"

definition set_message_callback :: "bool \<Rightarrow> bb_websocket option \<Rightarrow> bb_websocket option" where
  "set_message_callback cb ws = map_option (ws_handler_update (\<lambda>_. cb)) ws"

definition set_pong_callback :: "bool \<Rightarrow> bb_websocket option \<Rightarrow> bb_websocket option" where
  "set_pong_callback cb ws = map_option (ws_pong_cb_update (\<lambda>_. cb)) ws"

definition set_close_callback :: "bool \<Rightarrow> bb_websocket option \<Rightarrow> bb_websocket option" where
  "set_close_callback cb ws = map_option (ws_close_cb_update (\<lambda>_. cb)) ws"

section \<open>Closing\<close>

text \<open>\<open>_bb_websocket_handle_disconnect\<close>, run once by \<open>_bb_async_connection_handle_disconnect\<close>.\<close>

definition handle_disconnect :: "bb_websocket \<Rightarrow> bb_websocket" where
  "handle_disconnect ws =
     (if ws_disconnected ws then ws
      else let ws = ws\<lparr>ws_disconnected := True\<rparr>
           in if ws_close_cb ws then ws\<lparr>ws_log := ws_log ws @ [GotClose]\<rparr> else ws)"

text \<open>\<open>bb_async_connection_close (ws->async_conn)\<close>.\<close>

definition async_close :: "bb_websocket \<Rightarrow> bb_websocket" where
  "async_close ws =
     (case ws_async ws of
        None \<Rightarrow> ws
      | Some _ \<Rightarrow> handle_disconnect (ws\<lparr>ws_async := Some None\<rparr>))"

section \<open>Sending\<close>

definition with_connection ::
  "(bb_connection \<Rightarrow> (bb_error \<times> bb_connection) option) \<Rightarrow> bb_websocket \<Rightarrow> (bb_error \<times> bb_websocket) option" where
  "with_connection f ws =
     (case ws_async ws of
        None \<Rightarrow> None
      | Some None \<Rightarrow> Some ((BB_ERR_NETWORK, ''Connection doesn't exist.''), ws)
      | Some (Some c) \<Rightarrow> map_option (\<lambda>(e, c'). (e, ws\<lparr>ws_async := Some (Some c')\<rparr>)) (f c))"

text \<open>
  The common body of the \<open>send\<close> functions: the guard, the frame \<open>q\<close> queued, the chain written out.
\<close>

definition ws_send ::
  "send_env \<Rightarrow> (ws_mode \<Rightarrow> bb_connection \<Rightarrow> (bb_error \<times> bb_connection) option) \<Rightarrow> bb_websocket \<Rightarrow>
   (bb_error \<times> bb_websocket) option" where
  "ws_send se q ws =
     (if ws_async ws = None \<or> ws_async ws = Some None
      then Some ((BB_ERR_INTERNAL, ''Websocket not connected''), ws)
      else case with_connection (q (ws_mode ws)) ws of
             None \<Rightarrow> None
           | Some (err, ws) \<Rightarrow>
               if BB_FAILED err then Some (err, ws)
               else (case ws_async ws of
                       Some (Some c) \<Rightarrow>
                         (case connection_write (se_writes se) c of
                            (e, c, out) \<Rightarrow>
                              let ws = ws\<lparr>ws_async := Some (Some c), ws_sent := ws_sent ws @ out\<rparr>
                              in if BB_FAILED e then Some ((BB_ERR_IO, ''Write failed''), ws)
                                 else Some (BB_SUCCESS, ws))
                     | _ \<Rightarrow> Some (BB_SUCCESS, ws)))"

definition send_text :: "send_env \<Rightarrow> bytes \<Rightarrow> bb_websocket \<Rightarrow> (bb_error \<times> bb_websocket) option" where
  "send_text se text ws = ws_send se (\<lambda>mode. queue_text se mode text) ws"

definition send_binary ::
  "send_env \<Rightarrow> bytes option \<Rightarrow> nat \<Rightarrow> bb_websocket \<Rightarrow> (bb_error \<times> bb_websocket) option" where
  "send_binary se data len ws = ws_send se (\<lambda>mode. queue_binary se mode data len) ws"

definition send_pong ::
  "send_env \<Rightarrow> bytes option \<Rightarrow> nat \<Rightarrow> bb_websocket \<Rightarrow> (bb_error \<times> bb_websocket) option" where
  "send_pong se payload len ws = ws_send se (\<lambda>mode. queue_pong se mode payload len) ws"

definition send_ping ::
  "send_env \<Rightarrow> bytes option \<Rightarrow> nat \<Rightarrow> bb_websocket \<Rightarrow> (bb_error \<times> bb_websocket) option" where
  "send_ping se payload len ws = ws_send se (\<lambda>mode. queue_ping se mode payload len) ws"

definition send_close ::
  "send_env \<Rightarrow> 16 word \<Rightarrow> bytes option \<Rightarrow> bb_websocket \<Rightarrow> (bb_error \<times> bb_websocket) option" where
  "send_close se code reason ws =
     (case ws_send se (\<lambda>mode. queue_close se mode code reason) ws of
        None \<Rightarrow> None
      | Some (err, ws) \<Rightarrow> if BB_FAILED err then Some (err, ws) else Some (BB_SUCCESS, async_close ws))"

section \<open>Heartbeat\<close>

text \<open>\<open>bb_websocket_set_heartbeat\<close>; \<open>task_ok\<close> is whether the interval task could be created.\<close>

definition set_heartbeat :: "bool \<Rightarrow> u32 \<Rightarrow> u32 \<Rightarrow> bb_websocket \<Rightarrow> bb_websocket" where
  "set_heartbeat task_ok interval_ms max_missed ws =
     (let ws = ws\<lparr>ws_heartbeat := False, ws_interval_ms := interval_ms, ws_max_missed := max_missed,
                  ws_missed := 0, ws_waiting := False\<rparr>
      in if max_missed > 0 \<and> interval_ms > 0 then ws\<lparr>ws_heartbeat := task_ok\<rparr> else ws)"

definition heartbeat_tick :: "send_env \<Rightarrow> bb_websocket \<Rightarrow> bb_websocket option" where
  "heartbeat_tick se ws =
     (if ws_async ws = None then Some ws
      else let ws = (if ws_waiting ws then ws\<lparr>ws_missed := ws_missed ws + 1\<rparr> else ws)
           in if ws_waiting ws \<and> ws_missed ws \<ge> ws_max_missed ws then Some (async_close ws)
              else map_option snd (send_ping se None 0 (ws\<lparr>ws_waiting := True\<rparr>)))"

section \<open>Handling the frames read\<close>

datatype read_result = BB_READ_MORE | BB_READ_DONE | BB_READ_ERROR

type_synonym read_status = "read_result \<times> bb_error"

text \<open>What the handling of one frame depends on.\<close>

record frame_env =
  fe_send :: send_env
  fe_message :: bool
  fe_data :: bool

text \<open>One frame: go on with the next one (\<open>Inr\<close>), or leave the step with a status.\<close>

definition handle_frame ::
  "frame_env \<Rightarrow> (ws_message \<Rightarrow> bb_websocket \<Rightarrow> bb_websocket) \<Rightarrow> ws_frame \<Rightarrow> bb_websocket \<Rightarrow>
   ((read_status \<times> bb_websocket) + bb_websocket) option" where
  "handle_frame fe handler f ws =
     (let ws = ws\<lparr>ws_waiting := False, ws_missed := 0\<rparr> in
      if fr_opcode f = BB_WS_TEXT \<or> fr_opcode f = BB_WS_BINARY then
        (case frame_to_message (fe_message fe) (fe_data fe) f of
           None \<Rightarrow> None
         | Some None \<Rightarrow> Some (Inl ((BB_READ_ERROR, BB_SUCCESS), ws))
         | Some (Some msg) \<Rightarrow>
             Some (Inr (if ws_handler ws
                        then handler msg (ws\<lparr>ws_log := ws_log ws @ [GotMessage msg]\<rparr>) else ws)))
      else if fr_opcode f = BB_WS_PING then
        map_option (\<lambda>(e, ws). Inr ws) (send_pong (fe_send fe) (fr_payload f) (unat (fr_length f)) ws)
      else if fr_opcode f = BB_WS_PONG then
        Some (Inr (if ws_pong_cb ws
                   then ws\<lparr>ws_log := ws_log ws @ [GotPong (fr_payload f) (unat (fr_length f))]\<rparr> else ws))
      else if fr_opcode f = BB_WS_CLOSE then
        map_option (\<lambda>(e, ws). Inl ((BB_READ_DONE, BB_SUCCESS), ws)) (send_close (fe_send fe) 1000 None ws)
      else Some (Inr ws))"

fun handle_frames ::
  "(nat \<Rightarrow> frame_env) \<Rightarrow> (ws_message \<Rightarrow> bb_websocket \<Rightarrow> bb_websocket) \<Rightarrow> nat \<Rightarrow> ws_frame list \<Rightarrow> bb_websocket \<Rightarrow>
   ((read_status \<times> bb_websocket) + bb_websocket) option" where
  "handle_frames fe handler i [] ws = Some (Inr ws)"
| "handle_frames fe handler i (f # fs) ws =
     (case handle_frame (fe i) handler f ws of
        Some (Inr ws) \<Rightarrow> handle_frames fe handler (i + 1) fs ws
      | r \<Rightarrow> r)"

text \<open>\<open>bb_async_connection_create_write_task\<close>, as far as the connection shows it.\<close>

definition create_write_task :: "bool \<Rightarrow> bb_connection \<Rightarrow> bb_error \<times> bb_connection" where
  "create_write_task task_ok c =
     (if cn_write_pending c then (BB_SUCCESS, c)
      else if \<not> task_ok then ((BB_ERR_ALLOC, ''Failed to create task.''), c)
      else (BB_SUCCESS, c\<lparr>cn_write_pending := True\<rparr>))"

text \<open>\<open>_websocket_read_step\<close>.\<close>

definition websocket_read_step ::
  "(nat \<Rightarrow> bool) \<Rightarrow> (nat \<Rightarrow> frame_env) \<Rightarrow> (ws_message \<Rightarrow> bb_websocket \<Rightarrow> bb_websocket) \<Rightarrow> bool \<Rightarrow>
   bb_websocket \<Rightarrow> (read_status \<times> bb_websocket) option" where
  "websocket_read_step mem fe handler task_ok ws =
     (case ws_async ws of
        None \<Rightarrow> None
      | Some None \<Rightarrow> Some ((BB_READ_ERROR, (BB_ERR_NETWORK, ''Connection doesn't exist.'')), ws)
      | Some (Some c) \<Rightarrow>
          (case read_frames mem c of
             None \<Rightarrow> None
           | Some (err, frames, c) \<Rightarrow>
               let ws = ws\<lparr>ws_async := Some (Some c)\<rparr>
               in if fst err = BB_ERR_INTERNAL then Some ((BB_READ_MORE, BB_SUCCESS), ws)
                  else if BB_FAILED err then Some ((BB_READ_ERROR, err), ws)
                  else (case handle_frames fe handler 0 frames ws of
                          None \<Rightarrow> None
                        | Some (Inl (status, ws)) \<Rightarrow> Some (status, ws)
                        | Some (Inr ws) \<Rightarrow>
                            (case ws_async ws of
                               Some (Some c) \<Rightarrow>
                                 if cn_write c \<noteq> []
                                 then (case create_write_task task_ok c of
                                         (e, c) \<Rightarrow>
                                           if BB_FAILED e
                                           then Some ((BB_READ_ERROR,
                                                  (BB_ERR_INTERNAL, ''Couldn't schedule write task.'')), ws)
                                           else Some ((BB_READ_MORE, BB_SUCCESS),
                                                  ws\<lparr>ws_async := Some (Some c)\<rparr>))
                                 else Some ((BB_READ_MORE, BB_SUCCESS), ws)
                             | _ \<Rightarrow> Some ((BB_READ_MORE, BB_SUCCESS), ws)))))"

end
