(* ===== verification/Websocket_Theorems.thy ===== *)
theory Websocket_Theorems
  imports Websocket "HOL-Library.Code_Target_Nat"
begin

text \<open>
  The properties of connections and WebSocket sessions: no byte is lost or reordered in either
  direction, texts sent by one session arrive at the other, a ping is answered, a silent peer is
  dropped, and the inputs on which the code leaves its buffers or frees one twice.
\<close>

section \<open>Sending\<close>

definition send_ok :: "send_env \<Rightarrow> bool" where
  "send_ok se \<longleftrightarrow> se_alloc se \<and> se_node se \<and> (\<exists>key. se_random se = Some key \<and> length key = 4)"

text \<open>The masking key a session uses.\<close>

definition mask_key :: "send_env \<Rightarrow> ws_mode \<Rightarrow> bytes option" where
  "mask_key se mode = (if mode = BB_WEBSOCKET_CLIENT then se_random se else None)"

lemma mask_key_ok: "send_ok se \<Longrightarrow> key_ok (mask_key se mode)"
  by (auto simp: send_ok_def mask_key_def key_ok_def)

text \<open>All the bytes of a session, on the wire or still in the chain.\<close>

definition stream :: "bb_websocket \<Rightarrow> bytes" where
  "stream ws = ws_sent ws @ (case ws_async ws of Some (Some c) \<Rightarrow> pending c | _ \<Rightarrow> [])"

lemma queue_frame_ok:
  assumes "send_ok se" and "length mem < 2 ^ 64" and "len \<le> length mem"
  shows "queue_frame se mode (make_frame opcode (Some mem) len) c =
    Some (BB_SUCCESS, c\<lparr>cn_write := cn_write c @
      [\<lparr>wb_bytes = frame_bytes (mask_key se mode) opcode (take len mem), wb_offset = 0\<rparr>]\<rparr>)"
proof -
  have u: "unat (of_nat len :: u64) = len" using assms(2,3) by (simp add: unat_of_nat)
  have "\<not> length (frame_bytes (mask_key se mode) opcode (take len mem)) = 0"
    using frame_bytes_ge2 [OF mask_key_ok [OF assms(1)], of mode opcode "take len mem"] by linarith
  with assms u show ?thesis
    by (auto simp: queue_frame_def make_frame_def zero_frame_def buffer_add_def send_ok_def mask_key_def Let_def)
qed

text \<open>What the session looks like after a frame was queued and the chain written out.\<close>

lemma ws_send_ok:
  assumes q: "q (ws_mode ws) c = Some (BB_SUCCESS, c\<lparr>cn_write := cn_write c @ [\<lparr>wb_bytes = b, wb_offset = 0\<rparr>]\<rparr>)"
    and a: "ws_async ws = Some (Some c)"
  shows "\<exists>e c' out. ws_send se q ws = Some (e, ws\<lparr>ws_async := Some (Some c'), ws_sent := ws_sent ws @ out\<rparr>) \<and>
     out @ pending c' = pending c @ b"
proof -
  define c1 where "c1 = c\<lparr>cn_write := cn_write c @ [\<lparr>wb_bytes = b, wb_offset = 0\<rparr>]\<rparr>"
  obtain e c' out where w: "connection_write (se_writes se) c1 = (e, c', out)" by (metis prod_cases3)
  have p1: "pending c1 = pending c @ b" by (simp add: pending_def c1_def)
  have "out @ pending c' = pending c1"
  proof (cases "cn_state c1 = BB_CONNECTION_CLOSED")
    case True
    with w show ?thesis by (auto simp: connection_write_def)
  next
    case False
    with w have "write_loop (se_writes se) (c1\<lparr>cn_write_hint := BB_CONN_IO_DEFAULT\<rparr>) [] = (e, c', out)"
      by (simp add: connection_write_def)
    from write_loop_pending [OF this] show ?thesis by (simp add: pending_def)
  qed
  with p1 q a w show ?thesis
    by (cases "BB_FAILED e")
       (auto simp: ws_send_def with_connection_def c1_def [symmetric] BB_FAILED_def BB_SUCCESS_def Let_def)
qed

lemma send_frame_stream:
  assumes "send_ok se" and "length mem < 2 ^ 64" and "len \<le> length mem" and "ws_async ws = Some (Some c)"
  shows "\<exists>e ws'. ws_send se (\<lambda>mode. queue_frame se mode (make_frame opcode (Some mem) len)) ws = Some (e, ws') \<and>
     stream ws' = stream ws @ frame_bytes (mask_key se (ws_mode ws)) opcode (take len mem) \<and>
     (\<exists>c' out. ws' = ws\<lparr>ws_async := Some (Some c'), ws_sent := ws_sent ws @ out\<rparr>)"
proof -
  note q = queue_frame_ok [OF assms(1-3), of "ws_mode ws" opcode c]
  obtain e c' out where s: "ws_send se (\<lambda>mode. queue_frame se mode (make_frame opcode (Some mem) len)) ws =
      Some (e, ws\<lparr>ws_async := Some (Some c'), ws_sent := ws_sent ws @ out\<rparr>)"
    and p: "out @ pending c' = pending c @ frame_bytes (mask_key se (ws_mode ws)) opcode (take len mem)"
    using ws_send_ok [where q = "\<lambda>mode. queue_frame se mode (make_frame opcode (Some mem) len)", OF q assms(4)] by blast
  have "stream (ws\<lparr>ws_async := Some (Some c'), ws_sent := ws_sent ws @ out\<rparr>) =
      stream ws @ frame_bytes (mask_key se (ws_mode ws)) opcode (take len mem)"
    using p assms(4) by (simp add: stream_def)
  with s show ?thesis by blast
qed

text \<open>A program that sends texts one after the other.\<close>

fun send_texts :: "(send_env \<times> bytes) list \<Rightarrow> bb_websocket \<Rightarrow> bb_websocket option" where
  "send_texts [] ws = Some ws"
| "send_texts ((se, t) # ts) ws = Option.bind (send_text se t ws) (\<lambda>(e, ws'). send_texts ts ws')"

lemma send_texts_stream:
  assumes "ws_async ws = Some (Some c)" and "\<forall>(se, t)\<in>set ts. send_ok se \<and> length t + 1 < 2 ^ 64"
  shows "\<exists>ws'. send_texts ts ws = Some ws' \<and>
    stream ws' = stream ws @ wire (map (\<lambda>(se, t). (mask_key se (ws_mode ws), BB_WS_TEXT, t)) ts)"
  using assms
proof (induction ts arbitrary: ws c)
  case (Cons x ts)
  obtain se t where x: "x = (se, t)" by (cases x)
  have ok: "send_ok se" "length (c_string t) < 2 ^ 64" "length t \<le> length (c_string t)"
    using Cons.prems(2) by (auto simp: x c_string_def)
  have "(\<lambda>mode. queue_text se mode t) =
      (\<lambda>mode. queue_frame se mode (make_frame BB_WS_TEXT (Some (c_string t)) (length t)))"
    by (intro ext) (simp add: queue_text_def)
  then have "send_text se t ws =
      ws_send se (\<lambda>mode. queue_frame se mode (make_frame BB_WS_TEXT (Some (c_string t)) (length t))) ws"
    by (simp add: send_text_def)
  moreover have "take (length t) (c_string t) = t" by (simp add: c_string_def)
  ultimately obtain e ws' c' out where
    s: "send_text se t ws = Some (e, ws')" "stream ws' = stream ws @ frame_bytes (mask_key se (ws_mode ws)) BB_WS_TEXT t"
    "ws' = ws\<lparr>ws_async := Some (Some c'), ws_sent := ws_sent ws @ out\<rparr>"
    using send_frame_stream [OF ok Cons.prems(1), of BB_WS_TEXT] by metis
  have ws': "ws_async ws' = Some (Some c')" "ws_mode ws' = ws_mode ws" using s(3) by simp_all
  have "\<forall>(se, t)\<in>set ts. send_ok se \<and> length t + 1 < 2 ^ 64" using Cons.prems(2) by simp
  from Cons.IH [OF ws'(1) this] s(1,2) ws'(2) show ?case
    by (auto simp: x wire_def)
qed (simp add: wire_def)

section \<open>Receiving\<close>

lemma text_opcode [simp]: "BB_WS_TEXT AND 0x0F = BB_WS_TEXT"
  by (simp add: BB_WS_TEXT_def)

definition text_message :: "bytes \<Rightarrow> ws_message" where
  "text_message t = \<lparr>wm_type = BB_WS_MESSAGE_TEXT, wm_data = Some (c_string t), wm_length = length t\<rparr>"

lemma text_received:
  assumes "0 \<notin> set t" and "length t < 2 ^ 64"
  shows "frame_to_message True True (received mk BB_WS_TEXT t) = Some (Some (text_message t))"
proof -
  have "takeWhile (\<lambda>b. b \<noteq> 0) (t @ [0]) = t"
    using assms(1) by (simp add: takeWhile_append)
  moreover have "unat (of_nat (length t) :: u64) = length t" using assms(2) by (simp add: unat_of_nat)
  ultimately show ?thesis
    by (simp add: frame_to_message_def frame_message_type_def received_def ws_message_create_def text_message_def
        c_string_def)
qed

lemma handle_texts:
  assumes "ws_handler ws" and "\<forall>i. fe_message (fe i) \<and> fe_data (fe i)"
    and "\<forall>(mk, opc, t)\<in>set fs. opc = BB_WS_TEXT \<and> 0 \<notin> set t \<and> length t < 2 ^ 64"
  shows "\<exists>ws'. handle_frames fe (\<lambda>m w. w) i (all_received fs) ws = Some (Inr ws') \<and>
     ws_log ws' = ws_log ws @ map (\<lambda>(mk, opc, t). GotMessage (text_message t)) fs \<and>
     ws_async ws' = ws_async ws"
  using assms(1,3)
proof (induction fs arbitrary: ws i)
  case (Cons f fs)
  obtain mk opc t where f: "f = (mk, opc, t)" by (metis prod_cases3)
  have t: "opc = BB_WS_TEXT" "0 \<notin> set t" "length t < 2 ^ 64" using Cons.prems(2) by (auto simp: f)
  define ws1 where "ws1 = ws\<lparr>ws_waiting := False, ws_missed := 0, ws_log := ws_log ws @ [GotMessage (text_message t)]\<rparr>"
  have step: "handle_frame (fe i) (\<lambda>m w. w) (received mk opc t) ws = Some (Inr ws1)"
    using Cons.prems(1) assms(2) text_received [OF t(2,3), of mk]
    by (simp add: handle_frame_def t(1) received_def Let_def ws1_def)
  have "ws_handler ws1" "\<forall>(mk, opc, t)\<in>set fs. opc = BB_WS_TEXT \<and> 0 \<notin> set t \<and> length t < 2 ^ 64"
    using Cons.prems by (auto simp: ws1_def)
  from Cons.IH [OF this, of "i + 1"] obtain ws' where
    "handle_frames fe (\<lambda>m w. w) (i + 1) (all_received fs) ws1 = Some (Inr ws')"
    "ws_log ws' = ws_log ws1 @ map (\<lambda>(mk, opc, t). GotMessage (text_message t)) fs" "ws_async ws' = ws_async ws1"
    by blast
  with step show ?case by (simp add: all_received_def f ws1_def)
qed (simp add: all_received_def)

section \<open>Heartbeat\<close>

lemma queue_frame_node:
  "se_node se \<Longrightarrow> unat (fr_length f) = 0 \<Longrightarrow> \<exists>e c'. queue_frame se mode f c = Some (e, c')"
  by (cases "buffer_add (se_node se) (frame_bytes (if mode = BB_WEBSOCKET_CLIENT then se_random se else None)
        (fr_opcode f) (take (unat (fr_length f)) (case fr_payload f of None \<Rightarrow> [] | Some m \<Rightarrow> m))) c")
     (auto simp: queue_frame_def Let_def buffer_add_def split: if_splits)

lemma send_ping_frame:
  assumes "se_node se" and "ws_async ws = Some (Some c)"
  shows "\<exists>e c' out. send_ping se None 0 ws = Some (e, ws\<lparr>ws_async := Some (Some c'), ws_sent := ws_sent ws @ out\<rparr>)"
proof -
  obtain e c1 where q: "queue_ping se (ws_mode ws) None 0 c = Some (e, c1)"
    using queue_frame_node [OF assms(1), of "make_frame BB_WS_PING None 0" "ws_mode ws" c]
    by (auto simp: queue_ping_def queue_control_def make_frame_def zero_frame_def)
  have self: "ws\<lparr>ws_async := Some (Some c1)\<rparr> = ws\<lparr>ws_async := Some (Some c1), ws_sent := ws_sent ws @ []\<rparr>" by simp
  obtain e2 c2 out where w: "connection_write (se_writes se) c1 = (e2, c2, out)" by (metis prod_cases3)
  show ?thesis
  proof (cases "BB_FAILED e")
    case True
    then have "send_ping se None 0 ws = Some (e, ws\<lparr>ws_async := Some (Some c1)\<rparr>)"
      using q assms(2) by (auto simp: send_ping_def ws_send_def with_connection_def)
    with self show ?thesis by metis
  next
    case False
    with q w assms(2) show ?thesis
      by (cases "BB_FAILED e2") (auto simp: send_ping_def ws_send_def with_connection_def Let_def)
  qed
qed

fun heartbeat_ticks :: "send_env list \<Rightarrow> bb_websocket \<Rightarrow> bb_websocket option" where
  "heartbeat_ticks [] ws = Some ws"
| "heartbeat_ticks (se # ses) ws = Option.bind (heartbeat_tick se ws) (heartbeat_ticks ses)"

lemma heartbeat_ticks_append:
  "heartbeat_ticks (xs @ ys) ws = Option.bind (heartbeat_ticks xs ws) (heartbeat_ticks ys)"
  by (induction xs arbitrary: ws) (auto split: bind_splits)

text \<open>After \<open>n\<close> silent intervals the session waits, with \<open>n - 1\<close> intervals missed.\<close>

lemma heartbeat_waits:
  assumes "\<forall>se\<in>set ses. se_node se" and "ws_async ws = Some (Some c)"
    and "\<not> ws_waiting ws" and "ws_missed ws = 0" and "length ses \<le> unat (ws_max_missed ws)"
  shows "\<exists>ws' c'. heartbeat_ticks ses ws = Some ws' \<and> ws_async ws' = Some (Some c') \<and>
    ws_missed ws' = of_nat (length ses - 1) \<and> (ws_waiting ws' \<longleftrightarrow> ses \<noteq> []) \<and>
    ws_max_missed ws' = ws_max_missed ws \<and> ws_close_cb ws' = ws_close_cb ws \<and>
    ws_disconnected ws' = ws_disconnected ws \<and> ws_log ws' = ws_log ws"
  using assms(1,5)
proof (induction ses rule: rev_induct)
  case Nil
  with assms show ?case by simp
next
  case (snoc se ses)
  then obtain ws1 c1 where ws1: "heartbeat_ticks ses ws = Some ws1" "ws_async ws1 = Some (Some c1)"
    "ws_missed ws1 = of_nat (length ses - 1)" "ws_waiting ws1 \<longleftrightarrow> ses \<noteq> []"
    "ws_max_missed ws1 = ws_max_missed ws" "ws_close_cb ws1 = ws_close_cb ws"
    "ws_disconnected ws1 = ws_disconnected ws" "ws_log ws1 = ws_log ws"
    by auto
  define ws2 where "ws2 = (if ws_waiting ws1 then ws1\<lparr>ws_missed := ws_missed ws1 + 1\<rparr> else ws1)"
  have missed: "ws_missed ws2 = of_nat (length ses)"
    using ws1(3,4) by (cases ses) (simp_all add: ws2_def)
  have lt: "length ses < unat (ws_max_missed ws)" using snoc.prems(2) by simp
  then have "length ses < 2 ^ 32" using unsigned_less [of "ws_max_missed ws", where ?'a = nat] by simp
  then have "unat (ws_missed ws2) = length ses" by (simp add: missed unat_of_nat)
  then have "\<not> ws_missed ws2 \<ge> ws_max_missed ws2"
    using lt ws1(5) by (simp add: word_le_nat_alt ws2_def)
  then have tick: "heartbeat_tick se ws1 = map_option snd (send_ping se None 0 (ws2\<lparr>ws_waiting := True\<rparr>))"
    using ws1(2) by (auto simp: heartbeat_tick_def ws2_def Let_def)
  have a: "ws_async (ws2\<lparr>ws_waiting := True\<rparr>) = Some (Some c1)" using ws1(2) by (simp add: ws2_def)
  have "se_node se" using snoc.prems(1) by simp
  from send_ping_frame [OF this a] obtain e c' out where
    "send_ping se None 0 (ws2\<lparr>ws_waiting := True\<rparr>) =
     Some (e, ws2\<lparr>ws_waiting := True, ws_async := Some (Some c'), ws_sent := ws_sent ws2 @ out\<rparr>)" by auto
  with tick ws1 missed show ?case
    by (auto simp: heartbeat_ticks_append ws2_def split: if_splits)
qed

section \<open>Properties\<close>

text \<open>C28: Reading from a connection loses, duplicates and reorders nothing, whatever the pieces in which
  the peer's bytes arrive and wherever the read stops: the buffer followed by what the transport
  still holds is what it was before. The buffer is never overrun and never grows beyond 4 MiB.\<close>

theorem connection_read_keeps_bytes:
  assumes "conn_inv c"
  shows "\<exists>e c' es. connection_read grow hs evs c = Some (e, c', es) \<and> conn_inv c' \<and>
     cn_buffer c' @ sent_bytes es = cn_buffer c @ sent_bytes evs \<and>
     length (cn_buffer c') < cn_capacity c' \<and> cn_capacity c' \<le> BB_CONNECTION_MAX_BUFFER_SIZE"
proof -
  have inv: "conn_inv (c\<lparr>cn_state := s, cn_read_hint := h\<rparr>)" "conn_inv (c\<lparr>cn_read_hint := h\<rparr>)"
    "conn_inv (c\<lparr>cn_state := s\<rparr>)" for s h
    using assms by (simp_all add: conn_inv_def)
  have size: "conn_inv c' \<Longrightarrow> length (cn_buffer c') < cn_capacity c' \<and> cn_capacity c' \<le> BB_CONNECTION_MAX_BUFFER_SIZE" for c'
    by (simp add: conn_inv_def)
  have loop: "\<exists>e c' es. read_loop grow evs d = Some (e, c', es) \<and> conn_inv c' \<and>
      cn_buffer c' @ sent_bytes es = cn_buffer c @ sent_bytes evs" if "conn_inv d" "cn_buffer d = cn_buffer c" for d
    using read_loop_ok [OF that(1), of grow evs] that(2) by auto
  have "\<exists>e c' es. connection_read grow hs evs c = Some (e, c', es) \<and> conn_inv c' \<and>
     cn_buffer c' @ sent_bytes es = cn_buffer c @ sent_bytes evs"
    using assms inv loop [OF inv(1)] loop [OF inv(2)]
    by (cases hs) (auto simp: connection_read_def handshake_step_def)
  with size show ?thesis by blast
qed

theorem connection_read_keeps_bytes_witness:
  "\<exists>e c' es. connection_read (\<lambda>_. True) BB_TRANSPORT_OK [RdData [1, 2]] new_connection = Some (e, c', es) \<and>
     cn_buffer c' @ sent_bytes es = [1, 2]"
  using connection_read_keeps_bytes [OF new_connection_inv, of "\<lambda>_. True" BB_TRANSPORT_OK "[RdData [1, 2]]"]
  by (auto simp: new_connection_def)

text \<open>C27: Writing loses, duplicates and reorders nothing either: whatever the transport takes of each
  buffer and whenever it asks to wait or fails, the bytes it took followed by what the chain
  still holds are the bytes the chain held before.\<close>

theorem connection_write_keeps_bytes:
  "(case connection_write evs c of (e, c', out) \<Rightarrow> out @ pending c' = pending c \<and> cn_buffer c' = cn_buffer c)"
proof -
  obtain e c' out where w: "connection_write evs c = (e, c', out)" by (metis prod_cases3)
  show ?thesis
  proof (cases "cn_state c = BB_CONNECTION_CLOSED")
    case True
    with w show ?thesis by (auto simp: connection_write_def)
  next
    case False
    with w have "write_loop evs (c\<lparr>cn_write_hint := BB_CONN_IO_DEFAULT\<rparr>) [] = (e, c', out)"
      by (simp add: connection_write_def)
    from write_loop_pending [OF this] w show ?thesis by (simp add: pending_def)
  qed
qed

text \<open>C9: What one side queues is what the other side reads: from any sequence of frames followed by an
  unfinished one, the reader takes exactly the complete frames, in order, with their operation
  code and unmasked payload, and leaves the bytes of the unfinished one for the next read.\<close>

theorem frames_round_trip:
  assumes "keys_ok fs" and "key_ok mk" and "j < length (frame_bytes mk opcode payload)"
    and "length (wire fs @ frame_bytes mk opcode payload) < 2 ^ 64" and "fs \<noteq> []"
    and "cn_buffer c = wire fs @ take j (frame_bytes mk opcode payload)"
  shows "read_frames (\<lambda>_. True) c =
         Some (BB_SUCCESS, all_received fs, c\<lparr>cn_buffer := take j (frame_bytes mk opcode payload)\<rparr>)"
  using read_loop_frames [OF assms(1-4), of 0 True] assms(5,6)
  by (simp add: read_frames_def all_received_def)

definition w_frames :: "sent_frame list" where
  "w_frames = [(Some [1, 2, 3, 4], BB_WS_TEXT, [104, 105]), (None, BB_WS_PING, [])]"

theorem frames_round_trip_witness:
  "read_frames (\<lambda>_. True) (new_connection\<lparr>cn_buffer := wire w_frames @ take 1 (frame_bytes None BB_WS_PONG [])\<rparr>) =
   Some (BB_SUCCESS, all_received w_frames,
     new_connection\<lparr>cn_buffer := take 1 (frame_bytes None BB_WS_PONG [])\<rparr>)"
proof -
  have "keys_ok w_frames" "key_ok None" "(1::nat) < length (frame_bytes None BB_WS_PONG [])"
    "length (wire w_frames @ frame_bytes None BB_WS_PONG []) < 2 ^ 64" "w_frames \<noteq> []"
    by code_simp+
  from frames_round_trip [OF this, of "new_connection\<lparr>cn_buffer := wire w_frames @ take 1 (frame_bytes None BB_WS_PONG [])\<rparr>"]
  show ?thesis by simp
qed

text \<open>C23: Texts sent by a client session arrive at the server session: whatever the transport takes
  at each write, and whatever the masking keys, the bytes of the client's stream make the server's
  callback receive every text, each once and in the order sent.\<close>

theorem texts_arrive:
  assumes "ws_async cl = Some (Some c)" and "stream cl = []" and "ws_mode cl = BB_WEBSOCKET_CLIENT"
    and "ts \<noteq> []" and "\<forall>(se, t)\<in>set ts. send_ok se \<and> 0 \<notin> set t"
    and "sum_list (map (\<lambda>(se, t). length t + 14) ts) + 2 < 2 ^ 64"
    and "ws_handler sv" and "\<forall>i. fe_message (fe i) \<and> fe_data (fe i)" and "cn_write d = []"
  shows "\<exists>cl' sv'. send_texts ts cl = Some cl' \<and>
    websocket_read_step (\<lambda>_. True) fe (\<lambda>m w. w) True
      (sv\<lparr>ws_async := Some (Some (d\<lparr>cn_buffer := stream cl'\<rparr>))\<rparr>) = Some ((BB_READ_MORE, BB_SUCCESS), sv') \<and>
    ws_log sv' = ws_log sv @ map (\<lambda>(se, t). GotMessage (text_message t)) ts"
proof -
  define fs where "fs = map (\<lambda>(se, t). (mask_key se (ws_mode cl), BB_WS_TEXT, t)) ts"
  have one: "length t + 14 \<le> sum_list (map (\<lambda>(se, t). length t + 14) ts)" if "(se, t) \<in> set ts" for se t
    using member_le_sum_list [of "length t + 14" "map (\<lambda>(se, t). length t + 14) ts"] that by force
  have len: "length t < 2 ^ 64" "length t + 1 < 2 ^ 64" if "(se, t) \<in> set ts" for se t
    using one [OF that] assms(6) by simp_all
  have "\<forall>(se, t)\<in>set ts. send_ok se \<and> length t + 1 < 2 ^ 64" using assms(5) len(2) by auto
  from send_texts_stream [OF assms(1) this] obtain cl' where
    cl': "send_texts ts cl = Some cl'" "stream cl' = wire fs" by (auto simp: assms(2) fs_def)
  have keys: "keys_ok fs" using assms(5) mask_key_ok by (auto simp: keys_ok_def fs_def list_all_iff)
  have "length (frame_bytes mk BB_WS_TEXT t) \<le> length t + 14" if "key_ok mk" for mk t
    using frame_bytes_size [OF that, of BB_WS_TEXT t] header_size_le(2) [of "of_nat (length t)"] by (auto split: option.splits)
  then have "length (wire fs) \<le> sum_list (map (\<lambda>(se, t). length t + 14) ts)"
    using assms(5) mask_key_ok unfolding wire_def fs_def length_concat map_map
    by (intro sum_list_mono) (auto simp: o_def)
  then have size: "length (wire fs @ frame_bytes None BB_WS_PONG []) < 2 ^ 64"
    using assms(6) by (simp add: frame_bytes_def length_bytes_def)
  have ne: "fs \<noteq> []" using assms(4) by (simp add: fs_def)
  have rd: "read_frames (\<lambda>_. True) (d\<lparr>cn_buffer := wire fs\<rparr>) = Some (BB_SUCCESS, all_received fs, d\<lparr>cn_buffer := []\<rparr>)"
    using read_loop_frames [OF keys, of None 0 BB_WS_PONG "[]" 0 True] size ne
    by (simp add: read_frames_def all_received_def key_ok_def frame_bytes_def)
  have texts: "\<forall>(mk, opc, t)\<in>set fs. opc = BB_WS_TEXT \<and> 0 \<notin> set t \<and> length t < 2 ^ 64"
    using assms(5) len(1) by (auto simp: fs_def)
  have "ws_handler (sv\<lparr>ws_async := Some (Some (d\<lparr>cn_buffer := []\<rparr>))\<rparr>)" using assms(7) by simp
  from handle_texts [OF this assms(8) texts, of 0] obtain sv' where
    sv': "handle_frames fe (\<lambda>m w. w) 0 (all_received fs) (sv\<lparr>ws_async := Some (Some (d\<lparr>cn_buffer := []\<rparr>))\<rparr>) = Some (Inr sv')"
    "ws_log sv' = ws_log sv @ map (\<lambda>(mk, opc, t). GotMessage (text_message t)) fs"
    "ws_async sv' = Some (Some (d\<lparr>cn_buffer := []\<rparr>))" by auto
  have "websocket_read_step (\<lambda>_. True) fe (\<lambda>m w. w) True
      (sv\<lparr>ws_async := Some (Some (d\<lparr>cn_buffer := stream cl'\<rparr>))\<rparr>) = Some ((BB_READ_MORE, BB_SUCCESS), sv')"
    using rd sv'(1,3) assms(9)
    by (simp add: websocket_read_step_def cl'(2) BB_SUCCESS_def BB_FAILED_def)
  moreover have "map (\<lambda>(mk, opc, t). GotMessage (text_message t)) fs = map (\<lambda>(se, t). GotMessage (text_message t)) ts"
    by (simp add: fs_def o_def case_prod_unfold)
  ultimately show ?thesis using cl'(1) sv'(2) by auto
qed

definition w_env :: send_env where
  "w_env = \<lparr>se_alloc = True, se_random = Some [1, 2, 3, 4], se_node = True, se_writes = []\<rparr>"

definition w_frame_env :: "nat \<Rightarrow> frame_env" where
  "w_frame_env i = \<lparr>fe_send = w_env, fe_message = True, fe_data = True\<rparr>"

definition w_client :: bb_websocket where
  "w_client = new_websocket BB_WEBSOCKET_CLIENT (Some (Some new_connection))"

definition w_server :: bb_websocket where
  "w_server = (new_websocket BB_WEBSOCKET_SERVER (Some (Some new_connection)))\<lparr>ws_handler := True\<rparr>"

theorem texts_arrive_witness:
  "\<exists>cl' sv'. send_texts [(w_env, [104, 105]), (w_env, [])] w_client = Some cl' \<and>
    websocket_read_step (\<lambda>_. True) w_frame_env (\<lambda>m w. w) True
      (w_server\<lparr>ws_async := Some (Some (new_connection\<lparr>cn_buffer := stream cl'\<rparr>))\<rparr>) =
      Some ((BB_READ_MORE, BB_SUCCESS), sv') \<and>
    ws_log sv' = ws_log w_server @
      map (\<lambda>(se, t). GotMessage (text_message t)) [(w_env, [104, 105]), (w_env, [])]"
proof (rule texts_arrive)
  show "ws_async w_client = Some (Some new_connection)" "stream w_client = []"
    "ws_mode w_client = BB_WEBSOCKET_CLIENT" "ws_handler w_server" "cn_write new_connection = []"
    by code_simp+
  show "\<forall>i. fe_message (w_frame_env i) \<and> fe_data (w_frame_env i)" by (simp add: w_frame_env_def)
  show "\<forall>(se, t)\<in>set [(w_env, [104 :: u8, 105]), (w_env, [])]. send_ok se \<and> 0 \<notin> set t"
    by (simp add: send_ok_def w_env_def)
qed simp_all

text \<open>A ping is answered: reading a frame with a ping, a session of either mode appends to its stream
  exactly the pong frame with the same payload, forgets its missed heartbeats and goes on reading.\<close>

theorem ping_is_answered:
  assumes "ws_async ws = Some (Some d)" and "send_ok (fe_send (fe 0))" and "key_ok mk"
    and "length p + 16 < 2 ^ 64"
  shows "\<exists>ws' d'. websocket_read_step (\<lambda>_. True) fe handler True
      (ws\<lparr>ws_async := Some (Some (d\<lparr>cn_buffer := frame_bytes mk BB_WS_PING p\<rparr>))\<rparr>) =
      Some ((BB_READ_MORE, BB_SUCCESS), ws') \<and>
    stream ws' = stream ws @ frame_bytes (mask_key (fe_send (fe 0)) (ws_mode ws)) BB_WS_PONG p \<and>
    ws_async ws' = Some (Some d') \<and> \<not> ws_waiting ws' \<and> ws_missed ws' = 0 \<and> ws_log ws' = ws_log ws"
proof -
  define fs where "fs = [(mk, BB_WS_PING, p)]"
  define d1 where "d1 = d\<lparr>cn_buffer := []\<rparr>"
  define ws1 where "ws1 = ws\<lparr>ws_async := Some (Some d1), ws_waiting := False, ws_missed := 0\<rparr>"
  have "length (frame_bytes mk BB_WS_PING p) \<le> length p + 14"
    using frame_bytes_size [OF assms(3), of BB_WS_PING p] header_size_le(2) [of "of_nat (length p)"] by (auto split: option.splits)
  then have size: "length (wire fs @ frame_bytes None BB_WS_PONG []) < 2 ^ 64"
    using assms(4) by (simp add: fs_def wire_def frame_bytes_def length_bytes_def)
  have rd: "read_frames (\<lambda>_. True) (d\<lparr>cn_buffer := frame_bytes mk BB_WS_PING p\<rparr>) =
      Some (BB_SUCCESS, [received mk BB_WS_PING p], d1)"
    using read_loop_frames [of fs None 0 BB_WS_PONG "[]" 0 True] size assms(3)
    by (simp add: read_frames_def all_received_def key_ok_def frame_bytes_def fs_def keys_ok_def wire_def d1_def)
  have u: "unat (of_nat (length p) :: u64) = length p" using assms(4) by (simp add: unat_of_nat)
  have op: "BB_WS_PING AND 0x0F = BB_WS_PING" "BB_WS_PING \<noteq> BB_WS_TEXT" "BB_WS_PING \<noteq> BB_WS_BINARY"
    by (simp_all add: BB_WS_PING_def BB_WS_TEXT_def BB_WS_BINARY_def)
  have "send_pong se (Some (p @ [0])) (length p) w =
      ws_send se (\<lambda>mode. queue_frame se mode (make_frame BB_WS_PONG (Some (p @ [0])) (length p))) w" for se w
    by (simp add: send_pong_def queue_pong_def [abs_def] queue_control_def)
  moreover have "length (p @ [0]) < 2 ^ 64" "length p \<le> length (p @ [0 :: u8])" using assms(4) by simp_all
  moreover have "ws_async ws1 = Some (Some d1)" by (simp add: ws1_def)
  ultimately obtain e ws2 c' out where
    s: "send_pong (fe_send (fe 0)) (Some (p @ [0])) (length p) ws1 = Some (e, ws2)"
    "stream ws2 = stream ws1 @ frame_bytes (mask_key (fe_send (fe 0)) (ws_mode ws1)) BB_WS_PONG p"
    "ws2 = ws1\<lparr>ws_async := Some (Some c'), ws_sent := ws_sent ws1 @ out\<rparr>"
    using send_frame_stream [OF assms(2), of "p @ [0]" "length p" ws1 d1 BB_WS_PONG] by force
  have st1: "stream ws1 = stream ws" "ws_mode ws1 = ws_mode ws"
    using assms(1) by (simp_all add: ws1_def d1_def stream_def pending_def)
  have h: "handle_frames fe handler 0 [received mk BB_WS_PING p] (ws\<lparr>ws_async := Some (Some d1)\<rparr>) = Some (Inr ws2)"
    using s(1) by (simp add: handle_frame_def received_def op u Let_def ws1_def)
  have wt: "create_write_task True c' = (BB_SUCCESS, c'\<lparr>cn_write_pending := True\<rparr>)"
    by (cases "cn_write_pending c'") (simp_all add: create_write_task_def)
  show ?thesis
  proof (cases "cn_write c' = []")
    case True
    with h s(3) have "websocket_read_step (\<lambda>_. True) fe handler True
      (ws\<lparr>ws_async := Some (Some (d\<lparr>cn_buffer := frame_bytes mk BB_WS_PING p\<rparr>))\<rparr>) = Some ((BB_READ_MORE, BB_SUCCESS), ws2)"
      by (simp add: websocket_read_step_def rd BB_SUCCESS_def BB_FAILED_def)
    with s(2,3) st1 show ?thesis by (simp add: ws1_def)
  next
    case False
    define ws3 where "ws3 = ws2\<lparr>ws_async := Some (Some (c'\<lparr>cn_write_pending := True\<rparr>))\<rparr>"
    have "websocket_read_step (\<lambda>_. True) fe handler True
      (ws\<lparr>ws_async := Some (Some (d\<lparr>cn_buffer := frame_bytes mk BB_WS_PING p\<rparr>))\<rparr>) = Some ((BB_READ_MORE, BB_SUCCESS), ws3)"
      using False h s(3) wt by (simp add: websocket_read_step_def rd BB_SUCCESS_def BB_FAILED_def ws3_def)
    moreover have "stream ws3 = stream ws2" using s(3) by (simp add: ws3_def stream_def pending_def)
    ultimately show ?thesis using s(2,3) st1 by (simp add: ws3_def ws1_def)
  qed
qed

theorem ping_is_answered_witness:
  "\<exists>ws' d'. websocket_read_step (\<lambda>_. True) w_frame_env (\<lambda>m w. w) True
      (w_server\<lparr>ws_async := Some (Some (new_connection\<lparr>cn_buffer := frame_bytes (Some [1, 2, 3, 4]) BB_WS_PING [7]\<rparr>))\<rparr>) =
      Some ((BB_READ_MORE, BB_SUCCESS), ws') \<and>
    stream ws' = stream w_server @ frame_bytes (mask_key (fe_send (w_frame_env 0)) (ws_mode w_server)) BB_WS_PONG [7] \<and>
    ws_async ws' = Some (Some d') \<and> \<not> ws_waiting ws' \<and> ws_missed ws' = 0 \<and> ws_log ws' = ws_log w_server"
  by (rule ping_is_answered)
     (simp_all add: w_server_def new_websocket_def send_ok_def w_frame_env_def w_env_def key_ok_def)

text \<open>A silent peer is dropped in time: with a limit of \<open>n\<close> missed heartbeats, the session is still
  connected after each of the first \<open>n\<close> intervals without a frame, and closed by the next one,
  with the close callback called exactly once. Pings may fail to be sent; only their chain nodes
  are assumed to be allocated.\<close>

theorem heartbeat_closes_silent_peer:
  assumes "ws_async ws = Some (Some c)" and "\<not> ws_waiting ws" and "ws_missed ws = 0"
    and "ws_max_missed ws > 0" and "ws_close_cb ws" and "\<not> ws_disconnected ws"
    and "\<forall>se\<in>set ses. se_node se" and "length ses = unat (ws_max_missed ws) + 1"
  shows "(\<forall>k\<le>unat (ws_max_missed ws). \<exists>ws' c'. heartbeat_ticks (take k ses) ws = Some ws' \<and>
            ws_async ws' = Some (Some c') \<and> ws_log ws' = ws_log ws) \<and>
    (\<exists>ws'. heartbeat_ticks ses ws = Some ws' \<and> ws_async ws' = Some None \<and> ws_disconnected ws' \<and>
       ws_log ws' = ws_log ws @ [GotClose])"
proof (rule conjI; (intro allI impI)?)
  fix k assume k: "k \<le> unat (ws_max_missed ws)"
  have "\<forall>se\<in>set (take k ses). se_node se" using assms(7) by (auto dest: in_set_takeD)
  moreover have "length (take k ses) \<le> unat (ws_max_missed ws)" using k by simp
  ultimately show "\<exists>ws' c'. heartbeat_ticks (take k ses) ws = Some ws' \<and> ws_async ws' = Some (Some c') \<and> ws_log ws' = ws_log ws"
    using heartbeat_waits [OF _ assms(1-3)] by blast
next
  obtain pre se where ses: "ses = pre @ [se]" using assms(8) by (cases ses rule: rev_cases) auto
  have "\<forall>se\<in>set pre. se_node se" "length pre \<le> unat (ws_max_missed ws)" using assms(7,8) ses by auto
  from heartbeat_waits [OF this(1) assms(1-3) this(2)] obtain w1 c1 where
    w1: "heartbeat_ticks pre ws = Some w1" "ws_async w1 = Some (Some c1)"
    "ws_missed w1 = of_nat (length pre - 1)" "ws_waiting w1 \<longleftrightarrow> pre \<noteq> []" "ws_max_missed w1 = ws_max_missed ws"
    "ws_close_cb w1 = ws_close_cb ws" "ws_disconnected w1 = ws_disconnected ws" "ws_log w1 = ws_log ws" by auto
  have n: "length pre = unat (ws_max_missed ws)" using assms(8) ses by simp
  have pre: "pre \<noteq> []" using n assms(4) by (auto simp: word_less_nat_alt)
  have "of_nat (length pre) = ws_max_missed ws" by (simp add: n)
  then have "ws_missed w1 + 1 = ws_max_missed ws"
    using w1(3) pre by (cases pre) (simp_all add: add.commute)
  then have "heartbeat_tick se w1 = Some (async_close (w1\<lparr>ws_missed := ws_missed w1 + 1\<rparr>))"
    using w1 pre by (simp add: heartbeat_tick_def)
  then show "\<exists>ws'. heartbeat_ticks ses ws = Some ws' \<and> ws_async ws' = Some None \<and> ws_disconnected ws' \<and>
       ws_log ws' = ws_log ws @ [GotClose]"
    using w1 assms(5,6) by (simp add: ses heartbeat_ticks_append async_close_def handle_disconnect_def)
qed

definition w_beating :: bb_websocket where
  "w_beating = set_heartbeat True 1000 2 (w_server\<lparr>ws_close_cb := True\<rparr>)"

theorem heartbeat_closes_silent_peer_witness:
  "(\<exists>ws' c'. heartbeat_ticks [w_env, w_env] w_beating = Some ws' \<and>
      ws_async ws' = Some (Some c') \<and> ws_log ws' = ws_log w_beating) \<and>
    (\<exists>ws'. heartbeat_ticks [w_env, w_env, w_env] w_beating = Some ws' \<and> ws_async ws' = Some None \<and>
       ws_disconnected ws' \<and> ws_log ws' = ws_log w_beating @ [GotClose])"
proof -
  have two: "unat (ws_max_missed w_beating) = 2"
    by (simp add: w_beating_def w_server_def new_websocket_def set_heartbeat_def)
  have "ws_async w_beating = Some (Some new_connection)" "\<not> ws_waiting w_beating" "ws_missed w_beating = 0"
    "ws_max_missed w_beating > 0" "ws_close_cb w_beating" "\<not> ws_disconnected w_beating"
    by (simp_all add: w_beating_def w_server_def new_websocket_def set_heartbeat_def)
  from heartbeat_closes_silent_peer [OF this, of "[w_env, w_env, w_env]"] two show ?thesis
    by (auto simp: w_env_def numeral_eq_Suc)
qed

text \<open>Reading frames stays inside the buffer, for any bytes and any failing allocation, as long as no
  header in them announces a payload within 14 bytes of \<open>2 ^ 64\<close>.\<close>

theorem read_frames_overruns_only_for_huge_lengths:
  assumes "length (cn_buffer c) < 2 ^ 64" and "\<forall>i. announced (drop i (cn_buffer c)) + 14 < 2 ^ 64"
  shows "\<exists>err fs c'. read_frames mem c = Some (err, fs, c') \<and>
    (err = BB_SUCCESS \<longrightarrow> fs \<noteq> []) \<and> (err \<noteq> BB_SUCCESS \<longrightarrow> fs = [] \<and> c' = c)"
proof -
  have "read_frames_loop mem 0 True (cn_buffer c) \<noteq> None"
    using read_loop_overrun [of mem 0 True "cn_buffer c", OF _ assms(1)] assms(2) by (auto simp: not_less [symmetric])
  then show ?thesis by (auto simp: read_frames_def BB_SUCCESS_def split: sum.splits)
qed

theorem read_frames_overruns_only_for_huge_lengths_witness:
  "\<exists>err fs c'. read_frames (\<lambda>_. True) (new_connection\<lparr>cn_buffer := [0x82, 0x00]\<rparr>) = Some (err, fs, c') \<and>
    (err = BB_SUCCESS \<longrightarrow> fs \<noteq> []) \<and> (err \<noteq> BB_SUCCESS \<longrightarrow> fs = [] \<and> c' = new_connection\<lparr>cn_buffer := [0x82, 0x00]\<rparr>)"
proof (rule read_frames_overruns_only_for_huge_lengths)
  have "announced (drop i (cn_buffer (new_connection\<lparr>cn_buffer := [0x82, 0x00]\<rparr>))) = 0" for i
    by (cases "i = 0") (auto simp: announced_def length_fields_def)
  then show "\<forall>i. announced (drop i (cn_buffer (new_connection\<lparr>cn_buffer := [0x82, 0x00]\<rparr>))) + 14 < 2 ^ 64"
    by simp
qed simp

text \<open>The bytes of one frame header that announce \<open>2 ^ 64 - 1\<close> payload bytes make the reader copy from
  beyond the buffer: the sum of offset and length wraps around and passes the test.\<close>

theorem huge_length_is_read_beyond_the_buffer:
  "read_frames (\<lambda>_. True) (new_connection\<lparr>cn_buffer := [0x82, 0x7F] @ replicate 8 0xFF\<rparr>) = None"
proof -
  have eight: "replicate 8 (0xFF :: u8) = [0xFF, 0xFF, 0xFF, 0xFF, 0xFF, 0xFF, 0xFF, 0xFF]" by code_simp
  have "be64 [0xFF, 0xFF, 0xFF, 0xFF, 0xFF, 0xFF, 0xFF, 0xFF] = 0xFFFFFFFFFFFFFFFF" by (simp add: be64_def)
  then have "length_fields ([0x82, 0x7F] @ replicate 8 0xFF) = Some (0xFFFFFFFFFFFFFFFF, 10)"
    unfolding eight by (simp add: length_fields_def)
  then have "read_one True ([0x82, 0x7F] @ replicate 8 0xFF) = Overrun"
    by (simp add: read_one_def)
  then show ?thesis
    by (simp add: read_frames_def read_frames_loop.simps [of _ _ _ "0x82 # 0x7F # replicate 8 0xFF"])
qed

text \<open>When the chain node of an outgoing frame cannot be allocated, the frame's buffer is freed twice,
  for every session and every frame with a payload of the announced length.\<close>

theorem queue_frame_frees_twice:
  "queue_frame (w_env\<lparr>se_node := False\<rparr>) mode (make_frame opcode None 0) c = None"
  by (auto simp: queue_frame_def w_env_def make_frame_def zero_frame_def buffer_add_def frame_bytes_def)

text \<open>A text message in two fragments is delivered cut: the callback gets the first fragment as a
  whole message and the continuation is dropped; a text with a zero byte is delivered with a
  length beyond its data.\<close>

theorem fragments_and_zero_bytes_are_mishandled:
  "handle_frames w_frame_env (\<lambda>m w. w) 0
     [(received None BB_WS_TEXT [104])\<lparr>fr_fin := 0\<rparr>, received None BB_WS_CONTINUATION [105]] w_server =
   Some (Inr (w_server\<lparr>ws_log := [GotMessage (text_message [104])]\<rparr>)) \<and>
   frame_to_message True True (received None BB_WS_TEXT [104, 0, 105]) =
     Some (Some \<lparr>wm_type = BB_WS_MESSAGE_TEXT, wm_data = Some [104, 0], wm_length = 3\<rparr>)"
  by (intro conjI; code_simp)

end
