(* ===== verification/Hash.thy ===== *)
theory Hash
  imports BB_Prelude "HOL-Library.Code_Target_Nat"
begin

text \<open>
  Base64, SHA-1, SHA-256 and HMAC-SHA-256 (\<open>modules/utils/src/encoding.c\<close>, \<open>hash.c\<close>). Words wrap
  around as in the code. The buffer of a streaming context is the list of its valid bytes. A
  data pointer comes with its length, so data are lists.
\<close>

unbundle bit_operations_syntax

section \<open>Base64\<close>

definition BB_BASE64_TABLE :: string where
  "BB_BASE64_TABLE = ''ABCDEFGHIJKLMNOPQRSTUVWXYZ'' @ ''abcdefghijklmnopqrstuvwxyz'' @ ''0123456789+/''"

definition base64_quad :: "u8 \<Rightarrow> u8 \<Rightarrow> u8 \<Rightarrow> string" where
  "base64_quad a b c =
     (let triple = (push_bit 16 (ucast a) OR push_bit 8 (ucast b) OR ucast c :: u32)
      in map (\<lambda>k. BB_BASE64_TABLE ! unat (drop_bit k triple AND 0x3F)) [18, 12, 6, 0])"

fun base64_groups :: "u8 list \<Rightarrow> string" where
  "base64_groups [] = []"
| "base64_groups [a] = base64_quad a 0 0"
| "base64_groups [a, b] = base64_quad a b 0"
| "base64_groups (a # b # c # rest) = base64_quad a b c @ base64_groups rest"

definition bb_base64_encode :: "bool \<Rightarrow> u8 list \<Rightarrow> string option" where
  "bb_base64_encode ok data =
     (if \<not> ok then None
      else let output_length = 4 * ((length data + 2) div 3);
               pads = [0, 2, 1] ! (length data mod 3)
           in Some (foldl (\<lambda>out k. out[output_length - 1 - k := CHR ''='']) (base64_groups data) [0..<pads]))"

section \<open>SHA-1\<close>

definition rotl32 :: "u32 \<Rightarrow> nat \<Rightarrow> u32" where
  "rotl32 v bits = push_bit bits v OR drop_bit (32 - bits) v"

definition word_at :: "u8 list \<Rightarrow> nat \<Rightarrow> u32" where
  "word_at b j = push_bit 24 (ucast (b ! j)) OR push_bit 16 (ucast (b ! (j + 1))) OR
                 push_bit 8 (ucast (b ! (j + 2))) OR ucast (b ! (j + 3))"

definition word_bytes :: "u32 \<Rightarrow> u8 list" where
  "word_bytes w = map (\<lambda>k. ucast (drop_bit k w AND 0xFF)) [24, 16, 8, 0]"

definition length_bytes64 :: "u64 \<Rightarrow> u8 list" where
  "length_bytes64 n = map (\<lambda>i. ucast (drop_bit (8 * (7 - i)) n)) [0..<8]"

lemma distance_56:
  assumes "m < (64 :: nat)"
  shows "(120 - m) mod 64 = (if m \<le> 56 then 56 - m else 120 - m)"
proof (cases "m \<le> 56")
  case True
  then have "120 - m = (56 - m) + 64" by simp
  then have "(120 - m) mod 64 = (56 - m) mod 64" by (simp only: mod_add_self2)
  with True show ?thesis by simp
qed (use assms in simp)

function grow_to_56 :: "nat \<Rightarrow> nat" where
  "grow_to_56 n = (if n mod 64 \<noteq> 56 then grow_to_56 (n + 1) else n)"
  by pat_completeness auto
termination
proof (relation "measure (\<lambda>n. (120 - n mod 64) mod 64)", goal_cases)
  case (2 n)
  define k k' where "k = n mod 64" and "k' = (n + 1) mod 64"
  have "k < 64" "k \<noteq> 56" "k' = (if k = 63 then 0 else k + 1)"
    using 2 by (simp_all add: k_def k'_def mod_Suc)
  then have "(120 - k') mod 64 < (120 - k) mod 64" by (auto simp: distance_56)
  then show ?case by (simp add: k_def k'_def)
qed simp

declare grow_to_56.simps [simp del]

definition sha1_padded :: "u8 list \<Rightarrow> u8 list" where
  "sha1_padded msg =
     (let bit_length = (of_nat (length msg) * 8 :: u64);
          padded_length = grow_to_56 (length msg + 1) + 8
      in msg @ [0x80] @ replicate (padded_length - 8 - (length msg + 1)) 0 @ length_bytes64 bit_length)"

definition sha1_schedule :: "u8 list \<Rightarrow> u32 list" where
  "sha1_schedule block =
     foldl (\<lambda>w i. w @ [rotl32 (w ! (i - 3) XOR w ! (i - 8) XOR w ! (i - 14) XOR w ! (i - 16)) 1])
       (map (\<lambda>i. word_at block (i * 4)) [0..<16]) [16..<80]"

type_synonym sha1_state = "u32 \<times> u32 \<times> u32 \<times> u32 \<times> u32"

definition sha1_round :: "u32 list \<Rightarrow> sha1_state \<Rightarrow> nat \<Rightarrow> sha1_state" where
  "sha1_round w s i =
     (case s of (a, b, c, d, e) \<Rightarrow>
        let (f, k) =
              (if i < 20 then ((b AND c) OR (NOT b AND d), 0x5A827999)
               else if i < 40 then (b XOR c XOR d, 0x6ED9EBA1)
               else if i < 60 then ((b AND c) OR (b AND d) OR (c AND d), 0x8F1BBCDC)
               else (b XOR c XOR d, 0xCA62C1D6));
            temp = rotl32 a 5 + f + e + k + w ! i
        in (temp, a, rotl32 b 30, c, d))"

definition sha1_chunk :: "u8 list \<Rightarrow> sha1_state \<Rightarrow> sha1_state" where
  "sha1_chunk block h =
     (case (h, foldl (sha1_round (sha1_schedule block)) h [0..<80]) of
        ((h0, h1, h2, h3, h4), (a, b, c, d, e)) \<Rightarrow> (h0 + a, h1 + b, h2 + c, h3 + d, h4 + e))"

function sha1_chunks :: "u8 list \<Rightarrow> sha1_state \<Rightarrow> sha1_state" where
  "sha1_chunks buffer h =
     (if buffer = [] then h else sha1_chunks (drop 64 buffer) (sha1_chunk (take 64 buffer) h))"
  by pat_completeness auto
termination by (relation "measure (\<lambda>(b, h). length b)") auto

declare sha1_chunks.simps [simp del]

definition bb_sha1 :: "bool \<Rightarrow> u8 list \<Rightarrow> u8 list" where
  "bb_sha1 ok msg =
     (if \<not> ok then replicate 20 0
      else case sha1_chunks (sha1_padded msg)
                  (0x67452301, 0xEFCDAB89, 0x98BADCFE, 0x10325476, 0xC3D2E1F0) of
             (h0, h1, h2, h3, h4) \<Rightarrow> concat (map word_bytes [h0, h1, h2, h3, h4]))"

section \<open>SHA-256\<close>

definition sha256_k :: "u32 list" where
  "sha256_k = concat
    [[0x428a2f98, 0x71374491, 0xb5c0fbcf, 0xe9b5dba5],
     [0x3956c25b, 0x59f111f1, 0x923f82a4, 0xab1c5ed5],
     [0xd807aa98, 0x12835b01, 0x243185be, 0x550c7dc3],
     [0x72be5d74, 0x80deb1fe, 0x9bdc06a7, 0xc19bf174],
     [0xe49b69c1, 0xefbe4786, 0x0fc19dc6, 0x240ca1cc],
     [0x2de92c6f, 0x4a7484aa, 0x5cb0a9dc, 0x76f988da],
     [0x983e5152, 0xa831c66d, 0xb00327c8, 0xbf597fc7],
     [0xc6e00bf3, 0xd5a79147, 0x06ca6351, 0x14292967],
     [0x27b70a85, 0x2e1b2138, 0x4d2c6dfc, 0x53380d13],
     [0x650a7354, 0x766a0abb, 0x81c2c92e, 0x92722c85],
     [0xa2bfe8a1, 0xa81a664b, 0xc24b8b70, 0xc76c51a3],
     [0xd192e819, 0xd6990624, 0xf40e3585, 0x106aa070],
     [0x19a4c116, 0x1e376c08, 0x2748774c, 0x34b0bcb5],
     [0x391c0cb3, 0x4ed8aa4a, 0x5b9cca4f, 0x682e6ff3],
     [0x748f82ee, 0x78a5636f, 0x84c87814, 0x8cc70208],
     [0x90befffa, 0xa4506ceb, 0xbef9a3f7, 0xc67178f2]]"

definition rotr32 :: "u32 \<Rightarrow> nat \<Rightarrow> u32" where
  "rotr32 v bits = drop_bit bits v OR push_bit (32 - bits) v"

definition sha256_schedule :: "u8 list \<Rightarrow> u32 list" where
  "sha256_schedule block =
     foldl (\<lambda>w i.
         let s0 = rotr32 (w ! (i - 15)) 7 XOR rotr32 (w ! (i - 15)) 18 XOR drop_bit 3 (w ! (i - 15));
             s1 = rotr32 (w ! (i - 2)) 17 XOR rotr32 (w ! (i - 2)) 19 XOR drop_bit 10 (w ! (i - 2))
         in w @ [w ! (i - 16) + s0 + w ! (i - 7) + s1])
       (map (\<lambda>i. word_at block (i * 4)) [0..<16]) [16..<64]"

type_synonym sha256_state = "u32 \<times> u32 \<times> u32 \<times> u32 \<times> u32 \<times> u32 \<times> u32 \<times> u32"

definition sha256_round :: "u32 list \<Rightarrow> sha256_state \<Rightarrow> nat \<Rightarrow> sha256_state" where
  "sha256_round w s i =
     (case s of (a, b, c, d, e, f, g, h) \<Rightarrow>
        let s1 = rotr32 e 6 XOR rotr32 e 11 XOR rotr32 e 25;
            ch = (e AND f) XOR (NOT e AND g);
            temp1 = h + s1 + ch + sha256_k ! i + w ! i;
            s0 = rotr32 a 2 XOR rotr32 a 13 XOR rotr32 a 22;
            maj = (a AND b) XOR (a AND c) XOR (b AND c);
            temp2 = s0 + maj
        in (temp1 + temp2, a, b, c, d + temp1, e, f, g))"

definition sha256_compress :: "sha256_state \<Rightarrow> u8 list \<Rightarrow> sha256_state" where
  "sha256_compress s block =
     (case (s, foldl (sha256_round (sha256_schedule block)) s [0..<64]) of
        ((s0, s1, s2, s3, s4, s5, s6, s7), (a, b, c, d, e, f, g, h)) \<Rightarrow>
          (s0 + a, s1 + b, s2 + c, s3 + d, s4 + e, s5 + f, s6 + g, s7 + h))"

record sha256_ctx =
  sc_state :: sha256_state
  sc_bit_length :: u64
  sc_buffer :: "u8 list"

definition BB_SHA256_BLOCK_SIZE :: nat where "BB_SHA256_BLOCK_SIZE = 64"

definition sha256_init :: sha256_ctx where
  "sha256_init =
     \<lparr>sc_state = (0x6a09e667, 0xbb67ae85, 0x3c6ef372, 0xa54ff53a,
                  0x510e527f, 0x9b05688c, 0x1f83d9ab, 0x5be0cd19),
      sc_bit_length = 0, sc_buffer = []\<rparr>"

function full_blocks :: "sha256_state \<Rightarrow> u8 list \<Rightarrow> sha256_state \<times> u8 list" where
  "full_blocks s data =
     (if length data \<ge> 64 then full_blocks (sha256_compress s (take 64 data)) (drop 64 data) else (s, data))"
  by pat_completeness auto
termination by (relation "measure (\<lambda>(s, d). length d)") auto

declare full_blocks.simps [simp del]

definition sha256_update :: "u8 list \<Rightarrow> sha256_ctx \<Rightarrow> sha256_ctx" where
  "sha256_update data ctx =
     (let ctx = ctx\<lparr>sc_bit_length := sc_bit_length ctx + of_nat (length data) * 8\<rparr>;
          (ctx, data) =
            (if sc_buffer ctx \<noteq> []
             then let needed = BB_SHA256_BLOCK_SIZE - length (sc_buffer ctx);
                      n = (if length data < needed then length data else needed);
                      ctx = ctx\<lparr>sc_buffer := sc_buffer ctx @ take n data\<rparr>;
                      ctx = (if length (sc_buffer ctx) = BB_SHA256_BLOCK_SIZE
                             then ctx\<lparr>sc_state := sha256_compress (sc_state ctx) (sc_buffer ctx), sc_buffer := []\<rparr>
                             else ctx)
                  in (ctx, drop n data)
             else (ctx, data));
          (s, data) = full_blocks (sc_state ctx) data;
          ctx = ctx\<lparr>sc_state := s\<rparr>
      in if data \<noteq> [] then ctx\<lparr>sc_buffer := data\<rparr> else ctx)"

text \<open>
  The padding loop of \<open>bb_sha256_final\<close>. It ends from any buffer below the block size; on another
  one, which no context has, the model stops.
\<close>

function pad_zeros :: "sha256_ctx \<Rightarrow> sha256_ctx" where
  "pad_zeros ctx =
     (if length (sc_buffer ctx) = BB_SHA256_BLOCK_SIZE - 8 \<or> length (sc_buffer ctx) \<ge> BB_SHA256_BLOCK_SIZE then ctx
      else pad_zeros (sha256_update [0] ctx))"
  by pat_completeness auto
termination
proof (relation "measure (\<lambda>ctx. (120 - length (sc_buffer ctx)) mod 64)", goal_cases)
  case (2 ctx)
  then have b: "length (sc_buffer ctx) < 64" "length (sc_buffer ctx) \<noteq> 56"
    by (auto simp: BB_SHA256_BLOCK_SIZE_def)
  have step: "length (sc_buffer (sha256_update [0] ctx)) =
      (if length (sc_buffer ctx) = 63 then 0 else length (sc_buffer ctx) + 1)"
    using b by (auto simp: sha256_update_def BB_SHA256_BLOCK_SIZE_def full_blocks.simps Let_def)
  from b show ?case unfolding in_measure step by (auto simp: distance_56)
qed simp

declare pad_zeros.simps [simp del]

definition sha256_final :: "sha256_ctx \<Rightarrow> u8 list" where
  "sha256_final ctx =
     (let bit_length = sc_bit_length ctx;
          ctx = pad_zeros (sha256_update [0x80] ctx);
          s = sha256_compress (sc_state ctx) (sc_buffer ctx @ length_bytes64 bit_length)
      in case s of (s0, s1, s2, s3, s4, s5, s6, s7) \<Rightarrow>
           concat (map word_bytes [s0, s1, s2, s3, s4, s5, s6, s7]))"

definition bb_sha256 :: "u8 list \<Rightarrow> u8 list" where
  "bb_sha256 data = sha256_final (sha256_update data sha256_init)"

section \<open>HMAC-SHA-256\<close>

record hmac_ctx =
  hc_inner :: sha256_ctx
  hc_outer_primed :: sha256_ctx

definition hmac_init :: "u8 list \<Rightarrow> hmac_ctx" where
  "hmac_init key =
     (let key_block = (if length key > BB_SHA256_BLOCK_SIZE then bb_sha256 key @ replicate 32 0
                       else key @ replicate (BB_SHA256_BLOCK_SIZE - length key) 0);
          ipad = map (\<lambda>b. b XOR 0x36) key_block;
          opad = map (\<lambda>b. b XOR 0x5c) key_block
      in \<lparr>hc_inner = sha256_update ipad sha256_init, hc_outer_primed = sha256_update opad sha256_init\<rparr>)"

definition hmac_update :: "u8 list \<Rightarrow> hmac_ctx \<Rightarrow> hmac_ctx" where
  "hmac_update data ctx = ctx\<lparr>hc_inner := sha256_update data (hc_inner ctx)\<rparr>"

definition hmac_final :: "hmac_ctx \<Rightarrow> u8 list" where
  "hmac_final ctx =
     (let inner_digest = sha256_final (hc_inner ctx)
      in sha256_final (sha256_update inner_digest (hc_outer_primed ctx)))"

definition bb_hmac_sha256 :: "u8 list \<Rightarrow> u8 list \<Rightarrow> u8 list" where
  "bb_hmac_sha256 key data = hmac_final (hmac_update data (hmac_init key))"

end
