(* ===== verification/Hash_Standard.thy ===== *)
theory Hash_Standard
  imports Hash Complex_Main
begin

text \<open>
  The standard of the hash, stated without the model's compression, constants and initial state,
  and the proof that the compression of the model is the standard's.
\<close>

section \<open>SHA-256 of FIPS 180-4\<close>

text \<open>
  SHA-256 as FIPS 180-4 states it, independently of the model above. The round constants are the
  first thirty-two bits of the fractional parts of the cube roots of the first sixty-four primes,
  the initial hash value those of the square roots of the first eight. Rotation is the library's,
  and the bytes of a word are read and written by arithmetic.
\<close>

definition sha_primes :: "nat list" where
  "sha_primes = filter (\<lambda>p. \<forall>d. d dvd p \<longrightarrow> d = 1 \<or> d = p) [2..<312]"

definition fraction_bits :: "real \<Rightarrow> u32" where
  "fraction_bits x = word_of_int \<lfloor>x * 2 ^ 32\<rfloor>"

definition fips_K :: "nat \<Rightarrow> u32" where
  "fips_K t = fraction_bits (root 3 (real (sha_primes ! t)))"

definition fips_H0 :: "nat \<Rightarrow> u32" where
  "fips_H0 i = fraction_bits (sqrt (real (sha_primes ! i)))"

definition be_word :: "u8 list \<Rightarrow> u32" where
  "be_word bs = of_nat (foldl (\<lambda>v b. 256 * v + unat b) 0 bs)"

definition be_bytes :: "nat \<Rightarrow> nat \<Rightarrow> u8 list" where
  "be_bytes k n = map (\<lambda>i. of_nat (n div 256 ^ (k - 1 - i))) [0..<k]"

definition fips_Ch :: "u32 \<Rightarrow> u32 \<Rightarrow> u32 \<Rightarrow> u32" where
  "fips_Ch x y z = (x AND y) XOR (NOT x AND z)"

definition fips_Maj :: "u32 \<Rightarrow> u32 \<Rightarrow> u32 \<Rightarrow> u32" where
  "fips_Maj x y z = (x AND y) XOR (x AND z) XOR (y AND z)"

definition fips_Sigma0 :: "u32 \<Rightarrow> u32" where
  "fips_Sigma0 x = word_rotr 2 x XOR word_rotr 13 x XOR word_rotr 22 x"

definition fips_Sigma1 :: "u32 \<Rightarrow> u32" where
  "fips_Sigma1 x = word_rotr 6 x XOR word_rotr 11 x XOR word_rotr 25 x"

definition fips_sigma0 :: "u32 \<Rightarrow> u32" where
  "fips_sigma0 x = word_rotr 7 x XOR word_rotr 18 x XOR drop_bit 3 x"

definition fips_sigma1 :: "u32 \<Rightarrow> u32" where
  "fips_sigma1 x = word_rotr 17 x XOR word_rotr 19 x XOR drop_bit 10 x"

text \<open>The message schedule of a block and the state after \<open>t\<close> rounds.\<close>

fun fips_W :: "u8 list \<Rightarrow> nat \<Rightarrow> u32" where
  "fips_W M t =
     (if t < 16 then be_word (take 4 (drop (4 * t) M))
      else fips_sigma1 (fips_W M (t - 2)) + fips_W M (t - 7) + fips_sigma0 (fips_W M (t - 15)) + fips_W M (t - 16))"

declare fips_W.simps [simp del]

fun fips_rounds :: "u8 list \<Rightarrow> sha256_state \<Rightarrow> nat \<Rightarrow> sha256_state" where
  "fips_rounds M H 0 = H"
| "fips_rounds M H (Suc t) =
     (case fips_rounds M H t of (a, b, c, d, e, f, g, h) \<Rightarrow>
        let T1 = h + fips_Sigma1 e + fips_Ch e f g + fips_K t + fips_W M t;
            T2 = fips_Sigma0 a + fips_Maj a b c
        in (T1 + T2, a, b, c, d + T1, e, f, g))"

definition fips_block :: "sha256_state \<Rightarrow> u8 list \<Rightarrow> sha256_state" where
  "fips_block H M =
     (case (H, fips_rounds M H 64) of
        ((h0, h1, h2, h3, h4, h5, h6, h7), (a, b, c, d, e, f, g, h)) \<Rightarrow>
          (h0 + a, h1 + b, h2 + c, h3 + d, h4 + e, h5 + f, h6 + g, h7 + h))"

text \<open>The model agrees: rotation, and the bytes of a word.\<close>

lemma rotr32: "0 < b \<Longrightarrow> b < 32 \<Longrightarrow> rotr32 v b = word_rotr b v"
proof (rule bit_word_eqI)
  fix n assume b: "0 < b" "b < 32" and n: "n < LENGTH(32)"
  show "bit (rotr32 v b) n = bit (word_rotr b v) n"
  proof (cases "n + b < 32")
    case True
    with n b show ?thesis by (auto simp: rotr32_def bit_simps ac_simps)
  next
    case False
    then have "(n + b) mod 32 = n + b - 32" using n b by (simp add: mod_if)
    moreover have "\<not> bit v (b + n)" using False by (auto dest: bit_imp_le_length)
    ultimately show ?thesis using n b False by (auto simp: rotr32_def bit_simps ac_simps)
  qed
qed

lemma or_plus: "(\<And>i. bit a i \<Longrightarrow> \<not> bit b i) \<Longrightarrow> a OR b = a + (b :: u32)"
  by (rule disjunctive_add_eq_or [symmetric]) (auto intro!: bit_word_eqI simp: bit_simps)

lemma word_at_bytes: "word_at b j = of_nat (unat (b ! j) * 2 ^ 24 + unat (b ! (j + 1)) * 2 ^ 16 +
    unat (b ! (j + 2)) * 2 ^ 8 + unat (b ! (j + 3)))"
proof -
  have u: "bit (ucast x :: u32) i \<Longrightarrow> i < 8" for x :: u8 and i
    by (auto simp: bit_simps dest: bit_imp_le_length)
  have "word_at b j = push_bit 24 (ucast (b ! j)) + (push_bit 16 (ucast (b ! (j + 1))) +
      (push_bit 8 (ucast (b ! (j + 2))) + ucast (b ! (j + 3))))"
    unfolding word_at_def by (subst or_plus, force simp: bit_simps dest: bit_imp_le_length)+ simp
  also have "\<dots> = of_nat (unat (b ! j) * 2 ^ 24 + unat (b ! (j + 1)) * 2 ^ 16 +
    unat (b ! (j + 2)) * 2 ^ 8 + unat (b ! (j + 3)))"
    by (simp add: push_bit_eq_mult ac_simps)
  finally show ?thesis .
qed

text \<open>The constants: an integer root of thirty-two more bits determines the fraction.\<close>

lemma fraction_bits_eq:
  assumes "of_int k \<le> x * 2 ^ 32" and "x * 2 ^ 32 < of_int k + 1"
  shows "fraction_bits x = word_of_int k"
  using assms by (simp add: fraction_bits_def floor_unique)

lemma root_bits:
  assumes n: "0 < n" and k: "0 \<le> k" "k ^ n \<le> int p * 2 ^ (32 * n)" "int p * 2 ^ (32 * n) < (k + 1) ^ n"
  shows "fraction_bits (root n (real p)) = word_of_int k"
proof (rule fraction_bits_eq)
  define x where "x = root n (real p) * 2 ^ 32"
  have x: "x ^ n = real p * 2 ^ (32 * n)" "0 \<le> x"
    using n by (simp_all add: x_def power_mult_distrib power_mult)
  have "real_of_int (k ^ n) \<le> real_of_int (int p * 2 ^ (32 * n))"
    "real_of_int (int p * 2 ^ (32 * n)) < real_of_int ((k + 1) ^ n)"
    using k(2,3) by (simp_all only: of_int_le_iff of_int_less_iff)
  then have *: "real_of_int k ^ n \<le> x ^ n" "x ^ n < (real_of_int k + 1) ^ n" by (simp_all add: x(1))
  show "real_of_int k \<le> root n (real p) * 2 ^ 32"
    using *(1) x(2) k(1) n unfolding x_def [symmetric] by (meson linorder_not_less of_int_0_le_iff power_strict_mono)
  show "root n (real p) * 2 ^ 32 < real_of_int k + 1"
    using *(2) k(1) unfolding x_def [symmetric] by (intro power_less_imp_less_base [of x n]) simp_all
qed

text \<open>Primes with the integer part and the bits of the fraction of their cube roots and square roots.\<close>

definition cube_roots :: "(nat \<times> int \<times> int) list" where
  "cube_roots =
     [(2, 1, 0x428a2f98), (3, 1, 0x71374491), (5, 1, 0xb5c0fbcf), (7, 1, 0xe9b5dba5),
      (11, 2, 0x3956c25b), (13, 2, 0x59f111f1), (17, 2, 0x923f82a4), (19, 2, 0xab1c5ed5),
      (23, 2, 0xd807aa98), (29, 3, 0x12835b01), (31, 3, 0x243185be), (37, 3, 0x550c7dc3),
      (41, 3, 0x72be5d74), (43, 3, 0x80deb1fe), (47, 3, 0x9bdc06a7), (53, 3, 0xc19bf174),
      (59, 3, 0xe49b69c1), (61, 3, 0xefbe4786), (67, 4, 0x0fc19dc6), (71, 4, 0x240ca1cc),
      (73, 4, 0x2de92c6f), (79, 4, 0x4a7484aa), (83, 4, 0x5cb0a9dc), (89, 4, 0x76f988da),
      (97, 4, 0x983e5152), (101, 4, 0xa831c66d), (103, 4, 0xb00327c8), (107, 4, 0xbf597fc7),
      (109, 4, 0xc6e00bf3), (113, 4, 0xd5a79147), (127, 5, 0x06ca6351), (131, 5, 0x14292967),
      (137, 5, 0x27b70a85), (139, 5, 0x2e1b2138), (149, 5, 0x4d2c6dfc), (151, 5, 0x53380d13),
      (157, 5, 0x650a7354), (163, 5, 0x766a0abb), (167, 5, 0x81c2c92e), (173, 5, 0x92722c85),
      (179, 5, 0xa2bfe8a1), (181, 5, 0xa81a664b), (191, 5, 0xc24b8b70), (193, 5, 0xc76c51a3),
      (197, 5, 0xd192e819), (199, 5, 0xd6990624), (211, 5, 0xf40e3585), (223, 6, 0x106aa070),
      (227, 6, 0x19a4c116), (229, 6, 0x1e376c08), (233, 6, 0x2748774c), (239, 6, 0x34b0bcb5),
      (241, 6, 0x391c0cb3), (251, 6, 0x4ed8aa4a), (257, 6, 0x5b9cca4f), (263, 6, 0x682e6ff3),
      (269, 6, 0x748f82ee), (271, 6, 0x78a5636f), (277, 6, 0x84c87814), (281, 6, 0x8cc70208),
      (283, 6, 0x90befffa), (293, 6, 0xa4506ceb), (307, 6, 0xbef9a3f7), (311, 6, 0xc67178f2)]"

definition square_roots :: "(nat \<times> int \<times> int) list" where
  "square_roots =
     [(2, 1, 0x6a09e667), (3, 1, 0xbb67ae85), (5, 2, 0x3c6ef372), (7, 2, 0xa54ff53a),
      (11, 3, 0x510e527f), (13, 3, 0x9b05688c), (17, 4, 0x1f83d9ab), (19, 4, 0x5be0cd19)]"

definition root_is :: "nat \<Rightarrow> nat \<times> int \<times> int \<Rightarrow> bool" where
  "root_is n x \<longleftrightarrow>
     (case x of (p, i, f) \<Rightarrow> 0 \<le> i \<and> 0 \<le> f \<and> (i * 2 ^ 32 + f) ^ n \<le> int p * 2 ^ (32 * n) \<and>
        int p * 2 ^ (32 * n) < (i * 2 ^ 32 + f + 1) ^ n)"

lemma roots_checked: "list_all (root_is 3) cube_roots" "list_all (root_is 2) square_roots"
  by (simp_all add: cube_roots_def square_roots_def root_is_def)

lemma root_is_bits:
  assumes "root_is n (p, i, f)" and "0 < n"
  shows "fraction_bits (root n (real p)) = word_of_int f"
proof -
  have "fraction_bits (root n (real p)) = word_of_int (i * 2 ^ 32 + f)"
    using assms by (intro root_bits) (simp_all add: root_is_def)
  also have "\<dots> = (word_of_int f :: u32)"
    by (simp only: word_of_int_eq_iff take_bit_eq_mod len_of_numeral_defs) simp
  finally show ?thesis .
qed

text \<open>A number below \<open>18 * 18\<close> is prime when no number below 18 divides it.\<close>

lemma trial_division:
  assumes "2 \<le> p" and "p < (312 :: nat)"
  shows "(\<forall>d. d dvd p \<longrightarrow> d = 1 \<or> d = p) \<longleftrightarrow> list_all (\<lambda>d. d = p \<or> p mod d \<noteq> 0) [2..<18]"
proof (rule iffI)
  assume t: "list_all (\<lambda>d. d = p \<or> p mod d \<noteq> 0) [2..<18]"
  have small: "d = 1 \<or> d = p" if "d dvd p" "d < 18" for d
  proof (rule ccontr)
    assume d: "\<not> (d = 1 \<or> d = p)"
    have "d \<noteq> 0" using that(1) assms(1) by (metis dvd_0_left_iff not_numeral_le_zero)
    with d that(2) have "2 \<le> d" by simp
    then have "d \<in> set [2..<18]" using that(2) by (simp only: set_upt atLeastLessThan_iff)
    with t have "d = p \<or> p mod d \<noteq> 0" unfolding list_all_iff by (rule bspec)
    with d have "p mod d \<noteq> 0" by blast
    with that(1) show False by (simp add: mod_eq_0_iff_dvd)
  qed
  show "\<forall>d. d dvd p \<longrightarrow> d = 1 \<or> d = p"
  proof (intro allI impI)
    fix d assume "d dvd p"
    then obtain e where e: "p = d * e" ..
    have "d < 18 \<or> e < 18"
    proof (rule ccontr)
      assume "\<not> (d < 18 \<or> e < 18)"
      then have "18 * 18 \<le> d * e" by (intro mult_le_mono) auto
      with e assms(2) show False by simp
    qed
    then show "d = 1 \<or> d = p"
    proof
      assume "e < 18"
      with small [of e] e have "e = 1 \<or> e = p" by simp
      with e assms(1) show ?thesis by auto
    qed (use small \<open>d dvd p\<close> in blast)
  qed
next
  assume p: "\<forall>d. d dvd p \<longrightarrow> d = 1 \<or> d = p"
  have "d = p \<or> p mod d \<noteq> 0" if "2 \<le> d" for d
  proof -
    have "d \<noteq> 1" using that by simp
    with p show ?thesis unfolding mod_eq_0_iff_dvd by blast
  qed
  then show "list_all (\<lambda>d. d = p \<or> p mod d \<noteq> 0) [2..<18]" by (simp add: list_all_iff del: upt_rec_numeral)
qed

lemma sha_primes_are: "sha_primes = map fst cube_roots"
proof -
  define ok where "ok = (\<lambda>p :: nat. list_all (\<lambda>d. d = p \<or> p mod d \<noteq> 0) [2..<18])"
  have ok: "ok p \<longleftrightarrow> list_all (\<lambda>d. d = p \<or> p mod d \<noteq> 0) [2, 3, 4, 5, 6, 7, 8, 9, 10, 11, 12, 13, 14, 15, 16, 17]" for p
  proof -
    have "[2..<18] = [2, 3, 4, 5, 6, 7, 8, 9, 10, 11, 12, 13, 14, 15, 16, 17 :: nat]" by (simp add: upt_rec_numeral)
    then show ?thesis by (simp only: ok_def)
  qed
  have app: "[i..<k] = [i..<j] @ [j..<k]" if "i \<le> j" "j \<le> k" for i j k :: nat
    using upt_add_eq_append [of i j "k - j"] that by simp
  have split: "[2..<312] = [2..<50] @ [50..<100] @ [100..<150] @ [150..<200] @ [200..<250] @ [250..<312 :: nat]"
    using app [of 2 50 312] app [of 50 100 312] app [of 100 150 312] app [of 150 200 312] app [of 200 250 312]
    by (simp del: upt_rec_numeral)
  have parts:
    "filter ok [2..<50] = [2, 3, 5, 7, 11, 13, 17, 19, 23, 29, 31, 37, 41, 43, 47]"
    "filter ok [50..<100] = [53, 59, 61, 67, 71, 73, 79, 83, 89, 97]"
    "filter ok [100..<150] = [101, 103, 107, 109, 113, 127, 131, 137, 139, 149]"
    "filter ok [150..<200] = [151, 157, 163, 167, 173, 179, 181, 191, 193, 197, 199]"
    "filter ok [200..<250] = [211, 223, 227, 229, 233, 239, 241]"
    "filter ok [250..<312] = [251, 257, 263, 269, 271, 277, 281, 283, 293, 307, 311]"
    by (simp_all add: upt_rec_numeral ok)
  have "sha_primes = filter ok [2..<312]"
    unfolding sha_primes_def ok_def
    by (rule filter_cong [OF refl], rule trial_division) (simp_all only: set_upt atLeastLessThan_iff)
  then show ?thesis unfolding split filter_append parts by (simp add: cube_roots_def)
qed

lemma fips_K_is: "t < 64 \<Longrightarrow> fips_K t = sha256_k ! t"
proof -
  assume t: "t < 64"
  have k: "sha256_k = map (\<lambda>(p, i, f). word_of_int f) cube_roots" "length cube_roots = 64"
    by (simp_all add: sha256_k_def cube_roots_def)
  obtain p i f where x: "cube_roots ! t = (p, i, f)" by (metis prod_cases3)
  then have "root_is 3 (p, i, f)" using roots_checked(1) t k(2) by (metis list_all_length)
  then show ?thesis
    using root_is_bits [of 3 p i f] x t k(2) unfolding k(1) by (simp add: fips_K_def sha_primes_are)
qed

lemma fips_H0_is:
  "(fips_H0 0, fips_H0 1, fips_H0 2, fips_H0 3, fips_H0 4, fips_H0 5, fips_H0 6, fips_H0 7) = sc_state sha256_init"
proof -
  have "fips_H0 j = map (\<lambda>(p, i, f). word_of_int f) square_roots ! j" if j: "j < 8" for j
  proof -
    have k: "map fst square_roots = take 8 (map fst cube_roots)" "length square_roots = 8"
      by (simp_all add: square_roots_def cube_roots_def)
    obtain p i f where x: "square_roots ! j = (p, i, f)" by (metis prod_cases3)
    then have "root_is 2 (p, i, f)" using roots_checked(2) j k(2) by (metis list_all_length)
    moreover have "sha_primes ! j = p"
      using arg_cong [OF k(1), of "\<lambda>xs. xs ! j"] x j k(2) by (simp add: sha_primes_are)
    ultimately show ?thesis using root_is_bits [of 2 p i f] x j k(2) by (simp add: fips_H0_def sqrt_def)
  qed
  then show ?thesis by (simp add: sha256_init_def square_roots_def)
qed

text \<open>The schedule and the rounds.\<close>

lemma take4: "k + 4 \<le> length M \<Longrightarrow> take 4 (drop k M) = [M ! k, M ! (k + 1), M ! (k + 2), M ! (k + 3)]"
  by (rule nth_equalityI) (auto simp: less_Suc_eq numeral_eq_Suc)

lemma be_word_at: "k + 4 \<le> length M \<Longrightarrow> be_word (take 4 (drop k M)) = word_at M k"
  by (simp add: take4 be_word_def word_at_bytes algebra_simps)

text \<open>A list that grows by a recurrence is the list of the values of the recurrence.\<close>

lemma grown_list:
  assumes "\<And>i. m \<le> i \<Longrightarrow> g (map f [0..<i]) i = f i" and "m \<le> n"
  shows "foldl (\<lambda>w i. w @ [g w i]) (map f [0..<m]) [m..<n] = map f [0..<n]"
  using assms(2)
proof (induction rule: dec_induct)
  case (step n)
  then show ?case by (simp add: assms(1))
qed simp

lemma schedule_fips:
  assumes "length M = 64"
  shows "sha256_schedule M = map (fips_W M) [0..<64]"
proof -
  have "word_at M (i * 4) = fips_W M i" if "i < 16" for i
    using be_word_at [of "4 * i" M] that assms by (simp add: fips_W.simps [of M i] mult.commute)
  then have *: "map (\<lambda>i. word_at M (i * 4)) [0..<16] = map (fips_W M) [0..<16]" by simp
  show ?thesis
    unfolding sha256_schedule_def * Let_def
  proof (rule grown_list, goal_cases)
    case (1 i)
    then have n: "map (fips_W M) [0..<i] ! (i - j) = fips_W M (i - j)" if "0 < j" "j \<le> 16" for j
      using that by simp
    from 1 show ?case
      by (simp add: n fips_W.simps [of M i] fips_sigma0_def fips_sigma1_def rotr32 ac_simps del: nth_map_upt nth_map)
  qed simp
qed

lemma rounds_fips:
  assumes "length M = 64" and "n \<le> 64"
  shows "foldl (sha256_round (map (fips_W M) [0..<64])) H [0..<n] = fips_rounds M H n"
  using assms(2)
proof (induction n)
  case (Suc n)
  then have "map (fips_W M) [0..<64] ! n = fips_W M n" by simp
  with Suc show ?case
    by (simp add: sha256_round_def fips_Sigma0_def fips_Sigma1_def fips_Ch_def fips_Maj_def fips_K_is rotr32 Let_def
        split: prod.split)
qed simp

lemma fips_block_is: "length M = 64 \<Longrightarrow> fips_block H M = sha256_compress H M"
  unfolding fips_block_def sha256_compress_def by (simp add: schedule_fips rounds_fips)

text \<open>The bytes of a word, and of the length.\<close>

lemma word_bytes_be: "word_bytes w = be_bytes 4 (unat w)"
proof -
  have "ucast (drop_bit k w AND 0xFF) = (of_nat (unat w div 2 ^ k) :: u8)" for k
  proof -
    have "drop_bit k w AND 0xFF = take_bit 8 (drop_bit k w)" by (simp add: take_bit_eq_mask mask_eq_exp_minus_1)
    then have "ucast (drop_bit k w AND 0xFF) = (ucast (drop_bit k w) :: u8)"
      by (simp only:) (rule bit_word_eqI, auto simp: bit_simps)
    also have "\<dots> = of_nat (unat (drop_bit k w))" by simp
    also have "unat (drop_bit k w) = drop_bit k (unat w)"
      by (rule bit_eqI) (auto simp: bit_simps dest: bit_imp_le_length)
    also have "\<dots> = unat w div 2 ^ k" by (rule drop_bit_eq_div)
    finally show ?thesis .
  qed
  moreover have "[0..<4] = [0, 1, 2, 3 :: nat]" by (simp add: upt_rec)
  ultimately show ?thesis by (simp add: word_bytes_def be_bytes_def)
qed

text \<open>The zeros of the padding and the length behind them.\<close>

definition padding :: "nat \<Rightarrow> u8 list" where
  "padding n = 0x80 # replicate (LEAST k. (n + 1 + k) mod 64 = 56) 0 @ be_bytes 8 (8 * n)"

lemma padding_zeros: "(LEAST k. (n + 1 + k) mod 64 = 56) = (119 - n mod 64) mod (64 :: nat)"
proof -
  define m where "m = n mod 64"
  have m: "m < 64" by (simp add: m_def)
  have step: "(n + 1 + k) mod 64 = (m + 1 + k) mod 64" for k
    unfolding m_def by (metis mod_add_left_eq)
  show ?thesis
    unfolding step m_def [symmetric]
  proof (rule Least_equality)
    show "(m + 1 + (119 - m) mod 64) mod 64 = 56"
      using m by (cases "m \<le> 55") (auto simp: mod_if le_mod_geq)
  next
    fix k assume k: "(m + 1 + k) mod 64 = 56"
    show "(119 - m) mod 64 \<le> k"
    proof (cases "m \<le> 55")
      case True
      then have "(119 - m) mod 64 = 55 - m" using m by (simp add: le_mod_geq)
      moreover have "56 \<le> m + 1 + k" using mod_less_eq_dividend [of "m + 1 + k" 64] k by simp
      ultimately show ?thesis by simp
    next
      case False
      have "\<not> m + 1 + k < 120"
      proof
        assume "m + 1 + k < 120"
        with False m have "m + 1 + k = 57 + (m - 56 + k)" "57 + (m - 56 + k) < 120" by simp_all
        with k show False by (cases "m + 1 + k < 64") (auto simp: le_mod_geq)
      qed
      with m show ?thesis by (auto intro: order_trans [OF mod_less_eq_dividend])
    qed
  qed
qed

lemma length_bytes_be: "length_bytes64 (of_nat n * 8) = be_bytes 8 (8 * n)"
proof -
  have b: "ucast (drop_bit (8 * j) (of_nat x :: u64)) = (of_nat (x div 256 ^ j) :: u8)" if "j \<le> 7" for j x
  proof -
    have "ucast (drop_bit (8 * j) (of_nat x :: u64)) = (of_nat (drop_bit (8 * j) x) :: u8)"
      using that by (intro bit_word_eqI) (auto simp: bit_simps)
    also have "drop_bit (8 * j) x = x div 256 ^ j" by (simp add: drop_bit_eq_div power_mult)
    finally show ?thesis .
  qed
  have "ucast (drop_bit (8 * (7 - i)) (of_nat (8 * n) :: u64)) = (of_nat (8 * n div 256 ^ (8 - 1 - i)) :: u8)" for i
    using b [of "7 - i" "8 * n"] by simp
  then show ?thesis unfolding length_bytes64_def be_bytes_def by (simp add: mult.commute)
qed

end
