(* ===== verification/Hash_Theorems.thy ===== *)
theory Hash_Theorems
  imports Hash_Standard
begin

text \<open>
  The streaming hash is the hash of the concatenation, SHA-256 and HMAC are the functions of the
  standards, and Base64 can be decoded.
\<close>

section \<open>Streaming\<close>

definition ctx_ok :: "sha256_ctx \<Rightarrow> bool" where
  "ctx_ok ctx \<longleftrightarrow> length (sc_buffer ctx) < BB_SHA256_BLOCK_SIZE"

lemma init_ok: "ctx_ok sha256_init"
  by (simp add: ctx_ok_def sha256_init_def BB_SHA256_BLOCK_SIZE_def)

lemma full_blocks_rest: "length (snd (full_blocks s d)) < 64"
  by (induction s d rule: full_blocks.induct) (simp add: full_blocks.simps)

lemma full_blocks_short: "length d < 64 \<Longrightarrow> full_blocks s d = (s, d)"
  by (simp add: full_blocks.simps)

lemma full_blocks_append:
  "full_blocks s (x @ y) = (case full_blocks s x of (s', r) \<Rightarrow> full_blocks s' (r @ y))"
proof (induction s x rule: full_blocks.induct)
  case (1 s x)
  show ?case
  proof (cases "length x \<ge> 64")
    case True
    then have "full_blocks s (x @ y) = full_blocks (sha256_compress s (take 64 x)) (drop 64 x @ y)"
      by (subst full_blocks.simps) simp
    with 1 True show ?thesis by (simp add: full_blocks.simps [of s x])
  qed (simp add: full_blocks_short)
qed

text \<open>An update appends to the buffer and compresses what is complete.\<close>

lemma sha256_update_blocks:
  assumes "ctx_ok ctx"
  shows "sha256_update data ctx =
    (case full_blocks (sc_state ctx) (sc_buffer ctx @ data) of
       (s, rest) \<Rightarrow> ctx\<lparr>sc_state := s, sc_bit_length := sc_bit_length ctx + of_nat (length data) * 8, sc_buffer := rest\<rparr>)"
proof -
  define b where "b = sc_buffer ctx"
  have b: "length b < 64" using assms by (simp add: b_def ctx_ok_def BB_SHA256_BLOCK_SIZE_def)
  obtain s rest where fb: "full_blocks (sc_state ctx) (b @ data) = (s, rest)" by fastforce
  have stash: "(if d \<noteq> [] then c\<lparr>sc_buffer := d\<rparr> else c) = c\<lparr>sc_buffer := d\<rparr>" if "sc_buffer c = []" for c :: sha256_ctx and d
    using that by (cases c) simp
  consider (empty) "b = []" | (part) "b \<noteq> []" "length (b @ data) < 64" | (fill) "b \<noteq> []" "length (b @ data) \<ge> 64"
    by fastforce
  then show ?thesis
  proof cases
    case empty
    then show ?thesis
      using fb by (simp add: sha256_update_def Let_def b_def [symmetric] stash split: prod.splits)
  next
    case part
    then have "s = sc_state ctx" "rest = b @ data" using fb by (simp_all add: full_blocks_short)
    moreover have "full_blocks (sc_state ctx) [] = (sc_state ctx, [])" by (simp add: full_blocks_short)
    ultimately show ?thesis
      using part fb by (auto simp: sha256_update_def Let_def b_def [symmetric] BB_SHA256_BLOCK_SIZE_def split: prod.splits)
  next
    case fill
    define n where "n = 64 - length b"
    have n: "n \<le> length data" "length (b @ take n data) = 64" using fill b by (simp_all add: n_def)
    have data: "take n data @ drop n data = data" by simp
    have "take 64 (b @ data) = b @ take n data" "drop 64 (b @ data) = drop n data"
      using n b by (simp_all add: n_def)
    then have "full_blocks (sc_state ctx) (b @ data) =
        full_blocks (sha256_compress (sc_state ctx) (b @ take n data)) (drop n data)"
      using fill by (subst full_blocks.simps) simp
    then show ?thesis
      using fill n fb b
      by (auto simp: sha256_update_def Let_def b_def [symmetric] BB_SHA256_BLOCK_SIZE_def n_def [symmetric] stash
          min_absorb2 not_less split: prod.splits)
  qed
qed

lemma update_ok: "ctx_ok ctx \<Longrightarrow> ctx_ok (sha256_update data ctx)"
  using full_blocks_rest [of "sc_state ctx" "sc_buffer ctx @ data"]
  by (auto simp: sha256_update_blocks ctx_ok_def BB_SHA256_BLOCK_SIZE_def split: prod.splits)

lemma update_append:
  assumes "ctx_ok ctx"
  shows "sha256_update y (sha256_update x ctx) = sha256_update (x @ y) ctx"
proof -
  obtain s r where fb: "full_blocks (sc_state ctx) (sc_buffer ctx @ x) = (s, r)" by fastforce
  have "full_blocks (sc_state ctx) (sc_buffer ctx @ (x @ y)) = full_blocks s (r @ y)"
    using full_blocks_append [of "sc_state ctx" "sc_buffer ctx @ x" y] fb by simp
  moreover obtain s2 r2 where fb2: "full_blocks s (r @ y) = (s2, r2)" by fastforce
  ultimately have xy: "full_blocks (sc_state ctx) (sc_buffer ctx @ x @ y) = (s2, r2)" by simp
  define ctx1 where "ctx1 = sha256_update x ctx"
  have ctx1: "ctx1 = ctx\<lparr>sc_state := s, sc_bit_length := sc_bit_length ctx + of_nat (length x) * 8, sc_buffer := r\<rparr>"
    using fb by (simp add: ctx1_def sha256_update_blocks [OF assms])
  have "ctx_ok ctx1" using update_ok [OF assms] by (simp add: ctx1_def)
  then have "sha256_update y ctx1 =
      ctx1\<lparr>sc_state := s2, sc_bit_length := sc_bit_length ctx1 + of_nat (length y) * 8, sc_buffer := r2\<rparr>"
    using fb2 by (subst sha256_update_blocks) (simp_all add: ctx1)
  then show ?thesis
    using xy by (simp add: sha256_update_blocks [OF assms, of "x @ y"] ctx1_def [symmetric])
       (simp add: ctx1 distrib_right add.assoc)
qed

section \<open>The standard\<close>

text \<open>
  The hash of the standard: the blocks of the padded message, one after the other, from the
  initial hash value, and the bytes of the eight words it ends with.
\<close>

fun blocks_of :: "u8 list list \<Rightarrow> sha256_state \<Rightarrow> sha256_state" where
  "blocks_of [] s = s"
| "blocks_of (b # bs) s = blocks_of bs (fips_block s b)"

function chunks64 :: "u8 list \<Rightarrow> u8 list list" where
  "chunks64 d = (if d = [] then [] else take 64 d # chunks64 (drop 64 d))"
  by pat_completeness auto
termination by (relation "measure length") auto

declare chunks64.simps [simp del]

definition sha256_spec :: "u8 list \<Rightarrow> u8 list" where
  "sha256_spec msg =
     (case blocks_of (chunks64 (msg @ padding (length msg)))
             (fips_H0 0, fips_H0 1, fips_H0 2, fips_H0 3, fips_H0 4, fips_H0 5, fips_H0 6, fips_H0 7) of
        (s0, s1, s2, s3, s4, s5, s6, s7) \<Rightarrow>
          concat (map (\<lambda>w. be_bytes 4 (unat w)) [s0, s1, s2, s3, s4, s5, s6, s7]))"

lemma full_blocks_chunks: "64 dvd length d \<Longrightarrow> full_blocks s d = (blocks_of (chunks64 d) s, [])"
proof (induction s d rule: full_blocks.induct)
  case (1 s d)
  show ?case
  proof (cases "d = []")
    case False
    then have "length d \<ge> 64" using 1(2) by (auto dest: dvd_imp_le)
    with 1 False show ?thesis
      by (simp add: full_blocks.simps [of s d] chunks64.simps [of d] dvd_diff_nat fips_block_is)
  qed (simp add: full_blocks_short chunks64.simps)
qed

lemma length_length_bytes64 [simp]: "length (length_bytes64 n) = 8"
  by (simp add: length_bytes64_def)

lemma padding_is: "padding n = 0x80 # replicate ((119 - n mod 64) mod 64) 0 @ length_bytes64 (of_nat n * 8)"
  unfolding padding_def padding_zeros length_bytes_be ..

lemma padding_fits: "64 dvd n + length (padding n)"
proof -
  obtain q k where n: "n = 64 * q + k" "k < 64"
    by (metis mod_less_divisor mult_div_mod_eq zero_less_numeral)
  have "(119 - k) mod 64 = (if k \<le> 55 then 55 - k else 119 - k)"
    using distance_56 [of "k + 1"] n(2) by (cases "k = 63") auto
  then have "n + length (padding n) = 64 * q + (if k \<le> 55 then 64 else 128)"
    using n by (auto simp: padding_is)
  then show ?thesis by (auto simp: dvd_add_right_iff)
qed

text \<open>The zeros that the padding loop adds.\<close>

lemma pad_zeros_update:
  "ctx_ok ctx \<Longrightarrow>
   \<exists>k. pad_zeros ctx = sha256_update (replicate ((120 - length (sc_buffer ctx)) mod 64) 0) ctx"
proof (induction ctx rule: pad_zeros.induct)
  case (1 ctx)
  define m where "m = length (sc_buffer ctx)"
  have m: "m < 64" using 1(2) by (simp add: m_def ctx_ok_def BB_SHA256_BLOCK_SIZE_def)
  have nil: "sha256_update [] ctx = ctx"
    using 1(2) m by (simp add: sha256_update_blocks full_blocks_short m_def)
  show ?case
  proof (cases "m = 56")
    case True
    with nil show ?thesis by (simp add: pad_zeros.simps [of ctx] m_def BB_SHA256_BLOCK_SIZE_def)
  next
    case False
    define ctx1 where "ctx1 = sha256_update [0] ctx"
    have step: "pad_zeros ctx = pad_zeros ctx1"
      using False m by (simp add: pad_zeros.simps [of ctx] m_def BB_SHA256_BLOCK_SIZE_def ctx1_def)
    have len: "length (sc_buffer ctx1) = (if m = 63 then 0 else m + 1)"
      using 1(2) m by (auto simp: ctx1_def sha256_update_blocks full_blocks.simps m_def [symmetric])
    have d: "(120 - m) mod 64 = Suc ((120 - length (sc_buffer ctx1)) mod 64)"
      using m False by (auto simp: len distance_56)
    have "pad_zeros ctx1 = sha256_update (replicate ((120 - length (sc_buffer ctx1)) mod 64) 0) ctx1"
      using 1 False m update_ok [OF 1(2)] by (auto simp: m_def BB_SHA256_BLOCK_SIZE_def ctx1_def)
    also have "\<dots> = sha256_update (0 # replicate ((120 - length (sc_buffer ctx1)) mod 64) 0) ctx"
      unfolding ctx1_def update_append [OF 1(2)] by simp
    finally show ?thesis by (simp add: step m_def [symmetric] d)
  qed
qed

lemma buffer_length:
  assumes "ctx_ok ctx"
  shows "length (sc_buffer (sha256_update data ctx)) = (length (sc_buffer ctx) + length data) mod 64"
proof -
  have "length (snd (full_blocks s d)) = length d mod 64" for s d
    by (induction s d rule: full_blocks.induct) (auto simp: full_blocks.simps le_mod_geq)
  from this [of "sc_state ctx" "sc_buffer ctx @ data"] show ?thesis
    unfolding sha256_update_blocks [OF assms] by (auto split: prod.splits)
qed

lemma sha256_is_spec: "bb_sha256 msg = sha256_spec msg"
proof -
  define n where "n = length msg"
  define z where "z = replicate ((119 - n mod 64) mod 64) (0 :: u8)"
  define c1 where "c1 = sha256_update (msg @ [0x80]) sha256_init"
  have len1: "length (sc_buffer c1) = Suc n mod 64"
    unfolding c1_def buffer_length [OF init_ok] by (simp add: sha256_init_def n_def)
  have "(120 - Suc n mod 64) mod 64 = (119 - n mod 64) mod (64 :: nat)"
    by (simp add: mod_Suc)
  with len1 have zs: "replicate ((120 - length (sc_buffer c1)) mod 64) 0 = z" by (simp add: z_def)
  have c2: "pad_zeros c1 = sha256_update (msg @ [0x80] @ z) sha256_init"
    using pad_zeros_update [of c1] update_ok [OF init_ok, of "msg @ [0x80]"] update_append [OF init_ok, of z "msg @ [0x80]"]
    by (simp add: c1_def [symmetric] zs)
  have fin: "sha256_update [0x80] (sha256_update msg sha256_init) = c1"
    by (simp add: c1_def update_append [OF init_ok])
  have bits: "sc_bit_length (sha256_update d c) = sc_bit_length c + of_nat (length d) * 8" if "ctx_ok c" for d c
    by (cases "full_blocks (sc_state c) (sc_buffer c @ d)") (simp add: sha256_update_blocks [OF that])
  have bits: "sc_bit_length (sha256_update msg sha256_init) = of_nat n * 8"
    unfolding bits [OF init_ok] by (simp add: sha256_init_def n_def)
  obtain s r where sr: "full_blocks (sc_state sha256_init) (msg @ [0x80] @ z) = (s, r)" by fastforce
  have st: "sc_state (pad_zeros c1) = s" "sc_buffer (pad_zeros c1) = r"
    using sr by (simp_all add: c2 sha256_update_blocks [OF init_ok]) (simp_all add: sha256_init_def)
  define lb where "lb = length_bytes64 (of_nat n * 8)"
  have full: "full_blocks (sc_state sha256_init) (msg @ padding n) = full_blocks s (r @ lb)"
    using full_blocks_append [of "sc_state sha256_init" "msg @ [0x80] @ z" lb] sr by (simp add: padding_is z_def lb_def)
  have "length (r @ lb) = 64"
  proof -
    have "length r = (n + 1 + length z) mod 64"
      using buffer_length [OF init_ok, of "msg @ [0x80] @ z"] st(2) c2 by (simp add: sha256_init_def n_def)
    moreover have "64 dvd (n + 1 + length z) + 8" using padding_fits [of n] by (simp add: padding_is z_def ac_simps)
    then have "((n + 1 + length z) mod 64 + 8) mod 64 = 0" by (simp add: mod_add_left_eq dvd_eq_mod_eq_0)
    ultimately have "(length r + 8) mod 64 = 0" by simp
    moreover have "length r < 64" using full_blocks_rest [of "sc_state sha256_init" "msg @ [0x80] @ z"] sr by simp
    ultimately have "length r = 56" by presburger
    then show ?thesis by (simp add: lb_def)
  qed
  then have "full_blocks s (r @ lb) = (sha256_compress s (r @ lb), [])"
    by (simp add: full_blocks.simps [of s "r @ lb"] full_blocks_short)
  then have "blocks_of (chunks64 (msg @ padding n)) (sc_state sha256_init) = sha256_compress s (r @ lb)"
    using full full_blocks_chunks [of "msg @ padding n"] padding_fits [of n] by (simp add: n_def)
  then show ?thesis
    unfolding sha256_spec_def fips_H0_is
    by (simp add: bb_sha256_def sha256_final_def fin bits st Let_def n_def [symmetric] lb_def word_bytes_be)
qed

lemma sha256_parts: "sha256_final (sha256_update y (sha256_update x sha256_init)) = bb_sha256 (x @ y)"
  by (simp add: bb_sha256_def update_append [OF init_ok])

text \<open>HMAC of RFC 2104, over the specification of the hash.\<close>

definition hmac_key :: "u8 list \<Rightarrow> u8 list" where
  "hmac_key key =
     (let k = (if length key > 64 then sha256_spec key else key) in k @ replicate (64 - length k) 0)"

definition hmac_spec :: "u8 list \<Rightarrow> u8 list \<Rightarrow> u8 list" where
  "hmac_spec key msg =
     sha256_spec (map (\<lambda>b. b XOR 0x5c) (hmac_key key) @
       sha256_spec (map (\<lambda>b. b XOR 0x36) (hmac_key key) @ msg))"

lemma length_sha256_spec [simp]: "length (sha256_spec m) = 32"
  by (simp add: sha256_spec_def be_bytes_def split: prod.splits)

lemma hmac_init_spec:
  "hmac_init key = \<lparr>hc_inner = sha256_update (map (\<lambda>b. b XOR 0x36) (hmac_key key)) sha256_init,
                    hc_outer_primed = sha256_update (map (\<lambda>b. b XOR 0x5c) (hmac_key key)) sha256_init\<rparr>"
  by (simp add: hmac_init_def hmac_key_def sha256_is_spec BB_SHA256_BLOCK_SIZE_def Let_def)

lemma hmac_updates: "hmac_final (fold hmac_update ms (hmac_init key)) = hmac_spec key (concat ms)"
proof -
  have "fold hmac_update ms \<lparr>hc_inner = sha256_update x sha256_init, hc_outer_primed = o'\<rparr> =
      \<lparr>hc_inner = sha256_update (x @ concat ms) sha256_init, hc_outer_primed = o'\<rparr>" for x o'
    by (induction ms arbitrary: x) (simp_all add: hmac_update_def update_append [OF init_ok])
  then show ?thesis
    unfolding hmac_init_spec
    by (simp add: hmac_final_def hmac_spec_def sha256_parts sha256_is_spec [symmetric] bb_sha256_def Let_def)
qed

section \<open>SHA-1\<close>

lemma grow_to_56: "grow_to_56 n = n + (120 - n mod 64) mod 64"
proof (induction n rule: grow_to_56.induct)
  case (1 n)
  show ?case
  proof (cases "n mod 64 = 56")
    case False
    define k k' where "k = n mod 64" and "k' = Suc n mod 64"
    have "k < 64" "k \<noteq> 56" "k' = (if k = 63 then 0 else Suc k)" using False by (simp_all add: k_def k'_def mod_Suc)
    then have "(120 - k) mod 64 = Suc ((120 - k') mod 64)" by (auto simp: distance_56)
    then have "(120 - n mod 64) mod 64 = Suc ((120 - Suc n mod 64) mod 64)" by (simp only: k_def k'_def)
    with 1 False show ?thesis by (simp add: grow_to_56.simps [of n])
  qed (simp add: grow_to_56.simps)
qed

lemma sha1_padded_spec: "sha1_padded msg = msg @ padding (length msg)"
proof -
  have "(120 - Suc (length msg) mod 64) mod 64 = (119 - length msg mod 64) mod (64 :: nat)"
    by (simp add: mod_Suc)
  then show ?thesis by (simp add: sha1_padded_def padding_is grow_to_56 Let_def)
qed

section \<open>Base64\<close>

definition index_of :: "char \<Rightarrow> u32" where
  "index_of c = of_nat (length (takeWhile (\<lambda>d. d \<noteq> c) BB_BASE64_TABLE))"

fun base64_decode :: "string \<Rightarrow> u8 list" where
  "base64_decode (p # q # r # s # rest) =
     (let t = push_bit 18 (index_of p) OR push_bit 12 (index_of q) OR push_bit 6 (index_of r) OR index_of s;
          bytes = [ucast (drop_bit 16 t), ucast (drop_bit 8 t), ucast t]
      in take (if r = CHR ''='' then 1 else if s = CHR ''='' then 2 else 3) bytes @ base64_decode rest)"
| "base64_decode _ = []"

lemma table_distinct: "distinct BB_BASE64_TABLE" and table_length: "length BB_BASE64_TABLE = 64"
  and table_no_pad: "CHR ''='' \<notin> set BB_BASE64_TABLE"
  by (simp_all add: BB_BASE64_TABLE_def)

lemma takeWhile_nth: "distinct xs \<Longrightarrow> i < length xs \<Longrightarrow> length (takeWhile (\<lambda>d. d \<noteq> xs ! i) xs) = i"
proof (induction xs arbitrary: i)
  case (Cons x xs)
  then show ?case by (cases i) auto
qed simp

lemma six_bits: "unat ((v :: u32) AND 0x3F) < 64"
proof -
  have "v AND 0x3F = take_bit 6 v" by (simp add: take_bit_eq_mask mask_eq_exp_minus_1)
  then show ?thesis using unsigned_take_bit_eq [of 6 v, where ?'a = nat] by (simp add: take_bit_eq_mod)
qed

lemma index_of_table: "index_of (BB_BASE64_TABLE ! unat (v AND 0x3F)) = (v :: u32) AND 0x3F"
  using takeWhile_nth [OF table_distinct, of "unat (v AND 0x3F)"] six_bits [of v]
  by (simp add: index_of_def table_length)

lemma table_char: "BB_BASE64_TABLE ! unat ((v :: u32) AND 0x3F) \<noteq> CHR ''=''"
  using table_no_pad six_bits [of v] by (metis nth_mem table_length)

lemma regroup:
  fixes t :: u32
  shows "push_bit 18 (drop_bit 18 t AND 0x3F) OR push_bit 12 (drop_bit 12 t AND 0x3F) OR
    push_bit 6 (drop_bit 6 t AND 0x3F) OR (t AND 0x3F) = take_bit 24 t"
proof (rule bit_word_eqI)
  fix i assume i: "i < LENGTH(32)"
  have m: "v AND 0x3F = take_bit 6 v" for v :: u32 by (simp add: take_bit_eq_mask mask_eq_exp_minus_1)
  consider "i < 6" | "6 \<le> i" "i < 12" | "12 \<le> i" "i < 18" | "18 \<le> i" "i < 24" | "24 \<le> i" by linarith
  then show "bit (push_bit 18 (drop_bit 18 t AND 0x3F) OR push_bit 12 (drop_bit 12 t AND 0x3F) OR
    push_bit 6 (drop_bit 6 t AND 0x3F) OR (t AND 0x3F)) i = bit (take_bit 24 t) i"
    using i unfolding m by cases (auto simp: bit_simps)
qed

definition triple :: "u8 \<Rightarrow> u8 \<Rightarrow> u8 \<Rightarrow> u32" where
  "triple a b c = push_bit 16 (ucast a) OR push_bit 8 (ucast b) OR ucast c"

lemma triple_high: "ucast (drop_bit 16 (take_bit 24 (triple a b c))) = a"
  by (rule bit_word_eqI) (auto simp: triple_def bit_simps dest: bit_imp_le_length)

lemma triple_mid: "ucast (drop_bit 8 (take_bit 24 (triple a b c))) = b"
  by (rule bit_word_eqI) (auto simp: triple_def bit_simps dest: bit_imp_le_length)

lemma triple_low: "ucast (take_bit 24 (triple a b c)) = c"
  by (rule bit_word_eqI) (auto simp: triple_def bit_simps dest: bit_imp_le_length)

text \<open>The low places do not reach the high bytes.\<close>

lemma low_places:
  assumes "take_bit 7 (v :: u32) = v"
  shows "drop_bit 16 (push_bit 6 v) = 0" and "drop_bit 16 v = 0" and "drop_bit 8 v = 0"
proof -
  have "drop_bit 16 (push_bit 6 (take_bit 7 v)) = 0"
    by (rule bit_word_eqI) (auto simp: bit_simps)
  then show "drop_bit 16 (push_bit 6 v) = 0" by (simp only: assms)
  have "drop_bit 16 (take_bit 7 v) = 0" "drop_bit 8 (take_bit 7 v) = 0"
    by (simp_all add: drop_bit_take_bit)
  then show "drop_bit 16 v = 0" "drop_bit 8 v = 0" by (simp_all only: assms)
qed

lemma six_seven: "take_bit 7 ((v :: u32) AND 0x3F) = v AND 0x3F" "take_bit 7 (64 :: u32) = 64"
proof -
  have "v AND 0x3F = take_bit 6 v" by (simp add: take_bit_eq_mask mask_eq_exp_minus_1)
  then show "take_bit 7 (v AND 0x3F) = v AND 0x3F" by simp
qed simp

lemma three_more: "(Suc (Suc (Suc n)) + 2) div 3 = Suc ((n + 2) div 3)" "Suc (Suc (Suc n)) mod 3 = n mod 3"
  by presburger+

text \<open>What the encoder writes, group by group.\<close>

fun base64_text :: "u8 list \<Rightarrow> string" where
  "base64_text [] = []"
| "base64_text [a] = take 2 (base64_quad a 0 0) @ ''==''"
| "base64_text [a, b] = take 3 (base64_quad a b 0) @ ''=''"
| "base64_text (a # b # c # rest) = base64_quad a b c @ base64_text rest"

lemma length_quad [simp]: "length (base64_quad a b c) = 4"
  by (simp add: base64_quad_def Let_def)

lemma quad_list: "\<exists>p q r s. base64_quad a b c = [p, q, r, s]"
  by (simp add: base64_quad_def Let_def)

lemma length_groups: "length (base64_groups d) = 4 * ((length d + 2) div 3)"
proof (induction d rule: base64_groups.induct)
  case (4 a b c rest)
  then show ?case using three_more(1) [of "length rest"] by simp
qed simp_all

lemma encode_text: "bb_base64_encode True data = Some (base64_text data)"
proof -
  define pads where "pads = (\<lambda>n. [0, 2, 1] ! (n mod 3) :: nat)"
  have "foldl (\<lambda>out k. out[length (base64_groups data) - 1 - k := CHR ''='']) (base64_groups data) [0..<pads (length data)] =
      base64_text data"
  proof (induction data rule: base64_text.induct)
    case (2 a)
    obtain p q r s where "base64_quad a 0 0 = [p, q, r, s]" using quad_list by blast
    then show ?case by (simp add: pads_def upt_conv_Cons)
  next
    case (3 a b)
    obtain p q r s where "base64_quad a b 0 = [p, q, r, s]" using quad_list by blast
    moreover have "pads (length [a, b]) = 1" by (simp add: pads_def)
    moreover have "[p, q, r, s][3 := CHR ''=''] = [p, q, r, CHR ''='']" by (simp add: numeral_3_eq_3)
    ultimately show ?case by simp
  next
    case (4 a b c rest)
    define g where "g = base64_groups rest"
    have p: "pads (length (a # b # c # rest)) = pads (length rest)"
      using three_more(2) [of "length rest"] by (simp add: pads_def)
    have small: "pads n \<le> 2" for n
    proof -
      have "n mod 3 = 0 \<or> n mod 3 = 1 \<or> n mod 3 = 2" by presburger
      then show ?thesis by (auto simp: pads_def)
    qed
    have "pads (length rest) \<le> length g"
    proof (cases rest)
      case (Cons x xs)
      have "1 \<le> (length rest + 2) div 3" by (simp add: Cons)
      then have "4 \<le> length g" unfolding g_def length_groups by linarith
      with small [of "length rest"] show ?thesis by linarith
    qed (simp add: pads_def)
    then have "foldl (\<lambda>out k. out[4 + length g - 1 - k := CHR ''='']) (base64_quad a b c @ g) [0..<m] =
        base64_quad a b c @ foldl (\<lambda>out k. out[length g - 1 - k := CHR ''='']) g [0..<m]" if "m \<le> pads (length rest)" for m
      using that
    proof (induction m)
      case (Suc m)
      then have "\<not> 3 + length g - m < 4" "3 + length g - m - 4 = length g - Suc m"
        using \<open>pads (length rest) \<le> length g\<close> by linarith+
      with Suc show ?case by (simp add: list_update_append)
    qed simp
    from this [of "pads (length rest)"] 4 p show ?case by (simp add: g_def)
  qed (simp add: pads_def)
  then show ?thesis by (simp add: bb_base64_encode_def length_groups pads_def Let_def)
qed

lemma quad_triple:
  "base64_quad a b c = map (\<lambda>k. BB_BASE64_TABLE ! unat (drop_bit k (triple a b c) AND 0x3F)) [18, 12, 6, 0]"
  by (simp add: base64_quad_def triple_def Let_def)

lemma index_of_pad: "index_of (CHR ''='') = 64"
  by (simp add: index_of_def BB_BASE64_TABLE_def)

text \<open>What the low places hold does not matter for the bytes above them.\<close>

lemma high_byte:
  assumes "take_bit 7 x = x" and "take_bit 7 y = y" and "take_bit 7 x' = x'" and "take_bit 7 y' = y'"
  shows "drop_bit 16 (p OR q OR push_bit 6 x OR y) = drop_bit 16 (p OR q OR push_bit 6 x' OR (y' :: u32))"
  using assms by (simp add: drop_bit_or low_places)

lemma mid_byte:
  assumes "take_bit 7 y = y" and "take_bit 7 y' = y'"
  shows "drop_bit 8 (p OR q OR r OR y) = drop_bit 8 (p OR q OR r OR (y' :: u32))"
  using assms by (simp add: drop_bit_or low_places)

lemma decode_text: "base64_decode (base64_text data) = data"
proof (induction data rule: base64_text.induct)
  case (2 a)
  define t where "t = triple a 0 0"
  have "drop_bit 16 (push_bit 18 (drop_bit 18 t AND 0x3F) OR push_bit 12 (drop_bit 12 t AND 0x3F) OR push_bit 6 64 OR 64) =
      drop_bit 16 (take_bit 24 t)"
    unfolding regroup [symmetric] by (rule high_byte; rule six_seven)
  then show ?case
    using triple_high [of a 0 0]
    by (simp add: quad_triple index_of_table index_of_pad t_def del: push_bit_numeral)
next
  case (3 a b)
  define t where "t = triple a b 0"
  have "drop_bit 16 (push_bit 18 (drop_bit 18 t AND 0x3F) OR push_bit 12 (drop_bit 12 t AND 0x3F) OR
      push_bit 6 (drop_bit 6 t AND 0x3F) OR 64) = drop_bit 16 (take_bit 24 t)"
    unfolding regroup [symmetric] by (rule high_byte; rule six_seven)
  moreover have "drop_bit 8 (push_bit 18 (drop_bit 18 t AND 0x3F) OR push_bit 12 (drop_bit 12 t AND 0x3F) OR
      push_bit 6 (drop_bit 6 t AND 0x3F) OR 64) = drop_bit 8 (take_bit 24 t)"
    unfolding regroup [symmetric] by (rule mid_byte; rule six_seven)
  ultimately show ?case
    using triple_high [of a b 0] triple_mid [of a b 0]
    by (simp add: quad_triple index_of_table index_of_pad table_char t_def del: push_bit_numeral)
next
  case (4 a b c rest)
  then show ?case
    using triple_high [of a b c, folded regroup] triple_mid [of a b c, folded regroup] triple_low [of a b c, folded regroup]
    by (simp add: quad_triple index_of_table table_char)
qed simp_all

section \<open>Properties\<close>

text \<open>C39: SHA-256, fed in any pieces, is the SHA-256 of FIPS 180-4 of their concatenation, and HMAC-SHA-256,
  fed in any pieces from a primed context, is the HMAC of RFC 2104 of their concatenation. The
  standard is stated on its own: its round constants and its initial hash value come from the
  cube and square roots of the first primes, and its schedule, its rounds and its padding do
  not use those of the code.\<close>

theorem hashes_are_the_standards:
  "sha256_final (fold sha256_update pieces sha256_init) = sha256_spec (concat pieces) \<and>
   hmac_final (fold hmac_update pieces (hmac_init key)) = hmac_spec key (concat pieces) \<and>
   bb_hmac_sha256 key msg = hmac_spec key msg"
proof -
  have "fold sha256_update ms (sha256_update x sha256_init) = sha256_update (x @ concat ms) sha256_init" for ms x
    by (induction ms arbitrary: x) (simp_all add: update_append [OF init_ok])
  moreover have "sha256_update [] sha256_init = sha256_init"
    by (simp add: sha256_update_blocks [OF init_ok]) (simp add: sha256_init_def full_blocks_short)
  ultimately have "fold sha256_update pieces sha256_init = sha256_update (concat pieces) sha256_init"
    by (metis append_Nil)
  moreover have "bb_hmac_sha256 key msg = hmac_spec key msg"
    using hmac_updates [of "[msg]" key] by (simp add: bb_hmac_sha256_def)
  ultimately show ?thesis
    by (simp add: hmac_updates sha256_is_spec [symmetric] bb_sha256_def)
qed

text \<open>Base64 loses nothing: the encoding of any bytes decodes to them, and its length is four
  characters for every three bytes begun.\<close>

theorem base64_round_trip:
  "\<exists>text. bb_base64_encode True data = Some text \<and> base64_decode text = data \<and>
     length text = 4 * ((length data + 2) div 3)"
proof -
  have "length (base64_text data) = 4 * ((length data + 2) div 3)"
  proof (induction data rule: base64_text.induct)
    case (4 a b c rest)
    then show ?case using three_more(1) [of "length rest"] by simp
  qed simp_all
  then show ?thesis by (simp add: encode_text decode_text)
qed

end
