(* ===== verification/Http_Message.thy ===== *)
theory Http_Message
  imports Connection Http_Theorems
begin

text \<open>
  HTTP messages and responses (\<open>modules/web/src/http/message.c\<close>, \<open>response.c\<close>): the start line, the
  headers and the body of a message, and its serialisation. C strings are \<open>char\<close> lists, cut at
  their first zero where the code uses a string function on them; a pointer that may be null is an
  option. The outcome of the \<open>n\<close>-th allocation of an operation is \<open>mem n\<close>. \<open>None\<close> as the result of an
  operation is undefined behaviour: a null pointer read, or a copy outside a buffer.
\<close>

section \<open>Messages\<close>

record msg_header =
  mh_name :: string
  mh_value :: string

text \<open>\<open>ms_body\<close> is the memory the body points to, its terminating zero included.\<close>

record http_message =
  ms_start_line :: "string option"
  ms_headers :: "msg_header list"
  ms_body :: "string option"
  ms_body_len :: nat

definition empty_message :: http_message where
  "empty_message = \<lparr>ms_start_line = None, ms_headers = [], ms_body = None, ms_body_len = 0\<rparr>"

definition bb_message_create :: "bool \<Rightarrow> http_message option" where
  "bb_message_create ok = (if ok then Some empty_message else None)"

definition message_reset :: "http_message \<Rightarrow> http_message" where
  "message_reset msg =
     (let msg = msg\<lparr>ms_headers := []\<rparr>;
          msg = (if ms_body msg \<noteq> None then msg\<lparr>ms_body := None, ms_body_len := 0\<rparr> else msg)
      in msg\<lparr>ms_start_line := None\<rparr>)"

definition bb_message_reset :: "http_message option \<Rightarrow> http_message option" where
  "bb_message_reset msg = map_option message_reset msg"

definition set_start_line :: "bool \<Rightarrow> string option \<Rightarrow> http_message \<Rightarrow> http_message" where
  "set_start_line ok line msg =
     (case line of
        None \<Rightarrow> msg\<lparr>ms_start_line := None\<rparr>
      | Some s \<Rightarrow> msg\<lparr>ms_start_line := if ok then Some (cstr s) else None\<rparr>)"

definition bb_message_set_start_line ::
  "bool \<Rightarrow> string option \<Rightarrow> http_message option \<Rightarrow> http_message option" where
  "bb_message_set_start_line ok line msg = map_option (set_start_line ok line) msg"

definition get_header :: "string \<Rightarrow> http_message \<Rightarrow> string option" where
  "get_header name msg = map_option mh_value (find (\<lambda>h. mh_name h = cstr name) (ms_headers msg))"

text \<open>The scan of \<open>bb_message_set_header\<close>: the first header of that name gets the new value.\<close>

fun replace_header :: "string \<Rightarrow> string \<Rightarrow> msg_header list \<Rightarrow> msg_header list option" where
  "replace_header name value [] = None"
| "replace_header name value (h # hs) =
     (if mh_name h = name then Some (h\<lparr>mh_value := value\<rparr> # hs)
      else map_option ((#) h) (replace_header name value hs))"

definition set_header :: "(nat \<Rightarrow> bool) \<Rightarrow> string \<Rightarrow> string \<Rightarrow> http_message \<Rightarrow> http_message" where
  "set_header mem name value msg =
     (case replace_header (cstr name) (cstr value) (ms_headers msg) of
        Some hs \<Rightarrow> if mem 0 then msg\<lparr>ms_headers := hs\<rparr> else msg
      | None \<Rightarrow>
          if \<not> mem 0 then msg
          else if \<not> mem 1 then msg
          else if \<not> mem 2 then msg
          else msg\<lparr>ms_headers := ms_headers msg @ [\<lparr>mh_name = cstr name, mh_value = cstr value\<rparr>]\<rparr>)"

definition bb_message_get_header_count :: "http_message \<Rightarrow> nat" where
  "bb_message_get_header_count msg = length (ms_headers msg)"

text \<open>\<open>bb_message_set_body_data\<close>; \<open>body\<close> is the memory given, \<open>None\<close> a null pointer.\<close>

definition set_body_data ::
  "bool \<Rightarrow> string option \<Rightarrow> nat \<Rightarrow> http_message \<Rightarrow> http_message option" where
  "set_body_data ok body len msg =
     (let msg = msg\<lparr>ms_body := None, ms_body_len := 0\<rparr>
      in if len = 0 then Some msg
         else case body of
                None \<Rightarrow> Some msg
              | Some b \<Rightarrow>
                  if \<not> ok then Some msg
                  else if length b < len then None
                  else Some (msg\<lparr>ms_body := Some (take len b @ [NUL]), ms_body_len := len\<rparr>))"

definition set_body :: "bool \<Rightarrow> string option \<Rightarrow> http_message \<Rightarrow> http_message option" where
  "set_body ok body msg =
     (case body of
        None \<Rightarrow> set_body_data ok None 0 msg
      | Some b \<Rightarrow> set_body_data ok (Some b) (length (cstr b)) msg)"

definition bb_message_get_body_len :: "http_message \<Rightarrow> int" where
  "bb_message_get_body_len msg = sint (of_nat (ms_body_len msg) :: 32 word)"

section \<open>Serialisation\<close>

definition header_line :: "msg_header \<Rightarrow> string" where
  "header_line h = mh_name h @ '': '' @ mh_value h @ [CR, LF]"

definition serialized_size :: "http_message \<Rightarrow> nat" where
  "serialized_size msg =
     (case ms_start_line msg of Some s \<Rightarrow> length s + 2 | None \<Rightarrow> 2) +
     sum_list (map (\<lambda>h. length (mh_name h) + length (mh_value h) + 4) (ms_headers msg)) +
     2 + ms_body_len msg"

definition serialized :: "string \<Rightarrow> msg_header list \<Rightarrow> string \<Rightarrow> string" where
  "serialized start hs body = start @ [CR, LF] @ concat (map header_line hs) @ [CR, LF] @ body"

text \<open>
  \<open>bb_message_serialize\<close>: the return value, the buffer and the size, and the message with its
  \<open>Content-Length\<close>. Without a buffer only the size is computed.
\<close>

definition message_serialize ::
  "(nat \<Rightarrow> bool) \<Rightarrow> bool \<Rightarrow> http_message \<Rightarrow> ((int \<times> string \<times> nat) \<times> http_message) option" where
  "message_serialize mem buffer msg =
     (let body_len = ms_body_len msg;
          msg = set_header mem ''Content-Length'' (snprintf 256 (show_nat body_len)) msg;
          needed = serialized_size msg
      in if \<not> buffer then Some ((0, [], needed), msg)
         else if \<not> mem 3 then Some ((-1, [], 0), msg)
         else case ms_start_line msg of
                None \<Rightarrow> None
              | Some start \<Rightarrow>
                  (case (if body_len > 0 then ms_body msg else Some []) of
                     None \<Rightarrow> None
                   | Some body \<Rightarrow>
                       if length body < body_len then None
                       else let out = serialized start (ms_headers msg) (take body_len body)
                            in if length out > needed then None
                               else Some ((0, out, length out), msg)))"

section \<open>Responses\<close>

record bb_response =
  re_msg :: "http_message option"
  re_status :: int

definition status_text_for_code :: "int \<Rightarrow> string" where
  "status_text_for_code code =
     (if code = 200 then ''OK''
      else if code = 201 then ''Created''
      else if code = 204 then ''No Content''
      else if code = 301 then ''Moved Permanently''
      else if code = 302 then ''Found''
      else if code = 400 then ''Bad Request''
      else if code = 401 then ''Unauthorized''
      else if code = 403 then ''Forbidden''
      else if code = 404 then ''Not Found''
      else if code = 500 then ''Internal Server Error''
      else if code = 503 then ''Service Unavailable''
      else ''Unknown'')"

definition bb_response_create :: "bool \<Rightarrow> bool \<Rightarrow> bb_response option" where
  "bb_response_create ok msg_ok =
     (if ok then Some \<lparr>re_msg = bb_message_create msg_ok, re_status = 200\<rparr> else None)"

definition response_reset :: "bool \<Rightarrow> bb_response \<Rightarrow> bb_response" where
  "response_reset msg_ok res =
     (let res = res\<lparr>re_status := 200\<rparr>
      in case re_msg res of
           None \<Rightarrow> res\<lparr>re_msg := bb_message_create msg_ok\<rparr>
         | Some msg \<Rightarrow> res\<lparr>re_msg := Some (message_reset msg)\<rparr>)"

definition bb_response_set_status :: "int \<Rightarrow> bb_response \<Rightarrow> bb_response" where
  "bb_response_set_status code res = res\<lparr>re_status := code\<rparr>"

definition bb_response_get_status :: "bb_response option \<Rightarrow> int" where
  "bb_response_get_status res = (case res of None \<Rightarrow> -1 | Some r \<Rightarrow> re_status r)"

definition response_start_line :: "int \<Rightarrow> string" where
  "response_start_line code = snprintf 128 (''HTTP/1.1 '' @ show_int code @ '' '' @ status_text_for_code code)"

definition response_serialize ::
  "(nat \<Rightarrow> bool) \<Rightarrow> bool \<Rightarrow> bb_response \<Rightarrow> ((int \<times> string \<times> nat) \<times> bb_response) option" where
  "response_serialize mem buffer res =
     (case bb_message_set_start_line (mem 4) (Some (response_start_line (re_status res))) (re_msg res) of
        None \<Rightarrow> None
      | Some msg \<Rightarrow>
          map_option (\<lambda>(r, msg). (r, res\<lparr>re_msg := Some msg\<rparr>)) (message_serialize mem buffer msg))"

text \<open>Copying the headers of a parsed message; the \<open>i\<close>-th one allocates from \<open>mem i\<close>.\<close>

fun copy_headers :: "(nat \<Rightarrow> nat \<Rightarrow> bool) \<Rightarrow> nat \<Rightarrow> http_header list \<Rightarrow> http_message \<Rightarrow> http_message" where
  "copy_headers mem i [] msg = msg"
| "copy_headers mem i (h # hs) msg =
     copy_headers mem (i + 1) hs (set_header (mem i) (hh_name h) (hh_value h) msg)"

definition response_from_parsed ::
  "bool \<Rightarrow> bool \<Rightarrow> (nat \<Rightarrow> nat \<Rightarrow> bool) \<Rightarrow> http_response option \<Rightarrow> bb_response \<Rightarrow> (int \<times> bb_response) option" where
  "response_from_parsed line_ok body_ok mem parsed res =
     (case (parsed, re_msg res) of
        (Some p, Some _) \<Rightarrow>
          (let res = (response_reset True res)\<lparr>re_status := int (rs_status p)\<rparr>;
               start_line = snprintf (MAX_REQUEST_LINE + 32)
                 (''HTTP/'' @ show_nat (rs_major p) @ ''.'' @ show_nat (rs_minor p) @ '' '' @
                  show_nat (rs_status p) @ (if rs_reason p \<noteq> [] then '' '' else []) @ rs_reason p)
           in case re_msg res of
                None \<Rightarrow> None
              | Some msg \<Rightarrow>
                  let msg = set_start_line line_ok (Some start_line) msg;
                      msg = copy_headers mem 0 (rs_headers p) msg
                  in map_option (\<lambda>msg. (0, res\<lparr>re_msg := Some msg\<rparr>))
                       (set_body_data body_ok (Some (rs_body p)) (length (rs_body p)) msg))
      | _ \<Rightarrow> Some (-1, res))"

end
