(* ===== verification/Server_Request.thy ===== *)
theory Server_Request
  imports Http_Message
begin

text \<open>
  Server requests (\<open>modules/web/src/http/server_request.c\<close>): the parsed message with its method,
  decoded path, route and query parameters. The character arrays of the struct are lists; a string
  copied into one is cut to its size.
\<close>

section \<open>State\<close>

definition REQ_METHOD_SIZE :: nat where "REQ_METHOD_SIZE = 8"
definition PATH_SIZE :: nat where "PATH_SIZE = 256"
definition VERSION_SIZE :: nat where "VERSION_SIZE = 16"
definition MAX_PARAMS :: nat where "MAX_PARAMS = 10"
definition MAX_PARAM_NAME :: nat where "MAX_PARAM_NAME = 64"
definition MAX_PARAM_VALUE :: nat where "MAX_PARAM_VALUE = 256"
definition MAX_QUERY_PARAMS :: nat where "MAX_QUERY_PARAMS = 10"
definition MAX_QUERY_PARAM_KEY :: nat where "MAX_QUERY_PARAM_KEY = 64"
definition MAX_QUERY_PARAM_VALUE :: nat where "MAX_QUERY_PARAM_VALUE = 256"

record server_request =
  sr_msg :: "http_message option"
  sr_method :: string
  sr_path :: string
  sr_version :: string
  sr_params :: "(string \<times> string) list"
  sr_query :: "(string \<times> string) list"

text \<open>\<open>init\<close> sets some fields of memory that is not initialised, hence its argument.\<close>

definition bb_server_request_init :: "bool \<Rightarrow> server_request \<Rightarrow> server_request" where
  "bb_server_request_init msg_ok req = req\<lparr>sr_msg := bb_message_create msg_ok, sr_params := [], sr_query := []\<rparr>"

definition bb_server_request_reset :: "server_request \<Rightarrow> server_request" where
  "bb_server_request_reset req = req\<lparr>sr_msg := bb_message_reset (sr_msg req), sr_params := [], sr_query := []\<rparr>"

definition server_add_param :: "string \<Rightarrow> string \<Rightarrow> server_request \<Rightarrow> int \<times> server_request" where
  "server_add_param key value req =
     (if length (sr_params req) \<ge> MAX_PARAMS then (-1, req)
      else (0, req\<lparr>sr_params := sr_params req @
                  [(take (MAX_PARAM_NAME - 1) (cstr key), take (MAX_PARAM_VALUE - 1) (cstr value))]\<rparr>))"

definition server_get_param :: "string \<Rightarrow> server_request \<Rightarrow> string option" where
  "server_get_param name req = map_option snd (find (\<lambda>p. fst p = name) (sr_params req))"

definition server_add_query_param :: "string \<Rightarrow> string \<Rightarrow> server_request \<Rightarrow> int \<times> server_request" where
  "server_add_query_param key value req =
     (if length (sr_query req) \<ge> MAX_QUERY_PARAMS then (-1, req)
      else if length key \<ge> MAX_QUERY_PARAM_KEY \<or> length value \<ge> MAX_QUERY_PARAM_VALUE then (-1, req)
      else (0, req\<lparr>sr_query := sr_query req @ [(key, value)]\<rparr>))"

definition server_get_query_param :: "string \<Rightarrow> server_request \<Rightarrow> string option" where
  "server_get_query_param key req = map_option snd (find (\<lambda>p. fst p = key) (sr_query req))"

definition server_set_method :: "string option \<Rightarrow> server_request \<Rightarrow> int \<times> server_request" where
  "server_set_method mtd req =
     (case mtd of
        None \<Rightarrow> (-1, req)
      | Some m \<Rightarrow> if length m \<ge> REQ_METHOD_SIZE then (-1, req) else (0, req\<lparr>sr_method := m\<rparr>))"

definition server_set_path :: "string option \<Rightarrow> server_request \<Rightarrow> int \<times> server_request" where
  "server_set_path path req =
     (case path of
        None \<Rightarrow> (-1, req)
      | Some s \<Rightarrow> if length s \<ge> PATH_SIZE then (-1, req) else (0, req\<lparr>sr_path := s\<rparr>))"

section \<open>Decoding\<close>

definition is_valid_decoded_path_char :: "char \<Rightarrow> bool" where
  "is_valid_decoded_path_char c \<longleftrightarrow>
     \<not> (ord c < 0x20 \<or> ord c = 0x7F) \<and>
     c \<notin> set [CHR '' '', CHR 0x22, CHR ''<'', CHR ''>'', CHR 0x5C, CHR ''^'', CHR 0x60, CHR ''{'', CHR ''|'', CHR ''}'']"

text \<open>
  The loop of \<open>decode_path\<close>: \<open>out\<close> is what \<open>dst\<close> holds. The code's \<open>hex_value\<close> is the one of the
  parser, a second copy of it.
\<close>

fun decode_path_loop :: "nat \<Rightarrow> string \<Rightarrow> string \<Rightarrow> string option" where
  "decode_path_loop cap out [] = Some out"
| "decode_path_loop cap out (c # cs) =
     (if c = CHR ''%'' then
        (case cs of
           a # b # rest \<Rightarrow>
             (case decode_octet a b of
                None \<Rightarrow> None
              | Some d \<Rightarrow>
                  let c = char_of d in
                  if c = CHR ''/'' \<or> c = CHR 0x5C then None
                  else if \<not> is_valid_decoded_path_char c then None
                  else if length out + 1 \<ge> cap then None
                  else decode_path_loop cap (out @ [c]) rest)
         | _ \<Rightarrow> None)
      else if \<not> is_valid_decoded_path_char c then None
      else if length out + 1 \<ge> cap then None
      else decode_path_loop cap (out @ [c]) cs)"

definition decode_path :: "nat \<Rightarrow> string \<Rightarrow> string option" where
  "decode_path cap src =
     (if cap = 0 \<or> src = [] then None
      else case decode_path_loop cap [] src of
             None \<Rightarrow> None
           | Some out \<Rightarrow> if out = [] \<or> out ! 0 \<noteq> CHR ''/'' then None else Some out)"

function dot_loop :: "string \<Rightarrow> bool" where
  "dot_loop segment =
     (let s = takeWhile (\<lambda>c. c \<noteq> CHR ''/'') segment in
      if (length s = 1 \<and> s ! 0 = CHR ''.'') \<or> (length s = 2 \<and> s ! 0 = CHR ''.'' \<and> s ! 1 = CHR ''.'')
      then True
      else case dropWhile (\<lambda>c. c \<noteq> CHR ''/'') segment of [] \<Rightarrow> False | _ # rest \<Rightarrow> dot_loop rest)"
  by pat_completeness auto
termination
proof (relation "measure length", goal_cases)
  case (2 segment s c rest)
  have "length (c # rest) \<le> length segment" unfolding 2(3) [symmetric] by (rule length_dropWhile_le)
  then show ?case by simp
qed simp

declare dot_loop.simps [simp del]

definition has_dot_segment :: "string \<Rightarrow> bool" where
  "has_dot_segment path = dot_loop (case path of c # cs \<Rightarrow> if c = CHR ''/'' then cs else path | [] \<Rightarrow> [])"

fun decode_query_component :: "nat \<Rightarrow> string \<Rightarrow> string \<Rightarrow> string option" where
  "decode_query_component cap out [] = (if cap = 0 then None else Some out)"
| "decode_query_component cap out (c # cs) =
     (if cap = 0 then None
      else if c = CHR ''%'' then
        (case cs of
           a # b # rest \<Rightarrow>
             (case decode_octet a b of
                None \<Rightarrow> None
              | Some d \<Rightarrow>
                  let c = char_of d in
                  if c = NUL \<or> ord c < 0x20 \<or> ord c = 0x7F then None
                  else if length out + 1 \<ge> cap then None
                  else decode_query_component cap (out @ [c]) rest)
         | _ \<Rightarrow> None)
      else let c = (if c = CHR ''+'' then SP else c) in
           if c = NUL \<or> ord c < 0x20 \<or> ord c = 0x7F then None
           else if length out + 1 \<ge> cap then None
           else decode_query_component cap (out @ [c]) cs)"

text \<open>\<open>parse_query_params\<close>: one field, and the loop over the fields.\<close>

definition parse_query_field :: "string \<Rightarrow> server_request \<Rightarrow> int \<times> server_request" where
  "parse_query_field pair req =
     (if pair = [] then (-1, req)
      else if length (sr_query req) \<ge> MAX_QUERY_PARAMS then (-1, req)
      else let key = takeWhile (\<lambda>c. c \<noteq> CHR ''='') pair;
               value = drop 1 (dropWhile (\<lambda>c. c \<noteq> CHR ''='') pair)
           in if length key = 0 \<or> length key \<ge> MAX_QUERY_PARAM_KEY then (-1, req)
              else if length value \<ge> MAX_QUERY_PARAM_VALUE then (-1, req)
              else case (decode_query_component MAX_QUERY_PARAM_KEY [] key,
                         decode_query_component MAX_QUERY_PARAM_VALUE [] value) of
                     (Some k, Some v) \<Rightarrow>
                       if CHR ''='' \<in> set k \<or> CHR ''&'' \<in> set k then (-1, req)
                       else server_add_query_param k v req
                   | _ \<Rightarrow> (-1, req))"

lemma behind_shorter:
  assumes "q \<noteq> []"
  shows "length (dropWhile P q) - Suc 0 < length q"
proof -
  have "length (dropWhile P q) \<le> length q" "0 < length q" using assms by (simp_all add: length_dropWhile_le)
  then show ?thesis by linarith
qed

function query_loop :: "string \<Rightarrow> server_request \<Rightarrow> int \<times> server_request" where
  "query_loop query req =
     (if query = [] then (0, req)
      else case parse_query_field (takeWhile (\<lambda>c. c \<noteq> CHR ''&'') query) req of
             (r, req) \<Rightarrow>
               if r < 0 then (-1, req)
               else query_loop (drop 1 (dropWhile (\<lambda>c. c \<noteq> CHR ''&'') query)) req)"
  by pat_completeness auto
termination
  by (relation "measure (\<lambda>(q, r). length q)") (auto simp: behind_shorter)

declare query_loop.simps [simp del]

definition parse_query_params :: "string \<Rightarrow> server_request \<Rightarrow> int \<times> server_request" where
  "parse_query_params query req =
     (if query = [] then (0, req)
      else if last query = CHR ''&'' then (-1, req)
      else query_loop query req)"

text \<open>\<open>bb_decode_percent\<close> (\<open>modules/utils/src/encoding.c\<close>) on a C string, in place in its memory.\<close>

fun decode_percent :: "bool \<Rightarrow> string \<Rightarrow> string" where
  "decode_percent dp [] = []"
| "decode_percent dp (c # cs) =
     (if dp \<and> c = CHR ''+'' then SP # decode_percent dp cs
      else if c = CHR ''%'' then
        (case cs of
           a # b # rest \<Rightarrow>
             (case decode_octet a b of
                Some d \<Rightarrow> char_of d # decode_percent dp rest
              | None \<Rightarrow> c # decode_percent dp cs)
         | _ \<Rightarrow> c # decode_percent dp cs)
      else c # decode_percent dp cs)"

definition bb_decode_percent :: "bool \<Rightarrow> string \<Rightarrow> string" where
  "bb_decode_percent dp mem =
     (let d = decode_percent dp (cstr mem) in d @ [NUL] @ drop (length d + 1) mem)"

section \<open>From the parsed request\<close>

text \<open>
  When the path is refused, the code has written a part of it into the path array; nothing reads
  the array of a refused request, and here it keeps its contents.
\<close>

record request_env =
  qe_line :: bool
  qe_headers :: "nat \<Rightarrow> nat \<Rightarrow> bool"
  qe_body :: bool

text \<open>
  What follows the decoding of the path: the message is filled, a form body is decoded in place
  (its length is kept), and the query is parsed.
\<close>

definition form_type :: string where "form_type = ''application/x-www-form-urlencoded''"

definition fill_message :: "request_env \<Rightarrow> http_request \<Rightarrow> string \<Rightarrow> http_message \<Rightarrow> http_message option" where
  "fill_message qe parsed start_line msg =
     (let msg = set_start_line (qe_line qe) (Some start_line) msg;
          msg = copy_headers (qe_headers qe) 0 (rq_headers parsed) msg
      in case set_body_data (qe_body qe) (Some (rq_body parsed)) (length (rq_body parsed)) msg of
           None \<Rightarrow> None
         | Some msg \<Rightarrow>
             (case (get_header ''Content-Type'' msg, ms_body msg) of
                (Some t, Some b) \<Rightarrow>
                  Some (if take 33 t = form_type then msg\<lparr>ms_body := Some (bb_decode_percent True b)\<rparr> else msg)
              | _ \<Rightarrow> Some msg))"

definition request_from_parsed ::
  "request_env \<Rightarrow> http_request \<Rightarrow> server_request \<Rightarrow> (int \<times> server_request) option" where
  "request_from_parsed qe parsed req =
     (if length (rq_method parsed) \<ge> REQ_METHOD_SIZE \<or> length (rq_target parsed) \<ge> PATH_SIZE then Some (-1, req)
      else let req = bb_server_request_reset req;
               target = rq_target parsed;
               raw_path = takeWhile (\<lambda>c. c \<noteq> CHR ''?'') target;
               query = drop 1 (dropWhile (\<lambda>c. c \<noteq> CHR ''?'') target)
           in if raw_path = [] \<or> length raw_path \<ge> PATH_SIZE then Some (-1, req)
              else let req = req\<lparr>sr_method := rq_method parsed,
                                 sr_version := snprintf VERSION_SIZE
                                   (''HTTP/'' @ show_nat (rq_major parsed) @ ''.'' @ show_nat (rq_minor parsed))\<rparr>
                   in case decode_path PATH_SIZE raw_path of
                        None \<Rightarrow> Some (-1, req)
                      | Some path \<Rightarrow>
                          let req = req\<lparr>sr_path := path\<rparr>
                          in if has_dot_segment path then Some (-1, req)
                             else let start_line = snprintf (PATH_SIZE + REQ_METHOD_SIZE + VERSION_SIZE + 3)
                                        (sr_method req @ '' '' @ path @ '' '' @ sr_version req)
                                  in case sr_msg req of
                                       None \<Rightarrow> None
                                     | Some msg \<Rightarrow>
                                         (case fill_message qe parsed start_line msg of
                                            None \<Rightarrow> None
                                          | Some msg \<Rightarrow>
                                              let req = req\<lparr>sr_msg := Some msg\<rparr>
                                              in if CHR ''?'' \<in> set target
                                                 then Some (parse_query_params query req)
                                                 else Some (0, req)))"

definition bb_server_request_from_parsed ::
  "request_env \<Rightarrow> http_request option \<Rightarrow> server_request option \<Rightarrow> (int \<times> server_request option) option" where
  "bb_server_request_from_parsed qe parsed req =
     (case (parsed, req) of
        (Some p, Some r) \<Rightarrow> map_option (\<lambda>(i, r). (i, Some r)) (request_from_parsed qe p r)
      | _ \<Rightarrow> Some (-1, req))"

definition bb_server_request_parse ::
  "(nat \<Rightarrow> bool) \<Rightarrow> bool \<Rightarrow> request_env \<Rightarrow> string \<Rightarrow> server_request \<Rightarrow> (int \<times> server_request) option" where
  "bb_server_request_parse mem parser_ok qe raw req =
     (if \<not> parser_ok then Some (-1, req)
      else case parser_feed mem new_parser (Some (cstr raw)) of
             (s, p) \<Rightarrow>
               if s = PARSE_COMPLETE then
                 (case bb_http_parser_get_request (Some p) of
                    None \<Rightarrow> Some (-1, req)
                  | Some r \<Rightarrow> request_from_parsed qe r req)
               else Some (-1, req))"

end
