(* ===== verification/Router.thy ===== *)
theory Router
  imports Server_Request
begin

text \<open>
  Routes and middleware (\<open>modules/web/src/router.c\<close>, \<open>middleware.c\<close>). A handler is the number under
  which the program registered it; a linked list is the list of its elements.
\<close>

section \<open>Routes\<close>

definition MAX_SEGMENTS :: nat where "MAX_SEGMENTS = 20"
definition MAX_PATH_LEN :: nat where "MAX_PATH_LEN = 256"

datatype route_handler = HttpHandler nat | HttpCtxHandler nat nat | WsHandler nat

datatype bb_route_type = BB_ROUTE_HTTP | BB_ROUTE_WEBSOCKET

record bb_route =
  rt_type :: bb_route_type
  rt_method :: string
  rt_segments :: "string list"
  rt_handler :: route_handler

type_synonym bb_route_list = "bb_route list"

text \<open>
  \<open>split_path\<close>: \<open>segs\<close> are the segments found, \<open>cur\<close> the bytes from \<open>start\<close> on. The path ends at its
  first zero. \<open>None\<close> is the result \<open>-1\<close>.
\<close>

definition end_segment :: "string list \<Rightarrow> string \<Rightarrow> string list option" where
  "end_segment segs cur =
     (if length cur > 0
      then if length segs \<ge> MAX_SEGMENTS \<or> length cur \<ge> MAX_PATH_LEN then None else Some (segs @ [cur])
      else Some segs)"

fun split_loop :: "string list \<Rightarrow> string \<Rightarrow> string \<Rightarrow> string list option" where
  "split_loop segs cur [] = end_segment segs cur"
| "split_loop segs cur (c # cs) =
     (if c \<noteq> CHR ''/'' then split_loop segs (cur @ [c]) cs
      else case end_segment segs cur of None \<Rightarrow> None | Some segs \<Rightarrow> split_loop segs [] cs)"

definition split_path :: "string \<Rightarrow> string list option" where
  "split_path path = split_loop [] [] (cstr path)"

definition route_create ::
  "(nat \<Rightarrow> bool) \<Rightarrow> string \<Rightarrow> string \<Rightarrow> bb_route_type \<Rightarrow> route_handler \<Rightarrow> bb_error + bb_route" where
  "route_create mem mtd path type handler =
     (if \<not> mem 0 then Inl (BB_ERR_ALLOC, ''Failed to allocate route'')
      else if \<not> mem 1 then Inl (BB_ERR_ALLOC, ''Failed to allocate route method'')
      else case split_path path of
             None \<Rightarrow> Inl (BB_ERR_BAD_REQUEST, ''Route path has too many segments or a segment is too long'')
           | Some segs \<Rightarrow>
               Inr \<lparr>rt_type = type, rt_method = cstr mtd, rt_segments = segs, rt_handler = handler\<rparr>)"

definition append_route :: "bb_route \<Rightarrow> bb_route_list \<Rightarrow> bb_route_list" where
  "append_route r rs = rs @ [r]"

definition add_route ::
  "(nat \<Rightarrow> bool) \<Rightarrow> string \<Rightarrow> string \<Rightarrow> bb_route_type \<Rightarrow> route_handler \<Rightarrow> bb_route_list \<Rightarrow> bb_error \<times> bb_route_list"
where
  "add_route mem mtd path type handler rs =
     (case route_create mem mtd path type handler of
        Inl err \<Rightarrow> (err, rs)
      | Inr r \<Rightarrow> (BB_SUCCESS, append_route r rs))"

definition bb_route_list_add_http ::
  "(nat \<Rightarrow> bool) \<Rightarrow> string \<Rightarrow> string \<Rightarrow> nat \<Rightarrow> bb_route_list \<Rightarrow> bb_error \<times> bb_route_list" where
  "bb_route_list_add_http mem mtd path handler rs =
     add_route mem mtd path BB_ROUTE_HTTP (HttpHandler handler) rs"

definition bb_route_list_add_http_ctx ::
  "(nat \<Rightarrow> bool) \<Rightarrow> string \<Rightarrow> string \<Rightarrow> nat \<Rightarrow> nat \<Rightarrow> bb_route_list \<Rightarrow> bb_error \<times> bb_route_list" where
  "bb_route_list_add_http_ctx mem mtd path handler ctx rs =
     add_route mem mtd path BB_ROUTE_HTTP (HttpCtxHandler handler ctx) rs"

definition bb_route_list_add_websocket ::
  "(nat \<Rightarrow> bool) \<Rightarrow> string \<Rightarrow> nat \<Rightarrow> bb_route_list \<Rightarrow> bb_error \<times> bb_route_list" where
  "bb_route_list_add_websocket mem path handler rs =
     add_route mem ''GET'' path BB_ROUTE_WEBSOCKET (WsHandler handler) rs"

section \<open>Matching\<close>

definition is_param :: "string \<Rightarrow> bool" where
  "is_param s \<longleftrightarrow> (case s of c # _ \<Rightarrow> c = CHR '':'' | [] \<Rightarrow> False)"

fun match_loop :: "string list \<Rightarrow> string list \<Rightarrow> bool" where
  "match_loop (r # rs) (s # ss) =
     (if is_param r then match_loop rs ss else if r \<noteq> s then False else match_loop rs ss)"
| "match_loop _ _ = True"

definition match_segments :: "bb_route \<Rightarrow> string list \<Rightarrow> bool" where
  "match_segments r segs \<longleftrightarrow>
     (if length segs \<noteq> length (rt_segments r) then False else match_loop (rt_segments r) segs)"

fun bind_params :: "string list \<Rightarrow> string list \<Rightarrow> server_request \<Rightarrow> server_request" where
  "bind_params (r # rs) (s # ss) req =
     bind_params rs ss (if is_param r then snd (server_add_param (drop 1 r) s req) else req)"
| "bind_params _ _ req = req"

fun match_routes :: "string list \<Rightarrow> bb_route_list \<Rightarrow> server_request \<Rightarrow> bb_route option \<times> server_request" where
  "match_routes segs [] req = (None, req)"
| "match_routes segs (r # rs) req =
     (if sr_method req \<noteq> rt_method r then match_routes segs rs req
      else if match_segments r segs then (Some r, bind_params (rt_segments r) segs req)
      else match_routes segs rs req)"

definition bb_route_list_match :: "bb_route_list \<Rightarrow> server_request \<Rightarrow> bb_route option \<times> server_request" where
  "bb_route_list_match rs req =
     (case split_path (sr_path req) of
        None \<Rightarrow> (None, req)
      | Some segs \<Rightarrow> match_routes segs rs req)"

section \<open>Middleware\<close>

text \<open>What a handler or a middleware does with request and response, and its return value.\<close>

type_synonym http_handler = "server_request \<times> bb_response \<Rightarrow> bb_error \<times> server_request \<times> bb_response"

definition bb_middleware_list_append :: "bool \<Rightarrow> nat \<Rightarrow> nat list \<Rightarrow> nat list" where
  "bb_middleware_list_append ok mw l = (if ok then l @ [mw] else l)"

fun bb_middleware_list_run :: "(nat \<Rightarrow> http_handler) \<Rightarrow> nat list \<Rightarrow> http_handler" where
  "bb_middleware_list_run run [] x = (BB_SUCCESS, x)"
| "bb_middleware_list_run run (m # ms) x =
     (case run m x of
        (err, x) \<Rightarrow> if BB_FAILED err then (err, x) else bb_middleware_list_run run ms x)"

end
