(* ===== verification/Server.thy ===== *)
theory Server
  imports Router Websocket Hash
begin

text \<open>
  The HTTP server (\<open>modules/web/src/server.c\<close>) from the bytes of a connection to the response: the
  read step of a connection, the pipeline of routing, middleware and handler, the answers to
  failures, and the acceptance of a WebSocket upgrade (\<open>websocket.c\<close>). The program's handlers are
  parameters. Metrics, logging and the runtime tasks are left out, but for the outcome of
  creating the write task.
\<close>

section \<open>Responses of handlers\<close>

text \<open>\<open>bb_response_set_header\<close>, \<open>bb_response_set_body\<close>, \<open>bb_response_get_header\<close> of \<open>response.h\<close>.\<close>

definition response_set_header ::
  "(nat \<Rightarrow> bool) \<Rightarrow> string \<Rightarrow> string \<Rightarrow> bb_response \<Rightarrow> bb_response option" where
  "response_set_header mem name value res =
     map_option (\<lambda>m. res\<lparr>re_msg := Some (set_header mem name value m)\<rparr>) (re_msg res)"

definition response_set_body :: "bool \<Rightarrow> string \<Rightarrow> bb_response \<Rightarrow> bb_response option" where
  "response_set_body ok body res =
     (case re_msg res of
        None \<Rightarrow> Some res
      | Some m \<Rightarrow> map_option (\<lambda>m. res\<lparr>re_msg := Some m\<rparr>) (set_body ok (Some body) m))"

definition plain_answer ::
  "(nat \<Rightarrow> bool) \<Rightarrow> bool \<Rightarrow> int \<Rightarrow> string \<Rightarrow> bb_response \<Rightarrow> bb_response option" where
  "plain_answer mem ok status text res =
     Option.bind (response_set_header mem ''Content-Type'' ''text/plain'' (bb_response_set_status status res))
       (response_set_body ok text)"

text \<open>The outcome of the allocations of the pipeline.\<close>

record pipeline_env =
  pe_header :: "nat \<Rightarrow> bool"
  pe_body :: bool
  pe_key :: bool
  pe_digest :: bool
  pe_base64 :: bool
  pe_upgrade :: "nat \<Rightarrow> nat \<Rightarrow> bool"
  pe_websocket :: bool

definition default_404 :: "pipeline_env \<Rightarrow> bb_response \<Rightarrow> bb_response option" where
  "default_404 pe res = plain_answer (pe_header pe) (pe_body pe) 404 ''Route Not Found'' res"

definition default_400 :: "pipeline_env \<Rightarrow> bb_response \<Rightarrow> bb_response option" where
  "default_400 pe res = plain_answer (pe_header pe) (pe_body pe) 400 ''Bad Request'' res"

definition http_pipeline_failed :: "pipeline_env \<Rightarrow> bb_response \<Rightarrow> bb_response option" where
  "http_pipeline_failed pe res =
     (if re_status res < 400
      then plain_answer (pe_header pe) (pe_body pe) 500 ''Internal Server Error'' res
      else Some res)"

section \<open>The pipeline\<close>

record http_server =
  hs_routes :: bb_route_list
  hs_pre :: "nat list"
  hs_post :: "nat list"

text \<open>The program's code: what each registered function does.\<close>

record program =
  pg_run :: "nat \<Rightarrow> http_handler"
  pg_ctx :: "nat \<Rightarrow> nat \<Rightarrow> http_handler"

definition run_http_handler :: "program \<Rightarrow> bb_route \<Rightarrow> http_handler" where
  "run_http_handler pg r x =
     (case rt_handler r of
        HttpHandler h \<Rightarrow> pg_run pg h x
      | HttpCtxHandler h ctx \<Rightarrow> pg_ctx pg h ctx x
      | WsHandler h \<Rightarrow> pg_run pg h x)"

definition run_http_route ::
  "pipeline_env \<Rightarrow> program \<Rightarrow> http_server \<Rightarrow> bb_route \<Rightarrow> server_request \<times> bb_response \<Rightarrow>
   (bb_error \<times> bb_response) option" where
  "run_http_route pe pg sv r x =
     (case bb_middleware_list_run (pg_run pg) (hs_pre sv) x of
        (err, req, res) \<Rightarrow>
          if BB_FAILED err then map_option (Pair BB_SUCCESS) (http_pipeline_failed pe res)
          else (case run_http_handler pg r (req, res) of
                  (err, req, res) \<Rightarrow>
                    if BB_FAILED err then map_option (Pair BB_SUCCESS) (http_pipeline_failed pe res)
                    else (case bb_middleware_list_run (pg_run pg) (hs_post sv) (req, res) of
                            (err, req, res) \<Rightarrow>
                              if BB_FAILED err
                              then map_option (Pair BB_SUCCESS) (http_pipeline_failed pe res)
                              else Some (err, res))))"

section \<open>Accepting a WebSocket\<close>

fun contains :: "string \<Rightarrow> string \<Rightarrow> bool" where
  "contains pat [] = (pat = [])"
| "contains pat (c # cs) = (take (length pat) (c # cs) = pat \<or> contains pat cs)"

definition is_upgrade_request :: "http_message \<Rightarrow> bool" where
  "is_upgrade_request msg =
     (case (get_header ''Upgrade'' msg, get_header ''Connection'' msg,
            get_header ''Sec-WebSocket-Key'' msg, get_header ''Sec-WebSocket-Version'' msg) of
        (Some upgrade, Some connection, Some key, Some version) \<Rightarrow>
          if \<not> same_nocase upgrade ''websocket'' then False
          else if \<not> contains ''Upgrade'' connection \<and> \<not> contains ''upgrade'' connection then False
          else if version \<noteq> ''13'' then False
          else True
      | _ \<Rightarrow> False)"

definition BB_WS_GUID :: string where
  "BB_WS_GUID = ''258EAFA5-E914-47DA-95CA-C5AB0DC85B11''"

definition accept_key :: "pipeline_env \<Rightarrow> string \<Rightarrow> string option" where
  "accept_key pe client_key =
     (if \<not> pe_key pe then None
      else bb_base64_encode (pe_base64 pe) (bb_sha1 (pe_digest pe) (map byte_of (client_key @ BB_WS_GUID))))"

definition websocket_accept_req ::
  "pipeline_env \<Rightarrow> server_request \<Rightarrow> bb_response \<Rightarrow> (bb_error \<times> bb_response) option" where
  "websocket_accept_req pe req res =
     (case sr_msg req of
        None \<Rightarrow> None
      | Some msg \<Rightarrow>
          if \<not> is_upgrade_request msg
          then Some ((BB_ERR_BAD_REQUEST, ''Not a websocket upgrade request''), res)
          else (case get_header ''Sec-WebSocket-Key'' msg of
                  None \<Rightarrow> Some ((BB_ERR_BAD_REQUEST, ''Missing Sec-WebSocket-Key''), res)
                | Some client_key \<Rightarrow>
                    (case accept_key pe client_key of
                       None \<Rightarrow> Some ((BB_ERR_ALLOC, ''Failed to generate accept key''), res)
                     | Some key \<Rightarrow>
                         let res = bb_response_set_status 101 res in
                         map_option (Pair BB_SUCCESS)
                           (Option.bind
                              (Option.bind (response_set_header (pe_upgrade pe 0) ''Upgrade'' ''websocket'' res)
                                 (response_set_header (pe_upgrade pe 1) ''Connection'' ''Upgrade''))
                              (response_set_header (pe_upgrade pe 2) ''Sec-WebSocket-Accept'' key)))))"

text \<open>\<open>bb_websocket_accept\<close>; the connection's buffer is emptied whatever the outcome.\<close>

definition websocket_accept ::
  "pipeline_env \<Rightarrow> server_request \<Rightarrow> bb_response \<Rightarrow> bb_connection option \<Rightarrow>
   (bb_websocket option \<times> bb_response \<times> bb_connection option) option" where
  "websocket_accept pe req res conn =
     (case conn of
        None \<Rightarrow> Some (None, res, conn)
      | Some c \<Rightarrow>
          (case websocket_accept_req pe req res of
             None \<Rightarrow> None
           | Some (err, res) \<Rightarrow>
               let c = c\<lparr>cn_buffer := []\<rparr> in
               if BB_FAILED err then Some (None, res, Some c)
               else (case bb_websocket_create_with_type (pe_websocket pe) (Some (Some c)) BB_WEBSOCKET_SERVER of
                       None \<Rightarrow> Some (None, res, Some c)
                     | Some ws \<Rightarrow> Some (Some (ws\<lparr>ws_handler := True\<rparr>), res, Some c))))"

definition run_request_pipeline ::
  "pipeline_env \<Rightarrow> program \<Rightarrow> http_server \<Rightarrow> bb_connection option \<Rightarrow> server_request \<Rightarrow> bb_response \<Rightarrow>
   (bb_error \<times> bb_websocket option \<times> bb_response \<times> bb_connection option) option" where
  "run_request_pipeline pe pg sv conn req res =
     (case bb_route_list_match (hs_routes sv) req of
        (None, req) \<Rightarrow> map_option (\<lambda>res. (BB_SUCCESS, None, res, conn)) (default_404 pe res)
      | (Some r, req) \<Rightarrow>
          (case rt_type r of
             BB_ROUTE_HTTP \<Rightarrow>
               map_option (\<lambda>(err, res). (err, None, res, conn)) (run_http_route pe pg sv r (req, res))
           | BB_ROUTE_WEBSOCKET \<Rightarrow>
               map_option (\<lambda>(ws, res, conn).
                   (if ws = None then (BB_ERR_INTERNAL, ''Failed to create websocket.'') else BB_SUCCESS, ws, res, conn))
                 (websocket_accept pe req res conn)))"

section \<open>The read step\<close>

record server_task =
  tk_conn :: bb_connection
  tk_ws :: "bb_websocket option"
  tk_parser :: "http_parser option"
  tk_offset :: nat

text \<open>What one step depends on beside the connection; \<open>ve_fresh\<close> is the uninitialised request.\<close>

record step_env =
  ve_parser :: bool
  ve_feed :: "nat \<Rightarrow> bool"
  ve_request :: bool
  ve_request_msg :: bool
  ve_response :: bool
  ve_response_msg :: bool
  ve_fresh :: server_request
  ve_fill :: request_env
  ve_pipeline :: pipeline_env
  ve_close :: "nat \<Rightarrow> bool"
  ve_serialize :: "nat \<Rightarrow> bool"
  ve_node :: bool
  ve_task :: bool

text \<open>The answer to a complete request: the response handed to the serialiser, or an early return.\<close>

definition answer ::
  "step_env \<Rightarrow> program \<Rightarrow> http_server \<Rightarrow> bb_connection \<Rightarrow> http_request \<Rightarrow>
   (bb_error + bb_websocket option \<times> bb_response \<times> bb_connection) option" where
  "answer ve pg sv conn parsed =
     (if \<not> ve_request ve \<or> \<not> ve_response ve
      then Some (Inl (BB_ERR_ALLOC, ''Failed to allocate HTTP request/response.''))
      else let req = bb_server_request_init (ve_request_msg ve) (ve_fresh ve);
               res = \<lparr>re_msg = bb_message_create (ve_response_msg ve), re_status = 200\<rparr>
           in case request_from_parsed (ve_fill ve) parsed req of
                None \<Rightarrow> None
              | Some (r, req) \<Rightarrow>
                  if r \<noteq> 0 then map_option (\<lambda>res. Inr (None, res, conn)) (default_400 (ve_pipeline ve) res)
                  else (case run_request_pipeline (ve_pipeline ve) pg sv (Some conn) req res of
                          None \<Rightarrow> None
                        | Some (err, ws, res, c) \<Rightarrow>
                            if BB_FAILED err then Some (Inl err)
                            else Some (Inr (ws, res, case c of None \<Rightarrow> conn | Some c \<Rightarrow> c))))"

definition close_header :: "(nat \<Rightarrow> bool) \<Rightarrow> bb_response \<Rightarrow> bb_response option" where
  "close_header mem res =
     (if re_status res = 101 then Some res
      else case re_msg res of
             None \<Rightarrow> None
           | Some m \<Rightarrow>
               if get_header ''Connection'' m = None
               then response_set_header mem ''Connection'' ''close'' res else Some res)"

text \<open>Queueing the serialised response and scheduling the write.\<close>

definition queue_response ::
  "step_env \<Rightarrow> bb_response \<Rightarrow> server_task \<Rightarrow> (read_status \<times> server_task) option" where
  "queue_response ve res tk =
     (case response_serialize (ve_serialize ve) True res of
        None \<Rightarrow> None
      | Some ((rc, out, len), res) \<Rightarrow>
          if rc \<noteq> 0
          then Some ((BB_READ_ERROR, (BB_ERR_ALLOC, ''Failed to serialize HTTP response.'')), tk)
          else (case buffer_add (ve_node ve) (map byte_of out) (tk_conn tk) of
                  ((rc, freed), c) \<Rightarrow>
                    let tk = tk\<lparr>tk_conn := c\<rparr> in
                    if rc \<noteq> 0
                    then Some ((BB_READ_ERROR, (BB_ERR_ALLOC, ''Failed to buffer HTTP response for write.'')), tk)
                    else let c = c\<lparr>cn_state := BB_CONNECTION_WRITING\<rparr>;
                             (e, c) = create_write_task (ve_task ve) c;
                             tk = tk\<lparr>tk_conn := c\<rparr>
                         in if BB_FAILED e
                            then Some ((BB_READ_ERROR, (BB_ERR_INTERNAL, ''Couldn't schedule write task.'')), tk)
                            else Some ((BB_READ_DONE, BB_SUCCESS), tk)))"

definition server_read_step ::
  "step_env \<Rightarrow> program \<Rightarrow> http_server \<Rightarrow> server_task \<Rightarrow> (read_status \<times> server_task) option" where
  "server_read_step ve pg sv tk =
     (case (case tk_parser tk of None \<Rightarrow> bb_http_parser_create (ve_parser ve) | Some p \<Rightarrow> Some p) of
        None \<Rightarrow> Some ((BB_READ_ERROR, (BB_ERR_ALLOC, ''Failed to create HTTP parser.'')), tk)
      | Some p \<Rightarrow>
          let tk = tk\<lparr>tk_parser := Some p\<rparr> in
          if tk_offset tk > length (cn_buffer (tk_conn tk))
          then Some ((BB_READ_ERROR, (BB_ERR_INTERNAL, ''HTTP parser buffer offset is invalid.'')), tk)
          else (case parser_feed (ve_feed ve) p
                       (Some (map char_of_byte (drop (tk_offset tk) (cn_buffer (tk_conn tk))))) of
                  (s, p) \<Rightarrow>
                    let tk = tk\<lparr>tk_parser := Some p, tk_offset := tk_offset tk + hp_last_consumed p\<rparr> in
                    (case s of
                       PARSE_INCOMPLETE \<Rightarrow> Some ((BB_READ_MORE, BB_SUCCESS), tk)
                     | PARSE_ERROR \<Rightarrow> Some ((BB_READ_ERROR, (BB_ERR_BAD_REQUEST, hp_error_msg p)), tk)
                     | PARSE_COMPLETE \<Rightarrow>
                         (case answer ve pg sv (tk_conn tk) (hp_request p) of
                            None \<Rightarrow> None
                          | Some (Inl err) \<Rightarrow> Some ((BB_READ_ERROR, err), tk)
                          | Some (Inr (ws, res, c)) \<Rightarrow>
                              (case close_header (ve_close ve) res of
                                 None \<Rightarrow> None
                               | Some res \<Rightarrow> queue_response ve res (tk\<lparr>tk_ws := ws, tk_conn := c\<rparr>))))))"

end
