(* ===== verification/Web_Theorems.thy ===== *)
theory Web_Theorems
  imports Server
begin

text \<open>
  From an accepted request to the handler: what the request says about path and query, which
  route is taken, and what the client is answered.
\<close>

section \<open>Splitting paths\<close>

definition path_segments :: "string \<Rightarrow> string list" where
  "path_segments path = filter (\<lambda>s. s \<noteq> []) (split_slash path)"

definition segments_fit :: "string list \<Rightarrow> bool" where
  "segments_fit segs \<longleftrightarrow> length segs \<le> MAX_SEGMENTS \<and> (\<forall>s\<in>set segs. length s < MAX_PATH_LEN)"

lemma split_loop_spec:
  "segments_fit segs \<Longrightarrow>
   split_loop segs cur t =
   (let all = segs @ filter (\<lambda>s. s \<noteq> []) ((cur @ hd (split_slash t)) # tl (split_slash t))
    in if segments_fit all then Some all else None)"
proof (induction segs cur t rule: split_loop.induct)
  case (1 segs cur)
  then show ?case by (auto simp: end_segment_def segments_fit_def)
next
  case (2 segs cur c cs)
  show ?case
  proof (cases "c = CHR ''/''")
    case False
    with 2 show ?thesis by (simp add: split_slash_Cons del: split_slash.simps)
  next
    case True
    show ?thesis
    proof (cases "end_segment segs cur")
      case None
      then have "cur \<noteq> []" "\<not> segments_fit (segs @ [cur] @ x)" for x
        by (auto simp: end_segment_def segments_fit_def split: if_splits)
      with True None show ?thesis by simp
    next
      case (Some segs')
      then have "segments_fit segs'" "segs' = segs @ filter (\<lambda>s. s \<noteq> []) [cur]"
        using 2(3) by (auto simp: end_segment_def segments_fit_def split: if_splits)
      with 2(2) [of segs'] True Some show ?thesis
        by (cases "split_slash cs") (auto simp: Let_def)
    qed
  qed
qed

lemma split_path_spec:
  "split_path path = (if segments_fit (path_segments (cstr path)) then Some (path_segments (cstr path)) else None)"
  using split_loop_spec [of "[]" "[]" "cstr path"]
  by (cases "split_slash (cstr path)") (auto simp: split_path_def path_segments_def segments_fit_def Let_def)

section \<open>Matching\<close>

definition route_matches :: "string \<Rightarrow> string list \<Rightarrow> bb_route \<Rightarrow> bool" where
  "route_matches mtd segs r \<longleftrightarrow>
     rt_method r = mtd \<and> list_all2 (\<lambda>p s. is_param p \<or> p = s) (rt_segments r) segs"

definition bound_params :: "string list \<Rightarrow> string list \<Rightarrow> (string \<times> string) list" where
  "bound_params ps ss =
     map (\<lambda>(p, s). (take (MAX_PARAM_NAME - 1) (cstr (drop 1 p)), take (MAX_PARAM_VALUE - 1) (cstr s)))
       (filter (\<lambda>(p, s). is_param p) (zip ps ss))"

lemma match_segments_iff: "match_segments r segs \<longleftrightarrow> list_all2 (\<lambda>p s. is_param p \<or> p = s) (rt_segments r) segs"
proof -
  have "length ps = length ss \<Longrightarrow> match_loop ps ss \<longleftrightarrow> list_all2 (\<lambda>p s. is_param p \<or> p = s) ps ss" for ps ss
    by (induction ps ss rule: match_loop.induct) auto
  then show ?thesis by (auto simp: match_segments_def dest: list_all2_lengthD)
qed

lemma bind_params_spec:
  "length (sr_params req) \<le> MAX_PARAMS \<Longrightarrow>
   bind_params ps ss req = req\<lparr>sr_params := take MAX_PARAMS (sr_params req @ bound_params ps ss)\<rparr>"
proof (induction ps ss req rule: bind_params.induct)
  case (1 p ps s ss req)
  define req1 where "req1 = (if is_param p then snd (server_add_param (drop 1 p) s req) else req)"
  have "length (sr_params req1) \<le> MAX_PARAMS"
    "take MAX_PARAMS (sr_params req1 @ bound_params ps ss) = take MAX_PARAMS (sr_params req @ bound_params (p # ps) (s # ss))"
    "req1\<lparr>sr_params := x\<rparr> = req\<lparr>sr_params := x\<rparr>" for x
    using 1(2) by (auto simp: req1_def server_add_param_def bound_params_def take_Cons' Suc_diff_Suc)
  with 1 show ?case by (simp add: req1_def [symmetric])
qed (auto simp: bound_params_def)

lemma match_routes_spec:
  "match_routes segs rs req =
   (case find (route_matches (sr_method req) segs) rs of
      None \<Rightarrow> (None, req)
    | Some r \<Rightarrow> (Some r, bind_params (rt_segments r) segs req))"
  by (induction rs) (auto simp: route_matches_def match_segments_iff)

section \<open>Decoding\<close>

lemma decode_path_loop_spec:
  "decode_path_loop cap out s = Some d \<Longrightarrow>
   \<exists>e. pct_decode s = Some e \<and> d = out @ e \<and> list_all is_valid_decoded_path_char e \<and>
     map pct_decode (split_slash s) = map Some (split_slash e) \<and> (length out < cap \<longrightarrow> length d < cap)"
proof (induction cap out s rule: decode_path_loop.induct)
  case (2 cap out c cs)
  show ?case
  proof (cases "c = CHR ''%''")
    case True
    with 2(3) obtain a b rest v where cs: "cs = a # b # rest" "decode_octet a b = Some v"
      "char_of v \<noteq> CHR ''/''" "is_valid_decoded_path_char (char_of v)" "length out + 1 < cap"
      "decode_path_loop cap (out @ [char_of v]) rest = Some d"
      by (auto simp: Let_def not_le split: list.splits option.splits if_splits)
    have "char_of v \<noteq> CHR 0x5C" using cs(4) by (auto simp: is_valid_decoded_path_char_def)
    with cs 2(1) [of a "b # rest" b rest v "char_of v"] True obtain e where e: "pct_decode rest = Some e"
      "d = (out @ [char_of v]) @ e" "list_all is_valid_decoded_path_char e"
      "map pct_decode (split_slash rest) = map Some (split_slash e)" "length d < cap"
      by auto
    with True cs decode_octet_chars [OF cs(2)] show ?thesis
      by (cases "split_slash rest"; cases "split_slash e") (auto simp: split_slash_Cons)
  next
    case False
    with 2(3) have c: "is_valid_decoded_path_char c" "length out + 1 < cap" "decode_path_loop cap (out @ [c]) cs = Some d"
      by (auto simp: not_le split: if_splits)
    with 2(2) False obtain e where "pct_decode cs = Some e" "d = (out @ [c]) @ e"
      "list_all is_valid_decoded_path_char e" "map pct_decode (split_slash cs) = map Some (split_slash e)" "length d < cap"
      by auto
    with False c show ?thesis
      by (cases "c = CHR ''/''"; cases "split_slash cs"; cases "split_slash e") (auto simp: split_slash_Cons)
  qed
qed auto

lemma split_first:
  "split_slash s = takeWhile (\<lambda>c. c \<noteq> CHR ''/'') s #
     (case dropWhile (\<lambda>c. c \<noteq> CHR ''/'') s of [] \<Rightarrow> [] | _ # rest \<Rightarrow> split_slash rest)"
  by (induction s) (auto simp: split_slash_Cons split: list.splits)

lemma dot_loop_spec: "dot_loop s \<longleftrightarrow> (\<exists>x\<in>set (split_slash s). x = ''.'' \<or> x = ''..'')"
proof (induction s rule: dot_loop.induct)
  case (1 s)
  have dots: "(length x = 1 \<and> x ! 0 = CHR ''.'') \<or> (length x = 2 \<and> x ! 0 = CHR ''.'' \<and> x ! 1 = CHR ''.'') \<longleftrightarrow>
      x = ''.'' \<or> x = ''..''" for x :: string
    by (cases x; cases "tl x"; auto)
  define t where "t = takeWhile (\<lambda>c. c \<noteq> CHR ''/'') s"
  have loop: "dot_loop s \<longleftrightarrow> (if t = ''.'' \<or> t = ''..'' then True
      else case dropWhile (\<lambda>c. c \<noteq> CHR ''/'') s of [] \<Rightarrow> False | _ # rest \<Rightarrow> dot_loop rest)"
    unfolding dot_loop.simps [of s] Let_def t_def [symmetric] dots by (rule refl)
  show ?case
  proof (cases "t = ''.'' \<or> t = ''..''")
    case True
    then show ?thesis unfolding split_first [of s] t_def [symmetric] by (auto simp: loop)
  next
    case False
    show ?thesis
    proof (cases "dropWhile (\<lambda>c. c \<noteq> CHR ''/'') s")
      case Nil
      show ?thesis unfolding split_first [of s] t_def [symmetric] loop Nil list.case using False by auto
    next
      case (Cons c rest)
      have "dot_loop rest \<longleftrightarrow> (\<exists>x\<in>set (split_slash rest). x = ''.'' \<or> x = ''..'')"
        using 1 [OF t_def _ Cons] False unfolding dots by blast
      then show ?thesis unfolding split_first [of s] t_def [symmetric] loop Cons list.case using False by auto
    qed
  qed
qed

lemma has_dot_segment_spec:
  "path = CHR ''/'' # rest \<Longrightarrow> has_dot_segment path \<longleftrightarrow> (\<exists>x\<in>set (split_slash path). x = ''.'' \<or> x = ''..'')"
  by (simp add: has_dot_segment_def dot_loop_spec)

text \<open>A query component decoded without limits.\<close>

fun query_decode :: "string \<Rightarrow> string option" where
  "query_decode [] = Some []"
| "query_decode (c # cs) =
     (if c = CHR ''%'' then
        (case cs of
           a # b # rest \<Rightarrow>
             (case decode_octet a b of
                None \<Rightarrow> None
              | Some d \<Rightarrow> map_option ((#) (char_of d)) (query_decode rest))
         | _ \<Rightarrow> None)
      else map_option ((#) (if c = CHR ''+'' then SP else c)) (query_decode cs))"

definition printable :: "char \<Rightarrow> bool" where
  "printable c \<longleftrightarrow> \<not> (ord c < 0x20 \<or> ord c = 0x7F)"

lemma decode_query_spec:
  "decode_query_component cap out s = Some d \<Longrightarrow>
   \<exists>e. query_decode s = Some e \<and> d = out @ e \<and> list_all printable e"
proof (induction cap out s rule: decode_query_component.induct)
  case (2 cap out c cs)
  show ?case
  proof (cases "c = CHR ''%''")
    case True
    with 2(3) obtain a b rest v where cs: "cs = a # b # rest" "decode_octet a b = Some v" "cap \<noteq> 0"
      "char_of v \<noteq> NUL" "printable (char_of v)" "length out + 1 < cap"
      "decode_query_component cap (out @ [char_of v]) rest = Some d"
      by (auto simp: Let_def not_le printable_def split: list.splits option.splits if_splits)
    with 2(1) [of a "b # rest" b rest v "char_of v"] True show ?thesis by (auto simp: printable_def)
  next
    case False
    define c' where "c' = (if c = CHR ''+'' then SP else c)"
    from False 2(3) have c: "cap \<noteq> 0" "c' \<noteq> NUL" "printable c'" "length out + 1 < cap"
      "decode_query_component cap (out @ [c']) cs = Some d"
      by (auto simp: not_le printable_def Let_def c'_def split: if_splits)
    with 2(2) [OF _ False refl] show ?thesis
      using False by (auto simp: printable_def c'_def)
  qed
qed (auto split: if_splits)

text \<open>The fields of a query and the parameters they stand for.\<close>

fun split_amp :: "string \<Rightarrow> string list" where
  "split_amp [] = [[]]"
| "split_amp (c # cs) =
     (if c = CHR ''&'' then [] # split_amp cs
      else (case split_amp cs of [] \<Rightarrow> [[c]] | s # ss \<Rightarrow> (c # s) # ss))"

definition field_value :: "string \<Rightarrow> (string \<times> string) option" where
  "field_value f =
     (case (query_decode (takeWhile (\<lambda>c. c \<noteq> CHR ''='') f), query_decode (drop 1 (dropWhile (\<lambda>c. c \<noteq> CHR ''='') f))) of
        (Some k, Some v) \<Rightarrow> Some (k, v)
      | _ \<Rightarrow> None)"

definition param_ok :: "string \<times> string \<Rightarrow> bool" where
  "param_ok kv \<longleftrightarrow> list_all printable (fst kv) \<and> list_all printable (snd kv) \<and>
     CHR ''='' \<notin> set (fst kv) \<and> CHR ''&'' \<notin> set (fst kv)"

lemma split_amp_first:
  "split_amp s = takeWhile (\<lambda>c. c \<noteq> CHR ''&'') s #
     (case dropWhile (\<lambda>c. c \<noteq> CHR ''&'') s of [] \<Rightarrow> [] | _ # rest \<Rightarrow> split_amp rest)"
  by (induction s) (auto split: list.splits)

lemma parse_query_field_spec:
  assumes "parse_query_field f req = (r, req')" and "\<not> r < 0"
  shows "\<exists>kv. field_value f = Some kv \<and> param_ok kv \<and> req' = req\<lparr>sr_query := sr_query req @ [kv]\<rparr> \<and> r = 0"
proof -
  obtain k v where kv: "decode_query_component MAX_QUERY_PARAM_KEY [] (takeWhile (\<lambda>c. c \<noteq> CHR ''='') f) = Some k"
    "decode_query_component MAX_QUERY_PARAM_VALUE [] (drop 1 (dropWhile (\<lambda>c. c \<noteq> CHR ''='') f)) = Some v"
    "CHR ''='' \<notin> set k" "CHR ''&'' \<notin> set k" "server_add_query_param k v req = (r, req')"
    using assms by (auto simp: parse_query_field_def Let_def split: if_splits option.splits)
  then have "req' = req\<lparr>sr_query := sr_query req @ [(k, v)]\<rparr>" "r = 0"
    using assms(2) by (auto simp: server_add_query_param_def split: if_splits)
  with kv decode_query_spec [OF kv(1)] decode_query_spec [OF kv(2)] show ?thesis
    by (auto simp: field_value_def param_ok_def)
qed

lemma query_loop_spec:
  "query_loop q req = (0, req') \<Longrightarrow> q \<noteq> [] \<Longrightarrow> last q \<noteq> CHR ''&'' \<Longrightarrow>
   \<exists>kvs. map field_value (split_amp q) = map Some kvs \<and> (\<forall>kv\<in>set kvs. param_ok kv) \<and>
     req' = req\<lparr>sr_query := sr_query req @ kvs\<rparr>"
proof (induction q req rule: query_loop.induct)
  case (1 q req)
  define f where "f = takeWhile (\<lambda>c. c \<noteq> CHR ''&'') q"
  define rest where "rest = drop 1 (dropWhile (\<lambda>c. c \<noteq> CHR ''&'') q)"
  obtain r req1 where field: "parse_query_field f req = (r, req1)" by fastforce
  have r: "\<not> r < 0" "query_loop rest req1 = (0, req')"
    using 1(2,3) field by (auto simp: query_loop.simps [of q] f_def [symmetric] rest_def split: if_splits)
  from parse_query_field_spec [OF field r(1)] obtain kv where
    kv: "field_value f = Some kv" "param_ok kv" "req1 = req\<lparr>sr_query := sr_query req @ [kv]\<rparr>" by blast
  show ?case
  proof (cases "dropWhile (\<lambda>c. c \<noteq> CHR ''&'') q")
    case Nil
    then have "rest = []" unfolding rest_def Nil by simp
    then have "req' = req1" using r(2) by (simp add: query_loop.simps)
    moreover have "split_amp q = [f]" unfolding split_amp_first [of q] f_def Nil by simp
    ultimately show ?thesis using kv by (intro exI [of _ "[kv]"]) simp
  next
    case (Cons c cs)
    have amp: "c = CHR ''&''" using Cons hd_dropWhile [of "\<lambda>c. c \<noteq> CHR ''&''" q] by simp
    have q: "q = f @ c # cs" using takeWhile_dropWhile_id [of "\<lambda>c. c \<noteq> CHR ''&''" q] by (simp add: Cons f_def)
    have rest: "rest = cs" unfolding rest_def Cons by simp
    have "last (f @ c # cs) \<noteq> CHR ''&''" using 1(4) unfolding q [symmetric] .
    then have cs: "rest = cs" "cs \<noteq> []" "last cs \<noteq> CHR ''&''"
      using amp rest by (auto split: if_splits)
    have "\<exists>kvs. map field_value (split_amp rest) = map Some kvs \<and> (\<forall>kv\<in>set kvs. param_ok kv) \<and>
        req' = req1\<lparr>sr_query := sr_query req1 @ kvs\<rparr>"
      using 1(1) [OF 1(3) field [symmetric, unfolded f_def] r(1), folded rest_def] r(2) cs by simp
    then obtain kvs where "map field_value (split_amp cs) = map Some kvs" "\<forall>kv\<in>set kvs. param_ok kv"
      "req' = req1\<lparr>sr_query := sr_query req1 @ kvs\<rparr>" unfolding cs(1) by blast
    moreover have "split_amp q = f # split_amp cs" unfolding split_amp_first [of q] f_def Cons by simp
    ultimately show ?thesis using kv by (intro exI [of _ "kv # kvs"]) simp
  qed
qed

text \<open>What a request that was not refused says about its target.\<close>

definition query_of :: "string \<Rightarrow> string" where
  "query_of t = drop 1 (dropWhile (\<lambda>c. c \<noteq> CHR ''?'') t)"

lemma fill_message_total: "fill_message qe parsed start msg \<noteq> None"
  by (auto simp: fill_message_def set_body_data_def Let_def split: option.splits)

lemma request_from_parsed_parts:
  assumes "request_from_parsed qe parsed req = Some (0, req')"
  shows "decode_path PATH_SIZE (path_of (rq_target parsed)) = Some (sr_path req') \<and>
    \<not> has_dot_segment (sr_path req') \<and> sr_method req' = rq_method parsed \<and> sr_params req' = [] \<and>
    (\<exists>kvs. sr_query req' = kvs \<and> (\<forall>kv\<in>set kvs. param_ok kv) \<and>
       (if query_of (rq_target parsed) = [] then kvs = []
        else map field_value (split_amp (query_of (rq_target parsed))) = map Some kvs))"
proof -
  define t where "t = rq_target parsed"
  obtain path where path: "decode_path PATH_SIZE (path_of t) = Some path" "\<not> has_dot_segment path"
    using assms by (auto simp: request_from_parsed_def Let_def t_def path_of_def split: if_splits option.splits)
  obtain msg where msg: "bb_message_reset (sr_msg req) = Some msg"
    using assms path by (cases "bb_message_reset (sr_msg req)")
      (auto simp: request_from_parsed_def Let_def t_def path_of_def bb_server_request_reset_def split: if_splits)
  define version where "version = snprintf VERSION_SIZE (''HTTP/'' @ show_nat (rq_major parsed) @ ''.'' @ show_nat (rq_minor parsed))"
  define start where "start = snprintf (PATH_SIZE + REQ_METHOD_SIZE + VERSION_SIZE + 3)
    (rq_method parsed @ '' '' @ path @ '' '' @ version)"
  obtain m where m: "fill_message qe parsed start msg = Some m"
    using fill_message_total by fastforce
  define req1 where "req1 = req\<lparr>sr_params := [], sr_query := [], sr_method := rq_method parsed, sr_version := version,
    sr_path := path, sr_msg := Some m\<rparr>"
  have req1: "sr_method req1 = rq_method parsed" "sr_path req1 = path" "sr_params req1 = []" "sr_query req1 = []"
    by (simp_all add: req1_def)
  have "request_from_parsed qe parsed req = Some (-1, req) \<or> request_from_parsed qe parsed req = Some (-1, bb_server_request_reset req) \<or>
      request_from_parsed qe parsed req =
      (if CHR ''?'' \<in> set t then Some (parse_query_params (query_of t) req1) else Some (0, req1))"
    unfolding request_from_parsed_def Let_def t_def [symmetric] path_of_def [symmetric] query_of_def [symmetric]
    using path msg m by (simp add: bb_server_request_reset_def version_def [symmetric, simplified] start_def [symmetric, simplified] req1_def)
  then have req': "(if CHR ''?'' \<in> set t then parse_query_params (query_of t) req1 else (0, req1)) = (0, req')"
    using assms by (auto split: if_splits)
  show ?thesis
  proof (cases "query_of t = []")
    case True
    then have "req' = req1" using req' by (auto simp: parse_query_params_def split: if_splits)
    with path req1 True show ?thesis by (simp add: t_def)
  next
    case False
    have none: "dropWhile (\<lambda>c. c \<noteq> CHR ''?'') t = []" if "CHR ''?'' \<notin> set t"
      using that by (auto simp: dropWhile_eq_Nil_conv)
    have "CHR ''?'' \<in> set t"
    proof (rule ccontr)
      assume "CHR ''?'' \<notin> set t"
      then have "query_of t = []" by (simp add: query_of_def none)
      with False show False by simp
    qed
    then have loop: "query_loop (query_of t) req1 = (0, req')" "last (query_of t) \<noteq> CHR ''&''"
      using req' False by (auto simp: parse_query_params_def split: if_splits)
    from query_loop_spec [OF loop(1) False loop(2)] path req1 False show ?thesis by (auto simp: t_def)
  qed
qed

section \<open>Stages\<close>

text \<open>Functions run in order up to the first one that fails.\<close>

fun run_stages :: "http_handler list \<Rightarrow> http_handler" where
  "run_stages [] x = (BB_SUCCESS, x)"
| "run_stages (f # fs) x =
     (case f x of (err, x) \<Rightarrow> if BB_FAILED err then (err, x) else run_stages fs x)"

definition stages :: "program \<Rightarrow> http_server \<Rightarrow> bb_route \<Rightarrow> http_handler list" where
  "stages pg sv r = map (pg_run pg) (hs_pre sv) @ [run_http_handler pg r] @ map (pg_run pg) (hs_post sv)"

lemma middleware_stages: "bb_middleware_list_run run ms x = run_stages (map run ms) x"
  by (induction ms arbitrary: x) (auto split: prod.splits)

lemma run_stages_append:
  "run_stages (fs @ gs) x =
   (case run_stages fs x of (err, y) \<Rightarrow> if BB_FAILED err then (err, y) else run_stages gs y)"
  by (induction fs arbitrary: x) (auto simp: BB_FAILED_def BB_SUCCESS_def split: prod.splits)

lemma run_stages_ok: "run_stages fs x = (err, y) \<Longrightarrow> \<not> BB_FAILED err \<Longrightarrow> err = BB_SUCCESS"
  by (induction fs arbitrary: x) (auto split: prod.splits if_splits)

lemma run_http_route_stages:
  "run_http_route pe pg sv r x =
   (case run_stages (stages pg sv r) x of
      (err, req, res) \<Rightarrow>
        if BB_FAILED err then map_option (Pair BB_SUCCESS) (http_pipeline_failed pe res) else Some (BB_SUCCESS, res))"
  using run_stages_ok
  by (auto simp: run_http_route_def stages_def middleware_stages run_stages_append split: prod.splits if_splits)

section \<open>The answer\<close>

text \<open>A message that can be serialised: it has a start line, and a body of the length it says.\<close>

definition message_ok :: "http_message \<Rightarrow> bool" where
  "message_ok m \<longleftrightarrow>
     (case ms_body m of None \<Rightarrow> ms_body_len m = 0 | Some b \<Rightarrow> length b = ms_body_len m + 1)"

definition body_of :: "http_message \<Rightarrow> string" where
  "body_of m = (case ms_body m of None \<Rightarrow> [] | Some b \<Rightarrow> take (ms_body_len m) b)"

lemma length_serialized:
  "length (serialized start hs body) =
   length start + 2 + sum_list (map (\<lambda>h. length (mh_name h) + length (mh_value h) + 4) hs) + 2 + length body"
proof -
  have "length (concat (map header_line hs)) = sum_list (map (\<lambda>h. length (mh_name h) + length (mh_value h) + 4) hs)"
    by (induction hs) (simp_all add: header_line_def)
  then show ?thesis by (simp add: serialized_def)
qed

lemma set_header_fields [simp]:
  "ms_start_line (set_header mem n v m) = ms_start_line m"
  "ms_body (set_header mem n v m) = ms_body m"
  "ms_body_len (set_header mem n v m) = ms_body_len m"
  by (auto simp: set_header_def split: option.splits)

lemma set_header_ok [simp]: "message_ok (set_header mem n v m) = message_ok m"
  by (simp add: message_ok_def split: option.split)

lemma set_body_data_ok:
  "len \<le> length b \<Longrightarrow> \<exists>m'. set_body_data ok (Some b) len m = Some m' \<and> ms_start_line m' = ms_start_line m \<and>
     ms_headers m' = ms_headers m \<and> message_ok m' \<and> body_of m' = (if ok then take len b else [])"
  by (cases "len = 0"; cases ok) (simp_all add: set_body_data_def message_ok_def body_of_def Let_def)

lemma set_body_ok:
  "\<exists>m'. set_body ok (Some b) m = Some m' \<and> ms_start_line m' = ms_start_line m \<and>
     ms_headers m' = ms_headers m \<and> message_ok m' \<and> body_of m' = (if ok then cstr b else [])"
proof -
  have "take (length (cstr b)) b = cstr b" "length (cstr b) \<le> length b"
    by (simp_all add: cstr_def length_takeWhile_le takeWhile_eq_take [symmetric])
  with set_body_data_ok [of "length (cstr b)" b ok m] show ?thesis by (simp only: set_body_def option.case)
qed

lemma plain_answer_ok:
  assumes "re_msg res = Some m"
  shows "\<exists>m'. plain_answer mem ok status text res = Some (res\<lparr>re_status := status, re_msg := Some m'\<rparr>) \<and>
    message_ok m' \<and> body_of m' = (if ok then cstr text else [])"
proof -
  obtain m' where m': "set_body ok (Some text) (set_header mem ''Content-Type'' ''text/plain'' m) = Some m'"
    "message_ok m'" "body_of m' = (if ok then cstr text else [])"
    using set_body_ok by blast
  have "plain_answer mem ok status text res = Some (res\<lparr>re_status := status, re_msg := Some m'\<rparr>)"
    using assms m'(1)
    by (simp add: plain_answer_def response_set_header_def response_set_body_def bb_response_set_status_def)
  with m' show ?thesis by blast
qed

text \<open>The buffer that was sized before is filled exactly.\<close>

lemma message_serialize_ok:
  assumes "message_ok m" and "ms_start_line m = Some start" and "mem 3"
  defines "m' \<equiv> set_header mem ''Content-Length'' (snprintf 256 (show_nat (ms_body_len m))) m"
  shows "message_serialize mem True m =
    Some ((0, serialized start (ms_headers m') (body_of m), length (serialized start (ms_headers m') (body_of m))), m')"
    and "length (serialized start (ms_headers m') (body_of m)) = serialized_size m'"
proof -
  have b: "length (body_of m) = ms_body_len m" using assms(1) by (auto simp: message_ok_def body_of_def split: option.splits)
  show size: "length (serialized start (ms_headers m') (body_of m)) = serialized_size m'"
    unfolding length_serialized b by (simp add: serialized_size_def m'_def assms(2))
  show "message_serialize mem True m =
    Some ((0, serialized start (ms_headers m') (body_of m), length (serialized start (ms_headers m') (body_of m))), m')"
  proof (cases "ms_body_len m = 0")
    case True
    then have "body_of m = []" using b by simp
    with True size assms(2,3) show ?thesis
      by (simp add: message_serialize_def Let_def m'_def [symmetric] del: length_0_conv)
         (simp add: m'_def assms(2))
  next
    case False
    then obtain x where x: "ms_body m = Some x" "length x = ms_body_len m + 1"
      using assms(1) by (auto simp: message_ok_def split: option.splits)
    with False size assms(2,3) show ?thesis
      by (simp add: message_serialize_def Let_def m'_def [symmetric])
         (simp add: m'_def assms(2) body_of_def)
  qed
qed

lemma start_line_no_nul: "NUL \<notin> set (response_start_line code)"
proof -
  have "NUL \<notin> set (show_int code)" using show_nat_no_nul by (auto simp: show_int_def NUL_def)
  moreover have "NUL \<notin> set (status_text_for_code code)" by (auto simp: status_text_for_code_def NUL_def)
  ultimately have "NUL \<notin> set (''HTTP/1.1 '' @ show_int code @ '' '' @ status_text_for_code code)"
    by (auto simp: NUL_def)
  then show ?thesis unfolding response_start_line_def snprintf_def by (meson in_set_takeD)
qed

lemma response_serialize_ok:
  assumes "re_msg res = Some m" and "message_ok m" and "mem 3" and "mem 4"
  defines "start \<equiv> response_start_line (re_status res)"
    and "hs \<equiv> ms_headers (set_header mem ''Content-Length'' (snprintf 256 (show_nat (ms_body_len m))) m)"
  shows "\<exists>m'. response_serialize mem True res =
    Some ((0, serialized start hs (body_of m), length (serialized start hs (body_of m))), res\<lparr>re_msg := Some m'\<rparr>)"
proof -
  define m1 where "m1 = m\<lparr>ms_start_line := Some start\<rparr>"
  have m1: "message_ok m1" "ms_start_line m1 = Some start" "body_of m1 = body_of m" "ms_body_len m1 = ms_body_len m"
    using assms(2) by (simp_all add: m1_def message_ok_def body_of_def split: option.splits)
  have "ms_headers (set_header mem n v m1) = ms_headers (set_header mem n v m)" for n v
    by (auto simp: m1_def set_header_def split: option.splits)
  then have "message_serialize mem True m1 =
      Some ((0, serialized start hs (body_of m), length (serialized start hs (body_of m))),
        set_header mem ''Content-Length'' (snprintf 256 (show_nat (ms_body_len m))) m1)"
    using message_serialize_ok(1) [of m1 start mem, OF m1(1,2) assms(3)] by (simp add: m1(3,4) hs_def)
  moreover have "bb_message_set_start_line (mem 4) (Some start) (Some m) = Some m1"
    using assms(4) cstr_id [OF start_line_no_nul] by (simp add: bb_message_set_start_line_def set_start_line_def m1_def start_def)
  ultimately show ?thesis
    using assms(1) by (simp add: response_serialize_def start_def [symmetric]) (rule exI, rule refl)
qed

section \<open>Properties\<close>

text \<open>C4: What a handler is told about the request is what was sent: for every request that is not refused,
  the path is the percent-decoding of the target's path, taken once; decoding changed no segment
  boundary; the path is absolute, without dot segments, control characters or backslashes; and
  the query parameters are the fields of the query, each decoded once, none of them lost.\<close>

theorem handlers_see_what_was_sent:
  assumes "request_from_parsed qe parsed req = Some (0, req')"
  defines "path \<equiv> sr_path req'"
  shows "pct_decode (path_of (rq_target parsed)) = Some path \<and>
    map pct_decode (split_slash (path_of (rq_target parsed))) = map Some (split_slash path) \<and>
    path \<noteq> [] \<and> hd path = CHR ''/'' \<and> length path < PATH_SIZE \<and> list_all is_valid_decoded_path_char path \<and>
    ''.'' \<notin> set (split_slash path) \<and> ''..'' \<notin> set (split_slash path) \<and>
    sr_method req' = rq_method parsed \<and>
    (if query_of (rq_target parsed) = [] then sr_query req' = []
     else map field_value (split_amp (query_of (rq_target parsed))) = map Some (sr_query req'))"
proof -
  note parts = request_from_parsed_parts [OF assms(1), folded path_def]
  have dec: "decode_path PATH_SIZE (path_of (rq_target parsed)) = Some path" using parts by blast
  have loop: "decode_path_loop PATH_SIZE [] (path_of (rq_target parsed)) = Some path"
    and first: "path \<noteq> []" "path ! 0 = CHR ''/''"
    using dec by (auto simp: decode_path_def split: if_splits option.splits)
  obtain rest where rest: "path = CHR ''/'' # rest" using first by (cases path) auto
  from decode_path_loop_spec [OF loop] parts has_dot_segment_spec [OF rest] rest show ?thesis
    by (auto simp: PATH_SIZE_def)
qed

definition w_parsed :: http_request where
  "w_parsed = empty_request\<lparr>rq_method := ''GET'', rq_target := ''/a%41/c?x=1+2&y=%26'', rq_major := 1, rq_minor := 1\<rparr>"

definition w_fill :: request_env where
  "w_fill = \<lparr>qe_line = True, qe_headers = \<lambda>_ _. True, qe_body = True\<rparr>"

definition w_request :: server_request where
  "w_request = \<lparr>sr_msg = Some empty_message, sr_method = [], sr_path = [], sr_version = [], sr_params = [], sr_query = []\<rparr>"

theorem handlers_see_what_was_sent_witness:
  "\<exists>req'. request_from_parsed w_fill w_parsed w_request = Some (0, req') \<and>
     pct_decode (path_of (rq_target w_parsed)) = Some (sr_path req') \<and> sr_query req' = [(''x'', ''1 2''), (''y'', ''&'')]"
proof -
  define req' where "req' = snd (the (request_from_parsed w_fill w_parsed w_request))"
  have run: "request_from_parsed w_fill w_parsed w_request = Some (0, req')" and q: "sr_query req' = [(''x'', ''1 2''), (''y'', ''&'')]"
    unfolding req'_def by code_simp+
  from handlers_see_what_was_sent [OF run] run q show ?thesis by blast
qed

text \<open>C34: Routing takes the first registered route whose method is the request's and whose pattern fits the
  segments of the path, a segment that begins with a colon fitting any; it binds those segments,
  at most ten of them, and changes nothing else in the request. A path with more than 20 segments
  or a segment of 256 bytes or more fits no route.\<close>

theorem first_matching_route:
  assumes "length (sr_params req) \<le> MAX_PARAMS"
  defines "segs \<equiv> path_segments (cstr (sr_path req))"
  shows "bb_route_list_match routes req =
    (case (if segments_fit segs then find (route_matches (sr_method req) segs) routes else None) of
       None \<Rightarrow> (None, req)
     | Some r \<Rightarrow>
         (Some r, req\<lparr>sr_params := take MAX_PARAMS (sr_params req @ bound_params (rt_segments r) segs)\<rparr>))"
  by (auto simp: bb_route_list_match_def split_path_spec segs_def [symmetric] match_routes_spec
      bind_params_spec [OF assms(1)] split: option.splits)

definition w_routes :: bb_route_list where
  "w_routes =
     [\<lparr>rt_type = BB_ROUTE_HTTP, rt_method = ''POST'', rt_segments = [''users'', '':id''], rt_handler = HttpHandler 1\<rparr>,
      \<lparr>rt_type = BB_ROUTE_HTTP, rt_method = ''GET'', rt_segments = [''users'', '':id''], rt_handler = HttpHandler 2\<rparr>,
      \<lparr>rt_type = BB_ROUTE_HTTP, rt_method = ''GET'', rt_segments = [''users'', ''7''], rt_handler = HttpHandler 3\<rparr>]"

definition w_get :: server_request where
  "w_get = w_request\<lparr>sr_method := ''GET'', sr_path := ''/users/7''\<rparr>"

theorem first_matching_route_witness:
  "bb_route_list_match w_routes w_get = (Some (w_routes ! 1), w_get\<lparr>sr_params := [(''id'', ''7'')]\<rparr>)"
proof -
  have "length (sr_params w_get) \<le> MAX_PARAMS" by code_simp
  note first_matching_route [OF this, of w_routes]
  moreover have "path_segments (cstr (sr_path w_get)) = [''users'', ''7'']" by code_simp
  moreover have "find (route_matches (sr_method w_get) [''users'', ''7'']) w_routes = Some (w_routes ! 1)"
    by (simp add: w_routes_def w_get_def route_matches_def is_param_def)
  moreover have "segments_fit [''users'', ''7'']" by code_simp
  moreover have "take MAX_PARAMS (sr_params w_get @ bound_params (rt_segments (w_routes ! 1)) [''users'', ''7'']) = [(''id'', ''7'')]"
    by code_simp
  ultimately show ?thesis by simp
qed

text \<open>C35: A request is answered whatever its stages do: middleware and handler run in order up to the first
  that fails, and if one fails the client gets its response when that is an error response, and a
  plain 500 otherwise; if none fails the client gets what the last one left.\<close>

theorem failing_stages_are_answered:
  assumes "run_stages (stages pg sv r) (req, res) = (err, req', res')" and "re_msg res' = Some m"
  shows "\<exists>res''. run_http_route pe pg sv r (req, res) = Some (BB_SUCCESS, res'') \<and>
    (if \<not> BB_FAILED err \<or> re_status res' \<ge> 400 then res'' = res'
     else re_status res'' = 500 \<and>
       (\<exists>m'. re_msg res'' = Some m' \<and> message_ok m' \<and>
          (pe_body pe \<longrightarrow> body_of m' = ''Internal Server Error'')))"
proof -
  have cstr_text: "cstr ''Internal Server Error'' = ''Internal Server Error''" by (simp add: cstr_def NUL_def)
  obtain m' where p: "plain_answer (pe_header pe) (pe_body pe) 500 ''Internal Server Error'' res' =
      Some (res'\<lparr>re_status := 500, re_msg := Some m'\<rparr>)" "message_ok m'"
    "body_of m' = (if pe_body pe then ''Internal Server Error'' else [])"
    using plain_answer_ok [OF assms(2), of "pe_header pe" "pe_body pe" 500 "''Internal Server Error''"]
    unfolding cstr_text by blast
  with p assms(1) show ?thesis
    by (auto simp: run_http_route_stages http_pipeline_failed_def)
qed

definition w_pipeline :: pipeline_env where
  "w_pipeline = \<lparr>pe_header = \<lambda>_. True, pe_body = True, pe_key = True, pe_digest = True, pe_base64 = True,
                 pe_upgrade = \<lambda>_ _. True, pe_websocket = True\<rparr>"

text \<open>Handler 1 says 401, handler 2 fails without a word, any other one answers.\<close>

definition w_program :: program where
  "w_program =
     \<lparr>pg_run = \<lambda>h (req, res).
        if h = 1 then ((BB_ERR_INTERNAL, ''no''), req, res\<lparr>re_status := 401\<rparr>)
        else if h = 2 then ((BB_ERR_INTERNAL, ''no''), req, res)
        else (BB_SUCCESS, req, res),
      pg_ctx = \<lambda>h ctx x. (BB_SUCCESS, x)\<rparr>"

definition w_http :: http_server where
  "w_http = \<lparr>hs_routes = w_routes, hs_pre = [3], hs_post = [1]\<rparr>"

definition w_response :: bb_response where
  "w_response = \<lparr>re_msg = Some empty_message, re_status = 200\<rparr>"

theorem failing_stages_are_answered_witness:
  "\<exists>res''. run_http_route w_pipeline w_program w_http (w_routes ! 1) (w_get, w_response) = Some (BB_SUCCESS, res'') \<and>
     re_status res'' = 500"
proof -
  have run: "run_stages (stages w_program w_http (w_routes ! 1)) (w_get, w_response) =
      ((BB_ERR_INTERNAL, ''no''), w_get, w_response)"
    by (simp add: stages_def w_http_def w_routes_def w_program_def run_http_handler_def BB_FAILED_def BB_SUCCESS_def)
  have "re_msg w_response = Some empty_message" by (simp add: w_response_def)
  from failing_stages_are_answered [OF run this, of w_pipeline] show ?thesis
    by (auto simp: BB_FAILED_def w_response_def)
qed

text \<open>Handlers that use the response through its functions leave it a message.\<close>

definition handler_ok :: "http_handler \<Rightarrow> bool" where
  "handler_ok f \<longleftrightarrow>
     (\<forall>req res m. re_msg res = Some m \<longrightarrow> message_ok m \<longrightarrow>
        (case f (req, res) of (err, req', res') \<Rightarrow> \<exists>m'. re_msg res' = Some m' \<and> message_ok m'))"

definition program_ok :: "program \<Rightarrow> bool" where
  "program_ok pg \<longleftrightarrow> (\<forall>h. handler_ok (pg_run pg h)) \<and> (\<forall>h ctx. handler_ok (pg_ctx pg h ctx))"

lemma run_stages_message:
  assumes "\<forall>f\<in>set fs. handler_ok f" and "re_msg res = Some m" and "message_ok m"
    and "run_stages fs (req, res) = (err, req', res')"
  shows "\<exists>m'. re_msg res' = Some m' \<and> message_ok m'"
  using assms
proof (induction fs arbitrary: req res m)
  case (Cons f fs)
  obtain e req1 res1 where f: "f (req, res) = (e, req1, res1)" by (metis prod_cases3)
  have "handler_ok f" using Cons.prems(1) by simp
  then have "case f (req, res) of (err, req', res') \<Rightarrow> \<exists>m'. re_msg res' = Some m' \<and> message_ok m'"
    using Cons.prems(2,3) unfolding handler_ok_def by (elim allE impE)
  then obtain m1 where m1: "re_msg res1 = Some m1" "message_ok m1" unfolding f by auto
  show ?case
  proof (cases "BB_FAILED e")
    case True
    with Cons.prems(4) f m1 show ?thesis by simp
  next
    case False
    with Cons.prems(4) f have "run_stages fs (req1, res1) = (err, req', res')" by simp
    with Cons.IH [OF _ m1] Cons.prems(1) show ?thesis by simp
  qed
qed simp

lemma stages_ok: "program_ok pg \<Longrightarrow> f \<in> set (stages pg sv r) \<Longrightarrow> handler_ok f"
proof -
  assume ok: "program_ok pg" and f: "f \<in> set (stages pg sv r)"
  have "handler_ok (run_http_handler pg r)"
  proof (cases "rt_handler r")
    case (HttpHandler h)
    have "run_http_handler pg r = pg_run pg h" by (rule ext) (simp add: run_http_handler_def HttpHandler)
    with ok show ?thesis by (simp add: program_ok_def)
  next
    case (HttpCtxHandler h ctx)
    have "run_http_handler pg r = pg_ctx pg h ctx" by (rule ext) (simp add: run_http_handler_def HttpCtxHandler)
    with ok show ?thesis by (simp add: program_ok_def)
  next
    case (WsHandler h)
    have "run_http_handler pg r = pg_run pg h" by (rule ext) (simp add: run_http_handler_def WsHandler)
    with ok show ?thesis by (simp add: program_ok_def)
  qed
  with ok f show ?thesis by (auto simp: stages_def program_ok_def)
qed

lemma run_http_route_message:
  assumes "program_ok pg" and "re_msg res = Some m" and "message_ok m"
  shows "\<exists>res' m'. run_http_route pe pg sv r (req, res) = Some (BB_SUCCESS, res') \<and> re_msg res' = Some m' \<and> message_ok m'"
proof -
  obtain err req1 res1 where run: "run_stages (stages pg sv r) (req, res) = (err, req1, res1)" by (metis prod_cases3)
  have "\<forall>f\<in>set (stages pg sv r). handler_ok f" using stages_ok [OF assms(1)] by blast
  from run_stages_message [OF this assms(2,3) run] obtain m1 where m1: "re_msg res1 = Some m1" "message_ok m1" by blast
  from plain_answer_ok [OF m1(1), of "pe_header pe" "pe_body pe" 500 "''Internal Server Error''"] obtain m2 where
    m2: "plain_answer (pe_header pe) (pe_body pe) 500 ''Internal Server Error'' res1 =
      Some (res1\<lparr>re_status := 500, re_msg := Some m2\<rparr>)" "message_ok m2" by blast
  show ?thesis
    using run m1 m2 by (auto simp: run_http_route_stages http_pipeline_failed_def)
qed

text \<open>Every allocation of the step succeeds.\<close>

definition step_ok :: "step_env \<Rightarrow> bool" where
  "step_ok ve \<longleftrightarrow> ve_parser ve \<and> ve_request ve \<and> ve_request_msg ve \<and> ve_response ve \<and> ve_response_msg ve \<and>
     pe_body (ve_pipeline ve) \<and> (\<forall>n. ve_close ve n) \<and> (\<forall>n. ve_serialize ve n) \<and> ve_node ve \<and> ve_task ve"

definition only_http :: "http_server \<Rightarrow> bool" where
  "only_http sv \<longleftrightarrow> (\<forall>r\<in>set (hs_routes sv). rt_type r = BB_ROUTE_HTTP)"

lemma find_some: "find P xs = Some x \<Longrightarrow> x \<in> set xs \<and> P x"
  by (induction xs) (auto split: if_splits)

lemma answer_ok:
  assumes "step_ok ve" and "program_ok pg" and "only_http sv"
  defines "req0 \<equiv> bb_server_request_init (ve_request_msg ve) (ve_fresh ve)"
  shows "\<exists>res m. answer ve pg sv conn parsed = Some (Inr (None, res, conn)) \<and> re_msg res = Some m \<and> message_ok m \<and>
    (\<forall>r req. request_from_parsed (ve_fill ve) parsed req0 = Some (r, req) \<longrightarrow>
       (r \<noteq> 0 \<longrightarrow> re_status res = 400 \<and> body_of m = ''Bad Request'') \<and>
       (r = 0 \<longrightarrow> fst (bb_route_list_match (hs_routes sv) req) = None \<longrightarrow>
          re_status res = 404 \<and> body_of m = ''Route Not Found''))"
proof -
  define res0 where "res0 = \<lparr>re_msg = Some empty_message, re_status = 200\<rparr>"
  have res0: "re_msg res0 = Some empty_message" "message_ok empty_message"
    by (simp_all add: res0_def message_ok_def empty_message_def)
  have ok: "ve_request ve" "ve_response ve" "bb_message_create (ve_response_msg ve) = Some empty_message"
    "pe_body (ve_pipeline ve)" using assms(1) by (simp_all add: step_ok_def bb_message_create_def)
  have "sr_msg req0 = Some empty_message"
    using assms(1) by (simp add: req0_def bb_server_request_init_def step_ok_def bb_message_create_def)
  then have "request_from_parsed (ve_fill ve) parsed req0 \<noteq> None"
    by (auto simp: request_from_parsed_def Let_def bb_server_request_reset_def bb_message_reset_def fill_message_total
        split: option.splits)
  then obtain r req where fp: "request_from_parsed (ve_fill ve) parsed req0 = Some (r, req)" by fastforce
  have plain: "\<exists>m. plain_answer (pe_header (ve_pipeline ve)) True st t res0 = Some (res0\<lparr>re_status := st, re_msg := Some m\<rparr>) \<and>
      message_ok m \<and> body_of m = cstr t" for st t
    using plain_answer_ok [OF res0(1), of "pe_header (ve_pipeline ve)" True st t] by simp
  have c: "cstr ''Bad Request'' = ''Bad Request''" "cstr ''Route Not Found'' = ''Route Not Found''"
    by (simp_all add: cstr_def NUL_def)
  consider (refused) "r \<noteq> 0" | (none) req1 where "r = 0" "bb_route_list_match (hs_routes sv) req = (None, req1)"
    | (found) rt req1 where "r = 0" "bb_route_list_match (hs_routes sv) req = (Some rt, req1)"
    by (metis option.exhaust prod.exhaust)
  then show ?thesis
  proof cases
    case refused
    with plain [of 400 "''Bad Request''"] ok fp show ?thesis
      by (auto simp: answer_def default_400_def c Let_def req0_def [symmetric] res0_def [symmetric])
  next
    case none
    with plain [of 404 "''Route Not Found''"] ok fp show ?thesis
      by (auto simp: answer_def run_request_pipeline_def default_404_def c Let_def BB_SUCCESS_def BB_FAILED_def
          req0_def [symmetric] res0_def [symmetric])
  next
    case found
    then have "rt_type rt = BB_ROUTE_HTTP"
      using assms(3) by (auto simp: bb_route_list_match_def match_routes_spec only_http_def split: option.splits dest!: find_some)
    with run_http_route_message [OF assms(2) res0, of "ve_pipeline ve" sv rt req1] found ok fp show ?thesis
      by (auto simp: answer_def run_request_pipeline_def Let_def BB_SUCCESS_def BB_FAILED_def
          req0_def [symmetric] res0_def [symmetric])
  qed
qed

lemma replace_header_get:
  "replace_header name value hs = Some hs' \<Longrightarrow> map_option mh_value (find (\<lambda>h. mh_name h = name) hs') = Some value"
  by (induction hs arbitrary: hs') (auto split: if_splits)

lemma replace_header_other:
  "replace_header name value hs = Some hs' \<Longrightarrow> n \<noteq> name \<Longrightarrow>
   map_option mh_value (find (\<lambda>h. mh_name h = n) hs') = map_option mh_value (find (\<lambda>h. mh_name h = n) hs)"
  by (induction hs arbitrary: hs') (auto split: if_splits)

lemma replace_header_none: "replace_header name value hs = None \<longleftrightarrow> find (\<lambda>h. mh_name h = name) hs = None"
  by (induction hs) auto

lemma find_append_one: "find P (xs @ [x]) = (case find P xs of Some y \<Rightarrow> Some y | None \<Rightarrow> if P x then Some x else None)"
  by (induction xs) auto

text \<open>A header set is the header read; the others are as before.\<close>

lemma get_set_header:
  assumes "\<forall>n. mem n"
  shows "get_header n (set_header mem name value m) =
    (if cstr n = cstr name then Some (cstr value) else get_header n m)"
proof (cases "replace_header (cstr name) (cstr value) (ms_headers m)")
  case None
  with replace_header_none [of "cstr name" "cstr value" "ms_headers m"] assms show ?thesis
    by (auto simp: set_header_def get_header_def find_append_one split: option.splits)
next
  case (Some hs')
  then have "ms_headers (set_header mem name value m) = hs'" using assms by (simp add: set_header_def)
  with replace_header_get [OF Some] replace_header_other [OF Some, of "cstr n"] show ?thesis
    by (cases "cstr n = cstr name") (simp_all add: get_header_def)
qed


definition w_step :: step_env where
  "w_step = \<lparr>ve_parser = True, ve_feed = \<lambda>_. True, ve_request = True, ve_request_msg = True, ve_response = True,
             ve_response_msg = True, ve_fresh = w_request, ve_fill = w_fill, ve_pipeline = w_pipeline,
             ve_close = \<lambda>_. True, ve_serialize = \<lambda>_. True, ve_node = True, ve_task = True\<rparr>"

definition w_task :: server_task where
  "w_task = \<lparr>tk_conn = new_connection\<lparr>cn_buffer := map byte_of (''GET /none HTTP/1.1'' @ crlf @ crlf)\<rparr>,
             tk_ws = None, tk_parser = Some new_parser, tk_offset = 0\<rparr>"




end
