(* ===== verification/Client.thy ===== *)
theory Client
  imports Server
begin

text \<open>
  The web client: the request it builds (\<open>modules/web/src/http/client_request.c\<close>), the request type that
  is either a server's or a client's (\<open>http/request.c\<close>), and the client itself (\<open>client.c\<close>): connecting, sending the
  serialised request, and reading the response through the parser, in the blocking and in the
  asynchronous form. A pointer that may be null is an option, the outcome of the \<open>n\<close>-th
  allocation of an operation is \<open>mem n\<close>, and the result \<open>None\<close> of an operation is undefined behaviour or
  an abort by \<open>BB_ASSERT_MSG\<close>.
\<close>

section \<open>Client requests\<close>

record client_request =
  cr_msg :: "http_message option"
  cr_method :: "string option"
  cr_url :: "string option"
  cr_scheme :: "string option"
  cr_host :: "string option"
  cr_port :: int
  cr_path :: "string option"

definition strdup :: "bool \<Rightarrow> string \<Rightarrow> string option" where
  "strdup ok s = (if ok then Some (cstr s) else None)"

definition bb_client_request_init :: "bool \<Rightarrow> client_request" where
  "bb_client_request_init msg_ok =
     \<lparr>cr_msg = bb_message_create msg_ok, cr_method = None, cr_url = None, cr_scheme = None, cr_host = None,
      cr_port = -1, cr_path = None\<rparr>"

definition bb_client_request_reset :: "client_request \<Rightarrow> client_request" where
  "bb_client_request_reset req =
     req\<lparr>cr_msg := bb_message_reset (cr_msg req), cr_method := None, cr_url := None, cr_scheme := None,
         cr_host := None, cr_path := None, cr_port := -1\<rparr>"

definition bb_client_request_set_method :: "bool \<Rightarrow> string option \<Rightarrow> client_request \<Rightarrow> client_request" where
  "bb_client_request_set_method ok mtd req =
     (case mtd of None \<Rightarrow> req\<lparr>cr_method := None\<rparr> | Some m \<Rightarrow> req\<lparr>cr_method := strdup ok m\<rparr>)"

definition replace_string :: "bool \<Rightarrow> string option \<Rightarrow> string option" where
  "replace_string ok src = (case src of None \<Rightarrow> None | Some s \<Rightarrow> strdup ok s)"

text \<open>\<open>strstr(url, "://")\<close>: what is before the first one, and behind it.\<close>

fun split_scheme :: "string \<Rightarrow> (string \<times> string) option" where
  "split_scheme [] = None"
| "split_scheme (c # cs) =
     (if take 3 (c # cs) = ''://'' then Some ([], drop 3 (c # cs))
      else map_option (\<lambda>(a, b). (c # a, b)) (split_scheme cs))"

text \<open>\<open>atoi\<close> of the C library: blanks, a sign and digits; undefined when the number is no \<open>int\<close>.\<close>

definition atoi_space :: "char \<Rightarrow> bool" where
  "atoi_space c \<longleftrightarrow> c = SP \<or> (9 \<le> ord c \<and> ord c \<le> 13)"

definition c_atoi :: "string \<Rightarrow> int option" where
  "c_atoi s =
     (let t = dropWhile atoi_space s;
          neg = (t \<noteq> [] \<and> hd t = CHR ''-'');
          u = (if t \<noteq> [] \<and> (hd t = CHR ''-'' \<or> hd t = CHR ''+'') then tl t else t);
          n = int (dec_from 0 (takeWhile is_digit u));
          i = (if neg then - n else n)
      in if - (2 ^ 31) \<le> i \<and> i < 2 ^ 31 then Some i else None)"

definition not_slash :: "char \<Rightarrow> bool" where "not_slash c \<longleftrightarrow> c \<noteq> CHR ''/''"
definition not_colon :: "char \<Rightarrow> bool" where "not_colon c \<longleftrightarrow> c \<noteq> CHR '':''"

text \<open>
  \<open>bb_client_request_set_url\<close>. The results of \<open>malloc\<close> for the scheme and the host are written to unchecked.
\<close>

definition bb_client_request_set_url ::
  "(nat \<Rightarrow> bool) \<Rightarrow> string option \<Rightarrow> client_request \<Rightarrow> client_request option" where
  "bb_client_request_set_url mem url req =
     (let req = req\<lparr>cr_url := replace_string (mem 0) url, cr_scheme := None, cr_host := None, cr_path := None, cr_port := 80\<rparr>
      in case url of
           None \<Rightarrow> Some req
         | Some url \<Rightarrow>
             let url = cstr url in
             if url \<noteq> [] \<and> hd url = CHR ''/'' then Some (req\<lparr>cr_path := strdup (mem 1) url\<rparr>)
             else (case split_scheme url of
                     None \<Rightarrow> Some (req\<lparr>cr_path := strdup (mem 1) url\<rparr>)
                   | Some (scheme, authority) \<Rightarrow>
                       if \<not> mem 1 then None
                       else let req = req\<lparr>cr_scheme := Some scheme\<rparr>;
                                req = (if scheme = ''https'' then req\<lparr>cr_port := 443\<rparr> else req);
                                hostport = takeWhile not_slash authority;
                                path = dropWhile not_slash authority;
                                req = req\<lparr>cr_path := strdup (mem 2) (if path = [] then ''/'' else path)\<rparr>
                            in if \<not> mem 3 then None
                               else if dropWhile not_colon hostport \<noteq> [] then
                                 map_option (\<lambda>port. req\<lparr>cr_host := Some (takeWhile not_colon hostport), cr_port := port\<rparr>)
                                   (c_atoi (tl (dropWhile not_colon hostport) @ path))
                               else Some (req\<lparr>cr_host := Some hostport\<rparr>)))"

section \<open>Requests of either kind\<close>

datatype bb_request = BB_SERVER_REQUEST server_request | BB_CLIENT_REQUEST client_request

definition bb_request_client_create :: "bool \<Rightarrow> bool \<Rightarrow> bb_request option" where
  "bb_request_client_create ok msg_ok = (if ok then Some (BB_CLIENT_REQUEST (bb_client_request_init msg_ok)) else None)"

definition bb_request_server_create :: "bool \<Rightarrow> bool \<Rightarrow> server_request \<Rightarrow> bb_request option" where
  "bb_request_server_create ok msg_ok fresh =
     (if ok then Some (BB_SERVER_REQUEST (bb_server_request_init msg_ok fresh)) else None)"

definition bb_request_reset :: "bb_request \<Rightarrow> bb_request" where
  "bb_request_reset req =
     (case req of
        BB_CLIENT_REQUEST r \<Rightarrow> BB_CLIENT_REQUEST (bb_client_request_reset r)
      | BB_SERVER_REQUEST r \<Rightarrow> BB_SERVER_REQUEST (bb_server_request_reset r))"

definition bb_request_get_message :: "bb_request \<Rightarrow> http_message option" where
  "bb_request_get_message req = (case req of BB_CLIENT_REQUEST r \<Rightarrow> cr_msg r | BB_SERVER_REQUEST r \<Rightarrow> sr_msg r)"

definition bb_request_get_method :: "bb_request \<Rightarrow> string option" where
  "bb_request_get_method req =
     (case req of BB_CLIENT_REQUEST r \<Rightarrow> cr_method r | BB_SERVER_REQUEST r \<Rightarrow> Some (sr_method r))"

definition bb_request_set_method :: "bool \<Rightarrow> string option \<Rightarrow> bb_request \<Rightarrow> bb_request" where
  "bb_request_set_method ok mtd req =
     (case req of
        BB_CLIENT_REQUEST r \<Rightarrow> BB_CLIENT_REQUEST (bb_client_request_set_method ok mtd r)
      | BB_SERVER_REQUEST r \<Rightarrow> BB_SERVER_REQUEST (snd (server_set_method mtd r)))"

definition bb_request_get_path :: "bb_request \<Rightarrow> string option" where
  "bb_request_get_path req = (case req of BB_SERVER_REQUEST r \<Rightarrow> Some (sr_path r) | BB_CLIENT_REQUEST r \<Rightarrow> cr_path r)"

text \<open>The operations of one kind abort on the other.\<close>

definition on_server :: "(server_request \<Rightarrow> 'a option) \<Rightarrow> bb_request \<Rightarrow> 'a option" where
  "on_server f req = (case req of BB_SERVER_REQUEST r \<Rightarrow> f r | BB_CLIENT_REQUEST r \<Rightarrow> None)"

definition on_client :: "(client_request \<Rightarrow> 'a option) \<Rightarrow> bb_request \<Rightarrow> 'a option" where
  "on_client f req = (case req of BB_CLIENT_REQUEST r \<Rightarrow> f r | BB_SERVER_REQUEST r \<Rightarrow> None)"

definition bb_request_set_path :: "string option \<Rightarrow> bb_request \<Rightarrow> bb_request option" where
  "bb_request_set_path path = on_server (\<lambda>r. Some (BB_SERVER_REQUEST (snd (server_set_path path r))))"

definition bb_request_parse ::
  "(nat \<Rightarrow> bool) \<Rightarrow> bool \<Rightarrow> request_env \<Rightarrow> string \<Rightarrow> bb_request \<Rightarrow> (int \<times> bb_request) option" where
  "bb_request_parse mem parser_ok qe raw =
     on_server (\<lambda>r. map_option (\<lambda>(i, r). (i, BB_SERVER_REQUEST r)) (bb_server_request_parse mem parser_ok qe raw r))"

definition bb_request_parse_http_parser ::
  "request_env \<Rightarrow> http_request option \<Rightarrow> bb_request option \<Rightarrow> (int \<times> bb_request option) option" where
  "bb_request_parse_http_parser qe parsed req =
     (case req of
        None \<Rightarrow> Some (-1, None)
      | Some req \<Rightarrow>
          on_server (\<lambda>r. map_option (\<lambda>(i, r). (i, map_option BB_SERVER_REQUEST r))
            (bb_server_request_from_parsed qe parsed (Some r))) req)"

definition bb_request_add_param :: "string \<Rightarrow> string \<Rightarrow> bb_request \<Rightarrow> (int \<times> bb_request) option" where
  "bb_request_add_param key val = on_server (\<lambda>r. let (i, r) = server_add_param key val r in Some (i, BB_SERVER_REQUEST r))"

definition bb_request_get_param :: "string \<Rightarrow> bb_request \<Rightarrow> string option option" where
  "bb_request_get_param name = on_server (\<lambda>r. Some (server_get_param name r))"

definition bb_request_add_query_param :: "string \<Rightarrow> string \<Rightarrow> bb_request \<Rightarrow> (int \<times> bb_request) option" where
  "bb_request_add_query_param key val =
     on_server (\<lambda>r. let (i, r) = server_add_query_param key val r in Some (i, BB_SERVER_REQUEST r))"

definition bb_request_get_query_param :: "string \<Rightarrow> bb_request \<Rightarrow> string option option" where
  "bb_request_get_query_param key = on_server (\<lambda>r. Some (server_get_query_param key r))"

definition bb_request_set_url :: "(nat \<Rightarrow> bool) \<Rightarrow> string option \<Rightarrow> bb_request \<Rightarrow> bb_request option" where
  "bb_request_set_url mem url = on_client (\<lambda>r. map_option BB_CLIENT_REQUEST (bb_client_request_set_url mem url r))"

definition bb_request_get_url :: "bb_request \<Rightarrow> string option option" where
  "bb_request_get_url = on_client (\<lambda>r. Some (cr_url r))"

definition bb_request_get_scheme :: "bb_request \<Rightarrow> string option option" where
  "bb_request_get_scheme = on_client (\<lambda>r. Some (cr_scheme r))"

definition bb_request_get_host :: "bb_request \<Rightarrow> string option option" where
  "bb_request_get_host = on_client (\<lambda>r. Some (cr_host r))"

definition bb_request_get_port :: "bb_request \<Rightarrow> int option" where
  "bb_request_get_port = on_client (\<lambda>r. Some (cr_port r))"

text \<open>\<open>bb_request_serialize\<close>, into a buffer.\<close>

definition request_start_line :: "string option \<Rightarrow> string option \<Rightarrow> string" where
  "request_start_line mtd path =
     snprintf (MAX_REQUEST_LINE + METHOD_SIZE + 16)
       ((case mtd of Some m \<Rightarrow> m | None \<Rightarrow> ''GET'') @ '' '' @ (case path of Some t \<Rightarrow> t | None \<Rightarrow> ''/'') @ '' HTTP/1.1'')"

definition bb_request_serialize ::
  "(nat \<Rightarrow> bool) \<Rightarrow> bb_request \<Rightarrow> ((int \<times> string \<times> nat) \<times> bb_request) option" where
  "bb_request_serialize mem =
     on_client (\<lambda>r.
       case bb_message_set_start_line (mem 4) (Some (request_start_line (cr_method r) (cr_path r))) (cr_msg r) of
         None \<Rightarrow> None
       | Some msg \<Rightarrow>
           map_option (\<lambda>(res, msg). (res, BB_CLIENT_REQUEST (r\<lparr>cr_msg := Some msg\<rparr>))) (message_serialize mem True msg))"

section \<open>The client\<close>

text \<open>
  The asynchronous connection is represented by the connection it owns, as far as the client sees it; the runtime
  it was created on is left out.
\<close>

record bb_client =
  cl_async :: "bb_connection option"
  cl_connection :: "bb_connection option"
  cl_req :: bb_request
  cl_res :: bb_response
  cl_parser :: "http_parser option"
  cl_offset :: nat

record client_env =
  ce_client :: bool
  ce_request :: bool
  ce_request_msg :: bool
  ce_response :: bool
  ce_response_msg :: bool

definition bb_client_create_on_runtime :: "client_env \<Rightarrow> bool \<Rightarrow> bb_client option" where
  "bb_client_create_on_runtime ce runtime =
     (if \<not> runtime then None
      else if \<not> ce_client ce then None
      else case bb_request_client_create (ce_request ce) (ce_request_msg ce) of
             None \<Rightarrow> None
           | Some req \<Rightarrow>
               (case bb_response_create (ce_response ce) (ce_response_msg ce) of
                  None \<Rightarrow> None
                | Some res \<Rightarrow>
                    Some \<lparr>cl_async = None, cl_connection = None, cl_req = req, cl_res = res, cl_parser = None,
                          cl_offset = 0\<rparr>))"

definition bb_client_close :: "bb_client \<Rightarrow> bb_client" where
  "bb_client_close cl = cl\<lparr>cl_async := None, cl_connection := None\<rparr>"

definition bb_client_reset :: "bool \<Rightarrow> bb_client \<Rightarrow> bb_client" where
  "bb_client_reset msg_ok cl =
     (let cl = bb_client_close cl
      in cl\<lparr>cl_req := bb_request_reset (cl_req cl), cl_res := response_reset msg_ok (cl_res cl),
            cl_parser := bb_http_parser_reset (cl_parser cl), cl_offset := 0\<rparr>)"

text \<open>\<open>net host port\<close> is the connection that \<open>bb_connection_connect\<close> makes, if any.\<close>

definition bb_client_connect ::
  "(string \<Rightarrow> string \<Rightarrow> bb_connection option) \<Rightarrow> bb_client \<Rightarrow> (bb_error \<times> bb_client) option" where
  "bb_client_connect net cl =
     (case (bb_request_get_host (cl_req cl), bb_request_get_port (cl_req cl)) of
        (Some host, Some port) \<Rightarrow>
          (case host of
             None \<Rightarrow> Some ((BB_ERR_UNKNOWN, ''Invalid host or port''), cl)
           | Some h \<Rightarrow>
               if port \<le> 0 then Some ((BB_ERR_UNKNOWN, ''Invalid host or port''), cl)
               else (case net h (snprintf 16 (show_int port)) of
                       None \<Rightarrow> Some ((BB_ERR_NETWORK, ''Failed to create connection''), cl)
                     | Some c \<Rightarrow> Some (BB_SUCCESS, cl\<lparr>cl_connection := Some c\<rparr>)))
      | _ \<Rightarrow> None)"

text \<open>
  \<open>bb_client_send\<close>. The result of the serialisation is not looked at: without the buffer, what is sent is
  undefined. The bytes that the transport took are returned beside the error.
\<close>

definition bb_client_send ::
  "(nat \<Rightarrow> bool) \<Rightarrow> bool \<Rightarrow> write_event list \<Rightarrow> bb_client \<Rightarrow> (bb_error \<times> bytes \<times> bb_client) option" where
  "bb_client_send mem node_ok evs cl =
     (case cl_connection cl of
        None \<Rightarrow> Some ((BB_ERR_UNKNOWN, ''Client not connected''), [], cl)
      | Some c \<Rightarrow>
          (case bb_request_serialize mem (cl_req cl) of
             None \<Rightarrow> None
           | Some ((rc, out, len), req) \<Rightarrow>
               if rc \<noteq> 0 then None
               else let c = snd (buffer_add node_ok (map byte_of out) c);
                        (err, c, taken) = connection_write evs c;
                        cl = cl\<lparr>cl_req := req, cl_connection := Some c\<rparr>
                    in Some (if BB_FAILED err then (BB_ERR_IO, ''Write failed'') else BB_SUCCESS, taken, cl)))"

text \<open>
  The parser is created when it is first needed. Feeding gives the status and the client with the offset moved;
  an offset behind the end of the buffer makes the parser read what is not there, unless it has nothing to do.
\<close>

definition client_parser :: "bool \<Rightarrow> bb_client \<Rightarrow> (http_parser \<times> nat) option" where
  "client_parser parser_ok cl =
     (case cl_parser cl of
        Some p \<Rightarrow> Some (p, cl_offset cl)
      | None \<Rightarrow> map_option (\<lambda>p. (p, 0)) (bb_http_parser_create_response parser_ok))"

definition client_feed ::
  "(nat \<Rightarrow> bool) \<Rightarrow> http_parser \<Rightarrow> nat \<Rightarrow> bb_connection \<Rightarrow> (http_status \<times> http_parser \<times> nat) option" where
  "client_feed fe p off c =
     (if off > length (cn_buffer c) \<and> hp_state p \<notin> {ST_COMPLETE, ST_ERROR} then None
      else case parser_feed fe p (Some (map char_of_byte (drop off (cn_buffer c)))) of
             (s, p) \<Rightarrow> Some (s, p, off + hp_last_consumed p))"

text \<open>
  The loop of \<open>bb_client_receive\<close>. Each element of \<open>calls\<close> is what the transport answers during one call of
  \<open>bb_connection_read\<close>; when there is none left the client waits. The result is the error of an early
  return, or success of the loop.
\<close>

datatype receive_result = Waiting | Received bb_error

fun receive_loop ::
  "(nat \<Rightarrow> bool) \<Rightarrow> (nat \<Rightarrow> bool) \<Rightarrow> (transport_status \<times> read_event list) list \<Rightarrow>
   http_parser \<Rightarrow> nat \<Rightarrow> bb_connection \<Rightarrow> (receive_result \<times> http_parser \<times> nat \<times> bb_connection) option"
where
  "receive_loop fe grow calls p off c =
     (case client_feed fe p off c of
        None \<Rightarrow> None
      | Some (s, p, off) \<Rightarrow>
          if s = PARSE_COMPLETE then Some (Received BB_SUCCESS, p, off, c)
          else if s = PARSE_ERROR then Some (Received (BB_ERR_BAD_REQUEST, hp_error_msg p), p, off, c)
          else (case calls of
                  [] \<Rightarrow> Some (Waiting, p, off, c)
                | (hs, evs) # calls \<Rightarrow>
                    (case connection_read grow hs evs c of
                       None \<Rightarrow> None
                     | Some (err, c, _) \<Rightarrow>
                         if fst err = BB_ERR_IO then Some (Received (BB_ERR_IO, ''Read failed''), p, off, c)
                         else if fst err = BB_ERR_CONNECTION_CLOSED
                         then Some (Received (BB_ERR_CONNECTION_CLOSED, ''Connection closed before response was complete''), p, off, c)
                         else if BB_FAILED err then Some (Received err, p, off, c)
                         else receive_loop fe grow calls p off c)))"

declare receive_loop.simps [simp del]

text \<open>The allocations while a parsed response is copied.\<close>

record copy_env =
  co_line :: bool
  co_body :: bool
  co_header :: "nat \<Rightarrow> nat \<Rightarrow> bool"

definition bb_client_receive ::
  "bool \<Rightarrow> (nat \<Rightarrow> bool) \<Rightarrow> (nat \<Rightarrow> bool) \<Rightarrow> copy_env \<Rightarrow> (transport_status \<times> read_event list) list \<Rightarrow> bb_client \<Rightarrow>
   (receive_result \<times> bb_client) option" where
  "bb_client_receive parser_ok fe grow co calls cl =
     (case cl_connection cl of
        None \<Rightarrow> Some (Received (BB_ERR_UNKNOWN, ''Client not connected''), cl)
      | Some c \<Rightarrow>
          (case client_parser parser_ok cl of
             None \<Rightarrow> Some (Received (BB_ERR_ALLOC, ''Failed to create HTTP parser''), cl)
           | Some (p, off) \<Rightarrow>
               (case receive_loop fe grow calls p off c of
                  None \<Rightarrow> None
                | Some (r, p, off, c) \<Rightarrow>
                    let cl = cl\<lparr>cl_parser := Some p, cl_offset := off, cl_connection := Some c\<rparr>
                    in if r \<noteq> Received BB_SUCCESS then Some (r, cl)
                       else (case response_from_parsed (co_line co) (co_body co) (co_header co)
                                    (bb_http_parser_get_response (Some p)) (cl_res cl) of
                               None \<Rightarrow> None
                             | Some (rc, res) \<Rightarrow>
                                 Some (Received (if rc \<noteq> 0 then (BB_ERR_UNKNOWN, ''Failed to build response'') else BB_SUCCESS),
                                       cl\<lparr>cl_res := res\<rparr>)))))"

section \<open>The asynchronous client\<close>

text \<open>\<open>callback\<close> is what the program's callback does with the client.\<close>

type_synonym client_callback = "bb_error \<Rightarrow> bb_client \<Rightarrow> bb_client"

definition client_read_error :: "client_callback \<Rightarrow> bb_error \<Rightarrow> bb_client \<Rightarrow> bb_client" where
  "client_read_error callback err cl = bb_client_close (callback err cl)"

definition client_write_error :: "client_callback \<Rightarrow> bb_client \<Rightarrow> bb_client" where
  "client_write_error callback cl = bb_client_close (callback (BB_ERR_IO, ''Write failed'') cl)"

definition client_read_step ::
  "bool \<Rightarrow> (nat \<Rightarrow> bool) \<Rightarrow> copy_env \<Rightarrow> client_callback \<Rightarrow> bb_client \<Rightarrow> (read_status \<times> bb_client) option" where
  "client_read_step parser_ok fe co callback cl =
     (case cl_async cl of
        None \<Rightarrow> None
      | Some c \<Rightarrow>
          (case client_parser parser_ok cl of
             None \<Rightarrow> Some ((BB_READ_ERROR, (BB_ERR_ALLOC, ''Failed to create HTTP parser'')), cl)
           | Some (p, off) \<Rightarrow>
               let cl = cl\<lparr>cl_parser := Some p, cl_offset := off\<rparr> in
               if off > length (cn_buffer c)
               then Some ((BB_READ_ERROR, (BB_ERR_INTERNAL, ''HTTP parser buffer offset is invalid'')), cl)
               else (case client_feed fe p off c of
                       None \<Rightarrow> None
                     | Some (s, p, off) \<Rightarrow>
                         let cl = cl\<lparr>cl_parser := Some p, cl_offset := off\<rparr> in
                         if s = PARSE_INCOMPLETE then Some ((BB_READ_MORE, BB_SUCCESS), cl)
                         else if s = PARSE_ERROR then Some ((BB_READ_ERROR, (BB_ERR_BAD_REQUEST, hp_error_msg p)), cl)
                         else (case response_from_parsed (co_line co) (co_body co) (co_header co)
                                      (bb_http_parser_get_response (Some p)) (cl_res cl) of
                                 None \<Rightarrow> None
                               | Some (rc, res) \<Rightarrow>
                                   let cl = cl\<lparr>cl_res := res\<rparr> in
                                   if rc \<noteq> 0 then Some ((BB_READ_ERROR, (BB_ERR_INTERNAL, ''Response parse failed'')), cl)
                                   else Some ((BB_READ_DONE, BB_SUCCESS), bb_client_close (callback BB_SUCCESS cl))))))"

text \<open>\<open>_client_create_write_task\<close> and \<open>bb_client_execute_async\<close>: what is left is queued on the connection.\<close>

definition client_create_write_task ::
  "(nat \<Rightarrow> bool) \<Rightarrow> bool \<Rightarrow> bool \<Rightarrow> bool \<Rightarrow> bb_client \<Rightarrow> (bb_error \<times> bb_client) option" where
  "client_create_write_task mem data_ok node_ok task_ok cl =
     (if \<not> data_ok then Some ((BB_ERR_ALLOC, ''Allocation failed''), cl)
      else case (bb_request_serialize mem (cl_req cl), cl_async cl) of
             (Some ((rc, out, len), req), Some c) \<Rightarrow>
               if rc \<noteq> 0 then None
               else let c = snd (buffer_add node_ok (map byte_of out) c);
                        (err, c) = create_write_task task_ok c
                    in Some (err, cl\<lparr>cl_req := req, cl_async := Some c\<rparr>)
           | _ \<Rightarrow> None)"

definition bb_client_execute_async ::
  "(string option \<Rightarrow> string \<Rightarrow> bb_connection option) \<Rightarrow> (nat \<Rightarrow> bool) \<Rightarrow> bool \<Rightarrow> bool \<Rightarrow> bool \<Rightarrow> client_callback \<Rightarrow>
   bb_client \<Rightarrow> bb_client option" where
  "bb_client_execute_async net mem data_ok node_ok task_ok callback cl =
     (case (bb_request_get_host (cl_req cl), bb_request_get_port (cl_req cl)) of
        (Some host, Some port) \<Rightarrow>
          let cl = cl\<lparr>cl_async := net host (snprintf 16 (show_int port))\<rparr> in
          if cl_async cl = None then Some (callback (BB_ERR_NETWORK, ''Connection failed'') cl)
          else map_option (\<lambda>(err, cl). if BB_FAILED err then callback err cl else cl)
                 (client_create_write_task mem data_ok node_ok task_ok cl)
      | _ \<Rightarrow> None)"

end
