(* ===== verification/Http_Wire.thy ===== *)
theory Http_Wire
  imports Web_Theorems
begin

text \<open>
  What is written to the wire is read back: the lines and headers of a serialised message through the parser,
  for requests and for responses.
\<close>

section \<open>Lines\<close>

definition line_char :: "char \<Rightarrow> bool" where
  "line_char c \<longleftrightarrow> c \<noteq> CR \<and> c \<noteq> LF \<and> c \<noteq> NUL"

lemma line_reserve_always: "\<exists>k n. line_reserve always p = (True, line_state (hp_line p) k (hp_saw_cr p) n p)"
proof (cases "length (hp_line p) + 1 > hp_line_cap p")
  case True
  define nc where "nc = (if hp_line_cap p \<noteq> 0 then hp_line_cap p * 2 else 256)"
  define nc' where "nc' = (if nc > hp_line_limit p + 1 then hp_line_limit p + 1 else nc)"
  have "line_reserve always p = (True, line_state (hp_line p) nc' (hp_saw_cr p) (Suc (hp_allocs p)) p)"
    using True unfolding line_reserve_def Let_def nc_def [symmetric] nc'_def [symmetric] by (simp add: alloc_def line_state_def)
  then show ?thesis by blast
next
  case False
  then have "line_reserve always p = (True, line_state (hp_line p) (hp_line_cap p) (hp_saw_cr p) (hp_allocs p) p)"
    by (simp add: line_reserve_def line_state_def)
  then show ?thesis by blast
qed

lemma consume_line_whole:
  "list_all line_char s \<Longrightarrow> length (hp_line p) + length s \<le> hp_line_limit p \<Longrightarrow> \<not> hp_saw_cr p \<Longrightarrow>
   \<exists>k n. consume_line always p (s @ CR # LF # rest) = (LINE_DONE, line_state (hp_line p @ s) k False n p, rest)"
proof (induction s arbitrary: p)
  case Nil
  have ne: "LF \<noteq> CR" by (simp add: LF_def CR_def)
  have "p\<lparr>hp_saw_cr := False\<rparr> = line_state (hp_line p) (hp_line_cap p) False (hp_allocs p) p" by (simp add: line_state_def)
  then show ?case using Nil ne by (intro exI [of _ "hp_line_cap p"] exI [of _ "hp_allocs p"]) simp
next
  case (Cons c s)
  obtain k n where r: "line_reserve always p = (True, line_state (hp_line p) k (hp_saw_cr p) n p)" using line_reserve_always by blast
  define q where "q = line_state (hp_line p @ [c]) k False n p"
  have q: "(line_state (hp_line p) k (hp_saw_cr p) n p)\<lparr>hp_line := hp_line p @ [c]\<rparr> = q"
    using Cons.prems(3) by (cases p) (simp add: q_def line_state_def)
  have l: "hp_line (line_state (hp_line p) k (hp_saw_cr p) n p) = hp_line p" by (simp add: line_state_def)
  have "consume_line always p (c # s @ CR # LF # rest) = consume_line always q (s @ CR # LF # rest)"
    using Cons.prems r q l by (simp add: line_char_def)
  moreover have "\<exists>k n. consume_line always q (s @ CR # LF # rest) = (LINE_DONE, line_state (hp_line q @ s) k False n q, rest)"
    using Cons.prems by (intro Cons.IH) (simp_all add: q_def line_state_def)
  ultimately show ?case by (simp add: q_def line_state_twice) (simp add: line_state_def)
qed

section \<open>Header lines\<close>

text \<open>A header that the parser takes as it is.\<close>

definition value_char :: "char \<Rightarrow> bool" where
  "value_char c \<longleftrightarrow> \<not> ((ord c < 0x20 \<and> c \<noteq> HTAB) \<or> ord c = 0x7F)"

definition plain_header :: "msg_header \<Rightarrow> bool" where
  "plain_header h \<longleftrightarrow> mh_name h \<noteq> [] \<and> list_all is_tchar (mh_name h) \<and> list_all value_char (mh_value h) \<and>
     trim_blanks (mh_value h) = mh_value h \<and> \<not> same_nocase (mh_name h) ''transfer-encoding''"

definition parsed_header :: "msg_header \<Rightarrow> http_header" where
  "parsed_header h = \<lparr>hh_name = mh_name h, hh_value = mh_value h\<rparr>"

definition field_size :: "msg_header \<Rightarrow> nat" where
  "field_size h = length (mh_name h) + length (mh_value h) + 4"

text \<open>The parser between two header lines; \<open>len\<close> is the length announced so far.\<close>

definition at_headers ::
  "http_parser \<Rightarrow> http_header list \<Rightarrow> nat \<Rightarrow> nat option \<Rightarrow> http_parser \<Rightarrow> bool" where
  "at_headers p0 hs bytes len p \<longleftrightarrow>
     hp_state p = ST_HEADERS \<and> hp_line p = [] \<and> \<not> hp_saw_cr p \<and> hp_line_limit p = MAX_HEADER_SIZE \<and>
     hp_response_mode p = hp_response_mode p0 \<and>
     hp_request p = hp_request (set_active_headers hs p0) \<and> hp_response p = hp_response (set_active_headers hs p0) \<and>
     hp_header_bytes p = bytes \<and> hp_has_content_length p = (len \<noteq> None) \<and> (\<forall>n. len = Some n \<longrightarrow> hp_content_length p = n) \<and>
     \<not> hp_has_transfer_encoding p \<and> hp_body_written p = 0 \<and> hp_error_msg p = []"

lemma tchar_line: "is_tchar c \<Longrightarrow> line_char c \<and> c \<noteq> CHR '':'' \<and> \<not> is_blank c \<and> c \<noteq> SP"
  by (auto simp: is_tchar_def line_char_def is_alpha_def is_digit_def CR_def LF_def NUL_def is_blank_def SP_def HTAB_def)

lemma value_line: "value_char c \<Longrightarrow> line_char c"
  by (auto simp: value_char_def line_char_def CR_def LF_def NUL_def HTAB_def)

lemma trim_space: "trim_blanks (SP # v) = trim_blanks v"
  by (simp add: trim_blanks_def is_blank_def)

lemma parse_plain_field:
  assumes h: "plain_header h" and line: "hp_line p = mh_name h @ '': '' @ mh_value h"
    and room: "length hs < max_count" "bytes + field_size h \<le> max_bytes"
  shows "\<exists>n. parse_field_line always p hs max_count bytes max_bytes = (p\<lparr>hp_allocs := n\<rparr>, Some (parsed_header h, bytes + field_size h))"
proof -
  have ne: "mh_name h \<noteq> []" and tc: "\<forall>c\<in>set (mh_name h). is_tchar c" using h by (auto simp: plain_header_def list_all_iff)
  have tw: "takeWhile (\<lambda>c. c \<noteq> CHR '':'') (hp_line p) = mh_name h"
    using tc tchar_line by (simp add: line takeWhile_append2)
  have first: "\<not> is_blank (hp_line p ! 0)" using ne tc tchar_line by (cases "mh_name h") (auto simp: line)
  have rest: "drop (Suc (length (mh_name h))) (hp_line p) = SP # mh_value h" by (simp add: line SP_def)
  have vc: "list_all (\<lambda>c. (ord c < 32 \<longrightarrow> c = HTAB) \<and> ord c \<noteq> 127) (mh_value h)"
    using h by (auto simp: plain_header_def value_char_def list_all_iff)
  have pre: "take (length (mh_name h)) (hp_line p) = mh_name h" by (simp add: line)
  have len: "length (hp_line p) = length (mh_name h) + length (mh_value h) + 2" by (simp add: line)
  have trim: "trim_blanks (SP # mh_value h) = mh_value h" using h by (simp add: trim_space plain_header_def)
  show ?thesis
    using h ne first room vc
    by (intro exI [of _ "Suc (Suc (Suc (hp_allocs p)))"])
       (simp add: parse_field_line_def Let_def tw rest pre len trim alloc_def field_size_def parsed_header_def plain_header_def)
qed

text \<open>The length announced by the headers so far, which may be announced once.\<close>

definition is_length :: "msg_header \<Rightarrow> bool" where
  "is_length h \<longleftrightarrow> same_nocase (mh_name h) ''content-length''"

definition length_ok :: "nat option \<Rightarrow> msg_header \<Rightarrow> bool" where
  "length_ok len h \<longleftrightarrow> \<not> is_length h \<or>
     (len = None \<and> mh_value h \<noteq> [] \<and> list_all is_digit (mh_value h) \<and> dec_from 0 (mh_value h) \<le> MAX_BODY_SIZE)"

definition announce :: "nat option \<Rightarrow> msg_header \<Rightarrow> nat option" where
  "announce len h = (if is_length h then Some (dec_from 0 (mh_value h)) else len)"

definition line_of :: "msg_header \<Rightarrow> string" where
  "line_of h = mh_name h @ '': '' @ mh_value h"

lemma plain_line: "plain_header h \<Longrightarrow> list_all line_char (line_of h)"
  using tchar_line value_line by (auto simp: line_of_def plain_header_def list_all_iff line_char_def CR_def LF_def NUL_def)

lemma active_set [simp]: "active_headers (set_active_headers hs p) = hs"
  by (simp add: active_headers_def set_active_headers_def)

lemma at_headers_active: "at_headers p0 hs bytes len p \<Longrightarrow> active_headers p = hs"
  by (simp add: at_headers_def active_headers_def set_active_headers_def split: if_splits)

lemma stored:
  assumes "hp_request p = hp_request (set_active_headers hs p0)" and "hp_response p = hp_response (set_active_headers hs p0)"
    and "hp_response_mode p = hp_response_mode p0" and "active_headers p = hs"
  shows "hp_request (store_header x p) = hp_request (set_active_headers (hs @ [fst x]) p0) \<and>
    hp_response (store_header x p) = hp_response (set_active_headers (hs @ [fst x]) p0)"
  using assms by (simp add: store_header_def set_active_headers_def)

lemma header_step:
  assumes p: "at_headers p0 hs bytes len p" and h: "plain_header h" "length_ok len h"
    and room: "length hs < MAX_HEADER_COUNT" "bytes + field_size h \<le> MAX_HEADER_SIZE"
  shows "\<exists>p'. at_headers p0 (hs @ [parsed_header h]) (bytes + field_size h) (announce len h) p' \<and>
    feed_loop always p (header_line h @ rest) = feed_loop always p' rest"
proof -
  have lim: "length (line_of h) \<le> MAX_HEADER_SIZE" using room(2) by (simp add: field_size_def line_of_def)
  obtain k n where c: "consume_line always p (line_of h @ CR # LF # rest) = (LINE_DONE, line_state (line_of h) k False n p, rest)"
    using consume_line_whole [OF plain_line [OF h(1)], of p rest] p lim by (auto simp: at_headers_def)
  define q where "q = line_state (line_of h) k False n p"
  have qa: "active_headers q = hs" using at_headers_active [OF p] by (simp add: q_def line_state_def active_headers_def split: if_splits)
  have ql: "hp_line q = mh_name h @ '': '' @ mh_value h" by (simp add: q_def line_state_def line_of_def)
  have qb: "hp_header_bytes q = bytes" using p by (simp add: q_def line_state_def at_headers_def)
  obtain m where f: "parse_field_line always q (active_headers q) MAX_HEADER_COUNT (hp_header_bytes q) MAX_HEADER_SIZE =
      (q\<lparr>hp_allocs := m\<rparr>, Some (parsed_header h, bytes + field_size h))"
    using parse_plain_field [OF h(1) ql room(1), of bytes MAX_HEADER_SIZE] room(2) qa qb by auto
  define r where "r = store_header (parsed_header h, bytes + field_size h) (q\<lparr>hp_allocs := m\<rparr>)"
  define s where "s = (if is_length h then r\<lparr>hp_has_content_length := True, hp_content_length := dec_from 0 (mh_value h)\<rparr> else r)"
  have r_len: "hp_has_content_length r = (len \<noteq> None)" "\<forall>n. len = Some n \<longrightarrow> hp_content_length r = n"
    using p by (auto simp: r_def q_def line_state_def store_header_def set_active_headers_def at_headers_def)
  have te: "\<not> same_nocase (mh_name h) ''transfer-encoding''" using h(1) by (simp add: plain_header_def)
  have a: "apply_header r (parsed_header h) = (True, s)"
  proof (cases "is_length h")
    case True
    then have "fst (apply_content_length r (mh_value h))"
      using h(2) r_len(1) unfolding content_length_exact(1) length_ok_def by auto
    from this content_length_exact(2) [OF this] show ?thesis
      using True unfolding s_def by (simp add: apply_header_def parsed_header_def is_length_def prod_eq_iff)
  next
    case False
    then show ?thesis using te by (simp add: apply_header_def parsed_header_def is_length_def s_def)
  qed
  define p' where "p' = reset_line s MAX_HEADER_SIZE"
  have ne: "hp_line q \<noteq> []" by (simp add: ql)
  have "feed_turn always p (header_line h @ rest) = Next p' rest"
  proof -
    have e: "header_line h @ rest = line_of h @ CR # LF # rest" by (simp add: header_line_def line_of_def)
    show ?thesis
      using p ne f a unfolding e
      by (simp add: feed_turn_def at_headers_def line_turn_def c q_def [symmetric] read_header_line_def p'_def r_def [symmetric])
  qed
  then have "feed_loop always p (header_line h @ rest) = feed_loop always p' rest" by (rule feed_loop_unfold(1))
  moreover have "at_headers p0 (hs @ [parsed_header h]) (bytes + field_size h) (announce len h) p'"
  proof -
    have "hp_request r = hp_request (set_active_headers (hs @ [parsed_header h]) p0) \<and>
        hp_response r = hp_response (set_active_headers (hs @ [parsed_header h]) p0)"
      using stored [of "q\<lparr>hp_allocs := m\<rparr>" hs p0 "(parsed_header h, bytes + field_size h)"] p at_headers_active [OF p]
      unfolding r_def by (cases "hp_response_mode p") (simp_all add: q_def line_state_def at_headers_def active_headers_def)
    moreover have "hp_state r = ST_HEADERS" "hp_response_mode r = hp_response_mode p0" "hp_header_bytes r = bytes + field_size h"
      "\<not> hp_has_transfer_encoding r" "hp_body_written r = 0" "hp_error_msg r = []"
      using p by (simp_all add: r_def q_def line_state_def store_header_def set_active_headers_def at_headers_def)
    ultimately show ?thesis using r_len
      by (auto simp: at_headers_def p'_def reset_line_def s_def announce_def)
  qed
  ultimately show ?thesis by blast
qed

fun lengths_ok :: "nat option \<Rightarrow> msg_header list \<Rightarrow> bool" where
  "lengths_ok len [] = True"
| "lengths_ok len (h # hs) = (length_ok len h \<and> lengths_ok (announce len h) hs)"

lemma header_steps:
  "at_headers p0 hs bytes len p \<Longrightarrow> list_all plain_header ms \<Longrightarrow> lengths_ok len ms \<Longrightarrow>
   length hs + length ms \<le> MAX_HEADER_COUNT \<Longrightarrow> bytes + sum_list (map field_size ms) \<le> MAX_HEADER_SIZE \<Longrightarrow>
   \<exists>p'. at_headers p0 (hs @ map parsed_header ms) (bytes + sum_list (map field_size ms)) (foldl announce len ms) p' \<and>
     feed_loop always p (concat (map header_line ms) @ rest) = feed_loop always p' rest"
proof (induction ms arbitrary: hs bytes len p)
  case Nil
  then show ?case by auto
next
  case (Cons h ms)
  obtain q where q: "at_headers p0 (hs @ [parsed_header h]) (bytes + field_size h) (announce len h) q"
    "feed_loop always p (header_line h @ concat (map header_line ms) @ rest) =
     feed_loop always q (concat (map header_line ms) @ rest)"
    using header_step [OF Cons.prems(1), of h "concat (map header_line ms) @ rest"] Cons.prems(2-) by auto
  have "\<exists>p'. at_headers p0 ((hs @ [parsed_header h]) @ map parsed_header ms)
       (bytes + field_size h + sum_list (map field_size ms)) (foldl announce (announce len h) ms) p' \<and>
     feed_loop always q (concat (map header_line ms) @ rest) = feed_loop always p' rest"
    using Cons.prems(2-) by (intro Cons.IH [OF q(1)]) simp_all
  with q(2) show ?case by (simp add: add.assoc)
qed

section \<open>The end of the headers and the body\<close>

definition bodyless :: "http_parser \<Rightarrow> bool" where
  "bodyless p \<longleftrightarrow> hp_response_mode p \<and> ((100 \<le> rs_status (hp_response p) \<and> rs_status (hp_response p) < 200) \<or>
     rs_status (hp_response p) = 204 \<or> rs_status (hp_response p) = 304)"

definition message_read :: "http_parser \<Rightarrow> http_header list \<Rightarrow> string \<Rightarrow> http_parser \<Rightarrow> bool" where
  "message_read p0 hs body p \<longleftrightarrow>
     hp_state p = ST_COMPLETE \<and> hp_response_mode p = hp_response_mode p0 \<and>
     hp_request p = hp_request (set_active_body body (set_active_headers hs p0)) \<and>
     hp_response p = hp_response (set_active_body body (set_active_headers hs p0))"

lemma body_reserve_always: "\<exists>k n. body_reserve always p need = (True, p\<lparr>hp_body_cap := k, hp_allocs := n\<rparr>)"
proof (cases "need \<le> hp_body_cap p")
  case True
  then have "body_reserve always p need = (True, p\<lparr>hp_body_cap := hp_body_cap p, hp_allocs := hp_allocs p\<rparr>)"
    by (simp add: body_reserve_def)
  then show ?thesis by blast
next
  case False
  define k where "k = (if (if hp_body_cap p \<noteq> 0 then hp_body_cap p * 2 else 4096) < need then need
     else if hp_body_cap p \<noteq> 0 then hp_body_cap p * 2 else 4096)"
  have "body_reserve always p need =
      (True, p\<lparr>hp_body_cap := if k > MAX_BODY_SIZE then MAX_BODY_SIZE else k, hp_allocs := Suc (hp_allocs p)\<rparr>)"
    using False by (cases p) (simp add: body_reserve_def Let_def alloc_def k_def)
  then show ?thesis by blast
qed

lemma same_active_body:
  "hp_request p = hp_request q \<Longrightarrow> hp_response p = hp_response q \<Longrightarrow> hp_response_mode p = hp_response_mode q \<Longrightarrow>
   hp_request (set_active_body b p) = hp_request (set_active_body b q) \<and>
   hp_response (set_active_body b p) = hp_response (set_active_body b q)"
  by (simp add: set_active_body_def)

lemma empty_active_body:
  "active_body p = [] \<Longrightarrow> hp_request (set_active_body [] p) = hp_request p \<and> hp_response (set_active_body [] p) = hp_response p"
  by (cases "hp_request p"; cases "hp_response p") (simp add: active_body_def set_active_body_def split: if_splits)

lemma active_body_headers [simp]: "active_body (set_active_headers hs p) = active_body p"
  by (simp add: active_body_def set_active_headers_def)

lemma body_turn:
  assumes "hp_state p = ST_BODY_FIXED" and "hp_body_written p = 0" and "hp_content_length p = length body"
    and "body \<noteq> []" and "active_body p = []"
  shows "\<exists>p'. feed_turn always p (body @ rest) = Out PARSE_COMPLETE p' rest \<and> hp_state p' = ST_COMPLETE \<and>
    hp_response_mode p' = hp_response_mode p \<and> hp_request p' = hp_request (set_active_body body p) \<and>
    hp_response p' = hp_response (set_active_body body p)"
proof -
  obtain k n where r: "body_reserve always p (length body) = (True, p\<lparr>hp_body_cap := k, hp_allocs := n\<rparr>)"
    using body_reserve_always by blast
  have b: "active_body (p\<lparr>hp_body_cap := k, hp_allocs := n\<rparr>) = []" using assms(5) by (simp add: active_body_def split: if_splits)
  have a: "body_append always p body =
      (True, (set_active_body body (p\<lparr>hp_body_cap := k, hp_allocs := n\<rparr>))\<lparr>hp_body_written := length body\<rparr>)"
    using assms(2,4) r b by (simp add: body_append_def set_active_body_def)
  define q where "q = (set_active_body body (p\<lparr>hp_body_cap := k, hp_allocs := n\<rparr>))\<lparr>hp_body_written := length body\<rparr>"
  have q: "hp_body_written q = length body" "hp_content_length q = length body"
    using assms(3) by (simp_all add: q_def set_active_body_def)
  have "feed_turn always p (body @ rest) = Out PARSE_COMPLETE (q\<lparr>hp_state := ST_COMPLETE\<rparr>) rest"
    using assms(1-4) q by (simp add: feed_turn_def turn_body_fixed_def Let_def a q_def [symmetric])
  then show ?thesis by (simp add: q_def set_active_body_def)
qed

lemma headers_end:
  assumes p: "at_headers p0 hs bytes len p" and b0: "active_body p0 = []"
    and body: "length body = (case len of None \<Rightarrow> 0 | Some n \<Rightarrow> n)" "bodyless p0 \<Longrightarrow> body = []"
  shows "\<exists>p'. feed_loop always p (CR # LF # body @ rest) = (PARSE_COMPLETE, p', rest) \<and> message_read p0 hs body p'"
proof -
  obtain k n where c: "consume_line always p (CR # LF # body @ rest) = (LINE_DONE, line_state [] k False n p, body @ rest)"
    using consume_line_whole [of "[]" p "body @ rest"] p by (auto simp: at_headers_def)
  define q where "q = line_state [] k False n p"
  have turn: "feed_turn always p (CR # LF # body @ rest) =
      (case finish_headers always q of (False, p) \<Rightarrow> Out PARSE_ERROR p (body @ rest)
       | (True, p) \<Rightarrow> if hp_state p = ST_COMPLETE then Out PARSE_COMPLETE p (body @ rest) else Next p (body @ rest))"
    using p c by (simp add: feed_turn_def at_headers_def line_turn_def read_header_line_def q_def [symmetric])
                 (simp add: q_def line_state_def)
  have q: "hp_state q = ST_HEADERS" "hp_response_mode q = hp_response_mode p0"
    "hp_request q = hp_request (set_active_headers hs p0)" "hp_response q = hp_response (set_active_headers hs p0)"
    "hp_has_content_length q = (len \<noteq> None)" "\<forall>n. len = Some n \<longrightarrow> hp_content_length q = n"
    "\<not> hp_has_transfer_encoding q" "hp_body_written q = 0"
    using p by (simp_all add: q_def line_state_def at_headers_def)
  have mode: "hp_response_mode (set_active_headers hs p0) = hp_response_mode p0" by (simp add: set_active_headers_def)
  have less: "(hp_response_mode q \<and> ((rs_status (hp_response q) \<ge> 100 \<and> rs_status (hp_response q) < 200) \<or>
           rs_status (hp_response q) = 204 \<or> rs_status (hp_response q) = 304)) = bodyless p0"
    by (simp add: q bodyless_def set_active_headers_def)
  have ab: "active_body q = []" using b0 q(2-4) by (simp add: active_body_def set_active_headers_def split: if_splits)
  show ?thesis
  proof (cases "body = []")
    case True
    have "finish_headers always q = (True, q\<lparr>hp_state := ST_COMPLETE\<rparr>)"
      using q(5,6,7) body(1) True less by (auto simp: finish_headers_def split: option.splits)
    then have "feed_loop always p (CR # LF # body @ rest) = (PARSE_COMPLETE, q\<lparr>hp_state := ST_COMPLETE\<rparr>, rest)"
      using turn True by (simp add: feed_loop_unfold(2))
    moreover have "message_read p0 hs body (q\<lparr>hp_state := ST_COMPLETE\<rparr>)"
      using q empty_active_body [of "set_active_headers hs p0"] b0 True by (simp add: message_read_def)
    ultimately show ?thesis by blast
  next
    case False
    then have len: "len = Some (length body)" "hp_content_length q = length body"
      using body(1) q(6) by (auto split: option.splits)
    obtain k' n' where r: "body_reserve always q (length body) = (True, q\<lparr>hp_body_cap := k', hp_allocs := n'\<rparr>)"
      using body_reserve_always by blast
    define s where "s = q\<lparr>hp_body_cap := k', hp_allocs := n', hp_state := ST_BODY_FIXED\<rparr>"
    have "\<not> bodyless p0" using body(2) False by blast
    then have "finish_headers always q = (True, s)"
      using q(5,7) len False r unfolding finish_headers_def less by (simp add: s_def)
    then have t1: "feed_loop always p (CR # LF # body @ rest) = feed_loop always s (body @ rest)"
      using turn by (intro feed_loop_unfold(1)) (simp add: s_def)
    have s: "hp_state s = ST_BODY_FIXED" "hp_body_written s = 0" "hp_content_length s = length body" "active_body s = []"
      using q(8) len ab by (simp_all add: s_def active_body_def split: if_splits)
    obtain p' where p': "feed_turn always s (body @ rest) = Out PARSE_COMPLETE p' rest" "hp_state p' = ST_COMPLETE"
      "hp_response_mode p' = hp_response_mode s" "hp_request p' = hp_request (set_active_body body s)"
      "hp_response p' = hp_response (set_active_body body s)"
      using body_turn [OF s(1-3) False s(4)] by blast
    have "message_read p0 hs body p'"
      using p'(2-5) same_active_body [of s "set_active_headers hs p0" body] q(2-4) mode by (simp add: message_read_def s_def)
    with t1 p'(1) show ?thesis by (simp add: feed_loop_unfold(2))
  qed
qed

section \<open>Start lines\<close>

definition plain_method :: "string \<Rightarrow> bool" where
  "plain_method m \<longleftrightarrow> m \<noteq> [] \<and> list_all is_tchar m \<and> length m < METHOD_SIZE"

definition target_char :: "char \<Rightarrow> bool" where
  "target_char c \<longleftrightarrow> \<not> (c = SP \<or> ord c < 0x20 \<or> ord c = 0x7F)"

definition plain_target :: "string \<Rightarrow> bool" where
  "plain_target t \<longleftrightarrow> t \<noteq> [] \<and> list_all target_char t \<and> sanitize_request_target t = None"

definition request_line :: "string \<Rightarrow> string \<Rightarrow> string" where
  "request_line m t = m @ '' '' @ t @ '' HTTP/1.1''"

definition request_start :: "string \<Rightarrow> string \<Rightarrow> http_parser \<Rightarrow> http_parser" where
  "request_start m t p = p\<lparr>hp_request := (hp_request p)\<lparr>rq_method := m, rq_target := t, rq_major := 1, rq_minor := 1\<rparr>\<rparr>"

lemma target_line: "target_char c \<Longrightarrow> line_char c \<and> c \<noteq> SP"
  by (auto simp: target_char_def line_char_def CR_def LF_def NUL_def SP_def)

lemma version_text: "check_version ''HTTP/1.1''" "digit_val (''HTTP/1.1'' ! 5) = 1" "digit_val (''HTTP/1.1'' ! 7) = 1"
  by (simp_all add: check_version_def is_digit_def digit_val_def)

lemma parse_plain_request_line:
  assumes "plain_method m" and "plain_target t" and "hp_line p = request_line m t" and "length t < TARGET_SIZE"
  shows "parse_request_line p = (True, request_start m t p)"
proof -
  have m: "m \<noteq> []" "\<forall>c\<in>set m. is_tchar c" "length m < METHOD_SIZE" using assms(1) by (auto simp: plain_method_def list_all_iff)
  have t: "t \<noteq> []" "sanitize_request_target t = None" using assms(2) by (auto simp: plain_target_def)
  have tc: "list_all (\<lambda>c. c \<noteq> SP \<and> \<not> ord c < 32 \<and> ord c \<noteq> 127) t"
    using assms(2) by (auto simp: plain_target_def target_char_def list_all_iff)
  have tw: "takeWhile (\<lambda>c. c \<noteq> SP) (hp_line p) = m"
    using m(2) tchar_line by (simp add: assms(3) request_line_def SP_def takeWhile_append2)
  have d: "drop (Suc (length m)) (hp_line p) = t @ '' HTTP/1.1''" by (simp add: assms(3) request_line_def)
  have rv: "takeWhile (\<lambda>c. c \<noteq> SP) (rev (t @ '' HTTP/1.1'')) = rev ''HTTP/1.1''" by (simp add: SP_def)
  have len: "length (hp_line p) = length m + length t + 10" by (simp add: assms(3) request_line_def)
  have j: "length (hp_line p) - length (takeWhile (\<lambda>c. c \<noteq> SP) (rev (drop (Suc (length m)) (hp_line p)))) = length m + length t + 2"
    unfolding d rv len by simp
  have v: "drop (length m + length t + 2) (hp_line p) = ''HTTP/1.1''" by (simp add: assms(3) request_line_def)
  have tg: "drop (Suc (length m)) (take (length m + length t + 1) (hp_line p)) = t" by (simp add: assms(3) request_line_def)
  have mt: "take (length m) (hp_line p) = m" by (simp add: assms(3) request_line_def)
  have g: "list_all is_tchar m" using m(2) by (simp add: list_all_iff)
  show ?thesis
    unfolding parse_request_line_def Let_def tw mt
    using m(1,3) t tc g assms(4) j v tg version_text
    by (simp add: len request_start_def)
qed

lemma show_nat_three:
  assumes "100 \<le> n" and "n < 1000"
  shows "show_nat n = [char_of (48 + n div 100), char_of (48 + n div 10 mod 10), char_of (48 + n mod 10)]"
proof -
  have "\<not> n < 10" "\<not> n div 10 < 10" "n div 10 div 10 < 10" using assms by auto
  moreover have "n div 10 div 10 = n div 100" by (simp add: div_mult2_eq [symmetric])
  ultimately show ?thesis by (simp add: show_nat.simps)
qed

lemma digit_of: "k < 10 \<Longrightarrow> is_digit (char_of (48 + k)) \<and> digit_val (char_of (48 + k)) = k"
  by (simp add: is_digit_def digit_val_def)

definition status_line :: "nat \<Rightarrow> string \<Rightarrow> string" where
  "status_line code reason = ''HTTP/1.1 '' @ show_nat code @ '' '' @ reason"

definition response_start :: "nat \<Rightarrow> string \<Rightarrow> http_parser \<Rightarrow> http_parser" where
  "response_start code reason p =
     p\<lparr>hp_response := (hp_response p)\<lparr>rs_major := 1, rs_minor := 1, rs_status := code, rs_reason := reason\<rparr>\<rparr>"

lemma parse_response_line_digits:
  assumes "hp_line p = ''HTTP/1.1 '' @ [a, b, c, SP] @ reason" and "is_digit a" "is_digit b" "is_digit c"
    and "list_all value_char reason" and "length reason < MAX_REQUEST_LINE"
  shows "parse_response_line p =
    (True, response_start (digit_val a * 100 + digit_val b * 10 + digit_val c) reason p)"
proof -
  have n: "hp_line p ! 5 = CHR ''1''" "hp_line p ! 6 = CHR ''.''" "hp_line p ! 7 = CHR ''1''" "hp_line p ! 8 = SP"
    "hp_line p ! 9 = a" "hp_line p ! (9 + 1) = b" "hp_line p ! (9 + 2) = c" "hp_line p ! (9 + 3) = SP"
    "take 5 (hp_line p) = ''HTTP/''" "drop (9 + 3 + 1) (hp_line p) = reason" "length (hp_line p) = 13 + length reason"
    by (simp_all add: assms(1) SP_def)
  have one: "is_digit (CHR ''1'')" "digit_val (CHR ''1'') = 1" by (simp_all add: is_digit_def digit_val_def)
  have rc: "list_all (\<lambda>c. \<not> ((ord c < 32 \<and> c \<noteq> HTAB) \<or> ord c = 127)) reason"
    using assms(5) by (auto simp: value_char_def list_all_iff)
  have i: "(if (9::nat) + 3 < 13 + length reason then 9 + 3 + 1 else 9 + 3) = (9 + 3 + 1 :: nat)" by simp
  have l: "\<not> 13 + length reason < 12" "\<not> 9 + 3 > 13 + length reason" by simp_all
  have e: "\<not> MAX_REQUEST_LINE \<le> length reason" using assms(6) by simp
  show ?thesis
    unfolding parse_response_line_def Let_def n i
    by (simp only: l one assms(2-4) simp_thms if_False if_True rc e not_True_eq_False) (simp add: response_start_def)
qed

lemma parse_plain_response_line:
  assumes "100 \<le> code" "code < 1000" and "list_all value_char reason" and "length reason < MAX_REQUEST_LINE"
    and "hp_line p = status_line code reason"
  shows "parse_response_line p = (True, response_start code reason p)"
proof -
  let ?a = "char_of (48 + code div 100)" let ?b = "char_of (48 + code div 10 mod 10)" let ?c = "char_of (48 + code mod 10)"
  have l: "hp_line p = ''HTTP/1.1 '' @ [?a, ?b, ?c, SP] @ reason"
    unfolding assms(5) status_line_def show_nat_three [OF assms(1,2)] by (simp add: SP_def)
  have r: "code div 100 < 10" "code div 10 mod 10 < 10" "code mod 10 < 10" using assms(2) by simp_all
  note d = r [THEN digit_of]
  have hundred: "code div 10 div 10 = code div 100" by (simp add: div_mult2_eq [symmetric])
  have code: "code div 100 * 100 + code div 10 mod 10 * 10 + code mod 10 = code"
    using div_mult_mod_eq [of "code div 10" 10] div_mult_mod_eq [of code 10] unfolding hundred by linarith
  show ?thesis
    using parse_response_line_digits [OF l d(1) [THEN conjunct1] d(2) [THEN conjunct1] d(3) [THEN conjunct1] assms(3,4)]
    unfolding d(1) [THEN conjunct2] d(2) [THEN conjunct2] d(3) [THEN conjunct2] code .
qed

section \<open>Whole messages\<close>

definition start_of :: "bool \<Rightarrow> http_parser" where
  "start_of response = new_parser\<lparr>hp_response_mode := response\<rparr>"

text \<open>A start line is read and the parser goes on with the headers.\<close>

lemma start_step:
  assumes line: "list_all line_char line" "length line \<le> MAX_REQUEST_LINE"
    and parse: "\<And>k n. (if response then parse_response_line (line_state line k False n (start_of response))
        else parse_request_line (line_state line k False n (start_of response))) =
      (True, f (line_state line k False n (start_of response)))"
    and f: "\<And>p. f p = p\<lparr>hp_request := hp_request (f p), hp_response := hp_response (f p)\<rparr>"
      "\<And>k n. hp_request (f (line_state line k False n (start_of response))) = hp_request (f (start_of response))"
      "\<And>k n. hp_response (f (line_state line k False n (start_of response))) = hp_response (f (start_of response))"
      "active_headers (f (start_of response)) = []"
  shows "\<exists>p. at_headers (f (start_of response)) [] 0 None p \<and>
    feed_loop always (start_of response) (line @ CR # LF # rest) = feed_loop always p rest"
proof -
  let ?s = "start_of response"
  have s: "hp_state ?s = ST_REQUEST_LINE" "hp_line ?s = []" "\<not> hp_saw_cr ?s" "hp_line_limit ?s = MAX_REQUEST_LINE"
    "hp_response_mode ?s = response"
    by (simp_all add: start_of_def new_parser_def)
  obtain k n where c: "consume_line always ?s (line @ CR # LF # rest) = (LINE_DONE, line_state line k False n ?s, rest)"
    using consume_line_whole [OF line(1), of ?s rest] line(2) s by auto
  define q where "q = line_state line k False n ?s"
  have mode: "hp_response_mode q = response" by (simp add: q_def line_state_def s)
  define p where "p = (reset_line (f q) MAX_HEADER_SIZE)\<lparr>hp_state := ST_HEADERS\<rparr>"
  have "feed_turn always ?s (line @ CR # LF # rest) = Next p rest"
    using s c parse [of k n, folded q_def] mode
    by (simp add: feed_turn_def line_turn_def read_start_line_def q_def [symmetric] p_def)
  then have "feed_loop always ?s (line @ CR # LF # rest) = feed_loop always p rest" by (rule feed_loop_unfold(1))
  moreover have "at_headers (f ?s) [] 0 None p"
  proof -
    obtain rq rs where fq: "f q = q\<lparr>hp_request := rq, hp_response := rs\<rparr>" "hp_request (f ?s) = rq" "hp_response (f ?s) = rs"
      using f(1) [of q] f(2,3) by (auto simp: q_def)
    have m: "hp_response_mode (f ?s) = response" using f(1) [of ?s] s(5)
      by (metis http_parser.select_convs(2) http_parser.surjective http_parser.update_convs(7,8))
    have e: "hp_request (set_active_headers [] (f ?s)) = rq \<and> hp_response (set_active_headers [] (f ?s)) = rs"
      using f(4) m fq(2,3) by (cases rq; cases rs) (simp add: active_headers_def set_active_headers_def split: if_splits)
    show ?thesis
      using e m fq by (simp add: at_headers_def p_def reset_line_def q_def line_state_def start_of_def new_parser_def)
  qed
  ultimately show ?thesis by blast
qed

lemma message_step:
  assumes "at_headers p0 [] 0 None p" and "list_all plain_header ms" "lengths_ok None ms" "length ms \<le> MAX_HEADER_COUNT"
    "sum_list (map field_size ms) \<le> MAX_HEADER_SIZE" and "active_body p0 = []"
    and "foldl announce None ms = Some (length body)" "bodyless p0 \<Longrightarrow> body = []"
  shows "\<exists>p'. feed_loop always p (concat (map header_line ms) @ CR # LF # body @ rest) = (PARSE_COMPLETE, p', rest) \<and>
    message_read p0 (map parsed_header ms) body p'"
proof -
  obtain q where q: "at_headers p0 (map parsed_header ms) (sum_list (map field_size ms)) (Some (length body)) q"
    "feed_loop always p (concat (map header_line ms) @ CR # LF # body @ rest) = feed_loop always q (CR # LF # body @ rest)"
    using header_steps [OF assms(1,2,3), of "CR # LF # body @ rest"] assms(4,5,7) by auto
  from headers_end [OF q(1) assms(6) _ assms(8), of rest] show ?thesis unfolding q(2) by simp
qed

section \<open>The headers that are sent\<close>

text \<open>A message the parser takes back: no header twice, \<open>Content-Length\<close> in that spelling only, all within the limits.\<close>

definition content_length_name :: string where "content_length_name = ''Content-Length''"

definition sendable :: "http_message \<Rightarrow> bool" where
  "sendable m \<longleftrightarrow> message_ok m \<and> ms_body_len m \<le> MAX_BODY_SIZE \<and>
     distinct (map mh_name (ms_headers m)) \<and> list_all plain_header (ms_headers m) \<and>
     list_all (\<lambda>h. is_length h = (mh_name h = content_length_name)) (ms_headers m) \<and>
     length (ms_headers m) < MAX_HEADER_COUNT \<and> sum_list (map field_size (ms_headers m)) + 26 \<le> MAX_HEADER_SIZE"

definition sent_headers :: "http_message \<Rightarrow> msg_header list" where
  "sent_headers m =
     (let v = show_nat (ms_body_len m); hs = ms_headers m
      in if content_length_name \<in> set (map mh_name hs)
         then map (\<lambda>h. if mh_name h = content_length_name then h\<lparr>mh_value := v\<rparr> else h) hs
         else hs @ [\<lparr>mh_name = content_length_name, mh_value = v\<rparr>])"

lemma replace_header_map:
  "distinct (map mh_name hs) \<Longrightarrow> replace_header n v hs =
     (if n \<in> set (map mh_name hs) then Some (map (\<lambda>h. if mh_name h = n then h\<lparr>mh_value := v\<rparr> else h) hs) else None)"
proof (induction hs)
  case (Cons h hs)
  have "map (\<lambda>h. if mh_name h = n then h\<lparr>mh_value := v\<rparr> else h) hs = hs" if "n \<notin> set (map mh_name hs)"
    using that by (induction hs) auto
  with Cons show ?case by auto
qed simp

lemma show_nat_width: "n < 10 ^ k \<Longrightarrow> length (show_nat n) \<le> max 1 k"
proof (induction k arbitrary: n)
  case 0
  then show ?case by (simp add: show_nat.simps)
next
  case (Suc k)
  show ?case
  proof (cases "n < 10")
    case False
    then have "n div 10 < 10 ^ k" using Suc.prems by (simp add: less_mult_imp_div_less mult.commute)
    then have "length (show_nat (n div 10)) \<le> max 1 k" by (rule Suc.IH)
    moreover have "1 \<le> k" using False Suc.prems by (cases k) auto
    ultimately show ?thesis using False by (simp add: show_nat.simps [of n])
  qed (simp add: show_nat.simps [of n])
qed

lemma length_show_body: "n \<le> MAX_BODY_SIZE \<Longrightarrow> length (show_nat n) \<le> 8"
  using show_nat_width [of n 8] by (simp add: MAX_BODY_SIZE_def)

lemma digits_cstr: "list_all is_digit s \<Longrightarrow> cstr s = s"
  unfolding cstr_def by (rule takeWhile_eq_all_conv [THEN iffD2]) (auto simp: list_all_iff is_digit_def NUL_def)

lemma set_length_sent:
  assumes "mem 0" "mem 1" "mem 2" and "sendable m"
  shows "ms_headers (set_header mem ''Content-Length'' (snprintf 256 (show_nat (ms_body_len m))) m) = sent_headers m"
proof -
  have l: "length (show_nat (ms_body_len m)) \<le> 8" using assms(4) by (intro length_show_body) (simp add: sendable_def)
  then have s: "snprintf 256 (show_nat (ms_body_len m)) = show_nat (ms_body_len m)" by (simp add: snprintf_def)
  have c: "cstr content_length_name = content_length_name" by (simp add: cstr_def content_length_name_def NUL_def)
  have d: "distinct (map mh_name (ms_headers m))" using assms(4) by (simp add: sendable_def)
  show ?thesis
    unfolding s content_length_name_def [symmetric]
    using assms(1-3) by (simp add: set_header_def c digits_cstr [OF show_nat_digits] replace_header_map [OF d] sent_headers_def Let_def)
qed

lemma lengths_one:
  "distinct (map mh_name hs) \<Longrightarrow> \<forall>h\<in>set hs. is_length h = (mh_name h = content_length_name) \<Longrightarrow>
   \<forall>h\<in>set hs. mh_name h = content_length_name \<longrightarrow> mh_value h = v \<Longrightarrow>
   v \<noteq> [] \<Longrightarrow> list_all is_digit v \<Longrightarrow> dec_from 0 v \<le> MAX_BODY_SIZE \<Longrightarrow>
   len = None \<or> content_length_name \<notin> set (map mh_name hs) \<Longrightarrow>
   lengths_ok len hs \<and> foldl announce len hs = (if content_length_name \<in> set (map mh_name hs) then Some (dec_from 0 v) else len)"
proof (induction hs arbitrary: len)
  case (Cons h hs)
  have "lengths_ok (announce len h) hs \<and> foldl announce (announce len h) hs =
      (if content_length_name \<in> set (map mh_name hs) then Some (dec_from 0 v) else announce len h)"
    using Cons.prems by (intro Cons.IH) (auto simp: announce_def)
  moreover have "length_ok len h" using Cons.prems by (auto simp: length_ok_def)
  moreover have "announce len h = (if is_length h then Some (dec_from 0 (mh_value h)) else len)" by (simp add: announce_def)
  ultimately show ?case using Cons.prems by auto
qed simp

lemma digit_char: "is_digit c \<Longrightarrow> value_char c \<and> \<not> is_blank c"
  by (auto simp: is_digit_def value_char_def is_blank_def SP_def HTAB_def)

lemma trim_digits: "list_all is_digit v \<Longrightarrow> trim_blanks v = v"
proof -
  assume v: "list_all is_digit v"
  have d: "dropWhile is_blank w = w" if "list_all is_digit w" for w
    using that digit_char by (cases w) auto
  have "list_all is_digit (rev v)" using v by (simp add: list_all_iff)
  with v show ?thesis by (simp add: trim_blanks_def d)
qed

lemma plain_length: "list_all is_digit v \<Longrightarrow> plain_header \<lparr>mh_name = content_length_name, mh_value = v\<rparr>"
  using digit_char trim_digits [of v]
  by (auto simp: plain_header_def content_length_name_def list_all_iff same_nocase_def)
     (simp_all add: is_tchar_def is_alpha_def)

lemma is_length_name: "is_length \<lparr>mh_name = content_length_name, mh_value = v\<rparr>"
  by (simp add: is_length_def content_length_name_def same_nocase_def) code_simp

lemma sent_ok:
  assumes "sendable m"
  shows "list_all plain_header (sent_headers m)"
    and "lengths_ok None (sent_headers m)" "foldl announce None (sent_headers m) = Some (ms_body_len m)"
    and "length (sent_headers m) \<le> MAX_HEADER_COUNT" "sum_list (map field_size (sent_headers m)) \<le> MAX_HEADER_SIZE"
    and "distinct (map mh_name (sent_headers m))"
proof -
  let ?v = "show_nat (ms_body_len m)" let ?hs = "ms_headers m" let ?sent = "sent_headers m"
  let ?cl = "\<lparr>mh_name = content_length_name, mh_value = ?v\<rparr>"
  let ?f = "\<lambda>h. if mh_name h = content_length_name then h\<lparr>mh_value := ?v\<rparr> else h"
  have m: "distinct (map mh_name ?hs)" "\<forall>h\<in>set ?hs. plain_header h" "length ?hs < MAX_HEADER_COUNT"
    "\<forall>h\<in>set ?hs. is_length h = (mh_name h = content_length_name)" "sum_list (map field_size ?hs) + 26 \<le> MAX_HEADER_SIZE"
    using assms by (auto simp: sendable_def list_all_iff)
  have v: "?v \<noteq> []" "list_all is_digit ?v" "dec_from 0 ?v = ms_body_len m" "ms_body_len m \<le> MAX_BODY_SIZE" "length ?v \<le> 8"
    using assms length_show_body by (simp_all add: sendable_def show_nat_not_empty show_nat_digits dec_from_show)
  have cl: "plain_header ?cl" "is_length ?cl" "field_size ?cl \<le> 26"
    using v by (simp_all add: plain_length is_length_name) (simp add: field_size_def content_length_name_def)
  have eq: "?f h = ?cl" if "mh_name h = content_length_name" for h using that by (cases h) simp
  have sent: "?sent = (if content_length_name \<in> set (map mh_name ?hs) then map ?f ?hs else ?hs @ [?cl])"
    by (simp add: sent_headers_def Let_def)
  have names: "map mh_name (map ?f ?hs) = map mh_name ?hs" by simp
  have each: "\<forall>h\<in>set ?sent. h = ?cl \<or> h \<in> set ?hs \<and> mh_name h \<noteq> content_length_name"
    unfolding sent using eq by (force split: if_splits)
  have names2: "map mh_name ?sent = (if content_length_name \<in> set (map mh_name ?hs) then map mh_name ?hs
      else map mh_name ?hs @ [content_length_name])"
    unfolding sent using names by (simp del: map_map)
  show dist: "distinct (map mh_name ?sent)" unfolding names2 using m(1) by simp
  have has: "content_length_name \<in> set (map mh_name ?sent)" unfolding names2 by simp
  show "list_all plain_header ?sent" using each m(2) cl(1) by (auto simp: list_all_iff)
  have "\<forall>h\<in>set ?sent. is_length h = (mh_name h = content_length_name)" using each m(4) cl(2) by auto
  moreover have "\<forall>h\<in>set ?sent. mh_name h = content_length_name \<longrightarrow> mh_value h = ?v" using each by auto
  ultimately have "lengths_ok None ?sent \<and> foldl announce None ?sent = Some (ms_body_len m)"
    using lengths_one [OF dist _ _ v(1,2)] v(3,4) has by simp
  then show "lengths_ok None ?sent" "foldl announce None ?sent = Some (ms_body_len m)" by simp_all
  show "length ?sent \<le> MAX_HEADER_COUNT" unfolding sent using m(3) by simp
  have "sum_list (map field_size (map ?f hs)) \<le> sum_list (map field_size hs) + 26" if "distinct (map mh_name hs)" for hs
    using that
  proof (induction hs)
    case (Cons h hs)
    show ?case
    proof (cases "mh_name h = content_length_name")
      case True
      then have "map ?f hs = hs" using Cons.prems by (intro map_idI) force
      moreover have "field_size (h\<lparr>mh_value := ?v\<rparr>) \<le> 26" using cl(3) True by (simp add: field_size_def)
      ultimately show ?thesis using True by (simp del: map_map)
    next
      case False
      then show ?thesis using Cons by (simp del: map_map)
    qed
  qed simp
  from this [OF m(1)] show "sum_list (map field_size ?sent) \<le> MAX_HEADER_SIZE"
    unfolding sent using m(5) cl(3) by (auto simp del: map_map)
qed

section \<open>Requests and responses\<close>

lemma body_length: "message_ok m \<Longrightarrow> length (body_of m) = ms_body_len m"
  by (auto simp: message_ok_def body_of_def split: option.splits)

definition read_request :: "string \<Rightarrow> string \<Rightarrow> http_message \<Rightarrow> http_request" where
  "read_request mtd t m =
     \<lparr>rq_method = mtd, rq_target = t, rq_major = 1, rq_minor = 1, rq_headers = map parsed_header (sent_headers m),
      rq_trailers = [], rq_body = body_of m\<rparr>"

lemma request_bytes_read:
  assumes "plain_method mtd" "plain_target t" "length mtd + length t + 10 \<le> MAX_REQUEST_LINE" and "sendable m"
  shows "\<exists>p. feed_loop always (start_of False) (serialized (request_line mtd t) (sent_headers m) (body_of m) @ rest) =
      (PARSE_COMPLETE, p, rest) \<and> hp_state p = ST_COMPLETE \<and> hp_request p = read_request mtd t m"
proof -
  let ?l = "request_line mtd t" and ?f = "request_start mtd t" and ?s = "start_of False"
  have chars: "list_all line_char ?l"
    using assms(1,2) tchar_line target_line
    by (auto simp: request_line_def plain_method_def plain_target_def list_all_iff line_char_def CR_def LF_def NUL_def)
  have len: "length ?l \<le> MAX_REQUEST_LINE" "length t < TARGET_SIZE"
    using assms(3) by (simp_all add: request_line_def TARGET_SIZE_def)
  have parse: "parse_request_line (line_state ?l k False n ?s) = (True, ?f (line_state ?l k False n ?s))" for k n
    by (rule parse_plain_request_line [OF assms(1,2) _ len(2)]) (simp add: line_state_def)
  obtain p where p: "at_headers (?f ?s) [] 0 None p"
    "feed_loop always ?s (?l @ CR # LF # concat (map header_line (sent_headers m)) @ CR # LF # body_of m @ rest) =
     feed_loop always p (concat (map header_line (sent_headers m)) @ CR # LF # body_of m @ rest)"
    using start_step [OF chars len(1), of False ?f "concat (map header_line (sent_headers m)) @ CR # LF # body_of m @ rest"] parse
    by (auto simp: request_start_def line_state_def start_of_def new_parser_def empty_request_def active_headers_def)
  have b: "foldl announce None (sent_headers m) = Some (length (body_of m))"
    using sent_ok(3) [OF assms(4)] body_length [of m] assms(4) by (simp add: sendable_def)
  have e: "active_body (?f ?s) = []" "\<not> bodyless (?f ?s)"
    by (simp_all add: request_start_def start_of_def new_parser_def empty_request_def active_body_def bodyless_def)
  obtain p' where p': "feed_loop always p (concat (map header_line (sent_headers m)) @ CR # LF # body_of m @ rest) =
      (PARSE_COMPLETE, p', rest)" "message_read (?f ?s) (map parsed_header (sent_headers m)) (body_of m) p'"
    using message_step [OF p(1) sent_ok(1,2,4,5) [OF assms(4)] e(1) b, of rest] e(2) by blast
  have "hp_request p' = read_request mtd t m"
    using p'(2) by (simp add: message_read_def read_request_def request_start_def start_of_def new_parser_def
        empty_request_def set_active_body_def set_active_headers_def)
  with p p' show ?thesis by (simp add: serialized_def message_read_def)
qed

definition read_response :: "nat \<Rightarrow> string \<Rightarrow> http_message \<Rightarrow> http_response" where
  "read_response code reason m =
     \<lparr>rs_major = 1, rs_minor = 1, rs_status = code, rs_reason = reason, rs_headers = map parsed_header (sent_headers m),
      rs_trailers = [], rs_body = body_of m\<rparr>"

definition no_body_status :: "nat \<Rightarrow> bool" where
  "no_body_status code \<longleftrightarrow> (100 \<le> code \<and> code < 200) \<or> code = 204 \<or> code = 304"

lemma response_bytes_read:
  assumes "100 \<le> code" "code < 1000" and "list_all value_char reason" "length reason + 13 \<le> MAX_REQUEST_LINE"
    and "sendable m" and "no_body_status code \<Longrightarrow> body_of m = []"
  shows "\<exists>p. feed_loop always (start_of True) (serialized (status_line code reason) (sent_headers m) (body_of m) @ rest) =
      (PARSE_COMPLETE, p, rest) \<and> hp_state p = ST_COMPLETE \<and> hp_response_mode p \<and>
      hp_response p = read_response code reason m"
proof -
  let ?l = "status_line code reason" and ?f = "response_start code reason" and ?s = "start_of True"
  have l: "?l = ''HTTP/1.1 '' @ [char_of (48 + code div 100), char_of (48 + code div 10 mod 10), char_of (48 + code mod 10)] @ '' '' @ reason"
    by (simp add: status_line_def show_nat_three assms(1,2))
  have "list_all line_char (show_nat code)"
    using show_nat_digits [of code] digit_char value_line by (auto simp: list_all_iff)
  then have chars: "list_all line_char ?l"
    using assms(3) value_line
    by (auto simp: status_line_def list_all_iff line_char_def CR_def LF_def NUL_def)
  have len: "length ?l \<le> MAX_REQUEST_LINE" "length reason < MAX_REQUEST_LINE" using assms(4) by (simp_all add: l)
  have parse: "parse_response_line (line_state ?l k False n ?s) = (True, ?f (line_state ?l k False n ?s))" for k n
    by (rule parse_plain_response_line [OF assms(1-3) len(2)]) (simp add: line_state_def)
  obtain p where p: "at_headers (?f ?s) [] 0 None p"
    "feed_loop always ?s (?l @ CR # LF # concat (map header_line (sent_headers m)) @ CR # LF # body_of m @ rest) =
     feed_loop always p (concat (map header_line (sent_headers m)) @ CR # LF # body_of m @ rest)"
    using start_step [OF chars len(1), of True ?f "concat (map header_line (sent_headers m)) @ CR # LF # body_of m @ rest"] parse
    by (auto simp: response_start_def line_state_def start_of_def new_parser_def empty_response_def active_headers_def)
  have b: "foldl announce None (sent_headers m) = Some (length (body_of m))"
    using sent_ok(3) [OF assms(5)] body_length [of m] assms(5) by (simp add: sendable_def)
  have e: "active_body (?f ?s) = []" "bodyless (?f ?s) = no_body_status code"
    by (simp_all add: response_start_def start_of_def new_parser_def empty_response_def active_body_def bodyless_def no_body_status_def)
  obtain p' where p': "feed_loop always p (concat (map header_line (sent_headers m)) @ CR # LF # body_of m @ rest) =
      (PARSE_COMPLETE, p', rest)" "message_read (?f ?s) (map parsed_header (sent_headers m)) (body_of m) p'"
    using message_step [OF p(1) sent_ok(1,2,4,5) [OF assms(5)] e(1) b, of rest] e(2) assms(6) by blast
  have "hp_response_mode p' \<and> hp_response p' = read_response code reason m"
    using p'(2) by (simp add: message_read_def read_response_def response_start_def start_of_def new_parser_def
        empty_response_def set_active_body_def set_active_headers_def)
  with p p' show ?thesis by (simp add: serialized_def message_read_def)
qed

end
