(* ===== verification/Client_Theorems.thy ===== *)
theory Client_Theorems
  imports Client Http_Wire
begin

text \<open>
  The client and the server understand each other: the requests of the client through the server's
  parser, the responses of the server through the client's loop, however the network cuts the bytes, and
  the parts of a URL.
\<close>

section \<open>Reading\<close>

lemma incomplete_takes_all: "feed_turn always p d = Out PARSE_INCOMPLETE p' r \<Longrightarrow> r = []"
  using feed_turn_extends [of p d "[]"] by (simp add: extends_def)

lemma loop_takes_all: "mem = always \<Longrightarrow> feed_loop mem p d = (PARSE_INCOMPLETE, p', r) \<Longrightarrow> r = []"
proof (induction mem p d rule: feed_loop.induct)
  case (1 mem p d)
  then show ?case
    by (cases "feed_turn mem p d") (auto simp: feed_loop_unfold dest: incomplete_takes_all)
qed

text \<open>Feeding to a parser that is not at its end: the status tells its state, and nothing is left when more is needed.\<close>

lemma feed_going:
  assumes "hp_state p \<notin> {ST_COMPLETE, ST_ERROR}"
  obtains s q where "parser_feed always p (Some d) = (s, q)" "settled s q"
    "s = PARSE_INCOMPLETE \<longrightarrow> hp_last_consumed q = length d"
proof -
  let ?p = "p\<lparr>hp_last_consumed := 0\<rparr>"
  obtain s t r where l: "feed_loop always ?p d = (s, t, r)" by (metis prod_cases3)
  have st: "settled s t" by (rule feed_loop_settled [OF refl l])
  then have "s = PARSE_ERROR \<Longrightarrow> hp_state t = ST_ERROR" by (simp add: settled_def)
  then have f: "parser_feed always p (Some d) = (s, t\<lparr>hp_last_consumed := length d - length r\<rparr>)"
    using assms l by (auto simp: parser_feed_def Let_def)
  have "settled s (t\<lparr>hp_last_consumed := length d - length r\<rparr>)" using st by (cases s) (simp_all add: settled_def)
  with f show thesis by (rule that) (use l loop_takes_all [OF refl, of ?p d t r] in auto)
qed

lemma room_after_ensure:
  "conn_inv c \<Longrightarrow> length (cn_buffer c) + 1 < BB_CONNECTION_MAX_BUFFER_SIZE \<Longrightarrow> \<exists>k. ensure_space always c = Inr (c\<lparr>cn_capacity := k\<rparr>)"
proof -
  assume c: "conn_inv c" and l: "length (cn_buffer c) + 1 < BB_CONNECTION_MAX_BUFFER_SIZE"
  have self: "c = c\<lparr>cn_capacity := cn_capacity c\<rparr>" by simp
  show ?thesis
  proof (cases "length (cn_buffer c) + 1 \<ge> cn_capacity c")
    case True
    then have "\<not> cn_capacity c \<ge> BB_CONNECTION_MAX_BUFFER_SIZE" using l by simp
    with True show ?thesis by (simp add: ensure_space_def Let_def) blast
  next
    case False
    then have "ensure_space always c = Inr c" by (simp add: ensure_space_def)
    with self show ?thesis by metis
  qed
qed

text \<open>The pieces the transport delivers in one call, and then a status.\<close>

definition pieces_then :: "bytes list \<Rightarrow> transport_status \<Rightarrow> read_event list" where
  "pieces_then ps st = map RdData ps @ [RdStatus st]"

definition read_end :: "transport_status \<Rightarrow> bb_connection \<Rightarrow> bb_connection" where
  "read_end st c = (if st = BB_TRANSPORT_CLOSED then c\<lparr>cn_state := BB_CONNECTION_CLOSED\<rparr> else c)"

lemma read_pieces:
  "grow = always \<Longrightarrow> evs = pieces_then ps st \<Longrightarrow> st \<in> {BB_TRANSPORT_CLOSED, BB_TRANSPORT_WANT_READ} \<Longrightarrow> conn_inv c \<Longrightarrow>
   length (cn_buffer c) + length (concat ps) + 1 < BB_CONNECTION_MAX_BUFFER_SIZE \<Longrightarrow>
   \<exists>k. read_loop grow evs c = Some (BB_SUCCESS, read_end st (c\<lparr>cn_buffer := cn_buffer c @ concat ps, cn_capacity := k\<rparr>), []) \<and>
     conn_inv (c\<lparr>cn_buffer := cn_buffer c @ concat ps, cn_capacity := k\<rparr>)"
proof (induction grow evs c arbitrary: ps rule: read_loop.induct)
  case (1 grow evs c)
  obtain k where k: "ensure_space always c = Inr (c\<lparr>cn_capacity := k\<rparr>)"
    using room_after_ensure [OF "1.prems"(4)] "1.prems"(5) by auto
  define c1 where "c1 = c\<lparr>cn_capacity := k\<rparr>"
  have Inr: "ensure_space grow c = Inr c1" using k "1.prems"(1) by (simp add: c1_def)
  have inv: "conn_inv c1" "length (cn_buffer c1) + 1 < cn_capacity c1"
    using ensure_space_ok [OF Inr "1.prems"(4)] by blast+
  show ?case
  proof (cases ps)
    case Nil
    have "read_loop grow evs c = Some (BB_SUCCESS, read_end st c1, [])"
      using "1.prems"(3) Nil unfolding "1.prems"(2) read_loop.simps [of grow "pieces_then ps st" c] Inr
      by (auto simp: pieces_then_def read_end_def)
    then show ?thesis using Nil inv(1) by (auto simp: c1_def)
  next
    case (Cons d ps')
    have evs: "evs = RdData d # pieces_then ps' st" using "1.prems"(2) Cons by (simp add: pieces_then_def)
    define room where "room = cn_capacity c1 - length (cn_buffer c1) - 1"
    define n where "n = min (length d) room"
    define c2 where "c2 = c1\<lparr>cn_buffer := cn_buffer c1 @ take n d\<rparr>"
    have room: "room \<noteq> 0" using inv by (simp add: room_def)
    have step: "read_loop grow evs c =
        (if n = length d then read_loop grow (pieces_then ps' st) c2 else read_loop grow (RdData (drop n d) # pieces_then ps' st) c2)"
      unfolding evs read_loop.simps [of grow "RdData d # pieces_then ps' st" c] Inr sum.case list.case
        read_event.case Let_def room_def [symmetric] n_def [symmetric] c2_def [symmetric]
      by (simp only: room if_False)
    have c2: "conn_inv c2" using inv by (auto simp: c2_def n_def room_def conn_inv_def)
    have buf: "cn_buffer c2 = cn_buffer c @ take n d" by (simp add: c2_def c1_def)
    show ?thesis
    proof (cases "n = length d")
      case True
      have "length (cn_buffer c2) + length (concat ps') + 1 < BB_CONNECTION_MAX_BUFFER_SIZE"
        using "1.prems"(5) Cons buf True by simp
      from "1.IH"(1) [OF Inr evs refl room_def room n_def c2_def True "1.prems"(1) refl "1.prems"(3) c2 this] obtain j where
        "read_loop grow (pieces_then ps' st) c2 = Some (BB_SUCCESS, read_end st (c2\<lparr>cn_buffer := cn_buffer c2 @ concat ps', cn_capacity := j\<rparr>), [])"
        "conn_inv (c2\<lparr>cn_buffer := cn_buffer c2 @ concat ps', cn_capacity := j\<rparr>)" by blast
      then show ?thesis unfolding step buf using True Cons by (intro exI [of _ j]) (simp add: c2_def c1_def)
    next
      case False
      have e: "RdData (drop n d) # pieces_then ps' st = pieces_then (drop n d # ps') st" by (simp add: pieces_then_def)
      have "length (cn_buffer c2) + length (concat (drop n d # ps')) + 1 < BB_CONNECTION_MAX_BUFFER_SIZE"
        using "1.prems"(5) Cons buf by (auto simp: n_def)
      from "1.IH"(2) [OF Inr evs refl room_def room n_def c2_def False "1.prems"(1) e "1.prems"(3) c2 this] obtain j where
        "read_loop grow (RdData (drop n d) # pieces_then ps' st) c2 =
          Some (BB_SUCCESS, read_end st (c2\<lparr>cn_buffer := cn_buffer c2 @ concat (drop n d # ps'), cn_capacity := j\<rparr>), [])"
        "conn_inv (c2\<lparr>cn_buffer := cn_buffer c2 @ concat (drop n d # ps'), cn_capacity := j\<rparr>)" by blast
      moreover have "cn_buffer c2 @ concat (drop n d # ps') = cn_buffer c @ concat ps" by (simp add: buf Cons)
      ultimately show ?thesis unfolding step using False by (intro exI [of _ j]) (simp add: c2_def c1_def)
    qed
  qed
qed

section \<open>The receiving loop\<close>

text \<open>
  One list of pieces for every call of \<open>bb_connection_read\<close>: more may come after each but the last one, after which
  the peer closes.
\<close>

fun delivered :: "bytes list list \<Rightarrow> (transport_status \<times> read_event list) list" where
  "delivered [] = []"
| "delivered (ps # rest) =
     (BB_TRANSPORT_OK, pieces_then ps (if rest = [] then BB_TRANSPORT_CLOSED else BB_TRANSPORT_WANT_READ)) # delivered rest"

abbreviation chars_of :: "bytes \<Rightarrow> string" where
  "chars_of bs \<equiv> map char_of_byte bs"

text \<open>Feeding what is in the buffer, when feeding that and the rest completes the message.\<close>

lemma feed_towards:
  assumes p: "hp_state p \<notin> {ST_COMPLETE, ST_ERROR}"
    and t: "sim (snd (parser_feed always p (Some (d @ rest)))) target" "hp_state target = ST_COMPLETE"
  obtains (complete) q where "parser_feed always p (Some d) = (PARSE_COMPLETE, q)" "sim q target"
  | (more) q where "parser_feed always p (Some d) = (PARSE_INCOMPLETE, q)" "hp_state q \<notin> {ST_COMPLETE, ST_ERROR}"
      "hp_last_consumed q = length d" "sim (snd (parser_feed always q (Some rest))) target" "rest \<noteq> []"
proof -
  obtain s q where f: "parser_feed always p (Some d) = (s, q)" "settled s q" "s = PARSE_INCOMPLETE \<longrightarrow> hp_last_consumed q = length d"
    by (rule feed_going [OF p, where d = d])
  have app: "sim (snd (parser_feed always q (Some rest))) target"
    using parser_feed_append [of p d rest] f(1) t(1) by (simp add: sim_def)
  have stuck: "sim q target" if "hp_state q \<in> {ST_COMPLETE, ST_ERROR}"
    using parser_feed_stuck [OF that, of always rest] app by (simp add: sim_def)
  show thesis
  proof (cases s)
    case PARSE_COMPLETE
    then show ?thesis using f stuck by (intro complete) (simp_all add: settled_def)
  next
    case PARSE_ERROR
    then have "hp_state q = ST_ERROR" using f(2) by (simp add: settled_def)
    then show ?thesis using stuck t(2) sim_fields(1) [of q target] by simp
  next
    case PARSE_INCOMPLETE
    then have q: "hp_state q \<notin> {ST_COMPLETE, ST_ERROR}" using f(2) by (simp add: settled_def)
    have "rest \<noteq> []"
    proof
      assume "rest = []"
      then have "sim q target" using t(1) f(1) by simp
      then show False using sim_fields(1) [of q target] t(2) q by simp
    qed
    then show ?thesis using more [of q] f PARSE_INCOMPLETE q app by simp
  qed
qed

lemma receive_all:
  "hp_state p \<notin> {ST_COMPLETE, ST_ERROR} \<Longrightarrow> off \<le> length (cn_buffer c) \<Longrightarrow> conn_inv c \<Longrightarrow>
   (pss \<noteq> [] \<Longrightarrow> cn_state c = BB_CONNECTION_READING) \<Longrightarrow>
   length (cn_buffer c) + length (concat (concat pss)) + 1 < BB_CONNECTION_MAX_BUFFER_SIZE \<Longrightarrow>
   sim (snd (parser_feed always p (Some (chars_of (drop off (cn_buffer c)) @ chars_of (concat (concat pss)))))) target \<Longrightarrow>
   hp_state target = ST_COMPLETE \<Longrightarrow>
   \<exists>p' off' c'. receive_loop always always (delivered pss) p off c = Some (Received BB_SUCCESS, p', off', c') \<and> sim p' target"
proof (induction pss arbitrary: p off c)
  case Nil
  from Nil.prems(1,6,7) show ?case
  proof (cases rule: feed_towards)
    case (complete q)
    then show ?thesis using Nil.prems(2) by (simp add: receive_loop.simps [of _ _ "[]"] client_feed_def)
  qed simp
next
  case (Cons ps pss)
  from Cons.prems(1,6,7) show ?case
  proof (cases rule: feed_towards)
    case (complete q)
    then show ?thesis using Cons.prems(2) by (simp add: receive_loop.simps [of _ _ "_ # _"] client_feed_def)
  next
    case (more q)
    define st where "st = (if pss = [] then BB_TRANSPORT_CLOSED else BB_TRANSPORT_WANT_READ)"
    let ?c = "c\<lparr>cn_read_hint := BB_CONN_IO_DEFAULT\<rparr>"
    have "conn_inv ?c" using Cons.prems(3) by (simp add: conn_inv_def)
    moreover have "length (cn_buffer ?c) + length (concat ps) + 1 < BB_CONNECTION_MAX_BUFFER_SIZE" using Cons.prems(5) by simp
    moreover have "st \<in> {BB_TRANSPORT_CLOSED, BB_TRANSPORT_WANT_READ}" by (simp add: st_def)
    ultimately obtain k where
      k: "read_loop always (pieces_then ps st) ?c = Some (BB_SUCCESS, read_end st (?c\<lparr>cn_buffer := cn_buffer ?c @ concat ps, cn_capacity := k\<rparr>), [])"
        "conn_inv (?c\<lparr>cn_buffer := cn_buffer ?c @ concat ps, cn_capacity := k\<rparr>)"
      using read_pieces [OF refl refl, of st ?c ps] by blast
    define d where "d = read_end st (?c\<lparr>cn_buffer := cn_buffer ?c @ concat ps, cn_capacity := k\<rparr>)"
    have d: "cn_buffer d = cn_buffer c @ concat ps" "conn_inv d" "pss \<noteq> [] \<Longrightarrow> cn_state d = BB_CONNECTION_READING"
      using k(2) Cons.prems(4) by (simp_all add: d_def read_end_def st_def conn_inv_def)
    have read: "connection_read always BB_TRANSPORT_OK (pieces_then ps st) c = Some (BB_SUCCESS, d, [])"
      using Cons.prems(4) k(1) by (simp add: connection_read_def d_def)
    have off: "off + hp_last_consumed q = length (cn_buffer c)" using more(3) Cons.prems(2) by simp
    have feed: "client_feed always p off c = Some (PARSE_INCOMPLETE, q, length (cn_buffer c))"
      using more(1) Cons.prems(2) off by (simp add: client_feed_def)
    have "receive_loop always always (delivered (ps # pss)) p off c = receive_loop always always (delivered pss) q (length (cn_buffer c)) d"
      unfolding receive_loop.simps [of _ _ "delivered (ps # pss)"] feed
      by (simp add: read st_def [symmetric]) (simp add: BB_SUCCESS_def BB_FAILED_def)
    moreover have "\<exists>p' off' c'. receive_loop always always (delivered pss) q (length (cn_buffer c)) d =
        Some (Received BB_SUCCESS, p', off', c') \<and> sim p' target"
    proof (rule Cons.IH)
      show "sim (snd (parser_feed always q (Some (chars_of (drop (length (cn_buffer c)) (cn_buffer d)) @ chars_of (concat (concat pss)))))) target"
        using more(4) by (simp add: d(1))
    qed (use more(2) d Cons.prems(5,7) in simp_all)
    ultimately show ?thesis by simp
  qed
qed

section \<open>Copying a response\<close>

lemma plain_cstr: "plain_header h \<Longrightarrow> cstr (mh_name h) = mh_name h \<and> cstr (mh_value h) = mh_value h"
  using tchar_line value_line
  by (auto simp: plain_header_def cstr_def list_all_iff line_char_def takeWhile_eq_all_conv)

lemma copy_plain_headers:
  "list_all plain_header hs \<Longrightarrow> distinct (map mh_name (ms_headers m @ hs)) \<Longrightarrow>
   copy_headers (\<lambda>_ _. True) i (map parsed_header hs) m = m\<lparr>ms_headers := ms_headers m @ hs\<rparr>"
proof (induction hs arbitrary: i m)
  case (Cons h hs)
  have "replace_header (mh_name h) (mh_value h) (ms_headers m) = None"
    using Cons.prems(2) by (simp add: replace_header_map)
  then have s: "set_header (\<lambda>_. True) (mh_name h) (mh_value h) m = m\<lparr>ms_headers := ms_headers m @ [h]\<rparr>"
    using plain_cstr [of h] Cons.prems(1) by (simp add: set_header_def)
  have "copy_headers (\<lambda>_ _. True) (i + 1) (map parsed_header hs) (m\<lparr>ms_headers := ms_headers m @ [h]\<rparr>) =
      m\<lparr>ms_headers := ms_headers m @ [h], ms_headers := (ms_headers m @ [h]) @ hs\<rparr>"
    using Cons.IH [of "m\<lparr>ms_headers := ms_headers m @ [h]\<rparr>" "i + 1"] Cons.prems by simp
  moreover have "hh_name (parsed_header h) = mh_name h" "hh_value (parsed_header h) = mh_value h"
    by (simp_all add: parsed_header_def)
  ultimately show ?case by (simp add: s)
qed simp

definition all_copied :: copy_env where
  "all_copied = \<lparr>co_line = True, co_body = True, co_header = \<lambda>_ _. True\<rparr>"

lemma response_copied:
  assumes "re_msg res = Some m0" and "sendable m"
  shows "\<exists>m'. response_from_parsed True True (\<lambda>_ _. True) (Some (read_response code reason m)) res =
      Some (0, res\<lparr>re_status := int code, re_msg := Some m'\<rparr>) \<and> ms_headers m' = sent_headers m \<and> body_of m' = body_of m"
proof -
  define m1 where "m1 = set_start_line True (Some (snprintf (MAX_REQUEST_LINE + 32)
    (''HTTP/'' @ show_nat 1 @ ''.'' @ show_nat 1 @ '' '' @ show_nat code @ (if reason \<noteq> [] then '' '' else []) @ reason))) (message_reset m0)"
  have c: "copy_headers (\<lambda>_ _. True) 0 (map parsed_header (sent_headers m)) (set_start_line True x (message_reset m0)) =
      (set_start_line True x (message_reset m0))\<lparr>ms_headers := sent_headers m\<rparr>" for x
  proof -
    have "ms_headers (set_start_line True x (message_reset m0)) = []"
      by (simp add: set_start_line_def message_reset_def Let_def split: option.split)
    then show ?thesis
      using copy_plain_headers [of "sent_headers m" "set_start_line True x (message_reset m0)" 0] sent_ok(1,6) [OF assms(2)] by simp
  qed
  obtain m' where m': "set_body_data True (Some (body_of m)) (length (body_of m)) (m1\<lparr>ms_headers := sent_headers m\<rparr>) = Some m'"
    "ms_headers m' = sent_headers m" "body_of m' = body_of m"
    using set_body_data_ok [of "length (body_of m)" "body_of m" True "m1\<lparr>ms_headers := sent_headers m\<rparr>"] by auto
  have "response_from_parsed True True (\<lambda>_ _. True) (Some (read_response code reason m)) res =
      Some (0, res\<lparr>re_status := int code, re_msg := Some m'\<rparr>)"
    using assms(1) m'(1) unfolding m1_def
    by (cases "reason = []") (simp_all add: response_from_parsed_def response_reset_def Let_def read_response_def c)
  with m'(2,3) show ?thesis by blast
qed

section \<open>URLs\<close>

lemma split_scheme_first:
  "CHR '':'' \<notin> set s \<Longrightarrow> split_scheme (s @ ''://'' @ rest) = Some (s, rest)"
proof (induction s)
  case (Cons c s)
  then have "c \<noteq> CHR '':''" by auto
  with Cons show ?case by simp
qed simp

lemma split_at_first: "list_all P xs \<Longrightarrow> ys = [] \<or> \<not> P (hd ys) \<Longrightarrow> takeWhile P (xs @ ys) = xs \<and> dropWhile P (xs @ ys) = ys"
  by (induction xs) (cases ys; auto)+

lemma c_atoi_show:
  assumes "n < 2 ^ 31" and "rest = [] \<or> \<not> is_digit (hd rest)"
  shows "c_atoi (show_nat n @ rest) = Some (int n)"
proof -
  obtain c cs where s: "show_nat n = c # cs" "is_digit c" using show_nat_not_empty [of n] show_nat_digits [of n] by (cases "show_nat n") auto
  then have d: "\<not> atoi_space c" "c \<noteq> CHR ''-''" "c \<noteq> CHR ''+''"
    by (auto simp: atoi_space_def is_digit_def SP_def)
  have t: "takeWhile is_digit (show_nat n @ rest) = show_nat n" using split_at_first [OF show_nat_digits assms(2)] by blast
  have "dropWhile atoi_space (show_nat n @ rest) = show_nat n @ rest" using s d by simp
  moreover have "hd (show_nat n @ rest) = c" "show_nat n @ rest \<noteq> []" using s by simp_all
  ultimately show ?thesis using d assms(1) unfolding c_atoi_def Let_def by (simp add: t dec_from_show)
qed

section \<open>Properties\<close>

definition sent_method :: "client_request \<Rightarrow> string" where
  "sent_method r = (case cr_method r of Some m \<Rightarrow> m | None \<Rightarrow> ''GET'')"

definition sent_target :: "client_request \<Rightarrow> string" where
  "sent_target r = (case cr_path r of Some t \<Rightarrow> t | None \<Rightarrow> ''/'')"

lemma line_cstr: "list_all line_char s \<Longrightarrow> cstr s = s"
  unfolding cstr_def by (rule takeWhile_eq_all_conv [THEN iffD2]) (auto simp: list_all_iff line_char_def)

lemma start_line_kept:
  assumes "plain_method (sent_method r)" "plain_target (sent_target r)"
    and "length (sent_method r) + length (sent_target r) + 10 \<le> MAX_REQUEST_LINE"
  shows "cstr (request_start_line (cr_method r) (cr_path r)) = request_line (sent_method r) (sent_target r)"
proof -
  let ?l = "request_line (sent_method r) (sent_target r)"
  have "list_all line_char ?l"
    using assms(1,2) tchar_line target_line
    by (auto simp: request_line_def plain_method_def plain_target_def list_all_iff line_char_def CR_def LF_def NUL_def)
  moreover have "length ?l \<le> MAX_REQUEST_LINE" using assms(3) by (simp add: request_line_def)
  moreover have "request_start_line (cr_method r) (cr_path r) = snprintf (MAX_REQUEST_LINE + METHOD_SIZE + 16) ?l"
    by (simp add: request_start_line_def request_line_def sent_method_def sent_target_def)
  ultimately show ?thesis by (simp add: snprintf_def line_cstr)
qed

lemma sendable_start_line [simp]: "sendable (m\<lparr>ms_start_line := x\<rparr>) = sendable m"
  "sent_headers (m\<lparr>ms_start_line := x\<rparr>) = sent_headers m" "body_of (m\<lparr>ms_start_line := x\<rparr>) = body_of m"
  by (simp_all add: sendable_def message_ok_def sent_headers_def body_of_def Let_def split: option.split)

lemma request_serialized:
  assumes "cr_msg r = Some m" and "sendable m" and "plain_method (sent_method r)" "plain_target (sent_target r)"
    and "length (sent_method r) + length (sent_target r) + 10 \<le> MAX_REQUEST_LINE"
  defines "out \<equiv> serialized (request_line (sent_method r) (sent_target r)) (sent_headers m) (body_of m)"
  shows "\<exists>r'. bb_request_serialize always (BB_CLIENT_REQUEST r) = Some ((0, out, length out), r')"
proof -
  define m1 where "m1 = m\<lparr>ms_start_line := Some (request_line (sent_method r) (sent_target r))\<rparr>"
  have m1: "sendable m1" "ms_start_line m1 = Some (request_line (sent_method r) (sent_target r))"
    "sent_headers m1 = sent_headers m" "body_of m1 = body_of m"
    using assms(2) by (simp_all add: m1_def)
  have ok: "message_ok m1" using m1(1) by (simp add: sendable_def)
  have "ms_headers (set_header always ''Content-Length'' (snprintf 256 (show_nat (ms_body_len m1))) m1) = sent_headers m"
    using set_length_sent [of always m1] m1 by simp
  then have "\<exists>m'. message_serialize always True m1 = Some ((0, out, length out), m')"
    using message_serialize_ok(1) [OF ok m1(2), of always] m1(4) by (simp add: out_def)
  moreover have "bb_message_set_start_line True (Some (request_start_line (cr_method r) (cr_path r))) (cr_msg r) = Some m1"
    using start_line_kept [OF assms(3,4,5)] assms(1) by (simp add: bb_message_set_start_line_def set_start_line_def m1_def)
  ultimately show ?thesis by (auto simp: bb_request_serialize_def on_client_def)
qed

lemma start_of_new: "start_of False = new_parser"
  by (simp add: start_of_def new_parser_def)

text \<open>C6: A request of the client is understood by the server. Its serialisation succeeds with the announced
  length, and whatever fragments the network makes of the bytes, the server's parser completes with exactly the
  method, the target, the headers of the message with their \<open>Content-Length\<close>, and the body.\<close>

theorem requests_arrive:
  assumes "cr_msg r = Some m" and "sendable m" and "plain_method (sent_method r)" "plain_target (sent_target r)"
    and "length (sent_method r) + length (sent_target r) + 10 \<le> MAX_REQUEST_LINE"
  shows "\<exists>out r'. bb_request_serialize (\<lambda>_. True) (BB_CLIENT_REQUEST r) = Some ((0, out, length out), r') \<and>
    (\<forall>fs. concat fs = out \<longrightarrow>
       bb_http_parser_get_request (Some (feed_fragments (\<lambda>_. True) new_parser fs)) =
       Some \<lparr>rq_method = sent_method r, rq_target = sent_target r, rq_major = 1, rq_minor = 1,
             rq_headers = map parsed_header (sent_headers m), rq_trailers = [], rq_body = body_of m\<rparr>)"
proof -
  let ?out = "serialized (request_line (sent_method r) (sent_target r)) (sent_headers m) (body_of m)"
  obtain r' where r': "bb_request_serialize always (BB_CLIENT_REQUEST r) = Some ((0, ?out, length ?out), r')"
    using request_serialized [OF assms] by blast
  obtain p where p: "feed_loop always new_parser ?out = (PARSE_COMPLETE, p, [])" "hp_state p = ST_COMPLETE"
    "hp_request p = read_request (sent_method r) (sent_target r) m"
    using request_bytes_read [OF assms(3,4,5,2), of "[]"] by (auto simp: start_of_new)
  have going: "hp_state new_parser \<notin> {ST_COMPLETE, ST_ERROR}" by (simp add: new_parser_def)
  obtain q where q: "parser_feed always new_parser (Some ?out) = (PARSE_COMPLETE, q)" "sim p q"
    by (rule parser_feed_loop [OF going p(1)])
  have "bb_http_parser_get_request (Some (feed_fragments always new_parser fs)) = Some (read_request (sent_method r) (sent_target r) m)"
    if "concat fs = ?out" for fs
  proof -
    have "fs \<noteq> []" using that by (auto simp: serialized_def)
    from feed_fragments_concat [OF this, of new_parser] have "sim p (feed_fragments always new_parser fs)"
      using q unfolding that by (simp add: sim_def)
    from sim_fields(1,7) [OF this] show ?thesis using p(2,3) by (simp add: bb_http_parser_get_request_def)
  qed
  with r' show ?thesis unfolding read_request_def by blast
qed

definition w_message :: http_message where
  "w_message = \<lparr>ms_start_line = None, ms_headers = [\<lparr>mh_name = ''Host'', mh_value = ''a.b''\<rparr>], ms_body = Some (''hi'' @ [NUL]), ms_body_len = 2\<rparr>"

definition w_client_request :: client_request where
  "w_client_request = (bb_client_request_init True)\<lparr>cr_msg := Some w_message, cr_method := Some ''POST'', cr_path := Some ''/users?x=%41''\<rparr>"

definition w_sent :: string where
  "w_sent = (case bb_request_serialize (\<lambda>_. True) (BB_CLIENT_REQUEST w_client_request) of
     Some ((rc, out, len), r) \<Rightarrow> out | None \<Rightarrow> [])"

lemma cut_three: "c = a + b \<Longrightarrow> concat [take a s, take b (drop a s), drop c s] = s"
  by (metis add.commute append_Nil2 append_take_drop_id concat.simps drop_drop)

lemma w_sendable: "sendable w_message" by code_simp

lemma w_request_plain:
  "plain_method (sent_method w_client_request)" "plain_target (sent_target w_client_request)"
  "length (sent_method w_client_request) + length (sent_target w_client_request) + 10 \<le> MAX_REQUEST_LINE"
  by code_simp+

theorem requests_arrive_witness:
  "bb_http_parser_get_request (Some (feed_fragments (\<lambda>_. True) new_parser [take 7 w_sent, take 40 (drop 7 w_sent), drop 47 w_sent])) =
   Some \<lparr>rq_method = ''POST'', rq_target = ''/users?x=%41'', rq_major = 1, rq_minor = 1,
         rq_headers = [\<lparr>hh_name = ''Host'', hh_value = ''a.b''\<rparr>, \<lparr>hh_name = ''Content-Length'', hh_value = ''2''\<rparr>],
         rq_trailers = [], rq_body = ''hi''\<rparr>"
proof -
  have m: "cr_msg w_client_request = Some w_message" by (simp add: w_client_request_def)
  obtain out r' where o: "bb_request_serialize always (BB_CLIENT_REQUEST w_client_request) = Some ((0, out, length out), r')"
    "\<And>fs. concat fs = out \<Longrightarrow> bb_http_parser_get_request (Some (feed_fragments always new_parser fs)) =
       Some \<lparr>rq_method = sent_method w_client_request, rq_target = sent_target w_client_request, rq_major = 1, rq_minor = 1,
             rq_headers = map parsed_header (sent_headers w_message), rq_trailers = [], rq_body = body_of w_message\<rparr>"
    using requests_arrive [OF m w_sendable w_request_plain] by blast
  have "w_sent = out" by (simp add: w_sent_def o(1))
  then have "concat [take 7 w_sent, take 40 (drop 7 w_sent), drop 47 w_sent] = out"
    using cut_three [of 47 7 40 w_sent] by simp
  note o(2) [OF this]
  moreover have "map parsed_header (sent_headers w_message) =
      [\<lparr>hh_name = ''Host'', hh_value = ''a.b''\<rparr>, \<lparr>hh_name = ''Content-Length'', hh_value = ''2''\<rparr>]" by code_simp
  moreover have "body_of w_message = ''hi''" by code_simp
  moreover have "sent_method w_client_request = ''POST''" "sent_target w_client_request = ''/users?x=%41''" by code_simp+
  ultimately show ?thesis by (simp only:)
qed

definition ready_client :: "bb_client \<Rightarrow> bb_connection \<Rightarrow> bool" where
  "ready_client cl c \<longleftrightarrow> cl_connection cl = Some c \<and> cn_state c = BB_CONNECTION_READING \<and> cn_buffer c = [] \<and> conn_inv c \<and>
     cl_parser cl = None \<and> re_msg (cl_res cl) \<noteq> None"

lemma status_line_kept:
  assumes "100 \<le> code" "code < 1000"
  shows "response_start_line code = status_line (nat code) (status_text_for_code code)"
    and "list_all value_char (status_text_for_code code)" "length (status_text_for_code code) + 13 \<le> MAX_REQUEST_LINE"
proof -
  have t: "length (status_text_for_code code) \<le> 21" by (simp add: status_text_for_code_def)
  have d: "length (show_nat (nat code)) = 3" using show_nat_three [of "nat code"] assms by simp
  show "response_start_line code = status_line (nat code) (status_text_for_code code)"
    using assms t d by (simp add: response_start_line_def status_line_def snprintf_def show_int_def)
  show "list_all value_char (status_text_for_code code)"
    by (simp add: status_text_for_code_def value_char_def)
  show "length (status_text_for_code code) + 13 \<le> MAX_REQUEST_LINE" using t by (simp add: MAX_REQUEST_LINE_def)
qed

text \<open>C7: A response of the server is understood by the client. However the transport cuts its bytes into pieces and the
  pieces into calls, the receiving loop of a client with a new connection returns success, and the client's response has the
  status, the headers with their \<open>Content-Length\<close> and the body that the server's response has.\<close>

theorem responses_arrive:
  assumes "re_msg res = Some m" and "sendable m" and "100 \<le> re_status res" "re_status res < 1000"
    and "no_body_status (nat (re_status res)) \<Longrightarrow> body_of m = []"
    and "response_serialize (\<lambda>_. True) True res = Some ((0, out, n), res')"
    and "concat (concat pss) = map byte_of out" and "length out + 1 < BB_CONNECTION_MAX_BUFFER_SIZE"
    and "ready_client cl c"
  shows "\<exists>cl' m'. bb_client_receive True (\<lambda>_. True) (\<lambda>_. True) all_copied (delivered pss) cl = Some (Received BB_SUCCESS, cl') \<and>
    re_status (cl_res cl') = re_status res \<and> re_msg (cl_res cl') = Some m' \<and>
    ms_headers m' = sent_headers m \<and> body_of m' = body_of m"
proof -
  let ?code = "nat (re_status res)" and ?reason = "status_text_for_code (re_status res)"
  let ?start = "status_line ?code ?reason"
  note kept = status_line_kept [OF assms(3,4)]
  have code: "100 \<le> ?code" "?code < 1000" using assms(3,4) by linarith+
  have ok: "message_ok m" using assms(2) by (simp add: sendable_def)
  have out: "out = serialized ?start (sent_headers m) (body_of m)"
    using response_serialize_ok [OF assms(1) ok, of always] set_length_sent [of always m] assms(2,6) kept(1) by auto
  obtain p where p: "feed_loop always (start_of True) out = (PARSE_COMPLETE, p, [])" "hp_state p = ST_COMPLETE"
    "hp_response_mode p" "hp_response p = read_response ?code ?reason m"
    using response_bytes_read [OF code kept(2,3) assms(2,5), of "[]"] by (auto simp: out)
  have going: "hp_state (start_of True) \<notin> {ST_COMPLETE, ST_ERROR}" by (simp add: start_of_def new_parser_def)
  obtain q where q: "parser_feed always (start_of True) (Some out) = (PARSE_COMPLETE, q)" "sim p q"
    by (rule parser_feed_loop [OF going p(1)])
  have c: "cl_connection cl = Some c" "cn_state c = BB_CONNECTION_READING" "cn_buffer c = []" "conn_inv c" "cl_parser cl = None"
    using assms(9) by (simp_all add: ready_client_def)
  obtain m0 where m0: "re_msg (cl_res cl) = Some m0" using assms(9) by (auto simp: ready_client_def)
  have "chars_of (concat (concat pss)) = out" by (simp add: assms(7) comp_def)
  then have "\<exists>p' off' c'. receive_loop always always (delivered pss) (start_of True) 0 c =
      Some (Received BB_SUCCESS, p', off', c') \<and> sim p' p"
    using going c assms(7,8) q p(2) by (intro receive_all) (simp_all add: sim_sym)
  then obtain p' off' c' where r: "receive_loop always always (delivered pss) (start_of True) 0 c = Some (Received BB_SUCCESS, p', off', c')"
    "sim p p'"
    using sim_sym by blast
  have g: "bb_http_parser_get_response (Some p') = Some (read_response ?code ?reason m)"
    using sim_fields(1,2,8) [OF r(2)] p(2-4) by (simp add: bb_http_parser_get_response_def)
  obtain m' where m': "response_from_parsed True True (\<lambda>_ _. True) (Some (read_response ?code ?reason m)) (cl_res cl) =
      Some (0, (cl_res cl)\<lparr>re_status := int ?code, re_msg := Some m'\<rparr>)" "ms_headers m' = sent_headers m" "body_of m' = body_of m"
    using response_copied [OF m0 assms(2)] by blast
  have parser: "client_parser True cl = Some (start_of True, 0)"
    using c(5) by (simp add: client_parser_def bb_http_parser_create_response_def bb_http_parser_create_def start_of_def)
  have "bb_client_receive True always always all_copied (delivered pss) cl = Some (Received BB_SUCCESS,
      cl\<lparr>cl_parser := Some p', cl_offset := off', cl_connection := Some c',
         cl_res := (cl_res cl)\<lparr>re_status := int ?code, re_msg := Some m'\<rparr>\<rparr>)"
    using c(1) parser r(1) g m'(1) by (simp add: bb_client_receive_def all_copied_def)
  with m'(2,3) assms(3) show ?thesis by simp
qed

definition w_answer :: bb_response where
  "w_answer = \<lparr>re_msg = Some w_message, re_status = 404\<rparr>"

definition w_answer_bytes :: string where
  "w_answer_bytes = (case response_serialize (\<lambda>_. True) True w_answer of Some ((rc, out, n), r) \<Rightarrow> out | None \<Rightarrow> [])"

definition w_new_client :: bb_client where
  "w_new_client = \<lparr>cl_async = None, cl_connection = Some new_connection, cl_req = BB_CLIENT_REQUEST w_client_request,
     cl_res = \<lparr>re_msg = Some empty_message, re_status = 200\<rparr>, cl_parser = None, cl_offset = 0\<rparr>"

lemma w_answer_serialized:
  "\<exists>n res'. response_serialize (\<lambda>_. True) True w_answer = Some ((0, w_answer_bytes, n), res')"
proof -
  have "message_ok w_message" by code_simp
  then obtain m' where m': "response_serialize (\<lambda>_. True) True w_answer = Some ((0,
      serialized (response_start_line 404) (ms_headers (set_header (\<lambda>_. True) ''Content-Length'' (snprintf 256 (show_nat (ms_body_len w_message))) w_message)) (body_of w_message),
      length (serialized (response_start_line 404) (ms_headers (set_header (\<lambda>_. True) ''Content-Length'' (snprintf 256 (show_nat (ms_body_len w_message))) w_message)) (body_of w_message))),
      w_answer\<lparr>re_msg := Some m'\<rparr>)"
    using response_serialize_ok [of w_answer w_message "\<lambda>_. True"] by (auto simp: w_answer_def)
  then show ?thesis unfolding w_answer_bytes_def m' by simp
qed

lemma w_answer_length: "length w_answer_bytes + 1 < BB_CONNECTION_MAX_BUFFER_SIZE"
  by code_simp

theorem responses_arrive_witness:
  "\<exists>cl' m'. bb_client_receive True (\<lambda>_. True) (\<lambda>_. True) all_copied
      (delivered [[map byte_of (take 5 w_answer_bytes)], [], [map byte_of (take 30 (drop 5 w_answer_bytes)), map byte_of (drop 35 w_answer_bytes)]])
      w_new_client = Some (Received BB_SUCCESS, cl') \<and>
    re_status (cl_res cl') = 404 \<and> re_msg (cl_res cl') = Some m' \<and>
    ms_headers m' = [\<lparr>mh_name = ''Host'', mh_value = ''a.b''\<rparr>, \<lparr>mh_name = ''Content-Length'', mh_value = ''2''\<rparr>] \<and> body_of m' = ''hi''"
proof -
  let ?pss = "[[map byte_of (take 5 w_answer_bytes)], [], [map byte_of (take 30 (drop 5 w_answer_bytes)), map byte_of (drop 35 w_answer_bytes)]]"
  obtain n res' where s: "response_serialize (\<lambda>_. True) True w_answer = Some ((0, w_answer_bytes, n), res')"
    using w_answer_serialized by blast
  have a: "re_msg w_answer = Some w_message" "100 \<le> re_status w_answer" "re_status w_answer < 1000" "re_status w_answer = 404"
    by (simp_all add: w_answer_def)
  have b: "no_body_status (nat (re_status w_answer)) \<Longrightarrow> body_of w_message = []" by (simp add: a(4) no_body_status_def)
  have "concat [take 5 w_answer_bytes, take 30 (drop 5 w_answer_bytes), drop 35 w_answer_bytes] = w_answer_bytes"
    by (rule cut_three) simp
  from arg_cong [OF this, of "map byte_of"] have c: "concat (concat ?pss) = map byte_of w_answer_bytes" by simp
  have r: "ready_client w_new_client new_connection"
    by (simp add: ready_client_def w_new_client_def new_connection_inv) (simp add: new_connection_def)
  have h: "sent_headers w_message = [\<lparr>mh_name = ''Host'', mh_value = ''a.b''\<rparr>, \<lparr>mh_name = ''Content-Length'', mh_value = ''2''\<rparr>]"
    "body_of w_message = ''hi''" by code_simp+
  show ?thesis
    using responses_arrive [OF a(1) w_sendable a(2,3) b s c w_answer_length r] unfolding a(4) h .
qed

text \<open>A URL is taken apart into its scheme, host, port and path. The port is the one written, or 443 for \<open>https\<close> and
  80 otherwise, the path is \<open>/\<close> when there is none, and the method and the message of the request stay as they are.\<close>

definition url_text :: "string \<Rightarrow> string \<Rightarrow> nat option \<Rightarrow> string \<Rightarrow> string" where
  "url_text scheme host port path =
     scheme @ ''://'' @ host @ (case port of None \<Rightarrow> [] | Some n \<Rightarrow> CHR '':'' # show_nat n) @ path"

lemma urls_are_taken_apart:
  assumes "CHR '':'' \<notin> set scheme" "scheme \<noteq> []" "hd scheme \<noteq> CHR ''/''"
    and "CHR ''/'' \<notin> set host" "CHR '':'' \<notin> set host"
    and "path = [] \<or> hd path = CHR ''/''" and "NUL \<notin> set scheme \<union> set host \<union> set path"
    and "case port of None \<Rightarrow> True | Some n \<Rightarrow> n < 2 ^ 31"
  shows "bb_client_request_set_url (\<lambda>_. True) (Some (url_text scheme host port path)) r =
    Some (r\<lparr>cr_url := Some (url_text scheme host port path), cr_scheme := Some scheme, cr_host := Some host,
            cr_path := Some (if path = [] then ''/'' else path),
            cr_port := (case port of Some n \<Rightarrow> int n | None \<Rightarrow> if scheme = ''https'' then 443 else 80)\<rparr>)"
proof -
  let ?u = "url_text scheme host port path"
  define hp where "hp = host @ (case port of None \<Rightarrow> [] | Some n \<Rightarrow> CHR '':'' # show_nat n)"
  have u: "?u = scheme @ ''://'' @ hp @ path" by (simp add: url_text_def hp_def)
  have nul: "NUL \<notin> set ?u" using assms(7) show_nat_no_nul by (auto simp: url_text_def NUL_def split: option.splits)
  then have c: "cstr ?u = ?u" by (simp add: cstr_def takeWhile_eq_all_conv) (metis)
  have cp: "cstr path = path" using assms(7) by (auto simp: cstr_def takeWhile_eq_all_conv)
  have first: "\<not> (?u \<noteq> [] \<and> hd ?u = CHR ''/'')" using assms(2,3) by (simp add: u)
  have sp: "split_scheme ?u = Some (scheme, hp @ path)" unfolding u by (rule split_scheme_first [OF assms(1)])
  have "CHR ''/'' \<notin> set (show_nat n)" for n
    using show_nat_digits [of n] by (auto simp: list_all_iff is_digit_def dest!: bspec)
  then have "list_all not_slash hp"
    using assms(4) by (auto simp: hp_def not_slash_def list_all_iff split: option.splits)
  then have sl: "takeWhile not_slash (hp @ path) = hp" "dropWhile not_slash (hp @ path) = path"
    using split_at_first [of not_slash hp path] assms(6) by (auto simp: not_slash_def)
  have h: "list_all not_colon host" using assms(5) by (auto simp: not_colon_def list_all_iff)
  have co: "takeWhile not_colon hp = host" "dropWhile not_colon hp = (case port of None \<Rightarrow> [] | Some n \<Rightarrow> CHR '':'' # show_nat n)"
    using split_at_first [OF h, of "case port of None \<Rightarrow> [] | Some n \<Rightarrow> CHR '':'' # show_nat n"]
    by (auto simp: hp_def not_colon_def split: option.splits)
  have at: "c_atoi (show_nat n @ path) = Some (int n)" if "port = Some n" for n
    using assms(6,8) that by (intro c_atoi_show) (auto simp: is_digit_def)
  have cpp: "cstr (if path = [] then ''/'' else path) = (if path = [] then ''/'' else path)"
    using cp by (simp add: cstr_def NUL_def)
  show ?thesis
    unfolding bb_client_request_set_url_def Let_def replace_string_def strdup_def option.case c if_not_P [OF first] sp prod.case
      sl co cpp
    by (cases port; cases r; simp add: at) (simp add: hp_def)
qed

text \<open>C36: Connecting again does not reset the parser. When a response was cut off, so that the parser waits for the rest of
  it, a client that connects again and receives reads memory behind its new, empty buffer, whatever the new
  connection delivers.\<close>

theorem reconnecting_reads_behind_the_buffer:
  assumes "cl_parser cl = Some p" and "hp_state p \<notin> {ST_COMPLETE, ST_ERROR}" and "0 < cl_offset cl"
    and "bb_client_connect (\<lambda>_ _. Some new_connection) cl = Some (BB_SUCCESS, cl')"
  shows "bb_client_receive parser_ok fe grow co calls cl' = None"
proof -
  have "cl' = cl\<lparr>cl_connection := Some new_connection\<rparr>"
    using assms(4) by (auto simp: bb_client_connect_def BB_SUCCESS_def split: option.splits if_splits)
  then have "cl_connection cl' = Some new_connection" "client_parser parser_ok cl' = Some (p, cl_offset cl)"
    using assms(1) by (simp_all add: client_parser_def)
  moreover have "client_feed fe p (cl_offset cl) new_connection = None"
    using assms(2,3) by (simp add: client_feed_def new_connection_def)
  ultimately show ?thesis by (simp add: bb_client_receive_def receive_loop.simps)
qed

definition w_cut_off :: "(transport_status \<times> read_event list) list" where
  "w_cut_off = [(BB_TRANSPORT_OK, [RdData (map byte_of ''HTTP/1.1 20''), RdStatus BB_TRANSPORT_CLOSED]), (BB_TRANSPORT_OK, [])]"

definition w_first :: "receive_result \<times> bb_client" where
  "w_first = the (bb_client_receive True (\<lambda>_. True) (\<lambda>_. True) all_copied w_cut_off
     (w_new_client\<lparr>cl_req := BB_CLIENT_REQUEST (w_client_request\<lparr>cr_host := Some ''h'', cr_port := 80\<rparr>)\<rparr>))"

definition w_again :: bb_client where
  "w_again = snd (the (bb_client_connect (\<lambda>_ _. Some new_connection) (snd w_first)))"

lemma w_first_parser: "cl_offset (snd w_first) = 11" "map_option hp_state (cl_parser (snd w_first)) = Some ST_REQUEST_LINE"
  by code_simp+

theorem reconnecting_reads_behind_the_buffer_witness:
  "fst w_first = Received (BB_ERR_CONNECTION_CLOSED, ''Connection closed before response was complete'') \<and>
   bb_client_receive True (\<lambda>_. True) (\<lambda>_. True) all_copied [] w_again = None"
proof -
  obtain p where p: "cl_parser (snd w_first) = Some p" "hp_state p = ST_REQUEST_LINE" using w_first_parser(2) by auto
  have "map_option fst (bb_client_connect (\<lambda>_ _. Some new_connection) (snd w_first)) = Some BB_SUCCESS" by code_simp
  then have c: "bb_client_connect (\<lambda>_ _. Some new_connection) (snd w_first) = Some (BB_SUCCESS, w_again)" by (auto simp: w_again_def)
  have "bb_client_receive True (\<lambda>_. True) (\<lambda>_. True) all_copied [] w_again = None"
    by (rule reconnecting_reads_behind_the_buffer [OF p(1) _ _ c]) (simp_all add: p(2) w_first_parser(1))
  moreover have "fst w_first = Received (BB_ERR_CONNECTION_CLOSED, ''Connection closed before response was complete'')"
    by code_simp
  ultimately show ?thesis by simp
qed

end
