(* ===== verification/Password.thy ===== *)
theory Password
  imports C_Strings Hash
begin

text \<open>
  The security policy and password hashing (\<open>modules/security/src/config.c\<close>, \<open>pbkdf2.c\<close>,
  \<open>password_backend.c\<close>, \<open>password.c\<close>, and the hexadecimal numbers of \<open>random.c\<close>). The bytes the
  operating system's generator delivers are a parameter. A result \<open>None\<close> is a write outside a buffer.
\<close>

section \<open>Errors and policy\<close>

datatype sec_code =
    SEC_OK | SEC_ERR_ALLOC | SEC_ERR_NULL
  | BB_ERR_INVALID_CREDENTIALS | BB_ERR_SESSION_EXPIRED | BB_ERR_SESSION_NOT_FOUND | BB_ERR_HASH_FAILED
  | BB_ERR_RANDOM_FAILED | BB_ERR_PASSWORD_TOO_LONG | BB_ERR_INVALID_SECURITY_CONFIG

type_synonym sec_error = "sec_code \<times> string"

definition SEC_SUCCESS :: sec_error where "SEC_SUCCESS = (SEC_OK, ''OK'')"

definition SEC_FAILED :: "sec_error \<Rightarrow> bool" where "SEC_FAILED e \<longleftrightarrow> fst e \<noteq> SEC_OK"

definition BB_PASSWORD_SALT_SIZE :: nat where "BB_PASSWORD_SALT_SIZE = 16"
definition BB_PASSWORD_HASH_SIZE :: nat where "BB_PASSWORD_HASH_SIZE = 32"
definition BB_PASSWORD_PBKDF2_ITERATIONS_DEFAULT :: u32 where "BB_PASSWORD_PBKDF2_ITERATIONS_DEFAULT = 600000"
definition BB_PASSWORD_PBKDF2_ITERATIONS_MIN :: u32 where "BB_PASSWORD_PBKDF2_ITERATIONS_MIN = 100000"
definition BB_PASSWORD_MAX_LENGTH_DEFAULT :: nat where "BB_PASSWORD_MAX_LENGTH_DEFAULT = 256"
definition BB_PASSWORD_MAX_LENGTH_MIN :: nat where "BB_PASSWORD_MAX_LENGTH_MIN = 1"
definition BB_PASSWORD_MAX_LENGTH_CEILING :: nat where "BB_PASSWORD_MAX_LENGTH_CEILING = 4096"
definition BB_SESSION_ID_SIZE :: nat where "BB_SESSION_ID_SIZE = 64"
definition BB_USER_ID_SIZE :: nat where "BB_USER_ID_SIZE = 64"
definition BB_SESSION_DEFAULT_TTL :: int where "BB_SESSION_DEFAULT_TTL = 3600"
definition BB_SESSION_LIFETIME_MIN_SECONDS :: int where "BB_SESSION_LIFETIME_MIN_SECONDS = 1"
definition BB_SESSION_LIFETIME_MAX_SECONDS :: int where "BB_SESSION_LIFETIME_MAX_SECONDS = 30 * 24 * 60 * 60"
definition BB_SESSION_ID_LENGTH_DEFAULT :: nat where "BB_SESSION_ID_LENGTH_DEFAULT = BB_SESSION_ID_SIZE - 1"
definition BB_SESSION_ID_LENGTH_MIN :: nat where "BB_SESSION_ID_LENGTH_MIN = 32"
definition BB_SESSION_ID_LENGTH_MAX :: nat where "BB_SESSION_ID_LENGTH_MAX = BB_SESSION_ID_SIZE - 1"

record security_config =
  sg_iterations :: u32
  sg_max_length :: nat
  sg_lifetime :: int
  sg_id_length :: nat

definition config_default :: security_config where
  "config_default =
     \<lparr>sg_iterations = BB_PASSWORD_PBKDF2_ITERATIONS_DEFAULT, sg_max_length = BB_PASSWORD_MAX_LENGTH_DEFAULT,
      sg_lifetime = BB_SESSION_DEFAULT_TTL, sg_id_length = BB_SESSION_ID_LENGTH_DEFAULT\<rparr>"

definition config_validate :: "security_config option \<Rightarrow> sec_error" where
  "config_validate config =
     (case config of
        None \<Rightarrow> (SEC_ERR_NULL, ''null config'')
      | Some c \<Rightarrow>
          if sg_iterations c < BB_PASSWORD_PBKDF2_ITERATIONS_MIN
          then (BB_ERR_INVALID_SECURITY_CONFIG, ''password_pbkdf2_iterations is below the minimum'')
          else if sg_max_length c < BB_PASSWORD_MAX_LENGTH_MIN \<or> sg_max_length c > BB_PASSWORD_MAX_LENGTH_CEILING
          then (BB_ERR_INVALID_SECURITY_CONFIG, ''password_max_length is out of range'')
          else if sg_lifetime c < BB_SESSION_LIFETIME_MIN_SECONDS \<or> sg_lifetime c > BB_SESSION_LIFETIME_MAX_SECONDS
          then (BB_ERR_INVALID_SECURITY_CONFIG, ''session_lifetime_seconds is out of range'')
          else if sg_id_length c < BB_SESSION_ID_LENGTH_MIN \<or> sg_id_length c > BB_SESSION_ID_LENGTH_MAX
          then (BB_ERR_INVALID_SECURITY_CONFIG, ''session_id_length is out of range'')
          else SEC_SUCCESS)"

text \<open>The active policy is a global; \<open>None\<close> before its first use.\<close>

definition config_set :: "security_config option \<Rightarrow> security_config option \<Rightarrow> sec_error \<times> security_config option" where
  "config_set config active =
     (let err = config_validate config
      in if SEC_FAILED err then (err, active) else (SEC_SUCCESS, config))"

definition config_get :: "security_config option \<Rightarrow> security_config \<times> security_config option" where
  "config_get active =
     (let c = (case active of None \<Rightarrow> config_default | Some c \<Rightarrow> c) in (c, Some c))"

section \<open>Hexadecimal\<close>

definition BB_HEX_DIGITS :: string where "BB_HEX_DIGITS = ''0123456789abcdef''"

definition hex_pair :: "u8 \<Rightarrow> string" where
  "hex_pair b = [BB_HEX_DIGITS ! unat (drop_bit 4 b AND 0x0F), BB_HEX_DIGITS ! unat (b AND 0x0F)]"

definition hex_encode :: "u8 list \<Rightarrow> string" where
  "hex_encode data = concat (map hex_pair data)"

lemma length_hex_encode [simp]: "length (hex_encode data) = 2 * length data"
  by (induction data) (simp_all add: hex_encode_def hex_pair_def)

definition hex_nibble :: "char \<Rightarrow> u8 option" where
  "hex_nibble c =
     (if ord CHR ''0'' \<le> ord c \<and> ord c \<le> ord CHR ''9'' then Some (of_nat (ord c - ord CHR ''0''))
      else if ord CHR ''a'' \<le> ord c \<and> ord c \<le> ord CHR ''f'' then Some (of_nat (ord c - ord CHR ''a'' + 10))
      else if ord CHR ''A'' \<le> ord c \<and> ord c \<le> ord CHR ''F'' then Some (of_nat (ord c - ord CHR ''A'' + 10))
      else None)"

fun hex_pairs :: "string \<Rightarrow> u8 list option" where
  "hex_pairs (h # l # rest) =
     (case (hex_nibble h, hex_nibble l) of
        (Some hi, Some lo) \<Rightarrow> map_option ((#) (push_bit 4 hi OR lo)) (hex_pairs rest)
      | _ \<Rightarrow> None)"
| "hex_pairs _ = Some []"

definition hex_decode :: "string \<Rightarrow> u8 list option" where
  "hex_decode hex = (if length hex mod 2 \<noteq> 0 then None else hex_pairs hex)"

text \<open>
  \<open>_bb_random_hex\<close>: \<open>rnd k\<close> is the \<open>k\<close>-th call of the generator, the message of its failure or the
  bytes it wrote.
\<close>

type_synonym random_source = "nat \<Rightarrow> string + (nat \<Rightarrow> u8)"

function random_hex_loop :: "random_source \<Rightarrow> nat \<Rightarrow> nat \<Rightarrow> string \<Rightarrow> sec_error + string" where
  "random_hex_loop rnd k chars_needed out =
     (if length out < chars_needed
      then let remaining = chars_needed - length out;
               n = min ((remaining + 1) div 2) 64
           in case rnd k of
                Inl msg \<Rightarrow> Inl (BB_ERR_RANDOM_FAILED, msg)
              | Inr chunk \<Rightarrow>
                  random_hex_loop rnd (k + 1) chars_needed
                    (out @ take remaining (hex_encode (map chunk [0..<n])))
      else Inr out)"
  by pat_completeness auto

termination
  by (relation "measure (\<lambda>(r, k, need, out). need - length out)") auto

declare random_hex_loop.simps [simp del]

definition random_hex :: "random_source \<Rightarrow> nat \<Rightarrow> sec_error + string" where
  "random_hex rnd hex_size =
     (if hex_size = 0 then Inl (BB_ERR_RANDOM_FAILED, ''hex buffer has no room for a terminator'')
      else random_hex_loop rnd 0 (hex_size - 1) [])"

section \<open>PBKDF2\<close>

definition index_be :: "u32 \<Rightarrow> u8 list" where
  "index_be i = [ucast (drop_bit 24 i), ucast (drop_bit 16 i), ucast (drop_bit 8 i), ucast i]"

definition pbkdf2_round :: "hmac_ctx \<Rightarrow> u8 list \<times> u8 list \<Rightarrow> u8 list \<times> u8 list" where
  "pbkdf2_round base ut =
     (case ut of (u, t) \<Rightarrow> let u = hmac_final (hmac_update u base) in (u, map2 (XOR) t u))"

definition pbkdf2_block :: "hmac_ctx \<Rightarrow> u8 list \<Rightarrow> u32 \<Rightarrow> u32 \<Rightarrow> u8 list" where
  "pbkdf2_block base salt iterations block_index =
     (let u = hmac_final (hmac_update (index_be block_index) (hmac_update salt base))
      in snd (fold (\<lambda>_. pbkdf2_round base) [1..<unat iterations] (u, u)))"

lemma length_word_bytes [simp]: "length (word_bytes w) = 4"
  by (simp add: word_bytes_def)

lemma length_hmac_final [simp]: "length (hmac_final ctx) = 32"
  by (simp add: hmac_final_def sha256_final_def Let_def split: prod.splits)

lemma length_pbkdf2_block [simp]: "length (pbkdf2_block base salt c i) = 32"
proof -
  have "length (snd (fold (\<lambda>_. pbkdf2_round base) xs (u, t))) = 32" if "length t = 32" for xs :: "nat list" and u t
    using that by (induction xs arbitrary: u t) (simp_all add: pbkdf2_round_def Let_def)
  then show ?thesis by (simp add: pbkdf2_block_def Let_def)
qed

function pbkdf2_loop :: "hmac_ctx \<Rightarrow> u8 list \<Rightarrow> u32 \<Rightarrow> nat \<Rightarrow> u32 \<Rightarrow> u8 list \<Rightarrow> u8 list" where
  "pbkdf2_loop base salt iterations out_len block_index out =
     (if length out < out_len
      then let t = pbkdf2_block base salt iterations block_index;
               chunk = out_len - length out;
               chunk = (if chunk > length t then length t else chunk)
           in pbkdf2_loop base salt iterations out_len (block_index + 1) (out @ take chunk t)
      else out)"
  by pat_completeness auto
termination
  by (relation "measure (\<lambda>(b, s, c, n, i, out). n - length out)") auto

declare pbkdf2_loop.simps [simp del]

definition pbkdf2_hmac_sha256 :: "u8 list \<Rightarrow> u8 list \<Rightarrow> u32 \<Rightarrow> nat \<Rightarrow> u8 list" where
  "pbkdf2_hmac_sha256 password salt iterations out_len =
     (if out_len = 0 then []
      else let iterations = (if iterations = 0 then 1 else iterations)
           in pbkdf2_loop (hmac_init password) salt iterations out_len 1 [])"

section \<open>The record of a password\<close>

definition BB_PBKDF2_RECORD_PREFIX :: string where "BB_PBKDF2_RECORD_PREFIX = ''$pbkdf2-sha256$i=''"
definition BB_PBKDF2_MAX_SALT_BYTES :: nat where "BB_PBKDF2_MAX_SALT_BYTES = 128"

definition constant_time_equal :: "u8 list \<Rightarrow> u8 list \<Rightarrow> nat \<Rightarrow> bool" where
  "constant_time_equal a b len \<longleftrightarrow> fold (\<lambda>i diff. diff OR (a ! i XOR b ! i)) [0..<len] 0 = 0"

definition iteration_digit_count :: "u32 \<Rightarrow> nat" where
  "iteration_digit_count iterations = length (show_nat (unat iterations))"

definition encoded_len :: "nat \<Rightarrow> u32 \<Rightarrow> nat" where
  "encoded_len salt_size iterations =
     length BB_PBKDF2_RECORD_PREFIX + iteration_digit_count iterations + 1 + salt_size * 2 + 1 +
     BB_PASSWORD_HASH_SIZE * 2 + 1"

text \<open>
  \<open>output\<close> is the size of the buffer, \<open>None\<close> a null pointer; the result has the string written. The
  password is its C string.
\<close>

definition backend_hash ::
  "string option \<Rightarrow> u8 list option \<Rightarrow> u32 \<Rightarrow> nat option \<Rightarrow> (sec_error + string) option" where
  "backend_hash password salt iterations output =
     (case (password, salt, output) of
        (Some pw, Some sl, Some output_size) \<Rightarrow>
          if output_size < encoded_len (length sl) iterations
          then Some (Inl (BB_ERR_HASH_FAILED, ''output buffer too small for pbkdf2 hash''))
          else let hash = pbkdf2_hmac_sha256 (map byte_of pw) sl iterations BB_PASSWORD_HASH_SIZE;
                   out = snprintf output_size (BB_PBKDF2_RECORD_PREFIX @ show_nat (unat iterations) @ ''$'');
                   out = out @ hex_encode sl @ ''$'' @ hex_encode hash
               in if length out + 1 > output_size then None else Some (Inr out)
      | _ \<Rightarrow> Some (Inl (SEC_ERR_NULL, ''null argument'')))"

text \<open>
  \<open>strtoul\<close> in base 10: white space, a sign, digits. The value is that of a 64-bit \<open>unsigned long\<close>,
  the greatest one when it does not fit, negated by a minus sign; beside it what follows, or
  \<open>None\<close> when there is no number.
\<close>

definition is_space :: "char \<Rightarrow> bool" where
  "is_space c \<longleftrightarrow> c = SP \<or> (9 \<le> ord c \<and> ord c \<le> 13)"

definition strtoul :: "string \<Rightarrow> (nat \<times> string) option" where
  "strtoul s =
     (let s = dropWhile is_space s;
          minus = (s \<noteq> [] \<and> hd s = CHR ''-'');
          s = (if s \<noteq> [] \<and> (hd s = CHR ''-'' \<or> hd s = CHR ''+'') then tl s else s);
          ds = takeWhile is_digit s;
          v = dec_from 0 ds
      in if ds = [] then None
         else Some (if v \<ge> 2 ^ 64 then 2 ^ 64 - 1 else if minus \<and> v > 0 then 2 ^ 64 - v else v,
                    dropWhile is_digit s))"

definition backend_verify :: "string option \<Rightarrow> string option \<Rightarrow> bool" where
  "backend_verify password encoded =
     (case (password, encoded) of
        (Some pw, Some enc) \<Rightarrow>
          let prefix_len = length BB_PBKDF2_RECORD_PREFIX
          in if take prefix_len enc \<noteq> BB_PBKDF2_RECORD_PREFIX then False
             else (case strtoul (drop prefix_len enc) of
                     None \<Rightarrow> False
                   | Some (iterations, end) \<Rightarrow>
                       if end = [] \<or> hd end \<noteq> CHR ''$'' \<or> iterations = 0 \<or> iterations > 0xFFFFFFFF then False
                       else let rest = tl end;
                                salt_hex = takeWhile (\<lambda>c. c \<noteq> CHR ''$'') rest;
                                hash_hex = drop (length salt_hex + 1) rest
                            in if CHR ''$'' \<notin> set rest then False
                               else if salt_hex = [] \<or> length salt_hex mod 2 \<noteq> 0 \<or>
                                       length salt_hex div 2 > BB_PBKDF2_MAX_SALT_BYTES then False
                               else if length hash_hex \<noteq> BB_PASSWORD_HASH_SIZE * 2 then False
                               else (case (hex_decode salt_hex, hex_decode hash_hex) of
                                       (Some salt, Some stored_hash) \<Rightarrow>
                                         constant_time_equal
                                           (pbkdf2_hmac_sha256 (map byte_of pw) salt (of_nat iterations) BB_PASSWORD_HASH_SIZE)
                                           stored_hash BB_PASSWORD_HASH_SIZE
                                     | _ \<Rightarrow> False))
      | _ \<Rightarrow> False)"

section \<open>Passwords\<close>

definition BB_PASSWORD_RECORD_TAG :: string where "BB_PASSWORD_RECORD_TAG = ''bb$pbkdf2-sha256$''"
definition BB_PASSWORD_TAG_PREFIX_LEN :: nat where "BB_PASSWORD_TAG_PREFIX_LEN = 2"

definition password_hash ::
  "security_config \<Rightarrow> random_source \<Rightarrow> string option \<Rightarrow> nat option \<Rightarrow> (sec_error + string) option" where
  "password_hash config rnd password out =
     (case (password, out) of
        (Some pw, Some out_size) \<Rightarrow>
          let pw = cstr pw
          in if length pw > sg_max_length config
             then Some (Inl (BB_ERR_PASSWORD_TOO_LONG, ''password exceeds the configured maximum length''))
             else (case rnd 0 of
                     Inl msg \<Rightarrow> Some (Inl (BB_ERR_RANDOM_FAILED, msg))
                   | Inr bytes \<Rightarrow>
                       let salt = map bytes [0..<BB_PASSWORD_SALT_SIZE];
                           needed = BB_PASSWORD_TAG_PREFIX_LEN + encoded_len (length salt) (sg_iterations config)
                       in if out_size < needed
                          then Some (Inl (BB_ERR_HASH_FAILED, ''output buffer too small for password hash''))
                          else map_option (map_sum id (\<lambda>record. ''bb'' @ record))
                                 (backend_hash (Some pw) (Some salt) (sg_iterations config)
                                    (Some (out_size - BB_PASSWORD_TAG_PREFIX_LEN))))
      | _ \<Rightarrow> Some (Inl (SEC_ERR_NULL, ''null argument'')))"

definition password_verify :: "security_config \<Rightarrow> string option \<Rightarrow> string option \<Rightarrow> bool" where
  "password_verify config password stored =
     (case (password, stored) of
        (Some pw, Some st) \<Rightarrow>
          let pw = cstr pw; st = cstr st
          in if length pw > sg_max_length config then False
             else if take (length BB_PASSWORD_RECORD_TAG) st \<noteq> BB_PASSWORD_RECORD_TAG then False
             else backend_verify (Some pw) (Some (drop BB_PASSWORD_TAG_PREFIX_LEN st))
      | _ \<Rightarrow> False)"

end
