(* ===== verification/Session.thy ===== *)
theory Session
  imports Password
begin

text \<open>
  The session store and the session and login operations (\<open>modules/security/src/session_store.c\<close>,
  \<open>session.c\<close>, \<open>auth.c\<close>). The arrays in a session are lists of 64 characters; the slots of the store
  are the whole allocated array, those from the count on included. Times are integers: a time of
  day and a lifetime of at most 30 days never overflow a 64-bit \<open>time_t\<close>.
\<close>

section \<open>The store\<close>

record session =
  se_id :: string
  se_user_id :: string
  se_expires_at :: int

definition zero_session :: session where
  "zero_session =
     \<lparr>se_id = replicate BB_SESSION_ID_SIZE NUL, se_user_id = replicate BB_USER_ID_SIZE NUL, se_expires_at = 0\<rparr>"

record session_store =
  st_slots :: "session list"
  st_count :: nat

definition empty_store :: session_store where
  "empty_store = \<lparr>st_slots = [], st_count = 0\<rparr>"

definition BB_SESSION_STORE_INITIAL_CAPACITY :: nat where "BB_SESSION_STORE_INITIAL_CAPACITY = 32"

text \<open>\<open>junk i\<close> is what the \<open>i\<close>-th slot of a grown array happens to hold.\<close>

definition ensure_capacity :: "bool \<Rightarrow> (nat \<Rightarrow> session) \<Rightarrow> session_store \<Rightarrow> sec_error \<times> session_store" where
  "ensure_capacity ok junk store =
     (let capacity = length (st_slots store)
      in if st_count store < capacity then (SEC_SUCCESS, store)
         else if \<not> ok then ((SEC_ERR_ALLOC, ''allocation failed''), store)
         else let new_cap = (if capacity = 0 then BB_SESSION_STORE_INITIAL_CAPACITY else capacity * 2)
              in (SEC_SUCCESS, store\<lparr>st_slots := st_slots store @ map junk [capacity..<new_cap]\<rparr>))"

text \<open>
  \<open>constant_time_id_equal\<close>: the looked-up string is read up to its terminating zero; \<open>None\<close> would be
  a read behind it.
\<close>

fun id_step :: "string \<Rightarrow> string \<Rightarrow> nat \<Rightarrow> (u8 \<times> bool) option \<Rightarrow> (u8 \<times> bool) option" where
  "id_step lookup stored i None = None"
| "id_step lookup stored i (Some (diff, ended)) =
     (let b = byte_of (stored ! i)
      in if ended then Some (diff OR (0 XOR b), True)
         else if i > length lookup then None
         else let a = byte_of ((lookup @ [NUL]) ! i)
              in Some (diff OR (a XOR b), a = 0))"

definition constant_time_id_equal :: "string \<Rightarrow> string \<Rightarrow> bool option" where
  "constant_time_id_equal lookup stored =
     map_option (\<lambda>(diff, ended). diff = 0)
       (fold (id_step lookup stored) [0..<BB_SESSION_ID_SIZE] (Some (0, False)))"

definition session_is_expired :: "session \<Rightarrow> int \<Rightarrow> bool" where
  "session_is_expired session now \<longleftrightarrow> se_expires_at session \<le> now"

definition store_create :: "bool \<Rightarrow> (nat \<Rightarrow> session) \<Rightarrow> session \<Rightarrow> session_store \<Rightarrow> sec_error \<times> session_store" where
  "store_create ok junk session store =
     (case ensure_capacity ok junk store of
        (err, store) \<Rightarrow>
          if SEC_FAILED err then (err, store)
          else (SEC_SUCCESS, store\<lparr>st_slots := (st_slots store)[st_count store := session],
                                   st_count := st_count store + 1\<rparr>))"

text \<open>The scan for an id: the index of the first session that has it. The outer \<open>None\<close> is undefined.\<close>

fun find_id :: "string \<Rightarrow> nat \<Rightarrow> session list \<Rightarrow> nat option option" where
  "find_id lookup i [] = Some None"
| "find_id lookup i (s # rest) =
     (case constant_time_id_equal lookup (se_id s) of
        None \<Rightarrow> None
      | Some eq \<Rightarrow> if eq then Some (Some i) else find_id lookup (i + 1) rest)"

definition live :: "session_store \<Rightarrow> session list" where
  "live store = take (st_count store) (st_slots store)"

definition store_get :: "string \<Rightarrow> session_store \<Rightarrow> (sec_error + session) option" where
  "store_get lookup store =
     (case find_id lookup 0 (live store) of
        None \<Rightarrow> None
      | Some None \<Rightarrow> Some (Inl (BB_ERR_SESSION_NOT_FOUND, ''session not found''))
      | Some (Some i) \<Rightarrow> Some (Inr (st_slots store ! i)))"

definition store_destroy :: "string \<Rightarrow> session_store \<Rightarrow> (sec_error \<times> session_store) option" where
  "store_destroy lookup store =
     (case find_id lookup 0 (live store) of
        None \<Rightarrow> None
      | Some None \<Rightarrow> Some ((BB_ERR_SESSION_NOT_FOUND, ''session not found''), store)
      | Some (Some i) \<Rightarrow>
          let last = st_count store - 1;
              slots = st_slots store;
              slots = (if i \<noteq> last then slots[i := slots ! last] else slots);
              slots = slots[last := zero_session]
          in Some (SEC_SUCCESS, store\<lparr>st_slots := slots, st_count := last\<rparr>))"

text \<open>One turn of the sweep: \<open>j\<close> is where the next session that is kept goes.\<close>

definition sweep_step :: "int \<Rightarrow> nat \<Rightarrow> session list \<times> nat \<Rightarrow> session list \<times> nat" where
  "sweep_step now i x =
     (case x of (slots, j) \<Rightarrow>
        if \<not> session_is_expired (slots ! i) now then (slots[j := slots ! i], j + 1) else (slots, j))"

definition store_cleanup :: "int \<Rightarrow> session_store \<Rightarrow> session_store" where
  "store_cleanup now store =
     (case fold (sweep_step now) [0..<st_count store] (st_slots store, 0) of
        (slots, j) \<Rightarrow>
          let slots = (if j < st_count store
                       then take j slots @ replicate (st_count store - j) zero_session @ drop (st_count store) slots
                       else slots)
          in store\<lparr>st_slots := slots, st_count := j\<rparr>)"

definition store_count :: "session_store \<Rightarrow> nat" where
  "store_count store = st_count store"

section \<open>Sessions\<close>

text \<open>What the environment does during a call: the clock, the generator, the allocation.\<close>

record session_env =
  sv_now :: int
  sv_random :: random_source
  sv_alloc :: bool
  sv_junk :: "nat \<Rightarrow> session"

text \<open>
  \<open>bb_session_create\<close>: the error, the caller's session and the store. Null arguments are \<open>None\<close>; then
  the caller's session is not touched. An id that does not fit its array would be written beyond it:
  the outer \<open>None\<close>.
\<close>

definition session_create ::
  "security_config \<Rightarrow> session_env \<Rightarrow> string option \<Rightarrow> int \<Rightarrow> session option \<Rightarrow> session_store \<Rightarrow>
   (sec_error \<times> session option \<times> session_store) option" where
  "session_create config env user_id ttl session store =
     (case (user_id, session) of
        (Some user, Some _) \<Rightarrow>
          let user = cstr user;
              session = zero_session
          in if length user = 0 \<or> length user \<ge> BB_USER_ID_SIZE
             then Some ((BB_ERR_INVALID_SECURITY_CONFIG, ''invalid user id''), Some session, store)
             else if ttl > BB_SESSION_LIFETIME_MAX_SECONDS
             then Some ((BB_ERR_INVALID_SECURITY_CONFIG, ''session ttl exceeds maximum lifetime''), Some session, store)
             else let session = session\<lparr>se_user_id := user @ drop (length user) (se_user_id session)\<rparr>
                  in if sg_id_length config + 1 > BB_SESSION_ID_SIZE then None
                     else case random_hex (sv_random env) (sg_id_length config + 1) of
                       Inl err \<Rightarrow> Some (err, Some zero_session, store)
                     | Inr hex \<Rightarrow>
                         let session = session\<lparr>se_id := hex @ [NUL] @ drop (length hex + 1) (se_id session),
                                               se_expires_at := sv_now env + ttl\<rparr>
                         in case store_create (sv_alloc env) (sv_junk env) session store of
                              (err, store) \<Rightarrow>
                                if SEC_FAILED err then Some (err, Some zero_session, store)
                                else Some (err, Some session, store)
      | _ \<Rightarrow> Some ((SEC_ERR_NULL, ''null argument''), session, store))"

definition session_get ::
  "int \<Rightarrow> string option \<Rightarrow> session option \<Rightarrow> session_store \<Rightarrow> (sec_error \<times> session option) option" where
  "session_get now sid session store =
     (case (sid, session) of
        (Some sid, Some out) \<Rightarrow>
          (case store_get (cstr sid) store of
             None \<Rightarrow> None
           | Some (Inl err) \<Rightarrow> Some (err, Some out)
           | Some (Inr s) \<Rightarrow>
               if se_expires_at s \<le> now
               then Some ((BB_ERR_SESSION_EXPIRED, ''expired''), Some zero_session)
               else Some (SEC_SUCCESS, Some s))
      | _ \<Rightarrow> Some ((SEC_ERR_NULL, ''null argument''), session))"

definition session_destroy :: "string option \<Rightarrow> session_store \<Rightarrow> (sec_error \<times> session_store) option" where
  "session_destroy sid store =
     (case sid of
        None \<Rightarrow> Some ((SEC_ERR_NULL, ''null argument''), store)
      | Some sid \<Rightarrow> store_destroy (cstr sid) store)"

definition session_cleanup_expired :: "int \<Rightarrow> session_store \<Rightarrow> sec_error \<times> session_store" where
  "session_cleanup_expired now store = (SEC_SUCCESS, store_cleanup now store)"

section \<open>Login\<close>

text \<open>The program's callback: \<open>None\<close> refuses the credentials, otherwise it has written the user id.\<close>

type_synonym verify_cb = "string \<Rightarrow> string \<Rightarrow> string option"

definition auth_login ::
  "security_config \<Rightarrow> session_env \<Rightarrow> string option \<Rightarrow> string option \<Rightarrow> verify_cb option \<Rightarrow> session option \<Rightarrow>
   session_store \<Rightarrow> (sec_error \<times> session option \<times> session_store) option" where
  "auth_login config env username password verify session store =
     (case (username, password, verify, session) of
        (Some u, Some p, Some verify, Some out) \<Rightarrow>
          (case verify u p of
             None \<Rightarrow> Some ((BB_ERR_INVALID_CREDENTIALS, ''invalid credentials''), session, store)
           | Some user_id \<Rightarrow> session_create config env (Some user_id) (sg_lifetime config) session store)
      | _ \<Rightarrow> Some ((SEC_ERR_NULL, ''null argument''), session, store))"

definition auth_logout :: "string option \<Rightarrow> session_store \<Rightarrow> (sec_error \<times> session_store) option" where
  "auth_logout session_id store = session_destroy session_id store"

end
