(* ===== verification/Password_Theorems.thy ===== *)
theory Password_Theorems
  imports Password Hash_Theorems
begin

text \<open>
  PBKDF2 is the function of RFC 8018, and a password record is verified by exactly the passwords
  whose derived key is the stored one; what the policy accepts is within its bounds.
\<close>

section \<open>PBKDF2\<close>

text \<open>The functions of RFC 8018, section 5.2, with HMAC-SHA-256: \<open>U_j\<close>, \<open>F\<close> and the derived key.\<close>

definition int_be :: "nat \<Rightarrow> u8 list" where
  "int_be i = map (\<lambda>k. of_nat (i div 256 ^ k)) [3, 2, 1, 0]"

fun rfc_u :: "u8 list \<Rightarrow> u8 list \<Rightarrow> nat \<Rightarrow> nat \<Rightarrow> u8 list" where
  "rfc_u pw salt i 0 = hmac_spec pw (salt @ int_be i)"
| "rfc_u pw salt i (Suc j) = hmac_spec pw (rfc_u pw salt i j)"

definition rfc_f :: "u8 list \<Rightarrow> u8 list \<Rightarrow> nat \<Rightarrow> nat \<Rightarrow> u8 list" where
  "rfc_f pw salt c i = foldl (map2 (XOR)) (rfc_u pw salt i 0) (map (rfc_u pw salt i) [1..<c])"

definition rfc_blocks :: "u8 list \<Rightarrow> u8 list \<Rightarrow> nat \<Rightarrow> nat \<Rightarrow> u8 list" where
  "rfc_blocks pw salt c l = concat (map (rfc_f pw salt c) [1..<Suc l])"

definition pbkdf2_spec :: "u8 list \<Rightarrow> u8 list \<Rightarrow> nat \<Rightarrow> nat \<Rightarrow> u8 list" where
  "pbkdf2_spec pw salt c dk_len = take dk_len (rfc_blocks pw salt c ((dk_len + 31) div 32))"

lemma index_be_int: "i < 2 ^ 32 \<Longrightarrow> index_be (of_nat i) = int_be i"
  by (simp add: index_be_def int_be_def word_unat_eq_iff unsigned_ucast_eq
      unsigned_drop_bit_eq unat_div_distrib unsigned_of_nat take_bit_nat_eq_self drop_bit_eq_div)

lemma round_spec:
  "fold (\<lambda>_. pbkdf2_round (hmac_init pw)) [1..<Suc n] (rfc_u pw salt i 0, rfc_u pw salt i 0) =
   (rfc_u pw salt i n, rfc_f pw salt (Suc n) i)"
proof (induction n)
  case (Suc n)
  have "hmac_final (hmac_update u (hmac_init pw)) = hmac_spec pw u" for u
    using hmac_updates [of "[u]" pw] by simp
  with Suc show ?case by (simp add: pbkdf2_round_def rfc_f_def Let_def)
qed (simp add: rfc_f_def)

lemma block_spec:
  assumes "i < 2 ^ 32" and "c \<noteq> 0"
  shows "pbkdf2_block (hmac_init pw) salt c (of_nat i) = rfc_f pw salt (unat c) i"
proof -
  obtain n where n: "unat c = Suc n" using assms(2) by (metis not0_implies_Suc unat_eq_zero)
  have "hmac_final (hmac_update (int_be i) (hmac_update salt (hmac_init pw))) = rfc_u pw salt i 0"
    using hmac_updates [of "[salt, int_be i]" pw] by simp
  then show ?thesis
    by (simp only: pbkdf2_block_def index_be_int [OF assms(1)] Let_def n round_spec snd_conv)
qed

lemma length_rfc_f [simp]: "length (rfc_f pw salt c i) = 32"
proof -
  have u: "length (rfc_u pw salt i j) = 32" for j
    by (cases j) (simp_all add: hmac_spec_def)
  have "length (foldl (map2 (XOR)) t us) = 32" if "length t = 32" "\<forall>x\<in>set us. length x = 32" for t :: "u8 list" and us
    using that by (induction us arbitrary: t) simp_all
  moreover have "\<forall>x\<in>set (map (rfc_u pw salt i) [1..<c]). length x = 32" by (simp only: set_map ball_simps u) simp
  ultimately show ?thesis unfolding rfc_f_def using u by blast
qed

lemma rfc_blocks_Suc: "rfc_blocks pw salt c (Suc l) = rfc_blocks pw salt c l @ rfc_f pw salt c (Suc l)"
  by (simp add: rfc_blocks_def)

lemma length_rfc_blocks [simp]: "length (rfc_blocks pw salt c l) = 32 * l"
  by (induction l) (simp_all add: rfc_blocks_Suc, simp add: rfc_blocks_def)

lemma rfc_blocks_prefix: "l \<le> l' \<Longrightarrow> n \<le> 32 * l \<Longrightarrow> take n (rfc_blocks pw salt c l') = take n (rfc_blocks pw salt c l)"
  by (induction l' rule: dec_induct) (simp_all add: rfc_blocks_Suc)

lemma loop_spec:
  assumes "n \<le> 32 * (2 ^ 32 - 1)" and "c \<noteq> 0" and "32 * k < n + 32"
  shows "pbkdf2_loop (hmac_init pw) salt c n (of_nat (Suc k)) (take n (rfc_blocks pw salt (unat c) k)) =
    pbkdf2_spec pw salt (unat c) n"
  using assms(3)
proof (induction "n - 32 * k" arbitrary: k rule: less_induct)
  case less
  show ?case
  proof (cases "32 * k < n")
    case True
    have k: "Suc k < 2 ^ 32" using True assms(1) by linarith
    have all: "take n (rfc_blocks pw salt (unat c) k) = rfc_blocks pw salt (unat c) k" using True by simp
    have t: "take (if n - 32 * k > 32 then 32 else n - 32 * k) (rfc_f pw salt (unat c) (Suc k)) =
        take (n - 32 * k) (rfc_f pw salt (unat c) (Suc k))" by simp
    have "pbkdf2_loop (hmac_init pw) salt c n (of_nat (Suc k)) (rfc_blocks pw salt (unat c) k) =
        pbkdf2_loop (hmac_init pw) salt c n (of_nat (Suc (Suc k))) (take n (rfc_blocks pw salt (unat c) (Suc k)))"
      using True unfolding pbkdf2_loop.simps [of _ salt c n "of_nat (Suc k)"] block_spec [OF k assms(2)]
      by (simp add: Let_def rfc_blocks_Suc)
    also have "\<dots> = pbkdf2_spec pw salt (unat c) n"
      using True by (intro less.hyps) simp_all
    finally show ?thesis using all by simp
  next
    case False
    define l where "l = (n + 31) div 32"
    have "l = k" using less.prems False unfolding l_def by linarith
    with False show ?thesis
      by (simp add: pbkdf2_loop.simps [of _ salt c n] pbkdf2_spec_def l_def [symmetric])
  qed
qed

lemma pbkdf2_is_spec:
  assumes "n \<le> 32 * (2 ^ 32 - 1)"
  shows "pbkdf2_hmac_sha256 pw salt c n = pbkdf2_spec pw salt (max 1 (unat c)) n"
proof (cases "n = 0")
  case False
  define c' where "c' = (if c = 0 then 1 else c)"
  have c': "c' \<noteq> 0" "unat c' = max 1 (unat c)"
    by (auto simp: c'_def max_def unat_eq_zero)
      (metis One_nat_def Suc_leI le_antisym not_less_eq_eq unat_gt_0 word_neq_0_conv)
  have "pbkdf2_hmac_sha256 pw salt c n = pbkdf2_loop (hmac_init pw) salt c' n 1 []"
    using False by (simp add: pbkdf2_hmac_sha256_def c'_def)
  also have "\<dots> = pbkdf2_spec pw salt (unat c') n"
    using loop_spec [OF assms c'(1), of 0 pw salt] False by (simp add: rfc_blocks_def)
  finally show ?thesis by (simp add: c'(2))
qed (simp add: pbkdf2_hmac_sha256_def pbkdf2_spec_def)

section \<open>Records\<close>

lemma hex_digit_nibble: "unat n < 16 \<Longrightarrow> hex_nibble (BB_HEX_DIGITS ! unat n) = Some n"
proof -
  have "\<forall>k\<in>set [0..<16]. hex_nibble (BB_HEX_DIGITS ! k) = Some (of_nat k)"
    by (simp add: upt_rec hex_nibble_def BB_HEX_DIGITS_def)
  moreover assume "unat n < 16"
  ultimately show ?thesis by simp
qed

lemma nibble: "(b :: u8) AND 0x0F = take_bit 4 b"
  by (simp add: take_bit_eq_mask mask_eq_exp_minus_1)

lemma nibble_small: "unat ((b :: u8) AND 0x0F) < 16"
  unfolding nibble by (simp add: unsigned_take_bit_eq) (use take_bit_nat_less_exp [of 4 "unat b"] in simp)

lemma hex_pair_decode: "hex_pair b = [c, d] \<Longrightarrow> hex_nibble c = Some (drop_bit 4 b AND 0x0F) \<and> hex_nibble d = Some (b AND 0x0F)"
  using nibble_small by (auto simp: hex_pair_def hex_digit_nibble)

lemma nibbles_join: "push_bit 4 (drop_bit 4 b AND 0x0F) OR (b AND 0x0F) = (b :: u8)"
  unfolding nibble by (rule bit_word_eqI) (auto simp: bit_simps not_le)

lemma hex_pairs_encode: "hex_pairs (hex_encode data) = Some data"
proof (induction data)
  case (Cons b data)
  obtain c d where cd: "hex_pair b = [c, d]" by (simp add: hex_pair_def)
  with Cons hex_pair_decode [OF cd] nibbles_join [of b] show ?case
    by (simp add: hex_encode_def del: push_bit_numeral push_bit_and)
qed (simp add: hex_encode_def)

lemma hex_round_trip: "hex_decode (hex_encode data) = Some data"
  by (simp add: hex_decode_def hex_pairs_encode)

lemma hex_chars: "c \<in> set (hex_encode data) \<Longrightarrow> c \<in> set BB_HEX_DIGITS"
proof -
  have "BB_HEX_DIGITS ! unat ((v :: u8) AND 0x0F) \<in> set BB_HEX_DIGITS" for v
    using nibble_small [of v] by (intro nth_mem) (simp add: BB_HEX_DIGITS_def)
  then show "c \<in> set (hex_encode data) \<Longrightarrow> c \<in> set BB_HEX_DIGITS"
    by (auto simp: hex_encode_def hex_pair_def)
qed

text \<open>Comparing without looking where two byte sequences differ.\<close>

lemma or_fold_zero:
  "fold (\<lambda>i d. d OR (f i XOR g i)) [0..<n] 0 = (0 :: u8) \<longleftrightarrow> (\<forall>i<n. f i = g i)"
proof (induction n)
  case (Suc n)
  have "(x XOR y = 0) = (x = y)" for x y :: u8 by (simp add: bit_eq_iff bit_simps)
  with Suc show ?case by (auto simp: less_Suc_eq or_eq_0_iff)
qed simp

lemma equal_bytes:
  assumes "length a = n" and "length b = n"
  shows "constant_time_equal a b n \<longleftrightarrow> a = b"
  using assms by (auto simp: constant_time_equal_def or_fold_zero list_eq_iff_nth_eq)

lemma strtoul_show:
  assumes "n < 2 ^ 64" and "s = [] \<or> \<not> is_digit (hd s)"
  shows "strtoul (show_nat n @ s) = Some (n, s)"
proof -
  obtain c cs where d: "show_nat n = c # cs" using show_nat_not_empty [of n] by (cases "show_nat n") auto
  have digits: "list_all is_digit (show_nat n)" by (rule show_nat_digits)
  then have c: "is_digit c" by (simp add: d)
  then have "\<not> is_space c" "c \<noteq> CHR ''-''" "c \<noteq> CHR ''+''"
    by (auto simp: is_space_def is_digit_def SP_def)
  moreover have "takeWhile is_digit (show_nat n @ s) = show_nat n" "dropWhile is_digit (show_nat n @ s) = s"
    using digits assms(2) by (cases s; auto simp: list_all_iff takeWhile_append dropWhile_append)+
  moreover have "dropWhile is_space (show_nat n @ s) = show_nat n @ s"
    using calculation(1) by (simp add: d)
  ultimately show ?thesis
    using assms(1) by (simp add: strtoul_def Let_def d dec_from_show [of n, unfolded d])
qed

text \<open>What is verified against a record that was written: the derived key.\<close>

definition password_record :: "u8 list \<Rightarrow> u32 \<Rightarrow> u8 list \<Rightarrow> string" where
  "password_record salt iterations key =
     BB_PBKDF2_RECORD_PREFIX @ show_nat (unat iterations) @ ''$'' @ hex_encode salt @ ''$'' @ hex_encode key"

lemma digits_plain: "CHR ''$'' \<notin> set (hex_encode x)" "NUL \<notin> set (hex_encode x)"
  using hex_chars [of _ x] by (auto simp: BB_HEX_DIGITS_def NUL_def)

lemma verify_record:
  assumes "length salt \<noteq> 0" and "length salt \<le> BB_PBKDF2_MAX_SALT_BYTES" and "length key = 32" and "c \<noteq> 0"
  shows "backend_verify (Some pw) (Some (password_record salt c key)) \<longleftrightarrow>
    pbkdf2_spec (map byte_of pw) salt (unat c) 32 = key"
proof -
  define rest where "rest = hex_encode salt @ CHR ''$'' # hex_encode key"
  have n: "0 < unat c" "unat c < 2 ^ 32" using assms(4) unsigned_less [of c, where ?'a = nat] by (simp_all add: unat_gt_0)
  have "strtoul (show_nat (unat c) @ CHR ''$'' # rest) = Some (unat c, CHR ''$'' # rest)"
    using n by (intro strtoul_show) (simp_all add: is_digit_def)
  moreover have "takeWhile (\<lambda>c. c \<noteq> CHR ''$'') rest = hex_encode salt"
    using digits_plain(1) [of salt] unfolding rest_def by (subst takeWhile_append2) auto
  moreover have "drop (length (hex_encode salt) + 1) rest = hex_encode key" "CHR ''$'' \<in> set rest"
    by (simp_all add: rest_def)
  moreover have "max 1 (unat c) = unat c" using n by simp
  moreover have "length (pbkdf2_spec x salt (unat c) 32) = 32" for x by (simp add: pbkdf2_spec_def)
  moreover have "hex_encode salt \<noteq> []" using assms(1) by (metis length_hex_encode list.size(3) mult_eq_0_iff zero_neq_numeral)
  ultimately show ?thesis
    using assms n
    by (simp add: backend_verify_def password_record_def Let_def rest_def [symmetric] hex_round_trip
        BB_PASSWORD_HASH_SIZE_def pbkdf2_is_spec equal_bytes)
qed

lemma hash_record:
  assumes "encoded_len (length salt) c \<le> room"
  shows "\<exists>key. backend_hash (Some pw) (Some salt) c (Some room) = Some (Inr (password_record salt c key)) \<and>
    key = pbkdf2_spec (map byte_of pw) salt (max 1 (unat c)) 32 \<and> length (password_record salt c key) < room"
proof -
  define key where "key = pbkdf2_spec (map byte_of pw) salt (max 1 (unat c)) 32"
  have key: "pbkdf2_hmac_sha256 (map byte_of pw) salt c 32 = key" by (simp add: pbkdf2_is_spec key_def)
  have "length key = 32" by (simp add: key_def pbkdf2_spec_def)
  then have len: "length (password_record salt c key) < room"
    using assms by (simp add: password_record_def encoded_len_def iteration_digit_count_def BB_PASSWORD_HASH_SIZE_def)
  then have "snprintf room (BB_PBKDF2_RECORD_PREFIX @ show_nat (unat c) @ ''$'') =
      BB_PBKDF2_RECORD_PREFIX @ show_nat (unat c) @ ''$''"
    by (simp add: snprintf_def password_record_def)
  then have "backend_hash (Some pw) (Some salt) c (Some room) = Some (Inr (password_record salt c key))"
    using assms len by (simp add: backend_hash_def Let_def BB_PASSWORD_HASH_SIZE_def key password_record_def)
  with len show ?thesis unfolding key_def by blast
qed

section \<open>Properties\<close>

text \<open>C38: The key derivation is PBKDF2 of RFC 8018 with HMAC-SHA-256, for every password, salt, number of
  iterations (zero counting as one) and every length that the standard allows.\<close>

theorem pbkdf2_is_the_standard:
  assumes "out_len \<le> 32 * (2 ^ 32 - 1)"
  shows "pbkdf2_hmac_sha256 password salt iterations out_len =
      pbkdf2_spec password salt (max 1 (unat iterations)) out_len \<and>
    length (pbkdf2_hmac_sha256 password salt iterations out_len) = out_len"
  unfolding pbkdf2_is_spec [OF assms] by (simp add: pbkdf2_spec_def)

theorem pbkdf2_is_the_standard_witness:
  "pbkdf2_hmac_sha256 [112, 119] [1, 2] 2 40 = pbkdf2_spec [112, 119] [1, 2] 2 40"
proof -
  have "max 1 (unat (2 :: u32)) = 2" by simp
  with pbkdf2_is_the_standard [of 40 "[112, 119]" "[1, 2]" 2] show ?thesis by (simp only: split: if_splits) simp
qed

text \<open>C15: A password that the policy allows is hashed into a record that fits the buffer it was checked
  against, and from then on the stored is verified, under any policy, by exactly the passwords
  that the policy allows and that have the same derived key: the password itself among them.\<close>

theorem passwords_verify_their_records:
  assumes "config_validate (Some config) = SEC_SUCCESS"
    and "length (cstr pw) \<le> sg_max_length config"
    and "rnd 0 = Inr bytes"
    and "2 + encoded_len 16 (sg_iterations config) \<le> room"
  shows "\<exists>stored. password_hash config rnd (Some pw) (Some room) = Some (Inr stored) \<and> length stored < room \<and>
    (\<forall>config' pw'. password_verify config' (Some pw') (Some stored) \<longleftrightarrow>
       length (cstr pw') \<le> sg_max_length config' \<and>
       pbkdf2_spec (map byte_of (cstr pw')) (map bytes [0..<16]) (unat (sg_iterations config)) 32 =
       pbkdf2_spec (map byte_of (cstr pw)) (map bytes [0..<16]) (unat (sg_iterations config)) 32)"
proof -
  define c salt where "c = sg_iterations config" and "salt = map bytes [0..<16]"
  have "\<not> c < 100000"
    using assms(1) by (auto simp: config_validate_def SEC_SUCCESS_def c_def BB_PASSWORD_PBKDF2_ITERATIONS_MIN_def
        split: if_splits)
  then have c: "c \<noteq> 0" by auto
  have "1 \<le> unat c" using c by (metis One_nat_def Suc_leI unat_gt_0)
  then have one: "max 1 (unat c) = unat c" by simp
  have salt: "length salt = 16" by (simp add: salt_def)
  have le: "encoded_len (length salt) c \<le> room - 2" using assms(4) by (simp add: salt c_def)
  obtain key where hash: "backend_hash (Some (cstr pw)) (Some salt) c (Some (room - 2)) =
      Some (Inr (password_record salt c key))"
    and key: "key = pbkdf2_spec (map byte_of (cstr pw)) salt (unat c) 32"
    and len: "length (password_record salt c key) < room - 2"
    using hash_record [OF le, of "cstr pw", unfolded one] by blast
  define stored where "stored = ''bb'' @ password_record salt c key"
  have "password_hash config rnd (Some pw) (Some room) = Some (Inr stored)"
    using assms(2-4) hash
    by (simp add: password_hash_def Let_def BB_PASSWORD_SALT_SIZE_def BB_PASSWORD_TAG_PREFIX_LEN_def
        salt_def [symmetric] c_def [symmetric] salt stored_def)
  moreover have "password_verify config' (Some pw') (Some stored) \<longleftrightarrow>
      length (cstr pw') \<le> sg_max_length config' \<and> pbkdf2_spec (map byte_of (cstr pw')) salt (unat c) 32 = key"
    for config' pw'
  proof -
    have "NUL \<notin> set stored"
      using digits_plain(2) show_nat_no_nul
      by (auto simp: stored_def password_record_def BB_PBKDF2_RECORD_PREFIX_def NUL_def)
    then have "cstr stored = stored" by (rule cstr_id)
    moreover have "take (length BB_PASSWORD_RECORD_TAG) stored = BB_PASSWORD_RECORD_TAG"
      by (simp add: stored_def password_record_def BB_PASSWORD_RECORD_TAG_def BB_PBKDF2_RECORD_PREFIX_def)
    moreover have "drop BB_PASSWORD_TAG_PREFIX_LEN stored = password_record salt c key"
      by (simp add: stored_def BB_PASSWORD_TAG_PREFIX_LEN_def)
    moreover have "length key = 32" by (simp add: key pbkdf2_spec_def)
    ultimately show ?thesis
      using verify_record [of salt key c "cstr pw'"] c
      by (simp add: password_verify_def Let_def salt BB_PBKDF2_MAX_SALT_BYTES_def not_less)
  qed
  moreover have "length stored < room" using len by (simp add: stored_def)
  ultimately show ?thesis unfolding key c_def salt_def by blast
qed

theorem passwords_verify_their_records_witness:
  "\<exists>stored. password_hash config_default (\<lambda>_. Inr of_nat) (Some ''secret'') (Some 256) = Some (Inr stored) \<and>
     password_verify config_default (Some ''secret'') (Some stored)"
proof -
  have v: "config_validate (Some config_default) = SEC_SUCCESS" by code_simp
  have len: "length (cstr ''secret'') \<le> sg_max_length config_default"
    and room: "2 + encoded_len 16 (sg_iterations config_default) \<le> 256" by code_simp+
  have rnd: "(\<lambda>_. Inr of_nat :: string + (nat \<Rightarrow> u8)) (0 :: nat) = Inr of_nat" by (rule refl)
  show ?thesis using passwords_verify_their_records [OF v len rnd room] len by blast
qed

end
