(* ===== verification/Session_Theorems.thy ===== *)
theory Session_Theorems
  imports Session Password_Theorems
begin

text \<open>
  The session store is a finite map from ids to sessions: what each operation does to the map, what
  becomes of a session under any sequence of operations, and that the id of a session that is gone
  is gone from the memory of the store. The interface between the store and its users is the locale
  \<open>keyed_store\<close>.
\<close>

section \<open>The interface\<close>

text \<open>
  A store with its contents as a map, and operations of which the client knows how they may change
  the map; they may be restricted to those that the provider allows.
\<close>

locale keyed_store =
  fixes ok :: "'s \<Rightarrow> bool"
    and contents :: "'s \<Rightarrow> 'k \<Rightarrow> 'v option"
    and step :: "'op \<Rightarrow> 's \<Rightarrow> 's option"
    and allowed :: "'op \<Rightarrow> 's \<Rightarrow> bool"
    and effect :: "'op \<Rightarrow> ('k \<Rightarrow> 'v option) \<Rightarrow> ('k \<Rightarrow> 'v option) \<Rightarrow> bool"
  assumes step_ok: "ok s \<Longrightarrow> allowed op s \<Longrightarrow> \<exists>s'. step op s = Some s' \<and> ok s' \<and> effect op (contents s) (contents s')"
begin

fun run :: "'op list \<Rightarrow> 's \<Rightarrow> 's option" where
  "run [] s = Some s"
| "run (op # ops) s = Option.bind (step op s) (run ops)"

fun all_allowed :: "'op list \<Rightarrow> 's \<Rightarrow> bool" where
  "all_allowed [] s \<longleftrightarrow> True"
| "all_allowed (op # ops) s \<longleftrightarrow> allowed op s \<and> (case step op s of None \<Rightarrow> True | Some s' \<Rightarrow> all_allowed ops s')"

lemma run_keeps:
  assumes "ok s" and "all_allowed ops s" and "P (contents s)"
    and keeps: "\<And>op m m'. op \<in> set ops \<Longrightarrow> effect op m m' \<Longrightarrow> P m \<Longrightarrow> P m'"
  shows "\<exists>s'. run ops s = Some s' \<and> ok s' \<and> P (contents s')"
  using assms
proof (induction ops arbitrary: s)
  case (Cons op ops)
  obtain s' where s': "step op s = Some s'" "ok s'" "effect op (contents s) (contents s')"
    using step_ok [OF Cons.prems(1), of op] Cons.prems(2) by auto
  moreover have "P (contents s')" using Cons.prems(4) [OF _ s'(3) Cons.prems(3)] by simp
  moreover have "all_allowed ops s'" using Cons.prems(2) s'(1) by simp
  moreover have "P m'" if "op' \<in> set ops" "effect op' m m'" "P m" for op' m m'
    using Cons.prems(4) [OF _ that(2,3)] that(1) by simp
  ultimately show ?case using Cons.IH [of s'] by simp
qed simp

end

section \<open>Ids\<close>

lemma byte_of_NUL [simp]: "byte_of NUL = 0"
  by (simp add: byte_of_def NUL_def)

lemma nul_byte [simp]: "byte_of c = 0 \<longleftrightarrow> c = NUL" "0 = byte_of c \<longleftrightarrow> c = NUL"
  using byte_of_inject [of c NUL] by (auto simp del: byte_of_inject)

text \<open>An id in its array: the string, then zeros.\<close>

definition padded :: "string \<Rightarrow> string" where
  "padded s = s @ replicate (BB_SESSION_ID_SIZE - length s) NUL"

lemma id_scan:
  assumes "NUL \<notin> set lookup"
  shows "fold (id_step lookup stored) [0..<n] (Some (0, False)) =
    Some (fold (\<lambda>i d. d OR ((if i < length lookup then byte_of (lookup ! i) else 0) XOR byte_of (stored ! i))) [0..<n] 0,
      length lookup < n)"
proof (induction n)
  case (Suc n)
  consider "length lookup < n" | "length lookup = n" | "n < length lookup" by linarith
  then show ?case
  proof cases
    case 3
    moreover have "lookup ! n \<noteq> NUL" using assms 3 nth_mem by metis
    ultimately show ?thesis using Suc by (simp add: Let_def nth_append)
  qed (use Suc in \<open>simp_all add: Let_def nth_append\<close>)
qed simp

lemma id_equal:
  assumes "NUL \<notin> set lookup" and "length stored = BB_SESSION_ID_SIZE"
  shows "constant_time_id_equal lookup stored = Some (take BB_SESSION_ID_SIZE (padded lookup) = stored)"
proof -
  have "(if i < length lookup then byte_of (lookup ! i) else 0) = byte_of (stored ! i) \<longleftrightarrow>
      take BB_SESSION_ID_SIZE (padded lookup) ! i = stored ! i" if "i < BB_SESSION_ID_SIZE" for i
    using that by (auto simp: padded_def nth_append)
  then have pointwise: "(\<forall>i<BB_SESSION_ID_SIZE. (if i < length lookup then byte_of (lookup ! i) else 0) = byte_of (stored ! i)) \<longleftrightarrow>
      (\<forall>i<BB_SESSION_ID_SIZE. take BB_SESSION_ID_SIZE (padded lookup) ! i = stored ! i)" by blast
  have "length (take BB_SESSION_ID_SIZE (padded lookup)) = BB_SESSION_ID_SIZE"
    by (simp add: padded_def)
  then have "take BB_SESSION_ID_SIZE (padded lookup) = stored \<longleftrightarrow>
      (\<forall>i<BB_SESSION_ID_SIZE. take BB_SESSION_ID_SIZE (padded lookup) ! i = stored ! i)"
    using assms(2) by (simp only: list_eq_iff_nth_eq) simp
  then show ?thesis
    unfolding constant_time_id_equal_def id_scan [OF assms(1)]
    by (simp only: option.map prod.case or_fold_zero pointwise)
qed

definition well_formed :: "session \<Rightarrow> bool" where
  "well_formed s \<longleftrightarrow> (\<exists>sid. NUL \<notin> set sid \<and> length sid < BB_SESSION_ID_SIZE \<and> se_id s = padded sid)"

definition key :: "session \<Rightarrow> string" where
  "key s = cstr (se_id s)"

lemma cstr_padded: "NUL \<notin> set sid \<Longrightarrow> cstr (padded sid) = sid"
  by (auto simp: cstr_def padded_def takeWhile_append takeWhile_eq_Nil_iff)

lemma key_padded: "se_id s = padded sid \<Longrightarrow> NUL \<notin> set sid \<Longrightarrow> key s = sid"
  by (simp add: key_def cstr_padded)

lemma found:
  assumes "well_formed s" and "NUL \<notin> set lookup"
  shows "constant_time_id_equal lookup (se_id s) = Some (lookup = key s)"
proof -
  obtain sid where sid: "NUL \<notin> set sid" "length sid < BB_SESSION_ID_SIZE" "se_id s = padded sid"
    using assms(1) by (auto simp: well_formed_def)
  have "take BB_SESSION_ID_SIZE (padded lookup) = padded sid \<longleftrightarrow> lookup = sid"
  proof (cases "length lookup < BB_SESSION_ID_SIZE")
    case True
    then have "take BB_SESSION_ID_SIZE (padded lookup) = padded lookup" by (simp add: padded_def)
    then show ?thesis using cstr_padded sid(1) assms(2) by metis
  next
    case False
    then have "NUL \<notin> set (take BB_SESSION_ID_SIZE (padded lookup))"
      using assms(2) by (auto simp: padded_def dest: in_set_takeD)
    moreover have "NUL \<in> set (padded sid)" using sid(2) by (simp add: padded_def)
    ultimately show ?thesis using sid(2) False by auto
  qed
  moreover have "length (se_id s) = BB_SESSION_ID_SIZE" using sid(2,3) by (simp add: padded_def)
  ultimately show ?thesis
    using id_equal [OF assms(2)] sid by (simp add: key_padded)
qed

section \<open>The store as a map\<close>

definition store_ok :: "session_store \<Rightarrow> bool" where
  "store_ok st \<longleftrightarrow> st_count st \<le> length (st_slots st) \<and> list_all well_formed (live st) \<and> distinct (map key (live st))"

definition contents :: "session_store \<Rightarrow> string \<Rightarrow> session option" where
  "contents st = map_of (map (\<lambda>s. (key s, s)) (live st))"

lemma contents_iff:
  assumes "distinct (map key (live st))"
  shows "contents st k = Some s \<longleftrightarrow> s \<in> set (live st) \<and> key s = k"
proof -
  have "map_of (map (\<lambda>s. (key s, s)) xs) k = Some s \<longleftrightarrow> s \<in> set xs \<and> key s = k" if "distinct (map key xs)" for xs
    using that by (induction xs) (auto simp: rev_image_eqI)
  then show ?thesis using assms by (simp add: contents_def)
qed

lemma contents_none: "contents st k = None \<longleftrightarrow> k \<notin> key ` set (live st)"
  by (force simp: contents_def map_of_eq_None_iff)

lemma map_some_eqI: "(\<And>k v. m k = Some v \<longleftrightarrow> m' k = Some v) \<Longrightarrow> m = m'"
  by (metis ext not_None_eq)

text \<open>A store with one session less or more.\<close>

lemma one_session:
  assumes "mset (live st) = add_mset x (mset (live st'))"
  shows "distinct (map key (live st)) \<longleftrightarrow> distinct (map key (live st')) \<and> key x \<notin> key ` set (live st')"
    and "list_all well_formed (live st) \<longleftrightarrow> well_formed x \<and> list_all well_formed (live st')"
    and "set (live st) = insert x (set (live st'))"
proof -
  have "mset (map key (live st)) = mset (map key (x # live st'))" using assms by (simp only: mset_map mset.simps)
  from mset_eq_imp_distinct_iff [OF this]
  show "distinct (map key (live st)) \<longleftrightarrow> distinct (map key (live st')) \<and> key x \<notin> key ` set (live st')" by auto
  have "set_mset (mset (live st)) = set_mset (add_mset x (mset (live st')))" by (simp only: assms)
  then show s: "set (live st) = insert x (set (live st'))" by simp
  show "list_all well_formed (live st) \<longleftrightarrow> well_formed x \<and> list_all well_formed (live st')"
    by (simp add: list_all_iff s)
qed

lemma removed:
  assumes "mset (live st) = add_mset x (mset (live st'))" and "distinct (map key (live st))"
  shows "contents st' = (contents st)(key x := None)"
proof (rule map_some_eqI)
  fix k v
  have d: "distinct (map key (live st'))" and x: "key x \<notin> key ` set (live st')"
    using one_session(1) [OF assms(1)] assms(2) by blast+
  then have "key v \<noteq> key x" if "v \<in> set (live st')" for v using that by (metis imageI)
  then show "contents st' k = Some v \<longleftrightarrow> ((contents st)(key x := None)) k = Some v"
    using one_session(3) [OF assms(1)] by (auto simp: contents_iff [OF assms(2)] contents_iff [OF d])
qed

lemma added:
  assumes "mset (live st') = add_mset x (mset (live st))" and "distinct (map key (live st'))"
  shows "contents st' = (contents st)(key x \<mapsto> x)"
proof -
  have "contents st' (key x) = Some x"
    using one_session(3) [OF assms(1)] by (simp add: contents_iff [OF assms(2)])
  with removed [OF assms] show ?thesis by (metis fun_upd_triv fun_upd_upd)
qed

lemma find_spec:
  assumes "list_all well_formed ss" and "NUL \<notin> set lookup"
  shows "find_id lookup k ss = Some None \<and> lookup \<notin> key ` set ss \<or>
    (\<exists>i. find_id lookup k ss = Some (Some (k + i)) \<and> i < length ss \<and> key (ss ! i) = lookup)"
  using assms(1)
proof (induction ss arbitrary: k)
  case (Cons s ss)
  then have f: "constant_time_id_equal lookup (se_id s) = Some (lookup = key s)"
    using found assms(2) by simp
  show ?case
  proof (cases "lookup = key s")
    case True
    then show ?thesis using f by (intro disjI2 exI [of _ 0]) simp
  next
    case False
    consider "find_id lookup (k + 1) ss = Some None" "lookup \<notin> key ` set ss"
      | i where "find_id lookup (k + 1) ss = Some (Some (k + 1 + i))" "i < length ss" "key (ss ! i) = lookup"
      using Cons.IH [of "k + 1"] Cons.prems by auto
    then show ?thesis
    proof cases
      case 1
      with f False show ?thesis by auto
    next
      case 2
      with f False show ?thesis by (intro disjI2 exI [of _ "Suc i"]) simp
    qed
  qed
qed simp

section \<open>The operations\<close>

text \<open>The slots behind the live ones.\<close>

definition dead :: "session_store \<Rightarrow> session list" where
  "dead store = drop (st_count store) (st_slots store)"

lemma set_slots: "set (st_slots st) = set (live st) \<union> set (dead st)"
  by (metis append_take_drop_id dead_def live_def set_append)

lemma get_spec:
  assumes "store_ok st" and "NUL \<notin> set lookup"
  shows "store_get lookup st = Some (case contents st lookup of
      None \<Rightarrow> Inl (BB_ERR_SESSION_NOT_FOUND, ''session not found'') | Some s \<Rightarrow> Inr s)"
proof -
  have wf: "list_all well_formed (live st)" and d: "distinct (map key (live st))"
    using assms(1) by (simp_all add: store_ok_def)
  consider "find_id lookup 0 (live st) = Some None" "lookup \<notin> key ` set (live st)"
    | i where "find_id lookup 0 (live st) = Some (Some i)" "i < length (live st)" "key (live st ! i) = lookup"
    using find_spec [OF wf assms(2), of 0] by auto
  then show ?thesis
  proof cases
    case 1
    then show ?thesis by (simp add: store_get_def contents_none [symmetric])
  next
    case 2
    then have "contents st lookup = Some (live st ! i)" by (simp add: contents_iff [OF d])
    moreover have "live st ! i = st_slots st ! i" using 2(2) by (simp add: live_def)
    ultimately show ?thesis using 2(1) by (simp add: store_get_def)
  qed
qed

lemma destroy_slots:
  assumes "i < n" and "n \<le> length xs"
  shows "take (n - 1) ((if i \<noteq> n - 1 then xs[i := xs ! (n - 1)] else xs)[n - 1 := z]) = arr_remove_swap (take n xs) i"
proof -
  have l: "last (take n xs) = xs ! (n - 1)"
    using assms by (subst last_conv_nth) auto
  have "arr_remove_swap (take n xs) i = take (n - 1) ((take n xs)[i := xs ! (n - 1)])"
    using assms by (simp add: arr_remove_swap_def l butlast_conv_take)
  also have "\<dots> = take (n - 1) (xs[i := xs ! (n - 1)])"
    by (simp add: take_update_swap min_absorb1)
  finally show ?thesis by (cases "i = n - 1") simp_all
qed

lemma destroy_spec:
  assumes "store_ok st" and "NUL \<notin> set lookup"
  shows "\<exists>st'. store_destroy lookup st = Some
      (if contents st lookup = None then (BB_ERR_SESSION_NOT_FOUND, ''session not found'') else SEC_SUCCESS, st') \<and>
    store_ok st' \<and> contents st' = (contents st)(lookup := None) \<and> set (dead st') \<subseteq> insert zero_session (set (dead st))"
proof -
  have wf: "list_all well_formed (live st)" and d: "distinct (map key (live st))"
    and n: "st_count st \<le> length (st_slots st)"
    using assms(1) by (simp_all add: store_ok_def)
  consider "find_id lookup 0 (live st) = Some None" "lookup \<notin> key ` set (live st)"
    | i where "find_id lookup 0 (live st) = Some (Some i)" "i < length (live st)" "key (live st ! i) = lookup"
    using find_spec [OF wf assms(2), of 0] by auto
  then show ?thesis
  proof cases
    case 1
    then have none: "contents st lookup = None" by (simp add: contents_none)
    with 1 assms(1) show ?thesis by (auto simp: store_destroy_def fun_upd_idem)
  next
    case 2
    define m slots where "m = st_count st - 1"
      and "slots = (if i \<noteq> m then (st_slots st)[i := st_slots st ! m] else st_slots st)[m := zero_session]"
    define st' where "st' = st\<lparr>st_slots := slots, st_count := m\<rparr>"
    have i: "i < st_count st" using 2(2) n by (simp add: live_def)
    have "live st' = take m slots" by (simp add: live_def st'_def)
    also have "\<dots> = arr_remove_swap (live st) i"
      unfolding live_def slots_def m_def by (rule destroy_slots [OF i n])
    finally have "live st' = arr_remove_swap (live st) i" .
    then have add: "mset (live st) = add_mset (live st ! i) (mset (live st'))"
      using mset_arr_remove_swap [OF 2(2)] 2(2) by simp
    have len: "m < length slots" "length slots = length (st_slots st)" using i n by (auto simp: slots_def m_def)
    then have "store_ok st'"
      using one_session [OF add] wf d by (simp add: store_ok_def) (simp add: st'_def)
    moreover have "contents st' = (contents st)(lookup := None)"
      using removed [OF add d] 2(3) by simp
    moreover have "set (dead st') \<subseteq> insert zero_session (set (dead st))"
    proof -
      have "Suc m = st_count st" using i by (simp add: m_def)
      then have "drop (Suc m) slots = dead st" using i by (simp add: slots_def dead_def)
      then have "dead st' = slots ! m # dead st"
        using len(1) by (simp add: dead_def st'_def Cons_nth_drop_Suc [symmetric])
      then show ?thesis using len by (simp add: slots_def)
    qed
    moreover have "contents st lookup = Some (live st ! i)" using 2 by (simp add: contents_iff [OF d])
    then have "store_destroy lookup st =
        Some (if contents st lookup = None then (BB_ERR_SESSION_NOT_FOUND, ''session not found'') else SEC_SUCCESS, st')"
      using 2(1) by (simp add: store_destroy_def Let_def st'_def slots_def m_def)
    ultimately show ?thesis by blast
  qed
qed

lemma sweep_fold:
  fixes now :: int
  defines "kept xs n \<equiv> filter (\<lambda>s. \<not> session_is_expired s now) (take n xs)"
  assumes "n \<le> length xs"
  shows "\<exists>ys. fold (sweep_step now) [0..<n] (xs, 0) = (ys, length (kept xs n)) \<and>
    take (length (kept xs n)) ys = kept xs n \<and> drop n ys = drop n xs \<and> length ys = length xs"
  using assms(2)
proof (induction n)
  case (Suc n)
  define j where "j = length (kept xs n)"
  obtain ys where ys: "fold (sweep_step now) [0..<n] (xs, 0) = (ys, j)" "take j ys = kept xs n"
    "drop n ys = drop n xs" "length ys = length xs"
    using Suc by (auto simp: j_def)
  have n: "n < length xs" using Suc.prems by simp
  have x: "ys ! n = xs ! n" using ys(3,4) n by (metis hd_drop_conv_nth)
  have "length (kept xs n) \<le> length (take n xs)" unfolding kept_def by (rule length_filter_le)
  then have j: "j \<le> n" using n by (simp add: j_def)
  have s: "take (Suc n) xs = take n xs @ [xs ! n]" by (rule take_Suc_conv_app_nth [OF n])
  have fold: "fold (sweep_step now) [0..<Suc n] (xs, 0) = sweep_step now n (ys, j)" using ys(1) by simp
  have d: "drop (Suc n) ys = drop (Suc n) xs" using ys(3) by (metis drop_Suc tl_drop)
  show ?case
  proof (cases "session_is_expired (xs ! n) now")
    case True
    then have k: "kept xs (Suc n) = kept xs n" by (simp add: kept_def s)
    show ?thesis
      unfolding fold k using True ys d x by (intro exI [of _ ys]) (simp add: sweep_step_def j_def)
  next
    case False
    then have k: "kept xs (Suc n) = kept xs n @ [xs ! n]" by (simp add: kept_def s)
    have "take (Suc j) (ys[j := xs ! n]) = kept xs n @ [xs ! n]"
      using j n ys(2,4) by (simp add: take_Suc_conv_app_nth)
    moreover have "drop (Suc n) (ys[j := xs ! n]) = drop (Suc n) xs"
      using j d by simp
    ultimately show ?thesis
      unfolding fold k using False ys(4) x
      by (intro exI [of _ "ys[j := xs ! n]"]) (simp add: sweep_step_def j_def)
  qed
qed (simp add: kept_def)

lemma sweep_spec:
  assumes "store_ok st"
  shows "live (store_cleanup now st) = filter (\<lambda>s. \<not> session_is_expired s now) (live st)"
    and "set (dead (store_cleanup now st)) \<subseteq> insert zero_session (set (dead st))"
    and "store_ok (store_cleanup now st)"
proof -
  define n kept where "n = st_count st" and "kept = filter (\<lambda>s. \<not> session_is_expired s now) (live st)"
  have n: "n \<le> length (st_slots st)" using assms by (simp add: store_ok_def n_def)
  obtain ys where ys: "fold (sweep_step now) [0..<n] (st_slots st, 0) = (ys, length kept)"
    "take (length kept) ys = kept" "drop n ys = drop n (st_slots st)" "length ys = length (st_slots st)"
    using sweep_fold [OF n, of now] by (auto simp: kept_def live_def n_def)
  have "length kept \<le> length (live st)" unfolding kept_def by (rule length_filter_le)
  then have k: "length kept \<le> n" using n by (simp add: live_def n_def)
  define slots where "slots = kept @ replicate (n - length kept) zero_session @ dead st"
  have "store_cleanup now st = st\<lparr>st_slots := slots, st_count := length kept\<rparr>"
  proof (cases "length kept < n")
    case True
    with ys show ?thesis
      by (simp add: store_cleanup_def n_def [symmetric] slots_def Let_def) (simp add: dead_def n_def)
  next
    case False
    then have "length kept = n" using k by simp
    with ys have "ys = slots" by (metis append_Nil append_take_drop_id dead_def diff_self_eq_0 n_def replicate_0 slots_def)
    with ys False show ?thesis by (simp add: store_cleanup_def n_def [symmetric] Let_def)
  qed
  note st' = this
  show live: "live (store_cleanup now st) = filter (\<lambda>s. \<not> session_is_expired s now) (live st)"
    by (simp add: st' live_def slots_def) (simp add: kept_def live_def)
  show "set (dead (store_cleanup now st)) \<subseteq> insert zero_session (set (dead st))"
    unfolding st' by (auto simp: dead_def slots_def)
  have "st_count (store_cleanup now st) \<le> length (st_slots (store_cleanup now st))"
    by (simp add: st' slots_def)
  then show "store_ok (store_cleanup now st)"
    using assms unfolding store_ok_def live by (auto simp: list_all_iff distinct_map_filter)
qed

lemma sweep_contents:
  assumes "store_ok st"
  shows "contents (store_cleanup now st) = (\<lambda>k. case contents st k of
      None \<Rightarrow> None | Some s \<Rightarrow> if session_is_expired s now then None else Some s)"
proof (rule map_some_eqI)
  fix k v
  have d: "distinct (map key (live st))" "distinct (map key (live (store_cleanup now st)))"
    using assms sweep_spec(3) [OF assms] by (simp_all add: store_ok_def)
  have "contents (store_cleanup now st) k = Some v \<longleftrightarrow> contents st k = Some v \<and> \<not> session_is_expired v now"
    by (auto simp: contents_iff [OF d(1)] contents_iff [OF d(2)] sweep_spec(1) [OF assms])
  then show "contents (store_cleanup now st) k = Some v \<longleftrightarrow> (case contents st k of
      None \<Rightarrow> None | Some s \<Rightarrow> if session_is_expired s now then None else Some s) = Some v"
    by (auto split: option.splits)
qed

lemma create_spec:
  assumes "store_ok st" and "well_formed s" and "contents st (key s) = None"
  shows "\<exists>err st'. store_create alloc junk s st = (err, st') \<and> store_ok st' \<and>
    (if SEC_FAILED err then st' = st else err = SEC_SUCCESS \<and> contents st' = (contents st)(key s \<mapsto> s)) \<and>
    set (dead st') \<subseteq> range junk \<union> set (dead st)"
proof -
  obtain err st1 where e: "ensure_capacity alloc junk st = (err, st1)" by (cases "ensure_capacity alloc junk st")
  have wf: "list_all well_formed (live st)" and d: "distinct (map key (live st))"
    and n: "st_count st \<le> length (st_slots st)"
    using assms(1) by (simp_all add: store_ok_def)
  show ?thesis
  proof (cases "SEC_FAILED err")
    case True
    then have "st1 = st" using e by (auto simp: ensure_capacity_def Let_def SEC_FAILED_def SEC_SUCCESS_def split: if_splits)
    with e True assms(1) show ?thesis by (auto simp: store_create_def)
  next
    case False
    obtain more where st1: "st1 = st\<lparr>st_slots := st_slots st @ more\<rparr>" "set more \<subseteq> range junk"
      "st_count st < length (st_slots st) + length more" "err = SEC_SUCCESS"
    proof (cases "st_count st < length (st_slots st)")
      case True
      with e show ?thesis by (intro that [of "[]"]) (auto simp: ensure_capacity_def)
    next
      case full: False
      with e False show ?thesis
        by (intro that [of "map junk [length (st_slots st)..<(if length (st_slots st) = 0 then BB_SESSION_STORE_INITIAL_CAPACITY else length (st_slots st) * 2)]"])
          (use n in \<open>auto simp: ensure_capacity_def Let_def SEC_FAILED_def BB_SESSION_STORE_INITIAL_CAPACITY_def split: if_splits\<close>)
    qed
    define st' where "st' = st\<lparr>st_slots := (st_slots st @ more)[st_count st := s], st_count := st_count st + 1\<rparr>"
    have "take (st_count st + 1) ((st_slots st @ more)[st_count st := s]) = take (st_count st) (st_slots st @ more) @ [s]"
      using st1(3) by (simp add: take_Suc_conv_app_nth)
    then have live: "live st' = live st @ [s]" using n by (simp add: live_def st'_def)
    then have add: "mset (live st') = add_mset s (mset (live st))" by simp
    have ok: "store_ok st'"
      using one_session [OF add] wf d assms(2,3) st1(3) by (simp add: store_ok_def contents_none) (simp add: st'_def)
    then have "contents st' = (contents st)(key s \<mapsto> s)"
      by (intro added [OF add]) (simp add: store_ok_def)
    moreover have "set (dead st') \<subseteq> range junk \<union> set (dead st)"
    proof -
      have "dead st' = drop (Suc (st_count st)) (st_slots st @ more)" by (simp add: dead_def st'_def)
      then have "set (dead st') \<subseteq> set (drop (st_count st) (st_slots st @ more))"
        by (simp only:) (rule set_drop_subset_set_drop, simp)
      with st1(2) n show ?thesis by (auto simp: dead_def)
    qed
    moreover have "store_create alloc junk s st = (SEC_SUCCESS, st')"
      using e False st1 by (simp add: store_create_def st'_def)
    moreover have "\<not> SEC_FAILED SEC_SUCCESS" by (simp add: SEC_FAILED_def SEC_SUCCESS_def)
    ultimately show ?thesis using ok by auto
  qed
qed

section \<open>Sequences of operations\<close>

lemma random_hex_loop_spec:
  "random_hex_loop rnd k need out = Inr hex \<Longrightarrow> length out \<le> need \<Longrightarrow> NUL \<notin> set out \<Longrightarrow>
   length hex = need \<and> NUL \<notin> set hex"
proof (induction rnd k need out rule: random_hex_loop.induct)
  case (1 rnd k need out)
  show ?case
  proof (cases "length out < need")
    case True
    define r n where "r = need - length out" and "n = min ((need - length out + 1) div 2) 64"
    obtain chunk where chunk: "rnd k = Inr chunk"
      and run: "random_hex_loop rnd (k + 1) need (out @ take r (hex_encode (map chunk [0..<n]))) = Inr hex"
      using 1(2) True by (auto simp: random_hex_loop.simps [of rnd k need out] r_def n_def Let_def split: sum.splits)
    have "NUL \<notin> set (out @ take r (hex_encode (map chunk [0..<n])))"
      using 1(4) digits_plain(2) by (auto dest: in_set_takeD)
    moreover have "length (out @ take r (hex_encode (map chunk [0..<n]))) \<le> need"
      using True by (simp add: r_def)
    ultimately show ?thesis
      using 1(1) [OF True r_def n_def [unfolded r_def [symmetric]] chunk] run by (simp add: r_def n_def)
  next
    case False
    with 1 show ?thesis by (simp add: random_hex_loop.simps [of rnd k need out])
  qed
qed

lemma random_hex_spec:
  assumes "random_hex rnd (n + 1) = Inr hex"
  shows "length hex = n" and "NUL \<notin> set hex"
  using random_hex_loop_spec [of rnd 0 n "[]" hex] assms by (simp_all add: random_hex_def)

lemma random_hex_fails: "random_hex rnd n = Inl err \<Longrightarrow> SEC_FAILED err"
proof -
  have "random_hex_loop rnd k n out = Inl err \<Longrightarrow> SEC_FAILED err" for k n out
  proof (induction rnd k n out rule: random_hex_loop.induct)
    case (1 rnd k need out)
    then show ?case
      by (auto simp: random_hex_loop.simps [of rnd k need out] Let_def SEC_FAILED_def split: if_splits sum.splits)
  qed
  then show "random_hex rnd n = Inl err \<Longrightarrow> SEC_FAILED err"
    by (auto simp: random_hex_def SEC_FAILED_def split: if_splits)
qed

datatype session_op =
    OpCreate security_config session_env string int session
  | OpDestroy string
  | OpSweep int

definition apply_op :: "session_op \<Rightarrow> session_store \<Rightarrow> session_store option" where
  "apply_op op st =
     (case op of
        OpCreate config env user ttl out \<Rightarrow>
          map_option (\<lambda>(err, s, st'). st') (session_create config env (Some user) ttl (Some out) st)
      | OpDestroy sid \<Rightarrow> map_option snd (session_destroy (Some sid) st)
      | OpSweep now \<Rightarrow> Some (snd (session_cleanup_expired now st)))"

text \<open>The ids fit, and the generator does not repeat the id of a session in the store.\<close>

definition fresh_id :: "security_config \<Rightarrow> session_env \<Rightarrow> session_store \<Rightarrow> bool" where
  "fresh_id config env st \<longleftrightarrow> sg_id_length config < BB_SESSION_ID_SIZE \<and>
     (case random_hex (sv_random env) (sg_id_length config + 1) of
        Inl err \<Rightarrow> True | Inr hex \<Rightarrow> contents st hex = None)"

definition op_allowed :: "session_op \<Rightarrow> session_store \<Rightarrow> bool" where
  "op_allowed op st = (case op of OpCreate config env user ttl out \<Rightarrow> fresh_id config env st | _ \<Rightarrow> True)"

definition op_effect ::
  "session_op \<Rightarrow> (string \<Rightarrow> session option) \<Rightarrow> (string \<Rightarrow> session option) \<Rightarrow> bool" where
  "op_effect op m m' =
     (case op of
        OpCreate config env user ttl out \<Rightarrow> m' = m \<or> (\<exists>s. m (key s) = None \<and> m' = m(key s \<mapsto> s))
      | OpDestroy sid \<Rightarrow> m' = m(cstr sid := None)
      | OpSweep now \<Rightarrow> m' = (\<lambda>k. case m k of None \<Rightarrow> None | Some s \<Rightarrow> if session_is_expired s now then None else Some s))"

lemma session_create_spec:
  assumes "store_ok st" and "fresh_id config env st"
  shows "\<exists>err s st'. session_create config env (Some user) ttl (Some out) st = Some (err, Some s, st') \<and> store_ok st' \<and>
    set (dead st') \<subseteq> range (sv_junk env) \<union> set (dead st) \<and>
    (if SEC_FAILED err then s = zero_session \<and> st' = st
     else err = SEC_SUCCESS \<and> contents st (key s) = None \<and> contents st' = (contents st)(key s \<mapsto> s) \<and>
       random_hex (sv_random env) (sg_id_length config + 1) = Inr (key s) \<and> length (key s) = sg_id_length config \<and>
       NUL \<notin> set (key s) \<and> cstr (se_user_id s) = cstr user \<and> se_expires_at s = sv_now env + ttl)"
proof -
  have failed: "SEC_FAILED (c, m) \<longleftrightarrow> c \<noteq> SEC_OK" for c m by (simp add: SEC_FAILED_def)
  define u where "u = cstr user"
  define arr where "arr = u @ drop (length u) (replicate BB_USER_ID_SIZE NUL)"
  have fits: "sg_id_length config < BB_SESSION_ID_SIZE" using assms(2) by (simp add: fresh_id_def)
  consider "length u = 0 \<or> length u \<ge> BB_USER_ID_SIZE"
    | "\<not> (length u = 0 \<or> length u \<ge> BB_USER_ID_SIZE)" "ttl > BB_SESSION_LIFETIME_MAX_SECONDS"
    | err where "\<not> (length u = 0 \<or> length u \<ge> BB_USER_ID_SIZE)" "\<not> ttl > BB_SESSION_LIFETIME_MAX_SECONDS"
        "random_hex (sv_random env) (sg_id_length config + 1) = Inl err"
    | hex where "\<not> (length u = 0 \<or> length u \<ge> BB_USER_ID_SIZE)" "\<not> ttl > BB_SESSION_LIFETIME_MAX_SECONDS"
        "random_hex (sv_random env) (sg_id_length config + 1) = Inr hex"
    by (cases "random_hex (sv_random env) (sg_id_length config + 1)") auto
  then show ?thesis
  proof cases
    case 1
    then show ?thesis using assms(1) by (simp add: session_create_def Let_def u_def [symmetric] failed)
  next
    case 2
    then show ?thesis using assms(1) by (simp add: session_create_def Let_def u_def [symmetric] failed)
  next
    case 3
    then show ?thesis
      using assms(1) fits random_hex_fails [OF 3(3)]
      by (auto simp: session_create_def Let_def u_def [symmetric])
  next
    case 4
    define s where "s = zero_session\<lparr>se_user_id := u @ drop (length u) (se_user_id zero_session),
      se_id := hex @ [NUL] @ drop (length hex + 1) (se_id zero_session), se_expires_at := sv_now env + ttl\<rparr>"
    note hex = random_hex_spec [OF 4(3)]
    have id: "se_id s = padded hex"
      using hex(1) fits by (simp add: s_def padded_def zero_session_def replicate_Suc [symmetric] Suc_diff_Suc del: replicate_Suc)
    have key: "key s = hex" using key_padded [OF id hex(2)] .
    have wf: "well_formed s" unfolding well_formed_def using id hex fits by (intro exI [of _ hex]) simp
    have free: "contents st (key s) = None" using assms(2) 4(3) by (simp add: fresh_id_def key)
    have "cstr (u @ drop (length u) (se_user_id zero_session)) = u"
    proof -
      have "NUL \<notin> set u" by (simp add: u_def cstr_no_nul)
      then show ?thesis
        by (auto simp: cstr_def zero_session_def takeWhile_append takeWhile_eq_Nil_iff)
    qed
    then have user: "cstr (se_user_id s) = cstr user" by (simp add: s_def u_def)
    obtain err st' where st': "store_create (sv_alloc env) (sv_junk env) s st = (err, st')" "store_ok st'"
      "if SEC_FAILED err then st' = st else err = SEC_SUCCESS \<and> contents st' = (contents st)(key s \<mapsto> s)"
      "set (dead st') \<subseteq> range (sv_junk env) \<union> set (dead st)"
      using create_spec [OF assms(1) wf free, of "sv_alloc env" "sv_junk env"] by blast
    have run: "session_create config env (Some user) ttl (Some out) st =
        Some (err, Some (if SEC_FAILED err then zero_session else s), st')"
      using 4 fits st'(1) by (simp add: session_create_def Let_def u_def [symmetric] s_def)
    have exp: "se_expires_at s = sv_now env + ttl" by (simp add: s_def)
    show ?thesis
      using run st'(2-4) 4(3) hex user exp free by (cases "SEC_FAILED err") (simp_all add: key)
  qed
qed

lemma apply_ok:
  assumes "store_ok st" and "op_allowed op st"
  shows "\<exists>st'. apply_op op st = Some st' \<and> store_ok st' \<and> op_effect op (contents st) (contents st')"
proof (cases op)
  case (OpCreate config env user ttl out)
  then have "fresh_id config env st" using assms(2) by (simp add: op_allowed_def)
  then obtain err s st' where c: "session_create config env (Some user) ttl (Some out) st = Some (err, Some s, st')"
    "store_ok st'" "if SEC_FAILED err then s = zero_session \<and> st' = st
     else err = SEC_SUCCESS \<and> contents st (key s) = None \<and> contents st' = (contents st)(key s \<mapsto> s) \<and>
       random_hex (sv_random env) (sg_id_length config + 1) = Inr (key s) \<and> length (key s) = sg_id_length config \<and>
       NUL \<notin> set (key s) \<and> cstr (se_user_id s) = cstr user \<and> se_expires_at s = sv_now env + ttl"
    using session_create_spec [OF assms(1), of config env user ttl out] by blast
  have "contents st' = contents st \<or> (\<exists>s. contents st (key s) = None \<and> contents st' = (contents st)(key s \<mapsto> s))"
    using c(3) by (cases "SEC_FAILED err") auto
  with c(1,2) show ?thesis by (simp add: OpCreate apply_op_def op_effect_def)
next
  case (OpDestroy sid)
  then show ?thesis
    using destroy_spec [OF assms(1) cstr_no_nul, of sid]
    by (auto simp: apply_op_def session_destroy_def op_effect_def)
next
  case (OpSweep now)
  then show ?thesis
    using sweep_spec(3) [OF assms(1)] sweep_contents [OF assms(1)]
    by (simp add: apply_op_def session_cleanup_expired_def op_effect_def)
qed

interpretation sessions: keyed_store store_ok contents apply_op op_allowed op_effect
  by unfold_locales (rule apply_ok)

text \<open>What an operation must not do for a session to stay: destroy it, or sweep after its end.\<close>

definition spares :: "session \<Rightarrow> session_op \<Rightarrow> bool" where
  "spares s op =
     (case op of
        OpCreate config env user ttl out \<Rightarrow> True
      | OpDestroy sid \<Rightarrow> cstr sid \<noteq> key s
      | OpSweep now \<Rightarrow> now < se_expires_at s)"

lemma spared: "op_effect op m m' \<Longrightarrow> spares s op \<Longrightarrow> m (key s) = Some s \<Longrightarrow> m' (key s) = Some s"
  by (auto simp: op_effect_def spares_def session_is_expired_def split: session_op.splits)

lemma get_session:
  assumes "store_ok st"
  shows "session_get now (Some sid) (Some out) st = Some (case contents st (cstr sid) of
      None \<Rightarrow> ((BB_ERR_SESSION_NOT_FOUND, ''session not found''), Some out)
    | Some s \<Rightarrow> if se_expires_at s \<le> now then ((BB_ERR_SESSION_EXPIRED, ''expired''), Some zero_session)
                else (SEC_SUCCESS, Some s))"
  by (simp add: session_get_def get_spec [OF assms cstr_no_nul] split: option.split)

section \<open>Properties\<close>

text \<open>C14: The session store is a map from ids to sessions. In every store that the operations can reach, a
  lookup returns the session of that id, unless it is over; destroying an id removes it and nothing
  else; the sweep removes exactly the sessions that are over; and creating a session under an id
  that is not in the store adds exactly that session, with the user and the end it was asked for, or
  fails and changes nothing. No operation reads behind a looked-up string.\<close>

theorem session_store_is_a_map:
  assumes "store_ok st" and "fresh_id config env st"
  shows "session_get now (Some sid) (Some out) st = Some (case contents st (cstr sid) of
        None \<Rightarrow> ((BB_ERR_SESSION_NOT_FOUND, ''session not found''), Some out)
      | Some s \<Rightarrow> if se_expires_at s \<le> now then ((BB_ERR_SESSION_EXPIRED, ''expired''), Some zero_session)
                  else (SEC_SUCCESS, Some s)) \<and>
    (\<exists>err st'. session_destroy (Some sid) st = Some (err, st') \<and> store_ok st' \<and>
       contents st' = (contents st)(cstr sid := None) \<and> SEC_FAILED err = (contents st (cstr sid) = None)) \<and>
    (\<exists>st'. session_cleanup_expired now st = (SEC_SUCCESS, st') \<and> store_ok st' \<and>
       contents st' = (\<lambda>k. case contents st k of
           None \<Rightarrow> None | Some s \<Rightarrow> if se_expires_at s \<le> now then None else Some s)) \<and>
    (\<exists>err s st'. session_create config env (Some user) ttl (Some out) st = Some (err, Some s, st') \<and> store_ok st' \<and>
       (if SEC_FAILED err then s = zero_session \<and> st' = st
        else contents st (key s) = None \<and> contents st' = (contents st)(key s \<mapsto> s) \<and>
          length (key s) = sg_id_length config \<and> cstr (se_user_id s) = cstr user \<and> se_expires_at s = sv_now env + ttl))"
proof (intro conjI)
  note d = destroy_spec [OF assms(1) cstr_no_nul, of sid]
  show "\<exists>err st'. session_destroy (Some sid) st = Some (err, st') \<and> store_ok st' \<and>
       contents st' = (contents st)(cstr sid := None) \<and> SEC_FAILED err = (contents st (cstr sid) = None)"
    using d by (auto simp: session_destroy_def SEC_FAILED_def SEC_SUCCESS_def)
  show "\<exists>st'. session_cleanup_expired now st = (SEC_SUCCESS, st') \<and> store_ok st' \<and>
       contents st' = (\<lambda>k. case contents st k of
           None \<Rightarrow> None | Some s \<Rightarrow> if se_expires_at s \<le> now then None else Some s)"
    using sweep_spec(3) [OF assms(1)] sweep_contents [OF assms(1)]
    by (simp add: session_cleanup_expired_def) (simp add: session_is_expired_def cong: option.case_cong)
  obtain err s st' where c: "session_create config env (Some user) ttl (Some out) st = Some (err, Some s, st')"
    "store_ok st'" "if SEC_FAILED err then s = zero_session \<and> st' = st
     else err = SEC_SUCCESS \<and> contents st (key s) = None \<and> contents st' = (contents st)(key s \<mapsto> s) \<and>
       random_hex (sv_random env) (sg_id_length config + 1) = Inr (key s) \<and> length (key s) = sg_id_length config \<and>
       NUL \<notin> set (key s) \<and> cstr (se_user_id s) = cstr user \<and> se_expires_at s = sv_now env + ttl"
    using session_create_spec [OF assms, of user ttl out] by blast
  show "\<exists>err s st'. session_create config env (Some user) ttl (Some out) st = Some (err, Some s, st') \<and> store_ok st' \<and>
       (if SEC_FAILED err then s = zero_session \<and> st' = st
        else contents st (key s) = None \<and> contents st' = (contents st)(key s \<mapsto> s) \<and>
          length (key s) = sg_id_length config \<and> cstr (se_user_id s) = cstr user \<and> se_expires_at s = sv_now env + ttl)"
    by (rule exI [of _ err], rule exI [of _ s], rule exI [of _ st']) (use c in \<open>auto split: if_splits\<close>)
qed (rule get_session [OF assms(1)])

definition w_session_env :: session_env where
  "w_session_env = \<lparr>sv_now = 1000, sv_random = \<lambda>_. Inr of_nat, sv_alloc = True, sv_junk = \<lambda>_. zero_session\<rparr>"

lemma empty_ok: "store_ok empty_store" "contents empty_store = Map.empty" "fresh_id config_default w_session_env empty_store"
  by (simp_all add: store_ok_def live_def empty_store_def contents_def fresh_id_def config_default_def
      BB_SESSION_ID_LENGTH_DEFAULT_def BB_SESSION_ID_SIZE_def split: sum.split)

theorem session_store_is_a_map_witness:
  "\<exists>err st'. session_destroy (Some ''abc'') empty_store = Some (err, st') \<and> contents st' = Map.empty \<and> SEC_FAILED err"
proof -
  obtain err st' where "session_destroy (Some ''abc'') empty_store = Some (err, st')"
    and "contents st' = (contents empty_store)(cstr ''abc'' := None)"
    and "SEC_FAILED err = (contents empty_store (cstr ''abc'') = None)"
    using session_store_is_a_map [OF empty_ok(1,3), of 0 "''abc''" zero_session] by blast
  then show ?thesis by (intro exI conjI) (simp_all add: empty_ok(2) fun_upd_idem)
qed

text \<open>C24: A session lives exactly as long as it should. Once it has been created, then after any sequence of
  other operations, creations of other sessions included, that neither destroy it nor sweep after
  its end, a lookup of its id returns it with its user before its end and refuses it from then on;
  after it is destroyed, its id is not found.\<close>

theorem sessions_live_until_their_end:
  assumes "store_ok st" and "fresh_id config env st"
    and "session_create config env (Some user) ttl (Some out) st = Some (SEC_SUCCESS, Some s, st1)"
    and "sessions.all_allowed ops st1" and "list_all (spares s) ops"
  shows "\<exists>st2 st3. sessions.run ops st1 = Some st2 \<and> session_destroy (Some (key s)) st2 = Some (SEC_SUCCESS, st3) \<and>
    session_get now (Some (key s)) (Some out) st2 =
      Some (if now < sv_now env + ttl then (SEC_SUCCESS, Some s)
            else ((BB_ERR_SESSION_EXPIRED, ''expired''), Some zero_session)) \<and>
    cstr (se_user_id s) = cstr user \<and>
    session_get now (Some (key s)) (Some out) st3 =
      Some ((BB_ERR_SESSION_NOT_FOUND, ''session not found''), Some out)"
proof -
  have c: "store_ok st1" "contents st1 (key s) = Some s" "NUL \<notin> set (key s)" "cstr (se_user_id s) = cstr user"
    "se_expires_at s = sv_now env + ttl"
    using session_create_spec [OF assms(1,2), of user ttl out] assms(3)
    by (auto simp: SEC_FAILED_def SEC_SUCCESS_def)
  have "list_all (spares s) ops" by (rule assms(5))
  then obtain st2 where st2: "sessions.run ops st1 = Some st2" "store_ok st2" "contents st2 (key s) = Some s"
    using sessions.run_keeps [OF c(1) assms(4), of "\<lambda>m. m (key s) = Some s"] c(2) spared
    by (auto simp: list_all_iff)
  have k: "cstr (key s) = key s" using c(3) by (rule cstr_id)
  obtain st3 where st3: "session_destroy (Some (key s)) st2 = Some (SEC_SUCCESS, st3)" "store_ok st3"
    "contents st3 (key s) = None"
    using destroy_spec [OF st2(2) c(3)] st2(3) by (auto simp: session_destroy_def k)
  show ?thesis
    using st2(1) st3(1) c(4)
    by (intro exI [of _ st2] exI [of _ st3])
      (simp add: get_session [OF st2(2)] get_session [OF st3(2)] k st2(3) st3(3) c(5) not_less)
qed

theorem sessions_live_until_their_end_witness:
  "\<exists>s st1 st2. session_create config_default w_session_env (Some ''ann'') 60 (Some zero_session) empty_store =
       Some (SEC_SUCCESS, Some s, st1) \<and>
     sessions.run [OpDestroy ''other'', OpSweep 1059] st1 = Some st2 \<and>
     session_get 1059 (Some (key s)) (Some zero_session) st2 = Some (SEC_SUCCESS, Some s)"
proof -
  have "fst (the (session_create config_default w_session_env (Some ''ann'') 60 (Some zero_session) empty_store)) = SEC_SUCCESS"
    by code_simp
  moreover obtain err s st1 where c: "session_create config_default w_session_env (Some ''ann'') 60 (Some zero_session) empty_store =
      Some (err, Some s, st1)" and e: "if SEC_FAILED err then s = zero_session \<and> st1 = empty_store
     else err = SEC_SUCCESS \<and> contents empty_store (key s) = None \<and> contents st1 = (contents empty_store)(key s \<mapsto> s) \<and>
       random_hex (sv_random w_session_env) (sg_id_length config_default + 1) = Inr (key s) \<and>
       length (key s) = sg_id_length config_default \<and> NUL \<notin> set (key s) \<and> cstr (se_user_id s) = cstr ''ann'' \<and>
       se_expires_at s = sv_now w_session_env + 60"
    using session_create_spec [OF empty_ok(1,3), of "''ann''" 60 zero_session] by blast
  moreover have "\<not> SEC_FAILED SEC_SUCCESS" by (simp add: SEC_FAILED_def SEC_SUCCESS_def)
  ultimately have err: "err = SEC_SUCCESS" and s: "se_expires_at s = 1060" "length (key s) = 63"
    by (simp_all add: w_session_env_def config_default_def BB_SESSION_ID_LENGTH_DEFAULT_def BB_SESSION_ID_SIZE_def)
  note c = c [unfolded err]
  have "length (cstr ''other'') = 5" by (simp add: cstr_def NUL_def)
  then have "cstr ''other'' \<noteq> key s" using s(2) by (intro notI) simp
  then have "list_all (spares s) [OpDestroy ''other'', OpSweep 1059]" using s(1) by (simp add: spares_def)
  moreover have "sessions.all_allowed [OpDestroy ''other'', OpSweep 1059] st1"
    by (auto simp: op_allowed_def split: option.split)
  ultimately obtain st2 where "sessions.run [OpDestroy ''other'', OpSweep 1059] st1 = Some st2"
    and "session_get 1059 (Some (key s)) (Some zero_session) st2 =
      Some (if 1059 < sv_now w_session_env + 60 then (SEC_SUCCESS, Some s)
            else ((BB_ERR_SESSION_EXPIRED, ''expired''), Some zero_session))"
    using sessions_live_until_their_end [OF empty_ok(1,3) c, of "[OpDestroy ''other'', OpSweep 1059]" 1059] by blast
  with c show ?thesis by (intro exI conjI) (simp_all add: w_session_env_def)
qed

text \<open>Nothing of a session that is gone stays in the memory of the store. If no slot behind the live ones
  holds an id, then after that id was destroyed no slot at all holds it, and after a sweep no slot at
  all holds a session that was swept.\<close>

theorem ended_sessions_leave_no_trace:
  assumes "store_ok st" and "NUL \<notin> set sid" and "sid \<noteq> []"
    and "list_all (\<lambda>s. key s \<noteq> sid) (dead st)"
  shows "(\<exists>err st'. session_destroy (Some sid) st = Some (err, st') \<and> list_all (\<lambda>s. key s \<noteq> sid) (st_slots st')) \<and>
    (\<forall>s. contents st sid = Some s \<and> se_expires_at s \<le> now \<longrightarrow>
       list_all (\<lambda>s. key s \<noteq> sid) (st_slots (snd (session_cleanup_expired now st))))"
proof -
  have zero: "key zero_session \<noteq> sid"
    using assms(3) by (auto simp: key_def zero_session_def cstr_def BB_SESSION_ID_SIZE_def takeWhile_eq_Nil_iff)
  have gone: "list_all (\<lambda>s. key s \<noteq> sid) (st_slots st')"
    if "contents st' sid = None" "set (dead st') \<subseteq> insert zero_session (set (dead st))" for st'
    using that zero assms(4) by (auto simp: contents_none list_all_iff set_slots [of st'])
  obtain st' where "session_destroy (Some sid) st = Some (if contents st sid = None
        then (BB_ERR_SESSION_NOT_FOUND, ''session not found'') else SEC_SUCCESS, st')"
      "contents st' sid = None" "set (dead st') \<subseteq> insert zero_session (set (dead st))"
    using destroy_spec [OF assms(1,2)] by (auto simp: session_destroy_def cstr_id [OF assms(2)])
  moreover have "list_all (\<lambda>s. key s \<noteq> sid) (st_slots (snd (session_cleanup_expired now st)))"
    if "contents st sid = Some s" "se_expires_at s \<le> now" for s
    using that gone [of "store_cleanup now st"] sweep_contents [OF assms(1)] sweep_spec(2) [OF assms(1)]
    by (simp add: session_cleanup_expired_def session_is_expired_def)
  ultimately show ?thesis using gone by blast
qed

theorem ended_sessions_leave_no_trace_witness:
  "\<exists>err st'. session_destroy (Some ''ab'') empty_store = Some (err, st') \<and> list_all (\<lambda>s. key s \<noteq> ''ab'') (st_slots st')"
proof -
  have "NUL \<notin> set ''ab''" "''ab'' \<noteq> []" by (simp_all add: NUL_def)
  moreover have "list_all (\<lambda>s. key s \<noteq> ''ab'') (dead empty_store)" by (simp add: dead_def empty_store_def)
  ultimately show ?thesis using ended_sessions_leave_no_trace [OF empty_ok(1)] by blast
qed

end
