(* ===== verification/Json_Containers.thy ===== *)
theory Json_Containers
  imports C_Strings
begin

text \<open>
  The containers of \<open>modules/utils/src/json.c\<close>: the growing array and the hash table whose entries are
  also linked in the order of their insertion. Values are arbitrary. The table keeps its nodes in
  a memory from addresses to nodes; a bucket is the list of the addresses of its chain, while the
  order of insertion is the doubly linked list of the code. \<open>None\<close> as a result is a null or dangling
  pointer read. Keys are C strings.
\<close>

datatype json_error =
    JSON_OK | JSON_ERR_ALLOC | JSON_ERR_NULL | JSON_ERR_NOT_FOUND | JSON_ERR_TYPE_MISMATCH | JSON_ERR_OVERFLOW |
    JSON_ERR_IO | JSON_ERR_INTERNAL

section \<open>Arrays\<close>

text \<open>\<open>ja_slots\<close> is the allocated storage, \<open>None\<close> the null pointer; the first \<open>ja_size\<close> slots are set.\<close>

record 'v json_array =
  ja_size :: nat
  ja_alloc_size :: nat
  ja_slots :: "'v option list option"

definition empty_array :: "'v json_array" where
  "empty_array = \<lparr>ja_size = 0, ja_alloc_size = 0, ja_slots = None\<rparr>"

definition array_store :: "'v \<Rightarrow> 'v json_array \<Rightarrow> (json_error \<times> 'v json_array) option" where
  "array_store x a =
     (case ja_slots a of
        None \<Rightarrow> None
      | Some slots \<Rightarrow>
          if ja_size a < length slots
          then Some (JSON_OK, a\<lparr>ja_slots := Some (slots[ja_size a := Some x]), ja_size := ja_size a + 1\<rparr>)
          else None)"

definition array_push :: "bool \<Rightarrow> 'v \<Rightarrow> 'v json_array \<Rightarrow> (json_error \<times> 'v json_array) option" where
  "array_push ok x a =
     (if ja_alloc_size a = 0
      then let a = a\<lparr>ja_alloc_size := 1, ja_slots := if ok then Some [None] else None\<rparr>
           in if \<not> ok then Some (JSON_ERR_ALLOC, a) else array_store x a
      else if ja_alloc_size a = ja_size a
      then if \<not> ok then Some (JSON_ERR_ALLOC, a)
           else array_store x (a\<lparr>ja_alloc_size := ja_alloc_size a * 2,
                                 ja_slots := map_option (\<lambda>s. s @ replicate (ja_alloc_size a) None) (ja_slots a)\<rparr>)
      else array_store x a)"

definition array_get_index :: "nat \<Rightarrow> 'v json_array \<Rightarrow> 'v option" where
  "array_get_index i a =
     (if ja_size a \<le> i then None else case ja_slots a of None \<Rightarrow> None | Some slots \<Rightarrow> slots ! i)"

text \<open>The shift to the left, up to the slot behind the last element.\<close>

definition array_remove_at_index :: "nat \<Rightarrow> 'v json_array \<Rightarrow> (json_error \<times> 'v json_array) option" where
  "array_remove_at_index index a =
     (if ja_size a \<le> index then Some (JSON_ERR_OVERFLOW, a)
      else case ja_slots a of
             None \<Rightarrow> None
           | Some slots \<Rightarrow>
               let slots = fold (\<lambda>i s. s[i := if i + 1 < ja_alloc_size a then s ! (i + 1) else None])
                             [index..<ja_size a] slots
               in Some (JSON_OK, a\<lparr>ja_slots := Some slots, ja_size := ja_size a - 1\<rparr>))"

section \<open>The hash table\<close>

record 'v ht_node =
  hn_key :: string
  hn_value :: 'v
  hn_order_prev :: "nat option"
  hn_order_next :: "nat option"

record 'v json_table =
  ht_buckets :: "nat list list"
  ht_item_count :: nat
  ht_order_head :: "nat option"
  ht_order_tail :: "nat option"
  ht_nodes :: "nat \<Rightarrow> 'v ht_node option"

definition BB_JSON_INITIAL_BUCKET_COUNT :: nat where "BB_JSON_INITIAL_BUCKET_COUNT = 8"
definition BB_JSON_MAX_LOAD_NUM :: nat where "BB_JSON_MAX_LOAD_NUM = 3"
definition BB_JSON_MAX_LOAD_DEN :: nat where "BB_JSON_MAX_LOAD_DEN = 4"

definition empty_table :: "'v json_table" where
  "empty_table =
     \<lparr>ht_buckets = replicate BB_JSON_INITIAL_BUCKET_COUNT [], ht_item_count = 0,
      ht_order_head = None, ht_order_tail = None, ht_nodes = Map.empty\<rparr>"

text \<open>The djb2 hash, on \<open>size_t\<close>, and its index in a power of two.\<close>

fun djb2 :: "u64 \<Rightarrow> string \<Rightarrow> u64" where
  "djb2 hash [] = hash"
| "djb2 hash (c # cs) = djb2 (push_bit 5 hash + hash + ucast (byte_of c)) cs"

definition hash_function :: "string \<Rightarrow> nat \<Rightarrow> nat" where
  "hash_function str bucket_count = unat (djb2 5381 str AND (of_nat bucket_count - 1))"

text \<open>
  Relinking every node, bucket after bucket, each to the front of its new chain. \<open>calloc\<close> fails
  when the size does not fit.
\<close>

fun relink :: "('a \<Rightarrow> nat option) \<Rightarrow> 'a list \<Rightarrow> 'a list list \<Rightarrow> 'a list list option" where
  "relink slot [] bs = Some bs"
| "relink slot (a # as) bs =
     (case slot a of None \<Rightarrow> None | Some i \<Rightarrow> relink slot as (bs[i := a # bs ! i]))"

definition table_resize :: "bool \<Rightarrow> nat \<Rightarrow> 'v json_table \<Rightarrow> (bool \<times> 'v json_table) option" where
  "table_resize ok new_bucket_count t =
     (if \<not> ok \<or> new_bucket_count * 8 \<ge> 2 ^ 64 then Some (False, t)
      else map_option (\<lambda>bs. (True, t\<lparr>ht_buckets := bs\<rparr>))
             (relink (\<lambda>a. map_option (\<lambda>n. hash_function (hn_key n) new_bucket_count) (ht_nodes t a))
                (concat (ht_buckets t)) (replicate new_bucket_count [])))"

text \<open>The walk along a chain: the address of the node with that key.\<close>

fun chain_find :: "(nat \<Rightarrow> 'v ht_node option) \<Rightarrow> string \<Rightarrow> nat list \<Rightarrow> nat option option" where
  "chain_find nodes key [] = Some None"
| "chain_find nodes key (a # as) =
     (case nodes a of
        None \<Rightarrow> None
      | Some n \<Rightarrow> if hn_key n = key then Some (Some a) else chain_find nodes key as)"

text \<open>Linking a new node: the outcome of the allocations and the address of the node.\<close>

definition insert_node ::
  "nat option \<Rightarrow> bool \<Rightarrow> string \<Rightarrow> 'v \<Rightarrow> nat \<Rightarrow> 'v json_table \<Rightarrow> (json_error \<times> 'v json_table) option" where
  "insert_node addr dup key value index t =
     (case addr of
        None \<Rightarrow> Some (JSON_ERR_ALLOC, t)
      | Some a \<Rightarrow>
          if \<not> dup then Some (JSON_ERR_ALLOC, t)
          else let node = \<lparr>hn_key = key, hn_value = value, hn_order_prev = ht_order_tail t, hn_order_next = None\<rparr>;
                   t = t\<lparr>ht_buckets := (ht_buckets t)[index := a # ht_buckets t ! index],
                         ht_nodes := (ht_nodes t)(a \<mapsto> node)\<rparr>
               in case ht_order_tail t of
                    Some b \<Rightarrow>
                      (case ht_nodes t b of
                         None \<Rightarrow> None
                       | Some n \<Rightarrow>
                           Some (JSON_OK, t\<lparr>ht_nodes := (ht_nodes t)(b \<mapsto> n\<lparr>hn_order_next := Some a\<rparr>),
                                            ht_order_tail := Some a, ht_item_count := ht_item_count t + 1\<rparr>))
                  | None \<Rightarrow>
                      Some (JSON_OK, t\<lparr>ht_order_head := Some a, ht_order_tail := Some a,
                                       ht_item_count := ht_item_count t + 1\<rparr>))"

text \<open>The environment of an insertion: growing the table, the new node, the copy of the key.\<close>

record table_env =
  te_grow :: bool
  te_node :: "nat option"
  te_key :: bool

definition table_set ::
  "table_env \<Rightarrow> string \<Rightarrow> 'v \<Rightarrow> 'v json_table \<Rightarrow> (json_error \<times> 'v json_table) option" where
  "table_set te key value t =
     (case (if ht_item_count t * BB_JSON_MAX_LOAD_DEN \<ge> length (ht_buckets t) * BB_JSON_MAX_LOAD_NUM
            then table_resize (te_grow te) (length (ht_buckets t) * 2) t else Some (True, t)) of
        None \<Rightarrow> None
      | Some (ok, t) \<Rightarrow>
          if \<not> ok then Some (JSON_ERR_ALLOC, t)
          else let index = hash_function key (length (ht_buckets t)) in
               case chain_find (ht_nodes t) key (ht_buckets t ! index) of
                 None \<Rightarrow> None
               | Some (Some a) \<Rightarrow>
                   Some (JSON_OK, t\<lparr>ht_nodes := (ht_nodes t)(a := map_option (hn_value_update (\<lambda>_. value)) (ht_nodes t a))\<rparr>)
               | Some None \<Rightarrow> insert_node (te_node te) (te_key te) key value index t)"

definition table_get :: "string \<Rightarrow> 'v json_table \<Rightarrow> 'v option option" where
  "table_get key t =
     (case chain_find (ht_nodes t) key (ht_buckets t ! hash_function key (length (ht_buckets t))) of
        None \<Rightarrow> None
      | Some None \<Rightarrow> Some None
      | Some (Some a) \<Rightarrow> Some (map_option hn_value (ht_nodes t a)))"

text \<open>Taking a node out of the doubly linked list: its predecessor, then its successor.\<close>

definition unlink_prev :: "'v ht_node \<Rightarrow> 'v json_table \<Rightarrow> 'v json_table option" where
  "unlink_prev n t =
     (case hn_order_prev n of
        Some p \<Rightarrow>
          map_option (\<lambda>m. t\<lparr>ht_nodes := (ht_nodes t)(p \<mapsto> m\<lparr>hn_order_next := hn_order_next n\<rparr>)\<rparr>) (ht_nodes t p)
      | None \<Rightarrow> Some (t\<lparr>ht_order_head := hn_order_next n\<rparr>))"

definition unlink_next :: "'v ht_node \<Rightarrow> 'v json_table \<Rightarrow> 'v json_table option" where
  "unlink_next n t =
     (case hn_order_next n of
        Some s \<Rightarrow>
          map_option (\<lambda>m. t\<lparr>ht_nodes := (ht_nodes t)(s \<mapsto> m\<lparr>hn_order_prev := hn_order_prev n\<rparr>)\<rparr>) (ht_nodes t s)
      | None \<Rightarrow> Some (t\<lparr>ht_order_tail := hn_order_prev n\<rparr>))"

definition table_remove :: "string \<Rightarrow> 'v json_table \<Rightarrow> (json_error \<times> 'v json_table) option" where
  "table_remove key t =
     (let index = hash_function key (length (ht_buckets t)) in
      case chain_find (ht_nodes t) key (ht_buckets t ! index) of
        None \<Rightarrow> None
      | Some None \<Rightarrow> Some (JSON_ERR_NOT_FOUND, t)
      | Some (Some a) \<Rightarrow>
          (case ht_nodes t a of
             None \<Rightarrow> None
           | Some n \<Rightarrow>
               let t = t\<lparr>ht_buckets := (ht_buckets t)[index := remove1 a (ht_buckets t ! index)]\<rparr> in
               case Option.bind (unlink_prev n t) (unlink_next n) of
                 None \<Rightarrow> None
               | Some t \<Rightarrow>
                   Some (JSON_OK, t\<lparr>ht_nodes := (ht_nodes t)(a := None), ht_item_count := ht_item_count t - 1\<rparr>)))"

text \<open>
  The walk along the order of insertion, from a node on; at most \<open>fuel\<close> nodes, and \<open>None\<close> when they
  do not end by then.
\<close>

fun walk_order :: "(nat \<Rightarrow> 'v ht_node option) \<Rightarrow> nat \<Rightarrow> nat option \<Rightarrow> (string \<times> 'v) list option" where
  "walk_order nodes fuel None = Some []"
| "walk_order nodes 0 (Some a) = None"
| "walk_order nodes (Suc fuel) (Some a) =
     (case nodes a of
        None \<Rightarrow> None
      | Some n \<Rightarrow> map_option ((#) (hn_key n, hn_value n)) (walk_order nodes fuel (hn_order_next n)))"

definition table_entries :: "'v json_table \<Rightarrow> (string \<times> 'v) list option" where
  "table_entries t = walk_order (ht_nodes t) (ht_item_count t) (ht_order_head t)"

end
