(* ===== verification/Json_Table.thy ===== *)
theory Json_Table
  imports Json_Containers
begin

text \<open>
  The hash table of JSON objects is a map that remembers the order of insertion: the representation
  invariant of the table, what every operation does to the list of its entries, and the interface
  \<open>ordered_map\<close>, which the objects of JSON documents rest on.
\<close>

section \<open>Ordered maps\<close>

definition al_put :: "'k \<Rightarrow> 'v \<Rightarrow> ('k \<times> 'v) list \<Rightarrow> ('k \<times> 'v) list" where
  "al_put k v ps =
     (if k \<in> fst ` set ps then map (\<lambda>(k', v'). if k' = k then (k', v) else (k', v')) ps else ps @ [(k, v)])"

definition al_del :: "'k \<Rightarrow> ('k \<times> 'v) list \<Rightarrow> ('k \<times> 'v) list" where
  "al_del k ps = filter (\<lambda>p. fst p \<noteq> k) ps"

lemma keys_put: "map fst (al_put k v ps) = (if k \<in> fst ` set ps then map fst ps else map fst ps @ [k])"
  by (auto simp: al_put_def split: prod.split)

lemma keys_del: "map fst (al_del k ps) = filter (\<lambda>k'. k' \<noteq> k) (map fst ps)"
  by (simp add: al_del_def filter_map comp_def)

lemma put_distinct: "distinct (map fst ps) \<Longrightarrow> distinct (map fst (al_put k v ps))"
  unfolding keys_put by (auto simp: image_iff)

lemma del_distinct: "distinct (map fst ps) \<Longrightarrow> distinct (map fst (al_del k ps))"
  unfolding keys_del by simp

lemma map_of_replace:
  "map_of (map (\<lambda>(k', v'). if k' = k then (k', v) else (k', v')) ps) =
   (if k \<in> fst ` set ps then (map_of ps)(k \<mapsto> v) else map_of ps)"
proof (induction ps)
  case (Cons p ps)
  obtain a b where p: "p = (a, b)" by (cases p)
  show ?case
  proof (cases "a = k")
    case True
    then show ?thesis by (simp add: p Cons.IH fun_eq_iff)
  next
    case False
    then have "k \<in> fst ` set (p # ps) \<longleftrightarrow> k \<in> fst ` set ps" by (auto simp: p)
    with False show ?thesis by (simp add: p Cons.IH fun_eq_iff)
  qed
qed simp

lemma map_of_put: "map_of (al_put k v ps) = (map_of ps)(k \<mapsto> v)"
proof (cases "k \<in> fst ` set ps")
  case False
  then have "map_of ps k = None" by (simp add: map_of_eq_None_iff)
  with False show ?thesis by (intro ext) (simp add: al_put_def map_add_def split: option.splits)
qed (simp add: al_put_def map_of_replace)

lemma map_of_del: "map_of (al_del k ps) = (map_of ps)(k := None)"
  by (induction ps) (auto simp: al_del_def)

locale ordered_map =
  fixes rep :: "'t \<Rightarrow> ('k \<times> 'v) list \<Rightarrow> bool"
    and put :: "'e \<Rightarrow> 'k \<Rightarrow> 'v \<Rightarrow> 't \<Rightarrow> ('r \<times> 't) option"
    and del :: "'k \<Rightarrow> 't \<Rightarrow> ('r \<times> 't) option"
    and usable :: "'e \<Rightarrow> 't \<Rightarrow> bool"
    and good :: "'r \<Rightarrow> bool"
  assumes put_rep: "rep t ps \<Longrightarrow> usable e t \<Longrightarrow>
      \<exists>r t'. put e k v t = Some (r, t') \<and> rep t' (if good r then al_put k v ps else ps)"
    and del_rep: "rep t ps \<Longrightarrow> \<exists>r t'. del k t = Some (r, t') \<and> rep t' (al_del k ps)"
begin

text \<open>An operation is a key with an environment and a value to set, or with nothing to remove it.\<close>

fun run :: "('k \<times> ('e \<times> 'v) option) list \<Rightarrow> 't \<Rightarrow> ('r list \<times> 't) option" where
  "run [] t = Some ([], t)"
| "run ((k, op) # ops) t =
     Option.bind (case op of Some (e, v) \<Rightarrow> put e k v t | None \<Rightarrow> del k t)
       (\<lambda>(r, t). map_option (\<lambda>(rs, t). (r # rs, t)) (run ops t))"

fun all_usable :: "('k \<times> ('e \<times> 'v) option) list \<Rightarrow> 't \<Rightarrow> bool" where
  "all_usable [] t \<longleftrightarrow> True"
| "all_usable ((k, op) # ops) t \<longleftrightarrow>
     (case op of
        Some (e, v) \<Rightarrow> usable e t \<and> (case put e k v t of None \<Rightarrow> True | Some (r, t') \<Rightarrow> all_usable ops t')
      | None \<Rightarrow> (case del k t of None \<Rightarrow> True | Some (r, t') \<Rightarrow> all_usable ops t'))"

fun effects :: "('k \<times> ('e \<times> 'v) option) list \<Rightarrow> 'r list \<Rightarrow> ('k \<times> 'v) list \<Rightarrow> ('k \<times> 'v) list" where
  "effects ((k, op) # ops) (r # rs) ps =
     effects ops rs (case op of Some (e, v) \<Rightarrow> if good r then al_put k v ps else ps | None \<Rightarrow> al_del k ps)"
| "effects _ _ ps = ps"

lemma run_rep:
  assumes "rep t ps" and "all_usable ops t"
  shows "\<exists>rs t'. run ops t = Some (rs, t') \<and> length rs = length ops \<and> rep t' (effects ops rs ps)"
  using assms
proof (induction ops arbitrary: t ps)
  case (Cons o' ops)
  obtain k op where o': "o' = (k, op)" by (cases o')
  show ?case
  proof (cases op)
    case None
    obtain r t1 where d: "del k t = Some (r, t1)" "rep t1 (al_del k ps)" using del_rep [OF Cons.prems(1)] by blast
    then have "all_usable ops t1" using Cons.prems(2) by (simp add: o' None)
    from Cons.IH [OF d(2) this] d(1) show ?thesis by (fastforce simp: o' None)
  next
    case (Some ev)
    obtain e v where ev: "ev = (e, v)" by (cases ev)
    have "usable e t" using Cons.prems(2) by (simp add: o' Some ev)
    then obtain r t1 where d: "put e k v t = Some (r, t1)" "rep t1 (if good r then al_put k v ps else ps)"
      using put_rep [OF Cons.prems(1)] by blast
    then have "all_usable ops t1" using Cons.prems(2) by (simp add: o' Some ev)
    from Cons.IH [OF d(2) this] d(1) show ?thesis by (fastforce simp: o' Some ev)
  qed
qed simp

end

section \<open>The linked order\<close>

text \<open>
  The nodes \<open>xs\<close> are linked from \<open>p\<close> on, the first one back to \<open>pv\<close>; the last one points to \<open>nx\<close> and
  \<open>pl\<close> is the pointer to it.
\<close>

fun linked ::
  "(nat \<Rightarrow> 'v ht_node option) \<Rightarrow> nat option \<Rightarrow> nat option \<Rightarrow> nat list \<Rightarrow> nat option \<Rightarrow> nat option \<Rightarrow> bool" where
  "linked N pv p [] nx pl \<longleftrightarrow> p = nx \<and> pl = pv"
| "linked N pv p (x # xs) nx pl \<longleftrightarrow>
     p = Some x \<and> (\<exists>n. N x = Some n \<and> hn_order_prev n = pv \<and> linked N (Some x) (hn_order_next n) xs nx pl)"

lemma linked_append:
  "linked N pv p (xs @ ys) nx pl \<longleftrightarrow> (\<exists>m pm. linked N pv p xs m pm \<and> linked N pm m ys nx pl)"
  by (induction xs arbitrary: pv p) auto

lemma linked_cong:
  assumes "\<And>x. x \<in> set xs \<Longrightarrow> N x = N' x"
  shows "linked N pv p xs nx pl \<longleftrightarrow> linked N' pv p xs nx pl"
  using assms by (induction xs arbitrary: pv p) auto

lemma linked_other: "x \<notin> set xs \<Longrightarrow> linked (N(x := n)) pv p xs nx pl \<longleftrightarrow> linked N pv p xs nx pl"
  by (rule linked_cong) auto

lemma linked_ends:
  "linked N pv p xs nx pl \<Longrightarrow>
   p = (if xs = [] then nx else Some (hd xs)) \<and> pl = (if xs = [] then pv else Some (last xs))"
  by (induction xs arbitrary: pv p) auto

text \<open>The last node can be made to point elsewhere, and the first one back elsewhere.\<close>

lemma relink_last:
  assumes "linked N pv p (xs @ [b]) nx pl" and "b \<notin> set xs"
  shows "\<exists>n. N b = Some n \<and> linked (N(b \<mapsto> n\<lparr>hn_order_next := nx'\<rparr>)) pv p (xs @ [b]) nx' pl"
  using assms by (auto simp: linked_append linked_other)

lemma relink_first:
  assumes "linked N pv p (b # xs) nx pl" and "b \<notin> set xs"
  shows "\<exists>n. N b = Some n \<and> linked (N(b \<mapsto> n\<lparr>hn_order_prev := pv'\<rparr>)) pv' p (b # xs) nx pl"
  using assms by (auto simp: linked_other)

section \<open>The invariant\<close>

definition key_at :: "(nat \<Rightarrow> 'v ht_node option) \<Rightarrow> nat \<Rightarrow> string" where
  "key_at N a = hn_key (the (N a))"

definition value_at :: "(nat \<Rightarrow> 'v ht_node option) \<Rightarrow> nat \<Rightarrow> 'v" where
  "value_at N a = hn_value (the (N a))"

definition entries_at :: "(nat \<Rightarrow> 'v ht_node option) \<Rightarrow> nat list \<Rightarrow> (string \<times> 'v) list" where
  "entries_at N xs = map (\<lambda>a. (key_at N a, value_at N a)) xs"

text \<open>The buckets hold the nodes of \<open>A\<close>, each in the bucket of its key.\<close>

definition buckets_ok :: "(nat \<Rightarrow> string) \<Rightarrow> nat set \<Rightarrow> nat list list \<Rightarrow> bool" where
  "buckets_ok key A B \<longleftrightarrow> 0 < length B \<and> length B < 2 ^ 64 \<and>
     (\<forall>i<length B. distinct (B ! i) \<and> set (B ! i) = {a \<in> A. hash_function (key a) (length B) = i})"

definition table_ok :: "'v json_table \<Rightarrow> nat list \<Rightarrow> bool" where
  "table_ok t xs \<longleftrightarrow>
     linked (ht_nodes t) None (ht_order_head t) xs None (ht_order_tail t) \<and> distinct xs \<and>
     dom (ht_nodes t) = set xs \<and> ht_item_count t = length xs \<and>
     distinct (map (key_at (ht_nodes t)) xs) \<and> buckets_ok (key_at (ht_nodes t)) (set xs) (ht_buckets t)"

definition represents :: "'v json_table \<Rightarrow> (string \<times> 'v) list \<Rightarrow> bool" where
  "represents t ps \<longleftrightarrow> (\<exists>xs. table_ok t xs \<and> ps = entries_at (ht_nodes t) xs)"

lemma hash_bound:
  assumes "0 < n" and "n < 2 ^ 64"
  shows "hash_function s n < n"
proof -
  have "(of_nat n :: u64) \<noteq> 0"
    using assms by (simp add: word_of_nat_eq_0_iff nat_dvd_not_less)
  then have "unat ((of_nat n :: u64) - 1) = n - 1"
    using assms by (simp add: unat_minus_one unat_of_nat)
  moreover have "djb2 5381 s AND (of_nat n - 1) \<le> (of_nat n - 1 :: u64)" by (rule word_and_le1)
  ultimately have "hash_function s n \<le> n - 1" by (simp add: hash_function_def word_le_nat_alt)
  then show ?thesis using assms(1) by linarith
qed

lemma walk_linked: "linked N pv p xs None pl \<Longrightarrow> walk_order N (length xs) p = Some (entries_at N xs)"
  by (induction xs arbitrary: pv p) (auto simp: entries_at_def key_at_def value_at_def)

lemma chain_find_spec:
  assumes "\<And>a. a \<in> set as \<Longrightarrow> N a \<noteq> None"
  shows "chain_find N k as = Some (find (\<lambda>a. key_at N a = k) as)"
  using assms by (induction as) (auto simp: key_at_def split: option.splits)

lemma bucket_find:
  assumes "table_ok t xs"
  defines "N \<equiv> ht_nodes t"
  shows "chain_find N k (ht_buckets t ! hash_function k (length (ht_buckets t))) = Some None \<and> k \<notin> key_at N ` set xs \<or>
    (\<exists>a. chain_find N k (ht_buckets t ! hash_function k (length (ht_buckets t))) = Some (Some a) \<and>
       a \<in> set xs \<and> key_at N a = k)"
proof -
  define i where "i = hash_function k (length (ht_buckets t))"
  have b: "buckets_ok (key_at N) (set xs) (ht_buckets t)" and d: "dom N = set xs"
    using assms(1) by (simp_all add: table_ok_def N_def)
  then have i: "i < length (ht_buckets t)" by (simp add: i_def buckets_ok_def hash_bound)
  with b have s: "set (ht_buckets t ! i) = {a \<in> set xs. hash_function (key_at N a) (length (ht_buckets t)) = i}"
    by (simp add: buckets_ok_def)
  then have "chain_find N k (ht_buckets t ! i) = Some (find (\<lambda>a. key_at N a = k) (ht_buckets t ! i))"
    using d by (intro chain_find_spec) auto
  moreover have "k \<notin> key_at N ` set xs" if "find (\<lambda>a. key_at N a = k) (ht_buckets t ! i) = None"
    using that s by (auto simp: find_None_iff i_def)
  moreover have "a \<in> set xs \<and> key_at N a = k" if "find (\<lambda>a. key_at N a = k) (ht_buckets t ! i) = Some a" for a
    using that s by (metis (mono_tags, lifting) CollectD find_Some_iff nth_mem)
  ultimately show ?thesis unfolding i_def by (cases "find (\<lambda>a. key_at N a = k) (ht_buckets t ! i)") (auto simp: i_def)
qed

section \<open>Resizing\<close>

lemma relink_spec:
  assumes "\<And>a. a \<in> set as \<Longrightarrow> \<exists>i. slot a = Some i \<and> i < length bs"
  shows "\<exists>bs'. relink slot as bs = Some bs' \<and> length bs' = length bs \<and>
    (\<forall>i<length bs. bs' ! i = rev (filter (\<lambda>a. slot a = Some i) as) @ bs ! i)"
  using assms
proof (induction as arbitrary: bs)
  case (Cons a as)
  obtain i where i: "slot a = Some i" "i < length bs" using Cons.prems by auto
  have "\<exists>j. slot a' = Some j \<and> j < length (bs[i := a # bs ! i])" if "a' \<in> set as" for a'
    using Cons.prems that by simp
  from Cons.IH [OF this] show ?case using i by (auto simp: nth_list_update)
qed simp

lemma buckets_concat:
  assumes "\<forall>i<length B. distinct (B ! i) \<and> set (B ! i) = {a \<in> A. f a = i}"
  shows "distinct (concat B) \<and> set (concat B) = {a \<in> A. f a < length B}"
  using assms
proof (induction B rule: rev_induct)
  case (snoc b B)
  have "\<forall>i<length B. distinct (B ! i) \<and> set (B ! i) = {a \<in> A. f a = i}"
    using snoc.prems by (simp add: nth_append less_Suc_eq)
  moreover have "distinct b \<and> set b = {a \<in> A. f a = length B}"
    using snoc.prems [rule_format, of "length B"] by simp
  ultimately show ?case using snoc.IH by (auto simp: less_Suc_eq)
qed simp

lemma resize_ok:
  assumes "table_ok t xs"
  shows "\<exists>ok t'. table_resize g (length (ht_buckets t) * 2) t = Some (ok, t') \<and> table_ok t' xs \<and>
    ht_nodes t' = ht_nodes t \<and> ht_item_count t' = ht_item_count t \<and>
    (\<not> ok \<longrightarrow> t' = t \<and> (\<not> g \<or> length (ht_buckets t) * 16 \<ge> 2 ^ 64))"
proof -
  define n where "n = length (ht_buckets t) * 2"
  define key where "key = key_at (ht_nodes t)"
  show ?thesis
  proof (cases "\<not> g \<or> n * 8 \<ge> 2 ^ 64")
    case True
    then have "table_resize g n t = Some (False, t)" by (simp add: table_resize_def)
    with True assms show ?thesis unfolding n_def by auto
  next
    case False
    have b: "buckets_ok key (set xs) (ht_buckets t)" and dom: "dom (ht_nodes t) = set xs"
      using assms by (simp_all add: table_ok_def key_def)
    have n: "0 < n" "n < 2 ^ 64" using b False by (auto simp: buckets_ok_def n_def)
    have c: "distinct (concat (ht_buckets t))" "set (concat (ht_buckets t)) = set xs"
      using b buckets_concat [of "ht_buckets t" "set xs" "\<lambda>a. hash_function (key a) (length (ht_buckets t))"]
      by (auto simp: buckets_ok_def hash_bound)
    define slot where "slot = (\<lambda>a. map_option (\<lambda>n'. hash_function (hn_key n') n) (ht_nodes t a))"
    have slot: "slot a = Some (hash_function (key a) n)" if "a \<in> set xs" for a
      using that dom [symmetric] by (auto simp: slot_def key_def key_at_def)
    obtain bs where bs: "relink slot (concat (ht_buckets t)) (replicate n []) = Some bs" "length bs = n"
      "\<forall>i<n. bs ! i = rev (filter (\<lambda>a. slot a = Some i) (concat (ht_buckets t)))"
    proof -
      have "\<exists>i. slot a = Some i \<and> i < length (replicate n [])" if "a \<in> set (concat (ht_buckets t))" for a
        using that slot n unfolding c(2) by (simp add: hash_bound)
      from relink_spec [of "concat (ht_buckets t)" slot "replicate n []", OF this] obtain bs where "relink slot (concat (ht_buckets t)) (replicate n []) = Some bs"
        "length bs = length (replicate n ([] :: nat list))"
        "\<forall>i<length (replicate n ([] :: nat list)). bs ! i =
           rev (filter (\<lambda>a. slot a = Some i) (concat (ht_buckets t))) @ replicate n [] ! i" by blast
      then show ?thesis by (intro that [of bs]) simp_all
    qed
    define t' where "t' = t\<lparr>ht_buckets := bs\<rparr>"
    have "distinct (bs ! i) \<and> set (bs ! i) = {a \<in> set xs. hash_function (key a) n = i}" if "i < n" for i
      using that bs(3) c slot by (auto simp: set_eq_iff simp del: set_concat distinct_concat_iff)
    then have "buckets_ok key (set xs) bs" using bs(2) n by (simp add: buckets_ok_def)
    then have "table_ok t' xs" using assms by (simp add: table_ok_def t'_def key_def)
    moreover have "table_resize g n t = Some (True, t')"
      using False bs(1) by (simp add: table_resize_def slot_def t'_def)
    ultimately show ?thesis unfolding n_def by (auto simp: t'_def)
  qed
qed

section \<open>Setting\<close>

lemma entries_cong: "(\<And>a. a \<in> set xs \<Longrightarrow> key_at N a = key_at N' a \<and> value_at N a = value_at N' a) \<Longrightarrow>
    entries_at N xs = entries_at N' xs"
  by (simp add: entries_at_def)

lemma keys_of_entries: "fst ` set (entries_at N xs) = key_at N ` set xs"
  by (simp add: entries_at_def image_image)

lemma replace_rep:
  fixes t :: "'v json_table" and v :: 'v
  assumes "table_ok t xs" and "a \<in> set xs" and "key_at (ht_nodes t) a = k"
  defines "t' \<equiv> t\<lparr>ht_nodes := (ht_nodes t)(a := map_option (hn_value_update (\<lambda>_. v)) (ht_nodes t a))\<rparr>"
  shows "table_ok t' xs \<and> entries_at (ht_nodes t') xs = al_put k v (entries_at (ht_nodes t) xs)"
proof -
  define N N' where "N = ht_nodes t" and "N' = ht_nodes t'"
  obtain n where n: "N a = Some n" using assms(1,2) by (auto simp: table_ok_def N_def)
  have N': "N' = N(a \<mapsto> n\<lparr>hn_value := v\<rparr>)" using n by (simp add: N'_def N_def t'_def)
  have key: "key_at N' = key_at N" using n by (auto simp: N' key_at_def)
  have "linked N' pv p ys nx pl \<longleftrightarrow> linked N pv p ys nx pl" for pv p ys nx pl
    by (induction ys arbitrary: pv p) (use n in \<open>auto simp: N'\<close>)
  moreover have "dom N' = dom N" using n by (auto simp: N')
  moreover have "t' = t\<lparr>ht_nodes := N'\<rparr>" by (simp add: N'_def t'_def)
  ultimately have ok: "table_ok t' xs" using assms(1) key by (simp add: table_ok_def N_def)
  have "key_at N a' = k \<longleftrightarrow> a' = a" if "a' \<in> set xs" for a'
    using that assms(1-3) by (auto simp: table_ok_def N_def distinct_map inj_on_def)
  then have "entries_at N' xs = al_put k v (entries_at N xs)"
    using assms(2,3) by (auto simp: al_put_def keys_of_entries N_def [symmetric])
      (auto simp: entries_at_def key value_at_def N' key [unfolded N'])
  with ok show ?thesis by (simp add: N_def N'_def)
qed

lemma insert_rep:
  assumes "table_ok t xs" and "k \<notin> key_at (ht_nodes t) ` set xs" and "ht_nodes t a = None"
  shows "\<exists>t'. insert_node (Some a) True k v (hash_function k (length (ht_buckets t))) t = Some (JSON_OK, t') \<and>
    table_ok t' (xs @ [a]) \<and> entries_at (ht_nodes t') (xs @ [a]) = entries_at (ht_nodes t) xs @ [(k, v)]"
proof -
  define N B where "N = ht_nodes t" and "B = ht_buckets t"
  define i where "i = hash_function k (length B)"
  define node where "node = \<lparr>hn_key = k, hn_value = v, hn_order_prev = ht_order_tail t, hn_order_next = None\<rparr>"
  have l: "linked N None (ht_order_head t) xs None (ht_order_tail t)" and d: "distinct xs" and dom: "dom N = set xs"
    and c: "ht_item_count t = length xs" and dk: "distinct (map (key_at N) xs)"
    and b: "buckets_ok (key_at N) (set xs) B"
    using assms(1) by (simp_all add: table_ok_def N_def B_def)
  have a: "a \<notin> set xs" using assms(3) dom by (auto simp: N_def)
  have i: "i < length B" using b by (simp add: i_def buckets_ok_def hash_bound)
  text \<open>The nodes and the ends of the order after the insertion.\<close>
  have "\<exists>N' h. linked N' None h (xs @ [a]) None (Some a) \<and> dom N' = insert a (set xs) \<and>
      (\<forall>x\<in>set xs. key_at N' x = key_at N x \<and> value_at N' x = value_at N x) \<and> key_at N' a = k \<and> value_at N' a = v \<and>
      insert_node (Some a) True k v i t = Some (JSON_OK, t\<lparr>ht_buckets := B[i := a # B ! i], ht_nodes := N',
        ht_order_head := h, ht_order_tail := Some a, ht_item_count := ht_item_count t + 1\<rparr>)"
  proof (cases xs rule: rev_cases)
    case Nil
    with l have "ht_order_tail t = None" "ht_order_head t = None" by simp_all
    then show ?thesis
      using Nil dom by (intro exI [of _ "N(a \<mapsto> node)"] exI [of _ "Some a"])
        (simp add: insert_node_def Let_def key_at_def value_at_def node_def N_def B_def)
  next
    case (snoc zs z)
    then have tail: "ht_order_tail t = Some z" using linked_ends [OF l] by simp
    obtain n where n: "N z = Some n" and l': "linked (N(z \<mapsto> n\<lparr>hn_order_next := Some a\<rparr>)) None (ht_order_head t) (zs @ [z]) (Some a) (Some z)"
      using relink_last [of N None "ht_order_head t" zs z None "Some z" "Some a"] l d snoc tail by auto
    define N' where "N' = N(a \<mapsto> node, z \<mapsto> n\<lparr>hn_order_next := Some a\<rparr>)"
    have az: "a \<noteq> z" "a \<notin> set zs" using a snoc by auto
    then have N': "N' = (N(z \<mapsto> n\<lparr>hn_order_next := Some a\<rparr>))(a \<mapsto> node)" by (simp add: N'_def fun_upd_twist)
    have "linked N' None (ht_order_head t) (xs @ [a]) None (Some a)"
      unfolding snoc linked_append [of _ _ _ "zs @ [z]"] using l' az
      by (intro exI [of _ "Some a"] exI [of _ "Some z"]) (simp add: N' linked_other, simp add: node_def tail)
    moreover have "dom N' = insert a (set xs)" using dom snoc by (auto simp: N'_def)
    moreover have "\<forall>x\<in>set xs. key_at N' x = key_at N x \<and> value_at N' x = value_at N x"
      using a n by (auto simp: N' key_at_def value_at_def)
    moreover have "key_at N' a = k" "value_at N' a = v" by (simp_all add: N' key_at_def value_at_def node_def)
    moreover have "insert_node (Some a) True k v i t = Some (JSON_OK, t\<lparr>ht_buckets := B[i := a # B ! i], ht_nodes := N',
        ht_order_head := ht_order_head t, ht_order_tail := Some a, ht_item_count := ht_item_count t + 1\<rparr>)"
      using az n by (simp add: insert_node_def Let_def tail node_def [symmetric, unfolded tail] N_def [symmetric] B_def N'_def)
    ultimately show ?thesis by blast
  qed
  then obtain N' h where N': "linked N' None h (xs @ [a]) None (Some a)" "dom N' = insert a (set xs)"
    "\<forall>x\<in>set xs. key_at N' x = key_at N x \<and> value_at N' x = value_at N x" "key_at N' a = k" "value_at N' a = v"
    and run: "insert_node (Some a) True k v i t = Some (JSON_OK, t\<lparr>ht_buckets := B[i := a # B ! i], ht_nodes := N',
        ht_order_head := h, ht_order_tail := Some a, ht_item_count := ht_item_count t + 1\<rparr>)"
    by blast
  have "distinct (map (key_at N') (xs @ [a]))"
    using dk assms(2) N'(3,4) by (auto simp: N_def distinct_map inj_on_def)
  moreover have "buckets_ok (key_at N') (insert a (set xs)) (B[i := a # B ! i])"
    unfolding buckets_ok_def length_list_update
  proof (intro conjI allI impI)
    fix j assume j: "j < length B"
    have B: "distinct (B ! j)" "set (B ! j) = {a \<in> set xs. hash_function (key_at N a) (length B) = j}"
      using b j by (simp_all add: buckets_ok_def)
    then have "a \<notin> set (B ! j)" using a by simp
    with B(1) show "distinct (B[i := a # B ! i] ! j)" using j by (cases "i = j") simp_all
    show "set (B[i := a # B ! i] ! j) = {a' \<in> insert a (set xs). hash_function (key_at N' a') (length B) = j}"
    proof -
      have upd: "B[i := a # B ! i] ! j = (if i = j then a # B ! j else B ! j)" using j by simp
      have h: "hash_function (key_at N' a) (length B) = i"
        "\<And>x. x \<in> set xs \<Longrightarrow> hash_function (key_at N' x) (length B) = hash_function (key_at N x) (length B)"
        using N'(3,4) by (simp_all add: i_def)
      have "{a' \<in> insert a (set xs). hash_function (key_at N' a') (length B) = j} =
          (if i = j then insert a else (\<lambda>s. s)) {a' \<in> set xs. hash_function (key_at N a') (length B) = j}"
        using h by auto
      then show ?thesis unfolding upd using B(2) by simp
    qed
  qed (use b in \<open>simp_all add: buckets_ok_def\<close>)
  ultimately have "table_ok (t\<lparr>ht_buckets := B[i := a # B ! i], ht_nodes := N', ht_order_head := h,
      ht_order_tail := Some a, ht_item_count := ht_item_count t + 1\<rparr>) (xs @ [a])"
    using N'(1,2) a d c by (simp add: table_ok_def)
  moreover have "entries_at N' (xs @ [a]) = entries_at N xs @ [(k, v)]"
    using N'(3-5) by (simp add: entries_at_def)
  ultimately show ?thesis using run by (simp add: i_def B_def N_def)
qed

lemma set_rep:
  assumes "represents t ps" and fresh: "\<forall>a. te_node te = Some a \<longrightarrow> ht_nodes t a = None"
  shows "\<exists>r t'. table_set te k v t = Some (r, t') \<and> represents t' (if r = JSON_OK then al_put k v ps else ps)"
proof -
  obtain xs where xs: "table_ok t xs" "ps = entries_at (ht_nodes t) xs" using assms(1) by (auto simp: represents_def)
  define res where "res = (if ht_item_count t * BB_JSON_MAX_LOAD_DEN \<ge> length (ht_buckets t) * BB_JSON_MAX_LOAD_NUM
      then table_resize (te_grow te) (length (ht_buckets t) * 2) t else Some (True, t))"
  have "\<exists>ok t1. res = Some (ok, t1) \<and> table_ok t1 xs \<and> ht_nodes t1 = ht_nodes t"
    using resize_ok [OF xs(1), of "te_grow te"] xs(1) unfolding res_def by (simp, blast)
  then obtain ok t1 where res: "res = Some (ok, t1)" "table_ok t1 xs" "ht_nodes t1 = ht_nodes t"
    by blast
  have ps: "ps = entries_at (ht_nodes t1) xs" using xs(2) res(3) by simp
  have rep1: "represents t1 ps" using res(2) ps by (auto simp: represents_def)
  define index where "index = hash_function k (length (ht_buckets t1))"
  have set_eq: "table_set te k v t = (if \<not> ok then Some (JSON_ERR_ALLOC, t1) else
      case chain_find (ht_nodes t1) k (ht_buckets t1 ! index) of
        None \<Rightarrow> None
      | Some (Some a) \<Rightarrow> Some (JSON_OK, t1\<lparr>ht_nodes := (ht_nodes t1)(a := map_option (hn_value_update (\<lambda>_. v)) (ht_nodes t1 a))\<rparr>)
      | Some None \<Rightarrow> insert_node (te_node te) (te_key te) k v index t1)"
    using res(1) unfolding table_set_def res_def [symmetric] index_def by (simp add: Let_def)
  show ?thesis
  proof (cases ok)
    case False
    then show ?thesis using set_eq rep1 by simp
  next
    case ok: True
    from bucket_find [OF res(2), of k, folded index_def] show ?thesis
    proof (elim disjE exE conjE)
      assume new: "chain_find (ht_nodes t1) k (ht_buckets t1 ! index) = Some None" "k \<notin> key_at (ht_nodes t1) ` set xs"
      show ?thesis
      proof (cases "\<exists>a. te_node te = Some a \<and> te_key te")
        case True
        then obtain a where a: "te_node te = Some a" "te_key te" by blast
        then have "ht_nodes t1 a = None" using fresh res(3) by simp
        from insert_rep [OF res(2) new(2) this, of v, folded index_def] obtain t2
          where t2: "insert_node (Some a) True k v index t1 = Some (JSON_OK, t2)" "table_ok t2 (xs @ [a])"
            "entries_at (ht_nodes t2) (xs @ [a]) = ps @ [(k, v)]" using ps by auto
        moreover have "al_put k v ps = ps @ [(k, v)]" using new(2) by (simp add: al_put_def ps keys_of_entries)
        ultimately have "represents t2 (al_put k v ps)" unfolding represents_def by metis
        then show ?thesis using set_eq ok new(1) a t2(1) by simp
      next
        case False
        then have "insert_node (te_node te) (te_key te) k v index t1 = Some (JSON_ERR_ALLOC, t1)"
          by (auto simp: insert_node_def split: option.splits)
        then show ?thesis using set_eq ok new(1) rep1 by simp
      qed
    next
      fix a assume a: "chain_find (ht_nodes t1) k (ht_buckets t1 ! index) = Some (Some a)" "a \<in> set xs"
        "key_at (ht_nodes t1) a = k"
      define t2 where "t2 = t1\<lparr>ht_nodes := (ht_nodes t1)(a := map_option (hn_value_update (\<lambda>_. v)) (ht_nodes t1 a))\<rparr>"
      have "table_ok t2 xs \<and> entries_at (ht_nodes t2) xs = al_put k v ps"
        unfolding t2_def ps by (rule replace_rep [OF res(2) a(2,3)])
      then have "represents t2 (al_put k v ps)" unfolding represents_def by metis
      then show ?thesis using set_eq ok a(1) by (simp add: t2_def)
    qed
  qed
qed

section \<open>Reading\<close>

lemma get_rep:
  assumes "represents t ps"
  shows "table_get k t = Some (map_of ps k)"
proof -
  obtain xs where xs: "table_ok t xs" "ps = entries_at (ht_nodes t) xs" using assms by (auto simp: represents_def)
  have dk: "distinct (map fst ps)" using xs by (simp add: table_ok_def entries_at_def comp_def)
  from bucket_find [OF xs(1), of k] show ?thesis
  proof (elim disjE exE conjE)
    assume "chain_find (ht_nodes t) k (ht_buckets t ! hash_function k (length (ht_buckets t))) = Some None"
      and "k \<notin> key_at (ht_nodes t) ` set xs"
    moreover from this have "map_of ps k = None" by (simp add: map_of_eq_None_iff xs(2) keys_of_entries)
    ultimately show ?thesis by (simp add: table_get_def)
  next
    fix a assume a: "chain_find (ht_nodes t) k (ht_buckets t ! hash_function k (length (ht_buckets t))) = Some (Some a)"
      "a \<in> set xs" "key_at (ht_nodes t) a = k"
    then obtain n where n: "ht_nodes t a = Some n" using xs(1) by (auto simp: table_ok_def)
    have "(k, value_at (ht_nodes t) a) \<in> set ps" using a by (auto simp: xs(2) entries_at_def)
    then have "map_of ps k = Some (value_at (ht_nodes t) a)" using dk by simp
    then show ?thesis using a(1) n by (simp add: table_get_def value_at_def)
  qed
qed

lemma entries_rep: "represents t ps \<Longrightarrow> table_entries t = Some ps"
  by (auto simp: represents_def table_entries_def table_ok_def intro: walk_linked)

lemma empty_rep: "represents empty_table []"
  unfolding represents_def
  by (rule exI [of _ "[]"])
    (auto simp: table_ok_def empty_table_def entries_at_def buckets_ok_def BB_JSON_INITIAL_BUCKET_COUNT_def)

section \<open>Removing\<close>

lemma unlink_prev_ok:
  assumes "linked (ht_nodes t) None (ht_order_head t) ys m (hn_order_prev n)" and "distinct ys"
  shows "\<exists>N h. unlink_prev n t = Some (t\<lparr>ht_nodes := N, ht_order_head := h\<rparr>) \<and>
    linked N None h ys (hn_order_next n) (hn_order_prev n) \<and> (\<forall>x. x \<notin> set ys \<longrightarrow> N x = ht_nodes t x) \<and>
    dom N = dom (ht_nodes t) \<and> key_at N = key_at (ht_nodes t) \<and> value_at N = value_at (ht_nodes t)"
proof (cases ys rule: rev_cases)
  case Nil
  with assms(1) have "hn_order_prev n = None" by simp
  then have "unlink_prev n t = Some (t\<lparr>ht_nodes := ht_nodes t, ht_order_head := hn_order_next n\<rparr>)"
    by (simp add: unlink_prev_def)
  with Nil \<open>hn_order_prev n = None\<close> show ?thesis by (intro exI conjI) auto
next
  case (snoc zs z)
  then have p: "hn_order_prev n = Some z" using linked_ends [OF assms(1)] by simp
  obtain n' where n': "ht_nodes t z = Some n'"
    and l: "linked ((ht_nodes t)(z \<mapsto> n'\<lparr>hn_order_next := hn_order_next n\<rparr>)) None (ht_order_head t) ys
      (hn_order_next n) (hn_order_prev n)"
    using relink_last [of "ht_nodes t" None "ht_order_head t" zs z m "hn_order_prev n" "hn_order_next n"] assms snoc
    by auto
  have "unlink_prev n t = Some (t\<lparr>ht_nodes := (ht_nodes t)(z \<mapsto> n'\<lparr>hn_order_next := hn_order_next n\<rparr>),
      ht_order_head := ht_order_head t\<rparr>)"
    using p n' by (simp add: unlink_prev_def)
  moreover have "key_at ((ht_nodes t)(z \<mapsto> n'\<lparr>hn_order_next := hn_order_next n\<rparr>)) = key_at (ht_nodes t)"
    "value_at ((ht_nodes t)(z \<mapsto> n'\<lparr>hn_order_next := hn_order_next n\<rparr>)) = value_at (ht_nodes t)"
    using n' by (simp_all add: key_at_def value_at_def fun_eq_iff)
  moreover have "dom ((ht_nodes t)(z \<mapsto> n'\<lparr>hn_order_next := hn_order_next n\<rparr>)) = dom (ht_nodes t)"
    using n' by auto
  moreover have "\<forall>x. x \<notin> set ys \<longrightarrow> ((ht_nodes t)(z \<mapsto> n'\<lparr>hn_order_next := hn_order_next n\<rparr>)) x = ht_nodes t x"
    by (simp add: snoc)
  ultimately show ?thesis using l by blast
qed

lemma unlink_next_ok:
  assumes "linked (ht_nodes t) pv (hn_order_next n) ys None (ht_order_tail t)" and "distinct ys"
  shows "\<exists>N l. unlink_next n t = Some (t\<lparr>ht_nodes := N, ht_order_tail := l\<rparr>) \<and>
    linked N (hn_order_prev n) (hn_order_next n) ys None l \<and> (\<forall>x. x \<notin> set ys \<longrightarrow> N x = ht_nodes t x) \<and>
    dom N = dom (ht_nodes t) \<and> key_at N = key_at (ht_nodes t) \<and> value_at N = value_at (ht_nodes t)"
proof (cases ys)
  case Nil
  with assms(1) have "hn_order_next n = None" by simp
  then have "unlink_next n t = Some (t\<lparr>ht_nodes := ht_nodes t, ht_order_tail := hn_order_prev n\<rparr>)"
    by (simp add: unlink_next_def)
  with Nil \<open>hn_order_next n = None\<close> show ?thesis by (intro exI conjI) auto
next
  case (Cons z zs)
  then have p: "hn_order_next n = Some z" using linked_ends [OF assms(1)] by simp
  obtain n' where n': "ht_nodes t z = Some n'"
    and l: "linked ((ht_nodes t)(z \<mapsto> n'\<lparr>hn_order_prev := hn_order_prev n\<rparr>)) (hn_order_prev n) (hn_order_next n) ys
      None (ht_order_tail t)"
    using relink_first [of "ht_nodes t" pv "hn_order_next n" z zs None "ht_order_tail t" "hn_order_prev n"] assms Cons
    by auto
  have "unlink_next n t = Some (t\<lparr>ht_nodes := (ht_nodes t)(z \<mapsto> n'\<lparr>hn_order_prev := hn_order_prev n\<rparr>),
      ht_order_tail := ht_order_tail t\<rparr>)"
    using p n' by (simp add: unlink_next_def)
  moreover have "key_at ((ht_nodes t)(z \<mapsto> n'\<lparr>hn_order_prev := hn_order_prev n\<rparr>)) = key_at (ht_nodes t)"
    "value_at ((ht_nodes t)(z \<mapsto> n'\<lparr>hn_order_prev := hn_order_prev n\<rparr>)) = value_at (ht_nodes t)"
    using n' by (simp_all add: key_at_def value_at_def fun_eq_iff)
  moreover have "dom ((ht_nodes t)(z \<mapsto> n'\<lparr>hn_order_prev := hn_order_prev n\<rparr>)) = dom (ht_nodes t)"
    using n' by auto
  moreover have "\<forall>x. x \<notin> set ys \<longrightarrow> ((ht_nodes t)(z \<mapsto> n'\<lparr>hn_order_prev := hn_order_prev n\<rparr>)) x = ht_nodes t x"
    by (simp add: Cons)
  ultimately show ?thesis using l by blast
qed

lemma unlink_ok:
  assumes "linked (ht_nodes t) None (ht_order_head t) (ys @ a # zs) None (ht_order_tail t)"
    and "distinct (ys @ a # zs)" and "ht_nodes t a = Some n"
  shows "\<exists>N h l. Option.bind (unlink_prev n t) (unlink_next n) =
      Some (t\<lparr>ht_nodes := N, ht_order_head := h, ht_order_tail := l\<rparr>) \<and>
    linked N None h (ys @ zs) None l \<and>
    dom N = dom (ht_nodes t) \<and> key_at N = key_at (ht_nodes t) \<and> value_at N = value_at (ht_nodes t)"
proof -
  have ys: "linked (ht_nodes t) None (ht_order_head t) ys (Some a) (hn_order_prev n)"
    and zs: "linked (ht_nodes t) (Some a) (hn_order_next n) zs None (ht_order_tail t)"
    using assms(1,3) by (auto simp: linked_append)
  obtain N h where 1: "unlink_prev n t = Some (t\<lparr>ht_nodes := N, ht_order_head := h\<rparr>)"
    "linked N None h ys (hn_order_next n) (hn_order_prev n)" "\<forall>x. x \<notin> set ys \<longrightarrow> N x = ht_nodes t x"
    "dom N = dom (ht_nodes t)" "key_at N = key_at (ht_nodes t)" "value_at N = value_at (ht_nodes t)"
    using unlink_prev_ok [OF ys] assms(2) by auto
  define t1 where "t1 = t\<lparr>ht_nodes := N, ht_order_head := h\<rparr>"
  have "linked (ht_nodes t1) (Some a) (hn_order_next n) zs None (ht_order_tail t1)"
    using zs 1(3) assms(2) by (subst linked_cong [where N' = "ht_nodes t"]) (auto simp: t1_def)
  from unlink_next_ok [OF this] assms(2) obtain N' l where 2: "unlink_next n t1 = Some (t1\<lparr>ht_nodes := N', ht_order_tail := l\<rparr>)"
    "linked N' (hn_order_prev n) (hn_order_next n) zs None l" "\<forall>x. x \<notin> set zs \<longrightarrow> N' x = N x"
    "dom N' = dom N" "key_at N' = key_at N" "value_at N' = value_at N"
    by (auto simp: t1_def)
  have "linked N' None h ys (hn_order_next n) (hn_order_prev n)"
    using 1(2) 2(3) assms(2) by (subst linked_cong [where N' = N]) auto
  then have "linked N' None h (ys @ zs) None l" using 2(2) by (auto simp: linked_append)
  moreover have "Option.bind (unlink_prev n t) (unlink_next n) =
      Some (t\<lparr>ht_nodes := N', ht_order_head := h, ht_order_tail := l\<rparr>)"
    using 1(1) 2(1) by (simp add: t1_def)
  ultimately show ?thesis using 1(4-6) 2(4-6) by metis
qed

lemma entries_del:
  assumes "distinct (map (key_at N) (ys @ a # zs))" and "key_at N a = k"
  shows "entries_at N (ys @ zs) = al_del k (entries_at N (ys @ a # zs))"
proof -
  have "al_del k (entries_at N xs) = entries_at N xs" if "k \<notin> key_at N ` set xs" for xs
    using that by (induction xs) (auto simp: al_del_def entries_at_def)
  moreover have "k \<notin> key_at N ` set ys" "k \<notin> key_at N ` set zs" using assms by auto
  ultimately have "al_del k (entries_at N ys) = entries_at N ys" "al_del k (entries_at N zs) = entries_at N zs" by blast+
  then show ?thesis using assms(2) by (simp add: al_del_def entries_at_def)
qed

lemma remove_rep:
  assumes "represents t ps"
  shows "\<exists>r t'. table_remove k t = Some (r, t') \<and> represents t' (al_del k ps) \<and>
    (r = JSON_OK \<longleftrightarrow> k \<in> fst ` set ps)"
proof -
  obtain xs where xs: "table_ok t xs" "ps = entries_at (ht_nodes t) xs" using assms by (auto simp: represents_def)
  define N B i where "N = ht_nodes t" and "B = ht_buckets t" and "i = hash_function k (length (ht_buckets t))"
  from bucket_find [OF xs(1), of k, folded i_def] show ?thesis
  proof (elim disjE exE conjE)
    assume f: "chain_find (ht_nodes t) k (ht_buckets t ! i) = Some None" "k \<notin> key_at (ht_nodes t) ` set xs"
    then have no: "k \<notin> fst ` set ps" by (simp add: xs(2) keys_of_entries)
    then have "al_del k ps = ps" by (auto simp: al_del_def intro!: filter_True)
    then show ?thesis using f(1) assms no by (simp add: table_remove_def i_def [symmetric])
  next
    fix a assume f: "chain_find (ht_nodes t) k (ht_buckets t ! i) = Some (Some a)" "a \<in> set xs"
      and k: "key_at (ht_nodes t) a = k"
    obtain n where n: "ht_nodes t a = Some n" using f(2) xs(1) by (auto simp: table_ok_def)
    obtain ys zs where s: "xs = ys @ a # zs" using f(2) by (meson split_list)
    have l: "linked (ht_nodes t) None (ht_order_head t) xs None (ht_order_tail t)" and d: "distinct xs"
      and dom: "dom N = set xs" and c: "ht_item_count t = length xs" and dk: "distinct (map (key_at N) xs)"
      and b: "buckets_ok (key_at N) (set xs) B"
      using xs(1) by (simp_all add: table_ok_def N_def B_def)
    define t1 where "t1 = t\<lparr>ht_buckets := B[i := remove1 a (B ! i)]\<rparr>"
    have "linked (ht_nodes t1) None (ht_order_head t1) (ys @ a # zs) None (ht_order_tail t1)" "ht_nodes t1 a = Some n"
      using l n by (simp_all add: t1_def s)
    from unlink_ok [OF this(1) d [unfolded s] this(2)] obtain N' h l' where
      u: "Option.bind (unlink_prev n t1) (unlink_next n) = Some (t1\<lparr>ht_nodes := N', ht_order_head := h, ht_order_tail := l'\<rparr>)"
      "linked N' None h (ys @ zs) None l'" "dom N' = dom N" "key_at N' = key_at N" "value_at N' = value_at N"
      by (auto simp: t1_def N_def)
    define t2 where "t2 = t1\<lparr>ht_nodes := N'(a := None), ht_order_head := h, ht_order_tail := l',
      ht_item_count := ht_item_count t1 - 1\<rparr>"
    have run: "table_remove k t = Some (JSON_OK, t2)"
      using f(1) n u(1) by (simp add: table_remove_def i_def [symmetric] Let_def t2_def t1_def B_def)
    have same: "key_at (N'(a := None)) x = key_at N x" "value_at (N'(a := None)) x = value_at N x" if "x \<in> set (ys @ zs)" for x
    proof -
      have "x \<noteq> a" using that d s by auto
      then show "key_at (N'(a := None)) x = key_at N x" "value_at (N'(a := None)) x = value_at N x"
        using fun_cong [OF u(4), of x] fun_cong [OF u(5), of x] by (simp_all add: key_at_def value_at_def)
    qed
    have "buckets_ok (key_at (N'(a := None))) (set (ys @ zs)) (B[i := remove1 a (B ! i)])"
      unfolding buckets_ok_def length_list_update
    proof (intro conjI allI impI)
      fix j assume j: "j < length B"
      have Bj: "distinct (B ! j)" "set (B ! j) = {a \<in> set xs. hash_function (key_at N a) (length B) = j}"
        using b j by (simp_all add: buckets_ok_def)
      have upd: "B[i := remove1 a (B ! i)] ! j = (if i = j then remove1 a (B ! j) else B ! j)" using j by simp
      show "distinct (B[i := remove1 a (B ! i)] ! j)" unfolding upd using Bj(1) by simp
      have "{x \<in> set (ys @ zs). hash_function (key_at (N'(a := None)) x) (length B) = j} =
          {x \<in> set (ys @ zs). hash_function (key_at N x) (length B) = j}"
        using same(1) by (metis (lifting))
      also have "\<dots> = {x \<in> set xs. hash_function (key_at N x) (length B) = j} - {a}" using d by (auto simp: s)
      also have "\<dots> = set (B ! j) - {a}" using Bj(2) by simp
      also have "\<dots> = set (if i = j then remove1 a (B ! j) else B ! j)"
      proof (cases "i = j")
        case False
        then have "a \<notin> set (B ! j)" using Bj(2) k by (simp add: i_def B_def N_def)
        with False show ?thesis by simp
      qed (use Bj(1) in simp)
      finally show "set (B[i := remove1 a (B ! i)] ! j) =
          {x \<in> set (ys @ zs). hash_function (key_at (N'(a := None)) x) (length B) = j}"
        unfolding upd by simp
    qed (use b in \<open>simp_all add: buckets_ok_def\<close>)
    moreover have "linked (N'(a := None)) None h (ys @ zs) None l'" using u(2) d s by (simp add: linked_other)
    moreover have "map (key_at (N'(a := None))) (ys @ zs) = map (key_at N) (ys @ zs)"
      by (rule map_cong [OF refl same(1)])
    moreover have "distinct (map (key_at N) (ys @ zs))" using dk by (simp add: s)
    ultimately have "distinct (map (key_at (N'(a := None))) (ys @ zs)) \<and>
        buckets_ok (key_at (N'(a := None))) (set (ys @ zs)) (B[i := remove1 a (B ! i)]) \<and>
        linked (N'(a := None)) None h (ys @ zs) None l'" by (simp only: simp_thms)
    moreover have "dom (N'(a := None)) = set (ys @ zs)" using u(3) dom d by (auto simp: s)
    moreover have "distinct (ys @ zs)" "ht_item_count t - 1 = length (ys @ zs)" using d c by (simp_all add: s)
    moreover have "ht_nodes t2 = N'(a := None)" "ht_order_head t2 = h" "ht_order_tail t2 = l'"
      "ht_item_count t2 = ht_item_count t - 1" "ht_buckets t2 = B[i := remove1 a (B ! i)]"
      by (simp_all add: t2_def t1_def)
    ultimately have "table_ok t2 (ys @ zs)" unfolding table_ok_def by (simp only: simp_thms)
    moreover have "entries_at (N'(a := None)) (ys @ zs) = entries_at N (ys @ zs)"
      unfolding entries_at_def by (rule map_cong [OF refl]) (use same in simp)
    moreover have "entries_at N (ys @ zs) = al_del k ps"
      unfolding xs(2) s N_def by (rule entries_del) (use dk k in \<open>simp_all add: s N_def\<close>)
    ultimately have "represents t2 (al_del k ps)" unfolding represents_def by (intro exI [of _ "ys @ zs"]) (simp add: t2_def)
    then show ?thesis using run f(2) k by (auto simp: xs(2) keys_of_entries)
  qed
qed

section \<open>The interface\<close>

text \<open>The allocator hands out addresses of no live node.\<close>

definition node_fresh :: "table_env \<Rightarrow> 'v json_table \<Rightarrow> bool" where
  "node_fresh te t = (case te_node te of None \<Rightarrow> True | Some a \<Rightarrow> ht_nodes t a = None)"

interpretation objects: ordered_map represents table_set table_remove node_fresh "\<lambda>r. r = JSON_OK"
proof unfold_locales
  show "\<exists>r t'. table_set te k v t = Some (r, t') \<and> represents t' (if r = JSON_OK then al_put k v ps else ps)"
    if "represents t ps" and "node_fresh te t" for t :: "'v json_table" and ps te k v
  proof (rule set_rep [OF that(1)])
    show "\<forall>a. te_node te = Some a \<longrightarrow> ht_nodes t a = None"
      using that(2) by (simp add: node_fresh_def split: option.splits)
  qed
  show "\<exists>r t'. table_remove k t = Some (r, t') \<and> represents t' (al_del k ps)"
    if "represents t ps" for t :: "'v json_table" and ps k
    using remove_rep [OF that, of k] by blast
qed

section \<open>Arrays\<close>

definition array_holds :: "'v json_array \<Rightarrow> 'v list \<Rightarrow> bool" where
  "array_holds a xs \<longleftrightarrow> ja_size a = length xs \<and>
     (case ja_slots a of
        None \<Rightarrow> xs = [] \<and> ja_alloc_size a = 0
      | Some slots \<Rightarrow> length slots = ja_alloc_size a \<and> 0 < ja_alloc_size a \<and> length xs \<le> ja_alloc_size a \<and>
          take (length xs) slots = map Some xs)"

lemma empty_holds: "array_holds empty_array []"
  by (simp add: array_holds_def empty_array_def)

lemma store_holds:
  assumes "array_holds a xs" and "ja_slots a \<noteq> None" and "length xs < ja_alloc_size a"
  shows "\<exists>a'. array_store x a = Some (JSON_OK, a') \<and> array_holds a' (xs @ [x])"
  using assms by (auto simp: array_holds_def array_store_def take_Suc_conv_app_nth split: option.splits)

lemma push_holds:
  assumes "array_holds a xs" and "ok \<or> xs \<noteq> []"
  shows "\<exists>r a'. array_push ok x a = Some (r, a') \<and> array_holds a' (if r = JSON_OK then xs @ [x] else xs) \<and>
    (ok \<longrightarrow> r = JSON_OK)"
proof (cases "ja_alloc_size a = 0")
  case True
  then have xs: "xs = []" "ok" using assms by (auto simp: array_holds_def split: option.splits)
  define a1 where "a1 = a\<lparr>ja_alloc_size := 1, ja_slots := Some [None]\<rparr>"
  have "array_holds a1 []" using assms(1) xs by (simp add: a1_def array_holds_def)
  from store_holds [OF this, of x] obtain a' where "array_store x a1 = Some (JSON_OK, a')" "array_holds a' [x]"
    by (auto simp: a1_def)
  with True xs show ?thesis by (simp add: array_push_def a1_def)
next
  case False
  with assms(1) obtain slots where s: "ja_slots a = Some slots" "length slots = ja_alloc_size a"
    by (auto simp: array_holds_def split: option.splits)
  show ?thesis
  proof (cases "ja_alloc_size a = ja_size a")
    case full: True
    define a1 where "a1 = a\<lparr>ja_alloc_size := ja_alloc_size a * 2,
      ja_slots := Some (slots @ replicate (ja_alloc_size a) None)\<rparr>"
    have "array_holds a1 xs" "ja_slots a1 \<noteq> None" "length xs < ja_alloc_size a1"
      using assms(1) s full False by (auto simp: a1_def array_holds_def)
    from store_holds [OF this, of x] obtain a' where "array_store x a1 = Some (JSON_OK, a')" "array_holds a' (xs @ [x])"
      by blast
    with False full s assms(1) show ?thesis by (auto simp: array_push_def a1_def)
  next
    case room: False
    then have "length xs < ja_alloc_size a" using assms(1) s by (auto simp: array_holds_def)
    from store_holds [OF assms(1) _ this, of x] s(1) obtain a'
      where "array_store x a = Some (JSON_OK, a')" "array_holds a' (xs @ [x])" by auto
    with False room show ?thesis by (simp add: array_push_def)
  qed
qed

lemma get_holds: "array_holds a xs \<Longrightarrow> array_get_index i a = (if i < length xs then Some (xs ! i) else None)"
proof -
  assume h: "array_holds a xs"
  then have "slots ! i = Some (xs ! i)" if "ja_slots a = Some slots" "i < length xs" for slots
    using that nth_take [of i "length xs" slots] by (auto simp: array_holds_def)
  with h show ?thesis by (auto simp: array_get_index_def array_holds_def split: option.splits)
qed

text \<open>The shift moves every later element one slot down.\<close>

lemma shift_spec:
  assumes "m \<le> length s" and "n \<le> length s"
  shows "length (fold (\<lambda>i s. s[i := if i + 1 < n then s ! (i + 1) else d]) [k..<m] s) = length s"
    and "j < length s \<Longrightarrow> fold (\<lambda>i s. s[i := if i + 1 < n then s ! (i + 1) else d]) [k..<m] s ! j =
      (if k \<le> j \<and> j < m then if j + 1 < n then s ! (j + 1) else d else s ! j)"
  using assms
proof (induction m arbitrary: j)
  case (Suc m)
  { case 1 then show ?case using Suc.IH(1) by (cases "k \<le> m") simp_all }
  { case 2 then show ?case using Suc.IH by (cases "k \<le> m") (auto simp: nth_list_update less_Suc_eq) }
qed simp_all

lemma remove_holds:
  assumes "array_holds a xs"
  shows "\<exists>r a'. array_remove_at_index i a = Some (r, a') \<and>
    (if i < length xs then r = JSON_OK \<and> array_holds a' (take i xs @ drop (Suc i) xs)
     else r = JSON_ERR_OVERFLOW \<and> a' = a)"
proof (cases "i < length xs")
  case True
  then obtain slots where s: "ja_slots a = Some slots" "length slots = ja_alloc_size a" "length xs \<le> ja_alloc_size a"
    "take (length xs) slots = map Some xs" "ja_size a = length xs"
    using assms by (auto simp: array_holds_def split: option.splits)
  define slots' where "slots' = fold (\<lambda>i s. s[i := if i + 1 < ja_alloc_size a then s ! (i + 1) else None])
    [i..<ja_size a] slots"
  have l: "length slots' = ja_alloc_size a" unfolding slots'_def by (subst shift_spec(1)) (use s in simp_all)
  have old: "slots ! j = Some (xs ! j)" if "j < length xs" for j
    using that nth_take [of j "length xs" slots] s(4) by simp
  have "slots' ! j = Some ((take i xs @ drop (Suc i) xs) ! j)" if "j < length xs - 1" for j
  proof -
    have "slots' ! j = (if i \<le> j then slots ! (j + 1) else slots ! j)"
      unfolding slots'_def by (subst shift_spec(2)) (use that s True in auto)
    also have "\<dots> = Some (if i \<le> j then xs ! (j + 1) else xs ! j)" using that old by simp
    also have "\<dots> = Some ((take i xs @ drop (Suc i) xs) ! j)" using that True by (simp add: nth_append)
    finally show ?thesis .
  qed
  then have "take (length xs - 1) slots' = map Some (take i xs @ drop (Suc i) xs)"
    using True l s(3) by (intro nth_equalityI) (simp_all del: map_append)
  moreover have "length (take i xs @ drop (Suc i) xs) = length xs - 1" using True by simp
  ultimately have "array_holds (a\<lparr>ja_slots := Some slots', ja_size := ja_size a - 1\<rparr>) (take i xs @ drop (Suc i) xs)"
    using True l s(3,5) unfolding array_holds_def by simp
  then show ?thesis using True s(1,5) by (simp add: array_remove_at_index_def slots'_def)
next
  case False
  then show ?thesis using assms by (simp add: array_remove_at_index_def array_holds_def)
qed

section \<open>Properties\<close>

text \<open>C12: The hash table behind a JSON object is a map that remembers the order of insertion. After any
  sequence of settings and removals on a fresh object, whichever allocations fail and however often
  the table grows and is rehashed, no operation touches a node that is not there, the walk along the
  links gives exactly the entries that the sequence leaves (a new key at the end, a known key where it
  is, a failed setting changing nothing), and a lookup finds exactly the value of its key.\<close>

theorem json_object_is_an_ordered_map:
  assumes "objects.all_usable ops empty_table"
  shows "\<exists>rs t. objects.run ops empty_table = Some (rs, t) \<and> length rs = length ops \<and>
    table_entries t = Some (objects.effects ops rs []) \<and>
    (\<forall>key. table_get key t = Some (map_of (objects.effects ops rs []) key))"
proof -
  obtain rs t where r: "objects.run ops empty_table = Some (rs, t)" "length rs = length ops"
    "represents t (objects.effects ops rs [])"
    using objects.run_rep [OF empty_rep assms] by blast
  then show ?thesis using entries_rep [OF r(3)] get_rep [OF r(3)] by blast
qed

theorem json_object_is_an_ordered_map_witness:
  "\<exists>rs t. objects.run [(''a'', Some (\<lparr>te_grow = True, te_node = Some 1, te_key = True\<rparr>, True)), (''b'', None)] empty_table = Some (rs, t) \<and>
    length rs = 2 \<and> table_get ''a'' t = Some (map_of (objects.effects [(''a'', Some (\<lparr>te_grow = True, te_node = Some 1, te_key = True\<rparr>, True)), (''b'', None)] rs []) ''a'')"
proof -
  have "objects.all_usable [(''a'', Some (\<lparr>te_grow = True, te_node = Some 1, te_key = True\<rparr>, True)), (''b'', None)] empty_table"
    by (simp add: node_fresh_def empty_table_def split: option.split prod.split)
  from json_object_is_an_ordered_map [OF this] show ?thesis by force
qed

text \<open>A JSON array is the list of what was pushed. An array that holds a list, after a push that finds
  memory, holds the list with the element behind it; a push onto a non-empty array that finds none
  fails and changes nothing; an index reads the element there, or nothing at and past the end; removing
  an index takes exactly that element out, or reports the overflow and changes nothing.\<close>

theorem json_array_is_a_list:
  assumes "array_holds a xs"
  shows "(\<exists>a'. array_push True x a = Some (JSON_OK, a') \<and> array_holds a' (xs @ [x])) \<and>
    (\<exists>r a'. array_push (xs = []) x a = Some (r, a') \<and> array_holds a' (if r = JSON_OK then xs @ [x] else xs)) \<and>
    array_get_index i a = (if i < length xs then Some (xs ! i) else None) \<and>
    (\<exists>r a'. array_remove_at_index i a = Some (r, a') \<and>
      array_holds a' (take i xs @ drop (Suc i) xs) \<and> (r = JSON_OK) = (i < length xs))"
proof (intro conjI)
  show "\<exists>a'. array_push True x a = Some (JSON_OK, a') \<and> array_holds a' (xs @ [x])"
    using push_holds [OF assms, of True x] by auto
  show "\<exists>r a'. array_push (xs = []) x a = Some (r, a') \<and> array_holds a' (if r = JSON_OK then xs @ [x] else xs)"
    using push_holds [OF assms, of "xs = []" x] by blast
  show "array_get_index i a = (if i < length xs then Some (xs ! i) else None)" by (rule get_holds [OF assms])
  show "\<exists>r a'. array_remove_at_index i a = Some (r, a') \<and>
      array_holds a' (take i xs @ drop (Suc i) xs) \<and> (r = JSON_OK) = (i < length xs)"
    using remove_holds [OF assms, of i] assms by (cases "i < length xs") auto
qed

theorem json_array_is_a_list_witness:
  "\<exists>a'. array_push True (5::nat) empty_array = Some (JSON_OK, a') \<and> array_holds a' [5]"
  using json_array_is_a_list [OF empty_holds, of "5 :: nat" 0] by simp

text \<open>A push that finds no memory for the first slots leaves the array claiming a slot it does not have:
  the next push, even with memory, writes through the null pointer.\<close>

theorem json_array_push_after_a_failure:
  "\<exists>a. array_push False x empty_array = Some (JSON_ERR_ALLOC, a) \<and> array_push True y a = None"
  by (simp add: array_push_def empty_array_def array_store_def)

end
