(* ===== verification/Json_Real.thy ===== *)
theory Json_Real
  imports C_Strings
begin

text \<open>
  Real numbers of JSON documents (\<open>format_real\<close> of \<open>modules/utils/src/json.c\<close>). A \<open>float\<close> is its
  32 bits. The conversions of the C library that the code calls, \<open>%.*e\<close>, \<open>%.*f\<close>, \<open>atoi\<close> and \<open>strtof\<close>,
  are modelled exactly, on unbounded integers, with the rounding to nearest (ties to even) of IEEE
  754. Magnitudes are counted in units of \<open>2 ^ -149\<close>, the least positive \<open>float\<close>.
\<close>

section \<open>Floats\<close>

definition float_sign :: "u32 \<Rightarrow> bool" where
  "float_sign v = (2 ^ 31 \<le> unat v)"

definition float_mag :: "u32 \<Rightarrow> nat" where
  "float_mag v = unat v mod 2 ^ 31"

definition make_float :: "bool \<Rightarrow> nat \<Rightarrow> u32" where
  "make_float s n = (if s then of_nat (2 ^ 31 + n) else of_nat n)"

definition FLT_MAX :: nat where "FLT_MAX = 0x7F7FFFFF"
definition FLT_INF :: nat where "FLT_INF = 0x7F800000"

text \<open>The value of a finite magnitude: the significand, shifted by the exponent.\<close>

definition mag_exp :: "nat \<Rightarrow> nat" where
  "mag_exp n = n div 2 ^ 23 - 1"

definition mag_units :: "nat \<Rightarrow> nat" where
  "mag_units n = (n - mag_exp n * 2 ^ 23) * 2 ^ mag_exp n"

definition is_nan :: "u32 \<Rightarrow> bool" where
  "is_nan v = (FLT_INF < float_mag v)"

definition float_eq :: "u32 \<Rightarrow> u32 \<Rightarrow> bool" where
  "float_eq v w = (\<not> is_nan v \<and> \<not> is_nan w \<and> (v = w \<or> float_mag v = 0 \<and> float_mag w = 0))"

text \<open>The quotient \<open>a / b\<close> rounded to the nearest integer, and the magnitude nearest to it.\<close>

definition round_div :: "nat \<Rightarrow> nat \<Rightarrow> nat" where
  "round_div a b =
     (let q = a div b; r = a mod b in if 2 * r < b \<or> 2 * r = b \<and> even q then q else q + 1)"

definition nearest_mag :: "nat \<Rightarrow> nat \<Rightarrow> nat" where
  "nearest_mag a b =
     (case find (\<lambda>e. a * 2 ^ 149 < b * 2 ^ (24 + e)) [0..<254] of
        None \<Rightarrow> FLT_INF
      | Some e \<Rightarrow> round_div (a * 2 ^ 149) (b * 2 ^ e) + e * 2 ^ 23)"

section \<open>The C library\<close>

text \<open>The decimal exponent of a magnitude, plus 45.\<close>

definition dec_exp :: "nat \<Rightarrow> nat" where
  "dec_exp n = (case find (\<lambda>x. 10 ^ x * 2 ^ 149 \<le> mag_units n * 10 ^ 45) (rev [0..<84]) of None \<Rightarrow> 0 | Some x \<Rightarrow> x)"

text \<open>The \<open>p + 1\<close> digits of \<open>%.pe\<close> and their exponent, plus 45.\<close>

definition digits_e :: "nat \<Rightarrow> nat \<Rightarrow> nat \<times> nat" where
  "digits_e p n =
     (let x = dec_exp n; d = round_div (mag_units n * 10 ^ (p + 45)) (2 ^ 149 * 10 ^ x)
      in if d = 10 ^ (p + 1) then (10 ^ p, x + 1) else (d, x))"

definition two_digits :: "nat \<Rightarrow> string" where
  "two_digits n = (if n < 10 then CHR ''0'' # show_nat n else show_nat n)"

definition show_sign :: "bool \<Rightarrow> string" where
  "show_sign s = (if s then ''-'' else [])"

definition print_e :: "nat \<Rightarrow> u32 \<Rightarrow> string" where
  "print_e p v =
     (let (d, x) = digits_e p (float_mag v); s = show_nat d
      in show_sign (float_sign v) @ hd s # (if p = 0 then [] else CHR ''.'' # tl s) @
         CHR ''e'' # (if x < 45 then CHR ''-'' # two_digits (45 - x) else CHR ''+'' # two_digits (x - 45)))"

definition pad_zeros :: "nat \<Rightarrow> string \<Rightarrow> string" where
  "pad_zeros w s = replicate (w - length s) CHR ''0'' @ s"

definition print_f :: "nat \<Rightarrow> u32 \<Rightarrow> string" where
  "print_f q v =
     (let d = round_div (mag_units (float_mag v) * 10 ^ q) (2 ^ 149)
      in show_sign (float_sign v) @ show_nat (d div 10 ^ q) @
         (if q = 0 then [] else CHR ''.'' # pad_zeros q (show_nat (d mod 10 ^ q))))"

text \<open>An optional sign, digits, an optional fraction, an optional exponent; the rest of the text.\<close>

definition take_sign :: "string \<Rightarrow> bool \<times> string" where
  "take_sign s =
     (case s of
        [] \<Rightarrow> (False, s)
      | c # t \<Rightarrow> if c = CHR ''-'' then (True, t) else if c = CHR ''+'' then (False, t) else (False, s))"

definition take_digits :: "string \<Rightarrow> string \<times> string" where
  "take_digits s = (takeWhile is_digit s, dropWhile is_digit s)"

definition atoi :: "string \<Rightarrow> int" where
  "atoi s =
     (let (neg, t) = take_sign s; n = int (dec_from 0 (takeWhile is_digit t)) in if neg then - n else n)"

definition take_fraction :: "string \<Rightarrow> string \<times> string" where
  "take_fraction s = (case s of c # t \<Rightarrow> if c = CHR ''.'' then take_digits t else ([], s) | [] \<Rightarrow> ([], s))"

definition take_exponent :: "string \<Rightarrow> int \<times> string" where
  "take_exponent s =
     (case s of
        [] \<Rightarrow> (0, s)
      | c # t \<Rightarrow>
          let (neg, u) = take_sign t; (ds, r) = take_digits u
          in if (c = CHR ''e'' \<or> c = CHR ''E'') \<and> ds \<noteq> []
             then (if neg then - int (dec_from 0 ds) else int (dec_from 0 ds), r) else (0, s))"

definition scaled :: "nat \<Rightarrow> int \<Rightarrow> nat" where
  "scaled d e = (if 0 \<le> e then nearest_mag (d * 10 ^ nat e) 1 else nearest_mag d (10 ^ nat (- e)))"

definition strtof :: "string \<Rightarrow> u32 \<times> string" where
  "strtof s =
     (let (neg, s) = take_sign s; (ip, s) = take_digits s; (fp, s) = take_fraction s; (e, s) = take_exponent s
      in (make_float neg (scaled (dec_from 0 (ip @ fp)) (e - int (length fp))), s))"

section \<open>The formatter\<close>

text \<open>The search for the least number of digits that read back as the number.\<close>

fun find_digits :: "u32 \<Rightarrow> nat list \<Rightarrow> nat" where
  "find_digits v [] = 9"
| "find_digits v (d # ds) =
     (if float_eq (fst (strtof (snprintf 48 (print_e (d - 1) v)))) v then d else find_digits v ds)"

text \<open>The length that \<open>snprintf\<close> reports, and what is in the buffer.\<close>

definition format_real :: "u32 \<Rightarrow> nat \<Rightarrow> nat \<times> string" where
  "format_real v out_size =
     (let put = (\<lambda>s. (length s, snprintf out_size s)) in
      if FLT_MAX < float_mag v then put ''null''
      else if float_mag v = 0 then put (if float_sign v then ''-0.0'' else ''0.0'')
      else let digits = find_digits v [1..<9];
               tmp = snprintf 48 (print_e (digits - 1) v);
               exponent = atoi (tl (dropWhile (\<lambda>c. c \<noteq> CHR ''e'') tmp))
           in if - 5 \<le> exponent \<and> exponent < 9
              then let decimals = nat (int digits - 1 - exponent);
                       s = print_f decimals v;
                       (n, out) = put s
                   in if decimals = 0 \<and> n + 2 < out_size
                      then (n + 2, out @ snprintf (out_size - n) ''.0'') else (n, out)
              else put tmp)"

end
