(* ===== verification/Json.thy ===== *)
theory Json
  imports Json_Table Json_Real
begin

text \<open>
  JSON documents (\<open>modules/utils/src/json.c\<close>): values, the serialiser in both layouts, the parser,
  comparison and copying. An object is the list of its entries in the order of insertion and its
  operations are those of the ordered map that the hash table implements (\<open>Json_Table\<close>); a text without
  a value is \<open>JText None\<close>. Sizes are the unbounded lengths; the results that the code keeps in an \<open>int\<close>
  are checked against its range where they leave the module.
\<close>

section \<open>Values\<close>

datatype json =
    JNull
  | JBool bool
  | JInt u32
  | JReal u32
  | JText "string option"
  | JArray "json list"
  | JObject "(string \<times> json) list"

text \<open>The bits of an \<open>int\<close> and of a \<open>float\<close> are words; \<open>sint\<close> reads the \<open>int\<close>.\<close>

definition INT_MAX :: int where "INT_MAX = 2 ^ 31 - 1"
definition INT_MIN :: int where "INT_MIN = - (2 ^ 31)"

text \<open>\<open>bb_json_set_value_text\<close> on a text node: the error and what the node holds.\<close>

definition set_value_text :: "bool \<Rightarrow> string option \<Rightarrow> json_error \<times> string option" where
  "set_value_text ok value =
     (case value of
        None \<Rightarrow> (JSON_ERR_NULL, None)
      | Some s \<Rightarrow> if ok then (JSON_OK, Some (cstr s)) else (JSON_ERR_ALLOC, None))"

section \<open>Scalars\<close>

datatype json_type =
    BB_JSON_NULL | BB_JSON_BOOL | BB_JSON_INT | BB_JSON_REAL | BB_JSON_TEXT | BB_JSON_ARRAY | BB_JSON_OBJECT |
    BB_JSON_NOT_INITIALIZED

definition bb_json_get_type :: "json option \<Rightarrow> json_type" where
  "bb_json_get_type json =
     (case json of
        None \<Rightarrow> BB_JSON_NOT_INITIALIZED
      | Some j \<Rightarrow>
          (case j of JNull \<Rightarrow> BB_JSON_NULL | JBool _ \<Rightarrow> BB_JSON_BOOL | JInt _ \<Rightarrow> BB_JSON_INT | JReal _ \<Rightarrow> BB_JSON_REAL
           | JText _ \<Rightarrow> BB_JSON_TEXT | JArray _ \<Rightarrow> BB_JSON_ARRAY | JObject _ \<Rightarrow> BB_JSON_OBJECT))"

text \<open>Texts, arrays and objects keep their size in the node; it is 0 for the others.\<close>

definition bb_json_get_size :: "json option \<Rightarrow> nat" where
  "bb_json_get_size json =
     (case json of
        Some (JText (Some s)) \<Rightarrow> length s
      | Some (JArray js) \<Rightarrow> length js
      | Some (JObject ps) \<Rightarrow> length ps
      | _ \<Rightarrow> 0)"

definition bb_json_set_value_bool :: "json \<Rightarrow> bool \<Rightarrow> json_error \<times> json" where
  "bb_json_set_value_bool json v =
     (case json of JBool _ \<Rightarrow> (JSON_OK, JBool v) | _ \<Rightarrow> (JSON_ERR_TYPE_MISMATCH, json))"

definition bb_json_set_value_integer :: "json \<Rightarrow> u32 \<Rightarrow> json_error \<times> json" where
  "bb_json_set_value_integer json v =
     (case json of JInt _ \<Rightarrow> (JSON_OK, JInt v) | _ \<Rightarrow> (JSON_ERR_TYPE_MISMATCH, json))"

definition bb_json_set_value_real :: "json \<Rightarrow> u32 \<Rightarrow> json_error \<times> json" where
  "bb_json_set_value_real json v =
     (case json of JReal _ \<Rightarrow> (JSON_OK, JReal v) | _ \<Rightarrow> (JSON_ERR_TYPE_MISMATCH, json))"

definition bb_json_set_value_text :: "bool \<Rightarrow> json \<Rightarrow> string option \<Rightarrow> json_error \<times> json" where
  "bb_json_set_value_text ok json v =
     (case json of
        JText _ \<Rightarrow> (let (e, t) = set_value_text ok v in (e, JText t))
      | _ \<Rightarrow> (JSON_ERR_TYPE_MISMATCH, json))"

definition bb_json_get_value_bool :: "json \<Rightarrow> bool" where
  "bb_json_get_value_bool json = (case json of JBool v \<Rightarrow> v | _ \<Rightarrow> False)"

definition bb_json_get_value_integer :: "json \<Rightarrow> u32" where
  "bb_json_get_value_integer json = (case json of JInt v \<Rightarrow> v | _ \<Rightarrow> 0)"

definition bb_json_get_value_real :: "json \<Rightarrow> u32" where
  "bb_json_get_value_real json = (case json of JReal v \<Rightarrow> v | _ \<Rightarrow> 0)"

definition bb_json_get_value_text :: "json \<Rightarrow> string option" where
  "bb_json_get_value_text json = (case json of JText t \<Rightarrow> t | _ \<Rightarrow> None)"

section \<open>Writing\<close>

text \<open>
  Where the next byte goes, and the buffer, if there is one. The room that is left is what the buffer
  has behind that place; a write outside it is \<open>None\<close>.
\<close>

type_synonym sink = "nat \<times> string option"

definition write_at :: "nat \<Rightarrow> string \<Rightarrow> string \<Rightarrow> string option" where
  "write_at p s b = (if p + length s \<le> length b then Some (take p b @ s @ drop (p + length s) b) else None)"

text \<open>\<open>snprintf\<close> of a fixed text into the room, or its length when there is no buffer.\<close>

definition emit :: "string \<Rightarrow> sink \<Rightarrow> sink option" where
  "emit s = (\<lambda>(p, out). case out of
     None \<Rightarrow> Some (p + length s, None)
   | Some b \<Rightarrow>
       if length b - p = 0 then Some (p + length s, Some b)
       else map_option (\<lambda>b. (p + length s, Some b)) (write_at p (take (length b - p - 1) s @ [NUL]) b))"

text \<open>\<open>memcpy\<close> of a text with its zero, whatever the room.\<close>

definition emit_raw :: "string \<Rightarrow> sink \<Rightarrow> sink option" where
  "emit_raw s = (\<lambda>(p, out). case out of
     None \<Rightarrow> Some (p + length s, None)
   | Some b \<Rightarrow> map_option (\<lambda>b. (p + length s, Some b)) (write_at p (s @ [NUL]) b))"

text \<open>A text that is written whole or, without the room, as the empty text.\<close>

definition emit_whole :: "string \<Rightarrow> sink \<Rightarrow> sink option" where
  "emit_whole s = (\<lambda>(p, out). case out of
     None \<Rightarrow> Some (p + length s, None)
   | Some b \<Rightarrow>
       if length s < length b - p then map_option (\<lambda>b. (p + length s, Some b)) (write_at p (s @ [NUL]) b)
       else if 0 < length b - p then map_option (\<lambda>b. (p + length s, Some b)) (write_at p [NUL] b)
       else Some (p + length s, Some b))"

section \<open>Strings\<close>

definition hex_digits :: string where "hex_digits = ''0123456789abcdef''"

text \<open>One character of a string body.\<close>

definition short_escape :: "char \<Rightarrow> char option" where
  "short_escape c =
     (if c = CHR 0x5C then Some CHR 0x5C else if c = CHR 0x22 then Some CHR 0x22
      else if c = CHR 0x0A then Some CHR ''n'' else if c = CHR 0x09 then Some CHR ''t''
      else if c = CHR 0x0D then Some CHR ''r'' else if c = CHR 0x08 then Some CHR ''b''
      else if c = CHR 0x0C then Some CHR ''f'' else None)"

definition escape_char :: "char \<Rightarrow> string" where
  "escape_char c =
     (case short_escape c of
        Some e \<Rightarrow> [CHR 0x5C, e]
      | None \<Rightarrow>
          if ord c < 0x20
          then [CHR 0x5C] @ ''u00'' @ [hex_digits ! (ord c div 16), hex_digits ! (ord c mod 16)]
          else [c])"

text \<open>The loop over the bytes: the length, and what was written when there is somewhere to write.\<close>

fun escape_loop :: "string \<Rightarrow> nat \<times> string option \<Rightarrow> nat \<times> string option" where
  "escape_loop [] r = r"
| "escape_loop (c # s) (len, out) =
     escape_loop s (len + length (escape_char c), map_option (\<lambda>o'. o' @ escape_char c) out)"

definition json_escape_string :: "string \<Rightarrow> string option \<Rightarrow> nat \<times> string option" where
  "json_escape_string s out = escape_loop s (0, out)"

definition escaped :: "string \<Rightarrow> string" where
  "escaped s = the (snd (json_escape_string s (Some [])))"

section \<open>The serialiser\<close>

text \<open>One piece of the output after the other.\<close>

fun in_turn :: "(sink \<Rightarrow> sink option) list \<Rightarrow> sink \<Rightarrow> sink option" where
  "in_turn [] s = Some s"
| "in_turn (f # fs) s = Option.bind (f s) (in_turn fs)"

definition emit_if :: "bool \<Rightarrow> string \<Rightarrow> sink \<Rightarrow> sink option" where
  "emit_if b s = (if b then emit s else Some)"

definition emit_tabs :: "bool \<Rightarrow> nat \<Rightarrow> sink \<Rightarrow> sink option" where
  "emit_tabs b n = (if b then in_turn (replicate n (emit [HTAB])) else Some)"

definition serialize_null_json :: "sink \<Rightarrow> sink option" where
  "serialize_null_json = emit_raw ''null''"

definition serialize_bool_json :: "bool \<Rightarrow> sink \<Rightarrow> sink option" where
  "serialize_bool_json b = emit_raw (if b then ''true'' else ''false'')"

definition serialize_int_json :: "u32 \<Rightarrow> sink \<Rightarrow> sink option" where
  "serialize_int_json i = emit (show_int (sint i))"

definition serialize_real_json :: "u32 \<Rightarrow> sink \<Rightarrow> sink option" where
  "serialize_real_json v = emit_whole (snd (format_real v 64))"

definition serialize_text_json :: "string option \<Rightarrow> sink \<Rightarrow> sink option" where
  "serialize_text_json t = emit_whole ([CHR 0x22] @ escaped (case t of None \<Rightarrow> [] | Some s \<Rightarrow> s) @ [CHR 0x22])"

text \<open>A key with its colon, written only when there is room for it and for the zero.\<close>

definition emit_key :: "string \<Rightarrow> sink \<Rightarrow> sink option" where
  "emit_key key = (\<lambda>(p, out).
     let n = fst (json_escape_string key None) in
     case out of
       None \<Rightarrow> Some (p + n + 4, None)
     | Some b \<Rightarrow>
         if n + 4 < length b - p
         then map_option (\<lambda>b. (p + n + 4, Some b))
                (write_at p ([CHR 0x22] @ escaped key @ [CHR 0x22] @ '': '' @ [NUL]) b)
         else Some (p + n + 4, Some b))"

definition is_container :: "json \<Rightarrow> bool" where
  "is_container j = (case j of JArray _ \<Rightarrow> True | JObject _ \<Rightarrow> True | _ \<Rightarrow> False)"

text \<open>
  \<open>m\<close> tells the indenting serialiser from the compact one. An array that holds no container is
  written compactly by both.
\<close>

fun serialize_json :: "bool \<Rightarrow> nat \<Rightarrow> json \<Rightarrow> sink \<Rightarrow> sink option"
  and serialize_elements :: "bool \<Rightarrow> nat \<Rightarrow> json list \<Rightarrow> sink \<Rightarrow> sink option"
  and serialize_members :: "bool \<Rightarrow> nat \<Rightarrow> bool \<Rightarrow> (string \<times> json) list \<Rightarrow> sink \<Rightarrow> sink option" where
  "serialize_json m indent JNull = serialize_null_json"
| "serialize_json m indent (JBool b) = serialize_bool_json b"
| "serialize_json m indent (JInt i) = serialize_int_json i"
| "serialize_json m indent (JReal v) = serialize_real_json v"
| "serialize_json m indent (JText t) = serialize_text_json t"
| "serialize_json m indent (JArray js) =
     (let h = m \<and> list_ex is_container js in
      in_turn [emit ''['', emit_if h [LF], serialize_elements h indent js, emit_tabs h indent, emit '']''])"
| "serialize_json m indent (JObject ps) =
     in_turn [emit ''{'', serialize_members m indent True ps, emit_if m [LF], emit_tabs m indent, emit ''}'']"
| "serialize_elements h indent [] = Some"
| "serialize_elements h indent (j # js) =
     in_turn [emit_tabs h (indent + 1), serialize_json h (indent + 1) j, emit (if js \<noteq> [] then '', '' else []),
              emit_if h [LF], serialize_elements h indent js]"
| "serialize_members m indent first [] = Some"
| "serialize_members m indent first ((k, j) # ps) =
     in_turn [emit_if (\<not> first) '', '', emit_if m [LF], emit_tabs m (indent + 1), emit_key k,
              serialize_json m (indent + 1) j, serialize_members m indent False ps]"

text \<open>
  The public functions: what \<open>*size\<close> and \<open>*buffer\<close> hold, where \<open>None\<close> is a null reference and the inner
  \<open>None\<close> a null buffer. \<open>malloc\<close> gives room with any contents, or fails. A length that does not fit an
  \<open>int\<close> is \<open>None\<close>.
\<close>

definition serialized_size :: "bool \<Rightarrow> json option \<Rightarrow> int option" where
  "serialized_size m json =
     (case json of
        None \<Rightarrow> Some (- 1)
      | Some j \<Rightarrow>
          (case serialize_json m 0 j (0, None) of
             None \<Rightarrow> None
           | Some (n, _) \<Rightarrow> if int n < INT_MAX then Some (int n) else None))"

definition fill_buffer :: "bool \<Rightarrow> json option \<Rightarrow> string \<Rightarrow> string option" where
  "fill_buffer m json b =
     (case json of
        None \<Rightarrow> None
      | Some j \<Rightarrow> Option.bind (serialize_json m 0 j (0, Some b)) snd)"

definition bb_json_serialize ::
  "(nat \<Rightarrow> string option) \<Rightarrow> json option \<Rightarrow> string option option \<Rightarrow> int option \<Rightarrow>
   (json_error \<times> string option option \<times> int option) option" where
  "bb_json_serialize malloc json buffer out_size =
     (case out_size of
        None \<Rightarrow> Some (JSON_ERR_NULL, buffer, out_size)
      | Some _ \<Rightarrow>
          (case serialized_size False json of
             None \<Rightarrow> None
           | Some n \<Rightarrow>
               (case buffer of
                  None \<Rightarrow> Some (JSON_ERR_NULL, buffer, Some n)
                | Some _ \<Rightarrow>
                    if n < 0 then Some (JSON_ERR_NULL, Some None, Some n)
                    else case malloc (nat n + 1) of
                           None \<Rightarrow> Some (JSON_ERR_ALLOC, Some None, Some n)
                         | Some b \<Rightarrow> map_option (\<lambda>b. (JSON_OK, Some (Some b), Some n)) (fill_buffer False json b))))"

definition bb_json_serialize_indented ::
  "(nat \<Rightarrow> string option) \<Rightarrow> json option \<Rightarrow> string option option \<Rightarrow> int option \<Rightarrow>
   (json_error \<times> string option option \<times> int option) option" where
  "bb_json_serialize_indented malloc json buffer out_size =
     (case out_size of
        None \<Rightarrow> Some (JSON_ERR_NULL, buffer, out_size)
      | Some _ \<Rightarrow>
          (case serialized_size True json of
             None \<Rightarrow> None
           | Some n \<Rightarrow>
               (case buffer of
                  None \<Rightarrow> Some (JSON_ERR_NULL, buffer, Some n)
                | Some _ \<Rightarrow>
                    if n < 0 then Some (JSON_ERR_NULL, buffer, Some n)
                    else case malloc (nat n + 1) of
                           None \<Rightarrow> Some (JSON_ERR_ALLOC, buffer, Some n)
                         | Some b \<Rightarrow> map_option (\<lambda>b. (JSON_OK, Some (Some b), Some n)) (fill_buffer True json b))))"

section \<open>Objects and arrays as values\<close>

text \<open>The checks of the public operations; \<open>ok\<close> tells whether their allocations succeed.\<close>

definition bb_json_array_push :: "bool \<Rightarrow> json option \<Rightarrow> json option \<Rightarrow> json_error \<times> json option" where
  "bb_json_array_push ok json_array element =
     (case (json_array, element) of
        (Some a, Some e) \<Rightarrow>
          (case a of
             JArray js \<Rightarrow> if ok then (JSON_OK, Some (JArray (js @ [e]))) else (JSON_ERR_ALLOC, json_array)
           | _ \<Rightarrow> (JSON_ERR_TYPE_MISMATCH, json_array))
      | _ \<Rightarrow> (JSON_ERR_NULL, json_array))"

definition bb_json_object_set_value ::
  "bool \<Rightarrow> json option \<Rightarrow> string option \<Rightarrow> json option \<Rightarrow> json_error \<times> json option" where
  "bb_json_object_set_value ok json_object key value =
     (case (json_object, value, key) of
        (Some a, Some v, Some k) \<Rightarrow>
          (case a of
             JObject ps \<Rightarrow> if ok then (JSON_OK, Some (JObject (al_put k v ps))) else (JSON_ERR_ALLOC, json_object)
           | _ \<Rightarrow> (JSON_ERR_TYPE_MISMATCH, json_object))
      | _ \<Rightarrow> (JSON_ERR_NULL, json_object))"

definition bb_json_object_get_value :: "json option \<Rightarrow> string option \<Rightarrow> json option" where
  "bb_json_object_get_value json_object key =
     (case (json_object, key) of (Some (JObject ps), Some k) \<Rightarrow> map_of ps k | _ \<Rightarrow> None)"

definition bb_json_object_remove_key :: "json option \<Rightarrow> string option \<Rightarrow> json_error \<times> json option" where
  "bb_json_object_remove_key obj key =
     (case (obj, key) of
        (Some a, Some k) \<Rightarrow>
          (case a of
             JObject ps \<Rightarrow>
               if k \<in> fst ` set ps then (JSON_OK, Some (JObject (al_del k ps))) else (JSON_ERR_NOT_FOUND, obj)
           | _ \<Rightarrow> (JSON_ERR_TYPE_MISMATCH, obj))
      | _ \<Rightarrow> (JSON_ERR_NULL, obj))"

section \<open>Copies and comparison\<close>

fun bb_json_clone :: "bool \<Rightarrow> json \<Rightarrow> json option"
  and clone_elements :: "bool \<Rightarrow> json list \<Rightarrow> json list \<Rightarrow> json list option"
  and clone_members :: "bool \<Rightarrow> (string \<times> json) list \<Rightarrow> (string \<times> json) list \<Rightarrow> (string \<times> json) list option" where
  "bb_json_clone ok (JText t) =
     (if \<not> ok then None
      else let (e, t') = set_value_text ok t in if e \<noteq> JSON_OK then None else Some (JText t'))"
| "bb_json_clone ok (JArray js) = (if ok then map_option JArray (clone_elements ok js []) else None)"
| "bb_json_clone ok (JObject ps) = (if ok then map_option JObject (clone_members ok ps []) else None)"
| "bb_json_clone ok j = (if ok then Some j else None)"
| "clone_elements ok [] acc = Some acc"
| "clone_elements ok (j # js) acc =
     (case bb_json_clone ok j of None \<Rightarrow> None | Some c \<Rightarrow> clone_elements ok js (acc @ [c]))"
| "clone_members ok [] acc = Some acc"
| "clone_members ok ((k, j) # ps) acc =
     (case bb_json_clone ok j of None \<Rightarrow> None | Some c \<Rightarrow> clone_members ok ps (al_put k c acc))"

text \<open>\<open>None\<close> is a \<open>strcmp\<close> on a null pointer.\<close>

fun bb_json_equal :: "json \<Rightarrow> json \<Rightarrow> bool option"
  and equal_elements :: "json list \<Rightarrow> json list \<Rightarrow> bool option"
  and equal_members :: "(string \<times> json) list \<Rightarrow> (string \<times> json) list \<Rightarrow> bool option" where
  "bb_json_equal JNull b = Some (b = JNull)"
| "bb_json_equal (JBool x) b = Some (b = JBool x)"
| "bb_json_equal (JInt x) b = Some (b = JInt x)"
| "bb_json_equal (JReal x) b = Some (case b of JReal y \<Rightarrow> float_eq x y | _ \<Rightarrow> False)"
| "bb_json_equal (JText x) b =
     (case b of
        JText y \<Rightarrow> (case (x, y) of (Some x, Some y) \<Rightarrow> Some (cstr x = cstr y) | _ \<Rightarrow> None)
      | _ \<Rightarrow> Some False)"
| "bb_json_equal (JArray js) b =
     (case b of JArray ks \<Rightarrow> if length js \<noteq> length ks then Some False else equal_elements js ks | _ \<Rightarrow> Some False)"
| "bb_json_equal (JObject ps) b =
     (case b of JObject qs \<Rightarrow> if length ps \<noteq> length qs then Some False else equal_members ps qs | _ \<Rightarrow> Some False)"
| "equal_elements [] ks = Some True"
| "equal_elements (j # js) ks =
     (case ks of
        [] \<Rightarrow> Some True
      | k # ks \<Rightarrow> (case bb_json_equal j k of Some True \<Rightarrow> equal_elements js ks | r \<Rightarrow> r))"
| "equal_members [] qs = Some True"
| "equal_members ((k, j) # ps) qs =
     (case map_of qs k of
        None \<Rightarrow> Some False
      | Some v \<Rightarrow> (case bb_json_equal j v of Some True \<Rightarrow> equal_members ps qs | r \<Rightarrow> r))"

fun merge_members :: "bool \<Rightarrow> (string \<times> json) list \<Rightarrow> json option \<Rightarrow> json_error \<times> json option" where
  "merge_members ok [] dst = (JSON_OK, dst)"
| "merge_members ok ((k, j) # ps) dst =
     (case bb_json_clone ok j of
        None \<Rightarrow> (JSON_ERR_ALLOC, dst)
      | Some c \<Rightarrow>
          let (err, dst) = bb_json_object_set_value ok dst (Some k) (Some c)
          in if err \<noteq> JSON_OK then (err, dst) else merge_members ok ps dst)"

definition bb_json_object_merge :: "bool \<Rightarrow> json option \<Rightarrow> json option \<Rightarrow> json_error \<times> json option" where
  "bb_json_object_merge ok dst src =
     (case (dst, src) of
        (Some (JObject _), Some (JObject ps)) \<Rightarrow> merge_members ok ps dst
      | (Some _, Some _) \<Rightarrow> (JSON_ERR_TYPE_MISMATCH, dst)
      | _ \<Rightarrow> (JSON_ERR_NULL, dst))"

end
