(* ===== verification/Json_Parse.thy ===== *)
theory Json_Parse
  imports Json
begin

text \<open>
  The JSON parser of \<open>modules/utils/src/json.c\<close>. An index into the buffer is the rest of the text from
  there on; reading the zero at the end is reading past the list. Every failing allocation makes its
  function, and with it the whole parse, fail, so \<open>mem\<close> tells for each place (the number of bytes left)
  whether the allocations made there succeed.
\<close>

type_synonym mem = "nat \<Rightarrow> bool"

definition BB_JSON_MAX_DEPTH :: nat where "BB_JSON_MAX_DEPTH = 512"

definition white_space :: "char \<Rightarrow> bool" where
  "white_space c \<longleftrightarrow> c = SP \<or> c = HTAB \<or> c = LF \<or> c = CR"

abbreviation skip_ws :: "string \<Rightarrow> string" where
  "skip_ws \<equiv> dropWhile white_space"

section \<open>Literals\<close>

definition literal :: "mem \<Rightarrow> string \<Rightarrow> json \<Rightarrow> string \<Rightarrow> (json \<times> string) option" where
  "literal mem w j s =
     (if take (length w) s = w \<and> mem (length s) then Some (j, drop (length w) s) else None)"

definition parse_json_str_null :: "mem \<Rightarrow> string \<Rightarrow> (json \<times> string) option" where
  "parse_json_str_null mem = literal mem ''null'' JNull"

definition parse_json_str_true :: "mem \<Rightarrow> string \<Rightarrow> (json \<times> string) option" where
  "parse_json_str_true mem = literal mem ''true'' (JBool True)"

definition parse_json_str_false :: "mem \<Rightarrow> string \<Rightarrow> (json \<times> string) option" where
  "parse_json_str_false mem = literal mem ''false'' (JBool False)"

section \<open>Numbers\<close>

definition digit_next :: "string \<Rightarrow> bool" where
  "digit_next s = (case s of [] \<Rightarrow> False | c # t \<Rightarrow> is_digit c)"

definition scan_int :: "string \<Rightarrow> string option" where
  "scan_int s =
     (case s of
        [] \<Rightarrow> None
      | c # t \<Rightarrow>
          if c = CHR ''0'' then if digit_next t then None else Some t
          else if is_digit c then Some (dropWhile is_digit s) else None)"

definition scan_frac :: "string \<Rightarrow> (bool \<times> string) option" where
  "scan_frac s =
     (case s of
        [] \<Rightarrow> Some (False, s)
      | c # t \<Rightarrow>
          if c = CHR ''.'' then if digit_next t then Some (True, dropWhile is_digit t) else None
          else Some (False, s))"

definition scan_exp :: "string \<Rightarrow> (bool \<times> string) option" where
  "scan_exp s =
     (case s of
        [] \<Rightarrow> Some (False, s)
      | c # t \<Rightarrow>
          if c = CHR ''e'' \<or> c = CHR ''E''
          then let u = (case t of [] \<Rightarrow> t | d # t' \<Rightarrow> if d = CHR ''+'' \<or> d = CHR ''-'' then t' else t)
               in if digit_next u then Some (True, dropWhile is_digit u) else None
          else Some (False, s))"

text \<open>The token: whether it is a real, and what follows it.\<close>

definition scan_number :: "string \<Rightarrow> (bool \<times> string) option" where
  "scan_number s =
     (case scan_int (if s \<noteq> [] \<and> hd s = CHR ''-'' then tl s else s) of
        None \<Rightarrow> None
      | Some s1 \<Rightarrow>
          (case scan_frac s1 of
             None \<Rightarrow> None
           | Some (frac, s2) \<Rightarrow>
               (case scan_exp s2 of
                  None \<Rightarrow> None
                | Some (expo, s3) \<Rightarrow> Some (frac \<or> expo, s3))))"

text \<open>\<open>strtol\<close> to base ten: the value, clamped to a \<open>long\<close>, whether it was out of range, the rest.\<close>

definition LONG_MAX :: int where "LONG_MAX = 2 ^ 63 - 1"
definition LONG_MIN :: int where "LONG_MIN = - (2 ^ 63)"

definition strtol :: "string \<Rightarrow> int \<times> bool \<times> string" where
  "strtol s =
     (let (neg, t) = take_sign s; (ds, r) = take_digits t;
          v = (if neg then - int (dec_from 0 ds) else int (dec_from 0 ds))
      in if ds = [] then (0, False, s)
         else if v < LONG_MIN then (LONG_MIN, True, r)
         else if LONG_MAX < v then (LONG_MAX, True, r) else (v, False, r))"

definition parse_json_str_number :: "mem \<Rightarrow> string \<Rightarrow> (json \<times> string) option" where
  "parse_json_str_number mem s =
     (case scan_number s of
        None \<Rightarrow> None
      | Some (is_real, r) \<Rightarrow>
          let num_buff = take (length s - length r) s in
          if \<not> mem (length s) then None
          else if is_real
          then let (value, end) = strtof num_buff
               in if end \<noteq> [] \<or> float_mag value = FLT_INF then None else Some (JReal value, r)
          else let (value, erange, end) = strtol num_buff
               in if erange \<or> end \<noteq> [] \<or> value < INT_MIN \<or> INT_MAX < value then None
                  else Some (JInt (word_of_int value), r))"

section \<open>Strings\<close>

definition hex_char_to_int :: "char \<Rightarrow> nat option" where
  "hex_char_to_int c =
     (if ord CHR ''0'' \<le> ord c \<and> ord c \<le> ord CHR ''9'' then Some (ord c - ord CHR ''0'')
      else if ord CHR ''a'' \<le> ord c \<and> ord c \<le> ord CHR ''f'' then Some (10 + (ord c - ord CHR ''a''))
      else if ord CHR ''A'' \<le> ord c \<and> ord c \<le> ord CHR ''F'' then Some (10 + (ord c - ord CHR ''A''))
      else None)"

text \<open>Four hexadecimal digits; \<open>value << 4 | digit\<close> is \<open>16 * value + digit\<close>.\<close>

fun hex_loop :: "nat \<Rightarrow> nat \<Rightarrow> string \<Rightarrow> nat option" where
  "hex_loop 0 v s = Some v"
| "hex_loop (Suc k) v [] = None"
| "hex_loop (Suc k) v (c # s) =
     (case hex_char_to_int c of None \<Rightarrow> None | Some d \<Rightarrow> hex_loop k (16 * v + d) s)"

definition parse_hex4 :: "string \<Rightarrow> nat option" where
  "parse_hex4 p = hex_loop 4 0 p"

text \<open>The bytes of a code point; the parts that the code joins with \<open>|\<close> do not overlap.\<close>

definition utf8_encode :: "nat \<Rightarrow> string" where
  "utf8_encode cp =
     (if cp < 0x80 then [char_of cp]
      else if cp < 0x800 then [char_of (0xC0 + cp div 64), char_of (0x80 + cp mod 64)]
      else if cp < 0x10000
      then [char_of (0xE0 + cp div 4096), char_of (0x80 + cp div 64 mod 64), char_of (0x80 + cp mod 64)]
      else [char_of (0xF0 + cp div 262144), char_of (0x80 + cp div 4096 mod 64), char_of (0x80 + cp div 64 mod 64),
            char_of (0x80 + cp mod 64)])"

text \<open>Pass 1, from behind the opening quote: what is between the quotes, and what follows.\<close>

fun find_quote :: "string \<Rightarrow> (string \<times> string) option" where
  "find_quote [] = None"
| "find_quote (c # s) =
     (if c = CHR 0x22 then Some ([], s)
      else if c = CHR 0x5C
      then (case s of
              [] \<Rightarrow> None
            | d # t \<Rightarrow> map_option (\<lambda>(b, r). (c # d # b, r)) (find_quote t))
      else map_option (\<lambda>(b, r). (c # b, r)) (find_quote s))"

definition simple_escape :: "char \<Rightarrow> char option" where
  "simple_escape c =
     (if c = CHR 0x22 then Some CHR 0x22 else if c = CHR 0x5C then Some CHR 0x5C else if c = CHR ''/'' then Some CHR ''/''
      else if c = CHR ''b'' then Some CHR 0x08 else if c = CHR ''f'' then Some CHR 0x0C
      else if c = CHR ''n'' then Some CHR 0x0A else if c = CHR ''r'' then Some CHR 0x0D
      else if c = CHR ''t'' then Some CHR 0x09 else None)"

text \<open>
  The code point of \<open>\u\<close> with what follows it, and how many characters it takes: four digits, or with
  a high surrogate a second escape as well.
\<close>

definition unicode_escape :: "string \<Rightarrow> (nat \<times> nat) option" where
  "unicode_escape s =
     (case parse_hex4 s of
        None \<Rightarrow> None
      | Some cp \<Rightarrow>
          if 0xD800 \<le> cp \<and> cp \<le> 0xDBFF
          then if take 2 (drop 4 s) \<noteq> [CHR 0x5C, CHR ''u''] then None
               else (case parse_hex4 (drop 6 s) of
                       None \<Rightarrow> None
                     | Some low \<Rightarrow>
                         if low < 0xDC00 \<or> 0xDFFF < low then None
                         else Some (0x10000 + (cp - 0xD800) * 1024 + (low - 0xDC00), 10))
          else if 0xDC00 \<le> cp \<and> cp \<le> 0xDFFF then None
          else if cp = 0 then None else Some (cp, 4))"

text \<open>
  Pass 2. The byte behind the body is the closing quote, which is no digit, no backslash and no
  escape, so that the reads end with the body.
\<close>

function decode_body :: "string \<Rightarrow> string option" where
  "decode_body [] = Some []"
| "decode_body (c # s) =
     (if ord c < 0x20 then None
      else if c \<noteq> CHR 0x5C then map_option ((#) c) (decode_body s)
      else case s of
             [] \<Rightarrow> None
           | e # t \<Rightarrow>
               (case simple_escape e of
                  Some x \<Rightarrow> map_option ((#) x) (decode_body t)
                | None \<Rightarrow>
                    if e \<noteq> CHR ''u'' then None
                    else case unicode_escape t of
                           None \<Rightarrow> None
                         | Some (cp, n) \<Rightarrow> map_option ((@) (utf8_encode cp)) (decode_body (drop n t))))"
  by pat_completeness auto
termination by (relation "measure length") auto

definition parse_json_string_raw :: "bool \<Rightarrow> string \<Rightarrow> (string \<times> string) option" where
  "parse_json_string_raw ok buffer =
     (case find_quote (tl buffer) of
        None \<Rightarrow> None
      | Some (body, rest) \<Rightarrow>
          if \<not> ok then None else map_option (\<lambda>dst. (dst, rest)) (decode_body body))"

definition parse_json_str_text :: "mem \<Rightarrow> string \<Rightarrow> (json \<times> string) option" where
  "parse_json_str_text mem s =
     map_option (\<lambda>(text', rest). (JText (Some text'), rest)) (parse_json_string_raw (mem (length s)) s)"

section \<open>Containers\<close>

text \<open>
  The loops over elements and members, with the parser of the values inside. Each turn consumes at
  least a character, so that the length of the text is enough fuel.
\<close>

fun parse_elements ::
  "(string \<Rightarrow> (json \<times> string) option) \<Rightarrow> mem \<Rightarrow> nat \<Rightarrow> json list \<Rightarrow> string \<Rightarrow> (json \<times> string) option" where
  "parse_elements child mem 0 js s = None"
| "parse_elements child mem (Suc fuel) js s =
     (if s = [] then None
      else case child s of
             None \<Rightarrow> None
           | Some (j, r) \<Rightarrow>
               if \<not> mem (length r) then None
               else case skip_ws r of
                      [] \<Rightarrow> None
                    | c # t \<Rightarrow>
                        if c = CHR '']'' then Some (JArray (js @ [j]), t)
                        else if c \<noteq> CHR '','' then None
                        else parse_elements child mem fuel (js @ [j]) (skip_ws t))"

definition parse_json_str_array ::
  "(string \<Rightarrow> (json \<times> string) option) \<Rightarrow> mem \<Rightarrow> nat \<Rightarrow> string \<Rightarrow> (json \<times> string) option" where
  "parse_json_str_array child mem depth buffer =
     (if BB_JSON_MAX_DEPTH \<le> depth \<or> \<not> mem (length buffer) then None
      else case skip_ws (tl buffer) of
             [] \<Rightarrow> None
           | c # t \<Rightarrow>
               if c = CHR '']'' then Some (JArray [], t) else parse_elements child mem (length buffer) [] (c # t))"

definition parse_and_add_json_object_pair ::
  "(string \<Rightarrow> (json \<times> string) option) \<Rightarrow> mem \<Rightarrow> (string \<times> json) list \<Rightarrow> string \<Rightarrow> ((string \<times> json) list \<times> string) option" where
  "parse_and_add_json_object_pair child mem ps buffer =
     (if buffer = [] \<or> hd buffer \<noteq> CHR 0x22 then None
      else case parse_json_string_raw (mem (length buffer)) buffer of
             None \<Rightarrow> None
           | Some (key, s) \<Rightarrow>
               (case skip_ws s of
                  [] \<Rightarrow> None
                | c # t \<Rightarrow>
                    if c \<noteq> CHR '':'' then None
                    else case child (skip_ws t) of
                           None \<Rightarrow> None
                         | Some (j, r) \<Rightarrow> if mem (length r) then Some (al_put key j ps, r) else None))"

fun parse_members ::
  "(string \<Rightarrow> (json \<times> string) option) \<Rightarrow> mem \<Rightarrow> nat \<Rightarrow> (string \<times> json) list \<Rightarrow> string \<Rightarrow> (json \<times> string) option" where
  "parse_members child mem 0 ps s = None"
| "parse_members child mem (Suc fuel) ps s =
     (if s = [] then None
      else case parse_and_add_json_object_pair child mem ps s of
             None \<Rightarrow> None
           | Some (ps, r) \<Rightarrow>
               (case skip_ws r of
                  [] \<Rightarrow> None
                | c # t \<Rightarrow>
                    if c = CHR ''}'' then Some (JObject ps, t)
                    else if c \<noteq> CHR '','' then None
                    else parse_members child mem fuel ps (skip_ws t)))"

definition parse_json_str_object ::
  "(string \<Rightarrow> (json \<times> string) option) \<Rightarrow> mem \<Rightarrow> nat \<Rightarrow> string \<Rightarrow> (json \<times> string) option" where
  "parse_json_str_object child mem depth buffer =
     (if BB_JSON_MAX_DEPTH \<le> depth \<or> \<not> mem (length buffer) then None
      else case skip_ws (tl buffer) of
             [] \<Rightarrow> None
           | c # t \<Rightarrow>
               if c = CHR ''}'' then Some (JObject [], t) else parse_members child mem (length buffer) [] (c # t))"

section \<open>Values\<close>

definition parse_json_str_partial ::
  "(string \<Rightarrow> (json \<times> string) option) \<Rightarrow> mem \<Rightarrow> nat \<Rightarrow> string \<Rightarrow> (json \<times> string) option" where
  "parse_json_str_partial child mem depth buffer =
     (case skip_ws buffer of
        [] \<Rightarrow> None
      | c # t \<Rightarrow>
          if c = CHR ''{'' then parse_json_str_object child mem depth (c # t)
          else if c = CHR ''['' then parse_json_str_array child mem depth (c # t)
          else if c = CHR ''n'' then parse_json_str_null mem (c # t)
          else if c = CHR ''t'' then parse_json_str_true mem (c # t)
          else if c = CHR ''f'' then parse_json_str_false mem (c # t)
          else if c = CHR 0x22 then parse_json_str_text mem (c # t)
          else if is_digit c \<or> c = CHR ''-'' \<and> digit_next t then parse_json_str_number mem (c # t)
          else None)"

text \<open>The recursion of the code, by the levels that are left; at the deepest no container is read.\<close>

fun parse_levels :: "mem \<Rightarrow> nat \<Rightarrow> string \<Rightarrow> (json \<times> string) option" where
  "parse_levels mem 0 = parse_json_str_partial (\<lambda>_. None) mem BB_JSON_MAX_DEPTH"
| "parse_levels mem (Suc n) = parse_json_str_partial (parse_levels mem n) mem (BB_JSON_MAX_DEPTH - Suc n)"

definition bb_json_parse :: "mem \<Rightarrow> string option \<Rightarrow> json option" where
  "bb_json_parse mem buffer =
     (case buffer of
        None \<Rightarrow> None
      | Some s \<Rightarrow>
          (case parse_levels mem BB_JSON_MAX_DEPTH (cstr s) of
             None \<Rightarrow> None
           | Some (json, res) \<Rightarrow> if skip_ws res \<noteq> [] then None else Some json))"

section \<open>Files\<close>

text \<open>\<open>bb_json_load\<close>, from what reading the file gave and what its size was said to be.\<close>

definition bb_json_load :: "mem \<Rightarrow> bool \<Rightarrow> string option \<Rightarrow> nat \<Rightarrow> json option" where
  "bb_json_load mem ok contents size' =
     (case contents of
        None \<Rightarrow> None
      | Some buffer \<Rightarrow>
          if \<not> ok \<or> length buffer \<noteq> size' \<or> NUL \<in> set buffer then None
          else bb_json_parse mem
                 (Some (if take 3 buffer = [CHR 0xEF, CHR 0xBB, CHR 0xBF] then drop 3 buffer else buffer)))"

text \<open>
  \<open>bb_json_dump\<close>: the error and, when the file could be opened, what was written to it. \<open>disk\<close> is \<open>None\<close> when \<open>fopen\<close>
  fails and otherwise the number of bytes there is room for: \<open>fwrite\<close> writes no more, and its result is not looked at.
\<close>

definition bb_json_dump :: "(nat \<Rightarrow> string option) \<Rightarrow> nat option \<Rightarrow> json option \<Rightarrow> (json_error \<times> string option) option" where
  "bb_json_dump malloc disk json =
     (case disk of None \<Rightarrow> Some (JSON_ERR_IO, None)
      | Some room \<Rightarrow> case bb_json_serialize_indented malloc json (Some None) (Some 0) of
             None \<Rightarrow> None
           | Some (err, buffer, out_size) \<Rightarrow>
               if err \<noteq> JSON_OK then Some (JSON_ERR_INTERNAL, Some [])
               else Some (JSON_OK, map_option (\<lambda>b. take room (take (nat (the out_size)) b)) (the buffer)))"

end
