(* ===== verification/Json_Print.thy ===== *)
theory Json_Print
  imports Json
begin

text \<open>
  What the serialiser writes: the text \<open>print_json\<close> of a document, its exact length when there is no
  buffer, and exactly that text and a zero when the buffer has the room; no write leaves the buffer.
\<close>

section \<open>The text\<close>

definition tabs :: "bool \<Rightarrow> nat \<Rightarrow> string" where
  "tabs b n = (if b then replicate n HTAB else [])"

definition newline :: "bool \<Rightarrow> string" where
  "newline b = (if b then [LF] else [])"

definition quoted :: "string \<Rightarrow> string" where
  "quoted s = [CHR 0x22] @ concat (map escape_char s) @ [CHR 0x22]"

fun print_json :: "bool \<Rightarrow> nat \<Rightarrow> json \<Rightarrow> string"
  and print_elements :: "bool \<Rightarrow> nat \<Rightarrow> json list \<Rightarrow> string"
  and print_members :: "bool \<Rightarrow> nat \<Rightarrow> bool \<Rightarrow> (string \<times> json) list \<Rightarrow> string" where
  "print_json m i JNull = ''null''"
| "print_json m i (JBool b) = (if b then ''true'' else ''false'')"
| "print_json m i (JInt v) = show_int (sint v)"
| "print_json m i (JReal v) = snd (format_real v 64)"
| "print_json m i (JText t) = quoted (case t of None \<Rightarrow> [] | Some s \<Rightarrow> s)"
| "print_json m i (JArray js) =
     (let h = m \<and> list_ex is_container js
      in ''['' @ newline h @ print_elements h i js @ tabs h i @ '']'')"
| "print_json m i (JObject ps) = ''{'' @ print_members m i True ps @ newline m @ tabs m i @ ''}''"
| "print_elements h i [] = []"
| "print_elements h i (j # js) =
     tabs h (i + 1) @ print_json h (i + 1) j @ (if js \<noteq> [] then '', '' else []) @ newline h @ print_elements h i js"
| "print_members m i first [] = []"
| "print_members m i first ((k, j) # ps) =
     (if first then [] else '', '') @ newline m @ tabs m (i + 1) @ quoted k @ '': '' @
     print_json m (i + 1) j @ print_members m i False ps"

section \<open>Pieces of output\<close>

text \<open>
  A piece adds the text \<open>s\<close>: its length when nothing is written, and the text itself when there is room
  for it and one byte more, behind what is there, with a zero behind it.
\<close>

definition writes :: "(sink \<Rightarrow> sink option) \<Rightarrow> string \<Rightarrow> bool" where
  "writes f s \<longleftrightarrow>
     (\<forall>p. f (p, None) = Some (p + length s, None)) \<and>
     (\<forall>p b. p + length s < length b \<longrightarrow>
        (\<exists>b'. f (p, Some b) = Some (p + length s, Some b') \<and> length b' = length b \<and>
           take (p + length s) b' = take p b @ s \<and>
           (s \<noteq> [] \<or> b ! p = NUL \<longrightarrow> b' ! (p + length s) = NUL)))"

named_theorems pieces \<open>what the pieces of the serialiser add\<close>

lemma write_at_zero:
  assumes "p + length s < length b"
  shows "\<exists>b'. write_at p (s @ [NUL]) b = Some b' \<and> length b' = length b \<and> take (p + length s) b' = take p b @ s \<and>
    b' ! (p + length s) = NUL"
proof -
  define b' where "b' = take p b @ (s @ [NUL]) @ drop (p + length (s @ [NUL])) b"
  have "write_at p (s @ [NUL]) b = Some b'" using assms by (simp add: write_at_def b'_def)
  moreover have "length b' = length b" using assms by (simp add: b'_def)
  moreover have "take (p + length s) b' = take p b @ s" using assms by (simp add: b'_def)
  moreover have "b' ! (p + length s) = NUL" using assms by (simp add: b'_def nth_append)
  ultimately show ?thesis by blast
qed

lemma writes_emit [pieces]: "writes (emit s) s"
  unfolding writes_def
proof (intro conjI allI impI)
  fix p b assume r: "p + length s < length (b :: string)"
  then have "take (length b - p - 1) s = s" by simp
  then have "emit s (p, Some b) = map_option (\<lambda>b. (p + length s, Some b)) (write_at p (s @ [NUL]) b)"
    using r by (simp add: emit_def)
  with write_at_zero [OF r] show "\<exists>b'. emit s (p, Some b) = Some (p + length s, Some b') \<and> length b' = length b \<and>
      take (p + length s) b' = take p b @ s \<and> (s \<noteq> [] \<or> b ! p = NUL \<longrightarrow> b' ! (p + length s) = NUL)"
    by fastforce
qed (simp add: emit_def)

lemma writes_raw [pieces]: "writes (emit_raw s) s"
  unfolding writes_def
proof (intro conjI allI impI)
  fix p b assume r: "p + length s < length (b :: string)"
  have "emit_raw s (p, Some b) = map_option (\<lambda>b. (p + length s, Some b)) (write_at p (s @ [NUL]) b)"
    by (simp add: emit_raw_def)
  with write_at_zero [OF r] show "\<exists>b'. emit_raw s (p, Some b) = Some (p + length s, Some b') \<and> length b' = length b \<and>
      take (p + length s) b' = take p b @ s \<and> (s \<noteq> [] \<or> b ! p = NUL \<longrightarrow> b' ! (p + length s) = NUL)"
    by fastforce
qed (simp add: emit_raw_def)

lemma writes_whole [pieces]: "writes (emit_whole s) s"
  unfolding writes_def
proof (intro conjI allI impI)
  fix p b assume r: "p + length s < length (b :: string)"
  then have "length s < length b - p" by arith
  then have "emit_whole s (p, Some b) = map_option (\<lambda>b. (p + length s, Some b)) (write_at p (s @ [NUL]) b)"
    by (simp add: emit_whole_def)
  with write_at_zero [OF r] show "\<exists>b'. emit_whole s (p, Some b) = Some (p + length s, Some b') \<and> length b' = length b \<and>
      take (p + length s) b' = take p b @ s \<and> (s \<noteq> [] \<or> b ! p = NUL \<longrightarrow> b' ! (p + length s) = NUL)"
    by fastforce
qed (simp add: emit_whole_def)

lemma writes_nothing [pieces]: "writes Some []"
  by (simp add: writes_def)

lemma writes_seq:
  assumes "writes f s" and "writes g t"
  shows "writes (\<lambda>x. Option.bind (f x) g) (s @ t)"
  unfolding writes_def
proof (intro conjI allI impI)
  fix p
  show "Option.bind (f (p, None)) g = Some (p + length (s @ t), None)"
    using assms by (simp add: writes_def add.assoc)
next
  fix p b assume r: "p + length (s @ t) < length (b :: string)"
  then have "p + length s < length b" by simp
  then obtain b1 where b1: "f (p, Some b) = Some (p + length s, Some b1)" "length b1 = length b"
    "take (p + length s) b1 = take p b @ s" "s \<noteq> [] \<or> b ! p = NUL \<longrightarrow> b1 ! (p + length s) = NUL"
    using assms(1) unfolding writes_def by blast
  have "(p + length s) + length t < length b1" using r b1(2) by simp
  then obtain b2 where b2: "g (p + length s, Some b1) = Some (p + length s + length t, Some b2)" "length b2 = length b1"
    "take (p + length s + length t) b2 = take (p + length s) b1 @ t"
    "t \<noteq> [] \<or> b1 ! (p + length s) = NUL \<longrightarrow> b2 ! (p + length s + length t) = NUL"
    using assms(2) unfolding writes_def by blast
  then show "\<exists>b'. Option.bind (f (p, Some b)) g = Some (p + length (s @ t), Some b') \<and> length b' = length b \<and>
      take (p + length (s @ t)) b' = take p b @ s @ t \<and>
      (s @ t \<noteq> [] \<or> b ! p = NUL \<longrightarrow> b' ! (p + length (s @ t)) = NUL)"
    using b1 by (intro exI [of _ b2]) (auto simp: add.assoc)
qed

lemma writes_turn: "list_all2 writes fs ss \<Longrightarrow> writes (in_turn fs) (concat ss)"
proof (induction rule: list_all2_induct)
  case Nil
  then show ?case using writes_nothing by (simp add: writes_def)
next
  case (Cons f fs s ss)
  have "in_turn (f # fs) = (\<lambda>x. Option.bind (f x) (in_turn fs))" by (rule ext) simp
  then show ?case using writes_seq [OF Cons(1) Cons(3)] by simp
qed

lemma writes_if [pieces]: "writes (emit_if b s) (if b then s else [])"
  using writes_emit writes_nothing by (simp add: emit_if_def)

lemma writes_tabs [pieces]: "writes (emit_tabs b n) (tabs b n)"
proof -
  have "writes (in_turn (replicate n (emit [HTAB]))) (concat (replicate n [HTAB]))"
    by (rule writes_turn) (simp add: list_all2_conv_all_nth writes_emit)
  moreover have "concat (replicate n [HTAB]) = replicate n HTAB" by (induction n) auto
  ultimately show ?thesis using writes_nothing by (simp add: emit_tabs_def tabs_def)
qed

lemma escape_loop_eq:
  "escape_loop s (len, out) =
   (len + length (concat (map escape_char s)), map_option (\<lambda>o'. o' @ concat (map escape_char s)) out)"
  by (induction s arbitrary: len out) (auto simp: option.map_comp comp_def option.map_ident)

lemma escaped_eq: "escaped s = concat (map escape_char s)"
  by (simp add: escaped_def json_escape_string_def escape_loop_eq)

lemma escaped_length: "fst (json_escape_string s out) = length (escaped s)"
  by (simp add: escaped_eq json_escape_string_def escape_loop_eq)

lemma writes_key [pieces]: "writes (emit_key k) (quoted k @ '': '')"
  unfolding writes_def
proof (intro conjI allI impI)
  fix p
  show "emit_key k (p, None) = Some (p + length (quoted k @ '': ''), None)"
    by (simp add: emit_key_def escaped_length quoted_def escaped_eq)
next
  fix p b assume r: "p + length (quoted k @ '': '') < length (b :: string)"
  have q: "[CHR 0x22] @ escaped k @ [CHR 0x22] @ '': '' @ [NUL] = (quoted k @ '': '') @ [NUL]"
    by (simp add: quoted_def escaped_eq)
  have n: "length (escaped k) + 4 = length (quoted k @ '': '')" by (simp add: quoted_def escaped_eq)
  have room: "length (quoted k @ '': '') < length b - p" using r by arith
  have "emit_key k (p, Some b) =
      map_option (\<lambda>b. (p + length (quoted k @ '': ''), Some b)) (write_at p ((quoted k @ '': '') @ [NUL]) b)"
    unfolding emit_key_def Let_def prod.case option.case escaped_length add.assoc n q if_P [OF room] by (rule refl)
  with write_at_zero [OF r] show "\<exists>b'. emit_key k (p, Some b) = Some (p + length (quoted k @ '': ''), Some b') \<and>
      length b' = length b \<and> take (p + length (quoted k @ '': '')) b' = take p b @ quoted k @ '': '' \<and>
      (quoted k @ '': '' \<noteq> [] \<or> b ! p = NUL \<longrightarrow> b' ! (p + length (quoted k @ '': '')) = NUL)"
    by fastforce
qed

lemma serialize_writes:
  "writes (serialize_json m i j) (print_json m i j)"
  "writes (serialize_elements m i js) (print_elements m i js)"
  "writes (serialize_members m i first ps) (print_members m i first ps)"
proof (induction m i j and m i js and m i first ps rule: serialize_json_serialize_elements_serialize_members.induct)
  case (1 m i) then show ?case by (simp add: serialize_null_json_def pieces)
next
  case (2 m i b) then show ?case by (simp add: serialize_bool_json_def pieces)
next
  case (3 m i v) then show ?case by (simp add: serialize_int_json_def pieces)
next
  case (4 m i v) then show ?case by (simp add: serialize_real_json_def pieces)
next
  case (5 m i t)
  then show ?case using writes_whole by (simp add: serialize_text_json_def escaped_eq quoted_def)
next
  case (6 m i js)
  define h where "h \<longleftrightarrow> m \<and> list_ex is_container js"
  have "writes (in_turn [emit ''['', emit_if h [LF], serialize_elements h i js, emit_tabs h i, emit '']''])
      (concat [''['', newline h, print_elements h i js, tabs h i, '']''])"
    by (rule writes_turn) (use 6 in \<open>simp add: pieces h_def newline_def\<close>)
  then show ?case by (simp add: h_def Let_def del: in_turn.simps)
next
  case (7 m i ps)
  have "writes (in_turn [emit ''{'', serialize_members m i True ps, emit_if m [LF], emit_tabs m i, emit ''}''])
      (concat [''{'', print_members m i True ps, newline m, tabs m i, ''}''])"
    by (rule writes_turn) (use 7 in \<open>simp add: pieces newline_def\<close>)
  then show ?case by (simp del: in_turn.simps)
next
  case (8 h i) then show ?case by (simp add: pieces)
next
  case (9 h i j js)
  have "writes (in_turn [emit_tabs h (i + 1), serialize_json h (i + 1) j, emit (if js \<noteq> [] then '', '' else []),
              emit_if h [LF], serialize_elements h i js])
      (concat [tabs h (i + 1), print_json h (i + 1) j, if js \<noteq> [] then '', '' else [], newline h, print_elements h i js])"
    by (rule writes_turn) (use 9 in \<open>simp add: pieces newline_def\<close>)
  then show ?case by (simp del: in_turn.simps)
next
  case (10 m i first) then show ?case by (simp add: pieces)
next
  case (11 m i first k j ps)
  have "writes (in_turn [emit_if (\<not> first) '', '', emit_if m [LF], emit_tabs m (i + 1), emit_key k,
              serialize_json m (i + 1) j, serialize_members m i False ps])
      (concat [if \<not> first then '', '' else [], newline m, tabs m (i + 1), quoted k @ '': '', print_json m (i + 1) j,
         print_members m i False ps])"
    by (rule writes_turn) (use 11 in \<open>simp add: pieces newline_def\<close>)
  then show ?case by (simp add: if_distrib del: in_turn.simps split: if_splits)
qed

end
