(* ===== verification/Json_Real_Facts.thy ===== *)
theory Json_Real_Facts
  imports Json_Real
begin

text \<open>
  What \<open>format_real\<close> writes reads back as the same number: nine significant digits determine a
  \<open>float\<close>, and the fixed notation has the value of the digits it was chosen for.
\<close>

section \<open>Rounding\<close>

lemma round_div_bounds:
  assumes "0 < b"
  shows "2 * round_div a b * b \<le> 2 * a + b" and "2 * a \<le> 2 * round_div a b * b + b"
proof -
  define q r where "q = a div b" and "r = a mod b"
  have a: "a = q * b + r" and r: "r < b" using assms by (simp_all add: q_def r_def)
  show "2 * round_div a b * b \<le> 2 * a + b" "2 * a \<le> 2 * round_div a b * b + b"
    unfolding round_div_def Let_def q_def [symmetric] r_def [symmetric] using r by (auto simp: a algebra_simps)
qed

lemma round_div_unique:
  assumes "2 * q * b < 2 * a + b" and "2 * a < 2 * q * b + b"
  shows "round_div a b = q"
proof (rule ccontr)
  have b: "0 < b" using assms by linarith
  note bounds = round_div_bounds [OF b, of a]
  assume "round_div a b \<noteq> q"
  then consider "round_div a b + 1 \<le> q" | "q + 1 \<le> round_div a b" by linarith
  then show False
  proof cases
    case 1
    then have "(round_div a b + 1) * b \<le> q * b" by (rule mult_right_mono) simp
    then show False using bounds(2) assms(1) by (simp add: algebra_simps)
  next
    case 2
    then have "(q + 1) * b \<le> round_div a b * b" by (rule mult_right_mono) simp
    then show False using bounds(1) assms(2) by (simp add: algebra_simps)
  qed
qed

lemma round_div_exact: "0 < b \<Longrightarrow> round_div (q * b) b = q"
  by (rule round_div_unique) (simp_all add: algebra_simps)

lemma round_div_cancel:
  assumes "0 < c"
  shows "round_div (a * c) (b * c) = round_div a b"
proof -
  have "(a * c) div (b * c) = a div b" "(a * c) mod (b * c) = a mod b * c"
    using assms by (simp_all add: mod_mult_mult2)
  moreover have "2 * (a mod b * c) < b * c \<longleftrightarrow> 2 * (a mod b) < b"
  proof -
    have "2 * (a mod b * c) = (2 * (a mod b)) * c" by simp
    then show ?thesis using assms by (simp only: mult_less_cancel2 simp_thms)
  qed
  moreover have "2 * (a mod b * c) = b * c \<longleftrightarrow> 2 * (a mod b) = b"
  proof -
    have "2 * (a mod b * c) = (2 * (a mod b)) * c" by simp
    then show ?thesis using assms by (simp only: mult_cancel2) simp
  qed
  ultimately show ?thesis by (simp add: round_div_def Let_def)
qed

lemma nearest_mag_cancel:
  assumes "0 < c"
  shows "nearest_mag (a * c) (b * c) = nearest_mag a b"
proof -
  have "a * c * 2 ^ 149 < b * c * 2 ^ (24 + e) \<longleftrightarrow> a * 2 ^ 149 < b * 2 ^ (24 + e)" for e
  proof -
    have "a * c * 2 ^ 149 = (a * 2 ^ 149) * c" "b * c * 2 ^ (24 + e) = (b * 2 ^ (24 + e)) * c" by simp_all
    then show ?thesis using assms by (simp only: mult_less_cancel2 simp_thms)
  qed
  moreover have "round_div (a * c * 2 ^ 149) (b * c * 2 ^ e) = round_div (a * 2 ^ 149) (b * 2 ^ e)" for e
    using round_div_cancel [OF assms, of "a * 2 ^ 149" "b * 2 ^ e"] by (simp add: mult.assoc mult.commute mult.left_commute)
  ultimately show ?thesis unfolding nearest_mag_def by (simp only:)
qed

section \<open>Magnitudes\<close>

text \<open>The significand and the exponent of a finite magnitude.\<close>

lemma mag_parts:
  assumes "n \<le> FLT_MAX"
  obtains m e where "n = m + e * 2 ^ 23" and "mag_units n = m * 2 ^ e" and "m < 2 ^ 24"
    and "e = 0 \<or> 2 ^ 23 \<le> m" and "e < 254"
proof
  define e where "e = mag_exp n"
  show "n = (n - e * 2 ^ 23) + e * 2 ^ 23" by (simp add: e_def mag_exp_def) 
  show "mag_units n = (n - e * 2 ^ 23) * 2 ^ e" by (simp add: mag_units_def e_def)
  show "n - e * 2 ^ 23 < 2 ^ 24" by (simp add: e_def mag_exp_def)
  show "e = 0 \<or> 2 ^ 23 \<le> n - e * 2 ^ 23"
  proof (cases "n div 2 ^ 23 \<le> 1")
    case False
    then have "(n div 2 ^ 23 - 1) * 2 ^ 23 + 2 ^ 23 = n div 2 ^ 23 * 2 ^ 23" by (simp add: diff_mult_distrib)
    then show ?thesis using div_times_less_eq_dividend [of n "2 ^ 23"] unfolding e_def mag_exp_def by linarith
  qed (simp add: e_def mag_exp_def)
  show "e < 254" using assms by (simp add: e_def mag_exp_def FLT_MAX_def)
qed

lemma find_upt:
  assumes "e < n" and "P e" and "\<And>d. d < e \<Longrightarrow> \<not> P d"
  shows "find P [0..<n] = Some e"
  unfolding find_Some_iff by (rule exI [of _ e]) (use assms in simp)

text \<open>A quotient that is less than a quarter of a step away from a magnitude is rounded to it.\<close>

lemma nearest_mag_near:
  assumes n: "n = m + e * 2 ^ 23" "m < 2 ^ 24" "e = 0 \<or> 2 ^ 23 \<le> m" "e < 254"
    and b: "0 < b"
    and lo: "4 * (m * 2 ^ e * b) < 4 * (a * 2 ^ 149) + 2 ^ e * b"
    and hi: "4 * (a * 2 ^ 149) < 4 * (m * 2 ^ e * b) + 2 ^ e * b"
  shows "nearest_mag a b = n"
proof -
  define A where "A = a * 2 ^ 149"
  have below: "A < b * 2 ^ (24 + e)"
  proof -
    have "4 * (m * 2 ^ e * b) + 2 ^ e * b = (4 * m + 1) * (2 ^ e * b)" by (simp add: algebra_simps)
    also have "\<dots> \<le> (4 * 2 ^ 24) * (2 ^ e * b)" using n(2) by (intro mult_right_mono) simp_all
    also have "\<dots> = 4 * (b * 2 ^ (24 + e))" by (simp add: power_add)
    finally show ?thesis using hi by (simp add: A_def)
  qed
  show ?thesis
  proof (cases "e = 0 \<or> b * 2 ^ (23 + e) \<le> A")
    case True
    have "\<not> A < b * 2 ^ (24 + d)" if "d < e" for d
    proof -
      have "b * 2 ^ (24 + d) \<le> b * 2 ^ (23 + e)" using that by (intro mult_left_mono power_increasing) simp_all
      also have "\<dots> \<le> A" using True that by auto
      finally show ?thesis by linarith
    qed
    then have "find (\<lambda>e. A < b * 2 ^ (24 + e)) [0..<254] = Some e"
      using n(4) below by (intro find_upt) auto
    moreover have "round_div A (b * 2 ^ e) = m"
      by (rule round_div_unique) (use lo hi in \<open>simp_all add: A_def algebra_simps\<close>)
    ultimately show ?thesis using n(1) by (simp add: nearest_mag_def A_def)
  next
    case False
    then have e: "0 < e" "A < b * 2 ^ (23 + e)" by simp_all
    then obtain d where d: "e = Suc d" by (cases e) auto
    have "4 * m * (2 ^ e * b) < (4 * 2 ^ 23 + 1) * (2 ^ e * b)"
    proof -
      have "4 * A < 4 * (b * 2 ^ (23 + e))" using e(2) by simp
      also have "\<dots> = 4 * 2 ^ 23 * (2 ^ e * b)" by (simp add: power_add)
      finally have "4 * A < 4 * 2 ^ 23 * (2 ^ e * b)" .
      moreover have "4 * (m * (2 ^ e * b)) < 4 * A + 2 ^ e * b" using lo by (simp only: A_def mult.assoc)
      moreover have "(4 * 2 ^ 23 + 1) * (2 ^ e * b) = 4 * 2 ^ 23 * (2 ^ e * b) + 2 ^ e * b"
        by (simp only: distrib_right mult_1)
      ultimately show ?thesis by (simp only: mult.assoc)
    qed

    then have "4 * m < 4 * 2 ^ 23 + 1" using mult_less_cancel2 by blast
    then have m: "m = 2 ^ 23" using n(3) e(1) by simp
    have "\<not> A < b * 2 ^ (24 + d')" if "d' < d" for d'
    proof -
      have "4 * (b * 2 ^ (24 + d')) \<le> 4 * (b * 2 ^ (22 + e))"
        using that d by (intro mult_left_mono power_increasing) simp_all
      also have "\<dots> = 4 * 2 ^ 22 * (2 ^ e * b)" by (simp add: power_add)
      also have "\<dots> \<le> (4 * m - 1) * (2 ^ e * b)" unfolding m by (intro mult_right_mono) simp_all
      also have "\<dots> \<le> 4 * A" using lo m by (simp add: A_def algebra_simps)
      finally show ?thesis by simp
    qed
    moreover have "A < b * 2 ^ (24 + d)" using e(2) d by simp
    ultimately have "find (\<lambda>e. A < b * 2 ^ (24 + e)) [0..<254] = Some d"
      using n(4) d by (intro find_upt) auto
    moreover have "round_div A (b * 2 ^ d) = 2 * m"
      by (rule round_div_unique) (use lo hi in \<open>simp_all add: A_def d algebra_simps\<close>)
    ultimately have "nearest_mag a b = 2 * m + d * 2 ^ 23" by (simp add: nearest_mag_def A_def)
    then show ?thesis using n(1) by (simp add: m d)
  qed
qed

section \<open>Decimal digits\<close>

lemma show_nat_add: "k < 10 \<Longrightarrow> 0 < n \<Longrightarrow> show_nat (10 * n + k) = show_nat n @ [char_of (48 + k)]"
  by (subst show_nat.simps) simp

lemma length_show_nat:
  assumes "10 ^ p \<le> d" and "d < 10 ^ (p + 1)"
  shows "length (show_nat d) = p + 1"
  using assms
proof (induction p arbitrary: d)
  case 0
  then show ?case by (simp add: show_nat.simps [of d])
next
  case (Suc p)
  then have "10 ^ p \<le> d div 10" "d div 10 < 10 ^ (p + 1)" by (simp_all add: div_le_mono less_eq_div_iff_mult_less_eq mult.commute less_mult_imp_div_less)
  moreover from Suc.prems have "\<not> d < 10" by (meson le_less_trans not_less one_le_power one_le_numeral self_le_power zero_less_Suc)
  ultimately show ?case using Suc.IH by (simp add: show_nat.simps [of d])
qed

lemma show_nat_bound: "d < 10 ^ (p + 1) \<Longrightarrow> length (show_nat d) \<le> p + 1"
proof (induction p arbitrary: d)
  case (Suc p)
  show ?case
  proof (cases "d < 10")
    case False
    from Suc.prems have "d div 10 < 10 ^ (p + 1)" by (simp add: less_mult_imp_div_less mult.commute)
    from Suc.IH [OF this] False show ?thesis by (simp add: show_nat.simps [of d])
  qed (simp add: show_nat.simps [of d])
next
  case 0
  then show ?case by (simp add: show_nat.simps [of d])
qed

lemma dec_from_shift: "dec_from n s = n * 10 ^ length s + dec_from 0 s"
proof (induction s arbitrary: n)
  case (Cons c s)
  have "dec_from n (c # s) = dec_from (10 * n + digit_val c) s" "dec_from 0 (c # s) = dec_from (digit_val c) s"
    by (simp_all add: dec_from_def)
  then show ?case using Cons [of "10 * n + digit_val c"] Cons [of "digit_val c"] by (simp add: algebra_simps)
qed (simp add: dec_from_def)

lemma dec_from_zeros: "dec_from 0 (replicate k CHR ''0'' @ s) = dec_from 0 s"
  by (induction k) (simp_all add: dec_from_def digit_val_def)

lemma dec_exp_spec:
  assumes "0 < n" and "n \<le> FLT_MAX"
  shows "10 ^ dec_exp n * 2 ^ 149 \<le> mag_units n * 10 ^ 45" and "mag_units n * 10 ^ 45 < 10 ^ (dec_exp n + 1) * 2 ^ 149"
    and "dec_exp n < 84"
proof -
  obtain m e where p: "n = m + e * 2 ^ 23" "mag_units n = m * 2 ^ e" "m < 2 ^ 24" "e = 0 \<or> 2 ^ 23 \<le> m" "e < 254"
    using mag_parts [OF assms(2)] by metis
  then have "0 < mag_units n" using assms(1) by auto
  then have low: "10 ^ 0 * 2 ^ 149 \<le> mag_units n * 10 ^ 45" by simp
  have "mag_units n < 2 ^ 24 * 2 ^ 253"
    unfolding p(2) using p(3,5) by (intro mult_less_le_imp_less power_increasing) simp_all
  then have "mag_units n * 10 ^ 45 < 2 ^ 24 * 2 ^ 253 * 10 ^ 45" by simp
  also have "\<dots> < 10 ^ 84 * 2 ^ 149" by simp
  finally have high: "mag_units n * 10 ^ 45 < 10 ^ 84 * 2 ^ 149" .
  define P where "P = (\<lambda>x::nat. 10 ^ x * 2 ^ 149 \<le> mag_units n * 10 ^ 45)"
  obtain x where x: "find P (rev [0..<84]) = Some x"
  proof (cases "find P (rev [0..<84])")
    case None
    have "P 0" unfolding P_def by (rule low)
    moreover have "0 \<in> set (rev [0..<84])" by simp
    ultimately show ?thesis using None unfolding find_None_iff by blast
  qed blast
  then obtain i where i: "i < 84" "P (rev [0..<84] ! i)" "x = rev [0..<84] ! i" "\<forall>j<i. \<not> P (rev [0..<84] ! j)"
    unfolding find_Some_iff by auto
  then have xi: "x = 83 - i" by (simp add: rev_nth)
  have "dec_exp n = x" using x by (simp add: dec_exp_def P_def)
  moreover have "P x" "x < 84" using i xi by auto
  moreover have "\<not> P (x + 1)"
  proof (cases i)
    case 0
    then show ?thesis using high xi by (simp add: P_def)
  next
    case (Suc j)
    then have "\<not> P (rev [0..<84] ! j)" using i by simp
    moreover have "rev [0..<84] ! j = x + 1" using Suc xi i(1) by (simp add: rev_nth)
    ultimately show ?thesis by simp
  qed
  ultimately show "10 ^ dec_exp n * 2 ^ 149 \<le> mag_units n * 10 ^ 45" "mag_units n * 10 ^ 45 < 10 ^ (dec_exp n + 1) * 2 ^ 149"
    "dec_exp n < 84" unfolding P_def by simp_all
qed

lemma digits_e_spec:
  assumes "0 < n" and "n \<le> FLT_MAX" and "digits_e p n = (d, x)"
  shows "10 ^ p \<le> d" and "d < 10 ^ (p + 1)" and "x \<le> 84"
    and "2 * (d * 10 ^ x * 2 ^ 149) \<le> 2 * (mag_units n * 10 ^ (p + 45)) + mag_units n * 10 ^ 45"
    and "2 * (mag_units n * 10 ^ (p + 45)) \<le> 2 * (d * 10 ^ x * 2 ^ 149) + mag_units n * 10 ^ 45"
proof -
  define y where "y = dec_exp n"
  define c where "c = (2::nat) ^ 149 * 10 ^ y"
  define d' where "d' = round_div (mag_units n * 10 ^ (p + 45)) c"
  note y = dec_exp_spec [OF assms(1,2), folded y_def]
  have c: "0 < c" by (simp add: c_def)
  have yc: "c \<le> mag_units n * 10 ^ 45" using y(1) by (simp add: c_def mult.commute)
  note r = round_div_bounds [OF c, of "mag_units n * 10 ^ (p + 45)", folded d'_def]
  have val: "d * 10 ^ x = d' * 10 ^ y" and dx: "d = (if d' = 10 ^ (p + 1) then 10 ^ p else d')" "x \<le> y + 1"
    using assms(3) by (auto simp: digits_e_def d'_def y_def c_def Let_def split: if_splits)
  have "d * 10 ^ x * 2 ^ 149 = d' * c" unfolding val by (simp add: c_def)
  then show "2 * (d * 10 ^ x * 2 ^ 149) \<le> 2 * (mag_units n * 10 ^ (p + 45)) + mag_units n * 10 ^ 45"
    and "2 * (mag_units n * 10 ^ (p + 45)) \<le> 2 * (d * 10 ^ x * 2 ^ 149) + mag_units n * 10 ^ 45"
    using r yc by (simp_all only: mult.assoc)
  show "x \<le> 84" using dx(2) y(3) by simp
  have lo: "10 ^ p * c \<le> mag_units n * 10 ^ (p + 45)"
    using mult_left_mono [OF yc, of "10 ^ p"] by (simp add: power_add mult.left_commute)
  have hi: "mag_units n * 10 ^ (p + 45) < 10 ^ (p + 1) * c"
  proof -
    have "mag_units n * 10 ^ (p + 45) = mag_units n * 10 ^ 45 * 10 ^ p" by (simp only: power_add mult_ac)
    also have "\<dots> < 10 ^ (y + 1) * 2 ^ 149 * 10 ^ p" using y(2) by simp
    also have "\<dots> = 10 ^ (p + 1) * c" by (simp add: c_def)
    finally show ?thesis .
  qed
  have "10 ^ p \<le> d'"
  proof (rule ccontr)
    assume "\<not> 10 ^ p \<le> d'"
    then have "(d' + 1) * c \<le> 10 ^ p * c" by (intro mult_right_mono) simp_all
    then show False using r(2) lo c by (simp add: algebra_simps)
  qed
  moreover have "d' \<le> 10 ^ (p + 1)"
  proof (rule ccontr)
    assume "\<not> d' \<le> 10 ^ (p + 1)"
    then have "(10 ^ (p + 1) + 1) * c \<le> d' * c" by (intro mult_right_mono) simp_all
    then show False using r(1) hi c by (simp add: algebra_simps)
  qed
  ultimately show "10 ^ p \<le> d" "d < 10 ^ (p + 1)" using dx(1) by (auto split: if_splits)
qed

section \<open>Nine digits\<close>

lemma scaled_shift: "scaled d (int x - int y) = nearest_mag (d * 10 ^ x) (10 ^ y)"
proof (cases "y \<le> x")
  case True
  then have "nearest_mag (d * 10 ^ x) (10 ^ y) = nearest_mag (d * 10 ^ (x - y) * 10 ^ y) (1 * 10 ^ y)"
    by (simp add: mult.assoc flip: power_add)
  also have "\<dots> = nearest_mag (d * 10 ^ (x - y)) 1" by (rule nearest_mag_cancel) simp
  finally show ?thesis using True by (simp add: scaled_def nat_diff_distrib')
next
  case False
  then have "nearest_mag (d * 10 ^ x) (10 ^ y) = nearest_mag (d * 10 ^ x) (10 ^ (y - x) * 10 ^ x)"
    by (simp flip: power_add)
  also have "\<dots> = nearest_mag d (10 ^ (y - x))" by (rule nearest_mag_cancel) simp
  finally show ?thesis using False by (simp add: scaled_def nat_diff_distrib')
qed

lemma nine_digits:
  assumes "0 < n" and "n \<le> FLT_MAX" and "digits_e 8 n = (d, x)"
  shows "scaled d (int x - 53) = n"
proof -
  obtain m e where p: "n = m + e * 2 ^ 23" "mag_units n = m * 2 ^ e" "m < 2 ^ 24" "e = 0 \<or> 2 ^ 23 \<le> m" "e < 254"
    using mag_parts [OF assms(2)] by metis
  define u v t where "u = m * 2 ^ e" and "v = d * 10 ^ x" and "t = (2::nat) ^ e"
  note b = digits_e_spec(4,5) [OF assms, unfolded p(2), folded u_def v_def]
  have "2 * m * t < 10 ^ 8 * t" using p(3) by (intro mult_strict_right_mono) (simp_all add: t_def)
  then have small: "2 * u < 10 ^ 8 * t" by (simp add: u_def t_def)
  have "4 * (u * 10 ^ 53) < 4 * (v * 2 ^ 149) + t * 10 ^ 53" "4 * (v * 2 ^ 149) < 4 * (u * 10 ^ 53) + t * 10 ^ 53"
    using b small by simp_all
  then have "nearest_mag v (10 ^ 53) = n"
    unfolding u_def t_def by (intro nearest_mag_near [OF p(1) p(3-5)]) simp_all
  then show ?thesis using scaled_shift [of d x 53] by (simp add: v_def)
qed

section \<open>The fixed notation\<close>

lemma mag_units_make:
  assumes "m \<le> 2 ^ 24" and "e = 0 \<or> 2 ^ 23 \<le> m"
  shows "mag_units (m + e * 2 ^ 23) = m * 2 ^ e"
proof (cases "m = 2 ^ 24")
  case True
  then have "(m + e * 2 ^ 23) div 2 ^ 23 = e + 2" by simp
  then have "mag_exp (m + e * 2 ^ 23) = e + 1" by (simp add: mag_exp_def)
  with True show ?thesis by (simp add: mag_units_def)
next
  case False
  then have "m div 2 ^ 23 \<le> 1" using assms(1) by (simp add: less_Suc_eq_le [symmetric] less_mult_imp_div_less)
  moreover have "m div 2 ^ 23 = 1" if "2 ^ 23 \<le> m" using that calculation by (simp add: div_greater_zero_iff le_antisym Suc_leI)
  moreover have "(m + e * 2 ^ 23) div 2 ^ 23 = m div 2 ^ 23 + e" by simp
  ultimately have "mag_exp (m + e * 2 ^ 23) = e" using assms(2) by (auto simp: mag_exp_def)
  then show ?thesis by (simp add: mag_units_def)
qed

lemma integer_nearest:
  assumes "nearest_mag T 1 = n" and "n \<le> FLT_MAX"
  shows "\<exists>k. mag_units n = k * 2 ^ 149"
proof -
  define A where "A = T * (2::nat) ^ 149"
  obtain e where f: "find (\<lambda>e. A < 2 ^ (24 + e)) [0..<254] = Some e" and n: "n = round_div A (2 ^ e) + e * 2 ^ 23"
    using assms by (cases "find (\<lambda>e. A < 2 ^ (24 + e)) [0..<254]") (auto simp: nearest_mag_def A_def FLT_MAX_def FLT_INF_def)
  from f have e: "A < 2 ^ (24 + e)" "\<And>d. d < e \<Longrightarrow> 2 ^ (24 + d) \<le> A"
    unfolding find_Some_iff by (auto simp: not_less)
  define r where "r = round_div A (2 ^ e)"
  have b: "2 * r * 2 ^ e \<le> 2 * A + 2 ^ e" "2 * A \<le> 2 * r * 2 ^ e + 2 ^ e"
    unfolding r_def by (rule round_div_bounds; simp)+
  have "2 * r * 2 ^ e < (2 * 2 ^ 24 + 2) * 2 ^ e"
  proof -
    have "2 * r * 2 ^ e < 2 * 2 ^ (24 + e) + 2 * 2 ^ e" using b(1) e(1) by linarith
    then show ?thesis by (simp only: power_add distrib_right mult.assoc)
  qed
  then have r1: "r \<le> 2 ^ 24" by simp
  have r2: "e = 0 \<or> 2 ^ 23 \<le> r"
  proof (cases e)
    case (Suc d)
    then have "2 ^ (24 + d) \<le> A" using e(2) by simp
    moreover have "(2::nat) ^ (24 + d) = 2 ^ 23 * 2 ^ e" by (simp add: Suc power_add)
    ultimately have "2 * (2 ^ 23 * 2 ^ e) \<le> 2 * r * 2 ^ e + 2 ^ e" using b(2) by linarith
    then have "2 * 2 ^ 23 * 2 ^ e \<le> (2 * r + 1) * 2 ^ e" by (simp only: distrib_right mult_1 mult.assoc)
    then have "(2::nat) * 2 ^ 23 \<le> 2 * r + 1" by (rule mult_right_le_imp_le) simp
    then show ?thesis by simp
  qed simp
  have u: "mag_units n = r * 2 ^ e" unfolding n r_def [symmetric] by (rule mag_units_make [OF r1 r2])
  show ?thesis
  proof (cases "e \<le> 149")
    case True
    then have "A = T * 2 ^ (149 - e) * 2 ^ e" by (simp add: A_def mult.assoc flip: power_add)
    then have "r = T * 2 ^ (149 - e)" unfolding r_def by (simp only: round_div_exact zero_less_power zero_less_numeral)
    with u True show ?thesis by (auto simp: mult.assoc simp flip: power_add)
  next
    case False
    then have "e - 149 + 149 = e" by simp
    then have "(2::nat) ^ e = 2 ^ (e - 149) * 2 ^ 149" by (metis power_add)
    then show ?thesis using u by (metis mult.assoc)
  qed
qed

text \<open>With as many decimals as the digits need, the fixed notation has the value of the digits.\<close>

lemma fixed_digits:
  assumes n: "0 < n" "n \<le> FLT_MAX" and dx: "digits_e p n = (d, x)"
    and rb: "scaled d (int x - 45 - int p) = n"
  defines "q \<equiv> nat (int p + 45 - int x)"
  shows "scaled (round_div (mag_units n * 10 ^ q) (2 ^ 149)) (- int q) = n"
proof (cases "x \<le> p + 45")
  case True
  then have q: "q + x = p + 45" "int x - 45 - int p = - int q" by (simp_all add: q_def)
  define M y where "M = mag_units n" and "y = dec_exp n"
  define c where "c = (2::nat) ^ 149 * 10 ^ y"
  have split: "M * 10 ^ (p + 45) = M * 10 ^ q * 10 ^ x" by (simp add: q(1) [symmetric] power_add)
  have "round_div (M * 10 ^ q) (2 ^ 149) = d"
  proof (cases "round_div (M * 10 ^ (p + 45)) c = 10 ^ (p + 1)")
    case False
    then have "x = y" "d = round_div (M * 10 ^ (p + 45)) c"
      using dx by (auto simp: digits_e_def M_def y_def c_def Let_def split: if_splits)
    then show ?thesis unfolding split c_def by (simp only: round_div_cancel zero_less_power zero_less_numeral)
  next
    case carry: True
    then have d: "x = y + 1" "d = 10 ^ p"
      using dx by (auto simp: digits_e_def M_def y_def c_def Let_def split: if_splits)
    have c: "0 < c" by (simp add: c_def)
    note b = round_div_bounds [OF c, of "M * 10 ^ (p + 45)", unfolded carry]
    have "2 * 10 ^ p * 2 ^ 149 * 10 ^ x < (2 * (M * 10 ^ q) + 2 ^ 149) * 10 ^ x"
    proof -
      have "2 * 10 ^ p * 2 ^ 149 * 10 ^ x = 2 * 10 ^ (p + 1) * c" by (simp add: c_def d(1))
      also have "\<dots> \<le> 2 * (M * 10 ^ q) * 10 ^ x + c" using b(1) unfolding split by (simp only: mult.assoc)
      also have "c < 2 ^ 149 * 10 ^ x" unfolding c_def d(1) by simp
      finally show ?thesis by (simp only: distrib_right)
    qed
    then have 1: "2 * 10 ^ p * 2 ^ 149 < 2 * (M * 10 ^ q) + 2 ^ 149" using mult_less_cancel2 by blast
    have "M * 10 ^ q * 10 ^ x < 10 ^ p * 2 ^ 149 * 10 ^ x"
    proof -
      have "M * 10 ^ (p + 45) = M * 10 ^ 45 * 10 ^ p" by (simp only: power_add mult_ac)
      also have "\<dots> < 10 ^ (y + 1) * 2 ^ 149 * 10 ^ p" using dec_exp_spec(2) [OF n] by (simp add: M_def y_def)
      finally show ?thesis unfolding split d(1) by (simp only: mult_ac)
    qed
    then have "M * 10 ^ q < 10 ^ p * 2 ^ 149" using mult_less_cancel2 by blast
    then have 2: "2 * (M * 10 ^ q) < 2 * 10 ^ p * 2 ^ 149 + 2 ^ 149" by linarith
    show ?thesis unfolding d(2) by (rule round_div_unique [OF 1 2])
  qed
  then show ?thesis using rb unfolding q(2) M_def by simp
next
  case False
  then have q: "q = 0" and e: "int x - 45 - int p = int (x - p - 45)" by (simp_all add: q_def)
  have "nearest_mag (d * 10 ^ (x - p - 45)) 1 = n" using rb unfolding e by (simp add: scaled_def)
  from integer_nearest [OF this n(2)] obtain k where k: "mag_units n = k * 2 ^ 149" by blast
  obtain m e where p: "n = m + e * 2 ^ 23" "mag_units n = m * 2 ^ e" "m < 2 ^ 24" "e = 0 \<or> 2 ^ 23 \<le> m" "e < 254"
    using mag_parts [OF n(2)] by metis
  have "nearest_mag k 1 = n"
    by (rule nearest_mag_near [OF p(1) p(3-5)]) (use k in \<open>simp_all add: p(2) [symmetric]\<close>)
  moreover have "round_div (mag_units n * 10 ^ q) (2 ^ 149) = k"
    unfolding q k by (simp only: power_0 mult_1_right round_div_exact zero_less_power zero_less_numeral)
  ultimately show ?thesis by (simp add: q scaled_def)
qed

section \<open>Number tokens\<close>

definition exp_text :: "(bool \<times> string) option \<Rightarrow> string" where
  "exp_text ex = (case ex of None \<Rightarrow> [] | Some (n, ds) \<Rightarrow> CHR ''e'' # (if n then CHR ''-'' else CHR ''+'') # ds)"

definition exp_ok :: "(bool \<times> string) option \<Rightarrow> bool" where
  "exp_ok ex = (case ex of None \<Rightarrow> True | Some (n, ds) \<Rightarrow> ds \<noteq> [] \<and> list_all is_digit ds)"

definition exp_value :: "(bool \<times> string) option \<Rightarrow> int" where
  "exp_value ex =
     (case ex of None \<Rightarrow> 0 | Some (n, ds) \<Rightarrow> if n then - int (dec_from 0 ds) else int (dec_from 0 ds))"

definition num_token :: "bool \<Rightarrow> string \<Rightarrow> string \<Rightarrow> (bool \<times> string) option \<Rightarrow> string" where
  "num_token neg ip fp ex =
     show_sign neg @ ip @ (if fp = [] then [] else CHR ''.'' # fp) @ exp_text ex"

lemma take_digits_append:
  assumes "list_all is_digit ds" and "r = [] \<or> \<not> is_digit (hd r)"
  shows "take_digits (ds @ r) = (ds, r)"
proof -
  have "takeWhile is_digit r = []" "dropWhile is_digit r = r" using assms(2) by (cases r; simp)+
  then show ?thesis using assms(1) by (simp add: take_digits_def list_all_iff)
qed

lemma not_digits [simp]:
  "\<not> is_digit CHR ''.''" "\<not> is_digit CHR ''e''" "\<not> is_digit CHR ''E''" "\<not> is_digit CHR ''-''" "\<not> is_digit CHR ''+''"
  "is_digit CHR ''0''"
  by (simp_all add: is_digit_def)

lemma take_sign_digits:
  assumes "list_all is_digit ds" and "ds \<noteq> []"
  shows "take_sign (show_sign neg @ ds @ r) = (neg, ds @ r)"
proof -
  obtain c t where c: "ds = c # t" using assms(2) by (cases ds) auto
  then have "is_digit c" using assms(1) by simp
  then have "c \<noteq> CHR ''-''" "c \<noteq> CHR ''+''" by (auto simp: is_digit_def)
  with c show ?thesis by (simp add: take_sign_def show_sign_def)
qed

lemma take_exponent_text:
  assumes "exp_ok ex"
  shows "take_exponent (exp_text ex) = (exp_value ex, [])"
proof (cases ex)
  case None
  then show ?thesis by (simp add: exp_text_def exp_value_def take_exponent_def)
next
  case (Some nd)
  obtain n ds where nd: "nd = (n, ds)" by (cases nd)
  then have ds: "ds \<noteq> []" "list_all is_digit ds" using assms Some by (simp_all add: exp_ok_def)
  have "take_sign ((if n then CHR ''-'' else CHR ''+'') # ds) = (n, ds)" by (simp add: take_sign_def)
  moreover have "take_digits ds = (ds, [])" using take_digits_append [OF ds(2), of "[]"] by simp
  ultimately show ?thesis using ds(1) by (simp add: Some nd exp_text_def exp_value_def take_exponent_def)
qed

lemma strtof_token:
  assumes "list_all is_digit ip" and "ip \<noteq> []" and "list_all is_digit fp" and "exp_ok ex"
  shows "strtof (num_token neg ip fp ex) =
    (make_float neg (scaled (dec_from 0 (ip @ fp)) (exp_value ex - int (length fp))), [])"
proof -
  have x: "exp_text ex = [] \<or> \<not> is_digit (hd (exp_text ex))" by (auto simp: exp_text_def split: option.split)
  have "take_digits (ip @ (if fp = [] then [] else CHR ''.'' # fp) @ exp_text ex) =
      (ip, (if fp = [] then [] else CHR ''.'' # fp) @ exp_text ex)"
    using x by (intro take_digits_append [OF assms(1)]) auto
  moreover have "take_fraction ((if fp = [] then [] else CHR ''.'' # fp) @ exp_text ex) = (fp, exp_text ex)"
  proof (cases "fp = []")
    case True
    then show ?thesis by (auto simp: take_fraction_def exp_text_def split: option.split)
  next
    case False
    then show ?thesis using take_digits_append [OF assms(3) x] by (simp add: take_fraction_def)
  qed
  ultimately show ?thesis
    by (simp add: strtof_def num_token_def take_sign_digits [OF assms(1,2)] take_exponent_text [OF assms(4)])
qed

lemma two_digits_ok:
  assumes "n < 100"
  shows "list_all is_digit (two_digits n)" and "dec_from 0 (two_digits n) = n" and "length (two_digits n) = 2"
proof -
  show "list_all is_digit (two_digits n)" by (simp add: two_digits_def show_nat_digits)
  show "dec_from 0 (two_digits n) = n"
    using dec_from_zeros [of 1 "show_nat n"] by (simp add: two_digits_def dec_from_show)
  show "length (two_digits n) = 2"
    using assms length_show_nat [of 1 n] by (auto simp: two_digits_def show_nat.simps [of n])
qed

lemma exp_digits:
  assumes "x \<le> 84"
  shows "exp_ok (Some (x < 45, two_digits (if x < 45 then 45 - x else x - 45)))"
    and "exp_value (Some (x < 45, two_digits (if x < 45 then 45 - x else x - 45))) = int x - 45"
proof -
  define w where "w = (if x < 45 then 45 - x else x - 45)"
  have w: "w < 100" using assms by (simp add: w_def) arith
  have "two_digits w \<noteq> []" using two_digits_ok(3) [OF w] by auto
  then show "exp_ok (Some (x < 45, two_digits (if x < 45 then 45 - x else x - 45)))"
    "exp_value (Some (x < 45, two_digits (if x < 45 then 45 - x else x - 45))) = int x - 45"
    using two_digits_ok(1,2) [OF w] unfolding w_def [symmetric]
    by (simp_all add: exp_ok_def exp_value_def) (simp add: w_def)
qed

section \<open>What the library prints\<close>

lemma print_e_token:
  assumes "0 < float_mag v" and "float_mag v \<le> FLT_MAX" and "digits_e p (float_mag v) = (d, x)"
  shows "print_e p v = num_token (float_sign v) [hd (show_nat d)] (tl (show_nat d))
    (Some (x < 45, two_digits (if x < 45 then 45 - x else x - 45)))"
    and "length (print_e p v) \<le> p + 7" and "length (tl (show_nat d)) = p" and "x \<le> 84"
proof -
  note s = digits_e_spec [OF assms]
  have l: "length (show_nat d) = p + 1" by (rule length_show_nat [OF s(1,2)])
  then show t: "length (tl (show_nat d)) = p" by simp
  show "x \<le> 84" by (rule s(3))
  show e: "print_e p v = num_token (float_sign v) [hd (show_nat d)] (tl (show_nat d))
    (Some (x < 45, two_digits (if x < 45 then 45 - x else x - 45)))"
  proof -
    have "p = 0 \<longleftrightarrow> tl (show_nat d) = []" unfolding t [symmetric] by (rule length_0_conv)
    then show ?thesis using assms(3) by (simp add: print_e_def num_token_def exp_text_def Let_def)
  qed
  show "length (print_e p v) \<le> p + 7"
    unfolding e num_token_def exp_text_def show_sign_def using t s(3) two_digits_ok(3) by auto
qed

lemma print_e_value:
  assumes "0 < float_mag v" and "float_mag v \<le> FLT_MAX" and "digits_e p (float_mag v) = (d, x)"
  shows "strtof (print_e p v) = (make_float (float_sign v) (scaled d (int x - 45 - int p)), [])"
proof -
  note t = print_e_token [OF assms]
  have ne: "show_nat d \<noteq> []" by (rule show_nat_not_empty)
  have ds: "list_all is_digit [hd (show_nat d)]" "list_all is_digit (tl (show_nat d))"
    using show_nat_digits [of d] ne by (cases "show_nat d"; simp)+
  note ex = exp_digits [OF t(4)]
  have "[hd (show_nat d)] @ tl (show_nat d) = show_nat d" using ne by simp
  then show ?thesis
    unfolding t(1) using strtof_token [OF ds(1) _ ds(2) ex(1)]
    by (simp add: ex(2) t(3) dec_from_show del: append.simps length_tl)
qed

lemma print_e_exponent:
  assumes "0 < float_mag v" and "float_mag v \<le> FLT_MAX" and "digits_e p (float_mag v) = (d, x)"
  shows "atoi (tl (dropWhile (\<lambda>c. c \<noteq> CHR ''e'') (print_e p v))) = int x - 45"
proof -
  note t = print_e_token [OF assms]
  have "CHR ''e'' \<notin> set (show_nat d)" using show_nat_digits [of d] by (auto simp: list_all_iff)
  then have "CHR ''e'' \<notin> set [hd (show_nat d)]" "CHR ''e'' \<notin> set (tl (show_nat d))"
    using show_nat_not_empty [of d] by (cases "show_nat d"; simp)+
  then have "dropWhile (\<lambda>c. c \<noteq> CHR ''e'') (print_e p v) =
      CHR ''e'' # (if x < 45 then CHR ''-'' else CHR ''+'') # two_digits (if x < 45 then 45 - x else x - 45)"
    unfolding t(1) num_token_def exp_text_def show_sign_def
    by (auto simp: dropWhile_append)
  then show ?thesis
    using t(4) two_digits_ok [of "45 - x"] two_digits_ok [of "x - 45"]
    by (auto simp: atoi_def take_sign_def list_all_iff takeWhile_eq_all_conv [THEN iffD2])
qed

lemma print_f_token:
  assumes "d = round_div (mag_units (float_mag v) * 10 ^ q) (2 ^ 149)"
  shows "if q = 0 then print_f q v @ ''.0'' = num_token (float_sign v) (show_nat d) ''0'' None
    else \<exists>fp. print_f q v = num_token (float_sign v) (show_nat (d div 10 ^ q)) fp None \<and>
      length fp = q \<and> list_all is_digit fp \<and> dec_from 0 (show_nat (d div 10 ^ q) @ fp) = d"
proof (cases q)
  case 0
  then show ?thesis using assms by (simp add: print_f_def num_token_def exp_text_def Let_def)
next
  case (Suc q')
  define fp where "fp = pad_zeros q (show_nat (d mod 10 ^ q))"
  have "d mod 10 ^ q < 10 ^ (q' + 1)" by (simp add: Suc)
  from show_nat_bound [OF this] have l: "length fp = q" by (simp add: fp_def pad_zeros_def Suc)
  have "list_all is_digit fp"
    using show_nat_digits [of "d mod 10 ^ q"] by (auto simp: fp_def pad_zeros_def list_all_iff)
  moreover have "dec_from 0 fp = d mod 10 ^ q" by (simp add: fp_def pad_zeros_def dec_from_zeros dec_from_show)
  then have "dec_from 0 (show_nat (d div 10 ^ q) @ fp) = d"
    using dec_from_shift [of "d div 10 ^ q" fp] l div_mult_mod_eq [of d "10 ^ q"]
    by (simp add: dec_from_append dec_from_show)
  moreover have "print_f q v = num_token (float_sign v) (show_nat (d div 10 ^ q)) fp None"
    using l Suc unfolding print_f_def num_token_def assms [symmetric] Let_def fp_def by (auto simp: exp_text_def)
  ultimately show ?thesis using l Suc by auto
qed

section \<open>Floats and their parts\<close>

lemma float_mag_bound: "float_mag v < 2 ^ 31"
  by (simp add: float_mag_def)

lemma make_float_parts: "make_float (float_sign v) (float_mag v) = v"
proof -
  have "unat v < 2 ^ 32" using unsigned_less [of v, where ?'a = nat] by simp
  then have "unat v = (if float_sign v then 2 ^ 31 else 0) + float_mag v"
    by (auto simp: float_sign_def float_mag_def mod_if)
  then have "(of_nat (unat v) :: u32) = of_nat ((if float_sign v then 2 ^ 31 else 0) + float_mag v)" by (rule arg_cong)
  then show ?thesis by (simp add: make_float_def split: if_splits)
qed

lemma float_parts_make:
  assumes "n < 2 ^ 31"
  shows "float_mag (make_float s n) = n" and "float_sign (make_float s n) = s"
proof -
  have "unat (make_float s n) = (if s then 2 ^ 31 else 0) + n"
  proof (cases s)
    case True
    have "unat (of_nat (2 ^ 31 + n) :: u32) = 2 ^ 31 + n" by (subst unat_of_nat) (use assms in simp)
    then show ?thesis unfolding make_float_def if_P [OF True] .
  next
    case False
    have "unat (of_nat n :: u32) = n" by (subst unat_of_nat) (use assms in simp)
    then show ?thesis unfolding make_float_def if_not_P [OF False] by simp
  qed
  then show "float_mag (make_float s n) = n" "float_sign (make_float s n) = s"
    using assms by (simp_all add: float_mag_def float_sign_def)
qed

lemma nearest_mag_le: "0 < b \<Longrightarrow> nearest_mag a b \<le> FLT_INF"
proof (cases "find (\<lambda>e. a * 2 ^ 149 < b * 2 ^ (24 + e)) [0..<254]")
  case None
  then show ?thesis by (simp add: nearest_mag_def)
next
  case (Some e)
  assume b: "0 < b"
  define c r where "c = b * (2::nat) ^ e" and "r = round_div (a * 2 ^ 149) c"
  have e: "a * 2 ^ 149 < b * 2 ^ (24 + e)" "e < 254" using Some by (auto simp: find_Some_iff)
  have c: "0 < c" using b by (simp add: c_def)
  have "a * 2 ^ 149 < 2 ^ 24 * c" using e(1) by (simp add: c_def power_add)
  then have "2 * (a * 2 ^ 149) < 2 * 2 ^ 24 * c" by simp
  then have "2 * r * c < 2 * 2 ^ 24 * c + c"
    using round_div_bounds(1) [OF c, of "a * 2 ^ 149", folded r_def] by linarith
  then have "2 * r * c < (2 * 2 ^ 24 + 1) * c" by (simp only: distrib_right mult_1)
  then have "2 * r < 2 * 2 ^ 24 + 1" using mult_less_cancel2 by blast
  moreover have "nearest_mag a b = r + e * 2 ^ 23"
    using Some unfolding nearest_mag_def r_def c_def by (simp only: option.case)
  ultimately show ?thesis using e(2) by (simp add: FLT_INF_def)
qed

lemma scaled_le: "scaled d e \<le> FLT_INF"
  by (simp add: scaled_def nearest_mag_le)

lemma make_scaled_eq: "make_float s (scaled d e) = v \<Longrightarrow> scaled d e = float_mag v \<and> s = float_sign v"
proof -
  assume "make_float s (scaled d e) = v"
  moreover have "scaled d e < 2 ^ 31" using scaled_le [of d e] by (simp add: FLT_INF_def)
  ultimately show ?thesis using float_parts_make by metis
qed

section \<open>The formatter\<close>

lemma find_digits_spec:
  "(find_digits v ds \<in> set ds \<and>
    float_eq (fst (strtof (snprintf 48 (print_e (find_digits v ds - 1) v)))) v) \<or> find_digits v ds = 9"
  by (induction ds) auto

text \<open>The decimal text of a real: digits without leading zeros before the point, and a fraction or an
  exponent.\<close>

definition real_text :: "string \<Rightarrow> bool \<Rightarrow> string \<Rightarrow> string \<Rightarrow> (bool \<times> string) option \<Rightarrow> bool" where
  "real_text s neg ip fp ex \<longleftrightarrow> s = num_token neg ip fp ex \<and>
     list_all is_digit ip \<and> ip \<noteq> [] \<and> (hd ip = CHR ''0'' \<longrightarrow> length ip = 1) \<and>
     list_all is_digit fp \<and> exp_ok ex \<and> (fp \<noteq> [] \<or> ex \<noteq> None)"

lemma show_nat_hd: "hd (show_nat n) = CHR ''0'' \<longrightarrow> n = 0"
proof (induction n rule: show_nat.induct)
  case (1 n)
  have z: "char_of (48 + k) = CHR ''0'' \<longrightarrow> k = 0" if "k < 10" for k :: nat
  proof
    assume "char_of (48 + k) = CHR ''0''"
    then have "ord (char_of (48 + k)) = 48" by simp
    with that show "k = 0" by simp
  qed
  show ?case
  proof (cases "n < 10")
    case True
    with z [of n] show ?thesis by (simp add: show_nat.simps [of n])
  next
    case False
    with 1 show ?thesis by (auto simp: show_nat.simps [of n] show_nat_not_empty)
  qed
qed

lemma show_nat_leading: "hd (show_nat n) = CHR ''0'' \<longrightarrow> length (show_nat n) = 1"
  using show_nat_hd [of n] by (auto simp: show_nat.simps [of 0])

lemma e_value:
  assumes "0 < float_mag v" and "float_mag v \<le> FLT_MAX" and "p \<le> 8"
    and rd: "float_eq (fst (strtof (snprintf 48 (print_e p v)))) v \<or> p = 8"
  shows "\<exists>d x. digits_e p (float_mag v) = (d, x) \<and> scaled d (int x - 45 - int p) = float_mag v \<and>
    snprintf 48 (print_e p v) = print_e p v"
proof -
  obtain d x where dx: "digits_e p (float_mag v) = (d, x)" by (cases "digits_e p (float_mag v)")
  have l: "snprintf 48 (print_e p v) = print_e p v"
    using print_e_token(2) [OF assms(1,2) dx] assms(3) by (simp add: snprintf_def)
  have "scaled d (int x - 45 - int p) = float_mag v"
  proof (cases "p = 8")
    case True
    then show ?thesis using nine_digits [OF assms(1,2)] dx by simp
  next
    case False
    with rd l have "float_eq (make_float (float_sign v) (scaled d (int x - 45 - int p))) v"
      by (simp add: print_e_value [OF assms(1,2) dx])
    then have "make_float (float_sign v) (scaled d (int x - 45 - int p)) = v"
      using assms(1) by (simp add: float_eq_def)
    from make_scaled_eq [OF this] show ?thesis by simp
  qed
  with dx l show ?thesis by blast
qed

theorem real_reads_back:
  assumes "float_mag v \<le> FLT_MAX"
  shows "\<exists>s neg ip fp ex. format_real v 64 = (length s, s) \<and> real_text s neg ip fp ex \<and> length s < 64 \<and>
    strtof s = (v, [])"
proof (cases "float_mag v = 0")
  case True
  have s: "(if float_sign v then ''-0.0'' else ''0.0'') = num_token (float_sign v) ''0'' ''0'' None" (is "?s = _")
    by (simp add: num_token_def show_sign_def exp_text_def)
  have "strtof ?s = (v, [])"
  proof -
    have "scaled 0 (- 1) = 0" by (simp add: scaled_def nearest_mag_def find_upt [of 0] round_div_def)
    then have "strtof ?s = (make_float (float_sign v) 0, [])"
      unfolding s by (subst strtof_token) (simp_all add: exp_ok_def exp_value_def dec_from_def digit_val_def)
    with True show ?thesis using make_float_parts [of v] by simp
  qed
  moreover have "format_real v 64 = (length ?s, ?s)" using True by (simp add: format_real_def snprintf_def)
  moreover have "real_text ?s (float_sign v) ''0'' ''0'' None"
    unfolding real_text_def s by (simp add: exp_ok_def)
  moreover have "length ?s < 64" by simp
  ultimately show ?thesis by blast
next
  case False
  then have v: "0 < float_mag v" by simp
  define p where "p = find_digits v [1..<9] - 1"
  have fd: "find_digits v [1..<9] = p + 1" "p \<le> 8"
    "float_eq (fst (strtof (snprintf 48 (print_e p v)))) v \<or> p = 8"
    using find_digits_spec [of v "[1..<9]"] unfolding p_def by auto
  obtain d x where dx: "digits_e p (float_mag v) = (d, x)" "scaled d (int x - 45 - int p) = float_mag v"
    "snprintf 48 (print_e p v) = print_e p v"
    using e_value [OF v assms fd(2,3)] by blast
  note t = print_e_token [OF v assms dx(1)] and d = digits_e_spec [OF v assms dx(1)]
  define ex where "ex = int x - 45"
  have ex: "atoi (tl (dropWhile (\<lambda>c. c \<noteq> CHR ''e'') (print_e p v))) = ex"
    unfolding ex_def by (rule print_e_exponent [OF v assms dx(1)])
  define q where "q = nat (int p - ex)"
  have fmt: "format_real v 64 =
      (if - 5 \<le> ex \<and> ex < 9
       then let (n, out) = (length (print_f q v), snprintf 64 (print_f q v))
            in if q = 0 \<and> n + 2 < 64 then (n + 2, out @ snprintf (64 - n) ''.0'') else (n, out)
       else (length (print_e p v), snprintf 64 (print_e p v)))"
    using False assms ex unfolding format_real_def Let_def fd(1) by (simp add: dx(3) q_def)
  show ?thesis
  proof (cases "- 5 \<le> ex \<and> ex < 9")
    case fixed: False
    have "print_e p v = num_token (float_sign v) [hd (show_nat d)] (tl (show_nat d))
      (Some (x < 45, two_digits (if x < 45 then 45 - x else x - 45)))" by (rule t(1))
    moreover have "list_all is_digit [hd (show_nat d)]" "list_all is_digit (tl (show_nat d))"
      using show_nat_digits [of d] show_nat_not_empty [of d] by (cases "show_nat d"; simp)+
    moreover note exp_digits(1) [OF t(4)]
    ultimately have "real_text (print_e p v) (float_sign v) [hd (show_nat d)] (tl (show_nat d))
      (Some (x < 45, two_digits (if x < 45 then 45 - x else x - 45)))"
      unfolding real_text_def by simp
    moreover have "strtof (print_e p v) = (v, [])"
      using print_e_value [OF v assms dx(1)] dx(2) make_float_parts [of v] by simp
    moreover have "length (print_e p v) < 64" using t(2) fd(2) by simp
    moreover have "format_real v 64 = (length (print_e p v), print_e p v)"
    proof -
      have "snprintf 64 (print_e p v) = print_e p v" using calculation(3) by (simp add: snprintf_def)
      then show ?thesis unfolding fmt if_not_P [OF fixed] by simp
    qed
    ultimately show ?thesis by blast
  next
    case fixed: True
    define N where "N = round_div (mag_units (float_mag v) * 10 ^ q) (2 ^ 149)"
    have q: "q = nat (int p + 45 - int x)" by (simp add: q_def ex_def)
    have val: "scaled N (- int q) = float_mag v"
      unfolding N_def q by (rule fixed_digits [OF v assms dx(1,2)])
    have "int p - ex \<le> 13" using fixed fd(2) by linarith
    then have q13: "q \<le> 13" by (simp add: q_def)
    have big: "N < 10 ^ (q + 10)"
    proof -
      have lo: "2 * N * 2 ^ 149 \<le> 2 * (mag_units (float_mag v) * 10 ^ q) + 2 ^ 149"
        unfolding N_def by (rule round_div_bounds) simp
      have "mag_units (float_mag v) * 10 ^ 45 < 10 ^ (dec_exp (float_mag v) + 1) * 2 ^ 149"
        by (rule dec_exp_spec [OF v assms])
      moreover have "dec_exp (float_mag v) \<le> x" using dx(1) by (auto simp: digits_e_def Let_def split: if_splits)
      moreover have "(10::nat) ^ (dec_exp (float_mag v) + 1) \<le> 10 ^ 54"
        using calculation(2) fixed by (intro power_increasing) (simp_all add: ex_def)
      then have "10 ^ (dec_exp (float_mag v) + 1) * 2 ^ 149 \<le> (10::nat) ^ 54 * 2 ^ 149" by (rule mult_right_mono) simp
      ultimately have "mag_units (float_mag v) * 10 ^ 45 < 10 ^ 54 * 2 ^ 149" by linarith
      then have "mag_units (float_mag v) < 10 ^ 9 * 2 ^ 149" by simp
      then have "mag_units (float_mag v) * 10 ^ q < 10 ^ 9 * 2 ^ 149 * 10 ^ q" by simp
      then have "2 * N * 2 ^ 149 < 2 * (10 ^ 9 * 2 ^ 149 * 10 ^ q) + 2 ^ 149"
        using lo by linarith
      then have "2 * N * 2 ^ 149 < (2 * 10 ^ 9 * 10 ^ q + 1) * 2 ^ 149" by (simp add: algebra_simps)
      then have "2 * N < 2 * 10 ^ 9 * 10 ^ q + 1" using mult_less_cancel2 by blast
      then have "N \<le> 10 ^ 9 * 10 ^ q" by simp
      also have "(10::nat) ^ 9 * 10 ^ q < 10 ^ 10 * 10 ^ q" by (rule mult_strict_right_mono) simp_all
      finally show ?thesis by (simp add: power_add)
    qed
    then have "N div 10 ^ q < 10 ^ (9 + 1)" by (simp add: less_mult_imp_div_less power_add mult.commute)
    from show_nat_bound [OF this] have ip: "length (show_nat (N div 10 ^ q)) \<le> 10" by simp
    note pt = print_f_token [OF N_def]
    show ?thesis
    proof (cases "q = 0")
      case True
      have s: "print_f q v @ ''.0'' = num_token (float_sign v) (show_nat N) ''0'' None" using pt True by simp
      have "scaled (dec_from 0 (show_nat N @ ''0'')) (- 1) = nearest_mag (N * 10) (1 * 10)"
        using scaled_shift [of "dec_from 0 (show_nat N @ ''0'')" 0 1]
        by (simp add: dec_from_append dec_from_show) (simp add: dec_from_def digit_val_def mult.commute)
      also have "\<dots> = scaled N 0" unfolding scaled_def by (subst nearest_mag_cancel) simp_all
      finally have "strtof (print_f q v @ ''.0'') = (v, [])"
        unfolding s using val True make_float_parts [of v]
        by (subst strtof_token) (simp_all add: show_nat_digits show_nat_not_empty exp_ok_def exp_value_def)
      moreover have "real_text (print_f q v @ ''.0'') (float_sign v) (show_nat N) ''0'' None"
        unfolding real_text_def s by (simp add: show_nat_digits show_nat_not_empty show_nat_leading exp_ok_def)
      moreover have l: "length (print_f q v) \<le> 11"
        using ip True arg_cong [OF s, of length] by (simp add: num_token_def show_sign_def exp_text_def split: if_splits)
      moreover have "format_real v 64 = (length (print_f q v @ ''.0''), print_f q v @ ''.0'')"
        using fixed l True unfolding fmt by (simp add: snprintf_def)
      ultimately show ?thesis by (intro exI [of _ "print_f q v @ ''.0''"] exI conjI) simp_all
    next
      case False
      then obtain fp where s: "print_f q v = num_token (float_sign v) (show_nat (N div 10 ^ q)) fp None"
        "length fp = q" "list_all is_digit fp" "dec_from 0 (show_nat (N div 10 ^ q) @ fp) = N" using pt by auto
      have "strtof (print_f q v) = (v, [])"
        unfolding s(1) using val s make_float_parts [of v]
        by (subst strtof_token) (simp_all add: show_nat_digits show_nat_not_empty exp_ok_def exp_value_def)
      moreover have "real_text (print_f q v) (float_sign v) (show_nat (N div 10 ^ q)) fp None"
        unfolding real_text_def using s False
        by (auto simp: show_nat_digits show_nat_not_empty show_nat_leading exp_ok_def)
      moreover have l: "length (print_f q v) \<le> 25"
        unfolding s(1) num_token_def show_sign_def exp_text_def using ip s(2) q13 by simp
      moreover have "format_real v 64 = (length (print_f q v), print_f q v)"
        using fixed l False unfolding fmt by (simp add: snprintf_def)
      ultimately show ?thesis by (intro exI [of _ "print_f q v"] exI conjI) simp_all
    qed
  qed
qed

end
