(* ===== verification/Json_Theorems.thy ===== *)
theory Json_Theorems
  imports Json_Parse Json_Print Json_Real_Facts
begin

text \<open>
  JSON documents: what the serialiser writes, the parser reads back; the parser builds only well-formed
  documents, whichever allocations fail; a copy is equal to its original.
\<close>

section \<open>Well-formed documents\<close>

text \<open>Texts and keys are C strings, the keys of an object differ.\<close>

fun json_ok :: "json \<Rightarrow> bool" where
  "json_ok (JText t) \<longleftrightarrow> (case t of None \<Rightarrow> True | Some s \<Rightarrow> NUL \<notin> set s)"
| "json_ok (JArray js) \<longleftrightarrow> (\<forall>j\<in>set js. json_ok j)"
| "json_ok (JObject ps) \<longleftrightarrow> distinct (map fst ps) \<and> (\<forall>p\<in>set ps. NUL \<notin> set (fst p) \<and> json_ok (snd p))"
| "json_ok _ \<longleftrightarrow> True"

text \<open>The depth of its containers.\<close>

fun nesting :: "json \<Rightarrow> nat" where
  "nesting (JArray js) = Suc (Max (insert 0 (nesting ` set js)))"
| "nesting (JObject ps) = Suc (Max (insert 0 ((\<lambda>p. nesting (snd p)) ` set ps)))"
| "nesting _ = 0"

text \<open>What has no notation of its own: a number that is not finite is null, a text without a value empty.\<close>

fun normalise :: "json \<Rightarrow> json" where
  "normalise (JReal v) = (if float_mag v \<le> FLT_MAX then JReal v else JNull)"
| "normalise (JText t) = JText (Some (case t of None \<Rightarrow> [] | Some s \<Rightarrow> s))"
| "normalise (JArray js) = JArray (map normalise js)"
| "normalise (JObject ps) = JObject (map (\<lambda>p. (fst p, normalise (snd p))) ps)"
| "normalise j = j"

lemma nesting_element: "j \<in> set js \<Longrightarrow> nesting j < nesting (JArray js)"
  by (simp add: less_Suc_eq_le)

lemma nesting_member: "p \<in> set ps \<Longrightarrow> nesting (snd p) < nesting (JObject ps)"
  by (auto simp: less_Suc_eq_le)

section \<open>Numbers\<close>

text \<open>What may follow a number.\<close>

definition ends_number :: "string \<Rightarrow> bool" where
  "ends_number r \<longleftrightarrow> (case r of [] \<Rightarrow> True | c # t \<Rightarrow> \<not> is_digit c \<and> c \<notin> {CHR ''.'', CHR ''e'', CHR ''E''})"

lemma drop_digits:
  assumes "list_all is_digit ds" and "\<not> digit_next r"
  shows "dropWhile is_digit (ds @ r) = r"
  using assms by (cases r) (auto simp: list_all_iff digit_next_def dropWhile_append3)

lemma digit_next_append: "list_all is_digit ds \<Longrightarrow> ds \<noteq> [] \<Longrightarrow> digit_next (ds @ r)"
  by (cases ds) (auto simp: digit_next_def)

lemma ends_number_digit: "ends_number r \<Longrightarrow> \<not> digit_next r"
  by (auto simp: ends_number_def digit_next_def split: list.splits)

lemma scan_token:
  assumes "list_all is_digit ip" and "ip \<noteq> []" and "hd ip = CHR ''0'' \<longrightarrow> length ip = 1"
    and "list_all is_digit fp" and "exp_ok ex" and "ends_number r"
  shows "scan_number (num_token neg ip fp ex @ r) = Some (fp \<noteq> [] \<or> ex \<noteq> None, r)"
proof -
  define e where "e = exp_text ex @ r"
  define f where "f = (if fp = [] then [] else CHR ''.'' # fp) @ e"
  obtain c t where ip: "ip = c # t" using assms(2) by (cases ip) auto
  have c: "is_digit c" "c \<noteq> CHR ''-''" "c \<noteq> CHR ''+''" using assms(1) by (auto simp: ip is_digit_def)
  have ne: "\<not> digit_next e" "scan_exp e = Some (ex \<noteq> None, r)" "e = [] \<or> hd e \<noteq> CHR ''.''"
  proof -
    have "(e = [] \<or> hd e \<noteq> CHR ''.'') \<and> \<not> digit_next e \<and> scan_exp e = Some (ex \<noteq> None, r)"
    proof (cases ex)
      case None
      then show ?thesis
        using assms(6) ends_number_digit [OF assms(6)]
        by (auto simp: e_def exp_text_def scan_exp_def ends_number_def split: list.splits)
    next
      case (Some nd)
      obtain n ds where nd: "nd = (n, ds)" by (cases nd)
      then have ds: "list_all is_digit ds" "ds \<noteq> []" using assms(5) Some by (simp_all add: exp_ok_def)
      show ?thesis
        using digit_next_append [OF ds, of r] drop_digits [OF ds(1) ends_number_digit [OF assms(6)]]
        by (auto simp: Some nd e_def exp_text_def scan_exp_def digit_next_def)
    qed
    then show "\<not> digit_next e" "scan_exp e = Some (ex \<noteq> None, r)" "e = [] \<or> hd e \<noteq> CHR ''.''" by blast+
  qed
  have f: "\<not> digit_next f" "scan_frac f = Some (fp \<noteq> [], e)"
  proof -
    have "\<not> digit_next f \<and> scan_frac f = Some (fp \<noteq> [], e)"
    proof (cases "fp = []")
      case True
      then show ?thesis using ne by (auto simp: f_def scan_frac_def split: list.splits)
    next
      case False
      then show ?thesis
        using digit_next_append [OF assms(4) False, of e] drop_digits [OF assms(4) ne(1)]
        by (simp add: f_def scan_frac_def digit_next_def)
    qed
    then show "\<not> digit_next f" "scan_frac f = Some (fp \<noteq> [], e)" by blast+
  qed
  have i: "scan_int (ip @ f) = Some f"
  proof (cases "c = CHR ''0''")
    case True
    then have "t = []" using assms(3) ip by simp
    with True f(1) show ?thesis by (simp add: ip scan_int_def)
  next
    case False
    then show ?thesis using c drop_digits [OF assms(1) f(1)] by (simp add: ip scan_int_def)
  qed
  have "num_token neg ip fp ex @ r = show_sign neg @ ip @ f" by (simp add: num_token_def f_def e_def)
  moreover have "(if show_sign neg @ ip @ f \<noteq> [] \<and> hd (show_sign neg @ ip @ f) = CHR ''-''
      then tl (show_sign neg @ ip @ f) else show_sign neg @ ip @ f) = ip @ f"
    using c by (simp add: show_sign_def ip)
  ultimately show ?thesis unfolding scan_number_def by (simp only: i f(2) ne(2) option.case prod.case)
qed

lemma show_int_token: "show_int i = num_token (i < 0) (show_nat (nat \<bar>i\<bar>)) [] None"
  by (simp add: show_int_def num_token_def show_sign_def exp_text_def)

lemma strtol_token:
  assumes "INT_MIN \<le> i" and "i \<le> INT_MAX"
  shows "strtol (show_int i) = (i, False, [])"
proof -
  have ds: "list_all is_digit (show_nat (nat \<bar>i\<bar>))" "show_nat (nat \<bar>i\<bar>) \<noteq> []"
    by (rule show_nat_digits show_nat_not_empty)+
  have s: "take_sign (show_int i) = (i < 0, show_nat (nat \<bar>i\<bar>))"
    using take_sign_digits [OF ds, of "i < 0" "[]"] by (simp add: show_int_token num_token_def exp_text_def)
  have t: "take_digits (show_nat (nat \<bar>i\<bar>)) = (show_nat (nat \<bar>i\<bar>), [])" using take_digits_append [OF ds(1), of "[]"] by simp
  have v: "(if i < 0 then - int (dec_from 0 (show_nat (nat \<bar>i\<bar>))) else int (dec_from 0 (show_nat (nat \<bar>i\<bar>)))) = i"
    by (simp add: dec_from_show)
  show ?thesis
    using assms ds(2) unfolding strtol_def Let_def s prod.case t v
    by (simp add: INT_MIN_def INT_MAX_def LONG_MIN_def LONG_MAX_def)
qed

lemma sint_range: "INT_MIN \<le> sint (v :: u32)" "sint (v :: u32) \<le> INT_MAX"
  using sint_greater_eq [of v] sint_less [of v] by (simp_all add: INT_MIN_def INT_MAX_def)

lemma parse_int:
  assumes "ends_number r"
  shows "parse_json_str_number (\<lambda>_. True) (show_int (sint v) @ r) = Some (JInt v, r)"
proof -
  have "scan_number (show_int (sint v) @ r) = Some (False, r)"
    unfolding show_int_token using scan_token [OF show_nat_digits show_nat_not_empty show_nat_leading _ _ assms, of "[]" None]
    by (simp add: exp_ok_def)
  then show ?thesis
    using strtol_token [OF sint_range] sint_range [of v] by (simp add: parse_json_str_number_def)
qed

lemma parse_real:
  assumes "float_mag v \<le> FLT_MAX" and "ends_number r"
  shows "parse_json_str_number (\<lambda>_. True) (snd (format_real v 64) @ r) = Some (JReal v, r)"
proof -
  obtain s neg ip fp ex where s: "format_real v 64 = (length s, s)" "real_text s neg ip fp ex" "strtof s = (v, [])"
    using real_reads_back [OF assms(1)] by blast
  have "scan_number (s @ r) = Some (True, r)"
    using s(2) scan_token [of ip fp ex r neg] assms(2) by (auto simp: real_text_def)
  then show ?thesis
    using s assms(1) by (simp add: parse_json_str_number_def FLT_MAX_def FLT_INF_def)
qed

section \<open>Strings\<close>

lemma hex_digit:
  assumes "n < 16"
  shows "hex_char_to_int (hex_digits ! n) = Some n"
proof -
  have "list_all (\<lambda>n. hex_char_to_int (hex_digits ! n) = Some n) [0..<16]" by code_simp
  then show ?thesis using assms by (simp add: list_all_iff)
qed

lemma hex_zero: "hex_char_to_int CHR ''0'' = Some 0"
  by (simp add: hex_char_to_int_def)

lemma hex4: "hex_char_to_int a = Some w \<Longrightarrow> hex_char_to_int b = Some x \<Longrightarrow> hex_char_to_int c = Some y \<Longrightarrow>
    hex_char_to_int d = Some z \<Longrightarrow> parse_hex4 (a # b # c # d # r) = Some (16 * (16 * (16 * w + x) + y) + z)"
proof -
  have "(4::nat) = Suc (Suc (Suc (Suc 0)))" by simp
  moreover assume "hex_char_to_int a = Some w" "hex_char_to_int b = Some x" "hex_char_to_int c = Some y"
    "hex_char_to_int d = Some z"
  then have "hex_loop (Suc (Suc (Suc (Suc 0)))) 0 (a # b # c # d # r) = Some (16 * (16 * (16 * w + x) + y) + z)" by simp
  ultimately show ?thesis by (simp only: parse_hex4_def)
qed

lemma escape_cases:
  obtains (short) e where "escape_char c = [CHR 0x5C, e]" and "simple_escape e = Some c"
  | (control) "escape_char c = [CHR 0x5C, CHR ''u'', CHR ''0'', CHR ''0'', hex_digits ! (ord c div 16), hex_digits ! (ord c mod 16)]"
      and "ord c < 0x20"
  | (plain) "escape_char c = [c]" and "0x20 \<le> ord c" and "c \<noteq> CHR 0x22" and "c \<noteq> CHR 0x5C"
proof (cases "short_escape c")
  case (Some e)
  then have "escape_char c = [CHR 0x5C, e]" "simple_escape e = Some c"
    by (auto simp: escape_char_def short_escape_def simple_escape_def split: if_splits)
  then show ?thesis by (rule short)
next
  case None
  then have "c \<noteq> CHR 0x22" "c \<noteq> CHR 0x5C" by (auto simp: short_escape_def split: if_splits)
  with None show ?thesis using control plain by (cases "ord c < 0x20") (simp_all add: escape_char_def)
qed

lemma find_quote_escaped: "find_quote (concat (map escape_char s) @ CHR 0x22 # r) = Some (concat (map escape_char s), r)"
proof (induction s)
  case (Cons c s)
  have h: "hex_digits ! n \<noteq> CHR 0x22 \<and> hex_digits ! n \<noteq> CHR 0x5C" if "n < 16" for n
    using hex_digit [OF that] by (auto simp: hex_char_to_int_def)
  show ?case
  proof (cases c rule: escape_cases)
    case control
    have "ord c div 16 < 16" "ord c mod 16 < 16" using control(2) by auto
    with control Cons h show ?thesis by simp
  qed (use Cons in simp_all)
qed simp

lemma decode_escaped: "NUL \<notin> set s \<Longrightarrow> decode_body (concat (map escape_char s)) = Some s"
proof (induction s)
  case (Cons c s)
  then have IH: "decode_body (concat (map escape_char s)) = Some s" and c: "c \<noteq> NUL" by auto
  show ?case
  proof (cases c rule: escape_cases)
    case (short e)
    then show ?thesis using IH by simp
  next
    case control
    define r where "r = concat (map escape_char s)"
    have "ord c div 16 < 16" "ord c mod 16 < 16" using control(2) by auto
    then have "parse_hex4 (CHR ''0'' # CHR ''0'' # hex_digits ! (ord c div 16) # hex_digits ! (ord c mod 16) # r) = Some (ord c)"
      by (subst hex4 [OF hex_zero hex_zero hex_digit hex_digit]) simp_all
    moreover have "ord c \<noteq> 0"
    proof
      assume "ord c = 0"
      then have "ord c = ord NUL" by (simp add: NUL_def)
      then show False using c by (simp only: of_char_eq_iff simp_thms)
    qed
    ultimately have "unicode_escape (CHR ''0'' # CHR ''0'' # hex_digits ! (ord c div 16) # hex_digits ! (ord c mod 16) # r) = Some (ord c, 4)"
      using control(2) by (simp add: unicode_escape_def)
    moreover have "utf8_encode (ord c) = [c]" using control(2) by (simp add: utf8_encode_def)
    moreover have "simple_escape CHR ''u'' = None" by (simp add: simple_escape_def)
    ultimately show ?thesis using control(1) IH by (simp add: r_def)
  next
    case plain
    then show ?thesis using IH by simp
  qed
qed simp

lemma parse_quoted:
  assumes "NUL \<notin> set s"
  shows "parse_json_string_raw True (quoted s @ r) = Some (s, r)"
  by (simp add: parse_json_string_raw_def quoted_def find_quote_escaped decode_escaped [OF assms])

section \<open>The shape of what is written\<close>

lemma white_spaces [simp]: "white_space SP" "white_space HTAB" "white_space LF"
  by (simp_all add: white_space_def)

lemma skip_tabs [simp]: "skip_ws (tabs b n @ s) = skip_ws s"
  by (induction n) (auto simp: tabs_def)

lemma skip_newline [simp]: "skip_ws (newline b @ s) = skip_ws s"
  by (simp add: newline_def)

lemma print_start:
  obtains c t where "print_json m i j = c # t" and "\<not> white_space c" and "c \<noteq> CHR '']''"
proof -
  have number: "\<exists>c t. s = c # t \<and> \<not> white_space c \<and> c \<noteq> CHR '']''"
    if "s = num_token neg ip fp ex" "list_all is_digit ip" "ip \<noteq> []" for s neg ip fp ex
    using that by (cases ip)
      (auto simp: num_token_def show_sign_def is_digit_def white_space_def SP_def HTAB_def LF_def CR_def)
  have "\<exists>c t. print_json m i j = c # t \<and> \<not> white_space c \<and> c \<noteq> CHR '']''"
  proof (cases j)
    case (JInt v)
    then show ?thesis using number [OF show_int_token show_nat_digits show_nat_not_empty] by simp
  next
    case (JReal v)
    show ?thesis
    proof (cases "float_mag v \<le> FLT_MAX")
      case True
      then obtain s neg ip fp ex where "format_real v 64 = (length s, s)" "real_text s neg ip fp ex"
        using real_reads_back by blast
      with number [of s neg ip fp ex] show ?thesis by (simp add: JReal real_text_def)
    next
      case False
      then show ?thesis
        by (simp add: JReal format_real_def snprintf_def white_space_def SP_def HTAB_def LF_def CR_def)
    qed
  qed (auto simp: quoted_def white_space_def SP_def HTAB_def LF_def CR_def Let_def)
  then show ?thesis using that by blast
qed

lemma skip_print [simp]: "skip_ws (print_json m i j @ r) = print_json m i j @ r"
  by (rule print_start [of m i j]) simp

declare dropWhile_eq_Nil_conv [simp del]

section \<open>Elements and members\<close>

lemma ends_numberI: "c # t = r \<Longrightarrow> c \<in> {CHR '','', LF, HTAB, CHR '']'', CHR ''}''} \<Longrightarrow> ends_number r"
  by (auto simp: ends_number_def LF_def HTAB_def is_digit_def)

lemma ends_tail: "ends_number (newline h @ tabs h i @ CHR '']'' # r)" "ends_number (newline h @ tabs h i @ CHR ''}'' # r)"
  by (auto simp: newline_def tabs_def ends_number_def LF_def HTAB_def is_digit_def split: list.splits)

lemma parse_printed_elements:
  assumes child: "\<And>j r. j \<in> set js \<Longrightarrow> ends_number r \<Longrightarrow>
      child (print_json h (Suc i) j @ r) = (if good j then Some (normalise j, r) else None)"
    and "js \<noteq> []" and "length js \<le> fuel"
  shows "parse_elements child (\<lambda>_. True) fuel acc (skip_ws (print_elements h i js @ tabs h i @ CHR '']'' # r)) =
    (if \<forall>j\<in>set js. good j then Some (JArray (acc @ map normalise js), r) else None)"
  using assms
proof (induction js arbitrary: fuel acc)
  case (Cons j js)
  obtain f where f: "fuel = Suc f" using Cons.prems(3) by (cases fuel) auto
  define after where "after = (if js \<noteq> [] then '', '' else []) @ newline h @ print_elements h i js @ tabs h i @ CHR '']'' # r"
  have start: "skip_ws (print_elements h i (j # js) @ tabs h i @ CHR '']'' # r) = print_json h (Suc i) j @ after"
    by (simp add: after_def)
  have ne: "print_json h (Suc i) j \<noteq> []" by (rule print_start [of h "Suc i" j]) simp
  show ?case
  proof (cases "js = []")
    case True
    then have a: "after = newline h @ tabs h i @ CHR '']'' # r" by (simp add: after_def)
    have "child (print_json h (Suc i) j @ after) = (if good j then Some (normalise j, after) else None)"
      using Cons.prems(1) [of j after] ends_tail(1) unfolding a by simp
    moreover have "skip_ws after = CHR '']'' # r"
      by (simp add: a white_space_def SP_def HTAB_def LF_def CR_def)
    ultimately show ?thesis unfolding start f using ne True by simp
  next
    case False
    then have a: "after = CHR '','' # SP # newline h @ print_elements h i js @ tabs h i @ CHR '']'' # r"
      by (simp add: after_def SP_def)
    have "child (print_json h (Suc i) j @ after) = (if good j then Some (normalise j, after) else None)"
      using Cons.prems(1) [of j after] by (simp add: a ends_number_def is_digit_def)
    moreover have "skip_ws after = after" by (simp add: a white_space_def SP_def HTAB_def LF_def CR_def)
    moreover have "parse_elements child (\<lambda>_. True) f (acc @ [normalise j])
        (skip_ws (print_elements h i js @ tabs h i @ CHR '']'' # r)) =
        (if \<forall>j\<in>set js. good j then Some (JArray ((acc @ [normalise j]) @ map normalise js), r) else None)"
      by (rule Cons.IH) (use Cons.prems False f in simp_all)
    ultimately show ?thesis unfolding start f using ne by (simp add: a)
  qed
qed simp

lemma parse_printed_pair:
  assumes "child (print_json m (Suc i) j @ r) = (if g then Some (j', r) else None)" and "NUL \<notin> set k"
  shows "parse_and_add_json_object_pair child (\<lambda>_. True) acc (quoted k @ '': '' @ print_json m (Suc i) j @ r) =
    (if g then Some (al_put k j' acc, r) else None)"
proof -
  have q: "quoted k @ '': '' @ print_json m (Suc i) j @ r \<noteq> []" "hd (quoted k @ '': '' @ print_json m (Suc i) j @ r) = CHR 0x22"
    by (simp_all add: quoted_def)
  have "skip_ws ('': '' @ print_json m (Suc i) j @ r) = CHR '':'' # SP # print_json m (Suc i) j @ r"
    by (simp add: white_space_def SP_def HTAB_def LF_def CR_def)
  moreover have "skip_ws (SP # print_json m (Suc i) j @ r) = print_json m (Suc i) j @ r" by simp
  ultimately show ?thesis
    unfolding parse_and_add_json_object_pair_def using q parse_quoted [OF assms(2)] assms(1) by simp
qed

lemma parse_printed_members:
  assumes child: "\<And>p r. p \<in> set ps \<Longrightarrow> ends_number r \<Longrightarrow>
      child (print_json m (Suc i) (snd p) @ r) = (if good (snd p) then Some (normalise (snd p), r) else None)"
    and "ps \<noteq> []" and "length ps \<le> fuel" and "\<forall>p\<in>set ps. NUL \<notin> set (fst p)"
    and "distinct (map fst acc @ map fst ps)"
  shows "parse_members child (\<lambda>_. True) fuel acc
      (skip_ws (print_members m i True ps @ newline m @ tabs m i @ CHR ''}'' # r)) =
    (if \<forall>p\<in>set ps. good (snd p) then Some (JObject (acc @ map (\<lambda>p. (fst p, normalise (snd p))) ps), r) else None)"
  using assms
proof (induction ps arbitrary: fuel acc)
  case (Cons p ps)
  obtain k j where p: "p = (k, j)" by (cases p)
  obtain f where f: "fuel = Suc f" using Cons.prems(3) by (cases fuel) auto
  define after where "after = print_members m i False ps @ newline m @ tabs m i @ CHR ''}'' # r"
  have start: "skip_ws (print_members m i True (p # ps) @ newline m @ tabs m i @ CHR ''}'' # r) =
      quoted k @ '': '' @ print_json m (Suc i) j @ after"
    by (simp add: after_def p) (simp add: quoted_def white_space_def SP_def HTAB_def LF_def CR_def)
  have ne: "quoted k @ '': '' @ print_json m (Suc i) j @ after \<noteq> []" by (simp add: quoted_def)
  have put: "al_put k (normalise j) acc = acc @ [(k, normalise j)]"
    using Cons.prems(5) by (auto simp: al_put_def p)
  show ?case
  proof (cases ps)
    case Nil
    then have a: "after = newline m @ tabs m i @ CHR ''}'' # r" by (simp add: after_def)
    have "child (print_json m (Suc i) j @ after) = (if good j then Some (normalise j, after) else None)"
      using Cons.prems(1) [of p after] ends_tail(2) unfolding a by (simp add: p)
    from parse_printed_pair [of child m i j after "good j" "normalise j" k acc, OF this]
    have "parse_and_add_json_object_pair child (\<lambda>_. True) acc
        (quoted k @ '': '' @ print_json m (Suc i) j @ after) = (if good j then Some (acc @ [(k, normalise j)], after) else None)"
      using Cons.prems(4) by (simp add: p put)
    moreover have "skip_ws after = CHR ''}'' # r"
      by (simp add: a white_space_def SP_def HTAB_def LF_def CR_def)
    ultimately show ?thesis unfolding start f using ne Nil by (simp add: p)
  next
    case (Cons p' ps')
    obtain k' j' where p': "p' = (k', j')" by (cases p')
    have a: "after = CHR '','' # SP # print_members m i True ps @ newline m @ tabs m i @ CHR ''}'' # r"
      by (simp add: after_def Cons p' SP_def)
    have "child (print_json m (Suc i) j @ after) = (if good j then Some (normalise j, after) else None)"
      using Cons.prems(1) [of p after] by (simp add: p a ends_number_def is_digit_def)
    from parse_printed_pair [of child m i j after "good j" "normalise j" k acc, OF this]
    have "parse_and_add_json_object_pair child (\<lambda>_. True) acc
        (quoted k @ '': '' @ print_json m (Suc i) j @ after) = (if good j then Some (acc @ [(k, normalise j)], after) else None)"
      using Cons.prems(4) by (simp add: p put)
    moreover have "skip_ws after = after" by (simp add: a white_space_def SP_def HTAB_def LF_def CR_def)
    moreover have "parse_members child (\<lambda>_. True) f (acc @ [(k, normalise j)])
        (skip_ws (print_members m i True ps @ newline m @ tabs m i @ CHR ''}'' # r)) =
        (if \<forall>p\<in>set ps. good (snd p) then Some (JObject ((acc @ [(k, normalise j)]) @ map (\<lambda>p. (fst p, normalise (snd p))) ps), r)
         else None)"
      by (rule Cons.IH) (use Cons.prems Cons f p in auto)
    ultimately show ?thesis unfolding start f using ne by (simp add: a p)
  qed
qed simp

lemma length_elements: "length js \<le> length (print_elements h i js)"
proof (induction js)
  case (Cons j js)
  have "print_json h (i + 1) j \<noteq> []" by (rule print_start [of h "i + 1" j]) simp
  then have "1 \<le> length (print_json h (i + 1) j)" by (cases "print_json h (i + 1) j") simp_all
  with Cons show ?case by simp
qed simp

lemma length_members: "length ps \<le> length (print_members m i first ps)"
proof (induction ps arbitrary: first)
  case (Cons p ps)
  obtain k j where p: "p = (k, j)" by (cases p)
  have "length ps \<le> length (print_members m i False ps)" by (rule Cons)
  then show ?case by (simp add: p)
qed simp

section \<open>Values\<close>

text \<open>The parser that a value at a level finds for what is inside it.\<close>

definition inner :: "mem \<Rightarrow> nat \<Rightarrow> string \<Rightarrow> (json \<times> string) option" where
  "inner mem n = (case n of 0 \<Rightarrow> \<lambda>_. None | Suc k \<Rightarrow> parse_levels mem k)"

lemma levels_eq: "parse_levels mem n = parse_json_str_partial (inner mem n) mem (BB_JSON_MAX_DEPTH - n)"
  by (cases n) (simp_all add: inner_def)

lemma parse_partial_start:
  assumes "\<not> white_space c"
  shows "parse_json_str_partial child mem depth (c # t) =
    (if c = CHR ''{'' then parse_json_str_object child mem depth (c # t)
     else if c = CHR ''['' then parse_json_str_array child mem depth (c # t)
     else if c = CHR ''n'' then parse_json_str_null mem (c # t)
     else if c = CHR ''t'' then parse_json_str_true mem (c # t)
     else if c = CHR ''f'' then parse_json_str_false mem (c # t)
     else if c = CHR 0x22 then parse_json_str_text mem (c # t)
     else if is_digit c \<or> c = CHR ''-'' \<and> digit_next t then parse_json_str_number mem (c # t)
     else None)"
  using assms by (simp add: parse_json_str_partial_def)

lemma parse_number_token:
  assumes "s = num_token neg ip fp ex" and "list_all is_digit ip" and "ip \<noteq> []"
  shows "parse_json_str_partial child mem depth (s @ r) = parse_json_str_number mem (s @ r)"
proof -
  obtain c t where ip: "ip = c # t" using assms(3) by (cases ip) auto
  then have c: "is_digit c" using assms(2) by simp
  then have "ord CHR ''0'' \<le> ord c" "ord c \<le> ord CHR ''9''" by (simp_all add: is_digit_def)
  then have "c \<notin> {CHR ''{'', CHR ''['', CHR ''n'', CHR ''t'', CHR ''f'', CHR 0x22, SP, HTAB, LF, CR}"
    by (auto simp: SP_def HTAB_def LF_def CR_def)
  then show ?thesis
    using c unfolding assms(1) num_token_def show_sign_def ip
    by (simp add: parse_partial_start white_space_def digit_next_def SP_def HTAB_def LF_def CR_def)
qed

lemma parse_scalar:
  assumes "json_ok j" and "\<not> is_container j" and "ends_number r"
  shows "parse_json_str_partial child (\<lambda>_. True) depth (print_json m i j @ r) = Some (normalise j, r)"
proof (cases j)
  case JNull
  then show ?thesis
    by (simp add: parse_partial_start white_space_def SP_def HTAB_def LF_def CR_def parse_json_str_null_def literal_def)
next
  case (JBool b)
  then show ?thesis
    by (simp add: parse_partial_start white_space_def SP_def HTAB_def LF_def CR_def parse_json_str_true_def
        parse_json_str_false_def literal_def)
next
  case (JInt v)
  then show ?thesis
    using parse_number_token [OF show_int_token show_nat_digits show_nat_not_empty, of child "\<lambda>_. True" depth "sint v" r]
      parse_int [OF assms(3), of v] by simp
next
  case (JReal v)
  show ?thesis
  proof (cases "float_mag v \<le> FLT_MAX")
    case True
    then obtain s neg ip fp ex where "format_real v 64 = (length s, s)" "real_text s neg ip fp ex"
      using real_reads_back by blast
    then show ?thesis
      using parse_number_token [of s neg ip fp ex child "\<lambda>_. True" depth r] parse_real [OF True assms(3)] True
      by (simp add: JReal real_text_def)
  next
    case False
    then show ?thesis
      by (simp add: JReal format_real_def snprintf_def parse_partial_start white_space_def SP_def HTAB_def LF_def CR_def
          parse_json_str_null_def literal_def)
  qed
next
  case (JText t)
  define s where "s = (case t of None \<Rightarrow> [] | Some s \<Rightarrow> s)"
  have "NUL \<notin> set s" using assms(1) JText by (auto simp: s_def split: option.splits)
  from parse_quoted [OF this] have "parse_json_str_text (\<lambda>_. True) (quoted s @ r) = Some (JText (Some s), r)"
    by (simp add: parse_json_str_text_def)
  moreover have "parse_json_str_partial child (\<lambda>_. True) depth (quoted s @ r) = parse_json_str_text (\<lambda>_. True) (quoted s @ r)"
    by (simp add: quoted_def parse_partial_start white_space_def SP_def HTAB_def LF_def CR_def)
  ultimately show ?thesis by (simp add: JText s_def)
qed (use assms(2) in \<open>simp_all add: is_container_def\<close>)

lemma depth_left [simp]: "\<not> BB_JSON_MAX_DEPTH \<le> BB_JSON_MAX_DEPTH - Suc k"
proof -
  have "BB_JSON_MAX_DEPTH - Suc k < BB_JSON_MAX_DEPTH" by (rule diff_less) (simp_all add: BB_JSON_MAX_DEPTH_def)
  then show ?thesis by simp
qed

lemma parse_printed:
  "json_ok j \<Longrightarrow> n \<le> BB_JSON_MAX_DEPTH \<Longrightarrow> ends_number r \<or> is_container j \<Longrightarrow>
   parse_levels (\<lambda>_. True) n (print_json m i j @ r) = (if nesting j \<le> n then Some (normalise j, r) else None)"
proof (induction j arbitrary: m i n r)
  case (JArray js)
  show ?case
  proof (cases n)
    case 0
    then show ?thesis
      by (simp add: levels_eq parse_partial_start white_space_def SP_def HTAB_def LF_def CR_def Let_def
          parse_json_str_array_def)
  next
    case n: (Suc k)
    define h where "h \<longleftrightarrow> m \<and> list_ex is_container js"
    have child: "parse_levels (\<lambda>_. True) k (print_json h (Suc i) j @ r') = (if nesting j \<le> k then Some (normalise j, r') else None)"
      if "j \<in> set js" "ends_number r'" for j r'
      using JArray.IH [OF that(1), of k r'] JArray.prems(1,2) that n by auto
    define tail where "tail = newline h @ print_elements h i js @ tabs h i @ CHR '']'' # r"
    have s: "print_json m i (JArray js) @ r = CHR ''['' # tail" by (simp add: tail_def h_def Let_def)
    have "parse_json_str_array (parse_levels (\<lambda>_. True) k) (\<lambda>_. True) (BB_JSON_MAX_DEPTH - n) (CHR ''['' # tail) =
        (if \<forall>j\<in>set js. nesting j \<le> k then Some (JArray (map normalise js), r) else None)"
    proof (cases "js = []")
      case True
      then show ?thesis
        by (simp add: parse_json_str_array_def n tail_def h_def tabs_def white_space_def
            SP_def HTAB_def LF_def CR_def)
    next
      case False
      have "parse_elements (parse_levels (\<lambda>_. True) k) (\<lambda>_. True) (length (CHR ''['' # tail)) []
          (skip_ws (print_elements h i js @ tabs h i @ CHR '']'' # r)) =
          (if \<forall>j\<in>set js. nesting j \<le> k then Some (JArray ([] @ map normalise js), r) else None)"
        using length_elements [of js h i] by (intro parse_printed_elements child False) (auto simp: tail_def)
      moreover have "skip_ws tail = skip_ws (print_elements h i js @ tabs h i @ CHR '']'' # r)" by (simp add: tail_def)
      moreover obtain c t where "skip_ws (print_elements h i js @ tabs h i @ CHR '']'' # r) = c # t" "c \<noteq> CHR '']''"
      proof -
        obtain j js' where js: "js = j # js'" using False by (cases js) auto
        obtain c t where "print_json h (i + 1) j = c # t" "\<not> white_space c" "c \<noteq> CHR '']''" by (rule print_start)
        then show ?thesis using that by (simp add: js)
      qed
      ultimately show ?thesis
        by (simp add: parse_json_str_array_def n)
    qed
    moreover have "(\<forall>j\<in>set js. nesting j \<le> k) \<longleftrightarrow> nesting (JArray js) \<le> n" by (simp add: n)
    ultimately have a: "parse_json_str_array (parse_levels (\<lambda>_. True) k) (\<lambda>_. True) (BB_JSON_MAX_DEPTH - n) (CHR ''['' # tail) =
        (if nesting (JArray js) \<le> n then Some (normalise (JArray js), r) else None)" by (simp only: normalise.simps)
    show ?thesis
      unfolding s levels_eq [of _ n] a [symmetric]
      by (simp add: parse_partial_start white_space_def SP_def HTAB_def LF_def CR_def n inner_def)
  qed
next
  case (JObject ps)
  show ?case
  proof (cases n)
    case 0
    then show ?thesis
      by (simp add: levels_eq parse_partial_start white_space_def SP_def HTAB_def LF_def CR_def Let_def
          parse_json_str_object_def)
  next
    case n: (Suc k)
    have child: "parse_levels (\<lambda>_. True) k (print_json m (Suc i) (snd p) @ r') =
        (if nesting (snd p) \<le> k then Some (normalise (snd p), r') else None)"
      if "p \<in> set ps" "ends_number r'" for p r'
    proof -
      have "snd p \<in> Basic_BNFs.snds p" by (cases p) simp
      then show ?thesis
        using JObject.IH [OF that(1), of "snd p" k r'] JObject.prems(1,2) that n by auto
    qed
    define tail where "tail = print_members m i True ps @ newline m @ tabs m i @ CHR ''}'' # r"
    have s: "print_json m i (JObject ps) @ r = CHR ''{'' # tail" by (simp add: tail_def)
    have "parse_json_str_object (parse_levels (\<lambda>_. True) k) (\<lambda>_. True) (BB_JSON_MAX_DEPTH - n) (CHR ''{'' # tail) =
        (if \<forall>p\<in>set ps. nesting (snd p) \<le> k then Some (JObject (map (\<lambda>p. (fst p, normalise (snd p))) ps), r) else None)"
    proof (cases "ps = []")
      case True
      then show ?thesis
        by (simp add: parse_json_str_object_def n tail_def white_space_def
            SP_def HTAB_def LF_def CR_def)
    next
      case False
      have "parse_members (parse_levels (\<lambda>_. True) k) (\<lambda>_. True) (length (CHR ''{'' # tail)) []
          (skip_ws tail) = (if \<forall>p\<in>set ps. nesting (snd p) \<le> k
            then Some (JObject ([] @ map (\<lambda>p. (fst p, normalise (snd p))) ps), r) else None)"
        unfolding tail_def using length_members [of ps m i True] JObject.prems(1)
        by (intro parse_printed_members child False) auto
      moreover obtain c t where "skip_ws tail = c # t" "c \<noteq> CHR ''}''"
      proof -
        obtain k' j ps' where ps: "ps = (k', j) # ps'" using False by (cases ps) auto
        then show ?thesis using that
          by (simp add: tail_def quoted_def white_space_def SP_def HTAB_def LF_def CR_def)
      qed
      ultimately show ?thesis
        by (simp add: parse_json_str_object_def n)
    qed
    moreover have "(\<forall>p\<in>set ps. nesting (snd p) \<le> k) \<longleftrightarrow> nesting (JObject ps) \<le> n" by (simp add: n)
    ultimately have a: "parse_json_str_object (parse_levels (\<lambda>_. True) k) (\<lambda>_. True) (BB_JSON_MAX_DEPTH - n) (CHR ''{'' # tail) =
        (if nesting (JObject ps) \<le> n then Some (normalise (JObject ps), r) else None)" by (simp only: normalise.simps)
    show ?thesis
      unfolding s levels_eq [of _ n] a [symmetric]
      by (simp add: parse_partial_start white_space_def SP_def HTAB_def LF_def CR_def n inner_def)
  qed
next
  case JNull
  then show ?case unfolding levels_eq [of _ n] by (subst parse_scalar) (simp_all add: is_container_def)
next
  case (JBool b)
  then show ?case unfolding levels_eq [of _ n] by (subst parse_scalar) (simp_all add: is_container_def)
next
  case (JInt v)
  then show ?case unfolding levels_eq [of _ n] by (subst parse_scalar) (simp_all add: is_container_def)
next
  case (JReal v)
  then show ?case unfolding levels_eq [of _ n] by (subst parse_scalar) (simp_all add: is_container_def)
next
  case (JText t)
  then show ?case unfolding levels_eq [of _ n] by (subst parse_scalar) (simp_all add: is_container_def)
qed

section \<open>The public functions\<close>

lemma print_not_empty: "print_json m i j \<noteq> []"
  by (rule print_start [of m i j]) simp

lemma serialize_spec:
  assumes "int (length (print_json m 0 j)) < INT_MAX"
  shows "serialized_size m (Some j) = Some (int (length (print_json m 0 j)))"
    and "length b = length (print_json m 0 j) + 1 \<Longrightarrow> fill_buffer m (Some j) b = Some (print_json m 0 j @ [NUL])"
proof -
  define s where "s = print_json m 0 j"
  have w: "writes (serialize_json m 0 j) s" unfolding s_def by (rule serialize_writes)
  then have "serialize_json m 0 j (0, None) = Some (length s, None)" by (simp add: writes_def)
  then show "serialized_size m (Some j) = Some (int (length (print_json m 0 j)))"
    using assms by (simp add: serialized_size_def s_def)
  assume b: "length b = length (print_json m 0 j) + 1"
  then have "0 + length s < length b" by (simp add: s_def)
  then obtain b' where b': "serialize_json m 0 j (0, Some b) = Some (0 + length s, Some b')" "length b' = length b"
    "take (0 + length s) b' = take 0 b @ s" "s \<noteq> [] \<or> b ! 0 = NUL \<longrightarrow> b' ! (0 + length s) = NUL"
    using w unfolding writes_def by blast
  have "b' = take (length s) b' @ [b' ! length s]"
    using b'(2) b take_Suc_conv_app_nth [of "length s" b'] by (simp add: s_def)
  also have "\<dots> = s @ [NUL]" using b'(3,4) print_not_empty [of m 0 j] by (simp add: s_def)
  finally show "fill_buffer m (Some j) b = Some (print_json m 0 j @ [NUL])"
    using b'(1) by (simp add: fill_buffer_def s_def)
qed

lemma escape_no_nul: "NUL \<notin> set (escape_char c)"
proof (cases c rule: escape_cases)
  case (short e)
  then show ?thesis by (auto simp: simple_escape_def NUL_def split: if_splits)
next
  case control
  have h: "hex_digits ! n \<noteq> NUL" if "n < 16" for n
    using hex_digit [OF that] by (auto simp: hex_char_to_int_def NUL_def)
  have "hex_digits ! (ord c div 16) \<noteq> NUL" "hex_digits ! (ord c mod 16) \<noteq> NUL"
    using control(2) by (simp_all add: h)
  then show ?thesis using control(1) by (auto simp: NUL_def)
next
  case plain
  then show ?thesis by (auto simp: NUL_def)
qed

lemma quoted_no_nul: "NUL \<notin> set (quoted s)"
  using escape_no_nul by (auto simp: quoted_def NUL_def)

lemma token_no_nul:
  assumes "list_all is_digit ip" and "list_all is_digit fp" and "exp_ok ex"
  shows "NUL \<notin> set (num_token neg ip fp ex)"
proof -
  have d: "NUL \<notin> set ds" if "list_all is_digit ds" for ds
    using that by (auto simp: list_all_iff is_digit_def NUL_def)
  have "NUL \<notin> set (exp_text ex)"
    using assms(3) d by (auto simp: exp_text_def exp_ok_def NUL_def split: option.splits)
  then show ?thesis using d [OF assms(1)] d [OF assms(2)] by (auto simp: num_token_def show_sign_def NUL_def)
qed

lemma layout_no_nul: "NUL \<notin> set (tabs b n)" "NUL \<notin> set (newline b)"
  by (auto simp: tabs_def newline_def NUL_def HTAB_def LF_def)

lemma print_no_nul:
  "NUL \<notin> set (print_json m i j)"
  "NUL \<notin> set (print_elements m i js)"
  "NUL \<notin> set (print_members m i first ps)"
proof (induction m i j and m i js and m i first ps rule: print_json_print_elements_print_members.induct)
  case (3 m i v)
  then show ?case using token_no_nul [OF show_nat_digits, of "[]" None] by (simp add: show_int_token exp_ok_def)
next
  case (4 m i v)
  show ?case
  proof (cases "float_mag v \<le> FLT_MAX")
    case True
    then obtain s neg ip fp ex where "format_real v 64 = (length s, s)" "real_text s neg ip fp ex"
      using real_reads_back by blast
    then show ?thesis using token_no_nul by (simp add: real_text_def)
  next
    case False
    then show ?thesis by (simp add: format_real_def snprintf_def NUL_def)
  qed
next
  case (5 m i t)
  then show ?case using quoted_no_nul by simp
next
  case (6 m i js)
  then show ?case using layout_no_nul by (simp add: Let_def NUL_def)
next
  case (7 m i ps)
  then show ?case using layout_no_nul by (simp add: NUL_def)
next
  case (9 h i j js)
  then show ?case using layout_no_nul by (simp add: NUL_def)
next
  case (11 m i first k j ps)
  then show ?case using layout_no_nul quoted_no_nul by (simp add: NUL_def)
qed (simp_all add: NUL_def)

lemma cstr_printed: "cstr (print_json m i j @ [NUL]) = print_json m i j"
proof -
  have "\<And>c. c \<in> set (print_json m i j) \<Longrightarrow> c \<noteq> NUL" using print_no_nul(1) by metis
  then show ?thesis by (simp add: cstr_def takeWhile_append2)
qed

lemma parse_serialized:
  assumes "json_ok j"
  shows "bb_json_parse (\<lambda>_. True) (Some (print_json m 0 j @ [NUL])) =
    (if nesting j \<le> BB_JSON_MAX_DEPTH then Some (normalise j) else None)"
  using parse_printed [OF assms order_refl, of "[]" m 0]
  by (simp add: bb_json_parse_def cstr_printed ends_number_def)

section \<open>Failing allocations\<close>

text \<open>A parser that reads less when allocations fail.\<close>

lemma elements_mono:
  assumes "\<And>s x. child s = Some x \<Longrightarrow> child' s = Some x"
  shows "parse_elements child mem fuel js s = Some x \<Longrightarrow> parse_elements child' (\<lambda>_. True) fuel js s = Some x"
  by (induction fuel arbitrary: js s)
    (auto split: if_splits option.splits list.splits dest!: assms)

lemma pair_mono:
  assumes "\<And>s x. child s = Some x \<Longrightarrow> child' s = Some x"
  shows "parse_and_add_json_object_pair child mem ps s = Some x \<Longrightarrow>
    parse_and_add_json_object_pair child' (\<lambda>_. True) ps s = Some x"
  by (auto simp: parse_and_add_json_object_pair_def parse_json_string_raw_def
      split: if_splits option.splits list.splits prod.splits dest!: assms)

lemma members_mono:
  assumes "\<And>s x. child s = Some x \<Longrightarrow> child' s = Some x"
  shows "parse_members child mem fuel ps s = Some x \<Longrightarrow> parse_members child' (\<lambda>_. True) fuel ps s = Some x"
proof (induction fuel arbitrary: ps s)
  case (Suc fuel)
  from Suc.prems obtain ps' r where p: "parse_and_add_json_object_pair child mem ps s = Some (ps', r)" "s \<noteq> []"
    by (auto split: if_splits option.splits)
  have p': "parse_and_add_json_object_pair child' (\<lambda>_. True) ps s = Some (ps', r)"
    by (rule pair_mono [of child child', OF _ p(1)]) (rule assms)
  show ?case
  proof (cases "skip_ws r")
    case (Cons c t)
    then show ?thesis using Suc p p' by (simp split: if_splits)
  qed (use Suc.prems p in simp)
qed simp

lemma number_mem: "parse_json_str_number mem s = (if mem (length s) then parse_json_str_number (\<lambda>_. True) s else None)"
  by (cases "scan_number s") (auto simp: parse_json_str_number_def)

lemma partial_mono:
  assumes "\<And>s x. child s = Some x \<Longrightarrow> child' s = Some x" and "parse_json_str_partial child mem depth s = Some x"
  shows "parse_json_str_partial child' (\<lambda>_. True) depth s = Some x"
proof (cases "skip_ws s")
  case Nil
  then show ?thesis using assms(2) unfolding parse_json_str_partial_def by (simp only: list.case)
next
  case (Cons c t)
  have ms: "parse_members child' (\<lambda>_. True) f ps u = Some x" if "parse_members child mem f ps u = Some x" for f ps u
    by (rule members_mono [of child child', OF _ that]) (rule assms(1))
  have es: "parse_elements child' (\<lambda>_. True) f js u = Some x" if "parse_elements child mem f js u = Some x" for f js u
    by (rule elements_mono [of child child', OF _ that]) (rule assms(1))
  have "parse_json_str_object child' (\<lambda>_. True) depth (c # t) = Some x"
    if "parse_json_str_object child mem depth (c # t) = Some x"
    using that ms unfolding parse_json_str_object_def
    by (cases "skip_ws (tl (c # t))") (simp_all split: if_splits del: parse_members.simps list.size)
  moreover have "parse_json_str_array child' (\<lambda>_. True) depth (c # t) = Some x"
    if "parse_json_str_array child mem depth (c # t) = Some x"
    using that es unfolding parse_json_str_array_def
    by (cases "skip_ws (tl (c # t))") (simp_all split: if_splits del: parse_elements.simps list.size)
  moreover have "literal (\<lambda>_. True) w j (c # t) = Some x" if "literal mem w j (c # t) = Some x" for w j
    using that by (simp add: literal_def split: if_splits)
  moreover have "parse_json_str_text (\<lambda>_. True) (c # t) = Some x" if "parse_json_str_text mem (c # t) = Some x"
    using that by (simp add: parse_json_str_text_def parse_json_string_raw_def split: if_splits option.splits prod.splits)
  moreover have "parse_json_str_number (\<lambda>_. True) (c # t) = Some x" if "parse_json_str_number mem (c # t) = Some x"
    using that number_mem [of mem "c # t"] by (simp split: if_splits)
  ultimately show ?thesis
    using assms(2) unfolding parse_json_str_partial_def Cons list.case parse_json_str_null_def parse_json_str_true_def
      parse_json_str_false_def by (auto split: if_splits)
qed

lemma levels_mono: "parse_levels mem n s = Some x \<Longrightarrow> parse_levels (\<lambda>_. True) n s = Some x"
proof (induction n arbitrary: s x)
  case 0
  then show ?case using partial_mono [of "\<lambda>_. None" "\<lambda>_. None" mem] by simp
next
  case (Suc n)
  then show ?case
    using partial_mono [of "parse_levels mem n" "parse_levels (\<lambda>_. True) n" mem] unfolding parse_levels.simps by blast
qed

section \<open>What the parser builds\<close>

lemma hex_digit_bound: "hex_char_to_int c = Some d \<Longrightarrow> d < 16"
  by (auto simp: hex_char_to_int_def split: if_splits)

lemma hex_loop_bound: "hex_loop k v s = Some w \<Longrightarrow> k \<le> length s \<and> w < (v + 1) * 16 ^ k"
proof (induction k v s rule: hex_loop.induct)
  case (3 k v c s)
  then obtain d where d: "hex_char_to_int c = Some d" "hex_loop k (16 * v + d) s = Some w" by (auto split: option.splits)
  from 3 d have "k \<le> length s" and w: "w < (16 * v + d + 1) * 16 ^ k" by auto
  moreover have "(16 * v + d + 1) * 16 ^ k \<le> (16 * (v + 1)) * 16 ^ k"
    using hex_digit_bound [OF d(1)] by (intro mult_right_mono) auto
  then have "w < (16 * (v + 1)) * 16 ^ k" using w by linarith
  ultimately show ?case by (simp add: distrib_right mult.assoc mult.left_commute)
qed simp_all

lemma parse_hex4_bound: "parse_hex4 s = Some v \<Longrightarrow> 4 \<le> length s \<and> v < 0x10000"
  unfolding parse_hex4_def by (drule hex_loop_bound) simp

lemma unicode_escape_bound:
  assumes "unicode_escape s = Some (cp, n)"
  shows "cp \<noteq> 0 \<and> n \<le> length s \<and> (n = 4 \<and> cp < 0x10000 \<or> n = 10 \<and> cp < 0x110000)"
proof -
  obtain v where v: "parse_hex4 s = Some v" using assms by (auto simp: unicode_escape_def split: option.splits)
  note vb = parse_hex4_bound [OF v]
  show ?thesis
  proof (cases "0xD800 \<le> v \<and> v \<le> 0xDBFF")
    case True
    then obtain low where low: "parse_hex4 (drop 6 s) = Some low" "0xDC00 \<le> low" "low \<le> 0xDFFF"
      "cp = 0x10000 + (v - 0xD800) * 1024 + (low - 0xDC00)" "n = 10"
      using assms v by (auto simp: unicode_escape_def split: if_splits option.splits)
    have "4 \<le> length (drop 6 s)" using parse_hex4_bound [OF low(1)] by blast
    then have "10 \<le> length s" unfolding length_drop by linarith
    moreover have "v - 0xD800 \<le> 0x3FF" "low - 0xDC00 \<le> 0x3FF" using True low(3) by auto
    ultimately show ?thesis using low(4,5) by simp
  next
    case False
    then show ?thesis using assms v vb by (auto simp: unicode_escape_def split: if_splits)
  qed
qed

lemma char_of_not_nul: "0 < n \<Longrightarrow> n < 256 \<Longrightarrow> char_of (n :: nat) \<noteq> NUL"
proof
  assume n: "0 < n" "n < 256" and "char_of n = NUL"
  then have "ord (char_of n :: char) = ord NUL" by simp
  with n show False by (simp add: NUL_def)
qed

lemma utf8_ok:
  assumes "0 < cp" and "cp < 0x110000"
  shows "NUL \<notin> set (utf8_encode cp)" and "length (utf8_encode cp) \<le> 4"
    and "cp < 0x10000 \<Longrightarrow> length (utf8_encode cp) \<le> 3"
proof -
  have tail: "char_of (0x80 + k mod 64) \<noteq> NUL" for k :: nat
  proof -
    have "k mod 64 < 64" by simp
    then show ?thesis by (intro char_of_not_nul) linarith+
  qed
  have d: "cp div 64 < 32" if "cp < 0x800" using that by (simp add: less_mult_imp_div_less)
  have e: "cp div 4096 < 16" if "cp < 0x10000" using that by (simp add: less_mult_imp_div_less)
  have f: "cp div 262144 < 5" using assms(2) by (simp add: less_mult_imp_div_less)
  show "NUL \<notin> set (utf8_encode cp)"
    using tail tail [THEN not_sym] char_of_not_nul [of cp] char_of_not_nul [of "0xC0 + cp div 64"] char_of_not_nul [of "0xE0 + cp div 4096"]
      char_of_not_nul [of "0xF0 + cp div 262144"] d e f assms(1)
    unfolding utf8_encode_def by (auto split: if_splits)
qed (simp_all add: utf8_encode_def)

lemma decode_ok: "decode_body s = Some t \<Longrightarrow> NUL \<notin> set t \<and> length t \<le> length s"
proof (induction s arbitrary: t rule: decode_body.induct)
  case (2 c s)
  have c: "\<not> ord c < 0x20" using "2.prems" by (auto split: if_splits)
  show ?case
  proof (cases "c = CHR 0x5C")
    case False
    then obtain t' where "decode_body s = Some t'" "t = c # t'" using "2.prems" c by auto
    then show ?thesis using "2.IH"(1) [OF c False] c by (auto simp: NUL_def)
  next
    case True
    then obtain e u where s: "s = e # u" using "2.prems" c by (cases s) auto
    show ?thesis
    proof (cases "simple_escape e")
      case (Some x)
      then obtain t' where t': "decode_body u = Some t'" "t = x # t'" using "2.prems" c True s by auto
      moreover have "x \<noteq> NUL" using Some by (auto simp: simple_escape_def NUL_def split: if_splits)
      ultimately show ?thesis using "2.IH"(3) [of e u x t'] c True s Some by auto
    next
      case None
      then obtain cp n t' where d: "unicode_escape u = Some (cp, n)" "decode_body (drop n u) = Some t'" "t = utf8_encode cp @ t'"
        and e: "e = CHR ''u''"
        using "2.prems" c True s by (auto split: if_splits option.splits)
      note b = unicode_escape_bound [OF d(1)]
      have "NUL \<notin> set t' \<and> length t' \<le> length (drop n u)"
        using "2.IH"(2) [of e u "(cp, n)" cp n t'] c True s None e d by auto
      moreover have "length (utf8_encode cp) \<le> n" using b utf8_ok [of cp] by auto
      moreover have "NUL \<notin> set (utf8_encode cp)" using b utf8_ok(1) [of cp] by auto
      ultimately show ?thesis using b by (auto simp: d(3) s)
    qed
  qed
qed auto

lemma raw_ok: "parse_json_string_raw ok s = Some (t, r) \<Longrightarrow> NUL \<notin> set t"
  by (auto simp: parse_json_string_raw_def split: option.splits if_splits dest: decode_ok)

text \<open>A document that the parser can have built, at most so deep.\<close>

definition parsed :: "nat \<Rightarrow> json \<Rightarrow> bool" where
  "parsed n j \<longleftrightarrow> json_ok j \<and> normalise j = j \<and> nesting j \<le> n"

lemma parsed_array: "(\<forall>j\<in>set js. parsed n j) \<Longrightarrow> parsed (Suc n) (JArray js)"
  by (auto simp: parsed_def map_idI)

lemma parsed_object:
  "(\<forall>p\<in>set ps. NUL \<notin> set (fst p) \<and> parsed n (snd p)) \<Longrightarrow> distinct (map fst ps) \<Longrightarrow> parsed (Suc n) (JObject ps)"
  by (auto simp: parsed_def intro!: map_idI)

lemma elements_parsed:
  assumes "\<And>s j r. child s = Some (j, r) \<Longrightarrow> parsed n j"
  shows "parse_elements child mem fuel js s = Some (j, r) \<Longrightarrow> \<forall>j\<in>set js. parsed n j \<Longrightarrow> parsed (Suc n) j"
proof (induction fuel arbitrary: js s)
  case (Suc fuel)
  from Suc.prems(1) obtain j1 r1 where c: "child s = Some (j1, r1)" "s \<noteq> []" "mem (length r1)"
    by (auto split: if_splits option.splits)
  have all: "\<forall>j\<in>set (js @ [j1]). parsed n j" using assms [OF c(1)] Suc.prems(2) by auto
  show ?case
  proof (cases "skip_ws r1")
    case (Cons c' t)
    then show ?thesis using Suc.prems(1) c Suc.IH [OF _ all] parsed_array [OF all] by (auto split: if_splits)
  qed (use Suc.prems(1) c in simp)
qed simp

lemma put_set: "p \<in> set (al_put k v ps) \<Longrightarrow> p = (k, v) \<or> p \<in> set ps"
  by (auto simp: al_put_def split: if_splits)

lemma members_parsed:
  assumes "\<And>s j r. child s = Some (j, r) \<Longrightarrow> parsed n j"
  shows "parse_members child mem fuel ps s = Some (j, r) \<Longrightarrow>
    \<forall>p\<in>set ps. NUL \<notin> set (fst p) \<and> parsed n (snd p) \<Longrightarrow> distinct (map fst ps) \<Longrightarrow> parsed (Suc n) j"
proof (induction fuel arbitrary: ps s)
  case (Suc fuel)
  from Suc.prems(1) obtain ps' r1 where c: "parse_and_add_json_object_pair child mem ps s = Some (ps', r1)" "s \<noteq> []"
    by (auto split: if_splits option.splits)
  then obtain k s1 s2 v where k: "parse_json_string_raw (mem (length s)) s = Some (k, s1)" "child s2 = Some (v, r1)"
    "ps' = al_put k v ps"
    by (auto simp: parse_and_add_json_object_pair_def split: if_splits option.splits list.splits)
  have all: "\<forall>p\<in>set ps'. NUL \<notin> set (fst p) \<and> parsed n (snd p)"
    using Suc.prems(2) raw_ok [OF k(1)] assms [OF k(2)] put_set [of _ k v ps] unfolding k(3) by fastforce
  have d: "distinct (map fst ps')" unfolding k(3) by (rule put_distinct [OF Suc.prems(3)])
  show ?case
  proof (cases "skip_ws r1")
    case (Cons c' t)
    then show ?thesis using Suc.prems(1) c Suc.IH [OF _ all d] parsed_object [OF all d] by (auto split: if_splits)
  qed (use Suc.prems(1) c in simp)
qed simp

lemma number_parsed:
  assumes "parse_json_str_number mem s = Some (j, r)"
  shows "parsed 0 j"
proof -
  obtain real r' where sc: "scan_number s = Some (real, r')"
    using assms by (auto simp: parse_json_str_number_def split: option.splits)
  have fin: "float_mag v \<le> FLT_MAX" if st: "strtof t = (v, e)" "float_mag v \<noteq> FLT_INF" for t v e
  proof -
    have "\<exists>neg d x. fst (strtof t) = make_float neg (scaled d x)"
      by (simp add: strtof_def Let_def case_prod_beta) blast
    then obtain neg d x where v: "v = make_float neg (scaled d x)" using st(1) by auto
    have "scaled d x \<le> FLT_INF" by (rule scaled_le)
    moreover from this have "float_mag v = scaled d x" unfolding v by (intro float_parts_make) (simp add: FLT_INF_def)
    ultimately show ?thesis using that(2) by (simp add: FLT_INF_def FLT_MAX_def)
  qed
  show ?thesis
    using assms sc fin
    by (cases real) (auto simp: parse_json_str_number_def parsed_def Let_def split: if_splits prod.splits)
qed

lemma parsed_mono: "parsed m j \<Longrightarrow> m \<le> n \<Longrightarrow> parsed n j"
  by (auto simp: parsed_def)

lemma partial_parsed:
  assumes child: "\<And>s j r. child s = Some (j, r) \<Longrightarrow> parsed n j"
    and "parse_json_str_partial child mem depth s = Some (j, r)"
  shows "parsed (if depth < BB_JSON_MAX_DEPTH then Suc n else 0) j"
proof (cases "skip_ws s")
  case Nil
  then show ?thesis using assms(2) unfolding parse_json_str_partial_def by simp
next
  case (Cons c t)
  define N where "N = (if depth < BB_JSON_MAX_DEPTH then Suc n else 0)"
  have empty: "parsed (Suc n) (JArray [])" "parsed (Suc n) (JObject [])"
    by (rule parsed_array parsed_object; simp)+
  have "parsed N j" if "parse_json_str_object child mem depth (c # t) = Some (j, r)"
    using that members_parsed [of child n mem _ "[]", OF child] empty(2) unfolding parse_json_str_object_def N_def
    by (cases "skip_ws (tl (c # t))") (auto split: if_splits simp del: parse_members.simps list.size)
  moreover have "parsed N j" if "parse_json_str_array child mem depth (c # t) = Some (j, r)"
    using that elements_parsed [of child n mem _ "[]", OF child] empty(1) unfolding parse_json_str_array_def N_def
    by (cases "skip_ws (tl (c # t))") (auto split: if_splits simp del: parse_elements.simps list.size)
  moreover have "parsed N j" if "literal mem w j' (c # t) = Some (j, r)" "j' \<in> {JNull, JBool True, JBool False}" for w j'
    using that by (auto simp: literal_def parsed_def split: if_splits)
  moreover have "parsed N j" if "parse_json_str_text mem (c # t) = Some (j, r)"
    using that by (auto simp: parse_json_str_text_def parsed_def dest: raw_ok)
  moreover have "parsed N j" if "parse_json_str_number mem (c # t) = Some (j, r)"
    using number_parsed [OF that] by (rule parsed_mono) simp
  ultimately have "parsed N j"
    using assms(2) unfolding parse_json_str_partial_def Cons list.case parse_json_str_null_def parse_json_str_true_def
      parse_json_str_false_def by (auto split: if_splits)
  then show ?thesis by (simp add: N_def)
qed

lemma levels_parsed: "n \<le> BB_JSON_MAX_DEPTH \<Longrightarrow> parse_levels mem n s = Some (j, r) \<Longrightarrow> parsed n j"
proof (induction n arbitrary: s j r)
  case 0
  then show ?case using partial_parsed [of "\<lambda>_. None" 0 mem BB_JSON_MAX_DEPTH s j r] by simp
next
  case (Suc n)
  have "parsed (if BB_JSON_MAX_DEPTH - Suc n < BB_JSON_MAX_DEPTH then Suc n else 0) j"
    by (rule partial_parsed [of "parse_levels mem n"]) (use Suc in auto)
  moreover have "BB_JSON_MAX_DEPTH - Suc n < BB_JSON_MAX_DEPTH" using depth_left by (simp only: not_le)
  ultimately show ?case by simp
qed

section \<open>Copies\<close>

fun null_text :: "json \<Rightarrow> bool" where
  "null_text (JText t) \<longleftrightarrow> t = None"
| "null_text (JArray js) \<longleftrightarrow> (\<exists>j\<in>set js. null_text j)"
| "null_text (JObject ps) \<longleftrightarrow> (\<exists>p\<in>set ps. null_text (snd p))"
| "null_text _ \<longleftrightarrow> False"

fun has_nan :: "json \<Rightarrow> bool" where
  "has_nan (JReal v) \<longleftrightarrow> is_nan v"
| "has_nan (JArray js) \<longleftrightarrow> (\<exists>j\<in>set js. has_nan j)"
| "has_nan (JObject ps) \<longleftrightarrow> (\<exists>p\<in>set ps. has_nan (snd p))"
| "has_nan _ \<longleftrightarrow> False"

lemma put_new: "k \<notin> fst ` set ps \<Longrightarrow> al_put k v ps = ps @ [(k, v)]"
  by (simp add: al_put_def)

lemma clone_spec:
  "json_ok j \<Longrightarrow> bb_json_clone ok j = (if ok \<and> \<not> null_text j then Some j else None)"
  "\<forall>j\<in>set js. json_ok j \<Longrightarrow>
   clone_elements ok js acc = (if js = [] \<or> ok \<and> (\<forall>j\<in>set js. \<not> null_text j) then Some (acc @ js) else None)"
  "\<forall>p\<in>set ps. json_ok (snd p) \<Longrightarrow> distinct (map fst acc' @ map fst ps) \<Longrightarrow>
   clone_members ok ps acc' = (if ps = [] \<or> ok \<and> (\<forall>p\<in>set ps. \<not> null_text (snd p)) then Some (acc' @ ps) else None)"
proof (induction ok j and ok js acc and ok ps acc' rule: bb_json_clone_clone_elements_clone_members.induct)
  case (1 ok t)
  then show ?case by (auto simp: set_value_text_def cstr_id split: option.splits)
next
  case (6 ok j js acc)
  then show ?case by (auto split: option.splits)
next
  case (8 ok k j ps acc)
  then have j: "bb_json_clone ok j = (if ok \<and> \<not> null_text j then Some j else None)" by simp
  show ?case
  proof (cases "ok \<and> \<not> null_text j")
    case True
    then have c: "bb_json_clone ok j = Some j" using j by simp
    have "al_put k j acc = acc @ [(k, j)]" using "8.prems"(2) by (intro put_new) auto
    then have "clone_members ok ps (acc @ [(k, j)]) =
        (if ps = [] \<or> ok \<and> (\<forall>p\<in>set ps. \<not> null_text (snd p)) then Some ((acc @ [(k, j)]) @ ps) else None)"
      using "8.IH"(2) [OF c] "8.prems" by simp
    then show ?thesis using True c \<open>al_put k j acc = acc @ [(k, j)]\<close> by auto
  next
    case False
    then show ?thesis using j by auto
  qed
qed auto

lemma equal_self:
  "json_ok j \<Longrightarrow> \<not> null_text j \<Longrightarrow> \<not> has_nan j \<Longrightarrow> bb_json_equal j j = Some True"
proof (induction j)
  case (JArray js)
  have "equal_elements ks ks = Some True" if "set ks \<subseteq> set js" for ks
    using that
  proof (induction ks)
    case (Cons k ks)
    have "bb_json_equal k k = Some True" using Cons.prems JArray by auto
    with Cons show ?case by simp
  qed simp
  then show ?case by simp
next
  case (JObject ps)
  have "equal_members qs ps = Some True" if "set qs \<subseteq> set ps" for qs
    using that
  proof (induction qs)
    case (Cons q qs)
    obtain k j where q: "q = (k, j)" by (cases q)
    have m: "q \<in> set ps" using Cons.prems by simp
    then have "map_of ps k = Some j" using JObject.prems(1) q by simp
    moreover have "bb_json_equal j j = Some True"
    proof -
      have "json_ok (snd q)" "\<not> null_text (snd q)" "\<not> has_nan (snd q)" using JObject.prems m by auto
      then show ?thesis using JObject.IH [OF m, of j] by (simp add: q)
    qed
    ultimately show ?case using Cons by (simp add: q)
  qed simp
  then show ?case by simp
qed (auto simp: float_eq_def)

section \<open>Properties\<close>

text \<open>C8: A document survives being written and read back, in both layouts. Serialising any
  well-formed document fills a buffer of exactly the announced length with its text and a zero, leaving
  nothing of what was in the buffer before and writing nowhere else; parsing that buffer gives the
  document back (numbers that are not finite as null, texts without a value as empty texts), provided
  its containers are nested at most 512 deep, and is refused otherwise.\<close>

theorem json_survives_writing_and_reading:
  assumes "json_ok j" and "int (length (print_json m 0 j)) < INT_MAX"
    and "malloc (length (print_json m 0 j) + 1) = Some b" and "length b = length (print_json m 0 j) + 1"
  shows "\<exists>text'. (if m then bb_json_serialize_indented else bb_json_serialize) malloc (Some j) (Some old) (Some any) =
      Some (JSON_OK, Some (Some (text' @ [NUL])), Some (int (length text'))) \<and>
    bb_json_parse (\<lambda>_. True) (Some (text' @ [NUL])) =
      (if nesting j \<le> BB_JSON_MAX_DEPTH then Some (normalise j) else None)"
proof (intro exI conjI)
  show "bb_json_parse (\<lambda>_. True) (Some (print_json m 0 j @ [NUL])) =
      (if nesting j \<le> BB_JSON_MAX_DEPTH then Some (normalise j) else None)"
    by (rule parse_serialized [OF assms(1)])
  show "(if m then bb_json_serialize_indented else bb_json_serialize) malloc (Some j) (Some old) (Some any) =
      Some (JSON_OK, Some (Some (print_json m 0 j @ [NUL])), Some (int (length (print_json m 0 j))))"
    using serialize_spec(1) [OF assms(2)] serialize_spec(2) [OF assms(2,4)] assms(3)
    by (cases m) (simp_all add: bb_json_serialize_def bb_json_serialize_indented_def)
qed

theorem json_survives_writing_and_reading_witness:
  "\<exists>text'. bb_json_serialize (\<lambda>n. Some (replicate n CHR ''x'')) (Some (JArray [JNull, JText (Some ''a'')])) (Some None) (Some 0) =
      Some (JSON_OK, Some (Some (text' @ [NUL])), Some (int (length text'))) \<and>
    bb_json_parse (\<lambda>_. True) (Some (text' @ [NUL])) = Some (JArray [JNull, JText (Some ''a'')])"
proof -
  have p: "print_json False 0 (JArray [JNull, JText (Some ''a'')]) = ''[null, '' @ [CHR 0x22] @ ''a'' @ [CHR 0x22] @ '']''"
    by (simp add: is_container_def newline_def tabs_def quoted_def escape_char_def short_escape_def)
  have len: "int (length (print_json False 0 (JArray [JNull, JText (Some ''a'')]))) < INT_MAX"
    unfolding p by (simp add: INT_MAX_def)
  have ok: "json_ok (JArray [JNull, JText (Some ''a'')])" by (simp add: NUL_def)
  show ?thesis
    using json_survives_writing_and_reading [OF ok len, of "\<lambda>n. Some (replicate n CHR ''x'')"
        "replicate (length (print_json False 0 (JArray [JNull, JText (Some ''a'')])) + 1) CHR ''x''" None 0]
    by (simp add: BB_JSON_MAX_DEPTH_def del: print_json.simps)
qed

text \<open>C13: The parser builds only well-formed documents, whatever bytes it is given and whichever
  allocations fail: the keys of an object differ, keys and texts are C strings, every real is finite, no
  container is nested deeper than 512. Without a failing allocation the result is the same, so a failure
  can only make the parse fail.\<close>

theorem parsed_documents_are_well_formed:
  assumes "bb_json_parse mem buffer = Some j"
  shows "json_ok j \<and> normalise j = j \<and> nesting j \<le> BB_JSON_MAX_DEPTH \<and>
    bb_json_parse (\<lambda>_. True) buffer = Some j"
proof -
  obtain s r where s: "buffer = Some s" "parse_levels mem BB_JSON_MAX_DEPTH (cstr s) = Some (j, r)" "skip_ws r = []"
    using assms by (auto simp: bb_json_parse_def split: option.splits if_splits)
  then have "parsed BB_JSON_MAX_DEPTH j" by (intro levels_parsed) auto
  moreover have "bb_json_parse (\<lambda>_. True) buffer = Some j"
    using levels_mono [OF s(2)] s(1,3) by (simp add: bb_json_parse_def)
  ultimately show ?thesis by (simp add: parsed_def)
qed

theorem parsed_documents_are_well_formed_witness:
  "bb_json_parse (\<lambda>_. True) (Some ''[true]'') = Some (JArray [JBool True]) \<and> json_ok (JArray [JBool True])"
proof -
  have "parse_levels (\<lambda>_. True) BB_JSON_MAX_DEPTH (print_json False 0 (JArray [JBool True]) @ []) =
      (if nesting (JArray [JBool True]) \<le> BB_JSON_MAX_DEPTH then Some (normalise (JArray [JBool True]), []) else None)"
    by (rule parse_printed) (simp_all add: is_container_def)
  then have "bb_json_parse (\<lambda>_. True) (Some ''[true]'') = Some (JArray [JBool True])"
    by (simp add: is_container_def newline_def tabs_def BB_JSON_MAX_DEPTH_def bb_json_parse_def cstr_def NUL_def)
  from parsed_documents_are_well_formed [OF this] this show ?thesis by blast
qed

text \<open>C25: Real numbers keep their value. The decimal text the serialiser chooses for any finite
  \<open>float\<close>, in fixed or exponent notation, fits the buffer it is formatted in, is accepted by the parser as a
  real, also in front of anything that may follow a number, and is rounded back to the very same \<open>float\<close>,
  its sign and zeros included.\<close>

theorem real_numbers_keep_their_value:
  assumes "float_mag v \<le> FLT_MAX" and "ends_number r"
  shows "fst (format_real v 64) = length (snd (format_real v 64)) \<and> fst (format_real v 64) < 64 \<and>
    parse_json_str_number (\<lambda>_. True) (snd (format_real v 64) @ r) = Some (JReal v, r)"
proof -
  obtain s neg ip fp ex where "format_real v 64 = (length s, s)" "length s < 64"
    using real_reads_back [OF assms(1)] by blast
  then show ?thesis using parse_real [OF assms] by simp
qed

theorem real_numbers_keep_their_value_witness:
  "parse_json_str_number (\<lambda>_. True) (snd (format_real 0x3DCCCCCD 64) @ '']'') = Some (JReal 0x3DCCCCCD, '']'')"
  using real_numbers_keep_their_value [of "0x3DCCCCCD" "'']''"]
  by (simp add: float_mag_def FLT_MAX_def ends_number_def is_digit_def)

text \<open>A copy of a well-formed document is the document itself, and comparing the two finds them
  equal unless it holds a number that is not one (NaN). The copy fails when memory runs out and, although
  such a document can be written, when it holds a text without a value.\<close>

theorem copies_are_equal:
  assumes "json_ok j"
  shows "bb_json_clone ok j = (if ok \<and> \<not> null_text j then Some j else None) \<and>
    (null_text j \<or> has_nan j \<or> bb_json_equal j j = Some True)"
  using clone_spec(1) [OF assms] equal_self [OF assms] by blast

theorem copies_are_equal_witness:
  "bb_json_clone True (JObject [(''a'', JInt 1)]) = Some (JObject [(''a'', JInt 1)])"
  using copies_are_equal [of "JObject [(''a'', JInt 1)]" True] by (simp add: NUL_def)

end
