(* ===== verification/Template.thy ===== *)
theory Template
  imports Json_Theorems
begin

text \<open>
  Templates (\<open>modules/template\<close>): the parser of \<open>parser.c\<close>, the tree of \<open>ast.c\<close>, the growing buffer of
  \<open>string_builder.c\<close> and the renderer of \<open>renderer.c\<close>. The children of a node are a list, in the order
  of the sibling chain. The parser holds the rest of the source. \<open>None\<close> as an outcome is a loop
  that does not end or, in the renderer and the buffer, a null pointer read or a write outside the
  buffer.
\<close>

section \<open>The tree\<close>

datatype template_node =
    TText string
  | TVariable string
  | TSection string "template_node list"
  | TConditional string "template_node list"
  | TComment

section \<open>The parser\<close>

definition starts_with :: "string \<Rightarrow> string \<Rightarrow> bool" where
  "starts_with str s \<longleftrightarrow> take (length str) s = str"

text \<open>
  Up to the delimiter, and what follows it; without the delimiter the source is used up, and without
  memory for the copy the parser stays in front of the delimiter. \<open>mem\<close> tells for each place, by the
  number of bytes left there, whether the allocations made at it succeed.
\<close>

fun read_until :: "(nat \<Rightarrow> bool) \<Rightarrow> string \<Rightarrow> string \<Rightarrow> string option \<times> string" where
  "read_until mem delimiter [] = (None, [])"
| "read_until mem delimiter (c # s) =
     (if starts_with delimiter (c # s)
      then if mem (length (c # s)) then (Some [], drop (length delimiter) (c # s)) else (None, c # s)
      else case read_until mem delimiter s of
             (None, r) \<Rightarrow> (None, r)
           | (Some t, r) \<Rightarrow> (Some (c # t), r))"

abbreviation read_name :: "(nat \<Rightarrow> bool) \<Rightarrow> string \<Rightarrow> string option \<times> string" where
  "read_name mem \<equiv> read_until mem ''}}''"

definition append_text :: "string \<Rightarrow> template_node list \<Rightarrow> template_node list" where
  "append_text t ns = (if t = [] then ns else ns @ [TText t])"

text \<open>
  \<open>bb_parser_parse_nodes\<close>, with the name that must close the list, the text since the last tag and
  the nodes so far. The outcome is the nodes and what is left of the source, or the failure. The
  function calls itself for every section or conditional inside another, without a limit; the stack that this
  takes is not modelled, which is as deep as the tags of the source are nested.
\<close>

partial_function (option) parse_nodes ::
  "(nat \<Rightarrow> bool) \<Rightarrow> string option \<Rightarrow> string \<Rightarrow> template_node list \<Rightarrow> string \<Rightarrow>
   (template_node list \<times> string) option option"
where
  "parse_nodes mem closing_tag pending ns s =
     (case s of
        [] \<Rightarrow>
          if pending \<noteq> [] \<and> \<not> mem 0 \<or> closing_tag \<noteq> None then Some None
          else Some (Some (append_text pending ns, []))
      | c # t \<Rightarrow>
          if starts_with [CHR 0x5C, CHR ''{'', CHR ''{''] s
          then if \<not> mem (length s) then Some None
               else parse_nodes mem closing_tag [] (append_text pending ns @ [TText ''{{'']) (drop 3 s)
          else if starts_with ''{{/'' s
          then if pending \<noteq> [] \<and> \<not> mem (length s) then Some None
               else (case read_name mem (drop 3 s) of
                       (None, r) \<Rightarrow> Some None
                     | (Some name, r) \<Rightarrow>
                         if closing_tag = Some name then Some (Some (append_text pending ns, r)) else Some None)
          else if starts_with ''{{#'' s \<or> starts_with ''{{?'' s
          then if pending \<noteq> [] \<and> \<not> mem (length s) then Some None
               else (case read_name mem (drop 3 s) of
                       (None, r) \<Rightarrow> Some None
                     | (Some name, r) \<Rightarrow>
                         Option.bind (parse_nodes mem (Some name) [] [] r) (\<lambda>res.
                           case res of
                             None \<Rightarrow> Some None
                           | Some (children, r) \<Rightarrow>
                               parse_nodes mem closing_tag []
                                 (append_text pending ns @
                                  [if starts_with ''{{#'' s then TSection name children else TConditional name children]) r))
          else if starts_with ''{{!'' s
          then if pending \<noteq> [] \<and> \<not> mem (length s) then Some None
               else parse_nodes mem closing_tag [] (append_text pending ns) (snd (read_name mem (drop 3 s)))
          else if starts_with ''{{'' s
          then if pending \<noteq> [] \<and> \<not> mem (length s) then Some None
               else (case read_name mem (drop 2 s) of
                       (None, r) \<Rightarrow> Some None
                     | (Some name, r) \<Rightarrow>
                         parse_nodes mem closing_tag [] (append_text pending ns @ [TVariable name]) r)
          else parse_nodes mem closing_tag (pending @ [c]) ns t)"

datatype template_error = TPL_OK | TPL_ERR_NULL | TPL_ERR_ALLOC | TPL_ERR_INTERNAL

definition bb_template_parse ::
  "(nat \<Rightarrow> bool) \<Rightarrow> bool \<Rightarrow> string option \<Rightarrow> (template_error \<times> template_node list option) option" where
  "bb_template_parse mem ok source =
     (case source of
        None \<Rightarrow> Some (TPL_ERR_NULL, None)
      | Some s \<Rightarrow>
          if \<not> ok then Some (TPL_ERR_ALLOC, None)
          else map_option (\<lambda>res. case res of None \<Rightarrow> (TPL_ERR_INTERNAL, None) | Some (ns, _) \<Rightarrow> (TPL_OK, Some ns))
                 (parse_nodes mem None [] [] (cstr s)))"

section \<open>The buffer\<close>

record string_builder =
  sb_data :: string
  sb_length :: nat
  sb_capacity :: nat

definition BB_STRING_BUILDER_INITIAL_CAPACITY :: nat where
  "BB_STRING_BUILDER_INITIAL_CAPACITY = 256"

text \<open>\<open>malloc\<close> and \<open>realloc\<close> give room with any contents behind what is kept, or fail.\<close>

definition sb_init :: "(nat \<Rightarrow> string option) \<Rightarrow> string_builder option" where
  "sb_init malloc =
     map_option (\<lambda>b. \<lparr>sb_data = b[0 := NUL], sb_length = 0, sb_capacity = BB_STRING_BUILDER_INITIAL_CAPACITY\<rparr>)
       (malloc BB_STRING_BUILDER_INITIAL_CAPACITY)"

partial_function (option) doubled :: "nat \<Rightarrow> nat \<Rightarrow> nat option" where
  "doubled need cap = (if cap < need then doubled need (cap * 2) else Some cap)"

definition sb_grow :: "(nat \<Rightarrow> string option) \<Rightarrow> nat \<Rightarrow> string_builder \<Rightarrow> (bool \<times> string_builder) option" where
  "sb_grow realloc required sb =
     map_option (\<lambda>cap.
         let sb = sb\<lparr>sb_capacity := cap\<rparr> in
         case realloc cap of
           None \<Rightarrow> (False, sb)
         | Some b \<Rightarrow> (True, sb\<lparr>sb_data := sb_data sb @ drop (length (sb_data sb)) b\<rparr>))
       (doubled (sb_length sb + required + 1) (sb_capacity sb))"

definition sb_append_n :: "(nat \<Rightarrow> string option) \<Rightarrow> string \<Rightarrow> string_builder \<Rightarrow> (bool \<times> string_builder) option" where
  "sb_append_n realloc text' sb =
     (case (if sb_length sb + length text' + 1 > sb_capacity sb then sb_grow realloc (length text') sb
            else Some (True, sb)) of
        None \<Rightarrow> None
      | Some (ok, sb) \<Rightarrow>
          if \<not> ok then Some (False, sb)
          else map_option (\<lambda>b. (True, sb\<lparr>sb_data := b, sb_length := sb_length sb + length text'\<rparr>))
                 (write_at (sb_length sb) (text' @ [NUL]) (sb_data sb)))"

text \<open>A null text is a \<open>strlen\<close> of the null pointer.\<close>

definition sb_append :: "(nat \<Rightarrow> string option) \<Rightarrow> string option \<Rightarrow> string_builder \<Rightarrow> (bool \<times> string_builder) option" where
  "sb_append realloc text' sb = Option.bind text' (\<lambda>t. sb_append_n realloc (cstr t) sb)"

section \<open>The renderer\<close>

text \<open>The pieces that \<open>strtok\<close> cuts at the dots; empty ones are skipped.\<close>

fun split_dots :: "string \<Rightarrow> string \<Rightarrow> string list" where
  "split_dots piece [] = [piece]"
| "split_dots piece (c # s) =
     (if c = CHR ''.'' then piece # split_dots [] s else split_dots (piece @ [c]) s)"

definition strtok_dots :: "string \<Rightarrow> string list" where
  "strtok_dots s = filter (\<lambda>piece. piece \<noteq> []) (split_dots [] s)"

text \<open>The context of a node: its value and those around it, the innermost first.\<close>

type_synonym render_context = "json list"

fun walk_path :: "string list \<Rightarrow> json \<Rightarrow> json option" where
  "walk_path [] current = Some current"
| "walk_path (token # ts) current =
     (case bb_json_object_get_value (Some current) (Some token) of
        None \<Rightarrow> None
      | Some j \<Rightarrow> walk_path ts j)"

fun template_lookup :: "render_context \<Rightarrow> string \<Rightarrow> json option" where
  "template_lookup [] path = None"
| "template_lookup (current # parents) path =
     (case walk_path (strtok_dots path) current of
        Some j \<Rightarrow> Some j
      | None \<Rightarrow> template_lookup parents path)"

definition is_truthy :: "json option \<Rightarrow> bool" where
  "is_truthy value =
     (case value of
        None \<Rightarrow> False
      | Some j \<Rightarrow>
          (case j of
             JNull \<Rightarrow> False
           | JBool b \<Rightarrow> b
           | JInt i \<Rightarrow> i \<noteq> 0
           | JReal v \<Rightarrow> float_mag v \<noteq> 0
           | JText t \<Rightarrow> (case t of None \<Rightarrow> False | Some s \<Rightarrow> s \<noteq> [])
           | JArray js \<Rightarrow> js \<noteq> []
           | JObject ps \<Rightarrow> True))"

text \<open>
  The allocations of a rendering: the copy of a path (by the length of the output so far and the
  path), the text of a value, and the growth of the buffer.
\<close>

record template_env =
  te_dup :: "nat \<Rightarrow> string \<Rightarrow> bool"
  te_malloc :: "nat \<Rightarrow> string option"
  te_realloc :: "nat \<Rightarrow> string option"

definition lookup_here :: "template_env \<Rightarrow> render_context \<Rightarrow> string \<Rightarrow> string_builder \<Rightarrow> json option" where
  "lookup_here env ctx path sb = (if te_dup env (sb_length sb) path then template_lookup ctx path else None)"

definition render_value :: "template_env \<Rightarrow> json option \<Rightarrow> string_builder \<Rightarrow> (bool \<times> string_builder) option" where
  "render_value env value sb =
     (case value of
        None \<Rightarrow> Some (True, sb)
      | Some j \<Rightarrow>
          (case j of
             JText t \<Rightarrow> sb_append (te_realloc env) t sb
           | _ \<Rightarrow>
               (case bb_json_serialize (te_malloc env) (Some j) (Some None) (Some 0) of
                  None \<Rightarrow> None
                | Some (err, buffer, _) \<Rightarrow>
                    if err \<noteq> JSON_OK \<or> the buffer = None then Some (False, sb)
                    else sb_append (te_realloc env) (the buffer) sb)))"

text \<open>One piece after the other, up to the first failure.\<close>

type_synonym sb_step = "string_builder \<Rightarrow> (bool \<times> string_builder) option"

fun in_order :: "sb_step list \<Rightarrow> sb_step" where
  "in_order [] sb = Some (True, sb)"
| "in_order (f # fs) sb =
     (case f sb of None \<Rightarrow> None | Some (ok, sb) \<Rightarrow> if ok then in_order fs sb else Some (False, sb))"

text \<open>What is rendered may depend on what the lookup finds when it is reached.\<close>

definition with_value :: "template_env \<Rightarrow> render_context \<Rightarrow> string \<Rightarrow> (json option \<Rightarrow> sb_step) \<Rightarrow> sb_step" where
  "with_value env ctx path f = (\<lambda>sb. f (lookup_here env ctx path sb) sb)"

fun render_node :: "template_env \<Rightarrow> template_node \<Rightarrow> render_context \<Rightarrow> sb_step" where
  "render_node env (TText t) ctx = sb_append (te_realloc env) (Some t)"
| "render_node env (TVariable path) ctx = with_value env ctx path (render_value env)"
| "render_node env (TSection path children) ctx =
     with_value env ctx path (\<lambda>value.
       case value of
         Some (JArray items) \<Rightarrow>
           in_order (map (\<lambda>item. in_order (map (\<lambda>n. render_node env n (item # ctx)) children)) items)
       | _ \<Rightarrow> in_order [])"
| "render_node env (TConditional path children) ctx =
     with_value env ctx path (\<lambda>value.
       if is_truthy value then in_order (map (\<lambda>n. render_node env n ctx) children) else in_order [])"
| "render_node env TComment ctx = in_order []"

definition render_nodes :: "template_env \<Rightarrow> template_node list \<Rightarrow> render_context \<Rightarrow> sb_step" where
  "render_nodes env ns ctx = in_order (map (\<lambda>n. render_node env n ctx) ns)"

definition bb_template_render ::
  "template_env \<Rightarrow> template_node list option \<Rightarrow> json option \<Rightarrow> (template_error \<times> string option) option" where
  "bb_template_render env tpl context =
     (case (tpl, context) of
        (Some ns, Some j) \<Rightarrow>
          (case sb_init (te_malloc env) of
             None \<Rightarrow> Some (TPL_ERR_ALLOC, None)
           | Some sb \<Rightarrow>
               map_option (\<lambda>(ok, sb). if ok then (TPL_OK, Some (sb_data sb)) else (TPL_ERR_INTERNAL, None))
                 (render_nodes env ns [j] sb))
      | _ \<Rightarrow> Some (TPL_ERR_NULL, None))"

end
