(* ===== verification/Template_Theorems.thy ===== *)
theory Template_Theorems
  imports Template
begin

text \<open>
  Templates: the parser always returns; a printed template is read back as one that renders alike;
  the renderer writes exactly the text of the template into its buffer.
\<close>

section \<open>Termination\<close>

lemma read_until_length: "length (snd (read_until mem d s)) \<le> length s"
  by (induction s) (auto split: prod.splits option.splits)

lemma parse_nodes_returns:
  "\<exists>res. parse_nodes mem closing pending ns s = Some res \<and>
     (\<forall>ns' r. res = Some (ns', r) \<longrightarrow> length r \<le> length s)"
proof (induction s arbitrary: closing pending ns rule: length_induct)
  case (1 s)
  have IH: "\<exists>res. parse_nodes mem cl p ms u = Some res \<and> (\<forall>ns' r. res = Some (ns', r) \<longrightarrow> length r < length s)"
    if "length u < length s" for cl p ms u
    using "1.IH" that by (meson le_less_trans)
  have name: "length r < length s" if "read_name mem (drop n s) = (x, r)" "0 < n" "s \<noteq> []" for n x r
  proof -
    have "length r \<le> length (drop n s)" using read_until_length [of mem "''}}''" "drop n s"] that(1) by simp
    also have "\<dots> < length s" using that(2,3) by simp
    finally show ?thesis .
  qed
  show ?case
  proof (cases s)
    case Nil
    then show ?thesis by (simp add: parse_nodes.simps)
  next
    case (Cons c t)
    then have ne: "s \<noteq> []" by simp
    note step = parse_nodes.simps [of mem closing pending ns s, unfolded Cons list.case, folded Cons]
    have again: "\<exists>res. parse_nodes mem cl p ms u = Some res \<and> (\<forall>ns' r. res = Some (ns', r) \<longrightarrow> length r \<le> length s)"
      if "length u < length s" for cl p ms u
      using IH [OF that, of cl p ms] by (meson less_imp_le)
    have short: "length (drop n s) < length s" if "0 < n" for n using that ne by simp
    show ?thesis
    proof (cases "starts_with [CHR 0x5C, CHR ''{'', CHR ''{''] s")
      case True
      show ?thesis using again [OF short [of 3], of closing "[]"] unfolding step if_P [OF True] by auto
    next
      case esc: False
      show ?thesis
      proof (cases "starts_with ''{{/'' s")
        case True
        show ?thesis
          using name [of 3] ne unfolding step if_not_P [OF esc] if_P [OF True]
          by (auto split: prod.split option.split dest!: less_imp_le)
      next
        case close: False
        show ?thesis
        proof (cases "starts_with ''{{#'' s \<or> starts_with ''{{?'' s")
          case True
          note here = step [unfolded if_not_P [OF esc] if_not_P [OF close] if_P [OF True]]
          obtain x r where x: "read_name mem (drop 3 s) = (x, r)" by (cases "read_name mem (drop 3 s)")
          show ?thesis
          proof (cases x)
            case None
            then show ?thesis unfolding here by (simp add: x)
          next
            case (Some n)
            have r: "length r < length s" using name [OF x] ne by simp
            obtain res where res: "parse_nodes mem (Some n) [] [] r = Some res" "\<forall>ns' r. res = Some (ns', r) \<longrightarrow> length r < length s"
              using IH [OF r] by blast
            show ?thesis
            proof (cases res)
              case None
              then show ?thesis unfolding here using Some res by (simp add: x)
            next
              case some: (Some cr)
              obtain cs r1 where cr: "cr = (cs, r1)" by (cases cr)
              have "length r1 < length s" using res(2) some cr by simp
              from again [OF this] show ?thesis unfolding here using Some res some cr by (simp add: x)
            qed
          qed
        next
          case sec: False
          show ?thesis
          proof (cases "starts_with ''{{!'' s")
            case True
            obtain x r where x: "read_name mem (drop 3 s) = (x, r)" by (cases "read_name mem (drop 3 s)")
            show ?thesis
              using again [OF name [OF x _ ne], of closing "[]"]
              unfolding step if_not_P [OF esc] if_not_P [OF close] if_not_P [OF sec] if_P [OF True] by (simp add: x)
          next
            case comment: False
            show ?thesis
            proof (cases "starts_with ''{{'' s")
              case True
              obtain x r where x: "read_name mem (drop 2 s) = (x, r)" by (cases "read_name mem (drop 2 s)")
              show ?thesis
                using again [OF name [OF x _ ne], of closing "[]"]
                unfolding step if_not_P [OF esc] if_not_P [OF close] if_not_P [OF sec] if_not_P [OF comment] if_P [OF True]
                by (simp add: x split: option.split)
            next
              case False
              have "length t < length s" by (simp add: Cons)
              from again [OF this, of closing "pending @ [c]"] show ?thesis
                unfolding step if_not_P [OF esc] if_not_P [OF close] if_not_P [OF sec] if_not_P [OF comment] if_not_P [OF False] .
            qed
          qed
        qed
      qed
    qed
  qed
qed

section \<open>Printing a template\<close>

text \<open>Text with every pair of opening braces escaped.\<close>

fun escape_braces :: "string \<Rightarrow> string" where
  "escape_braces [] = []"
| "escape_braces (c # s) =
     (case s of
        [] \<Rightarrow> [c]
      | d # t \<Rightarrow>
          if c = CHR ''{'' \<and> d = CHR ''{'' then [CHR 0x5C, CHR ''{'', CHR ''{''] @ escape_braces t
          else c # escape_braces s)"

fun print_node :: "template_node \<Rightarrow> string" where
  "print_node (TText t) = escape_braces t"
| "print_node (TVariable n) = ''{{'' @ n @ ''}}''"
| "print_node (TSection n cs) = ''{{#'' @ n @ ''}}'' @ concat (map print_node cs) @ ''{{/'' @ n @ ''}}''"
| "print_node (TConditional n cs) = ''{{?'' @ n @ ''}}'' @ concat (map print_node cs) @ ''{{/'' @ n @ ''}}''"
| "print_node TComment = ''{{!}}''"

definition name_ok :: "string \<Rightarrow> bool" where
  "name_ok n \<longleftrightarrow> CHR ''}'' \<notin> set n \<and> NUL \<notin> set n"

text \<open>A text must not run into a tag behind it, nor a variable look like another tag.\<close>

fun node_ok :: "template_node \<Rightarrow> bool" where
  "node_ok (TText t) \<longleftrightarrow> NUL \<notin> set t \<and> (t = [] \<or> last t \<notin> {CHR ''{'', CHR 0x5C})"
| "node_ok (TVariable n) \<longleftrightarrow> name_ok n \<and> (n = [] \<or> hd n \<notin> {CHR ''#'', CHR ''?'', CHR ''!'', CHR ''/''})"
| "node_ok (TSection n cs) \<longleftrightarrow> name_ok n \<and> (\<forall>c\<in>set cs. node_ok c)"
| "node_ok (TConditional n cs) \<longleftrightarrow> name_ok n \<and> (\<forall>c\<in>set cs. node_ok c)"
| "node_ok TComment \<longleftrightarrow> True"

text \<open>The nodes that the parser makes of a text and of a tree: texts are cut at the escaped braces and
  run together otherwise.\<close>

fun cut_text :: "string \<Rightarrow> string \<times> template_node list \<Rightarrow> string \<times> template_node list" where
  "cut_text [] st = st"
| "cut_text (c # s) (p, ns) =
     (case s of
        [] \<Rightarrow> (p @ [c], ns)
      | d # t \<Rightarrow>
          if c = CHR ''{'' \<and> d = CHR ''{'' then cut_text t ([], append_text p ns @ [TText ''{{''])
          else cut_text s (p @ [c], ns))"

definition close_text :: "string \<times> template_node list \<Rightarrow> template_node list" where
  "close_text st = append_text (fst st) (snd st)"

fun read_node :: "template_node \<Rightarrow> string \<times> template_node list \<Rightarrow> string \<times> template_node list" where
  "read_node (TText t) st = cut_text t st"
| "read_node (TVariable n) st = ([], close_text st @ [TVariable n])"
| "read_node (TSection n cs) st = ([], close_text st @ [TSection n (close_text (fold read_node cs ([], [])))])"
| "read_node (TConditional n cs) st = ([], close_text st @ [TConditional n (close_text (fold read_node cs ([], [])))])"
| "read_node TComment st = ([], close_text st)"

definition read_back :: "template_node list \<Rightarrow> template_node list" where
  "read_back ns = close_text (fold read_node ns ([], []))"

lemma starts_with_simps [simp]:
  "starts_with [] s" "\<not> starts_with (c # d) []" "starts_with (c # d) (e # s) \<longleftrightarrow> c = e \<and> starts_with d s"
  by (auto simp: starts_with_def)

lemma read_name_ok:
  assumes "CHR ''}'' \<notin> set n"
  shows "read_name (\<lambda>_. True) (n @ ''}}'' @ r) = (Some n, r)"
  using assms by (induction n) auto

abbreviation parse :: "string option \<Rightarrow> string \<times> template_node list \<Rightarrow> string \<Rightarrow> (template_node list \<times> string) option option" where
  "parse closing st s \<equiv> parse_nodes (\<lambda>_. True) closing (fst st) (snd st) s"

lemma parse_char:
  assumes "c = CHR ''{'' \<longrightarrow> \<not> starts_with ''{'' s" and "c = CHR 0x5C \<longrightarrow> \<not> starts_with ''{{'' s"
  shows "parse cl (p, ns) (c # s) = parse cl (p @ [c], ns) s"
proof -
  have no: "\<not> starts_with (CHR ''{'' # CHR ''{'' # d) (c # s)" for d
    using assms(1) by (cases s) auto
  have esc: "\<not> starts_with [CHR 0x5C, CHR ''{'', CHR ''{''] (c # s)" using assms(2) by auto
  have two: "\<not> (starts_with ''{{#'' (c # s) \<or> starts_with ''{{?'' (c # s))" using no by simp
  show ?thesis
    unfolding fst_conv snd_conv parse_nodes.simps [of _ cl p ns "c # s"] list.case if_not_P [OF esc] if_not_P [OF no] if_not_P [OF two]
    by simp
qed

lemma parse_escaped: "parse cl (p, ns) (CHR 0x5C # CHR ''{'' # CHR ''{'' # s) = parse cl ([], append_text p ns @ [TText ''{{'']) s"
  by (simp add: parse_nodes.simps [of _ cl p ns "CHR 0x5C # CHR ''{'' # CHR ''{'' # s"])

lemma escape_braces_start: "\<not> starts_with ''{{'' (escape_braces t @ r) \<or> t = [] \<or> t = ''{''"
proof (cases t)
  case (Cons c s)
  show ?thesis
  proof (cases s)
    case (Cons d u)
    with \<open>t = c # s\<close> show ?thesis by (cases u) auto
  qed (auto simp: Cons)
qed simp

lemma escape_brace_start: "hd t \<noteq> CHR ''{'' \<Longrightarrow> t \<noteq> [] \<Longrightarrow> \<not> starts_with ''{'' (escape_braces t @ r)"
proof (cases t)
  case (Cons c s)
  assume "hd t \<noteq> CHR ''{''"
  with Cons show ?thesis by (cases s) auto
qed simp

lemma parse_text:
  "t = [] \<or> last t \<notin> {CHR ''{'', CHR 0x5C} \<Longrightarrow> parse cl st (escape_braces t @ r) = parse cl (cut_text t st) r"
proof (induction t arbitrary: st rule: escape_braces.induct)
  case (2 c s)
  obtain p ns where st: "st = (p, ns)" by (cases st)
  show ?case
  proof (cases s)
    case Nil
    then have "c \<noteq> CHR ''{''" "c \<noteq> CHR 0x5C" using "2.prems" by auto
    then show ?thesis using parse_char [of c r cl p ns] by (simp add: Nil st)
  next
    case (Cons d t)
    show ?thesis
    proof (cases "c = CHR ''{'' \<and> d = CHR ''{''")
      case True
      then have "t = [] \<or> last t \<notin> {CHR ''{'', CHR 0x5C}" using "2.prems" Cons by (auto split: if_splits)
      from "2.IH"(1) [OF Cons True this, of "([], append_text p ns @ [TText ''{{''])"]
      show ?thesis using True Cons parse_escaped [of cl p ns "escape_braces t @ r"] by (simp add: st)
    next
      case False
      have s: "s = [] \<or> last s \<notin> {CHR ''{'', CHR 0x5C}" using "2.prems" Cons by (auto split: if_splits)
      have "parse cl (p, ns) (c # escape_braces s @ r) = parse cl (p @ [c], ns) (escape_braces s @ r)"
      proof (rule parse_char)
        show "c = CHR ''{'' \<longrightarrow> \<not> starts_with ''{'' (escape_braces s @ r)"
          using False escape_brace_start [of s r] Cons by auto
        show "c = CHR 0x5C \<longrightarrow> \<not> starts_with ''{{'' (escape_braces s @ r)"
          using escape_braces_start [of s r] s Cons by auto
      qed
      moreover have "escape_braces (c # s) = c # escape_braces s"
        by (simp only: escape_braces.simps Cons list.case if_not_P [OF False])
      moreover have "cut_text (c # s) (p, ns) = cut_text s (p @ [c], ns)"
        by (simp only: cut_text.simps Cons list.case if_not_P [OF False])
      moreover note "2.IH"(2) [OF Cons False s, of "(p @ [c], ns)"]
      ultimately show ?thesis by (simp only: st append_Cons)
    qed
  qed
qed simp

lemma parse_tag:
  assumes "name_ok n"
  shows "parse cl st (''{{#'' @ n @ ''}}'' @ r) =
      Option.bind (parse (Some n) ([], []) r) (\<lambda>res. case res of None \<Rightarrow> Some None
        | Some (cs, r) \<Rightarrow> parse cl ([], close_text st @ [TSection n cs]) r)"
    and "parse cl st (''{{?'' @ n @ ''}}'' @ r) =
      Option.bind (parse (Some n) ([], []) r) (\<lambda>res. case res of None \<Rightarrow> Some None
        | Some (cs, r) \<Rightarrow> parse cl ([], close_text st @ [TConditional n cs]) r)"
    and "parse (Some n) st (''{{/'' @ n @ ''}}'' @ r) = Some (Some (close_text st, r))"
proof -
  obtain p ns where st: "st = (p, ns)" by (cases st)
  have n: "read_name (\<lambda>_. True) (n @ CHR ''}'' # CHR ''}'' # r) = (Some n, r)"
    using assms read_name_ok [of n r] by (simp add: name_ok_def)
  show "parse cl st (''{{#'' @ n @ ''}}'' @ r) =
      Option.bind (parse (Some n) ([], []) r) (\<lambda>res. case res of None \<Rightarrow> Some None
        | Some (cs, r) \<Rightarrow> parse cl ([], close_text st @ [TSection n cs]) r)"
    by (simp add: st close_text_def parse_nodes.simps [of _ cl p] n cong: option.case_cong)
  show "parse cl st (''{{?'' @ n @ ''}}'' @ r) =
      Option.bind (parse (Some n) ([], []) r) (\<lambda>res. case res of None \<Rightarrow> Some None
        | Some (cs, r) \<Rightarrow> parse cl ([], close_text st @ [TConditional n cs]) r)"
    by (simp add: st close_text_def parse_nodes.simps [of _ cl p] n cong: option.case_cong)
  show "parse (Some n) st (''{{/'' @ n @ ''}}'' @ r) = Some (Some (close_text st, r))"
    by (simp add: st close_text_def parse_nodes.simps [of _ "Some n" p] n)
qed

lemma parse_variable:
  assumes "name_ok n" and "n = [] \<or> hd n \<notin> {CHR ''#'', CHR ''?'', CHR ''!'', CHR ''/''}"
  shows "parse cl st (''{{'' @ n @ ''}}'' @ r) = parse cl ([], close_text st @ [TVariable n]) r"
proof -
  obtain p ns where st: "st = (p, ns)" by (cases st)
  have n: "read_name (\<lambda>_. True) (n @ CHR ''}'' # CHR ''}'' # r) = (Some n, r)"
    using assms(1) read_name_ok [of n r] by (simp add: name_ok_def)
  have h: "\<not> starts_with [c] (n @ CHR ''}'' # CHR ''}'' # r)" if "c \<in> {CHR ''#'', CHR ''?'', CHR ''!'', CHR ''/''}" for c
    using assms(2) that by (cases n) auto
  show ?thesis
    by (simp add: st close_text_def parse_nodes.simps [of _ cl p] n h)
qed

lemma parse_comment: "parse cl st (''{{!}}'' @ r) = parse cl ([], close_text st) r"
proof -
  obtain p ns where st: "st = (p, ns)" by (cases st)
  have "read_name (\<lambda>_. True) (''}}'' @ r) = (Some [], r)" using read_name_ok [of "[]" r] by simp
  then show ?thesis by (simp add: st close_text_def parse_nodes.simps [of _ cl p])
qed

lemma parse_printed_list:
  assumes "\<And>c st r. c \<in> set cs \<Longrightarrow> parse cl st (print_node c @ r) = parse cl (read_node c st) r"
  shows "parse cl st (concat (map print_node cs) @ r) = parse cl (fold read_node cs st) r"
  using assms
proof (induction cs arbitrary: st)
  case (Cons c cs)
  have "parse cl st (print_node c @ (concat (map print_node cs) @ r)) = parse cl (read_node c st) (concat (map print_node cs) @ r)"
    by (rule Cons.prems) simp
  also have "\<dots> = parse cl (fold read_node cs (read_node c st)) r" by (rule Cons.IH) (use Cons.prems in simp)
  finally show ?case by simp
qed simp

lemma parse_printed_node: "node_ok n \<Longrightarrow> parse cl st (print_node n @ r) = parse cl (read_node n st) r"
proof (induction n arbitrary: cl st r)
  case (TText t)
  then show ?case using parse_text by simp
next
  case (TVariable n)
  then show ?case using parse_variable [of n cl st r] by simp
next
  case (TSection n cs)
  have "parse (Some n) ([], []) (concat (map print_node cs) @ ''{{/'' @ n @ ''}}'' @ r) =
      parse (Some n) (fold read_node cs ([], [])) (''{{/'' @ n @ ''}}'' @ r)"
    by (rule parse_printed_list) (use TSection in simp)
  also have "\<dots> = Some (Some (close_text (fold read_node cs ([], [])), r))"
    using TSection.prems by (intro parse_tag(3)) simp
  finally show ?case
    using TSection.prems parse_tag(1) [of n cl st "concat (map print_node cs) @ ''{{/'' @ n @ ''}}'' @ r"] by simp
next
  case (TConditional n cs)
  have "parse (Some n) ([], []) (concat (map print_node cs) @ ''{{/'' @ n @ ''}}'' @ r) =
      parse (Some n) (fold read_node cs ([], [])) (''{{/'' @ n @ ''}}'' @ r)"
    by (rule parse_printed_list) (use TConditional in simp)
  also have "\<dots> = Some (Some (close_text (fold read_node cs ([], [])), r))"
    using TConditional.prems by (intro parse_tag(3)) simp
  finally show ?case
    using TConditional.prems parse_tag(2) [of n cl st "concat (map print_node cs) @ ''{{/'' @ n @ ''}}'' @ r"] by simp
next
  case TComment
  then show ?case using parse_comment by simp
qed

section \<open>The buffer\<close>

text \<open>The buffer holds the text \<open>t\<close> and a zero behind it, and has the room it claims.\<close>

definition sb_holds :: "string \<Rightarrow> string_builder \<Rightarrow> bool" where
  "sb_holds t sb \<longleftrightarrow> sb_length sb = length t \<and> length (sb_data sb) = sb_capacity sb \<and> length t < sb_capacity sb \<and>
     take (length t) (sb_data sb) = t \<and> sb_data sb ! length t = NUL \<and> NUL \<notin> set t"

definition gives_room :: "(nat \<Rightarrow> string option) \<Rightarrow> bool" where
  "gives_room alloc \<longleftrightarrow> (\<forall>n b. alloc n = Some b \<longrightarrow> length b = n)"

text \<open>A step adds the text that \<open>s\<close> gives for the length so far, or fails when an allocation may.\<close>

definition adds :: "bool \<Rightarrow> sb_step \<Rightarrow> (nat \<Rightarrow> string) \<Rightarrow> bool" where
  "adds may f s \<longleftrightarrow> (\<forall>t sb. sb_holds t sb \<longrightarrow>
     (\<exists>ok sb'. f sb = Some (ok, sb') \<and> (if ok then sb_holds (t @ s (length t)) sb' else may)))"

text \<open>Texts one behind the other, each for the length before it.\<close>

fun pieces :: "(nat \<Rightarrow> string) list \<Rightarrow> nat \<Rightarrow> string" where
  "pieces [] n = []"
| "pieces (s # ss) n = s n @ pieces ss (n + length (s n))"

lemma addsD:
  assumes "adds may f s" and "sb_holds t sb"
  obtains ok sb' where "f sb = Some (ok, sb')" "ok \<Longrightarrow> sb_holds (t @ s (length t)) sb'" "\<not> ok \<Longrightarrow> may"
proof -
  obtain ok sb' where "f sb = Some (ok, sb')" "if ok then sb_holds (t @ s (length t)) sb' else may"
    using assms unfolding adds_def by blast
  then show thesis by (intro that [of ok sb']) auto
qed

lemma doubled_enough: "0 < cap \<Longrightarrow> \<exists>c. doubled need cap = Some c \<and> need \<le> c \<and> cap \<le> c"
proof (induction "need - cap" arbitrary: cap rule: less_induct)
  case less
  show ?case
  proof (cases "cap < need")
    case True
    then have "need - cap * 2 < need - cap" using less.prems by simp
    from less.hyps [OF this] obtain c where "doubled need (cap * 2) = Some c" "need \<le> c" "cap * 2 \<le> c"
      using less.prems by auto
    then show ?thesis using True by (auto simp: doubled.simps [of need cap])
  next
    case False
    then show ?thesis by (auto simp: doubled.simps [of need cap])
  qed
qed

lemma adds_append_n:
  assumes "gives_room realloc" and "NUL \<notin> set s" and "may \<or> (\<forall>n. realloc n \<noteq> None)"
  shows "adds may (sb_append_n realloc s) (\<lambda>_. s)"
  unfolding adds_def
proof (intro allI impI)
  fix t sb assume sb: "sb_holds t sb"
  have written: "\<exists>sb2. map_option (\<lambda>b. (True, sb'\<lparr>sb_data := b, sb_length := sb_length sb' + length s\<rparr>))
          (write_at (sb_length sb') (s @ [NUL]) (sb_data sb')) = Some (True, sb2) \<and> sb_holds (t @ s) sb2"
    if h: "sb_holds t sb'" and r: "length t + length s < sb_capacity sb'" for sb'
  proof -
    have "length t + length s < length (sb_data sb')" using h r by (simp add: sb_holds_def)
    then obtain b where b: "write_at (length t) (s @ [NUL]) (sb_data sb') = Some b" "length b = length (sb_data sb')"
      "take (length t + length s) b = take (length t) (sb_data sb') @ s" "b ! (length t + length s) = NUL"
      using write_at_zero by blast
    then have "sb_holds (t @ s) (sb'\<lparr>sb_data := b, sb_length := sb_length sb' + length s\<rparr>)"
      using h r assms(2) by (simp add: sb_holds_def)
    then show ?thesis using b(1) h by (simp add: sb_holds_def)
  qed
  show "\<exists>ok sb'. sb_append_n realloc s sb = Some (ok, sb') \<and> (if ok then sb_holds (t @ s) sb' else may)"
  proof (cases "sb_length sb + length s + 1 > sb_capacity sb")
    case False
    then have "length t + length s < sb_capacity sb" using sb by (simp add: sb_holds_def)
    from written [OF sb this] show ?thesis using False by (auto simp: sb_append_n_def)
  next
    case True
    have "0 < sb_capacity sb" using sb by (simp add: sb_holds_def)
    then obtain c where c: "doubled (sb_length sb + length s + 1) (sb_capacity sb) = Some c"
      "sb_length sb + length s + 1 \<le> c" "sb_capacity sb \<le> c"
      using doubled_enough by blast
    show ?thesis
    proof (cases "realloc c")
      case None
      then have "may" using assms(3) by blast
      then show ?thesis using True c(1) None by (auto simp: sb_append_n_def sb_grow_def Let_def)
    next
      case (Some b)
      define sb' where "sb' = sb\<lparr>sb_capacity := c, sb_data := sb_data sb @ drop (length (sb_data sb)) b\<rparr>"
      have "length b = c" using assms(1) Some by (simp add: gives_room_def)
      then have h: "sb_holds t sb'"
        using sb c by (simp add: sb_holds_def sb'_def nth_append)
      have "length t + length s < sb_capacity sb'" using c sb by (simp add: sb'_def sb_holds_def)
      from written [OF h this] show ?thesis
        using True c(1) Some by (auto simp: sb_append_n_def sb_grow_def Let_def sb'_def)
    qed
  qed
qed

lemma adds_append:
  assumes "gives_room realloc" and "may \<or> (\<forall>n. realloc n \<noteq> None)"
  shows "adds may (sb_append realloc (Some s)) (\<lambda>_. cstr s)"
proof -
  have "NUL \<notin> set (cstr s)" by (auto simp: cstr_def dest: set_takeWhileD)
  then show ?thesis using adds_append_n [OF assms(1) _ assms(2)] by (simp add: sb_append_def [abs_def])
qed

lemma adds_order:
  "list_all2 (adds may) fs ss \<Longrightarrow> adds may (in_order fs) (pieces ss)"
proof (induction fs ss rule: list_all2_induct)
  case Nil
  then show ?case unfolding adds_def by fastforce
next
  case (Cons f fs s ss)
  show ?case
    unfolding adds_def
  proof (intro allI impI)
    fix t sb assume "sb_holds t sb"
    with Cons.hyps(1) obtain ok sb' where f: "f sb = Some (ok, sb')" "ok \<Longrightarrow> sb_holds (t @ s (length t)) sb'" "\<not> ok \<Longrightarrow> may"
      using addsD by blast
    show "\<exists>ok sb'. in_order (f # fs) sb = Some (ok, sb') \<and>
        (if ok then sb_holds (t @ pieces (s # ss) (length t)) sb' else may)"
    proof (cases ok)
      case True
      obtain ok' sb2 where "in_order fs sb' = Some (ok', sb2)" "\<not> ok' \<Longrightarrow> may"
        "ok' \<Longrightarrow> sb_holds ((t @ s (length t)) @ pieces ss (length (t @ s (length t)))) sb2"
        using addsD [OF Cons.IH f(2) [OF True]] by metis
      then show ?thesis using f(1) True by (cases ok') auto
    next
      case False
      then show ?thesis using f by auto
    qed
  qed
qed

lemma adds_map:
  "(\<And>x. x \<in> set xs \<Longrightarrow> adds may (f x) (g x)) \<Longrightarrow> adds may (in_order (map f xs)) (pieces (map g xs))"
  by (rule adds_order) (simp add: list_all2_conv_all_nth)

lemma pieces_const: "(\<And>x n. x \<in> set xs \<Longrightarrow> g x n = h x) \<Longrightarrow> pieces (map g xs) n = concat (map h xs)"
  by (induction xs arbitrary: n) simp_all

section \<open>The text of a template\<close>

text \<open>What a value looks like, and a node in its context.\<close>

definition value_text :: "json \<Rightarrow> string" where
  "value_text j = (case j of JText t \<Rightarrow> (case t of None \<Rightarrow> [] | Some s \<Rightarrow> cstr s) | _ \<Rightarrow> print_json False 0 j)"

fun node_text :: "template_node \<Rightarrow> render_context \<Rightarrow> string" where
  "node_text (TText t) ctx = cstr t"
| "node_text (TVariable path) ctx = (case template_lookup ctx path of None \<Rightarrow> [] | Some j \<Rightarrow> value_text j)"
| "node_text (TSection path children) ctx =
     (case template_lookup ctx path of
        Some (JArray items) \<Rightarrow> concat (map (\<lambda>item. concat (map (\<lambda>n. node_text n (item # ctx)) children)) items)
      | _ \<Rightarrow> [])"
| "node_text (TConditional path children) ctx =
     (if is_truthy (template_lookup ctx path) then concat (map (\<lambda>n. node_text n ctx) children) else [])"
| "node_text TComment ctx = []"

text \<open>
  The same with the copies of the paths that the lookups make: \<open>ok n path\<close> is the outcome of the
  copy of \<open>path\<close> when \<open>n\<close> bytes have been written. A name whose copy fails is rendered as one that
  is not there.
\<close>

fun copied_text :: "(nat \<Rightarrow> string \<Rightarrow> bool) \<Rightarrow> template_node \<Rightarrow> render_context \<Rightarrow> nat \<Rightarrow> string" where
  "copied_text ok (TText t) ctx = (\<lambda>n. cstr t)"
| "copied_text ok (TVariable path) ctx =
     (\<lambda>n. if ok n path then (case template_lookup ctx path of None \<Rightarrow> [] | Some j \<Rightarrow> value_text j) else [])"
| "copied_text ok (TSection path children) ctx =
     (\<lambda>n. if ok n path
          then (case template_lookup ctx path of
                  Some (JArray items) \<Rightarrow>
                    pieces (map (\<lambda>item. pieces (map (\<lambda>c. copied_text ok c (item # ctx)) children)) items) n
                | _ \<Rightarrow> [])
          else [])"
| "copied_text ok (TConditional path children) ctx =
     (\<lambda>n. if ok n path \<and> is_truthy (template_lookup ctx path)
          then pieces (map (\<lambda>c. copied_text ok c ctx) children) n else [])"
| "copied_text ok TComment ctx = (\<lambda>n. [])"

definition template_text :: "template_node list \<Rightarrow> render_context \<Rightarrow> string" where
  "template_text ns ctx = concat (map (\<lambda>n. node_text n ctx) ns)"

definition copied_template :: "(nat \<Rightarrow> string \<Rightarrow> bool) \<Rightarrow> template_node list \<Rightarrow> render_context \<Rightarrow> string" where
  "copied_template ok ns ctx = pieces (map (\<lambda>n. copied_text ok n ctx) ns) 0"

lemma copied_all: "copied_text (\<lambda>_ _. True) x ctx n = node_text x ctx"
proof (induction x arbitrary: ctx n)
  case (TSection path cs)
  have "pieces (map (\<lambda>c. copied_text (\<lambda>_ _. True) c (item # ctx)) cs) m = concat (map (\<lambda>c. node_text c (item # ctx)) cs)"
    for item m
    by (rule pieces_const) (rule TSection)
  then show ?case by (auto simp: pieces_const split: option.split json.split)
next
  case (TConditional path cs)
  have "pieces (map (\<lambda>c. copied_text (\<lambda>_ _. True) c ctx) cs) m = concat (map (\<lambda>c. node_text c ctx) cs)" for m
    by (rule pieces_const) (rule TConditional)
  then show ?case by simp
qed simp_all

lemma copied_template_all:
  assumes "\<And>n path. ok n path"
  shows "copied_template ok ns ctx = template_text ns ctx"
proof -
  have "ok = (\<lambda>_ _. True)" using assms by blast
  then show ?thesis unfolding copied_template_def template_text_def by (simp add: pieces_const copied_all)
qed

text \<open>A document whose values all have a text that fits the serialiser's count.\<close>

definition renderable :: "json \<Rightarrow> bool" where
  "renderable j \<longleftrightarrow> \<not> null_text j \<and> int (length (print_json False 0 j)) < INT_MAX"

lemma print_indent:
  "\<not> m \<Longrightarrow> print_json m i j = print_json m k j"
  "\<not> h \<Longrightarrow> print_elements h i js = print_elements h k js"
  "\<not> m \<Longrightarrow> print_members m i first ps = print_members m k first ps"
proof (induction m i j and h i js and m i first ps arbitrary: k and k and k
    rule: print_json_print_elements_print_members.induct)
  case (6 m i js)
  then have "print_elements (m \<and> list_ex is_container js) i js = print_elements (m \<and> list_ex is_container js) k js"
    by blast
  then show ?case using 6(2) by (simp add: tabs_def Let_def)
next
  case (7 m i ps)
  then have "print_members m i True ps = print_members m k True ps" by blast
  then show ?case using 7(2) by (simp add: tabs_def)
next
  case (9 h i j js)
  have "print_json h (i + 1) j = print_json h (k + 1) j" "print_elements h i js = print_elements h k js"
    using 9 by blast+
  then show ?case using 9(3) by (simp add: tabs_def)
next
  case (11 m i first k' j ps)
  have "print_json m (i + 1) j = print_json m (k + 1) j" "print_members m i False ps = print_members m k False ps"
    using 11 by blast+
  then show ?case using 11(3) by (simp add: tabs_def)
qed simp_all

lemma element_shorter: "j \<in> set js \<Longrightarrow> length (print_json False 0 j) \<le> length (print_elements False i js)"
proof (induction js)
  case (Cons a js)
  then show ?case using print_indent(1) [of False "i + 1" a 0] by auto
qed simp

lemma member_shorter: "p \<in> set ps \<Longrightarrow> length (print_json False 0 (snd p)) \<le> length (print_members False i first ps)"
proof (induction ps arbitrary: first)
  case (Cons q ps)
  obtain k a where q: "q = (k, a)" by (cases q)
  show ?case
  proof (cases "p = q")
    case True
    then show ?thesis using print_indent(1) [of False "i + 1" a 0] by (simp add: q)
  next
    case False
    then have "length (print_json False 0 (snd p)) \<le> length (print_members False i False ps)" using Cons by simp
    then show ?thesis by (simp add: q)
  qed
qed simp

lemma renderable_element: "renderable (JArray js) \<Longrightarrow> j \<in> set js \<Longrightarrow> renderable j"
  using element_shorter [of j js 0] by (auto simp: renderable_def Let_def)

lemma renderable_member: "renderable (JObject ps) \<Longrightarrow> p \<in> set ps \<Longrightarrow> renderable (snd p)"
  using member_shorter [of p ps 0 True] by (auto simp: renderable_def)

lemma renderable_walk: "renderable j \<Longrightarrow> walk_path ts j = Some k \<Longrightarrow> renderable k"
proof (induction ts arbitrary: j)
  case (Cons t ts)
  from Cons.prems(2) obtain l where l: "bb_json_object_get_value (Some j) (Some t) = Some l" "walk_path ts l = Some k"
    by (auto split: option.splits)
  then obtain ps where "j = JObject ps" "(t, l) \<in> set ps"
    by (auto simp: bb_json_object_get_value_def split: json.splits dest: map_of_SomeD)
  then show ?case using Cons renderable_member l(2) by fastforce
qed simp

lemma renderable_lookup: "list_all renderable ctx \<Longrightarrow> template_lookup ctx path = Some k \<Longrightarrow> renderable k"
  by (induction ctx) (auto split: option.splits intro: renderable_walk)

section \<open>The renderer\<close>

definition env_ok :: "bool \<Rightarrow> template_env \<Rightarrow> bool" where
  "env_ok may env \<longleftrightarrow> gives_room (te_malloc env) \<and> gives_room (te_realloc env) \<and>
     (may \<or> (\<forall>n. te_malloc env n \<noteq> None \<and> te_realloc env n \<noteq> None))"

lemma adds_none [simp]: "adds may (in_order []) (\<lambda>_. [])"
  using adds_order [of may "[]" "[]"] by (simp add: pieces.simps(1) [abs_def])

lemma adds_lookup:
  assumes "adds may (f (template_lookup ctx path)) s" and "adds may (f None) (\<lambda>_. [])"
  shows "adds may (with_value env ctx path f) (\<lambda>n. if te_dup env n path then s n else [])"
  unfolding adds_def
proof (intro allI impI)
  fix t sb assume h: "sb_holds t sb"
  then have "sb_length sb = length t" by (simp add: sb_holds_def)
  then show "\<exists>ok sb'. with_value env ctx path f sb = Some (ok, sb') \<and>
      (if ok then sb_holds (t @ (if te_dup env (length t) path then s (length t) else [])) sb' else may)"
    using assms h unfolding adds_def with_value_def lookup_here_def by (cases "te_dup env (length t) path") simp_all
qed

lemma adds_text:
  assumes "env_ok may env"
  shows "adds may (sb_append (te_realloc env) (Some s)) (\<lambda>_. cstr s)"
  using assms by (intro adds_append) (auto simp: env_ok_def)

lemma render_serialized:
  assumes e: "env_ok may env" and j: "renderable j"
  shows "adds may (\<lambda>sb. case bb_json_serialize (te_malloc env) (Some j) (Some None) (Some 0) of
                  None \<Rightarrow> None
                | Some (err, buffer, _) \<Rightarrow>
                    if err \<noteq> JSON_OK \<or> the buffer = None then Some (False, sb)
                    else sb_append (te_realloc env) (the buffer) sb) (\<lambda>_. print_json False 0 j)"
proof (cases "te_malloc env (length (print_json False 0 j) + 1)")
  case None
  then have "may" using e unfolding env_ok_def by blast
  then show ?thesis
    using None serialize_spec(1) [of False j] j unfolding adds_def
    by (auto simp: bb_json_serialize_def renderable_def nat_add_distrib)
next
  case (Some b)
  then have "length b = length (print_json False 0 j) + 1" using e by (auto simp: env_ok_def gives_room_def)
  with serialize_spec [of False j] j Some
  have "bb_json_serialize (te_malloc env) (Some j) (Some None) (Some 0) =
      Some (JSON_OK, Some (Some (print_json False 0 j @ [NUL])), Some (int (length (print_json False 0 j))))"
    by (simp add: bb_json_serialize_def renderable_def)
  then show ?thesis
    using adds_text [OF e, of "print_json False 0 j @ [NUL]"] unfolding cstr_printed by simp
qed

lemma adds_value:
  assumes e: "env_ok may env" and j: "renderable j"
  shows "adds may (render_value env (Some j)) (\<lambda>_. value_text j)"
proof (cases "\<exists>t. j = JText t")
  case True
  then obtain t where t: "j = JText (Some t)" using j by (auto simp: renderable_def)
  show ?thesis using adds_text [OF e, of t] by (simp add: render_value_def [abs_def] value_text_def t)
next
  case False
  then show ?thesis
    using render_serialized [OF e j] by (cases j) (simp_all add: render_value_def [abs_def] value_text_def)
qed

lemma adds_node:
  assumes e: "env_ok may env"
  shows "list_all renderable ctx \<Longrightarrow> adds may (render_node env n ctx) (copied_text (te_dup env) n ctx)"
proof (induction n arbitrary: ctx)
  case (TText t)
  then show ?case using adds_text [OF e] by simp
next
  case (TVariable path)
  have none: "adds may (render_value env None) (\<lambda>_. [])"
    using adds_none [of may] by (simp add: render_value_def [abs_def] in_order.simps(1) [abs_def])
  have "adds may (render_value env (template_lookup ctx path))
      (\<lambda>_. case template_lookup ctx path of None \<Rightarrow> [] | Some j \<Rightarrow> value_text j)"
    using none adds_value [OF e] renderable_lookup [OF TVariable] by (cases "template_lookup ctx path") simp_all
  from adds_lookup [of may "render_value env", OF this none] show ?case by simp
next
  case (TSection path cs)
  have "adds may (case template_lookup ctx path of
        Some (JArray items) \<Rightarrow> in_order (map (\<lambda>item. in_order (map (\<lambda>n. render_node env n (item # ctx)) cs)) items)
      | _ \<Rightarrow> in_order [])
    (\<lambda>n. case template_lookup ctx path of
        Some (JArray items) \<Rightarrow> pieces (map (\<lambda>item. pieces (map (\<lambda>c. copied_text (te_dup env) c (item # ctx)) cs)) items) n
      | _ \<Rightarrow> [])"
  proof (cases "\<exists>items. template_lookup ctx path = Some (JArray items)")
    case True
    then obtain items where items: "template_lookup ctx path = Some (JArray items)" by blast
    have "adds may (in_order (map (\<lambda>item. in_order (map (\<lambda>n. render_node env n (item # ctx)) cs)) items))
        (pieces (map (\<lambda>item. pieces (map (\<lambda>c. copied_text (te_dup env) c (item # ctx)) cs)) items))"
    proof (intro adds_map)
      fix item n assume "item \<in> set items" "n \<in> set cs"
      then show "adds may (render_node env n (item # ctx)) (copied_text (te_dup env) n (item # ctx))"
        using TSection renderable_lookup [OF TSection.prems items] renderable_element by simp
    qed
    then show ?thesis by (simp add: items)
  next
    case False
    then show ?thesis by (auto split: option.split json.split)
  qed
  then show ?case unfolding render_node.simps copied_text.simps by (intro adds_lookup) simp_all
next
  case (TConditional path cs)
  have "adds may (in_order (map (\<lambda>n. render_node env n ctx) cs)) (pieces (map (\<lambda>c. copied_text (te_dup env) c ctx) cs))"
    by (rule adds_map) (use TConditional in simp)
  then have "adds may (if is_truthy (template_lookup ctx path) then in_order (map (\<lambda>n. render_node env n ctx) cs) else in_order [])
      (\<lambda>n. if is_truthy (template_lookup ctx path) then pieces (map (\<lambda>c. copied_text (te_dup env) c ctx) cs) n else [])"
    by simp
  moreover have "(\<lambda>n. if te_dup env n path \<and> is_truthy (template_lookup ctx path)
          then pieces (map (\<lambda>c. copied_text (te_dup env) c ctx) cs) n else []) =
      (\<lambda>n. if te_dup env n path then (if is_truthy (template_lookup ctx path)
          then pieces (map (\<lambda>c. copied_text (te_dup env) c ctx) cs) n else []) else [])"
    by auto
  ultimately show ?case
    unfolding render_node.simps copied_text.simps by (simp only:) (rule adds_lookup, simp_all add: is_truthy_def [of None])
next
  case TComment
  show ?case using adds_none [of may] by (simp only: render_node.simps copied_text.simps)
qed

lemma cstr_held: "sb_holds t sb \<Longrightarrow> cstr (sb_data sb) = t \<and> NUL \<in> set (sb_data sb)"
proof -
  assume h: "sb_holds t sb"
  then have l: "length t < length (sb_data sb)" by (simp add: sb_holds_def)
  have "sb_data sb = t @ NUL # drop (Suc (length t)) (sb_data sb)"
    using h id_take_nth_drop [OF l] by (simp add: sb_holds_def)
  moreover have "\<And>c. c \<in> set t \<Longrightarrow> c \<noteq> NUL" using h by (auto simp: sb_holds_def)
  then have "cstr (t @ NUL # r) = t" for r by (simp add: cstr_def takeWhile_append2)
  ultimately show ?thesis by (metis in_set_conv_decomp)
qed

lemma init_holds: "gives_room malloc \<Longrightarrow> sb_init malloc = Some sb \<Longrightarrow> sb_holds [] sb"
  by (auto simp: sb_init_def gives_room_def sb_holds_def BB_STRING_BUILDER_INITIAL_CAPACITY_def)

section \<open>A printed template is rendered alike\<close>

fun no_nul :: "template_node \<Rightarrow> bool" where
  "no_nul (TText t) \<longleftrightarrow> NUL \<notin> set t"
| "no_nul _ \<longleftrightarrow> True"

lemma template_text_append: "template_text (ns @ ms) ctx = template_text ns ctx @ template_text ms ctx"
  by (simp add: template_text_def)

text \<open>The text so far and the nodes so far, as one text.\<close>

definition state_text :: "string \<times> template_node list \<Rightarrow> render_context \<Rightarrow> string" where
  "state_text st ctx = template_text (snd st) ctx @ fst st"

lemma close_text_eq: "NUL \<notin> set (fst st) \<Longrightarrow> template_text (close_text st) ctx = state_text st ctx"
  by (simp add: close_text_def append_text_def state_text_def template_text_append)
    (simp add: template_text_def cstr_id)

lemma state_text_close: "NUL \<notin> set (fst st) \<Longrightarrow> state_text ([], close_text st @ ns) ctx = state_text st ctx @ template_text ns ctx"
  by (simp add: state_text_def template_text_append close_text_eq)

lemma cut_text_eq:
  "NUL \<notin> set t \<Longrightarrow> NUL \<notin> set (fst st) \<Longrightarrow>
   NUL \<notin> set (fst (cut_text t st)) \<and> state_text (cut_text t st) ctx = state_text st ctx @ t"
proof (induction t st rule: cut_text.induct)
  case (2 c s p ns)
  show ?case
  proof (cases s)
    case Nil
    then show ?thesis using 2 by (simp add: state_text_def)
  next
    case (Cons d t)
    show ?thesis
    proof (cases "c = CHR ''{'' \<and> d = CHR ''{''")
      case True
      have "cstr ''{{'' = ''{{''" by (simp add: cstr_def NUL_def)
      then have "state_text ([], append_text p ns @ [TText ''{{'']) ctx = state_text (p, ns) ctx @ ''{{''"
        using state_text_close [of "(p, ns)" "[TText ''{{'']" ctx] "2.prems" by (simp add: close_text_def template_text_def)
      then show ?thesis using "2.IH"(1) [OF Cons True] "2.prems" True Cons by simp
    next
      case False
      have "cut_text (c # s) (p, ns) = cut_text s (p @ [c], ns)"
        by (simp only: cut_text.simps Cons list.case if_not_P [OF False])
      then show ?thesis using "2.IH"(2) [OF Cons False] "2.prems" by (simp add: state_text_def)
    qed
  qed
qed simp

lemma fold_read_eq:
  assumes "\<And>c st ctx. c \<in> set cs \<Longrightarrow> NUL \<notin> set (fst st) \<Longrightarrow>
      NUL \<notin> set (fst (read_node c st)) \<and> state_text (read_node c st) ctx = state_text st ctx @ node_text c ctx"
    and "NUL \<notin> set (fst st)"
  shows "NUL \<notin> set (fst (fold read_node cs st)) \<and> state_text (fold read_node cs st) ctx = state_text st ctx @ template_text cs ctx"
  using assms
proof (induction cs arbitrary: st)
  case Nil
  then show ?case by (simp add: template_text_def)
next
  case (Cons c cs)
  have c: "NUL \<notin> set (fst (read_node c st)) \<and> state_text (read_node c st) ctx = state_text st ctx @ node_text c ctx"
    using Cons.prems by simp
  have "NUL \<notin> set (fst (fold read_node cs (read_node c st))) \<and>
      state_text (fold read_node cs (read_node c st)) ctx = state_text (read_node c st) ctx @ template_text cs ctx"
    by (rule Cons.IH) (use Cons.prems c in simp_all)
  then show ?case using c by (simp add: template_text_def)
qed

lemma children_eq:
  assumes "\<And>c st ctx. c \<in> set cs \<Longrightarrow> NUL \<notin> set (fst st) \<Longrightarrow>
      NUL \<notin> set (fst (read_node c st)) \<and> state_text (read_node c st) ctx = state_text st ctx @ node_text c ctx"
  shows "concat (map (\<lambda>n. node_text n ctx) (close_text (fold read_node cs ([], [])))) = concat (map (\<lambda>n. node_text n ctx) cs)"
  using fold_read_eq [of cs "([], [])" ctx, OF assms] close_text_eq [of "fold read_node cs ([], [])" ctx]
  by (simp add: state_text_def template_text_def)

lemma read_node_eq:
  "node_ok n \<Longrightarrow> NUL \<notin> set (fst st) \<Longrightarrow>
   NUL \<notin> set (fst (read_node n st)) \<and> state_text (read_node n st) ctx = state_text st ctx @ node_text n ctx"
proof (induction n arbitrary: st ctx)
  case (TText t)
  then show ?case using cut_text_eq [of t st ctx] by (simp add: cstr_id)
next
  case (TVariable path)
  then show ?case by (simp add: state_text_close template_text_def)
next
  case (TSection path cs)
  have "concat (map (\<lambda>n. node_text n c) (close_text (fold read_node cs ([], [])))) = concat (map (\<lambda>n. node_text n c) cs)" for c
    by (rule children_eq) (use TSection in simp)
  then show ?case using TSection.prems by (simp add: state_text_close template_text_def split: option.split json.split)
next
  case (TConditional path cs)
  have "concat (map (\<lambda>n. node_text n c) (close_text (fold read_node cs ([], [])))) = concat (map (\<lambda>n. node_text n c) cs)" for c
    by (rule children_eq) (use TConditional in simp)
  then show ?case using TConditional.prems by (simp add: state_text_close template_text_def)
next
  case TComment
  then show ?case using state_text_close [of st "[]" ctx] by (simp add: template_text_def)
qed

lemma read_back_eq:
  assumes "\<forall>n\<in>set ns. node_ok n"
  shows "template_text (read_back ns) ctx = template_text ns ctx"
  using children_eq [of ns ctx] read_node_eq assms unfolding read_back_def template_text_def by blast

lemma parse_end: "parse None st [] = Some (Some (close_text st, []))"
  by (simp add: parse_nodes.simps [of _ None _ _ "[]"] close_text_def)

lemma print_node_no_nul: "node_ok n \<Longrightarrow> NUL \<notin> set (print_node n)"
proof (induction n)
  case (TText t)
  have "set (escape_braces t) \<subseteq> insert (CHR 0x5C) (set t)"
  proof (induction t rule: escape_braces.induct)
    case (2 c s)
    show ?case
    proof (cases s)
      case Nil
      then show ?thesis by simp
    next
      case (Cons d u)
      have IH: "\<not> (c = CHR ''{'' \<and> d = CHR ''{'') \<Longrightarrow> set (escape_braces s) \<subseteq> insert (CHR 0x5C) (set s)"
        "c = CHR ''{'' \<and> d = CHR ''{'' \<Longrightarrow> set (escape_braces u) \<subseteq> insert (CHR 0x5C) (set u)"
        using 2 Cons by blast+
      have "escape_braces (c # s) = (if c = CHR ''{'' \<and> d = CHR ''{'' then [CHR 0x5C, CHR ''{'', CHR ''{''] @ escape_braces u
          else c # escape_braces s)"
        unfolding escape_braces.simps(2) Cons list.case by (rule refl)
      then show ?thesis using IH Cons by (cases "c = CHR ''{'' \<and> d = CHR ''{''") (auto simp del: escape_braces.simps)
    qed
  qed simp
  then show ?case using TText by (auto simp: NUL_def)
qed (auto simp: name_ok_def NUL_def)

lemma parse_printed_template:
  assumes "\<forall>n\<in>set ns. node_ok n"
  shows "bb_template_parse (\<lambda>_. True) True (Some (concat (map print_node ns))) = Some (TPL_OK, Some (read_back ns))"
proof -
  have "\<forall>n\<in>set ns. NUL \<notin> set (print_node n)" using assms print_node_no_nul by blast
  then have "NUL \<notin> set (concat (map print_node ns))" unfolding set_concat set_map by blast
  then have "cstr (concat (map print_node ns)) = concat (map print_node ns)" by (rule cstr_id)
  moreover have "parse None ([], []) (concat (map print_node ns) @ []) = parse None (fold read_node ns ([], [])) []"
    by (rule parse_printed_list) (use assms parse_printed_node in blast)
  ultimately show ?thesis
    by (simp only: bb_template_parse_def read_back_def parse_end append_Nil2 fst_conv snd_conv option.case option.map
        prod.case if_not_P not_True_eq_False not_False_eq_True)
qed

section \<open>Templates: what holds\<close>

text \<open>C40: The parser of templates returns for every source and every failing allocation: with the nodes, or
  with an error and no nodes. The stack is taken to be large enough: the code recurses once for
  every open section and sets no limit to their nesting.\<close>

theorem template_parser_returns:
  "\<exists>err nodes. bb_template_parse mem ok source = Some (err, nodes) \<and>
     (nodes = None \<longleftrightarrow> err \<noteq> TPL_OK) \<and> (err = TPL_ERR_NULL \<longleftrightarrow> source = None)"
proof (cases source)
  case None
  then show ?thesis by (simp add: bb_template_parse_def)
next
  case (Some s)
  obtain res where res: "parse_nodes mem None [] [] (cstr s) = Some res" using parse_nodes_returns by blast
  show ?thesis
  proof (cases ok)
    case True
    then show ?thesis using res Some by (cases res) (auto simp: bb_template_parse_def)
  next
    case False
    then show ?thesis by (simp add: bb_template_parse_def Some)
  qed
qed

text \<open>C11: For every document and whichever allocations fail, the renderer never leaves its growing
  buffer; it writes exactly the text of the template (values in place of names, sections once
  for each element with the element's own members first, conditionals as the value says), or it
  reports an error, which it does only when the buffer or the text of a value could not be
  allocated. A name for whose lookup the path cannot be copied is rendered as a name that is not
  there, without an error; when all copies succeed the text is the plain text of the template.\<close>

theorem renderer_writes_the_text:
  assumes "gives_room (te_malloc env)" and "gives_room (te_realloc env)" and "renderable j"
  shows "\<exists>err out. bb_template_render env (Some ns) (Some j) = Some (err, out) \<and>
     (case out of
        Some buf \<Rightarrow> err = TPL_OK \<and> NUL \<in> set buf \<and> cstr buf = copied_template (te_dup env) ns [j]
      | None \<Rightarrow> err \<noteq> TPL_OK \<and> (\<exists>n. te_malloc env n = None \<or> te_realloc env n = None)) \<and>
     ((\<forall>n path. te_dup env n path) \<longrightarrow> copied_template (te_dup env) ns [j] = template_text ns [j])"
proof -
  define may where "may \<longleftrightarrow> (\<exists>n. te_malloc env n = None \<or> te_realloc env n = None)"
  have e: "env_ok may env" using assms(1,2) by (auto simp: env_ok_def may_def)
  let ?t = "copied_template (te_dup env) ns [j]"
  have c: "(\<forall>n path. te_dup env n path) \<longrightarrow> ?t = template_text ns [j]"
    using copied_template_all by blast
  show ?thesis
  proof (cases "sb_init (te_malloc env)")
    case None
    then have "may" by (auto simp: sb_init_def may_def)
    then show ?thesis using None c by (auto simp: bb_template_render_def may_def)
  next
    case (Some sb)
    have "adds may (render_nodes env ns [j]) (pieces (map (\<lambda>n. copied_text (te_dup env) n [j]) ns))"
      unfolding render_nodes_def by (rule adds_map) (use adds_node [OF e] assms(3) in simp)
    from addsD [OF this init_holds [OF assms(1) Some]] obtain ok sb' where
      "render_nodes env ns [j] sb = Some (ok, sb')" "ok \<Longrightarrow> sb_holds ?t sb'" "\<not> ok \<Longrightarrow> may"
      by (auto simp: copied_template_def)
    then show ?thesis
      using Some c cstr_held [of ?t sb'] by (cases ok) (auto simp: bb_template_render_def may_def)
  qed
qed

text \<open>C10: A template that is printed and parsed again renders as the template did, in every document.\<close>

theorem printed_template_renders_alike:
  assumes "\<forall>n\<in>set ns. node_ok n"
  shows "\<exists>back. bb_template_parse (\<lambda>_. True) True (Some (concat (map print_node ns))) = Some (TPL_OK, Some back) \<and>
     (\<forall>ctx. template_text back ctx = template_text ns ctx)"
  using parse_printed_template [OF assms] read_back_eq [OF assms] by blast

definition sample_template :: "template_node list" where
  "sample_template =
     [TText ''a {{ b'', TVariable ''user.name'', TComment,
      TSection ''items'' [TText '', '', TVariable ''name''], TConditional ''last'' [TText ''end'']]"

definition sample_context :: json where
  "sample_context =
     JObject [(''user'', JObject [(''name'', JText (Some ''Ann''))]), (''items'', JArray [JInt 1, JObject [(''name'', JBool True)]])]"

definition sample_env :: template_env where
  "sample_env = \<lparr>te_dup = (\<lambda>_ _. True), te_malloc = (\<lambda>n. Some (replicate n NUL)), te_realloc = (\<lambda>n. Some (replicate n NUL))\<rparr>"

theorem printed_template_renders_alike_witness:
  "\<exists>back. bb_template_parse (\<lambda>_. True) True (Some (concat (map print_node sample_template))) = Some (TPL_OK, Some back) \<and>
     (\<forall>ctx. template_text back ctx = template_text sample_template ctx)"
  by (rule printed_template_renders_alike) (simp add: sample_template_def name_ok_def NUL_def)

text \<open>An environment in which one copy fails: the name in the middle is left out without an error.\<close>

definition failing_env :: template_env where
  "failing_env = sample_env\<lparr>te_dup := (\<lambda>n path. path \<noteq> ''user.name'')\<rparr>"

theorem renderer_writes_the_text_witness:
  "\<exists>err out. bb_template_render failing_env (Some sample_template) (Some sample_context) = Some (err, out) \<and>
     (case out of
        Some buf \<Rightarrow> err = TPL_OK \<and> NUL \<in> set buf \<and> cstr buf = copied_template (te_dup failing_env) sample_template [sample_context]
      | None \<Rightarrow> err \<noteq> TPL_OK \<and> (\<exists>n. te_malloc failing_env n = None \<or> te_realloc failing_env n = None))"
proof -
  have "renderable sample_context"
    by (simp add: renderable_def sample_context_def tabs_def newline_def quoted_def escape_char_def simple_escape_def short_escape_def
        show_int_def show_nat.simps INT_MAX_def NUL_def LF_def HTAB_def)
  moreover have "gives_room (te_malloc failing_env)" "gives_room (te_realloc failing_env)"
    by (simp_all add: gives_room_def failing_env_def sample_env_def)
  ultimately show ?thesis using renderer_writes_the_text [of failing_env sample_context sample_template] by blast
qed

text \<open>What the renderer then reports: success, and a text without the name.\<close>

theorem failed_copy_is_not_reported:
  "map_option (\<lambda>(err, out). (err, map_option cstr out))
     (bb_template_render failing_env (Some [TText ''a'', TVariable ''user.name'', TText ''b'']) (Some sample_context)) =
   Some (TPL_OK, Some ''ab'')"
  by code_simp

end
