(* ===== verification/Schema.thy ===== *)
theory Schema
  imports Json_Theorems
begin

text \<open>
  Schemas and the entities they describe (\<open>modules/persist\<close>: \<open>schema.h\<close>, \<open>schema.c\<close>,
  \<open>internal/text_copy.h\<close>). The registry of \<open>schema.c\<close> is the list of the registered schemas. An entity is
  the memory of a struct, its bytes as characters; an \<open>int\<close> lies in it with its lowest byte first. An
  outcome \<open>None\<close> is an access outside such memory, or a null pointer read.
\<close>

section \<open>Schemas\<close>

datatype bb_field_type = BB_FIELD_INT | BB_FIELD_STRING | BB_FIELD_UUID | BB_FIELD_BLOB

record bb_field =
  fd_name :: "string option"
  fd_type :: bb_field_type
  fd_offset :: nat
  fd_size :: nat
  fd_flags :: u32
  fd_references_schema :: "string option"
  fd_references_field :: "string option"

text \<open>The array of fields and its count are the list; \<open>None\<close> is the null array.\<close>

record bb_schema =
  sc_name :: "string option"
  sc_fields :: "bb_field list option"
  sc_struct_size :: nat
  sc_primary_key_index :: nat

definition schema_fields :: "bb_schema \<Rightarrow> bb_field list" where
  "schema_fields schema = (case sc_fields schema of None \<Rightarrow> [] | Some fs \<Rightarrow> fs)"

text \<open>\<open>bb_schema_find_field\<close>; a field without a name is a \<open>strcmp\<close> on a null pointer.\<close>

fun find_field :: "string \<Rightarrow> bb_field list \<Rightarrow> bb_field option option" where
  "find_field name [] = Some None"
| "find_field name (f # fs) =
     (case fd_name f of
        None \<Rightarrow> None
      | Some n \<Rightarrow> if n = name then Some (Some f) else find_field name fs)"

definition bb_schema_find_field :: "bb_schema \<Rightarrow> string \<Rightarrow> bb_field option option" where
  "bb_schema_find_field schema name = find_field name (schema_fields schema)"

section \<open>The registry\<close>

definition BB_MAX_SCHEMAS :: nat where "BB_MAX_SCHEMAS = 256"

fun bb_schema_get :: "bb_schema list \<Rightarrow> string option \<Rightarrow> bb_schema option" where
  "bb_schema_get [] name = None"
| "bb_schema_get (s # ss) name =
     (if name = None then None else if sc_name s = name then Some s else bb_schema_get ss name)"

text \<open>The comparison of a name with those of the fields behind it.\<close>

fun name_repeated :: "string \<Rightarrow> bb_field list \<Rightarrow> bool option" where
  "name_repeated name fs = map_option (\<lambda>found. found \<noteq> None) (find_field name fs)"

definition references_ok :: "bb_schema list \<Rightarrow> bb_field \<Rightarrow> bool option" where
  "references_ok schemas f =
     (case (fd_references_schema f, fd_references_field f) of
        (None, None) \<Rightarrow> Some True
      | (Some s, Some n) \<Rightarrow>
          (case bb_schema_get schemas (Some s) of
             None \<Rightarrow> Some False
           | Some ref_schema \<Rightarrow> map_option (\<lambda>found. found \<noteq> None) (bb_schema_find_field ref_schema n))
      | _ \<Rightarrow> Some False)"

fun validate_fields :: "bb_schema list \<Rightarrow> bb_field list \<Rightarrow> bool option" where
  "validate_fields schemas [] = Some True"
| "validate_fields schemas (f # fs) =
     (case fd_name f of
        None \<Rightarrow> Some False
      | Some name \<Rightarrow>
          if name = [] \<or> fd_size f = 0 then Some False
          else case name_repeated name fs of
                 None \<Rightarrow> None
               | Some True \<Rightarrow> Some False
               | Some False \<Rightarrow>
                   (case references_ok schemas f of
                      None \<Rightarrow> None
                    | Some ok \<Rightarrow> if ok then validate_fields schemas fs else Some False))"

definition bb_schema_validate :: "bb_schema list \<Rightarrow> bb_schema option \<Rightarrow> bool option" where
  "bb_schema_validate schemas schema =
     (case schema of
        None \<Rightarrow> Some False
      | Some s \<Rightarrow>
          if sc_name s = None \<or> sc_name s = Some [] then Some False
          else case sc_fields s of
                 None \<Rightarrow> Some False
               | Some fs \<Rightarrow>
                   if fs = [] \<or> sc_struct_size s = 0 \<or> sc_primary_key_index s \<ge> length fs then Some False
                   else validate_fields schemas fs)"

text \<open>The result and the registry behind it.\<close>

definition bb_schema_register :: "bb_schema list \<Rightarrow> bb_schema option \<Rightarrow> (int \<times> bb_schema list) option" where
  "bb_schema_register schemas schema =
     (case schema of
        None \<Rightarrow> Some (- 1, schemas)
      | Some s \<Rightarrow>
          (case bb_schema_validate schemas schema of
             None \<Rightarrow> None
           | Some valid \<Rightarrow>
               if \<not> valid \<or> bb_schema_get schemas (sc_name s) \<noteq> None \<or> length schemas \<ge> BB_MAX_SCHEMAS
               then Some (- 1, schemas)
               else Some (0, schemas @ [s])))"

section \<open>The memory of entities\<close>

definition read_bytes :: "nat \<Rightarrow> nat \<Rightarrow> string \<Rightarrow> string option" where
  "read_bytes off n mem = (if off + n \<le> length mem then Some (take n (drop off mem)) else None)"

definition int_of_bytes :: "string \<Rightarrow> u32" where
  "int_of_bytes bs = word_of_nat (foldr (\<lambda>c n. ord c + 256 * n) bs 0)"

definition bytes_of_int :: "u32 \<Rightarrow> string" where
  "bytes_of_int w = map (\<lambda>i. char_of (unat w div 256 ^ i)) [0..<4]"

definition load_int :: "nat \<Rightarrow> string \<Rightarrow> u32 option" where
  "load_int off mem = map_option int_of_bytes (read_bytes off 4 mem)"

text \<open>A C string at an offset, up to its zero; without one the reading leaves the memory.\<close>

definition load_cstr :: "nat \<Rightarrow> string \<Rightarrow> string option" where
  "load_cstr off mem = (if NUL \<in> set (drop off mem) then Some (cstr (drop off mem)) else None)"

text \<open>\<open>bb_persist_copy_text_field\<close>: what the field of \<open>size\<close> bytes holds then.\<close>

fun step_back :: "string \<Rightarrow> nat \<Rightarrow> nat" where
  "step_back text' 0 = 0"
| "step_back text' (Suc n) =
     (if ord (text' ! Suc n) AND 0xC0 = 0x80 then step_back text' n else Suc n)"

definition copy_text_field :: "nat \<Rightarrow> string option \<Rightarrow> string" where
  "copy_text_field size' text' =
     (if size' = 0 then []
      else let t = (case text' of None \<Rightarrow> [] | Some t \<Rightarrow> cstr t);
               n = (if length t < size' then length t else size' - 1);
               n = (if n < length t then step_back t n else n)
           in take n t @ replicate (size' - n) NUL)"

end
