(* ===== verification/C_Qsort.thy ===== *)
theory C_Qsort
  imports C_Strings
begin

text \<open>
  \<open>qsort\<close> of the C library, a parameter of the components that sort: a function of the comparison and the
  elements. Here is what C asks of the comparison, what it promises, and a function that keeps the promise.
\<close>

type_synonym 'a sorter = "('a \<Rightarrow> 'a \<Rightarrow> int) \<Rightarrow> 'a list \<Rightarrow> 'a list"

definition consistent :: "('a \<Rightarrow> 'a \<Rightarrow> int) \<Rightarrow> 'a set \<Rightarrow> bool" where
  "consistent cmp A \<longleftrightarrow>
     (\<forall>a\<in>A. \<forall>b\<in>A. cmp b a = - cmp a b) \<and>
     (\<forall>a\<in>A. \<forall>b\<in>A. \<forall>c\<in>A. cmp a b \<le> 0 \<longrightarrow> cmp b c \<le> 0 \<longrightarrow> cmp a c \<le> 0)"

definition sorts :: "'a sorter \<Rightarrow> bool" where
  "sorts qsort \<longleftrightarrow> (\<forall>cmp xs. consistent cmp (set xs) \<longrightarrow>
     mset (qsort cmp xs) = mset xs \<and> sorted_wrt (\<lambda>a b. cmp a b \<le> 0) (qsort cmp xs))"

lemma sortsD:
  assumes "sorts qsort" and "consistent cmp (set xs)"
  shows "mset (qsort cmp xs) = mset xs" and "set (qsort cmp xs) = set xs" and "sorted_wrt (\<lambda>a b. cmp a b \<le> 0) (qsort cmp xs)"
proof -
  show m: "mset (qsort cmp xs) = mset xs" and "sorted_wrt (\<lambda>a b. cmp a b \<le> 0) (qsort cmp xs)"
    using assms by (simp_all add: sorts_def)
  show "set (qsort cmp xs) = set xs" using mset_eq_setD [OF m] .
qed

lemma consistent_subset: "consistent cmp A \<Longrightarrow> B \<subseteq> A \<Longrightarrow> consistent cmp B"
  unfolding consistent_def by blast

section \<open>Insertion sort\<close>

fun insert_by :: "('a \<Rightarrow> 'a \<Rightarrow> int) \<Rightarrow> 'a \<Rightarrow> 'a list \<Rightarrow> 'a list" where
  "insert_by cmp x [] = [x]"
| "insert_by cmp x (y # ys) = (if cmp x y \<le> 0 then x # y # ys else y # insert_by cmp x ys)"

definition insertion_qsort :: "'a sorter" where
  "insertion_qsort cmp xs = foldr (insert_by cmp) xs []"

lemma insert_by_mset: "mset (insert_by cmp x ys) = add_mset x (mset ys)"
  by (induction ys) auto

lemma insert_by_sorted:
  assumes "consistent cmp (insert x (set ys))" and "sorted_wrt (\<lambda>a b. cmp a b \<le> 0) ys"
  shows "sorted_wrt (\<lambda>a b. cmp a b \<le> 0) (insert_by cmp x ys)"
  using assms
proof (induction ys)
  case (Cons y ys)
  have "consistent cmp (insert x (set ys))" using Cons.prems(1) by (rule consistent_subset) auto
  then have IH: "sorted_wrt (\<lambda>a b. cmp a b \<le> 0) (insert_by cmp x ys)" using Cons by simp
  show ?case
  proof (cases "cmp x y \<le> 0")
    case True
    have "cmp x z \<le> 0" if "z \<in> set ys" for z
    proof -
      have "cmp y z \<le> 0" using Cons.prems(2) that by simp
      with True Cons.prems(1) that show ?thesis unfolding consistent_def by (meson insert_iff list.set_intros)
    qed
    then show ?thesis using True Cons.prems(2) by auto
  next
    case False
    have "cmp y x = - cmp x y" using Cons.prems(1) unfolding consistent_def by (meson insert_iff list.set_intros)
    then have "cmp y x \<le> 0" using False by simp
    moreover have "set (insert_by cmp x ys) = insert x (set ys)"
      using mset_eq_setD [of "insert_by cmp x ys" "x # ys"] insert_by_mset [of cmp x ys] by simp
    ultimately show ?thesis using False IH Cons.prems(2) by auto
  qed
qed simp

lemma insertion_sorts: "sorts (insertion_qsort :: 'a sorter)"
  unfolding sorts_def
proof (intro allI impI)
  fix cmp and xs :: "'a list" assume "consistent cmp (set xs)"
  then show "mset (insertion_qsort cmp xs) = mset xs \<and> sorted_wrt (\<lambda>a b. cmp a b \<le> 0) (insertion_qsort cmp xs)"
  proof (induction xs)
    case (Cons x xs)
    have "consistent cmp (set xs)" using Cons.prems by (rule consistent_subset) auto
    then have IH: "mset (insertion_qsort cmp xs) = mset xs" "sorted_wrt (\<lambda>a b. cmp a b \<le> 0) (insertion_qsort cmp xs)"
      using Cons.IH by auto
    have "set (insertion_qsort cmp xs) = set xs" using IH(1) mset_eq_setD by blast
    then have "sorted_wrt (\<lambda>a b. cmp a b \<le> 0) (insert_by cmp x (insertion_qsort cmp xs))"
      using Cons.prems IH(2) by (intro insert_by_sorted) simp_all
    then show ?case using IH(1) by (simp add: insertion_qsort_def insert_by_mset)
  qed (simp add: insertion_qsort_def)
qed

end
