(* ===== verification/Query.thy ===== *)
theory Query
  imports Schema C_Qsort
begin

text \<open>
  Queries (\<open>modules/persist/src/model/query.c\<close>): the builder and the evaluation in memory. A value is the
  memory its pointer refers to; an array of entities is a list of their memories. \<open>qsort\<close> is the C
  library's: a function of the comparison and the elements.
\<close>

section \<open>The builder\<close>

datatype bb_query_op = BB_OP_EQ | BB_OP_NE | BB_OP_LT | BB_OP_LTE | BB_OP_GT | BB_OP_GTE | BB_OP_LIKE

datatype bb_query_order = BB_ORDER_ASC | BB_ORDER_DESC

record bb_query_cond =
  qc_field :: string
  qc_op :: bb_query_op
  qc_value :: string

definition BB_QUERY_MAX_CONDITIONS :: nat where "BB_QUERY_MAX_CONDITIONS = 8"
definition BB_QUERY_MAX_SORTS :: nat where "BB_QUERY_MAX_SORTS = 4"

record bb_query =
  qy_schema :: bb_schema
  qy_conditions :: "bb_query_cond list"
  qy_sorts :: "(string \<times> bb_query_order) list"
  qy_limit :: int
  qy_offset :: int

definition bb_query_init :: "bb_schema \<Rightarrow> bb_query" where
  "bb_query_init schema = \<lparr>qy_schema = schema, qy_conditions = [], qy_sorts = [], qy_limit = - 1, qy_offset = - 1\<rparr>"

definition bb_query_where ::
  "bb_query option \<Rightarrow> string option \<Rightarrow> bb_query_op \<Rightarrow> string option \<Rightarrow> (int \<times> bb_query option) option" where
  "bb_query_where q field op val =
     (case (q, field, val) of
        (Some q', Some f, Some v) \<Rightarrow>
          (case bb_schema_find_field (qy_schema q') f of
             None \<Rightarrow> None
           | Some None \<Rightarrow> Some (- 1, q)
           | Some (Some _) \<Rightarrow>
               if length (qy_conditions q') \<ge> BB_QUERY_MAX_CONDITIONS then Some (- 1, q)
               else Some (0, Some (q'\<lparr>qy_conditions := qy_conditions q' @ [\<lparr>qc_field = f, qc_op = op, qc_value = v\<rparr>]\<rparr>)))
      | _ \<Rightarrow> Some (- 1, q))"

definition bb_query_order_by ::
  "bb_query option \<Rightarrow> string option \<Rightarrow> bb_query_order \<Rightarrow> (int \<times> bb_query option) option" where
  "bb_query_order_by q field direction =
     (case (q, field) of
        (Some q', Some f) \<Rightarrow>
          (case bb_schema_find_field (qy_schema q') f of
             None \<Rightarrow> None
           | Some None \<Rightarrow> Some (- 1, q)
           | Some (Some _) \<Rightarrow>
               if length (qy_sorts q') \<ge> BB_QUERY_MAX_SORTS then Some (- 1, q)
               else Some (0, Some (q'\<lparr>qy_sorts := qy_sorts q' @ [(f, direction)]\<rparr>)))
      | _ \<Rightarrow> Some (- 1, q))"

definition bb_query_limit :: "bb_query \<Rightarrow> int \<Rightarrow> bb_query" where
  "bb_query_limit q n = q\<lparr>qy_limit := n\<rparr>"

definition bb_query_offset :: "bb_query \<Rightarrow> int \<Rightarrow> bb_query" where
  "bb_query_offset q n = q\<lparr>qy_offset := n\<rparr>"

section \<open>Comparison\<close>

text \<open>
  \<open>strncmp\<close> and \<open>memcmp\<close> over at most \<open>n\<close> bytes, as the sign of their result; \<open>None\<close> when a byte outside
  the memory is read.
\<close>

fun strncmp_sign :: "nat \<Rightarrow> string \<Rightarrow> string \<Rightarrow> int option" where
  "strncmp_sign 0 a b = Some 0"
| "strncmp_sign (Suc n) [] b = None"
| "strncmp_sign (Suc n) (c # a) [] = None"
| "strncmp_sign (Suc n) (c # a) (d # b) =
     (if ord c < ord d then Some (- 1) else if ord d < ord c then Some 1
      else if c = NUL then Some 0 else strncmp_sign n a b)"

fun memcmp_sign :: "nat \<Rightarrow> string \<Rightarrow> string \<Rightarrow> int option" where
  "memcmp_sign 0 a b = Some 0"
| "memcmp_sign (Suc n) [] b = None"
| "memcmp_sign (Suc n) (c # a) [] = None"
| "memcmp_sign (Suc n) (c # a) (d # b) =
     (if ord c < ord d then Some (- 1) else if ord d < ord c then Some 1 else memcmp_sign n a b)"

text \<open>The field of an entity, as memory from the field on, and a value.\<close>

definition bb_field_compare :: "bb_field \<Rightarrow> string \<Rightarrow> string \<Rightarrow> int option" where
  "bb_field_compare f field_ptr val =
     (case fd_type f of
        BB_FIELD_INT \<Rightarrow>
          (case (load_int 0 field_ptr, load_int 0 val) of
             (Some a, Some b) \<Rightarrow> Some (of_bool (sint a > sint b) - of_bool (sint a < sint b))
           | _ \<Rightarrow> None)
      | BB_FIELD_BLOB \<Rightarrow> memcmp_sign (fd_size f) field_ptr val
      | _ \<Rightarrow> strncmp_sign (fd_size f) field_ptr val)"

text \<open>The loop over the places of the text, with the match of the rest of the pattern.\<close>

fun try_tails :: "(string \<Rightarrow> bool) \<Rightarrow> string \<Rightarrow> bool" where
  "try_tails match [] = False"
| "try_tails match (c # t) = (match (c # t) \<or> try_tails match t)"

lemma try_tails_cong [fundef_cong]:
  "t = t' \<Longrightarrow> (\<And>u. length u \<le> length t' \<Longrightarrow> m u = m' u) \<Longrightarrow> try_tails m t = try_tails m' t'"
  by (induction t arbitrary: t') auto

function bb_like_match :: "string \<Rightarrow> string \<Rightarrow> bool" where
  "bb_like_match text' [] = (text' = [])"
| "bb_like_match text' (p # pattern) =
     (if p = CHR ''%''
      then let rest = dropWhile (\<lambda>c. c = CHR ''%'') pattern
           in rest = [] \<or> try_tails (\<lambda>t. bb_like_match t rest) text'
      else case text' of [] \<Rightarrow> False | c # t \<Rightarrow> c = p \<and> bb_like_match t pattern)"
  by pat_completeness auto
termination
proof (relation "measure (\<lambda>(t, p). length p)", goal_cases)
  case (2 text' p pattern rest t)
  then show ?case using length_dropWhile_le [of "\<lambda>c. c = CHR ''%''" pattern] by simp
qed auto

definition bb_cond_matches :: "string \<Rightarrow> bb_query \<Rightarrow> bb_query_cond \<Rightarrow> bool option" where
  "bb_cond_matches entity q cond =
     (case bb_schema_find_field (qy_schema q) (qc_field cond) of
        None \<Rightarrow> None
      | Some None \<Rightarrow> Some False
      | Some (Some f) \<Rightarrow>
          if qc_op cond = BB_OP_LIKE
          then if fd_type f \<noteq> BB_FIELD_STRING \<and> fd_type f \<noteq> BB_FIELD_UUID then Some False
               else (case (load_cstr (fd_offset f) entity, load_cstr 0 (qc_value cond)) of
                       (Some t, Some p) \<Rightarrow> Some (bb_like_match t p)
                     | _ \<Rightarrow> None)
          else map_option (\<lambda>cmp.
                 case qc_op cond of
                   BB_OP_EQ \<Rightarrow> cmp = 0 | BB_OP_NE \<Rightarrow> cmp \<noteq> 0 | BB_OP_LT \<Rightarrow> cmp < 0 | BB_OP_LTE \<Rightarrow> cmp \<le> 0
                 | BB_OP_GT \<Rightarrow> cmp > 0 | BB_OP_GTE \<Rightarrow> cmp \<ge> 0 | _ \<Rightarrow> False)
               (bb_field_compare f (drop (fd_offset f) entity) (qc_value cond)))"

fun conds_match :: "string \<Rightarrow> bb_query \<Rightarrow> bb_query_cond list \<Rightarrow> bool option" where
  "conds_match entity q [] = Some True"
| "conds_match entity q (c # cs) =
     (case bb_cond_matches entity q c of
        None \<Rightarrow> None
      | Some ok \<Rightarrow> if ok then conds_match entity q cs else Some False)"

definition bb_query_matches :: "string \<Rightarrow> bb_query \<Rightarrow> bool option" where
  "bb_query_matches entity q = conds_match entity q (qy_conditions q)"

section \<open>Sorting and paging\<close>

fun sort_cmp :: "bb_query \<Rightarrow> (string \<times> bb_query_order) list \<Rightarrow> string \<Rightarrow> string \<Rightarrow> int option" where
  "sort_cmp q [] a b = Some 0"
| "sort_cmp q ((name, direction) # ss) a b =
     (case bb_schema_find_field (qy_schema q) name of
        None \<Rightarrow> None
      | Some None \<Rightarrow> sort_cmp q ss a b
      | Some (Some f) \<Rightarrow>
          (case bb_field_compare f (drop (fd_offset f) a) (drop (fd_offset f) b) of
             None \<Rightarrow> None
           | Some cmp \<Rightarrow>
               if cmp \<noteq> 0 then Some (if direction = BB_ORDER_ASC then cmp else - cmp)
               else sort_cmp q ss a b))"

definition bb_sort_cmp :: "bb_query \<Rightarrow> string \<Rightarrow> string \<Rightarrow> int option" where
  "bb_sort_cmp q a b = sort_cmp q (qy_sorts q) a b"

fun matching_rows :: "bb_query \<Rightarrow> string list \<Rightarrow> string list option" where
  "matching_rows q [] = Some []"
| "matching_rows q (e # es) =
     (case bb_query_matches e q of
        None \<Rightarrow> None
      | Some ok \<Rightarrow> map_option (\<lambda>rows. if ok then e # rows else rows) (matching_rows q es))"

text \<open>\<open>qsort\<close> may compare any two of the elements.\<close>

definition run_qsort :: "string sorter \<Rightarrow> (string \<Rightarrow> string \<Rightarrow> int option) \<Rightarrow> string list \<Rightarrow> string list option" where
  "run_qsort qsort cmp rows =
     (if list_all (\<lambda>a. list_all (\<lambda>b. cmp a b \<noteq> None) rows) rows
      then Some (qsort (\<lambda>a b. the (cmp a b)) rows) else None)"

text \<open>
  \<open>bb_query_apply\<close>: the result and the rows. \<open>malloc\<close> tells for a number of rows whether there is memory
  for them.
\<close>

definition page :: "(nat \<Rightarrow> bool) \<Rightarrow> bb_query \<Rightarrow> string list \<Rightarrow> int \<times> string list" where
  "page malloc q matched =
     (let start = (if qy_offset q > 0 then nat (qy_offset q) else 0)
      in if start \<ge> length matched then (0, [])
         else let available = length matched - start;
                  final_count = (if qy_limit q \<ge> 0 \<and> nat (qy_limit q) < available then nat (qy_limit q) else available)
              in if start = 0 \<and> final_count = length matched then (0, matched)
                 else if malloc final_count then (0, take final_count (drop start matched)) else (- 1, []))"

definition bb_query_apply ::
  "string sorter \<Rightarrow> (nat \<Rightarrow> bool) \<Rightarrow> bb_query \<Rightarrow> string list \<Rightarrow> (int \<times> string list) option" where
  "bb_query_apply qsort malloc q rows =
     (if rows = [] then Some (0, [])
      else if \<not> malloc (length rows) then Some (- 1, [])
      else case matching_rows q rows of
             None \<Rightarrow> None
           | Some matched \<Rightarrow>
               if matched = [] then Some (0, [])
               else map_option (page malloc q)
                      (if qy_sorts q \<noteq> [] then run_qsort qsort (bb_sort_cmp q) matched else Some matched))"

end
