(* ===== verification/Entity_Store.thy ===== *)
theory Entity_Store
  imports Query
begin

text \<open>
  Entities in JSON files (\<open>modules/persist\<close>): \<open>serialization/entity_json.c\<close>, the back end of
  \<open>model/model_json.c\<close> and the generic layer of \<open>model/repo.c\<close>. The state of the back end is the file:
  its bytes, or \<open>None\<close> when there is none. An outcome \<open>None\<close> is an access outside the memory of an entity
  or a key, or through a null pointer.
\<close>

section \<open>Allocations and files\<close>

text \<open>What can fail in an operation; the values and their texts by the place of the field.\<close>

record store_env =
  st_mem :: mem
  st_read :: bool
  st_root :: bool
  st_table :: bool
  st_table_set :: bool
  st_object :: bool
  st_value :: "nat \<Rightarrow> bool"
  st_text :: "nat \<Rightarrow> bool"
  st_set :: "nat \<Rightarrow> bool"
  st_push :: bool
  st_malloc :: "nat \<Rightarrow> string option"
  st_disk :: "nat option"
  st_rows :: "nat \<Rightarrow> bool"

type_synonym json_file = "string option"

definition load_file :: "store_env \<Rightarrow> json_file \<Rightarrow> json option" where
  "load_file env file = bb_json_load (st_mem env) (st_read env) file (case file of None \<Rightarrow> 0 | Some s \<Rightarrow> length s)"

section \<open>Entities as documents\<close>

text \<open>A value that cannot be allocated is a write through the null pointer; a text that cannot is left out.\<close>

definition new_value :: "store_env \<Rightarrow> nat \<Rightarrow> bb_field \<Rightarrow> string \<Rightarrow> json option option" where
  "new_value env i f entity =
     (case fd_type f of
        BB_FIELD_INT \<Rightarrow>
          Option.bind (load_int (fd_offset f) entity) (\<lambda>v. if st_value env i then Some (Some (JInt v)) else None)
      | BB_FIELD_BLOB \<Rightarrow> Some None
      | _ \<Rightarrow>
          Option.bind (load_cstr (fd_offset f) entity)
            (\<lambda>t. if st_value env i then Some (Some (JText (snd (set_value_text (st_text env i) (Some t))))) else None))"

fun entity_members :: "store_env \<Rightarrow> nat \<Rightarrow> bb_field list \<Rightarrow> string \<Rightarrow> json option \<Rightarrow> json option option" where
  "entity_members env i [] entity obj = Some obj"
| "entity_members env i (f # fs) entity obj =
     (case new_value env i f entity of
        None \<Rightarrow> None
      | Some val \<Rightarrow>
          entity_members env (Suc i) fs entity
            (if val = None then obj else snd (bb_json_object_set_value (st_set env i) obj (fd_name f) val)))"

definition bb_entity_to_json :: "store_env \<Rightarrow> bb_schema \<Rightarrow> string \<Rightarrow> json option option" where
  "bb_entity_to_json env schema entity =
     entity_members env 0 (schema_fields schema) entity (if st_object env then Some (JObject []) else None)"

fun fill_entity :: "bb_field list \<Rightarrow> json \<Rightarrow> string \<Rightarrow> (int \<times> string) option" where
  "fill_entity [] json out = Some (0, out)"
| "fill_entity (f # fs) json out =
     (case bb_json_object_get_value (Some json) (fd_name f) of
        None \<Rightarrow> fill_entity fs json out
      | Some val \<Rightarrow>
          (case fd_type f of
             BB_FIELD_INT \<Rightarrow>
               if bb_json_get_type (Some val) \<noteq> BB_JSON_INT then Some (- 1, out)
               else Option.bind (write_at (fd_offset f) (bytes_of_int (bb_json_get_value_integer val)) out)
                      (fill_entity fs json)
           | BB_FIELD_BLOB \<Rightarrow> fill_entity fs json out
           | _ \<Rightarrow>
               if bb_json_get_type (Some val) \<noteq> BB_JSON_TEXT then Some (- 1, out)
               else Option.bind (write_at (fd_offset f) (copy_text_field (fd_size f) (bb_json_get_value_text val)) out)
                      (fill_entity fs json)))"

definition bb_json_to_entity :: "bb_schema \<Rightarrow> json option \<Rightarrow> string \<Rightarrow> (int \<times> string) option" where
  "bb_json_to_entity schema json out =
     (case json of
        Some (JObject ps) \<Rightarrow>
          Option.bind (write_at 0 (replicate (sc_struct_size schema) NUL) out)
            (fill_entity (schema_fields schema) (JObject ps))
      | _ \<Rightarrow> Some (- 1, out))"

section \<open>The file of tables\<close>

definition load_root :: "store_env \<Rightarrow> json_file \<Rightarrow> json option" where
  "load_root env file =
     (case load_file env file of
        Some root \<Rightarrow> Some root
      | None \<Rightarrow> if st_root env then Some (JObject []) else None)"

definition save_root :: "store_env \<Rightarrow> json option \<Rightarrow> json_file \<Rightarrow> (int \<times> json_file) option" where
  "save_root env root file =
     map_option (\<lambda>(err, out). (if err \<noteq> JSON_OK then 1 else 0, case out of None \<Rightarrow> file | Some s \<Rightarrow> Some s))
       (bb_json_dump (st_malloc env) (st_disk env) root)"

text \<open>The root and the table; a new table may fail to be entered in the root.\<close>

definition get_table :: "store_env \<Rightarrow> json option \<Rightarrow> string option \<Rightarrow> json option \<times> json option" where
  "get_table env root name =
     (case bb_json_object_get_value root name of
        Some table \<Rightarrow> (root, Some table)
      | None \<Rightarrow>
          let table = (if st_table env then Some (JArray []) else None)
          in (snd (bb_json_object_set_value (st_table_set env) root name table), table))"

text \<open>The root after a change of the table, which it shares if the table was entered.\<close>

definition with_table :: "json option \<Rightarrow> string option \<Rightarrow> json option \<Rightarrow> json option" where
  "with_table root name table =
     (case (root, name, table) of
        (Some (JObject ps), Some n, Some t) \<Rightarrow> if n \<in> fst ` set ps then Some (JObject (al_put n t ps)) else root
      | _ \<Rightarrow> root)"

definition table_items :: "json option \<Rightarrow> json list" where
  "table_items table = (case table of Some (JArray js) \<Rightarrow> js | _ \<Rightarrow> [])"

definition bb_json_array_remove_at_index :: "json option \<Rightarrow> nat \<Rightarrow> json_error \<times> json option" where
  "bb_json_array_remove_at_index json_array index =
     (case json_array of
        None \<Rightarrow> (JSON_ERR_NULL, json_array)
      | Some (JArray js) \<Rightarrow>
          if length js \<le> index then (JSON_ERR_OVERFLOW, json_array)
          else (JSON_OK, Some (JArray (take index js @ drop (Suc index) js)))
      | Some _ \<Rightarrow> (JSON_ERR_TYPE_MISMATCH, json_array))"

definition primary_key :: "bb_schema \<Rightarrow> bb_field option" where
  "primary_key schema =
     (if sc_primary_key_index schema < length (schema_fields schema)
      then Some (schema_fields schema ! sc_primary_key_index schema) else None)"

definition pk_equals :: "bb_field \<Rightarrow> json option \<Rightarrow> string \<Rightarrow> bool option" where
  "pk_equals pk node key =
     (case node of
        None \<Rightarrow> Some False
      | Some j \<Rightarrow>
          (case fd_type pk of
             BB_FIELD_INT \<Rightarrow> map_option (\<lambda>k. bb_json_get_value_integer j = k) (load_int 0 key)
           | BB_FIELD_BLOB \<Rightarrow> Some False
           | _ \<Rightarrow>
               (case bb_json_get_value_text j of
                  None \<Rightarrow> Some False
                | Some t \<Rightarrow> map_option (\<lambda>k. cstr t = k) (load_cstr 0 key))))"

text \<open>The place of the first row with the key.\<close>

fun find_row :: "bb_field \<Rightarrow> string \<Rightarrow> json list \<Rightarrow> nat option option" where
  "find_row pk key [] = Some None"
| "find_row pk key (item # items) =
     (case pk_equals pk (bb_json_object_get_value (Some item) (fd_name pk)) key of
        None \<Rightarrow> None
      | Some True \<Rightarrow> Some (Some 0)
      | Some False \<Rightarrow> map_option (map_option Suc) (find_row pk key items))"

section \<open>Operations\<close>

text \<open>The key of an entity is its memory from the key field on.\<close>

definition json_insert :: "store_env \<Rightarrow> bb_schema \<Rightarrow> string \<Rightarrow> json_file \<Rightarrow> (int \<times> json_file) option" where
  "json_insert env schema entity file =
     (let (root, table) = get_table env (load_root env file) (sc_name schema)
      in Option.bind (primary_key schema) (\<lambda>pk.
           Option.bind (find_row pk (drop (fd_offset pk) entity) (table_items table)) (\<lambda>found.
             case found of
               Some _ \<Rightarrow> Some (- 1, file)
             | None \<Rightarrow>
                 Option.bind (bb_entity_to_json env schema entity) (\<lambda>obj.
                   save_root env (with_table root (sc_name schema) (snd (bb_json_array_push (st_push env) table obj))) file))))"

definition json_find_by_pk ::
  "store_env \<Rightarrow> bb_schema \<Rightarrow> string \<Rightarrow> string \<Rightarrow> json_file \<Rightarrow> (int \<times> string) option" where
  "json_find_by_pk env schema out key file =
     (let (root, table) = get_table env (load_root env file) (sc_name schema)
      in Option.bind (primary_key schema) (\<lambda>pk.
           Option.bind (find_row pk key (table_items table)) (\<lambda>found.
             case found of
               None \<Rightarrow> Some (- 1, out)
             | Some i \<Rightarrow> bb_json_to_entity schema (Some (table_items table ! i)) out)))"

definition json_update :: "store_env \<Rightarrow> bb_schema \<Rightarrow> string \<Rightarrow> json_file \<Rightarrow> (int \<times> json_file) option" where
  "json_update env schema entity file =
     (let (root, table) = get_table env (load_root env file) (sc_name schema)
      in Option.bind (primary_key schema) (\<lambda>pk.
           Option.bind (find_row pk (drop (fd_offset pk) entity) (table_items table)) (\<lambda>found.
             case found of
               None \<Rightarrow> Some (- 1, file)
             | Some i \<Rightarrow>
                 let table = snd (bb_json_array_remove_at_index table i)
                 in Option.bind (bb_entity_to_json env schema entity) (\<lambda>obj.
                      save_root env (with_table root (sc_name schema) (snd (bb_json_array_push (st_push env) table obj)))
                        file))))"

definition json_remove :: "store_env \<Rightarrow> bb_schema \<Rightarrow> string \<Rightarrow> json_file \<Rightarrow> (int \<times> json_file) option" where
  "json_remove env schema key file =
     (let (root, table) = get_table env (load_root env file) (sc_name schema)
      in Option.bind (primary_key schema) (\<lambda>pk.
           Option.bind (find_row pk key (table_items table)) (\<lambda>found.
             case found of
               None \<Rightarrow> Some (- 1, file)
             | Some i \<Rightarrow>
                 save_root env (with_table root (sc_name schema) (snd (bb_json_array_remove_at_index table i))) file)))"

text \<open>The rows as entities; one that cannot be read is left as far as it was filled.\<close>

fun read_rows :: "bb_schema \<Rightarrow> json list \<Rightarrow> string list option" where
  "read_rows schema [] = Some []"
| "read_rows schema (item # items) =
     (let zeros = replicate (sc_struct_size schema) NUL
      in Option.bind (if bb_json_get_type (Some item) \<noteq> BB_JSON_OBJECT then Some zeros
                      else map_option snd (bb_json_to_entity schema (Some item) zeros)) (\<lambda>e.
           map_option (\<lambda>es. e # es) (read_rows schema items)))"

definition json_find_all :: "store_env \<Rightarrow> bb_schema \<Rightarrow> json_file \<Rightarrow> (int \<times> string list) option" where
  "json_find_all env schema file =
     (case load_file env file of
        None \<Rightarrow> Some (0, [])
      | Some root \<Rightarrow>
          if bb_json_get_type (Some root) \<noteq> BB_JSON_OBJECT then Some (- 1, [])
          else case bb_json_object_get_value (Some root) (sc_name schema) of
                 None \<Rightarrow> Some (0, [])
               | Some arr \<Rightarrow>
                   if bb_json_get_type (Some arr) \<noteq> BB_JSON_ARRAY \<or> \<not> st_rows env (bb_json_get_size (Some arr))
                   then Some (- 1, [])
                   else map_option (\<lambda>rows. (0, rows)) (read_rows schema (table_items (Some arr))))"

definition row_matches :: "bb_field \<Rightarrow> string \<Rightarrow> string \<Rightarrow> bool option" where
  "row_matches field val entity =
     (case fd_type field of
        BB_FIELD_INT \<Rightarrow>
          Option.bind (load_int (fd_offset field) entity) (\<lambda>a. map_option (\<lambda>b. a = b) (load_int 0 val))
      | BB_FIELD_BLOB \<Rightarrow> Some False
      | _ \<Rightarrow> Option.bind (load_cstr (fd_offset field) entity) (\<lambda>a. map_option (\<lambda>b. a = b) (load_cstr 0 val)))"

fun first_match :: "bb_field \<Rightarrow> string \<Rightarrow> string list \<Rightarrow> string option option" where
  "first_match field val [] = Some None"
| "first_match field val (e # es) =
     (case row_matches field val e of
        None \<Rightarrow> None
      | Some True \<Rightarrow> Some (Some e)
      | Some False \<Rightarrow> first_match field val es)"

definition json_find_first_by_field ::
  "store_env \<Rightarrow> bb_schema \<Rightarrow> string \<Rightarrow> string \<Rightarrow> string \<Rightarrow> json_file \<Rightarrow> (int \<times> string) option" where
  "json_find_first_by_field env schema out field_name val file =
     (case json_find_all env schema file of
        None \<Rightarrow> None
      | Some (rc, rows) \<Rightarrow>
          if rc \<noteq> 0 then Some (- 1, out)
          else case bb_schema_find_field schema field_name of
                 None \<Rightarrow> None
               | Some None \<Rightarrow> Some (- 1, out)
               | Some (Some field) \<Rightarrow>
                   map_option (\<lambda>found. case found of None \<Rightarrow> (- 1, out) | Some e \<Rightarrow> (0, e)) (first_match field val rows))"

section \<open>Repositories\<close>

text \<open>A back end: its operations on a state, and its own evaluation of queries if it has one.\<close>

record 'h model_api =
  ap_insert :: "bb_schema \<Rightarrow> string \<Rightarrow> 'h \<Rightarrow> (int \<times> 'h) option"
  ap_find_by_pk :: "bb_schema \<Rightarrow> string \<Rightarrow> string \<Rightarrow> 'h \<Rightarrow> (int \<times> string) option"
  ap_update :: "bb_schema \<Rightarrow> string \<Rightarrow> 'h \<Rightarrow> (int \<times> 'h) option"
  ap_remove :: "bb_schema \<Rightarrow> string \<Rightarrow> 'h \<Rightarrow> (int \<times> 'h) option"
  ap_find_all :: "bb_schema \<Rightarrow> 'h \<Rightarrow> (int \<times> string list) option"
  ap_find_first_by_field :: "bb_schema \<Rightarrow> string \<Rightarrow> string \<Rightarrow> string \<Rightarrow> 'h \<Rightarrow> (int \<times> string) option"
  ap_query :: "(bb_schema \<Rightarrow> bb_query \<Rightarrow> 'h \<Rightarrow> (int \<times> string list) option) option"

definition model_json_api :: "store_env \<Rightarrow> json_file model_api" where
  "model_json_api env =
     \<lparr>ap_insert = json_insert env, ap_find_by_pk = json_find_by_pk env, ap_update = json_update env,
      ap_remove = json_remove env, ap_find_all = json_find_all env,
      ap_find_first_by_field = json_find_first_by_field env, ap_query = None\<rparr>"

definition bb_repo_filter ::
  "(nat \<Rightarrow> bool) \<Rightarrow> 'h model_api \<Rightarrow> bb_schema \<Rightarrow> (string \<Rightarrow> bool) \<Rightarrow> 'h \<Rightarrow> (int \<times> string list) option" where
  "bb_repo_filter calloc api schema fn h =
     map_option (\<lambda>(rc, all).
         if rc \<noteq> 0 then (- 1, [])
         else if all = [] then (0, [])
         else if \<not> calloc (length all) then (- 1, [])
         else (0, filter fn all))
       (ap_find_all api schema h)"

definition bb_repo_find ::
  "string sorter \<Rightarrow> (nat \<Rightarrow> bool) \<Rightarrow> 'h model_api \<Rightarrow> bb_schema \<Rightarrow> bb_query \<Rightarrow> 'h \<Rightarrow> (int \<times> string list) option" where
  "bb_repo_find qsort malloc api schema q h =
     (case ap_query api of
        Some query \<Rightarrow> query schema q h
      | None \<Rightarrow>
          (case ap_find_all api schema h of
             None \<Rightarrow> None
           | Some (rc, all) \<Rightarrow> if rc \<noteq> 0 then Some (- 1, []) else bb_query_apply qsort malloc q all))"

end
