(* ===== verification/Query_Theorems.thy ===== *)
theory Query_Theorems
  imports Query "HOL-Library.List_Lexorder"
begin

text \<open>
  Schemas and queries: registered schemas are sound, patterns match as SQL's, and a query gives the page
  of the sorted rows that satisfy all its conditions.
\<close>

section \<open>Schemas\<close>

text \<open>What the rest of the module relies on: named and distinct fields, that lie in the struct.\<close>

definition field_ok :: "bb_schema \<Rightarrow> bb_field \<Rightarrow> bool" where
  "field_ok s f \<longleftrightarrow> fd_name f \<noteq> None \<and> 0 < fd_size f \<and> fd_offset f + fd_size f \<le> sc_struct_size s \<and>
     (fd_type f = BB_FIELD_INT \<longrightarrow> fd_size f = 4)"

definition schema_ok :: "bb_schema \<Rightarrow> bool" where
  "schema_ok s \<longleftrightarrow> list_all (field_ok s) (schema_fields s) \<and> distinct (map fd_name (schema_fields s)) \<and>
     sc_primary_key_index s < length (schema_fields s)"

lemma find_field_found:
  "list_all (\<lambda>f. fd_name f \<noteq> None) fs \<Longrightarrow> find_field name fs = Some (find (\<lambda>f. fd_name f = Some name) fs)"
  by (induction fs) auto

lemma find_field_set: "find_field name fs = Some (Some f) \<Longrightarrow> f \<in> set fs \<and> fd_name f = Some name"
  by (induction fs) (auto split: option.splits if_splits)

lemma find_field_none: "find_field name fs = Some None \<Longrightarrow> \<forall>f\<in>set fs. fd_name f \<noteq> Some name \<and> fd_name f \<noteq> None"
  by (induction fs) (auto split: option.splits if_splits)

lemma find_field_null: "find_field name fs = None \<Longrightarrow> \<exists>f\<in>set fs. fd_name f = None"
  by (induction fs) (auto split: option.splits if_splits)

lemma schema_field_found:
  assumes "schema_ok s"
  shows "bb_schema_find_field s name = Some (find (\<lambda>f. fd_name f = Some name) (schema_fields s))"
  using assms by (auto simp: bb_schema_find_field_def schema_ok_def field_ok_def list_all_iff intro!: find_field_found)

lemma schema_field_ok:
  assumes "schema_ok s" and "bb_schema_find_field s name = Some (Some f)"
  shows "field_ok s f" and "f \<in> set (schema_fields s)"
  using assms find_field_set by (fastforce simp: bb_schema_find_field_def schema_ok_def list_all_iff)+

subsection \<open>The registry\<close>

text \<open>A schema whose references lead to fields of the schemas in front of it.\<close>

definition schema_sound :: "bb_schema list \<Rightarrow> bb_schema \<Rightarrow> bool" where
  "schema_sound earlier s \<longleftrightarrow>
     (\<exists>n. sc_name s = Some n \<and> n \<noteq> []) \<and> 0 < sc_struct_size s \<and> sc_primary_key_index s < length (schema_fields s) \<and>
     distinct (map fd_name (schema_fields s)) \<and>
     (\<forall>f\<in>set (schema_fields s).
        (\<exists>n. fd_name f = Some n \<and> n \<noteq> []) \<and> 0 < fd_size f \<and>
        (fd_references_schema f = None \<longleftrightarrow> fd_references_field f = None) \<and>
        (\<forall>r. fd_references_schema f = Some r \<longrightarrow>
           (\<exists>t\<in>set earlier. sc_name t = Some r \<and> (\<exists>g\<in>set (schema_fields t). fd_name g = fd_references_field f))))"

definition registry_ok :: "bb_schema list \<Rightarrow> bool" where
  "registry_ok ss \<longleftrightarrow> length ss \<le> BB_MAX_SCHEMAS \<and> distinct (map sc_name ss) \<and>
     (\<forall>i<length ss. schema_sound (take i ss) (ss ! i))"

lemma get_registered: "bb_schema_get ss name = Some s \<Longrightarrow> s \<in> set ss \<and> sc_name s = name \<and> name \<noteq> None"
  by (induction ss) (auto split: if_splits)

lemma get_unregistered: "name \<noteq> None \<Longrightarrow> bb_schema_get ss name = None \<Longrightarrow> name \<notin> sc_name ` set ss"
  by (induction ss) (auto split: if_splits)

lemma registry_names:
  assumes "registry_ok ss" and "s \<in> set ss" and "f \<in> set (schema_fields s)"
  shows "fd_name f \<noteq> None"
proof -
  obtain i where "i < length ss" "ss ! i = s" using assms(2) by (auto simp: in_set_conv_nth)
  then have "schema_sound (take i ss) s" using assms(1) by (auto simp: registry_ok_def)
  then show ?thesis using assms(3) unfolding schema_sound_def by blast
qed

lemma references_checked:
  assumes "registry_ok ss"
  shows "\<exists>ok. references_ok ss f = Some ok \<and> (ok \<longrightarrow>
     (fd_references_schema f = None \<longleftrightarrow> fd_references_field f = None) \<and>
     (\<forall>r. fd_references_schema f = Some r \<longrightarrow>
        (\<exists>t\<in>set ss. sc_name t = Some r \<and> (\<exists>g\<in>set (schema_fields t). fd_name g = fd_references_field f))))"
proof (cases "\<exists>r n t. fd_references_schema f = Some r \<and> fd_references_field f = Some n \<and> bb_schema_get ss (Some r) = Some t")
  case True
  then obtain r n t where rn: "fd_references_schema f = Some r" "fd_references_field f = Some n"
    and t: "bb_schema_get ss (Some r) = Some t" by blast
  from get_registered [OF t] have t': "t \<in> set ss" "sc_name t = Some r" by auto
  show ?thesis
  proof (cases "find_field n (schema_fields t)")
    case None
    then show ?thesis using find_field_null registry_names [OF assms t'(1)] by blast
  next
    case (Some g)
    then show ?thesis using rn t t' find_field_set [of n "schema_fields t"]
      by (cases g) (auto simp: references_ok_def bb_schema_find_field_def)
  qed
next
  case False
  then show ?thesis by (auto simp: references_ok_def split: option.splits)
qed

lemma fields_validated:
  assumes "registry_ok ss"
  shows "(validate_fields ss fs = None \<longrightarrow> (\<exists>f\<in>set fs. fd_name f = None)) \<and>
    (validate_fields ss fs = Some True \<longrightarrow> distinct (map fd_name fs) \<and>
      (\<forall>f\<in>set fs.
        (\<exists>n. fd_name f = Some n \<and> n \<noteq> []) \<and> 0 < fd_size f \<and>
        (fd_references_schema f = None \<longleftrightarrow> fd_references_field f = None) \<and>
        (\<forall>r. fd_references_schema f = Some r \<longrightarrow>
           (\<exists>t\<in>set ss. sc_name t = Some r \<and> (\<exists>g\<in>set (schema_fields t). fd_name g = fd_references_field f)))))"
proof (induction fs)
  case (Cons f fs)
  show ?case
  proof (cases "fd_name f")
    case None
    then show ?thesis by simp
  next
    case (Some name)
    obtain ok where ok: "references_ok ss f = Some ok" "ok \<Longrightarrow>
        (fd_references_schema f = None \<longleftrightarrow> fd_references_field f = None) \<and>
        (\<forall>r. fd_references_schema f = Some r \<longrightarrow>
          (\<exists>t\<in>set ss. sc_name t = Some r \<and> (\<exists>g\<in>set (schema_fields t). fd_name g = fd_references_field f)))"
      using references_checked [OF assms] by blast
    show ?thesis
    proof (cases "find_field name fs")
      case None
      then show ?thesis using Some find_field_null [OF None] by auto
    next
      case found: (Some g)
      show ?thesis
      proof (cases g)
        case None
        have "Some name \<notin> fd_name ` set fs" using find_field_none [of name fs] found None by auto
        then show ?thesis using Cons Some found None ok by (auto split: if_splits)
      next
        case (Some h)
        then show ?thesis using \<open>fd_name f = Some name\<close> found by auto
      qed
    qed
  qed
qed simp

lemma sound_grows: "schema_sound ss s \<Longrightarrow> set ss \<subseteq> set tt \<Longrightarrow> schema_sound tt s"
  unfolding schema_sound_def by blast

lemma registry_grows:
  assumes "registry_ok ss" and "schema_sound ss s" and "sc_name s \<notin> sc_name ` set ss" and "length ss < BB_MAX_SCHEMAS"
  shows "registry_ok (ss @ [s])"
  using assms by (auto simp: registry_ok_def less_Suc_eq nth_append)

lemma validated_sound:
  assumes "registry_ok ss" and "bb_schema_validate ss (Some s) = Some True"
  shows "schema_sound ss s"
proof -
  from assms(2) obtain fs where fs: "sc_fields s = Some fs" "fs \<noteq> []" "0 < sc_struct_size s"
    "sc_primary_key_index s < length fs" "validate_fields ss fs = Some True" "sc_name s \<noteq> None" "sc_name s \<noteq> Some []"
    by (auto simp: bb_schema_validate_def not_le split: option.splits if_splits)
  then show ?thesis using fields_validated [OF assms(1), of fs] by (auto simp: schema_sound_def schema_fields_def)
qed

section \<open>Patterns\<close>

text \<open>What a pattern stands for: each percent sign for any text, every other character for itself.\<close>

inductive likes :: "string \<Rightarrow> string \<Rightarrow> bool" where
  like_end: "likes [] []"
| like_char: "c \<noteq> CHR ''%'' \<Longrightarrow> likes p t \<Longrightarrow> likes (c # p) (c # t)"
| like_any: "likes p t \<Longrightarrow> likes (CHR ''%'' # p) (u @ t)"

inductive_simps likes_end [simp]: "likes [] t"
inductive_simps likes_step: "likes (c # p) t"

lemma likes_percent: "likes (CHR ''%'' # p) t \<longleftrightarrow> (\<exists>u v. t = u @ v \<and> likes p v)"
  by (auto simp: likes_step)

lemma likes_char: "c \<noteq> CHR ''%'' \<Longrightarrow> likes (c # p) t \<longleftrightarrow> (\<exists>v. t = c # v \<and> likes p v)"
  by (auto simp: likes_step)

lemma likes_more: "likes p t \<Longrightarrow> \<exists>u v. s @ t = u @ v \<and> likes p v"
  by blast

lemma likes_percents: "likes (CHR ''%'' # p) t \<longleftrightarrow> likes (CHR ''%'' # dropWhile (\<lambda>c. c = CHR ''%'') p) t"
proof (induction p arbitrary: t)
  case (Cons c p)
  show ?case
  proof (cases "c = CHR ''%''")
    case True
    have "likes (CHR ''%'' # CHR ''%'' # p) t \<longleftrightarrow> likes (CHR ''%'' # p) t"
      unfolding likes_percent by (metis append.assoc append_Nil)
    then show ?thesis using Cons.IH [of t] True by simp
  qed simp
qed simp

lemma try_tails_eq: "try_tails m t \<longleftrightarrow> (\<exists>u v. t = u @ v \<and> v \<noteq> [] \<and> m v)"
proof (induction t)
  case (Cons c t)
  have "(\<exists>u v. c # t = u @ v \<and> v \<noteq> [] \<and> m v) \<longleftrightarrow> m (c # t) \<or> (\<exists>u v. t = u @ v \<and> v \<noteq> [] \<and> m v)"
    by (auto simp: Cons_eq_append_conv)
  then show ?case using Cons by simp
qed simp

lemma like_match_likes: "bb_like_match t p \<longleftrightarrow> likes p t"
proof (induction "length p" arbitrary: t p rule: less_induct)
  case less
  note IH = less
  show ?case
  proof (cases p)
    case Nil
    then show ?thesis by simp
  next
    case (Cons c pattern)
    note p = Cons
  show ?thesis
  proof (cases "c = CHR ''%''")
    case True
    define rest where "rest = dropWhile (\<lambda>c. c = CHR ''%'') pattern"
    have "length rest < length p" using length_dropWhile_le [of "\<lambda>c. c = CHR ''%''" pattern] by (simp add: rest_def p)
    then have IH: "bb_like_match v rest \<longleftrightarrow> likes rest v" for v by (rule less)
    have "likes (c # pattern) t \<longleftrightarrow> (\<exists>u v. t = u @ v \<and> likes rest v)"
      unfolding True rest_def by (subst likes_percents) (rule likes_percent)
    also have "\<dots> \<longleftrightarrow> rest = [] \<or> (\<exists>u v. t = u @ v \<and> v \<noteq> [] \<and> likes rest v)"
    proof (cases rest)
      case (Cons c r)
      then have "c \<noteq> CHR ''%''" using hd_dropWhile [of "\<lambda>c. c = CHR ''%''" pattern] by (auto simp: rest_def)
      then have "\<not> likes rest []" by (simp add: Cons likes_char)
      then show ?thesis using Cons by auto
    qed auto
    finally show ?thesis using True by (simp add: rest_def [symmetric] try_tails_eq IH p)
  next
    case False
    then show ?thesis using less [of pattern] p by (cases t) (auto simp: likes_char)
  qed
  qed
qed

section \<open>Comparison\<close>

text \<open>Values of every type as lists of numbers, which are ordered as the values are.\<close>

definition field_key :: "bb_field \<Rightarrow> string \<Rightarrow> int list" where
  "field_key f mem =
     (case fd_type f of
        BB_FIELD_INT \<Rightarrow> [sint (the (load_int 0 mem))]
      | BB_FIELD_BLOB \<Rightarrow> map (\<lambda>c. int (ord c)) (take (fd_size f) mem)
      | _ \<Rightarrow> map (\<lambda>c. int (ord c)) (cstr mem))"

text \<open>Memory that holds a value of the field's type; the text of a field ends within the field.\<close>

definition holds_value :: "bb_field \<Rightarrow> string \<Rightarrow> bool" where
  "holds_value f mem \<longleftrightarrow>
     (case fd_type f of BB_FIELD_INT \<Rightarrow> 4 \<le> length mem | BB_FIELD_BLOB \<Rightarrow> fd_size f \<le> length mem | _ \<Rightarrow> NUL \<in> set mem)"

definition holds_field :: "bb_field \<Rightarrow> string \<Rightarrow> bool" where
  "holds_field f mem \<longleftrightarrow>
     (case fd_type f of BB_FIELD_INT \<Rightarrow> 4 \<le> length mem | BB_FIELD_BLOB \<Rightarrow> fd_size f \<le> length mem
      | _ \<Rightarrow> NUL \<in> set (take (fd_size f) mem))"

definition entity_ok :: "bb_schema \<Rightarrow> string \<Rightarrow> bool" where
  "entity_ok s e \<longleftrightarrow> length e = sc_struct_size s \<and>
     list_all (\<lambda>f. holds_field f (drop (fd_offset f) e)) (schema_fields s)"

definition three_way :: "int list \<Rightarrow> int list \<Rightarrow> int" where
  "three_way x y = (if x < y then - 1 else if y < x then 1 else 0)"

lemma three_way_Cons: "three_way (a # x) (b # y) = (if a < b then - 1 else if b < a then 1 else three_way x y)"
  by (auto simp: three_way_def)

lemma strncmp_key:
  "NUL \<in> set (take n a) \<Longrightarrow> NUL \<in> set b \<Longrightarrow>
   strncmp_sign n a b = Some (three_way (map (\<lambda>c. int (ord c)) (cstr a)) (map (\<lambda>c. int (ord c)) (cstr b)))"
proof (induction n a b rule: strncmp_sign.induct)
  case (4 n c a d b)
  have nul: "ord NUL = 0" by (simp add: NUL_def)
  have inj: "ord c = ord d \<Longrightarrow> c = d" by (simp add: of_char_eq_iff)
  show ?case
  proof (cases "c = d \<and> c \<noteq> NUL")
    case True
    then have "strncmp_sign n a b = Some (three_way (map (\<lambda>c. int (ord c)) (cstr a)) (map (\<lambda>c. int (ord c)) (cstr b)))"
      using 4 by auto
    then show ?thesis using True by (auto simp: cstr_def three_way_Cons)
  next
    case False
    then show ?thesis using inj nul by (auto simp: cstr_def three_way_def)
  qed
qed auto

lemma memcmp_key:
  "n \<le> length a \<Longrightarrow> n \<le> length b \<Longrightarrow>
   memcmp_sign n a b = Some (three_way (map (\<lambda>c. int (ord c)) (take n a)) (map (\<lambda>c. int (ord c)) (take n b)))"
  by (induction n a b rule: memcmp_sign.induct) (auto simp: three_way_Cons, simp add: three_way_def)

lemma load_int_here: "4 \<le> length mem \<Longrightarrow> load_int 0 mem = Some (int_of_bytes (take 4 mem))"
  by (simp add: load_int_def read_bytes_def)

lemma compare_key:
  assumes "holds_field f a" and "holds_value f b"
  shows "bb_field_compare f a b = Some (three_way (field_key f a) (field_key f b))"
  using assms strncmp_key [of "fd_size f" a b] memcmp_key [of "fd_size f" a b]
  by (cases "fd_type f")
    (simp_all add: bb_field_compare_def holds_field_def holds_value_def field_key_def load_int_here three_way_def)

lemma field_holds_value: "holds_field f a \<Longrightarrow> holds_value f a"
  by (auto simp: holds_field_def holds_value_def dest: in_set_takeD split: bb_field_type.splits)

section \<open>Queries\<close>

definition key_in :: "bb_field \<Rightarrow> string \<Rightarrow> int list" where
  "key_in f e = field_key f (drop (fd_offset f) e)"

definition the_field :: "bb_schema \<Rightarrow> string \<Rightarrow> bb_field" where
  "the_field s name = the (find (\<lambda>f. fd_name f = Some name) (schema_fields s))"

definition has_field :: "bb_schema \<Rightarrow> string \<Rightarrow> bool" where
  "has_field s name \<longleftrightarrow> Some name \<in> fd_name ` set (schema_fields s)"

definition is_text :: "bb_field \<Rightarrow> bool" where
  "is_text f \<longleftrightarrow> fd_type f = BB_FIELD_STRING \<or> fd_type f = BB_FIELD_UUID"

definition cond_ok :: "bb_schema \<Rightarrow> bb_query_cond \<Rightarrow> bool" where
  "cond_ok s c \<longleftrightarrow> has_field s (qc_field c) \<and> holds_value (the_field s (qc_field c)) (qc_value c)"

definition query_ok :: "bb_query \<Rightarrow> bool" where
  "query_ok q \<longleftrightarrow> schema_ok (qy_schema q) \<and> list_all (cond_ok (qy_schema q)) (qy_conditions q) \<and>
     list_all (\<lambda>s. has_field (qy_schema q) (fst s)) (qy_sorts q)"

text \<open>What a condition says of an entity.\<close>

definition cond_holds :: "bb_schema \<Rightarrow> bb_query_cond \<Rightarrow> string \<Rightarrow> bool" where
  "cond_holds s c e =
     (let f = the_field s (qc_field c); x = key_in f e; y = field_key f (qc_value c)
      in case qc_op c of
           BB_OP_EQ \<Rightarrow> x = y | BB_OP_NE \<Rightarrow> x \<noteq> y | BB_OP_LT \<Rightarrow> x < y | BB_OP_LTE \<Rightarrow> x \<le> y | BB_OP_GT \<Rightarrow> y < x
         | BB_OP_GTE \<Rightarrow> y \<le> x
         | BB_OP_LIKE \<Rightarrow> is_text f \<and> likes (cstr (qc_value c)) (cstr (drop (fd_offset f) e)))"

definition satisfies :: "bb_query \<Rightarrow> string \<Rightarrow> bool" where
  "satisfies q e \<longleftrightarrow> list_all (\<lambda>c. cond_holds (qy_schema q) c e) (qy_conditions q)"

text \<open>The order that a list of sort keys asks for.\<close>

fun precedes :: "bb_schema \<Rightarrow> (string \<times> bb_query_order) list \<Rightarrow> string \<Rightarrow> string \<Rightarrow> bool" where
  "precedes s [] a b = True"
| "precedes s ((name, direction) # ss) a b =
     (let x = key_in (the_field s name) a; y = key_in (the_field s name) b
      in if x = y then precedes s ss a b else if direction = BB_ORDER_ASC then x < y else y < x)"

lemma the_field_found:
  assumes "schema_ok s" and "has_field s name"
  shows "bb_schema_find_field s name = Some (Some (the_field s name))"
proof -
  have "find (\<lambda>f. fd_name f = Some name) (schema_fields s) \<noteq> None"
    using assms(2) by (auto simp: has_field_def find_None_iff)
  then show ?thesis using schema_field_found [OF assms(1), of name] by (auto simp: the_field_def)
qed

lemma the_field_holds:
  assumes "schema_ok s" and "has_field s name" and "entity_ok s e"
  shows "holds_field (the_field s name) (drop (fd_offset (the_field s name)) e)"
proof -
  have "the_field s name \<in> set (schema_fields s)"
    using schema_field_ok(2) the_field_found assms(1,2) by blast
  then show ?thesis using assms(3) unfolding entity_ok_def list_all_iff by blast
qed

lemma text_loaded: "NUL \<in> set (drop off m) \<Longrightarrow> load_cstr off m = Some (cstr (drop off m))"
  by (simp add: load_cstr_def)

lemma cond_matches_holds:
  assumes s: "schema_ok (qy_schema q)" and c: "cond_ok (qy_schema q) c" and e: "entity_ok (qy_schema q) e"
  shows "bb_cond_matches e q c = Some (cond_holds (qy_schema q) c e)"
proof -
  define f where "f = the_field (qy_schema q) (qc_field c)"
  have found: "bb_schema_find_field (qy_schema q) (qc_field c) = Some (Some f)"
    using the_field_found [OF s] c by (simp add: cond_ok_def f_def)
  have h: "holds_field f (drop (fd_offset f) e)"
    using the_field_holds [OF s _ e] c by (simp add: cond_ok_def f_def)
  have v: "holds_value f (qc_value c)" using c by (simp add: cond_ok_def f_def)
  have cmp: "bb_field_compare f (drop (fd_offset f) e) (qc_value c) = Some (three_way (key_in f e) (field_key f (qc_value c)))"
    using compare_key [OF h v] by (simp add: key_in_def)
  show ?thesis
  proof (cases "qc_op c = BB_OP_LIKE")
    case True
    show ?thesis
    proof (cases "is_text f")
      case tx: True
      have "NUL \<in> set (drop (fd_offset f) e)" "NUL \<in> set (qc_value c)"
        using h v tx by (auto simp: holds_field_def holds_value_def is_text_def dest: in_set_takeD)
      then show ?thesis using True tx
        by (auto simp: bb_cond_matches_def found cond_holds_def f_def [symmetric] is_text_def text_loaded like_match_likes)
    next
      case False
      then show ?thesis using True
        by (simp add: bb_cond_matches_def found cond_holds_def f_def [symmetric] is_text_def)
    qed
  next
    case False
    then show ?thesis
      by (cases "qc_op c")
        (auto simp: bb_cond_matches_def found cmp cond_holds_def Let_def f_def [symmetric] three_way_def)
  qed
qed

lemma query_matches_satisfies:
  assumes "query_ok q" and "entity_ok (qy_schema q) e"
  shows "bb_query_matches e q = Some (satisfies q e)"
proof -
  have "list_all (cond_ok (qy_schema q)) cs \<Longrightarrow> conds_match e q cs = Some (list_all (\<lambda>c. cond_holds (qy_schema q) c e) cs)" for cs
    using assms by (induction cs) (auto simp: query_ok_def cond_matches_holds)
  then show ?thesis using assms(1) by (simp add: bb_query_matches_def satisfies_def query_ok_def)
qed

lemma matching_rows_filter:
  assumes "query_ok q"
  shows "list_all (entity_ok (qy_schema q)) rows \<Longrightarrow> matching_rows q rows = Some (filter (satisfies q) rows)"
  by (induction rows) (auto simp: query_matches_satisfies [OF assms])

subsection \<open>The order\<close>

lemma precedes_total: "precedes s ss a b \<or> precedes s ss b a"
  by (induction s ss a b rule: precedes.induct) (auto simp: Let_def)

lemma precedes_trans: "precedes s ss a b \<Longrightarrow> precedes s ss b c \<Longrightarrow> precedes s ss a c"
  by (induction s ss a b arbitrary: c rule: precedes.induct) (auto simp: Let_def split: if_splits)

lemma sort_cmp_precedes:
  assumes q: "schema_ok (qy_schema q)" and a: "entity_ok (qy_schema q) a" and b: "entity_ok (qy_schema q) b"
  shows "list_all (\<lambda>s. has_field (qy_schema q) (fst s)) ss \<Longrightarrow>
    \<exists>c. sort_cmp q ss a b = Some c \<and> sort_cmp q ss b a = Some (- c) \<and> (c \<le> 0 \<longleftrightarrow> precedes (qy_schema q) ss a b)"
proof (induction ss)
  case (Cons s ss)
  obtain name direction where s: "s = (name, direction)" by (cases s)
  define f where "f = the_field (qy_schema q) name"
  have n: "has_field (qy_schema q) name" using Cons.prems s by simp
  have found: "bb_schema_find_field (qy_schema q) name = Some (Some f)"
    using the_field_found [OF q n] by (simp add: f_def)
  have h: "holds_field f (drop (fd_offset f) a)" "holds_field f (drop (fd_offset f) b)"
    using the_field_holds [OF q n] a b by (simp_all add: f_def)
  have cmp: "bb_field_compare f (drop (fd_offset f) a) (drop (fd_offset f) b) = Some (three_way (key_in f a) (key_in f b))"
    "bb_field_compare f (drop (fd_offset f) b) (drop (fd_offset f) a) = Some (three_way (key_in f b) (key_in f a))"
    using compare_key field_holds_value h by (simp_all add: key_in_def)
  show ?case
  proof (cases "key_in f a = key_in f b")
    case True
    then show ?thesis using Cons found cmp by (simp add: s three_way_def f_def)
  next
    case False
    then show ?thesis using found cmp by (auto simp: s three_way_def f_def [symmetric] Let_def)
  qed
qed simp

lemma run_qsort_sorted:
  assumes "sorts qsort" and "query_ok q" and rows: "list_all (entity_ok (qy_schema q)) rows"
  shows "\<exists>sorted. run_qsort qsort (bb_sort_cmp q) rows = Some sorted \<and> mset sorted = mset rows \<and>
    sorted_wrt (precedes (qy_schema q) (qy_sorts q)) sorted"
proof -
  define cmp where "cmp a b = the (bb_sort_cmp q a b)" for a b
  have c: "\<exists>c. bb_sort_cmp q a b = Some c \<and> bb_sort_cmp q b a = Some (- c) \<and> (c \<le> 0 \<longleftrightarrow> precedes (qy_schema q) (qy_sorts q) a b)"
    if "a \<in> set rows" "b \<in> set rows" for a b
    using sort_cmp_precedes [of q a b "qy_sorts q"] assms that by (auto simp: query_ok_def bb_sort_cmp_def list_all_iff)
  have sign: "cmp b a = - cmp a b \<and> (cmp a b \<le> 0 \<longleftrightarrow> precedes (qy_schema q) (qy_sorts q) a b)"
    if "a \<in> set rows" "b \<in> set rows" for a b
    using c [OF that] by (auto simp: cmp_def)
  have "consistent cmp (set rows)"
    unfolding consistent_def
  proof (intro conjI ballI impI)
    fix a b c assume "a \<in> set rows" "b \<in> set rows" "c \<in> set rows" "cmp a b \<le> 0" "cmp b c \<le> 0"
    then show "cmp a c \<le> 0" using sign precedes_trans by blast
  qed (use sign in blast)
  then have s: "mset (qsort cmp rows) = mset rows" "sorted_wrt (\<lambda>a b. cmp a b \<le> 0) (qsort cmp rows)"
    using assms(1) by (auto simp: sorts_def)
  have "set (qsort cmp rows) = set rows" using s(1) mset_eq_setD by blast
  then have "sorted_wrt (precedes (qy_schema q) (qy_sorts q)) (qsort cmp rows)"
    using sign by (intro sorted_wrt_mono_rel [OF _ s(2)]) blast
  moreover have "bb_sort_cmp q a b \<noteq> None" if "a \<in> set rows" "b \<in> set rows" for a b using c [OF that] by fastforce
  then have "run_qsort qsort (bb_sort_cmp q) rows = Some (qsort cmp rows)"
    unfolding run_qsort_def cmp_def by (simp add: list_all_iff)
  ultimately show ?thesis using s(1) by blast
qed

text \<open>The rows that LIMIT and OFFSET leave.\<close>

definition page_of :: "bb_query \<Rightarrow> string list \<Rightarrow> string list" where
  "page_of q rows =
     (let rest = drop (nat (qy_offset q)) rows in if qy_limit q < 0 then rest else take (nat (qy_limit q)) rest)"

lemma page_eq: "(\<forall>n. malloc n) \<Longrightarrow> page malloc q rows = (0, page_of q rows)"
proof -
  assume m: "\<forall>n. malloc n"
  define start where "start = nat (qy_offset q)"
  have "start = (if qy_offset q > 0 then nat (qy_offset q) else 0)" by (simp add: start_def)
  then have "page malloc q rows =
      (if length rows \<le> start then (0, [])
       else if start = 0 \<and> (qy_limit q < 0 \<or> length rows - start \<le> nat (qy_limit q)) then (0, rows)
       else (0, take (if 0 \<le> qy_limit q \<and> nat (qy_limit q) < length rows - start then nat (qy_limit q)
                      else length rows - start) (drop start rows)))"
    using m by (simp add: page_def Let_def)
  then show ?thesis unfolding page_of_def start_def [symmetric] by (auto simp: Let_def)
qed

section \<open>What holds\<close>

text \<open>Every registered schema stays sound: schemas have different names, their fields have
  different names and a size, and a reference leads to an existing field of a schema registered earlier,
  so references are never circular. Registering a schema adds it at the end or leaves the registry as it
  is; it always answers unless a field has no name.\<close>

theorem registered_schemas_are_sound:
  assumes "registry_ok schemas"
  shows "case bb_schema_register schemas schema of
      None \<Rightarrow> (\<exists>s f. schema = Some s \<and> f \<in> set (schema_fields s) \<and> fd_name f = None)
    | Some (rc, schemas') \<Rightarrow> registry_ok schemas' \<and>
        (if rc = 0 then \<exists>s. schema = Some s \<and> schemas' = schemas @ [s] else rc = - 1 \<and> schemas' = schemas)"
proof (cases schema)
  case None
  then show ?thesis using assms by (simp add: bb_schema_register_def)
next
  case (Some s)
  show ?thesis
  proof (cases "bb_schema_validate schemas (Some s)")
    case None
    then obtain fs where "sc_fields s = Some fs" "validate_fields schemas fs = None"
      by (auto simp: bb_schema_validate_def split: if_splits option.splits)
    then have "\<exists>f\<in>set (schema_fields s). fd_name f = None"
      using fields_validated [OF assms, of fs] by (simp add: schema_fields_def)
    then show ?thesis using Some None by (auto simp: bb_schema_register_def)
  next
    case valid: (Some v)
    show ?thesis
    proof (cases "v \<and> bb_schema_get schemas (sc_name s) = None \<and> length schemas < BB_MAX_SCHEMAS")
      case True
      then have "schema_sound schemas s" using validated_sound [OF assms] valid by simp
      moreover from this have "sc_name s \<noteq> None" unfolding schema_sound_def by blast
      then have "sc_name s \<notin> sc_name ` set schemas" using get_unregistered True by blast
      ultimately have "registry_ok (schemas @ [s])" using registry_grows [OF assms] True by blast
      then show ?thesis using Some valid True by (simp add: bb_schema_register_def)
    next
      case False
      then show ?thesis using Some valid assms by (auto simp: bb_schema_register_def not_less)
    qed
  qed
qed

text \<open>C19: A query evaluated in memory gives what it asks for. The rows that satisfy every condition
  (numbers and texts compared as such, patterns as in SQL), each as often as it is stored, in the order of
  the sort keys, and of these the page that offset and limit select. The comparison given to \<open>qsort\<close> is a
  consistent order, as C demands.\<close>

theorem queries_give_the_rows_they_ask_for:
  assumes "query_ok q" and "list_all (entity_ok (qy_schema q)) rows" and "sorts qsort" and "\<forall>n. malloc n"
  shows "\<exists>sorted. mset sorted = mset (filter (satisfies q) rows) \<and>
     sorted_wrt (precedes (qy_schema q) (qy_sorts q)) sorted \<and>
     (qy_sorts q = [] \<longrightarrow> sorted = filter (satisfies q) rows) \<and>
     bb_query_apply qsort malloc q rows = Some (0, page_of q sorted)"
proof -
  define matched where "matched = filter (satisfies q) rows"
  have m: "matching_rows q rows = Some matched"
    using matching_rows_filter [OF assms(1,2)] by (simp add: matched_def)
  have page: "page malloc q xs = (0, page_of q xs)" for xs by (rule page_eq [OF assms(4)])
  have empty: "page_of q [] = []" by (simp add: page_of_def)
  show ?thesis
  proof (cases "matched = [] \<or> qy_sorts q = []")
    case True
    have "bb_query_apply qsort malloc q rows = Some (0, page_of q matched)"
      using True m page empty assms(4) by (auto simp: bb_query_apply_def)
    moreover have "sorted_wrt (precedes (qy_schema q) (qy_sorts q)) matched"
      using True by (auto simp: sorted_wrt_iff_nth_less)
    ultimately show ?thesis unfolding matched_def by blast
  next
    case False
    have "list_all (entity_ok (qy_schema q)) matched" using assms(2) by (auto simp: matched_def list_all_iff)
    from run_qsort_sorted [OF assms(3,1) this] obtain sorted where sorted:
      "run_qsort qsort (bb_sort_cmp q) matched = Some sorted" "mset sorted = mset matched"
      "sorted_wrt (precedes (qy_schema q) (qy_sorts q)) sorted" by blast
    have "rows \<noteq> []" using False by (auto simp: matched_def)
    then have "bb_query_apply qsort malloc q rows = Some (0, page_of q sorted)"
      using m sorted(1) page False assms(4) by (simp add: bb_query_apply_def)
    then show ?thesis using sorted False unfolding matched_def by blast
  qed
qed

section \<open>At a concrete input\<close>

definition user_schema :: bb_schema where
  "user_schema =
     \<lparr>sc_name = Some ''users'',
      sc_fields = Some
        [\<lparr>fd_name = Some ''id'', fd_type = BB_FIELD_INT, fd_offset = 0, fd_size = 4, fd_flags = 1,
          fd_references_schema = None, fd_references_field = None\<rparr>,
         \<lparr>fd_name = Some ''name'', fd_type = BB_FIELD_STRING, fd_offset = 4, fd_size = 4, fd_flags = 0,
          fd_references_schema = None, fd_references_field = None\<rparr>],
      sc_struct_size = 8, sc_primary_key_index = 0\<rparr>"

definition user_row :: "char \<Rightarrow> char \<Rightarrow> string" where
  "user_row i c = [i, NUL, NUL, NUL, c, CHR ''x'', NUL, NUL]"

definition user_query :: bb_query where
  "user_query =
     \<lparr>qy_schema = user_schema,
      qy_conditions = [\<lparr>qc_field = ''name'', qc_op = BB_OP_LIKE, qc_value = ''%x'' @ [NUL]\<rparr>,
                       \<lparr>qc_field = ''id'', qc_op = BB_OP_GT, qc_value = [CHR 0x01, NUL, NUL, NUL]\<rparr>],
      qy_sorts = [(''name'', BB_ORDER_DESC), (''id'', BB_ORDER_ASC)], qy_limit = 2, qy_offset = 1\<rparr>"

definition user_rows :: "string list" where
  "user_rows = [user_row CHR 0x03 CHR ''a'', user_row CHR 0x01 CHR ''b'', user_row CHR 0x02 CHR ''c'']"

theorem registered_schemas_are_sound_witness:
  "case bb_schema_register [] (Some user_schema) of
      None \<Rightarrow> (\<exists>s f. Some user_schema = Some s \<and> f \<in> set (schema_fields s) \<and> fd_name f = None)
    | Some (rc, schemas') \<Rightarrow> registry_ok schemas' \<and>
        (if rc = 0 then \<exists>s. Some user_schema = Some s \<and> schemas' = [] @ [s] else rc = - 1 \<and> schemas' = [])"
  by (rule registered_schemas_are_sound) (simp add: registry_ok_def)

theorem queries_give_the_rows_they_ask_for_witness:
  "\<exists>sorted. mset sorted = mset (filter (satisfies user_query) user_rows) \<and>
     sorted_wrt (precedes (qy_schema user_query) (qy_sorts user_query)) sorted \<and>
     (qy_sorts user_query \<noteq> [] \<or> sorted = filter (satisfies user_query) user_rows) \<and>
     bb_query_apply insertion_qsort (\<lambda>_. True) user_query user_rows = Some (0, page_of user_query sorted)"
proof -
  have "query_ok user_query"
    by (simp add: query_ok_def user_query_def schema_ok_def user_schema_def field_ok_def schema_fields_def cond_ok_def
        has_field_def the_field_def holds_value_def)
  moreover have "list_all (entity_ok (qy_schema user_query)) user_rows"
    by (simp add: user_rows_def user_row_def user_query_def user_schema_def entity_ok_def holds_field_def schema_fields_def)
  ultimately show ?thesis
    using queries_give_the_rows_they_ask_for [of user_query user_rows insertion_qsort "\<lambda>_. True"] insertion_sorts
    by blast
qed

end
