(* ===== verification/Store_Theorems.thy ===== *)
theory Store_Theorems
  imports Entity_Store Query_Theorems
begin

text \<open>
  Entities in JSON files: an entity survives the way into a document and back, the back end is a table of
  rows with different keys, and a repository over it answers queries from these rows.
\<close>

section \<open>Layouts\<close>

definition stored_field :: "bb_field \<Rightarrow> bool" where
  "stored_field f \<longleftrightarrow> fd_type f \<noteq> BB_FIELD_BLOB"

definition apart :: "bb_field \<Rightarrow> bb_field \<Rightarrow> bool" where
  "apart f g \<longleftrightarrow> fd_offset f + fd_size f \<le> fd_offset g \<or> fd_offset g + fd_size g \<le> fd_offset f"

definition layout_ok :: "bb_schema \<Rightarrow> bool" where
  "layout_ok s \<longleftrightarrow> schema_ok s \<and> sorted_wrt apart (schema_fields s) \<and>
     (\<exists>n. sc_name s = Some n \<and> NUL \<notin> set n) \<and>
     list_all (\<lambda>f. NUL \<notin> set (the (fd_name f))) (schema_fields s) \<and>
     stored_field (schema_fields s ! sc_primary_key_index s)"

section \<open>Bytes of a value\<close>

lemma int_bytes [simp]: "int_of_bytes (bytes_of_int w) = w"
proof -
  define n where "n = unat w"
  have n: "n < 256 * (256 * (256 * 256))" using unsigned_less [of w, where ?'a = nat] by (simp add: n_def)
  define a b c where "a = n div 256" and "b = a div 256" and "c = b div 256"
  have "n = n mod 256 + 256 * a" "a = a mod 256 + 256 * b" "b = b mod 256 + 256 * c"
    by (simp_all add: a_def b_def c_def)
  moreover have "c < 256" using n by (simp add: a_def b_def c_def div_less_iff_less_mult)
  moreover have "bytes_of_int w = [char_of n, char_of a, char_of b, char_of c]"
    by (simp add: bytes_of_int_def upt_rec n_def a_def b_def c_def div_mult2_eq [symmetric])
  ultimately have "foldr (\<lambda>c n. ord c + 256 * n) (bytes_of_int w) 0 = n" by simp
  then show ?thesis by (simp add: int_of_bytes_def n_def)
qed

lemma int_bytes_length [simp]: "length (bytes_of_int w) = 4"
  by (simp add: bytes_of_int_def)

lemma copy_fits: "NUL \<notin> set t \<Longrightarrow> length t < n \<Longrightarrow> copy_text_field n (Some t) = t @ replicate (n - length t) NUL"
  by (simp add: copy_text_field_def cstr_id)

lemma cstr_cut: "NUL \<in> set (take n m) \<Longrightarrow> cstr m = cstr (take n m) \<and> length (cstr m) < n"
proof -
  assume nul: "NUL \<in> set (take n m)"
  have "takeWhile (\<lambda>c. c \<noteq> NUL) (take n m @ drop n m) = takeWhile (\<lambda>c. c \<noteq> NUL) (take n m)"
    using nul by (intro takeWhile_append1 [of NUL]) simp_all
  then have c: "cstr m = cstr (take n m)" by (simp add: cstr_def)
  have "length (takeWhile (\<lambda>c. c \<noteq> NUL) (take n m)) < length (take n m)"
    using nul takeWhile_eq_all_conv [of "\<lambda>c. c \<noteq> NUL" "take n m"] length_takeWhile_le [of "\<lambda>c. c \<noteq> NUL" "take n m"]
      takeWhile_eq_take [of "\<lambda>c. c \<noteq> NUL" "take n m"]
    by (metis le_neq_implies_less take_all_iff order_refl)
  then show ?thesis using c by (simp add: cstr_def)
qed

lemma cstr_padded_text: "NUL \<notin> set t \<Longrightarrow> 0 < n \<Longrightarrow> cstr (t @ replicate n NUL) = t"
proof -
  assume "NUL \<notin> set t" "0 < n"
  then have "\<And>c. c \<in> set t \<Longrightarrow> c \<noteq> NUL" by auto
  then show ?thesis using \<open>0 < n\<close> by (cases n) (simp_all add: cstr_def takeWhile_append2)
qed

section \<open>Rows\<close>

text \<open>The value of a field as a document, and an entity as one.\<close>

definition value_json :: "bb_field \<Rightarrow> string \<Rightarrow> json" where
  "value_json f e =
     (if fd_type f = BB_FIELD_INT then JInt (the (load_int (fd_offset f) e)) else JText (Some (cstr (drop (fd_offset f) e))))"

definition members :: "bb_field list \<Rightarrow> string \<Rightarrow> (string \<times> json) list" where
  "members fs e = map (\<lambda>f. (the (fd_name f), value_json f e)) (filter stored_field fs)"

definition row :: "bb_schema \<Rightarrow> string \<Rightarrow> json" where
  "row s e = JObject (members (schema_fields s) e)"

text \<open>All allocations succeed, the file can be opened and there is room for every document that can be written.\<close>

definition env_good :: "store_env \<Rightarrow> bool" where
  "env_good env \<longleftrightarrow> st_mem env = (\<lambda>_. True) \<and> st_read env \<and> st_root env \<and> st_table env \<and> st_table_set env \<and>
     st_object env \<and> (\<forall>i. st_value env i \<and> st_text env i \<and> st_set env i) \<and> st_push env \<and>
     (\<exists>room. st_disk env = Some room \<and> INT_MAX \<le> int room) \<and> (\<forall>n. st_rows env n) \<and> (\<forall>n. \<exists>b. st_malloc env n = Some b \<and> length b = n)"

lemma loads:
  assumes "holds_field f (drop (fd_offset f) e)"
  shows "fd_type f = BB_FIELD_INT \<Longrightarrow> \<exists>v. load_int (fd_offset f) e = Some v"
    and "is_text f \<Longrightarrow> load_cstr (fd_offset f) e = Some (cstr (drop (fd_offset f) e))"
  using assms by (auto simp: holds_field_def load_int_def read_bytes_def is_text_def load_cstr_def dest: in_set_takeD)

lemma new_value_good:
  assumes "env_good env" and "holds_field f (drop (fd_offset f) e)"
  shows "new_value env i f e = Some (if stored_field f then Some (value_json f e) else None)"
proof (cases "fd_type f = BB_FIELD_INT")
  case True
  then obtain v where "load_int (fd_offset f) e = Some v" using loads(1) [OF assms(2)] by blast
  then show ?thesis using True assms(1) by (simp add: new_value_def env_good_def stored_field_def value_json_def)
next
  case False
  show ?thesis
  proof (cases "fd_type f = BB_FIELD_BLOB")
    case True
    then show ?thesis by (simp add: new_value_def stored_field_def)
  next
    case no_blob: False
    then have "is_text f" using False by (cases "fd_type f") (auto simp: is_text_def)
    then show ?thesis using loads(2) [OF assms(2)] False no_blob assms(1) cstr_no_nul
      by (cases "fd_type f") (simp_all add: new_value_def env_good_def stored_field_def value_json_def set_value_text_def cstr_id)
  qed
qed

lemma members_built:
  assumes "env_good env"
  shows "list_all (\<lambda>f. fd_name f \<noteq> None \<and> holds_field f (drop (fd_offset f) e)) fs \<Longrightarrow>
    distinct (map fd_name fs) \<Longrightarrow> (\<forall>f\<in>set fs. the (fd_name f) \<notin> fst ` set ps) \<Longrightarrow>
    entity_members env i fs e (Some (JObject ps)) = Some (Some (JObject (ps @ members fs e)))"
proof (induction fs arbitrary: i ps)
  case Nil
  then show ?case by (simp add: members_def)
next
  case (Cons f fs)
  then obtain n where n: "fd_name f = Some n" by auto
  have v: "new_value env i f e = Some (if stored_field f then Some (value_json f e) else None)"
    using new_value_good [OF assms] Cons.prems by simp
  show ?case
  proof (cases "stored_field f")
    case True
    have fresh: "n \<notin> fst ` set ps" using Cons.prems n by auto
    have "the (fd_name g) \<notin> fst ` set (ps @ [(n, value_json f e)])" if "g \<in> set fs" for g
    proof -
      have "fd_name g \<noteq> None" using Cons.prems(1) that by (auto simp: list_all_iff)
      moreover have "fd_name g \<noteq> Some n" using Cons.prems(2) n that by (auto simp: image_iff)
      ultimately show ?thesis using Cons.prems(3) that by auto
    qed
    then have "entity_members env (Suc i) fs e (Some (JObject (ps @ [(n, value_json f e)]))) =
        Some (Some (JObject ((ps @ [(n, value_json f e)]) @ members fs e)))"
      using Cons.prems by (intro Cons.IH) auto
    then show ?thesis
      using v n True put_new [OF fresh] assms by (simp add: bb_json_object_set_value_def members_def env_good_def)
  next
    case False
    then show ?thesis using v Cons by (simp add: members_def)
  qed
qed

lemma row_built:
  assumes "env_good env" and "schema_ok s" and "entity_ok s e"
  shows "bb_entity_to_json env s e = Some (Some (row s e))"
proof -
  have "list_all (\<lambda>f. fd_name f \<noteq> None \<and> holds_field f (drop (fd_offset f) e)) (schema_fields s)"
    using assms(2,3) by (auto simp: schema_ok_def entity_ok_def field_ok_def list_all_iff)
  from members_built [OF assms(1) this, of "[]" 0] show ?thesis
    using assms by (simp add: bb_entity_to_json_def row_def schema_ok_def env_good_def)
qed

section \<open>Reading a row back\<close>

text \<open>The bytes that a stored field gets.\<close>

definition field_bytes :: "bb_field \<Rightarrow> string \<Rightarrow> string" where
  "field_bytes f e =
     (if fd_type f = BB_FIELD_INT then bytes_of_int (the (load_int (fd_offset f) e))
      else copy_text_field (fd_size f) (Some (cstr (drop (fd_offset f) e))))"

definition put_bytes :: "nat \<Rightarrow> string \<Rightarrow> string \<Rightarrow> string" where
  "put_bytes off bs m = take off m @ bs @ drop (off + length bs) m"

text \<open>The entity that a row is read as.\<close>

definition filled :: "bb_field list \<Rightarrow> string \<Rightarrow> string \<Rightarrow> string" where
  "filled fs e out = fold (\<lambda>f. put_bytes (fd_offset f) (field_bytes f e)) (filter stored_field fs) out"

definition canon :: "bb_schema \<Rightarrow> string \<Rightarrow> string" where
  "canon s e = filled (schema_fields s) e (replicate (sc_struct_size s) NUL)"

lemma field_bytes_length:
  assumes "field_ok s f" and "holds_field f (drop (fd_offset f) e)" and "stored_field f"
  shows "length (field_bytes f e) = fd_size f"
    and "fd_type f \<noteq> BB_FIELD_INT \<Longrightarrow>
      field_bytes f e = cstr (drop (fd_offset f) e) @ replicate (fd_size f - length (cstr (drop (fd_offset f) e))) NUL \<and>
      length (cstr (drop (fd_offset f) e)) < fd_size f"
proof -
  show tx: "field_bytes f e = cstr (drop (fd_offset f) e) @ replicate (fd_size f - length (cstr (drop (fd_offset f) e))) NUL \<and>
      length (cstr (drop (fd_offset f) e)) < fd_size f" if "fd_type f \<noteq> BB_FIELD_INT"
  proof -
    have "NUL \<in> set (take (fd_size f) (drop (fd_offset f) e))"
      using assms(2,3) that by (cases "fd_type f") (auto simp: holds_field_def stored_field_def)
    from cstr_cut [OF this] have "length (cstr (drop (fd_offset f) e)) < fd_size f" by (rule conjunct2)
    then show ?thesis using that cstr_no_nul by (simp add: field_bytes_def copy_fits)
  qed
  show "length (field_bytes f e) = fd_size f"
  proof (cases "fd_type f = BB_FIELD_INT")
    case True
    then show ?thesis using assms(1) by (simp add: field_bytes_def field_ok_def)
  next
    case False
    then show ?thesis using tx by simp
  qed
qed

lemma put_bytes_length [simp]: "off + length bs \<le> length m \<Longrightarrow> length (put_bytes off bs m) = length m"
  by (simp add: put_bytes_def)

lemma put_bytes_here: "off + length bs \<le> length m \<Longrightarrow> take (length bs) (drop off (put_bytes off bs m)) = bs"
  by (simp add: put_bytes_def)

lemma put_bytes_apart:
  assumes "off + length bs \<le> length m" and "off + length bs \<le> off' \<or> off' + n \<le> off"
  shows "take n (drop off' (put_bytes off bs m)) = take n (drop off' m)"
  using assms(2)
proof
  assume "off + length bs \<le> off'"
  then obtain d where "off' = off + length bs + d" using le_Suc_ex by blast
  then show ?thesis using assms(1) by (simp add: put_bytes_def add.commute)
next
  assume "off' + n \<le> off"
  then have "take n (drop off' (take off m)) = take n (drop off' m)" by (simp add: drop_take)
  then show ?thesis using assms(1) \<open>off' + n \<le> off\<close> by (simp add: put_bytes_def)
qed

text \<open>The keys of an entity depend only on the bytes of the field.\<close>

lemma key_in_bytes:
  assumes "field_ok s f" and "holds_field f (drop (fd_offset f) e)" and "stored_field f"
    and "length e' = sc_struct_size s" and "take (fd_size f) (drop (fd_offset f) e') = field_bytes f e"
  shows "holds_field f (drop (fd_offset f) e') \<and> key_in f e' = key_in f e"
proof (cases "fd_type f = BB_FIELD_INT")
  case True
  have "4 \<le> length (drop (fd_offset f) e')" "fd_size f = 4" using assms(1,4) True by (auto simp: field_ok_def)
  then show ?thesis using assms(2,5) True
    by (auto simp: holds_field_def key_in_def field_key_def load_int_here field_bytes_def load_int_def read_bytes_def)
next
  case False
  from field_bytes_length(2) [OF assms(1-3) this]
  have b: "take (fd_size f) (drop (fd_offset f) e') =
      cstr (drop (fd_offset f) e) @ replicate (fd_size f - length (cstr (drop (fd_offset f) e))) NUL"
    and l: "length (cstr (drop (fd_offset f) e)) < fd_size f"
    using assms(5) by simp_all
  have nul: "NUL \<in> set (take (fd_size f) (drop (fd_offset f) e'))" using b l by simp
  have "cstr (drop (fd_offset f) e') = cstr (drop (fd_offset f) e)"
    using cstr_cut [OF nul] b l cstr_padded_text [OF cstr_no_nul] by simp
  then show ?thesis using nul False assms(3)
    by (cases "fd_type f") (auto simp: holds_field_def key_in_def field_key_def stored_field_def)
qed

lemma filled_spec:
  assumes fs: "list_all (\<lambda>f. field_ok s f \<and> holds_field f (drop (fd_offset f) e)) fs" and "sorted_wrt apart fs"
    and "length out = sc_struct_size s"
  shows "length (filled fs e out) = sc_struct_size s \<and>
    (\<forall>f\<in>set fs. stored_field f \<longrightarrow> take (fd_size f) (drop (fd_offset f) (filled fs e out)) = field_bytes f e) \<and>
    (\<forall>off n. (\<forall>f\<in>set fs. fd_offset f + fd_size f \<le> off \<or> off + n \<le> fd_offset f) \<longrightarrow>
       take n (drop off (filled fs e out)) = take n (drop off out))"
  using assms
proof (induction fs arbitrary: out)
  case Nil
  then show ?case by (simp add: filled_def)
next
  case (Cons f fs)
  show ?case
  proof (cases "stored_field f")
    case False
    then have "filled (f # fs) e out = filled fs e out" by (simp add: filled_def)
    then show ?thesis using Cons False by auto
  next
    case True
    define out' where "out' = put_bytes (fd_offset f) (field_bytes f e) out"
    have len: "length (field_bytes f e) = fd_size f" by (rule field_bytes_length(1)) (use True Cons.prems(1) in auto)
    have room: "fd_offset f + length (field_bytes f e) \<le> length out"
      using Cons.prems(1,3) len by (auto simp: field_ok_def)
    have step: "filled (f # fs) e out = filled fs e out'" using True by (simp add: filled_def out'_def)
    have "length out' = sc_struct_size s" using room Cons.prems(3) by (simp add: out'_def)
    then have IH: "length (filled fs e out') = sc_struct_size s"
      "\<forall>g\<in>set fs. stored_field g \<longrightarrow> take (fd_size g) (drop (fd_offset g) (filled fs e out')) = field_bytes g e"
      "\<forall>off n. (\<forall>g\<in>set fs. fd_offset g + fd_size g \<le> off \<or> off + n \<le> fd_offset g) \<longrightarrow>
         take n (drop off (filled fs e out')) = take n (drop off out')"
      using Cons.IH [of out'] Cons.prems by auto
    have "\<forall>g\<in>set fs. fd_offset g + fd_size g \<le> fd_offset f \<or> fd_offset f + fd_size f \<le> fd_offset g"
      using Cons.prems(2) by (auto simp: apart_def)
    then have "take (fd_size f) (drop (fd_offset f) (filled fs e out')) = take (fd_size f) (drop (fd_offset f) out')"
      using IH(3) by blast
    also have "\<dots> = field_bytes f e" using put_bytes_here [OF room] len by (simp add: out'_def)
    finally have here: "take (fd_size f) (drop (fd_offset f) (filled fs e out')) = field_bytes f e" .
    have "take n (drop off out') = take n (drop off out)" if "fd_offset f + fd_size f \<le> off \<or> off + n \<le> fd_offset f" for off n
      unfolding out'_def by (rule put_bytes_apart [OF room]) (use that len in simp)
    then show ?thesis unfolding step using IH here by simp
  qed
qed

lemma members_found:
  assumes "distinct (map fd_name fs)" and "list_all (\<lambda>f. fd_name f \<noteq> None) fs" and "f \<in> set fs"
  shows "map_of (members fs e) (the (fd_name f)) = (if stored_field f then Some (value_json f e) else None)"
  using assms
proof (induction fs)
  case (Cons g fs)
  obtain n where n: "fd_name g = Some n" using Cons.prems(2) by auto
  show ?case
  proof (cases "f = g")
    case True
    have "n \<notin> (the \<circ> fd_name) ` set fs"
    proof
      assume "n \<in> (the \<circ> fd_name) ` set fs"
      then obtain h where h: "h \<in> set fs" "the (fd_name h) = n" by auto
      have "fd_name h \<noteq> None" using Cons.prems(2) h(1) unfolding list_all_iff by auto
      then have "fd_name h = Some n" using h(2) by auto
      then show False using Cons.prems(1) n h(1) by (auto simp: image_iff)
    qed
    then have "map_of (members fs e) n = None" by (force simp: members_def map_of_eq_None_iff)
    then show ?thesis using True n by (simp add: members_def)
  next
    case False
    then have f: "f \<in> set fs" using Cons.prems by simp
    have "fd_name f \<noteq> None" using Cons.prems(2) f unfolding list_all_iff by auto
    moreover have "fd_name f \<noteq> Some n" using Cons.prems(1) n f by (auto simp: image_iff)
    ultimately have "the (fd_name f) \<noteq> n" by auto
    then show ?thesis using Cons.IH Cons.prems f n by (simp add: members_def)
  qed
qed simp

lemma fill_row:
  assumes "list_all (\<lambda>f. field_ok s f \<and> holds_field f (drop (fd_offset f) e)) fs"
    and "\<forall>f\<in>set fs. map_of ms (the (fd_name f)) = (if stored_field f then Some (value_json f e) else None)"
    and "length out = sc_struct_size s"
  shows "fill_entity fs (JObject ms) out = Some (0, filled fs e out)"
  using assms
proof (induction fs arbitrary: out)
  case Nil
  then show ?case by (simp add: filled_def)
next
  case (Cons f fs)
  obtain n where n: "fd_name f = Some n" using Cons.prems(1) by (auto simp: field_ok_def)
  show ?case
  proof (cases "stored_field f")
    case False
    then show ?thesis using Cons n by (simp add: bb_json_object_get_value_def filled_def)
  next
    case True
    have val: "bb_json_object_get_value (Some (JObject ms)) (fd_name f) = Some (value_json f e)"
      using Cons.prems(2) n True by (simp add: bb_json_object_get_value_def)
    have room: "fd_offset f + length (field_bytes f e) \<le> length out"
      using Cons.prems(1,3) field_bytes_length(1) [of s f e] True by (auto simp: field_ok_def)
    then have w: "write_at (fd_offset f) (field_bytes f e) out = Some (put_bytes (fd_offset f) (field_bytes f e) out)"
      by (simp add: write_at_def put_bytes_def)
    have "fill_entity fs (JObject ms) (put_bytes (fd_offset f) (field_bytes f e) out) =
        Some (0, filled fs e (put_bytes (fd_offset f) (field_bytes f e) out))"
      using Cons.prems room by (intro Cons.IH) auto
    then show ?thesis using val w True
      by (cases "fd_type f")
        (simp_all add: value_json_def field_bytes_def filled_def bb_json_get_type_def bb_json_get_value_integer_def
          bb_json_get_value_text_def stored_field_def)
  qed
qed

lemma entity_fields: "schema_ok s \<Longrightarrow> entity_ok s e \<Longrightarrow>
    list_all (\<lambda>f. field_ok s f \<and> holds_field f (drop (fd_offset f) e)) (schema_fields s)"
  by (simp add: schema_ok_def entity_ok_def list_all_iff)

lemma row_read:
  assumes "schema_ok s" and "entity_ok s e" and "length out = sc_struct_size s"
  shows "bb_json_to_entity s (Some (row s e)) out = Some (0, canon s e)"
proof -
  have named: "list_all (\<lambda>f. fd_name f \<noteq> None) (schema_fields s)"
    using assms(1) by (auto simp: schema_ok_def field_ok_def list_all_iff)
  have "fill_entity (schema_fields s) (row s e) (replicate (sc_struct_size s) NUL) = Some (0, canon s e)"
    unfolding row_def canon_def
    by (rule fill_row [OF entity_fields [OF assms(1,2)]])
      (use members_found [OF _ named] assms(1) in \<open>simp_all add: schema_ok_def\<close>)
  then show ?thesis using assms(3) by (simp add: bb_json_to_entity_def row_def write_at_def)
qed

lemma canon_keys:
  assumes "layout_ok s" and "entity_ok s e"
  shows "length (canon s e) = sc_struct_size s"
    and "f \<in> set (schema_fields s) \<Longrightarrow> stored_field f \<Longrightarrow> holds_field f (drop (fd_offset f) (canon s e)) \<and> key_in f (canon s e) = key_in f e"
proof -
  have s: "schema_ok s" "sorted_wrt apart (schema_fields s)" using assms(1) by (auto simp: layout_ok_def)
  note spec = filled_spec [OF entity_fields [OF s(1) assms(2)] s(2), of "replicate (sc_struct_size s) NUL"]
  show len: "length (canon s e) = sc_struct_size s" using spec by (simp add: canon_def)
  assume f: "f \<in> set (schema_fields s)" "stored_field f"
  then have "take (fd_size f) (drop (fd_offset f) (canon s e)) = field_bytes f e" using spec by (simp add: canon_def)
  then show "holds_field f (drop (fd_offset f) (canon s e)) \<and> key_in f (canon s e) = key_in f e"
    using key_in_bytes [of s f e "canon s e"] f(2) len entity_fields [OF s(1) assms(2)] f(1) by (simp add: list_all_iff)
qed

lemma canon_ok:
  assumes "layout_ok s" and "entity_ok s e"
  shows "entity_ok s (canon s e)"
  unfolding entity_ok_def list_all_iff
proof (intro conjI ballI)
  show "length (canon s e) = sc_struct_size s" by (rule canon_keys(1) [OF assms])
  fix f assume f: "f \<in> set (schema_fields s)"
  show "holds_field f (drop (fd_offset f) (canon s e))"
  proof (cases "stored_field f")
    case True
    then show ?thesis using canon_keys(2) [OF assms f] by simp
  next
    case False
    have "field_ok s f" using assms(1) f by (simp add: layout_ok_def schema_ok_def list_all_iff)
    then show ?thesis using False canon_keys(1) [OF assms]
      by (auto simp: holds_field_def stored_field_def field_ok_def)
  qed
qed

section \<open>Keys\<close>

definition pk_of :: "bb_schema \<Rightarrow> bb_field" where
  "pk_of s = schema_fields s ! sc_primary_key_index s"

definition key_of :: "bb_schema \<Rightarrow> string \<Rightarrow> int list" where
  "key_of s e = key_in (pk_of s) e"

fun position :: "('a \<Rightarrow> bool) \<Rightarrow> 'a list \<Rightarrow> nat option" where
  "position P [] = None"
| "position P (x # xs) = (if P x then Some 0 else map_option Suc (position P xs))"

lemma position_some: "position P xs = Some i \<Longrightarrow> i < length xs \<and> P (xs ! i)"
  by (induction xs arbitrary: i) (auto split: if_splits)

lemma position_none: "position P xs = None \<longleftrightarrow> (\<forall>x\<in>set xs. \<not> P x)"
  by (induction xs) auto

lemma pk_of:
  assumes "layout_ok s"
  shows "pk_of s \<in> set (schema_fields s)" and "stored_field (pk_of s)" and "primary_key s = Some (pk_of s)"
    and "\<exists>n. fd_name (pk_of s) = Some n"
proof -
  show i: "pk_of s \<in> set (schema_fields s)" using assms by (auto simp: layout_ok_def schema_ok_def pk_of_def)
  show "stored_field (pk_of s)" using assms by (simp add: layout_ok_def pk_of_def)
  show "primary_key s = Some (pk_of s)" using assms by (simp add: layout_ok_def schema_ok_def pk_of_def primary_key_def)
  show "\<exists>n. fd_name (pk_of s) = Some n"
    using assms i by (auto simp: layout_ok_def schema_ok_def field_ok_def list_all_iff)
qed

lemma pk_holds: "layout_ok s \<Longrightarrow> entity_ok s e \<Longrightarrow> holds_value (pk_of s) (drop (fd_offset (pk_of s)) e)"
  using pk_of(1) field_holds_value by (auto simp: entity_ok_def list_all_iff)

lemma chars_inj: "map (\<lambda>c. int (ord c)) s = map (\<lambda>c. int (ord c)) t \<longleftrightarrow> s = t"
proof -
  have "inj (\<lambda>c. int (ord c))" by (auto simp: inj_def of_char_eq_iff)
  then show ?thesis by (rule inj_map_eq_map)
qed

lemma pk_equals_row:
  assumes s: "layout_ok s" and e: "entity_ok s e" and k: "holds_value (pk_of s) key"
  shows "pk_equals (pk_of s) (bb_json_object_get_value (Some (row s e)) (fd_name (pk_of s))) key =
    Some (key_of s e = field_key (pk_of s) key)"
proof -
  define f where "f = pk_of s"
  have f: "f \<in> set (schema_fields s)" "stored_field f" using pk_of(1,2) [OF s] by (simp_all add: f_def)
  obtain n where n: "fd_name f = Some n" using pk_of(4) [OF s] by (auto simp: f_def)
  have named: "list_all (\<lambda>f. fd_name f \<noteq> None) (schema_fields s)" "distinct (map fd_name (schema_fields s))"
    using s by (auto simp: layout_ok_def schema_ok_def field_ok_def list_all_iff)
  have v: "bb_json_object_get_value (Some (row s e)) (fd_name f) = Some (value_json f e)"
    using members_found [OF named(2,1) f(1), of e] f(2) n by (simp add: bb_json_object_get_value_def row_def)
  have h: "holds_field f (drop (fd_offset f) e)" using e f(1) by (simp add: entity_ok_def list_all_iff)
  show ?thesis
  proof (cases "fd_type f = BB_FIELD_INT")
    case True
    obtain w where w: "load_int (fd_offset f) e = Some w" using loads(1) [OF h True] by blast
    then have "load_int 0 (drop (fd_offset f) e) = Some w" by (auto simp: load_int_def read_bytes_def split: if_splits)
    moreover obtain k' where "load_int 0 key = Some k'" using k True by (auto simp: holds_value_def f_def [symmetric] load_int_here)
    moreover have "w = k' \<longleftrightarrow> sint w = sint k'" by (auto dest: signed_word_eqI)
    ultimately show ?thesis using v True w
      by (simp add: pk_equals_def f_def [symmetric] value_json_def key_of_def key_in_def field_key_def
          bb_json_get_value_integer_def)
  next
    case False
    then have "NUL \<in> set key" using k f(2) by (cases "fd_type f") (auto simp: holds_value_def stored_field_def f_def [symmetric])
    then have "load_cstr 0 key = Some (cstr key)" by (simp add: load_cstr_def)
    then show ?thesis using v False f(2) cstr_no_nul
      by (cases "fd_type f")
        (simp_all add: pk_equals_def f_def [symmetric] value_json_def key_of_def key_in_def field_key_def chars_inj
          bb_json_get_value_text_def stored_field_def cstr_id)
  qed
qed

lemma find_row_position:
  assumes "layout_ok s" and "holds_value (pk_of s) key"
  shows "list_all (entity_ok s) es \<Longrightarrow>
    find_row (pk_of s) key (map (row s) es) = Some (position (\<lambda>e. key_of s e = field_key (pk_of s) key) es)"
proof (induction es)
  case (Cons e es)
  then show ?case using pk_equals_row [OF assms(1) _ assms(2), of e]
    by (cases "key_of s e = field_key (pk_of s) key") simp_all
qed simp

section \<open>The file\<close>

text \<open>The document that a file holds; a missing file holds the empty one.\<close>

definition doc_ok :: "(string \<times> json) list \<Rightarrow> bool" where
  "doc_ok ps \<longleftrightarrow> json_ok (JObject ps) \<and> normalise (JObject ps) = JObject ps \<and> nesting (JObject ps) \<le> BB_JSON_MAX_DEPTH"

definition file_holds :: "json_file \<Rightarrow> (string \<times> json) list \<Rightarrow> bool" where
  "file_holds fl ps \<longleftrightarrow> doc_ok ps \<and> (fl = Some (print_json True 0 (JObject ps)) \<or> fl = None \<and> ps = [])"

definition fits :: "(string \<times> json) list \<Rightarrow> bool" where
  "fits ps \<longleftrightarrow> int (length (print_json True 0 (JObject ps))) < INT_MAX"

text \<open>The rows of a schema in a document.\<close>

definition table_rows :: "bb_schema \<Rightarrow> (string \<times> json) list \<Rightarrow> string list \<Rightarrow> bool" where
  "table_rows s ps es \<longleftrightarrow> list_all (entity_ok s) es \<and> distinct (map (key_of s) es) \<and>
     (map_of ps (the (sc_name s)) = Some (JArray (map (row s) es)) \<or> map_of ps (the (sc_name s)) = None \<and> es = [])"

definition with_rows :: "bb_schema \<Rightarrow> string list \<Rightarrow> (string \<times> json) list \<Rightarrow> (string \<times> json) list" where
  "with_rows s es ps = al_put (the (sc_name s)) (JArray (map (row s) es)) ps"

lemma load_printed:
  assumes "env_good env" and "doc_ok ps"
  shows "load_file env (Some (print_json True 0 (JObject ps))) = Some (JObject ps)"
proof -
  define t where "t = print_json True 0 (JObject ps)"
  have nul: "NUL \<notin> set t" unfolding t_def by (rule print_no_nul(1))
  have start: "take 3 t \<noteq> [CHR 0xEF, CHR 0xBB, CHR 0xBF]" by (simp add: t_def)
  have "bb_json_parse (\<lambda>_. True) (Some (t @ [NUL])) = Some (JObject ps)"
    using parse_serialized [of "JObject ps" True] assms(2) unfolding doc_ok_def t_def by presburger
  moreover have "cstr (t @ [NUL]) = cstr t" using cstr_printed cstr_id [OF nul] unfolding t_def by presburger
  ultimately have "bb_json_parse (\<lambda>_. True) (Some t) = Some (JObject ps)" by (simp add: bb_json_parse_def)
  then show ?thesis
    unfolding t_def [symmetric] using assms(1) nul start by (simp add: load_file_def bb_json_load_def env_good_def)
qed

lemma load_held: "env_good env \<Longrightarrow> file_holds fl ps \<Longrightarrow> load_root env fl = Some (JObject ps)"
proof -
  assume g: "env_good env" and h: "file_holds fl ps"
  then have "st_root env" by (simp add: env_good_def)
  moreover have "load_file env None = None" by (simp add: load_file_def bb_json_load_def)
  ultimately show ?thesis using h load_printed [OF g] by (auto simp: file_holds_def load_root_def simp del: print_json.simps)
qed

lemma save_room:
  assumes "\<forall>n. \<exists>b. st_malloc env n = Some b \<and> length b = n" and "st_disk env = Some room" and "fits ps"
  shows "save_root env (Some (JObject ps)) fl = Some (0, Some (take room (print_json True 0 (JObject ps))))"
proof -
  define t where "t = print_json True 0 (JObject ps)"
  obtain b where b: "st_malloc env (length t + 1) = Some b" "length b = length t + 1"
    using assms(1) by blast
  have f: "int (length (print_json True 0 (JObject ps))) < INT_MAX" using assms(3) by (simp add: fits_def)
  have size: "serialized_size True (Some (JObject ps)) = Some (int (length t))"
    and fill: "fill_buffer True (Some (JObject ps)) b = Some (t @ [NUL])"
    using serialize_spec(1) [OF f] serialize_spec(2) [OF f, of b] b(2) unfolding t_def by blast+
  have "bb_json_serialize_indented (st_malloc env) (Some (JObject ps)) (Some None) (Some 0) =
      Some (JSON_OK, Some (Some (t @ [NUL])), Some (int (length t)))"
    using size fill b(1) by (simp add: bb_json_serialize_indented_def)
  moreover have "take (min room (length t)) t = take room t" by (simp add: min_def)
  ultimately show ?thesis
    unfolding t_def [symmetric] using assms(2) by (simp add: save_root_def bb_json_dump_def)
qed

lemma save_doc:
  assumes "env_good env" and "fits ps"
  shows "save_root env (Some (JObject ps)) fl = Some (0, Some (print_json True 0 (JObject ps)))"
proof -
  obtain room where room: "st_disk env = Some room" "INT_MAX \<le> int room" and m: "\<forall>n. \<exists>b. st_malloc env n = Some b \<and> length b = n"
    using assms(1) unfolding env_good_def by blast
  have "length (print_json True 0 (JObject ps)) \<le> room" using room(2) assms(2) unfolding fits_def by linarith
  then show ?thesis using save_room [OF m room(1) assms(2)] by (simp del: print_json.simps)
qed

lemma row_doc:
  assumes "layout_ok s" and "entity_ok s e"
  shows "json_ok (row s e)" and "normalise (row s e) = row s e" and "nesting (row s e) \<le> 1"
proof -
  have names: "list_all (\<lambda>f. fd_name f \<noteq> None \<and> NUL \<notin> set (the (fd_name f))) (schema_fields s)"
    "distinct (map fd_name (schema_fields s))"
    using assms(1) by (auto simp: layout_ok_def schema_ok_def field_ok_def list_all_iff)
  have "distinct (map (\<lambda>f. the (fd_name f)) (filter stored_field fs))"
    if "distinct (map fd_name fs)" "list_all (\<lambda>f. fd_name f \<noteq> None) fs" for fs
    using that by (induction fs) (force simp: list_all_iff)+
  then have "distinct (map fst (members (schema_fields s) e))"
    using names by (simp add: members_def comp_def list_all_iff)
  moreover have "json_ok (value_json f e) \<and> normalise (value_json f e) = value_json f e \<and> nesting (value_json f e) = 0" for f
    using cstr_no_nul by (simp add: value_json_def)
  ultimately show "json_ok (row s e)" "normalise (row s e) = row s e"
    using names(1) by (auto simp: row_def members_def list_all_iff comp_def)
  have "(\<lambda>p. nesting (snd p)) ` set (members (schema_fields s) e) \<subseteq> {0}" by (auto simp: members_def value_json_def)
  then have "insert 0 ((\<lambda>p. nesting (snd p)) ` set (members (schema_fields s) e)) = {0}" by blast
  then have "Max (insert 0 ((\<lambda>p. nesting (snd p)) ` set (members (schema_fields s) e))) = Max {0}" by (rule arg_cong)
  then show "nesting (row s e) \<le> 1" by (simp add: row_def)
qed

lemma table_doc:
  assumes "layout_ok s" and "list_all (entity_ok s) es"
  shows "json_ok (JArray (map (row s) es))" and "normalise (JArray (map (row s) es)) = JArray (map (row s) es)"
    and "nesting (JArray (map (row s) es)) \<le> 2"
proof -
  note doc = row_doc [OF assms(1)]
  have e: "\<And>e. e \<in> set es \<Longrightarrow> entity_ok s e" using assms(2) by (simp add: list_all_iff)
  show "json_ok (JArray (map (row s) es))" "normalise (JArray (map (row s) es)) = JArray (map (row s) es)"
    using doc(1,2) e by auto
  have "x \<le> 1" if "x \<in> insert 0 (nesting ` set (map (row s) es))" for x using that doc(3) e by fastforce
  then have "Max (insert 0 (nesting ` set (map (row s) es))) \<le> 1" by (intro Max.boundedI) auto
  then show "nesting (JArray (map (row s) es)) \<le> 2" by simp
qed

lemma put_doc:
  assumes "doc_ok ps" and "NUL \<notin> set k" and "json_ok j" and "normalise j = j" and "nesting j < BB_JSON_MAX_DEPTH"
  shows "doc_ok (al_put k j ps)"
proof -
  have m: "p \<in> set (al_put k j ps) \<Longrightarrow> p = (k, j) \<or> p \<in> set ps" for p by (rule put_set)
  have ok: "json_ok (JObject ps)" "normalise (JObject ps) = JObject ps" "nesting (JObject ps) \<le> BB_JSON_MAX_DEPTH"
    using assms(1) by (auto simp: doc_ok_def)
  have "json_ok (JObject (al_put k j ps))"
    using ok(1) put_distinct [of ps k j] m assms(2,3) by fastforce
  moreover have "(fst p, normalise (snd p)) = p" if "p \<in> set (al_put k j ps)" for p
  proof -
    have "map (\<lambda>p. (fst p, normalise (snd p))) ps = ps" using ok(2) by simp
    then have "q \<in> set ps \<Longrightarrow> (fst q, normalise (snd q)) = q" for q
      using map_eq_conv [of "\<lambda>p. (fst p, normalise (snd p))" ps id] by simp
    then show ?thesis using m [OF that] assms(4) by (cases p) auto
  qed
  then have "normalise (JObject (al_put k j ps)) = JObject (al_put k j ps)" by (simp add: map_idI)
  moreover have "nesting (JObject (al_put k j ps)) \<le> BB_JSON_MAX_DEPTH"
  proof -
    have "nesting (snd p) < BB_JSON_MAX_DEPTH" if "p \<in> set (al_put k j ps)" for p
      using m [OF that] assms(5) nesting_member [of p ps] ok(3) by auto
    then have "x \<le> BB_JSON_MAX_DEPTH - 1" if "x \<in> insert 0 ((\<lambda>p. nesting (snd p)) ` set (al_put k j ps))" for x
      using that by fastforce
    then have "Max (insert 0 ((\<lambda>p. nesting (snd p)) ` set (al_put k j ps))) \<le> BB_JSON_MAX_DEPTH - 1"
      by (intro Max.boundedI) auto
    then show ?thesis by (simp add: BB_JSON_MAX_DEPTH_def)
  qed
  ultimately show ?thesis by (simp add: doc_ok_def)
qed

lemma with_rows_doc:
  assumes "layout_ok s" and "doc_ok ps" and "list_all (entity_ok s) es"
  shows "doc_ok (with_rows s es ps)"
  unfolding with_rows_def
proof (rule put_doc [OF assms(2)])
  show "NUL \<notin> set (the (sc_name s))" using assms(1) by (auto simp: layout_ok_def)
  show "nesting (JArray (map (row s) es)) < BB_JSON_MAX_DEPTH"
    using table_doc(3) [OF assms(1,3)] by (simp add: BB_JSON_MAX_DEPTH_def del: nesting.simps)
qed (rule table_doc [OF assms(1,3)])+

lemma with_rows_table:
  "list_all (entity_ok s) es \<Longrightarrow> distinct (map (key_of s) es) \<Longrightarrow> table_rows s (with_rows s es ps) es"
  by (simp add: table_rows_def with_rows_def map_of_put)

lemma put_twice: "al_put k v (al_put k w ps) = al_put k v ps"
proof (cases "k \<in> fst ` set ps")
  case True
  then have "k \<in> fst ` set (al_put k w ps)" by (force simp: al_put_def)
  then show ?thesis using True by (simp add: al_put_def [of k v] al_put_def [of k w]) (auto simp: al_put_def)
next
  case False
  then have "map (\<lambda>(k', v'). if k' = k then (k', v) else (k', v')) ps = ps" by (intro map_idI) force
  then show ?thesis using False by (simp add: al_put_def)
qed

text \<open>The table is found, or entered anew, and its change is the change of its rows.\<close>

lemma get_table_rows:
  assumes "env_good env" and "layout_ok s" and "table_rows s ps es"
  obtains root where "get_table env (Some (JObject ps)) (sc_name s) = (root, Some (JArray (map (row s) es)))"
    and "\<And>es'. with_table root (sc_name s) (Some (JArray (map (row s) es'))) = Some (JObject (with_rows s es' ps))"
proof -
  obtain n where n: "sc_name s = Some n" using assms(2) by (auto simp: layout_ok_def)
  show thesis
  proof (cases "map_of ps n")
    case None
    then have "es = []" using assms(3) n by (simp add: table_rows_def)
    moreover have "n \<in> fst ` set (al_put n w ps)" for w :: json by (force simp: al_put_def)
    ultimately show thesis
      using assms(1) None n put_twice
      by (intro that [of "Some (JObject (al_put n (JArray []) ps))"])
        (simp_all add: get_table_def bb_json_object_get_value_def bb_json_object_set_value_def env_good_def with_table_def
          with_rows_def)
  next
    case (Some t)
    then have "t = JArray (map (row s) es)" "n \<in> fst ` set ps"
      using assms(3) n by (auto simp: table_rows_def dest: map_of_SomeD intro: rev_image_eqI)
    then show thesis
      using Some n by (intro that [of "Some (JObject ps)"])
        (simp_all add: get_table_def bb_json_object_get_value_def with_table_def with_rows_def)
  qed
qed

section \<open>The operations\<close>

lemma position_removed:
  "distinct (map key es) \<Longrightarrow> position (\<lambda>e. key e = k) es = Some i \<Longrightarrow>
   take i es @ drop (Suc i) es = filter (\<lambda>e. key e \<noteq> k) es"
proof (induction es arbitrary: i)
  case (Cons e es)
  show ?case
  proof (cases "key e = k")
    case True
    then have "\<forall>x\<in>set es. key x \<noteq> k" using Cons.prems(1) by (auto simp: image_iff)
    then have "filter (\<lambda>x. key x \<noteq> k) es = es" by simp
    then show ?thesis using True Cons.prems(2) by simp
  next
    case False
    then show ?thesis using Cons by auto
  qed
qed simp

lemma position_find: "find P xs = (case position P xs of None \<Rightarrow> None | Some i \<Rightarrow> Some (xs ! i))"
  by (induction xs) (auto split: option.splits)

lemma key_present: "k \<in> key ` set es \<Longrightarrow> \<exists>i. position (\<lambda>x. key x = k) es = Some i"
  using position_none [of "\<lambda>x. key x = k" es] by (cases "position (\<lambda>x. key x = k) es") auto

lemma key_absent: "k \<notin> key ` set es \<Longrightarrow> position (\<lambda>x. key x = k) es = None"
  using position_none [of "\<lambda>x. key x = k" es] by auto

lemma table_rows_ok: "table_rows s ps es \<Longrightarrow> list_all (entity_ok s) es \<and> distinct (map (key_of s) es)"
  by (simp add: table_rows_def)

text \<open>The file after its table has been given other rows.\<close>

definition saved :: "bb_schema \<Rightarrow> string list \<Rightarrow> (string \<times> json) list \<Rightarrow> json_file" where
  "saved s es ps = Some (print_json True 0 (JObject (with_rows s es ps)))"

lemma saved_holds: "layout_ok s \<Longrightarrow> doc_ok ps \<Longrightarrow> list_all (entity_ok s) es \<Longrightarrow> file_holds (saved s es ps) (with_rows s es ps)"
  using with_rows_doc by (simp add: file_holds_def saved_def)

definition holding :: "store_env \<Rightarrow> bb_schema \<Rightarrow> json_file \<Rightarrow> (string \<times> json) list \<Rightarrow> string list \<Rightarrow> bool" where
  "holding env s fl ps es \<longleftrightarrow> env_good env \<and> layout_ok s \<and> file_holds fl ps \<and> table_rows s ps es"

lemma found_at:
  assumes h: "holding env s fl ps es" and "holds_value (pk_of s) k"
  shows "find_row (pk_of s) k (table_items (Some (JArray (map (row s) es)))) = Some (position (\<lambda>e. key_of s e = field_key (pk_of s) k) es)"
  using find_row_position [of s k es] assms by (simp add: holding_def table_rows_def table_items_def)

lemma key_field: "field_key (pk_of s) (drop (fd_offset (pk_of s)) e) = key_of s e"
  by (simp add: key_of_def key_in_def)

lemma json_insert_spec:
  assumes h: "holding env s fl ps es" and arg: "entity_ok s e"
  shows "key_of s e \<in> key_of s ` set es \<Longrightarrow> json_insert env s e fl = Some (- 1, fl)"
    and "key_of s e \<notin> key_of s ` set es \<Longrightarrow> fits (with_rows s (es @ [e]) ps) \<Longrightarrow>
      json_insert env s e fl = Some (0, saved s (es @ [e]) ps)"
proof -
  have env: "env_good env" and lay: "layout_ok s" and fl: "file_holds fl ps" and rows: "table_rows s ps es"
    using h by (auto simp: holding_def)
  obtain root where t: "get_table env (load_root env fl) (sc_name s) = (root, Some (JArray (map (row s) es)))"
    "\<And>es'. with_table root (sc_name s) (Some (JArray (map (row s) es'))) = Some (JObject (with_rows s es' ps))"
    using get_table_rows [OF env lay rows] load_held [OF env fl] by metis
  have f: "find_row (pk_of s) (drop (fd_offset (pk_of s)) e) (table_items (Some (JArray (map (row s) es)))) =
      Some (position (\<lambda>x. key_of s x = key_of s e) es)"
    using found_at [OF h pk_holds [OF lay arg]] by (simp add: key_field)
  have obj: "bb_entity_to_json env s e = Some (Some (row s e))"
    using row_built [OF env _ arg] lay by (simp add: layout_ok_def)
  have push: "snd (bb_json_array_push (st_push env) (Some (JArray (map (row s) es))) (Some (row s e))) =
      Some (JArray (map (row s) (es @ [e])))"
    using env by (simp add: bb_json_array_push_def env_good_def)
  note unf = json_insert_def t(1) prod.case pk_of(3) [OF lay] f Let_def Option.bind.bind_lunit
  show "json_insert env s e fl = Some (- 1, fl)" if present: "key_of s e \<in> key_of s ` set es"
  proof -
    obtain i where "position (\<lambda>x. key_of s x = key_of s e) es = Some i"
      using key_present [OF present(1)] by blast
    then show ?thesis by (simp add: unf)
  qed
  show "json_insert env s e fl = Some (0, saved s (es @ [e]) ps)"
    if absent: "key_of s e \<notin> key_of s ` set es" and room: "fits (with_rows s (es @ [e]) ps)"
  proof -
    have "position (\<lambda>x. key_of s x = key_of s e) es = None" by (rule key_absent) (fact absent(1))
    then show ?thesis
      using save_doc [OF env room] t(2) [of "es @ [e]"] by (simp add: unf obj push saved_def del: map_append)
  qed
qed

lemma removed_at:
  assumes h: "holding env s fl ps es" and arg: "position (\<lambda>x. key_of s x = k) es = Some i"
  shows "snd (bb_json_array_remove_at_index (Some (JArray (map (row s) es))) i) =
    Some (JArray (map (row s) (filter (\<lambda>x. key_of s x \<noteq> k) es)))"
proof -
  have env: "env_good env" and lay: "layout_ok s" and fl: "file_holds fl ps" and rows: "table_rows s ps es"
    using h by (auto simp: holding_def)
  have "i < length es" using position_some [OF arg] by simp
  moreover have "take i es @ drop (Suc i) es = filter (\<lambda>x. key_of s x \<noteq> k) es"
    using position_removed arg rows by (auto simp: table_rows_def)
  then have "take i (map (row s) es) @ drop (Suc i) (map (row s) es) = map (row s) (filter (\<lambda>x. key_of s x \<noteq> k) es)"
    unfolding take_map drop_map map_append [symmetric] by (rule arg_cong)
  ultimately show ?thesis by (simp add: bb_json_array_remove_at_index_def not_le)
qed

lemma json_update_spec:
  assumes h: "holding env s fl ps es" and arg: "entity_ok s e"
  shows "key_of s e \<notin> key_of s ` set es \<Longrightarrow> json_update env s e fl = Some (- 1, fl)"
    and "key_of s e \<in> key_of s ` set es \<Longrightarrow> fits (with_rows s (filter (\<lambda>x. key_of s x \<noteq> key_of s e) es @ [e]) ps) \<Longrightarrow>
      json_update env s e fl = Some (0, saved s (filter (\<lambda>x. key_of s x \<noteq> key_of s e) es @ [e]) ps)"
proof -
  have env: "env_good env" and lay: "layout_ok s" and fl: "file_holds fl ps" and rows: "table_rows s ps es"
    using h by (auto simp: holding_def)
  define es' where "es' = filter (\<lambda>x. key_of s x \<noteq> key_of s e) es"
  obtain root where t: "get_table env (load_root env fl) (sc_name s) = (root, Some (JArray (map (row s) es)))"
    "\<And>es'. with_table root (sc_name s) (Some (JArray (map (row s) es'))) = Some (JObject (with_rows s es' ps))"
    using get_table_rows [OF env lay rows] load_held [OF env fl] by metis
  have f: "find_row (pk_of s) (drop (fd_offset (pk_of s)) e) (table_items (Some (JArray (map (row s) es)))) =
      Some (position (\<lambda>x. key_of s x = key_of s e) es)"
    using found_at [OF h pk_holds [OF lay arg]] by (simp add: key_field)
  have obj: "bb_entity_to_json env s e = Some (Some (row s e))"
    using row_built [OF env _ arg] lay by (simp add: layout_ok_def)
  have push: "snd (bb_json_array_push (st_push env) (Some (JArray (map (row s) es'))) (Some (row s e))) =
      Some (JArray (map (row s) (es' @ [e])))"
    using env by (simp add: bb_json_array_push_def env_good_def)
  note unf = json_update_def t(1) prod.case pk_of(3) [OF lay] f Let_def Option.bind.bind_lunit
  show "json_update env s e fl = Some (- 1, fl)" if absent: "key_of s e \<notin> key_of s ` set es"
  proof -
    have "position (\<lambda>x. key_of s x = key_of s e) es = None" by (rule key_absent) (fact absent(1))
    then show ?thesis by (simp add: unf)
  qed
  show "json_update env s e fl = Some (0, saved s (filter (\<lambda>x. key_of s x \<noteq> key_of s e) es @ [e]) ps)"
    if present: "key_of s e \<in> key_of s ` set es" and room: "fits (with_rows s (filter (\<lambda>x. key_of s x \<noteq> key_of s e) es @ [e]) ps)"
  proof -
    obtain i where i: "position (\<lambda>x. key_of s x = key_of s e) es = Some i"
      using key_present [OF present(1)] by blast
    show ?thesis
      using save_doc [OF env room] t(2) [of "es' @ [e]"] removed_at [OF h i] push i
      unfolding es'_def [symmetric] by (simp add: unf obj saved_def del: map_append)
  qed
qed

lemma json_remove_spec:
  assumes h: "holding env s fl ps es" and arg: "holds_value (pk_of s) k"
  shows "field_key (pk_of s) k \<notin> key_of s ` set es \<Longrightarrow> json_remove env s k fl = Some (- 1, fl)"
    and "field_key (pk_of s) k \<in> key_of s ` set es \<Longrightarrow>
      fits (with_rows s (filter (\<lambda>x. key_of s x \<noteq> field_key (pk_of s) k) es) ps) \<Longrightarrow>
      json_remove env s k fl = Some (0, saved s (filter (\<lambda>x. key_of s x \<noteq> field_key (pk_of s) k) es) ps)"
proof -
  have env: "env_good env" and lay: "layout_ok s" and fl: "file_holds fl ps" and rows: "table_rows s ps es"
    using h by (auto simp: holding_def)
  obtain root where t: "get_table env (load_root env fl) (sc_name s) = (root, Some (JArray (map (row s) es)))"
    "\<And>es'. with_table root (sc_name s) (Some (JArray (map (row s) es'))) = Some (JObject (with_rows s es' ps))"
    using get_table_rows [OF env lay rows] load_held [OF env fl] by metis
  note unf = json_remove_def t(1) prod.case pk_of(3) [OF lay] found_at [OF h arg] Let_def Option.bind.bind_lunit
  show "json_remove env s k fl = Some (- 1, fl)" if absent: "field_key (pk_of s) k \<notin> key_of s ` set es"
  proof -
    have "position (\<lambda>x. key_of s x = field_key (pk_of s) k) es = None" by (rule key_absent) (fact absent(1))
    then show ?thesis by (simp add: unf)
  qed
  show "json_remove env s k fl = Some (0, saved s (filter (\<lambda>x. key_of s x \<noteq> field_key (pk_of s) k) es) ps)"
    if present: "field_key (pk_of s) k \<in> key_of s ` set es" and room: "fits (with_rows s (filter (\<lambda>x. key_of s x \<noteq> field_key (pk_of s) k) es) ps)"
  proof -
    obtain i where i: "position (\<lambda>x. key_of s x = field_key (pk_of s) k) es = Some i"
      using key_present [OF present(1)] by blast
    show ?thesis
      using save_doc [OF env room] t(2) removed_at [OF h i] i by (simp add: unf saved_def)
  qed
qed

lemma find_by_pk_spec:
  assumes h: "holding env s fl ps es" and arg: "holds_value (pk_of s) k" "length out = sc_struct_size s"
  shows "json_find_by_pk env s out k fl =
    Some (case find (\<lambda>e. key_of s e = field_key (pk_of s) k) es of None \<Rightarrow> (- 1, out) | Some e \<Rightarrow> (0, canon s e))"
proof -
  have env: "env_good env" and lay: "layout_ok s" and fl: "file_holds fl ps" and rows: "table_rows s ps es"
    using h by (auto simp: holding_def)
  obtain root where t: "get_table env (load_root env fl) (sc_name s) = (root, Some (JArray (map (row s) es)))"
    using get_table_rows [OF env lay rows] load_held [OF env fl] by metis
  note unf = json_find_by_pk_def t(1) prod.case pk_of(3) [OF lay] found_at [OF h arg(1)] Let_def Option.bind.bind_lunit
  show ?thesis
  proof (cases "position (\<lambda>e. key_of s e = field_key (pk_of s) k) es")
    case None
    then show ?thesis by (simp add: unf position_find)
  next
    case (Some i)
    then have i: "i < length es" using position_some by blast
    then have "bb_json_to_entity s (Some (map (row s) es ! i)) out = Some (0, canon s (es ! i))"
      using row_read [of s "es ! i" out] lay rows arg(2) by (simp add: layout_ok_def table_rows_def list_all_iff)
    then show ?thesis using Some by (simp add: unf position_find) (simp add: table_items_def)
  qed
qed

lemma read_rows_spec: "layout_ok s \<Longrightarrow> list_all (entity_ok s) xs \<Longrightarrow> read_rows s (map (row s) xs) = Some (map (canon s) xs)"
proof (induction xs)
  case (Cons e xs)
  then have "bb_json_to_entity s (Some (row s e)) (replicate (sc_struct_size s) NUL) = Some (0, canon s e)"
    using row_read [of s e] by (simp add: layout_ok_def)
  then show ?case using Cons by (simp add: bb_json_get_type_def row_def)
qed simp

lemma json_find_all_spec:
  assumes h: "holding env s fl ps es"
  shows "json_find_all env s fl = Some (0, map (canon s) es)"
proof -
  have env: "env_good env" and lay: "layout_ok s" and fl: "file_holds fl ps" and rows: "table_rows s ps es"
    using h by (auto simp: holding_def)
  show ?thesis
proof (cases fl)
  case None
  then have "ps = []" using fl by (simp add: file_holds_def)
  then have "es = []" using rows by (simp add: table_rows_def)
  then show ?thesis using None by (simp add: json_find_all_def load_file_def bb_json_load_def)
next
  case (Some t)
  then have load: "load_file env fl = Some (JObject ps)" using load_printed [OF env] fl by (auto simp: file_holds_def)
  obtain n where n: "sc_name s = Some n" using lay by (auto simp: layout_ok_def)
  show ?thesis
  proof (cases "map_of ps n")
    case None
    then show ?thesis using load n rows
      by (simp add: json_find_all_def bb_json_get_type_def bb_json_object_get_value_def table_rows_def)
  next
    case (Some t)
    then have "t = JArray (map (row s) es)" using rows n by (simp add: table_rows_def)
    then show ?thesis using load n Some rows read_rows_spec [OF lay] env
      by (simp add: json_find_all_def bb_json_get_type_def bb_json_object_get_value_def table_rows_def table_items_def
          env_good_def)
  qed
qed
qed

section \<open>Tables and repositories\<close>

text \<open>The rows as a map from keys.\<close>

definition table_of :: "(string \<Rightarrow> int list) \<Rightarrow> string list \<Rightarrow> int list \<Rightarrow> string option" where
  "table_of key es k = find (\<lambda>e. key e = k) es"

text \<open>
  What a repository asks of a back end: its state holds the rows of a table, with different keys, and the
  operations act on them as on a list. A row is given back in a normal form.
\<close>

locale row_table =
  fixes rows :: "'h \<Rightarrow> string list \<Rightarrow> bool"
    and room :: "'h \<Rightarrow> string list \<Rightarrow> bool"
    and valid :: "string \<Rightarrow> bool"
    and key :: "string \<Rightarrow> int list"
    and key_ok :: "string \<Rightarrow> bool"
    and key_value :: "string \<Rightarrow> int list"
    and out_ok :: "string \<Rightarrow> bool"
    and normal :: "string \<Rightarrow> string"
    and insert_row :: "string \<Rightarrow> 'h \<Rightarrow> (int \<times> 'h) option"
    and update_row :: "string \<Rightarrow> 'h \<Rightarrow> (int \<times> 'h) option"
    and remove_row :: "string \<Rightarrow> 'h \<Rightarrow> (int \<times> 'h) option"
    and get_row :: "string \<Rightarrow> string \<Rightarrow> 'h \<Rightarrow> (int \<times> string) option"
    and all_rows :: "'h \<Rightarrow> (int \<times> string list) option"
  assumes rows_distinct: "rows h es \<Longrightarrow> distinct (map key es)"
    and insert_new: "rows h es \<Longrightarrow> valid e \<Longrightarrow> key e \<notin> key ` set es \<Longrightarrow> room h (es @ [e]) \<Longrightarrow>
      \<exists>h'. insert_row e h = Some (0, h') \<and> rows h' (es @ [e])"
    and insert_old: "rows h es \<Longrightarrow> valid e \<Longrightarrow> key e \<in> key ` set es \<Longrightarrow> insert_row e h = Some (- 1, h)"
    and update_old: "rows h es \<Longrightarrow> valid e \<Longrightarrow> key e \<in> key ` set es \<Longrightarrow>
      room h (filter (\<lambda>x. key x \<noteq> key e) es @ [e]) \<Longrightarrow>
      \<exists>h'. update_row e h = Some (0, h') \<and> rows h' (filter (\<lambda>x. key x \<noteq> key e) es @ [e])"
    and update_new: "rows h es \<Longrightarrow> valid e \<Longrightarrow> key e \<notin> key ` set es \<Longrightarrow> update_row e h = Some (- 1, h)"
    and remove_old: "rows h es \<Longrightarrow> key_ok k \<Longrightarrow> key_value k \<in> key ` set es \<Longrightarrow>
      room h (filter (\<lambda>x. key x \<noteq> key_value k) es) \<Longrightarrow>
      \<exists>h'. remove_row k h = Some (0, h') \<and> rows h' (filter (\<lambda>x. key x \<noteq> key_value k) es)"
    and remove_new: "rows h es \<Longrightarrow> key_ok k \<Longrightarrow> key_value k \<notin> key ` set es \<Longrightarrow> remove_row k h = Some (- 1, h)"
    and get: "rows h es \<Longrightarrow> key_ok k \<Longrightarrow> out_ok out \<Longrightarrow>
      get_row out k h = Some (case find (\<lambda>e. key e = key_value k) es of None \<Rightarrow> (- 1, out) | Some e \<Rightarrow> (0, normal e))"
    and all: "rows h es \<Longrightarrow> all_rows h = Some (0, map normal es)"
begin

lemma table_none: "table_of key es k = None \<longleftrightarrow> k \<notin> key ` set es"
  by (auto simp: table_of_def find_None_iff image_iff)

lemma find_append: "find P (xs @ ys) = (case find P xs of None \<Rightarrow> find P ys | Some x \<Rightarrow> Some x)"
  by (induction xs) auto

lemma table_append: "key e \<notin> key ` set es \<Longrightarrow> table_of key (es @ [e]) = (table_of key es)(key e \<mapsto> e)"
proof
  fix k assume new: "key e \<notin> key ` set es"
  have "find (\<lambda>x. key x = k) es = None" if "k = key e"
    using table_none [of es "key e"] new that by (simp add: table_of_def)
  then show "table_of key (es @ [e]) k = ((table_of key es)(key e \<mapsto> e)) k"
    by (cases "k = key e") (auto simp: table_of_def find_append split: option.split)
qed

lemma table_filter: "table_of key (filter (\<lambda>x. key x \<noteq> k) es) = (table_of key es)(k := None)"
proof
  fix k'
  show "table_of key (filter (\<lambda>x. key x \<noteq> k) es) k' = ((table_of key es)(k := None)) k'"
    by (induction es) (auto simp: table_of_def)
qed

text \<open>An operation, what it answers, and the map behind it.\<close>

lemma insert_map:
  assumes "rows h es" and "valid e" and "room h (es @ [e])"
  shows "\<exists>rc h' es'. insert_row e h = Some (rc, h') \<and> rows h' es' \<and>
    (if table_of key es (key e) = None then rc = 0 \<and> table_of key es' = (table_of key es)(key e \<mapsto> e) else rc = - 1 \<and> es' = es)"
proof (cases "key e \<in> key ` set es")
  case True
  then have "table_of key es (key e) \<noteq> None" by (simp add: table_none)
  then show ?thesis using insert_old [OF assms(1,2) True] assms(1) by auto
next
  case False
  then have "table_of key es (key e) = None" by (simp add: table_none)
  then show ?thesis using insert_new [OF assms(1,2) False assms(3)] table_append [OF False] by auto
qed

lemma update_map:
  assumes "rows h es" and "valid e" and "room h (filter (\<lambda>x. key x \<noteq> key e) es @ [e])"
  shows "\<exists>rc h' es'. update_row e h = Some (rc, h') \<and> rows h' es' \<and>
    (if table_of key es (key e) = None then rc = - 1 \<and> es' = es else rc = 0 \<and> table_of key es' = (table_of key es)(key e \<mapsto> e))"
proof (cases "key e \<in> key ` set es")
  case True
  then have "table_of key es (key e) \<noteq> None" by (simp add: table_none)
  moreover have "key e \<notin> key ` set (filter (\<lambda>x. key x \<noteq> key e) es)" by auto
  from table_append [OF this] have "table_of key (filter (\<lambda>x. key x \<noteq> key e) es @ [e]) = (table_of key es)(key e \<mapsto> e)"
    by (simp add: table_filter)
  ultimately show ?thesis using update_old [OF assms(1,2) True assms(3)] by auto
next
  case False
  then have "table_of key es (key e) = None" by (simp add: table_none)
  then show ?thesis using update_new [OF assms(1,2) False] assms(1) by auto
qed

lemma remove_map:
  assumes "rows h es" and "key_ok k" and "room h (filter (\<lambda>x. key x \<noteq> key_value k) es)"
  shows "\<exists>rc h' es'. remove_row k h = Some (rc, h') \<and> rows h' es' \<and>
    (if table_of key es (key_value k) = None then rc = - 1 \<and> es' = es else rc = 0 \<and> table_of key es' = (table_of key es)(key_value k := None))"
proof (cases "key_value k \<in> key ` set es")
  case True
  then have "table_of key es (key_value k) \<noteq> None" by (simp add: table_none)
  then show ?thesis using remove_old [OF assms(1,2) True assms(3)] table_filter by metis
next
  case False
  then have "table_of key es (key_value k) = None" by (simp add: table_none)
  then show ?thesis using remove_new [OF assms(1,2) False] assms(1) by auto
qed

lemma get_map:
  assumes "rows h es" and "key_ok k" and "out_ok out"
  shows "get_row out k h = Some (case table_of key es (key_value k) of None \<Rightarrow> (- 1, out) | Some e \<Rightarrow> (0, normal e))"
  using get [OF assms] by (simp add: table_of_def)

text \<open>A repository over a back end without queries of its own evaluates them on all rows.\<close>

lemma repo_find_rows:
  assumes "rows h es" and "ap_query api = None" and "ap_find_all api s h = all_rows h"
    and "query_ok q" and "list_all (entity_ok (qy_schema q)) (map normal es)" and "sorts qsort" and "\<forall>n. malloc n"
  shows "\<exists>sorted. mset sorted = mset (filter (satisfies q) (map normal es)) \<and>
    sorted_wrt (precedes (qy_schema q) (qy_sorts q)) sorted \<and>
    bb_repo_find qsort malloc api s q h = Some (0, page_of q sorted)"
  using queries_give_the_rows_they_ask_for [OF assms(4-7)] all [OF assms(1)] assms(2,3) by (auto simp: bb_repo_find_def)

lemma repo_filter_rows:
  assumes "rows h es" and "ap_find_all api s h = all_rows h" and "\<forall>n. calloc n"
  shows "bb_repo_filter calloc api s fn h = Some (0, filter fn (map normal es))"
  using all [OF assms(1)] assms(2,3) by (auto simp: bb_repo_filter_def)

end

text \<open>The JSON file is such a table.\<close>

definition json_rows :: "store_env \<Rightarrow> bb_schema \<Rightarrow> json_file \<Rightarrow> string list \<Rightarrow> bool" where
  "json_rows env s fl es \<longleftrightarrow> (\<exists>ps. holding env s fl ps es)"

text \<open>Whatever document the file holds, it still fits with these rows.\<close>

definition json_room :: "bb_schema \<Rightarrow> json_file \<Rightarrow> string list \<Rightarrow> bool" where
  "json_room s fl es \<longleftrightarrow> (\<forall>ps. file_holds fl ps \<longrightarrow> fits (with_rows s es ps))"

lemma saved_rows:
  assumes "holding env s fl ps es" and "list_all (entity_ok s) es'" and "distinct (map (key_of s) es')"
  shows "holding env s (saved s es' ps) (with_rows s es' ps) es'"
  using assms saved_holds with_rows_table by (auto simp: holding_def file_holds_def)

lemma holding_entities: "holding env s fl ps es \<Longrightarrow> list_all (entity_ok s) es \<and> distinct (map (key_of s) es)"
  by (simp add: holding_def table_rows_def)

interpretation json_table: row_table "json_rows env s" "json_room s" "entity_ok s" "key_of s" "holds_value (pk_of s)"
    "field_key (pk_of s)" "\<lambda>out. length out = sc_struct_size s" "canon s" "json_insert env s" "json_update env s"
    "json_remove env s" "json_find_by_pk env s" "json_find_all env s"
  for env s
proof (unfold_locales, goal_cases)
  case (1 h es)
  then show ?case using holding_entities by (auto simp: json_rows_def)
next
  case (2 h es e)
  then obtain ps where h: "holding env s h ps es" by (auto simp: json_rows_def)
  then have "fits (with_rows s (es @ [e]) ps)" using 2(4) by (simp add: json_room_def holding_def)
  then have "json_insert env s e h = Some (0, saved s (es @ [e]) ps)" using json_insert_spec(2) [OF h 2(2,3)] by simp
  moreover have "holding env s (saved s (es @ [e]) ps) (with_rows s (es @ [e]) ps) (es @ [e])"
    using holding_entities [OF h] 2(2,3) by (intro saved_rows [OF h]) auto
  ultimately show ?case by (auto simp: json_rows_def)
next
  case (3 h es e)
  then show ?case using json_insert_spec(1) by (auto simp: json_rows_def)
next
  case (4 h es e)
  define es' where "es' = filter (\<lambda>x. key_of s x \<noteq> key_of s e) es @ [e]"
  from 4 obtain ps where h: "holding env s h ps es" by (auto simp: json_rows_def)
  then have "fits (with_rows s es' ps)" using 4(4) by (simp add: json_room_def holding_def es'_def)
  then have "json_update env s e h = Some (0, saved s es' ps)" using json_update_spec(2) [OF h 4(2,3)] by (simp add: es'_def)
  moreover have "list_all (entity_ok s) es'" "distinct (map (key_of s) es')"
    using holding_entities [OF h] 4(2) by (auto simp: es'_def list_all_iff distinct_map_filter)
  then have "holding env s (saved s es' ps) (with_rows s es' ps) es'" by (rule saved_rows [OF h])
  ultimately show ?case unfolding es'_def [symmetric] by (auto simp: json_rows_def)
next
  case (5 h es e)
  then show ?case using json_update_spec(1) by (auto simp: json_rows_def)
next
  case (6 h es k)
  define es' where "es' = filter (\<lambda>x. key_of s x \<noteq> field_key (pk_of s) k) es"
  from 6 obtain ps where h: "holding env s h ps es" by (auto simp: json_rows_def)
  then have "fits (with_rows s es' ps)" using 6(4) by (simp add: json_room_def holding_def es'_def)
  then have "json_remove env s k h = Some (0, saved s es' ps)" using json_remove_spec(2) [OF h 6(2,3)] by (simp add: es'_def)
  moreover have "list_all (entity_ok s) es'" "distinct (map (key_of s) es')"
    using holding_entities [OF h] by (auto simp: es'_def list_all_iff distinct_map_filter)
  then have "holding env s (saved s es' ps) (with_rows s es' ps) es'" by (rule saved_rows [OF h])
  ultimately show ?case unfolding es'_def [symmetric] by (auto simp: json_rows_def)
next
  case (7 h es k)
  then show ?case using json_remove_spec(1) by (auto simp: json_rows_def)
next
  case (8 h es k out)
  then show ?case using find_by_pk_spec by (auto simp: json_rows_def)
next
  case (9 h es)
  then show ?case using json_find_all_spec by (auto simp: json_rows_def)
qed

section \<open>What holds of stored entities\<close>

text \<open>C33: An entity becomes a document and the document an entity again, with the same number or text in
  every field that is not a blob (blobs are not stored). Every text ends inside its field, and nothing is
  written outside the struct.\<close>

theorem entities_survive_json:
  assumes "env_good env" and "layout_ok s" and "entity_ok s e" and "length out = sc_struct_size s"
  shows "\<exists>obj back. bb_entity_to_json env s e = Some (Some obj) \<and> bb_json_to_entity s (Some obj) out = Some (0, back) \<and>
    entity_ok s back \<and>
    list_all (\<lambda>f. fd_type f = BB_FIELD_BLOB \<or> key_in f back = key_in f e) (schema_fields s)"
proof (intro exI conjI)
  have s: "schema_ok s" using assms(2) by (simp add: layout_ok_def)
  show "bb_entity_to_json env s e = Some (Some (row s e))" by (rule row_built [OF assms(1) s assms(3)])
  show "bb_json_to_entity s (Some (row s e)) out = Some (0, canon s e)" by (rule row_read [OF s assms(3,4)])
  show "entity_ok s (canon s e)" by (rule canon_ok [OF assms(2,3)])
  show "list_all (\<lambda>f. fd_type f = BB_FIELD_BLOB \<or> key_in f (canon s e) = key_in f e) (schema_fields s)"
    using canon_keys(2) [OF assms(2,3)] by (auto simp: list_all_iff stored_field_def)
qed

text \<open>C16: The file of the JSON back end is a table. With its rows seen as a map from primary keys,
  inserting adds a row unless the key is taken, updating replaces the row of a key that is there, removing
  deletes it, and each says so by its result; finding a key gives its row, and finding all gives every row
  once. The document is read back from the bytes of the file in every operation and written again.\<close>

theorem json_files_are_tables:
  assumes "json_rows env s fl es" and "entity_ok s e" and "holds_value (pk_of s) k" and "length out = sc_struct_size s"
    and room: "\<And>es'. set es' \<subseteq> insert e (set es) \<Longrightarrow> length es' \<le> Suc (length es) \<Longrightarrow> json_room s fl es'"
  shows "(\<exists>rc fl' es'. json_insert env s e fl = Some (rc, fl') \<and> json_rows env s fl' es' \<and>
      (if table_of (key_of s) es (key_of s e) = None
       then rc = 0 \<and> table_of (key_of s) es' = (table_of (key_of s) es)(key_of s e \<mapsto> e)
       else rc = - 1 \<and> es' = es)) \<and>
    (\<exists>rc fl' es'. json_update env s e fl = Some (rc, fl') \<and> json_rows env s fl' es' \<and>
      (if table_of (key_of s) es (key_of s e) = None then rc = - 1 \<and> es' = es
       else rc = 0 \<and> table_of (key_of s) es' = (table_of (key_of s) es)(key_of s e \<mapsto> e))) \<and>
    (\<exists>rc fl' es'. json_remove env s k fl = Some (rc, fl') \<and> json_rows env s fl' es' \<and>
      (if table_of (key_of s) es (field_key (pk_of s) k) = None then rc = - 1 \<and> es' = es
       else rc = 0 \<and> table_of (key_of s) es' = (table_of (key_of s) es)(field_key (pk_of s) k := None))) \<and>
    json_find_by_pk env s out k fl =
      Some (case table_of (key_of s) es (field_key (pk_of s) k) of None \<Rightarrow> (- 1, out) | Some e \<Rightarrow> (0, canon s e)) \<and>
    json_find_all env s fl = Some (0, map (canon s) es)"
proof (intro conjI)
  have "set (filter P es @ [e]) \<subseteq> insert e (set es)" "length (filter P es @ [e]) \<le> Suc (length es)" for P
    by auto
  then have r: "json_room s fl (filter P es @ [e])" for P by (rule room)
  have r': "json_room s fl (filter P es)" for P by (rule room) (auto simp: le_SucI)
  have "json_room s fl (es @ [e])" using r [of "\<lambda>_. True"] by simp
  from json_table.insert_map [OF assms(1,2) this] show "\<exists>rc fl' es'. json_insert env s e fl = Some (rc, fl') \<and>
      json_rows env s fl' es' \<and>
      (if table_of (key_of s) es (key_of s e) = None
       then rc = 0 \<and> table_of (key_of s) es' = (table_of (key_of s) es)(key_of s e \<mapsto> e)
       else rc = - 1 \<and> es' = es)" .
  show "\<exists>rc fl' es'. json_update env s e fl = Some (rc, fl') \<and> json_rows env s fl' es' \<and>
      (if table_of (key_of s) es (key_of s e) = None then rc = - 1 \<and> es' = es
       else rc = 0 \<and> table_of (key_of s) es' = (table_of (key_of s) es)(key_of s e \<mapsto> e))"
    by (rule json_table.update_map [OF assms(1,2) r])
  show "\<exists>rc fl' es'. json_remove env s k fl = Some (rc, fl') \<and> json_rows env s fl' es' \<and>
      (if table_of (key_of s) es (field_key (pk_of s) k) = None then rc = - 1 \<and> es' = es
       else rc = 0 \<and> table_of (key_of s) es' = (table_of (key_of s) es)(field_key (pk_of s) k := None))"
    by (rule json_table.remove_map [OF assms(1,3) r'])
qed (rule json_table.get_map [OF assms(1,3,4)] json_table.all [OF assms(1)])+

text \<open>C32: A repository over a JSON file answers a query from the rows of the file: those that satisfy all
  conditions, each once, in the order asked for, cut to the page asked for; filtering with a callback
  gives exactly the rows it accepts.\<close>

theorem repositories_query_json_files:
  assumes "json_rows env s fl es" and "query_ok q" and "qy_schema q = s" and "sorts qsort" and "\<forall>n. malloc n"
  shows "bb_repo_filter malloc (model_json_api env) s fn fl = Some (0, filter fn (map (canon s) es)) \<and>
    (\<exists>sorted. mset sorted = mset (filter (satisfies q) (map (canon s) es)) \<and>
      sorted_wrt (precedes s (qy_sorts q)) sorted \<and>
      bb_repo_find qsort malloc (model_json_api env) s q fl = Some (0, page_of q sorted))"
proof
  have api: "ap_query (model_json_api env) = None" "ap_find_all (model_json_api env) s fl = json_find_all env s fl"
    by (simp_all add: model_json_api_def)
  from assms(1) obtain ps where h: "holding env s fl ps es" by (auto simp: json_rows_def)
  then have "list_all (entity_ok (qy_schema q)) (map (canon s) es)"
    using canon_ok holding_entities [OF h] assms(3) by (auto simp: holding_def list_all_iff)
  from json_table.repo_find_rows [OF assms(1) api assms(2) this assms(4,5)] assms(3)
  show "\<exists>sorted. mset sorted = mset (filter (satisfies q) (map (canon s) es)) \<and>
      sorted_wrt (precedes s (qy_sorts q)) sorted \<and>
      bb_repo_find qsort malloc (model_json_api env) s q fl = Some (0, page_of q sorted)" by simp
  show "bb_repo_filter malloc (model_json_api env) s fn fl = Some (0, filter fn (map (canon s) es))"
    by (rule json_table.repo_filter_rows [OF assms(1) api(2) assms(5)])
qed

section \<open>At a concrete input\<close>

definition sample_store :: store_env where
  "sample_store =
     \<lparr>st_mem = (\<lambda>_. True), st_read = True, st_root = True, st_table = True, st_table_set = True, st_object = True,
      st_value = (\<lambda>_. True), st_text = (\<lambda>_. True), st_set = (\<lambda>_. True), st_push = True,
      st_malloc = (\<lambda>n. Some (replicate n NUL)), st_disk = Some 2147483648, st_rows = (\<lambda>_. True)\<rparr>"

definition user_file :: json_file where
  "user_file = saved user_schema user_rows []"

lemma sample_store_good: "env_good sample_store"
  by (simp add: env_good_def sample_store_def INT_MAX_def)

lemma user_layout: "layout_ok user_schema"
  by (simp add: layout_ok_def schema_ok_def user_schema_def schema_fields_def field_ok_def apart_def stored_field_def NUL_def)

lemma user_rows_ok: "list_all (entity_ok user_schema) user_rows"
  by (simp add: user_rows_def user_row_def user_schema_def entity_ok_def holds_field_def schema_fields_def)

lemma user_keys: "distinct (map (key_of user_schema) user_rows)"
  by (simp add: user_rows_def key_of_def key_in_def pk_of_def user_schema_def schema_fields_def user_row_def field_key_def
      load_int_def read_bytes_def int_of_bytes_def NUL_def)

lemma empty_file_holds: "holding sample_store user_schema None [] []"
  using sample_store_good user_layout
  by (simp add: holding_def file_holds_def doc_ok_def table_rows_def BB_JSON_MAX_DEPTH_def)

lemma user_file_rows: "json_rows sample_store user_schema user_file user_rows"
  unfolding json_rows_def user_file_def using saved_rows [OF empty_file_holds user_rows_ok user_keys] by blast

theorem entities_survive_json_witness:
  "\<exists>obj back. bb_entity_to_json sample_store user_schema (user_row CHR 0x03 CHR ''a'') = Some (Some obj) \<and>
    bb_json_to_entity user_schema (Some obj) (replicate 8 CHR ''z'') = Some (0, back) \<and> entity_ok user_schema back \<and>
    list_all (\<lambda>f. fd_type f = BB_FIELD_BLOB \<or> key_in f back = key_in f (user_row CHR 0x03 CHR ''a'')) (schema_fields user_schema)"
proof (rule entities_survive_json [OF sample_store_good user_layout])
  show "entity_ok user_schema (user_row CHR 0x03 CHR ''a'')" using user_rows_ok by (simp add: user_rows_def)
qed (simp add: user_schema_def)

lemma small_room: "set es \<subseteq> {user_row CHR 0x03 CHR ''a''} \<Longrightarrow> length es \<le> 1 \<Longrightarrow> json_room user_schema None es"
proof -
  assume es: "set es \<subseteq> {user_row CHR 0x03 CHR ''a''}" "length es \<le> 1"
  then consider "es = []" | "es = [user_row CHR 0x03 CHR ''a'']" by (cases es) auto
  then have "fits (with_rows user_schema es [])"
  proof cases
    case 1
    then show ?thesis
      by (simp add: fits_def with_rows_def user_schema_def al_put_def tabs_def newline_def quoted_def INT_MAX_def
          escape_char_def short_escape_def)
  next
    case 2
    have "cstr [CHR ''a'', CHR ''x'', NUL, NUL] = ''ax''" by (simp add: cstr_def NUL_def)
    then show ?thesis unfolding 2
      by (simp add: fits_def with_rows_def user_schema_def al_put_def tabs_def newline_def quoted_def INT_MAX_def
          escape_char_def short_escape_def row_def members_def schema_fields_def stored_field_def value_json_def
          user_row_def load_int_def read_bytes_def int_of_bytes_def show_int_def show_nat.simps NUL_def Let_def)
  qed
  moreover have "file_holds None ps \<Longrightarrow> ps = []" for ps by (simp add: file_holds_def)
  ultimately show ?thesis by (auto simp: json_room_def)
qed

theorem json_files_are_tables_witness:
  "\<exists>fl'. json_insert sample_store user_schema (user_row CHR 0x03 CHR ''a'') None = Some (0, fl') \<and>
     json_find_all sample_store user_schema None = Some (0, [])"
proof -
  have rows: "json_rows sample_store user_schema None []" unfolding json_rows_def using empty_file_holds by blast
  have e: "entity_ok user_schema (user_row CHR 0x03 CHR ''a'')" using user_rows_ok by (simp add: user_rows_def)
  have k: "holds_value (pk_of user_schema) [CHR 0x03, NUL, NUL, NUL]"
    by (simp add: holds_value_def pk_of_def user_schema_def schema_fields_def)
  have room: "json_room user_schema None es'"
    if "set es' \<subseteq> insert (user_row CHR 0x03 CHR ''a'') (set [])" "length es' \<le> Suc (length ([] :: string list))" for es'
    using small_room [of es'] that by simp
  have "length (replicate 8 NUL) = sc_struct_size user_schema" by (simp add: user_schema_def)
  from json_files_are_tables [OF rows e k this room] show ?thesis by (auto simp: table_of_def)
qed

theorem repositories_query_json_files_witness:
  "bb_repo_filter (\<lambda>_. True) (model_json_api sample_store) user_schema (\<lambda>e. e ! 4 = CHR ''c'') user_file =
      Some (0, filter (\<lambda>e. e ! 4 = CHR ''c'') (map (canon user_schema) user_rows)) \<and>
    (\<exists>sorted. mset sorted = mset (filter (satisfies user_query) (map (canon user_schema) user_rows)) \<and>
      sorted_wrt (precedes user_schema (qy_sorts user_query)) sorted \<and>
      bb_repo_find insertion_qsort (\<lambda>_. True) (model_json_api sample_store) user_schema user_query user_file =
        Some (0, page_of user_query sorted))"
proof (rule repositories_query_json_files [OF user_file_rows _ _ insertion_sorts])
  show "query_ok user_query"
    by (simp add: query_ok_def user_query_def schema_ok_def user_schema_def field_ok_def schema_fields_def cond_ok_def
        has_field_def the_field_def holds_value_def)
qed (simp_all add: user_query_def)

text \<open>The result of \<open>fwrite\<close> is not looked at: a disk with room for four bytes, and a file cut there, are success.\<close>

theorem short_write_is_not_reported:
  "save_root (sample_store\<lparr>st_disk := Some 4\<rparr>) (Some (JObject [(''a'', JInt 1)])) None =
     Some (0, Some (take 4 (print_json True 0 (JObject [(''a'', JInt 1)])))) \<and>
   4 < length (print_json True 0 (JObject [(''a'', JInt 1)]))"
proof
  have "fits [(''a'', JInt 1)]"
    by (simp add: fits_def tabs_def newline_def quoted_def INT_MAX_def escape_char_def short_escape_def show_int_def show_nat.simps)
  then show "save_root (sample_store\<lparr>st_disk := Some 4\<rparr>) (Some (JObject [(''a'', JInt 1)])) None =
     Some (0, Some (take 4 (print_json True 0 (JObject [(''a'', JInt 1)]))))"
    by (intro save_room) (simp_all add: sample_store_def)
  show "4 < length (print_json True 0 (JObject [(''a'', JInt 1)]))"
    by (simp add: tabs_def newline_def quoted_def escape_char_def short_escape_def)
qed

end
