(* ===== verification/Migration.thy ===== *)
theory Migration
  imports C_Qsort Hash
begin

text \<open>
  Migrations (\<open>src/tools/migrate\<close>): the source layer of \<open>migration.c\<close>, which turns files into an ordered list
  of migrations, and the naming of new ones. A failure is a constructor in place of its message.
  Reading a directory or a file is a parameter, as is \<open>qsort\<close>.
\<close>

section \<open>Migrations\<close>

datatype migrate_error =
    MIG_INVALID_ARGUMENTS | MIG_NOT_A_NAME | MIG_VERSION_TOO_LARGE | MIG_NAME_TOO_LONG | MIG_NAME_CHARS
  | MIG_NAME_EMPTY | MIG_OUT_OF_MEMORY | MIG_NO_DIRECTORY | MIG_NOT_SQL string | MIG_NONE_FOUND
  | MIG_CANNOT_READ string | MIG_HAS_NUL string | MIG_DUPLICATE int | MIG_SOURCE_NOT_SORTED | MIG_LEDGER_NOT_SORTED
  | MIG_LEDGER | MIG_READING_LEDGER | MIG_PROBLEM int nat | MIG_CANNOT_BEGIN int | MIG_FAILED int | MIG_COMMIT_FAILED int
  | MIG_INSPECTING

record bb_migration =
  mg_version :: int
  mg_name :: string
  mg_checksum :: string
  mg_sql :: string

definition BB_MIGRATE_NAME_MAX :: nat where "BB_MIGRATE_NAME_MAX = 128"
definition INT64_MAX :: int where "INT64_MAX = 2 ^ 63 - 1"

section \<open>File names\<close>

fun basename_from :: "string \<Rightarrow> string \<Rightarrow> string" where
  "basename_from base [] = base"
| "basename_from base (c # s) = basename_from (if c = CHR ''/'' \<or> c = CHR 0x5C then s else base) s"

definition basename_of :: "string \<Rightarrow> string" where
  "basename_of path = basename_from path path"

definition is_name_char :: "char \<Rightarrow> bool" where
  "is_name_char c \<longleftrightarrow> is_alpha c \<or> is_digit c \<or> c = CHR ''_'' \<or> c = CHR ''-''"

text \<open>The number at the start, with what follows it and whether there was a digit.\<close>

fun read_version :: "bool \<Rightarrow> int \<Rightarrow> string \<Rightarrow> migrate_error + (bool \<times> int \<times> string)" where
  "read_version some v [] = Inr (some, v, [])"
| "read_version some v (c # s) =
     (if is_digit c
      then let digit = int (digit_val c)
           in if v > (INT64_MAX - digit) div 10 then Inl MIG_VERSION_TOO_LARGE
              else read_version True (v * 10 + digit) s
      else Inr (some, v, c # s))"

definition has_ext :: "string \<Rightarrow> bool" where
  "has_ext base \<longleftrightarrow> length base > 4 \<and> drop (length base - 4) base = ''.sql''"

definition bb_migrate_parse_filename :: "string option \<Rightarrow> nat \<Rightarrow> migrate_error + (int \<times> string)" where
  "bb_migrate_parse_filename path name_cap =
     (case path of
        None \<Rightarrow> Inl MIG_INVALID_ARGUMENTS
      | Some p \<Rightarrow>
          if name_cap = 0 then Inl MIG_INVALID_ARGUMENTS
          else let base = basename_of p
               in if \<not> has_ext base then Inl MIG_NOT_A_NAME
                  else case read_version False 0 (take (length base - 4) base) of
                         Inl e \<Rightarrow> Inl e
                       | Inr (some, v, rest) \<Rightarrow>
                           if \<not> some \<or> rest = [] \<or> hd rest \<noteq> CHR ''_'' \<or> tl rest = [] then Inl MIG_NOT_A_NAME
                           else if length (tl rest) \<ge> name_cap then Inl MIG_NAME_TOO_LONG
                           else if \<not> list_all is_name_char (tl rest) then Inl MIG_NAME_CHARS
                           else Inr (v, tl rest))"

section \<open>Checksums\<close>

text \<open>Everything but the CR of each CR LF, in the pieces between them.\<close>

definition feed_piece :: "string \<Rightarrow> sha256_ctx \<Rightarrow> sha256_ctx" where
  "feed_piece piece ctx = (if piece = [] then ctx else sha256_update (map byte_of piece) ctx)"

fun crlf_loop :: "string \<Rightarrow> string \<Rightarrow> sha256_ctx \<Rightarrow> sha256_ctx" where
  "crlf_loop piece [] ctx = feed_piece piece ctx"
| "crlf_loop piece [c] ctx = feed_piece (piece @ [c]) ctx"
| "crlf_loop piece (c # d # s) ctx =
     (if c = CR \<and> d = LF then crlf_loop [] (d # s) (feed_piece piece ctx) else crlf_loop (piece @ [c]) (d # s) ctx)"

definition hex_digit_of :: "u8 \<Rightarrow> char" where
  "hex_digit_of w = ''0123456789abcdef'' ! unat w"

definition bb_migrate_checksum :: "string \<Rightarrow> string" where
  "bb_migrate_checksum data =
     concat (map (\<lambda>b. [hex_digit_of (drop_bit 4 b), hex_digit_of (b AND 0x0F)]) (sha256_final (crlf_loop [] data sha256_init)))"

section \<open>Collecting and loading files\<close>

text \<open>
  The paths of a directory; \<open>mem\<close> tells whether there is memory for a path.
\<close>

definition has_sql_suffix :: "string \<Rightarrow> bool" where
  "has_sql_suffix name \<longleftrightarrow> length name > 4 \<and> drop (length name - 4) name = ''.sql''"

definition join_path :: "string \<Rightarrow> string \<Rightarrow> string" where
  "join_path dir name =
     (if dir \<noteq> [] \<and> (last dir = CHR ''/'' \<or> last dir = CHR 0x5C) then dir @ name else dir @ ''/'' @ name)"

fun dir_paths :: "(string \<Rightarrow> bool) \<Rightarrow> string \<Rightarrow> string list \<Rightarrow> migrate_error + string list" where
  "dir_paths mem dir [] = Inr []"
| "dir_paths mem dir (name # names) =
     (if \<not> has_sql_suffix name
      then if name \<noteq> [] \<and> is_digit (hd name) then Inl (MIG_NOT_SQL name) else dir_paths mem dir names
      else if \<not> mem (join_path dir name) then Inl MIG_OUT_OF_MEMORY
      else case dir_paths mem dir names of Inl e \<Rightarrow> Inl e | Inr ps \<Rightarrow> Inr (join_path dir name # ps))"

definition bb_migrate_collect_paths ::
  "(string \<Rightarrow> string list option) \<Rightarrow> bool \<Rightarrow> (string \<Rightarrow> bool) \<Rightarrow> string option \<Rightarrow> string list \<Rightarrow> bool \<Rightarrow>
   migrate_error + string list" where
  "bb_migrate_collect_paths bb_dir_list ok mem dir files allow_empty =
     (case (case dir of None \<Rightarrow> Some [] | Some d \<Rightarrow> bb_dir_list d) of
        None \<Rightarrow> Inl MIG_NO_DIRECTORY
      | Some names \<Rightarrow>
          if \<not> ok then Inl MIG_OUT_OF_MEMORY
          else case (case dir of None \<Rightarrow> Inr [] | Some d \<Rightarrow> dir_paths mem d names) of
                 Inl e \<Rightarrow> Inl e
               | Inr ps \<Rightarrow>
                   if dir \<noteq> None \<and> ps = [] \<and> files = [] \<and> \<not> allow_empty then Inl MIG_NONE_FOUND
                   else if \<not> list_all mem files then Inl MIG_OUT_OF_MEMORY
                   else Inr (ps @ files))"

fun load_each :: "(string \<Rightarrow> string option) \<Rightarrow> string list \<Rightarrow> migrate_error + bb_migration list" where
  "load_each read_file [] = Inr []"
| "load_each read_file (p # ps) =
     (case bb_migrate_parse_filename (Some p) BB_MIGRATE_NAME_MAX of
        Inl e \<Rightarrow> Inl e
      | Inr (v, name) \<Rightarrow>
          (case read_file p of
             None \<Rightarrow> Inl (MIG_CANNOT_READ p)
           | Some data \<Rightarrow>
               if NUL \<in> set data then Inl (MIG_HAS_NUL p)
               else case load_each read_file ps of
                      Inl e \<Rightarrow> Inl e
                    | Inr ms \<Rightarrow>
                        Inr (\<lparr>mg_version = v, mg_name = name, mg_checksum = bb_migrate_checksum data, mg_sql = data\<rparr> # ms)))"

definition compare_by_version :: "bb_migration \<Rightarrow> bb_migration \<Rightarrow> int" where
  "compare_by_version a b =
     of_bool (mg_version a > mg_version b) - of_bool (mg_version a < mg_version b)"

fun repeated_version :: "bb_migration list \<Rightarrow> int option" where
  "repeated_version (a # b # ms) = (if mg_version b = mg_version a then Some (mg_version b) else repeated_version (b # ms))"
| "repeated_version _ = None"

definition bb_migrate_load_files ::
  "bb_migration sorter \<Rightarrow> bool \<Rightarrow> (string \<Rightarrow> string option) \<Rightarrow> string list \<Rightarrow> migrate_error + bb_migration list" where
  "bb_migrate_load_files qsort ok read_file paths =
     (if paths = [] then Inr []
      else if \<not> ok then Inl MIG_OUT_OF_MEMORY
      else case load_each read_file paths of
             Inl e \<Rightarrow> Inl e
           | Inr ms \<Rightarrow>
               (case repeated_version (qsort compare_by_version ms) of
                  Some v \<Rightarrow> Inl (MIG_DUPLICATE v)
                | None \<Rightarrow> Inr (qsort compare_by_version ms)))"

section \<open>New migrations\<close>

text \<open>\<open>None\<close> is a signed overflow.\<close>

definition bb_migrate_next_version :: "bb_migration list \<Rightarrow> int option" where
  "bb_migrate_next_version set' =
     (if set' = [] then Some 1
      else if mg_version (last set') = INT64_MAX then None else Some (mg_version (last set') + 1))"

function digit_count :: "int \<Rightarrow> nat" where
  "digit_count v = (if v \<ge> 10 then 1 + digit_count (v div 10) else 1)"
  by pat_completeness auto
termination by (relation "measure nat") auto

declare digit_count.simps [simp del]

definition padded_number :: "nat \<Rightarrow> int \<Rightarrow> string" where
  "padded_number width v = replicate (width - length (show_nat (nat v))) CHR ''0'' @ show_nat (nat v)"

definition bb_migrate_format_filename ::
  "bb_migration list \<Rightarrow> int \<Rightarrow> string option \<Rightarrow> nat \<Rightarrow> migrate_error + string" where
  "bb_migrate_format_filename set' version name cap =
     (case name of
        None \<Rightarrow> Inl MIG_INVALID_ARGUMENTS
      | Some n \<Rightarrow>
          if cap = 0 \<or> version < 0 then Inl MIG_INVALID_ARGUMENTS
          else if n = [] then Inl MIG_NAME_EMPTY
          else if \<not> list_all is_name_char n then Inl MIG_NAME_CHARS
          else let width = (if set' \<noteq> [] \<and> digit_count (mg_version (last set')) > 4
                            then digit_count (mg_version (last set')) else 4);
                   file = padded_number width version @ ''_'' @ n @ ''.sql''
               in if length file \<ge> BB_MIGRATE_NAME_MAX + 64 \<or> length file \<ge> cap then Inl MIG_NAME_TOO_LONG
                  else case bb_migrate_parse_filename (Some file) BB_MIGRATE_NAME_MAX of
                         Inl e \<Rightarrow> Inl e
                       | Inr _ \<Rightarrow> Inr file)"

end
