(* ===== verification/Migrate_Plan.thy ===== *)
theory Migrate_Plan
  imports Migration
begin

text \<open>
  The planner and the runner of migrations (\<open>src/tools/migrate/src/plan.c\<close>, \<open>runner.c\<close>). A database driver
  is a table of functions on its state, as in \<open>driver.h\<close>; each returns whether it succeeded.
\<close>

section \<open>Plans\<close>

record bb_migrate_applied =
  ap_version :: int
  ap_name :: string
  ap_checksum :: string

datatype bb_migrate_state =
    STATE_APPLIED | STATE_PENDING | STATE_MODIFIED | STATE_MISSING | STATE_OUT_OF_ORDER

definition bb_migrate_state_is_problem :: "bb_migrate_state \<Rightarrow> bool" where
  "bb_migrate_state_is_problem state \<longleftrightarrow>
     state = STATE_MODIFIED \<or> state = STATE_MISSING \<or> state = STATE_OUT_OF_ORDER"

definition bb_migrate_state_name :: "bb_migrate_state \<Rightarrow> string" where
  "bb_migrate_state_name state =
     (case state of
        STATE_APPLIED \<Rightarrow> ''applied'' | STATE_PENDING \<Rightarrow> ''pending'' | STATE_MODIFIED \<Rightarrow> ''MODIFIED''
      | STATE_MISSING \<Rightarrow> ''MISSING'' | STATE_OUT_OF_ORDER \<Rightarrow> ''OUT-OF-ORDER'')"

record bb_migrate_entry =
  me_version :: int
  me_name :: string
  me_state :: bb_migrate_state
  me_late :: bool
  me_migration :: "bb_migration option"

record bb_migrate_plan =
  mp_entries :: "bb_migrate_entry list"
  mp_pending_count :: nat
  mp_problem_count :: nat

definition empty_plan :: bb_migrate_plan where
  "empty_plan = \<lparr>mp_entries = [], mp_pending_count = 0, mp_problem_count = 0\<rparr>"

definition add_entry ::
  "int \<Rightarrow> string \<Rightarrow> bb_migrate_state \<Rightarrow> bb_migration option \<Rightarrow> bool \<Rightarrow> bb_migrate_plan \<Rightarrow> bb_migrate_plan" where
  "add_entry version name state migration late plan =
     \<lparr>mp_entries = mp_entries plan @
        [\<lparr>me_version = version, me_name = take (BB_MIGRATE_NAME_MAX - 1) name, me_state = state, me_late = late,
          me_migration = migration\<rparr>],
      mp_pending_count = mp_pending_count plan + of_bool (state = STATE_PENDING),
      mp_problem_count = mp_problem_count plan + of_bool (bb_migrate_state_is_problem state)\<rparr>"

fun ascending :: "int list \<Rightarrow> bool" where
  "ascending (a # b # vs) \<longleftrightarrow> a < b \<and> ascending (b # vs)"
| "ascending _ \<longleftrightarrow> True"

text \<open>The merge of the two lists, with the latest version applied and whether late ones are allowed.\<close>

fun merge_plan ::
  "bool \<Rightarrow> int \<Rightarrow> bb_migration list \<Rightarrow> bb_migrate_applied list \<Rightarrow> bb_migrate_plan \<Rightarrow> bb_migrate_plan" where
  "merge_plan allow_late latest [] [] plan = plan"
| "merge_plan allow_late latest (s # ss) [] plan =
     (let late = mg_version s < latest
      in merge_plan allow_late latest ss []
           (add_entry (mg_version s) (mg_name s) (if late \<and> \<not> allow_late then STATE_OUT_OF_ORDER else STATE_PENDING)
              (Some s) late plan))"
| "merge_plan allow_late latest [] (a # as) plan =
     merge_plan allow_late latest [] as (add_entry (ap_version a) (ap_name a) STATE_MISSING None False plan)"
| "merge_plan allow_late latest (s # ss) (a # as) plan =
     (if mg_version s < ap_version a
      then let late = mg_version s < latest
           in merge_plan allow_late latest ss (a # as)
                (add_entry (mg_version s) (mg_name s) (if late \<and> \<not> allow_late then STATE_OUT_OF_ORDER else STATE_PENDING)
                   (Some s) late plan)
      else if ap_version a < mg_version s
      then merge_plan allow_late latest (s # ss) as
             (add_entry (ap_version a) (ap_name a) STATE_MISSING None False plan)
      else merge_plan allow_late latest ss as
             (add_entry (mg_version s) (mg_name s)
                (if mg_checksum s = ap_checksum a then STATE_APPLIED else STATE_MODIFIED) (Some s) False plan))"

definition bb_migrate_plan_build ::
  "bool \<Rightarrow> bb_migration list \<Rightarrow> bb_migrate_applied list \<Rightarrow> bool option \<Rightarrow> migrate_error + bb_migrate_plan" where
  "bb_migrate_plan_build ok source applied opts =
     (if \<not> ascending (map mg_version source) then Inl MIG_SOURCE_NOT_SORTED
      else if \<not> ascending (map ap_version applied) then Inl MIG_LEDGER_NOT_SORTED
      else if source = [] \<and> applied = [] then Inr empty_plan
      else if \<not> ok then Inl MIG_OUT_OF_MEMORY
      else Inr (merge_plan (opts = Some True) (if applied \<noteq> [] then ap_version (last applied) else - 1)
                  source applied empty_plan))"

definition bb_migrate_plan_first_problem :: "bb_migrate_plan option \<Rightarrow> bb_migrate_entry option" where
  "bb_migrate_plan_first_problem plan =
     (case plan of
        None \<Rightarrow> None
      | Some p \<Rightarrow> find (\<lambda>e. bb_migrate_state_is_problem (me_state e)) (mp_entries p))"

section \<open>Drivers and the runner\<close>

record 'd bb_migrate_driver_api =
  dr_ensure_ledger :: "'d \<Rightarrow> bool \<times> 'd"
  dr_load_applied :: "'d \<Rightarrow> bb_migrate_applied list option"
  dr_begin :: "'d \<Rightarrow> bool \<times> 'd"
  dr_record :: "bb_migration \<Rightarrow> 'd \<Rightarrow> bool \<times> 'd"
  dr_exec :: "string \<Rightarrow> 'd \<Rightarrow> bool \<times> 'd"
  dr_commit :: "'d \<Rightarrow> bool \<times> 'd"
  dr_rollback :: "'d \<Rightarrow> 'd"

definition bb_migrate_plan_for ::
  "'d bb_migrate_driver_api \<Rightarrow> bool \<Rightarrow> bb_migration list \<Rightarrow> bool option \<Rightarrow> 'd \<Rightarrow> migrate_error + bb_migrate_plan" where
  "bb_migrate_plan_for api ok source opts d =
     (case dr_load_applied api d of
        None \<Rightarrow> Inl MIG_READING_LEDGER
      | Some applied \<Rightarrow> bb_migrate_plan_build ok source applied opts)"

definition describe_problem :: "bb_migrate_plan \<Rightarrow> migrate_error" where
  "describe_problem plan =
     (case bb_migrate_plan_first_problem (Some plan) of
        None \<Rightarrow> MIG_INVALID_ARGUMENTS
      | Some e \<Rightarrow> MIG_PROBLEM (me_version e) (mp_problem_count plan - 1))"

definition apply_one :: "'d bb_migrate_driver_api \<Rightarrow> bb_migration \<Rightarrow> 'd \<Rightarrow> migrate_error option \<times> 'd" where
  "apply_one api m d =
     (let (ok, d) = dr_begin api d
      in if \<not> ok then (Some (MIG_CANNOT_BEGIN (mg_version m)), d)
         else let (ok, d) = dr_record api m d;
                  (ok, d) = (if ok then dr_exec api (mg_sql m) d else (False, d))
              in if \<not> ok then (Some (MIG_FAILED (mg_version m)), dr_rollback api d)
                 else let (ok, d) = dr_commit api d
                      in if \<not> ok then (Some (MIG_COMMIT_FAILED (mg_version m)), dr_rollback api d) else (None, d))"

text \<open>The pending entries in turn, up to the first failure, with the number applied.\<close>

fun apply_entries ::
  "'d bb_migrate_driver_api \<Rightarrow> bb_migrate_entry list \<Rightarrow> nat \<Rightarrow> 'd \<Rightarrow> migrate_error option \<times> nat \<times> 'd" where
  "apply_entries api [] n d = (None, n, d)"
| "apply_entries api (e # es) n d =
     (case (me_state e = STATE_PENDING, me_migration e) of
        (True, Some m) \<Rightarrow>
          (case apply_one api m d of
             (Some err, d) \<Rightarrow> (Some err, n, d)
           | (None, d) \<Rightarrow> apply_entries api es (n + 1) d)
      | _ \<Rightarrow> apply_entries api es n d)"

text \<open>\<open>bb_migrate_up\<close>: the error, if there is one, the number of migrations applied and the driver's state.\<close>

definition bb_migrate_up ::
  "'d bb_migrate_driver_api \<Rightarrow> bool \<Rightarrow> bb_migration list \<Rightarrow> bool option \<Rightarrow> 'd \<Rightarrow>
   migrate_error option \<times> nat \<times> 'd" where
  "bb_migrate_up api ok source opts d =
     (let (ready, d) = dr_ensure_ledger api d
      in if \<not> ready then (Some MIG_LEDGER, 0, d)
         else case bb_migrate_plan_for api ok source opts d of
                Inl e \<Rightarrow> (Some e, 0, d)
              | Inr plan \<Rightarrow>
                  if mp_problem_count plan > 0 then (Some (describe_problem plan), 0, d)
                  else apply_entries api (mp_entries plan) 0 d)"

end
