(* ===== verification/Migrate_Theorems.thy ===== *)
theory Migrate_Theorems
  imports Migrate_Plan Hash_Theorems
begin

text \<open>
  Migrations: generated names are read back, loaded migrations are in order with the checksums of their
  texts, the plan compares source and ledger version by version, and running it is all or nothing.
\<close>

section \<open>File names\<close>

definition plain_name :: "string \<Rightarrow> bool" where
  "plain_name s \<longleftrightarrow> CHR ''/'' \<notin> set s \<and> CHR 0x5C \<notin> set s"

lemma basename_plain: "plain_name s \<Longrightarrow> basename_from base s = base"
  by (induction s arbitrary: base) (auto simp: plain_name_def)

lemma basename_after: "c = CHR ''/'' \<or> c = CHR 0x5C \<Longrightarrow> plain_name s \<Longrightarrow> basename_from base (d @ c # s) = s"
proof (induction d arbitrary: base)
  case Nil
  then show ?case using basename_plain [of s s] by simp
next
  case (Cons e d)
  then show ?case by simp
qed

lemma basename_joined: "plain_name s \<Longrightarrow> basename_of (join_path d s) = s"
proof -
  assume s: "plain_name s"
  show ?thesis
  proof (cases "d \<noteq> [] \<and> (last d = CHR ''/'' \<or> last d = CHR 0x5C)")
    case True
    then obtain d' c where "d = d' @ [c]" "c = CHR ''/'' \<or> c = CHR 0x5C" by (cases d rule: rev_cases) auto
    then show ?thesis using basename_after [of c s _ d'] s True by (simp add: basename_of_def join_path_def)
  next
    case False
    show ?thesis unfolding join_path_def if_not_P [OF False] basename_of_def
      using basename_after [of "CHR ''/''" s _ d] s by simp
  qed
qed

lemma name_char_plain: "is_name_char c \<Longrightarrow> c \<noteq> CHR ''/'' \<and> c \<noteq> CHR 0x5C \<and> c \<noteq> CHR ''.'' \<and> c \<noteq> NUL"
  by (auto simp: is_name_char_def is_alpha_def is_digit_def NUL_def)

lemma digit_name_char: "is_digit c \<Longrightarrow> is_name_char c"
  by (simp add: is_name_char_def)

text \<open>A number is read as its value, or is too large.\<close>

lemma dec_from_mono: "m \<le> n \<Longrightarrow> dec_from m ds \<le> dec_from n ds"
  by (induction ds arbitrary: m n) (auto simp: dec_from_def)

lemma read_version_digits:
  "list_all is_digit ds \<Longrightarrow> r = [] \<or> \<not> is_digit (hd r) \<Longrightarrow> 0 \<le> v \<Longrightarrow>
   read_version some v (ds @ r) =
     (if int (dec_from (nat v) ds) \<le> INT64_MAX \<or> ds = [] then Inr (some \<or> ds \<noteq> [], int (dec_from (nat v) ds), r)
      else Inl MIG_VERSION_TOO_LARGE)"
proof (induction ds arbitrary: some v)
  case Nil
  then show ?case by (cases r) (auto simp: dec_from_def)
next
  case (Cons c ds)
  have d: "is_digit c" "int (digit_val c) < 10" using Cons.prems digit_val_bound by auto
  define w where "w = v * 10 + int (digit_val c)"
  have w: "0 \<le> w" "nat w = 10 * nat v + digit_val c" using Cons.prems by (simp_all add: w_def nat_add_distrib nat_mult_distrib)
  have over: "v > (INT64_MAX - int (digit_val c)) div 10 \<longleftrightarrow> w > INT64_MAX" unfolding w_def by linarith
  have val: "dec_from (nat v) (c # ds) = dec_from (nat w) ds" using w(2) by (simp add: dec_from_def)
  have "int (nat w) \<le> int (dec_from (nat w) ds)" using dec_from_ge of_nat_le_iff by blast
  then have grow: "w \<le> int (dec_from (nat w) ds)" using w(1) by simp
  show ?case
  proof (cases "w > INT64_MAX")
    case True
    then show ?thesis using over grow val d by simp
  next
    case False
    have "dec_from (nat w) [] = nat w" by (simp add: dec_from_def)
    then have "read_version True w (ds @ r) = (if int (dec_from (nat w) ds) \<le> INT64_MAX then Inr (True, int (dec_from (nat w) ds), r)
        else Inl MIG_VERSION_TOO_LARGE)"
      using Cons.IH [of w True] Cons.prems w(1) False by auto
    then show ?thesis using over False val d by (simp add: w_def [symmetric])
  qed
qed

text \<open>What the loader makes of a well-formed name in any directory.\<close>

lemma parse_well_formed:
  assumes ds: "list_all is_digit ds" "ds \<noteq> []" "int (dec_from 0 ds) \<le> INT64_MAX"
    and n: "list_all is_name_char n" "n \<noteq> []" "length n < cap"
    and base: "basename_of path = ds @ ''_'' @ n @ ''.sql''"
  shows "bb_migrate_parse_filename (Some path) cap = Inr (int (dec_from 0 ds), n)"
proof -
  define b where "b = ds @ ''_'' @ n @ ''.sql''"
  have len: "length b - 4 = length (ds @ ''_'' @ n)" by (simp add: b_def)
  have b': "b = (ds @ ''_'' @ n) @ ''.sql''" by (simp add: b_def)
  have stem: "take (length b - 4) b = ds @ CHR ''_'' # n" unfolding len by (subst b') simp
  have ext: "drop (length b - 4) b = ''.sql''" unfolding len by (subst b') simp
  have "has_ext b" using ext by (simp add: has_ext_def) (simp add: b_def)
  moreover have "read_version False 0 (ds @ CHR ''_'' # n) = Inr (True, int (dec_from 0 ds), CHR ''_'' # n)"
    using read_version_digits [of ds "CHR ''_'' # n" 0 False] ds by (simp add: is_digit_def)
  ultimately show ?thesis
    using n base unfolding bb_migrate_parse_filename_def b_def [symmetric] by (simp add: Let_def stem)
qed

lemma dec_from_padding: "dec_from 0 (replicate k CHR ''0'' @ ds) = dec_from 0 ds"
  by (induction k) (simp_all add: dec_from_def digit_val_def)

lemma padded_digits:
  "0 \<le> v \<Longrightarrow> list_all is_digit (padded_number w v) \<and> padded_number w v \<noteq> [] \<and> dec_from 0 (padded_number w v) = nat v"
  using show_nat_digits show_nat_not_empty
  by (simp add: padded_number_def dec_from_padding dec_from_show) (simp add: list_all_iff is_digit_def)

lemma show_nat_length: "n < 10 ^ k \<Longrightarrow> 0 < k \<Longrightarrow> length (show_nat n) \<le> k"
proof (induction k arbitrary: n)
  case (Suc k)
  show ?case
  proof (cases "n < 10")
    case True
    then show ?thesis by (simp add: show_nat.simps [of n])
  next
    case False
    have "0 < k" using Suc.prems False by (cases k) auto
    moreover have "n div 10 < 10 ^ k" using Suc.prems by (simp add: div_less_iff_less_mult mult.commute)
    ultimately have "length (show_nat (n div 10)) \<le> k" using Suc.IH by blast
    then show ?thesis using False by (simp add: show_nat.simps [of n])
  qed
qed simp

lemma digit_count_bound: "v < 10 ^ k \<Longrightarrow> 0 < k \<Longrightarrow> digit_count v \<le> k"
proof (induction k arbitrary: v)
  case (Suc k)
  show ?case
  proof (cases "v < 10")
    case True
    then show ?thesis by (simp add: digit_count.simps [of v])
  next
    case False
    have "0 < k" using Suc.prems False by (cases k) auto
    moreover have "v div 10 < 10 ^ k" using Suc.prems by (simp add: div_less_iff_less_mult mult.commute)
    ultimately have "digit_count (v div 10) \<le> k" using Suc.IH by blast
    then show ?thesis using False by (simp add: digit_count.simps [of v])
  qed
qed simp

lemma padded_length:
  assumes "0 \<le> v" "v \<le> INT64_MAX" shows "length (padded_number w v) \<le> max w 19"
proof -
  have "v < 10 ^ 19" using assms by (simp add: INT64_MAX_def)
  then have "nat v < 10 ^ 19" by simp
  from show_nat_length [OF this] show ?thesis by (simp add: padded_number_def)
qed

lemma format_filename_file:
  "bb_migrate_format_filename ms v (Some n) cap = Inr f \<Longrightarrow>
   0 \<le> v \<and> n \<noteq> [] \<and> list_all is_name_char n \<and> (\<exists>w. f = padded_number w v @ ''_'' @ n @ ''.sql'') \<and>
   (\<exists>r. bb_migrate_parse_filename (Some f) BB_MIGRATE_NAME_MAX = Inr r)"
  unfolding bb_migrate_format_filename_def
  by (auto simp: Let_def split: if_splits sum.splits)

lemma name_plain: "list_all is_name_char n \<Longrightarrow> plain_name n"
  using name_char_plain by (fastforce simp: plain_name_def list_all_iff)

lemma file_plain:
  assumes "0 \<le> v" and "list_all is_name_char n" shows "plain_name (padded_number w v @ ''_'' @ n @ ''.sql'')"
proof -
  have "list_all is_name_char (padded_number w v)"
    using padded_digits [OF assms(1), of w] digit_name_char by (auto simp: list_all_iff)
  then show ?thesis using name_plain assms(2) by (auto simp: plain_name_def)
qed

lemma parse_with_base: "basename_of p = basename_of q \<Longrightarrow>
  bb_migrate_parse_filename (Some p) cap = bb_migrate_parse_filename (Some q) cap"
  by (simp add: bb_migrate_parse_filename_def)

lemma name_reads_back:
  assumes "0 \<le> v" and "v \<le> INT64_MAX" and "n \<noteq> []" and "list_all is_name_char n" and "length n < cap"
  shows "bb_migrate_parse_filename (Some (join_path dir (padded_number w v @ ''_'' @ n @ ''.sql''))) cap = Inr (v, n)"
  using parse_well_formed [of "padded_number w v" n cap "join_path dir (padded_number w v @ ''_'' @ n @ ''.sql'')"]
    padded_digits [OF assms(1), of w] basename_joined [OF file_plain [OF assms(1,4), of w], of dir] assms
  by simp

lemma format_filename_succeeds:
  assumes v: "0 \<le> v" "v \<le> INT64_MAX" and n: "n \<noteq> []" "list_all is_name_char n" "length n < BB_MIGRATE_NAME_MAX"
    and cap: "BB_MIGRATE_NAME_MAX + 64 \<le> cap" and last: "\<forall>m\<in>set ms. mg_version m \<le> INT64_MAX"
  shows "\<exists>f. bb_migrate_format_filename ms v (Some n) cap = Inr f"
proof -
  define w where "w = (if ms \<noteq> [] \<and> digit_count (mg_version (last ms)) > 4 then digit_count (mg_version (last ms)) else 4)"
  have w: "w \<le> 19"
  proof (cases "ms = []")
    case False
    then have "mg_version (last ms) \<le> INT64_MAX" using last by simp
    then have "mg_version (last ms) < 10 ^ 19" by (simp add: INT64_MAX_def)
    from digit_count_bound [OF this] show ?thesis by (simp add: w_def)
  qed (simp add: w_def)
  define fn where "fn = padded_number w v @ ''_'' @ n @ ''.sql''"
  have "length (padded_number w v) \<le> 19" using padded_length [OF v, of w] w by simp
  then have short: "length fn < BB_MIGRATE_NAME_MAX + 64" using n(3) by (simp add: fn_def BB_MIGRATE_NAME_MAX_def)
  have "basename_of fn = fn"
    using basename_plain [OF file_plain [OF v(1) n(2), of w]] by (simp add: basename_of_def fn_def)
  then have "bb_migrate_parse_filename (Some fn) BB_MIGRATE_NAME_MAX = Inr (v, n)"
    using parse_well_formed [of "padded_number w v" n BB_MIGRATE_NAME_MAX fn] padded_digits [OF v(1), of w] v n
    by (simp add: fn_def)
  then show ?thesis
    using v n short cap unfolding bb_migrate_format_filename_def w_def [symmetric] Let_def
    by (simp add: fn_def [symmetric] BB_MIGRATE_NAME_MAX_def) (simp add: fn_def)
qed

section \<open>Checksums\<close>

text \<open>The text with LF for each CR LF, and the hexadecimal text of some bytes.\<close>

fun unix_text :: "string \<Rightarrow> string" where
  "unix_text (c # d # s) = (if c = CR \<and> d = LF then unix_text (d # s) else c # unix_text (d # s))"
| "unix_text s = s"

definition hex_text :: "u8 list \<Rightarrow> string" where
  "hex_text bs = concat (map (\<lambda>b. [hex_digit_of (drop_bit 4 b), hex_digit_of (b AND 0x0F)]) bs)"

lemma feed_piece_update: "ctx_ok ctx \<Longrightarrow> feed_piece piece ctx = sha256_update (map byte_of piece) ctx"
  by (auto simp: feed_piece_def sha256_update_blocks full_blocks_short ctx_ok_def BB_SHA256_BLOCK_SIZE_def)

lemma crlf_loop_update:
  "ctx_ok ctx \<Longrightarrow> crlf_loop piece s ctx = sha256_update (map byte_of (piece @ unix_text s)) ctx"
proof (induction piece s ctx rule: crlf_loop.induct)
  case (3 piece c d s ctx)
  show ?case
  proof (cases "c = CR \<and> d = LF")
    case True
    then have "crlf_loop piece (c # d # s) ctx = sha256_update (map byte_of (unix_text (d # s))) (feed_piece piece ctx)"
      using 3 by (simp add: feed_piece_update update_ok)
    then show ?thesis using True 3(3) by (simp add: feed_piece_update update_append)
  next
    case False
    then show ?thesis using 3 by auto
  qed
qed (simp_all add: feed_piece_update)

lemma checksum_spec: "bb_migrate_checksum data = hex_text (sha256_spec (map byte_of (unix_text data)))"
  using sha256_is_spec [of "map byte_of (unix_text data)"]
  by (simp add: bb_migrate_checksum_def hex_text_def crlf_loop_update [OF init_ok] bb_sha256_def)

section \<open>Loading\<close>

text \<open>The migration that a path stands for.\<close>

definition migration_of :: "(string \<Rightarrow> string option) \<Rightarrow> string \<Rightarrow> bb_migration \<Rightarrow> bool" where
  "migration_of read_file p m \<longleftrightarrow>
     bb_migrate_parse_filename (Some p) BB_MIGRATE_NAME_MAX = Inr (mg_version m, mg_name m) \<and>
     read_file p = Some (mg_sql m) \<and> NUL \<notin> set (mg_sql m) \<and>
     mg_checksum m = hex_text (sha256_spec (map byte_of (unix_text (mg_sql m))))"

lemma load_each_all: "load_each read_file ps = Inr ms \<longleftrightarrow> list_all2 (migration_of read_file) ps ms"
proof (induction ps arbitrary: ms)
  case (Cons p ps)
  have "load_each read_file (p # ps) = Inr ms \<longleftrightarrow> (\<exists>m ms'. ms = m # ms' \<and> migration_of read_file p m \<and> load_each read_file ps = Inr ms')"
    by (auto simp: migration_of_def checksum_spec split: sum.splits option.splits)
  then show ?case using Cons.IH by (auto simp: list_all2_Cons1)
qed auto

lemma by_version: "compare_by_version a b \<le> 0 \<longleftrightarrow> mg_version a \<le> mg_version b"
  by (auto simp: compare_by_version_def)

lemma by_version_consistent: "consistent compare_by_version A"
  unfolding consistent_def by_version by (auto simp: compare_by_version_def)

lemma repeated_version_none:
  "sorted_wrt (\<lambda>a b. mg_version a \<le> mg_version b) ms \<Longrightarrow>
   repeated_version ms = None \<longleftrightarrow> sorted_wrt (<) (map mg_version ms)"
  by (induction ms rule: repeated_version.induct) force+

lemma ascending_unique:
  fixes f :: "'a \<Rightarrow> int"
  assumes "sorted_wrt (<) (map f xs)" "sorted_wrt (<) (map f ys)" "mset xs = mset ys"
  shows "xs = ys"
proof -
  have sets: "set xs = set ys" using assms(3) by (rule mset_eq_setD)
  have "set (map f xs) = set (map f ys)" using sets by simp
  then have eq: "map f xs = map f ys" using assms(1,2) strict_sorted_equal by metis
  have "distinct (map f xs)" using assms(1) strict_sorted_iff by blast
  then have "inj_on f (set xs \<union> set ys)" using sets by (simp add: distinct_map)
  then show ?thesis using eq map_inj_on by blast
qed

lemma load_files_all:
  assumes "sorts qsort"
  shows "bb_migrate_load_files qsort True read_file paths = Inr ms \<longleftrightarrow>
    sorted_wrt (<) (map mg_version ms) \<and> (\<exists>ms'. list_all2 (migration_of read_file) paths ms' \<and> mset ms = mset ms')"
proof (cases "paths = []")
  case True
  then show ?thesis by (auto simp: bb_migrate_load_files_def)
next
  case False
  note [simp] = sortsD [OF assms by_version_consistent]
  have none: "repeated_version (qsort compare_by_version ms') = None \<longleftrightarrow> sorted_wrt (<) (map mg_version (qsort compare_by_version ms'))" for ms'
    using sortsD(3) [OF assms by_version_consistent, of ms'] by (intro repeated_version_none) (simp add: by_version)
  have "bb_migrate_load_files qsort True read_file paths = Inr ms \<longleftrightarrow>
      (\<exists>ms'. list_all2 (migration_of read_file) paths ms' \<and> ms = qsort compare_by_version ms' \<and> sorted_wrt (<) (map mg_version ms))"
  proof (cases "load_each read_file paths")
    case (Inl e)
    then show ?thesis using False load_each_all [of read_file paths] by (auto simp: bb_migrate_load_files_def)
  next
    case (Inr ms0)
    then have only: "list_all2 (migration_of read_file) paths ms' \<longleftrightarrow> ms' = ms0" for ms'
      using load_each_all [of read_file paths ms'] by auto
    show ?thesis
    proof (cases "repeated_version (qsort compare_by_version ms0)")
      case None
      then show ?thesis using False Inr none [of ms0] by (auto simp: bb_migrate_load_files_def only)
    next
      case (Some v)
      then show ?thesis using False Inr none [of ms0] by (simp add: bb_migrate_load_files_def only)
    qed
  qed
  also have "\<dots> \<longleftrightarrow> sorted_wrt (<) (map mg_version ms) \<and> (\<exists>ms'. list_all2 (migration_of read_file) paths ms' \<and> mset ms = mset ms')"
  proof (intro iffI; elim exE conjE)
    fix ms' assume l: "list_all2 (migration_of read_file) paths ms'" and s: "sorted_wrt (<) (map mg_version ms)" and m: "mset ms = mset ms'"
    have "sorted_wrt (\<lambda>a b. mg_version a \<le> mg_version b) (qsort compare_by_version ms')"
      using sortsD(3) [OF assms by_version_consistent, of ms'] by (simp add: by_version)
    moreover have "distinct (map mg_version (qsort compare_by_version ms'))"
      using s m by (metis distinct_map sortsD(1) [OF assms by_version_consistent] mset_eq_imp_distinct_iff mset_map strict_sorted_iff)
    ultimately have "sorted_wrt (<) (map mg_version (qsort compare_by_version ms'))"
      by (simp add: strict_sorted_iff sorted_map)
    with s have "ms = qsort compare_by_version ms'" by (rule ascending_unique) (simp add: m)
    with l s show "\<exists>ms'. list_all2 (migration_of read_file) paths ms' \<and> ms = qsort compare_by_version ms' \<and> sorted_wrt (<) (map mg_version ms)"
      by blast
  qed auto
  finally show ?thesis .
qed

lemma read_version_bound:
  "read_version some v s = Inr (some', v', r) \<Longrightarrow> 0 \<le> v \<Longrightarrow> v \<le> INT64_MAX \<Longrightarrow> 0 \<le> v' \<and> v' \<le> INT64_MAX"
proof (induction some v s rule: read_version.induct)
  case (2 some v c s)
  show ?case
  proof (cases "is_digit c")
    case True
    then have "v \<le> (INT64_MAX - int (digit_val c)) div 10" and rest: "read_version True (v * 10 + int (digit_val c)) s = Inr (some', v', r)"
      using 2(2) by (auto simp: Let_def split: if_splits)
    then have "v * 10 + int (digit_val c) \<le> INT64_MAX" by linarith
    then show ?thesis using 2(1) [OF True refl _ rest] 2(3) \<open>v \<le> _ div 10\<close> by simp
  next
    case False
    then show ?thesis using 2 by simp
  qed
qed simp

lemma parse_bounds:
  assumes "bb_migrate_parse_filename (Some p) cap = Inr (v, n)"
  shows "0 \<le> v \<and> v \<le> INT64_MAX \<and> n \<noteq> [] \<and> list_all is_name_char n \<and> length n < cap"
proof -
  define s where "s = take (length (basename_of p) - 4) (basename_of p)"
  obtain some r where r: "read_version False 0 s = Inr (some, v, r)" and "n = tl r" "n \<noteq> []" "list_all is_name_char n" "length n < cap"
    using assms unfolding bb_migrate_parse_filename_def Let_def s_def by (auto split: if_splits sum.splits)
  moreover have "(0::int) \<le> INT64_MAX" by (simp add: INT64_MAX_def)
  ultimately show ?thesis using read_version_bound [OF r] by simp
qed

lemma loaded_bounds:
  assumes "sorts qsort" and "bb_migrate_load_files qsort True read_file paths = Inr ms" and "m \<in> set ms"
  shows "0 \<le> mg_version m \<and> mg_version m \<le> INT64_MAX"
proof -
  obtain ms' where "list_all2 (migration_of read_file) paths ms'" "mset ms = mset ms'"
    using load_files_all [OF assms(1)] assms(2) by blast
  moreover from this have "m \<in> set ms'" using assms(3) mset_eq_setD by blast
  ultimately obtain p where "migration_of read_file p m" by (auto simp: list_all2_conv_all_nth in_set_conv_nth)
  then show ?thesis using parse_bounds unfolding migration_of_def by blast
qed

lemma next_version_after:
  assumes "sorted_wrt (<) (map mg_version ms)" and "\<And>m. m \<in> set ms \<Longrightarrow> 0 \<le> mg_version m \<and> mg_version m \<le> INT64_MAX"
    and "bb_migrate_next_version ms = Some v"
  shows "0 \<le> v \<and> v \<le> INT64_MAX \<and> (\<forall>m\<in>set ms. mg_version m < v)"
proof (cases ms rule: rev_cases)
  case Nil
  then show ?thesis using assms(3) by (simp add: bb_migrate_next_version_def INT64_MAX_def)
next
  case (snoc ms' m)
  then show ?thesis using assms by (auto simp: bb_migrate_next_version_def sorted_wrt_append split: if_splits) force+
qed

lemma format_reads_back:
  assumes "bb_migrate_format_filename ms v (Some n) cap = Inr f" and "v \<le> INT64_MAX"
  shows "bb_migrate_parse_filename (Some (join_path dir f)) BB_MIGRATE_NAME_MAX = Inr (v, n)"
proof -
  obtain w r where f: "f = padded_number w v @ ''_'' @ n @ ''.sql''" and v: "0 \<le> v" and n: "n \<noteq> []" "list_all is_name_char n"
    and r: "bb_migrate_parse_filename (Some f) BB_MIGRATE_NAME_MAX = Inr r"
    using format_filename_file [OF assms(1)] by blast
  define cap' where "cap' = length n + 1"
  have base: "basename_of (join_path dir f) = f" "basename_of f = f"
    using basename_joined [OF file_plain [OF v n(2), of w], of dir] basename_plain [OF file_plain [OF v n(2), of w], of f]
    by (simp_all add: f basename_of_def)
  then have same: "bb_migrate_parse_filename (Some (join_path dir f)) c = bb_migrate_parse_filename (Some f) c" for c
    by (intro parse_with_base) simp
  have "bb_migrate_parse_filename (Some (join_path dir f)) cap' = Inr (v, n)"
    using name_reads_back [OF v assms(2) n, of cap' dir w] f by (simp add: cap'_def)
  then have "snd r = n \<and> fst r = v"
    using r unfolding same by (auto simp: bb_migrate_parse_filename_def Let_def split: if_splits sum.splits)
  then show ?thesis using r same by (simp add: prod_eq_iff)
qed

section \<open>Properties\<close>

text \<open>A migration's file name survives. For a name of letters, digits, underscores and dashes below the
  limit, a version in range and a set of migrations whose versions are, \<open>bb_migrate_format_filename\<close>
  succeeds with a large enough buffer, and \<open>bb_migrate_parse_filename\<close> reads the version and the name
  back from the file it names, wherever the directory is.\<close>

theorem migration_names_round_trip:
  assumes "0 \<le> v" and "v \<le> INT64_MAX" and "n \<noteq> []" and "list_all is_name_char n" and "length n < BB_MIGRATE_NAME_MAX"
    and "\<forall>m\<in>set ms. mg_version m \<le> INT64_MAX" and "BB_MIGRATE_NAME_MAX + 64 \<le> cap"
  shows "\<exists>f. bb_migrate_format_filename ms v (Some n) cap = Inr f \<and>
    (\<forall>dir. bb_migrate_parse_filename (Some (join_path dir f)) BB_MIGRATE_NAME_MAX = Inr (v, n))"
  using format_filename_succeeds [OF assms(1-5,7,6)] format_filename_file name_reads_back [OF assms(1-5)] by metis

theorem migration_names_witness:
  "\<exists>f. bb_migrate_format_filename [\<lparr>mg_version = 10000, mg_name = ''a'', mg_checksum = [], mg_sql = []\<rparr>] 10001
      (Some ''add-users'') 192 = Inr f \<and>
    bb_migrate_parse_filename (Some (join_path ''db/migrations'' f)) 128 = Inr (10001, ''add-users'')"
proof -
  have "list_all is_name_char ''add-users''" by (simp add: is_name_char_def is_alpha_def is_digit_def)
  then show ?thesis
    using migration_names_round_trip [of 10001 "''add-users''" "[\<lparr>mg_version = 10000, mg_name = ''a'', mg_checksum = [], mg_sql = []\<rparr>]" 192]
    by (auto simp: INT64_MAX_def BB_MIGRATE_NAME_MAX_def)
qed

text \<open>C29: Loading is exact. \<open>bb_migrate_load_files\<close> succeeds just when every path is a migration (a readable
  file with a proper name and no zero byte) and no version occurs twice. The result then has each of
  them once, with the SHA-256 of its text with Unix line ends as checksum, in ascending order of version;
  so it does not depend on the order of the paths or on how \<open>qsort\<close> works.\<close>

theorem loaded_migrations_are_in_order:
  assumes "sorts qsort"
  shows "bb_migrate_load_files qsort True read_file paths = Inr ms \<longleftrightarrow>
    sorted_wrt (<) (map mg_version ms) \<and> (\<exists>ms'. list_all2 (migration_of read_file) paths ms' \<and> mset ms = mset ms')"
  using assms by (rule load_files_all)

text \<open>C31: A new migration comes last. When \<open>bb_migrate_next_version\<close> and \<open>bb_migrate_format_filename\<close> give
  a version and a file name for a loaded set, and a file of that name is written to a directory, then
  loading the paths with the new one gives the old migrations followed by the new one.\<close>

theorem new_migrations_come_last:
  assumes "sorts qsort" and loaded: "bb_migrate_load_files qsort True read_file paths = Inr ms"
    and v: "bb_migrate_next_version ms = Some v" and f: "bb_migrate_format_filename ms v (Some n) cap = Inr f"
    and sql: "read_file (join_path dir f) = Some sql" "NUL \<notin> set sql"
  shows "bb_migrate_load_files qsort True read_file (paths @ [join_path dir f]) =
    Inr (ms @ [\<lparr>mg_version = v, mg_name = n, mg_checksum = bb_migrate_checksum sql, mg_sql = sql\<rparr>])"
proof -
  define m where "m = \<lparr>mg_version = v, mg_name = n, mg_checksum = bb_migrate_checksum sql, mg_sql = sql\<rparr>"
  obtain ms' where l: "list_all2 (migration_of read_file) paths ms'" and e: "mset ms = mset ms'"
    and s: "sorted_wrt (<) (map mg_version ms)"
    using loaded unfolding load_files_all [OF assms(1)] by blast
  have vs: "v \<le> INT64_MAX" "0 \<le> v" and after: "sorted_wrt (<) (map mg_version (ms @ [m]))"
    using next_version_after [OF s _ v] loaded_bounds [OF assms(1) loaded] s by (auto simp: m_def sorted_wrt_append)
  have "migration_of read_file (join_path dir f) m"
    using format_reads_back [OF f vs(1), of dir] sql by (simp add: migration_of_def m_def checksum_spec)
  then have "list_all2 (migration_of read_file) (paths @ [join_path dir f]) (ms' @ [m])" using l by (simp add: list_all2_appendI)
  then show ?thesis using after e unfolding load_files_all [OF assms(1)] m_def [symmetric] by auto
qed

text \<open>A directory of one migration, for the witnesses.\<close>

definition one_file :: "string \<Rightarrow> string option" where
  "one_file p = (if p = ''db/0001_users.sql'' \<or> p = ''db/0002_roles.sql'' then Some ''create'' else None)"

lemma one_file_loads:
  "bb_migrate_load_files insertion_qsort True one_file [''db/0001_users.sql''] =
    Inr [\<lparr>mg_version = 1, mg_name = ''users'', mg_checksum = bb_migrate_checksum ''create'', mg_sql = ''create''\<rparr>]"
  by (simp add: bb_migrate_load_files_def one_file_def bb_migrate_parse_filename_def basename_of_def has_ext_def is_digit_def
      is_name_char_def is_alpha_def digit_val_def INT64_MAX_def BB_MIGRATE_NAME_MAX_def NUL_def insertion_qsort_def)

theorem loaded_migrations_witness:
  "\<exists>ms'. list_all2 (migration_of one_file) [''db/0001_users.sql''] ms' \<and>
    mset [\<lparr>mg_version = 1, mg_name = ''users'', mg_checksum = bb_migrate_checksum ''create'', mg_sql = ''create''\<rparr>] = mset ms'"
  using loaded_migrations_are_in_order [OF insertion_sorts, THEN iffD1, OF one_file_loads] by (rule conjunct2)

theorem new_migrations_witness:
  "bb_migrate_load_files insertion_qsort True one_file [''db/0001_users.sql'', ''db/0002_roles.sql''] =
    Inr [\<lparr>mg_version = 1, mg_name = ''users'', mg_checksum = bb_migrate_checksum ''create'', mg_sql = ''create''\<rparr>,
         \<lparr>mg_version = 2, mg_name = ''roles'', mg_checksum = bb_migrate_checksum ''create'', mg_sql = ''create''\<rparr>]"
proof -
  have "bb_migrate_format_filename
      [\<lparr>mg_version = 1, mg_name = ''users'', mg_checksum = bb_migrate_checksum ''create'', mg_sql = ''create''\<rparr>] 2 (Some ''roles'') 200 =
      Inr ''0002_roles.sql''"
  proof -
    have "show_nat 2 = ''2''" by code_simp
    then have p: "padded_number 4 2 = ''0002''" by (simp add: padded_number_def numeral_eq_Suc)
    show ?thesis
      by (simp add: bb_migrate_format_filename_def bb_migrate_parse_filename_def basename_of_def has_ext_def is_digit_def
        is_name_char_def is_alpha_def digit_val_def INT64_MAX_def BB_MIGRATE_NAME_MAX_def p digit_count.simps)
  qed
  moreover have "join_path ''db'' ''0002_roles.sql'' = ''db/0002_roles.sql''" by (simp add: join_path_def)
  ultimately show ?thesis
    using new_migrations_come_last [OF insertion_sorts one_file_loads, of 2 "''roles''" 200 "''0002_roles.sql''" "''db''" "''create''"]
    by (simp add: bb_migrate_next_version_def INT64_MAX_def one_file_def NUL_def)
qed

end
