(* ===== verification/Migrate_Runs.thy ===== *)
theory Migrate_Runs
  imports Migrate_Theorems
begin

text \<open>
  The plan is the comparison of source and ledger, version by version; running it on a driver that keeps its
  promises is all or nothing for each migration and stops at the first failure.
\<close>

section \<open>The plan, version by version\<close>

definition latest_applied :: "bb_migrate_applied list \<Rightarrow> int" where
  "latest_applied applied = (if applied = [] then - 1 else ap_version (last applied))"

definition entry_for :: "bool \<Rightarrow> int \<Rightarrow> bb_migration list \<Rightarrow> bb_migrate_applied list \<Rightarrow> int \<Rightarrow> bb_migrate_entry" where
  "entry_for allow_late latest source applied v =
     (case (find (\<lambda>s. mg_version s = v) source, find (\<lambda>a. ap_version a = v) applied) of
        (Some s, Some a) \<Rightarrow>
          \<lparr>me_version = v, me_name = take 127 (mg_name s),
           me_state = (if mg_checksum s = ap_checksum a then STATE_APPLIED else STATE_MODIFIED), me_late = False, me_migration = Some s\<rparr>
      | (Some s, None) \<Rightarrow>
          \<lparr>me_version = v, me_name = take 127 (mg_name s),
           me_state = (if v < latest \<and> \<not> allow_late then STATE_OUT_OF_ORDER else STATE_PENDING), me_late = v < latest,
           me_migration = Some s\<rparr>
      | (None, a) \<Rightarrow>
          \<lparr>me_version = v, me_name = take 127 (case a of None \<Rightarrow> [] | Some a \<Rightarrow> ap_name a), me_state = STATE_MISSING, me_late = False,
           me_migration = None\<rparr>)"

definition versions_of :: "bb_migration list \<Rightarrow> bb_migrate_applied list \<Rightarrow> int list" where
  "versions_of source applied = sorted_list_of_set (mg_version ` set source \<union> ap_version ` set applied)"

definition plan_of_entries :: "bb_migrate_entry list \<Rightarrow> bb_migrate_plan" where
  "plan_of_entries es =
     \<lparr>mp_entries = es, mp_pending_count = length (filter (\<lambda>e. me_state e = STATE_PENDING) es),
      mp_problem_count = length (filter (\<lambda>e. bb_migrate_state_is_problem (me_state e)) es)\<rparr>"

lemma add_entry_plan:
  "add_entry v n st m late (plan_of_entries es) =
   plan_of_entries (es @ [\<lparr>me_version = v, me_name = take 127 n, me_state = st, me_late = late, me_migration = m\<rparr>])"
  by (simp add: add_entry_def plan_of_entries_def BB_MIGRATE_NAME_MAX_def)

lemma empty_plan_entries: "empty_plan = plan_of_entries []"
  by (simp add: empty_plan_def plan_of_entries_def)

lemma ascending_sorted: "ascending vs \<longleftrightarrow> sorted_wrt (<) vs"
  by (induction vs rule: ascending.induct) force+

lemma least_first:
  fixes v :: int
  assumes "finite A" and "\<forall>a\<in>A. v < a" shows "sorted_list_of_set (insert v A) = v # sorted_list_of_set A"
proof -
  have "v \<notin> A" using assms(2) by auto
  then have "sorted_list_of_set (insert v A) = insort v (sorted_list_of_set A)" using assms(1) by simp
  also have "\<dots> = v # sorted_list_of_set A" using assms by (intro insort_is_Cons) auto
  finally show ?thesis .
qed

lemma versions_first:
  assumes "\<forall>t\<in>set ss. v < mg_version t" and "\<forall>b\<in>set as. v < ap_version b"
    and "mg_version ` set ss' \<union> ap_version ` set as' = insert v (mg_version ` set ss \<union> ap_version ` set as)"
  shows "versions_of ss' as' = v # versions_of ss as"
  unfolding versions_of_def assms(3) using assms(1,2) by (intro least_first) auto

lemma set_versions: "set (versions_of ss as) = mg_version ` set ss \<union> ap_version ` set as"
  by (simp add: versions_of_def del: set_map)

lemma entry_without:
  "mg_version s \<noteq> v \<Longrightarrow> entry_for al l (s # ss) as v = entry_for al l ss as v"
  "ap_version a \<noteq> v \<Longrightarrow> entry_for al l ss (a # as) v = entry_for al l ss as v"
  by (simp_all add: entry_for_def)

lemma find_none: "\<forall>a\<in>set xs. v < (f a :: int) \<Longrightarrow> find (\<lambda>a. f a = v) xs = None"
  by (induction xs) auto

lemma merge_plan_entries:
  "sorted_wrt (<) (map mg_version ss) \<Longrightarrow> sorted_wrt (<) (map ap_version as) \<Longrightarrow>
   merge_plan al l ss as (plan_of_entries es) = plan_of_entries (es @ map (entry_for al l ss as) (versions_of ss as))"
proof (induction al l ss as "plan_of_entries es" arbitrary: es rule: merge_plan.induct)
  case (1 al l)
  then show ?case by (simp add: versions_of_def)
next
  case (2 al l s ss)
  have vs: "versions_of (s # ss) [] = mg_version s # versions_of ss []"
    using least_first [of "mg_version ` set ss" "mg_version s"] 2(2) by (simp add: versions_of_def)
  have "\<forall>v\<in>set (versions_of ss []). mg_version s < v" using 2(2) by (auto simp: versions_of_def)
  then have rest: "map (entry_for al l (s # ss) []) (versions_of ss []) = map (entry_for al l ss []) (versions_of ss [])"
    by (auto simp: entry_without)
  have e: "entry_for al l (s # ss) [] (mg_version s) = \<lparr>me_version = mg_version s, me_name = take 127 (mg_name s),
     me_state = (if mg_version s < l \<and> \<not> al then STATE_OUT_OF_ORDER else STATE_PENDING), me_late = mg_version s < l,
     me_migration = Some s\<rparr>"
    by (simp add: entry_for_def)
  show ?case unfolding vs list.map rest e merge_plan.simps Let_def add_entry_plan using 2(1) [OF refl add_entry_plan] 2(2,3) by simp
next
  case (3 al l a as)
  have vs: "versions_of [] (a # as) = ap_version a # versions_of [] as"
    using least_first [of "ap_version ` set as" "ap_version a"] 3(3) by (simp add: versions_of_def)
  have "\<forall>v\<in>set (versions_of [] as). ap_version a < v" using 3(3) by (auto simp: versions_of_def)
  then have rest: "map (entry_for al l [] (a # as)) (versions_of [] as) = map (entry_for al l [] as) (versions_of [] as)"
    by (auto simp: entry_without)
  have e: "entry_for al l [] (a # as) (ap_version a) =
      \<lparr>me_version = ap_version a, me_name = take 127 (ap_name a), me_state = STATE_MISSING, me_late = False, me_migration = None\<rparr>"
    by (simp add: entry_for_def)
  show ?case unfolding vs list.map rest e merge_plan.simps add_entry_plan using 3(1) [OF add_entry_plan] 3(2,3) by simp
next
  case (4 al l s ss a as)
  have asc: "\<forall>t\<in>set ss. mg_version s < mg_version t" "\<forall>b\<in>set as. ap_version a < ap_version b" using 4(4,5) by auto
  consider "mg_version s < ap_version a" | "ap_version a < mg_version s" | "mg_version s = ap_version a" by linarith
  then show ?case
  proof cases
    case 1
    then have after: "\<forall>b\<in>set (a # as). mg_version s < ap_version b" using asc by force
    then have vs: "versions_of (s # ss) (a # as) = mg_version s # versions_of ss (a # as)"
      using asc(1) by (intro versions_first) auto
    have "\<forall>v\<in>set (versions_of ss (a # as)). mg_version s < v" using asc(1) after by (auto simp: set_versions)
    then have rest: "map (entry_for al l (s # ss) (a # as)) (versions_of ss (a # as)) = map (entry_for al l ss (a # as)) (versions_of ss (a # as))"
      by (intro map_cong) (auto simp: entry_without(1))
    have e: "entry_for al l (s # ss) (a # as) (mg_version s) = \<lparr>me_version = mg_version s, me_name = take 127 (mg_name s),
       me_state = (if mg_version s < l \<and> \<not> al then STATE_OUT_OF_ORDER else STATE_PENDING), me_late = mg_version s < l,
           me_migration = Some s\<rparr>"
      using find_none [OF after] by (simp add: entry_for_def)
    show ?thesis unfolding vs list.map rest e merge_plan.simps Let_def add_entry_plan using 4(1) [OF 1 refl add_entry_plan] 4(4,5) 1 by simp
  next
    case 2
    then have after: "\<forall>t\<in>set (s # ss). ap_version a < mg_version t" using asc by force
    then have vs: "versions_of (s # ss) (a # as) = ap_version a # versions_of (s # ss) as"
      using asc(2) by (intro versions_first) auto
    have "\<forall>v\<in>set (versions_of (s # ss) as). ap_version a < v" using asc(2) after by (auto simp: set_versions)
    then have rest: "map (entry_for al l (s # ss) (a # as)) (versions_of (s # ss) as) = map (entry_for al l (s # ss) as) (versions_of (s # ss) as)"
      by (intro map_cong) (auto simp: entry_without(2))
    have e: "entry_for al l (s # ss) (a # as) (ap_version a) =
        \<lparr>me_version = ap_version a, me_name = take 127 (ap_name a), me_state = STATE_MISSING, me_late = False, me_migration = None\<rparr>"
      using find_none [OF after] by (simp add: entry_for_def)
    show ?thesis unfolding vs list.map rest e merge_plan.simps Let_def add_entry_plan using 4(2) [OF _ 2 add_entry_plan] 4(4,5) 2 by simp
  next
    case 3
    have vs: "versions_of (s # ss) (a # as) = mg_version s # versions_of ss as"
      using asc 3 by (intro versions_first) auto
    have "\<forall>v\<in>set (versions_of ss as). mg_version s < v \<and> ap_version a < v" using asc 3 by (auto simp: set_versions)
    then have rest: "map (entry_for al l (s # ss) (a # as)) (versions_of ss as) = map (entry_for al l ss as) (versions_of ss as)"
      by (intro map_cong) (auto simp: entry_without)
    have e: "entry_for al l (s # ss) (a # as) (mg_version s) =
        \<lparr>me_version = mg_version s, me_name = take 127 (mg_name s),
           me_state = (if mg_checksum s = ap_checksum a then STATE_APPLIED else STATE_MODIFIED), me_late = False, me_migration = Some s\<rparr>"
      using 3 by (simp add: entry_for_def)
    show ?thesis unfolding vs list.map rest e merge_plan.simps Let_def add_entry_plan using 4(3) [OF _ _ add_entry_plan] 4(4,5) 3 by simp
  qed
qed

lemma plan_build_entries:
  "bb_migrate_plan_build True source applied opts =
     (if \<not> sorted_wrt (<) (map mg_version source) then Inl MIG_SOURCE_NOT_SORTED
      else if \<not> sorted_wrt (<) (map ap_version applied) then Inl MIG_LEDGER_NOT_SORTED
      else Inr (plan_of_entries (map (entry_for (opts = Some True) (latest_applied applied) source applied) (versions_of source applied))))"
proof -
  have "merge_plan (opts = Some True) (if applied \<noteq> [] then ap_version (last applied) else - 1) source applied (plan_of_entries []) =
      plan_of_entries (map (entry_for (opts = Some True) (latest_applied applied) source applied) (versions_of source applied))"
    if "sorted_wrt (<) (map mg_version source)" "sorted_wrt (<) (map ap_version applied)"
    using merge_plan_entries [OF that, of "opts = Some True" "latest_applied applied" "[]"]
    by (cases "applied = []") (simp_all add: latest_applied_def)
  then show ?thesis
    unfolding bb_migrate_plan_build_def ascending_sorted empty_plan_entries by (simp add: versions_of_def)
qed

text \<open>C30: The plan compares source and ledger version by version. From lists in strict ascending order, and
  only from those, \<open>bb_migrate_plan_build\<close> makes a plan: for each version of either, in order, one entry,
  which is the one for that version alone (applied, modified, missing, pending or out of order); and its
  counts of pending entries and of problems are right.\<close>

theorem plans_compare_source_and_ledger:
  "bb_migrate_plan_build True source applied opts =
     (if \<not> sorted_wrt (<) (map mg_version source) then Inl MIG_SOURCE_NOT_SORTED
      else if \<not> sorted_wrt (<) (map ap_version applied) then Inl MIG_LEDGER_NOT_SORTED
      else Inr (plan_of_entries (map (entry_for (opts = Some True) (latest_applied applied) source applied) (versions_of source applied))))"
  by (rule plan_build_entries)

section \<open>Running the plan\<close>

text \<open>
  What a driver promises (\<open>driver.h\<close>), over what the database holds for good (the rows of its ledger and the
  statements that have taken effect) and what the transaction under way, if there is one, has made of it.
\<close>

record database =
  db_ledger :: "bb_migrate_applied set"
  db_log :: "string list"

definition row_of :: "bb_migration \<Rightarrow> bb_migrate_applied" where
  "row_of m = \<lparr>ap_version = mg_version m, ap_name = mg_name m, ap_checksum = mg_checksum m\<rparr>"

definition apply_all :: "bb_migration list \<Rightarrow> database \<Rightarrow> database" where
  "apply_all ms db = \<lparr>db_ledger = db_ledger db \<union> row_of ` set ms, db_log = db_log db @ map mg_sql ms\<rparr>"

definition ledger_ok :: "'d bb_migrate_driver_api \<Rightarrow> ('d \<Rightarrow> database) \<Rightarrow> ('d \<Rightarrow> database option) \<Rightarrow> bool" where
  "ledger_ok api committed working \<longleftrightarrow>
     (\<forall>d. working d = None \<longrightarrow> committed (snd (dr_ensure_ledger api d)) = committed d \<and> working (snd (dr_ensure_ledger api d)) = None) \<and>
     (\<forall>d as. working d = None \<longrightarrow> dr_load_applied api d = Some as \<longrightarrow> set as = db_ledger (committed d))"

definition transactions_ok :: "'d bb_migrate_driver_api \<Rightarrow> ('d \<Rightarrow> database) \<Rightarrow> ('d \<Rightarrow> database option) \<Rightarrow> bool" where
  "transactions_ok api committed working \<longleftrightarrow>
     (\<forall>d ok d'. working d = None \<longrightarrow> dr_begin api d = (ok, d') \<longrightarrow>
        committed d' = committed d \<and> working d' = (if ok then Some (committed d) else None)) \<and>
     (\<forall>m d w ok d'. working d = Some w \<longrightarrow> dr_record api m d = (ok, d') \<longrightarrow> committed d' = committed d \<and>
        (ok \<longrightarrow> working d' = Some (w\<lparr>db_ledger := insert (row_of m) (db_ledger w)\<rparr>))) \<and>
     (\<forall>sql d w ok d'. working d = Some w \<longrightarrow> dr_exec api sql d = (ok, d') \<longrightarrow> committed d' = committed d \<and>
        (ok \<longrightarrow> working d' = Some (w\<lparr>db_log := db_log w @ [sql]\<rparr>))) \<and>
     (\<forall>d w ok d'. working d = Some w \<longrightarrow> dr_commit api d = (ok, d') \<longrightarrow>
        (if ok then committed d' = w \<and> working d' = None else committed d' = committed d)) \<and>
     (\<forall>d. committed (dr_rollback api d) = committed d \<and> working (dr_rollback api d) = None)"

lemma transactionsD:
  assumes "transactions_ok api committed working"
  shows "working d = None \<Longrightarrow> dr_begin api d = (ok, d') \<Longrightarrow>
        committed d' = committed d \<and> working d' = (if ok then Some (committed d) else None)"
    and "working d = Some w \<Longrightarrow> dr_record api m d = (ok, d') \<Longrightarrow> committed d' = committed d \<and>
        (ok \<longrightarrow> working d' = Some (w\<lparr>db_ledger := insert (row_of m) (db_ledger w)\<rparr>))"
    and "working d = Some w \<Longrightarrow> dr_exec api sql d = (ok, d') \<Longrightarrow> committed d' = committed d \<and>
        (ok \<longrightarrow> working d' = Some (w\<lparr>db_log := db_log w @ [sql]\<rparr>))"
    and "working d = Some w \<Longrightarrow> dr_commit api d = (ok, d') \<Longrightarrow>
        (if ok then committed d' = w \<and> working d' = None else committed d' = committed d)"
    and "committed (dr_rollback api d) = committed d \<and> working (dr_rollback api d) = None"
  using assms unfolding transactions_ok_def by blast+

lemma apply_one_all_or_nothing:
  assumes t: "transactions_ok api committed working" and w: "working d = None" and r: "apply_one api m d = (e, d')"
  shows "working d' = None \<and> committed d' = (if e = None then apply_all [m] (committed d) else committed d)"
proof -
  obtain ok1 d1 where b: "dr_begin api d = (ok1, d1)" by fastforce
  show ?thesis
  proof (cases ok1)
    case False
    then show ?thesis using r b transactionsD(1) [OF t w b] by (auto simp: apply_one_def)
  next
    case True
    have w1: "working d1 = Some (committed d)" "committed d1 = committed d" using transactionsD(1) [OF t w b] True by auto
    obtain ok2 d2 where rec: "dr_record api m d1 = (ok2, d2)" by fastforce
    note R = transactionsD(2) [OF t w1(1) rec]
    show ?thesis
    proof (cases ok2)
      case False
      then show ?thesis using r b True rec R w1 transactionsD(5) [OF t] by (auto simp: apply_one_def)
    next
      case ok2: True
      obtain ok3 d3 where ex: "dr_exec api (mg_sql m) d2 = (ok3, d3)" by fastforce
      have w2: "working d2 = Some (committed d\<lparr>db_ledger := insert (row_of m) (db_ledger (committed d))\<rparr>)" using R ok2 by simp
      note E = transactionsD(3) [OF t w2 ex]
      show ?thesis
      proof (cases ok3)
        case False
        then show ?thesis using r b True rec ok2 ex R E w1 transactionsD(5) [OF t] by (auto simp: apply_one_def)
      next
        case ok3: True
        obtain ok4 d4 where co: "dr_commit api d3 = (ok4, d4)" by fastforce
        have w3: "working d3 = Some (apply_all [m] (committed d))" using E ok3 by (simp add: apply_all_def)
        show ?thesis
          using r b True rec ok2 ex ok3 co R E w1 transactionsD(4) [OF t w3 co] transactionsD(5) [OF t]
          by (cases ok4) (auto simp: apply_one_def)
      qed
    qed
  qed
qed

lemma apply_all_more: "apply_all ms (apply_all [m] db) = apply_all (m # ms) db"
  by (simp add: apply_all_def)

definition pending_of :: "bb_migrate_entry list \<Rightarrow> bb_migration list" where
  "pending_of es = List.map_filter (\<lambda>e. if me_state e = STATE_PENDING then me_migration e else None) es"

lemma pending_of_simps [simp]:
  "pending_of [] = []"
  "pending_of (e # es) = (if me_state e = STATE_PENDING then case me_migration e of None \<Rightarrow> pending_of es | Some m \<Rightarrow> m # pending_of es
     else pending_of es)"
  by (auto simp: pending_of_def map_filter_simps split: option.split)

lemma apply_entries_prefix:
  assumes t: "transactions_ok api committed working"
  shows "working d = None \<Longrightarrow> apply_entries api es n d = (e, n', d') \<Longrightarrow>
    \<exists>ms rest. pending_of es = ms @ rest \<and> committed d' = apply_all ms (committed d) \<and> working d' = None \<and>
      n' = n + length ms \<and> (e = None \<longrightarrow> rest = [])"
proof (induction es arbitrary: n d)
  case Nil
  then show ?case by (simp add: apply_all_def)
next
  case (Cons x es)
  show ?case
  proof (cases "me_state x = STATE_PENDING \<and> me_migration x \<noteq> None")
    case False
    then have same: "pending_of (x # es) = pending_of es" "apply_entries api (x # es) n d = apply_entries api es n d"
      by (auto split: option.split bool.split)
    show ?thesis unfolding same(1) by (rule Cons.IH [OF Cons.prems(1) Cons.prems(2) [unfolded same(2)]])
  next
    case True
    then obtain m where m: "me_state x = STATE_PENDING" "me_migration x = Some m" by blast
    obtain e1 d1 where r: "apply_one api m d = (e1, d1)" by fastforce
    note one = apply_one_all_or_nothing [OF t Cons.prems(1) r]
    show ?thesis
    proof (cases e1)
      case None
      then have r': "apply_entries api es (n + 1) d1 = (e, n', d')" using Cons.prems(2) m r by simp
      have d1: "working d1 = None" using one by (rule conjunct1)
      from Cons.IH [OF d1 r'] obtain ms rest where "pending_of es = ms @ rest \<and> committed d' = apply_all ms (committed d1) \<and> working d' = None \<and>
          n' = n + 1 + length ms \<and> (e = None \<longrightarrow> rest = [])"
        by blast
      then have "pending_of (x # es) = (m # ms) @ rest \<and> committed d' = apply_all (m # ms) (committed d) \<and> working d' = None \<and>
          n' = n + length (m # ms) \<and> (e = None \<longrightarrow> rest = [])"
        using one None m by (simp add: apply_all_more)
      then show ?thesis by (intro exI [of _ "m # ms"] exI [of _ rest])
    next
      case (Some err)
      then have "pending_of (x # es) = [] @ pending_of (x # es) \<and> committed d' = apply_all [] (committed d) \<and> working d' = None \<and>
          n' = n + length ([] :: bb_migration list) \<and> (e = None \<longrightarrow> pending_of (x # es) = [])"
        using Cons.prems(2) m r one by (auto simp: apply_all_def)
      then show ?thesis by - (rule exI [of _ "[]"], rule exI [of _ "pending_of (x # es)"])
    qed
  qed
qed

text \<open>The history of a ledger is intact when each of its rows has its unmodified migration in the source.\<close>

definition history_intact :: "bb_migration list \<Rightarrow> bb_migrate_applied set \<Rightarrow> bool" where
  "history_intact source ledger \<longleftrightarrow>
     (\<forall>a\<in>ledger. \<exists>s\<in>set source. mg_version s = ap_version a \<and> mg_checksum s = ap_checksum a)"

definition never_applied :: "bb_migrate_applied set \<Rightarrow> bb_migration list \<Rightarrow> bb_migration list" where
  "never_applied ledger source = filter (\<lambda>s. mg_version s \<notin> ap_version ` ledger) source"

lemma find_unique:
  fixes f :: "'a \<Rightarrow> int"
  assumes "sorted_wrt (<) (map f xs)" and "x \<in> set xs" shows "find (\<lambda>y. f y = f x) xs = Some x"
  using assms by (induction xs) auto

lemma find_is_none: "find (\<lambda>y. f y = v) xs = None \<longleftrightarrow> v \<notin> f ` set xs"
  by (auto simp: find_None_iff)

text \<open>An entry without a problem.\<close>

lemma applied_in_source:
  assumes s: "sorted_wrt (<) (map mg_version source)" and a: "sorted_wrt (<) (map ap_version applied)" and "x \<in> set applied"
    and ok: "\<not> bb_migrate_state_is_problem (me_state (entry_for al l source applied (ap_version x)))"
  shows "\<exists>m\<in>set source. mg_version m = ap_version x \<and> mg_checksum m = ap_checksum x"
proof -
  have f: "find (\<lambda>y. ap_version y = ap_version x) applied = Some x" using a assms(3) by (rule find_unique)
  obtain m where m: "find (\<lambda>y. mg_version y = ap_version x) source = Some m"
    using ok f by (auto simp: entry_for_def bb_migrate_state_is_problem_def split: option.splits)
  then have "m \<in> set source" "mg_version m = ap_version x" by (auto simp: find_Some_iff)
  moreover have "mg_checksum m = ap_checksum x"
    using ok f m by (auto simp: entry_for_def bb_migrate_state_is_problem_def split: if_splits)
  ultimately show ?thesis by blast
qed

lemma entry_pending:
  assumes "sorted_wrt (<) (map mg_version source)" and "m \<in> set source"
    and ok: "\<not> bb_migrate_state_is_problem (me_state (entry_for al l source applied (mg_version m)))"
  shows "(me_state (entry_for al l source applied (mg_version m)) = STATE_PENDING) = (mg_version m \<notin> ap_version ` set applied) \<and>
    me_migration (entry_for al l source applied (mg_version m)) = Some m \<and>
    (mg_version m \<notin> ap_version ` set applied \<longrightarrow> al \<or> l \<le> mg_version m)"
  using find_unique [OF assms(1,2)] ok find_is_none [of ap_version "mg_version m" applied]
  by (auto simp: entry_for_def bb_migrate_state_is_problem_def split: option.splits if_splits)

lemma pending_of_map:
  assumes "\<forall>m\<in>set source. (me_state (f (mg_version m)) = STATE_PENDING) = P m \<and> me_migration (f (mg_version m)) = Some m"
  shows "pending_of (map f (map mg_version source)) = filter P source"
  using assms by (induction source) auto

lemma plan_pending:
  assumes s: "sorted_wrt (<) (map mg_version source)" and a: "sorted_wrt (<) (map ap_version applied)"
    and ok: "\<forall>v\<in>set (versions_of source applied). \<not> bb_migrate_state_is_problem (me_state (entry_for al l source applied v))"
  shows "pending_of (map (entry_for al l source applied) (versions_of source applied)) = never_applied (set applied) source \<and>
    history_intact source (set applied) \<and> (\<forall>m\<in>set (never_applied (set applied) source). al \<or> l \<le> mg_version m)"
proof -
  have intact: "history_intact source (set applied)"
    using applied_in_source [OF s a] ok unfolding history_intact_def set_versions by blast
  then have "mg_version ` set source \<union> ap_version ` set applied = set (map mg_version source)"
    unfolding history_intact_def by force
  then have vs: "versions_of source applied = map mg_version source"
    using s unfolding versions_of_def by (metis sorted_list_of_set.idem_if_sorted_distinct strict_sorted_iff)
  have "\<forall>m\<in>set source. \<not> bb_migrate_state_is_problem (me_state (entry_for al l source applied (mg_version m)))"
    using ok by (simp add: vs)
  then have each: "(me_state (entry_for al l source applied (mg_version m)) = STATE_PENDING) = (mg_version m \<notin> ap_version ` set applied) \<and>
    me_migration (entry_for al l source applied (mg_version m)) = Some m \<and>
    (mg_version m \<notin> ap_version ` set applied \<longrightarrow> al \<or> l \<le> mg_version m)" if "m \<in> set source" for m
    using entry_pending [OF s that] that by blast
  then have "pending_of (map (entry_for al l source applied) (map mg_version source)) = never_applied (set applied) source"
    unfolding never_applied_def by (intro pending_of_map) auto
  moreover have "\<forall>m\<in>set (never_applied (set applied) source). al \<or> l \<le> mg_version m"
    using each unfolding never_applied_def by auto
  ultimately show ?thesis using intact vs by simp
qed

lemma latest_is_last:
  assumes "sorted_wrt (<) (map ap_version applied)" and "a \<in> set applied" shows "ap_version a \<le> latest_applied applied"
  using assms by (cases applied rule: rev_cases) (auto simp: latest_applied_def sorted_wrt_append)

lemma no_problem: "mp_problem_count (plan_of_entries es) = 0 \<longleftrightarrow> (\<forall>e\<in>set es. \<not> bb_migrate_state_is_problem (me_state e))"
  by (simp add: plan_of_entries_def filter_empty_conv)

text \<open>C18: Migrating is all or nothing. On a driver that keeps its promises, \<open>bb_migrate_up\<close> ends outside a
  transaction, having committed a prefix of the migrations never applied, in their order: their rows are in
  the ledger, their statements have run, each exactly once, and nothing else has changed. It tells how
  many; without an error they are all of them. It has changed nothing unless every applied migration is in
  the source unmodified and, if late ones are not allowed, none to apply is older than an applied one.\<close>

theorem migrating_is_all_or_nothing:
  assumes "ledger_ok api committed working" and t: "transactions_ok api committed working" and w: "working d = None"
    and up: "bb_migrate_up api ok source opts d = (err, n, d')"
  shows "working d' = None \<and>
    (\<exists>ms rest. never_applied (db_ledger (committed d)) source = ms @ rest \<and> committed d' = apply_all ms (committed d) \<and>
      n = length ms \<and> (err = None \<longrightarrow> rest = []) \<and>
      (err = None \<or> ms \<noteq> [] \<longrightarrow> history_intact source (db_ledger (committed d)) \<and>
        (opts = Some True \<or> (\<forall>m\<in>set ms. \<forall>a\<in>db_ledger (committed d). ap_version a < mg_version m))))"
proof -
  obtain ready d1 where e: "dr_ensure_ledger api d = (ready, d1)" by fastforce
  have d1: "committed d1 = committed d" "working d1 = None" using assms(1) w e unfolding ledger_ok_def by (metis snd_conv)+
  have untouched: ?thesis if "d' = d1" "n = 0" "err \<noteq> None"
    by (rule conjI, simp add: that d1, rule exI [of _ "[]"], rule exI [of _ "never_applied (db_ledger (committed d)) source"])
      (simp add: apply_all_def that d1)
  show ?thesis
  proof (cases "ready \<and> (\<exists>plan. bb_migrate_plan_for api ok source opts d1 = Inr plan \<and> mp_problem_count plan = 0)")
    case False
    then have "d' = d1 \<and> n = 0 \<and> err \<noteq> None"
      using up e by (auto simp: bb_migrate_up_def split: sum.splits if_splits)
    then have "d' = d1" "n = 0" "err \<noteq> None" by simp_all
    then show ?thesis by (rule untouched)
  next
    case True
    then obtain plan where plan: "bb_migrate_plan_for api ok source opts d1 = Inr plan" "mp_problem_count plan = 0" "ready" by blast
    obtain applied where load: "dr_load_applied api d1 = Some applied" "bb_migrate_plan_build ok source applied opts = Inr plan"
      using plan(1) by (auto simp: bb_migrate_plan_for_def split: option.splits)
    have ledger: "set applied = db_ledger (committed d)" using assms(1) d1 load(1) unfolding ledger_ok_def by metis
    have build: "bb_migrate_plan_build True source applied opts = Inr plan"
      using load(2) by (auto simp: bb_migrate_plan_build_def split: if_splits)
    define al where "al = (opts = Some True)"
    have s: "sorted_wrt (<) (map mg_version source)" and a: "sorted_wrt (<) (map ap_version applied)"
      and p: "plan = plan_of_entries (map (entry_for al (latest_applied applied) source applied) (versions_of source applied))"
      using build unfolding plan_build_entries al_def by (auto split: if_splits)
    have "\<forall>v\<in>set (versions_of source applied). \<not> bb_migrate_state_is_problem (me_state (entry_for al (latest_applied applied) source applied v))"
      using plan(2) unfolding p no_problem by simp
    note P = plan_pending [OF s a this]
    have "apply_entries api (map (entry_for al (latest_applied applied) source applied) (versions_of source applied)) 0 d1 = (err, n, d')"
      using up e plan by (simp add: bb_migrate_up_def p plan_of_entries_def)
    from apply_entries_prefix [OF t d1(2) this] obtain ms rest where ms: "never_applied (set applied) source = ms @ rest"
      "committed d' = apply_all ms (committed d)" "working d' = None" "n = length ms" "err = None \<longrightarrow> rest = []"
      using P d1(1) by auto
    have late: "al \<or> (\<forall>m\<in>set ms. \<forall>a\<in>set applied. ap_version a < mg_version m)"
    proof (cases al)
      case n: False
      have "ap_version x < mg_version m" if m: "m \<in> set ms" and x: "x \<in> set applied" for m x
      proof -
        have mem: "m \<in> set (never_applied (set applied) source)" using ms(1) m by simp
        then have "latest_applied applied \<le> mg_version m" using P n by blast
        moreover have "mg_version m \<noteq> ap_version x" using mem x by (auto simp: never_applied_def)
        ultimately show ?thesis using latest_is_last [OF a x] by linarith
      qed
      then show ?thesis by blast
    qed simp
    show ?thesis
      unfolding ledger [symmetric]
      by (rule conjI, rule ms(3), rule exI [of _ ms], rule exI [of _ rest]) (use ms P late in \<open>simp add: al_def\<close>)
  qed
qed

text \<open>A database in memory, for the witness: what is committed and the transaction under way.\<close>

record memory =
  mm_rows :: "bb_migrate_applied list"
  mm_log :: "string list"
  mm_work :: "(bb_migrate_applied list \<times> string list) option"

definition memory_api :: "memory bb_migrate_driver_api" where
  "memory_api =
     \<lparr>dr_ensure_ledger = \<lambda>d. (True, d),
      dr_load_applied = \<lambda>d. Some (mm_rows d),
      dr_begin = \<lambda>d. (True, d\<lparr>mm_work := Some (mm_rows d, mm_log d)\<rparr>),
      dr_record = \<lambda>m d. case mm_work d of None \<Rightarrow> (False, d) | Some (rows, sqls) \<Rightarrow>
        if mg_version m \<in> ap_version ` set rows then (False, d) else (True, d\<lparr>mm_work := Some (rows @ [row_of m], sqls)\<rparr>),
      dr_exec = \<lambda>sql d. case mm_work d of None \<Rightarrow> (False, d) | Some (rows, sqls) \<Rightarrow>
        if sql = ''bad'' then (False, d) else (True, d\<lparr>mm_work := Some (rows, sqls @ [sql])\<rparr>),
      dr_commit = \<lambda>d. case mm_work d of None \<Rightarrow> (False, d) | Some (rows, sqls) \<Rightarrow>
        (True, \<lparr>mm_rows = rows, mm_log = sqls, mm_work = None\<rparr>),
      dr_rollback = \<lambda>d. d\<lparr>mm_work := None\<rparr>\<rparr>"

definition memory_committed :: "memory \<Rightarrow> database" where
  "memory_committed d = \<lparr>db_ledger = set (mm_rows d), db_log = mm_log d\<rparr>"

definition memory_working :: "memory \<Rightarrow> database option" where
  "memory_working d = map_option (\<lambda>(rows, sqls). \<lparr>db_ledger = set rows, db_log = sqls\<rparr>) (mm_work d)"

lemma memory_ledger: "ledger_ok memory_api memory_committed memory_working"
  by (simp add: ledger_ok_def memory_api_def memory_committed_def memory_working_def)

lemma memory_transactions: "transactions_ok memory_api memory_committed memory_working"
  unfolding transactions_ok_def
  by (intro conjI allI impI) (auto simp: memory_api_def memory_committed_def memory_working_def split: if_splits)

definition two_migrations :: "bb_migration list" where
  "two_migrations = [\<lparr>mg_version = 1, mg_name = ''users'', mg_checksum = ''c1'', mg_sql = ''create''\<rparr>,
     \<lparr>mg_version = 2, mg_name = ''roles'', mg_checksum = ''c2'', mg_sql = ''bad''\<rparr>]"

theorem migrating_witness:
  "\<exists>ms rest. never_applied {} two_migrations = ms @ rest \<and>
    \<lparr>db_ledger = {row_of (hd two_migrations)}, db_log = [''create'']\<rparr> = apply_all ms \<lparr>db_ledger = {}, db_log = []\<rparr> \<and> length ms = 1"
proof -
  define d where "d = \<lparr>mm_rows = [], mm_log = [], mm_work = None\<rparr>"
  define d' where "d' = \<lparr>mm_rows = [row_of (hd two_migrations)], mm_log = [''create''], mm_work = None\<rparr>"
  have "bb_migrate_up memory_api True two_migrations None d = (Some (MIG_FAILED 2), 1, d')"
    by (simp add: bb_migrate_up_def bb_migrate_plan_for_def bb_migrate_plan_build_def two_migrations_def memory_api_def d_def d'_def
        empty_plan_def add_entry_def bb_migrate_state_is_problem_def apply_one_def row_of_def)
  moreover have "memory_working d = None" by (simp add: d_def memory_working_def)
  ultimately show ?thesis
    using migrating_is_all_or_nothing [OF memory_ledger memory_transactions, of d True two_migrations None "Some (MIG_FAILED 2)" 1 d']
    by (simp add: d_def d'_def memory_committed_def) metis
qed

end
