(* ===== verification/Table_Spec.thy ===== *)
theory Table_Spec
  imports Migrate_Plan Json_Parse
begin

text \<open>
  The shape of a table that a manifest asks for and its differences from the one a database has
  (\<open>src/tools/migrate/src/table_spec.c\<close>). A callback that is told of each difference is the list of them.
\<close>

section \<open>Table shapes\<close>

definition BB_MIGRATE_COLUMNS_MAX :: nat where "BB_MIGRATE_COLUMNS_MAX = 64"
definition BB_MIGRATE_TYPE_MAX :: nat where "BB_MIGRATE_TYPE_MAX = 16"
definition BB_MIGRATE_ERR_MAX :: nat where "BB_MIGRATE_ERR_MAX = 512"

record bb_migrate_column =
  co_name :: string
  co_type :: string
  co_primary_key :: bool

record bb_migrate_table_spec =
  ts_table :: string
  ts_columns :: "bb_migrate_column list"

datatype spec_error =
    SPEC_INVALID_ARGUMENTS | SPEC_CANNOT_READ | SPEC_KIND | SPEC_TABLE | SPEC_NO_FIELDS | SPEC_TOO_MANY_FIELDS
  | SPEC_FIELD_NAME nat | SPEC_FIELD_TYPE nat string

section \<open>Reading a manifest\<close>

definition sql_type_for :: "string \<Rightarrow> string option" where
  "sql_type_for manifest_type =
     (if manifest_type = ''int'' then Some ''INTEGER''
      else if manifest_type = ''string'' \<or> manifest_type = ''uuid'' then Some ''TEXT''
      else if manifest_type = ''blob'' then Some ''BLOB'' else None)"

definition copy_checked :: "nat \<Rightarrow> string \<Rightarrow> string option" where
  "copy_checked cap src = (if length src = 0 \<or> length src \<ge> cap then None else Some src)"

definition text_of :: "json option \<Rightarrow> string \<Rightarrow> string option" where
  "text_of obj key =
     (case bb_json_object_get_value obj (Some key) of
        None \<Rightarrow> None
      | Some v \<Rightarrow> if bb_json_get_type (Some v) \<noteq> BB_JSON_TEXT then None else bb_json_get_value_text v)"

fun read_fields :: "nat \<Rightarrow> json list \<Rightarrow> spec_error + bb_migrate_column list" where
  "read_fields i [] = Inr []"
| "read_fields i (f # fs) =
     (let name = (if bb_json_get_type (Some f) = BB_JSON_OBJECT then text_of (Some f) ''name'' else None);
          type' = (if name = None then None else text_of (Some f) ''type'');
          sql_type = (case type' of None \<Rightarrow> None | Some t \<Rightarrow> sql_type_for t)
      in case name of
           None \<Rightarrow> Inl (SPEC_FIELD_NAME i)
         | Some n \<Rightarrow>
             (case copy_checked BB_MIGRATE_NAME_MAX n of
                None \<Rightarrow> Inl (SPEC_FIELD_NAME i)
              | Some n \<Rightarrow>
                  (case sql_type of
                     None \<Rightarrow> Inl (SPEC_FIELD_TYPE i n)
                   | Some t \<Rightarrow>
                       let pk = (case bb_json_object_get_value (Some f) (Some ''primary_key'') of
                                   None \<Rightarrow> False
                                 | Some v \<Rightarrow> bb_json_get_type (Some v) = BB_JSON_BOOL \<and> bb_json_get_value_bool v)
                       in case read_fields (i + 1) fs of
                            Inl e \<Rightarrow> Inl e
                          | Inr cs \<Rightarrow>
                              Inr (\<lparr>co_name = n, co_type = snprintf BB_MIGRATE_TYPE_MAX t, co_primary_key = pk\<rparr> # cs))))"

text \<open>\<open>load\<close> is \<open>bb_json_load\<close> on the files there are.\<close>

definition bb_migrate_spec_from_manifest ::
  "(string \<Rightarrow> json option) \<Rightarrow> string option \<Rightarrow> spec_error + bb_migrate_table_spec" where
  "bb_migrate_spec_from_manifest load path =
     (case path of
        None \<Rightarrow> Inl SPEC_INVALID_ARGUMENTS
      | Some p \<Rightarrow>
          let manifest = load p
          in if manifest = None \<or> bb_json_get_type manifest \<noteq> BB_JSON_OBJECT then Inl SPEC_CANNOT_READ
             else if text_of manifest ''kind'' \<noteq> Some ''persist.schema'' then Inl SPEC_KIND
             else let table = (case text_of manifest ''table'' of None \<Rightarrow> text_of manifest ''name'' | Some t \<Rightarrow> Some t)
                  in case (case table of None \<Rightarrow> None | Some t \<Rightarrow> copy_checked BB_MIGRATE_NAME_MAX t) of
                       None \<Rightarrow> Inl SPEC_TABLE
                     | Some t \<Rightarrow>
                         (case bb_json_object_get_value manifest (Some ''fields'') of
                            Some (JArray fs) \<Rightarrow>
                              if fs = [] then Inl SPEC_NO_FIELDS
                              else if length fs > BB_MIGRATE_COLUMNS_MAX then Inl SPEC_TOO_MANY_FIELDS
                              else (case read_fields 0 fs of
                                      Inl e \<Rightarrow> Inl e
                                    | Inr cs \<Rightarrow> Inr \<lparr>ts_table = t, ts_columns = cs\<rparr>)
                          | _ \<Rightarrow> Inl SPEC_NO_FIELDS))"

section \<open>Differences\<close>

datatype bb_migrate_diff_kind =
    DIFF_TABLE_MISSING | DIFF_COLUMN_MISSING | DIFF_COLUMN_EXTRA | DIFF_TYPE_MISMATCH | DIFF_PK_MISSING | DIFF_PK_EXTRA

record bb_migrate_diff =
  df_kind :: bb_migrate_diff_kind
  df_table :: string
  df_column :: "string option"
  df_expected_type :: "string option"
  df_actual_type :: "string option"
  df_expected_pk :: bool

fun find_in_columns :: "string \<Rightarrow> bb_migrate_column list \<Rightarrow> bb_migrate_column option" where
  "find_in_columns name [] = None"
| "find_in_columns name (c # cs) = (if co_name c = name then Some c else find_in_columns name cs)"

definition find_column :: "bb_migrate_table_spec \<Rightarrow> string \<Rightarrow> bb_migrate_column option" where
  "find_column spec name = find_in_columns name (ts_columns spec)"

definition diff_expected :: "string \<Rightarrow> bb_migrate_table_spec \<Rightarrow> bb_migrate_column \<Rightarrow> bb_migrate_diff list" where
  "diff_expected table actual e =
     (case find_column actual (co_name e) of
        None \<Rightarrow> [\<lparr>df_kind = DIFF_COLUMN_MISSING, df_table = table, df_column = Some (co_name e), df_expected_type = Some (co_type e),
                 df_actual_type = None, df_expected_pk = co_primary_key e\<rparr>]
      | Some a \<Rightarrow>
          (if co_type e \<noteq> co_type a
           then [\<lparr>df_kind = DIFF_TYPE_MISMATCH, df_table = table, df_column = Some (co_name e), df_expected_type = Some (co_type e),
                  df_actual_type = Some (co_type a), df_expected_pk = False\<rparr>] else []) @
          (if co_primary_key e \<and> \<not> co_primary_key a
           then [\<lparr>df_kind = DIFF_PK_MISSING, df_table = table, df_column = Some (co_name e), df_expected_type = None,
                  df_actual_type = None, df_expected_pk = False\<rparr>]
           else if \<not> co_primary_key e \<and> co_primary_key a
           then [\<lparr>df_kind = DIFF_PK_EXTRA, df_table = table, df_column = Some (co_name e), df_expected_type = None,
                  df_actual_type = None, df_expected_pk = False\<rparr>] else []))"

definition diff_actual :: "bb_migrate_table_spec \<Rightarrow> bb_migrate_column \<Rightarrow> bb_migrate_diff list" where
  "diff_actual expected a =
     (if find_column expected (co_name a) = None
      then [\<lparr>df_kind = DIFF_COLUMN_EXTRA, df_table = ts_table expected, df_column = Some (co_name a), df_expected_type = None,
             df_actual_type = Some (co_type a), df_expected_pk = False\<rparr>] else [])"

definition bb_migrate_spec_diff :: "bb_migrate_table_spec \<Rightarrow> bb_migrate_table_spec \<Rightarrow> bb_migrate_diff list" where
  "bb_migrate_spec_diff expected actual =
     (if ts_columns actual = []
      then [\<lparr>df_kind = DIFF_TABLE_MISSING, df_table = ts_table expected, df_column = None, df_expected_type = None,
             df_actual_type = None, df_expected_pk = False\<rparr>]
      else concat (map (diff_expected (ts_table expected) actual) (ts_columns expected)) @
           concat (map (diff_actual expected) (ts_columns actual)))"

text \<open>The line printed for a difference, in a buffer of \<open>cap\<close> bytes.\<close>

definition shown :: "string option \<Rightarrow> string" where
  "shown s = (case s of None \<Rightarrow> ''(null)'' | Some t \<Rightarrow> t)"

definition bb_migrate_diff_describe :: "bb_migrate_diff \<Rightarrow> nat \<Rightarrow> string" where
  "bb_migrate_diff_describe d cap =
     (let column = ''column '' @ CHR 0x27 # shown (df_column d) @ [CHR 0x27] in snprintf cap
       (case df_kind d of
          DIFF_TABLE_MISSING \<Rightarrow> ''table '' @ CHR 0x27 # df_table d @ CHR 0x27 # '' does not exist after applying all migrations''
        | DIFF_COLUMN_MISSING \<Rightarrow> column @ '' ('' @ shown (df_expected_type d) @ '') is in the schema but no migration creates it''
        | DIFF_COLUMN_EXTRA \<Rightarrow> column @ '' is in the database but not in the schema''
        | DIFF_TYPE_MISMATCH \<Rightarrow>
            column @ '' is '' @ shown (df_expected_type d) @ '' in the schema but '' @ shown (df_actual_type d) @ '' in the database''
        | DIFF_PK_MISSING \<Rightarrow> column @ '' is the primary key in the schema but not in the database''
        | DIFF_PK_EXTRA \<Rightarrow> column @ '' is a primary key in the database but not in the schema''))"

definition bb_migrate_spec_compare :: "bb_migrate_table_spec \<Rightarrow> bb_migrate_table_spec \<Rightarrow> string list" where
  "bb_migrate_spec_compare expected actual =
     map (\<lambda>d. bb_migrate_diff_describe d BB_MIGRATE_ERR_MAX) (bb_migrate_spec_diff expected actual)"

text \<open>\<open>describe\<close> is the driver's \<open>describe_table\<close>; the result lists the lines reported.\<close>

definition bb_migrate_check_table ::
  "(string \<Rightarrow> 'd \<Rightarrow> bb_migrate_table_spec option) \<Rightarrow> bb_migrate_table_spec \<Rightarrow> 'd \<Rightarrow> migrate_error + string list" where
  "bb_migrate_check_table describe expected d =
     (case describe (ts_table expected) d of
        None \<Rightarrow> Inl MIG_INSPECTING
      | Some actual \<Rightarrow> Inr (bb_migrate_spec_compare expected actual))"

end
