(* ===== verification/Generate.thy ===== *)
theory Generate
  imports Table_Spec
begin

text \<open>
  The generator of migrations (\<open>src/tools/migrate/src/generate.c\<close>): from the differences of a table and the
  renames the user declares to the SQL that closes the gap, or to the reasons for not writing any. The
  reasons are constructors in place of the lines of the message.
\<close>

section \<open>A growing text\<close>

text \<open>\<open>mem\<close> tells whether \<open>realloc\<close> gives so many bytes.\<close>

record strbuf =
  sx_data :: "string option"
  sx_cap :: nat
  sx_failed :: bool

definition empty_strbuf :: strbuf where
  "empty_strbuf = \<lparr>sx_data = None, sx_cap = 0, sx_failed = False\<rparr>"

function grown_cap :: "nat \<Rightarrow> nat \<Rightarrow> nat" where
  "grown_cap new_cap needed = (if 0 < new_cap \<and> new_cap < needed then grown_cap (new_cap * 2) needed else new_cap)"
  by pat_completeness auto
termination by (relation "measure (\<lambda>(c, n). n - c)") auto

declare grown_cap.simps [simp del]

definition sb_appendf :: "(nat \<Rightarrow> bool) \<Rightarrow> string \<Rightarrow> strbuf \<Rightarrow> strbuf" where
  "sb_appendf mem text' sb =
     (if sx_failed sb then sb
      else let old = (case sx_data sb of None \<Rightarrow> [] | Some s \<Rightarrow> s);
               needed = length old + length text' + 1
           in if needed > sx_cap sb
              then let new_cap = grown_cap (if sx_cap sb = 0 then 256 else sx_cap sb) needed
                   in if \<not> mem new_cap then sb\<lparr>sx_failed := True\<rparr>
                      else sb\<lparr>sx_data := Some (old @ text'), sx_cap := new_cap\<rparr>
              else sb\<lparr>sx_data := Some (old @ text')\<rparr>)"

section \<open>Identifiers and renames\<close>

definition is_plain_identifier :: "string \<Rightarrow> bool" where
  "is_plain_identifier s \<longleftrightarrow>
     (case s of
        [] \<Rightarrow> False
      | c # cs \<Rightarrow> (is_alpha c \<or> c = CHR ''_'') \<and> list_all (\<lambda>d. is_alpha d \<or> is_digit d \<or> d = CHR ''_'') cs)"

record bb_migrate_rename =
  rn_table :: string
  rn_from :: string
  rn_to :: string

text \<open>The text before and behind the first such character.\<close>

definition split_at :: "char \<Rightarrow> string \<Rightarrow> (string \<times> string) option" where
  "split_at c s =
     (case dropWhile (\<lambda>d. d \<noteq> c) s of [] \<Rightarrow> None | _ # rest \<Rightarrow> Some (takeWhile (\<lambda>d. d \<noteq> c) s, rest))"

definition bb_migrate_parse_rename :: "string option \<Rightarrow> bb_migrate_rename option" where
  "bb_migrate_parse_rename arg =
     (case arg of
        None \<Rightarrow> None
      | Some s \<Rightarrow>
          (case split_at (CHR ''='') s of
             None \<Rightarrow> None
           | Some (left, to) \<Rightarrow>
               (case split_at (CHR ''.'') left of
                  None \<Rightarrow> None
                | Some (table, from') \<Rightarrow>
                    if CHR ''.'' \<in> set from' then None
                    else if table = [] \<or> from' = [] \<or> to = [] \<or> length table \<ge> BB_MIGRATE_NAME_MAX \<or>
                            length from' \<ge> BB_MIGRATE_NAME_MAX \<or> length to \<ge> BB_MIGRATE_NAME_MAX then None
                    else if \<not> is_plain_identifier table \<or> \<not> is_plain_identifier from' \<or> \<not> is_plain_identifier to then None
                    else Some \<lparr>rn_table = table, rn_from = from', rn_to = to\<rparr>)))"

section \<open>Checking the renames\<close>

text \<open>A hint with whether it is for this table and whether it holds.\<close>

record gen_hint =
  gh_rename :: bb_migrate_rename
  gh_mine :: bool
  gh_valid :: bool

record gen_ctx =
  gc_expected :: bb_migrate_table_spec
  gc_actual :: bb_migrate_table_spec
  gc_hints :: "gen_hint list"

definition BB_MIGRATE_RENAMES_MAX :: nat where "BB_MIGRATE_RENAMES_MAX = 32"

definition consumed_from :: "gen_ctx \<Rightarrow> string \<Rightarrow> bool" where
  "consumed_from g column \<longleftrightarrow> list_ex (\<lambda>h. gh_mine h \<and> gh_valid h \<and> rn_from (gh_rename h) = column) (gc_hints g)"

definition consumed_to :: "gen_ctx \<Rightarrow> string \<Rightarrow> bool" where
  "consumed_to g column \<longleftrightarrow> list_ex (\<lambda>h. gh_mine h \<and> gh_valid h \<and> rn_to (gh_rename h) = column) (gc_hints g)"

datatype refusal =
    RENAME_NOT_PLAIN bb_migrate_rename | RENAME_NO_FROM bb_migrate_rename | RENAME_NO_TO bb_migrate_rename
  | RENAME_STILL_THERE bb_migrate_rename | RENAME_ALREADY_THERE bb_migrate_rename | RENAME_CHANGES bb_migrate_rename
  | RENAME_CONFLICT bb_migrate_rename
  | ADDS_PRIMARY_KEY string | DROPS_COLUMN string "string list" | CHANGES_TYPE string | CHANGES_PRIMARY_KEY string

definition rename_refusal ::
  "bb_migrate_table_spec \<Rightarrow> bb_migrate_table_spec \<Rightarrow> gen_hint list \<Rightarrow> bb_migrate_rename \<Rightarrow> refusal option" where
  "rename_refusal exp act earlier rn =
     (if \<not> is_plain_identifier (rn_from rn) \<or> \<not> is_plain_identifier (rn_to rn) then Some (RENAME_NOT_PLAIN rn)
      else case find_column act (rn_from rn) of
             None \<Rightarrow> Some (RENAME_NO_FROM rn)
           | Some a_from \<Rightarrow>
               (case find_column exp (rn_to rn) of
                  None \<Rightarrow> Some (RENAME_NO_TO rn)
                | Some e_to \<Rightarrow>
                    if find_column exp (rn_from rn) \<noteq> None then Some (RENAME_STILL_THERE rn)
                    else if find_column act (rn_to rn) \<noteq> None then Some (RENAME_ALREADY_THERE rn)
                    else if co_type a_from \<noteq> co_type e_to \<or> co_primary_key a_from \<noteq> co_primary_key e_to
                    then Some (RENAME_CHANGES rn)
                    else if list_ex (\<lambda>h. gh_mine h \<and> (rn_from (gh_rename h) = rn_from rn \<or> rn_to (gh_rename h) = rn_to rn)) earlier
                    then Some (RENAME_CONFLICT rn)
                    else None))"

fun validate_renames ::
  "bb_migrate_table_spec \<Rightarrow> bb_migrate_table_spec \<Rightarrow> gen_hint list \<Rightarrow> bb_migrate_rename list \<Rightarrow> gen_hint list \<times> refusal list" where
  "validate_renames exp act earlier [] = (earlier, [])"
| "validate_renames exp act earlier (rn # rns) =
     (if rn_table rn \<noteq> ts_table exp
      then validate_renames exp act (earlier @ [\<lparr>gh_rename = rn, gh_mine = False, gh_valid = False\<rparr>]) rns
      else case rename_refusal exp act earlier rn of
             Some r \<Rightarrow>
               (let (hs, rs) = validate_renames exp act (earlier @ [\<lparr>gh_rename = rn, gh_mine = True, gh_valid = False\<rparr>]) rns
                in (hs, r # rs))
           | None \<Rightarrow> validate_renames exp act (earlier @ [\<lparr>gh_rename = rn, gh_mine = True, gh_valid = True\<rparr>]) rns)"

section \<open>Looking for what is refused\<close>

text \<open>The columns that a column of the database alone may have been renamed to go with its refusal.\<close>

definition refuse_extra_column :: "gen_ctx \<Rightarrow> string \<Rightarrow> refusal" where
  "refuse_extra_column g column =
     DROPS_COLUMN column
       (case find_column (gc_actual g) column of
          None \<Rightarrow> []
        | Some extra \<Rightarrow>
            map co_name (filter (\<lambda>e. find_column (gc_actual g) (co_name e) = None \<and> \<not> consumed_to g (co_name e) \<and>
              co_type e = co_type extra \<and> co_primary_key e = co_primary_key extra) (ts_columns (gc_expected g))))"

definition scan_for_refusals :: "gen_ctx \<Rightarrow> bb_migrate_diff \<Rightarrow> refusal list" where
  "scan_for_refusals g d =
     (let column = shown (df_column d) in
      case df_kind d of
        DIFF_TABLE_MISSING \<Rightarrow> []
      | DIFF_COLUMN_MISSING \<Rightarrow>
          if consumed_to g column then [] else if df_expected_pk d then [ADDS_PRIMARY_KEY column] else []
      | DIFF_COLUMN_EXTRA \<Rightarrow> if consumed_from g column then [] else [refuse_extra_column g column]
      | DIFF_TYPE_MISMATCH \<Rightarrow> [CHANGES_TYPE column]
      | DIFF_PK_MISSING \<Rightarrow> [CHANGES_PRIMARY_KEY column]
      | DIFF_PK_EXTRA \<Rightarrow> [CHANGES_PRIMARY_KEY column])"

section \<open>Writing the SQL\<close>

fun emit_columns :: "(nat \<Rightarrow> bool) \<Rightarrow> bb_migrate_column list \<Rightarrow> strbuf \<Rightarrow> strbuf" where
  "emit_columns mem [] sb = sb"
| "emit_columns mem (c # cs) sb =
     emit_columns mem cs
       (sb_appendf mem (''    '' @ co_name c @ '' '' @ co_type c @ (if co_primary_key c then '' PRIMARY KEY'' else []) @
          (if cs \<noteq> [] then '','' else []) @ [LF]) sb)"

definition emit_create_table :: "(nat \<Rightarrow> bool) \<Rightarrow> bb_migrate_table_spec \<Rightarrow> strbuf \<Rightarrow> strbuf" where
  "emit_create_table mem spec sb =
     sb_appendf mem ('');'' @ [LF])
       (emit_columns mem (ts_columns spec)
          (sb_appendf mem (''CREATE TABLE IF NOT EXISTS '' @ ts_table spec @ '' ('' @ [LF]) sb))"

definition emit_rename :: "(nat \<Rightarrow> bool) \<Rightarrow> string \<Rightarrow> gen_hint \<Rightarrow> strbuf \<Rightarrow> strbuf" where
  "emit_rename mem table h sb =
     (if gh_mine h \<and> gh_valid h
      then sb_appendf mem (''ALTER TABLE '' @ table @ '' RENAME COLUMN '' @ rn_from (gh_rename h) @ '' TO '' @
             rn_to (gh_rename h) @ '';'' @ [LF]) sb
      else sb)"

definition emit_alter :: "(nat \<Rightarrow> bool) \<Rightarrow> gen_ctx \<Rightarrow> bb_migrate_diff \<Rightarrow> strbuf \<Rightarrow> strbuf" where
  "emit_alter mem g d sb =
     (if df_kind d = DIFF_COLUMN_MISSING \<and> \<not> consumed_to g (shown (df_column d))
      then sb_appendf mem (''ALTER TABLE '' @ df_table d @ '' ADD COLUMN '' @ shown (df_column d) @ '' '' @
             shown (df_expected_type d) @ '';'' @ [LF]) sb
      else sb)"

datatype gen_result =
    GEN_OK string | GEN_NOTHING | GEN_REFUSED "refusal list" | GEN_NOT_PLAIN | GEN_INVALID_ARGUMENTS | GEN_OUT_OF_MEMORY

definition bb_migrate_generate_sql ::
  "(nat \<Rightarrow> bool) \<Rightarrow> bb_migrate_table_spec \<Rightarrow> bb_migrate_table_spec \<Rightarrow> bb_migrate_rename list \<Rightarrow> gen_result" where
  "bb_migrate_generate_sql mem expected actual renames =
     (if length renames > BB_MIGRATE_RENAMES_MAX then GEN_INVALID_ARGUMENTS
      else if \<not> is_plain_identifier (ts_table expected) \<or> \<not> list_all (\<lambda>c. is_plain_identifier (co_name c)) (ts_columns expected)
      then GEN_NOT_PLAIN
      else let (hints, bad_renames) = validate_renames expected actual [] renames;
               g = \<lparr>gc_expected = expected, gc_actual = actual, gc_hints = hints\<rparr>;
               diffs = bb_migrate_spec_diff expected actual;
               refusals = bad_renames @ concat (map (scan_for_refusals g) diffs)
           in if refusals \<noteq> [] then GEN_REFUSED refusals
              else if diffs = [] then GEN_NOTHING
              else let sb = (if ts_columns actual = [] then emit_create_table mem expected empty_strbuf
                             else fold (emit_alter mem g) diffs (fold (emit_rename mem (ts_table expected)) hints empty_strbuf))
                   in if sx_failed sb then GEN_OUT_OF_MEMORY
                      else case sx_data sb of None \<Rightarrow> GEN_OUT_OF_MEMORY | Some sql \<Rightarrow> GEN_OK sql)"

end
