(* ===== verification/Generate_Theorems.thy ===== *)
theory Generate_Theorems
  imports Generate Json_Theorems
begin

text \<open>
  Table shapes and generated migrations: what an empty difference means, and that the generated SQL closes the gap
  between a table and its manifest without losing a column.
\<close>

section \<open>Columns\<close>

definition names :: "bb_migrate_column list \<Rightarrow> string set" where
  "names cs = co_name ` set cs"

lemma names_in: "c \<in> set cs \<Longrightarrow> co_name c \<in> names cs"
  by (simp add: names_def)

lemma find_in_none: "find_in_columns n cs = None \<longleftrightarrow> n \<notin> names cs"
  by (induction cs) (auto simp: names_def)

lemma find_in_some: "find_in_columns n cs = Some c \<Longrightarrow> c \<in> set cs \<and> co_name c = n"
  by (induction cs) (auto split: if_splits)

lemma find_in_distinct:
  "distinct (map co_name cs) \<Longrightarrow> find_in_columns n cs = Some c \<longleftrightarrow> c \<in> set cs \<and> co_name c = n"
proof (induction cs)
  case (Cons a cs)
  show ?case
  proof (cases "co_name a = n")
    case True
    then have "co_name d \<noteq> n" if "d \<in> set cs" for d using Cons.prems that by (auto simp: image_iff)
    then show ?thesis using True by auto
  next
    case False
    then show ?thesis using Cons by auto
  qed
qed simp

lemma column_eq:
  "co_name c = co_name e \<Longrightarrow> co_type c = co_type e \<Longrightarrow> co_primary_key c = co_primary_key e \<Longrightarrow> c = (e :: bb_migrate_column)"
  by simp

lemma diff_expected_none:
  "diff_expected t actual e = [] \<longleftrightarrow>
     (\<exists>a. find_column actual (co_name e) = Some a \<and> co_type a = co_type e \<and> co_primary_key a = co_primary_key e)"
  by (auto simp: diff_expected_def split: option.split)

text \<open>For tables whose columns have different names the difference is that of the sets of columns.\<close>

lemma no_difference:
  assumes "distinct (map co_name (ts_columns actual))"
  shows "bb_migrate_spec_diff expected actual = [] \<longleftrightarrow>
    ts_columns actual \<noteq> [] \<and> set (ts_columns expected) \<subseteq> set (ts_columns actual) \<and>
    names (ts_columns actual) \<subseteq> names (ts_columns expected)"
proof -
  have "diff_expected t actual e = [] \<longleftrightarrow> e \<in> set (ts_columns actual)" for t e
    unfolding diff_expected_none find_column_def find_in_distinct [OF assms] using column_eq by blast
  moreover have "diff_actual expected a = [] \<longleftrightarrow> co_name a \<in> names (ts_columns expected)" for a
    by (auto simp: diff_actual_def find_column_def find_in_none)
  ultimately show ?thesis by (auto simp: bb_migrate_spec_diff_def names_def)
qed

section \<open>What the statements do\<close>

text \<open>
  The statements that are generated, their text, and their documented effect on a table: its columns with what they
  hold, none when there is no table. \<open>word\<close> tells which names the database reads as names where they stand unquoted,
  as the generated text has them (not its keywords, and nothing with a blank or a quote), \<open>same\<close> which names it takes for
  equal, and \<open>null\<close> is what a new column holds. A statement that the database refuses is \<open>None\<close>: a name that is no word, a
  table of no columns, two columns of one name or two with \<open>PRIMARY KEY\<close>, a column that is there already or is not there.
\<close>

datatype ddl =
    Create_Table string "bb_migrate_column list"
  | Add_Column string string string
  | Rename_Column string string string

fun column_lines :: "bb_migrate_column list \<Rightarrow> string" where
  "column_lines [] = []"
| "column_lines (c # cs) =
     ''    '' @ co_name c @ '' '' @ co_type c @ (if co_primary_key c then '' PRIMARY KEY'' else []) @
     (if cs \<noteq> [] then '','' else []) @ [LF] @ column_lines cs"

fun ddl_text :: "ddl \<Rightarrow> string" where
  "ddl_text (Create_Table t cs) = ''CREATE TABLE IF NOT EXISTS '' @ t @ '' ('' @ [LF] @ column_lines cs @ '');'' @ [LF]"
| "ddl_text (Add_Column t n ty) = ''ALTER TABLE '' @ t @ '' ADD COLUMN '' @ n @ '' '' @ ty @ '';'' @ [LF]"
| "ddl_text (Rename_Column t a b) = ''ALTER TABLE '' @ t @ '' RENAME COLUMN '' @ a @ '' TO '' @ b @ '';'' @ [LF]"

fun distinct_by :: "(string \<Rightarrow> string \<Rightarrow> bool) \<Rightarrow> string list \<Rightarrow> bool" where
  "distinct_by same [] \<longleftrightarrow> True"
| "distinct_by same (n # ns) \<longleftrightarrow> \<not> list_ex (same n) ns \<and> distinct_by same ns"

definition keys_of :: "bb_migrate_column list \<Rightarrow> nat" where
  "keys_of cs = length (filter co_primary_key cs)"

fun ddl_change ::
  "(string \<Rightarrow> string \<Rightarrow> bool) \<Rightarrow> 'v \<Rightarrow> ddl \<Rightarrow> (bb_migrate_column \<times> 'v) list \<Rightarrow> (bb_migrate_column \<times> 'v) list option" where
  "ddl_change same null (Create_Table t cs) tbl =
     (if tbl \<noteq> [] then Some tbl
      else if cs = [] \<or> \<not> distinct_by same (map co_name cs) \<or> keys_of cs > 1 then None
      else Some (map (\<lambda>c. (c, null)) cs))"
| "ddl_change same null (Add_Column t n ty) tbl =
     (if tbl = [] \<or> list_ex (\<lambda>(c, v). same (co_name c) n) tbl then None
      else Some (tbl @ [(\<lparr>co_name = n, co_type = ty, co_primary_key = False\<rparr>, null)]))"
| "ddl_change same null (Rename_Column t a b) tbl =
     (if \<not> list_ex (\<lambda>(c, v). same (co_name c) a) tbl \<or> list_ex (\<lambda>(c, v). same (co_name c) b) tbl then None
      else Some (map (\<lambda>(c, v). (if same (co_name c) a then c\<lparr>co_name := b\<rparr> else c, v)) tbl))"

fun ddl_names :: "ddl \<Rightarrow> string list" where
  "ddl_names (Create_Table t cs) = t # map co_name cs @ map co_type cs"
| "ddl_names (Add_Column t n ty) = [t, n, ty]"
| "ddl_names (Rename_Column t a b) = [t, a, b]"

definition ddl_effect ::
  "(string \<Rightarrow> bool) \<Rightarrow> (string \<Rightarrow> string \<Rightarrow> bool) \<Rightarrow> 'v \<Rightarrow> ddl \<Rightarrow> (bb_migrate_column \<times> 'v) list \<Rightarrow> (bb_migrate_column \<times> 'v) list option"
where
  "ddl_effect word same null s tbl = (if list_all word (ddl_names s) then ddl_change same null s tbl else None)"

fun ddl_run ::
  "(string \<Rightarrow> bool) \<Rightarrow> (string \<Rightarrow> string \<Rightarrow> bool) \<Rightarrow> 'v \<Rightarrow> ddl list \<Rightarrow> (bb_migrate_column \<times> 'v) list \<Rightarrow>
   (bb_migrate_column \<times> 'v) list option" where
  "ddl_run word same null [] tbl = Some tbl"
| "ddl_run word same null (s # ss) tbl =
     (case ddl_effect word same null s tbl of None \<Rightarrow> None | Some tbl \<Rightarrow> ddl_run word same null ss tbl)"

abbreviation any_word :: "string \<Rightarrow> bool" where "any_word \<equiv> (\<lambda>_. True)"

lemma ddl_effect_any: "ddl_effect any_word same null s tbl = ddl_change same null s tbl"
  by (simp add: ddl_effect_def list_all_iff)

lemma ddl_run_words:
  "\<forall>s\<in>set ss. list_all word (ddl_names s) \<Longrightarrow> ddl_run word same null ss tbl = ddl_run any_word same null ss tbl"
  by (induction ss arbitrary: tbl) (simp_all add: ddl_effect_any ddl_effect_def [of word] split: option.split)

lemma ddl_run_append:
  "ddl_run word same null (ss @ ts) tbl = (case ddl_run word same null ss tbl of None \<Rightarrow> None | Some tbl \<Rightarrow> ddl_run word same null ts tbl)"
  by (induction ss arbitrary: tbl) (simp_all split: option.split)

section \<open>The text that is written\<close>

definition sb_text :: "strbuf \<Rightarrow> string" where
  "sb_text sb = (case sx_data sb of None \<Rightarrow> [] | Some s \<Rightarrow> s)"

text \<open>Appending pieces in turn: nothing is lost unless memory runs out.\<close>

definition appends :: "(strbuf \<Rightarrow> strbuf) \<Rightarrow> string \<Rightarrow> bool" where
  "appends f text' \<longleftrightarrow> (\<forall>sb. (sx_failed sb \<longrightarrow> sx_failed (f sb)) \<and> (\<not> sx_failed (f sb) \<longrightarrow> sb_text (f sb) = sb_text sb @ text'))"

lemma appends_appendf: "appends (sb_appendf mem t) t"
  by (auto simp: appends_def sb_appendf_def sb_text_def Let_def split: option.split)

lemma appends_id: "appends (\<lambda>sb. sb) []"
  by (simp add: appends_def)

lemma appends_comp: "appends f s \<Longrightarrow> appends g t \<Longrightarrow> appends (\<lambda>sb. g (f sb)) (s @ t)"
  unfolding appends_def by (metis append.assoc)

lemma appends_columns: "appends (emit_columns mem cs) (column_lines cs)"
proof (induction cs)
  case Nil
  show ?case using appends_id by (simp add: appends_def)
next
  case (Cons c cs)
  define x where "x = ''    '' @ co_name c @ '' '' @ co_type c @ (if co_primary_key c then '' PRIMARY KEY'' else []) @
    (if cs \<noteq> [] then '','' else []) @ [LF]"
  have "emit_columns mem (c # cs) = (\<lambda>sb. emit_columns mem cs (sb_appendf mem x sb))" by (rule ext) (simp add: x_def)
  moreover have "column_lines (c # cs) = x @ column_lines cs" by (simp add: x_def)
  ultimately show ?case using appends_comp [OF appends_appendf Cons.IH, of mem x] by (simp only:)
qed

lemma appends_create: "appends (emit_create_table mem spec) (ddl_text (Create_Table (ts_table spec) (ts_columns spec)))"
proof -
  define x where "x = ''CREATE TABLE IF NOT EXISTS '' @ ts_table spec @ '' ('' @ [LF]"
  define y where "y = '');'' @ [LF]"
  have "emit_create_table mem spec = (\<lambda>sb. sb_appendf mem y (emit_columns mem (ts_columns spec) (sb_appendf mem x sb)))"
    by (rule ext) (simp add: emit_create_table_def x_def y_def)
  moreover have "ddl_text (Create_Table (ts_table spec) (ts_columns spec)) = (x @ column_lines (ts_columns spec)) @ y"
    by (simp add: x_def y_def)
  ultimately show ?thesis
    using appends_comp [OF appends_comp [OF appends_appendf appends_columns] appends_appendf, of mem y mem "ts_columns spec" mem x]
    by (simp only:)
qed

lemma appends_fold: "(\<And>x. x \<in> set xs \<Longrightarrow> appends (f x) (t x)) \<Longrightarrow> appends (fold f xs) (concat (map t xs))"
proof (induction xs)
  case Nil
  show ?case using appends_id by (simp add: id_def)
next
  case (Cons x xs)
  then have "appends (f x) (t x)" "appends (fold f xs) (concat (map t xs))" by simp_all
  from appends_comp [OF this] show ?case by (simp add: comp_def)
qed

section \<open>Hints that hold\<close>

definition mines :: "gen_hint list \<Rightarrow> bb_migrate_rename list" where
  "mines hs = map gh_rename (filter gh_mine hs)"

definition holds :: "bb_migrate_table_spec \<Rightarrow> bb_migrate_table_spec \<Rightarrow> bb_migrate_rename \<Rightarrow> bool" where
  "holds exp act r \<longleftrightarrow>
     (\<exists>a e. find_column act (rn_from r) = Some a \<and> find_column exp (rn_to r) = Some e \<and>
       find_column exp (rn_from r) = None \<and> find_column act (rn_to r) = None \<and>
       co_type a = co_type e \<and> co_primary_key a = co_primary_key e)"

definition hints_hold :: "bb_migrate_table_spec \<Rightarrow> bb_migrate_table_spec \<Rightarrow> gen_hint list \<Rightarrow> bool" where
  "hints_hold exp act hs \<longleftrightarrow>
     (\<forall>h\<in>set hs. gh_mine h = gh_valid h) \<and> (\<forall>r\<in>set (mines hs). rn_table r = ts_table exp \<and> holds exp act r) \<and>
     distinct (map rn_from (mines hs)) \<and> distinct (map rn_to (mines hs))"

lemma no_rename_refusal:
  "rename_refusal exp act earlier rn = None \<Longrightarrow>
   holds exp act rn \<and> rn_from rn \<notin> rn_from ` set (mines earlier) \<and> rn_to rn \<notin> rn_to ` set (mines earlier)"
  by (auto simp: rename_refusal_def holds_def mines_def list_ex_iff split: if_splits option.splits)

lemma validated:
  "validate_renames exp act earlier rns = (hs, []) \<Longrightarrow> hints_hold exp act earlier \<Longrightarrow>
   hints_hold exp act hs \<and> set (mines hs) \<subseteq> set (mines earlier) \<union> set rns"
proof (induction rns arbitrary: earlier)
  case (Cons rn rns)
  show ?case
  proof (cases "rn_table rn = ts_table exp")
    case False
    define h where "h = \<lparr>gh_rename = rn, gh_mine = False, gh_valid = False\<rparr>"
    have m: "mines (earlier @ [h]) = mines earlier" by (simp add: mines_def h_def)
    have "validate_renames exp act (earlier @ [h]) rns = (hs, [])" using Cons.prems(1) False by (simp add: h_def)
    moreover have "hints_hold exp act (earlier @ [h])" using Cons.prems(2) unfolding hints_hold_def m by (auto simp: h_def)
    ultimately show ?thesis using Cons.IH m by fastforce
  next
    case True
    have none: "rename_refusal exp act earlier rn = None"
      using Cons.prems(1) True by (auto split: option.splits prod.splits)
    define h where "h = \<lparr>gh_rename = rn, gh_mine = True, gh_valid = True\<rparr>"
    have m: "mines (earlier @ [h]) = mines earlier @ [rn]" by (simp add: mines_def h_def)
    have "validate_renames exp act (earlier @ [h]) rns = (hs, [])" using Cons.prems(1) True none by (simp add: h_def)
    moreover have "hints_hold exp act (earlier @ [h])"
      using Cons.prems(2) no_rename_refusal [OF none] True unfolding hints_hold_def m by (auto simp: h_def)
    ultimately show ?thesis using Cons.IH m by fastforce
  qed
qed simp

lemma consumed:
  assumes "hints_hold exp act (gc_hints g)"
  shows "consumed_from g c \<longleftrightarrow> c \<in> rn_from ` set (mines (gc_hints g))" and "consumed_to g c \<longleftrightarrow> c \<in> rn_to ` set (mines (gc_hints g))"
  using assms unfolding hints_hold_def by (auto simp: consumed_from_def consumed_to_def list_ex_iff mines_def)

section \<open>Running the renames\<close>

definition rename_one :: "bb_migrate_rename \<Rightarrow> bb_migrate_column \<Rightarrow> bb_migrate_column" where
  "rename_one r c = (if co_name c = rn_from r then c\<lparr>co_name := rn_to r\<rparr> else c)"

lemma name_renamed: "co_name (rename_one r c) = (if co_name c = rn_from r then rn_to r else co_name c)"
  by (simp add: rename_one_def)

definition renamed :: "bb_migrate_rename list \<Rightarrow> bb_migrate_column \<Rightarrow> bb_migrate_column" where
  "renamed rs c = (case find (\<lambda>r. rn_from r = co_name c) rs of None \<Rightarrow> c | Some r \<Rightarrow> c\<lparr>co_name := rn_to r\<rparr>)"

lemma renamed_step:
  assumes "rn_to r \<notin> rn_from ` set rs" shows "renamed (r # rs) c = renamed rs (rename_one r c)"
proof (cases "rn_from r = co_name c")
  case True
  have "find (\<lambda>r'. rn_from r' = rn_to r) rs = None" using assms unfolding find_None_iff by (metis imageI)
  then show ?thesis using True by (simp add: renamed_def rename_one_def)
qed (auto simp: renamed_def rename_one_def)

definition same_on :: "(string \<Rightarrow> string \<Rightarrow> bool) \<Rightarrow> string set \<Rightarrow> bool" where
  "same_on same A \<longleftrightarrow> (\<forall>a\<in>A. \<forall>b\<in>A. same a b = (a = b))"

definition columns :: "(bb_migrate_column \<times> 'v) list \<Rightarrow> bb_migrate_column list" where
  "columns tbl = map fst tbl"

definition renames_of :: "string \<Rightarrow> bb_migrate_rename list \<Rightarrow> ddl list" where
  "renames_of t rs = map (\<lambda>r. Rename_Column t (rn_from r) (rn_to r)) rs"

lemma names_mapped: "names (columns (map (\<lambda>(c, v). (f c, v)) tbl)) = co_name ` f ` set (columns tbl)"
  by (force simp: names_def columns_def)

lemma keeps_inside: "F \<subseteq> N \<Longrightarrow> x \<notin> F \<Longrightarrow> F \<subseteq> N - {x} \<union> {y}"
  by blast

lemma keeps_outside: "T \<inter> N = {} \<Longrightarrow> y \<notin> T \<Longrightarrow> T \<inter> (N - {x} \<union> {y}) = {}"
  by blast

lemma run_renames:
  assumes "same_on same A"
  shows "names (columns tbl) \<subseteq> A \<Longrightarrow> rn_to ` set rs \<subseteq> A \<Longrightarrow> rn_from ` set rs \<subseteq> names (columns tbl) \<Longrightarrow>
    rn_to ` set rs \<inter> names (columns tbl) = {} \<Longrightarrow> distinct (map rn_from rs) \<Longrightarrow> distinct (map rn_to rs) \<Longrightarrow>
    ddl_run any_word same null (renames_of t rs) tbl = Some (map (\<lambda>(c, v). (renamed rs c, v)) tbl)"
proof (induction rs arbitrary: tbl)
  case Nil
  then show ?case by (simp add: renames_of_def renamed_def case_prod_unfold)
next
  case (Cons r rs)
  define tbl' where "tbl' = map (\<lambda>(c, v). (rename_one r c, v)) tbl"
  have same: "same (co_name c) n = (co_name c = n)" if "(c, v) \<in> set tbl" "n \<in> A" for c v n
  proof -
    have "co_name c \<in> A" using that(1) Cons.prems(1) unfolding names_def columns_def by force
    then show ?thesis using assms that(2) unfolding same_on_def by blast
  qed
  have rA: "rn_from r \<in> A" "rn_to r \<in> A" using Cons.prems(1,2,3) by auto
  obtain c v where c: "(c, v) \<in> set tbl" "co_name c = rn_from r" using Cons.prems(3) unfolding names_def columns_def by auto
  have fresh: "co_name c \<noteq> rn_to r" if "(c, v) \<in> set tbl" for c v
    using Cons.prems(4) that unfolding names_def columns_def by force
  have has_from: "list_ex (\<lambda>(c, v). same (co_name c) (rn_from r)) tbl" using c same [OF c(1) rA(1)] unfolding list_ex_iff by force
  have no_to: "\<not> list_ex (\<lambda>(c, v). same (co_name c) (rn_to r)) tbl" using same rA(2) fresh by (auto simp: list_ex_iff)
  have "map (\<lambda>(c, v). (if same (co_name c) (rn_from r) then c\<lparr>co_name := rn_to r\<rparr> else c, v)) tbl = tbl'"
    unfolding tbl'_def rename_one_def using same rA(1) by auto
  then have step: "ddl_effect any_word same null (Rename_Column t (rn_from r) (rn_to r)) tbl = Some tbl'"
    using has_from no_to by (simp add: ddl_effect_any)
  have from_in: "rn_from r \<in> names (columns tbl)" using Cons.prems(3) by simp
  have "names (columns tbl') = (\<lambda>n. if n = rn_from r then rn_to r else n) ` names (columns tbl)"
    unfolding tbl'_def names_mapped unfolding names_def image_image name_renamed ..
  then have ns: "names (columns tbl') = (names (columns tbl) - {rn_from r}) \<union> {rn_to r}" using from_in by auto
  have IH: "ddl_run any_word same null (renames_of t rs) tbl' = Some (map (\<lambda>(c, v). (renamed rs c, v)) tbl')"
  proof (rule Cons.IH)
    show "names (columns tbl') \<subseteq> A" "rn_to ` set rs \<subseteq> A" using ns Cons.prems(1,2) rA by auto
    show "rn_from ` set rs \<subseteq> names (columns tbl')" unfolding ns by (rule keeps_inside) (use Cons.prems(3,5) in simp_all)
    show "rn_to ` set rs \<inter> names (columns tbl') = {}" unfolding ns by (rule keeps_outside) (use Cons.prems(4,6) in simp_all)
    show "distinct (map rn_from rs)" "distinct (map rn_to rs)" using Cons.prems(5,6) by auto
  qed
  have "rn_to r \<notin> rn_from ` set rs" using Cons.prems(3,4) by auto
  then have "map (\<lambda>(c, v). (renamed rs c, v)) tbl' = map (\<lambda>(c, v). (renamed (r # rs) c, v)) tbl"
    by (simp add: tbl'_def renamed_step case_prod_unfold)
  then show ?case using step IH by (simp add: renames_of_def)
qed

section \<open>Running the additions\<close>

definition plain_column :: "bb_migrate_column \<Rightarrow> bb_migrate_column" where
  "plain_column c = \<lparr>co_name = co_name c, co_type = co_type c, co_primary_key = False\<rparr>"

definition adds_of :: "string \<Rightarrow> bb_migrate_column list \<Rightarrow> ddl list" where
  "adds_of t cs = map (\<lambda>c. Add_Column t (co_name c) (co_type c)) cs"

lemma run_adds:
  assumes "same_on same A"
  shows "tbl \<noteq> [] \<Longrightarrow> names (columns tbl) \<subseteq> A \<Longrightarrow> names cs \<subseteq> A \<Longrightarrow> distinct (map co_name cs) \<Longrightarrow>
    names (columns tbl) \<inter> names cs = {} \<Longrightarrow>
    ddl_run any_word same null (adds_of t cs) tbl = Some (tbl @ map (\<lambda>c. (plain_column c, null)) cs)"
proof (induction cs arbitrary: tbl)
  case (Cons c cs)
  define tbl' where "tbl' = tbl @ [(plain_column c, null)]"
  have "\<not> same (co_name d) (co_name c)" if "(d, v) \<in> set tbl" for d v
  proof -
    have "co_name d \<in> names (columns tbl)" using that unfolding names_def columns_def by force
    moreover have "co_name c \<in> names (c # cs)" by (simp add: names_def)
    ultimately have "co_name d \<noteq> co_name c" "co_name d \<in> A" "co_name c \<in> A" using Cons.prems(2,3,5) by auto
    then show ?thesis using assms unfolding same_on_def by blast
  qed
  then have none: "\<not> list_ex (\<lambda>(d, v). same (co_name d) (co_name c)) tbl" by (auto simp: list_ex_iff)
  have ns: "names (columns tbl') = insert (co_name c) (names (columns tbl))" "names (c # cs) = insert (co_name c) (names cs)"
    by (simp_all add: tbl'_def names_def columns_def plain_column_def)
  have "co_name c \<notin> names cs" using Cons.prems(4) by (simp add: names_def)
  then have "names (columns tbl') \<inter> names cs = {}" "names (columns tbl') \<subseteq> A" "names cs \<subseteq> A"
    using Cons.prems(2,3,5) unfolding ns by auto
  then have "ddl_run any_word same null (adds_of t cs) tbl' = Some (tbl' @ map (\<lambda>c. (plain_column c, null)) cs)"
    using Cons.prems(4) by (intro Cons.IH) (simp_all add: tbl'_def)
  then show ?case using Cons.prems(1) none by (simp add: adds_of_def tbl'_def plain_column_def ddl_effect_any)
qed (simp add: adds_of_def)

lemma distinct_by_same: "same_on same A \<Longrightarrow> set ns \<subseteq> A \<Longrightarrow> distinct_by same ns = distinct ns"
proof (induction ns)
  case (Cons n ns)
  have "list_ex (same n) ns \<longleftrightarrow> n \<in> set ns" using Cons.prems unfolding same_on_def list_ex_iff by (metis insert_subset list.simps(15) subsetD)
  then show ?case using Cons by simp
qed simp

section \<open>The statements of a generated migration\<close>

definition added :: "gen_ctx \<Rightarrow> bb_migrate_column list" where
  "added g = filter (\<lambda>e. find_column (gc_actual g) (co_name e) = None \<and> \<not> consumed_to g (co_name e)) (ts_columns (gc_expected g))"

definition alter_text :: "gen_ctx \<Rightarrow> bb_migrate_diff \<Rightarrow> string" where
  "alter_text g d =
     (if df_kind d = DIFF_COLUMN_MISSING \<and> \<not> consumed_to g (shown (df_column d))
      then ddl_text (Add_Column (df_table d) (shown (df_column d)) (shown (df_expected_type d))) else [])"

lemma appends_alter: "appends (emit_alter mem g d) (alter_text g d)"
proof (cases "df_kind d = DIFF_COLUMN_MISSING \<and> \<not> consumed_to g (shown (df_column d))")
  case True
  then have "emit_alter mem g d = sb_appendf mem (alter_text g d)" by (intro ext) (simp add: emit_alter_def alter_text_def)
  then show ?thesis using appends_appendf by (simp only:)
next
  case False
  then have "emit_alter mem g d = (\<lambda>sb. sb)" "alter_text g d = []" by (auto simp: emit_alter_def alter_text_def)
  then show ?thesis using appends_id by (simp only:)
qed

definition rename_text :: "string \<Rightarrow> gen_hint \<Rightarrow> string" where
  "rename_text t h =
     (if gh_mine h \<and> gh_valid h then ddl_text (Rename_Column t (rn_from (gh_rename h)) (rn_to (gh_rename h))) else [])"

lemma appends_rename: "appends (emit_rename mem t h) (rename_text t h)"
proof (cases "gh_mine h \<and> gh_valid h")
  case True
  then have "emit_rename mem t h = sb_appendf mem (rename_text t h)" by (intro ext) (simp add: emit_rename_def rename_text_def)
  then show ?thesis using appends_appendf by (simp only:)
next
  case False
  then have "emit_rename mem t h = (\<lambda>sb. sb)" "rename_text t h = []" by (auto simp: emit_rename_def rename_text_def)
  then show ?thesis using appends_id by (simp only:)
qed

lemma rename_texts:
  "\<forall>h\<in>set hs. gh_mine h = gh_valid h \<Longrightarrow> concat (map (rename_text t) hs) = concat (map ddl_text (renames_of t (mines hs)))"
  by (induction hs) (auto simp: rename_text_def renames_of_def mines_def)

lemma alter_expected:
  "concat (map (alter_text g) (diff_expected t actual e)) =
     (if find_column actual (co_name e) = None \<and> \<not> consumed_to g (co_name e)
      then ddl_text (Add_Column t (co_name e) (co_type e)) else [])"
  by (auto simp: diff_expected_def alter_text_def shown_def split: option.split)

lemma alter_texts:
  assumes "ts_columns (gc_actual g) \<noteq> []"
  shows "concat (map (alter_text g) (bb_migrate_spec_diff (gc_expected g) (gc_actual g))) =
    concat (map ddl_text (adds_of (ts_table (gc_expected g)) (added g)))"
proof -
  have 1: "concat (map (alter_text g) (concat (map (diff_expected t actual) es))) =
      concat (map ddl_text (adds_of t (filter (\<lambda>e. find_column actual (co_name e) = None \<and> \<not> consumed_to g (co_name e)) es)))" for t actual es
    by (induction es) (simp_all add: alter_expected adds_of_def del: ddl_text.simps)
  have 2: "concat (map (alter_text g) (concat (map (diff_actual expected) as))) = []" for expected as
    by (induction as) (simp_all add: diff_actual_def alter_text_def)
  show ?thesis using assms 1 2 by (simp add: bb_migrate_spec_diff_def added_def del: ddl_text.simps)
qed

lemma appended_text:
  assumes "appends f t" and "\<not> sx_failed (f empty_strbuf)" and "sx_data (f empty_strbuf) = Some s"
  shows "s = t"
proof -
  have "sb_text (f empty_strbuf) = sb_text empty_strbuf @ t" using assms(1,2) unfolding appends_def by blast
  then show ?thesis using assms(3) by (simp add: sb_text_def empty_strbuf_def)
qed

lemma appends_seq: "appends f s \<Longrightarrow> appends g t \<Longrightarrow> appends (g \<circ> f) (s @ t)"
  using appends_comp [of f s g t] by (simp add: comp_def)

definition statements :: "gen_ctx \<Rightarrow> ddl list" where
  "statements g =
     (if ts_columns (gc_actual g) = [] then [Create_Table (ts_table (gc_expected g)) (ts_columns (gc_expected g))]
      else renames_of (ts_table (gc_expected g)) (mines (gc_hints g)) @ adds_of (ts_table (gc_expected g)) (added g))"

lemma generated_text:
  assumes "bb_migrate_generate_sql mem expected actual renames = GEN_OK sql"
  shows "\<exists>g. gc_expected g = expected \<and> gc_actual g = actual \<and> hints_hold expected actual (gc_hints g) \<and>
    set (mines (gc_hints g)) \<subseteq> set renames \<and> (\<forall>d\<in>set (bb_migrate_spec_diff expected actual). scan_for_refusals g d = []) \<and>
    sql = concat (map ddl_text (statements g))"
proof -
  obtain hints bad where v: "validate_renames expected actual [] renames = (hints, bad)" by fastforce
  define g where "g = \<lparr>gc_expected = expected, gc_actual = actual, gc_hints = hints\<rparr>"
  define sb where "sb = (if ts_columns actual = [] then emit_create_table mem expected empty_strbuf
    else fold (emit_alter mem g) (bb_migrate_spec_diff expected actual) (fold (emit_rename mem (ts_table expected)) hints empty_strbuf))"
  have ok: "bad = []" "\<forall>d\<in>set (bb_migrate_spec_diff expected actual). scan_for_refusals g d = []" "\<not> sx_failed sb" "sx_data sb = Some sql"
    using assms unfolding bb_migrate_generate_sql_def v Let_def prod.case g_def [symmetric] sb_def [symmetric]
    by (auto split: if_splits option.splits)
  have hold: "hints_hold expected actual hints" "set (mines hints) \<subseteq> set renames"
    using validated [OF v [unfolded ok(1)]] by (simp_all add: hints_hold_def mines_def)
  have "sql = concat (map ddl_text (statements g))"
  proof (cases "ts_columns actual = []")
    case True
    then show ?thesis using appended_text [OF appends_create, of mem expected sql] ok(3,4) by (simp add: sb_def statements_def g_def del: ddl_text.simps)
  next
    case False
    have a: "appends (fold (emit_alter mem g) (bb_migrate_spec_diff expected actual) \<circ> fold (emit_rename mem (ts_table expected)) hints)
        (concat (map (rename_text (ts_table expected)) hints) @ concat (map (alter_text g) (bb_migrate_spec_diff expected actual)))"
      by (intro appends_seq appends_fold appends_rename appends_alter)
    have "sql = concat (map (rename_text (ts_table expected)) hints) @ concat (map (alter_text g) (bb_migrate_spec_diff expected actual))"
      using appended_text [OF a, of sql] ok(3,4) False by (simp add: sb_def)
    moreover have "concat (map (rename_text (ts_table expected)) hints) = concat (map ddl_text (renames_of (ts_table expected) (mines hints)))"
      using hold(1) unfolding hints_hold_def by (intro rename_texts) blast
    ultimately show ?thesis using alter_texts [of g] False by (simp add: statements_def g_def)
  qed
  then show ?thesis using hold ok(2) by (intro exI [of _ g]) (simp add: g_def)
qed

lemma renamed_cases:
  "(\<exists>r\<in>set rs. rn_from r = co_name c \<and> renamed rs c = c\<lparr>co_name := rn_to r\<rparr>) \<or>
   (co_name c \<notin> rn_from ` set rs \<and> renamed rs c = c)"
proof (cases "find (\<lambda>r. rn_from r = co_name c) rs")
  case None
  then have "renamed rs c = c" by (simp add: renamed_def)
  moreover have "co_name c \<notin> rn_from ` set rs" using None unfolding find_None_iff by force
  ultimately show ?thesis by blast
next
  case (Some r)
  then have "r \<in> set rs" "rn_from r = co_name c" by (auto simp: find_Some_iff)
  then show ?thesis using Some by (auto simp: renamed_def)
qed

text \<open>What the absence of refusals says about the columns.\<close>

lemma accepted_columns:
  assumes ok: "\<forall>d\<in>set (bb_migrate_spec_diff expected actual). scan_for_refusals g d = []" and ne: "ts_columns actual \<noteq> []"
  shows "e \<in> set (ts_columns expected) \<Longrightarrow> find_column actual (co_name e) = Some a \<Longrightarrow> co_type a = co_type e \<and> co_primary_key a = co_primary_key e"
    and "e \<in> set (ts_columns expected) \<Longrightarrow> find_column actual (co_name e) = None \<Longrightarrow> consumed_to g (co_name e) \<or> \<not> co_primary_key e"
    and "a \<in> set (ts_columns actual) \<Longrightarrow> find_column expected (co_name a) = None \<Longrightarrow> consumed_from g (co_name a)"
proof -
  have e: "concat (map (scan_for_refusals g) (diff_expected (ts_table expected) actual e)) = []" if "e \<in> set (ts_columns expected)" for e
    using ok ne that by (auto simp: bb_migrate_spec_diff_def)
  have a: "concat (map (scan_for_refusals g) (diff_actual expected a)) = []" if "a \<in> set (ts_columns actual)" for a
    using ok ne that by (auto simp: bb_migrate_spec_diff_def)
  show "e \<in> set (ts_columns expected) \<Longrightarrow> find_column actual (co_name e) = Some a \<Longrightarrow> co_type a = co_type e \<and> co_primary_key a = co_primary_key e"
    using e [of e] by (simp add: diff_expected_def scan_for_refusals_def split: if_splits) blast
  show "e \<in> set (ts_columns expected) \<Longrightarrow> find_column actual (co_name e) = None \<Longrightarrow> consumed_to g (co_name e) \<or> \<not> co_primary_key e"
    using e [of e] by (simp add: diff_expected_def scan_for_refusals_def shown_def Let_def split: if_splits)
  show "a \<in> set (ts_columns actual) \<Longrightarrow> find_column expected (co_name a) = None \<Longrightarrow> consumed_from g (co_name a)"
    using a [of a] by (simp add: diff_actual_def scan_for_refusals_def shown_def Let_def split: if_splits)
qed

text \<open>The table after the statements have run on one that exists.\<close>

lemma run_statements:
  fixes tbl :: "(bb_migrate_column \<times> 'v) list" and null :: 'v
  assumes h: "hints_hold expected actual (gc_hints g)" and g: "gc_expected g = expected" "gc_actual g = actual"
    and ok: "\<forall>d\<in>set (bb_migrate_spec_diff expected actual). scan_for_refusals g d = []"
    and dist: "distinct (map co_name (ts_columns expected))" "distinct (map co_name (ts_columns actual))"
    and same: "same_on same (names (ts_columns expected) \<union> names (ts_columns actual))"
    and tbl: "columns tbl = ts_columns actual" and ne: "tbl \<noteq> []"
  defines "H \<equiv> mines (gc_hints g)"
  defines "T \<equiv> map (\<lambda>(c, v). (renamed H c, v)) tbl @ map (\<lambda>c. (plain_column c, null)) (added g)"
  shows "ddl_run any_word same null (statements g) tbl = Some T \<and> distinct (map co_name (columns T)) \<and>
    set (ts_columns expected) \<subseteq> set (columns T) \<and> names (columns T) \<subseteq> names (ts_columns expected)"
proof -
  define E where "E = ts_columns expected"
  define A where "A = ts_columns actual"
  have A: "A \<noteq> []" using tbl ne by (auto simp: A_def columns_def)
  note acc = accepted_columns [OF ok, folded A_def E_def, OF A]
  have findA: "find_column actual n = Some c \<longleftrightarrow> c \<in> set A \<and> co_name c = n" "find_column actual n = None \<longleftrightarrow> n \<notin> names A" for n c
    using find_in_distinct [OF dist(2)] find_in_none by (simp_all add: find_column_def A_def)
  have findE: "find_column expected n = Some c \<longleftrightarrow> c \<in> set E \<and> co_name c = n" "find_column expected n = None \<longleftrightarrow> n \<notin> names E" for n c
    using find_in_distinct [OF dist(1)] find_in_none by (simp_all add: find_column_def E_def)
  have H: "\<exists>a e. a \<in> set A \<and> co_name a = rn_from r \<and> e \<in> set E \<and> co_name e = rn_to r \<and> rn_from r \<notin> names E \<and> rn_to r \<notin> names A \<and>
      co_type a = co_type e \<and> co_primary_key a = co_primary_key e" if "r \<in> set H" for r
    using h that unfolding hints_hold_def holds_def H_def findA findE by blast
  have from_A: "rn_from ` set H \<subseteq> names A" and from_E: "rn_from ` set H \<inter> names E = {}"
    and to_E: "rn_to ` set H \<subseteq> names E" and to_A: "rn_to ` set H \<inter> names A = {}"
  proof -
    have "rn_from r \<in> names A \<and> rn_to r \<in> names E \<and> rn_from r \<notin> names E \<and> rn_to r \<notin> names A" if r: "r \<in> set H" for r
      using H [OF r] names_in by metis
    then show "rn_from ` set H \<subseteq> names A" "rn_from ` set H \<inter> names E = {}" "rn_to ` set H \<subseteq> names E" "rn_to ` set H \<inter> names A = {}"
      by auto
  qed
  have dH: "distinct (map rn_from H)" "distinct (map rn_to H)" using h unfolding hints_hold_def H_def by auto
  note consumed = consumed [OF h, folded H_def]
  define R where "R = map (\<lambda>(c, v). (renamed H c, v)) tbl"
  have "columns R = map (renamed H) (columns tbl)" unfolding R_def columns_def by (induction tbl) auto
  then have colR: "columns R = map (renamed H) A" unfolding tbl A_def .
  have nameR: "co_name (renamed H a) \<in> names E" if "a \<in> set A" for a
  proof -
    from renamed_cases [of H a] show ?thesis
    proof
      assume "\<exists>r\<in>set H. rn_from r = co_name a \<and> renamed H a = a\<lparr>co_name := rn_to r\<rparr>"
      then show ?thesis using to_E by auto
    next
      assume n: "co_name a \<notin> rn_from ` set H \<and> renamed H a = a"
      then have "co_name a \<in> names E" using acc(3) [OF that] unfolding consumed(1) findE by blast
      then show ?thesis using n by simp
    qed
  qed
  have injR: "a = b" if ab: "a \<in> set A" "b \<in> set A" and eq: "co_name (renamed H a) = co_name (renamed H b)" for a b
  proof -
    have n: "co_name a \<in> names A" "co_name b \<in> names A" using ab by (simp_all add: names_in)
    have out: "rn_to r \<notin> names A" if "r \<in> set H" for r using to_A that by blast
    have one: "r = r'" if "r \<in> set H" "r' \<in> set H" "rn_to r = rn_to r'" for r r'
      using dH(2) that unfolding distinct_map by (meson inj_onD)
    have "co_name a = co_name b"
      using renamed_cases [of H a]
    proof (elim disjE bexE conjE)
      fix r assume r: "r \<in> set H" "rn_from r = co_name a" "renamed H a = a\<lparr>co_name := rn_to r\<rparr>"
      show ?thesis
        using renamed_cases [of H b]
      proof (elim disjE bexE conjE)
        fix r' assume r': "r' \<in> set H" "rn_from r' = co_name b" "renamed H b = b\<lparr>co_name := rn_to r'\<rparr>"
        then have "r = r'" using one [OF r(1) r'(1)] eq r(3) by simp
        then show ?thesis using r(2) r'(2) by simp
      next
        assume "renamed H b = b"
        then show ?thesis using eq r(3) out [OF r(1)] n(2) by simp
      qed
    next
      assume a: "renamed H a = a"
      show ?thesis
        using renamed_cases [of H b]
      proof (elim disjE bexE conjE)
        fix r' assume r': "r' \<in> set H" "renamed H b = b\<lparr>co_name := rn_to r'\<rparr>"
        then show ?thesis using eq a out [OF r'(1)] n(1) by simp
      qed (use eq a in simp)
    qed
    then show ?thesis using findA(1) [of "co_name a"] ab by (metis option.inject)
  qed
  have M: "added g = filter (\<lambda>e. co_name e \<notin> names A \<and> co_name e \<notin> rn_to ` set H) E"
    unfolding added_def g findA consumed E_def ..
  have nameM: "names (added g) \<subseteq> names E" "names (added g) \<inter> names A = {}" "names (added g) \<inter> rn_to ` set H = {}"
    unfolding M names_def by auto
  have "names (columns R) \<subseteq> (names A - rn_from ` set H) \<union> rn_to ` set H"
  proof
    fix n assume "n \<in> names (columns R)"
    then obtain a where a: "a \<in> set A" "n = co_name (renamed H a)" unfolding colR names_def by auto
    then show "n \<in> (names A - rn_from ` set H) \<union> rn_to ` set H"
      using renamed_cases [of H a] by (auto simp: names_def)
  qed
  then have disj: "names (columns R) \<inter> names (added g) = {}" using nameM(2,3) by blast
  have dR: "distinct (map co_name (columns R))"
    using dist(2) injR unfolding colR by (auto simp: A_def distinct_map inj_on_def)
  have dM: "distinct (map co_name (added g))" unfolding M using dist(1) by (simp add: E_def distinct_map_filter)
  have pl: "co_name (plain_column c) = co_name c" for c by (simp add: plain_column_def)
  have colT: "columns T = columns R @ map plain_column (added g)" by (simp add: T_def R_def columns_def)
  have dT: "distinct (map co_name (columns T))"
    using dR dM disj unfolding colT by (auto simp: names_def pl comp_def)
  have inside: "names (columns T) \<subseteq> names E"
    using nameR nameM(1) unfolding colT colR by (auto simp: names_def pl)
  have all: "e \<in> set (columns T)" if e: "e \<in> set E" for e
  proof -
    have en: "co_name e \<in> names E" using e by (simp add: names_def)
    consider (kept) a where "a \<in> set A" "co_name a = co_name e" | (moved) r where "r \<in> set H" "rn_to r = co_name e"
      | (new) "e \<in> set (added g)"
    proof (cases "co_name e \<in> names A \<or> co_name e \<in> rn_to ` set H")
      case True
      then show ?thesis
      proof
        assume "co_name e \<in> names A"
        then obtain a where "a \<in> set A" "co_name a = co_name e" unfolding names_def by force
        then show ?thesis by (rule that(1))
      next
        assume "co_name e \<in> rn_to ` set H"
        then obtain r where "r \<in> set H" "rn_to r = co_name e" by force
        then show ?thesis by (rule that(2))
      qed
    next
      case False
      then have "e \<in> set (added g)" using e by (simp add: M)
      then show ?thesis by (rule that(3))
    qed
    then show ?thesis
    proof cases
      case kept
      then have "a = e" using acc(1) [OF e, of a] findA(1) column_eq by blast
      moreover have "renamed H e = e" using renamed_cases [of H e] from_E en by auto
      ultimately show ?thesis using kept(1) unfolding colT colR by (metis UnCI image_eqI set_append set_map)
    next
      case moved
      obtain a d where a: "a \<in> set A" "co_name a = rn_from r" "d \<in> set E" "co_name d = rn_to r"
        "co_type a = co_type d" "co_primary_key a = co_primary_key d" using H [OF moved(1)] by blast
      have d: "d = e" using a(3,4) moved(2) e findE(1) [of "co_name e"] by (metis option.inject)
      have "co_name a \<in> rn_from ` set H" using moved(1) a(2) by auto
      then obtain r' where r': "r' \<in> set H" "rn_from r' = co_name a" "renamed H a = a\<lparr>co_name := rn_to r'\<rparr>"
        using renamed_cases [of H a] by blast
      have "r' = r" using r'(1,2) moved(1) a(2) dH(1) by (auto simp: distinct_map inj_on_def)
      then have "renamed H a = e" using r'(3) a(5,6) moved(2) d by simp
      then show ?thesis using a(1) unfolding colT colR by auto
    next
      case new
      then have "find_column actual (co_name e) = None" "\<not> consumed_to g (co_name e)" unfolding findA consumed M by auto
      then have "\<not> co_primary_key e" using acc(2) [OF e] by blast
      then have "plain_column e = e" by (simp add: plain_column_def)
      then show ?thesis using new unfolding colT by (metis UnCI image_eqI set_append set_map)
    qed
  qed
  have "statements g = renames_of (ts_table expected) H @ adds_of (ts_table expected) (added g)"
    using A by (simp add: statements_def g A_def H_def)
  moreover have "ddl_run any_word same null (renames_of (ts_table expected) H) tbl = Some R"
    unfolding R_def using from_A to_E to_A dH
    by (intro run_renames [OF same]) (auto simp: tbl A_def E_def names_def)
  moreover have "ddl_run any_word same null (adds_of (ts_table expected) (added g)) R = Some (R @ map (\<lambda>c. (plain_column c, null)) (added g))"
    using ne nameM(1) nameR disj dM by (intro run_adds [OF same]) (auto simp: R_def colR [unfolded R_def] names_def E_def)
  ultimately have "ddl_run any_word same null (statements g) tbl = Some T" by (simp add: ddl_run_append T_def R_def)
  then show ?thesis using dT inside all unfolding E_def by blast
qed

lemma kept_columns:
  assumes h: "hints_hold expected actual hs" and rs: "set (mines hs) \<subseteq> set renames" and c: "(c, v) \<in> set tbl"
  shows "\<exists>n. (c\<lparr>co_name := n\<rparr>, v) \<in> set (map (\<lambda>(c, v). (renamed (mines hs) c, v)) tbl) \<and>
    (n = co_name c \<or> \<lparr>rn_table = ts_table expected, rn_from = co_name c, rn_to = n\<rparr> \<in> set renames)"
proof -
  have there: "(renamed (mines hs) c, v) \<in> set (map (\<lambda>(c, v). (renamed (mines hs) c, v)) tbl)" using c by force
  from renamed_cases [of "mines hs" c] show ?thesis
  proof (elim disjE bexE conjE)
    fix r assume r: "r \<in> set (mines hs)" "rn_from r = co_name c" "renamed (mines hs) c = c\<lparr>co_name := rn_to r\<rparr>"
    have "rn_table r = ts_table expected" using h r(1) unfolding hints_hold_def by blast
    then have "r = \<lparr>rn_table = ts_table expected, rn_from = co_name c, rn_to = rn_to r\<rparr>" using r(2) by (cases r) simp
    then show ?thesis using there r rs by (intro exI [of _ "rn_to r"]) auto
  next
    assume "renamed (mines hs) c = c"
    then show ?thesis using there by (intro exI [of _ "co_name c"]) simp
  qed
qed

lemma statement_words:
  assumes h: "hints_hold expected actual (gc_hints g)" and g: "gc_expected g = expected" "gc_actual g = actual"
    and t: "word (ts_table expected)" and c: "\<forall>c\<in>set (ts_columns expected). word (co_name c) \<and> word (co_type c)"
    and f: "\<forall>r\<in>set renames. rn_table r = ts_table expected \<longrightarrow> word (rn_from r)"
  shows "set (mines (gc_hints g)) \<subseteq> set renames \<Longrightarrow> \<forall>s\<in>set (statements g). list_all word (ddl_names s)"
proof -
  assume rs: "set (mines (gc_hints g)) \<subseteq> set renames"
  have r: "word (rn_from r) \<and> word (rn_to r)" if "r \<in> set (mines (gc_hints g))" for r
  proof -
    have "rn_table r = ts_table expected" "holds expected actual r" using h that unfolding hints_hold_def by blast+
    moreover from this(2) obtain e where "find_column expected (rn_to r) = Some e" unfolding holds_def by blast
    then have "e \<in> set (ts_columns expected) \<and> co_name e = rn_to r" using find_in_some unfolding find_column_def by blast
    moreover have "r \<in> set renames" using rs that by blast
    ultimately show ?thesis using c f by metis
  qed
  then show ?thesis using t c by (auto simp: statements_def g renames_of_def adds_of_def added_def list_all_iff)
qed

text \<open>C17: A generated migration closes the gap and loses nothing. Whatever the table of the database, its
  manifest and the declared renames, when \<open>bb_migrate_generate_sql\<close> gives SQL, it is a list of statements
  (creating the table, renaming and adding columns) that the database accepts; afterwards
  \<open>bb_migrate_spec_diff\<close> finds no difference to the manifest, and each column of the old table is still
  there with its type, its key and all it holds, under its name or the one a declared rename gave it.
  Nothing in the generator looks at these, so they are hypotheses: a manifest has a column, and all its names, as
  the old names that are renamed, are ones the database reads unquoted; column names are different, for the
  database too; a table that is created has at most one primary key (the theorems that follow show what
  is generated otherwise).\<close>

theorem generated_sql_closes_the_gap:
  assumes gen: "bb_migrate_generate_sql mem expected actual renames = GEN_OK sql"
    and ne: "ts_columns expected \<noteq> []" and tbl: "columns tbl = ts_columns actual"
    and dist: "distinct (map co_name (ts_columns expected))" "distinct (map co_name (ts_columns actual))"
    and same: "same_on same (names (ts_columns expected) \<union> names (ts_columns actual))"
    and words: "word (ts_table expected)" "\<forall>c\<in>set (ts_columns expected). word (co_name c) \<and> word (co_type c)"
      "\<forall>r\<in>set renames. rn_table r = ts_table expected \<longrightarrow> word (rn_from r)"
    and key: "ts_columns actual = [] \<longrightarrow> keys_of (ts_columns expected) \<le> 1"
  shows "\<exists>stmts tbl'. sql = concat (map ddl_text stmts) \<and> ddl_run word same null stmts tbl = Some tbl' \<and>
    bb_migrate_spec_diff expected (actual\<lparr>ts_columns := columns tbl'\<rparr>) = [] \<and>
    (\<forall>(c, v)\<in>set tbl. \<exists>n. (c\<lparr>co_name := n\<rparr>, v) \<in> set tbl' \<and>
      (n = co_name c \<or> \<lparr>rn_table = ts_table expected, rn_from = co_name c, rn_to = n\<rparr> \<in> set renames))"
proof -
  obtain g where g: "gc_expected g = expected" "gc_actual g = actual" and h: "hints_hold expected actual (gc_hints g)"
    and rs: "set (mines (gc_hints g)) \<subseteq> set renames" and ok: "\<forall>d\<in>set (bb_migrate_spec_diff expected actual). scan_for_refusals g d = []"
    and sql: "sql = concat (map ddl_text (statements g))"
    using generated_text [OF gen] by blast
  have w: "ddl_run word same null (statements g) tbl = ddl_run any_word same null (statements g) tbl"
    using statement_words [OF h g words] rs by (intro ddl_run_words) blast
  show ?thesis
  proof (cases "tbl = []")
    case True
    define T where "T = map (\<lambda>c. (c, null)) (ts_columns expected)"
    have a: "ts_columns actual = []" using True tbl by (simp add: columns_def)
    have "distinct_by same (map co_name (ts_columns expected))"
      using distinct_by_same [OF same, of "map co_name (ts_columns expected)"] dist(1) by (simp add: names_def)
    then have run: "ddl_run word same null (statements g) tbl = Some T"
      unfolding w using True ne a key by (simp add: statements_def g T_def ddl_effect_any)
    have "columns T = ts_columns expected" by (simp add: columns_def T_def comp_def)
    then have "bb_migrate_spec_diff expected (actual\<lparr>ts_columns := columns T\<rparr>) = []" using ne dist(1) by (subst no_difference) simp_all
    then show ?thesis using sql run True by (intro exI [of _ "statements g"] exI [of _ T]) simp
  next
    case False
    define T where "T = map (\<lambda>(c, v). (renamed (mines (gc_hints g)) c, v)) tbl @ map (\<lambda>c. (plain_column c, null)) (added g)"
    have run: "ddl_run word same null (statements g) tbl = Some T" and d: "distinct (map co_name (columns T))"
      and e: "set (ts_columns expected) \<subseteq> set (columns T)" "names (columns T) \<subseteq> names (ts_columns expected)"
      using run_statements [OF h g ok dist same tbl False, of null] unfolding T_def w by blast+
    have "columns T \<noteq> []" using False by (simp add: T_def columns_def)
    then have "bb_migrate_spec_diff expected (actual\<lparr>ts_columns := columns T\<rparr>) = []" using d e by (subst no_difference) simp_all
    moreover have "\<forall>(c, v)\<in>set tbl. \<exists>n. (c\<lparr>co_name := n\<rparr>, v) \<in> set T \<and>
        (n = co_name c \<or> \<lparr>rn_table = ts_table expected, rn_from = co_name c, rn_to = n\<rparr> \<in> set renames)"
    proof (clarify)
      fix c v assume "(c, v) \<in> set tbl"
      from kept_columns [OF h rs this] show "\<exists>n. (c\<lparr>co_name := n\<rparr>, v) \<in> set T \<and>
        (n = co_name c \<or> \<lparr>rn_table = ts_table expected, rn_from = co_name c, rn_to = n\<rparr> \<in> set renames)"
        unfolding T_def set_append by blast
    qed
    ultimately show ?thesis using sql run by blast
  qed
qed

definition tasks_before :: bb_migrate_table_spec where
  "tasks_before = \<lparr>ts_table = ''tasks'', ts_columns =
     [\<lparr>co_name = ''id'', co_type = ''INTEGER'', co_primary_key = True\<rparr>, \<lparr>co_name = ''status'', co_type = ''TEXT'', co_primary_key = False\<rparr>]\<rparr>"

definition tasks_after :: bb_migrate_table_spec where
  "tasks_after = \<lparr>ts_table = ''tasks'', ts_columns =
     [\<lparr>co_name = ''id'', co_type = ''INTEGER'', co_primary_key = True\<rparr>, \<lparr>co_name = ''state'', co_type = ''TEXT'', co_primary_key = False\<rparr>,
      \<lparr>co_name = ''due'', co_type = ''TEXT'', co_primary_key = False\<rparr>]\<rparr>"

definition tasks_sql :: string where
  "tasks_sql = ''ALTER TABLE tasks RENAME COLUMN status TO state;'' @ LF # ''ALTER TABLE tasks ADD COLUMN due TEXT;'' @ [LF]"

definition tasks_rows :: "(bb_migrate_column \<times> nat) list" where
  "tasks_rows = zip (ts_columns tasks_before) [1, 2]"

theorem generated_sql_witness:
  "\<exists>stmts tbl'. tasks_sql = concat (map ddl_text stmts) \<and> ddl_run (\<lambda>s. s \<noteq> ''order'') (=) 0 stmts tasks_rows = Some tbl' \<and>
    bb_migrate_spec_diff tasks_after (tasks_before\<lparr>ts_columns := columns tbl'\<rparr>) = []"
proof -
  have gen: "bb_migrate_generate_sql (\<lambda>n. n \<le> 1000) tasks_after tasks_before [\<lparr>rn_table = ''tasks'', rn_from = ''status'', rn_to = ''state''\<rparr>] =
      GEN_OK tasks_sql"
    by code_simp
  have "ts_columns tasks_after \<noteq> []" "columns tasks_rows = ts_columns tasks_before"
    "distinct (map co_name (ts_columns tasks_after))" "distinct (map co_name (ts_columns tasks_before))"
    by (simp_all add: tasks_after_def tasks_before_def tasks_rows_def columns_def)
  moreover have "same_on (=) (names (ts_columns tasks_after) \<union> names (ts_columns tasks_before))" by (simp add: same_on_def)
  moreover have "ts_table tasks_after \<noteq> ''order''"
    "\<forall>c\<in>set (ts_columns tasks_after). co_name c \<noteq> ''order'' \<and> co_type c \<noteq> ''order''"
    "\<forall>r\<in>set [\<lparr>rn_table = ''tasks'', rn_from = ''status'', rn_to = ''state''\<rparr>].
       rn_table r = ts_table tasks_after \<longrightarrow> rn_from r \<noteq> ''order''"
    "ts_columns tasks_before = [] \<longrightarrow> keys_of (ts_columns tasks_after) \<le> 1"
    by (simp_all add: tasks_after_def tasks_before_def)
  ultimately show ?thesis
    using generated_sql_closes_the_gap [OF gen, where same = "(=)" and word = "\<lambda>s. s \<noteq> ''order''" and null = "0 :: nat" and tbl = tasks_rows]
    by blast
qed

text \<open>
  What the hypotheses leave out. Every field of a manifest may be a primary key and the generator writes
  \<open>PRIMARY KEY\<close> behind each, and it quotes no name: it reports success with a statement that the database refuses.
\<close>

definition two_keys :: bb_migrate_table_spec where
  "two_keys = \<lparr>ts_table = ''marks'', ts_columns =
     [\<lparr>co_name = ''task'', co_type = ''INTEGER'', co_primary_key = True\<rparr>, \<lparr>co_name = ''user'', co_type = ''INTEGER'', co_primary_key = True\<rparr>]\<rparr>"

definition key_word :: bb_migrate_table_spec where
  "key_word = \<lparr>ts_table = ''marks'', ts_columns =
     [\<lparr>co_name = ''id'', co_type = ''INTEGER'', co_primary_key = True\<rparr>, \<lparr>co_name = ''order'', co_type = ''INTEGER'', co_primary_key = False\<rparr>]\<rparr>"

theorem two_primary_keys_are_generated:
  "bb_migrate_generate_sql (\<lambda>n. n \<le> 1000) two_keys (two_keys\<lparr>ts_columns := []\<rparr>) [] =
     GEN_OK (ddl_text (Create_Table ''marks'' (ts_columns two_keys))) \<and>
   ddl_run any_word (=) 0 [Create_Table ''marks'' (ts_columns two_keys)] [] = None"
  by code_simp

theorem keywords_are_not_quoted:
  "bb_migrate_generate_sql (\<lambda>n. n \<le> 1000) key_word (key_word\<lparr>ts_columns := []\<rparr>) [] =
     GEN_OK (ddl_text (Create_Table ''marks'' (ts_columns key_word))) \<and>
   ddl_run (\<lambda>s. s \<noteq> ''order'') (=) 0 [Create_Table ''marks'' (ts_columns key_word)] [] = None"
  by code_simp

end
