(* ===== verification/Spec2Isabelle.thy ===== *)
theory Spec2Isabelle
  imports Runtime_Theorems Http_Theorems Websocket_Theorems Hash_Theorems Web_Theorems Client_Theorems Session_Theorems Json_Theorems Template_Theorems Store_Theorems Migrate_Runs Generate_Theorems
begin

text \<open>
  A verification development for blue-bird, a web and back-end framework in C. Paths are relative to \<open>src/\<close>.

  \<^bold>\<open>The program.\<close> An event loop (\<open>modules/runtime\<close>) owns tasks and drives them from a run queue, a heap of timers and
  the readiness of descriptors. The web server (\<open>modules/web\<close>) runs on it: bytes of a connection are fed to an incremental
  HTTP parser; a complete message becomes a request, which passes the middleware, is routed and handled, and is answered
  through the write buffer of the connection; an upgraded connection exchanges WebSocket frames instead. Handlers use
  hashes, encodings and JSON (\<open>modules/utils\<close>), passwords and sessions (\<open>modules/security\<close>), templates
  (\<open>modules/template\<close>) and entities stored under schemas (\<open>modules/persist\<close>). A tool (\<open>tools/migrate\<close>) evolves a
  database by numbered SQL files.

  \<^bold>\<open>How C is modelled.\<close> Text is a list of \<open>char\<close> without the terminating zero, bytes of a connection are \<open>8 word\<close>, integers
  whose width matters are words. A null pointer is \<open>None\<close>. Operations that the code performs in place return the new state.
  Undefined behaviour (an access outside a buffer, a null or freed pointer) is the value \<open>None\<close> of the operation, so that
  its absence is a theorem and not an assumption. Whether an allocation succeeds is an input: a truth value, or a function of
  a counter or size. Linked structures whose sharing matters (the run queue, the tasks, the objects of JSON) live in an
  explicit store of nodes. System calls, the clock, randomness, \<open>qsort\<close>, database drivers and the program's own handlers
  are parameters; what is asked of them is stated as a named predicate (\<open>sorts\<close>, \<open>ledger_ok\<close>, \<open>transactions_ok\<close>) or as
  the premises of the theorem, and each witness supplies a concrete function.

  \<^bold>\<open>Parts.\<close>
  \<^item> \<open>BB_Prelude\<close>, \<open>C_Strings\<close>, \<open>C_Qsort\<close>: result types, list and word lemmas, \<open>show_nat\<close> and other C library functions,
    character classes, the contract of \<open>qsort\<close> and a sort that keeps it.
  \<^item> \<open>Timer_Heap\<close> (\<open>timer_heap.c\<close>), \<open>Task\<close> (\<open>task.c\<close>), \<open>Scheduler\<close> (\<open>scheduler.c\<close>), \<open>Poller\<close> (\<open>poller.c\<close>), \<open>Runtime\<close>
    (\<open>runtime.c\<close>): records for the structs, one definition per function, the tick and the loop. \<open>Task_Ownership\<close> and
    \<open>Runtime_Safety\<close> carry the invariant (each live task is held by the queue, a watcher, a timer or running code, and
    only those point to it, save that a task whose queue node could not be allocated is held by nothing),
    \<open>Runtime_Theorems\<close> the properties: over any interleaving of calls, ticks and runs no task is used after it is freed;
    destruction frees and cleans up exactly the tasks that are still held; the heap is a priority queue (locale \<open>min_queue\<close>), the queue is a queue (\<open>fifo_queue\<close>), a timer pass fires
    exactly the due timers and terminates, the loop never sleeps past a timer.
  \<^item> \<open>Http_Parser\<close> (\<open>web/src/http/parser.c\<close>): the parser as a step over the state of the C struct. \<open>Http_Segments\<close>
    shows that cuts of the stream do not matter, \<open>Http_Safety\<close> the buffer and limit invariant with the limits of the
    lines of each state, \<open>Http_Theorems\<close> the framing of messages, the safety of whole targets and the exact reading of lengths.
  \<^item> \<open>Connection\<close> (\<open>connection.c\<close>), \<open>Ws_Frame\<close> (\<open>websocket/frame.c\<close>, \<open>message.c\<close>, parts of \<open>websocket.c\<close>), \<open>Websocket\<close>
    (\<open>websocket.c\<close>): buffers, frames and sessions, with \<open>Ws_Theorems\<close> and \<open>Websocket_Theorems\<close>.
  \<^item> \<open>Http_Message\<close>, \<open>Server_Request\<close>, \<open>Router\<close>, \<open>Server\<close> (\<open>message.c\<close>, \<open>response.c\<close>, \<open>server_request.c\<close>, \<open>router.c\<close>,
    \<open>middleware.c\<close>, \<open>server.c\<close>): from a parsed message to the queued answer, with \<open>Web_Theorems\<close>.
  \<^item> \<open>Client\<close> (\<open>client.c\<close>, \<open>client_request.c\<close>, \<open>request.c\<close>): the requests a client sends and how it receives the response.
    \<open>Http_Wire\<close> follows the bytes of a serialised message through the parser, \<open>Client_Theorems\<close> shows that requests and
    responses arrive as they were sent, and what goes wrong when a client connects again.
  \<^item> \<open>Hash\<close>, \<open>Password\<close>, \<open>Session\<close> (\<open>hash.c\<close>, \<open>encoding.c\<close>, \<open>security/src\<close>): with \<open>Hash_Theorems\<close> (equal to the standards,
    which \<open>Hash_Standard\<close> states without the code: constants from the roots of primes, schedule, rounds and padding),
    \<open>Password_Theorems\<close> and \<open>Session_Theorems\<close> (the store is a map, locale \<open>keyed_store\<close>).
  \<^item> \<open>Json_Containers\<close>, \<open>Json_Real\<close>, \<open>Json\<close>, \<open>Json_Parse\<close> (\<open>utils/src/json.c\<close>): the node store, floats, values and
    serialisers, the parser. \<open>Json_Table\<close> proves that the hash table is a map in insertion order (locale \<open>ordered_map\<close>);
    the other theories use objects as such lists of members. \<open>Json_Print\<close>, \<open>Json_Real_Facts\<close>, \<open>Json_Theorems\<close>: writing
    and reading.
  \<^item> \<open>Template\<close>, \<open>Template_Theorems\<close> (\<open>modules/template/src\<close>): parser, growing buffer, renderer; the
    text written is that of the template in which a name whose path could not be copied is absent.
  \<^item> \<open>Schema\<close>, \<open>Query\<close>, \<open>Entity_Store\<close> (\<open>modules/persist/src\<close>): schemas, queries over entities as raw memory, the JSON
    back end as a function on the bytes of its file; \<open>Query_Theorems\<close>, \<open>Store_Theorems\<close> (the file is a table, locale
    \<open>row_table\<close>).
  \<^item> \<open>Migration\<close>, \<open>Migrate_Plan\<close>, \<open>Table_Spec\<close>, \<open>Generate\<close> (\<open>tools/migrate/src/migration.c\<close>, \<open>plan.c\<close>, \<open>runner.c\<close>,
    \<open>table_spec.c\<close>, \<open>generate.c\<close>): files, plan and run, table shapes and the generator; \<open>Migrate_Theorems\<close>,
    \<open>Migrate_Runs\<close>, \<open>Generate_Theorems\<close>. The latter states what the database makes of a generated statement, refusals
    included: a second primary key, a name that is none where it stands unquoted. The generator guards against neither, so
    its property assumes there are none, and examples show what it generates then.

  \<^bold>\<open>Bounds and fuel.\<close> Most loops are structural or have a measure. The JSON parser recurses with 512 levels, the depth the
  code allows; the fuel of its loops over elements and members is the length of the text, of which each turn consumes a
  character. The timer pass, the template parser and the growth of its buffer may run forever as they are written: they are
  partial functions, and \<open>update_timers_fires_exactly_the_due\<close>, \<open>template_parser_returns\<close> and \<open>renderer_writes_the_text\<close>
  show that they return. The properties that speak of sequences of operations quantify over all finite sequences.

  \<^bold>\<open>Taken for granted.\<close> Cleanup callbacks of tasks do not call the runtime: the code calls them in the middle of
  cancelling, unwatching and destroying, where the model records the call; those of this repository do not. Run callbacks
  may make any call. The stack suffices for the recursion of the template parser, which the code does not limit.

  \<^bold>\<open>Not modelled.\<close> The back ends of the poller, sockets, TLS, the clock and the random source (system calls and OpenSSL);
  the SQL back ends and the SQLite driver (libsqlite3 and libpq; the text of their statements has no meaning without
  them); opening handshakes of WebSocket clients, connection lists, metrics; reading configuration files;
  logging; the command lines of the tools and the code generator, which print text. Freeing memory is modelled where a use
  after it is possible (tasks, timers, connections, JSON nodes), and not where a tree is only torn down.
\<close>

end
